(* ===== verification/Prelude.thy ===== *)
theory Prelude
  imports Main "HOL-Library.Word" "HOL-Library.Multiset" "HOL-Library.Monad_Syntax"
begin

unbundle bit_operations_syntax

text \<open>
  Shared vocabulary of the development: the machine integers and byte strings of the native
  engine, the result type in which every fallible operation answers, readers that consume a
  byte string from its front, the little- and big-endian byte encodings of machine words, and
  the generic lemmas on lists and words that several components use.

  The collections \<open>codec_simps\<close> (round-trip equations, used forward as rewrite rules) and
  \<open>list_upd_simps\<close> (arrays updated in place) are extended by the components.
\<close>

named_theorems codec_simps \<open>round-trip equations of the encoders and decoders\<close>
named_theorems list_upd_simps \<open>lists updated in place\<close>

section \<open>Machine integers, byte strings and results\<close>

type_synonym u8 = "8 word"
type_synonym u16 = "16 word"
type_synonym u32 = "32 word"
type_synonym u64 = "64 word"
type_synonym u128 = "128 word"
type_synonym usize = "64 word"
type_synonym bytes = "8 word list"

text \<open>
  The failures the modelled code can answer with: end of input while reading, an input the
  code rejects, a data type it does not implement, and a panic (a failed assertion, an
  index out of range, an \<open>expect\<close> on a missing value).
\<close>

datatype error = UnexpectedEof | ExecutionErr | NotImplemented | Panic

type_synonym 'a result = "error + 'a"
type_synonym 'a reader = "bytes \<Rightarrow> ('a \<times> bytes) result"

text \<open>The \<open>?\<close> operator: the first error is the answer.\<close>

definition res_bind :: "'a result \<Rightarrow> ('a \<Rightarrow> 'b result) \<Rightarrow> 'b result" where
  "res_bind r f = (case r of Inl e \<Rightarrow> Inl e | Inr x \<Rightarrow> f x)"

definition res_map :: "('a \<Rightarrow> 'b) \<Rightarrow> 'a result \<Rightarrow> 'b result" where
  "res_map f r = (case r of Inl e \<Rightarrow> Inl e | Inr x \<Rightarrow> Inr (f x))"

lemma res_bind_simps [simp]:
  "res_bind (Inr x) f = f x"
  "res_bind (Inl e) f = Inl e"
  by (simp_all add: res_bind_def)

lemma res_bind_Inr_iff:
  "res_bind r f = Inr y \<longleftrightarrow> (\<exists>x. r = Inr x \<and> f x = Inr y)"
  by (cases r) simp_all

lemma res_map_simps [simp]:
  "res_map f (Inr x) = Inr (f x)"
  "res_map f (Inl e) = Inl e"
  by (simp_all add: res_map_def)

text \<open>Sequencing of readers: the second starts where the first stopped.\<close>

definition rd_bind :: "'a reader \<Rightarrow> ('a \<Rightarrow> 'b reader) \<Rightarrow> 'b reader" where
  "rd_bind r f = (\<lambda>inp. case r inp of Inl e \<Rightarrow> Inl e | Inr (x, rest) \<Rightarrow> f x rest)"

definition rd_return :: "'a \<Rightarrow> 'a reader" where
  "rd_return x = (\<lambda>inp. Inr (x, inp))"

lemma rd_bind_Inr: "r inp = Inr (x, rest) \<Longrightarrow> rd_bind r f inp = f x rest"
  by (simp add: rd_bind_def)

lemma rd_bind_Inl: "r inp = Inl e \<Longrightarrow> rd_bind r f inp = Inl e"
  by (simp add: rd_bind_def)

lemma rd_return_apply [simp]: "rd_return x inp = Inr (x, inp)"
  by (simp add: rd_return_def)

text \<open>Reading the same kind of item \<open>n\<close> times.\<close>

fun rd_repeat :: "nat \<Rightarrow> 'a reader \<Rightarrow> 'a list reader" where
  "rd_repeat 0 r = rd_return []"
| "rd_repeat (Suc n) r = rd_bind r (\<lambda>x. rd_bind (rd_repeat n r) (\<lambda>xs. rd_return (x # xs)))"

lemma rd_repeat_roundtrip:
  assumes "\<And>x rest. x \<in> set xs \<Longrightarrow> r (enc x @ rest) = Inr (x, rest)"
  shows "rd_repeat (length xs) r (concat (map enc xs) @ rest) = Inr (xs, rest)"
  using assms
proof (induction xs)
  case Nil
  then show ?case by simp
next
  case (Cons x xs)
  have "r (enc x @ concat (map enc xs) @ rest) = Inr (x, concat (map enc xs) @ rest)"
    by (rule Cons.prems) simp
  moreover have "rd_repeat (length xs) r (concat (map enc xs) @ rest) = Inr (xs, rest)"
    by (rule Cons.IH) (simp add: Cons.prems)
  ultimately show ?case by (simp add: rd_bind_def)
qed

section \<open>Words as byte strings\<close>

text \<open>
  \<open>to_le_bytes\<close> and \<open>from_le_bytes\<close> of Rust's integer types: the \<open>n\<close> low bytes, least
  significant first. The native encoding (\<open>to_ne_bytes\<close>) is the little-endian one on the
  targets the engine is built for.
\<close>

fun le_bytes :: "nat \<Rightarrow> 'a::len word \<Rightarrow> bytes" where
  "le_bytes 0 x = []"
| "le_bytes (Suc n) x = ucast x # le_bytes n (drop_bit 8 x)"

fun of_le_bytes :: "bytes \<Rightarrow> 'a::len word" where
  "of_le_bytes [] = 0"
| "of_le_bytes (b # bs) = ucast b OR push_bit 8 (of_le_bytes bs)"

definition be_bytes :: "nat \<Rightarrow> 'a::len word \<Rightarrow> bytes" where
  "be_bytes n x = rev (le_bytes n x)"

definition of_be_bytes :: "bytes \<Rightarrow> 'a::len word" where
  "of_be_bytes bs = of_le_bytes (rev bs)"

lemma length_le_bytes [simp]: "length (le_bytes n x) = n"
  by (induction n arbitrary: x) simp_all

lemma length_be_bytes [simp]: "length (be_bytes n x) = n"
  by (simp add: be_bytes_def)

lemma of_le_bytes_le_bytes_cast:
  "(of_le_bytes (le_bytes n (x :: 'a::len word)) :: 'b::len word) = ucast (take_bit (8 * n) x)"
proof (induction n arbitrary: x)
  case 0
  then show ?case by simp
next
  case (Suc n)
  have "(ucast (ucast x :: u8) :: 'b word) OR push_bit 8 (ucast (take_bit (8 * n) (drop_bit 8 x)))
      = ucast (take_bit (8 * Suc n) x)"
    by (rule bit_word_eqI) (auto simp: bit_simps dest: bit_imp_le_length)
  with Suc show ?case by simp
qed

lemma of_le_bytes_le_bytes: "of_le_bytes (le_bytes n x) = take_bit (8 * n) x"
  by (simp add: of_le_bytes_le_bytes_cast)

lemma le_bytes_add: "le_bytes (m + n) x = le_bytes m x @ le_bytes n (drop_bit (8 * m) x)"
  by (induction m arbitrary: x) (simp_all add: drop_bit_drop_bit add.commute)

lemma of_le_bytes_cast_low:
  "LENGTH('b) \<le> 8 * n \<Longrightarrow>
   (of_le_bytes (le_bytes n (x :: 'a::len word)) :: 'b::len word) = ucast x"
  by (rule bit_word_eqI) (auto simp: of_le_bytes_le_bytes_cast bit_simps)

lemma le_bytes_roundtrip [codec_simps]:
  "LENGTH('a) \<le> 8 * n \<Longrightarrow> of_le_bytes (le_bytes n (x :: 'a::len word)) = x"
  by (simp add: of_le_bytes_le_bytes take_bit_word_eq_self)

lemma be_bytes_roundtrip [codec_simps]:
  "LENGTH('a) \<le> 8 * n \<Longrightarrow> of_be_bytes (be_bytes n (x :: 'a::len word)) = x"
  by (simp add: of_be_bytes_def be_bytes_def le_bytes_roundtrip)

section \<open>Lists updated in place\<close>

text \<open>
  Access to a vector by index. \<open>None\<close> is an access outside the vector: undefined behaviour
  for the \<open>unchecked_index\<close> wrapper, a panic for a checked one. A lemma that an operation
  answers \<open>Some\<close> is therefore a memory-safety lemma.
\<close>

definition vget :: "'a list \<Rightarrow> nat \<Rightarrow> 'a option" where
  "vget xs i = (if i < length xs then Some (xs ! i) else None)"

definition vset :: "'a list \<Rightarrow> nat \<Rightarrow> 'a \<Rightarrow> 'a list option" where
  "vset xs i v = (if i < length xs then Some (xs[i := v]) else None)"

lemma vget_in [simp]: "i < length xs \<Longrightarrow> vget xs i = Some (xs ! i)"
  by (simp add: vget_def)

lemma vset_in [simp]: "i < length xs \<Longrightarrow> vset xs i v = Some (xs[i := v])"
  by (simp add: vset_def)

lemma vget_first [simp]: "xs \<noteq> [] \<Longrightarrow> vget xs 0 = Some (xs ! 0)"
  by (simp add: vget_def)

lemma one_less_double_length: "xs \<noteq> [] \<Longrightarrow> 1 < 2 * length xs"
  by (cases xs) simp_all

lemma vget_Some_iff: "vget xs i = Some v \<longleftrightarrow> i < length xs \<and> v = xs ! i"
  by (auto simp: vget_def)

lemma vset_Some_iff: "vset xs i v = Some ys \<longleftrightarrow> i < length xs \<and> ys = xs[i := v]"
  by (auto simp: vset_def)

definition usize_max :: nat where
  "usize_max = 2 ^ 64 - 1"

definition swap :: "'a list \<Rightarrow> nat \<Rightarrow> nat \<Rightarrow> 'a list" where
  "swap xs i j = xs[i := xs ! j, j := xs ! i]"

lemma length_swap [simp]: "length (swap xs i j) = length xs"
  by (simp add: swap_def)

lemma mset_swap_eq [simp]:
  "i < length xs \<Longrightarrow> j < length xs \<Longrightarrow> mset (swap xs i j) = mset xs"
  by (simp add: swap_def mset_swap)

lemma nth_swap [list_upd_simps]:
  "i < length xs \<Longrightarrow> j < length xs \<Longrightarrow> k < length xs \<Longrightarrow>
   swap xs i j ! k = (if k = j then xs ! i else if k = i then xs ! j else xs ! k)"
  by (auto simp: swap_def nth_list_update)

lemma sum_map_update:
  fixes f :: "'a \<Rightarrow> 'b::comm_monoid_add"
  assumes "i < length xs"
  shows "sum_list (map f (xs[i := v])) + f (xs ! i) = sum_list (map f xs) + f v"
  using assms
proof (induction xs arbitrary: i)
  case Nil
  then show ?case by simp
next
  case (Cons x xs)
  show ?case
  proof (cases i)
    case 0
    then show ?thesis by (simp add: ac_simps)
  next
    case (Suc j)
    with Cons.IH [of j] Cons.prems show ?thesis by (simp add: ac_simps)
  qed
qed

lemma map_update_same: "f v = f (xs ! i) \<Longrightarrow> map f (xs[i := v]) = map f xs"
  by (metis list_update_id map_update)

lemma unat_ucast_small:
  "unat x < 2 ^ LENGTH('b) \<Longrightarrow> unat (ucast (x :: 'a::len word) :: 'b::len word) = unat x"
  by (simp add: unsigned_ucast_eq take_bit_nat_eq_self)

section \<open>All or nothing\<close>

lemma those_Some_iff: "those xs = Some ys \<longleftrightarrow> xs = map Some ys"
  by (induction xs arbitrary: ys) (auto split: option.splits simp: map_eq_Cons_conv)

lemma those_map_cong: "(\<And>x. x \<in> set xs \<Longrightarrow> f x = g x) \<Longrightarrow> those (map f xs) = those (map g xs)"
  by (metis map_cong)

lemma those_None_iff: "those xs = None \<longleftrightarrow> None \<in> set xs"
  by (induction xs) (auto split: option.splits)

lemma those_append: "those (xs @ ys) = do { a \<leftarrow> those xs; b \<leftarrow> those ys; Some (a @ b) }"
  by (induction xs) (auto split: option.splits Option.bind_splits)

lemma vget_append: "vget xs i = Some x \<Longrightarrow> vget (xs @ ys) i = Some x"
  by (auto simp: vget_def nth_append split: if_splits)

section \<open>Chunks\<close>

text \<open>Chunks of \<open>n\<close> bytes; what is left over is dropped.\<close>

function chunks_exact :: "nat \<Rightarrow> 'a list \<Rightarrow> 'a list list" where
  "chunks_exact n xs =
     (if 0 < n \<and> n \<le> length xs then take n xs # chunks_exact n (drop n xs) else [])"
  by pat_completeness auto
termination by (relation "measure (\<lambda>(n, xs). length xs)") auto

declare chunks_exact.simps [simp del]

lemma chunks_exact_short: "length xs < n \<Longrightarrow> chunks_exact n xs = []"
  by (simp add: chunks_exact.simps)

lemma chunks_exact_step:
  "0 < n \<Longrightarrow> n \<le> length xs \<Longrightarrow> chunks_exact n xs = take n xs # chunks_exact n (drop n xs)"
  by (subst chunks_exact.simps) simp

lemma chunks_exact_concat:
  "0 < n \<Longrightarrow> (\<And>x. x \<in> set xs \<Longrightarrow> length x = n) \<Longrightarrow> chunks_exact n (concat xs) = xs"
  by (induction xs) (simp_all add: chunks_exact_short chunks_exact_step)

lemma length_concat_const:
  "(\<And>x. x \<in> set xs \<Longrightarrow> length x = n) \<Longrightarrow> length (concat xs) = n * length xs"
  by (induction xs) simp_all

section \<open>Powers of two\<close>

text \<open>\<open>usize::next_power_of_two\<close>, by doubling.\<close>

function next_pow2_from :: "nat \<Rightarrow> nat \<Rightarrow> nat" where
  "next_pow2_from p n = (if 0 < p \<and> p < n then next_pow2_from (2 * p) n else p)"
  by pat_completeness auto
termination by (relation "measure (\<lambda>(p, n). n - p)") auto

declare next_pow2_from.simps [simp del]

definition next_power_of_two :: "nat \<Rightarrow> nat" where
  "next_power_of_two n = next_pow2_from 1 n"

lemma next_pow2_from_power: "\<exists>k. next_pow2_from p n = p * 2 ^ k"
proof (induction p n rule: next_pow2_from.induct)
  case (1 p n)
  show ?case
  proof (cases "0 < p \<and> p < n")
    case True
    with 1 obtain k where "next_pow2_from (2 * p) n = 2 * p * 2 ^ k" by blast
    with True have "next_pow2_from p n = p * 2 ^ Suc k" by (simp add: next_pow2_from.simps)
    then show ?thesis by blast
  next
    case False
    then have "next_pow2_from p n = p * 2 ^ 0" by (subst next_pow2_from.simps) auto
    then show ?thesis by blast
  qed
qed

lemma next_power_of_two_power: "\<exists>k. next_power_of_two n = 2 ^ k"
  using next_pow2_from_power [of 1 n] by (simp add: next_power_of_two_def)

lemma next_pow2_from_ge: "0 < p \<Longrightarrow> n \<le> next_pow2_from p n"
proof (induction p n rule: next_pow2_from.induct)
  case (1 p n)
  then show ?case by (cases "p < n") (simp_all add: next_pow2_from.simps [of p n])
qed

lemma next_power_of_two_ge: "n \<le> next_power_of_two n"
  by (simp add: next_power_of_two_def next_pow2_from_ge)

text \<open>\<open>trailing_zeros\<close> of a non-zero number.\<close>

fun trailing_zeros :: "nat \<Rightarrow> nat" where
  "trailing_zeros n = (if n = 0 \<or> odd n then 0 else Suc (trailing_zeros (n div 2)))"

declare trailing_zeros.simps [simp del]

lemma trailing_zeros_power: "trailing_zeros (2 ^ k) = k"
  by (induction k) (simp_all add: trailing_zeros.simps)

lemma power_trailing_zeros: "2 ^ trailing_zeros (next_power_of_two n) = next_power_of_two n"
  using next_power_of_two_power [of n] by (auto simp: trailing_zeros_power)

end
