(* ===== verification/Io_Codec.thy ===== *)
theory Io_Codec
  imports Prelude
begin

text \<open>
  The primitive stream codecs of \<open>datafusion-ext-commons/src/io/mod.rs\<close>: single bytes,
  byte slices and the variable-length lengths every other format of the engine is built on.
  A writer answers the bytes it appends to its (infallible, in-memory or buffered) sink; a
  reader consumes its input from the front and answers \<open>UnexpectedEof\<close> where
  \<open>read_exact\<close> does.
\<close>

section \<open>Bytes\<close>

definition write_u8 :: "u8 \<Rightarrow> bytes" where
  "write_u8 n = [n]"

definition read_exact :: "nat \<Rightarrow> bytes reader" where
  "read_exact n inp =
     (if n \<le> length inp then Inr (take n inp, drop n inp) else Inl UnexpectedEof)"

definition read_u8 :: "u8 reader" where
  "read_u8 = rd_bind (read_exact 1) (\<lambda>buf. rd_return (buf ! 0))"

definition read_bytes_slice :: "nat \<Rightarrow> bytes reader" where
  "read_bytes_slice len = read_exact len"

section \<open>Variable-length lengths\<close>

text \<open>
  \<open>usize\<close> is a 64-bit word. The arithmetic of \<open>read_len\<close> wraps: the build profiles of the
  workspace do not enable overflow checks.
\<close>

function write_len :: "usize \<Rightarrow> bytes" where
  "write_len len =
     (if 128 \<le> len then write_u8 (128 + ucast (len mod 128)) @ write_len (len div 128)
      else write_u8 (ucast len))"
  by pat_completeness auto
termination
proof (relation "measure unat")
  fix len :: usize
  assume "128 \<le> len"
  then have "unat (len div 128) < unat len"
    by (simp add: unat_div word_le_nat_alt)
  then show "(len div 128, len) \<in> measure unat" by simp
qed simp

declare write_len.simps [simp del]

fun read_len_loop :: "usize \<Rightarrow> usize \<Rightarrow> usize reader" where
  "read_len_loop len factor [] = Inl UnexpectedEof"
| "read_len_loop len factor (v # inp) =
     (if v < 128 then Inr (len + ucast v * factor, inp)
      else read_len_loop (len + ucast (v - 128) * factor) (factor * 128) inp)"

definition read_len :: "usize reader" where
  "read_len = read_len_loop 0 1"

section \<open>Correctness\<close>

lemma read_exact_append [codec_simps]:
  "length bs = n \<Longrightarrow> read_exact n (bs @ rest) = Inr (bs, rest)"
  by (simp add: read_exact_def)

lemma read_exact_short: "length inp < n \<Longrightarrow> read_exact n inp = Inl UnexpectedEof"
  by (simp add: read_exact_def)

lemma read_u8_append [codec_simps]: "read_u8 (write_u8 n @ rest) = Inr (n, rest)"
  by (simp add: read_u8_def rd_bind_def read_exact_def write_u8_def)

lemma read_u8_Cons [simp]: "read_u8 (n # rest) = Inr (n, rest)"
  by (simp add: read_u8_def rd_bind_def read_exact_def)

lemma read_bytes_slice_append [codec_simps]:
  "length bs = n \<Longrightarrow> read_bytes_slice n (bs @ rest) = Inr (bs, rest)"
  by (simp add: read_bytes_slice_def codec_simps)

lemma unat_mod_128: "unat (len mod 128 :: usize) < 128"
  by (simp add: unat_mod)

lemma continuation_byte:
  fixes len :: usize
  defines "b \<equiv> 128 + ucast (len mod 128) :: u8"
  shows "\<not> b < 128" and "ucast (b - 128) = len mod 128"
proof -
  have m: "unat (len mod 128) < 128" by (rule unat_mod_128)
  then have u: "unat (ucast (len mod 128) :: u8) = unat (len mod 128)"
    by (simp add: unat_ucast_small)
  then have "unat b = 128 + unat (len mod 128)"
    using m unfolding b_def by (simp add: unat_word_ariths)
  then show "\<not> b < 128" by (simp add: word_less_nat_alt)
  have "unat (ucast (b - 128) :: usize) = unat (len mod 128)"
    using u m unfolding b_def by (simp add: unat_ucast_small)
  then show "ucast (b - 128) = len mod 128"
    by (simp add: word_unat_eq_iff)
qed

lemma final_byte:
  fixes len :: usize
  assumes "\<not> 128 \<le> len"
  shows "(ucast len :: u8) < 128" and "ucast (ucast len :: u8) = len"
proof -
  have m: "unat len < 128" using assms by (simp add: word_le_nat_alt)
  then have u: "unat (ucast len :: u8) = unat len"
    by (simp add: unat_ucast_small)
  with m show "(ucast len :: u8) < 128" by (simp add: word_less_nat_alt)
  have "unat (ucast (ucast len :: u8) :: usize) = unat len"
    using u m by (simp add: unat_ucast_small)
  then show "ucast (ucast len :: u8) = len" by (simp add: word_unat_eq_iff)
qed

lemma read_len_loop_write_len:
  "read_len_loop acc factor (write_len len @ rest) = Inr (acc + len * factor, rest)"
proof (induction len arbitrary: acc factor rule: write_len.induct)
  case (1 len)
  show ?case
  proof (cases "128 \<le> len")
    case True
    have "read_len_loop acc factor (write_len len @ rest)
        = read_len_loop (acc + (len mod 128) * factor) (factor * 128) (write_len (len div 128) @ rest)"
      using continuation_byte [of len] True
      by (simp add: write_len.simps [of len] write_u8_def)
    also have "\<dots> = Inr (acc + (len mod 128) * factor + (len div 128) * (factor * 128), rest)"
      using "1" [OF True] by simp
    also have "acc + (len mod 128) * factor + (len div 128) * (factor * 128)
        = acc + (len div 128 * 128 + len mod 128) * factor"
      by (simp add: algebra_simps)
    finally show ?thesis by (simp add: div_mult_mod_eq)
  next
    case False
    then show ?thesis
      using final_byte [OF False] by (simp add: write_len.simps [of len] write_u8_def)
  qed
qed

lemma read_len_append [codec_simps]: "read_len (write_len len @ rest) = Inr (len, rest)"
  by (simp add: read_len_def read_len_loop_write_len)

end
