(* ===== verification/Loser_Tree.thy ===== *)
theory Loser_Tree
  imports Prelude
begin

text \<open>
  The tournament loser tree of \<open>datafusion-ext-commons/src/algorithm/loser_tree.rs\<close>, on
  which the external sort merges its sorted blocks. The tree is a heap-shaped binary tree:
  inner nodes \<open>1 ..< n\<close> store the index of the value that lost there, node \<open>n + i\<close> is the
  leaf of \<open>values[i]\<close>, and \<open>losers[0]\<close> is the overall winner.
\<close>

section \<open>The structure and its operations\<close>

record 'a loser_tree =
  losers :: "nat list"
  lt_values :: "'a list"

text \<open>The inner \<open>while\<close> of \<open>init_tree\<close>, followed by the store of the winner.\<close>

function init_climb ::
  "('a \<Rightarrow> 'a \<Rightarrow> bool) \<Rightarrow> 'a list \<Rightarrow> nat list \<Rightarrow> nat \<Rightarrow> nat \<Rightarrow> nat list option" where
  "init_climb lt vs ls winner cmp_node =
     do { here \<leftarrow> vget ls cmp_node;
          if cmp_node \<noteq> 0 \<and> here \<noteq> usize_max
          then do {
            c \<leftarrow> vget vs here;
            w \<leftarrow> vget vs winner;
            if lt c w
            then do { ls' \<leftarrow> vset ls cmp_node winner;
                      init_climb lt vs ls' here (cmp_node div 2) }
            else do { ls' \<leftarrow> vset ls cmp_node here;
                      init_climb lt vs ls' winner (cmp_node div 2) } }
          else vset ls cmp_node winner }"
  by pat_completeness auto
termination
  by (relation "measure (\<lambda>(lt, vs, ls, winner, cmp_node). cmp_node)") auto

text \<open>The outer \<open>for\<close> of \<open>init_tree\<close>, over the indices not yet entered.\<close>

fun init_loop ::
  "('a \<Rightarrow> 'a \<Rightarrow> bool) \<Rightarrow> 'a list \<Rightarrow> nat list \<Rightarrow> nat list \<Rightarrow> nat list option" where
  "init_loop lt vs ls [] = Some ls"
| "init_loop lt vs ls (i # is) =
     do { ls' \<leftarrow> init_climb lt vs ls i ((length vs + i) div 2);
          init_loop lt vs ls' is }"

definition init_tree :: "('a \<Rightarrow> 'a \<Rightarrow> bool) \<Rightarrow> 'a list \<Rightarrow> nat list option" where
  "init_tree lt vs =
     init_loop lt vs (replicate (length vs) usize_max) [0..<length vs]"

definition new_tree :: "('a \<Rightarrow> 'a \<Rightarrow> bool) \<Rightarrow> 'a list \<Rightarrow> 'a loser_tree option" where
  "new_tree lt vs = do { ls \<leftarrow> init_tree lt vs; Some \<lparr>losers = ls, lt_values = vs\<rparr> }"

text \<open>The \<open>while\<close> of \<open>adjust_tree\<close>, followed by the store of the winner.\<close>

function adjust_climb ::
  "('a \<Rightarrow> 'a \<Rightarrow> bool) \<Rightarrow> 'a list \<Rightarrow> nat list \<Rightarrow> nat \<Rightarrow> nat \<Rightarrow> nat list option" where
  "adjust_climb lt vs ls winner cmp_node =
     (if cmp_node \<noteq> 0
      then do {
        challenger \<leftarrow> vget ls cmp_node;
        c \<leftarrow> vget vs challenger;
        w \<leftarrow> vget vs winner;
        if lt c w
        then do { ls' \<leftarrow> vset ls cmp_node winner;
                  adjust_climb lt vs ls' challenger (cmp_node div 2) }
        else adjust_climb lt vs ls winner (cmp_node div 2) }
      else vset ls 0 winner)"
  by pat_completeness auto
termination
  by (relation "measure (\<lambda>(lt, vs, ls, winner, cmp_node). cmp_node)") auto

declare init_climb.simps [simp del] adjust_climb.simps [simp del]

definition adjust_tree :: "('a \<Rightarrow> 'a \<Rightarrow> bool) \<Rightarrow> 'a loser_tree \<Rightarrow> 'a loser_tree option" where
  "adjust_tree lt t =
     do { winner \<leftarrow> vget (losers t) 0;
          ls \<leftarrow> adjust_climb lt (lt_values t) (losers t) winner
                  ((length (lt_values t) + winner) div 2);
          Some (t\<lparr>losers := ls\<rparr>) }"

definition tree_len :: "'a loser_tree \<Rightarrow> nat" where
  "tree_len t = length (lt_values t)"

text \<open>\<open>LoserTree::peek\<close> as written: it reads \<open>values[0]\<close>, not the winner.\<close>

definition tree_peek :: "'a loser_tree \<Rightarrow> 'a option" where
  "tree_peek t = vget (lt_values t) 0"

text \<open>The guard \<open>LoserTreePeekMut\<close>: it adjusts the tree when a mutated guard is dropped.\<close>

record 'a peek_guard =
  guard_tree :: "'a loser_tree"
  dirty :: bool

definition peek_mut :: "'a loser_tree \<Rightarrow> 'a peek_guard" where
  "peek_mut t = \<lparr>guard_tree = t, dirty = False\<rparr>"

definition guard_deref :: "'a peek_guard \<Rightarrow> 'a option" where
  "guard_deref g =
     do { i \<leftarrow> vget (losers (guard_tree g)) 0; vget (lt_values (guard_tree g)) i }"

text \<open>\<open>deref_mut\<close> hands out a mutable reference; \<open>f\<close> is what the borrower does with it.\<close>

definition guard_deref_mut :: "('a \<Rightarrow> 'a) \<Rightarrow> 'a peek_guard \<Rightarrow> 'a peek_guard option" where
  "guard_deref_mut f g =
     do { i \<leftarrow> vget (losers (guard_tree g)) 0;
          v \<leftarrow> vget (lt_values (guard_tree g)) i;
          vs \<leftarrow> vset (lt_values (guard_tree g)) i (f v);
          Some (g\<lparr>guard_tree := (guard_tree g)\<lparr>lt_values := vs\<rparr>, dirty := True\<rparr>) }"

definition guard_adjust :: "('a \<Rightarrow> 'a \<Rightarrow> bool) \<Rightarrow> 'a peek_guard \<Rightarrow> 'a peek_guard option" where
  "guard_adjust lt g =
     (if dirty g
      then do { t \<leftarrow> adjust_tree lt (guard_tree g);
                Some (g\<lparr>guard_tree := t, dirty := False\<rparr>) }
      else Some g)"

definition guard_drop :: "('a \<Rightarrow> 'a \<Rightarrow> bool) \<Rightarrow> 'a peek_guard \<Rightarrow> 'a loser_tree option" where
  "guard_drop lt g = (if dirty g then adjust_tree lt (guard_tree g) else Some (guard_tree g))"

section \<open>The tournament\<close>

text \<open>
  The order a comparison has to come from: \<open>lt\<close> decides a total preorder \<open>le\<close> up to ties,
  which it may decide either way (the cursors of the external sort answer \<open>True\<close> both ways
  on two exhausted cursors).
\<close>

locale tournament_order =
  fixes lt :: "'a \<Rightarrow> 'a \<Rightarrow> bool" and le :: "'a \<Rightarrow> 'a \<Rightarrow> bool"
  assumes lt_le: "lt a b \<Longrightarrow> le a b"
    and not_lt_le: "\<not> lt a b \<Longrightarrow> le b a"
    and le_trans: "le a b \<Longrightarrow> le b c \<Longrightarrow> le a c"
begin

lemma le_refl: "le a a"
  using lt_le not_lt_le by blast

end

text \<open>The other child of a node's parent.\<close>

definition sib :: "nat \<Rightarrow> nat" where
  "sib d = (if even d then d + 1 else d - 1)"

lemma sib_parent: "2 \<le> d \<Longrightarrow> sib d div 2 = d div 2"
  by (auto simp: sib_def elim!: evenE oddE)

lemma sib_neq: "2 \<le> d \<Longrightarrow> sib d \<noteq> d"
  by (auto simp: sib_def)

lemma children_sib: "2 \<le> d \<Longrightarrow>
  (d = 2 * (d div 2) \<and> sib d = 2 * (d div 2) + 1) \<or> (d = 2 * (d div 2) + 1 \<and> sib d = 2 * (d div 2))"
  by (auto simp: sib_def)

text \<open>
  At node \<open>k\<close> the values \<open>W (2 * k)\<close> and \<open>W (2 * k + 1)\<close> met: \<open>W k\<close> won and \<open>l\<close> lost.
\<close>

definition played :: "('a \<Rightarrow> 'a \<Rightarrow> bool) \<Rightarrow> 'a list \<Rightarrow> (nat \<Rightarrow> nat) \<Rightarrow> nat \<Rightarrow> nat \<Rightarrow> bool" where
  "played le vs W l k \<longleftrightarrow>
     ((W k = W (2 * k) \<and> l = W (2 * k + 1)) \<or> (W k = W (2 * k + 1) \<and> l = W (2 * k)))
     \<and> le (vs ! W k) (vs ! l)"

definition tournament :: "('a \<Rightarrow> 'a \<Rightarrow> bool) \<Rightarrow> 'a list \<Rightarrow> nat list \<Rightarrow> (nat \<Rightarrow> nat) \<Rightarrow> bool" where
  "tournament le vs ls W \<longleftrightarrow>
     length ls = length vs
     \<and> (\<forall>i < length vs. W (length vs + i) = i)
     \<and> (\<forall>k. 1 \<le> k \<and> k < length vs \<longrightarrow> played le vs W (ls ! k) k)
     \<and> ls ! 0 = W 1"

definition tree_inv :: "('a \<Rightarrow> 'a \<Rightarrow> bool) \<Rightarrow> 'a loser_tree \<Rightarrow> bool" where
  "tree_inv le t \<longleftrightarrow> lt_values t \<noteq> [] \<and> (\<exists>W. tournament le (lt_values t) (losers t) W)"

lemma played_at_parent:
  assumes d: "2 \<le> d"
  shows "played le vs W l (d div 2) \<longleftrightarrow>
    ((W (d div 2) = W d \<and> l = W (sib d)) \<or> (W (d div 2) = W (sib d) \<and> l = W d))
    \<and> le (vs ! W (d div 2)) (vs ! l)"
proof (cases "even d")
  case True
  then obtain p where "d = 2 * p" by (elim evenE)
  then show ?thesis by (auto simp: played_def sib_def)
next
  case False
  then obtain p where "d = 2 * p + 1" by (elim oddE)
  then show ?thesis by (auto simp: played_def sib_def)
qed

text \<open>Nodes on the way from a node to the root.\<close>

fun anc :: "nat \<Rightarrow> nat \<Rightarrow> bool" where
  "anc k d = (if 1 < d then k = d \<or> anc k (d div 2) else k = d)"

declare anc.simps [simp del]

lemma anc_iff: "anc k d \<longleftrightarrow> k = d \<or> (1 < d \<and> anc k (d div 2))"
  by (subst anc.simps) auto

lemma anc_refl [simp]: "anc d d"
  by (simp add: anc_iff [of d d])

lemma anc_le: "anc k d \<Longrightarrow> k \<le> d"
proof (induction k d rule: anc.induct)
  case (1 k d)
  have "k \<le> d div 2" if "1 < d" "anc k (d div 2)"
    using "1.IH" [OF that] .
  with "1.prems" show ?case
    by (auto simp: anc_iff [of k d] intro: order_trans [OF _ div_le_dividend])
qed

lemma anc_root: "1 \<le> d \<Longrightarrow> anc 1 d"
proof (induction d rule: less_induct)
  case (less d)
  show ?case
  proof (cases "d = 1")
    case True
    then show ?thesis by simp
  next
    case False
    with less.prems have "1 < d" by simp
    then have "anc 1 (d div 2)" by (intro less.IH) auto
    with \<open>1 < d\<close> show ?thesis by (subst anc_iff) simp
  qed
qed

lemma anc_parent: "anc k d \<Longrightarrow> 2 \<le> k \<Longrightarrow> anc (k div 2) d"
proof (induction k d rule: anc.induct)
  case (1 k d)
  show ?case
  proof (cases "k = d")
    case True
    with "1.prems" show ?thesis by (subst anc_iff) simp
  next
    case False
    with "1.prems" have "1 < d" "anc k (d div 2)" by (auto simp: anc_iff [of k d])
    with "1.IH" "1.prems" show ?thesis by (simp add: anc_iff [of "k div 2" d])
  qed
qed

text \<open>Two nodes of the same generation are never both above a leaf.\<close>

lemma anc_not_sib: "anc k d \<Longrightarrow> 2 \<le> k \<Longrightarrow> \<not> anc (sib k) d"
proof (induction k d rule: anc.induct)
  case (1 k d)
  show ?case
  proof
    assume s: "anc (sib k) d"
    have up: "sib k div 2 = k div 2" using "1.prems"(2) by (rule sib_parent)
    have ne: "sib k \<noteq> k" using "1.prems"(2) by (rule sib_neq)
    show False
    proof (cases "k = d")
      case True
      with s ne have "anc (sib k) (k div 2)" using anc_iff [of "sib k" d] by auto
      then have "sib k \<le> k div 2" by (rule anc_le)
      with up "1.prems"(2) show False by linarith
    next
      case False
      with "1.prems" have d: "1 < d" "anc k (d div 2)" by (auto simp: anc_iff [of k d])
      show False
      proof (cases "sib k = d")
        case True
        with d up have "anc k (k div 2)" by simp
        then have "k \<le> k div 2" by (rule anc_le)
        with "1.prems"(2) show False by simp
      next
        case False
        with s have "anc (sib k) (d div 2)" by (simp add: anc_iff [of "sib k" d])
        with "1.IH" [OF d "1.prems"(2)] show False by simp
      qed
    qed
  qed
qed

lemma tournamentD:
  assumes "tournament le vs ls W"
  shows "length ls = length vs"
    and "i < length vs \<Longrightarrow> W (length vs + i) = i"
    and "1 \<le> k \<Longrightarrow> k < length vs \<Longrightarrow> played le vs W (ls ! k) k"
    and "ls ! 0 = W 1"
  using assms by (auto simp: tournament_def)

lemma downward_induct [consumes 2, case_names leaf inner]:
  assumes k: "1 \<le> k" "k < 2 * n"
    and leaf: "\<And>i. i < n \<Longrightarrow> P (n + i)"
    and inner: "\<And>k. 1 \<le> k \<Longrightarrow> k < n \<Longrightarrow> P (2 * k) \<Longrightarrow> P (2 * k + 1) \<Longrightarrow> P k"
  shows "P (k :: nat)"
  using k
proof (induction "2 * n - k" arbitrary: k rule: less_induct)
  case less
  show ?case
  proof (cases "n \<le> k")
    case True
    then obtain i where "k = n + i" by (auto dest: le_Suc_ex)
    with less.prems show ?thesis by (auto intro: leaf)
  next
    case False
    with less.prems have "P (2 * k)" "P (2 * k + 1)" by (auto intro!: less.hyps)
    with False less.prems show ?thesis by (auto intro: inner)
  qed
qed

lemma tournament_range:
  assumes "tournament le vs ls W" "1 \<le> k" "k < 2 * length vs"
  shows "W k < length vs"
  using assms(2,3)
proof (induction k rule: downward_induct [where n = "length vs"])
  case (leaf i)
  then show ?case by (simp add: tournamentD(2) [OF assms(1)])
next
  case (inner k)
  with tournamentD(3) [OF assms(1) inner(1,2)] show ?case by (auto simp: played_def)
qed

lemma winner_above_its_leaf:
  assumes "tournament le vs ls W" "1 \<le> k" "k < 2 * length vs"
  shows "anc k (length vs + W k)"
  using assms(2,3)
proof (induction k rule: downward_induct [where n = "length vs"])
  case (leaf i)
  then show ?case by (simp add: tournamentD(2) [OF assms(1)])
next
  case (inner k)
  have "anc k (length vs + W (2 * k))" "anc k (length vs + W (2 * k + 1))"
    using anc_parent [OF inner(3)] anc_parent [OF inner(4)] inner(1) by auto
  with tournamentD(3) [OF assms(1) inner(1,2)] show ?case by (auto simp: played_def)
qed

text \<open>The overall winner won at every node above its leaf.\<close>

lemma winner_on_path:
  assumes t: "tournament le vs ls W"
  shows "1 \<le> k \<Longrightarrow> k < 2 * length vs \<Longrightarrow> anc k (length vs + W 1) \<Longrightarrow> W k = W 1"
proof (induction k rule: less_induct)
  case (less k)
  show ?case
  proof (cases "k = 1")
    case True
    then show ?thesis by simp
  next
    case False
    with less.prems have k: "2 \<le> k" by simp
    let ?p = "k div 2"
    have p: "1 \<le> ?p" "?p < length vs" using k less.prems by auto
    have "W ?p = W 1"
      using k p less.prems anc_parent [OF less.prems(3) k] by (intro less.IH) auto
    moreover have "W ?p = W k \<or> W ?p = W (sib k)"
      using tournamentD(3) [OF t p] by (auto simp: played_at_parent [OF k])
    moreover have "W (sib k) \<noteq> W 1"
    proof
      assume eq: "W (sib k) = W 1"
      have "1 \<le> sib k" "sib k < 2 * length vs" using children_sib [OF k] p by linarith+
      from winner_above_its_leaf [OF t this] eq have "anc (sib k) (length vs + W 1)" by simp
      with anc_not_sib [OF less.prems(3) k] show False by simp
    qed
    ultimately show ?thesis by auto
  qed
qed

section \<open>Adjusting after the winner changed\<close>

text \<open>
  Above node \<open>d\<close> the stored losers are the winners of the subtrees hanging off the path.
\<close>

fun open_path :: "nat list \<Rightarrow> (nat \<Rightarrow> nat) \<Rightarrow> nat \<Rightarrow> bool" where
  "open_path ls W d =
     (if d < 2 then True else ls ! (d div 2) = W (sib d) \<and> open_path ls W (d div 2))"

declare open_path.simps [simp del]

lemma open_path_frame:
  "open_path ls W d \<Longrightarrow> d = c \<or> 2 * d \<le> c \<Longrightarrow> open_path (ls[c := v]) (W(c := u)) d"
proof (induction ls W d rule: open_path.induct)
  case (1 ls W d)
  show ?case
  proof (cases "d < 2")
    case True
    then show ?thesis by (simp add: open_path.simps)
  next
    case False
    have "sib d \<noteq> c"
      using "1.prems"(2) False sib_neq [of d] by (auto simp: sib_def)
    moreover have "d div 2 \<noteq> c" using "1.prems"(2) False by auto
    moreover have "open_path (ls[c := v]) (W(c := u)) (d div 2)"
      using "1.prems" False by (intro "1.IH") (auto simp: open_path.simps [of _ _ d])
    ultimately show ?thesis
      using "1.prems"(1) False
      by (simp add: open_path.simps [of ls W d] open_path.simps [of "ls[c := v]" "W(c := u)" d]
          fun_upd_other del: fun_upd_apply)
  qed
qed

lemma open_path_of_tournament:
  assumes t: "tournament le vs ls W"
  shows "d < 2 * length vs \<Longrightarrow> anc d (length vs + W 1) \<Longrightarrow> open_path ls W d"
proof (induction d rule: less_induct)
  case (less d)
  show ?case
  proof (cases "d < 2")
    case True
    then show ?thesis by (simp add: open_path.simps)
  next
    case False
    then have d: "2 \<le> d" by simp
    have p: "1 \<le> d div 2" "d div 2 < length vs" using d less.prems by auto
    have up: "anc (d div 2) (length vs + W 1)" using less.prems(2) d by (rule anc_parent)
    have "W (d div 2) = W d"
      using winner_on_path [OF t, of d] winner_on_path [OF t, of "d div 2"] d p less.prems up by simp
    moreover have "W (sib d) \<noteq> W d"
    proof
      assume "W (sib d) = W d"
      moreover have "W d = W 1" using winner_on_path [OF t, of d] d less.prems by simp
      moreover have "1 \<le> sib d" "sib d < 2 * length vs" using children_sib [OF d] p by linarith+
      ultimately have "anc (sib d) (length vs + W 1)" using winner_above_its_leaf [OF t] by metis
      with anc_not_sib [OF less.prems(2) d] show False by simp
    qed
    ultimately have "ls ! (d div 2) = W (sib d)"
      using tournamentD(3) [OF t p] by (auto simp: played_at_parent [OF d])
    moreover have "open_path ls W (d div 2)" using d p up by (intro less.IH) auto
    ultimately show ?thesis by (simp add: open_path.simps [of _ _ d])
  qed
qed

context tournament_order
begin

lemma replay_node:
  assumes d: "2 \<le> d"
    and m: "if lt (vs ! W (sib d)) (vs ! W d) then u = W (sib d) \<and> l = W d
            else u = W d \<and> l = W (sib d)"
  shows "played le vs (W(d div 2 := u)) l (d div 2)"
proof -
  have "d div 2 \<noteq> d" "d div 2 \<noteq> sib d"
    using d children_sib [OF d] by linarith+
  with m show ?thesis
    by (auto simp: played_at_parent [OF d] lt_le not_lt_le split: if_splits)
qed

lemma adjust_climb_ok:
  assumes "length ls = length vs" and "vs \<noteq> []"
    and "\<forall>i < length vs. W (length vs + i) = i"
    and "\<forall>k. 1 \<le> k \<and> k < 2 * length vs \<longrightarrow> W k < length vs"
    and "1 \<le> d" "d < 2 * length vs"
    and "\<forall>k. 1 \<le> k \<and> k < length vs \<and> (k = d \<or> \<not> anc k d) \<longrightarrow> played le vs W (ls ! k) k"
    and "open_path ls W d"
  shows "\<exists>ls' W'. adjust_climb lt vs ls (W d) (d div 2) = Some ls' \<and> tournament le vs ls' W'"
  using assms
proof (induction d arbitrary: ls W rule: less_induct)
  case (less d)
  note len = less.prems(1) and ne = less.prems(2) and leaves = less.prems(3)
    and range = less.prems(4) and pl = less.prems(7)
  show ?case
  proof (cases "d = 1")
    case True
    have "\<not> anc k 1" if "1 < k" for k using anc_le [of k 1] that by auto
    with True pl have "\<forall>k. 1 \<le> k \<and> k < length vs \<longrightarrow> played le vs W (ls ! k) k"
      by (metis One_nat_def le_neq_implies_less)
    with leaves len ne have "tournament le vs (ls[0 := W 1]) W"
      by (auto simp: tournament_def)
    moreover have "adjust_climb lt vs ls (W d) (d div 2) = Some (ls[0 := W 1])"
      using True len ne by (simp add: adjust_climb.simps)
    ultimately show ?thesis by blast
  next
    case False
    with less.prems have d: "2 \<le> d" by simp
    define c where "c = d div 2"
    have c: "1 \<le> c" "c < length vs" "c < d" using d less.prems c_def by auto
    have sd: "1 \<le> sib d" "sib d < 2 * length vs" using children_sib [OF d] c c_def by linarith+
    have here: "ls ! c = W (sib d)" and up: "open_path ls W c"
      using less.prems(8) d by (auto simp: open_path.simps [of _ _ d] c_def)
    have Wd: "W d < length vs" and Ws: "W (sib d) < length vs" using range d less.prems sd by auto
    define swapped where "swapped = lt (vs ! W (sib d)) (vs ! W d)"
    define u where "u = (if swapped then W (sib d) else W d)"
    define l where "l = (if swapped then W d else W (sib d))"
    let ?ls = "ls[c := l]" and ?W = "W(c := u)"
    have step: "adjust_climb lt vs ls (W d) c = adjust_climb lt vs ?ls (?W c) (c div 2)"
    proof -
      have "ls[c := W (sib d)] = ls" using here by (metis list_update_id)
      with c len Wd Ws here show ?thesis
        by (simp add: adjust_climb.simps [of _ _ _ "W d"] l_def u_def swapped_def)
    qed
    have at_c: "played le vs ?W l c"
      unfolding c_def by (rule replay_node [OF d]) (simp add: l_def u_def swapped_def)
    have "\<exists>ls' W'. adjust_climb lt vs ?ls (?W c) (c div 2) = Some ls' \<and> tournament le vs ls' W'"
    proof (rule less.IH [OF c(3), of ?ls ?W])
      show "\<forall>i<length vs. ?W (length vs + i) = i" using leaves c by auto
      show "\<forall>k. 1 \<le> k \<and> k < 2 * length vs \<longrightarrow> ?W k < length vs"
        using range Wd Ws by (simp add: u_def)
      show "\<forall>k. 1 \<le> k \<and> k < length vs \<and> (k = c \<or> \<not> anc k c) \<longrightarrow> played le vs ?W (?ls ! k) k"
      proof (intro allI impI, elim conjE)
        fix k
        assume k: "1 \<le> k" "k < length vs" and out: "k = c \<or> \<not> anc k c"
        show "played le vs ?W (?ls ! k) k"
        proof (cases "k = c")
          case True
          with at_c len k show ?thesis by simp
        next
          case False
          with out have "\<not> anc k c" by simp
          then have "k = d \<or> \<not> anc k d" by (auto simp: anc_iff [of k d] c_def)
          with pl k have "played le vs W (ls ! k) k" by blast
          moreover have "c div 2 \<noteq> k" if "2 \<le> c"
          proof -
            have "anc (c div 2) c" using that by (intro anc_parent) auto
            with \<open>\<not> anc k c\<close> show ?thesis by auto
          qed
          then have "2 * k \<noteq> c" "2 * k + 1 \<noteq> c" using k by auto
          ultimately show ?thesis using False by (simp add: played_def)
        qed
      qed
      show "open_path ?ls ?W c" using up by (rule open_path_frame) simp
    qed (use len ne c in auto)
    with step show ?thesis by (simp add: c_def)
  qed
qed

text \<open>
  The winner of a tree may be overwritten by any value: adjusting answers a tournament again.
\<close>

lemma adjust_after_update:
  assumes t: "tournament le vs ls W" and ne: "vs \<noteq> []"
  defines "w \<equiv> W 1"
  shows "\<exists>ls' W'. adjust_climb lt (vs[w := v]) ls w ((length vs + w) div 2) = Some ls'
           \<and> tournament le (vs[w := v]) ls' W'"
proof -
  let ?vs = "vs[w := v]" and ?d = "length vs + w"
  have w: "w < length vs"
    unfolding w_def using tournament_range [OF t, of 1] ne by (cases vs) auto
  have Wd: "W ?d = w" using tournamentD(2) [OF t w] .
  have keep: "played le ?vs W (ls ! k) k"
    if k: "1 \<le> k" "k < length vs" and out: "k = ?d \<or> \<not> anc k ?d" for k
  proof -
    have na: "\<not> anc k (length vs + W 1)" using out k by (auto simp: w_def)
    have p: "played le vs W (ls ! k) k" using tournamentD(3) [OF t k] .
    have "W c \<noteq> w" if c: "c = 2 * k \<or> c = 2 * k + 1" for c
    proof
      assume "W c = w"
      moreover have "1 \<le> c" "c < 2 * length vs" using c k by auto
      ultimately have "anc c (length vs + W 1)" using winner_above_its_leaf [OF t] w_def by metis
      moreover have "2 \<le> c" "c div 2 = k" using c k by auto
      ultimately have "anc k (length vs + W 1)" using anc_parent by blast
      with na show False by simp
    qed
    then have "W (2 * k) \<noteq> w" "W (2 * k + 1) \<noteq> w" by auto
    with p show ?thesis by (auto simp: played_def)
  qed
  have "\<exists>ls' W'. adjust_climb lt ?vs ls (W ?d) (?d div 2) = Some ls' \<and> tournament le ?vs ls' W'"
    by (rule adjust_climb_ok)
      (use t ne w keep tournamentD [OF t] tournament_range [OF t]
        open_path_of_tournament [OF t, of ?d] w_def in auto)
  with Wd show ?thesis by simp
qed

text \<open>The winner is minimal.\<close>

lemma winner_le_path:
  assumes t: "tournament le vs ls W" and i: "i < length vs"
  shows "anc k (length vs + i) \<Longrightarrow> 1 \<le> k \<Longrightarrow> le (vs ! W k) (vs ! i)"
proof (induction "length vs + i - k" arbitrary: k rule: less_induct)
  case less
  show ?case
  proof (cases "k = length vs + i")
    case True
    then show ?thesis by (simp add: tournamentD(2) [OF t i] le_refl)
  next
    case False
    then obtain c where c: "anc c (length vs + i)" "c div 2 = k" "2 \<le> c"
    proof -
      have "\<exists>c. anc c d \<and> c div 2 = k \<and> 2 \<le> c" if "anc k d" "k \<noteq> d" for d
        using that
      proof (induction k d rule: anc.induct)
        case (1 k d)
        then have d: "1 < d" "anc k (d div 2)" by (auto simp: anc_iff [of k d])
        show ?case
        proof (cases "k = d div 2")
          case True
          with d show ?thesis by (intro exI [of _ d]) auto
        next
          case False
          from "1.IH" [OF d this] obtain c where "anc c (d div 2)" "c div 2 = k" "2 \<le> c" by auto
          with d show ?thesis by (intro exI [of _ c]) (auto simp: anc_iff [of c d])
        qed
      qed
      from this [OF less.prems(1) False] that show ?thesis by blast
    qed
    have k: "1 \<le> k" "k < length vs" using c anc_le [OF c(1)] i by auto
    have "k < c" "c \<le> length vs + i" using c k anc_le by auto
    then have "le (vs ! W c) (vs ! i)" using c by (intro less.hyps) auto
    moreover have "le (vs ! W k) (vs ! W c)"
      using tournamentD(3) [OF t k] le_refl by (auto simp: played_at_parent [OF c(3)] c(2) [symmetric])
    ultimately show ?thesis using le_trans by blast
  qed
qed

end

section \<open>Building the tree\<close>

text \<open>
  While the leaves are entered, \<open>C\<close> is the set of nodes whose subtree is complete. A node
  with one complete child stores the winner that waits there; a node with none is unset.
\<close>

definition node_state ::
  "('a \<Rightarrow> 'a \<Rightarrow> bool) \<Rightarrow> 'a list \<Rightarrow> nat set \<Rightarrow> nat list \<Rightarrow> (nat \<Rightarrow> nat) \<Rightarrow> nat \<Rightarrow> bool" where
  "node_state le vs C ls W k \<longleftrightarrow>
     (if 2 * k \<in> C \<and> 2 * k + 1 \<in> C then k \<in> C \<and> played le vs W (ls ! k) k
      else k \<notin> C \<and> ls ! k = (if 2 * k \<in> C then W (2 * k)
                            else if 2 * k + 1 \<in> C then W (2 * k + 1) else usize_max))"

text \<open>What a node stores before its child \<open>d\<close> is entered.\<close>

definition waiting_at :: "nat set \<Rightarrow> nat list \<Rightarrow> (nat \<Rightarrow> nat) \<Rightarrow> nat \<Rightarrow> bool" where
  "waiting_at C ls W d \<longleftrightarrow>
     d < 2 \<or> (d div 2 \<notin> C \<and> ls ! (d div 2) = (if sib d \<in> C then W (sib d) else usize_max))"

lemma node_state_at_parent:
  assumes d: "2 \<le> d"
  shows "node_state le vs C ls W (d div 2) \<longleftrightarrow>
    (if d \<in> C \<and> sib d \<in> C then d div 2 \<in> C \<and> played le vs W (ls ! (d div 2)) (d div 2)
     else d div 2 \<notin> C \<and> ls ! (d div 2) =
       (if d \<in> C then W d else if sib d \<in> C then W (sib d) else usize_max))"
proof (cases "even d")
  case True
  then obtain p where "d = 2 * p" by (elim evenE)
  then show ?thesis by (auto simp: node_state_def sib_def)
next
  case False
  then obtain p where "d = 2 * p + 1" by (elim oddE)
  then show ?thesis by (auto simp: node_state_def sib_def)
qed

lemma waiting_at_before:
  assumes "\<forall>k. 1 \<le> k \<and> k < length vs \<longrightarrow> node_state le vs C ls W k"
    and "d < 2 * length vs" "d \<notin> C"
  shows "waiting_at C ls W d"
proof (cases "d < 2")
  case True
  then show ?thesis by (simp add: waiting_at_def)
next
  case False
  then have "2 \<le> d" by simp
  moreover have "1 \<le> d div 2" "d div 2 < length vs" using assms(2) False by linarith+
  then have "node_state le vs C ls W (d div 2)" using assms(1) by blast
  ultimately show ?thesis using assms(3) by (simp add: waiting_at_def node_state_at_parent)
qed

lemma complete_root:
  assumes "\<forall>k. 1 \<le> k \<and> k < length vs \<longrightarrow> node_state le vs C ls W k" and "1 \<in> C"
  shows "1 \<le> k \<Longrightarrow> k < 2 * length vs \<Longrightarrow> k \<in> C"
proof (induction k rule: less_induct)
  case (less k)
  show ?case
  proof (cases "k = 1")
    case True
    with assms(2) show ?thesis by simp
  next
    case False
    with less.prems have k: "2 \<le> k" by simp
    have "k div 2 \<in> C" using k less.prems by (intro less.IH) auto
    moreover have "1 \<le> k div 2" "k div 2 < length vs" using k less.prems by linarith+
    then have "node_state le vs C ls W (k div 2)" using assms(1) by blast
    ultimately show ?thesis by (auto simp: node_state_at_parent [OF k] split: if_splits)
  qed
qed

definition build_inv ::
  "('a \<Rightarrow> 'a \<Rightarrow> bool) \<Rightarrow> 'a list \<Rightarrow> nat set \<Rightarrow> nat list \<Rightarrow> (nat \<Rightarrow> nat) \<Rightarrow> bool" where
  "build_inv le vs C ls W \<longleftrightarrow>
     length ls = length vs
     \<and> (\<forall>i < length vs. W (length vs + i) = i)
     \<and> (\<forall>k \<in> C. W k < length vs)
     \<and> (\<forall>k. 1 \<le> k \<and> k < length vs \<longrightarrow> node_state le vs C ls W k)
     \<and> (1 \<in> C \<longrightarrow> ls ! 0 = W 1)"

context tournament_order
begin

lemma init_climb_ok:
  assumes "length ls = length vs" "vs \<noteq> []" "length vs < usize_max"
    and "\<forall>i < length vs. W (length vs + i) = i"
    and "\<forall>k \<in> C. W k < length vs"
    and "1 \<le> d" "d < 2 * length vs" "d \<in> C" "1 \<in> C \<longrightarrow> d = 1"
    and "\<forall>k. 1 \<le> k \<and> k < length vs \<and> k \<noteq> d div 2 \<longrightarrow> node_state le vs C ls W k"
    and "waiting_at C ls W d"
  shows "\<exists>ls' W' C'. init_climb lt vs ls (W d) (d div 2) = Some ls'
           \<and> build_inv le vs C' ls' W' \<and> C \<subseteq> C' \<and> C' \<inter> {length vs..} = C \<inter> {length vs..}"
  using assms
proof (induction d arbitrary: ls W C rule: less_induct)
  case (less d)
  note len = less.prems(1) and ne = less.prems(2) and big = less.prems(3)
    and leaves = less.prems(4) and range = less.prems(5) and st = less.prems(10)
  have len0: "0 < length ls" using len ne by simp
  show ?case
  proof (cases "d = 1")
    case True
    then have "init_climb lt vs ls (W d) (d div 2) = Some (ls[0 := W 1])"
      using len0 by (simp add: init_climb.simps)
    moreover have "build_inv le vs C (ls[0 := W 1]) W"
      using len len0 leaves range st True by (auto simp: build_inv_def node_state_def)
    ultimately show ?thesis by blast
  next
    case False
    with less.prems(6) have d: "2 \<le> d" by simp
    define c where "c = d div 2"
    have c: "1 \<le> c" "c < length vs" "c < d" using d less.prems(7) c_def by auto
    have cC: "c \<notin> C" and here: "ls ! c = (if sib d \<in> C then W (sib d) else usize_max)"
      using less.prems(11) d by (auto simp: waiting_at_def c_def)
    have Wd: "W d < length vs" using range less.prems(8) by blast
    show ?thesis
    proof (cases "sib d \<in> C")
      case False
      with here c len have "init_climb lt vs ls (W d) c = Some (ls[c := W d])"
        by (simp add: init_climb.simps [of _ _ _ "W d"])
      moreover have "build_inv le vs C (ls[c := W d]) W"
      proof -
        have "node_state le vs C (ls[c := W d]) W k" if k: "1 \<le> k" "k < length vs" for k
        proof (cases "k = c")
          case True
          with False less.prems(8) cC k len show ?thesis
            unfolding c_def by (auto simp: node_state_at_parent [OF d])
        next
          case neq: False
          then have "node_state le vs C ls W k" using st k c_def by auto
          with neq show ?thesis by (auto simp: node_state_def)
        qed
        moreover have "1 \<notin> C" using less.prems(9) d by auto
        ultimately show ?thesis using len leaves range by (auto simp: build_inv_def)
      qed
      ultimately show ?thesis by (auto simp: c_def)
    next
      case True
      have Ws: "W (sib d) < length vs" using range True by blast
      then have nmax: "ls ! c \<noteq> usize_max" and hc: "ls ! c = W (sib d)"
        using here True big by auto
      define swapped where "swapped = lt (vs ! W (sib d)) (vs ! W d)"
      define u where "u = (if swapped then W (sib d) else W d)"
      define l where "l = (if swapped then W d else W (sib d))"
      let ?ls = "ls[c := l]" and ?W = "W(c := u)" and ?C = "insert c C"
      have step: "init_climb lt vs ls (W d) c = init_climb lt vs ?ls (?W c) (c div 2)"
        using c len Wd Ws hc nmax
        by (simp add: init_climb.simps [of _ _ _ "W d"] l_def u_def swapped_def)
      have at_c: "played le vs ?W l c"
        unfolding c_def by (rule replay_node [OF d]) (simp add: l_def u_def swapped_def)
      have below: "2 * c \<in> C" "2 * c + 1 \<in> C"
        using True less.prems(8) children_sib [OF d] by (auto simp: c_def)
      have other: "node_state le vs ?C ?ls ?W k"
        if k: "1 \<le> k" "k < length vs" "k \<noteq> c div 2" for k
      proof (cases "k = c")
        case True
        with below at_c len c show ?thesis by (simp add: node_state_def)
      next
        case neq: False
        have "2 * k \<noteq> c" "2 * k + 1 \<noteq> c" using k(3) by auto
        moreover have "node_state le vs C ls W k" using st k neq c_def by auto
        ultimately show ?thesis using neq by (auto simp: node_state_def played_def)
      qed
      have wait: "waiting_at ?C ?ls ?W c"
      proof (cases "c < 2")
        case True
        then show ?thesis by (simp add: waiting_at_def)
      next
        case two: False
        then have c2: "2 \<le> c" by simp
        have "c div 2 \<noteq> d div 2" using c c_def c2 by auto
        moreover have "1 \<le> c div 2" "c div 2 < length vs" using c c2 by linarith+
        ultimately have "node_state le vs C ls W (c div 2)" using st by blast
        then have "c div 2 \<notin> C"
          and "ls ! (c div 2) = (if sib c \<in> C then W (sib c) else usize_max)"
          using cC by (auto simp: node_state_at_parent [OF c2])
        moreover have "sib c \<noteq> c" using sib_neq [OF c2] .
        moreover have "c div 2 \<noteq> c" using c2 by auto
        ultimately show ?thesis by (auto simp: waiting_at_def)
      qed
      have "\<exists>ls' W' C'. init_climb lt vs ?ls (?W c) (c div 2) = Some ls'
           \<and> build_inv le vs C' ls' W' \<and> ?C \<subseteq> C' \<and> C' \<inter> {length vs..} = ?C \<inter> {length vs..}"
      proof (rule less.IH [OF c(3), of ?ls ?W ?C])
        show "\<forall>k. 1 \<le> k \<and> k < length vs \<and> k \<noteq> c div 2 \<longrightarrow> node_state le vs ?C ?ls ?W k"
          using other by blast
        show "waiting_at ?C ?ls ?W c" by (rule wait)
      qed (use len ne big leaves range c Wd Ws less.prems(9) d in \<open>auto simp: u_def\<close>)
      then obtain ls' W' C' where "init_climb lt vs ls (W d) c = Some ls'"
        "build_inv le vs C' ls' W'" "insert c C \<subseteq> C'" "C' \<inter> {length vs..} = insert c C \<inter> {length vs..}"
        using step by auto
      moreover have "insert c C \<inter> {length vs..} = C \<inter> {length vs..}" using c by auto
      ultimately show ?thesis unfolding c_def by blast
    qed
  qed
qed

lemma init_step:
  assumes inv: "build_inv le vs C ls W" and leaves: "C \<inter> {length vs..} = {length vs ..< length vs + i}"
    and i: "i < length vs" and big: "length vs < usize_max"
  shows "\<exists>ls' W' C'. init_climb lt vs ls i ((length vs + i) div 2) = Some ls'
     \<and> build_inv le vs C' ls' W' \<and> C' \<inter> {length vs..} = {length vs ..< length vs + Suc i}"
proof -
  let ?d = "length vs + i" and ?C = "insert (length vs + i) C"
  have new: "?d \<notin> C" using leaves by auto
  have st: "\<forall>k. 1 \<le> k \<and> k < length vs \<longrightarrow> node_state le vs C ls W k"
    using inv by (simp add: build_inv_def)
  have Wd: "W ?d = i" using inv i by (simp add: build_inv_def)
  have root: "1 \<notin> C" using complete_root [OF st, of ?d] new i by auto
  have wait: "waiting_at ?C ls W ?d"
    using waiting_at_before [OF st, of ?d] new i sib_neq [of ?d] by (auto simp: waiting_at_def)
  have "\<exists>ls' W' C'. init_climb lt vs ls (W ?d) (?d div 2) = Some ls'
     \<and> build_inv le vs C' ls' W' \<and> ?C \<subseteq> C' \<and> C' \<inter> {length vs..} = ?C \<inter> {length vs..}"
  proof (rule init_climb_ok)
    show "\<forall>k. 1 \<le> k \<and> k < length vs \<and> k \<noteq> ?d div 2 \<longrightarrow> node_state le vs ?C ls W k"
    proof (intro allI impI, elim conjE)
      fix k
      assume k: "1 \<le> k" "k < length vs" "k \<noteq> ?d div 2"
      then have "2 * k \<noteq> ?d" "2 * k + 1 \<noteq> ?d" by auto
      with st k show "node_state le vs ?C ls W k" by (auto simp: node_state_def)
    qed
  qed (use inv i big root wait in \<open>auto simp: build_inv_def\<close>)
  moreover have "?C \<inter> {length vs..} = {length vs ..< length vs + Suc i}"
    using leaves i by auto
  ultimately show ?thesis using Wd by auto
qed

lemma init_loop_ok:
  assumes "build_inv le vs C ls W" "C \<inter> {length vs..} = {length vs ..< length vs + i}"
    and "i \<le> length vs" "length vs < usize_max"
  shows "\<exists>ls' W' C'. init_loop lt vs ls [i..<length vs] = Some ls' \<and> build_inv le vs C' ls' W'
     \<and> C' \<inter> {length vs..} = {length vs ..< 2 * length vs}"
  using assms
proof (induction "length vs - i" arbitrary: i C ls W)
  case 0
  then have "[i..<length vs] = []" "length vs + i = 2 * length vs" by simp_all
  with 0 show ?case by (intro exI [of _ ls] exI [of _ W] exI [of _ C]) simp
next
  case (Suc n)
  then have i: "i < length vs" by simp
  from init_step [OF Suc.prems(1,2) i Suc.prems(4)] obtain ls' W' C' where
    1: "init_climb lt vs ls i ((length vs + i) div 2) = Some ls'" and
    2: "build_inv le vs C' ls' W'" "C' \<inter> {length vs..} = {length vs ..< length vs + Suc i}" by blast
  have "\<exists>ls'' W'' C''. init_loop lt vs ls' [Suc i..<length vs] = Some ls'' \<and> build_inv le vs C'' ls'' W''
     \<and> C'' \<inter> {length vs..} = {length vs ..< 2 * length vs}"
  proof (rule Suc.hyps(1) [OF _ 2])
    show "n = length vs - Suc i" using Suc.hyps(2) by simp
  qed (use i Suc.prems(4) in simp_all)
  moreover have "[i..<length vs] = i # [Suc i..<length vs]" using i by (rule upt_conv_Cons)
  ultimately show ?case using 1 by simp
qed

lemma init_tree_ok:
  assumes ne: "vs \<noteq> []" and big: "length vs < usize_max"
  shows "\<exists>ls W. init_tree lt vs = Some ls \<and> tournament le vs ls W"
proof -
  have "build_inv le vs {} (replicate (length vs) usize_max) (\<lambda>k. k - length vs)"
    by (auto simp: build_inv_def node_state_def)
  from init_loop_ok [OF this, of 0] big obtain ls W C where
    run: "init_tree lt vs = Some ls" and inv: "build_inv le vs C ls W"
    and leaves: "C \<inter> {length vs..} = {length vs ..< 2 * length vs}"
    by (auto simp: init_tree_def)
  have all: "k \<in> C" if "1 \<le> k" "k < 2 * length vs" for k
    using that
  proof (induction k rule: downward_induct [where n = "length vs"])
    case (leaf i)
    then have "length vs + i \<in> C \<inter> {length vs..}" unfolding leaves by simp
    then show ?case by simp
  next
    case (inner k)
    with inv have "node_state le vs C ls W k" by (simp add: build_inv_def)
    with inner show ?case by (auto simp: node_state_def split: if_splits)
  qed
  have "played le vs W (ls ! k) k" if "1 \<le> k" "k < length vs" for k
  proof -
    have "node_state le vs C ls W k" using inv that by (simp add: build_inv_def)
    moreover have "2 * k \<in> C" "2 * k + 1 \<in> C" using that by (auto intro!: all)
    ultimately show ?thesis by (auto simp: node_state_def split: if_splits)
  qed
  moreover have "1 \<in> C" 
    using one_less_double_length [OF ne] by (intro all) simp_all
  ultimately have "tournament le vs ls W" using inv by (auto simp: tournament_def build_inv_def)
  with run show ?thesis by blast
qed

end

section \<open>The guard\<close>

text \<open>
  A guard whose winner was overwritten is one value away from a tournament; an unmutated one
  still is a tournament.
\<close>

definition guard_inv :: "('a \<Rightarrow> 'a \<Rightarrow> bool) \<Rightarrow> 'a peek_guard \<Rightarrow> bool" where
  "guard_inv le g \<longleftrightarrow>
     lt_values (guard_tree g) \<noteq> []
     \<and> (\<exists>v W. tournament le ((lt_values (guard_tree g))[losers (guard_tree g) ! 0 := v])
                (losers (guard_tree g)) W)
     \<and> (dirty g \<or> tree_inv le (guard_tree g))"

context tournament_order
begin

lemma tree_inv_winner:
  assumes "tree_inv le t"
  shows "losers t \<noteq> []" and "length (losers t) = length (lt_values t)"
    and "losers t ! 0 < length (lt_values t)"
    and "i < length (lt_values t) \<Longrightarrow> le (lt_values t ! (losers t ! 0)) (lt_values t ! i)"
proof -
  from assms obtain W where t: "tournament le (lt_values t) (losers t) W" and ne: "lt_values t \<noteq> []"
    by (auto simp: tree_inv_def)
  show len: "length (losers t) = length (lt_values t)" using tournamentD(1) [OF t] .
  then show "losers t \<noteq> []" using ne by (cases "losers t") auto
  have W1: "losers t ! 0 = W 1" using tournamentD(4) [OF t] .
  show "losers t ! 0 < length (lt_values t)"
    unfolding W1 using one_less_double_length [OF ne] by (intro tournament_range [OF t]) simp_all
  show "le (lt_values t ! (losers t ! 0)) (lt_values t ! i)" if "i < length (lt_values t)"
    unfolding W1 using that anc_root [of "length (lt_values t) + i"] by (intro winner_le_path [OF t]) simp_all
qed

lemma guard_inv_peek_mut: "tree_inv le t \<Longrightarrow> guard_inv le (peek_mut t)"
proof -
  assume t: "tree_inv le t"
  then have "\<exists>W. tournament le ((lt_values t)[losers t ! 0 := lt_values t ! (losers t ! 0)]) (losers t) W"
    by (simp add: tree_inv_def)
  then have "\<exists>v W. tournament le ((lt_values t)[losers t ! 0 := v]) (losers t) W" by blast
  moreover have "lt_values t \<noteq> []" using t by (simp add: tree_inv_def)
  ultimately show ?thesis using t by (simp add: guard_inv_def peek_mut_def)
qed

lemma guard_inv_winner:
  assumes "guard_inv le g"
  shows "losers (guard_tree g) \<noteq> []"
    and "losers (guard_tree g) ! 0 < length (lt_values (guard_tree g))"
proof -
  let ?t = "guard_tree g"
  from assms obtain v W where
    "tournament le ((lt_values ?t)[losers ?t ! 0 := v]) (losers ?t) W" "lt_values ?t \<noteq> []"
    by (auto simp: guard_inv_def)
  then have "tree_inv le (?t\<lparr>lt_values := (lt_values ?t)[losers ?t ! 0 := v]\<rparr>)"
    by (auto simp: tree_inv_def)
  from tree_inv_winner(1,3) [OF this] show "losers ?t \<noteq> []" "losers ?t ! 0 < length (lt_values ?t)"
    by simp_all
qed

lemma guard_inv_deref_mut:
  assumes g: "guard_inv le g"
  defines "i \<equiv> losers (guard_tree g) ! 0"
  shows "\<exists>g'. guard_deref_mut f g = Some g' \<and> guard_inv le g' \<and> dirty g'
     \<and> losers (guard_tree g') = losers (guard_tree g)
     \<and> lt_values (guard_tree g') = (lt_values (guard_tree g))[i := f (lt_values (guard_tree g) ! i)]"
  using g guard_inv_winner [OF g]
  by (auto simp: guard_deref_mut_def guard_inv_def i_def)

lemma adjust_dirty:
  assumes g: "guard_inv le g"
  shows "\<exists>t. adjust_tree lt (guard_tree g) = Some t \<and> tree_inv le t
     \<and> lt_values t = lt_values (guard_tree g)"
proof -
  let ?t = "guard_tree g"
  from g obtain v W where t: "tournament le ((lt_values ?t)[losers ?t ! 0 := v]) (losers ?t) W"
    and ne: "lt_values ?t \<noteq> []"
    by (auto simp: guard_inv_def)
  have W1: "W 1 = losers ?t ! 0" using tournamentD(4) [OF t] by simp
  from adjust_after_update [OF t, of "lt_values ?t ! (losers ?t ! 0)"] ne W1
  obtain ls' W' where "adjust_climb lt (lt_values ?t) (losers ?t) (losers ?t ! 0)
      ((length (lt_values ?t) + losers ?t ! 0) div 2) = Some ls'"
    "tournament le (lt_values ?t) ls' W'"
    by auto
  with guard_inv_winner [OF g] ne show ?thesis
    by (auto simp: adjust_tree_def tree_inv_def)
qed

lemma guard_adjust_ok:
  assumes "guard_inv le g"
  shows "\<exists>g'. guard_adjust lt g = Some g' \<and> guard_inv le g' \<and> tree_inv le (guard_tree g')
     \<and> \<not> dirty g' \<and> lt_values (guard_tree g') = lt_values (guard_tree g)"
proof (cases "dirty g")
  case True
  from adjust_dirty [OF assms] obtain t where t: "adjust_tree lt (guard_tree g) = Some t"
    "tree_inv le t" "lt_values t = lt_values (guard_tree g)" by blast
  have "guard_inv le (g\<lparr>guard_tree := t, dirty := False\<rparr>)"
    using guard_inv_peek_mut [OF t(2)] t(2) by (simp add: guard_inv_def peek_mut_def)
  with t True show ?thesis by (simp add: guard_adjust_def)
next
  case False
  with assms show ?thesis by (auto simp: guard_adjust_def guard_inv_def)
qed

lemma guard_drop_ok:
  assumes "guard_inv le g"
  shows "\<exists>t. guard_drop lt g = Some t \<and> tree_inv le t \<and> lt_values t = lt_values (guard_tree g)"
  using adjust_dirty [OF assms] assms by (auto simp: guard_drop_def guard_inv_def)

lemma new_tree_ok:
  assumes "vs \<noteq> []" "length vs < usize_max"
  shows "\<exists>t. new_tree lt vs = Some t \<and> lt_values t = vs \<and> tree_inv le t"
  using init_tree_ok [OF assms] assms(1) by (auto simp: new_tree_def tree_inv_def)

lemma guard_deref_min:
  assumes "tree_inv le t"
  shows "\<exists>v. guard_deref (peek_mut t) = Some v \<and> v = lt_values t ! (losers t ! 0)
     \<and> v \<in> set (lt_values t) \<and> (\<forall>x \<in> set (lt_values t). le v x)"
  using tree_inv_winner [OF assms] by (auto simp: guard_deref_def peek_mut_def in_set_conv_nth)

end

section \<open>Properties\<close>

text \<open>
  C10: Building a loser tree over any non-empty vector stays inside its vectors and answers a
  tree whose guard dereferences to a value no other value beats: a minimum of the values
  under the order the comparison decides.
\<close>

theorem loser_tree_new_peeks_minimum:
  assumes "tournament_order lt le" and "vs \<noteq> []" and "length vs < usize_max"
  shows "\<exists>t v. new_tree lt vs = Some t \<and> lt_values t = vs \<and> tree_inv le t
     \<and> guard_deref (peek_mut t) = Some v \<and> v \<in> set vs \<and> (\<forall>x \<in> set vs. le v x)"
proof -
  from tournament_order.new_tree_ok [OF assms] obtain t where
    t: "new_tree lt vs = Some t" "lt_values t = vs" "tree_inv le t" by blast
  with tournament_order.guard_deref_min [OF assms(1) t(3)] show ?thesis by auto
qed

theorem loser_tree_new_peeks_minimum_witness:
  "\<exists>t v. new_tree (<) [3::nat, 1, 2] = Some t \<and> guard_deref (peek_mut t) = Some v
     \<and> (\<forall>x \<in> set [3, 1, 2]. v \<le> x)"
proof -
  have "tournament_order (<) ((\<le>) :: nat \<Rightarrow> nat \<Rightarrow> bool)" by unfold_locales auto
  moreover have "length [3::nat, 1, 2] < usize_max" by (simp add: usize_max_def)
  ultimately show ?thesis
    using loser_tree_new_peeks_minimum [of "(<)" "(\<le>)" "[3::nat, 1, 2]"] by auto
qed

text \<open>
  C11: Mutating the winner through the guard and dropping the guard changes that one value,
  stays inside the vectors and re-establishes the tournament invariant, whatever the new
  value is.
\<close>

theorem loser_tree_update_winner:
  assumes "tournament_order lt le" and "tree_inv le t"
  shows "\<exists>g t'. guard_deref_mut f (peek_mut t) = Some g \<and> guard_drop lt g = Some t'
     \<and> tree_inv le t'
     \<and> lt_values t' = (lt_values t)[losers t ! 0 := f (lt_values t ! (losers t ! 0))]"
proof -
  have gi: "guard_inv le (peek_mut t)"
    using tournament_order.guard_inv_peek_mut [OF assms] .
  from tournament_order.guard_inv_deref_mut [OF assms(1) gi, of f] obtain g where
    g: "guard_deref_mut f (peek_mut t) = Some g" "guard_inv le g"
      "lt_values (guard_tree g) = (lt_values t)[losers t ! 0 := f (lt_values t ! (losers t ! 0))]"
    by (auto simp: peek_mut_def)
  with tournament_order.guard_drop_ok [OF assms(1) g(2)] show ?thesis by auto
qed

theorem loser_tree_update_winner_witness:
  "\<exists>t t'. new_tree (<) [3::nat, 1, 2] = Some t
     \<and> (\<exists>g. guard_deref_mut (\<lambda>v. v + 5) (peek_mut t) = Some g \<and> guard_drop (<) g = Some t')
     \<and> tree_inv (\<le>) t' \<and> length (lt_values t') = 3"
proof -
  have o: "tournament_order (<) ((\<le>) :: nat \<Rightarrow> nat \<Rightarrow> bool)" by unfold_locales auto
  have "length [3::nat, 1, 2] < usize_max" by (simp add: usize_max_def)
  with tournament_order.new_tree_ok [OF o, of "[3, 1, 2]"] obtain t where
    t: "new_tree (<) [3::nat, 1, 2] = Some t" "lt_values t = [3, 1, 2]" "tree_inv (\<le>) t" by auto
  from loser_tree_update_winner [OF o t(3), of "\<lambda>v. v + 5"] obtain g t' where
    "guard_deref_mut (\<lambda>v. v + 5) (peek_mut t) = Some g" "guard_drop (<) g = Some t'"
    "tree_inv (\<le>) t'" "length (lt_values t') = 3"
    by (metis length_list_update t(2) length_Cons list.size(3) numeral_3_eq_3)
  with t(1) show ?thesis by blast
qed

text \<open>
  C33: \<open>LoserTree::peek\<close> does not answer the winner.  On the tree of any vector it answers the first
  value of the vector; whenever some value is smaller than that one, this is not a minimum, and
  differs from the value the guard of the same tree dereferences to, which is one.
\<close>

theorem loser_tree_peek_not_minimum:
  assumes "tournament_order lt le" and "length vs < usize_max" and "x \<in> set vs" and "\<not> le (vs ! 0) x"
  shows "\<exists>t w. new_tree lt vs = Some t \<and> tree_peek t = Some (vs ! 0)
     \<and> guard_deref (peek_mut t) = Some w \<and> (\<forall>v \<in> set vs. le w v) \<and> w \<noteq> vs ! 0"
proof -
  have ne: "vs \<noteq> []" using assms(3) by auto
  from tournament_order.new_tree_ok [OF assms(1) ne assms(2)] obtain t where
    t: "new_tree lt vs = Some t" "lt_values t = vs" "tree_inv le t" by blast
  from tournament_order.guard_deref_min [OF assms(1) t(3)] t(2) obtain w where
    w: "guard_deref (peek_mut t) = Some w" "\<forall>v \<in> set vs. le w v" by auto
  moreover have "w \<noteq> vs ! 0" using w(2) assms(3,4) by auto
  ultimately show ?thesis using t ne by (simp add: tree_peek_def)
qed

theorem loser_tree_peek_not_minimum_witness:
  "\<exists>t w. new_tree (<) [4::nat, 2, 9] = Some t \<and> tree_peek t = Some 4 \<and> guard_deref (peek_mut t) = Some w \<and> w \<le> 2"
proof -
  have o: "tournament_order (<) ((\<le>) :: nat \<Rightarrow> nat \<Rightarrow> bool)" by unfold_locales auto
  have "length [4::nat, 2, 9] < usize_max" by (simp add: usize_max_def)
  from loser_tree_peek_not_minimum [OF o this, of 2] show ?thesis by auto
qed

end
