(* ===== verification/Radix_Sort.thy ===== *)
theory Radix_Sort
  imports Prelude
begin

text \<open>
  The in-place radix sort of \<open>datafusion-ext-commons/src/algorithm/rdx_sort.rs\<close>, which the
  shuffle and aggregation buffers use to group rows by partition or bucket. The items are
  counted per key, every key gets its partition of the array, and passes over the partitions
  that are not exhausted swap each item to the front of the partition of its key.
\<close>

section \<open>The algorithm\<close>

record part =
  cur :: nat
  endp :: nat

definition default_part :: part where
  "default_part = \<lparr>cur = 0, endp = 0\<rparr>"

fun count_keys :: "('a \<Rightarrow> nat) \<Rightarrow> nat list \<Rightarrow> 'a list \<Rightarrow> nat list option" where
  "count_keys key counts [] = Some counts"
| "count_keys key counts (item # items) =
     do { c \<leftarrow> vget counts (key item);
          counts' \<leftarrow> vset counts (key item) (c + 1);
          count_keys key counts' items }"

text \<open>\<open>for (idx, count) in counts.iter().enumerate()\<close>, from index \<open>idx\<close> on.\<close>

fun construct_parts :: "nat \<Rightarrow> nat list \<Rightarrow> part list" where
  "construct_parts beg [] = []"
| "construct_parts beg (c # counts) =
     (if c > 0
      then \<lparr>cur = beg, endp = beg + c\<rparr> # construct_parts (beg + c) counts
      else default_part # construct_parts beg counts)"

definition swap_unchecked :: "'a list \<Rightarrow> nat \<Rightarrow> nat \<Rightarrow> 'a list option" where
  "swap_unchecked xs i j = (if i < length xs \<and> j < length xs then Some (swap xs i j) else None)"

text \<open>\<open>for item_idx in cur..end\<close>, over the indices still to visit.\<close>

fun item_loop ::
  "('a \<Rightarrow> nat) \<Rightarrow> 'a list \<Rightarrow> part list \<Rightarrow> nat list \<Rightarrow> ('a list \<times> part list) option" where
  "item_loop key array parts [] = Some (array, parts)"
| "item_loop key array parts (item_idx # rest) =
     do { item \<leftarrow> vget array item_idx;
          target_part \<leftarrow> vget parts (key item);
          array' \<leftarrow> swap_unchecked array item_idx (cur target_part);
          parts' \<leftarrow> vset parts (key item) (target_part\<lparr>cur := cur target_part + 1\<rparr>);
          item_loop key array' parts' rest }"

text \<open>\<open>for &part_idx in inexhausted_part_indices.iter()\<close>.\<close>

fun part_loop ::
  "('a \<Rightarrow> nat) \<Rightarrow> 'a list \<Rightarrow> part list \<Rightarrow> nat list \<Rightarrow> ('a list \<times> part list) option" where
  "part_loop key array parts [] = Some (array, parts)"
| "part_loop key array parts (part_idx # rest) =
     do { cur_part \<leftarrow> vget parts part_idx;
          (array', parts') \<leftarrow> item_loop key array parts [cur cur_part ..< endp cur_part];
          part_loop key array' parts' rest }"

definition inexhausted :: "part list \<Rightarrow> nat list \<Rightarrow> nat list" where
  "inexhausted parts idxs = filter (\<lambda>i. cur (parts ! i) < endp (parts ! i)) idxs"

text \<open>The \<open>while\<close> loop; \<open>None\<close> is also the answer of a loop that never ends.\<close>

partial_function (option) reorganize ::
  "('a \<Rightarrow> nat) \<Rightarrow> 'a list \<Rightarrow> part list \<Rightarrow> nat list \<Rightarrow> 'a list option" where
  "reorganize key array parts idxs =
     (let idxs' = inexhausted parts idxs
      in if length idxs' > 1
         then do { (array', parts') \<leftarrow> part_loop key array parts idxs';
                   reorganize key array' parts' idxs' }
         else Some array)"

definition radix_sort_by_key ::
  "('a \<Rightarrow> nat) \<Rightarrow> 'a list \<Rightarrow> nat list \<Rightarrow> ('a list \<times> nat list) option" where
  "radix_sort_by_key key array counts =
     do { counts' \<leftarrow> count_keys key counts array;
          array' \<leftarrow> reorganize key array (construct_parts 0 counts') [0..<length counts];
          Some (array', counts') }"

section \<open>Counting\<close>

definition key_count :: "('a \<Rightarrow> nat) \<Rightarrow> 'a list \<Rightarrow> nat \<Rightarrow> nat" where
  "key_count key xs k = length (filter (\<lambda>x. key x = k) xs)"

text \<open>Where the partition of key \<open>k\<close> begins.\<close>

definition keys_below :: "('a \<Rightarrow> nat) \<Rightarrow> 'a list \<Rightarrow> nat \<Rightarrow> nat" where
  "keys_below key xs k = length (filter (\<lambda>x. key x < k) xs)"

lemma keys_below_Suc: "keys_below key xs (Suc k) = keys_below key xs k + key_count key xs k"
  unfolding keys_below_def key_count_def by (induction xs) auto

lemma keys_below_mono: "j \<le> k \<Longrightarrow> keys_below key xs j \<le> keys_below key xs k"
proof (induction k rule: dec_induct)
  case base
  then show ?case by simp
next
  case (step k)
  then show ?case by (simp add: keys_below_Suc)
qed

lemma partition_order:
  "j < k \<Longrightarrow> keys_below key xs j + key_count key xs j \<le> keys_below key xs k"
  using keys_below_mono [of "Suc j" k key xs] by (simp add: keys_below_Suc)

lemma partition_end: "keys_below key xs k + key_count key xs k \<le> length xs"
  unfolding keys_below_Suc [symmetric] by (simp add: keys_below_def)

lemma key_count_mset: "mset xs = mset ys \<Longrightarrow> key_count key xs k = key_count key ys k"
  by (metis key_count_def mset_filter size_mset)

lemma key_count_card: "key_count key xs k = card {i. i < length xs \<and> key (xs ! i) = k}"
  by (simp add: key_count_def length_filter_conv_card)

lemma count_keys_ok:
  assumes "\<forall>x \<in> set xs. key x < length counts"
  shows "\<exists>counts'. count_keys key counts xs = Some counts' \<and> length counts' = length counts
     \<and> (\<forall>k < length counts. counts' ! k = counts ! k + key_count key xs k)"
  using assms
proof (induction xs arbitrary: counts)
  case Nil
  then show ?case by (simp add: key_count_def)
next
  case (Cons x xs)
  let ?c = "counts[key x := counts ! key x + 1]"
  have "\<exists>counts'. count_keys key ?c xs = Some counts' \<and> length counts' = length ?c
     \<and> (\<forall>k < length ?c. counts' ! k = ?c ! k + key_count key xs k)"
    using Cons.prems by (intro Cons.IH) simp
  with Cons.prems show ?case by (auto simp: key_count_def nth_list_update)
qed

lemma construct_parts_ok:
  assumes "\<forall>i < length counts. counts ! i = key_count key xs (k + i)"
    and "beg = keys_below key xs k"
  shows "length (construct_parts beg counts) = length counts
     \<and> (\<forall>i < length counts. construct_parts beg counts ! i =
          (if counts ! i > 0 then \<lparr>cur = keys_below key xs (k + i),
                                  endp = keys_below key xs (k + i) + counts ! i\<rparr>
           else default_part))"
  using assms
proof (induction counts arbitrary: beg k)
  case Nil
  then show ?case by simp
next
  case (Cons c counts)
  have c: "c = key_count key xs k" using Cons.prems(1) by auto
  have rest: "\<forall>i < length counts. counts ! i = key_count key xs (Suc k + i)"
    using Cons.prems(1) by auto
  have next_beg: "beg + c = keys_below key xs (Suc k)"
    using Cons.prems(2) c by (simp add: keys_below_Suc)
  show ?case
    using Cons.IH [OF rest next_beg] Cons.IH [OF rest, of beg] next_beg Cons.prems(2)
    by (auto simp: nth_Cons split: nat.splits)
qed

section \<open>The invariant of the passes\<close>

text \<open>
  Against the items \<open>xs\<close> the sort started from: the array is a permutation of them, and in
  the partition of every key the positions before its cursor hold items of that key.
\<close>

definition placed :: "('a \<Rightarrow> nat) \<Rightarrow> 'a list \<Rightarrow> 'a list \<Rightarrow> part list \<Rightarrow> bool" where
  "placed key xs array parts \<longleftrightarrow>
     mset array = mset xs
     \<and> (\<forall>x \<in> set xs. key x < length parts)
     \<and> (\<forall>k < length parts.
          (if key_count key xs k = 0 then parts ! k = default_part
           else endp (parts ! k) = keys_below key xs k + key_count key xs k
                \<and> keys_below key xs k \<le> cur (parts ! k) \<and> cur (parts ! k) \<le> endp (parts ! k)
                \<and> (\<forall>i. keys_below key xs k \<le> i \<and> i < cur (parts ! k) \<longrightarrow> key (array ! i) = k)))"

definition todo :: "part list \<Rightarrow> nat" where
  "todo parts = sum_list (map (\<lambda>p. endp p - cur p) parts)"

lemma placedD:
  assumes "placed key xs array parts" "k < length parts" "0 < key_count key xs k"
  shows "endp (parts ! k) = keys_below key xs k + key_count key xs k"
    and "keys_below key xs k \<le> cur (parts ! k)" "cur (parts ! k) \<le> endp (parts ! k)"
    and "keys_below key xs k \<le> i \<Longrightarrow> i < cur (parts ! k) \<Longrightarrow> key (array ! i) = k"
  using assms by (auto simp: placed_def)

lemma placed_length: "placed key xs array parts \<Longrightarrow> length array = length xs"
  by (metis placed_def size_mset)

lemma placed_key_range:
  assumes "placed key xs array parts" "i < length array"
  shows "key (array ! i) < length parts" and "0 < key_count key xs (key (array ! i))"
proof -
  have "array ! i \<in> set xs"
    using assms by (metis nth_mem placed_def set_mset_mset)
  with assms(1) show "key (array ! i) < length parts" by (simp add: placed_def)
  from \<open>array ! i \<in> set xs\<close> have "filter (\<lambda>x. key x = key (array ! i)) xs \<noteq> []"
    by (auto simp: filter_empty_conv)
  then show "0 < key_count key xs (key (array ! i))" by (simp add: key_count_def)
qed

lemma placed_endp_le:
  assumes "placed key xs array parts" "k < length parts"
  shows "endp (parts ! k) \<le> length xs"
proof (cases "0 < key_count key xs k")
  case True
  then show ?thesis
    using placedD(1) [OF assms True] partition_end [of key xs k] by simp
next
  case False
  then show ?thesis using assms by (auto simp: placed_def default_part_def)
qed

text \<open>An item met outside the filled front of its own partition leaves room there.\<close>

lemma room_for_item:
  assumes p: "placed key xs array parts" and i: "i < length array"
    and t: "t = key (array ! i)" and out: "\<not> (keys_below key xs t \<le> i \<and> i < cur (parts ! t))"
  shows "cur (parts ! t) < endp (parts ! t)"
proof -
  have tK: "t < length parts" and pos: "0 < key_count key xs t"
    using placed_key_range [OF p i] t by auto
  let ?front = "{keys_below key xs t ..< cur (parts ! t)}"
  have "cur (parts ! t) \<le> length array"
    using placedD(3) [OF p tK pos] placed_endp_le [OF p tK] placed_length [OF p] by simp
  then have "insert i ?front \<subseteq> {j. j < length array \<and> key (array ! j) = t}"
    using placedD(4) [OF p tK pos] i t by auto
  then have "card (insert i ?front) \<le> key_count key array t"
    unfolding key_count_card by (intro card_mono) auto
  moreover have "card (insert i ?front) = Suc (cur (parts ! t) - keys_below key xs t)"
    using out by simp
  moreover have "key_count key array t = key_count key xs t"
    using p by (intro key_count_mset) (simp add: placed_def)
  ultimately show ?thesis
    using placedD(1,2) [OF p tK pos] by simp
qed

text \<open>Partitions do not overlap.\<close>

lemma partitions_disjoint:
  assumes "j \<noteq> k" "keys_below key xs j \<le> i" "i < keys_below key xs j + key_count key xs j"
  shows "\<not> (keys_below key xs k \<le> i \<and> i < keys_below key xs k + key_count key xs k)"
  using assms partition_order [of j k key xs] partition_order [of k j key xs]
  by (cases j k rule: linorder_cases) auto

lemma todo_update:
  assumes "t < length parts" "cur (parts ! t) < endp (parts ! t)"
  shows "Suc (todo (parts[t := (parts ! t)\<lparr>cur := cur (parts ! t) + 1\<rparr>])) = todo parts"
proof -
  have "todo (parts[t := (parts ! t)\<lparr>cur := cur (parts ! t) + 1\<rparr>]) + (endp (parts ! t) - cur (parts ! t))
      = todo parts + (endp (parts ! t) - Suc (cur (parts ! t)))"
    using sum_map_update [OF assms(1), of "\<lambda>p. endp p - cur p"] by (simp add: todo_def)
  with assms(2) show ?thesis by simp
qed

lemma swap_step:
  assumes p: "placed key xs array parts" and q: "q < length parts"
    and i: "cur (parts ! q) \<le> i" "i < endp (parts ! q)"
  defines "t \<equiv> key (array ! i)"
  defines "parts' \<equiv> parts[t := (parts ! t)\<lparr>cur := cur (parts ! t) + 1\<rparr>]"
  defines "array' \<equiv> swap array i (cur (parts ! t))"
  shows "placed key xs array' parts'" and "cur (parts' ! q) \<le> Suc i"
    and "endp (parts' ! q) = endp (parts ! q)" and "Suc (todo parts') = todo parts"
    and "i < length array" "t < length parts" "cur (parts ! t) < length array"
proof -
  have qpos: "0 < key_count key xs q"
    using p q i by (auto simp: placed_def default_part_def split: if_splits)
  have qi: "keys_below key xs q \<le> i" "i < keys_below key xs q + key_count key xs q"
    using placedD(1,2) [OF p q qpos] i by auto
  show ilen: "i < length array"
    using i placed_endp_le [OF p q] placed_length [OF p] by simp
  show tK: "t < length parts" using placed_key_range(1) [OF p ilen] t_def by simp
  have pos: "0 < key_count key xs t" using placed_key_range(2) [OF p ilen] t_def by simp
  have out: "\<not> (keys_below key xs t \<le> i \<and> i < cur (parts ! t))"
  proof (cases "t = q")
    case True
    with i show ?thesis by simp
  next
    case False
    with partitions_disjoint [of q t key xs i] qi placedD(1,3) [OF p tK pos] show ?thesis by auto
  qed
  have room: "cur (parts ! t) < endp (parts ! t)"
    using room_for_item [OF p ilen meta_eq_to_obj_eq [OF t_def] out] .
  then show clen: "cur (parts ! t) < length array"
    using placed_endp_le [OF p tK] placed_length [OF p] by simp
  show "cur (parts' ! q) \<le> Suc i" "endp (parts' ! q) = endp (parts ! q)"
    using i q tK by (auto simp: parts'_def nth_list_update)
  show "Suc (todo parts') = todo parts"
    unfolding parts'_def by (rule todo_update [OF tK room])
  have "key (array' ! j) = k"
    if k: "k < length parts" "0 < key_count key xs k"
      and j: "keys_below key xs k \<le> j" "j < cur (parts' ! k)" for k j
  proof -
    have jend: "j < keys_below key xs k + key_count key xs k"
      using j placedD(1,3) [OF p k] room placedD(1) [OF p tK pos]
      by (auto simp: parts'_def nth_list_update [OF tK] split: if_splits)
    then have jlen: "j < length array"
      using partition_end [of key xs k] placed_length [OF p] by simp
    show ?thesis
    proof (cases "j = cur (parts ! t)")
      case True
      have "k = t"
        using partitions_disjoint [of k t key xs j] j jend True room placedD(1,2) [OF p tK pos] by auto
      with True show ?thesis
        using ilen clen by (simp add: array'_def t_def nth_swap)
    next
      case False
      then have front: "j < cur (parts ! k)"
        using j by (auto simp: parts'_def nth_list_update [OF tK] split: if_splits)
      then have "key (array ! j) = k" using placedD(4) [OF p k] j by simp
      moreover have "j \<noteq> i"
      proof
        assume "j = i"
        with partitions_disjoint [of q k key xs i] qi j jend have "k = q" by auto
        with front i \<open>j = i\<close> show False by simp
      qed
      ultimately show ?thesis
        using False ilen clen jlen by (simp add: array'_def nth_swap)
    qed
  qed
  then show "placed key xs array' parts'"
    using p ilen clen room pos unfolding placed_def
    by (auto simp: parts'_def array'_def nth_list_update tK)
qed

lemma item_loop_ok:
  assumes "placed key xs array parts" "q < length parts"
    and "cur (parts ! q) \<le> i" "i \<le> endp (parts ! q)"
  shows "\<exists>array' parts'. item_loop key array parts [i ..< endp (parts ! q)] = Some (array', parts')
     \<and> placed key xs array' parts' \<and> length parts' = length parts
     \<and> todo parts' + (endp (parts ! q) - i) = todo parts
     \<and> (\<forall>k < length parts. cur (parts ! k) \<le> cur (parts' ! k))"
  using assms
proof (induction "endp (parts ! q) - i" arbitrary: i array parts)
  case 0
  then show ?case by simp
next
  case (Suc n)
  then have i: "i < endp (parts ! q)" by simp
  let ?t = "key (array ! i)"
  let ?parts = "parts[?t := (parts ! ?t)\<lparr>cur := cur (parts ! ?t) + 1\<rparr>]"
  let ?array = "swap array i (cur (parts ! ?t))"
  note step = swap_step [OF Suc.prems(1,2,3) i]
  have "\<exists>array' parts'. item_loop key ?array ?parts [Suc i ..< endp (?parts ! q)] = Some (array', parts')
     \<and> placed key xs array' parts' \<and> length parts' = length ?parts
     \<and> todo parts' + (endp (?parts ! q) - Suc i) = todo ?parts
     \<and> (\<forall>k < length ?parts. cur (?parts ! k) \<le> cur (parts' ! k))"
  proof (rule Suc.hyps(1))
    show "n = endp (?parts ! q) - Suc i" using Suc.hyps(2) step(3) by simp
    show "placed key xs ?array ?parts" "cur (?parts ! q) \<le> Suc i" by (rule step)+
    show "Suc i \<le> endp (?parts ! q)" using step(3) i by simp
  qed (simp add: Suc.prems)
  then obtain array' parts' where
    r: "item_loop key ?array ?parts [Suc i ..< endp (parts ! q)] = Some (array', parts')"
       "placed key xs array' parts'" "length parts' = length parts"
       "todo parts' + (endp (parts ! q) - Suc i) = todo ?parts"
       "\<forall>k < length parts. cur (?parts ! k) \<le> cur (parts' ! k)"
    using step(3) by auto
  have mono: "cur (parts ! k) \<le> cur (?parts ! k)" if "k < length parts" for k
    using that by (cases "k = ?t") (simp_all add: nth_list_update)
  have "item_loop key array parts [i ..< endp (parts ! q)] = Some (array', parts')"
    using i step(5-7) r(1) by (simp add: upt_conv_Cons swap_unchecked_def)
  moreover have "todo parts' + (endp (parts ! q) - i) = todo parts"
    using r(4) step(4) i by simp
  moreover have "\<forall>k < length parts. cur (parts ! k) \<le> cur (parts' ! k)"
    using r(5) mono order_trans by blast
  ultimately show ?case using r(2,3) by blast
qed

lemma part_loop_ok:
  assumes "placed key xs array parts" "set idxs \<subseteq> {..<length parts}"
  shows "\<exists>array' parts'. part_loop key array parts idxs = Some (array', parts')
     \<and> placed key xs array' parts' \<and> length parts' = length parts \<and> todo parts' \<le> todo parts
     \<and> (idxs \<noteq> [] \<longrightarrow> cur (parts ! hd idxs) < endp (parts ! hd idxs) \<longrightarrow> todo parts' < todo parts)
     \<and> (\<forall>k < length parts. cur (parts ! k) \<le> cur (parts' ! k))"
  using assms
proof (induction idxs arbitrary: array parts)
  case Nil
  then show ?case by simp
next
  case (Cons q idxs)
  have le: "cur (parts ! q) \<le> endp (parts ! q)"
    using Cons.prems by (auto simp: placed_def default_part_def split: if_splits)
  from item_loop_ok [OF Cons.prems(1) _ order_refl le] Cons.prems(2) obtain array1 parts1 where
    1: "item_loop key array parts [cur (parts ! q) ..< endp (parts ! q)] = Some (array1, parts1)"
       "placed key xs array1 parts1" "length parts1 = length parts"
       "todo parts1 + (endp (parts ! q) - cur (parts ! q)) = todo parts"
       "\<forall>k < length parts. cur (parts ! k) \<le> cur (parts1 ! k)" by auto
  from Cons.IH [OF 1(2)] Cons.prems(2) 1(3) obtain array' parts' where
    "part_loop key array1 parts1 idxs = Some (array', parts')"
    "placed key xs array' parts'" "length parts' = length parts1" "todo parts' \<le> todo parts1"
    "\<forall>k < length parts1. cur (parts1 ! k) \<le> cur (parts' ! k)" by auto
  with 1 Cons.prems(2) show ?case by (auto intro: order_trans)
qed

lemma placed_full_stays:
  assumes "placed key xs array parts" "placed key xs array' parts'" "length parts' = length parts"
    and "k < length parts" "cur (parts ! k) = endp (parts ! k)" "cur (parts ! k) \<le> cur (parts' ! k)"
  shows "cur (parts' ! k) = endp (parts' ! k)"
proof (cases "key_count key xs k = 0")
  case True
  with assms show ?thesis by (auto simp: placed_def)
next
  case False
  with placedD(1,3) [OF assms(1,4)] placedD(1,3) [OF assms(2), of k] assms show ?thesis by simp
qed

lemma reorganize_ok:
  assumes "placed key xs array parts" "set idxs \<subseteq> {..<length parts}"
    and "\<forall>k < length parts. k \<notin> set idxs \<longrightarrow> cur (parts ! k) = endp (parts ! k)" "distinct idxs"
  shows "\<exists>array' parts' q. reorganize key array parts idxs = Some array'
     \<and> placed key xs array' parts' \<and> length parts' = length parts
     \<and> (\<forall>k < length parts'. k \<noteq> q \<longrightarrow> cur (parts' ! k) = endp (parts' ! k))"
  using assms
proof (induction "todo parts" arbitrary: array parts idxs rule: less_induct)
  case less
  let ?idxs = "inexhausted parts idxs"
  have le: "cur (parts ! k) \<le> endp (parts ! k)" if "k < length parts" for k
    using less.prems(1) that by (auto simp: placed_def default_part_def split: if_splits)
  have sub: "set ?idxs \<subseteq> {..<length parts}" using less.prems(2) by (auto simp: inexhausted_def)
  have full: "cur (parts ! k) = endp (parts ! k)" if "k < length parts" "k \<notin> set ?idxs" for k
    using less.prems(3) that le [of k] by (force simp: inexhausted_def)
  show ?case
  proof (cases "length ?idxs > 1")
    case True
    then have ne: "?idxs \<noteq> []" by auto
    then have hd: "cur (parts ! hd ?idxs) < endp (parts ! hd ?idxs)"
      using hd_in_set [OF ne] by (auto simp: inexhausted_def)
    from part_loop_ok [OF less.prems(1) sub] ne hd obtain array1 parts1 where
      1: "part_loop key array parts ?idxs = Some (array1, parts1)"
         "placed key xs array1 parts1" "length parts1 = length parts" "todo parts1 < todo parts"
         "\<forall>k < length parts. cur (parts ! k) \<le> cur (parts1 ! k)" by auto
    have "\<forall>k < length parts1. k \<notin> set ?idxs \<longrightarrow> cur (parts1 ! k) = endp (parts1 ! k)"
      using full 1(3,5) placed_full_stays [OF less.prems(1) 1(2,3)] by metis
    moreover have "distinct ?idxs" using less.prems(4) by (simp add: inexhausted_def)
    ultimately have "\<exists>array' parts' q. reorganize key array1 parts1 ?idxs = Some array'
     \<and> placed key xs array' parts' \<and> length parts' = length parts1
     \<and> (\<forall>k < length parts'. k \<noteq> q \<longrightarrow> cur (parts' ! k) = endp (parts' ! k))"
      using sub 1(3) by (intro less.hyps [OF 1(4,2)]) auto
    moreover have "reorganize key array parts idxs = reorganize key array1 parts1 ?idxs"
      using True 1(1) by (subst reorganize.simps) simp
    ultimately show ?thesis using 1(3) by simp
  next
    case False
    have "\<exists>q. \<forall>k < length parts. k \<noteq> q \<longrightarrow> k \<notin> set ?idxs"
    proof (cases ?idxs)
      case Nil
      then show ?thesis by simp
    next
      case (Cons a list)
      with False have "?idxs = [a]" by simp
      then show ?thesis by (intro exI [of _ a]) simp
    qed
    then obtain q where "\<forall>k < length parts. k \<noteq> q \<longrightarrow> cur (parts ! k) = endp (parts ! k)"
      using full by blast
    moreover have "reorganize key array parts idxs = Some array"
      using False by (subst reorganize.simps) simp
    ultimately show ?thesis using less.prems(1) by blast
  qed
qed

section \<open>The sorted result\<close>

text \<open>With at most one partition left, every partition holds exactly the items of its key.\<close>

lemma partition_filled:
  assumes p: "placed key xs array parts"
    and full: "\<forall>k < length parts. k \<noteq> q \<longrightarrow> cur (parts ! k) = endp (parts ! k)"
    and i: "i < length array" and k: "k = key (array ! i)"
  shows "keys_below key xs k \<le> i \<and> i < keys_below key xs k + key_count key xs k"
proof -
  have only: "keys_below key xs j \<le> m \<and> m < keys_below key xs j + key_count key xs j"
    if m: "m < length array" "key (array ! m) = j" and j: "j \<noteq> q" for m j
  proof -
    have jK: "j < length parts" and pos: "0 < key_count key xs j"
      using placed_key_range [OF p m(1)] m(2) by auto
    let ?I = "{keys_below key xs j ..< keys_below key xs j + key_count key xs j}"
    let ?J = "{m. m < length array \<and> key (array ! m) = j}"
    have e: "cur (parts ! j) = keys_below key xs j + key_count key xs j"
      using placedD(1) [OF p jK pos] full jK j by simp
    have "?I \<subseteq> ?J"
    proof
      fix i
      assume i: "i \<in> ?I"
      then have "key (array ! i) = j" using placedD(4) [OF p jK pos, of i] e by simp
      with i show "i \<in> ?J" using partition_end [of key xs j] placed_length [OF p] by simp
    qed
    moreover have "card ?J = card ?I"
      using key_count_mset [of array xs key] p by (simp add: placed_def key_count_card [symmetric])
    ultimately have "?I = ?J" using card_subset_eq [of ?J ?I] by simp
    moreover have "m \<in> ?J" using m by simp
    ultimately have "m \<in> ?I" by blast
    then show ?thesis by simp
  qed
  show ?thesis
  proof (cases "k = q")
    case False
    with only i k show ?thesis by blast
  next
    case True
    have pos: "0 < key_count key xs k" using placed_key_range(2) [OF p i] k by simp
    let ?I = "{keys_below key xs k ..< keys_below key xs k + key_count key xs k}"
    let ?J = "{m. m < length array \<and> key (array ! m) = k}"
    have "?I \<subseteq> ?J"
    proof
      fix m
      assume m: "m \<in> ?I"
      then have mlen: "m < length array"
        using partition_end [of key xs k] placed_length [OF p] by simp
      have "key (array ! m) = k"
      proof (rule ccontr)
        assume ne: "key (array ! m) \<noteq> k"
        with only [OF mlen refl] True have "keys_below key xs (key (array ! m)) \<le> m"
          "m < keys_below key xs (key (array ! m)) + key_count key xs (key (array ! m))" by auto
        with partitions_disjoint [OF ne] m show False by auto
      qed
      with mlen show "m \<in> ?J" by simp
    qed
    moreover have "card ?J = card ?I"
      using key_count_mset [of array xs key] p by (simp add: placed_def key_count_card [symmetric])
    ultimately have "?I = ?J" using card_subset_eq [of ?J ?I] by simp
    moreover have "i \<in> ?J" using i k by simp
    ultimately have "i \<in> ?I" by blast
    then show ?thesis by simp
  qed
qed

lemma filled_sorted:
  assumes p: "placed key xs array parts"
    and full: "\<forall>k < length parts. k \<noteq> q \<longrightarrow> cur (parts ! k) = endp (parts ! k)"
  shows "sorted (map key array)"
proof (rule sorted_iff_nth_mono [THEN iffD2], intro allI impI)
  fix i j
  assume ij: "i \<le> j" "j < length (map key array)"
  then have len: "i < length array" "j < length array" by auto
  note pi = partition_filled [OF p full len(1) refl] and pj = partition_filled [OF p full len(2) refl]
  show "map key array ! i \<le> map key array ! j"
  proof (rule ccontr)
    assume "\<not> map key array ! i \<le> map key array ! j"
    then have "key (array ! j) < key (array ! i)" using len by simp
    from partition_order [OF this, of key xs] pi pj ij show False by linarith
  qed
qed

lemma placed_initially:
  assumes "\<forall>x \<in> set xs. key x < length counts"
    and "\<forall>k < length counts. counts ! k = key_count key xs k"
  shows "placed key xs xs (construct_parts 0 counts)"
  using construct_parts_ok [of counts key xs 0 0] assms
  by (auto simp: placed_def keys_below_def)

lemma radix_sort_by_key_ok:
  assumes keys: "\<forall>x \<in> set xs. key x < n"
  shows "\<exists>ys counts. radix_sort_by_key key xs (replicate n 0) = Some (ys, counts)
     \<and> mset ys = mset xs \<and> sorted (map key ys)
     \<and> length counts = n \<and> (\<forall>k < n. counts ! k = length (filter (\<lambda>x. key x = k) xs))"
proof -
  from count_keys_ok [of xs key "replicate n 0"] keys obtain counts where
    c: "count_keys key (replicate n 0) xs = Some counts" "length counts = n"
       "\<forall>k < n. counts ! k = key_count key xs k" by auto
  let ?parts = "construct_parts 0 counts"
  have p: "placed key xs xs ?parts" using keys c by (intro placed_initially) simp_all
  have len: "length ?parts = n"
    using construct_parts_ok [of counts key xs 0 0] c by (simp add: keys_below_def)
  from reorganize_ok [OF p, of "[0..<n]"] len obtain ys parts q where
    "reorganize key xs ?parts [0..<n] = Some ys" and y: "placed key xs ys parts"
    "\<forall>k < length parts. k \<noteq> q \<longrightarrow> cur (parts ! k) = endp (parts ! k)" by (auto simp: atLeast0LessThan)
  with c have "radix_sort_by_key key xs (replicate n 0) = Some (ys, counts)"
    by (simp add: radix_sort_by_key_def)
  moreover have "sorted (map key ys)" using y by (rule filled_sorted)
  ultimately show ?thesis using y(1) c by (auto simp: placed_def key_count_def)
qed

section \<open>Properties\<close>

text \<open>
  C13: On any array whose keys are below the number of counters, with the counters zeroed, the
  radix sort ends, stays inside its arrays, permutes the items into ascending key order and
  leaves in every counter the number of items of that key.
\<close>

theorem radix_sort_sorts:
  assumes keys: "\<forall>x \<in> set xs. key x < n"
  shows "\<exists>ys counts. radix_sort_by_key key xs (replicate n 0) = Some (ys, counts)
     \<and> mset ys = mset xs \<and> sorted (map key ys)
     \<and> length counts = n \<and> (\<forall>k < n. counts ! k = length (filter (\<lambda>x. key x = k) xs))"
  using assms by (rule radix_sort_by_key_ok)

theorem radix_sort_sorts_witness:
  "\<exists>ys counts. radix_sort_by_key fst [(2::nat, ''a''), (0, ''b''), (2, ''c''), (1, ''d'')]
       (replicate 3 0) = Some (ys, counts)
     \<and> sorted (map fst ys) \<and> counts ! 2 = 2"
  using radix_sort_sorts [of "[(2::nat, ''a''), (0, ''b''), (2, ''c''), (1, ''d'')]" fst 3] by auto

end
