(* ===== verification/Radix_Queue.thy ===== *)
theory Radix_Queue
  imports Prelude
begin

text \<open>
  The radix queue of \<open>datafusion-ext-commons/src/algorithm/rdx_queue.rs\<close>: a priority queue
  over values with small integer keys, kept as one linked list of value indices per key
  (\<open>entries\<close> holds the heads, \<open>node_nexts\<close> the links, \<open>usize_max\<close> ends a list). Shuffle and
  aggregation merge their spilled partitions and buckets with it. The parameter \<open>rdx\<close> is the
  trait method \<open>KeyForRadixQueue::rdx\<close>.
\<close>

section \<open>The structure and its operations\<close>

record 'a radix_queue =
  num_keys :: nat
  cur_rdx :: nat
  rq_values :: "'a list"
  entries :: "nat list"
  node_nexts :: "nat list"

text \<open>The \<open>for\<close> loop of \<open>init_tree\<close> over the values from index \<open>i\<close> on.\<close>

fun init_queue ::
  "('a \<Rightarrow> nat) \<Rightarrow> nat \<Rightarrow> nat \<Rightarrow> 'a list \<Rightarrow> nat list \<Rightarrow> nat list \<Rightarrow> nat
    \<Rightarrow> (nat list \<times> nat list \<times> nat) option" where
  "init_queue rdx nk i [] es ns min_rdx = Some (es, ns, min_rdx)"
| "init_queue rdx nk i (v # vs) es ns min_rdx =
     (if rdx v < nk
      then do { e \<leftarrow> vget es (rdx v);
                ns' \<leftarrow> vset ns i e;
                es' \<leftarrow> vset es (rdx v) i;
                init_queue rdx nk (Suc i) vs es' ns' (min min_rdx (rdx v)) }
      else init_queue rdx nk (Suc i) vs es ns (min min_rdx (rdx v)))"

definition new_queue :: "('a \<Rightarrow> nat) \<Rightarrow> 'a list \<Rightarrow> nat \<Rightarrow> 'a radix_queue option" where
  "new_queue rdx vs keys =
     (let nk = keys + 1
      in do { (es, ns, min_rdx) \<leftarrow>
                init_queue rdx nk 0 vs (replicate nk usize_max) (replicate (length vs) usize_max)
                  usize_max;
              Some \<lparr>num_keys = nk, cur_rdx = min_rdx, rq_values = vs, entries = es,
                    node_nexts = ns\<rparr> })"

text \<open>The value the guard and \<open>peek\<close> look at: \<open>entries.get(cur_rdx).cloned().unwrap_or_default()\<close>.\<close>

definition top_index :: "'a radix_queue \<Rightarrow> nat" where
  "top_index q = (case vget (entries q) (cur_rdx q) of Some i \<Rightarrow> i | None \<Rightarrow> 0)"

definition queue_peek :: "'a radix_queue \<Rightarrow> 'a option" where
  "queue_peek q = vget (rq_values q) (top_index q)"

text \<open>\<open>while next_rdx < num_keys && entries[next_rdx] == usize::MAX\<close>.\<close>

function forward_rdx :: "nat list \<Rightarrow> nat \<Rightarrow> nat \<Rightarrow> nat" where
  "forward_rdx es nk r =
     (if r < nk then (if vget es r = Some usize_max then forward_rdx es nk (r + 1) else r) else r)"
  by pat_completeness auto
termination
  by (relation "measure (\<lambda>(es, nk, r). nk - r)") auto

declare forward_rdx.simps [simp del]

definition adjust_queue :: "('a \<Rightarrow> nat) \<Rightarrow> 'a radix_queue \<Rightarrow> 'a radix_queue option" where
  "adjust_queue rdx q =
     (let old_rdx = cur_rdx q
      in if old_rdx < num_keys q
         then do { i \<leftarrow> vget (entries q) old_rdx;
                   v \<leftarrow> vget (rq_values q) i;
                   let new_rdx = rdx v;
                   if old_rdx < new_rdx
                   then do { link \<leftarrow> vget (node_nexts q) i;
                             es \<leftarrow> vset (entries q) old_rdx link;
                             (es', ns') \<leftarrow>
                               (if new_rdx < num_keys q
                                then do { e \<leftarrow> vget es new_rdx;
                                          ns \<leftarrow> vset (node_nexts q) i e;
                                          es2 \<leftarrow> vset es new_rdx i;
                                          Some (es2, ns) }
                                else Some (es, node_nexts q));
                             Some (q\<lparr>cur_rdx := forward_rdx es' (num_keys q) old_rdx,
                                     entries := es', node_nexts := ns'\<rparr>) }
                   else Some q }
         else Some q)"

text \<open>
  One use of the guard \<open>RadixTournamentTreePeekMut\<close>: \<open>deref_mut\<close> lets the borrower change the
  top value by \<open>f\<close>, and dropping the dirty guard adjusts the queue.
\<close>

definition queue_update_top :: "('a \<Rightarrow> nat) \<Rightarrow> ('a \<Rightarrow> 'a) \<Rightarrow> 'a radix_queue \<Rightarrow> 'a radix_queue option" where
  "queue_update_top rdx f q =
     do { v \<leftarrow> vget (rq_values q) (top_index q);
          vs \<leftarrow> vset (rq_values q) (top_index q) (f v);
          adjust_queue rdx (q\<lparr>rq_values := vs\<rparr>) }"

section \<open>Linked lists of indices\<close>

fun chain :: "nat list \<Rightarrow> nat \<Rightarrow> nat list \<Rightarrow> bool" where
  "chain ns e [] \<longleftrightarrow> e = usize_max"
| "chain ns e (x # xs) \<longleftrightarrow> e = x \<and> chain ns (ns ! x) xs"

lemma chain_frame: "i \<notin> set xs \<Longrightarrow> chain (ns[i := v]) e xs = chain ns e xs"
  by (induction xs arbitrary: e) auto

text \<open>
  The indices of \<open>S\<close> are filed: bucket \<open>r\<close> lists exactly those whose key is \<open>r\<close>.
\<close>

definition filed :: "('a \<Rightarrow> nat) \<Rightarrow> nat \<Rightarrow> 'a list \<Rightarrow> nat set \<Rightarrow> nat list \<Rightarrow> nat list \<Rightarrow>
    (nat \<Rightarrow> nat list) \<Rightarrow> bool" where
  "filed rdx nk vs S es ns ch \<longleftrightarrow>
     length es = nk \<and> length ns = length vs \<and> S \<subseteq> {..<length vs} \<and> length vs < usize_max
     \<and> (\<forall>r < nk. chain ns (es ! r) (ch r) \<and> distinct (ch r)
          \<and> set (ch r) = {i \<in> S. rdx (vs ! i) = r})"

lemma filedD:
  assumes "filed rdx nk vs S es ns ch"
  shows "length es = nk" "length ns = length vs" "S \<subseteq> {..<length vs}" "length vs < usize_max"
    and "r < nk \<Longrightarrow> chain ns (es ! r) (ch r)" "r < nk \<Longrightarrow> distinct (ch r)"
    and "r < nk \<Longrightarrow> set (ch r) = {i \<in> S. rdx (vs ! i) = r}"
  using assms by (auto simp: filed_def)

lemma filed_bucket:
  assumes f: "filed rdx nk vs S es ns ch" and r: "r < nk"
  shows "es ! r = usize_max \<longleftrightarrow> ch r = []" and "ch r \<noteq> [] \<Longrightarrow> es ! r = hd (ch r)"
proof -
  have "hd (ch r) < length vs" if "ch r \<noteq> []"
    using hd_in_set [OF that] filedD(3,7) [OF f] r by auto
  with filedD(4,5) [OF f] r show "es ! r = usize_max \<longleftrightarrow> ch r = []" "ch r \<noteq> [] \<Longrightarrow> es ! r = hd (ch r)"
    by (cases "ch r"; fastforce)+
qed

text \<open>Filing one more index at the front of its bucket.\<close>

lemma filed_link:
  assumes f: "filed rdx nk vs S es ns ch" and i: "i < length vs" "i \<notin> S"
    and r: "r = rdx (vs ! i)" "r < nk"
  shows "filed rdx nk vs (insert i S) (es[r := i]) (ns[i := es ! r]) (ch(r := i # ch r))"
proof -
  have fresh: "i \<notin> set (ch k)" if "k < nk" for k using filedD(7) [OF f that] i by auto
  have "chain (ns[i := es ! r]) (es[r := i] ! k) ((ch(r := i # ch r)) k)" if "k < nk" for k
    using filedD(1,2,5) [OF f] that fresh i r
    by (cases "k = r") (simp_all add: chain_frame)
  moreover have "set ((ch(r := i # ch r)) k) = {j \<in> insert i S. rdx (vs ! j) = k}" if "k < nk" for k
    using filedD(7) [OF f that] r i by auto
  ultimately show ?thesis
    using filedD(1-4,6) [OF f] i fresh r by (auto simp: filed_def)
qed

lemma filed_skip:
  assumes "filed rdx nk vs S es ns ch" "i < length vs" "nk \<le> rdx (vs ! i)"
  shows "filed rdx nk vs (insert i S) es ns ch"
  using assms by (auto simp: filed_def)

text \<open>Removing the front index of a bucket, whose value may have changed.\<close>

lemma filed_unlink:
  assumes f: "filed rdx nk vs S es ns ch" and r: "r < nk" and c: "ch r = i # xs"
  shows "filed rdx nk (vs[i := v]) (S - {i}) (es[r := ns ! i]) ns (ch(r := xs))"
proof -
  have i: "i \<in> S" "rdx (vs ! i) = r" using filedD(7) [OF f r] c by auto
  have d: "i \<notin> set xs" using filedD(6) [OF f r] c by simp
  have link: "chain ns (ns ! i) xs" using filedD(5) [OF f r] c by simp
  have "chain ns (es[r := ns ! i] ! k) ((ch(r := xs)) k)" if "k < nk" for k
    using filedD(1,5) [OF f] that r link by (cases "k = r") simp_all
  moreover have "set ((ch(r := xs)) k) = {j \<in> S - {i}. rdx (vs[i := v] ! j) = k}" if "k < nk" for k
  proof -
    have "{j \<in> S - {i}. rdx (vs[i := v] ! j) = k} = {j \<in> S. rdx (vs ! j) = k} - {i}" by auto
    moreover have "set xs = set (ch r) - {i}" using c d by auto
    ultimately show ?thesis
      using filedD(7) [OF f that] filedD(7) [OF f r] i by (cases "k = r") auto
  qed
  moreover have "distinct ((ch(r := xs)) k)" if "k < nk" for k
    using filedD(6) [OF f that] filedD(6) [OF f r] c by (cases "k = r") simp_all
  ultimately show ?thesis
    using filedD(1-4) [OF f] by (auto simp: filed_def)
qed

section \<open>The invariant\<close>

definition queue_inv :: "('a \<Rightarrow> nat) \<Rightarrow> 'a radix_queue \<Rightarrow> bool" where
  "queue_inv rdx q \<longleftrightarrow>
     rq_values q \<noteq> []
     \<and> (\<exists>ch. filed rdx (num_keys q) (rq_values q) {..<length (rq_values q)}
               (entries q) (node_nexts q) ch
             \<and> (cur_rdx q < num_keys q \<longrightarrow> ch (cur_rdx q) \<noteq> [])
             \<and> (\<forall>r < num_keys q. r < cur_rdx q \<longrightarrow> ch r = []))"

lemma init_queue_ok:
  assumes "filed rdx nk (us @ vs) {..<length us} es ns ch"
  shows "\<exists>es' ns' m' ch'. init_queue rdx nk (length us) vs es ns m = Some (es', ns', m')
     \<and> filed rdx nk (us @ vs) {..<length (us @ vs)} es' ns' ch'
     \<and> m' = Min (insert m (rdx ` set vs))"
  using assms
proof (induction vs arbitrary: us es ns m ch)
  case Nil
  then show ?case by auto
next
  case (Cons v vs)
  have len: "length us < length (us @ v # vs)" "length us \<notin> {..<length us}"
    and val: "(us @ v # vs) ! length us = v" by simp_all
  have S: "insert (length us) {..<length us} = {..<length (us @ [v])}"
    by (simp add: lessThan_Suc)
  have m: "Min (insert (min m (rdx v)) (rdx ` set vs)) = Min (insert m (rdx ` set (v # vs)))"
    by (cases "vs = []") (simp_all add: min.assoc)
  show ?case
  proof (cases "rdx v < nk")
    case True
    have "filed rdx nk ((us @ [v]) @ vs) {..<length (us @ [v])} (es[rdx v := length us])
        (ns[length us := es ! rdx v]) (ch(rdx v := length us # ch (rdx v)))"
      using filed_link [OF Cons.prems len(1) len(2), of "rdx v"] True val S by simp
    from Cons.IH [OF this, of "min m (rdx v)"] True m filedD(1,2) [OF Cons.prems]
    show ?thesis by simp
  next
    case False
    then have "filed rdx nk ((us @ [v]) @ vs) {..<length (us @ [v])} es ns ch"
      using filed_skip [OF Cons.prems len(1)] val S by simp
    from Cons.IH [OF this, of "min m (rdx v)"] False m show ?thesis by simp
  qed
qed

lemma new_queue_ok:
  assumes ne: "vs \<noteq> []" and big: "length vs < usize_max" and keys: "\<forall>v \<in> set vs. rdx v \<le> usize_max"
  shows "\<exists>q. new_queue rdx vs keys_n = Some q \<and> queue_inv rdx q \<and> rq_values q = vs
     \<and> num_keys q = keys_n + 1 \<and> cur_rdx q = Min (rdx ` set vs)"
proof -
  let ?nk = "keys_n + 1"
  have "filed rdx ?nk ([] @ vs) {..<length ([] :: 'a list)} (replicate ?nk usize_max)
      (replicate (length vs) usize_max) (\<lambda>_. [])"
    using big by (simp add: filed_def del: replicate_Suc)
  from init_queue_ok [OF this, of usize_max] obtain es ns m ch where
    run: "init_queue rdx ?nk 0 vs (replicate ?nk usize_max) (replicate (length vs) usize_max) usize_max
       = Some (es, ns, m)"
    and f: "filed rdx ?nk vs {..<length vs} es ns ch"
    and m: "m = Min (insert usize_max (rdx ` set vs))" by auto
  have mm: "m = Min (rdx ` set vs)"
  proof -
    have "Min (rdx ` set vs) \<le> rdx (hd vs)" using ne by (intro Min_le) simp_all
    also have "\<dots> \<le> usize_max" using keys ne by simp
    finally have "Min (rdx ` set vs) \<le> usize_max" .
    with m ne show ?thesis by simp
  qed
  have "m \<in> rdx ` set vs" unfolding mm using ne by (intro Min_in) simp_all
  then obtain v where v: "v \<in> set vs" "rdx v = m" by auto
  then obtain i where i: "i < length vs" "rdx (vs ! i) = m" by (auto simp: in_set_conv_nth)
  have low: "m \<le> rdx (vs ! j)" if "j < length vs" for j
    unfolding mm using that by (intro Min_le) simp_all
  have "queue_inv rdx \<lparr>num_keys = ?nk, cur_rdx = m, rq_values = vs, entries = es, node_nexts = ns\<rparr>"
  proof -
    have "i \<in> set (ch m)" if "m < ?nk" using filedD(7) [OF f that] i by simp
    then have "ch m \<noteq> []" if "m < ?nk" using that by (cases "ch m") simp_all
    moreover have "ch r = []" if "r < ?nk" "r < m" for r
    proof -
      have "j \<notin> set (ch r)" for j
      proof
        assume "j \<in> set (ch r)"
        then have "j < length vs" "rdx (vs ! j) = r" using filedD(7) [OF f that(1)] by simp_all
        with low [of j] that(2) show False by simp
      qed
      then show ?thesis by (metis list.set_intros(1) neq_Nil_conv)
    qed
    ultimately show ?thesis using ne f by (auto simp: queue_inv_def)
  qed
  with run mm show ?thesis by (simp add: new_queue_def)
qed

lemma queue_top:
  assumes "queue_inv rdx q"
  shows "top_index q < length (rq_values q)"
    and "cur_rdx q < num_keys q \<Longrightarrow> rdx (rq_values q ! top_index q) = cur_rdx q"
    and "v \<in> set (rq_values q) \<Longrightarrow> min (cur_rdx q) (num_keys q) \<le> rdx v"
proof -
  from assms obtain ch where f: "filed rdx (num_keys q) (rq_values q) {..<length (rq_values q)}
      (entries q) (node_nexts q) ch" and ne: "rq_values q \<noteq> []"
    and c: "cur_rdx q < num_keys q \<Longrightarrow> ch (cur_rdx q) \<noteq> []"
    and low: "\<And>r. r < num_keys q \<Longrightarrow> r < cur_rdx q \<Longrightarrow> ch r = []"
    by (auto simp: queue_inv_def)
  have top: "top_index q = hd (ch (cur_rdx q))" "hd (ch (cur_rdx q)) \<in> set (ch (cur_rdx q))"
    if "cur_rdx q < num_keys q"
    using filed_bucket(2) [OF f that] c [OF that] filedD(1) [OF f] that by (simp_all add: top_index_def)
  show "rdx (rq_values q ! top_index q) = cur_rdx q" if "cur_rdx q < num_keys q"
    using top [OF that] filedD(7) [OF f that] by auto
  show "top_index q < length (rq_values q)"
  proof (cases "cur_rdx q < num_keys q")
    case True
    with top [OF True] filedD(7) [OF f True] show ?thesis by auto
  next
    case False
    then have "top_index q = 0" using filedD(1) [OF f] by (simp add: top_index_def vget_def)
    with ne show ?thesis by simp
  qed
  show "min (cur_rdx q) (num_keys q) \<le> rdx v" if v: "v \<in> set (rq_values q)"
  proof (rule ccontr)
    assume "\<not> min (cur_rdx q) (num_keys q) \<le> rdx v"
    then have r: "rdx v < num_keys q" "rdx v < cur_rdx q" by auto
    from v obtain i where "i < length (rq_values q)" "rq_values q ! i = v"
      by (auto simp: in_set_conv_nth)
    with filedD(7) [OF f r(1)] low [OF r] show False by auto
  qed
qed

lemma forward_rdx_ok:
  assumes "length es = nk" "\<forall>k. k < nk \<and> k < r \<longrightarrow> es ! k = usize_max"
  shows "(forward_rdx es nk r < nk \<longrightarrow> es ! forward_rdx es nk r \<noteq> usize_max)
     \<and> (\<forall>k. k < nk \<and> k < forward_rdx es nk r \<longrightarrow> es ! k = usize_max)"
  using assms
proof (induction es nk r rule: forward_rdx.induct)
  case (1 es nk r)
  show ?case
  proof (cases "r < nk \<and> es ! r = usize_max")
    case True
    then have "\<forall>k. k < nk \<and> k < r + 1 \<longrightarrow> es ! k = usize_max"
      using "1.prems"(2) by (auto simp: less_Suc_eq)
    with "1.IH" True "1.prems"(1) have
      "(forward_rdx es nk (r + 1) < nk \<longrightarrow> es ! forward_rdx es nk (r + 1) \<noteq> usize_max)
       \<and> (\<forall>k. k < nk \<and> k < forward_rdx es nk (r + 1) \<longrightarrow> es ! k = usize_max)"
      by simp
    moreover have "forward_rdx es nk r = forward_rdx es nk (r + 1)"
      using True "1.prems"(1) by (simp add: forward_rdx.simps [of es nk r])
    ultimately show ?thesis by simp
  next
    case False
    then have "forward_rdx es nk r = r"
      using "1.prems"(1) by (auto simp: forward_rdx.simps [of es nk r])
    with False "1.prems" show ?thesis by auto
  qed
qed

lemma forward_rdx_ge: "r \<le> forward_rdx es nk r"
proof (induction es nk r rule: forward_rdx.induct)
  case (1 es nk r)
  then show ?case by (subst forward_rdx.simps) auto
qed

text \<open>
  Changing the top value to one whose key is not smaller keeps the invariant; the other
  values do not change.
\<close>

lemma queue_update_top_ok:
  assumes inv: "queue_inv rdx q" and active: "cur_rdx q < num_keys q"
  defines "i \<equiv> top_index q"
  assumes up: "cur_rdx q \<le> rdx (f (rq_values q ! i))"
  shows "\<exists>q'. queue_update_top rdx f q = Some q' \<and> queue_inv rdx q'
     \<and> rq_values q' = (rq_values q)[i := f (rq_values q ! i)] \<and> num_keys q' = num_keys q
     \<and> cur_rdx q \<le> cur_rdx q'"
proof -
  let ?nk = "num_keys q" and ?r = "cur_rdx q" and ?vs = "rq_values q"
  let ?v = "f (?vs ! i)" and ?es = "entries q" and ?ns = "node_nexts q"
  let ?vs' = "?vs[i := ?v]"
  from inv obtain ch where f: "filed rdx ?nk ?vs {..<length ?vs} ?es ?ns ch"
    and ne: "?vs \<noteq> []" and c: "ch ?r \<noteq> []"
    and low: "\<And>k. k < ?nk \<Longrightarrow> k < ?r \<Longrightarrow> ch k = []"
    using active by (auto simp: queue_inv_def)
  have ilen: "i < length ?vs" unfolding i_def by (rule queue_top(1) [OF inv])
  have ei: "?es ! ?r = i"
    using filedD(1) [OF f] active by (simp add: i_def top_index_def)
  obtain xs where xs: "ch ?r = i # xs"
    using c filed_bucket(2) [OF f active] ei by (cases "ch ?r") auto
  note lens = filedD(1,2) [OF f]
  show ?thesis
  proof (cases "?r < rdx ?v")
    case False
    with up have same: "rdx ?v = ?r" by simp
    have old: "rdx (?vs ! i) = ?r" using queue_top(2) [OF inv active] i_def by simp
    have key: "rdx (?vs' ! j) = rdx (?vs ! j)" for j
      using same old ilen by (cases "j = i") simp_all
    have "filed rdx ?nk ?vs' {..<length ?vs'} ?es ?ns ch"
      using f unfolding filed_def by (simp add: key)
    then have "queue_inv rdx (q\<lparr>rq_values := ?vs'\<rparr>)"
      using ne c low by (auto simp: queue_inv_def)
    moreover have "queue_update_top rdx f q = Some (q\<lparr>rq_values := ?vs'\<rparr>)"
      using ilen active lens ei same
      by (simp add: queue_update_top_def i_def [symmetric] adjust_queue_def Let_def)
    ultimately show ?thesis by simp
  next
    case True
    let ?es1 = "?es[?r := ?ns ! i]" and ?ch1 = "ch(?r := xs)" and ?S = "{..<length ?vs} - {i}"
    have f1: "filed rdx ?nk ?vs' ?S ?es1 ?ns ?ch1"
      by (rule filed_unlink [OF f active xs])
    define es2 where "es2 = (if rdx ?v < ?nk then ?es1[rdx ?v := i] else ?es1)"
    define ns2 where "ns2 = (if rdx ?v < ?nk then ?ns[i := ?es1 ! rdx ?v] else ?ns)"
    define ch2 where "ch2 = (if rdx ?v < ?nk then ?ch1(rdx ?v := i # ?ch1 (rdx ?v)) else ?ch1)"
    have S: "insert i ?S = {..<length ?vs'}" using ilen by auto
    have f2: "filed rdx ?nk ?vs' {..<length ?vs'} es2 ns2 ch2"
    proof (cases "rdx ?v < ?nk")
      case True
      then show ?thesis
        using filed_link [OF f1, of i "rdx ?v"] ilen S by (simp add: es2_def ns2_def ch2_def)
    next
      case False
      then show ?thesis
        using filed_skip [OF f1, of i] ilen S by (simp add: es2_def ns2_def ch2_def)
    qed
    define r2 where "r2 = forward_rdx es2 ?nk ?r"
    have "ch2 k = []" if "k < ?nk" "k < ?r" for k
      using low [OF that] that True by (simp add: ch2_def)
    then have "\<forall>k. k < ?nk \<and> k < ?r \<longrightarrow> es2 ! k = usize_max"
      using filed_bucket(1) [OF f2] by blast
    from forward_rdx_ok [OF filedD(1) [OF f2] this]
    have "r2 < ?nk \<longrightarrow> ch2 r2 \<noteq> []" "\<forall>k < ?nk. k < r2 \<longrightarrow> ch2 k = []"
      using filed_bucket(1) [OF f2] r2_def by auto
    with f2 ne have inv2: "queue_inv rdx (q\<lparr>rq_values := ?vs', cur_rdx := r2, entries := es2,
        node_nexts := ns2\<rparr>)"
      by (auto simp: queue_inv_def)
    have run: "queue_update_top rdx f q = Some (q\<lparr>rq_values := ?vs', cur_rdx := r2, entries := es2,
        node_nexts := ns2\<rparr>)"
      using ilen active lens ei True
      by (simp add: queue_update_top_def i_def [symmetric] adjust_queue_def Let_def es2_def ns2_def r2_def)
    from run inv2 show ?thesis using forward_rdx_ge [of ?r es2 ?nk] by (simp add: r2_def)
  qed
qed

section \<open>Properties\<close>

text \<open>
  A radix queue over a non-empty vector is built inside its vectors, and its top is a value
  of smallest key among all values, as long as that key is one of the queue's keys.
\<close>

theorem radix_queue_new_peeks_minimum:
  assumes "vs \<noteq> []" and "length vs < usize_max" and "\<forall>v \<in> set vs. rdx v \<le> usize_max"
  shows "\<exists>q. new_queue rdx vs n = Some q \<and> queue_inv rdx q \<and> rq_values q = vs
     \<and> ((\<exists>v \<in> set vs. rdx v \<le> n) \<longrightarrow>
         (\<exists>t. queue_peek q = Some t \<and> t \<in> set vs \<and> (\<forall>v \<in> set vs. rdx t \<le> rdx v)))"
proof -
  from new_queue_ok [OF assms, of n] obtain q where
    q: "new_queue rdx vs n = Some q" "queue_inv rdx q" "rq_values q = vs"
       "num_keys q = n + 1" "cur_rdx q = Min (rdx ` set vs)" by blast
  have "\<exists>t. queue_peek q = Some t \<and> t \<in> set vs \<and> (\<forall>v \<in> set vs. rdx t \<le> rdx v)"
    if v: "v \<in> set vs" "rdx v \<le> n" for v
  proof -
    have "cur_rdx q \<le> rdx v" using v q(5) by simp
    then have active: "cur_rdx q < num_keys q" using v q(4) by simp
    have "rdx (vs ! top_index q) = Min (rdx ` set vs)"
      using queue_top(2) [OF q(2) active] q(3,5) by simp
    moreover have "top_index q < length vs" using queue_top(1) [OF q(2)] q(3) by simp
    ultimately show ?thesis using q(3) by (auto simp: queue_peek_def)
  qed
  with q show ?thesis by blast
qed

theorem radix_queue_new_peeks_minimum_witness:
  "\<exists>q. new_queue id [4::nat, 2, 7] 5 = Some q
     \<and> (\<exists>t. queue_peek q = Some t \<and> (\<forall>v \<in> set [4, 2, 7]. t \<le> v))"
  using radix_queue_new_peeks_minimum [of "[4::nat, 2, 7]" id 5]
  by (auto simp: usize_max_def)

text \<open>
  Changing the top of an active radix queue to a value whose key is not smaller stays inside
  the vectors, changes that one value, keeps the queue invariant and never moves the current
  key backwards.
\<close>

theorem radix_queue_update_top:
  assumes "queue_inv rdx q" and "cur_rdx q < num_keys q"
    and "cur_rdx q \<le> rdx (f (rq_values q ! top_index q))"
  shows "\<exists>q'. queue_update_top rdx f q = Some q' \<and> queue_inv rdx q'
     \<and> rq_values q' = (rq_values q)[top_index q := f (rq_values q ! top_index q)]
     \<and> cur_rdx q \<le> cur_rdx q'"
  using queue_update_top_ok [OF assms(1,2), of f] assms(3) by blast

theorem radix_queue_update_top_witness:
  "\<exists>q q'. new_queue id [4::nat, 2, 7] 5 = Some q \<and> queue_update_top id (\<lambda>v. v + 1) q = Some q'
     \<and> queue_inv id q' \<and> cur_rdx q \<le> cur_rdx q'"
proof -
  have "length [4::nat, 2, 7] < usize_max" "\<forall>v \<in> set [4::nat, 2, 7]. id v \<le> usize_max"
    by (simp_all add: usize_max_def)
  with new_queue_ok [of "[4::nat, 2, 7]" id 5] obtain q where
    q: "new_queue id [4::nat, 2, 7] 5 = Some q" "queue_inv id q" "num_keys q = 6"
      "cur_rdx q = Min (id ` set [4, 2, 7])" by auto
  then have active: "cur_rdx q < num_keys q" by simp
  then have "cur_rdx q \<le> id ((\<lambda>v. v + 1) (rq_values q ! top_index q))"
    using queue_top(2) [OF q(2) active] by simp
  from radix_queue_update_top [of id q "\<lambda>v. v + 1", OF q(2) active this] q(1) show ?thesis by blast
qed

end
