(* ===== verification/Offsetted_Merge.thy ===== *)
theory Offsetted_Merge
  imports Radix_Queue
begin

text \<open>
  Merging partitioned runs (\<open>datafusion-ext-plans/src/common/offsetted.rs\<close>). An \<open>Offsetted\<close>
  is a data item (a spill, an in-memory buffer) with the offsets of its partitions; the merge
  iterator visits the non-empty partition ranges of all runs in partition order, using a
  radix queue over the runs keyed by their current partition, and records the offsets of the
  merged output.
\<close>

section \<open>Offsetted data, cursors and the merge iterator\<close>

record 'd offsetted =
  offsets :: "nat list"
  odata :: 'd

record 'd offsetted_cursor =
  ocursor_src :: "'d offsetted"
  ocur :: nat

text \<open>\<open>Offsetted::offset\<close>: the range of partition \<open>i\<close>.\<close>

definition offset_range :: "'d offsetted \<Rightarrow> nat \<Rightarrow> (nat \<times> nat) option" where
  "offset_range off i =
     do { s \<leftarrow> vget (offsets off) i; e \<leftarrow> vget (offsets off) (i + 1); Some (s, e) }"

definition cursor_rdx :: "'d offsetted_cursor \<Rightarrow> nat" where
  "cursor_rdx c = ocur c"

function skip_from :: "nat list \<Rightarrow> nat \<Rightarrow> nat" where
  "skip_from os c =
     (if c + 1 < length os then (if os ! (c + 1) = os ! c then skip_from os (c + 1) else c) else c)"
  by pat_completeness auto
termination
  by (relation "measure (\<lambda>(os, c). length os - c)") auto

declare skip_from.simps [simp del]

definition skip_empty_partitions :: "'d offsetted_cursor \<Rightarrow> 'd offsetted_cursor" where
  "skip_empty_partitions c = c\<lparr>ocur := skip_from (offsets (ocursor_src c)) (ocur c)\<rparr>"

definition new_cursor :: "'d offsetted \<Rightarrow> 'd offsetted_cursor" where
  "new_cursor off = skip_empty_partitions \<lparr>ocursor_src = off, ocur = 0\<rparr>"

record 'd merge_iter =
  num_partitions :: nat
  cursors :: "'d offsetted_cursor radix_queue"
  cur_partition_id :: nat
  cur_offset :: nat
  merged_offsets :: "nat list"

definition new_merge_iter :: "nat \<Rightarrow> 'd offsetted list \<Rightarrow> 'd merge_iter option" where
  "new_merge_iter np os =
     (if os = [] then None
      else do { q \<leftarrow> new_queue cursor_rdx (map new_cursor os) np;
                c \<leftarrow> queue_peek q;
                Some \<lparr>num_partitions = np, cursors = q, cur_partition_id = ocur c,
                      cur_offset = 0, merged_offsets = []\<rparr> })"

definition peek_next_partition_id :: "'d merge_iter \<Rightarrow> nat option" where
  "peek_next_partition_id it = map_option ocur (queue_peek (cursors it))"

text \<open>\<open>Vec::resize\<close>.\<close>

definition vec_resize :: "'a list \<Rightarrow> nat \<Rightarrow> 'a \<Rightarrow> 'a list" where
  "vec_resize xs n v = take n xs @ replicate (n - length xs) v"

text \<open>\<open>Iterator::next\<close>: \<open>Some (None, it)\<close> is the end of the iteration.\<close>

definition merge_next ::
  "'d merge_iter \<Rightarrow> ((nat \<times> 'd \<times> (nat \<times> nat)) option \<times> 'd merge_iter) option" where
  "merge_next it =
     do { c \<leftarrow> queue_peek (cursors it);
          let pid = ocur c;
          let it1 = it\<lparr>cur_partition_id := pid,
                       merged_offsets := vec_resize (merged_offsets it) (pid + 1) (cur_offset it)\<rparr>;
          if num_partitions it \<le> pid then Some (None, it1)
          else do { (s, e) \<leftarrow> offset_range (ocursor_src c) pid;
                    q \<leftarrow> queue_update_top cursor_rdx
                           (\<lambda>c. skip_empty_partitions (c\<lparr>ocur := ocur c + 1\<rparr>)) (cursors it);
                    Some (Some (pid, odata (ocursor_src c), (s, e)),
                          it1\<lparr>cursors := q, cur_offset := cur_offset it + e - s\<rparr>) } }"

text \<open>\<open>OffsettedMergePartitionChunkIterator::next\<close>: only the ranges of one partition.\<close>

definition chunk_next ::
  "nat \<Rightarrow> 'd merge_iter \<Rightarrow> (('d \<times> (nat \<times> nat)) option \<times> 'd merge_iter) option" where
  "chunk_next pid it =
     do { p \<leftarrow> peek_next_partition_id it;
          if p = pid
          then do { (r, it') \<leftarrow> merge_next it; Some (map_option snd r, it') }
          else Some (None, it) }"

text \<open>Running the iterator to its end, as its clients do.\<close>

partial_function (option) merge_drain ::
  "'d merge_iter \<Rightarrow> ((nat \<times> 'd \<times> (nat \<times> nat)) list \<times> 'd merge_iter) option" where
  "merge_drain it =
     do { (r, it') \<leftarrow> merge_next it;
          (case r of None \<Rightarrow> Some ([], it')
           | Some item \<Rightarrow> do { (items, it'') \<leftarrow> merge_drain it'; Some (item # items, it'') }) }"

section \<open>Specification\<close>

text \<open>The non-empty ranges of a run from partition \<open>c\<close> on.\<close>

definition ranges_from :: "nat \<Rightarrow> 'd offsetted \<Rightarrow> nat \<Rightarrow> (nat \<times> 'd \<times> (nat \<times> nat)) list" where
  "ranges_from np off c =
     map (\<lambda>p. (p, odata off, (offsets off ! p, offsets off ! (p + 1))))
       (filter (\<lambda>p. offsets off ! p \<noteq> offsets off ! (p + 1)) [c..<np])"

definition offsets_ok :: "nat \<Rightarrow> 'd offsetted \<Rightarrow> bool" where
  "offsets_ok np off \<longleftrightarrow> length (offsets off) = np + 1 \<and> sorted (offsets off)"

text \<open>The partitions from \<open>c\<close> up to, not including, \<open>d\<close> are empty.\<close>

definition flat :: "nat list \<Rightarrow> nat \<Rightarrow> nat \<Rightarrow> bool" where
  "flat os c d \<longleftrightarrow> (\<forall>p. c \<le> p \<and> p \<le> d \<longrightarrow> os ! p = os ! d)"

lemma flatD: "flat os c d \<Longrightarrow> c \<le> p \<Longrightarrow> p \<le> d \<Longrightarrow> os ! p = os ! d"
  unfolding flat_def by blast

lemma flat_refl: "d \<le> c \<Longrightarrow> flat os c d"
  unfolding flat_def by (metis le_antisym order_trans)

lemma flat_mono: "flat os c d \<Longrightarrow> c \<le> c' \<Longrightarrow> flat os c' d"
  unfolding flat_def by (metis order_trans)

text \<open>A cursor stands on a non-empty partition or behind the last one.\<close>

definition cursor_ok :: "nat \<Rightarrow> 'd offsetted_cursor \<Rightarrow> bool" where
  "cursor_ok np c \<longleftrightarrow>
     offsets_ok np (ocursor_src c) \<and> ocur c \<le> np
     \<and> (ocur c < np \<longrightarrow> offsets (ocursor_src c) ! ocur c \<noteq> offsets (ocursor_src c) ! (ocur c + 1))"

definition rest_of :: "nat \<Rightarrow> 'd offsetted_cursor \<Rightarrow> (nat \<times> 'd \<times> (nat \<times> nat)) list" where
  "rest_of np c = ranges_from np (ocursor_src c) (ocur c)"

text \<open>The rows of partitions before \<open>p\<close> in a run.\<close>

definition rows_before :: "'d offsetted \<Rightarrow> nat \<Rightarrow> nat" where
  "rows_before off p = offsets off ! p - offsets off ! 0"

definition merge_inv :: "'d merge_iter \<Rightarrow> bool" where
  "merge_inv it \<longleftrightarrow>
     queue_inv cursor_rdx (cursors it) \<and> num_keys (cursors it) = num_partitions it + 1
     \<and> (\<forall>c \<in> set (rq_values (cursors it)). cursor_ok (num_partitions it) c
          \<and> length (merged_offsets it) \<le> ocur c + 1
          \<and> flat (offsets (ocursor_src c)) (length (merged_offsets it)) (ocur c))
     \<and> cur_offset it = (\<Sum>c \<leftarrow> rq_values (cursors it). rows_before (ocursor_src c) (ocur c))
     \<and> (\<forall>p < length (merged_offsets it).
          merged_offsets it ! p = (\<Sum>c \<leftarrow> rq_values (cursors it). rows_before (ocursor_src c) p))"

section \<open>Cursors\<close>

lemma skip_from_ok:
  assumes "c < length os"
  shows "c \<le> skip_from os c \<and> skip_from os c < length os \<and> flat os c (skip_from os c)
     \<and> (skip_from os c + 1 < length os \<longrightarrow> os ! skip_from os c \<noteq> os ! (skip_from os c + 1))"
  using assms
proof (induction os c rule: skip_from.induct)
  case (1 os c)
  show ?case
  proof (cases "c + 1 < length os \<and> os ! (c + 1) = os ! c")
    case True
    then have eq: "skip_from os c = skip_from os (c + 1)" by (simp add: skip_from.simps [of os c])
    from "1.IH" True have ih: "c + 1 \<le> skip_from os (c + 1)" "skip_from os (c + 1) < length os"
      "flat os (c + 1) (skip_from os (c + 1))"
      "skip_from os (c + 1) + 1 < length os \<longrightarrow>
         os ! skip_from os (c + 1) \<noteq> os ! (skip_from os (c + 1) + 1)" by auto
    have "os ! c = os ! skip_from os (c + 1)" using flatD [OF ih(3) order_refl ih(1)] True by simp
    then have "flat os c (skip_from os (c + 1))"
      using ih(3) unfolding flat_def by (metis Suc_eq_plus1 le_antisym not_less_eq_eq)
    with ih show ?thesis by (simp add: eq)
  next
    case False
    then have "skip_from os c = c" by (auto simp: skip_from.simps [of os c])
    with False "1.prems" show ?thesis by (auto simp: flat_refl)
  qed
qed

lemma ranges_from_skip:
  assumes "flat (offsets off) c d" "c \<le> d" "d \<le> np"
  shows "ranges_from np off c = ranges_from np off d"
proof -
  have split: "[c..<np] = [c..<d] @ [d..<np]"
    using assms(2,3) by (metis le_add_diff_inverse upt_add_eq_append)
  have "offsets off ! p = offsets off ! (p + 1)" if "p \<in> set [c..<d]" for p
    using flatD [OF assms(1), of p] flatD [OF assms(1), of "p + 1"] that by simp
  then have "filter (\<lambda>p. offsets off ! p \<noteq> offsets off ! (p + 1)) [c..<d] = []"
    unfolding filter_empty_conv by blast
  with split show ?thesis by (simp add: ranges_from_def)
qed

lemma rest_of_active:
  assumes "cursor_ok np c" "ocur c < np"
  shows "rest_of np c = (ocur c, odata (ocursor_src c), (offsets (ocursor_src c) ! ocur c,
            offsets (ocursor_src c) ! (ocur c + 1))) # ranges_from np (ocursor_src c) (ocur c + 1)"
  using assms by (simp add: rest_of_def ranges_from_def cursor_ok_def upt_conv_Cons)

lemma rest_of_done: "np \<le> ocur c \<Longrightarrow> rest_of np c = []"
  by (simp add: rest_of_def ranges_from_def)

text \<open>Forwarding a cursor: the rest loses its first range.\<close>

definition forward_cursor :: "'d offsetted_cursor \<Rightarrow> 'd offsetted_cursor" where
  "forward_cursor c = skip_empty_partitions (c\<lparr>ocur := ocur c + 1\<rparr>)"

lemma forward_cursor_ok:
  assumes c: "cursor_ok np c" "ocur c < np"
  shows "cursor_ok np (forward_cursor c)" and "ocur c < ocur (forward_cursor c)"
    and "ocursor_src (forward_cursor c) = ocursor_src c"
    and "rest_of np c = (ocur c, odata (ocursor_src c), (offsets (ocursor_src c) ! ocur c,
            offsets (ocursor_src c) ! (ocur c + 1))) # rest_of np (forward_cursor c)"
    and "flat (offsets (ocursor_src c)) (ocur c + 1) (ocur (forward_cursor c))"
proof -
  let ?os = "offsets (ocursor_src c)" and ?d = "skip_from (offsets (ocursor_src c)) (ocur c + 1)"
  have len: "length ?os = np + 1" using c by (simp add: cursor_ok_def offsets_ok_def)
  have s: "ocur c + 1 \<le> ?d \<and> ?d < length ?os \<and> flat ?os (ocur c + 1) ?d
     \<and> (?d + 1 < length ?os \<longrightarrow> ?os ! ?d \<noteq> ?os ! (?d + 1))"
    using skip_from_ok [of "ocur c + 1" ?os] c len by simp
  have f: "ocur (forward_cursor c) = ?d" "ocursor_src (forward_cursor c) = ocursor_src c"
    by (simp_all add: forward_cursor_def skip_empty_partitions_def)
  show "cursor_ok np (forward_cursor c)"
    using c s len by (auto simp: cursor_ok_def f)
  show "ocur c < ocur (forward_cursor c)" "ocursor_src (forward_cursor c) = ocursor_src c"
    using s by (simp_all add: f)
  have "ranges_from np (ocursor_src c) (ocur c + 1) = rest_of np (forward_cursor c)"
    unfolding rest_of_def f using s len by (intro ranges_from_skip) auto
  with rest_of_active [OF c] show "rest_of np c = (ocur c, odata (ocursor_src c), (?os ! ocur c,
            ?os ! (ocur c + 1))) # rest_of np (forward_cursor c)" by simp
  show "flat ?os (ocur c + 1) (ocur (forward_cursor c))"
    using s by (simp add: f)
qed

lemma new_cursor_ok:
  assumes "offsets_ok np off"
  shows "cursor_ok np (new_cursor off)" and "ocursor_src (new_cursor off) = off"
    and "rest_of np (new_cursor off) = ranges_from np off 0"
    and "flat (offsets off) 0 (ocur (new_cursor off))"
proof -
  have len: "length (offsets off) = np + 1" using assms by (simp add: offsets_ok_def)
  let ?d = "skip_from (offsets off) 0"
  have s: "?d < length (offsets off) \<and> flat (offsets off) 0 ?d
     \<and> (?d + 1 < length (offsets off) \<longrightarrow> offsets off ! ?d \<noteq> offsets off ! (?d + 1))"
    using skip_from_ok [of 0 "offsets off"] len by simp
  have f: "ocur (new_cursor off) = ?d" "ocursor_src (new_cursor off) = off"
    by (simp_all add: new_cursor_def skip_empty_partitions_def)
  show "cursor_ok np (new_cursor off)" using s len assms by (auto simp: cursor_ok_def f)
  show "ocursor_src (new_cursor off) = off" by (rule f)
  show "flat (offsets off) 0 (ocur (new_cursor off))"
    using s by (simp add: f)
  show "rest_of np (new_cursor off) = ranges_from np off 0"
    unfolding rest_of_def f using s len by (intro ranges_from_skip [symmetric]) auto
qed

section \<open>The merge\<close>

lemma merge_invD:
  assumes "merge_inv it" "d \<in> set (rq_values (cursors it))"
  shows "cursor_ok (num_partitions it) d" "length (merged_offsets it) \<le> ocur d + 1"
    and "flat (offsets (ocursor_src d)) (length (merged_offsets it)) (ocur d)"
  using assms by (simp_all add: merge_inv_def)

lemma merge_inv_top:
  assumes inv: "merge_inv it"
  defines "q \<equiv> cursors it"
  defines "c \<equiv> rq_values q ! top_index q"
  shows "queue_peek q = Some c" and "top_index q < length (rq_values q)" "c \<in> set (rq_values q)"
    and "cur_rdx q < num_keys q" "cur_rdx q = ocur c"
    and "d \<in> set (rq_values q) \<Longrightarrow> ocur c \<le> ocur d"
proof -
  have qi: "queue_inv cursor_rdx q" and nk: "num_keys q = num_partitions it + 1"
    using inv by (simp_all add: merge_inv_def q_def)
  have le: "ocur d \<le> num_partitions it" if "d \<in> set (rq_values q)" for d
    using inv that by (simp add: merge_inv_def cursor_ok_def q_def)
  show top: "top_index q < length (rq_values q)" by (rule queue_top(1) [OF qi])
  then show mem: "c \<in> set (rq_values q)" by (simp add: c_def)
  show "queue_peek q = Some c" using top by (simp add: queue_peek_def c_def)
  show active: "cur_rdx q < num_keys q"
    using queue_top(3) [OF qi mem] le [OF mem] nk by (simp add: cursor_rdx_def)
  show cur: "cur_rdx q = ocur c"
    using queue_top(2) [OF qi active] by (simp add: cursor_rdx_def c_def)
  show "ocur c \<le> ocur d" if "d \<in> set (rq_values q)"
    using queue_top(3) [OF qi that] active cur by (simp add: cursor_rdx_def)
qed

text \<open>Extending the merged offsets up to the current partition.\<close>

definition with_offsets :: "'d merge_iter \<Rightarrow> nat \<Rightarrow> 'd merge_iter" where
  "with_offsets it pid = it\<lparr>cur_partition_id := pid,
     merged_offsets := vec_resize (merged_offsets it) (pid + 1) (cur_offset it)\<rparr>"

lemma with_offsets_ok:
  assumes inv: "merge_inv it"
  defines "c \<equiv> rq_values (cursors it) ! top_index (cursors it)"
  shows "merge_inv (with_offsets it (ocur c))"
    and "length (merged_offsets (with_offsets it (ocur c))) = ocur c + 1"
proof -
  let ?vs = "rq_values (cursors it)" and ?m = "merged_offsets it" and ?pid = "ocur c"
  note top = merge_inv_top [OF inv, folded c_def]
  have old: "length ?m \<le> ?pid + 1" using inv top(3) by (simp add: merge_inv_def)
  then show len: "length (merged_offsets (with_offsets it ?pid)) = ?pid + 1"
    by (simp add: with_offsets_def vec_resize_def)
  have sum: "merged_offsets (with_offsets it ?pid) ! p
      = (\<Sum>d \<leftarrow> ?vs. rows_before (ocursor_src d) p)" if p: "p < ?pid + 1" for p
  proof (cases "p < length ?m")
    case True
    then have "merged_offsets (with_offsets it ?pid) ! p = ?m ! p"
      using old by (simp add: with_offsets_def vec_resize_def nth_append)
    with inv True show ?thesis by (simp add: merge_inv_def)
  next
    case False
    have "rows_before (ocursor_src d) p = rows_before (ocursor_src d) (ocur d)" if "d \<in> set ?vs" for d
    proof -
      have "flat (offsets (ocursor_src d)) (length ?m) (ocur d)" using inv that by (simp add: merge_inv_def)
      moreover have "p \<le> ocur d" using p top(6) [OF that] by simp
      ultimately show ?thesis using flatD [of _ _ "ocur d" p] False by (simp add: rows_before_def)
    qed
    then have "(\<Sum>d \<leftarrow> ?vs. rows_before (ocursor_src d) p) = (\<Sum>d \<leftarrow> ?vs. rows_before (ocursor_src d) (ocur d))"
      by (intro arg_cong [where f = sum_list] map_cong) simp_all
    moreover have "merged_offsets (with_offsets it ?pid) ! p = cur_offset it"
      using False p old by (simp add: with_offsets_def vec_resize_def nth_append)
    ultimately show ?thesis using inv by (simp add: merge_inv_def)
  qed
  have "flat (offsets (ocursor_src d)) (?pid + 1) (ocur d)" if "d \<in> set ?vs" for d
    using inv that flat_mono [OF _ old] by (simp add: merge_inv_def)
  then show "merge_inv (with_offsets it ?pid)"
    using inv top(6) sum len unfolding merge_inv_def by (simp add: with_offsets_def)
qed

lemma merge_next_end:
  assumes inv: "merge_inv it"
  defines "c \<equiv> rq_values (cursors it) ! top_index (cursors it)"
  assumes e: "num_partitions it \<le> ocur c"
  shows "merge_next it = Some (None, with_offsets it (ocur c))"
    and "\<forall>d \<in> set (rq_values (cursors it)). rest_of (num_partitions it) d = []"
proof -
  note top = merge_inv_top [OF inv, folded c_def]
  show "merge_next it = Some (None, with_offsets it (ocur c))"
    using top(1) e by (simp add: merge_next_def with_offsets_def Let_def)
  show "\<forall>d \<in> set (rq_values (cursors it)). rest_of (num_partitions it) d = []"
    using top(6) e by (auto intro!: rest_of_done dest: order_trans)
qed

definition all_rest :: "'d merge_iter \<Rightarrow> (nat \<times> 'd \<times> (nat \<times> nat)) multiset" where
  "all_rest it = (\<Sum>d \<leftarrow> rq_values (cursors it). mset (rest_of (num_partitions it) d))"

lemma merge_next_step:
  assumes inv: "merge_inv it"
  defines "c \<equiv> rq_values (cursors it) ! top_index (cursors it)"
  assumes active: "ocur c < num_partitions it"
  shows "\<exists>r it'. merge_next it = Some (Some (ocur c, odata (ocursor_src c), r), it') \<and> merge_inv it'
     \<and> num_partitions it' = num_partitions it
     \<and> map ocursor_src (rq_values (cursors it')) = map ocursor_src (rq_values (cursors it))
     \<and> all_rest it = add_mset (ocur c, odata (ocursor_src c), r) (all_rest it')
     \<and> (\<forall>d \<in> set (rq_values (cursors it')). ocur c \<le> ocur d)
     \<and> r = (offsets (ocursor_src c) ! ocur c, offsets (ocursor_src c) ! (ocur c + 1))
     \<and> rq_values (cursors it') = (rq_values (cursors it))[top_index (cursors it) := forward_cursor c]"
proof -
  let ?q = "cursors it" and ?np = "num_partitions it" and ?i = "top_index (cursors it)"
  let ?vs = "rq_values (cursors it)" and ?os = "offsets (ocursor_src c)" and ?f = "forward_cursor c"
  note top = merge_inv_top [OF inv, folded c_def]
  have qi: "queue_inv cursor_rdx ?q" using inv by (simp add: merge_inv_def)
  have ck: "cursor_ok ?np c" using inv top(3) by (simp add: merge_inv_def)
  note fwd = forward_cursor_ok [OF ck active]
  have "cur_rdx ?q \<le> cursor_rdx (forward_cursor (?vs ! ?i))"
    using fwd(2) top(5) by (simp add: cursor_rdx_def c_def)
  from queue_update_top_ok [OF qi top(4), of forward_cursor, OF this] obtain q' where
    q': "queue_update_top cursor_rdx forward_cursor ?q = Some q'" "queue_inv cursor_rdx q'"
      "rq_values q' = ?vs[?i := ?f]" "num_keys q' = num_keys ?q"
    by (auto simp: c_def)
  have len: "length ?os = ?np + 1" and srt: "sorted ?os"
    using ck by (simp_all add: cursor_ok_def offsets_ok_def)
  have se: "?os ! 0 \<le> ?os ! ocur c" "?os ! ocur c \<le> ?os ! (ocur c + 1)"
    using srt len active by (auto intro!: sorted_nth_mono)
  define it1 where "it1 = with_offsets it (ocur c)"
  define it' where "it' = it1\<lparr>cursors := q', cur_offset := cur_offset it + ?os ! (ocur c + 1) - ?os ! ocur c\<rparr>"
  note inv1 = with_offsets_ok [OF inv, folded c_def, folded it1_def]
  have fc: "(\<lambda>c. skip_empty_partitions (c\<lparr>ocur := ocur c + 1\<rparr>)) = forward_cursor"
    by (simp add: forward_cursor_def fun_eq_iff)
  have run: "merge_next it = Some (Some (ocur c, odata (ocursor_src c), (?os ! ocur c, ?os ! (ocur c + 1))), it')"
    unfolding merge_next_def fc using top(1) active len q'(1)
    by (simp add: offset_range_def it'_def it1_def with_offsets_def Let_def)
  have src: "map ocursor_src (?vs[?i := ?f]) = map ocursor_src ?vs"
    by (rule map_update_same) (simp add: fwd(3), simp add: c_def)
  have before: "map (\<lambda>d. rows_before (ocursor_src d) p) (?vs[?i := ?f])
      = map (\<lambda>d. rows_before (ocursor_src d) p) ?vs" for p
    by (rule map_update_same) (simp add: fwd(3), simp add: c_def)
  have off: "cur_offset it + ?os ! (ocur c + 1) - ?os ! ocur c
      = (\<Sum>d \<leftarrow> ?vs[?i := ?f]. rows_before (ocursor_src d) (ocur d))"
  proof -
    have "?os ! ocur ?f = ?os ! (ocur c + 1)"
      using flatD [OF fwd(5), of "ocur c + 1"] fwd(2) by simp
    then have "rows_before (ocursor_src ?f) (ocur ?f) + ?os ! ocur c
        = rows_before (ocursor_src c) (ocur c) + ?os ! (ocur c + 1)"
      using se by (simp add: rows_before_def fwd(3))
    moreover have "(\<Sum>d \<leftarrow> ?vs[?i := ?f]. rows_before (ocursor_src d) (ocur d)) + rows_before (ocursor_src c) (ocur c)
        = cur_offset it + rows_before (ocursor_src ?f) (ocur ?f)"
      using sum_map_update [OF top(2), of "\<lambda>d. rows_before (ocursor_src d) (ocur d)" ?f] inv
      by (simp add: merge_inv_def c_def)
    ultimately show ?thesis using se by linarith
  qed
  have ok: "cursor_ok ?np d \<and> ocur c + 1 \<le> ocur d + 1 \<and> flat (offsets (ocursor_src d)) (ocur c + 1) (ocur d)"
    if "d \<in> set (?vs[?i := ?f])" for d
  proof -
    from that have "d \<in> set ?vs \<or> d = ?f" using set_update_subset_insert [of ?vs ?i ?f] by auto
    then show ?thesis
    proof
      assume "d \<in> set ?vs"
      then have "d \<in> set (rq_values (cursors it1))" by (simp add: it1_def with_offsets_def)
      from merge_invD [OF inv1(1) this] show ?thesis
        unfolding inv1(2) by (simp add: it1_def with_offsets_def)
    next
      assume "d = ?f"
      with fwd show ?thesis by simp
    qed
  qed
  have fields: "cursors it' = q'" "num_partitions it' = ?np" "merged_offsets it' = merged_offsets it1"
    "cur_offset it' = cur_offset it + ?os ! (ocur c + 1) - ?os ! ocur c"
    by (simp_all add: it'_def it1_def with_offsets_def)
  have "rq_values (cursors it1) = ?vs" by (simp add: it1_def with_offsets_def)
  with inv1 have "\<forall>p < ocur c + 1. merged_offsets it1 ! p = (\<Sum>d \<leftarrow> ?vs. rows_before (ocursor_src d) p)"
    unfolding merge_inv_def by metis
  moreover have "num_keys ?q = ?np + 1" using inv by (simp add: merge_inv_def)
  ultimately have "merge_inv it'"
    unfolding merge_inv_def fields q'(3,4) inv1(2) off using q'(2) ok before by simp
  moreover have "all_rest it = add_mset (ocur c, odata (ocursor_src c), (?os ! ocur c, ?os ! (ocur c + 1)))
      (all_rest it')"
  proof -
    have "(\<Sum>d \<leftarrow> ?vs[?i := ?f]. mset (rest_of ?np d)) + mset (rest_of ?np c)
        = all_rest it + mset (rest_of ?np ?f)"
      using sum_map_update [OF top(2), of "\<lambda>d. mset (rest_of ?np d)" ?f] by (simp add: all_rest_def c_def)
    moreover have "all_rest it' = (\<Sum>d \<leftarrow> ?vs[?i := ?f]. mset (rest_of ?np d))"
      using q'(3) by (simp add: all_rest_def it'_def it1_def with_offsets_def)
    ultimately show ?thesis using fwd(4) by simp
  qed
  moreover have "\<forall>d \<in> set (rq_values (cursors it')). ocur c \<le> ocur d"
    using ok q'(3) by (auto simp: it'_def)
  moreover have "num_partitions it' = ?np" "map ocursor_src (rq_values (cursors it')) = map ocursor_src ?vs"
    using q'(3) src by (simp_all add: it'_def it1_def with_offsets_def)
  moreover have "rq_values (cursors it') = ?vs[?i := ?f]" using q'(3) by (simp add: fields)
  ultimately show ?thesis using run by blast
qed

lemma rest_of_pids: "x \<in> set (rest_of np d) \<Longrightarrow> ocur d \<le> fst x"
  by (auto simp: rest_of_def ranges_from_def)

lemma all_rest_pids:
  "x \<in># all_rest it \<Longrightarrow> \<forall>d \<in> set (rq_values (cursors it)). k \<le> ocur d \<Longrightarrow> k \<le> fst x"
  by (auto simp: all_rest_def) (meson order_trans rest_of_pids)

lemma merge_drain_ok:
  assumes "merge_inv it"
  shows "\<exists>items it'. merge_drain it = Some (items, it') \<and> merge_inv it'
     \<and> sorted (map fst items) \<and> mset items = all_rest it
     \<and> map ocursor_src (rq_values (cursors it')) = map ocursor_src (rq_values (cursors it))
     \<and> length (merged_offsets it') = num_partitions it + 1"
  using assms
proof (induction "size (all_rest it)" arbitrary: it rule: less_induct)
  case less
  let ?c = "rq_values (cursors it) ! top_index (cursors it)"
  have le: "ocur ?c \<le> num_partitions it"
    using less.prems merge_inv_top(3) [OF less.prems] by (simp add: merge_inv_def cursor_ok_def)
  show ?case
  proof (cases "ocur ?c < num_partitions it")
    case False
    then have e: "num_partitions it \<le> ocur ?c" by simp
    have "all_rest it = {#}"
      using merge_next_end(2) [OF less.prems e] by (simp add: all_rest_def cong: map_cong)
    moreover have "merge_drain it = Some ([], with_offsets it (ocur ?c))"
      using merge_next_end(1) [OF less.prems e] by (simp add: merge_drain.simps)
    moreover have "map ocursor_src (rq_values (cursors (with_offsets it (ocur ?c))))
        = map ocursor_src (rq_values (cursors it))" by (simp add: with_offsets_def)
    ultimately show ?thesis using with_offsets_ok [OF less.prems] le e by auto
  next
    case True
    from merge_next_step [OF less.prems True] obtain r it1 where
      s: "merge_next it = Some (Some (ocur ?c, odata (ocursor_src ?c), r), it1)" "merge_inv it1"
        "num_partitions it1 = num_partitions it"
        "map ocursor_src (rq_values (cursors it1)) = map ocursor_src (rq_values (cursors it))"
        "all_rest it = add_mset (ocur ?c, odata (ocursor_src ?c), r) (all_rest it1)"
        "\<forall>d \<in> set (rq_values (cursors it1)). ocur ?c \<le> ocur d" by blast
    have "size (all_rest it1) < size (all_rest it)" using s(5) by simp
    from less.hyps [OF this s(2)] obtain items it' where
      d: "merge_drain it1 = Some (items, it')" "merge_inv it'" "sorted (map fst items)"
        "mset items = all_rest it1"
        "map ocursor_src (rq_values (cursors it')) = map ocursor_src (rq_values (cursors it1))"
        "length (merged_offsets it') = num_partitions it1 + 1" by blast
    have run: "merge_drain it = Some ((ocur ?c, odata (ocursor_src ?c), r) # items, it')"
      using s(1) d(1) by (simp add: merge_drain.simps [of it])
    have "\<forall>x \<in> set items. ocur ?c \<le> fst x"
      using all_rest_pids [OF _ s(6)] d(4) by (metis set_mset_mset)
    then have "sorted (map fst ((ocur ?c, odata (ocursor_src ?c), r) # items))" using d(3) by simp
    with run d s show ?thesis by auto
  qed
qed

lemma new_merge_iter_ok:
  assumes ne: "os \<noteq> []" and ok: "\<forall>off \<in> set os. offsets_ok np off"
    and big: "length os < usize_max" "np \<le> usize_max"
  shows "\<exists>it. new_merge_iter np os = Some it \<and> merge_inv it \<and> num_partitions it = np
     \<and> map ocursor_src (rq_values (cursors it)) = os
     \<and> all_rest it = (\<Sum>off \<leftarrow> os. mset (ranges_from np off 0))"
proof -
  let ?vs = "map new_cursor os"
  note nc = new_cursor_ok [OF bspec [OF ok]]
  have keys: "\<forall>c \<in> set ?vs. cursor_rdx c \<le> usize_max"
    using nc(1) big(2) by (auto simp: cursor_rdx_def cursor_ok_def intro: order_trans)
  from new_queue_ok [of ?vs cursor_rdx np] ne big(1) keys obtain q where
    q: "new_queue cursor_rdx ?vs np = Some q" "queue_inv cursor_rdx q" "rq_values q = ?vs"
      "num_keys q = np + 1" by auto
  let ?c = "?vs ! top_index q"
  have top: "top_index q < length ?vs" using queue_top(1) [OF q(2)] q(3) by simp
  define it where "it = \<lparr>num_partitions = np, cursors = q, cur_partition_id = ocur ?c,
    cur_offset = 0, merged_offsets = []\<rparr>"
  have "new_merge_iter np os = Some it"
    using ne q top by (simp add: new_merge_iter_def queue_peek_def it_def)
  moreover have "rows_before off (ocur (new_cursor off)) = 0" if "off \<in> set os" for off
    using flatD [OF nc(4) [OF that], of 0] by (simp add: rows_before_def)
  then have "map (\<lambda>d. rows_before (ocursor_src d) (ocur d)) ?vs = map (\<lambda>_. 0) os"
    using nc(2) by simp
  then have "merge_inv it"
    using q nc by (auto simp: merge_inv_def it_def sum_list_0)
  moreover have "map ocursor_src ?vs = os" using nc(2) by (simp add: map_idI)
  moreover have "(\<Sum>d \<leftarrow> ?vs. mset (rest_of np d)) = (\<Sum>off \<leftarrow> os. mset (ranges_from np off 0))"
    using nc(3) by (intro arg_cong [where f = sum_list]) simp
  ultimately show ?thesis using q(3) by (auto simp: it_def all_rest_def)
qed

lemma merge_complete:
  assumes "os \<noteq> []" and "\<forall>off \<in> set os. offsets_ok np off"
    and "length os < usize_max" and "np \<le> usize_max"
  shows "\<exists>it items it'. new_merge_iter np os = Some it \<and> merge_drain it = Some (items, it')
     \<and> sorted (map fst items)
     \<and> mset items = (\<Sum>off \<leftarrow> os. mset (ranges_from np off 0))
     \<and> length (merged_offsets it') = np + 1
     \<and> (\<forall>p \<le> np. merged_offsets it' ! p = (\<Sum>off \<leftarrow> os. offsets off ! p - offsets off ! 0))"
proof -
  from new_merge_iter_ok [OF assms] obtain it where
    n: "new_merge_iter np os = Some it" "merge_inv it" "num_partitions it = np"
      "map ocursor_src (rq_values (cursors it)) = os"
      "all_rest it = (\<Sum>off \<leftarrow> os. mset (ranges_from np off 0))" by blast
  from merge_drain_ok [OF n(2)] obtain items it' where
    d: "merge_drain it = Some (items, it')" "merge_inv it'" "sorted (map fst items)"
      "mset items = all_rest it" "map ocursor_src (rq_values (cursors it')) = os"
      "length (merged_offsets it') = np + 1" using n by auto
  have "merged_offsets it' ! p = (\<Sum>off \<leftarrow> os. offsets off ! p - offsets off ! 0)" if "p \<le> np" for p
  proof -
    have "merged_offsets it' ! p = sum_list (map (\<lambda>off. rows_before off p)
        (map ocursor_src (rq_values (cursors it'))))"
      using d(2,6) that by (simp add: merge_inv_def comp_def)
    with d(5) show ?thesis by (simp add: rows_before_def)
  qed
  with n d show ?thesis by auto
qed

section \<open>Properties\<close>

text \<open>
  C16: Merging partitioned runs with ascending offsets always ends without leaving its vectors;
  it visits every non-empty partition range of every run exactly once, in ascending partition
  order, and the merged offsets it leaves are, for every partition, the number of rows all
  runs have in the partitions before it.
\<close>

theorem offsetted_merge_complete:
  assumes "os \<noteq> []" and "\<forall>off \<in> set os. offsets_ok np off"
    and "length os < usize_max" and "np \<le> usize_max"
  shows "\<exists>it items it'. new_merge_iter np os = Some it \<and> merge_drain it = Some (items, it')
     \<and> sorted (map fst items)
     \<and> mset items = (\<Sum>off \<leftarrow> os. mset (ranges_from np off 0))
     \<and> length (merged_offsets it') = np + 1
     \<and> (\<forall>p \<le> np. merged_offsets it' ! p = (\<Sum>off \<leftarrow> os. offsets off ! p - offsets off ! 0))"
  using assms by (rule merge_complete)

theorem offsetted_merge_complete_witness:
  "\<exists>it items it'. new_merge_iter 2 [\<lparr>offsets = [0, 3, 3], odata = ''x''\<rparr>, \<lparr>offsets = [0, 1, 4], odata = ''y''\<rparr>] = Some it
     \<and> merge_drain it = Some (items, it') \<and> sorted (map fst items)
     \<and> merged_offsets it' ! 2 = 7"
proof -
  let ?os = "[\<lparr>offsets = [0, 3, 3], odata = ''x''\<rparr>, \<lparr>offsets = [0, 1, 4], odata = ''y''\<rparr>]"
  have "\<forall>off \<in> set ?os. offsets_ok 2 off" by (simp add: offsets_ok_def)
  moreover have "length ?os < usize_max" "2 \<le> usize_max" by (simp_all add: usize_max_def)
  ultimately show ?thesis using offsetted_merge_complete [of ?os 2] by fastforce
qed

end
