(* ===== verification/Arrow_Array.thy ===== *)
theory Arrow_Array
  imports Prelude
begin

text \<open>
  The columnar arrays the engine works on.  The \<open>arrow\<close> crate is not part of the repository;
  what is here is its documented data layout, as data: the data types the sources match on and
  one constructor per array class the sources downcast to, holding the buffers the sources read
  (validity bitmap with its bit offset, value buffer, offsets buffer, child arrays), with the
  accessors they call.  \<open>array_wf\<close> is the format's validity condition, and \<open>cell\<close> the logical
  value of a row, in terms of which the properties of hashing and serialization are stated.

  A primitive value is an \<open>int\<close> in the range of its type; floating point values are their bit
  patterns.  A validity bitmap or boolean buffer is a byte string with a bit offset and a length.
\<close>

unbundle bit_operations_syntax

section \<open>Data types\<close>

datatype time_unit = Second | Millisecond | Microsecond | Nanosecond

datatype data_type =
    Null | Boolean
  | Int8 | Int16 | Int32 | Int64 | UInt8 | UInt16 | UInt32 | UInt64
  | Float16 | Float32 | Float64
  | Timestamp time_unit "string option" | Date32 | Date64
  | Binary | LargeBinary | Utf8 | LargeUtf8
  | Decimal128 nat int | Decimal256 nat int
  | FixedSizeBinary nat
  | List data_type | LargeList data_type | Map data_type bool | Struct "data_type list"
  | Dictionary data_type data_type

text \<open>\<open>DataType::primitive_width\<close>: the width in bytes of a primitive type.\<close>

fun primitive_width :: "data_type \<Rightarrow> nat option" where
  "primitive_width Int8 = Some 1"
| "primitive_width Int16 = Some 2"
| "primitive_width Int32 = Some 4"
| "primitive_width Int64 = Some 8"
| "primitive_width UInt8 = Some 1"
| "primitive_width UInt16 = Some 2"
| "primitive_width UInt32 = Some 4"
| "primitive_width UInt64 = Some 8"
| "primitive_width Float16 = Some 2"
| "primitive_width Float32 = Some 4"
| "primitive_width Float64 = Some 8"
| "primitive_width (Timestamp _ _) = Some 8"
| "primitive_width Date32 = Some 4"
| "primitive_width Date64 = Some 8"
| "primitive_width (Decimal128 _ _) = Some 16"
| "primitive_width (Decimal256 _ _) = Some 32"
| "primitive_width _ = None"

fun signed_type :: "data_type \<Rightarrow> bool" where
  "signed_type Int8 = True"
| "signed_type Int16 = True"
| "signed_type Int32 = True"
| "signed_type Int64 = True"
| "signed_type (Timestamp _ _) = True"
| "signed_type Date32 = True"
| "signed_type Date64 = True"
| "signed_type (Decimal128 _ _) = True"
| "signed_type (Decimal256 _ _) = True"
| "signed_type _ = False"

definition prim_in_range :: "data_type \<Rightarrow> int \<Rightarrow> bool" where
  "prim_in_range dt v =
     (case primitive_width dt of None \<Rightarrow> False
      | Some w \<Rightarrow> if signed_type dt then - (2 ^ (8 * w - 1)) \<le> v \<and> v < 2 ^ (8 * w - 1)
                  else 0 \<le> v \<and> v < 2 ^ (8 * w))"

text \<open>The native little-endian bytes of a primitive value of \<open>w\<close> bytes, and back.\<close>

definition prim_bytes :: "nat \<Rightarrow> int \<Rightarrow> bytes" where
  "prim_bytes w v = le_bytes w (word_of_int v :: 256 word)"

definition prim_of_bytes :: "data_type \<Rightarrow> nat \<Rightarrow> bytes \<Rightarrow> int" where
  "prim_of_bytes dt w bs =
     (if signed_type dt then signed_take_bit (8 * w - 1) (uint (of_le_bytes bs :: 256 word))
      else uint (of_le_bytes bs :: 256 word))"

section \<open>Bit buffers\<close>

type_synonym bit_buffer = "bytes \<times> nat \<times> nat"

definition get_bit_raw :: "bytes \<Rightarrow> nat \<Rightarrow> bool" where
  "get_bit_raw bs i = bit (bs ! (i div 8)) (i mod 8)"

definition set_bit_raw :: "bytes \<Rightarrow> nat \<Rightarrow> bytes" where
  "set_bit_raw bs i = bs[i div 8 := set_bit (i mod 8) (bs ! (i div 8))]"

fun bits_of :: "bit_buffer \<Rightarrow> bool list" where
  "bits_of (bs, off, len) = map (\<lambda>i. get_bit_raw bs (off + i)) [0..<len]"

fun bits_wf :: "bit_buffer \<Rightarrow> bool" where
  "bits_wf (bs, off, len) = (off + len \<le> 8 * length bs)"

fun bits_len :: "bit_buffer \<Rightarrow> nat" where
  "bits_len (bs, off, len) = len"

lemma length_bits_of [simp]: "length (bits_of b) = bits_len b"
  by (cases b) simp

lemma get_set_bit_raw:
  "i div 8 < length out \<Longrightarrow> k div 8 < length out \<Longrightarrow>
   get_bit_raw (set_bit_raw out i) k = (k = i \<or> get_bit_raw out k)"
proof -
  assume i: "i div 8 < length out" and k: "k div 8 < length out"
  have "k = i \<longleftrightarrow> k div 8 = i div 8 \<and> k mod 8 = i mod 8"
    by (metis div_mult_mod_eq)
  with i k show ?thesis
    by (auto simp: get_bit_raw_def set_bit_raw_def nth_list_update bit_simps)
qed

section \<open>Arrays\<close>

datatype array =
    NullArray nat
  | BooleanArray "bit_buffer option" bit_buffer
  | PrimitiveArray data_type "bit_buffer option" "int list"
  | ByteArray data_type "bit_buffer option" "int list" bytes
  | ListArray data_type "bit_buffer option" "int list" array
  | MapArray data_type bool "bit_buffer option" "int list" array
  | StructArray "data_type list" "bit_buffer option" nat "array list"
  | DictionaryArray data_type array array

fun data_type_of :: "array \<Rightarrow> data_type" where
  "data_type_of (NullArray _) = Null"
| "data_type_of (BooleanArray _ _) = Boolean"
| "data_type_of (PrimitiveArray dt _ _) = dt"
| "data_type_of (ByteArray dt _ _ _) = dt"
| "data_type_of (ListArray field _ _ _) = List field"
| "data_type_of (MapArray field srt _ _ _) = Map field srt"
| "data_type_of (StructArray fields _ _ _) = Struct fields"
| "data_type_of (DictionaryArray kt keys vals) = Dictionary kt (data_type_of vals)"

fun array_len :: "array \<Rightarrow> nat" where
  "array_len (NullArray n) = n"
| "array_len (BooleanArray _ vals) = bits_len vals"
| "array_len (PrimitiveArray _ _ vs) = length vs"
| "array_len (ByteArray _ _ offs _) = length offs - 1"
| "array_len (ListArray _ _ offs _) = length offs - 1"
| "array_len (MapArray _ _ _ offs _) = length offs - 1"
| "array_len (StructArray _ _ n _) = n"
| "array_len (DictionaryArray _ keys _) = array_len keys"

fun nulls_of :: "array \<Rightarrow> bit_buffer option" where
  "nulls_of (NullArray _) = None"
| "nulls_of (BooleanArray nb _) = nb"
| "nulls_of (PrimitiveArray _ nb _) = nb"
| "nulls_of (ByteArray _ nb _ _) = nb"
| "nulls_of (ListArray _ nb _ _) = nb"
| "nulls_of (MapArray _ _ nb _ _) = nb"
| "nulls_of (StructArray _ nb _ _) = nb"
| "nulls_of (DictionaryArray _ keys _) = nulls_of keys"

definition bit_valid :: "bit_buffer option \<Rightarrow> nat \<Rightarrow> bool" where
  "bit_valid nb i = (case nb of None \<Rightarrow> True | Some (bs, off, len) \<Rightarrow> get_bit_raw bs (off + i))"

text \<open>\<open>is_valid\<close> answers for a row of the array and panics outside it.\<close>

definition is_valid :: "array \<Rightarrow> nat \<Rightarrow> bool option" where
  "is_valid a i = (if i < array_len a then Some (bit_valid (nulls_of a) i) else None)"

definition null_count :: "array \<Rightarrow> nat" where
  "null_count a = length (filter (\<lambda>i. \<not> bit_valid (nulls_of a) i) [0..<array_len a])"

definition offset_at :: "int list \<Rightarrow> nat \<Rightarrow> nat" where
  "offset_at offs i = nat (offs ! i)"

definition bytes_value :: "int list \<Rightarrow> bytes \<Rightarrow> nat \<Rightarrow> bytes" where
  "bytes_value offs data i =
     take (offset_at offs (i + 1) - offset_at offs i) (drop (offset_at offs i) data)"

section \<open>Validity and logical values\<close>

definition nulls_wf :: "bit_buffer option \<Rightarrow> nat \<Rightarrow> bool" where
  "nulls_wf nb n = (case nb of None \<Rightarrow> True | Some b \<Rightarrow> bits_wf b \<and> bits_len b = n)"

text \<open>Offsets are non-decreasing, non-negative, below \<open>2 ^ 31\<close>, and end inside the data.\<close>

definition offsets_wf :: "int list \<Rightarrow> nat \<Rightarrow> bool" where
  "offsets_wf offs n =
     (offs \<noteq> [] \<and> 0 \<le> hd offs \<and> sorted offs \<and> last offs \<le> int n \<and> last offs < 2 ^ 31)"

text \<open>Well-formed UTF-8, the representation invariant of \<open>str\<close>.\<close>

definition utf8_cont :: "u8 \<Rightarrow> bool" where
  "utf8_cont b = (0x80 \<le> b \<and> b \<le> 0xBF)"

fun utf8_ok :: "bytes \<Rightarrow> bool" where
  "utf8_ok [] = True"
| "utf8_ok (b # bs) =
     (if b \<le> 0x7F then utf8_ok bs
      else case bs of [] \<Rightarrow> False
      | b1 # bs1 \<Rightarrow>
         if 0xC2 \<le> b \<and> b \<le> 0xDF then utf8_cont b1 \<and> utf8_ok bs1
         else case bs1 of [] \<Rightarrow> False
         | b2 # bs2 \<Rightarrow>
            if 0xE0 \<le> b \<and> b \<le> 0xEF
            then utf8_cont b1 \<and> utf8_cont b2 \<and> (b = 0xE0 \<longrightarrow> 0xA0 \<le> b1) \<and> (b = 0xED \<longrightarrow> b1 \<le> 0x9F)
                 \<and> utf8_ok bs2
            else case bs2 of [] \<Rightarrow> False
            | b3 # bs3 \<Rightarrow>
               0xF0 \<le> b \<and> b \<le> 0xF4 \<and> utf8_cont b1 \<and> utf8_cont b2 \<and> utf8_cont b3
               \<and> (b = 0xF0 \<longrightarrow> 0x90 \<le> b1) \<and> (b = 0xF4 \<longrightarrow> b1 \<le> 0x8F) \<and> utf8_ok bs3)"

fun array_wf :: "array \<Rightarrow> bool" where
  "array_wf (NullArray n) = True"
| "array_wf (BooleanArray nb vals) = (nulls_wf nb (bits_len vals) \<and> bits_wf vals)"
| "array_wf (PrimitiveArray dt nb vs) =
     (nulls_wf nb (length vs) \<and> primitive_width dt \<noteq> None \<and> (\<forall>v \<in> set vs. prim_in_range dt v))"
| "array_wf (ByteArray dt nb offs data) =
     (dt \<in> {Utf8, Binary, LargeUtf8, LargeBinary} \<and> nulls_wf nb (length offs - 1)
      \<and> offsets_wf offs (length data)
      \<and> (dt \<in> {Utf8, LargeUtf8} \<longrightarrow> (\<forall>i < length offs - 1. utf8_ok (bytes_value offs data i))))"
| "array_wf (ListArray field nb offs child) =
     (nulls_wf nb (length offs - 1) \<and> offsets_wf offs (array_len child)
      \<and> data_type_of child = field \<and> array_wf child)"
| "array_wf (MapArray field srt nb offs entries) =
     (nulls_wf nb (length offs - 1) \<and> offsets_wf offs (array_len entries)
      \<and> data_type_of entries = field \<and> array_wf entries
      \<and> (case entries of StructArray fs None n [ks, vs] \<Rightarrow> True | _ \<Rightarrow> False))"
| "array_wf (StructArray fields nb n cols) =
     (nulls_wf nb n \<and> map data_type_of cols = fields
      \<and> (\<forall>c \<in> set cols. array_wf c \<and> array_len c = n))"
| "array_wf (DictionaryArray kt keys vals) =
     (array_wf keys \<and> array_wf vals
      \<and> (case keys of PrimitiveArray dt nb ks \<Rightarrow> dt = kt \<and>
           (\<forall>i < length ks. bit_valid nb i \<longrightarrow> 0 \<le> ks ! i \<and> nat (ks ! i) < array_len vals)
         | _ \<Rightarrow> False))"

datatype cell_value =
    CNull | CBool bool | CPrim data_type int | CBytes bytes
  | CList "cell_value list" | CMap "(cell_value \<times> cell_value) list" | CStruct "cell_value list"

fun cell :: "array \<Rightarrow> nat \<Rightarrow> cell_value" where
  "cell (NullArray _) i = CNull"
| "cell (BooleanArray nb (bs, off, len)) i =
     (if bit_valid nb i then CBool (get_bit_raw bs (off + i)) else CNull)"
| "cell (PrimitiveArray dt nb vs) i = (if bit_valid nb i then CPrim dt (vs ! i) else CNull)"
| "cell (ByteArray dt nb offs data) i =
     (if bit_valid nb i then CBytes (bytes_value offs data i) else CNull)"
| "cell (ListArray field nb offs child) i =
     (if bit_valid nb i
      then CList (map (cell child) [offset_at offs i..<offset_at offs (i + 1)]) else CNull)"
| "cell (MapArray field srt nb offs entries) i =
     (if bit_valid nb i
      then CMap (map (\<lambda>j. (case entries of StructArray _ _ _ [ks, vs] \<Rightarrow> (cell ks j, cell vs j)
                           | _ \<Rightarrow> (CNull, CNull)))
                  [offset_at offs i..<offset_at offs (i + 1)])
      else CNull)"
| "cell (StructArray fields nb n cols) i =
     (if bit_valid nb i then CStruct (map (\<lambda>c. cell c i) cols) else CNull)"
| "cell (DictionaryArray kt keys vals) i =
     (case keys of PrimitiveArray _ nb ks \<Rightarrow> if bit_valid nb i then cell vals (nat (ks ! i)) else CNull
      | _ \<Rightarrow> CNull)"

section \<open>Lemmas\<close>

lemma offset_at_mono:
  assumes "offsets_wf offs n" and "i \<le> j" and "j < length offs"
  shows "offset_at offs i \<le> offset_at offs j"
  using assms by (simp add: offsets_wf_def offset_at_def sorted_nth_mono nat_mono)

lemma offset_at_le:
  assumes "offsets_wf offs n" and "i < length offs"
  shows "offset_at offs i \<le> n"
proof -
  have "offs ! i \<le> last offs"
    using assms by (auto simp: offsets_wf_def last_conv_nth intro!: sorted_nth_mono)
  also have "last offs \<le> int n" using assms by (simp add: offsets_wf_def)
  finally show ?thesis by (simp add: offset_at_def)
qed

lemma inside_child:
  "offsets_wf offs n \<Longrightarrow> i < length offs - 1 \<Longrightarrow> j < offset_at offs (i + 1) \<Longrightarrow> j < n"
  using offset_at_le [of offs n "i + 1"] by linarith

lemma is_valid_in: "i < array_len a \<Longrightarrow> is_valid a i = Some (bit_valid (nulls_of a) i)"
  by (simp add: is_valid_def)

lemma null_count_0: "null_count a = 0 \<Longrightarrow> i < array_len a \<Longrightarrow> bit_valid (nulls_of a) i"
  by (auto simp: null_count_def filter_empty_conv)

end
