(* ===== verification/Hash.thy ===== *)
theory Hash
  imports Prelude
begin

text \<open>
  The hash functions of \<open>datafusion-ext-commons/src/hash\<close>: the unaligned reads of \<open>mod.rs\<close>,
  Spark's Murmur3 (\<open>mur.rs\<close>) and xxHash64 (\<open>xxhash.rs\<close>).  Reads go through raw pointers in the
  code, so they are option-valued here and a result \<open>Some h\<close> says that every read stayed inside
  the slice.  Arithmetic is on \<open>32 word\<close> and \<open>64 word\<close>; it wraps, as in the release profile.
\<close>

unbundle bit_operations_syntax

section \<open>Unaligned reads\<close>

definition read32 :: "bytes \<Rightarrow> nat \<Rightarrow> u32 option" where
  "read32 data off =
     (if off + 4 \<le> length data then Some (of_le_bytes (take 4 (drop off data))) else None)"

definition read64 :: "bytes \<Rightarrow> nat \<Rightarrow> u64 option" where
  "read64 data off =
     (if off + 8 \<le> length data then Some (of_le_bytes (take 8 (drop off data))) else None)"

section \<open>Murmur3\<close>

definition mix_k1 :: "u32 \<Rightarrow> u32" where
  "mix_k1 k1 = word_rotl 15 (k1 * 0xcc9e2d51) * 0x1b873593"

definition mix_h1 :: "u32 \<Rightarrow> u32 \<Rightarrow> u32" where
  "mix_h1 h1 k1 = word_rotl 13 (h1 XOR k1) * 5 + 0xe6546b64"

definition fmix :: "u32 \<Rightarrow> u32 \<Rightarrow> u32" where
  "fmix h1 len =
     (let h1 = h1 XOR len;
          h1 = h1 XOR drop_bit 16 h1;
          h1 = h1 * 0x85ebca6b;
          h1 = h1 XOR drop_bit 13 h1;
          h1 = h1 * 0xc2b2ae35
      in h1 XOR drop_bit 16 h1)"

text \<open>\<open>for i in (0..data.len()).step_by(4)\<close>, from index \<open>i\<close> on.\<close>

function hash_ints_from :: "bytes \<Rightarrow> nat \<Rightarrow> u32 \<Rightarrow> u32 option" where
  "hash_ints_from data i h1 =
     (if i < length data
      then do { half_word \<leftarrow> read32 data i;
                hash_ints_from data (i + 4) (mix_h1 h1 (mix_k1 half_word)) }
      else Some h1)"
  by pat_completeness auto
termination by (relation "measure (\<lambda>(data, i, _). length data - i)") auto

declare hash_ints_from.simps [simp del]

definition hash_bytes_by_int :: "bytes \<Rightarrow> u32 \<Rightarrow> u32 option" where
  "hash_bytes_by_int data seed = hash_ints_from data 0 seed"

definition hash_long :: "u64 \<Rightarrow> u32 \<Rightarrow> u32" where
  "hash_long input seed =
     (let low = ucast input;
          high = ucast (drop_bit 32 input);
          h1 = mix_h1 seed (mix_k1 low);
          h1 = mix_h1 h1 (mix_k1 high)
      in fmix h1 8)"

text \<open>The \<open>for &b in data_trailing\<close> loop; a byte is sign-extended (\<open>b as i8 as i32\<close>).\<close>

definition hash_trailing :: "bytes \<Rightarrow> u32 \<Rightarrow> u32" where
  "hash_trailing tail h1 = foldl (\<lambda>h b. mix_h1 h (mix_k1 (scast b))) h1 tail"

definition spark_compatible_murmur3_hash :: "bytes \<Rightarrow> u32 \<Rightarrow> u32 option" where
  "spark_compatible_murmur3_hash data seed =
     (let len = length data;
          aligned = take (len - len mod 4) data;
          trailing = drop (len - len mod 4) data
      in do { h1 \<leftarrow> hash_bytes_by_int aligned seed;
              Some (fmix (hash_trailing trailing h1) (of_nat len)) })"

definition spark_compatible_murmur3_hash_long :: "u64 \<Rightarrow> u32 \<Rightarrow> u32" where
  "spark_compatible_murmur3_hash_long val seed = hash_long val seed"

section \<open>xxHash64\<close>

definition PRIME64_1 :: u64 where "PRIME64_1 = 0x9E3779B185EBCA87"
definition PRIME64_2 :: u64 where "PRIME64_2 = 0xC2B2AE3D27D4EB4F"
definition PRIME64_3 :: u64 where "PRIME64_3 = 0x165667B19E3779F9"
definition PRIME64_4 :: u64 where "PRIME64_4 = 0x85EBCA77C2B2AE63"
definition PRIME64_5 :: u64 where "PRIME64_5 = 0x27D4EB2F165667C5"

definition xxh_rotl64 :: "u64 \<Rightarrow> nat \<Rightarrow> u64" where
  "xxh_rotl64 val amt = push_bit (amt mod 64) val OR drop_bit (64 - amt mod 64) val"

definition xxh64_round :: "u64 \<Rightarrow> u64 \<Rightarrow> u64" where
  "xxh64_round acc input = xxh_rotl64 (acc + input * PRIME64_2) 31 * PRIME64_1"

definition xxh64_merge_round :: "u64 \<Rightarrow> u64 \<Rightarrow> u64" where
  "xxh64_merge_round hash acc = (hash XOR xxh64_round 0 acc) * PRIME64_1 + PRIME64_4"

definition xxh64_avalanche :: "u64 \<Rightarrow> u64" where
  "xxh64_avalanche hash =
     (let hash = hash XOR drop_bit 33 hash;
          hash = hash * PRIME64_2;
          hash = hash XOR drop_bit 29 hash;
          hash = hash * PRIME64_3
      in hash XOR drop_bit 32 hash)"

text \<open>
  The four loops of \<open>xxhash64\<close>.  Each carries the mutable \<open>offset\<close> and \<open>remaining\<close> of the
  code and answers them with the new accumulators.
\<close>

fun stripe_loop :: "bytes \<Rightarrow> nat \<Rightarrow> nat \<Rightarrow> u64 \<times> u64 \<times> u64 \<times> u64
    \<Rightarrow> ((u64 \<times> u64 \<times> u64 \<times> u64) \<times> nat \<times> nat) option" where
  "stripe_loop input off remaining (acc1, acc2, acc3, acc4) =
     (if 32 \<le> remaining
      then do { w1 \<leftarrow> read64 input off;
                w2 \<leftarrow> read64 input (off + 8);
                w3 \<leftarrow> read64 input (off + 16);
                w4 \<leftarrow> read64 input (off + 24);
                stripe_loop input (off + 32) (remaining - 32)
                  (xxh64_round acc1 w1, xxh64_round acc2 w2, xxh64_round acc3 w3, xxh64_round acc4 w4) }
      else Some ((acc1, acc2, acc3, acc4), off, remaining))"

fun word_loop :: "bytes \<Rightarrow> nat \<Rightarrow> nat \<Rightarrow> u64 \<Rightarrow> (u64 \<times> nat \<times> nat) option" where
  "word_loop input off remaining hash =
     (if 8 \<le> remaining
      then do { w \<leftarrow> read64 input off;
                word_loop input (off + 8) (remaining - 8)
                  (xxh_rotl64 (hash XOR xxh64_round 0 w) 27 * PRIME64_1 + PRIME64_4) }
      else Some (hash, off, remaining))"

definition half_word_step :: "bytes \<Rightarrow> nat \<Rightarrow> nat \<Rightarrow> u64 \<Rightarrow> (u64 \<times> nat \<times> nat) option" where
  "half_word_step input off remaining hash =
     (if 4 \<le> remaining
      then do { w \<leftarrow> read32 input off;
                Some (xxh_rotl64 (hash XOR ucast w * PRIME64_1) 23 * PRIME64_2 + PRIME64_3,
                      off + 4, remaining - 4) }
      else Some (hash, off, remaining))"

fun byte_loop :: "bytes \<Rightarrow> nat \<Rightarrow> nat \<Rightarrow> u64 \<Rightarrow> u64 option" where
  "byte_loop input off 0 hash = Some hash"
| "byte_loop input off (Suc remaining) hash =
     do { b \<leftarrow> vget input off;
          byte_loop input (off + 1) remaining
            (xxh_rotl64 (hash XOR ucast b * PRIME64_5) 11 * PRIME64_1) }"

declare stripe_loop.simps [simp del] word_loop.simps [simp del]

definition merge_accs :: "u64 \<times> u64 \<times> u64 \<times> u64 \<Rightarrow> u64" where
  "merge_accs = (\<lambda>(acc1, acc2, acc3, acc4).
     (let hash = xxh_rotl64 acc1 1 + xxh_rotl64 acc2 7 + xxh_rotl64 acc3 12 + xxh_rotl64 acc4 18;
          hash = xxh64_merge_round hash acc1;
          hash = xxh64_merge_round hash acc2;
          hash = xxh64_merge_round hash acc3
      in xxh64_merge_round hash acc4))"

definition xxhash64 :: "bytes \<Rightarrow> u64 \<Rightarrow> u64 option" where
  "xxhash64 input seed =
     do { (hash, off, remaining) \<leftarrow>
            (if 32 \<le> length input
             then do { (accs, off, remaining) \<leftarrow> stripe_loop input 0 (length input)
                         (seed + PRIME64_1 + PRIME64_2, seed + PRIME64_2, seed, seed - PRIME64_1);
                       Some (merge_accs accs, off, remaining) }
             else Some (seed + PRIME64_5, 0, length input));
          (hash, off, remaining) \<leftarrow> word_loop input off remaining (hash + of_nat (length input));
          (hash, off, remaining) \<leftarrow> half_word_step input off remaining hash;
          hash \<leftarrow> byte_loop input off remaining hash;
          Some (xxh64_avalanche hash) }"

definition spark_compatible_xxhash64_hash :: "bytes \<Rightarrow> u64 \<Rightarrow> u64 option" where
  "spark_compatible_xxhash64_hash data seed = xxhash64 data seed"

section \<open>Lemmas\<close>

lemma read32_append: "length pre = off \<Longrightarrow> length w = 4 \<Longrightarrow>
    read32 (pre @ w @ rest) off = Some (of_le_bytes w)"
  by (simp add: read32_def)

lemma read64_append: "length pre = off \<Longrightarrow> length w = 8 \<Longrightarrow>
    read64 (pre @ w @ rest) off = Some (of_le_bytes w)"
  by (simp add: read64_def)

lemma hash_ints_from_chunks:
  assumes "length (drop i data) mod 4 = 0"
  shows "hash_ints_from data i h1 =
    Some (foldl (\<lambda>h w. mix_h1 h (mix_k1 (of_le_bytes w))) h1 (chunks_exact 4 (drop i data)))"
  using assms
proof (induction data i h1 rule: hash_ints_from.induct)
  case (1 data i h1)
  show ?case
  proof (cases "i < length data")
    case False
    then show ?thesis by (simp add: hash_ints_from.simps chunks_exact.simps)
  next
    case True
    have le: "i + 4 \<le> length data"
    proof (rule ccontr)
      assume "\<not> i + 4 \<le> length data"
      with True have "length (drop i data) mod 4 = length (drop i data)" "0 < length (drop i data)"
        by simp_all
      with 1(2) show False by linarith
    qed
    have "length (drop (i + 4) data) mod 4 = 0"
      using 1(2) le by (simp add: le_mod_geq)
    with 1(1) True le show ?thesis
      by (subst hash_ints_from.simps, subst chunks_exact.simps)
        (auto simp: read32_def add.commute)
  qed
qed

lemma drop_multiple:
  assumes "off + rem = length xs" and "0 < n"
  shows "drop (length xs - rem mod n) xs = drop (rem div n * n) (drop off xs)"
proof -
  have "length xs - rem mod n = off + rem div n * n"
    using assms div_mult_mod_eq [of rem n] by linarith
  then show ?thesis by (simp add: add.commute)
qed

text \<open>The reference for the loops: folds over the chunks of the remaining input.\<close>

definition stripe_step :: "u64 \<times> u64 \<times> u64 \<times> u64 \<Rightarrow> bytes \<Rightarrow> u64 \<times> u64 \<times> u64 \<times> u64" where
  "stripe_step = (\<lambda>(a1, a2, a3, a4) s.
     (xxh64_round a1 (of_le_bytes (take 8 s)),
      xxh64_round a2 (of_le_bytes (take 8 (drop 8 s))),
      xxh64_round a3 (of_le_bytes (take 8 (drop 16 s))),
      xxh64_round a4 (of_le_bytes (take 8 (drop 24 s)))))"

definition word_step :: "u64 \<Rightarrow> bytes \<Rightarrow> u64" where
  "word_step hash w = word_rotl 27 (hash XOR xxh64_round 0 (of_le_bytes w)) * PRIME64_1 + PRIME64_4"

definition half_step :: "u64 \<Rightarrow> bytes \<Rightarrow> u64" where
  "half_step hash w =
     word_rotl 23 (hash XOR ucast (of_le_bytes w :: u32) * PRIME64_1) * PRIME64_2 + PRIME64_3"

definition byte_step :: "u64 \<Rightarrow> u8 \<Rightarrow> u64" where
  "byte_step hash b = word_rotl 11 (hash XOR ucast b * PRIME64_5) * PRIME64_1"

definition xxh64_reference :: "bytes \<Rightarrow> u64 \<Rightarrow> u64" where
  "xxh64_reference input seed =
     (let len = length input;
          h0 = (if 32 \<le> len
                then merge_accs (foldl stripe_step
                       (seed + PRIME64_1 + PRIME64_2, seed + PRIME64_2, seed, seed - PRIME64_1)
                       (chunks_exact 32 input))
                else seed + PRIME64_5);
          h1 = foldl word_step (h0 + of_nat len) (chunks_exact 8 (drop (len - len mod 32) input));
          h2 = foldl half_step h1 (chunks_exact 4 (drop (len - len mod 8) input));
          h3 = foldl byte_step h2 (drop (len - len mod 4) input)
      in xxh64_avalanche h3)"

lemma xxh_rotl64_is_rotl: "xxh_rotl64 v amt = word_rotl amt v"
proof (rule bit_word_eqI)
  fix n :: nat
  assume n: "n < LENGTH(64)"
  define a where "a = amt mod 64"
  have a: "a < 64" by (simp add: a_def)
  show "bit (xxh_rotl64 v amt) n \<longleftrightarrow> bit (word_rotl amt v) n"
  proof (cases "a \<le> n")
    case True
    have "(n + (64 - a)) mod 64 = n - a"
      using True n a by (simp add: le_mod_geq)
    with True n a show ?thesis
      by (auto simp: xxh_rotl64_def bit_simps a_def [symmetric] dest: bit_imp_le_length)
  next
    case False
    have "(n + (64 - a)) mod 64 = 64 - a + n"
      using False n a by simp
    with False n a show ?thesis
      by (simp add: xxh_rotl64_def bit_simps a_def [symmetric])
  qed
qed

lemma stripe_loop_chunks:
  "off + remaining = length input \<Longrightarrow>
   stripe_loop input off remaining accs =
     Some (foldl stripe_step accs (chunks_exact 32 (drop off input)),
           length input - remaining mod 32, remaining mod 32)"
proof (induction remaining arbitrary: off accs rule: less_induct)
  case (less remaining)
  obtain acc1 acc2 acc3 acc4 where accs: "accs = (acc1, acc2, acc3, acc4)" by (cases accs) auto
  show ?case
  proof (cases "32 \<le> remaining")
    case True
    have "off + 32 + (remaining - 32) = length input" using less(2) True by simp
    note IH = less(1) [OF _ this]
    have "chunks_exact 32 (drop off input) =
        take 32 (drop off input) # chunks_exact 32 (drop (off + 32) input)"
      by (subst chunks_exact.simps) (use True less(2) in \<open>simp add: add.commute\<close>)
    then show ?thesis unfolding accs
      by (subst stripe_loop.simps)
        (use True less(2) IH in \<open>simp add: read64_def stripe_step_def drop_take add.commute
            le_mod_geq [symmetric]\<close>)
  next
    case False
    then have "off = length input - remaining" "length (drop off input) < 32" using less(2) by auto
    with False accs show ?thesis by (simp add: stripe_loop.simps chunks_exact_short)
  qed
qed

lemma word_loop_chunks:
  "off + remaining = length input \<Longrightarrow>
   word_loop input off remaining hash =
     Some (foldl word_step hash (chunks_exact 8 (drop off input)),
           length input - remaining mod 8, remaining mod 8)"
proof (induction remaining arbitrary: off hash rule: less_induct)
  case (less remaining)
  show ?case
  proof (cases "8 \<le> remaining")
    case True
    have "off + 8 + (remaining - 8) = length input" using less(2) True by simp
    note IH = less(1) [OF _ this]
    have "chunks_exact 8 (drop off input) =
        take 8 (drop off input) # chunks_exact 8 (drop (off + 8) input)"
      by (subst chunks_exact.simps) (use True less(2) in \<open>simp add: add.commute\<close>)
    then show ?thesis
      by (subst word_loop.simps)
        (use True less(2) IH in \<open>simp add: read64_def word_step_def [abs_def] xxh_rotl64_is_rotl
            le_mod_geq [symmetric]\<close>)
  next
    case False
    then have "off = length input - remaining" "length (drop off input) < 8" using less(2) by auto
    with False show ?thesis by (simp add: word_loop.simps chunks_exact_short)
  qed
qed

lemma half_word_step_chunks:
  assumes "off + remaining = length input" and "remaining < 8"
  shows "half_word_step input off remaining hash =
     Some (foldl half_step hash (chunks_exact 4 (drop off input)),
           length input - remaining mod 4, remaining mod 4)"
proof (cases "4 \<le> remaining")
  case True
  have "chunks_exact 4 (drop off input) = [take 4 (drop off input)]"
    using True assms by (auto simp: chunks_exact_step chunks_exact_short)
  moreover have "remaining mod 4 = remaining - 4"
    using True assms(2) by (simp add: le_mod_geq)
  ultimately show ?thesis
    using True assms by (simp add: half_word_step_def read32_def half_step_def xxh_rotl64_is_rotl)
next
  case False
  then have "off = length input - remaining" "length (drop off input) < 4" using assms by auto
  with False show ?thesis by (simp add: half_word_step_def chunks_exact_short)
qed

lemma byte_loop_fold:
  "off + remaining = length input \<Longrightarrow>
   byte_loop input off remaining hash = Some (foldl byte_step hash (drop off input))"
proof (induction remaining arbitrary: off hash)
  case (Suc remaining)
  then have "off < length input" by simp
  then have "drop off input = input ! off # drop (Suc off) input" by (simp add: Cons_nth_drop_Suc)
  with Suc show ?case by (simp add: byte_step_def xxh_rotl64_is_rotl)
qed simp

lemma chunks_exact_aligned:
  "chunks_exact 4 (take (length xs - length xs mod 4) xs) = chunks_exact 4 xs"
proof (induction "4::nat" xs rule: chunks_exact.induct)
  case (1 xs)
  show ?case
  proof (cases "4 \<le> length xs")
    case True
    with 1 have IH: "chunks_exact 4 (take (length (drop 4 xs) - length (drop 4 xs) mod 4) (drop 4 xs))
        = chunks_exact 4 (drop 4 xs)" by simp
    have m: "length (drop 4 xs) mod 4 = length xs mod 4" using True by (simp add: le_mod_geq)
    have "4 \<le> length xs - length xs mod 4"
      using True div_mult_mod_eq [of "length xs" 4] by (cases "length xs div 4") auto
    with True IH m show ?thesis
      by (subst (1 2) chunks_exact.simps) (simp add: drop_take add.commute)
  next
    case False
    then show ?thesis by (simp add: chunks_exact.simps)
  qed
qed

lemma hash_aligned:
  "hash_bytes_by_int (take (length data - length data mod 4) data) seed =
     Some (foldl (\<lambda>h w. mix_h1 h (mix_k1 (of_le_bytes w))) seed (chunks_exact 4 data))"
proof -
  have "length (drop 0 (take (length data - length data mod 4) data)) mod 4 = 0"
    by (simp add: minus_mod_eq_mult_div min_absorb2)
  from hash_ints_from_chunks [OF this] show ?thesis
    by (simp add: hash_bytes_by_int_def chunks_exact_aligned)
qed

lemma murmur3_total: "\<exists>h. spark_compatible_murmur3_hash data seed = Some h"
  by (simp add: spark_compatible_murmur3_hash_def hash_aligned Let_def)

text \<open>The test vectors of the two source files, evaluated on the model.\<close>

lemma murmur3_test_vectors:
  "map (\<lambda>s. map_option sint (spark_compatible_murmur3_hash s 42))
     [[], [97], [97, 98], [97, 98, 99], [97, 98, 99, 100], [97, 98, 99, 100, 101]]
   = map Some [142593372, 1485273170, - 97053317, 1322437556, - 396302900, 814637928]"
  by code_simp

lemma xxhash64_test_vectors:
  "map (\<lambda>s. map_option sint (spark_compatible_xxhash64_hash s 42))
     [[], [97], [97, 98, 99], [97, 98, 99, 100], map of_nat [97..<123]]
   = map Some [- 7444071767201028348, - 8582455328737087284, 1423657621850124518,
       - 6810745876291105281, - 3265757659154784300]"
  by code_simp

section \<open>Properties\<close>

text \<open>
  C25: On every input the Murmur3 routine stays inside the slice and answers what the reference
  answers: absorb the little-endian 32-bit words of the aligned front, then each trailing byte
  sign-extended to 32 bits, then finish with the length.
\<close>

theorem murmur3_reference:
  "spark_compatible_murmur3_hash data seed =
     Some (fmix (foldl (\<lambda>h k. mix_h1 h (mix_k1 k)) seed
             (map of_le_bytes (chunks_exact 4 data)
              @ map scast (drop (length data - length data mod 4) data)))
           (of_nat (length data)))"
  by (simp add: spark_compatible_murmur3_hash_def hash_aligned hash_trailing_def foldl_map Let_def)

text \<open>
  The two entry points agree on 64-bit integers: hashing the eight little-endian bytes of a
  value is \<open>spark_compatible_murmur3_hash_long\<close> of the value.
\<close>

theorem murmur3_long_agrees:
  "spark_compatible_murmur3_hash (le_bytes 8 v) seed = Some (spark_compatible_murmur3_hash_long v seed)"
proof -
  have parts: "le_bytes 8 v = le_bytes 4 v @ le_bytes 4 (drop_bit 32 v)"
    using le_bytes_add [of 4 4 v] by simp
  have "hash_bytes_by_int (le_bytes 8 v) seed =
      Some (mix_h1 (mix_h1 seed (mix_k1 (ucast v))) (mix_k1 (ucast (drop_bit 32 v))))"
    by (simp add: hash_bytes_by_int_def hash_ints_from.simps read32_def parts of_le_bytes_cast_low
        del: le_bytes.simps)
  then show ?thesis
    by (simp add: spark_compatible_murmur3_hash_def hash_trailing_def Let_def
        spark_compatible_murmur3_hash_long_def hash_long_def)
qed

text \<open>
  C26: On every input all four loops of \<open>xxhash64\<close> stay inside the slice, consume it exactly
  and answer the reference: 32-byte stripes over four lanes, then 8-byte words, at most one
  4-byte word, and single bytes, with real rotations for the hand-written \<open>xxh_rotl64\<close>.
\<close>

theorem xxhash64_reference:
  "spark_compatible_xxhash64_hash data seed = Some (xxh64_reference data seed)"
proof -
  define n where "n = length data"
  have a: "0 + n = length data" by (simp add: n_def)
  have b: "n - n mod 32 + n mod 32 = length data" by (simp add: n_def)
  have c: "n - n mod 8 + n mod 8 = length data" "n mod 8 < 8" by (simp_all add: n_def)
  have d: "n - n mod 4 + n mod 4 = length data" by (simp add: n_def)
  have m: "n mod 32 mod 8 = n mod 8" "n mod 8 mod 4 = n mod 4"
    by (simp_all add: mod_mod_cancel)
  have small: "n < 32 \<Longrightarrow> n mod 32 = n" by simp
  show ?thesis
    using stripe_loop_chunks [OF a] word_loop_chunks [OF b] word_loop_chunks [OF a]
      half_word_step_chunks [OF c] byte_loop_fold [OF d] m small
    by (cases "32 \<le> n")
      (simp_all add: spark_compatible_xxhash64_hash_def xxhash64_def xxh64_reference_def Let_def
        n_def [symmetric])
qed

end
