(* ===== verification/Spark_Hash.thy ===== *)
theory Spark_Hash
  imports Arrow_Array Hash
begin

text \<open>
  Row hashing over columns, \<open>datafusion-ext-commons/src/spark_hash.rs\<close>.  The hash function
  \<open>h\<close> is a parameter of the code and of the model; it takes the bytes of a value and the hash so
  far.  \<open>None\<close> is a panic: a length mismatch, a row outside an array, or a data type the code
  does not hash.  \<open>create_hashes_rowwise\<close> relates the column-at-a-time loops to hashing each row
  as a sequence of logical values.
\<close>

section \<open>Model\<close>

type_synonym 'h hasher = "bytes \<Rightarrow> 'h \<Rightarrow> 'h option"

fun fold_opt :: "('a \<Rightarrow> 's \<Rightarrow> 's option) \<Rightarrow> 'a list \<Rightarrow> 's \<Rightarrow> 's option" where
  "fold_opt f [] s = Some s"
| "fold_opt f (x # xs) s = do { s' \<leftarrow> f x s; fold_opt f xs s' }"

lemma fold_opt_cong [fundef_cong]:
  assumes "xs = ys" and "s = t" and "\<And>x u. x \<in> set ys \<Longrightarrow> f x u = g x u"
  shows "fold_opt f xs s = fold_opt g ys t"
proof -
  have "fold_opt f ys u = fold_opt g ys u" for u
    using assms(3) by (induction ys arbitrary: u) (simp_all cong: Option.bind_cong)
  with assms show ?thesis by simp
qed

text \<open>The bytes \<open>hash_one\<close> feeds to \<open>h\<close> for a value of a primitive type.\<close>

fun one_prim_bytes :: "data_type \<Rightarrow> int \<Rightarrow> bytes option" where
  "one_prim_bytes Int8 v = Some (prim_bytes 4 v)"
| "one_prim_bytes Int16 v = Some (prim_bytes 4 v)"
| "one_prim_bytes Int32 v = Some (prim_bytes 4 v)"
| "one_prim_bytes Int64 v = Some (prim_bytes 8 v)"
| "one_prim_bytes Float32 v = Some (prim_bytes 4 v)"
| "one_prim_bytes Float64 v = Some (prim_bytes 8 v)"
| "one_prim_bytes (Timestamp Second None) v = Some (prim_bytes 8 v)"
| "one_prim_bytes (Timestamp Millisecond None) v = Some (prim_bytes 8 v)"
| "one_prim_bytes (Timestamp Microsecond None) v = Some (prim_bytes 8 v)"
| "one_prim_bytes (Timestamp Nanosecond _) v = Some (prim_bytes 8 v)"
| "one_prim_bytes Date32 v = Some (prim_bytes 4 v)"
| "one_prim_bytes Date64 v = Some (prim_bytes 8 v)"
| "one_prim_bytes (Decimal128 _ _) v = Some (prim_bytes 16 v)"
| "one_prim_bytes _ v = None"

definition bool_bytes :: "bool \<Rightarrow> bytes" where
  "bool_bytes b = le_bytes 4 (if b then 1 else 0 :: u32)"

text \<open>
  A list element is read through \<open>list_array.value(idx)\<close>, the slice of the child between two
  offsets; row \<open>i\<close> of the slice is row \<open>beg + i\<close> of the child.
\<close>

fun hash_one :: "'h hasher \<Rightarrow> array \<Rightarrow> nat \<Rightarrow> 'h \<Rightarrow> 'h option" where
  "hash_one h col idx hash =
     do { valid \<leftarrow> is_valid col idx;
          if \<not> valid then Some hash
          else (case col of
            NullArray _ \<Rightarrow> Some hash
          | BooleanArray _ (bs, off, len) \<Rightarrow> h (bool_bytes (get_bit_raw bs (off + idx))) hash
          | PrimitiveArray dt _ vs \<Rightarrow> do { bs \<leftarrow> one_prim_bytes dt (vs ! idx); h bs hash }
          | ByteArray _ _ offs data \<Rightarrow> h (bytes_value offs data idx) hash
          | ListArray _ _ offs child \<Rightarrow>
              fold_opt (\<lambda>i. hash_one h child i) [offset_at offs idx..<offset_at offs (idx + 1)] hash
          | MapArray _ _ _ offs entries \<Rightarrow>
              (case entries of StructArray _ _ _ [key_array, value_array] \<Rightarrow>
                 fold_opt (\<lambda>i s. do { s' \<leftarrow> hash_one h key_array i s; hash_one h value_array i s' })
                   [offset_at offs idx..<offset_at offs (idx + 1)] hash
               | _ \<Rightarrow> None)
          | StructArray _ _ _ cols \<Rightarrow> fold_opt (\<lambda>c. hash_one h c idx) cols hash
          | DictionaryArray _ _ _ \<Rightarrow> None) }"

declare hash_one.simps [simp del]

text \<open>\<open>hashes.iter_mut().enumerate()\<close>: every slot is replaced by the value \<open>f\<close> computes for it.\<close>

definition update_rows :: "(nat \<Rightarrow> 'h \<Rightarrow> 'h option) \<Rightarrow> 'h list \<Rightarrow> 'h list option" where
  "update_rows f hashes = those (map (\<lambda>i. f i (hashes ! i)) [0..<length hashes])"

text \<open>
  The body shared by the macros \<open>hash_array!\<close>, \<open>hash_array_primitive!\<close>, \<open>hash_array_decimal!\<close>
  and the boolean case: two loops, one of which skips the test for null.
\<close>

definition hash_rows :: "'h hasher \<Rightarrow> array \<Rightarrow> (nat \<Rightarrow> bytes) \<Rightarrow> 'h list \<Rightarrow> 'h list option" where
  "hash_rows h arr value_bytes hashes =
     (if null_count arr = 0
      then update_rows (\<lambda>i hash. h (value_bytes i) hash) hashes
      else update_rows (\<lambda>i hash. do { valid \<leftarrow> is_valid arr i;
             if valid then h (value_bytes i) hash else Some hash }) hashes)"

definition create_hashes_dictionary ::
  "'h hasher \<Rightarrow> array \<Rightarrow> array \<Rightarrow> 'h list \<Rightarrow> 'h list option" where
  "create_hashes_dictionary h keys dict_values hashes =
     (case keys of PrimitiveArray _ nb ks \<Rightarrow>
        update_rows (\<lambda>i hash. if bit_valid nb i then hash_one h dict_values (nat (ks ! i)) hash
                              else Some hash) hashes
      | _ \<Rightarrow> None)"

text \<open>The width in bytes to which \<open>hash_array\<close> casts a primitive type it hashes column-wise.\<close>

fun array_prim_width :: "data_type \<Rightarrow> nat option" where
  "array_prim_width Int8 = Some 4"
| "array_prim_width Int16 = Some 4"
| "array_prim_width Int32 = Some 4"
| "array_prim_width Int64 = Some 8"
| "array_prim_width Float32 = Some 4"
| "array_prim_width Float64 = Some 8"
| "array_prim_width (Timestamp _ _) = Some 8"
| "array_prim_width Date32 = Some 4"
| "array_prim_width Date64 = Some 8"
| "array_prim_width (Decimal128 _ _) = Some 16"
| "array_prim_width _ = None"

definition hash_array :: "'h hasher \<Rightarrow> array \<Rightarrow> 'h list \<Rightarrow> 'h list option" where
  "hash_array h arr hashes =
     (if array_len arr \<noteq> length hashes then None
      else case arr of
        NullArray _ \<Rightarrow> Some hashes
      | BooleanArray _ (bs, off, len) \<Rightarrow>
          hash_rows h arr (\<lambda>i. bool_bytes (get_bit_raw bs (off + i))) hashes
      | PrimitiveArray dt _ vs \<Rightarrow>
          (case array_prim_width dt of
             Some w \<Rightarrow> hash_rows h arr (\<lambda>i. prim_bytes w (vs ! i)) hashes
           | None \<Rightarrow> update_rows (hash_one h arr) hashes)
      | ByteArray _ _ offs data \<Rightarrow> hash_rows h arr (bytes_value offs data) hashes
      | DictionaryArray kt keys dict_values \<Rightarrow>
          (if kt \<in> {Int8, Int16, Int32, Int64}
           then create_hashes_dictionary h keys dict_values hashes else None)
      | _ \<Rightarrow> update_rows (hash_one h arr) hashes)"

definition create_hashes :: "nat \<Rightarrow> array list \<Rightarrow> 'h \<Rightarrow> 'h hasher \<Rightarrow> 'h list option" where
  "create_hashes len arrays seed h = fold_opt (hash_array h) arrays (replicate len seed)"

definition create_murmur3_hashes :: "nat \<Rightarrow> array list \<Rightarrow> u32 \<Rightarrow> u32 list option" where
  "create_murmur3_hashes len arrays seed = create_hashes len arrays seed spark_compatible_murmur3_hash"

definition create_xxhash64_hashes :: "nat \<Rightarrow> array list \<Rightarrow> u64 \<Rightarrow> u64 list option" where
  "create_xxhash64_hashes len arrays seed = create_hashes len arrays seed spark_compatible_xxhash64_hash"

section \<open>Specification: hashing a logical value\<close>

text \<open>The type must be one that both paths hash.\<close>

fun hash_cell :: "'h hasher \<Rightarrow> cell_value \<Rightarrow> 'h \<Rightarrow> 'h option" where
  "hash_cell h CNull s = Some s"
| "hash_cell h (CBool b) s = h (bool_bytes b) s"
| "hash_cell h (CPrim dt v) s = do { w \<leftarrow> array_prim_width dt; h (prim_bytes w v) s }"
| "hash_cell h (CBytes bs) s = h bs s"
| "hash_cell h (CList cs) s = fold_opt (\<lambda>c. hash_cell h c) cs s"
| "hash_cell h (CMap kvs) s =
     fold_opt (\<lambda>kv s. do { s' \<leftarrow> hash_cell h (fst kv) s; hash_cell h (snd kv) s' }) kvs s"
| "hash_cell h (CStruct cs) s = fold_opt (\<lambda>c. hash_cell h c) cs s"

section \<open>Lemmas\<close>

text \<open>The data types \<open>hash_one\<close> hashes, and those \<open>hash_array\<close> hashes.\<close>

fun nested_hashable :: "data_type \<Rightarrow> bool" where
  "nested_hashable Null = True"
| "nested_hashable Boolean = True"
| "nested_hashable Binary = True"
| "nested_hashable LargeBinary = True"
| "nested_hashable Utf8 = True"
| "nested_hashable LargeUtf8 = True"
| "nested_hashable (List field) = nested_hashable field"
| "nested_hashable (Map field _) = nested_hashable field"
| "nested_hashable (Struct fields) = (\<forall>f \<in> set fields. nested_hashable f)"
| "nested_hashable dt = (one_prim_bytes dt 0 \<noteq> None)"

fun hashable :: "data_type \<Rightarrow> bool" where
  "hashable (Dictionary kt vt) = (kt \<in> {Int8, Int16, Int32, Int64} \<and> nested_hashable vt)"
| "hashable (Timestamp _ _) = True"
| "hashable dt = nested_hashable dt"

lemma fold_opt_Nil [simp]: "fold_opt f [] = Some"
  by (rule ext) simp

lemma fold_opt_single [simp]: "fold_opt f [x] = f x"
  by (rule ext) simp

lemma fold_opt_map: "fold_opt f (map g xs) s = fold_opt (\<lambda>x. f (g x)) xs s"
  by (induction xs arbitrary: s) (simp_all cong: Option.bind_cong)

lemma one_prim_bytes_width:
  "nested_hashable dt \<Longrightarrow> primitive_width dt \<noteq> None \<Longrightarrow>
   \<exists>w. array_prim_width dt = Some w \<and> one_prim_bytes dt v = Some (prim_bytes w v)"
  by (cases "(dt, v)" rule: one_prim_bytes.cases) auto

lemma hash_one_cell:
  "array_wf a \<Longrightarrow> nested_hashable (data_type_of a) \<Longrightarrow> i < array_len a \<Longrightarrow>
   hash_one h a i s = hash_cell h (cell a i) s"
proof (induction a arbitrary: i s)
  case (NullArray n)
  then show ?case by (simp add: hash_one.simps is_valid_def bit_valid_def)
next
  case (BooleanArray nb vals)
  then show ?case by (cases vals) (simp add: hash_one.simps is_valid_def)
next
  case (PrimitiveArray dt nb vs)
  then show ?case
    using one_prim_bytes_width [of dt "vs ! i"] by (auto simp: hash_one.simps is_valid_def)
next
  case (ByteArray dt nb offs data)
  then show ?case by (simp add: hash_one.simps is_valid_def)
next
  case (ListArray field nb offs child)
  have "j < array_len child" if "j \<in> set [offset_at offs i..<offset_at offs (i + 1)]" for j
    using that ListArray(2,4) inside_child [of offs "array_len child" i j] by simp
  with ListArray show ?case
    by (auto simp: hash_one.simps is_valid_def fold_opt_map intro!: fold_opt_cong)
next
  case (MapArray field srt nb offs entries)
  then obtain fs n ks vs where e: "entries = StructArray fs None n [ks, vs]"
    by (auto split: array.splits option.splits list.splits)
  have j: "j < n" if "j \<in> set [offset_at offs i..<offset_at offs (i + 1)]" for j
    using that MapArray(2,4) inside_child [of offs "array_len entries" i j] e by simp
  have entry: "do { t \<leftarrow> hash_one h ks j u; hash_one h vs j t } =
      do { t \<leftarrow> hash_cell h (cell ks j) u; hash_cell h (cell vs j) t }" if "j < n" for j u
  proof -
    have "array_wf entries" "nested_hashable (data_type_of entries)" "j < array_len entries"
      using MapArray(2-4) that e by auto
    from MapArray(1) [OF this]
    have "hash_one h entries j u = hash_cell h (cell entries j) u" .
    then show ?thesis
      using that unfolding e
      by (subst (asm) hash_one.simps) (simp add: is_valid_def bit_valid_def)
  qed
  from MapArray(2-4) j show ?case
    by (simp only: e, subst hash_one.simps)
      (auto simp: is_valid_def fold_opt_map entry intro!: fold_opt_cong)
next
  case (StructArray fields nb n cols)
  then show ?case
    by (auto simp: hash_one.simps is_valid_def fold_opt_map intro!: fold_opt_cong)
next
  case (DictionaryArray kt keys vals)
  then show ?case by simp
qed

lemma update_rows_cong:
  "(\<And>i s. i < length hashes \<Longrightarrow> f i s = g i s) \<Longrightarrow> update_rows f hashes = update_rows g hashes"
  by (auto simp: update_rows_def intro!: those_map_cong)

lemma update_rows_Some:
  "update_rows f hashes = Some hashes' \<longleftrightarrow>
     length hashes' = length hashes \<and> (\<forall>i < length hashes. f i (hashes ! i) = Some (hashes' ! i))"
proof -
  have "map (\<lambda>i. f i (hashes ! i)) [0..<length hashes] = map Some hashes' \<longleftrightarrow>
      length hashes' = length hashes \<and> (\<forall>i < length hashes. f i (hashes ! i) = Some (hashes' ! i))"
    unfolding list_eq_iff_nth_eq by auto
  then show ?thesis by (simp only: update_rows_def those_Some_iff)
qed

lemma hash_rows_cells:
  assumes "array_len a = length hashes"
    and "\<And>i. i < length hashes \<Longrightarrow> bit_valid (nulls_of a) i \<Longrightarrow> hash_cell h (cell a i) = h (vb i)"
    and "\<And>i. i < length hashes \<Longrightarrow> \<not> bit_valid (nulls_of a) i \<Longrightarrow> cell a i = CNull"
  shows "hash_rows h a vb hashes = update_rows (\<lambda>i. hash_cell h (cell a i)) hashes"
proof (cases "null_count a = 0")
  case True
  have "update_rows (\<lambda>i. h (vb i)) hashes = update_rows (\<lambda>i. hash_cell h (cell a i)) hashes"
    by (rule update_rows_cong) (simp add: assms null_count_0 True)
  with True show ?thesis by (simp add: hash_rows_def)
next
  case False
  have "update_rows (\<lambda>i s. do { valid \<leftarrow> is_valid a i; if valid then h (vb i) s else Some s }) hashes
      = update_rows (\<lambda>i. hash_cell h (cell a i)) hashes"
  proof (rule update_rows_cong)
    fix i s
    assume i: "i < length hashes"
    show "do { valid \<leftarrow> is_valid a i; if valid then h (vb i) s else Some s } = hash_cell h (cell a i) s"
      using i assms(2) [OF i] assms(3) [OF i]
      by (cases "bit_valid (nulls_of a) i") (simp_all add: is_valid_def assms(1))
  qed
  with False show ?thesis by (simp add: hash_rows_def)
qed

lemma hash_array_cells:
  assumes "array_wf a" and "hashable (data_type_of a)" and "array_len a = length hashes"
  shows "hash_array h a hashes = update_rows (\<lambda>i. hash_cell h (cell a i)) hashes"
proof (cases a)
  case (NullArray n)
  have "map (\<lambda>i. Some (hashes ! i)) [0..<length hashes] = map Some (map ((!) hashes) [0..<length hashes])"
    by simp
  then have "those (map (\<lambda>i. Some (hashes ! i)) [0..<length hashes]) = Some hashes"
    by (simp only: those_Some_iff map_nth)
  with NullArray assms(3) show ?thesis by (simp add: hash_array_def update_rows_def)
next
  case (BooleanArray nb vals)
  obtain bs off len where vals: "vals = (bs, off, len)" by (cases vals)
  have "hash_rows h a (\<lambda>i. bool_bytes (get_bit_raw bs (off + i))) hashes =
      update_rows (\<lambda>i. hash_cell h (cell a i)) hashes"
    by (rule hash_rows_cells) (use BooleanArray vals assms(3) in \<open>simp_all add: fun_eq_iff\<close>)
  with BooleanArray vals assms(3) show ?thesis by (simp add: hash_array_def)
next
  case (PrimitiveArray dt nb vs)
  have "\<exists>w. array_prim_width dt = Some w"
  proof (cases dt)
    case (Timestamp u tz)
    then show ?thesis by simp
  qed (use assms one_prim_bytes_width [of dt] PrimitiveArray in auto)
  then obtain w where w: "array_prim_width dt = Some w" by blast
  have "hash_rows h a (\<lambda>i. prim_bytes w (vs ! i)) hashes = update_rows (\<lambda>i. hash_cell h (cell a i)) hashes"
    by (rule hash_rows_cells) (use PrimitiveArray w assms(3) in \<open>simp_all add: fun_eq_iff\<close>)
  with PrimitiveArray w assms(3) show ?thesis by (simp add: hash_array_def)
next
  case (ByteArray dt nb offs data)
  have "hash_rows h a (bytes_value offs data) hashes = update_rows (\<lambda>i. hash_cell h (cell a i)) hashes"
    by (rule hash_rows_cells) (use ByteArray assms(3) in \<open>simp_all add: fun_eq_iff\<close>)
  with ByteArray assms(3) show ?thesis by (simp add: hash_array_def)
next
  case (DictionaryArray kt keys vals)
  with assms obtain nb ks where k: "keys = PrimitiveArray kt nb ks"
    by (auto split: array.splits)
  with DictionaryArray assms show ?thesis
    by (auto simp: hash_array_def create_hashes_dictionary_def hash_one_cell intro!: update_rows_cong)
qed (use assms in \<open>auto simp: hash_array_def hash_one_cell intro!: update_rows_cong\<close>)

text \<open>Column by column, row by row: the order of the two loops does not matter.\<close>

lemma fold_update_rows:
  assumes "\<And>a hs. a \<in> set as \<Longrightarrow> length hs = length hashes \<Longrightarrow> F a hs = update_rows (g a) hs"
  shows "fold_opt F as hashes = update_rows (\<lambda>i. fold_opt (\<lambda>a. g a i) as) hashes"
  using assms
proof (induction as arbitrary: hashes)
  case Nil
  have "update_rows (\<lambda>i. Some) hashes = Some hashes" by (simp add: update_rows_Some)
  then show ?case by simp
next
  case (Cons a as)
  show ?case
  proof (cases "update_rows (g a) hashes")
    case None
    then obtain i where "i < length hashes" "g a i (hashes ! i) = None"
      by (auto simp: update_rows_def those_None_iff)
    then have "update_rows (\<lambda>i. fold_opt (\<lambda>a. g a i) (a # as)) hashes = None"
      by (force simp: update_rows_def those_None_iff)
    moreover have "fold_opt F (a # as) hashes = None"
      using Cons.prems [of a hashes] None by simp
    ultimately show ?thesis by (simp only:)
  next
    case (Some hs)
    then have hs: "length hs = length hashes"
      "\<And>i. i < length hashes \<Longrightarrow> g a i (hashes ! i) = Some (hs ! i)"
      by (auto simp: update_rows_Some)
    have "fold_opt F (a # as) hashes = fold_opt F as hs"
      using Cons.prems [of a hashes] Some by simp
    also have "\<dots> = update_rows (\<lambda>i. fold_opt (\<lambda>a. g a i) as) hs"
      by (rule Cons.IH) (use Cons.prems hs in simp)
    also have "\<dots> = update_rows (\<lambda>i. fold_opt (\<lambda>a. g a i) (a # as)) hashes"
      unfolding update_rows_def hs(1) by (rule those_map_cong) (simp add: hs)
    finally show ?thesis .
  qed
qed

lemma create_hashes_cells:
  assumes "\<forall>a \<in> set arrays. array_wf a \<and> hashable (data_type_of a) \<and> array_len a = len"
  shows "create_hashes len arrays seed h =
    those (map (\<lambda>i. fold_opt (\<lambda>c. hash_cell h c) (map (\<lambda>a. cell a i) arrays) seed) [0..<len])"
proof -
  have "create_hashes len arrays seed h =
      update_rows (\<lambda>i. fold_opt (\<lambda>a. hash_cell h (cell a i)) arrays) (replicate len seed)"
    unfolding create_hashes_def
    by (rule fold_update_rows) (use assms in \<open>simp add: hash_array_cells\<close>)
  also have "\<dots> = those (map (\<lambda>i. fold_opt (\<lambda>c. hash_cell h c) (map (\<lambda>a. cell a i) arrays) seed) [0..<len])"
    unfolding update_rows_def length_replicate by (rule those_map_cong) (simp add: fold_opt_map)
  finally show ?thesis .
qed

section \<open>Properties\<close>

text \<open>
  C23: Hashing a batch column by column gives every row the hash of its own logical values: the
  hash of row \<open>i\<close> is obtained by feeding the cells of row \<open>i\<close>, in column order, to the hash
  function, nulls skipped, lists, maps and structs element by element, dictionaries through
  their values.  In particular it does not depend on how the values are laid out in buffers.
\<close>

theorem create_hashes_rowwise:
  assumes "\<forall>a \<in> set arrays. array_wf a \<and> hashable (data_type_of a) \<and> array_len a = len"
  shows "create_hashes len arrays seed h =
    those (map (\<lambda>i. fold_opt (\<lambda>c. hash_cell h c) (map (\<lambda>a. cell a i) arrays) seed) [0..<len])"
  using assms by (rule create_hashes_cells)

theorem create_hashes_rowwise_witness:
  "create_hashes 2 [PrimitiveArray Int32 (Some ([1], 0, 2)) [7, 9], ByteArray Utf8 None [0, 1, 3] [97, 98, 99]]
     42 spark_compatible_murmur3_hash =
   those [do { s \<leftarrow> spark_compatible_murmur3_hash (prim_bytes 4 7) 42; spark_compatible_murmur3_hash [97] s },
          spark_compatible_murmur3_hash [98, 99] 42]"
proof -
  have "\<forall>a \<in> set [PrimitiveArray Int32 (Some ([1], 0, 2)) [7, 9], ByteArray Utf8 None [0, 1, 3] [97, 98, 99]].
      array_wf a \<and> hashable (data_type_of a) \<and> array_len a = 2"
    by (auto simp: nulls_wf_def prim_in_range_def offsets_wf_def less_Suc_eq bytes_value_def
        offset_at_def)
  from create_hashes_rowwise [OF this, of "42 :: u32" spark_compatible_murmur3_hash]
  show ?thesis
    by (simp add: upt_rec bit_valid_def get_bit_raw_def bytes_value_def offset_at_def)
qed

lemma fold_opt_None: "x \<in> set xs \<Longrightarrow> (\<And>s. f x s = None) \<Longrightarrow> fold_opt f xs s = None"
  by (induction xs arbitrary: s) (auto split: Option.bind_splits)

lemma update_rows_None: "i < length hashes \<Longrightarrow> f i (hashes ! i) = None \<Longrightarrow> update_rows f hashes = None"
  by (auto simp: update_rows_def those_None_iff intro!: image_eqI [of _ _ i] dest: sym)

lemma zoned_not_hashed: "u \<noteq> Nanosecond \<Longrightarrow> one_prim_bytes (Timestamp u (Some tz)) v = None"
  by (cases u) auto

text \<open>
  C35: A timestamp column with a time zone, of a unit other than nanoseconds, is hashed as a column
  by every hash that is total, but makes the hasher panic as the elements of a list column, as
  soon as one element of one list is not null: \<open>hash_one\<close> matches second, millisecond and
  microsecond timestamps only without a time zone.
\<close>

theorem nested_zoned_timestamp_panics:
  assumes "array_wf (ListArray (Timestamp u (Some tz)) nb offs (PrimitiveArray (Timestamp u (Some tz)) cnb vs))" and "u \<noteq> Nanosecond"
    and "i < length offs - 1" and "bit_valid nb i"
    and "offset_at offs i \<le> j" and "j < offset_at offs (i + 1)" and "bit_valid cnb j"
    and "\<forall>bs s. h bs s \<noteq> None"
  shows "create_hashes (length vs) [PrimitiveArray (Timestamp u (Some tz)) cnb vs] seed h \<noteq> None
    \<and> create_hashes (length offs - 1) [ListArray (Timestamp u (Some tz)) nb offs (PrimitiveArray (Timestamp u (Some tz)) cnb vs)] seed h = None"
proof
  let ?c = "PrimitiveArray (Timestamp u (Some tz)) cnb vs" and ?l = "ListArray (Timestamp u (Some tz)) nb offs (PrimitiveArray (Timestamp u (Some tz)) cnb vs)"
  have "hash_array h ?c (replicate (length vs) seed) = update_rows (\<lambda>i. hash_cell h (cell ?c i)) (replicate (length vs) seed)"
    by (rule hash_array_cells) (use assms(1) in simp_all)
  moreover have "hash_cell h (cell ?c i) s \<noteq> None" for i s using assms(8) by simp
  then have "None \<notin> set (map (\<lambda>i. hash_cell h (cell ?c i) (replicate (length vs) seed ! i)) [0..<length vs])" by (metis (no_types, lifting) image_iff list.set_map)
  then have "update_rows (\<lambda>i. hash_cell h (cell ?c i)) (replicate (length vs) seed) \<noteq> None"
    unfolding update_rows_def those_None_iff length_replicate .
  ultimately show "create_hashes (length vs) [?c] seed h \<noteq> None" by (simp add: create_hashes_def)
  have j: "j < length vs" using inside_child [of offs "length vs" i j] assms(1,3,6) by simp
  have elem: "hash_one h ?c j s = None" for s
    using j assms(7) zoned_not_hashed [OF assms(2)] by (simp add: hash_one.simps is_valid_def)
  have "fold_opt (\<lambda>i. hash_one h ?c i) [offset_at offs i..<offset_at offs (i + 1)] s = None" for s
    by (rule fold_opt_None [of j]) (use assms(5,6) elem in simp_all)
  then have "hash_one h ?l i s = None" for s
    using assms(3,4) by (subst hash_one.simps) (simp add: is_valid_def)
  then have "update_rows (hash_one h ?l) (replicate (length offs - 1) seed) = None"
    by (intro update_rows_None [of i]) (use assms(3) in simp_all)
  then show "create_hashes (length offs - 1) [?l] seed h = None" by (simp add: create_hashes_def hash_array_def)
qed

theorem nested_zoned_timestamp_panics_witness:
  "create_hashes 2 [PrimitiveArray (Timestamp Microsecond (Some ''UTC'')) (Some ([2], 0, 2)) [0, 5]] (42 :: u32) (\<lambda>bs s. Some (s + 1)) \<noteq> None
   \<and> create_hashes 1 [ListArray (Timestamp Microsecond (Some ''UTC'')) None [0, 2]
        (PrimitiveArray (Timestamp Microsecond (Some ''UTC'')) (Some ([2], 0, 2)) [0, 5])] (42 :: u32) (\<lambda>bs s. Some (s + 1)) = None"
proof -
  let ?l = "ListArray (Timestamp Microsecond (Some ''UTC'')) None [0, 2]
    (PrimitiveArray (Timestamp Microsecond (Some ''UTC'')) (Some ([2], 0, 2)) [0, 5])"
  have "array_wf ?l" by (simp add: nulls_wf_def offsets_wf_def prim_in_range_def)
  from nested_zoned_timestamp_panics [OF this, of 0 1 "\<lambda>bs s. Some (s + 1)" "42 :: u32"] show ?thesis
    by (simp add: bit_valid_def get_bit_raw_def offset_at_def numeral_2_eq_2)
qed

end
