(* ===== verification/Batch_Serde.thy ===== *)
theory Batch_Serde
  imports Arrow_Array Io_Codec
begin

text \<open>
  Serialization of record batches, \<open>datafusion-ext-commons/src/io/batch_serde.rs\<close>.  A writer
  answers the bytes it writes, a reader consumes its input from the front.  The scratch buffer of
  \<open>TransposeOpt::Transpose\<close> is represented by its length: its contents are overwritten before
  every use, and slicing it beyond its length is a panic.

  Code outside the repository is a parameter (\<open>externals\<close>): the transposition of the
  \<open>transpose\<close> crate, and two constructors of the \<open>arrow\<close> crate that validate their input.
  \<open>externals_ok\<close> states what their documentation promises.
\<close>

unbundle bit_operations_syntax

section \<open>External operations\<close>

record externals =
  ext_transpose :: "bytes \<Rightarrow> nat \<Rightarrow> nat \<Rightarrow> bytes"
  ext_try_new :: "array \<Rightarrow> array result"
  ext_with_precision_and_scale :: "nat \<Rightarrow> int \<Rightarrow> array \<Rightarrow> array result"

section \<open>Model\<close>

datatype transpose_opt = Disabled | Transpose nat

fun data_type_bytes_width :: "data_type \<Rightarrow> nat" where
  "data_type_bytes_width (List field) = max (data_type_bytes_width field) 4"
| "data_type_bytes_width (Map field _) = max (data_type_bytes_width field) 4"
| "data_type_bytes_width (Struct fs) = fold max (map data_type_bytes_width fs) 0"
| "data_type_bytes_width Utf8 = 4"
| "data_type_bytes_width Binary = 4"
| "data_type_bytes_width dt =
     (case primitive_width dt of None \<Rightarrow> 0 | Some w \<Rightarrow> if w = 1 then 0 else w)"

definition with_transpose :: "nat \<Rightarrow> data_type list \<Rightarrow> transpose_opt" where
  "with_transpose num_rows data_types =
     Transpose (num_rows * fold max (map data_type_bytes_width data_types) 0)"

text \<open>Writing one thing after another; the first error is the answer.\<close>

definition out_seq :: "bytes result \<Rightarrow> bytes result \<Rightarrow> bytes result" where
  "out_seq a b = res_bind a (\<lambda>x. res_bind b (\<lambda>y. Inr (x @ y)))"

fun out_all :: "('a \<Rightarrow> bytes result) \<Rightarrow> 'a list \<Rightarrow> bytes result" where
  "out_all f [] = Inr []"
| "out_all f (x # xs) = out_seq (f x) (out_all f xs)"

text \<open>\<open>for i in 0..bits_len\<close> of \<open>write_bits_buffer\<close>; the raw read must stay in the buffer.\<close>

fun write_bits_loop :: "bytes \<Rightarrow> nat \<Rightarrow> nat list \<Rightarrow> bytes \<Rightarrow> bytes result" where
  "write_bits_loop buf off [] out = Inr out"
| "write_bits_loop buf off (i # is) out =
     (if (off + i) div 8 < length buf
      then write_bits_loop buf off is (if get_bit_raw buf (off + i) then set_bit_raw out i else out)
      else Inl Panic)"

fun write_bits_buffer :: "bit_buffer \<Rightarrow> bytes result" where
  "write_bits_buffer (buf, bits_offset, bits_length) =
     write_bits_loop buf bits_offset [0..<bits_length] (replicate ((bits_length + 7) div 8) 0)"

definition read_bits_buffer :: "nat \<Rightarrow> bytes reader" where
  "read_bits_buffer bits_length = read_bytes_slice ((bits_length + 7) div 8)"

text \<open>
  The prefix every array writer shares: \<open>write_len(1)\<close> and the validity bits, or \<open>write_len(0)\<close>;
  and its counterpart in every array reader.
\<close>

definition write_nulls :: "bit_buffer option \<Rightarrow> bytes result" where
  "write_nulls nb =
     (case nb of Some b \<Rightarrow> out_seq (Inr (write_len 1)) (write_bits_buffer b)
      | None \<Rightarrow> Inr (write_len 0))"

definition read_nulls :: "nat \<Rightarrow> bit_buffer option reader" where
  "read_nulls num_rows =
     rd_bind read_len (\<lambda>n.
       if n = 1 then rd_bind (read_bits_buffer num_rows) (\<lambda>bs. rd_return (Some (bs, 0, num_rows)))
       else rd_return None)"

text \<open>
  Rows of \<open>w\<close> bytes go out transposed when there is a scratch buffer and the row is wider than a
  byte (\<open>raw\<close> has \<open>n\<close> rows); and come back the same way.
\<close>

definition write_transposed :: "externals \<Rightarrow> transpose_opt \<Rightarrow> nat \<Rightarrow> nat \<Rightarrow> bytes \<Rightarrow> bytes result" where
  "write_transposed ext opt w n raw =
     (case opt of
        Transpose cap \<Rightarrow>
          if 1 < w then (if w * n \<le> cap then Inr (ext_transpose ext raw w n) else Inl Panic)
          else Inr raw
      | Disabled \<Rightarrow> Inr raw)"

definition read_transposed :: "externals \<Rightarrow> transpose_opt \<Rightarrow> nat \<Rightarrow> nat \<Rightarrow> bytes reader" where
  "read_transposed ext opt w n =
     (case opt of
        Transpose cap \<Rightarrow>
          if 1 < w
          then (if w * n \<le> cap
                then rd_bind (read_exact (w * n)) (\<lambda>buf. rd_return (ext_transpose ext buf n w))
                else (\<lambda>_. Inl Panic))
          else read_exact (w * n)
      | Disabled \<Rightarrow> read_exact (w * n))"

definition offset_lens :: "int list \<Rightarrow> u32 list" where
  "offset_lens offs = map2 (\<lambda>beg end. word_of_int (end - beg)) offs (tl offs)"

definition write_offsets :: "externals \<Rightarrow> int list \<Rightarrow> transpose_opt \<Rightarrow> bytes result" where
  "write_offsets ext offs opt =
     (if offs = [] then Inl Panic
      else let lens = offset_lens offs
           in write_transposed ext opt 4 (length lens) (concat (map (le_bytes 4) lens)))"

text \<open>\<open>cur_offset += *offset; *offset = cur_offset - *offset\<close> over the lengths.\<close>

fun prefix_offsets :: "u32 \<Rightarrow> u32 list \<Rightarrow> u32 list" where
  "prefix_offsets cur [] = []"
| "prefix_offsets cur (len # lens) = (cur + len - len) # prefix_offsets (cur + len) lens"

definition read_offsets :: "externals \<Rightarrow> nat \<Rightarrow> transpose_opt \<Rightarrow> int list reader" where
  "read_offsets ext num_rows opt =
     rd_bind (read_transposed ext opt 4 num_rows) (\<lambda>raw.
       rd_return (map sint (prefix_offsets 0 (map of_le_bytes (chunks_exact 4 raw) @ [0]))))"

text \<open>\<open>as usize\<close> on an \<open>i32\<close> offset.\<close>

definition i32_as_usize :: "int \<Rightarrow> nat" where
  "i32_as_usize v = nat (uint (word_of_int v :: usize))"

definition write_primitive_array ::
  "externals \<Rightarrow> data_type \<Rightarrow> bit_buffer option \<Rightarrow> int list \<Rightarrow> transpose_opt \<Rightarrow> bytes result" where
  "write_primitive_array ext dt nb vs opt =
     (case primitive_width dt of None \<Rightarrow> Inl NotImplemented
      | Some w \<Rightarrow> out_seq (write_nulls nb)
          (write_transposed ext opt w (length vs) (concat (map (prim_bytes w) vs))))"

definition read_primitive_array ::
  "externals \<Rightarrow> data_type \<Rightarrow> nat \<Rightarrow> transpose_opt \<Rightarrow> array reader" where
  "read_primitive_array ext dt num_rows opt =
     (case primitive_width dt of None \<Rightarrow> (\<lambda>_. Inl NotImplemented)
      | Some w \<Rightarrow>
          rd_bind (read_nulls num_rows) (\<lambda>nb.
          rd_bind (read_transposed ext opt w num_rows) (\<lambda>raw inp.
            res_map (\<lambda>a. (a, inp))
              (ext_try_new ext (PrimitiveArray dt nb (map (prim_of_bytes dt w) (chunks_exact w raw)))))))"

definition write_boolean_array :: "bit_buffer option \<Rightarrow> bit_buffer \<Rightarrow> bytes result" where
  "write_boolean_array nb vals = out_seq (write_nulls nb) (write_bits_buffer vals)"

definition read_boolean_array :: "externals \<Rightarrow> nat \<Rightarrow> array reader" where
  "read_boolean_array ext num_rows =
     rd_bind (read_nulls num_rows) (\<lambda>nb.
     rd_bind (read_bits_buffer num_rows) (\<lambda>bs inp.
       res_map (\<lambda>a. (a, inp)) (ext_try_new ext (BooleanArray nb (bs, 0, num_rows)))))"

definition write_bytes_array ::
  "externals \<Rightarrow> bit_buffer option \<Rightarrow> int list \<Rightarrow> bytes \<Rightarrow> transpose_opt \<Rightarrow> bytes result" where
  "write_bytes_array ext nb offs data opt =
     out_seq (write_nulls nb)
       (out_seq (write_offsets ext offs opt)
         (let beg = i32_as_usize (hd offs); end = i32_as_usize (last offs)
          in if beg \<le> end \<and> end \<le> length data then Inr (take (end - beg) (drop beg data))
             else Inl Panic))"

definition read_bytes_array :: "externals \<Rightarrow> nat \<Rightarrow> data_type \<Rightarrow> transpose_opt \<Rightarrow> array reader" where
  "read_bytes_array ext num_rows dt opt =
     rd_bind (read_nulls num_rows) (\<lambda>nb.
     rd_bind (read_offsets ext num_rows opt) (\<lambda>offs.
     rd_bind (read_bytes_slice (i32_as_usize (last offs))) (\<lambda>data inp.
       res_map (\<lambda>a. (a, inp)) (ext_try_new ext (ByteArray dt nb offs data)))))"

text \<open>\<open>Array::slice\<close>: a view of \<open>len\<close> rows from row \<open>off\<close> on.\<close>

definition bits_slice :: "nat \<Rightarrow> nat \<Rightarrow> bit_buffer \<Rightarrow> bit_buffer" where
  "bits_slice off len = (\<lambda>(bs, o', n). (bs, o' + off, len))"

fun array_slice :: "nat \<Rightarrow> nat \<Rightarrow> array \<Rightarrow> array" where
  "array_slice off len (NullArray n) = NullArray len"
| "array_slice off len (BooleanArray nb vals) =
     BooleanArray (map_option (bits_slice off len) nb) (bits_slice off len vals)"
| "array_slice off len (PrimitiveArray dt nb vs) =
     PrimitiveArray dt (map_option (bits_slice off len) nb) (take len (drop off vs))"
| "array_slice off len (ByteArray dt nb offs data) =
     ByteArray dt (map_option (bits_slice off len) nb) (take (len + 1) (drop off offs)) data"
| "array_slice off len (ListArray field nb offs child) =
     ListArray field (map_option (bits_slice off len) nb) (take (len + 1) (drop off offs)) child"
| "array_slice off len (MapArray field srt nb offs entries) =
     MapArray field srt (map_option (bits_slice off len) nb) (take (len + 1) (drop off offs)) entries"
| "array_slice off len (StructArray fs nb n cols) =
     StructArray fs (map_option (bits_slice off len) nb) len (map (array_slice off len) cols)"
| "array_slice off len (DictionaryArray kt keys vals) = DictionaryArray kt (array_slice off len keys) vals"

text \<open>The nesting depth, which slicing does not change.\<close>

fun depth :: "array \<Rightarrow> nat" where
  "depth (ListArray _ _ _ child) = Suc (depth child)"
| "depth (MapArray _ _ _ _ entries) = Suc (depth entries)"
| "depth (StructArray _ _ _ cols) = Suc (fold max (map depth cols) 0)"
| "depth (DictionaryArray _ keys vals) = Suc (max (depth keys) (depth vals))"
| "depth _ = 0"

lemma fold_max_acc: "m \<le> fold max xs (m :: nat)"
  by (induction xs arbitrary: m) (auto intro: le_trans [OF max.cobounded2])

lemma fold_max_ge: "x \<in> set xs \<Longrightarrow> x \<le> fold max xs (m :: nat)"
  by (induction xs arbitrary: m) (auto intro: le_trans [OF max.cobounded1 fold_max_acc])

lemma depth_slice [simp]: "depth (array_slice off len a) = depth a"
  by (induction a) (simp_all add: comp_def cong: map_cong)

lemma depth_column: "c \<in> set cols \<Longrightarrow> depth c < Suc (fold max (map depth cols) 0)"
  by (simp add: fold_max_ge less_Suc_eq_le)

text \<open>The primitive types \<open>write_array\<close> and \<open>read_array\<close> list.\<close>

definition serde_prim :: "data_type \<Rightarrow> bool" where
  "serde_prim dt = (case dt of Float16 \<Rightarrow> False | Decimal256 _ _ \<Rightarrow> False
     | _ \<Rightarrow> primitive_width dt \<noteq> None)"

lemma out_all_cong [fundef_cong]:
  "xs = ys \<Longrightarrow> (\<And>x. x \<in> set ys \<Longrightarrow> f x = g x) \<Longrightarrow> out_all f xs = out_all g ys"
  by (induction xs arbitrary: ys) auto

text \<open>
  The writers of nested arrays; \<open>wr\<close> is \<open>write_array\<close> itself, which calls them and which they
  call on a slice of a child or on a column.
\<close>

definition write_list_array :: "(array \<Rightarrow> transpose_opt \<Rightarrow> bytes result) \<Rightarrow> externals \<Rightarrow> data_type \<Rightarrow>
    bit_buffer option \<Rightarrow> int list \<Rightarrow> array \<Rightarrow> transpose_opt \<Rightarrow> bytes result" where
  "write_list_array wr ext field nb offs child opt =
     out_seq (write_nulls nb)
       (out_seq (write_offsets ext offs opt)
         (let beg = i32_as_usize (hd offs); end = i32_as_usize (last offs)
          in if beg \<le> end \<and> end \<le> array_len child
             then wr (array_slice beg (end - beg) child) (with_transpose (end - beg) [field])
             else Inl Panic))"

definition write_map_array :: "(array \<Rightarrow> transpose_opt \<Rightarrow> bytes result) \<Rightarrow> externals \<Rightarrow> data_type \<Rightarrow> bool \<Rightarrow>
    bit_buffer option \<Rightarrow> int list \<Rightarrow> array \<Rightarrow> transpose_opt \<Rightarrow> bytes result" where
  "write_map_array wr ext field srt nb offs entries opt =
     out_seq (write_nulls nb)
       (out_seq (write_offsets ext offs opt)
         (let first_offset = i32_as_usize (hd offs);
              entries_len = i32_as_usize (last offs) - first_offset;
              child_opt = with_transpose entries_len [Map field srt]
          in case entries of StructArray fs nb' n [ks, vs] \<Rightarrow>
               (if first_offset + entries_len \<le> n
                then out_seq (wr (array_slice first_offset entries_len ks) child_opt)
                       (wr (array_slice first_offset entries_len vs) child_opt)
                else Inl Panic)
             | _ \<Rightarrow> Inl Panic))"

definition write_struct_array :: "(array \<Rightarrow> transpose_opt \<Rightarrow> bytes result) \<Rightarrow>
    bit_buffer option \<Rightarrow> array list \<Rightarrow> transpose_opt \<Rightarrow> bytes result" where
  "write_struct_array wr nb cols opt = out_seq (write_nulls nb) (out_all (\<lambda>c. wr c opt) cols)"

lemma write_list_array_cong [fundef_cong]:
  "child = child' \<Longrightarrow> (\<And>off len opt. wr (array_slice off len child') opt = wr' (array_slice off len child') opt) \<Longrightarrow>
   write_list_array wr ext field nb offs child opt = write_list_array wr' ext field nb offs child' opt"
  by (simp add: write_list_array_def Let_def)

lemma write_map_array_cong [fundef_cong]:
  "entries = entries' \<Longrightarrow>
   (\<And>c off len opt. depth c < depth entries' \<Longrightarrow> wr (array_slice off len c) opt = wr' (array_slice off len c) opt) \<Longrightarrow>
   write_map_array wr ext field srt nb offs entries opt = write_map_array wr' ext field srt nb offs entries' opt"
  by (simp add: write_map_array_def Let_def less_Suc_eq_le split: array.splits list.splits)

lemma write_struct_array_cong [fundef_cong]:
  "cols = cols' \<Longrightarrow> (\<And>c opt. c \<in> set cols' \<Longrightarrow> wr c opt = wr' c opt) \<Longrightarrow>
   write_struct_array wr nb cols opt = write_struct_array wr' nb cols' opt"
  by (simp add: write_struct_array_def cong: out_all_cong)

function write_array :: "externals \<Rightarrow> array \<Rightarrow> transpose_opt \<Rightarrow> bytes result" where
  "write_array ext (NullArray n) opt = Inr []"
| "write_array ext (BooleanArray nb vals) opt = write_boolean_array nb vals"
| "write_array ext (PrimitiveArray dt nb vs) opt =
     (if serde_prim dt then write_primitive_array ext dt nb vs opt else Inl NotImplemented)"
| "write_array ext (ByteArray dt nb offs data) opt =
     (if dt = Utf8 \<or> dt = Binary then write_bytes_array ext nb offs data opt else Inl NotImplemented)"
| "write_array ext (ListArray field nb offs child) opt =
     write_list_array (write_array ext) ext field nb offs child opt"
| "write_array ext (MapArray field srt nb offs entries) opt =
     write_map_array (write_array ext) ext field srt nb offs entries opt"
| "write_array ext (StructArray fs nb n cols) opt = write_struct_array (write_array ext) nb cols opt"
| "write_array ext (DictionaryArray kt keys vals) opt = Inl NotImplemented"
  by pat_completeness auto
termination
  by (relation "measure (\<lambda>(ext, a, opt). depth a)") (auto simp: depth_column)

text \<open>Readers of the columns of a schema or of a struct, left to right.\<close>

fun rd_all :: "('a \<Rightarrow> 'b reader) \<Rightarrow> 'a list \<Rightarrow> 'b list reader" where
  "rd_all f [] = rd_return []"
| "rd_all f (x # xs) = rd_bind (f x) (\<lambda>y. rd_bind (rd_all f xs) (\<lambda>ys. rd_return (y # ys)))"

lemma rd_all_cong [fundef_cong]:
  "xs = ys \<Longrightarrow> (\<And>x. x \<in> set ys \<Longrightarrow> f x = g x) \<Longrightarrow> rd_all f xs = rd_all g ys"
  by (induction xs arbitrary: ys) auto

text \<open>A primitive reader yields the type constant of the Arrow type: no time zone.\<close>

fun stored_type :: "data_type \<Rightarrow> data_type" where
  "stored_type (Timestamp u _) = Timestamp u None"
| "stored_type (Decimal128 _ _) = Decimal128 38 10"
| "stored_type dt = dt"

text \<open>
  The readers of nested arrays; \<open>rd\<close> is \<open>read_array\<close> itself.  The entries of a map must have a
  struct type (\<open>unreachable!\<close> otherwise).
\<close>

definition read_list_array :: "(data_type \<Rightarrow> nat \<Rightarrow> transpose_opt \<Rightarrow> array reader) \<Rightarrow> externals \<Rightarrow> nat \<Rightarrow>
    data_type \<Rightarrow> transpose_opt \<Rightarrow> array reader" where
  "read_list_array rd ext num_rows field opt =
     rd_bind (read_nulls num_rows) (\<lambda>nb.
     rd_bind (read_offsets ext num_rows opt) (\<lambda>offs.
     rd_bind (let values_len = i32_as_usize (last offs)
              in rd field values_len (with_transpose values_len [field])) (\<lambda>child inp.
       res_map (\<lambda>a. (a, inp)) (ext_try_new ext (ListArray field nb offs child)))))"

definition read_map_array :: "(data_type \<Rightarrow> nat \<Rightarrow> transpose_opt \<Rightarrow> array reader) \<Rightarrow> externals \<Rightarrow> nat \<Rightarrow>
    data_type \<Rightarrow> bool \<Rightarrow> transpose_opt \<Rightarrow> array reader" where
  "read_map_array rd ext num_rows field srt opt =
     rd_bind (read_nulls num_rows) (\<lambda>nb.
     rd_bind (read_offsets ext num_rows opt) (\<lambda>offs.
       (case field of Struct fs \<Rightarrow>
          rd_bind (rd_all (\<lambda>f. rd f (i32_as_usize (last offs))
                     (with_transpose (i32_as_usize (last offs)) [field])) fs) (\<lambda>cols inp.
            res_bind (ext_try_new ext (StructArray fs None (i32_as_usize (last offs)) cols)) (\<lambda>entries.
              res_map (\<lambda>a. (a, inp)) (ext_try_new ext (MapArray field srt nb offs entries))))
        | _ \<Rightarrow> (\<lambda>_. Inl Panic))))"

definition read_struct_array :: "(data_type \<Rightarrow> nat \<Rightarrow> transpose_opt \<Rightarrow> array reader) \<Rightarrow> externals \<Rightarrow> nat \<Rightarrow>
    data_type list \<Rightarrow> transpose_opt \<Rightarrow> array reader" where
  "read_struct_array rd ext num_rows fs opt =
     rd_bind (read_nulls num_rows) (\<lambda>nb.
     rd_bind (rd_all (\<lambda>f. rd f num_rows opt) fs) (\<lambda>cols inp.
       res_map (\<lambda>a. (a, inp)) (ext_try_new ext (StructArray fs nb num_rows cols))))"

lemma read_list_array_cong [fundef_cong]:
  "field = field' \<Longrightarrow> (\<And>n opt. rd field' n opt = rd' field' n opt) \<Longrightarrow>
   read_list_array rd ext n field opt = read_list_array rd' ext n field' opt"
  by (simp add: read_list_array_def)

lemma read_map_array_cong [fundef_cong]:
  "field = field' \<Longrightarrow> (\<And>f n opt. size f < size field' \<Longrightarrow> rd f n opt = rd' f n opt) \<Longrightarrow>
   read_map_array rd ext n field srt opt = read_map_array rd' ext n field' srt opt"
proof -
  assume eq: "field = field'" and rd: "\<And>f n opt. size f < size field' \<Longrightarrow> rd f n opt = rd' f n opt"
  have "rd_all (\<lambda>f. rd f m opt) fs = rd_all (\<lambda>f. rd' f m opt) fs" if "field' = Struct fs" for fs m opt
    by (rule rd_all_cong [OF refl], rule rd) (simp add: that less_Suc_eq_le size_list_estimation')
  then show ?thesis unfolding read_map_array_def eq by (cases field') simp_all
qed

lemma read_struct_array_cong [fundef_cong]:
  "fs = fs' \<Longrightarrow> (\<And>f n opt. f \<in> set fs' \<Longrightarrow> rd f n opt = rd' f n opt) \<Longrightarrow>
   read_struct_array rd ext n fs opt = read_struct_array rd' ext n fs' opt"
  by (simp add: read_struct_array_def cong: rd_all_cong)

fun read_array :: "externals \<Rightarrow> data_type \<Rightarrow> nat \<Rightarrow> transpose_opt \<Rightarrow> array reader" where
  "read_array ext Null num_rows opt = rd_return (NullArray num_rows)"
| "read_array ext Boolean num_rows opt = read_boolean_array ext num_rows"
| "read_array ext (Decimal128 prec scale) num_rows opt =
     rd_bind (read_primitive_array ext (stored_type (Decimal128 prec scale)) num_rows opt) (\<lambda>a inp.
       res_map (\<lambda>a'. (a', inp)) (ext_with_precision_and_scale ext prec scale a))"
| "read_array ext Utf8 num_rows opt = read_bytes_array ext num_rows Utf8 opt"
| "read_array ext Binary num_rows opt = read_bytes_array ext num_rows Binary opt"
| "read_array ext (List field) num_rows opt = read_list_array (read_array ext) ext num_rows field opt"
| "read_array ext (Map field srt) num_rows opt = read_map_array (read_array ext) ext num_rows field srt opt"
| "read_array ext (Struct fs) num_rows opt = read_struct_array (read_array ext) ext num_rows fs opt"
| "read_array ext dt num_rows opt =
     (if serde_prim dt then read_primitive_array ext (stored_type dt) num_rows opt
      else (\<lambda>_. Inl NotImplemented))"

definition write_batch :: "externals \<Rightarrow> nat \<Rightarrow> array list \<Rightarrow> bytes result" where
  "write_batch ext num_rows cols =
     out_seq (Inr (write_len (of_nat num_rows)))
       (out_all (\<lambda>c. write_array ext c (with_transpose num_rows (map data_type_of cols))) cols)"

text \<open>End of input where the row count should be is the end of the stream, not an error.\<close>

definition read_batch :: "externals \<Rightarrow> data_type list \<Rightarrow> (nat \<times> array list) option reader" where
  "read_batch ext schema inp =
     (case read_len inp of
        Inl UnexpectedEof \<Rightarrow> Inr (None, inp)
      | Inl e \<Rightarrow> Inl e
      | Inr (n, inp') \<Rightarrow>
          (let num_rows = unat n in
           res_map (\<lambda>(cols, rest). (Some (num_rows, cols), rest))
             (rd_all (\<lambda>dt. read_array ext dt num_rows (with_transpose num_rows schema)) schema inp')))"

section \<open>What the external operations promise\<close>

text \<open>
  \<open>transpose\<close> of a flattened matrix of \<open>h\<close> rows of \<open>w\<close> entries is the flattened transposed
  matrix; \<open>try_new\<close> accepts a valid array; \<open>with_precision_and_scale\<close> relabels a decimal column
  with a legal precision and scale.
\<close>

definition transposes :: "(bytes \<Rightarrow> nat \<Rightarrow> nat \<Rightarrow> bytes) \<Rightarrow> bool" where
  "transposes t = (\<forall>raw w h. length raw = w * h \<longrightarrow>
     length (t raw w h) = w * h
     \<and> (\<forall>x < w. \<forall>y < h. t raw w h ! (x * h + y) = raw ! (y * w + x)))"

definition decimal_ok :: "nat \<Rightarrow> int \<Rightarrow> bool" where
  "decimal_ok prec scale =
     (1 \<le> prec \<and> prec \<le> 38 \<and> - 128 \<le> scale \<and> scale \<le> 38 \<and> (0 < scale \<longrightarrow> scale \<le> int prec))"

definition externals_ok :: "externals \<Rightarrow> bool" where
  "externals_ok ext =
     (transposes (ext_transpose ext)
      \<and> (\<forall>a. array_wf a \<longrightarrow> ext_try_new ext a = Inr a)
      \<and> (\<forall>prec scale nb vs. decimal_ok prec scale \<longrightarrow>
           ext_with_precision_and_scale ext prec scale (PrimitiveArray (Decimal128 38 10) nb vs)
           = Inr (PrimitiveArray (Decimal128 prec scale) nb vs)))"

section \<open>Lemmas\<close>

subsection \<open>Bits\<close>

lemma write_bits_loop_ok:
  assumes "\<forall>i \<in> set js. (off + i) div 8 < length buf \<and> i div 8 < length out"
  shows "\<exists>out'. write_bits_loop buf off js out = Inr out' \<and> length out' = length out
    \<and> (\<forall>k. k div 8 < length out \<longrightarrow>
         get_bit_raw out' k = (get_bit_raw out k \<or> k \<in> set js \<and> get_bit_raw buf (off + k)))"
  using assms
proof (induction js arbitrary: out)
  case (Cons i js)
  let ?out = "if get_bit_raw buf (off + i) then set_bit_raw out i else out"
  have len: "length ?out = length out" by (simp add: set_bit_raw_def)
  have "\<forall>j \<in> set js. (off + j) div 8 < length buf \<and> j div 8 < length ?out"
    using Cons.prems unfolding len by simp
  from Cons.IH [OF this] obtain out' where out':
    "write_bits_loop buf off js ?out = Inr out'" "length out' = length out"
    "\<forall>k. k div 8 < length out \<longrightarrow>
       get_bit_raw out' k = (get_bit_raw ?out k \<or> k \<in> set js \<and> get_bit_raw buf (off + k))"
    unfolding len by blast
  have "get_bit_raw out' k = (get_bit_raw out k \<or> k \<in> set (i # js) \<and> get_bit_raw buf (off + k))"
    if "k div 8 < length out" for k
    using out'(3) that Cons.prems get_set_bit_raw [of i out k] by auto
  with out'(1,2) Cons.prems show ?case by auto
qed simp

lemma write_bits_buffer_ok:
  assumes "bits_wf b"
  shows "\<exists>bs. write_bits_buffer b = Inr bs \<and> length bs = (bits_len b + 7) div 8
     \<and> bits_wf (bs, 0, bits_len b) \<and> bits_of (bs, 0, bits_len b) = bits_of b"
proof -
  obtain buf off n where b: "b = (buf, off, n)" by (cases b)
  let ?z = "replicate ((n + 7) div 8) (0 :: u8)"
  have "\<forall>i \<in> set [0..<n]. (off + i) div 8 < length buf \<and> i div 8 < length ?z"
    using assms b by auto
  from write_bits_loop_ok [OF this] obtain out where out:
    "write_bits_loop buf off [0..<n] ?z = Inr out" "length out = (n + 7) div 8"
    "\<forall>k. k div 8 < (n + 7) div 8 \<longrightarrow>
       get_bit_raw out k = (get_bit_raw ?z k \<or> k < n \<and> get_bit_raw buf (off + k))"
    by auto
  have "get_bit_raw out k = get_bit_raw buf (off + k)" if "k < n" for k
    using out(3) that by (auto simp: get_bit_raw_def)
  with out(1,2) b show ?thesis by auto
qed

subsection \<open>Transposed rows\<close>

lemma transpose_twice:
  assumes "transposes t" and len: "length raw = w * n"
  shows "length (t raw w n) = w * n" and "t (t raw w n) n w = raw"
proof -
  from assms show 1: "length (t raw w n) = w * n" unfolding transposes_def by blast
  then have 2: "length (t raw w n) = n * w" by (simp add: mult.commute)
  show "t (t raw w n) n w = raw"
  proof (rule nth_equalityI)
    show "length (t (t raw w n) n w) = length raw"
      using assms(1) 2 len unfolding transposes_def by (simp add: mult.commute)
    fix k
    assume "k < length (t (t raw w n) n w)"
    then have k: "k < n * w" using assms(1) 2 unfolding transposes_def by simp
    define y x where "y = k div w" and "x = k mod w"
    have w: "0 < w" using k by (cases w) auto
    have yx: "y < n" "x < w" "k = y * w + x"
      using k w by (auto simp: y_def x_def less_mult_imp_div_less)
    have "t (t raw w n) n w ! (y * w + x) = t raw w n ! (x * n + y)"
      using assms(1) 2 yx unfolding transposes_def by blast
    also have "\<dots> = raw ! (y * w + x)"
      using assms(1) len yx unfolding transposes_def by blast
    finally show "t (t raw w n) n w ! k = raw ! k" by (simp add: yx)
  qed
qed

text \<open>The scratch buffer is large enough for \<open>n\<close> rows of \<open>w\<close> bytes.\<close>

definition opt_fits :: "transpose_opt \<Rightarrow> nat \<Rightarrow> nat \<Rightarrow> bool" where
  "opt_fits opt w n = (case opt of Disabled \<Rightarrow> True | Transpose cap \<Rightarrow> w \<le> 1 \<or> w * n \<le> cap)"

definition same_mode :: "transpose_opt \<Rightarrow> transpose_opt \<Rightarrow> bool" where
  "same_mode opt opt' = ((opt = Disabled) = (opt' = Disabled))"

lemma transposed_roundtrip:
  assumes "transposes (ext_transpose ext)" and "length raw = w * n"
    and "opt_fits opt w n" and "opt_fits opt' w n" and "same_mode opt opt'"
  shows "\<exists>bs. write_transposed ext opt w n raw = Inr bs
    \<and> (\<forall>rest. read_transposed ext opt' w n (bs @ rest) = Inr (raw, rest))"
proof -
  note tr = transpose_twice [OF assms(1,2)]
  have rd: "read_exact (w * n) (raw @ rest) = Inr (raw, rest)"
    "read_exact (w * n) (ext_transpose ext raw w n @ rest) = Inr (ext_transpose ext raw w n, rest)"
    for rest
    using assms(2) tr by (simp_all add: read_exact_def)
  show ?thesis
    using assms(3-5) tr rd
    by (auto simp: write_transposed_def read_transposed_def opt_fits_def same_mode_def rd_bind_Inr
        split: transpose_opt.splits)
qed

subsection \<open>Validity bitmaps\<close>

definition same_nulls :: "nat \<Rightarrow> bit_buffer option \<Rightarrow> bit_buffer option \<Rightarrow> bool" where
  "same_nulls n nb nb' = (nulls_wf nb' n \<and> (\<forall>i < n. bit_valid nb' i = bit_valid nb i))"

lemma bits_of_nth: "i < bits_len b \<Longrightarrow> bits_of b ! i = bit_valid (Some b) i"
  by (cases b) (simp add: bit_valid_def)

lemma nulls_roundtrip:
  assumes "nulls_wf nb n"
  shows "\<exists>bs nb'. write_nulls nb = Inr bs \<and> same_nulls n nb nb'
    \<and> (\<forall>rest. read_nulls n (bs @ rest) = Inr (nb', rest))"
proof (cases nb)
  case None
  have "read_nulls n (write_len 0 @ rest) = Inr (None, rest)" for rest
    by (simp add: read_nulls_def rd_bind_def read_len_append)
  with None show ?thesis by (auto simp: write_nulls_def same_nulls_def nulls_wf_def)
next
  case (Some b)
  with assms have b: "bits_wf b" "bits_len b = n" by (auto simp: nulls_wf_def)
  from write_bits_buffer_ok [OF b(1)] obtain bs where bs:
    "write_bits_buffer b = Inr bs" "length bs = (n + 7) div 8" "bits_wf (bs, 0, n)"
    "bits_of (bs, 0, n) = bits_of b" unfolding b(2) by blast
  have "bit_valid (Some (bs, 0, n)) i = bit_valid (Some b) i" if "i < n" for i
    using bits_of_nth [of i "(bs, 0, n)"] bits_of_nth [of i b] bs(4) b(2) that
    by (simp del: bits_of.simps)
  then have same: "same_nulls n nb (Some (bs, 0, n))"
    using Some bs(3) by (simp add: same_nulls_def nulls_wf_def del: bits_wf.simps)
  have "read_nulls n ((write_len 1 @ bs) @ rest) = Inr (Some (bs, 0, n), rest)" for rest
    by (simp add: read_nulls_def rd_bind_def read_len_append read_bits_buffer_def
        read_bytes_slice_append bs(2) [symmetric])
  with Some bs(1) same show ?thesis
    by (intro exI [of _ "write_len 1 @ bs"] exI [of _ "Some (bs, 0, n)"])
      (simp add: write_nulls_def out_seq_def)
qed

subsection \<open>Offsets\<close>

definition rebased :: "int list \<Rightarrow> int list" where
  "rebased offs = map (\<lambda>v. v - hd offs) offs"

lemma length_offset_lens [simp]: "length (offset_lens offs) = length offs - 1"
  by (simp add: offset_lens_def)

lemma prefix_offsets_lens:
  "offs \<noteq> [] \<Longrightarrow> prefix_offsets (word_of_int c) (offset_lens offs @ [0])
     = map (\<lambda>v. word_of_int (v - hd offs + c)) offs"
proof (induction offs arbitrary: c)
  case (Cons v offs)
  show ?case
  proof (cases offs)
    case Nil
    then show ?thesis by (simp add: offset_lens_def)
  next
    case (Cons v' offs')
    have "offset_lens (v # offs) = word_of_int (v' - v) # offset_lens offs"
      using Cons by (simp add: offset_lens_def)
    moreover have "word_of_int c + word_of_int (v' - v) = (word_of_int (c + (v' - v)) :: u32)"
      by (simp add: wi_hom_syms)
    moreover have "prefix_offsets (word_of_int (c + (v' - v))) (offset_lens offs @ [0])
        = map (\<lambda>x. word_of_int (x - v' + (c + (v' - v)))) offs"
      using Cons.IH [of "c + (v' - v)"] Cons by simp
    ultimately show ?thesis by (simp add: algebra_simps)
  qed
qed simp

lemma sint_i32: "0 \<le> d \<Longrightarrow> d < 2 ^ 31 \<Longrightarrow> sint (word_of_int d :: u32) = d"
  by (simp add: sint_sbintrunc' signed_take_bit_int_eq_self)

lemma offsets_bounds:
  assumes "offsets_wf offs n" and "v \<in> set offs"
  shows "hd offs \<le> v" and "v \<le> last offs" and "v < 2 ^ 31"
proof -
  from assms obtain i where i: "i < length offs" "v = offs ! i" by (auto simp: in_set_conv_nth)
  with assms show "hd offs \<le> v"
    by (auto simp: offsets_wf_def hd_conv_nth intro!: sorted_nth_mono)
  from i assms show l: "v \<le> last offs"
    by (auto simp: offsets_wf_def last_conv_nth intro!: sorted_nth_mono)
  with assms show "v < 2 ^ 31" by (simp add: offsets_wf_def)
qed

lemma offsets_roundtrip:
  assumes "transposes (ext_transpose ext)" and wf: "offsets_wf offs m" and n: "n = length offs - 1"
    and "opt_fits opt 4 n" and "opt_fits opt' 4 n" and "same_mode opt opt'"
  shows "\<exists>bs. write_offsets ext offs opt = Inr bs
    \<and> (\<forall>rest. read_offsets ext n opt' (bs @ rest) = Inr (rebased offs, rest))"
proof -
  let ?raw = "concat (map (le_bytes 4) (offset_lens offs))"
  have ne: "offs \<noteq> []" using wf by (simp add: offsets_wf_def)
  have len: "length ?raw = 4 * n"
    using length_concat_const [of "map (le_bytes 4) (offset_lens offs)" 4] n by force
  from transposed_roundtrip [OF assms(1) len assms(4-6)] obtain bs where bs:
    "write_transposed ext opt 4 n ?raw = Inr bs"
    "\<And>rest. read_transposed ext opt' 4 n (bs @ rest) = Inr (?raw, rest)" by blast
  have "chunks_exact 4 ?raw = map (le_bytes 4) (offset_lens offs)"
    by (rule chunks_exact_concat) auto
  then have lens: "map of_le_bytes (chunks_exact 4 ?raw) = offset_lens offs"
    by (simp add: comp_def le_bytes_roundtrip)
  have val: "sint (word_of_int (v - hd offs) :: u32) = v - hd offs" if "v \<in> set offs" for v
    by (rule sint_i32) (use offsets_bounds [OF wf that] wf in \<open>auto simp: offsets_wf_def\<close>)
  have "map sint (prefix_offsets 0 (offset_lens offs @ [0])) = rebased offs"
    using prefix_offsets_lens [OF ne, of 0] val
    by (simp only: rebased_def map_map comp_def add_0_right of_int_0 cong: map_cong)
  with bs lens ne n show ?thesis
    by (auto simp: write_offsets_def read_offsets_def rd_bind_def)
qed

subsection \<open>Primitive values\<close>

lemma primitive_width_bounds: "primitive_width dt = Some w \<Longrightarrow> 1 \<le> w \<and> w \<le> 32"
  by (cases dt) auto

lemma prim_bytes_roundtrip:
  assumes "primitive_width dt = Some w" and "prim_in_range dt v"
  shows "prim_of_bytes dt w (prim_bytes w v) = v"
proof -
  have w: "1 \<le> w" "w \<le> 32" using primitive_width_bounds [OF assms(1)] by auto
  have u: "uint (of_le_bytes (prim_bytes w v) :: 256 word) = take_bit (8 * w) v"
    using w by (simp add: prim_bytes_def of_le_bytes_le_bytes unsigned_take_bit_eq uint_word_of_int_eq
        take_bit_take_bit min_absorb1)
  show ?thesis
  proof (cases "signed_type dt")
    case True
    with assms have "- (2 ^ (8 * w - 1)) \<le> v" "v < 2 ^ (8 * w - 1)"
      by (auto simp: prim_in_range_def)
    moreover have "\<not> 8 * w \<le> 8 * w - 1" using w by linarith
    ultimately show ?thesis
      using True by (simp add: prim_of_bytes_def u signed_take_bit_take_bit signed_take_bit_int_eq_self)
  next
    case False
    with assms have "0 \<le> v" "v < 2 ^ (8 * w)" by (auto simp: prim_in_range_def)
    with False show ?thesis by (simp add: prim_of_bytes_def u take_bit_int_eq_self)
  qed
qed

lemma prims_roundtrip:
  assumes "primitive_width dt = Some w" and "\<forall>v \<in> set vs. prim_in_range dt v"
  shows "map (prim_of_bytes dt w) (chunks_exact w (concat (map (prim_bytes w) vs))) = vs"
proof -
  have "0 < w" using primitive_width_bounds [OF assms(1)] by simp
  then have "chunks_exact w (concat (map (prim_bytes w) vs)) = map (prim_bytes w) vs"
    by (rule chunks_exact_concat) (auto simp: prim_bytes_def)
  then show ?thesis
    using assms by (simp add: prim_bytes_roundtrip map_idI)
qed

subsection \<open>Slices\<close>

text \<open>The types that survive a round trip unchanged.\<close>

fun serde_type :: "data_type \<Rightarrow> bool" where
  "serde_type Null = True"
| "serde_type Boolean = True"
| "serde_type Utf8 = True"
| "serde_type Binary = True"
| "serde_type (Decimal128 prec scale) = decimal_ok prec scale"
| "serde_type (Timestamp _ tz) = (tz = None)"
| "serde_type (List field) = serde_type field"
| "serde_type (Map field _) = serde_type field"
| "serde_type (Struct fs) = (\<forall>f \<in> set fs. serde_type f)"
| "serde_type (Dictionary _ _) = False"
| "serde_type dt = serde_prim dt"

lemma bits_slice_simp [simp]: "bits_slice off len (bs, o', n) = (bs, o' + off, len)"
  by (simp add: bits_slice_def)

lemma data_type_of_slice [simp]: "data_type_of (array_slice off len a) = data_type_of a"
  by (induction a) simp_all

lemma bit_valid_slice [simp]: "bit_valid (map_option (bits_slice off len) nb) i = bit_valid nb (off + i)"
  by (cases nb) (auto simp: bit_valid_def bits_slice_def add.assoc)

lemma nulls_wf_slice: "nulls_wf nb n \<Longrightarrow> off + len \<le> n \<Longrightarrow> nulls_wf (map_option (bits_slice off len) nb) len"
  by (cases nb) (auto simp: nulls_wf_def bits_slice_def)

lemma offset_at_slice:
  "i \<le> len \<Longrightarrow> off + i < length offs \<Longrightarrow> offset_at (take (Suc len) (drop off offs)) i = offset_at offs (off + i)"
  by (simp add: offset_at_def)

lemma offsets_wf_slice:
  assumes "offsets_wf offs n" and "off + len < length offs"
  shows "offsets_wf (take (Suc len) (drop off offs)) n"
proof -
  let ?o = "take (Suc len) (drop off offs)"
  have ne: "?o \<noteq> []" using assms(2) by simp
  have "set ?o \<subseteq> set offs" by (metis set_take_subset set_drop_subset subset_trans)
  then have mem: "hd ?o \<in> set offs" "last ?o \<in> set offs"
    using hd_in_set [OF ne] last_in_set [OF ne] by blast+
  have "0 \<le> hd ?o" using offsets_bounds(1) [OF assms(1) mem(1)] assms(1) by (simp add: offsets_wf_def)
  moreover have "last ?o \<le> int n" "last ?o < 2 ^ 31"
    using offsets_bounds(2,3) [OF assms(1) mem(2)] assms(1) by (auto simp: offsets_wf_def)
  moreover have "sorted ?o" using assms(1) by (simp add: offsets_wf_def sorted_wrt_take sorted_wrt_drop)
  ultimately show ?thesis using ne unfolding offsets_wf_def by blast
qed

lemma bytes_value_slice:
  "i < len \<Longrightarrow> off + len < length offs \<Longrightarrow>
   bytes_value (take (Suc len) (drop off offs)) data i = bytes_value offs data (off + i)"
  by (simp add: bytes_value_def offset_at_slice del: take_Suc)

lemma slice_room: "offsets_wf offs n \<Longrightarrow> off + len \<le> length offs - 1 \<Longrightarrow> off + len < length offs"
  by (cases offs) (simp_all add: offsets_wf_def)

lemma array_slice_wf:
  "array_wf a \<Longrightarrow> serde_type (data_type_of a) \<Longrightarrow> off + len \<le> array_len a \<Longrightarrow>
   array_wf (array_slice off len a) \<and> array_len (array_slice off len a) = len"
proof (induction a)
  case (BooleanArray nb vals)
  then show ?case by (cases vals) (auto simp: nulls_wf_slice)
next
  case (PrimitiveArray dt nb vs)
  then show ?case by (auto simp: nulls_wf_slice dest: in_set_takeD in_set_dropD)
next
  case (ByteArray dt nb offs data)
  then have lt: "off + len < length offs" by (auto intro: slice_room)
  with ByteArray show ?case
    by (auto simp: nulls_wf_slice offsets_wf_slice bytes_value_slice simp del: take_Suc)
next
  case (ListArray field nb offs child)
  then have lt: "off + len < length offs" by (auto intro: slice_room)
  with ListArray show ?case
    by (auto simp: nulls_wf_slice offsets_wf_slice simp del: take_Suc)
next
  case (MapArray field srt nb offs entries)
  then have lt: "off + len < length offs" by (auto intro: slice_room)
  with MapArray show ?case
    by (auto simp: nulls_wf_slice offsets_wf_slice simp del: take_Suc)
next
  case (StructArray fs nb n cols)
  then show ?case by (auto simp: nulls_wf_slice)
qed auto

lemma cell_slice:
  "array_wf a \<Longrightarrow> serde_type (data_type_of a) \<Longrightarrow> off + len \<le> array_len a \<Longrightarrow> i < len \<Longrightarrow>
   cell (array_slice off len a) i = cell a (off + i)"
proof (induction a)
  case (BooleanArray nb vals)
  then show ?case by (cases vals) (auto simp: add.assoc)
next
  case (ByteArray dt nb offs data)
  then have lt: "off + len < length offs" by (auto intro: slice_room)
  with ByteArray show ?case by (simp add: bytes_value_slice del: take_Suc)
next
  case (ListArray field nb offs child)
  then have lt: "off + len < length offs" by (auto intro: slice_room)
  with ListArray show ?case by (simp add: offset_at_slice del: take_Suc)
next
  case (MapArray field srt nb offs entries)
  then have lt: "off + len < length offs" by (auto intro: slice_room)
  with MapArray show ?case by (simp add: offset_at_slice del: take_Suc)
qed auto

subsection \<open>Scratch buffers\<close>

definition opt_ok :: "transpose_opt \<Rightarrow> nat \<Rightarrow> data_type \<Rightarrow> bool" where
  "opt_ok opt n dt = (case opt of Disabled \<Rightarrow> True | Transpose cap \<Rightarrow> n * data_type_bytes_width dt \<le> cap)"

lemma width_of_primitive:
  "primitive_width dt = Some w \<Longrightarrow> data_type_bytes_width dt = (if w = 1 then 0 else w)"
  by (cases dt) auto

lemma opt_ok_primitive: "primitive_width dt = Some w \<Longrightarrow> opt_ok opt n dt \<Longrightarrow> opt_fits opt w n"
  by (auto simp: opt_ok_def opt_fits_def width_of_primitive mult.commute
      split: transpose_opt.splits if_splits)

lemma opt_ok_width: "w \<le> data_type_bytes_width dt \<Longrightarrow> opt_ok opt n dt \<Longrightarrow> opt_fits opt w n"
proof (cases opt)
  case (Transpose cap)
  assume "w \<le> data_type_bytes_width dt" "opt_ok opt n dt"
  then have "n * w \<le> cap"
    using Transpose by (auto simp: opt_ok_def intro: le_trans [OF mult_le_mono2])
  with Transpose show ?thesis by (simp add: opt_fits_def mult.commute)
qed (simp add: opt_fits_def)

lemma opt_ok_mono:
  "data_type_bytes_width f \<le> data_type_bytes_width dt \<Longrightarrow> opt_ok opt n dt \<Longrightarrow> opt_ok opt n f"
  by (auto simp: opt_ok_def split: transpose_opt.splits intro: le_trans [OF mult_le_mono2])

lemma opt_ok_with_transpose: "dt \<in> set dts \<Longrightarrow> opt_ok (with_transpose n dts) n dt"
  by (simp add: opt_ok_def with_transpose_def fold_max_ge)

lemma width_of_field: "f \<in> set fs \<Longrightarrow> data_type_bytes_width f \<le> data_type_bytes_width (Struct fs)"
  by (simp add: fold_max_ge)

lemma same_mode_with_transpose [simp]: "same_mode (with_transpose n dts) (with_transpose m dts')"
  by (simp add: same_mode_def with_transpose_def)

subsection \<open>Offsets after a round trip\<close>

lemma i32_as_usize_nat: "0 \<le> v \<Longrightarrow> v < 2 ^ 31 \<Longrightarrow> i32_as_usize v = nat v"
  by (simp add: i32_as_usize_def uint_word_of_int_eq take_bit_int_eq_self)

lemma offsets_ends:
  assumes "offsets_wf offs n"
  shows "i32_as_usize (hd offs) = offset_at offs 0"
    and "i32_as_usize (last offs) = offset_at offs (length offs - 1)"
    and "offset_at offs 0 \<le> offset_at offs (length offs - 1)"
    and "offset_at offs (length offs - 1) \<le> n"
proof -
  have ne: "offs \<noteq> []" using assms by (simp add: offsets_wf_def)
  have b: "0 \<le> hd offs" "hd offs < 2 ^ 31" "0 \<le> last offs" "last offs < 2 ^ 31"
    using assms offsets_bounds [OF assms hd_in_set [OF ne]] offsets_bounds [OF assms last_in_set [OF ne]]
    by (auto simp: offsets_wf_def)
  then show "i32_as_usize (hd offs) = offset_at offs 0"
    and "i32_as_usize (last offs) = offset_at offs (length offs - 1)"
    using ne by (simp_all add: i32_as_usize_nat offset_at_def hd_conv_nth last_conv_nth)
  show "offset_at offs 0 \<le> offset_at offs (length offs - 1)"
    by (rule offset_at_mono [OF assms]) (use ne in auto)
  show "offset_at offs (length offs - 1) \<le> n"
    by (rule offset_at_le [OF assms]) (use ne in auto)
qed

lemma rebased_wf:
  assumes "offsets_wf offs n" and "m = offset_at offs (length offs - 1) - offset_at offs 0"
  shows "offsets_wf (rebased offs) m" and "i32_as_usize (last (rebased offs)) = m"
    and "length (rebased offs) = length offs"
proof -
  have ne: "offs \<noteq> []" using assms by (simp add: offsets_wf_def)
  have nn: "0 \<le> hd offs" "hd offs \<le> last offs" "last offs < 2 ^ 31"
    using assms offsets_bounds(1) [OF assms(1) last_in_set [OF ne]] by (auto simp: offsets_wf_def)
  then have m: "int m = last offs - hd offs"
    using assms(2) ne by (simp add: offset_at_def hd_conv_nth last_conv_nth)
  have l: "last (rebased offs) = last offs - hd offs"
    using ne by (simp add: rebased_def last_map)
  have srt: "sorted (rebased offs)"
    using assms(1) by (simp add: offsets_wf_def rebased_def sorted_map sorted_wrt_map)
  show "offsets_wf (rebased offs) m"
    using ne srt m l nn by (simp add: offsets_wf_def hd_map) (simp add: rebased_def hd_map)
  show "i32_as_usize (last (rebased offs)) = m"
    using nn m by (simp add: l i32_as_usize_nat nat_eq_iff)
  show "length (rebased offs) = length offs" by (simp add: rebased_def)
qed

lemma offset_at_rebased:
  assumes "offsets_wf offs n" and "i < length offs"
  shows "offset_at (rebased offs) i = offset_at offs i - offset_at offs 0"
    and "offset_at offs 0 \<le> offset_at offs i"
proof -
  have "offs \<noteq> []" "0 \<le> hd offs" using assms by (auto simp: offsets_wf_def)
  then show "offset_at (rebased offs) i = offset_at offs i - offset_at offs 0"
    using assms(2) by (simp add: offset_at_def rebased_def hd_conv_nth nat_diff_distrib)
  show "offset_at offs 0 \<le> offset_at offs i"
    by (rule offset_at_mono [OF assms(1)]) (use assms(2) in auto)
qed

lemma map_shifted_upt:
  "b \<le> x \<Longrightarrow> (\<And>j. j < y - b \<Longrightarrow> f j = g (b + j)) \<Longrightarrow> map f [x - b..<y - b] = map g [x..<y]"
  by (rule nth_equalityI) auto

subsection \<open>Arrays\<close>

definition same_rows :: "array \<Rightarrow> array \<Rightarrow> bool" where
  "same_rows a a' = (array_wf a' \<and> data_type_of a' = data_type_of a \<and> array_len a' = array_len a
     \<and> (\<forall>i < array_len a. cell a' i = cell a i))"

text \<open>Writing succeeds, and reading the bytes back in front of anything gives the same rows.\<close>

definition survives :: "externals \<Rightarrow> transpose_opt \<Rightarrow> transpose_opt \<Rightarrow> array \<Rightarrow> bool" where
  "survives ext opt opt' a = (\<exists>bs a'. write_array ext a opt = Inr bs \<and> same_rows a a'
     \<and> (\<forall>rest. read_array ext (data_type_of a) (array_len a) opt' (bs @ rest) = Inr (a', rest)))"

lemma survivesI:
  "write_array ext a opt = Inr bs \<Longrightarrow> same_rows a a' \<Longrightarrow>
   (\<And>rest. read_array ext (data_type_of a) (array_len a) opt' (bs @ rest) = Inr (a', rest)) \<Longrightarrow>
   survives ext opt opt' a"
  by (auto simp: survives_def)

lemma externalsD:
  assumes "externals_ok ext"
  shows "transposes (ext_transpose ext)" and "array_wf a \<Longrightarrow> ext_try_new ext a = Inr a"
    and "decimal_ok prec scale \<Longrightarrow>
      ext_with_precision_and_scale ext prec scale (PrimitiveArray (Decimal128 38 10) nb vs)
      = Inr (PrimitiveArray (Decimal128 prec scale) nb vs)"
  using assms by (auto simp: externals_ok_def)

lemma survives_null: "survives ext opt opt' (NullArray n)"
  by (rule survivesI [of _ _ _ "[]" "NullArray n"]) (simp_all add: same_rows_def)

lemma survives_boolean:
  assumes "externals_ok ext" and "array_wf (BooleanArray nb vals)"
  shows "survives ext opt opt' (BooleanArray nb vals)"
proof -
  let ?n = "bits_len vals"
  have wf: "nulls_wf nb ?n" "bits_wf vals" using assms(2) by auto
  from nulls_roundtrip [OF wf(1)] obtain b1 nb' where nb':
    "write_nulls nb = Inr b1" "same_nulls ?n nb nb'"
    "\<And>rest. read_nulls ?n (b1 @ rest) = Inr (nb', rest)" by blast
  from write_bits_buffer_ok [OF wf(2)] obtain b2 where b2:
    "write_bits_buffer vals = Inr b2" "length b2 = (?n + 7) div 8" "bits_wf (b2, 0, ?n)"
    "bits_of (b2, 0, ?n) = bits_of vals" by blast
  let ?a = "BooleanArray nb' (b2, 0, ?n)"
  obtain buf off n where vals: "vals = (buf, off, n)" by (cases vals)
  have bits: "get_bit_raw b2 i = get_bit_raw buf (off + i)" if "i < n" for i
    using b2(4) that vals by (auto simp: list_eq_iff_nth_eq)
  have wf': "array_wf ?a" using nb'(2) b2(3) by (simp add: same_nulls_def del: bits_wf.simps)
  have same: "same_rows (BooleanArray nb vals) ?a"
    using nb'(2) wf' bits by (auto simp: same_rows_def same_nulls_def vals simp del: array_wf.simps)
  show ?thesis
  proof (rule survivesI [OF _ same])
    show "write_array ext (BooleanArray nb vals) opt = Inr (b1 @ b2)"
      by (simp add: write_boolean_array_def out_seq_def nb' b2)
    show "read_array ext (data_type_of (BooleanArray nb vals)) (array_len (BooleanArray nb vals)) opt'
        ((b1 @ b2) @ rest) = Inr (?a, rest)" for rest
      by (simp add: read_boolean_array_def rd_bind_def nb' read_bits_buffer_def b2(2) [symmetric]
          read_bytes_slice_append externalsD(2) [OF assms(1) wf'] del: array_wf.simps)
  qed
qed

lemma primitive_roundtrip:
  assumes "externals_ok ext" and "primitive_width dt = Some w" and "primitive_width dt' = Some w"
    and "signed_type dt' = signed_type dt"
    and "array_wf (PrimitiveArray dt nb vs)" and "n = length vs"
    and "opt_fits opt w n" and "opt_fits opt' w n" and "same_mode opt opt'"
  shows "\<exists>bs nb'. write_primitive_array ext dt nb vs opt = Inr bs \<and> same_nulls n nb nb'
    \<and> (\<forall>rest. read_primitive_array ext dt' n opt' (bs @ rest) = Inr (PrimitiveArray dt' nb' vs, rest))"
proof -
  have wf: "nulls_wf nb n" "\<forall>v \<in> set vs. prim_in_range dt v" using assms(5,6) by auto
  have wf2: "\<forall>v \<in> set vs. prim_in_range dt' v"
    using wf(2) assms(2-4) by (simp add: prim_in_range_def)
  from nulls_roundtrip [OF wf(1)] obtain b1 nb' where nb':
    "write_nulls nb = Inr b1" "same_nulls n nb nb'"
    "\<And>rest. read_nulls n (b1 @ rest) = Inr (nb', rest)" by blast
  let ?raw = "concat (map (prim_bytes w) vs)"
  have len: "length ?raw = w * n"
    using length_concat_const [of "map (prim_bytes w) vs" w] assms(6) by (force simp: prim_bytes_def)
  from transposed_roundtrip [OF externalsD(1) [OF assms(1)] len assms(7-9)] obtain b2 where b2:
    "write_transposed ext opt w n ?raw = Inr b2"
    "\<And>rest. read_transposed ext opt' w n (b2 @ rest) = Inr (?raw, rest)" by blast
  have wf': "array_wf (PrimitiveArray dt' nb' vs)"
    using nb'(2) wf2 assms(3,6) by (simp add: same_nulls_def)
  have "write_primitive_array ext dt nb vs opt = Inr (b1 @ b2)"
    using assms(2,6) b2(1) by (simp add: write_primitive_array_def out_seq_def nb')
  moreover have "read_primitive_array ext dt' n opt' ((b1 @ b2) @ rest)
      = Inr (PrimitiveArray dt' nb' vs, rest)" for rest
    using prims_roundtrip [OF assms(3) wf2] externalsD(2) [OF assms(1) wf']
    by (simp add: read_primitive_array_def assms(3) rd_bind_def nb' b2 del: array_wf.simps)
  ultimately show ?thesis using nb'(2) by blast
qed

lemma same_rows_primitive:
  assumes "array_wf (PrimitiveArray dt nb vs)" and "same_nulls (length vs) nb nb'"
  shows "same_rows (PrimitiveArray dt nb vs) (PrimitiveArray dt nb' vs)"
  using assms by (auto simp: same_rows_def same_nulls_def)

lemma read_array_other:
  "primitive_width dt \<noteq> None \<Longrightarrow> serde_type dt \<Longrightarrow> (\<And>p s. dt \<noteq> Decimal128 p s) \<Longrightarrow>
   read_array ext dt n opt = read_primitive_array ext dt n opt \<and> serde_prim dt"
  by (cases dt) (auto simp: serde_prim_def)

lemma survives_primitive:
  assumes "externals_ok ext" and wf: "array_wf (PrimitiveArray dt nb vs)" and "serde_type dt"
    and "opt_ok opt (length vs) dt" and "opt_ok opt' (length vs) dt" and "same_mode opt opt'"
  shows "survives ext opt opt' (PrimitiveArray dt nb vs)"
proof -
  obtain w where w: "primitive_width dt = Some w" using wf by auto
  have fits: "opt_fits opt w (length vs)" "opt_fits opt' w (length vs)"
    using opt_ok_primitive [OF w] assms(4,5) by blast+
  show ?thesis
  proof (cases "\<exists>p s. dt = Decimal128 p s")
    case False
    from primitive_roundtrip [OF assms(1) w w refl wf refl fits assms(6)] obtain bs nb' where rt:
      "write_primitive_array ext dt nb vs opt = Inr bs" "same_nulls (length vs) nb nb'"
      "\<And>rest. read_primitive_array ext dt (length vs) opt' (bs @ rest) = Inr (PrimitiveArray dt nb' vs, rest)"
      by blast
    have "read_array ext dt (length vs) opt' = read_primitive_array ext dt (length vs) opt'" "serde_prim dt"
      using read_array_other [of dt ext "length vs" opt'] w assms(3) False by auto
    with rt show ?thesis
      by (intro survivesI [OF _ same_rows_primitive [OF wf rt(2)]]) simp_all
  next
    case True
    then obtain p sc where dt: "dt = Decimal128 p sc" by blast
    have w': "primitive_width (Decimal128 38 10) = Some w" using w dt by simp
    from primitive_roundtrip [OF assms(1) w w' _ wf refl fits assms(6)] dt obtain bs nb' where rt:
      "write_primitive_array ext dt nb vs opt = Inr bs" "same_nulls (length vs) nb nb'"
      "\<And>rest. read_primitive_array ext (Decimal128 38 10) (length vs) opt' (bs @ rest)
         = Inr (PrimitiveArray (Decimal128 38 10) nb' vs, rest)"
      by auto
    show ?thesis
    proof (rule survivesI [OF _ same_rows_primitive [OF wf rt(2)]])
      show "write_array ext (PrimitiveArray dt nb vs) opt = Inr bs"
        using rt(1) dt by (simp add: serde_prim_def)
      show "read_array ext (data_type_of (PrimitiveArray dt nb vs)) (array_len (PrimitiveArray dt nb vs))
          opt' (bs @ rest) = Inr (PrimitiveArray dt nb' vs, rest)" for rest
        using rt(3) [of rest] assms(3) by (simp add: dt rd_bind_def externalsD(3) [OF assms(1)])
    qed
  qed
qed

lemma bytes_value_rebased:
  assumes "offsets_wf offs (length data)" and "i < length offs - 1"
    and "m = offset_at offs (length offs - 1) - offset_at offs 0"
  shows "bytes_value (rebased offs) (take m (drop (offset_at offs 0) data)) i = bytes_value offs data i"
proof -
  have i: "i < length offs" "i + 1 < length offs" using assms(2) by auto
  have le: "offset_at offs 0 \<le> offset_at offs i" "offset_at offs i \<le> offset_at offs (i + 1)"
    "offset_at offs (i + 1) \<le> offset_at offs (length offs - 1)"
    by (rule offset_at_mono [OF assms(1)]; use i in simp)+
  have "min (offset_at offs (i + 1) - offset_at offs i) (m - (offset_at offs i - offset_at offs 0))
      = offset_at offs (i + 1) - offset_at offs i"
    using le assms(3) by linarith
  moreover have "offset_at offs (i + 1) - offset_at offs 0 - (offset_at offs i - offset_at offs 0)
      = offset_at offs (i + 1) - offset_at offs i"
    using le by linarith
  ultimately show ?thesis
    using le(1) offset_at_rebased(1) [OF assms(1) i(1)] offset_at_rebased(1) [OF assms(1) i(2)]
    by (simp add: bytes_value_def drop_take)
qed

lemma survives_bytes:
  assumes "externals_ok ext" and wf: "array_wf (ByteArray dt nb offs data)" and dt: "dt = Utf8 \<or> dt = Binary"
    and "opt_ok opt (length offs - 1) dt" and "opt_ok opt' (length offs - 1) dt" and "same_mode opt opt'"
  shows "survives ext opt opt' (ByteArray dt nb offs data)"
proof -
  let ?n = "length offs - 1"
  define m where "m = offset_at offs ?n - offset_at offs 0"
  let ?data = "take m (drop (offset_at offs 0) data)"
  have wf': "nulls_wf nb ?n" "offsets_wf offs (length data)" using wf by auto
  have fits: "opt_fits opt 4 ?n" "opt_fits opt' 4 ?n"
    using dt opt_ok_width [OF _ assms(4), of 4] opt_ok_width [OF _ assms(5), of 4] by auto
  from nulls_roundtrip [OF wf'(1)] obtain b1 nb' where nb':
    "write_nulls nb = Inr b1" "same_nulls ?n nb nb'"
    "\<And>rest. read_nulls ?n (b1 @ rest) = Inr (nb', rest)" by blast
  from offsets_roundtrip [OF externalsD(1) [OF assms(1)] wf'(2) refl fits assms(6)] obtain b2 where b2:
    "write_offsets ext offs opt = Inr b2"
    "\<And>rest. read_offsets ext ?n opt' (b2 @ rest) = Inr (rebased offs, rest)" by blast
  note ends = offsets_ends [OF wf'(2)]
  note reb = rebased_wf [OF wf'(2) m_def]
  have len: "length ?data = m" using ends(3,4) m_def by simp
  have val: "bytes_value (rebased offs) ?data i = bytes_value offs data i" if "i < ?n" for i
    using bytes_value_rebased [OF wf'(2) that m_def] .
  let ?a = "ByteArray dt nb' (rebased offs) ?data"
  have awf: "array_wf ?a"
    using nb'(2) reb len dt wf val by (auto simp: same_nulls_def)
  have same: "same_rows (ByteArray dt nb offs data) ?a"
    using nb'(2) awf val reb(3) by (auto simp: same_rows_def same_nulls_def simp del: array_wf.simps)
  show ?thesis
  proof (rule survivesI [OF _ same])
    show "write_array ext (ByteArray dt nb offs data) opt = Inr (b1 @ b2 @ ?data)"
      using dt ends by (simp add: write_bytes_array_def out_seq_def nb' b2 Let_def m_def)
    show "read_array ext (data_type_of (ByteArray dt nb offs data)) (array_len (ByteArray dt nb offs data))
        opt' ((b1 @ b2 @ ?data) @ rest) = Inr (?a, rest)" for rest
    proof -
      have "read_bytes_slice m (?data @ rest) = Inr (?data, rest)"
        using len by (simp add: read_bytes_slice_append)
      moreover have "read_array ext dt ?n opt' = read_bytes_array ext ?n dt opt'" using dt by auto
      ultimately show ?thesis
        using nb'(3) b2(2) externalsD(2) [OF assms(1) awf]
        by (simp add: read_bytes_array_def rd_bind_def reb(2) del: array_wf.simps)
    qed
  qed
qed

lemma same_rows_slice:
  assumes "array_wf a" and "serde_type (data_type_of a)" and "off + len \<le> array_len a"
    and "same_rows (array_slice off len a) a'"
  shows "array_wf a'" and "data_type_of a' = data_type_of a" and "array_len a' = len"
    and "\<And>i. i < len \<Longrightarrow> cell a' i = cell a (off + i)"
  using assms array_slice_wf [OF assms(1-3)] cell_slice [OF assms(1-3)]
  by (auto simp: same_rows_def)

lemma survives_list:
  assumes "externals_ok ext" and wf: "array_wf (ListArray field nb offs child)" and st: "serde_type field"
    and "opt_ok opt (length offs - 1) (List field)" and "opt_ok opt' (length offs - 1) (List field)"
    and "same_mode opt opt'"
    and IH: "\<And>off len. off + len \<le> array_len child \<Longrightarrow>
      survives ext (with_transpose len [field]) (with_transpose len [field]) (array_slice off len child)"
  shows "survives ext opt opt' (ListArray field nb offs child)"
proof -
  let ?n = "length offs - 1"
  define beg m where "beg = offset_at offs 0" and "m = offset_at offs ?n - offset_at offs 0"
  have wf': "nulls_wf nb ?n" "offsets_wf offs (array_len child)" "array_wf child"
    "data_type_of child = field" using wf by auto
  have fits: "opt_fits opt 4 ?n" "opt_fits opt' 4 ?n"
    using opt_ok_width [OF _ assms(4), of 4] opt_ok_width [OF _ assms(5), of 4] by simp_all
  from nulls_roundtrip [OF wf'(1)] obtain b1 nb' where nb':
    "write_nulls nb = Inr b1" "same_nulls ?n nb nb'"
    "\<And>rest. read_nulls ?n (b1 @ rest) = Inr (nb', rest)" by blast
  from offsets_roundtrip [OF externalsD(1) [OF assms(1)] wf'(2) refl fits assms(6)] obtain b2 where b2:
    "write_offsets ext offs opt = Inr b2"
    "\<And>rest. read_offsets ext ?n opt' (b2 @ rest) = Inr (rebased offs, rest)" by blast
  note ends = offsets_ends [OF wf'(2)]
  note reb = rebased_wf [OF wf'(2) m_def]
  have room: "beg + m \<le> array_len child" using ends(3,4) by (simp add: m_def beg_def)
  have stc: "serde_type (data_type_of child)" using st wf'(4) by simp
  from IH [OF room] obtain b3 child' where c:
    "write_array ext (array_slice beg m child) (with_transpose m [field]) = Inr b3"
    "same_rows (array_slice beg m child) child'"
    "\<And>rest. read_array ext field m (with_transpose m [field]) (b3 @ rest) = Inr (child', rest)"
    using array_slice_wf [OF wf'(3) stc room] wf'(4) by (auto simp: survives_def)
  note ch = same_rows_slice [OF wf'(3) stc room c(2)]
  let ?a = "ListArray field nb' (rebased offs) child'"
  have awf: "array_wf ?a" using nb'(2) reb ch wf'(4) by (auto simp: same_nulls_def)
  have cells: "map (cell child') [offset_at (rebased offs) i..<offset_at (rebased offs) (i + 1)]
      = map (cell child) [offset_at offs i..<offset_at offs (i + 1)]" if "i < ?n" for i
  proof -
    have i: "i < length offs" "i + 1 < length offs" using that by auto
    have "offset_at offs (i + 1) \<le> offset_at offs ?n"
      by (rule offset_at_mono [OF wf'(2)]) (use i in simp_all)
    then have "cell child' j = cell child (beg + j)" if "j < offset_at offs (i + 1) - beg" for j
      using ch(4) that by (simp add: m_def beg_def)
    from map_shifted_upt [OF offset_at_rebased(2) [OF wf'(2) i(1)], of "offset_at offs (i + 1)"
        "cell child'" "cell child"] this
    show ?thesis
      using offset_at_rebased(1) [OF wf'(2) i(1)] offset_at_rebased(1) [OF wf'(2) i(2)]
      by (simp add: beg_def)
  qed
  have same: "same_rows (ListArray field nb offs child) ?a"
    using nb'(2) awf cells reb(3) by (auto simp: same_rows_def same_nulls_def simp del: array_wf.simps)
  show ?thesis
  proof (rule survivesI [OF _ same])
    show "write_array ext (ListArray field nb offs child) opt = Inr (b1 @ b2 @ b3)"
      using ends c(1) by (simp add: write_list_array_def out_seq_def nb' b2 Let_def m_def beg_def)
    show "read_array ext (data_type_of (ListArray field nb offs child))
        (array_len (ListArray field nb offs child)) opt' ((b1 @ b2 @ b3) @ rest) = Inr (?a, rest)" for rest
      using nb'(3) b2(2) c(3) externalsD(2) [OF assms(1) awf]
      by (simp add: read_list_array_def rd_bind_def reb(2) Let_def del: array_wf.simps)
  qed
qed

text \<open>Columns one after the other, as in structs, map entries and batches.\<close>

lemma columns_roundtrip:
  assumes "\<forall>c \<in> set cols. survives ext opt opt' c \<and> array_len c = n"
  shows "\<exists>bs cols'. out_all (\<lambda>c. write_array ext c opt) cols = Inr bs \<and> list_all2 same_rows cols cols'
    \<and> (\<forall>rest. rd_all (\<lambda>f. read_array ext f n opt') (map data_type_of cols) (bs @ rest) = Inr (cols', rest))"
  using assms
proof (induction cols)
  case (Cons c cols)
  then obtain bs cols' where rest:
    "out_all (\<lambda>c. write_array ext c opt) cols = Inr bs" "list_all2 same_rows cols cols'"
    "\<And>rest. rd_all (\<lambda>f. read_array ext f n opt') (map data_type_of cols) (bs @ rest) = Inr (cols', rest)"
    by auto
  from Cons.prems obtain b c' where c:
    "write_array ext c opt = Inr b" "same_rows c c'"
    "\<And>rest. read_array ext (data_type_of c) n opt' (b @ rest) = Inr (c', rest)"
    by (auto simp: survives_def)
  show ?case
    by (rule exI [of _ "b @ bs"], rule exI [of _ "c' # cols'"])
      (simp add: rest c out_seq_def rd_bind_def)
qed simp

lemma same_rows_columns:
  assumes "list_all2 same_rows cols cols'" and "\<forall>c \<in> set cols. array_len c = n"
  shows "map data_type_of cols' = map data_type_of cols"
    and "\<forall>c \<in> set cols'. array_wf c \<and> array_len c = n"
    and "\<And>i. i < n \<Longrightarrow> map (\<lambda>c. cell c i) cols' = map (\<lambda>c. cell c i) cols"
  using assms by (induction rule: list_all2_induct) (auto simp: same_rows_def)

lemma survives_struct:
  assumes "externals_ok ext" and wf: "array_wf (StructArray fs nb n cols)"
    and IH: "\<And>c. c \<in> set cols \<Longrightarrow> survives ext opt opt' c"
  shows "survives ext opt opt' (StructArray fs nb n cols)"
proof -
  have wf': "nulls_wf nb n" "map data_type_of cols = fs" "\<forall>c \<in> set cols. array_len c = n"
    using wf by auto
  from nulls_roundtrip [OF wf'(1)] obtain b1 nb' where nb':
    "write_nulls nb = Inr b1" "same_nulls n nb nb'"
    "\<And>rest. read_nulls n (b1 @ rest) = Inr (nb', rest)" by blast
  from columns_roundtrip [of cols ext opt opt' n] IH wf'(3) obtain b2 cols' where cs:
    "out_all (\<lambda>c. write_array ext c opt) cols = Inr b2" "list_all2 same_rows cols cols'"
    "\<And>rest. rd_all (\<lambda>f. read_array ext f n opt') fs (b2 @ rest) = Inr (cols', rest)"
    unfolding wf'(2) by blast
  note cols' = same_rows_columns [OF cs(2) wf'(3)]
  let ?a = "StructArray fs nb' n cols'"
  have awf: "array_wf ?a" using nb'(2) cols' wf'(2) by (auto simp: same_nulls_def)
  have same: "same_rows (StructArray fs nb n cols) ?a"
    using nb'(2) awf cols'(3) by (auto simp: same_rows_def same_nulls_def simp del: array_wf.simps)
  show ?thesis
  proof (rule survivesI [OF _ same])
    show "write_array ext (StructArray fs nb n cols) opt = Inr (b1 @ b2)"
      by (simp add: write_struct_array_def out_seq_def nb' cs)
    show "read_array ext (data_type_of (StructArray fs nb n cols)) (array_len (StructArray fs nb n cols))
        opt' ((b1 @ b2) @ rest) = Inr (?a, rest)" for rest
      by (simp add: read_struct_array_def rd_bind_def nb' cs(3) externalsD(2) [OF assms(1) awf] del: array_wf.simps)
  qed
qed

lemma survives_map:
  assumes "externals_ok ext" and wf: "array_wf (MapArray field srt nb offs entries)" and st: "serde_type field"
    and "opt_ok opt (length offs - 1) (Map field srt)" and "opt_ok opt' (length offs - 1) (Map field srt)"
    and "same_mode opt opt'"
    and entries: "entries = StructArray fs None n [ks, vs]"
    and IH: "\<And>c off len. c \<in> {ks, vs} \<Longrightarrow> off + len \<le> n \<Longrightarrow>
      survives ext (with_transpose len [Map field srt]) (with_transpose len [field]) (array_slice off len c)"
  shows "survives ext opt opt' (MapArray field srt nb offs entries)"
proof -
  let ?n = "length offs - 1"
  define beg m where "beg = offset_at offs 0" and "m = offset_at offs ?n - offset_at offs 0"
  have wf': "nulls_wf nb ?n" "offsets_wf offs n" "field = Struct fs" "fs = [data_type_of ks, data_type_of vs]"
    "array_wf ks" "array_wf vs" "array_len ks = n" "array_len vs = n"
    using wf entries by auto
  have st': "serde_type (data_type_of ks)" "serde_type (data_type_of vs)" using st wf'(3,4) by auto
  have fits: "opt_fits opt 4 ?n" "opt_fits opt' 4 ?n"
    using opt_ok_width [OF _ assms(4), of 4] opt_ok_width [OF _ assms(5), of 4] by simp_all
  from nulls_roundtrip [OF wf'(1)] obtain b1 nb' where nb':
    "write_nulls nb = Inr b1" "same_nulls ?n nb nb'"
    "\<And>rest. read_nulls ?n (b1 @ rest) = Inr (nb', rest)" by blast
  from offsets_roundtrip [OF externalsD(1) [OF assms(1)] wf'(2) refl fits assms(6)] obtain b2 where b2:
    "write_offsets ext offs opt = Inr b2"
    "\<And>rest. read_offsets ext ?n opt' (b2 @ rest) = Inr (rebased offs, rest)" by blast
  note ends = offsets_ends [OF wf'(2)]
  note reb = rebased_wf [OF wf'(2) m_def]
  have room: "beg + m \<le> n" using ends(3,4) by (simp add: m_def beg_def)
  let ?cols = "[array_slice beg m ks, array_slice beg m vs]"
  let ?o = "with_transpose m [Map field srt]" and ?o' = "with_transpose m [field]"
  have lens: "\<forall>c \<in> set ?cols. array_len c = m"
    using array_slice_wf [OF wf'(5) st'(1)] array_slice_wf [OF wf'(6) st'(2)] room wf'(7,8) by simp
  have "\<forall>c \<in> set ?cols. survives ext ?o ?o' c \<and> array_len c = m" using IH [OF _ room] lens by simp
  from columns_roundtrip [OF this] wf'(4) obtain b3 cols' where cs:
    "out_all (\<lambda>c. write_array ext c ?o) ?cols = Inr b3" "list_all2 same_rows ?cols cols'"
    "\<And>rest. rd_all (\<lambda>f. read_array ext f m ?o') fs (b3 @ rest) = Inr (cols', rest)" by auto
  from cs(2) obtain k' v' where kv: "cols' = [k', v']"
    "same_rows (array_slice beg m ks) k'" "same_rows (array_slice beg m vs) v'"
    by (auto simp: list_all2_Cons1)
  have roomkv: "beg + m \<le> array_len ks" "beg + m \<le> array_len vs" using room wf'(7,8) by auto
  note k = same_rows_slice [OF wf'(5) st'(1) roomkv(1) kv(2)]
  note v = same_rows_slice [OF wf'(6) st'(2) roomkv(2) kv(3)]
  let ?e = "StructArray fs None m cols'"
  let ?a = "MapArray field srt nb' (rebased offs) ?e"
  have ewf: "array_wf ?e" using k v kv(1) wf'(4) by (simp add: nulls_wf_def)
  have awf: "array_wf ?a" using nb'(2) reb wf'(3) kv(1) ewf by (simp add: same_nulls_def)
  have cells: "map (\<lambda>j. (cell k' j, cell v' j)) [offset_at (rebased offs) i..<offset_at (rebased offs) (i + 1)]
      = map (\<lambda>j. (cell ks j, cell vs j)) [offset_at offs i..<offset_at offs (i + 1)]" if "i < ?n" for i
  proof -
    have i: "i < length offs" "i + 1 < length offs" using that by auto
    have "offset_at offs (i + 1) \<le> offset_at offs ?n"
      by (rule offset_at_mono [OF wf'(2)]) (use i in simp_all)
    then have "(cell k' j, cell v' j) = (cell ks (beg + j), cell vs (beg + j))"
      if "j < offset_at offs (i + 1) - beg" for j
      using k(4) v(4) that by (simp add: m_def beg_def)
    from map_shifted_upt [OF offset_at_rebased(2) [OF wf'(2) i(1)], of "offset_at offs (i + 1)"
        "\<lambda>j. (cell k' j, cell v' j)" "\<lambda>j. (cell ks j, cell vs j)"] this
    show ?thesis
      using offset_at_rebased(1) [OF wf'(2) i(1)] offset_at_rebased(1) [OF wf'(2) i(2)]
      by (simp add: beg_def)
  qed
  have same: "same_rows (MapArray field srt nb offs entries) ?a"
    using nb'(2) awf cells reb(3) entries kv(1)
    by (auto simp: same_rows_def same_nulls_def simp del: array_wf.simps)
  show ?thesis
  proof (rule survivesI [OF _ same])
    have "out_seq (write_array ext (array_slice beg m ks) ?o) (write_array ext (array_slice beg m vs) ?o)
        = Inr b3"
      using cs(1) by (auto simp: out_seq_def res_bind_def split: sum.splits)
    then show "write_array ext (MapArray field srt nb offs entries) opt = Inr (b1 @ b2 @ b3)"
      using ends room by (simp add: write_map_array_def out_seq_def nb' b2 Let_def m_def beg_def entries)
    show "read_array ext (data_type_of (MapArray field srt nb offs entries))
        (array_len (MapArray field srt nb offs entries)) opt' ((b1 @ b2 @ b3) @ rest) = Inr (?a, rest)" for rest
      using nb'(3) b2(2) cs(3) wf'(3) externalsD(2) [OF assms(1) ewf] externalsD(2) [OF assms(1) awf]
      by (simp add: read_map_array_def rd_bind_def reb(2) del: array_wf.simps)
  qed
qed

lemma array_roundtrip:
  assumes "externals_ok ext"
  shows "array_wf a \<Longrightarrow> serde_type (data_type_of a) \<Longrightarrow> opt_ok opt (array_len a) (data_type_of a) \<Longrightarrow>
    opt_ok opt' (array_len a) (data_type_of a) \<Longrightarrow> same_mode opt opt' \<Longrightarrow> survives ext opt opt' a"
proof (induction "depth a" arbitrary: a opt opt' rule: less_induct)
  case less
  show ?case
  proof (cases a)
    case (NullArray n)
    then show ?thesis by (simp add: survives_null)
  next
    case (BooleanArray nb vals)
    then show ?thesis using survives_boolean [OF assms] less by simp
  next
    case (PrimitiveArray dt nb vs)
    then show ?thesis using survives_primitive [OF assms] less by simp
  next
    case (ByteArray dt nb offs data)
    then have "dt = Utf8 \<or> dt = Binary" using less(2,3) by (auto simp: serde_prim_def)
    then show ?thesis
      using ByteArray survives_bytes [OF assms, of dt nb offs data opt opt'] less by simp
  next
    case (ListArray field nb offs child)
    have wf: "array_wf child" "data_type_of child = field" "serde_type field"
      using less(2,3) ListArray by auto
    have "survives ext (with_transpose len [field]) (with_transpose len [field]) (array_slice off len child)"
      if "off + len \<le> array_len child" for off len
      using less(1) [of "array_slice off len child"] array_slice_wf [OF wf(1) _ that] wf ListArray
        opt_ok_with_transpose [of field "[field]" len] by simp
    then show ?thesis
      using ListArray survives_list [OF assms, of field nb offs child opt opt'] less(2-6) wf(3) by simp
  next
    case (MapArray field srt nb offs entries)
    then obtain fs n ks vs where e: "entries = StructArray fs None n [ks, vs]"
      using less(2) by (auto split: array.splits option.splits list.splits)
    have wf: "field = Struct fs" "fs = [data_type_of ks, data_type_of vs]" "serde_type field"
      "\<And>c. c \<in> {ks, vs} \<Longrightarrow> array_wf c \<and> array_len c = n"
      using less(2,3) MapArray e by auto
    have "survives ext (with_transpose len [Map field srt]) (with_transpose len [field]) (array_slice off len c)"
      if c: "c \<in> {ks, vs}" and room: "off + len \<le> n" for c off len
    proof -
      have f: "data_type_of c \<in> set fs" using c wf(2) by auto
      then have st: "serde_type (data_type_of c)" using wf(1,3) by auto
      have "data_type_bytes_width (data_type_of c) \<le> data_type_bytes_width field"
        using width_of_field [OF f] wf(1) by simp
      then have o: "opt_ok (with_transpose len [Map field srt]) len (data_type_of c)"
        "opt_ok (with_transpose len [field]) len (data_type_of c)"
        using opt_ok_mono [of "data_type_of c" "Map field srt" "with_transpose len [Map field srt]" len]
          opt_ok_mono [of "data_type_of c" field "with_transpose len [field]" len]
        by (auto simp: opt_ok_with_transpose)
      have "depth c < depth a" using c MapArray e by (auto simp: less_Suc_eq_le)
      moreover have "array_wf (array_slice off len c) \<and> array_len (array_slice off len c) = len"
        using array_slice_wf [OF _ st] wf(4) [OF c] room by simp
      ultimately show ?thesis
        using less(1) [of "array_slice off len c"] st o by simp
    qed
    then show ?thesis
      using MapArray survives_map [OF assms _ wf(3) _ _ _ e, of srt nb offs opt opt'] less(2-6) by simp
  next
    case (StructArray fs nb n cols)
    have "survives ext opt opt' c" if c: "c \<in> set cols" for c
    proof -
      have wf: "array_wf c" "array_len c = n" "data_type_of c \<in> set fs" "serde_type (data_type_of c)"
        using less(2,3) StructArray c by auto
      have "opt_ok opt n (data_type_of c)" "opt_ok opt' n (data_type_of c)"
        using less(4,5) StructArray opt_ok_mono [OF width_of_field [OF wf(3)]] by auto
      moreover have "depth c < depth a" using StructArray depth_column [OF c] by simp
      ultimately show ?thesis using less(1) [of c] less(6) wf by simp
    qed
    then show ?thesis
      using StructArray survives_struct [OF assms, of fs nb n cols opt opt'] less(2) by simp
  next
    case (DictionaryArray kt keys vals)
    then show ?thesis using less(3) by simp
  qed
qed

definition batch_ok :: "nat \<Rightarrow> array list \<Rightarrow> bool" where
  "batch_ok n cols = (n < 2 ^ 64 \<and>
     (\<forall>c \<in> set cols. array_wf c \<and> serde_type (data_type_of c) \<and> array_len c = n))"

lemma batch_columns:
  assumes "externals_ok ext" and "batch_ok n cols"
  shows "\<exists>bs cols'. write_batch ext n cols = Inr bs \<and> list_all2 same_rows cols cols'
    \<and> (\<forall>rest. read_batch ext (map data_type_of cols) (bs @ rest) = Inr (Some (n, cols'), rest))"
proof -
  let ?o = "with_transpose n (map data_type_of cols)"
  have "\<forall>c \<in> set cols. survives ext ?o ?o c \<and> array_len c = n"
    using assms array_roundtrip [OF assms(1)] opt_ok_with_transpose [of _ "map data_type_of cols" n]
    by (auto simp: batch_ok_def)
  from columns_roundtrip [OF this] obtain bs cols' where
    "out_all (\<lambda>c. write_array ext c ?o) cols = Inr bs" "list_all2 same_rows cols cols'"
    "\<And>rest. rd_all (\<lambda>f. read_array ext f n ?o) (map data_type_of cols) (bs @ rest) = Inr (cols', rest)"
    by blast
  moreover have "unat (of_nat n :: usize) = n" using assms(2) by (simp add: batch_ok_def unat_of_nat)
  ultimately show ?thesis
    by (intro exI [of _ "write_len (of_nat n) @ bs"] exI [of _ cols'])
      (simp add: write_batch_def read_batch_def out_seq_def read_len_append Let_def)
qed

text \<open>External operations as their documentation describes them, for concrete runs.\<close>

definition transpose_ref :: "bytes \<Rightarrow> nat \<Rightarrow> nat \<Rightarrow> bytes" where
  "transpose_ref raw w h = map (\<lambda>k. raw ! (k mod h * w + k div h)) [0..<w * h]"

definition externals_ref :: externals where
  "externals_ref = \<lparr>ext_transpose = transpose_ref, ext_try_new = Inr,
     ext_with_precision_and_scale = (\<lambda>prec scale a.
       case a of PrimitiveArray (Decimal128 _ _) nb vs \<Rightarrow> Inr (PrimitiveArray (Decimal128 prec scale) nb vs)
       | _ \<Rightarrow> Inl ExecutionErr)\<rparr>"

lemma externals_ref_ok: "externals_ok externals_ref"
proof -
  have "x * h + y < w * h" if "x < w" "y < h" for x y w h :: nat
    using that mult_le_mono1 [of "Suc x" w h] by simp
  then have "transposes transpose_ref"
    by (auto simp: transposes_def transpose_ref_def)
  then show ?thesis by (simp add: externals_ok_def externals_ref_def)
qed

section \<open>Properties\<close>

text \<open>
  C6: A batch of columns of supported types, nested ones included, is always written without a
  panic (the transposition buffer is large enough everywhere) and reading the bytes back, in
  front of whatever follows in the stream, gives the same number of rows and columns of the same
  types with the same logical values, consuming exactly the bytes written.
\<close>

theorem batch_roundtrip:
  assumes "externals_ok ext" and "batch_ok n cols"
  shows "\<exists>bs cols'. write_batch ext n cols = Inr bs
    \<and> read_batch ext (map data_type_of cols) (bs @ rest) = Inr (Some (n, cols'), rest)
    \<and> list_all2 same_rows cols cols'"
  using batch_columns [OF assms] by blast

theorem batch_roundtrip_witness:
  "\<exists>bs cols'. write_batch externals_ref 2
       [PrimitiveArray Int32 (Some ([1], 0, 2)) [7, 9], ListArray Int16 None [1, 2, 3] (PrimitiveArray Int16 None [5, -6, 7])]
     = Inr bs \<and> read_batch externals_ref [Int32, List Int16] (bs @ [42]) = Inr (Some (2, cols'), [42])
     \<and> cell (cols' ! 1) 1 = CList [CPrim Int16 7]"
proof -
  let ?cols = "[PrimitiveArray Int32 (Some ([1], 0, 2)) [7, 9],
    ListArray Int16 None [1, 2, 3] (PrimitiveArray Int16 None [5, -6, 7])]"
  have "batch_ok 2 ?cols"
    by (simp add: batch_ok_def nulls_wf_def prim_in_range_def offsets_wf_def serde_prim_def)
  from batch_roundtrip [OF externals_ref_ok this, of "[42]"] obtain bs cols' where
    rt: "write_batch externals_ref 2 ?cols = Inr bs"
      "read_batch externals_ref [Int32, List Int16] (bs @ [42]) = Inr (Some (2, cols'), [42])"
      "list_all2 same_rows ?cols cols'" by auto
  from rt(3) have "same_rows (?cols ! 1) (cols' ! 1)" by (auto simp: list_all2_Cons1)
  then have "cell (cols' ! 1) 1 = cell (?cols ! 1) 1" by (simp add: same_rows_def)
  also have "\<dots> = CList [CPrim Int16 7]" by (simp add: bit_valid_def offset_at_def upt_rec)
  finally show ?thesis using rt(1,2) by blast
qed

text \<open>
  A stream that ends where a batch would begin, or inside its row count, reads as the end of
  the stream; one that ends anywhere later is an error.
\<close>

theorem read_batch_end_of_stream:
  "read_batch ext schema [] = Inr (None, [])
   \<and> read_batch ext schema [0x80] = Inr (None, [0x80])
   \<and> read_batch ext [Boolean] [1] = Inl UnexpectedEof"
  by (simp add: read_batch_def read_len_def read_boolean_array_def read_nulls_def rd_bind_def)

lemma zone_not_stored:
  "write_array ext (PrimitiveArray (Timestamp u tz) nb vs) opt = write_array ext (PrimitiveArray (Timestamp u None) nb vs) opt"
  "read_array ext (Timestamp u tz) n opt = read_array ext (Timestamp u None) n opt"
  "with_transpose n [Timestamp u tz] = with_transpose n [Timestamp u None]"
  by (simp_all add: serde_prim_def write_primitive_array_def with_transpose_def)

lemma zone_not_read: "read_batch ext [Timestamp u tz] = read_batch ext [Timestamp u None]"
proof -
  have "rd_all (\<lambda>dt. read_array ext dt n (with_transpose n [Timestamp u tz])) [Timestamp u tz]
      = rd_all (\<lambda>dt. read_array ext dt n (with_transpose n [Timestamp u None])) [Timestamp u None]" for n
    by (simp only: rd_all.simps zone_not_stored(2) [of ext u tz] zone_not_stored(3) [of n u tz])
  then show ?thesis by (simp only: read_batch_def fun_eq_iff Let_def simp_thms)
qed

text \<open>
  C37: The time zone of a timestamp column is not restored.  Any well-formed column of timestamps
  with a time zone is written and, read with the schema it was written with, comes back with the
  same rows and values, but as a column of timestamps without a time zone, a type other than the
  one in the schema.
\<close>

theorem zoned_timestamp_loses_zone:
  assumes "externals_ok ext" and "array_wf (PrimitiveArray (Timestamp u (Some tz)) nb vs)" and "length vs < 2 ^ 64"
  shows "\<exists>bs a. write_batch ext (length vs) [PrimitiveArray (Timestamp u (Some tz)) nb vs] = Inr bs
    \<and> read_batch ext [Timestamp u (Some tz)] (bs @ rest) = Inr (Some (length vs, [a]), rest)
    \<and> data_type_of a = Timestamp u None \<and> array_len a = length vs
    \<and> (\<forall>i < length vs. cell a i = (if bit_valid nb i then CPrim (Timestamp u None) (vs ! i) else CNull))"
proof -
  let ?a = "PrimitiveArray (Timestamp u None) nb vs"
  have "batch_ok (length vs) [?a]" using assms(2,3) by (simp add: batch_ok_def prim_in_range_def)
  from batch_columns [OF assms(1) this] obtain bs cols where
    b: "write_batch ext (length vs) [?a] = Inr bs" "list_all2 same_rows [?a] cols"
      "\<And>rest. read_batch ext [Timestamp u None] (bs @ rest) = Inr (Some (length vs, cols), rest)" by auto
  from b(2) obtain a where a: "cols = [a]" "same_rows ?a a" by (auto simp: list_all2_Cons1)
  have "write_batch ext (length vs) [PrimitiveArray (Timestamp u (Some tz)) nb vs] = Inr bs"
    using b(1) zone_not_stored(1) [of ext u "Some tz" nb vs] zone_not_stored(3) [of "length vs" u "Some tz"] by (simp add: write_batch_def)
  moreover have "read_batch ext [Timestamp u (Some tz)] (bs @ rest) = Inr (Some (length vs, [a]), rest)"
    using b(3) [of rest] a(1) by (simp only: zone_not_read [of ext u "Some tz"])
  ultimately show ?thesis using a(2) by (auto simp: same_rows_def)
qed

theorem zoned_timestamp_loses_zone_witness:
  "\<exists>bs a. write_batch externals_ref 2 [PrimitiveArray (Timestamp Microsecond (Some ''UTC'')) (Some ([1], 0, 2)) [7, 8]] = Inr bs
     \<and> read_batch externals_ref [Timestamp Microsecond (Some ''UTC'')] (bs @ [9]) = Inr (Some (2, [a]), [9])
     \<and> data_type_of a = Timestamp Microsecond None \<and> cell a 0 = CPrim (Timestamp Microsecond None) 7 \<and> cell a 1 = CNull"
proof -
  have "array_wf (PrimitiveArray (Timestamp Microsecond (Some ''UTC'')) (Some ([1], 0, 2)) [7, 8])"
    by (simp add: nulls_wf_def prim_in_range_def)
  moreover have two: "length [7, 8::int] = 2" and "length [7, 8::int] < 2 ^ 64" by simp_all
  ultimately obtain bs a where
    rt: "write_batch externals_ref 2 [PrimitiveArray (Timestamp Microsecond (Some ''UTC'')) (Some ([1], 0, 2)) [7, 8]] = Inr bs"
      "read_batch externals_ref [Timestamp Microsecond (Some ''UTC'')] (bs @ [9]) = Inr (Some (2, [a]), [9])"
      "data_type_of a = Timestamp Microsecond None"
    and cells: "\<And>i. i < 2 \<Longrightarrow> cell a i = (if bit_valid (Some ([1], 0, 2)) i then CPrim (Timestamp Microsecond None) ([7, 8] ! i) else CNull)"
    using zoned_timestamp_loses_zone [OF externals_ref_ok, of Microsecond "''UTC''" "Some ([1], 0, 2)" "[7, 8]" "[9]"] unfolding two by blast
  have "cell a 0 = CPrim (Timestamp Microsecond None) 7" "cell a 1 = CNull" by (simp_all add: cells bit_valid_def get_bit_raw_def)
  with rt show ?thesis by blast
qed

end
