(* ===== verification/Scalar_Serde.thy ===== *)
theory Scalar_Serde
  imports Batch_Serde
begin

text \<open>
  Serialization of single values, \<open>datafusion-ext-commons/src/io/scalar_serde.rs\<close>.  A scalar of
  a primitive type carries its data type; a list, struct or map scalar is an array of one row, as
  in DataFusion.  \<open>String::from_utf8_lossy\<close> is the parameter \<open>lossy\<close>; what is used of it is that
  it changes nothing in well-formed UTF-8.
\<close>

section \<open>Model\<close>

datatype scalar_value =
    SNull
  | SBoolean "bool option"
  | SPrim data_type "int option"
  | SUtf8 "bytes option"
  | SBinary "bytes option"
  | SList array | SStruct array | SMap array

fun scalar_is_null :: "scalar_value \<Rightarrow> bool" where
  "scalar_is_null SNull = True"
| "scalar_is_null (SBoolean v) = (v = None)"
| "scalar_is_null (SPrim _ v) = (v = None)"
| "scalar_is_null (SUtf8 v) = (v = None)"
| "scalar_is_null (SBinary v) = (v = None)"
| "scalar_is_null (SList a) = (\<not> bit_valid (nulls_of a) 0)"
| "scalar_is_null (SStruct a) = (\<not> bit_valid (nulls_of a) 0)"
| "scalar_is_null (SMap a) = (\<not> bit_valid (nulls_of a) 0)"

text \<open>The macro \<open>write_prim!\<close>, on the native bytes of the value.\<close>

definition write_prim :: "bool \<Rightarrow> bytes option \<Rightarrow> bytes result" where
  "write_prim nullable v =
     (if nullable then (case v of Some bs \<Rightarrow> Inr (write_u8 1 @ bs) | None \<Rightarrow> Inr (write_u8 0))
      else (case v of Some bs \<Rightarrow> Inr bs | None \<Rightarrow> Inl Panic))"

text \<open>The macro \<open>read_prim!\<close> for a type of \<open>w\<close> bytes.\<close>

definition read_prim :: "bool \<Rightarrow> nat \<Rightarrow> bytes option reader" where
  "read_prim nullable w =
     (if nullable
      then rd_bind read_u8 (\<lambda>valid.
             if valid \<noteq> 0 then rd_bind (read_exact w) (\<lambda>buf. rd_return (Some buf)) else rd_return None)
      else rd_bind (read_exact w) (\<lambda>buf. rd_return (Some buf)))"

definition write_opt_bytes :: "bytes option \<Rightarrow> bytes" where
  "write_opt_bytes v =
     (case v of Some bs \<Rightarrow> write_len (of_nat (length bs) + 1) @ bs | None \<Rightarrow> write_len 0)"

definition read_opt_bytes :: "bytes option reader" where
  "read_opt_bytes =
     rd_bind read_len (\<lambda>data_len.
       if 0 < data_len then rd_bind (read_bytes_slice (unat (data_len - 1))) (\<lambda>bs. rd_return (Some bs))
       else rd_return None)"

definition write_scalar :: "externals \<Rightarrow> scalar_value \<Rightarrow> bool \<Rightarrow> bytes result" where
  "write_scalar ext v nullable =
     (if \<not> (nullable \<or> \<not> scalar_is_null v) then Inl Panic
      else case v of
        SNull \<Rightarrow> Inr (write_u8 0)
      | SBoolean b \<Rightarrow> write_prim nullable (map_option (\<lambda>b. [if b then 1 else 0]) b)
      | SPrim dt x \<Rightarrow>
          (case primitive_width dt of
             Some w \<Rightarrow> if serde_prim dt then write_prim nullable (map_option (prim_bytes w) x)
                       else Inl NotImplemented
           | None \<Rightarrow> Inl NotImplemented)
      | SUtf8 s \<Rightarrow> Inr (write_opt_bytes s)
      | SBinary s \<Rightarrow> Inr (write_opt_bytes s)
      | SList a \<Rightarrow> write_array ext a Disabled
      | SStruct a \<Rightarrow> write_array ext a Disabled
      | SMap a \<Rightarrow> write_array ext a Disabled)"

definition read_scalar :: "externals \<Rightarrow> (bytes \<Rightarrow> bytes) \<Rightarrow> data_type \<Rightarrow> bool \<Rightarrow> scalar_value reader" where
  "read_scalar ext lossy dt nullable =
     (case dt of
        Null \<Rightarrow> rd_bind read_u8 (\<lambda>_. rd_return SNull)
      | Boolean \<Rightarrow> rd_bind (read_prim nullable 1) (\<lambda>v. rd_return (SBoolean (map_option (\<lambda>bs. bs ! 0 \<noteq> 0) v)))
      | Binary \<Rightarrow> rd_bind read_opt_bytes (\<lambda>v. rd_return (SBinary v))
      | Utf8 \<Rightarrow> rd_bind read_opt_bytes (\<lambda>v. rd_return (SUtf8 (map_option lossy v)))
      | List _ \<Rightarrow> rd_bind (read_array ext dt 1 Disabled) (\<lambda>a. rd_return (SList a))
      | Struct _ \<Rightarrow> rd_bind (read_array ext dt 1 Disabled) (\<lambda>a. rd_return (SStruct a))
      | Map _ _ \<Rightarrow> rd_bind (read_array ext dt 1 Disabled) (\<lambda>a. rd_return (SMap a))
      | _ \<Rightarrow>
          (case primitive_width dt of
             Some w \<Rightarrow> if serde_prim dt
                       then rd_bind (read_prim nullable w) (\<lambda>v. rd_return (SPrim dt (map_option (prim_of_bytes dt w) v)))
                       else (\<lambda>_. Inl NotImplemented)
           | None \<Rightarrow> (\<lambda>_. Inl NotImplemented)))"

section \<open>Lemmas\<close>

fun scalar_type :: "scalar_value \<Rightarrow> data_type" where
  "scalar_type SNull = Null"
| "scalar_type (SBoolean _) = Boolean"
| "scalar_type (SPrim dt _) = dt"
| "scalar_type (SUtf8 _) = Utf8"
| "scalar_type (SBinary _) = Binary"
| "scalar_type (SList a) = data_type_of a"
| "scalar_type (SStruct a) = data_type_of a"
| "scalar_type (SMap a) = data_type_of a"

definition one_row :: "array \<Rightarrow> bool" where
  "one_row a = (array_wf a \<and> serde_type (data_type_of a) \<and> array_len a = 1)"

fun scalar_ok :: "scalar_value \<Rightarrow> bool" where
  "scalar_ok SNull = True"
| "scalar_ok (SBoolean _) = True"
| "scalar_ok (SPrim dt v) = (serde_prim dt \<and> (case v of None \<Rightarrow> True | Some x \<Rightarrow> prim_in_range dt x))"
| "scalar_ok (SUtf8 v) = (case v of None \<Rightarrow> True | Some bs \<Rightarrow> utf8_ok bs \<and> length bs + 1 < 2 ^ 64)"
| "scalar_ok (SBinary v) = (case v of None \<Rightarrow> True | Some bs \<Rightarrow> length bs + 1 < 2 ^ 64)"
| "scalar_ok (SList a) = (one_row a \<and> (\<exists>f nb offs c. a = ListArray f nb offs c))"
| "scalar_ok (SStruct a) = (one_row a \<and> (\<exists>fs nb n cs. a = StructArray fs nb n cs))"
| "scalar_ok (SMap a) = (one_row a \<and> (\<exists>f s nb offs e. a = MapArray f s nb offs e))"

text \<open>Equal scalars; nested ones by the logical value of their row.\<close>

fun same_scalar :: "scalar_value \<Rightarrow> scalar_value \<Rightarrow> bool" where
  "same_scalar (SList a) (SList a') = same_rows a a'"
| "same_scalar (SStruct a) (SStruct a') = same_rows a a'"
| "same_scalar (SMap a) (SMap a') = same_rows a a'"
| "same_scalar v v' = (v = v')"

lemma prim_roundtrip:
  assumes "nullable \<or> v \<noteq> None" and "\<And>bs. v = Some bs \<Longrightarrow> length bs = w"
  shows "\<exists>out. write_prim nullable v = Inr out \<and> (\<forall>rest. read_prim nullable w (out @ rest) = Inr (v, rest))"
  using assms
  by (cases v) (auto simp: write_prim_def read_prim_def rd_bind_def read_u8_append read_exact_append)

lemma opt_bytes_roundtrip:
  assumes "\<And>bs. v = Some bs \<Longrightarrow> length bs + 1 < 2 ^ 64"
  shows "read_opt_bytes (write_opt_bytes v @ rest) = Inr (v, rest)"
proof (cases v)
  case None
  then show ?thesis by (simp add: read_opt_bytes_def write_opt_bytes_def rd_bind_def read_len_append)
next
  case (Some bs)
  have "of_nat (length bs) + 1 = (of_nat (length bs + 1) :: usize)" by simp
  moreover have "unat (of_nat (length bs + 1) :: usize) = length bs + 1"
    using assms [OF Some] by (simp only: unat_of_nat) simp
  ultimately have "0 < (of_nat (length bs) + 1 :: usize)"
    by (metis word_gt_0 unat_0 add_is_0 one_neq_zero)
  moreover have "unat (of_nat (length bs) :: usize) = length bs"
    using assms [OF Some] by (simp add: unat_of_nat)
  ultimately show ?thesis
    using Some by (simp add: read_opt_bytes_def write_opt_bytes_def rd_bind_def read_len_append
        read_bytes_slice_append)
qed

lemma one_row_roundtrip:
  assumes "externals_ok ext" and "one_row a"
  shows "\<exists>out a'. write_array ext a Disabled = Inr out \<and> same_rows a a'
    \<and> (\<forall>rest. read_array ext (data_type_of a) 1 Disabled (out @ rest) = Inr (a', rest))"
  using array_roundtrip [OF assms(1), of a Disabled Disabled] assms(2)
  by (auto simp: one_row_def survives_def opt_ok_def same_mode_def)

lemma read_scalar_prim:
  "primitive_width dt = Some w \<Longrightarrow> serde_prim dt \<Longrightarrow> read_scalar ext lossy dt nullable =
     rd_bind (read_prim nullable w) (\<lambda>v. rd_return (SPrim dt (map_option (prim_of_bytes dt w) v)))"
  by (cases dt) (simp_all add: read_scalar_def)

lemma scalar_prim_roundtrip:
  assumes "scalar_ok (SPrim dt v)" and "nullable \<or> v \<noteq> None"
  shows "\<exists>out. write_scalar ext (SPrim dt v) nullable = Inr out
    \<and> (\<forall>rest. read_scalar ext lossy dt nullable (out @ rest) = Inr (SPrim dt v, rest))"
proof -
  have sp: "serde_prim dt" using assms(1) by simp
  then obtain w where w: "primitive_width dt = Some w"
    by (auto simp: serde_prim_def split: data_type.splits)
  have "\<exists>out. write_prim nullable (map_option (prim_bytes w) v) = Inr out \<and>
      (\<forall>rest. read_prim nullable w (out @ rest) = Inr (map_option (prim_bytes w) v, rest))"
    by (rule prim_roundtrip) (use assms(2) in \<open>auto simp: prim_bytes_def\<close>)
  then obtain out where out: "write_prim nullable (map_option (prim_bytes w) v) = Inr out"
    "\<And>rest. read_prim nullable w (out @ rest) = Inr (map_option (prim_bytes w) v, rest)" by blast
  have "map_option (prim_of_bytes dt w) (map_option (prim_bytes w) v) = v"
    using assms(1) prim_bytes_roundtrip [OF w] by (cases v) auto
  with out sp w assms(2) show ?thesis
    by (auto simp: write_scalar_def read_scalar_prim [OF w sp] rd_bind_def)
qed

lemma scalar_boolean_roundtrip:
  assumes "nullable \<or> v \<noteq> None"
  shows "\<exists>out. write_scalar ext (SBoolean v) nullable = Inr out
    \<and> (\<forall>rest. read_scalar ext lossy Boolean nullable (out @ rest) = Inr (SBoolean v, rest))"
proof -
  let ?bs = "map_option (\<lambda>b. [if b then 1 else 0 :: u8]) v"
  have "\<exists>out. write_prim nullable ?bs = Inr out \<and>
      (\<forall>rest. read_prim nullable 1 (out @ rest) = Inr (?bs, rest))"
    by (rule prim_roundtrip) (use assms in auto)
  then obtain out where "write_prim nullable ?bs = Inr out"
    "\<And>rest. read_prim nullable 1 (out @ rest) = Inr (?bs, rest)" by blast
  moreover have "map_option (\<lambda>bs. bs ! 0 \<noteq> 0) ?bs = v" by (cases v) auto
  ultimately show ?thesis
    using assms by (auto simp: write_scalar_def read_scalar_def rd_bind_def)
qed

section \<open>Properties\<close>

text \<open>
  C24: Writing a scalar that is allowed to be written (a null only where nulls are allowed) and
  reading it back with its type and nullability gives the same scalar and consumes exactly the
  bytes written; list, struct and map scalars come back with the same logical value.
\<close>

theorem scalar_roundtrip:
  assumes "externals_ok ext" and "\<forall>bs. utf8_ok bs \<longrightarrow> lossy bs = bs"
    and "scalar_ok v" and "nullable \<or> \<not> scalar_is_null v"
  shows "\<exists>out v'. write_scalar ext v nullable = Inr out \<and> same_scalar v v'
    \<and> read_scalar ext lossy (scalar_type v) nullable (out @ rest) = Inr (v', rest)"
proof (cases v)
  case (SPrim dt x)
  with assms(3,4) scalar_prim_roundtrip [of dt x nullable ext lossy] show ?thesis by fastforce
next
  case (SBoolean b)
  with assms(4) scalar_boolean_roundtrip [of nullable b ext lossy] show ?thesis by fastforce
next
  case (SUtf8 s)
  have "read_opt_bytes (write_opt_bytes s @ rest) = Inr (s, rest)"
    by (rule opt_bytes_roundtrip) (use SUtf8 assms(3) in auto)
  moreover have "map_option lossy s = s" using SUtf8 assms(2,3) by (cases s) auto
  ultimately show ?thesis
    using SUtf8 assms(4) by (simp add: write_scalar_def read_scalar_def rd_bind_def)
next
  case (SBinary s)
  have "read_opt_bytes (write_opt_bytes s @ rest) = Inr (s, rest)"
    by (rule opt_bytes_roundtrip) (use SBinary assms(3) in auto)
  then show ?thesis
    using SBinary assms(4) by (simp add: write_scalar_def read_scalar_def rd_bind_def)
next
  case (SList a)
  with assms(3) obtain out a' where
    "write_array ext a Disabled = Inr out" "same_rows a a'"
    "read_array ext (data_type_of a) 1 Disabled (out @ rest) = Inr (a', rest)"
    using one_row_roundtrip [OF assms(1), of a] by auto
  with SList assms(3,4) show ?thesis
    by (intro exI [of _ out] exI [of _ "SList a'"]) (auto simp: write_scalar_def read_scalar_def rd_bind_def)
next
  case (SStruct a)
  with assms(3) obtain out a' where
    "write_array ext a Disabled = Inr out" "same_rows a a'"
    "read_array ext (data_type_of a) 1 Disabled (out @ rest) = Inr (a', rest)"
    using one_row_roundtrip [OF assms(1), of a] by auto
  with SStruct assms(3,4) show ?thesis
    by (intro exI [of _ out] exI [of _ "SStruct a'"]) (auto simp: write_scalar_def read_scalar_def rd_bind_def)
next
  case (SMap a)
  with assms(3) obtain out a' where
    "write_array ext a Disabled = Inr out" "same_rows a a'"
    "read_array ext (data_type_of a) 1 Disabled (out @ rest) = Inr (a', rest)"
    using one_row_roundtrip [OF assms(1), of a] by auto
  with SMap assms(3,4) show ?thesis
    by (intro exI [of _ out] exI [of _ "SMap a'"]) (auto simp: write_scalar_def read_scalar_def rd_bind_def)
qed (use assms(4) in \<open>auto simp: write_scalar_def read_scalar_def rd_bind_def read_u8_append\<close>)

theorem scalar_roundtrip_witness:
  "\<exists>out v'. write_scalar externals_ref (SUtf8 (Some [87, 111])) True = Inr out
     \<and> same_scalar (SUtf8 (Some [87, 111])) v'
     \<and> read_scalar externals_ref id Utf8 True (out @ [9]) = Inr (v', [9])"
  using scalar_roundtrip [of externals_ref id "SUtf8 (Some [87, 111])" True "[9]"]
  by (simp add: externals_ref_ok)

end
