(* ===== verification/Mem_Manager.thy ===== *)
theory Mem_Manager
  imports Prelude
begin

text \<open>
  The memory manager, \<open>auron-memmgr/src/lib.rs\<close>: registration of memory consumers, the
  accounting of used and spillable memory, and the decision whether an update makes the consumer
  spill, wait or go on.  Every operation runs its critical section under the manager's locks, so
  it is one step on the state; the consumers are identified by the address of their
  \<open>MemConsumerInfo\<close> (the code compares with \<open>Arc::ptr_eq\<close>), here a number.  The figures that come
  from outside (JVM direct memory, process memory and its limit, whether the wait on the condition
  variable timed out) are the arguments \<open>env\<close>.

  \<open>usize\<close> is \<open>nat\<close> below \<open>2 ^ 64\<close> with the casts to and from \<open>isize\<close> written out.  A failed
  assertion, a missing consumer or a division by zero is \<open>Inl Panic\<close>.
\<close>

section \<open>Model\<close>

definition as_isize :: "nat \<Rightarrow> int" where
  "as_isize n = (if n < 2 ^ 63 then int n else int n - 2 ^ 64)"

definition wrap_isize :: "int \<Rightarrow> int" where
  "wrap_isize i = (let r = i mod 2 ^ 64 in if r < 2 ^ 63 then r else r - 2 ^ 64)"

definition as_usize :: "int \<Rightarrow> nat" where
  "as_usize i = nat (i mod 2 ^ 64)"

definition MIN_TRIGGER_SIZE :: nat where
  "MIN_TRIGGER_SIZE = 2 ^ 24"

record consumer_status =
  mem_used :: nat
  spillable :: bool

record manager_status =
  num_consumers :: nat
  total_used :: nat
  num_spillables :: nat
  mem_spillables :: nat

record mem_manager =
  mm_total :: nat
  mm_consumers :: "(nat \<times> consumer_status) list"
  mm_status :: manager_status

record mem_env =
  jvm_direct_used :: nat
  proc_max :: nat
  proc_used :: nat
  wait_timed_out :: bool

datatype operation = Spill | Wait | Nothing

definition init_manager :: "nat \<Rightarrow> mem_manager" where
  "init_manager total_mem = \<lparr>mm_total = total_mem, mm_consumers = [],
     mm_status = \<lparr>num_consumers = 0, total_used = 0, num_spillables = 0, mem_spillables = 0\<rparr>\<rparr>"

text \<open>\<open>Vec::swap_remove\<close>: the last element takes the place of the removed one.\<close>

definition swap_remove :: "'a list \<Rightarrow> nat \<Rightarrow> 'a list" where
  "swap_remove xs i = (let last_item = last xs in butlast (xs[i := last_item]))"

fun consumer_index :: "nat \<Rightarrow> (nat \<times> consumer_status) list \<Rightarrow> nat option" where
  "consumer_index cid [] = None"
| "consumer_index cid ((k, c) # cs) =
     (if k = cid then Some 0 else map_option Suc (consumer_index cid cs))"

definition consumer_info :: "nat \<Rightarrow> mem_manager \<Rightarrow> consumer_status result" where
  "consumer_info cid mm =
     (case map_of (mm_consumers mm) cid of Some c \<Rightarrow> Inr c | None \<Rightarrow> Inl Panic)"

definition set_consumer :: "nat \<Rightarrow> consumer_status \<Rightarrow> mem_manager \<Rightarrow> mem_manager" where
  "set_consumer cid c mm =
     mm\<lparr>mm_consumers := map (\<lambda>(k, c'). if k = cid then (k, c) else (k, c')) (mm_consumers mm)\<rparr>"

definition register_consumer :: "nat \<Rightarrow> bool \<Rightarrow> mem_manager \<Rightarrow> mem_manager" where
  "register_consumer cid spill mm =
     (let st = mm_status mm;
          st = st\<lparr>num_consumers := num_consumers st + 1\<rparr>;
          st = (if spill then st\<lparr>num_spillables := num_spillables st + 1\<rparr> else st)
      in mm\<lparr>mm_consumers := mm_consumers mm @ [(cid, \<lparr>mem_used = 0, spillable = spill\<rparr>)], mm_status := st\<rparr>)"

definition update_total_used_with_diff :: "int \<Rightarrow> manager_status \<Rightarrow> manager_status result" where
  "update_total_used_with_diff diff_used st =
     (let new_used = wrap_isize (as_isize (total_used st) + diff_used)
      in if 0 \<le> new_used then Inr (st\<lparr>total_used := as_usize new_used\<rparr>) else Inl Panic)"

definition deregister_consumer :: "nat \<Rightarrow> mem_manager \<Rightarrow> mem_manager result" where
  "deregister_consumer cid mm =
     res_bind (consumer_info cid mm) (\<lambda>c.
     if total_used (mm_status mm) < mem_used c then Inl Panic else
     let st = mm_status mm; st = st\<lparr>num_consumers := num_consumers st - 1\<rparr> in
     res_bind (update_total_used_with_diff (- as_isize (mem_used c)) st) (\<lambda>st.
     res_bind (if spillable c
               then (if mem_spillables st < mem_used c then Inl Panic
                     else Inr (st\<lparr>num_spillables := num_spillables st - 1,
                                  mem_spillables := mem_spillables st - mem_used c\<rparr>))
               else Inr st) (\<lambda>st.
     case consumer_index cid (mm_consumers mm) of
       Some i \<Rightarrow> Inr (mm\<lparr>mm_consumers := swap_remove (mm_consumers mm) i, mm_status := st\<rparr>)
     | None \<Rightarrow> Inl Panic)))"

definition set_spillable :: "nat \<Rightarrow> bool \<Rightarrow> mem_manager \<Rightarrow> mem_manager result" where
  "set_spillable cid spill mm =
     res_bind (consumer_info cid mm) (\<lambda>c.
     res_bind (if spillable c \<noteq> spill
               then let st = mm_status mm in
                 if spill then Inr (st\<lparr>num_spillables := num_spillables st + 1,
                                       mem_spillables := mem_spillables st + mem_used c\<rparr>)
                 else if mem_spillables st < mem_used c then Inl Panic
                 else Inr (st\<lparr>num_spillables := num_spillables st - 1,
                              mem_spillables := mem_spillables st - mem_used c\<rparr>)
               else Inr (mm_status mm)) (\<lambda>st.
     Inr (set_consumer cid (c\<lparr>spillable := spill\<rparr>) (mm\<lparr>mm_status := st\<rparr>))))"

text \<open>
  The decision, after the accounting: what the consumer has to do.  \<open>num_spillables\<close> divides.
\<close>

definition choose_operation ::
  "mem_env \<Rightarrow> nat \<Rightarrow> manager_status \<Rightarrow> nat \<Rightarrow> nat \<Rightarrow> bool \<Rightarrow> bool \<Rightarrow> operation result" where
  "choose_operation env total_mem st old_used new_used spill forced =
     (let mem_unspillable = total_used st - mem_spillables st;
          total_managed = total_mem - jvm_direct_used env - mem_unspillable
      in if num_spillables st = 0 then Inl Panic else
      let consumer_mem_max = total_managed div num_spillables st;
          consumer_mem_min = consumer_mem_max div 8;
          total_overflowed = total_used st > total_managed;
          consumer_overflowed = new_used > consumer_mem_max;
          proc_overflowed = proc_used env > proc_max env
      in Inr (if forced \<or> ((total_overflowed \<or> consumer_overflowed \<or> proc_overflowed)
                           \<and> new_used > MIN_TRIGGER_SIZE \<and> new_used > old_used)
              then (if forced \<or> (spill \<and> new_used > consumer_mem_min) then Spill else Wait)
              else Nothing))"

text \<open>
  \<open>update_consumer_mem_used_with_custom_updater\<close>: the new state and what is left to do; a wait
  that times out turns into a spill.
\<close>

definition update_consumer_mem_used_with_custom_updater ::
  "mem_env \<Rightarrow> nat \<Rightarrow> (consumer_status \<Rightarrow> consumer_status \<times> nat \<times> nat) \<Rightarrow> bool
   \<Rightarrow> mem_manager \<Rightarrow> (mem_manager \<times> operation) result" where
  "update_consumer_mem_used_with_custom_updater env cid updater forced mm =
     res_bind (consumer_info cid mm) (\<lambda>c.
     let (c', old_used, new_used) = updater c;
         spill = spillable c';
         diff_used = wrap_isize (as_isize new_used - as_isize old_used)
     in if forced \<and> \<not> spill then Inl Panic else
     res_bind (update_total_used_with_diff diff_used (mm_status mm)) (\<lambda>st.
     res_bind (if spill
               then let v = wrap_isize (as_isize (mem_spillables st) + diff_used)
                    in if 0 \<le> v then Inr (st\<lparr>mem_spillables := as_usize v\<rparr>) else Inl Panic
               else Inr st) (\<lambda>st.
     let mm' = set_consumer cid c' (mm\<lparr>mm_status := st\<rparr>)
     in if \<not> forced \<and> (old_used = 0 \<or> new_used = 0 \<or> \<not> spill) then Inr (mm', Nothing) else
     res_map (\<lambda>op. (mm', if op = Wait \<and> wait_timed_out env then Spill else op))
       (choose_operation env (mm_total mm) st old_used new_used spill forced))))"

definition update_mem_used :: "mem_env \<Rightarrow> nat \<Rightarrow> nat \<Rightarrow> mem_manager \<Rightarrow> (mem_manager \<times> operation) result" where
  "update_mem_used env cid new_used =
     update_consumer_mem_used_with_custom_updater env cid
       (\<lambda>c. (c\<lparr>mem_used := new_used\<rparr>, mem_used c, new_used)) False"

definition update_mem_used_with_diff ::
  "mem_env \<Rightarrow> nat \<Rightarrow> int \<Rightarrow> mem_manager \<Rightarrow> (mem_manager \<times> operation) result" where
  "update_mem_used_with_diff env cid diff_used =
     update_consumer_mem_used_with_custom_updater env cid
       (\<lambda>c. let new_used = (if diff_used > 0 then min (mem_used c + as_usize diff_used) (2 ^ 64 - 1)
                            else mem_used c - as_usize (- diff_used))
            in (c\<lparr>mem_used := new_used\<rparr>, mem_used c, new_used)) False"

definition force_spill :: "mem_env \<Rightarrow> nat \<Rightarrow> mem_manager \<Rightarrow> (mem_manager \<times> operation) result" where
  "force_spill env cid =
     update_consumer_mem_used_with_custom_updater env cid
       (\<lambda>c. (c, mem_used c, mem_used c + 1)) True"

section \<open>Invariant\<close>

definition sum_used :: "(nat \<times> consumer_status) list \<Rightarrow> nat" where
  "sum_used cs = sum_list (map (\<lambda>(k, c). mem_used c) cs)"

definition sum_spillable :: "(nat \<times> consumer_status) list \<Rightarrow> nat" where
  "sum_spillable cs = sum_list (map (\<lambda>(k, c). if spillable c then mem_used c else 0) cs)"

definition count_spillable :: "(nat \<times> consumer_status) list \<Rightarrow> nat" where
  "count_spillable cs = length (filter (\<lambda>(k, c). spillable c) cs)"

text \<open>
  The status mirrors the consumers, and \<open>slack\<close> bytes that no consumer holds (zero, unless a
  spill was forced).
\<close>

definition mm_inv :: "nat \<Rightarrow> mem_manager \<Rightarrow> bool" where
  "mm_inv slack mm =
     (let cs = mm_consumers mm; st = mm_status mm in
      distinct (map fst cs)
      \<and> num_consumers st = length cs
      \<and> total_used st = sum_used cs + slack
      \<and> num_spillables st = count_spillable cs
      \<and> mem_spillables st = sum_spillable cs + slack
      \<and> sum_used cs + slack < 2 ^ 63)"

section \<open>Lemmas\<close>

lemma as_isize_small: "n < 2 ^ 63 \<Longrightarrow> as_isize n = int n"
  by (simp add: as_isize_def)

lemma wrap_isize_small: "- (2 ^ 63) \<le> i \<Longrightarrow> i < 2 ^ 63 \<Longrightarrow> wrap_isize i = i"
proof (cases "0 \<le> i")
  case False
  assume "- (2 ^ 63) \<le> i" "i < 2 ^ 63"
  then have "i mod 2 ^ 64 = i + 2 ^ 64"
    using False mod_pos_pos_trivial [of "i + 2 ^ 64" "2 ^ 64"] by simp
  with False \<open>- (2 ^ 63) \<le> i\<close> show ?thesis by (simp add: wrap_isize_def)
qed (simp add: wrap_isize_def)

lemma as_usize_small: "0 \<le> i \<Longrightarrow> i < 2 ^ 64 \<Longrightarrow> as_usize i = nat i"
  by (simp add: as_usize_def)

lemmas isize_simps = as_isize_small wrap_isize_small as_usize_small

text \<open>Replacing the status of one consumer.\<close>

definition replace_status :: "nat \<Rightarrow> consumer_status \<Rightarrow> (nat \<times> consumer_status) list \<Rightarrow> (nat \<times> consumer_status) list" where
  "replace_status cid c cs = map (\<lambda>(k, c'). if k = cid then (k, c) else (k, c')) cs"

lemma replace_status_other: "cid \<notin> fst ` set cs \<Longrightarrow> replace_status cid c cs = cs"
  unfolding replace_status_def by (rule map_idI) force

lemma fst_replace_status [simp]: "map fst (replace_status cid c cs) = map fst cs"
  by (simp add: replace_status_def comp_def case_prod_unfold if_distrib cong: if_cong)

lemma length_replace_status [simp]: "length (replace_status cid c cs) = length cs"
  by (simp add: replace_status_def)

lemma replace_status_sum:
  assumes "distinct (map fst cs)" and "map_of cs cid = Some c"
  shows "sum_list (map (\<lambda>(k, c). f c) (replace_status cid c' cs)) + f c
    = sum_list (map (\<lambda>(k, c). f c) cs) + (f c' :: nat)"
  using assms
proof (induction cs)
  case (Cons kc cs)
  obtain k d where kc: "kc = (k, d)" by force
  show ?case
  proof (cases "k = cid")
    case True
    then have "replace_status cid c' cs = cs" using Cons.prems(1) kc by (simp add: replace_status_other)
    then show ?thesis using True Cons.prems kc by (simp add: replace_status_def)
  next
    case False
    with Cons kc show ?thesis by (simp add: replace_status_def)
  qed
qed simp

lemma count_spillable_sum: "count_spillable cs = sum_list (map (\<lambda>(k, c). if spillable c then 1 else 0) cs)"
  by (induction cs) (auto simp: count_spillable_def)

lemma sums_replace:
  assumes "distinct (map fst cs)" and "map_of cs cid = Some c"
  shows "sum_used (replace_status cid c' cs) + mem_used c = sum_used cs + mem_used c'"
    and "sum_spillable (replace_status cid c' cs) + (if spillable c then mem_used c else 0)
      = sum_spillable cs + (if spillable c' then mem_used c' else 0)"
    and "count_spillable (replace_status cid c' cs) + (if spillable c then 1 else 0)
      = count_spillable cs + (if spillable c' then 1 else 0)"
  using replace_status_sum [OF assms, of mem_used c']
    replace_status_sum [OF assms, of "\<lambda>c. if spillable c then mem_used c else 0" c']
    replace_status_sum [OF assms, of "\<lambda>c. if spillable c then 1 else 0" c']
  by (simp_all only: sum_used_def sum_spillable_def count_spillable_sum)

lemma member_le_sums:
  assumes "map_of cs cid = Some c"
  shows "mem_used c \<le> sum_used cs" and "spillable c \<Longrightarrow> mem_used c \<le> sum_spillable cs"
    and "spillable c \<Longrightarrow> 0 < count_spillable cs"
  using assms
  by (induction cs) (auto simp: sum_used_def sum_spillable_def count_spillable_def split: if_splits)

text \<open>Removing a consumer; the order of the rest does not matter to the sums.\<close>

lemma consumer_index_found:
  "map_of cs cid = Some c \<Longrightarrow> \<exists>i < length cs. consumer_index cid cs = Some i \<and> cs ! i = (cid, c)"
proof (induction cs)
  case (Cons kc cs)
  obtain k d where kc: "kc = (k, d)" by force
  show ?case
  proof (cases "k = cid")
    case False
    with Cons kc obtain i where "i < length cs" "consumer_index cid cs = Some i" "cs ! i = (cid, c)"
      by auto
    with False kc show ?thesis by (intro exI [of _ "Suc i"]) simp
  qed (use Cons.prems kc in auto)
qed simp

lemma swap_remove_mset:
  assumes "i < length xs"
  shows "add_mset (xs ! i) (mset (swap_remove xs i)) = mset xs"
proof -
  have ne: "xs \<noteq> []" using assms by auto
  let ?ys = "xs[i := last xs]"
  have "last ?ys = last xs" using ne assms
    by (cases "i = length xs - 1") (auto simp: last_conv_nth nth_list_update)
  then have ys: "mset ?ys = add_mset (last xs) (mset (butlast ?ys))"
    using ne append_butlast_last_id [of ?ys] by (metis list_update_nonempty mset.simps(2) mset_append
        union_mset_add_mset_right mset_single_iff_right add.right_neutral mset.simps(1))
  have "mset ?ys = add_mset (last xs) (mset xs - {#xs ! i#})"
    using assms by (simp add: mset_update)
  with ys have "mset (butlast ?ys) = mset xs - {#xs ! i#}" by simp
  then show ?thesis using assms by (simp add: swap_remove_def Let_def)
qed

lemma sums_mset:
  "sum_used cs = (\<Sum>(k, c) \<in># mset cs. mem_used c)"
  "sum_spillable cs = (\<Sum>(k, c) \<in># mset cs. if spillable c then mem_used c else 0)"
  "count_spillable cs = (\<Sum>(k, c) \<in># mset cs. if spillable c then 1 else 0)"
  by (simp_all add: sum_used_def sum_spillable_def count_spillable_sum sum_mset_sum_list flip: mset_map)

lemma sums_swap_remove:
  assumes "i < length cs" and "cs ! i = (cid, c)" and "distinct (map fst cs)"
  shows "sum_used (swap_remove cs i) + mem_used c = sum_used cs"
    and "sum_spillable (swap_remove cs i) + (if spillable c then mem_used c else 0) = sum_spillable cs"
    and "count_spillable (swap_remove cs i) + (if spillable c then 1 else 0) = count_spillable cs"
    and "length (swap_remove cs i) + 1 = length cs"
    and "distinct (map fst (swap_remove cs i))" and "cid \<notin> fst ` set (swap_remove cs i)"
proof -
  note m = swap_remove_mset [OF assms(1), symmetric, unfolded assms(2)]
  show "sum_used (swap_remove cs i) + mem_used c = sum_used cs"
    "sum_spillable (swap_remove cs i) + (if spillable c then mem_used c else 0) = sum_spillable cs"
    "count_spillable (swap_remove cs i) + (if spillable c then 1 else 0) = count_spillable cs"
    unfolding sums_mset m by simp_all
  show "length (swap_remove cs i) + 1 = length cs"
    using arg_cong [OF m, of size] by simp
  have "mset (map fst cs) = add_mset cid (mset (map fst (swap_remove cs i)))"
    using arg_cong [OF m, of "image_mset fst"] by simp
  then have "distinct (cid # map fst (swap_remove cs i))"
    using assms(3) by (metis mset.simps(2) mset_eq_imp_distinct_iff)
  then show "distinct (map fst (swap_remove cs i))" "cid \<notin> fst ` set (swap_remove cs i)" by auto
qed

section \<open>The operations keep the invariant and do not panic\<close>

lemma mm_invD:
  assumes "mm_inv slack mm"
  shows "distinct (map fst (mm_consumers mm))" "num_consumers (mm_status mm) = length (mm_consumers mm)"
    "total_used (mm_status mm) = sum_used (mm_consumers mm) + slack"
    "num_spillables (mm_status mm) = count_spillable (mm_consumers mm)"
    "mem_spillables (mm_status mm) = sum_spillable (mm_consumers mm) + slack"
    "sum_used (mm_consumers mm) + slack < 2 ^ 63"
  using assms by (auto simp: mm_inv_def Let_def)

lemma sum_spillable_le: "sum_spillable cs \<le> sum_used cs"
  by (induction cs) (auto simp: sum_spillable_def sum_used_def)

lemma consumer_info_known: "map_of (mm_consumers mm) cid = Some c \<Longrightarrow> consumer_info cid mm = Inr c"
  by (simp add: consumer_info_def)

lemma set_consumer_replace:
  "mm_consumers (set_consumer cid c mm) = replace_status cid c (mm_consumers mm)"
  "mm_status (set_consumer cid c mm) = mm_status mm" "mm_total (set_consumer cid c mm) = mm_total mm"
  by (simp_all add: set_consumer_def replace_status_def)

lemma init_manager_inv: "mm_inv 0 (init_manager total_mem)"
  by (simp add: mm_inv_def init_manager_def sum_used_def sum_spillable_def count_spillable_def)

lemma register_inv:
  "mm_inv slack mm \<Longrightarrow> cid \<notin> fst ` set (mm_consumers mm) \<Longrightarrow> mm_inv slack (register_consumer cid spill mm)"
  by (auto simp: mm_inv_def register_consumer_def Let_def sum_used_def sum_spillable_def count_spillable_def)

lemma update_total_used_ok:
  assumes "total_used st < 2 ^ 63" and "0 \<le> int (total_used st) + d" and "int (total_used st) + d < 2 ^ 63"
  shows "update_total_used_with_diff d st = Inr (st\<lparr>total_used := nat (int (total_used st) + d)\<rparr>)"
  using assms by (simp add: update_total_used_with_diff_def isize_simps Let_def)

lemma deregister_ok:
  assumes inv: "mm_inv slack mm" and c: "map_of (mm_consumers mm) cid = Some c"
  shows "\<exists>mm'. deregister_consumer cid mm = Inr mm' \<and> mm_inv slack mm' \<and> mm_total mm' = mm_total mm
    \<and> cid \<notin> fst ` set (mm_consumers mm')"
proof -
  note i = mm_invD [OF inv]
  note le = member_le_sums [OF c]
  from consumer_index_found [OF c] obtain k where
    k: "k < length (mm_consumers mm)" "consumer_index cid (mm_consumers mm) = Some k"
      "mm_consumers mm ! k = (cid, c)" by blast
  note s = sums_swap_remove [OF k(1,3) i(1)]
  let ?st = "(mm_status mm)\<lparr>num_consumers := num_consumers (mm_status mm) - 1\<rparr>"
  have "update_total_used_with_diff (- as_isize (mem_used c)) ?st
      = Inr (?st\<lparr>total_used := total_used (mm_status mm) - mem_used c\<rparr>)"
    using update_total_used_ok [of ?st "- int (mem_used c)"] i(3,6) le(1)
    by (simp add: as_isize_small nat_diff_distrib)
  then show ?thesis
    using i le s k(2) consumer_info_known [OF c]
    by (auto simp: deregister_consumer_def Let_def mm_inv_def)
qed

lemma set_spillable_ok:
  assumes inv: "mm_inv slack mm" and c: "map_of (mm_consumers mm) cid = Some c"
  shows "\<exists>mm'. set_spillable cid spill mm = Inr mm' \<and> mm_inv slack mm' \<and> mm_total mm' = mm_total mm"
proof -
  note i = mm_invD [OF inv]
  note le = member_le_sums [OF c]
  note s = sums_replace [OF i(1) c, of "c\<lparr>spillable := spill\<rparr>"]
  show ?thesis
    using i le s consumer_info_known [OF c]
    by (auto simp: set_spillable_def Let_def mm_inv_def set_consumer_replace split: if_splits)
qed

lemma choose_operation_ok:
  "0 < num_spillables st \<Longrightarrow> \<exists>op. choose_operation env total_mem st old new spill forced = Inr op"
  by (simp add: choose_operation_def Let_def)

lemma update_ok:
  assumes inv: "mm_inv slack mm" and c: "map_of (mm_consumers mm) cid = Some c"
    and u: "updater c = (c', mem_used c, mem_used c' + e)" and sp: "spillable c' = spillable c"
    and e: "0 < e \<longrightarrow> spillable c" and f: "forced \<longrightarrow> spillable c"
    and room: "sum_used (mm_consumers mm) - mem_used c + mem_used c' + e + slack < 2 ^ 63"
  shows "\<exists>mm' op. update_consumer_mem_used_with_custom_updater env cid updater forced mm = Inr (mm', op)
    \<and> mm_inv (slack + e) mm' \<and> mm_total mm' = mm_total mm
    \<and> mm_consumers mm' = replace_status cid c' (mm_consumers mm)"
proof -
  note i = mm_invD [OF inv]
  note le = member_le_sums [OF c]
  note s = sums_replace [OF i(1) c, of c']
  note sl = sum_spillable_le [of "mm_consumers mm"]
  define d where "d = int (mem_used c' + e) - int (mem_used c)"
  have dd: "wrap_isize (as_isize (mem_used c' + e) - as_isize (mem_used c)) = d"
    using room i(6) le(1) by (simp add: isize_simps d_def)
  define st1 where "st1 = (mm_status mm)\<lparr>total_used := nat (int (total_used (mm_status mm)) + d)\<rparr>"
  have t: "update_total_used_with_diff d (mm_status mm) = Inr st1"
    unfolding st1_def by (rule update_total_used_ok) (use i(3,6) le(1) room in \<open>simp_all add: d_def\<close>)
  define v where "v = int (mem_spillables (mm_status mm)) + d"
  define st2 where "st2 = (if spillable c then st1\<lparr>mem_spillables := nat v\<rparr> else st1)"
  have m: "spillable c \<Longrightarrow> wrap_isize (as_isize (mem_spillables st1) + d) = v" "spillable c \<Longrightarrow> 0 \<le> v" "v < 2 ^ 63"
    using i(5,6) le room sl by (auto simp: as_isize_small d_def v_def st1_def intro!: wrap_isize_small)
  let ?mm = "set_consumer cid c' (mm\<lparr>mm_status := st2\<rparr>)"
  have inv': "mm_inv (slack + e) ?mm"
    using i s sp e le room
    by (auto simp: mm_inv_def Let_def set_consumer_replace st2_def st1_def v_def d_def split: if_splits)
  have op: "spillable c \<Longrightarrow> \<exists>op. choose_operation env (mm_total mm) st2 (mem_used c) (mem_used c' + e) True forced = Inr op"
    by (rule choose_operation_ok) (use i(4) le(3) in \<open>simp add: st2_def st1_def\<close>)
  have "\<exists>op. update_consumer_mem_used_with_custom_updater env cid updater forced mm = Inr (?mm, op)"
  proof (cases "spillable c")
    case True
    with op obtain op where
      "choose_operation env (mm_total mm) st2 (mem_used c) (mem_used c' + e) True forced = Inr op" by blast
    with True m sp show ?thesis
      by (simp add: update_consumer_mem_used_with_custom_updater_def consumer_info_known [OF c] u dd t
          Let_def as_usize_small st2_def)
  next
    case False
    with f sp show ?thesis
      by (simp add: update_consumer_mem_used_with_custom_updater_def consumer_info_known [OF c] u dd t
          Let_def st2_def)
  qed
  with inv' show ?thesis by (auto simp: set_consumer_replace)
qed

section \<open>Runs of the manager\<close>

datatype mm_op =
    Register nat bool | Deregister nat | SetSpillable nat bool
  | UpdateUsed nat nat | UpdateDiff nat int | ForceSpill nat

text \<open>The calls, each answering the new state; what the consumer must do is dropped here.\<close>

fun exec_op :: "mem_env \<Rightarrow> mm_op \<Rightarrow> mem_manager \<Rightarrow> mem_manager result" where
  "exec_op env (Register cid spill) mm = Inr (register_consumer cid spill mm)"
| "exec_op env (Deregister cid) mm = deregister_consumer cid mm"
| "exec_op env (SetSpillable cid spill) mm = set_spillable cid spill mm"
| "exec_op env (UpdateUsed cid n) mm = res_map fst (update_mem_used env cid n mm)"
| "exec_op env (UpdateDiff cid d) mm = res_map fst (update_mem_used_with_diff env cid d mm)"
| "exec_op env (ForceSpill cid) mm = res_map fst (force_spill env cid mm)"

text \<open>
  What callers keep to: a consumer is registered once and used only while registered, only a
  spillable consumer is forced to spill, and the memory in use stays below \<open>2 ^ 63\<close> bytes.
\<close>

fun op_allowed :: "nat \<Rightarrow> mm_op \<Rightarrow> mem_manager \<Rightarrow> bool" where
  "op_allowed slack (Register cid spill) mm = (cid \<notin> fst ` set (mm_consumers mm))"
| "op_allowed slack (Deregister cid) mm = (map_of (mm_consumers mm) cid \<noteq> None)"
| "op_allowed slack (SetSpillable cid spill) mm = (map_of (mm_consumers mm) cid \<noteq> None)"
| "op_allowed slack (UpdateUsed cid n) mm =
     (map_of (mm_consumers mm) cid \<noteq> None \<and> sum_used (mm_consumers mm) + n + slack < 2 ^ 63)"
| "op_allowed slack (UpdateDiff cid d) mm =
     (map_of (mm_consumers mm) cid \<noteq> None \<and> - (2 ^ 63) \<le> d \<and> d < 2 ^ 63
      \<and> int (sum_used (mm_consumers mm) + slack) + max d 0 < 2 ^ 63)"
| "op_allowed slack (ForceSpill cid) mm =
     ((case map_of (mm_consumers mm) cid of Some c \<Rightarrow> spillable c | None \<Rightarrow> False)
      \<and> sum_used (mm_consumers mm) + slack + 1 < 2 ^ 63)"

fun forced_by :: "mm_op \<Rightarrow> nat" where
  "forced_by (ForceSpill _) = 1"
| "forced_by _ = 0"

inductive mm_run :: "nat \<Rightarrow> nat \<Rightarrow> mem_manager \<Rightarrow> bool" for total_mem where
  start: "mm_run total_mem 0 (init_manager total_mem)"
| step: "mm_run total_mem forced mm \<Longrightarrow> op_allowed forced op mm \<Longrightarrow> exec_op env op mm = Inr mm' \<Longrightarrow>
    mm_run total_mem (forced + forced_by op) mm'"

lemma exec_op_ok:
  assumes inv: "mm_inv slack mm" and allowed: "op_allowed slack op mm"
  shows "\<exists>mm'. exec_op env op mm = Inr mm' \<and> mm_inv (slack + forced_by op) mm' \<and> mm_total mm' = mm_total mm"
proof (cases op)
  case (Register cid spill)
  then show ?thesis
    using register_inv [OF inv] allowed by (simp add: register_consumer_def Let_def)
next
  case (Deregister cid)
  then show ?thesis using deregister_ok [OF inv] allowed by fastforce
next
  case (SetSpillable cid spill)
  then show ?thesis using set_spillable_ok [OF inv] allowed by fastforce
next
  case (UpdateUsed cid n)
  with allowed obtain c where c: "map_of (mm_consumers mm) cid = Some c" by auto
  have "\<exists>mm' op. update_mem_used env cid n mm = Inr (mm', op) \<and> mm_inv (slack + 0) mm'
      \<and> mm_total mm' = mm_total mm \<and> mm_consumers mm' = replace_status cid (c\<lparr>mem_used := n\<rparr>) (mm_consumers mm)"
    unfolding update_mem_used_def
    by (rule update_ok [OF inv c]) (use UpdateUsed allowed in auto)
  then show ?thesis using UpdateUsed by auto
next
  case (UpdateDiff cid d)
  with allowed obtain c where c: "map_of (mm_consumers mm) cid = Some c" by auto
  let ?n = "if d > 0 then min (mem_used c + as_usize d) (2 ^ 64 - 1) else mem_used c - as_usize (- d)"
  have n: "int ?n \<le> int (mem_used c) + max d 0"
    using UpdateDiff allowed by (auto simp: as_usize_def min_def)
  have sel: "mem_used (c\<lparr>mem_used := k\<rparr>) = k" for k by simp
  have room: "sum_used (mm_consumers mm) - mem_used c + k + slack < 2 ^ 63"
    if "int k \<le> int (mem_used c) + max d 0" for k
    using that member_le_sums(1) [OF c] UpdateDiff allowed by auto
  have "\<exists>mm' op. update_mem_used_with_diff env cid d mm = Inr (mm', op) \<and> mm_inv (slack + 0) mm'
      \<and> mm_total mm' = mm_total mm \<and> mm_consumers mm' = replace_status cid (c\<lparr>mem_used := ?n\<rparr>) (mm_consumers mm)"
    unfolding update_mem_used_with_diff_def
  proof (rule update_ok [OF inv c])
    show "sum_used (mm_consumers mm) - mem_used c + mem_used (c\<lparr>mem_used := ?n\<rparr>) + 0 + slack < 2 ^ 63"
      using room [OF n] by (simp only: sel add_0_right)
  qed (simp_all add: Let_def)
  then show ?thesis using UpdateDiff by auto
next
  case (ForceSpill cid)
  with allowed obtain c where c: "map_of (mm_consumers mm) cid = Some c" "spillable c"
    by (auto split: option.splits)
  have "\<exists>mm' op. force_spill env cid mm = Inr (mm', op) \<and> mm_inv (slack + 1) mm'
      \<and> mm_total mm' = mm_total mm \<and> mm_consumers mm' = replace_status cid c (mm_consumers mm)"
    unfolding force_spill_def
    by (rule update_ok [OF inv c(1)]) (use c ForceSpill allowed member_le_sums(1) [OF c(1)] in simp_all)
  then show ?thesis using ForceSpill by auto
qed

lemma mm_run_inv: "mm_run total_mem forced mm \<Longrightarrow> mm_inv forced mm \<and> mm_total mm = total_mem"
proof (induction rule: mm_run.induct)
  case start
  then show ?case using init_manager_inv by (simp add: init_manager_def)
next
  case (step forced mm op env mm')
  then show ?case using exec_op_ok [of forced mm op env] by auto
qed

section \<open>Properties\<close>

text \<open>
  C8: In every state the manager reaches, through any interleaving of registrations,
  deregistrations, updates, changes of spillability and forced spills by its consumers, the
  counters of the manager agree with the consumers: the number of consumers and of spillable
  ones, and the memory in use and spillable, up to one byte for every forced spill so far.
\<close>

theorem mem_manager_accounting:
  assumes "mm_run total_mem forced mm"
  shows "mm_inv forced mm \<and> mm_total mm = total_mem"
  using mm_run_inv [OF assms] .

theorem mem_manager_accounting_witness:
  "mm_inv 0 (register_consumer 1 True (init_manager 100))"
proof -
  have "mm_run 100 (0 + forced_by (Register 1 True)) (register_consumer 1 True (init_manager 100))"
    by (rule mm_run.step [OF mm_run.start]) (simp_all add: init_manager_def)
  from mem_manager_accounting [OF this] show ?thesis by simp
qed

text \<open>
  C9: No call panics: in every reachable state, every call its caller is allowed to make
  succeeds.  The assertions on the counters hold, and the number of spillable consumers by which
  the managed memory is divided is not zero.
\<close>

theorem mem_manager_no_panic:
  assumes "mm_run total_mem forced mm" and "op_allowed forced op mm"
  shows "\<exists>mm'. exec_op env op mm = Inr mm'"
  using exec_op_ok [OF _ assms(2)] mm_run_inv [OF assms(1)] by blast

theorem mem_manager_no_panic_witness:
  "\<exists>mm'. exec_op \<lparr>jvm_direct_used = 0, proc_max = 0, proc_used = 0, wait_timed_out = False\<rparr>
     (UpdateUsed 1 50) (register_consumer 1 True (init_manager 100)) = Inr mm'"
proof -
  have "mm_run 100 (0 + forced_by (Register 1 True)) (register_consumer 1 True (init_manager 100))"
    by (rule mm_run.step [OF mm_run.start]) (simp_all add: init_manager_def)
  moreover have "op_allowed (0 + forced_by (Register 1 True)) (UpdateUsed 1 50)
      (register_consumer 1 True (init_manager 100))"
    by (simp add: register_consumer_def init_manager_def sum_used_def Let_def)
  ultimately show ?thesis by (rule mem_manager_no_panic)
qed

lemma consumer_info_set_consumer:
  "consumer_info cid mm = Inr c \<Longrightarrow> consumer_info cid (set_consumer cid c' (mm\<lparr>mm_status := st\<rparr>)) = Inr c'"
proof -
  assume "consumer_info cid mm = Inr c"
  then have "map_of (mm_consumers mm) cid = Some c" by (simp add: consumer_info_def split: option.splits)
  moreover have "map_of xs cid = Some c \<Longrightarrow> map_of (map (\<lambda>(k, d). if k = cid then (k, c') else (k, d)) xs) cid = Some c'" for xs
    by (induction xs) (auto split: if_splits)
  ultimately show ?thesis by (simp add: consumer_info_def set_consumer_def)
qed

text \<open>The condition under which an update asks for more than nothing, from the figures after the update.\<close>

definition over_limits :: "mem_env \<Rightarrow> nat \<Rightarrow> manager_status \<Rightarrow> nat \<Rightarrow> bool" where
  "over_limits env total_mem st n =
     (let managed = total_mem - jvm_direct_used env - (total_used st - mem_spillables st)
      in managed < total_used st \<or> managed div num_spillables st < n \<or> proc_max env < proc_used env)"

lemma unforced_update:
  assumes run: "update_consumer_mem_used_with_custom_updater env cid upd False mm = Inr (mm', op)" and "op \<noteq> Nothing"
    and upd: "\<And>c. upd c = (c\<lparr>mem_used := f c\<rparr>, mem_used c, f c)"
  shows "\<exists>c c'. consumer_info cid mm = Inr c \<and> consumer_info cid mm' = Inr c' \<and> spillable c \<and> mem_used c \<noteq> 0
    \<and> mem_used c < mem_used c' \<and> MIN_TRIGGER_SIZE < mem_used c' \<and> over_limits env (mm_total mm) (mm_status mm') (mem_used c')"
proof -
  from run obtain c where c: "consumer_info cid mm = Inr c"
    by (auto simp: update_consumer_mem_used_with_custom_updater_def res_bind_Inr_iff)
  with run assms(2) obtain st where
    st: "mm' = set_consumer cid (c\<lparr>mem_used := f c\<rparr>) (mm\<lparr>mm_status := st\<rparr>)" "spillable c" "mem_used c \<noteq> 0"
      "mem_used c < f c" "MIN_TRIGGER_SIZE < f c" "over_limits env (mm_total mm) st (f c)"
    by (auto simp: update_consumer_mem_used_with_custom_updater_def upd Let_def res_bind_Inr_iff choose_operation_def
        over_limits_def res_map_def split: if_splits sum.splits)
  with c consumer_info_set_consumer [OF c, of "c\<lparr>mem_used := f c\<rparr>" st] show ?thesis
    by (auto simp: set_consumer_replace)
qed

text \<open>
  C32: An update of the memory in use, absolute or by a difference, that is not forced asks the
  consumer to spill or to wait only when the consumer is spillable, held memory before, has just
  grown, now holds more than \<open>MIN_TRIGGER_SIZE\<close> bytes, and the pool, its own share or the process is
  over its limit.
\<close>

theorem spill_only_when_needed:
  assumes "update_mem_used env cid n mm = Inr (mm', op) \<or> update_mem_used_with_diff env cid d mm = Inr (mm', op)" and "op \<noteq> Nothing"
  shows "\<exists>c c'. consumer_info cid mm = Inr c \<and> consumer_info cid mm' = Inr c' \<and> spillable c \<and> mem_used c \<noteq> 0
    \<and> mem_used c < mem_used c' \<and> MIN_TRIGGER_SIZE < mem_used c' \<and> over_limits env (mm_total mm) (mm_status mm') (mem_used c')"
  using assms(1)
proof
  assume "update_mem_used env cid n mm = Inr (mm', op)"
  from unforced_update [OF this [unfolded update_mem_used_def] assms(2)] show ?thesis by simp
next
  assume "update_mem_used_with_diff env cid d mm = Inr (mm', op)"
  from unforced_update [OF this [unfolded update_mem_used_with_diff_def Let_def] assms(2)] show ?thesis by simp
qed

text \<open>A consumer of 16 MiB that grows to 64 MiB in a pool of 32 MiB is asked to spill.\<close>

theorem spill_only_when_needed_witness:
  "\<exists>mm' c'. update_mem_used \<lparr>jvm_direct_used = 0, proc_max = 0, proc_used = 0, wait_timed_out = False\<rparr> 1 (2 ^ 26)
       (mem_manager.make (2 ^ 25) [(1, \<lparr>mem_used = 2 ^ 24, spillable = True\<rparr>)]
         \<lparr>num_consumers = 1, total_used = 2 ^ 24, num_spillables = 1, mem_spillables = 2 ^ 24\<rparr>) = Inr (mm', Spill)
     \<and> Spill \<noteq> Nothing \<and> consumer_info 1 mm' = Inr c' \<and> 2 ^ 24 < mem_used c' \<and> MIN_TRIGGER_SIZE < mem_used c'
     \<and> over_limits \<lparr>jvm_direct_used = 0, proc_max = 0, proc_used = 0, wait_timed_out = False\<rparr> (2 ^ 25) (mm_status mm') (mem_used c')"
proof -
  let ?mm = "mem_manager.make (2 ^ 25) [(1, \<lparr>mem_used = 2 ^ 24, spillable = True\<rparr>)]
    \<lparr>num_consumers = 1, total_used = 2 ^ 24, num_spillables = 1, mem_spillables = 2 ^ 24\<rparr>"
  let ?env = "\<lparr>jvm_direct_used = 0, proc_max = 0, proc_used = 0, wait_timed_out = False\<rparr>"
  obtain mm' where run: "update_mem_used ?env 1 (2 ^ 26) ?mm = Inr (mm', Spill)"
    by (simp add: update_mem_used_def update_consumer_mem_used_with_custom_updater_def Let_def
        mem_manager.make_def consumer_info_def update_total_used_with_diff_def isize_simps
        choose_operation_def MIN_TRIGGER_SIZE_def as_isize_def wrap_isize_def as_usize_def)
  have total: "mm_total ?mm = 2 ^ 25" by (simp add: mem_manager.make_def)
  have old: "consumer_info 1 ?mm = Inr \<lparr>mem_used = 2 ^ 24, spillable = True\<rparr>" by (simp add: mem_manager.make_def consumer_info_def)
  have "Spill \<noteq> Nothing" by simp
  from spill_only_when_needed [OF disjI1 [OF run] this] obtain c c' where
    "consumer_info 1 ?mm = Inr c" "consumer_info 1 mm' = Inr c'" "mem_used c < mem_used c'" "MIN_TRIGGER_SIZE < mem_used c'"
    "over_limits ?env (mm_total ?mm) (mm_status mm') (mem_used c')" by blast
  moreover from this(1) old have "mem_used c = 2 ^ 24" by auto
  ultimately show ?thesis using run \<open>Spill \<noteq> Nothing\<close> unfolding total by metis
qed

text \<open>
  A forced spill adds a byte to the memory in use that no consumer holds: after a consumer is
  forced to spill, releases its memory and is deregistered, the manager of no consumers still
  counts one byte in use.
\<close>

lemma force_spill_leaks_a_byte:
  "\<exists>mm. res_bind (force_spill env 1 (register_consumer 1 True (init_manager total_mem)))
       (\<lambda>(mm, op). res_bind (update_mem_used env 1 0 mm) (\<lambda>(mm, op). deregister_consumer 1 mm)) = Inr mm
     \<and> mm_consumers mm = [] \<and> total_used (mm_status mm) = 1"
  by (simp add: force_spill_def update_mem_used_def update_consumer_mem_used_with_custom_updater_def
      Let_def register_consumer_def init_manager_def consumer_info_def update_total_used_with_diff_def
      as_isize_def wrap_isize_def as_usize_def choose_operation_def set_consumer_def
      deregister_consumer_def swap_remove_def)

end
