(* ===== verification/Bloom_Filter.thy ===== *)
theory Bloom_Filter
  imports Hash Io_Codec Arrow_Array
begin

text \<open>
  The Bloom filter shared with Spark: \<open>datafusion-ext-commons/src/spark_bit_array.rs\<close> and
  \<open>spark_bloom_filter.rs\<close>.  An index outside the bit array is undefined behaviour in the code
  (\<open>assume!\<close>) and \<open>Inl Panic\<close> here, so an \<open>Inr\<close> result also says that no such access happens.
  The two 32-bit hashes of an item and the positions derived from them are computed on words.
  The choice of the number of hash functions from the expected number of items is floating-point
  arithmetic and not modelled: the number is an argument.
\<close>

unbundle bit_operations_syntax

section \<open>Bit array\<close>

record spark_bit_array =
  ba_data :: "u64 list"

definition new_with_num_bits :: "nat \<Rightarrow> spark_bit_array result" where
  "new_with_num_bits num_bits =
     (if \<not> 0 < num_bits then Inl Panic
      else if \<not> int num_bits \<le> 2 ^ 31 - 1 then Inl Panic
      else Inr \<lparr>ba_data = replicate ((num_bits + 63) div 64) 0\<rparr>)"

definition read_i32_be :: "u32 reader" where
  "read_i32_be = rd_bind (read_exact 4) (\<lambda>bs. rd_return (of_be_bytes bs))"

definition read_i64_be :: "u64 reader" where
  "read_i64_be = rd_bind (read_exact 8) (\<lambda>bs. rd_return (of_be_bytes bs))"

text \<open>A negative length cast to \<open>usize\<close> is an allocation that panics.\<close>

definition ba_read_from :: "spark_bit_array reader" where
  "ba_read_from =
     rd_bind read_i32_be (\<lambda>data_len.
       if sint data_len < 0 then (\<lambda>_. Inl Panic)
       else rd_bind (rd_repeat (unat data_len) read_i64_be) (\<lambda>data. rd_return \<lparr>ba_data = data\<rparr>))"

definition ba_write_to :: "spark_bit_array \<Rightarrow> bytes" where
  "ba_write_to ba =
     be_bytes 4 (of_nat (length (ba_data ba)) :: u32) @ concat (map (be_bytes 8) (ba_data ba))"

definition ba_set :: "nat \<Rightarrow> spark_bit_array \<Rightarrow> spark_bit_array result" where
  "ba_set index ba =
     (let data_offset = index div 64; bit_offset = index mod 64
      in if data_offset < length (ba_data ba)
         then Inr (ba\<lparr>ba_data := (ba_data ba)[data_offset := ba_data ba ! data_offset OR push_bit bit_offset 1]\<rparr>)
         else Inl Panic)"

definition ba_get :: "nat \<Rightarrow> spark_bit_array \<Rightarrow> bool result" where
  "ba_get index ba =
     (let data_offset = index div 64; bit_offset = index mod 64
      in if data_offset < length (ba_data ba)
         then Inr (drop_bit bit_offset (ba_data ba ! data_offset) AND 1 = 1) else Inl Panic)"

definition ba_put_all :: "spark_bit_array \<Rightarrow> spark_bit_array \<Rightarrow> spark_bit_array result" where
  "ba_put_all ba other =
     (if length (ba_data ba) = length (ba_data other)
      then Inr (ba\<lparr>ba_data := map2 (OR) (ba_data ba) (ba_data other)\<rparr>) else Inl Panic)"

definition ba_and :: "spark_bit_array \<Rightarrow> spark_bit_array \<Rightarrow> spark_bit_array result" where
  "ba_and ba other =
     (if length (ba_data ba) = length (ba_data other)
      then Inr (ba\<lparr>ba_data := map2 (AND) (ba_data ba) (ba_data other)\<rparr>) else Inl Panic)"

definition ba_mem_size :: "spark_bit_array \<Rightarrow> nat" where
  "ba_mem_size ba = length (ba_data ba) * 8"

definition ba_bit_size :: "spark_bit_array \<Rightarrow> nat" where
  "ba_bit_size ba = length (ba_data ba) * 64"

definition count_ones :: "u64 \<Rightarrow> nat" where
  "count_ones w = length (filter (\<lambda>i. bit w i) [0..<64])"

definition ba_true_count :: "spark_bit_array \<Rightarrow> nat" where
  "ba_true_count ba = sum_list (map count_ones (ba_data ba))"

section \<open>Bloom filter\<close>

record spark_bloom_filter =
  bf_bits :: spark_bit_array
  bf_num_hash_functions :: nat

definition new_with_num_hash_functions :: "nat \<Rightarrow> nat \<Rightarrow> spark_bloom_filter result" where
  "new_with_num_hash_functions k num_bits =
     res_map (\<lambda>b. \<lparr>bf_bits = b, bf_num_hash_functions = k\<rparr>) (new_with_num_bits num_bits)"

definition bf_read_from :: "spark_bloom_filter reader" where
  "bf_read_from =
     rd_bind read_i32_be (\<lambda>version.
       if version \<noteq> 1 then (\<lambda>_. Inl ExecutionErr)
       else rd_bind read_i32_be (\<lambda>k.
            rd_bind ba_read_from (\<lambda>b.
              rd_return \<lparr>bf_bits = b, bf_num_hash_functions = unat (scast k :: usize)\<rparr>)))"

definition bf_write_to :: "spark_bloom_filter \<Rightarrow> bytes" where
  "bf_write_to bf = be_bytes 4 (1 :: u32) @ be_bytes 4 (of_nat (bf_num_hash_functions bf) :: u32)
     @ ba_write_to (bf_bits bf)"

definition bf_mem_size :: "spark_bloom_filter \<Rightarrow> nat" where
  "bf_mem_size bf = ba_mem_size (bf_bits bf) + 8"

text \<open>\<open>1..=self.num_hash_functions as i32\<close>.\<close>

definition hash_rounds :: "nat \<Rightarrow> nat list" where
  "hash_rounds k = [1..<nat (sint (of_nat k :: u32)) + 1]"

text \<open>
  \<open>h1 + i * h2\<close>, flipped when negative, modulo the bit size (as \<open>i32\<close>; the remainder of a
  non-negative number takes the modulus of either sign).  A bit size of zero panics.
\<close>

definition combined_hash :: "u32 \<Rightarrow> u32 \<Rightarrow> nat \<Rightarrow> u32" where
  "combined_hash h1 h2 i =
     (let combined = h1 + of_nat i * h2
      in combined XOR (if sint combined < 0 then - 1 else 0))"

definition bit_position :: "nat \<Rightarrow> u32 \<Rightarrow> nat result" where
  "bit_position bit_size combined =
     (let m = sint (of_nat bit_size :: u32)
      in if m = 0 then Inl Panic else Inr (nat (sint combined mod \<bar>m\<bar>)))"

text \<open>The loop of \<open>put_long\<close> and \<open>put_binary\<close>, and that of the two lookups.\<close>

fun put_rounds :: "u32 \<Rightarrow> u32 \<Rightarrow> nat \<Rightarrow> nat list \<Rightarrow> spark_bit_array \<Rightarrow> spark_bit_array result" where
  "put_rounds h1 h2 m [] ba = Inr ba"
| "put_rounds h1 h2 m (i # is) ba =
     res_bind (bit_position m (combined_hash h1 h2 i)) (\<lambda>p.
     res_bind (ba_set p ba) (\<lambda>ba'. put_rounds h1 h2 m is ba'))"

fun test_rounds :: "u32 \<Rightarrow> u32 \<Rightarrow> nat \<Rightarrow> nat list \<Rightarrow> spark_bit_array \<Rightarrow> bool result" where
  "test_rounds h1 h2 m [] ba = Inr True"
| "test_rounds h1 h2 m (i # is) ba =
     res_bind (bit_position m (combined_hash h1 h2 i)) (\<lambda>p.
     res_bind (ba_get p ba) (\<lambda>b. if b then test_rounds h1 h2 m is ba else Inr False))"

definition put_long :: "u64 \<Rightarrow> spark_bloom_filter \<Rightarrow> spark_bloom_filter result" where
  "put_long item bf =
     (let h1 = spark_compatible_murmur3_hash_long item 0;
          h2 = spark_compatible_murmur3_hash_long item h1
      in res_map (\<lambda>b. bf\<lparr>bf_bits := b\<rparr>)
           (put_rounds h1 h2 (ba_bit_size (bf_bits bf)) (hash_rounds (bf_num_hash_functions bf)) (bf_bits bf)))"

definition might_contain_long :: "u64 \<Rightarrow> spark_bloom_filter \<Rightarrow> bool result" where
  "might_contain_long item bf =
     (let h1 = spark_compatible_murmur3_hash_long item 0;
          h2 = spark_compatible_murmur3_hash_long item h1
      in test_rounds h1 h2 (ba_bit_size (bf_bits bf)) (hash_rounds (bf_num_hash_functions bf)) (bf_bits bf))"

definition murmur3 :: "bytes \<Rightarrow> u32 \<Rightarrow> u32 result" where
  "murmur3 bs seed = (case spark_compatible_murmur3_hash bs seed of Some h \<Rightarrow> Inr h | None \<Rightarrow> Inl Panic)"

definition put_binary :: "bytes \<Rightarrow> spark_bloom_filter \<Rightarrow> spark_bloom_filter result" where
  "put_binary item bf =
     res_bind (murmur3 item 0) (\<lambda>h1. res_bind (murmur3 item h1) (\<lambda>h2.
       res_map (\<lambda>b. bf\<lparr>bf_bits := b\<rparr>)
         (put_rounds h1 h2 (ba_bit_size (bf_bits bf)) (hash_rounds (bf_num_hash_functions bf)) (bf_bits bf))))"

definition might_contain_binary :: "bytes \<Rightarrow> spark_bloom_filter \<Rightarrow> bool result" where
  "might_contain_binary item bf =
     res_bind (murmur3 item 0) (\<lambda>h1. res_bind (murmur3 item h1) (\<lambda>h2.
       test_rounds h1 h2 (ba_bit_size (bf_bits bf)) (hash_rounds (bf_num_hash_functions bf)) (bf_bits bf)))"

text \<open>
  The batched lookup: all first hashes, then all second hashes, then a bitmap in which bit \<open>i\<close>
  is set when item \<open>i\<close> passes every round.
\<close>

fun longs_loop :: "spark_bloom_filter \<Rightarrow> nat \<Rightarrow> (u32 \<times> u32) list \<Rightarrow> bytes \<Rightarrow> bytes result" where
  "longs_loop bf i [] buf = Inr buf"
| "longs_loop bf i ((h1, h2) # hs) buf =
     res_bind (test_rounds h1 h2 (ba_bit_size (bf_bits bf)) (hash_rounds (bf_num_hash_functions bf)) (bf_bits bf))
       (\<lambda>b. longs_loop bf (i + 1) hs (if b then set_bit_raw buf i else buf))"

definition might_contain_longs :: "u64 list \<Rightarrow> spark_bloom_filter \<Rightarrow> bytes result" where
  "might_contain_longs vals bf =
     (let h1s = map (\<lambda>v. spark_compatible_murmur3_hash_long v 0) vals;
          h2s = map2 spark_compatible_murmur3_hash_long vals h1s
      in longs_loop bf 0 (zip h1s h2s) (replicate ((length vals + 7) div 8) 0))"

definition bf_put_all :: "spark_bloom_filter \<Rightarrow> spark_bloom_filter \<Rightarrow> spark_bloom_filter result" where
  "bf_put_all bf other =
     (if bf_num_hash_functions bf = bf_num_hash_functions other
      then res_map (\<lambda>b. bf\<lparr>bf_bits := b\<rparr>) (ba_put_all (bf_bits bf) (bf_bits other)) else Inl Panic)"

fun fold_bits :: "nat \<Rightarrow> spark_bit_array \<Rightarrow> nat list \<Rightarrow> spark_bit_array \<Rightarrow> spark_bit_array result" where
  "fold_bits n old [] ba = Inr ba"
| "fold_bits n old (i # is) ba =
     res_bind (ba_get i old) (\<lambda>b.
       if b then res_bind (ba_set (i mod n) ba) (\<lambda>ba'. fold_bits n old is ba') else fold_bits n old is ba)"

definition shrinked_num_bits :: "spark_bloom_filter \<Rightarrow> nat" where
  "shrinked_num_bits bf =
     next_power_of_two (max (bf_num_hash_functions bf * ba_true_count (bf_bits bf) * 2) 1)"

definition shrink_to_fit :: "spark_bloom_filter \<Rightarrow> spark_bloom_filter result" where
  "shrink_to_fit bf =
     (let num_bits = ba_bit_size (bf_bits bf); n = shrinked_num_bits bf
      in if num_bits \<le> n then Inr bf
         else res_bind (new_with_num_bits n) (\<lambda>fresh.
              res_map (\<lambda>b. bf\<lparr>bf_bits := b\<rparr>) (fold_bits n (bf_bits bf) [0..<num_bits] fresh)))"

section \<open>Lemmas on bits\<close>

definition ba_bit :: "spark_bit_array \<Rightarrow> nat \<Rightarrow> bool" where
  "ba_bit ba i = bit (ba_data ba ! (i div 64)) (i mod 64)"

lemma in_range_iff: "i div 64 < length (ba_data ba) \<longleftrightarrow> i < ba_bit_size ba"
  by (simp add: ba_bit_size_def less_mult_imp_div_less div_less_iff_less_mult)

lemma ba_get_bit: "i < ba_bit_size ba \<Longrightarrow> ba_get i ba = Inr (ba_bit ba i)"
proof -
  assume i: "i < ba_bit_size ba"
  have "(drop_bit k w AND 1 = 1) = bit w k" for w :: u64 and k
    by (simp add: and_one_eq bit_iff_odd_drop_bit mod_2_eq_odd)
  with i show ?thesis by (simp add: ba_get_def ba_bit_def Let_def in_range_iff)
qed

lemma ba_set_bit:
  assumes "i < ba_bit_size ba"
  shows "\<exists>ba'. ba_set i ba = Inr ba' \<and> length (ba_data ba') = length (ba_data ba)
    \<and> (\<forall>j < ba_bit_size ba. ba_bit ba' j = (j = i \<or> ba_bit ba j))"
proof -
  have d: "i div 64 < length (ba_data ba)" using assms by (simp add: in_range_iff)
  have "j = i \<longleftrightarrow> j div 64 = i div 64 \<and> j mod 64 = i mod 64" for j
    by (metis div_mult_mod_eq)
  then have "bit ((ba_data ba)[i div 64 := ba_data ba ! (i div 64) OR push_bit (i mod 64) 1] ! (j div 64)) (j mod 64)
      = (j = i \<or> ba_bit ba j)" if "j < ba_bit_size ba" for j
    using d that by (auto simp: ba_bit_def in_range_iff nth_list_update bit_simps)
  with d show ?thesis by (simp add: ba_set_def Let_def) (simp add: ba_bit_def)
qed

definition position :: "nat \<Rightarrow> u32 \<Rightarrow> nat" where
  "position m c = nat (sint c mod int m)"

lemma bit_position_ok:
  assumes "0 < m" and "m \<le> 2 ^ 31"
  shows "bit_position m c = Inr (position m c)" and "position m c < m"
proof -
  have "\<bar>sint (of_nat m :: u32)\<bar> = int m"
  proof (cases "m = 2 ^ 31")
    case True
    have "sint (of_nat (2 ^ 31) :: u32) = - (2 ^ 31)" by simp
    with True show ?thesis by simp
  next
    case False
    then have "sint (of_nat m :: u32) = int m"
      using assms by (simp add: signed_of_nat signed_take_bit_int_eq_self)
    then show ?thesis by simp
  qed
  with assms show "bit_position m c = Inr (position m c)"
    by (auto simp: bit_position_def position_def Let_def)
  show "position m c < m" using assms(1) by (simp add: position_def nat_less_iff)
qed

definition touched :: "nat \<Rightarrow> u32 \<Rightarrow> u32 \<Rightarrow> nat list \<Rightarrow> nat set" where
  "touched m h1 h2 js = (\<lambda>i. position m (combined_hash h1 h2 i)) ` set js"

lemma put_rounds_ok:
  assumes "0 < m" and "m \<le> 2 ^ 31" and "ba_bit_size ba = m"
  shows "\<exists>ba'. put_rounds h1 h2 m js ba = Inr ba' \<and> length (ba_data ba') = length (ba_data ba)
    \<and> (\<forall>j < m. ba_bit ba' j = (j \<in> touched m h1 h2 js \<or> ba_bit ba j))"
  using assms(3)
proof (induction js arbitrary: ba)
  case (Cons i js)
  note bp = bit_position_ok [OF assms(1,2), of "combined_hash h1 h2 i"]
  from ba_set_bit [of "position m (combined_hash h1 h2 i)" ba] bp(2) Cons.prems obtain ba1 where
    ba1: "ba_set (position m (combined_hash h1 h2 i)) ba = Inr ba1"
      "length (ba_data ba1) = length (ba_data ba)"
      "\<forall>j < m. ba_bit ba1 j = (j = position m (combined_hash h1 h2 i) \<or> ba_bit ba j)" by auto
  have "ba_bit_size ba1 = m" using ba1(2) Cons.prems by (simp add: ba_bit_size_def)
  from Cons.IH [OF this] ba1 show ?case by (auto simp: bp touched_def)
qed (simp add: touched_def)

lemma test_rounds_ok:
  assumes "0 < m" and "m \<le> 2 ^ 31" and "ba_bit_size ba = m"
  shows "test_rounds h1 h2 m js ba = Inr (\<forall>p \<in> touched m h1 h2 js. ba_bit ba p)"
proof (induction js)
  case (Cons i js)
  note bp = bit_position_ok [OF assms(1,2), of "combined_hash h1 h2 i"]
  from Cons show ?case by (simp add: bp ba_get_bit assms(3) touched_def)
qed (simp add: touched_def)

section \<open>The filter as a set of hash pairs\<close>

definition bf_wf :: "spark_bloom_filter \<Rightarrow> bool" where
  "bf_wf bf = (0 < ba_bit_size (bf_bits bf) \<and> ba_bit_size (bf_bits bf) \<le> 2 ^ 31)"

text \<open>What both lookups decide: every position of the item's hash pair is set.\<close>

definition passes :: "spark_bloom_filter \<Rightarrow> u32 \<times> u32 \<Rightarrow> bool" where
  "passes bf = (\<lambda>(h1, h2). \<forall>p \<in> touched (ba_bit_size (bf_bits bf)) h1 h2 (hash_rounds (bf_num_hash_functions bf)).
     ba_bit (bf_bits bf) p)"

definition long_hashes :: "u64 \<Rightarrow> u32 \<times> u32" where
  "long_hashes item = (let h1 = spark_compatible_murmur3_hash_long item 0
     in (h1, spark_compatible_murmur3_hash_long item h1))"

definition binary_hashes :: "bytes \<Rightarrow> u32 \<times> u32" where
  "binary_hashes item = (let h1 = the (spark_compatible_murmur3_hash item 0)
     in (h1, the (spark_compatible_murmur3_hash item h1)))"

lemma lookup_passes:
  assumes "bf_wf bf"
  shows "might_contain_long item bf = Inr (passes bf (long_hashes item))"
    and "might_contain_binary bs bf = Inr (passes bf (binary_hashes bs))"
proof -
  note t = test_rounds_ok [of "ba_bit_size (bf_bits bf)" "bf_bits bf"]
  show "might_contain_long item bf = Inr (passes bf (long_hashes item))"
    using assms t by (simp add: might_contain_long_def passes_def long_hashes_def Let_def bf_wf_def)
  show "might_contain_binary bs bf = Inr (passes bf (binary_hashes bs))"
    using assms t murmur3_total [of bs 0] murmur3_total [of bs "fst (binary_hashes bs)"]
    by (auto simp: might_contain_binary_def murmur3_def passes_def binary_hashes_def Let_def bf_wf_def)
qed

lemma insert_passes:
  assumes "bf_wf bf"
  shows "\<exists>b. put_rounds h1 h2 (ba_bit_size (bf_bits bf)) (hash_rounds (bf_num_hash_functions bf)) (bf_bits bf) = Inr b
    \<and> (let bf' = bf\<lparr>bf_bits := b\<rparr> in bf_wf bf' \<and> passes bf' (h1, h2) \<and> (\<forall>h. passes bf h \<longrightarrow> passes bf' h))"
proof -
  let ?m = "ba_bit_size (bf_bits bf)" and ?js = "hash_rounds (bf_num_hash_functions bf)"
  have m: "0 < ?m" "?m \<le> 2 ^ 31" using assms by (auto simp: bf_wf_def)
  from put_rounds_ok [OF m refl, of h1 h2 ?js] obtain b where b:
    "put_rounds h1 h2 ?m ?js (bf_bits bf) = Inr b" "length (ba_data b) = length (ba_data (bf_bits bf))"
    "\<forall>j < ?m. ba_bit b j = (j \<in> touched ?m h1 h2 ?js \<or> ba_bit (bf_bits bf) j)" by blast
  have sz: "ba_bit_size b = ?m" using b(2) by (simp add: ba_bit_size_def)
  have lt: "p < ?m" if "p \<in> touched ?m g1 g2 ?js" for p g1 g2
    using that bit_position_ok(2) [OF m] by (auto simp: touched_def)
  from b sz lt m show ?thesis by (auto simp: bf_wf_def passes_def Let_def)
qed

lemma merge_passes:
  assumes "bf_num_hash_functions bf = bf_num_hash_functions other"
    and "length (ba_data (bf_bits bf)) = length (ba_data (bf_bits other))" and "bf_wf bf"
  shows "\<exists>bf'. bf_put_all bf other = Inr bf' \<and> bf_wf bf'
    \<and> (\<forall>h. passes bf h \<or> passes other h \<longrightarrow> passes bf' h)"
proof -
  let ?b = "(bf_bits bf)\<lparr>ba_data := map2 (OR) (ba_data (bf_bits bf)) (ba_data (bf_bits other))\<rparr>"
  let ?m = "ba_bit_size (bf_bits bf)"
  have m: "0 < ?m" "?m \<le> 2 ^ 31" using assms(3) by (auto simp: bf_wf_def)
  have sz: "ba_bit_size ?b = ?m" "ba_bit_size (bf_bits other) = ?m"
    using assms(2) by (simp_all add: ba_bit_size_def)
  have bits: "ba_bit ?b j = (ba_bit (bf_bits bf) j \<or> ba_bit (bf_bits other) j)" if "j < ?m" for j
    using that assms(2) by (simp add: ba_bit_def in_range_iff [symmetric] bit_simps)
  have lt: "p < ?m" if "p \<in> touched ?m g1 g2 js" for p g1 g2 js
    using that bit_position_ok(2) [OF m] by (auto simp: touched_def)
  show ?thesis
    using assms m sz bits lt by (auto simp: bf_put_all_def ba_put_all_def bf_wf_def passes_def)
qed

lemma longs_loop_ok:
  assumes "bf_wf bf"
  shows "i + length hs \<le> 8 * length buf \<Longrightarrow>
    \<exists>buf'. longs_loop bf i hs buf = Inr buf' \<and> length buf' = length buf
      \<and> (\<forall>k < 8 * length buf. get_bit_raw buf' k =
           (get_bit_raw buf k \<or> (i \<le> k \<and> k < i + length hs \<and> passes bf (hs ! (k - i)))))"
proof (induction hs arbitrary: i buf)
  case (Cons h hs)
  obtain h1 h2 where h: "h = (h1, h2)" by force
  have t: "test_rounds h1 h2 (ba_bit_size (bf_bits bf)) (hash_rounds (bf_num_hash_functions bf)) (bf_bits bf)
      = Inr (passes bf h)"
    using assms test_rounds_ok [of "ba_bit_size (bf_bits bf)" "bf_bits bf"] by (simp add: bf_wf_def passes_def h)
  let ?buf = "if passes bf h then set_bit_raw buf i else buf"
  have len: "length ?buf = length buf" by (simp add: set_bit_raw_def)
  have i8: "i div 8 < length buf" using Cons.prems by (simp add: less_mult_imp_div_less mult.commute)
  have bits: "get_bit_raw ?buf k = (get_bit_raw buf k \<or> k = i \<and> passes bf h)" if "k < 8 * length buf" for k
  proof -
    have "k div 8 < length buf" using that by (simp add: less_mult_imp_div_less mult.commute)
    then show ?thesis using get_set_bit_raw [OF i8] by auto
  qed
  have "i + 1 + length hs \<le> 8 * length ?buf" using Cons.prems unfolding len by simp
  from Cons.IH [OF this] obtain buf' where buf': "longs_loop bf (i + 1) hs ?buf = Inr buf'"
    "length buf' = length buf"
    "\<forall>k < 8 * length buf. get_bit_raw buf' k =
       (get_bit_raw ?buf k \<or> (i + 1 \<le> k \<and> k < i + 1 + length hs \<and> passes bf (hs ! (k - (i + 1)))))"
    unfolding len by blast
  have "get_bit_raw buf' k =
      (get_bit_raw buf k \<or> (i \<le> k \<and> k < i + length (h # hs) \<and> passes bf ((h # hs) ! (k - i))))"
    if "k < 8 * length buf" for k
    using buf'(3) bits [OF that] that by (cases "k = i") (auto simp: nth_Cons' Suc_diff_le less_Suc_eq_le)
  with buf'(1,2) t show ?case by (auto simp: h)
qed auto

section \<open>Shrinking\<close>

lemma power_of_two_64: "64 \<le> next_power_of_two n \<Longrightarrow> 64 dvd next_power_of_two n"
proof -
  assume le: "64 \<le> next_power_of_two n"
  obtain k where k: "next_power_of_two n = 2 ^ k"
    using next_pow2_from_power [of 1 n] by (auto simp: next_power_of_two_def)
  have "6 \<le> k"
  proof (rule ccontr)
    assume "\<not> 6 \<le> k"
    then have "(2::nat) ^ k \<le> 2 ^ 5" by (intro power_increasing) auto
    with le k show False by simp
  qed
  then have "(2::nat) ^ 6 dvd 2 ^ k" by (rule le_imp_power_dvd)
  with k show ?thesis by simp
qed

lemma fold_bits_ok:
  assumes "0 < n" and "n \<le> ba_bit_size ba"
  shows "\<forall>i \<in> set js. i < ba_bit_size old \<Longrightarrow>
    \<exists>ba'. fold_bits n old js ba = Inr ba' \<and> length (ba_data ba') = length (ba_data ba)
      \<and> (\<forall>j < n. ba_bit ba' j = (ba_bit ba j \<or> (\<exists>i \<in> set js. ba_bit old i \<and> i mod n = j)))"
  using assms(2)
proof (induction js arbitrary: ba)
  case (Cons i js)
  then have g: "ba_get i old = Inr (ba_bit old i)" by (simp add: ba_get_bit)
  show ?case
  proof (cases "ba_bit old i")
    case True
    have "i mod n < ba_bit_size ba" using assms(1) Cons.prems(2) by (meson mod_less_divisor order_less_le_trans)
    from ba_set_bit [OF this] obtain ba1 where ba1: "ba_set (i mod n) ba = Inr ba1"
      "length (ba_data ba1) = length (ba_data ba)"
      "\<forall>j < ba_bit_size ba. ba_bit ba1 j = (j = i mod n \<or> ba_bit ba j)" by blast
    have "n \<le> ba_bit_size ba1" using ba1(2) Cons.prems(2) by (simp add: ba_bit_size_def)
    from Cons.IH [OF _ this] Cons.prems(1) obtain ba' where ba': "fold_bits n old js ba1 = Inr ba'"
      "length (ba_data ba') = length (ba_data ba)"
      "\<forall>j < n. ba_bit ba' j = (ba_bit ba1 j \<or> (\<exists>i \<in> set js. ba_bit old i \<and> i mod n = j))"
      using ba1(2) by auto
    have "ba_bit ba1 j = (j = i mod n \<or> ba_bit ba j)" if "j < n" for j
    proof -
      have "j < ba_bit_size ba" using that Cons.prems(2) by simp
      with ba1(3) show ?thesis by blast
    qed
    with ba' ba1(1) g True show ?thesis by auto
  next
    case False
    with Cons g show ?thesis by auto
  qed
qed simp

lemma position_mod:
  assumes "n dvd m" and "0 < n" and "0 < m"
  shows "position m c mod n = position n c"
proof -
  have "int (position m c mod n) = sint c mod int m mod int n"
    using assms by (simp add: position_def zmod_int dvd_pos_nat)
  also have "\<dots> = sint c mod int n" using assms(1) by (simp add: mod_mod_cancel)
  also have "\<dots> = int (position n c)" using assms(2) by (simp add: position_def)
  finally show ?thesis by simp
qed

lemma shrink_passes:
  assumes "bf_wf bf" and "64 \<le> shrinked_num_bits bf" and "shrinked_num_bits bf dvd ba_bit_size (bf_bits bf)"
  shows "\<exists>bf'. shrink_to_fit bf = Inr bf' \<and> bf_wf bf' \<and> (\<forall>h. passes bf h \<longrightarrow> passes bf' h)"
proof (cases "ba_bit_size (bf_bits bf) \<le> shrinked_num_bits bf")
  case True
  then show ?thesis using assms(1) by (simp add: shrink_to_fit_def Let_def)
next
  case False
  let ?n = "shrinked_num_bits bf" and ?m = "ba_bit_size (bf_bits bf)"
  have n: "0 < ?n" "?n < ?m" "?m \<le> 2 ^ 31" using assms False by (auto simp: bf_wf_def)
  have d: "64 dvd ?n" using power_of_two_64 assms(2) by (simp add: shrinked_num_bits_def)
  let ?fresh = "\<lparr>ba_data = replicate ((?n + 63) div 64) 0\<rparr> :: spark_bit_array"
  have len: "(?n + 63) div 64 = ?n div 64" using d by auto
  have sz: "ba_bit_size ?fresh = ?n" using d len by (simp add: ba_bit_size_def)
  have fresh: "new_with_num_bits ?n = Inr ?fresh" using n by (simp add: new_with_num_bits_def)
  from fold_bits_ok [OF n(1) _ , of ?fresh "[0..<?m]" "bf_bits bf"] sz obtain b where b:
    "fold_bits ?n (bf_bits bf) [0..<?m] ?fresh = Inr b" "length (ba_data b) = length (ba_data ?fresh)"
    "\<forall>j < ?n. ba_bit b j = (ba_bit ?fresh j \<or> (\<exists>i \<in> set [0..<?m]. ba_bit (bf_bits bf) i \<and> i mod ?n = j))"
    by auto
  have szb: "ba_bit_size b = ?n" using b(2) sz by (simp add: ba_bit_size_def)
  let ?bf = "bf\<lparr>bf_bits := b\<rparr>"
  have run: "shrink_to_fit bf = Inr ?bf" using False fresh b(1) by (simp add: shrink_to_fit_def Let_def)
  have "passes ?bf h" if p: "passes bf h" for h
  proof -
    obtain h1 h2 where h: "h = (h1, h2)" by force
    have "ba_bit b (position ?n c)" if "c \<in> combined_hash h1 h2 ` set (hash_rounds (bf_num_hash_functions bf))" for c
    proof -
      have "ba_bit (bf_bits bf) (position ?m c)" using p that by (auto simp: passes_def h touched_def)
      moreover have "position ?m c < ?m" using bit_position_ok(2) n by simp
      moreover have "position ?m c mod ?n = position ?n c" by (rule position_mod [OF assms(3) n(1)]) (use n in simp)
      moreover have "position ?n c < ?n" using bit_position_ok(2) n by simp
      ultimately show ?thesis using b(3) by auto
    qed
    then show ?thesis by (auto simp: passes_def h touched_def szb)
  qed
  with run szb n show ?thesis by (auto simp: bf_wf_def)
qed

section \<open>Serialized form\<close>

lemma read_i32_be_append: "read_i32_be (be_bytes 4 (x :: u32) @ rest) = Inr (x, rest)"
  by (simp add: read_i32_be_def rd_bind_def read_exact_append be_bytes_roundtrip)

lemma read_i64_be_append: "read_i64_be (be_bytes 8 (x :: u64) @ rest) = Inr (x, rest)"
  by (simp add: read_i64_be_def rd_bind_def read_exact_append be_bytes_roundtrip)

lemma ba_roundtrip:
  assumes "length (ba_data ba) < 2 ^ 31"
  shows "ba_read_from (ba_write_to ba @ rest) = Inr (ba, rest)"
proof -
  let ?n = "length (ba_data ba)"
  have "unat (of_nat ?n :: u32) = ?n" using assms by (simp add: unat_of_nat)
  moreover have "\<not> sint (of_nat ?n :: u32) < 0"
    using assms by (simp add: signed_of_nat signed_take_bit_int_eq_self)
  moreover have "rd_repeat ?n read_i64_be (concat (map (be_bytes 8) (ba_data ba)) @ rest)
      = Inr (ba_data ba, rest)"
    by (rule rd_repeat_roundtrip) (simp add: read_i64_be_append)
  ultimately show ?thesis
    by (simp add: ba_read_from_def ba_write_to_def rd_bind_def read_i32_be_append)
qed

section \<open>Properties\<close>

text \<open>
  C18: No false negatives: inserting an item into a well-formed filter never leaves the bit array,
  and afterwards the filter answers that it might contain the item and every item it might
  contain before, for integers and for byte strings.
\<close>

theorem bloom_no_false_negatives:
  assumes "bf_wf bf"
  shows "(\<exists>bf'. put_long x bf = Inr bf' \<and> bf_wf bf' \<and> might_contain_long x bf' = Inr True
        \<and> (\<forall>y. might_contain_long y bf = Inr True \<longrightarrow> might_contain_long y bf' = Inr True)
        \<and> (\<forall>y. might_contain_binary y bf = Inr True \<longrightarrow> might_contain_binary y bf' = Inr True))
    \<and> (\<exists>bf'. put_binary z bf = Inr bf' \<and> bf_wf bf' \<and> might_contain_binary z bf' = Inr True
        \<and> (\<forall>y. might_contain_long y bf = Inr True \<longrightarrow> might_contain_long y bf' = Inr True)
        \<and> (\<forall>y. might_contain_binary y bf = Inr True \<longrightarrow> might_contain_binary y bf' = Inr True))"
proof (rule conjI)
  obtain h1 h2 where h: "long_hashes x = (h1, h2)" by force
  then have hs: "h1 = spark_compatible_murmur3_hash_long x 0" "h2 = spark_compatible_murmur3_hash_long x h1"
    by (auto simp: long_hashes_def Let_def)
  from insert_passes [OF assms, of h1 h2] obtain b where b:
    "put_rounds h1 h2 (ba_bit_size (bf_bits bf)) (hash_rounds (bf_num_hash_functions bf)) (bf_bits bf) = Inr b"
    "bf_wf (bf\<lparr>bf_bits := b\<rparr>)" "passes (bf\<lparr>bf_bits := b\<rparr>) (h1, h2)"
    "\<forall>h. passes bf h \<longrightarrow> passes (bf\<lparr>bf_bits := b\<rparr>) h" by (auto simp: Let_def simp del: split_paired_All)
  have "put_long x bf = Inr (bf\<lparr>bf_bits := b\<rparr>)" using b(1) hs by (simp add: put_long_def Let_def)
  then show "\<exists>bf'. put_long x bf = Inr bf' \<and> bf_wf bf' \<and> might_contain_long x bf' = Inr True
        \<and> (\<forall>y. might_contain_long y bf = Inr True \<longrightarrow> might_contain_long y bf' = Inr True)
        \<and> (\<forall>y. might_contain_binary y bf = Inr True \<longrightarrow> might_contain_binary y bf' = Inr True)"
    using b(2-4) h by (auto simp: lookup_passes assms simp del: split_paired_All)
next
  obtain h1 h2 where h: "binary_hashes z = (h1, h2)" by force
  then have hs: "murmur3 z 0 = Inr h1" "murmur3 z h1 = Inr h2"
    using murmur3_total [of z 0] murmur3_total [of z h1] by (auto simp: binary_hashes_def murmur3_def Let_def)
  from insert_passes [OF assms, of h1 h2] obtain b where b:
    "put_rounds h1 h2 (ba_bit_size (bf_bits bf)) (hash_rounds (bf_num_hash_functions bf)) (bf_bits bf) = Inr b"
    "bf_wf (bf\<lparr>bf_bits := b\<rparr>)" "passes (bf\<lparr>bf_bits := b\<rparr>) (h1, h2)"
    "\<forall>h. passes bf h \<longrightarrow> passes (bf\<lparr>bf_bits := b\<rparr>) h" by (auto simp: Let_def simp del: split_paired_All)
  have "put_binary z bf = Inr (bf\<lparr>bf_bits := b\<rparr>)" using b(1) hs by (simp add: put_binary_def)
  then show "\<exists>bf'. put_binary z bf = Inr bf' \<and> bf_wf bf' \<and> might_contain_binary z bf' = Inr True
        \<and> (\<forall>y. might_contain_long y bf = Inr True \<longrightarrow> might_contain_long y bf' = Inr True)
        \<and> (\<forall>y. might_contain_binary y bf = Inr True \<longrightarrow> might_contain_binary y bf' = Inr True)"
    using b(2-4) h by (auto simp: lookup_passes assms simp del: split_paired_All)
qed

theorem bloom_no_false_negatives_witness:
  "\<exists>bf'. put_long 7 \<lparr>bf_bits = \<lparr>ba_data = [0, 0]\<rparr>, bf_num_hash_functions = 3\<rparr> = Inr bf'
     \<and> might_contain_long 7 bf' = Inr True"
proof -
  have "bf_wf \<lparr>bf_bits = \<lparr>ba_data = [0, 0]\<rparr>, bf_num_hash_functions = 3\<rparr>"
    by (simp add: bf_wf_def ba_bit_size_def)
  from bloom_no_false_negatives [OF this, of 7] show ?thesis by blast
qed

text \<open>
  C27: Merging two filters of the same shape keeps the members of both.
\<close>

theorem bloom_merge_keeps_members:
  assumes "bf_num_hash_functions bf = bf_num_hash_functions other"
    and "length (ba_data (bf_bits bf)) = length (ba_data (bf_bits other))" and "bf_wf bf"
  shows "\<exists>bf'. bf_put_all bf other = Inr bf' \<and> bf_wf bf'
    \<and> (\<forall>y. might_contain_long y bf = Inr True \<or> might_contain_long y other = Inr True \<longrightarrow>
         might_contain_long y bf' = Inr True)
    \<and> (\<forall>y. might_contain_binary y bf = Inr True \<or> might_contain_binary y other = Inr True \<longrightarrow>
         might_contain_binary y bf' = Inr True)"
proof -
  have "bf_wf other" using assms by (simp add: bf_wf_def ba_bit_size_def)
  with merge_passes [OF assms] show ?thesis
    by (auto simp: lookup_passes assms(3) simp del: split_paired_All)
qed

theorem bloom_merge_keeps_members_witness:
  "\<exists>bf'. bf_put_all \<lparr>bf_bits = \<lparr>ba_data = [1]\<rparr>, bf_num_hash_functions = 1\<rparr>
       \<lparr>bf_bits = \<lparr>ba_data = [2]\<rparr>, bf_num_hash_functions = 1\<rparr> = Inr bf' \<and> bf_wf bf'"
  using bloom_merge_keeps_members [of "\<lparr>bf_bits = \<lparr>ba_data = [1]\<rparr>, bf_num_hash_functions = 1\<rparr>"
      "\<lparr>bf_bits = \<lparr>ba_data = [2]\<rparr>, bf_num_hash_functions = 1\<rparr>"]
  by (auto simp: bf_wf_def ba_bit_size_def)

text \<open>
  The batched lookup answers, for every value of the batch, what the single lookup answers.
\<close>

theorem might_contain_longs_pointwise:
  assumes "bf_wf bf" and "i < length vals"
  shows "\<exists>buf. might_contain_longs vals bf = Inr buf
    \<and> might_contain_long (vals ! i) bf = Inr (get_bit_raw buf i)"
proof -
  let ?buf = "replicate ((length vals + 7) div 8) (0 :: u8)"
  have hs: "zip (map (\<lambda>v. spark_compatible_murmur3_hash_long v 0) vals)
      (map2 spark_compatible_murmur3_hash_long vals (map (\<lambda>v. spark_compatible_murmur3_hash_long v 0) vals))
      = map long_hashes vals"
    by (rule nth_equalityI) (simp_all add: long_hashes_def Let_def)
  have "0 + length (map long_hashes vals) \<le> 8 * length ?buf" by simp
  from longs_loop_ok [OF assms(1) this] obtain buf where
    "longs_loop bf 0 (map long_hashes vals) ?buf = Inr buf"
    "\<forall>k < 8 * length ?buf. get_bit_raw buf k =
       (get_bit_raw ?buf k \<or> 0 \<le> k \<and> k < 0 + length (map long_hashes vals) \<and> passes bf (map long_hashes vals ! (k - 0)))"
    by blast
  moreover have "i < 8 * length ?buf" using assms(2) by simp
  moreover have "\<not> get_bit_raw ?buf i" using assms(2) by (simp add: get_bit_raw_def)
  ultimately show ?thesis
    using assms(2) by (simp add: might_contain_longs_def Let_def hs lookup_passes assms(1))
qed

theorem might_contain_longs_pointwise_witness:
  "\<exists>buf. might_contain_longs [5, 6] \<lparr>bf_bits = \<lparr>ba_data = [3]\<rparr>, bf_num_hash_functions = 2\<rparr> = Inr buf
     \<and> might_contain_long 6 \<lparr>bf_bits = \<lparr>ba_data = [3]\<rparr>, bf_num_hash_functions = 2\<rparr> = Inr (get_bit_raw buf 1)"
  using might_contain_longs_pointwise [of "\<lparr>bf_bits = \<lparr>ba_data = [3]\<rparr>, bf_num_hash_functions = 2\<rparr>" 1 "[5, 6]"]
  by (simp add: bf_wf_def ba_bit_size_def)

text \<open>
  C28: A filter written by \<open>write_to\<close> is read back by \<open>read_from\<close>, which consumes exactly its bytes.
\<close>

theorem bloom_roundtrip:
  assumes "length (ba_data (bf_bits bf)) < 2 ^ 31" and "bf_num_hash_functions bf < 2 ^ 31"
  shows "bf_read_from (bf_write_to bf @ rest) = Inr (bf, rest)"
proof -
  have "unat (scast (of_nat (bf_num_hash_functions bf) :: u32) :: usize) = bf_num_hash_functions bf"
  proof -
    have "sint (of_nat (bf_num_hash_functions bf) :: u32) = int (bf_num_hash_functions bf)"
      using assms(2) by (simp add: signed_of_nat signed_take_bit_int_eq_self)
    then have "(scast (of_nat (bf_num_hash_functions bf) :: u32) :: usize) = of_nat (bf_num_hash_functions bf)"
      by (metis of_int_of_nat_eq of_int_sint)
    then show ?thesis using assms(2) by (simp add: unat_of_nat)
  qed
  then show ?thesis
    by (simp add: bf_read_from_def bf_write_to_def rd_bind_def read_i32_be_append
        ba_roundtrip [OF assms(1)])
qed

theorem bloom_roundtrip_witness:
  "bf_read_from (bf_write_to \<lparr>bf_bits = \<lparr>ba_data = [5, 9]\<rparr>, bf_num_hash_functions = 2\<rparr> @ [1])
     = Inr (\<lparr>bf_bits = \<lparr>ba_data = [5, 9]\<rparr>, bf_num_hash_functions = 2\<rparr>, [1])"
  using bloom_roundtrip [of "\<lparr>bf_bits = \<lparr>ba_data = [5, 9]\<rparr>, bf_num_hash_functions = 2\<rparr>" "[1]"] by simp

text \<open>
  C29: Shrinking keeps every member when the shrunk size is at least one word and divides the old
  size.
\<close>

theorem shrink_keeps_members:
  assumes "bf_wf bf" and "64 \<le> shrinked_num_bits bf" and "shrinked_num_bits bf dvd ba_bit_size (bf_bits bf)"
  shows "\<exists>bf'. shrink_to_fit bf = Inr bf' \<and> bf_wf bf'
    \<and> (\<forall>y. might_contain_long y bf = Inr True \<longrightarrow> might_contain_long y bf' = Inr True)
    \<and> (\<forall>y. might_contain_binary y bf = Inr True \<longrightarrow> might_contain_binary y bf' = Inr True)"
  using shrink_passes [OF assms] assms(1) by (auto simp: lookup_passes simp del: split_paired_All)

theorem shrink_keeps_members_witness:
  "\<exists>bf'. shrink_to_fit \<lparr>bf_bits = \<lparr>ba_data = [0xFFFFF, 0]\<rparr>, bf_num_hash_functions = 1\<rparr> = Inr bf' \<and> bf_wf bf'"
proof -
  let ?bf = "\<lparr>bf_bits = \<lparr>ba_data = [0xFFFFF, 0]\<rparr>, bf_num_hash_functions = 1\<rparr> :: spark_bloom_filter"
  have "ba_true_count (bf_bits ?bf) = 20" by code_simp
  then have "shrinked_num_bits ?bf = 64"
    by (simp add: shrinked_num_bits_def next_power_of_two_def next_pow2_from.simps)
  then show ?thesis
    using shrink_keeps_members [of ?bf] by (auto simp: bf_wf_def ba_bit_size_def)
qed

text \<open>
  Shrinking can lose a member: a filter of 128 bits and one hash function that contains one
  item is folded at two bits into an array of 64 bits, and the lookup, which takes positions
  modulo 64, no longer finds the item.
\<close>

theorem shrink_loses_member:
  "res_bind (put_long 0 \<lparr>bf_bits = \<lparr>ba_data = [0, 0]\<rparr>, bf_num_hash_functions = 1\<rparr>)
     (\<lambda>bf. res_bind (might_contain_long 0 bf) (\<lambda>before.
      res_bind (shrink_to_fit bf) (\<lambda>bf'. res_map (\<lambda>after. (before, after)) (might_contain_long 0 bf'))))
   = Inr (True, False)"
  by code_simp

end
