(* ===== verification/Group_Table.thy ===== *)
theory Group_Table
  imports Prelude
begin

text \<open>
  The open-addressing table that \<open>joins/join_hash_map.rs\<close> and \<open>agg/agg_hash_map.rs\<close> both use:
  groups of eight slots, a 32-bit hash and a 32-bit value per slot, hash 0 for an empty slot.  An
  item goes into the first empty slot of the first group with room, starting at the group its
  hash selects and going round; the SIMD comparisons are \<open>first_set\<close> over the eight slots.

  \<open>group_inv\<close> is the invariant of the probing scheme, \<open>slots\<close> the multiset of the stored
  pairs.  \<open>insert_slot\<close> is a loop that ends only when some group has room, which
  \<open>insert_slot_ok\<close> proves whenever fewer items are stored than there are slots.
\<close>

section \<open>Model\<close>

definition MAP_VALUE_GROUP_SIZE :: nat where
  "MAP_VALUE_GROUP_SIZE = 8"

record map_value_group =
  grp_hashes :: "u32 list"
  grp_values :: "u32 list"

definition default_group :: map_value_group where
  "default_group = \<lparr>grp_hashes = replicate MAP_VALUE_GROUP_SIZE 0, grp_values = replicate MAP_VALUE_GROUP_SIZE 0\<rparr>"

text \<open>\<open>Mask::first_set\<close>.\<close>

fun first_set :: "bool list \<Rightarrow> nat option" where
  "first_set [] = None"
| "first_set (b # bs) = (if b then Some 0 else map_option Suc (first_set bs))"

definition simd_eq :: "u32 list \<Rightarrow> u32 \<Rightarrow> bool list" where
  "simd_eq hs h = map (\<lambda>x. x = h) hs"

definition write_slot :: "map_value_group \<Rightarrow> nat \<Rightarrow> u32 \<Rightarrow> u32 \<Rightarrow> map_value_group" where
  "write_slot g pos h v = g\<lparr>grp_hashes := (grp_hashes g)[pos := h], grp_values := (grp_values g)[pos := v]\<rparr>"

text \<open>The loop that finds room for an item and writes it; \<open>None\<close> if it never ends.\<close>

partial_function (option) insert_slot ::
  "nat \<Rightarrow> u32 \<Rightarrow> u32 \<Rightarrow> nat \<Rightarrow> map_value_group list \<Rightarrow> map_value_group list option" where
  "insert_slot bits h v e m =
     do { g \<leftarrow> vget m e;
          (case first_set (simd_eq (grp_hashes g) 0) of
             Some empty_pos \<Rightarrow> vset m e (write_slot g empty_pos h v)
           | None \<Rightarrow> insert_slot bits h v ((e + 1) mod 2 ^ bits) m) }"

text \<open>\<open>(num_items.max(128) * 2 / MAP_VALUE_GROUP_SIZE).next_power_of_two().trailing_zeros()\<close>.\<close>

definition mod_bits_for :: "nat \<Rightarrow> nat" where
  "mod_bits_for n = trailing_zeros (next_power_of_two (max n 128 * 2 div MAP_VALUE_GROUP_SIZE))"

definition entry_of :: "nat \<Rightarrow> u32 \<Rightarrow> nat" where
  "entry_of bits h = unat h mod 2 ^ bits"

section \<open>Invariant\<close>

definition group_wf :: "map_value_group \<Rightarrow> bool" where
  "group_wf g = (length (grp_hashes g) = 8 \<and> length (grp_values g) = 8
     \<and> (\<exists>k \<le> 8. (\<forall>i < k. grp_hashes g ! i \<noteq> 0)
          \<and> (\<forall>i. k \<le> i \<and> i < 8 \<longrightarrow> grp_hashes g ! i = 0 \<and> grp_values g ! i = 0)))"

definition full_group :: "map_value_group \<Rightarrow> bool" where
  "full_group g = (0 \<notin> set (grp_hashes g))"

definition reaches :: "nat \<Rightarrow> map_value_group list \<Rightarrow> u32 \<Rightarrow> nat \<Rightarrow> bool" where
  "reaches bits m h g = (\<exists>d < 2 ^ bits. g = (entry_of bits h + d) mod 2 ^ bits
     \<and> (\<forall>j < d. full_group (m ! ((entry_of bits h + j) mod 2 ^ bits))))"

definition group_inv :: "nat \<Rightarrow> map_value_group list \<Rightarrow> bool" where
  "group_inv bits m = (length m = 2 ^ bits \<and> (\<forall>g \<in> set m. group_wf g)
     \<and> (\<forall>g < 2 ^ bits. \<forall>h \<in> set (grp_hashes (m ! g)). h \<noteq> 0 \<longrightarrow> reaches bits m h g))"

definition group_slots :: "map_value_group \<Rightarrow> (u32 \<times> u32) multiset" where
  "group_slots g = filter_mset (\<lambda>(h, v). h \<noteq> 0) (mset (zip (grp_hashes g) (grp_values g)))"

definition slots :: "map_value_group list \<Rightarrow> (u32 \<times> u32) multiset" where
  "slots m = sum_list (map group_slots m)"

section \<open>Lemmas\<close>

lemma first_set_Some:
  "first_set bs = Some i \<longleftrightarrow> i < length bs \<and> bs ! i \<and> (\<forall>j < i. \<not> bs ! j)"
proof (induction bs arbitrary: i)
  case (Cons b bs)
  show ?case by (cases i) (auto simp: Cons.IH All_less_Suc2)
qed simp

lemma first_set_None: "first_set bs = None \<longleftrightarrow> True \<notin> set bs"
  by (induction bs) auto

lemma full_group_first_set: "first_set (simd_eq (grp_hashes g) 0) = None \<longleftrightarrow> full_group g"
  by (auto simp: first_set_None simd_eq_def full_group_def)

lemma sum_list_update_mset:
  "i < length m \<Longrightarrow> sum_list (map f (m[i := g])) + f (m ! i) = sum_list (map f m) + (f g :: 'a multiset)"
proof (induction m arbitrary: i)
  case (Cons x m)
  then show ?case by (cases i) (auto simp: ac_simps)
qed simp

lemma group_wf_default: "group_wf default_group"
  by (auto simp: group_wf_def default_group_def MAP_VALUE_GROUP_SIZE_def intro!: exI [of _ 0])

lemma group_slots_default: "group_slots default_group = {#}"
  by (simp add: group_slots_def default_group_def MAP_VALUE_GROUP_SIZE_def numeral_eq_Suc)

lemma empty_table: "group_inv bits (replicate (2 ^ bits) default_group)"
  "slots (replicate (2 ^ bits) default_group) = {#}"
proof -
  have "set (grp_hashes default_group) = {0}"
    by (simp add: default_group_def MAP_VALUE_GROUP_SIZE_def)
  then show "group_inv bits (replicate (2 ^ bits) default_group)"
    by (auto simp: group_inv_def group_wf_default)
  have "slots (replicate n default_group) = {#}" for n
    by (induction n) (simp_all add: slots_def group_slots_default)
  then show "slots (replicate (2 ^ bits) default_group) = {#}" .
qed

text \<open>Writing into the first empty slot of a group with room.\<close>

lemma write_slot_ok:
  assumes wf: "group_wf g" and pos: "first_set (simd_eq (grp_hashes g) 0) = Some p" and h: "h \<noteq> 0"
  shows "group_wf (write_slot g p h v)" and "group_slots (write_slot g p h v) = add_mset (h, v) (group_slots g)"
    and "set (grp_hashes (write_slot g p h v)) \<subseteq> insert h (set (grp_hashes g))"
    and "full_group g \<Longrightarrow> full_group (write_slot g p h v)"
proof -
  from wf obtain k where k: "length (grp_hashes g) = 8" "length (grp_values g) = 8" "k \<le> 8"
    "\<forall>i < k. grp_hashes g ! i \<noteq> 0" "\<forall>i. k \<le> i \<and> i < 8 \<longrightarrow> grp_hashes g ! i = 0 \<and> grp_values g ! i = 0"
    by (auto simp: group_wf_def)
  from pos have p: "p < 8" "grp_hashes g ! p = 0" "\<forall>j < p. grp_hashes g ! j \<noteq> 0"
    using k(1) by (auto simp: first_set_Some simd_eq_def)
  have kp: "k = p"
    using k(3-5) p by (metis linorder_neqE_nat order_refl order_less_le_trans)
  show "group_wf (write_slot g p h v)"
    unfolding group_wf_def write_slot_def
    using k kp p h by (auto simp: nth_list_update less_Suc_eq intro!: exI [of _ "Suc p"])
  have z: "zip ((grp_hashes g)[p := h]) ((grp_values g)[p := v]) = (zip (grp_hashes g) (grp_values g))[p := (h, v)]"
    by (simp add: zip_update)
  have "mset ((zip (grp_hashes g) (grp_values g))[p := (h, v)])
      = add_mset (h, v) (mset (zip (grp_hashes g) (grp_values g)) - {#(0, grp_values g ! p)#})"
    using k p by (simp add: mset_update)
  moreover have "(0, grp_values g ! p) \<in># mset (zip (grp_hashes g) (grp_values g))"
    using k p by (metis (no_types, lifting) in_set_conv_nth length_zip min.idem nth_zip set_mset_mset)
  ultimately show "group_slots (write_slot g p h v) = add_mset (h, v) (group_slots g)"
    using h by (simp add: group_slots_def write_slot_def z)
  show "set (grp_hashes (write_slot g p h v)) \<subseteq> insert h (set (grp_hashes g))"
    by (simp add: write_slot_def set_update_subset_insert)
  show "full_group g \<Longrightarrow> full_group (write_slot g p h v)"
    using pos by (simp add: full_group_first_set [symmetric])
qed

lemma entry_of_less [simp]: "entry_of bits h < 2 ^ bits"
  by (simp add: entry_of_def)

lemma full_group_size: "group_wf g \<Longrightarrow> full_group g \<Longrightarrow> size (group_slots g) = 8"
proof -
  assume wf: "group_wf g" and full: "full_group g"
  have "\<forall>x \<in># mset (zip (grp_hashes g) (grp_values g)). case x of (h, v) \<Rightarrow> h \<noteq> 0"
    using full by (auto simp: full_group_def dest: set_zip_leftD)
  then have "group_slots g = mset (zip (grp_hashes g) (grp_values g))"
    by (simp add: group_slots_def filter_mset_eq_conv)
  with wf show ?thesis by (simp add: group_wf_def)
qed

lemma some_room:
  assumes "group_inv bits m" and "size (slots m) < 8 * 2 ^ bits"
  shows "\<exists>g < 2 ^ bits. \<not> full_group (m ! g)"
proof (rule ccontr)
  assume "\<not> ?thesis"
  then have full: "\<forall>g \<in> set m. full_group g \<and> group_wf g"
    using assms(1) by (auto simp: group_inv_def in_set_conv_nth)
  have "\<forall>g \<in> set xs. full_group g \<and> group_wf g \<Longrightarrow> size (slots xs) = 8 * length xs" for xs
    by (induction xs) (simp_all add: slots_def full_group_size)
  with full assms show False by (simp add: group_inv_def)
qed

lemma distance:
  assumes "s < (n::nat)" and "g < n"
  shows "\<exists>d < n. g = (s + d) mod n"
proof (cases "s \<le> g")
  case True
  then show ?thesis using assms by (intro exI [of _ "g - s"]) auto
next
  case False
  then have "(s + (n + g - s)) mod n = g" using assms by simp
  with False assms show ?thesis by (intro exI [of _ "n + g - s"]) auto
qed

text \<open>The first group with room on the probe sequence of a hash.\<close>

lemma first_room:
  assumes "group_inv bits m" and "size (slots m) < 8 * 2 ^ bits"
  shows "\<exists>d < 2 ^ bits. \<not> full_group (m ! ((entry_of bits h + d) mod 2 ^ bits))
    \<and> (\<forall>j < d. full_group (m ! ((entry_of bits h + j) mod 2 ^ bits)))"
proof -
  let ?P = "\<lambda>d. \<not> full_group (m ! ((entry_of bits h + d) mod 2 ^ bits))"
  from some_room [OF assms] obtain g where g: "g < 2 ^ bits" "\<not> full_group (m ! g)" by blast
  from distance [OF entry_of_less g(1), of h] obtain d where d: "d < 2 ^ bits" "g = (entry_of bits h + d) mod 2 ^ bits"
    by blast
  with g have P: "?P d" by simp
  have "(LEAST d. ?P d) \<le> d" using P by (rule Least_le)
  moreover have "?P (LEAST d. ?P d)" using P by (rule LeastI)
  moreover have "\<forall>j < (LEAST d. ?P d). full_group (m ! ((entry_of bits h + j) mod 2 ^ bits))"
    using not_less_Least by blast
  ultimately show ?thesis using d(1) by (meson le_less_trans)
qed

lemma insert_slot_skip:
  assumes "length m = 2 ^ bits" and "\<forall>j < d. full_group (m ! ((s + j) mod 2 ^ bits))" and "s < 2 ^ bits"
  shows "insert_slot bits h v s m = insert_slot bits h v ((s + d) mod 2 ^ bits) m"
  using assms(2)
proof (induction d)
  case (Suc d)
  let ?e = "(s + d) mod 2 ^ bits"
  have "full_group (m ! ?e)" using Suc.prems by simp
  then have "insert_slot bits h v ?e m = insert_slot bits h v ((?e + 1) mod 2 ^ bits) m"
    using assms(1) by (subst insert_slot.simps) (simp add: full_group_first_set [symmetric])
  also have "(?e + 1) mod 2 ^ bits = (s + Suc d) mod 2 ^ bits" by (simp add: mod_Suc_eq)
  finally show ?case using Suc by simp
qed (use assms(3) in simp)

lemma reaches_mono:
  "reaches bits m h g \<Longrightarrow> (\<And>i. i < 2 ^ bits \<Longrightarrow> full_group (m ! i) \<Longrightarrow> full_group (m' ! i)) \<Longrightarrow>
   reaches bits m' h g"
  by (fastforce simp: reaches_def)

lemma insert_slot_ok:
  assumes inv: "group_inv bits m" and room: "size (slots m) < 8 * 2 ^ bits" and h: "h \<noteq> 0"
  shows "\<exists>m'. insert_slot bits h v (entry_of bits h) m = Some m' \<and> group_inv bits m'
    \<and> slots m' = add_mset (h, v) (slots m)"
proof -
  let ?G = "2 ^ bits"
  from first_room [OF inv room, of h] obtain d where d: "d < ?G"
    "\<not> full_group (m ! ((entry_of bits h + d) mod ?G))"
    "\<forall>j < d. full_group (m ! ((entry_of bits h + j) mod ?G))" by blast
  define e where "e = (entry_of bits h + d) mod ?G"
  have len: "length m = ?G" using inv by (simp add: group_inv_def)
  have e: "e < ?G" by (simp add: e_def)
  obtain p where p: "first_set (simd_eq (grp_hashes (m ! e)) 0) = Some p"
    using d(2) full_group_first_set [of "m ! e"] by (auto simp: e_def)
  have wf: "group_wf (m ! e)" using inv e len by (simp add: group_inv_def)
  note w = write_slot_ok [OF wf p h, of v]
  let ?m = "m[e := write_slot (m ! e) p h v]"
  have run: "insert_slot bits h v (entry_of bits h) m = Some ?m"
    using insert_slot_skip [OF len d(3) entry_of_less, of h v] e len p
    by (simp add: e_def [symmetric]) (subst insert_slot.simps, simp)
  have mono: "full_group (?m ! i)" if "i < ?G" "full_group (m ! i)" for i
    using that d(2) len by (cases "i = e") (auto simp: e_def)
  have sl: "slots ?m = add_mset (h, v) (slots m)"
    using sum_list_update_mset [of e m group_slots "write_slot (m ! e) p h v"] w(2) len e
    by (simp add: slots_def)
  have "reaches bits ?m k g" if g: "g < ?G" and k: "k \<in> set (grp_hashes (?m ! g))" "k \<noteq> 0" for g k
  proof (cases "g = e \<and> k = h")
    case True
    have "reaches bits m h e" using d e_def by (auto simp: reaches_def)
    from reaches_mono [OF this mono] True show ?thesis by simp
  next
    case False
    then have "k \<in> set (grp_hashes (m ! g))" using k(1) w(3) len e g by (cases "g = e") auto
    then have "reaches bits m k g" using inv g k(2) by (simp add: group_inv_def)
    then show ?thesis by (rule reaches_mono) (rule mono)
  qed
  moreover have "\<forall>g \<in> set ?m. group_wf g"
    using inv w(1) set_update_subset_insert [of m e "write_slot (m ! e) p h v"]
    unfolding group_inv_def by blast
  ultimately have "group_inv bits ?m" using len by (simp add: group_inv_def)
  with run sl show ?thesis by blast
qed

text \<open>Every slot of a hash lies on its probe sequence not after the first group with room.\<close>

lemma slot_in_group:
  assumes "(h, v) \<in># slots m" and "length m = n"
  shows "\<exists>g < n. \<exists>p < length (grp_hashes (m ! g)). p < length (grp_values (m ! g))
    \<and> grp_hashes (m ! g) ! p = h \<and> grp_values (m ! g) ! p = v \<and> h \<noteq> 0"
proof -
  have "\<exists>g \<in> set m. (h, v) \<in># group_slots g"
    using assms(1) by (induction m) (auto simp: slots_def)
  then obtain g where g: "g < length m" "(h, v) \<in># group_slots (m ! g)" by (auto simp: in_set_conv_nth)
  then have "(h, v) \<in> set (zip (grp_hashes (m ! g)) (grp_values (m ! g)))" "h \<noteq> 0"
    by (auto simp: group_slots_def)
  with g(1) assms(2) show ?thesis by (auto simp: set_zip)
qed

lemma group_slot_in:
  assumes "g < length m" and "p < length (grp_hashes (m ! g))" and "p < length (grp_values (m ! g))"
    and "grp_hashes (m ! g) ! p = h" and "h \<noteq> 0"
  shows "(h, grp_values (m ! g) ! p) \<in># slots m"
proof -
  have "(h, grp_values (m ! g) ! p) \<in># group_slots (m ! g)"
    using assms by (auto simp: group_slots_def set_zip)
  moreover have "x \<in># group_slots g' \<Longrightarrow> g' \<in> set m \<Longrightarrow> x \<in># slots m" for x g'
    by (induction m) (auto simp: slots_def)
  ultimately show ?thesis using assms(1) by simp
qed

lemma slot_before_room:
  assumes inv: "group_inv bits m" and slot: "(h, v) \<in># slots m"
    and room: "\<not> full_group (m ! ((entry_of bits h + d) mod 2 ^ bits))"
  shows "\<exists>j \<le> d. \<exists>p < 8. grp_hashes (m ! ((entry_of bits h + j) mod 2 ^ bits)) ! p = h
    \<and> grp_values (m ! ((entry_of bits h + j) mod 2 ^ bits)) ! p = v"
proof -
  have len: "length m = 2 ^ bits" using inv by (simp add: group_inv_def)
  from slot_in_group [OF slot len] obtain g p where gp: "g < 2 ^ bits" "p < length (grp_hashes (m ! g))"
    "grp_hashes (m ! g) ! p = h" "grp_values (m ! g) ! p = v" "h \<noteq> 0" by blast
  then have "reaches bits m h g" using inv by (auto simp: group_inv_def)
  then obtain j where j: "g = (entry_of bits h + j) mod 2 ^ bits"
    "\<forall>i < j. full_group (m ! ((entry_of bits h + i) mod 2 ^ bits))" by (auto simp: reaches_def)
  then have "j \<le> d" using room by (meson not_le)
  moreover have "p < 8" using gp(1,2) inv len by (auto simp: group_inv_def group_wf_def)
  ultimately show ?thesis using gp j(1) by auto
qed

lemma mod_bits_room: "n < 8 * 2 ^ mod_bits_for n"
proof -
  have "max n 128 * 2 div 8 \<le> next_power_of_two (max n 128 * 2 div 8)" by (rule next_power_of_two_ge)
  then show ?thesis
    by (simp add: mod_bits_for_def MAP_VALUE_GROUP_SIZE_def power_trailing_zeros)
qed

end
