(* ===== verification/Join_Hash_Map.thy ===== *)
theory Join_Hash_Map
  imports Group_Table Spark_Hash Io_Codec "HOL-Library.Product_Lexorder"
begin

text \<open>
  The hash table of the broadcast and shuffled hash joins, \<open>joins/join_hash_map.rs\<close>: rows with
  the same hash are collected into one map value (a single row index, or a range of
  \<open>mapped_indices\<close>), stored in a group table and looked up a batch at a time.  The hasher
  (\<open>foldhash\<close>) is a parameter.  Unchecked indexing is option-valued, and so are the probing
  loops, which have no other exit than finding a slot.
\<close>

unbundle bit_operations_syntax

section \<open>Map values\<close>

type_synonym map_value = u32

definition EMPTY_VALUE :: map_value where "EMPTY_VALUE = 0"

definition new_single :: "u32 \<Rightarrow> map_value" where
  "new_single idx = push_bit 31 1 OR idx"

definition new_range :: "u32 \<Rightarrow> map_value" where
  "new_range start = start"

definition is_empty_value :: "map_value \<Rightarrow> bool" where
  "is_empty_value v = (v = 0)"

definition is_single :: "map_value \<Rightarrow> bool" where
  "is_single v = (drop_bit 31 v = 1)"

definition is_range :: "map_value \<Rightarrow> bool" where
  "is_range v = (drop_bit 31 v = 0 \<and> \<not> is_empty_value v)"

definition get_single :: "map_value \<Rightarrow> u32" where
  "get_single v = v AND 0x7fffffff"

section \<open>Table\<close>

record join_table =
  num_valid_items :: nat
  map_mod_bits :: nat
  jt_map :: "map_value_group list"
  mapped_indices :: "u32 list"

definition range_of :: "u32 list \<Rightarrow> map_value \<Rightarrow> u32 list option" where
  "range_of mi v =
     (let start = unat v
      in if start = 0 then None
         else do { len \<leftarrow> vget mi (start - 1);
                   if start + unat len \<le> length mi then Some (take (unat len) (drop start mi)) else None })"

definition get_range :: "map_value \<Rightarrow> join_table \<Rightarrow> u32 list option" where
  "get_range v t = range_of (mapped_indices t) v"

text \<open>\<open>key_columns.iter().all(|col| col.is_valid(row_idx))\<close>.\<close>

fun key_is_valid :: "array list \<Rightarrow> nat \<Rightarrow> bool option" where
  "key_is_valid [] i = Some True"
| "key_is_valid (c # cs) i = do { v \<leftarrow> is_valid c i; if v then key_is_valid cs i else Some False }"

text \<open>\<open>chunk_by\<close>: maximal runs of the same hash.\<close>

fun chunk_by_hash :: "(u32 \<times> u32) list \<Rightarrow> (u32 \<times> u32 list) list" where
  "chunk_by_hash [] = []"
| "chunk_by_hash ((idx, hash) # rest) =
     (case chunk_by_hash rest of
        (hash', idxs) # cs \<Rightarrow> if hash = hash' then (hash, idx # idxs) # cs
                               else (hash, [idx]) # (hash', idxs) # cs
      | [] \<Rightarrow> [(hash, [idx])])"

text \<open>The body of the loop over the chunks: the map value and the new \<open>mapped_indices\<close>.\<close>

definition push_chunk :: "u32 list \<Rightarrow> u32 list \<Rightarrow> map_value \<times> u32 list" where
  "push_chunk idxs mi =
     (let pos = length mi;
          mi = mi @ [0] @ idxs;
          start = pos + 1;
          len = length mi - start;
          mi = mi[pos := of_nat len]
      in if len = 1 then (new_single (last mi), butlast (butlast mi))
         else (new_range (of_nat start), mi))"

fun collect_items :: "(u32 \<times> u32 list) list \<Rightarrow> u32 list \<Rightarrow> (u32 \<times> map_value) list \<times> u32 list" where
  "collect_items [] mi = ([], mi)"
| "collect_items ((hash, idxs) # cs) mi =
     (let (v, mi') = push_chunk idxs mi; (items, mi'') = collect_items cs mi'
      in ((hash, v) # items, mi''))"

text \<open>\<open>for i in 0..map_items.len()\<close>: every item into the map.\<close>

fun build_map :: "nat \<Rightarrow> (u32 \<times> map_value) list \<Rightarrow> map_value_group list \<Rightarrow> map_value_group list option" where
  "build_map bits [] m = Some m"
| "build_map bits ((h, v) # items) m =
     do { m' \<leftarrow> insert_slot bits h v (entry_of bits h) m; build_map bits items m' }"

definition valid_items :: "array list \<Rightarrow> u32 list \<Rightarrow> (u32 \<times> u32) list" where
  "valid_items key_columns hashes =
     map (\<lambda>(i, h). (of_nat i, h))
       (filter (\<lambda>(i, h). key_is_valid key_columns i = Some True) (enumerate 0 hashes))"

definition create_from_key_columns_and_hashes ::
  "nat \<Rightarrow> array list \<Rightarrow> u32 list \<Rightarrow> join_table option" where
  "create_from_key_columns_and_hashes num_rows key_columns hashes =
     (if \<not> num_rows < 1073741824 then None
      else if \<exists>i \<in> set [0..<length hashes]. key_is_valid key_columns i = None then None
      else let items = valid_items key_columns hashes;
               chunks = chunk_by_hash (sort_key (\<lambda>(idx, hash). (hash, idx)) items);
               (map_items, mi) = collect_items chunks [];
               bits = mod_bits_for (length map_items)
           in do { m \<leftarrow> build_map bits map_items (replicate (2 ^ bits) default_group);
                   Some \<lparr>num_valid_items = length items, map_mod_bits = bits, jt_map = m, mapped_indices = mi\<rparr> })"

text \<open>\<open>hasher h v\<close> stands for feeding \<open>h\<close> and the bytes \<open>v\<close> to the hasher and truncating.\<close>

definition join_create_hashes :: "(u32 \<Rightarrow> bytes \<Rightarrow> u32) \<Rightarrow> nat \<Rightarrow> array list \<Rightarrow> u32 list option" where
  "join_create_hashes hasher num_rows key_columns =
     map_option (map (\<lambda>h. h OR 0x80000000))
       (create_hashes num_rows key_columns 0x1E39FA04 (\<lambda>v h. Some (hasher h v)))"

definition create_from_key_columns :: "(u32 \<Rightarrow> bytes \<Rightarrow> u32) \<Rightarrow> nat \<Rightarrow> array list \<Rightarrow> join_table option" where
  "create_from_key_columns hasher num_rows key_columns =
     (if \<not> num_rows < 1073741824 then None
      else do { hashes \<leftarrow> join_create_hashes hasher num_rows key_columns;
                create_from_key_columns_and_hashes num_rows key_columns hashes })"

partial_function (option) lookup_one :: "nat \<Rightarrow> map_value_group list \<Rightarrow> u32 \<Rightarrow> nat \<Rightarrow> map_value option" where
  "lookup_one bits m h e =
     do { g \<leftarrow> vget m e;
          (case first_set (map2 (\<or>) (simd_eq (grp_hashes g) h) (simd_eq (grp_hashes g) 0)) of
             Some pos \<Rightarrow> vget (grp_values g) pos
           | None \<Rightarrow> lookup_one bits m h ((e + 1) mod 2 ^ bits)) }"

definition lookup_many :: "join_table \<Rightarrow> u32 list \<Rightarrow> map_value list option" where
  "lookup_many t hashes =
     those (map (\<lambda>h. lookup_one (map_mod_bits t) (jt_map t) h (entry_of (map_mod_bits t) h)) hashes)"

definition is_all_nulls :: "join_table \<Rightarrow> bool" where
  "is_all_nulls t = (num_valid_items t = 0)"

section \<open>Serialized table\<close>

definition group_bytes :: "map_value_group \<Rightarrow> bytes" where
  "group_bytes g = concat (map (le_bytes 4) (grp_hashes g)) @ concat (map (le_bytes 4) (grp_values g))"

definition group_of_bytes :: "bytes \<Rightarrow> map_value_group" where
  "group_of_bytes bs = (let ws = map of_le_bytes (chunks_exact 4 bs)
     in \<lparr>grp_hashes = take 8 ws, grp_values = drop 8 ws\<rparr>)"

definition table_write_to :: "join_table \<Rightarrow> bytes" where
  "table_write_to t =
     write_len (of_nat (num_valid_items t)) @ write_len (of_nat (map_mod_bits t))
     @ concat (map group_bytes (jt_map t))
     @ write_len (of_nat (length (mapped_indices t)))
     @ concat (map (\<lambda>v. write_len (ucast v)) (mapped_indices t))"

definition table_read_from :: "join_table reader" where
  "table_read_from =
     rd_bind read_len (\<lambda>nvi.
     rd_bind read_len (\<lambda>bits.
     let bits = unat (ucast bits :: u32) in
     rd_bind (read_exact (64 * 2 ^ bits)) (\<lambda>raw.
     rd_bind read_len (\<lambda>n.
     rd_bind (rd_repeat (unat n) (rd_bind read_len (\<lambda>v. rd_return (ucast v)))) (\<lambda>mi.
       rd_return \<lparr>num_valid_items = unat nvi, map_mod_bits = bits,
         jt_map = map group_of_bytes (chunks_exact 64 raw), mapped_indices = mi\<rparr>)))))"

section \<open>Map values denote lists of rows\<close>

text \<open>How the joins read a map value: nothing, one row, or a range.\<close>

definition rows_of :: "u32 list \<Rightarrow> map_value \<Rightarrow> u32 list option" where
  "rows_of mi v =
     (if is_single v then Some [get_single v] else if is_range v then range_of mi v else Some [])"

lemma no_top_bit: "w < 2 ^ 31 \<Longrightarrow> \<not> bit (w :: u32) 31"
proof
  assume w: "w < 2 ^ 31" and "bit w 31"
  then have "odd (unat w div 2 ^ 31)" by (metis bit_iff_odd bit_unsigned_iff possible_bit_nat)
  moreover have "unat w < 2 ^ 31" using w by (simp add: word_less_nat_alt)
  ultimately show False by simp
qed

lemma single_value:
  assumes "idx < 2 ^ 31"
  shows "is_single (new_single idx)" and "get_single (new_single idx) = idx"
proof -
  have b: "\<not> bit idx 31" by (rule no_top_bit [OF assms])
  show "is_single (new_single idx)"
    unfolding is_single_def new_single_def
  proof (rule bit_word_eqI)
    fix n :: nat
    have "n = 0 \<or> 32 \<le> 31 + n" by linarith
    then show "bit (drop_bit 31 (push_bit 31 1 OR idx)) n = bit 1 n"
      using b bit_imp_le_length [of idx "31 + n"] by (auto simp: bit_simps)
  qed
  have mask: "0x7fffffff = (mask 31 :: u32)" by (simp add: mask_eq_exp_minus_1)
  show "get_single (new_single idx) = idx"
    unfolding get_single_def new_single_def mask
  proof (rule bit_word_eqI)
    fix n :: nat
    assume n: "n < LENGTH(32)"
    show "bit ((push_bit 31 1 OR idx) AND mask 31) n = bit idx n"
    proof (cases "n = 31")
      case True
      with b show ?thesis by (simp add: bit_simps)
    next
      case False
      then have "n < 31" using n by simp
      then show ?thesis by (simp only: bit_and_iff bit_or_iff bit_push_bit_iff bit_mask_iff) auto
    qed
  qed
qed

lemma range_value:
  assumes "0 < start" and "start < 2 ^ 31"
  shows "\<not> is_single (new_range start)" and "is_range (new_range start)"
proof -
  have "drop_bit 31 start = 0"
  proof (rule bit_word_eqI)
    fix n :: nat
    have "n = 0 \<or> 32 \<le> 31 + n" by linarith
    then show "bit (drop_bit 31 start) n = bit 0 n"
      using no_top_bit [OF assms(2)] bit_imp_le_length [of start "31 + n"] by (auto simp: bit_simps)
  qed
  with assms(1) show "\<not> is_single (new_range start)" "is_range (new_range start)"
    by (auto simp: is_single_def is_range_def new_range_def is_empty_value_def)
qed

lemma range_of_append: "range_of mi v = Some xs \<Longrightarrow> range_of (mi @ ys) v = Some xs"
  by (auto simp: range_of_def Let_def vget_def nth_append split: if_splits option.splits
      Option.bind_splits)

lemma rows_of_append: "rows_of mi v = Some xs \<Longrightarrow> rows_of (mi @ ys) v = Some xs"
  by (auto simp: rows_of_def range_of_append split: if_splits)

lemma push_chunk_ok:
  assumes "idxs \<noteq> []" and "\<forall>i \<in> set idxs. i < 2 ^ 31" and "length mi + length idxs + 1 < 2 ^ 31"
    and "push_chunk idxs mi = (v, mi')"
  shows "rows_of mi' v = Some idxs" and "\<exists>ys. mi' = mi @ ys \<and> length ys \<le> length idxs + 1
    \<and> (length idxs = 1 \<longrightarrow> ys = [])"
proof -
  have upd: "(mi @ 0 # idxs)[length mi := x] = mi @ x # idxs" for x
    by (simp add: list_update_append)
  show "rows_of mi' v = Some idxs"
  proof (cases "length idxs = 1")
    case True
    then obtain i where i: "idxs = [i]" by (auto simp: length_Suc_conv)
    then have "v = new_single i" using assms(4) by (simp add: push_chunk_def Let_def upd)
    then show ?thesis using single_value [of i] assms(2) i by (simp add: rows_of_def)
  next
    case False
    have v: "v = new_range (of_nat (length mi + 1))" "mi' = mi @ of_nat (length idxs) # idxs"
      using assms(4) False by (auto simp: push_chunk_def Let_def upd)
    have u: "unat (of_nat (length mi + 1) :: u32) = length mi + 1"
      "unat (of_nat (length idxs) :: u32) = length idxs"
      using assms(3) by (simp_all only: unat_of_nat) simp_all
    have lt: "0 < (of_nat (length mi + 1) :: u32)" "(of_nat (length mi + 1) :: u32) < 2 ^ 31"
      using u(1) assms(3) by (simp_all only: word_less_nat_alt) simp_all
    have "range_of mi' v = Some idxs"
      using u by (simp add: range_of_def v new_range_def Let_def vget_def nth_append)
    then show ?thesis using range_value [OF lt] by (simp add: rows_of_def v)
  qed
  show "\<exists>ys. mi' = mi @ ys \<and> length ys \<le> length idxs + 1 \<and> (length idxs = 1 \<longrightarrow> ys = [])"
  proof (cases "length idxs = 1")
    case True
    then obtain i where "idxs = [i]" by (auto simp: length_Suc_conv)
    with assms(4) show ?thesis by (auto simp: push_chunk_def Let_def upd butlast_append)
  next
    case False
    with assms(4) show ?thesis by (auto simp: push_chunk_def Let_def upd)
  qed
qed

definition total_rows :: "(u32 \<times> u32 list) list \<Rightarrow> nat" where
  "total_rows cs = sum_list (map (\<lambda>(h, is). length is) cs)"

lemma collect_items_ok:
  assumes "\<forall>(h, is) \<in> set cs. is \<noteq> [] \<and> (\<forall>i \<in> set is. i < 2 ^ 31)"
    and "length mi + 2 * total_rows cs < 2 ^ 31" and "collect_items cs mi = (items, mi')"
  shows "map fst items = map fst cs \<and> (\<exists>ys. mi' = mi @ ys)
    \<and> list_all2 (\<lambda>(h, is) (h', v). h = h' \<and> rows_of mi' v = Some is) cs items"
  using assms
proof (induction cs arbitrary: mi items)
  case (Cons c cs)
  obtain h idxs where c: "c = (h, idxs)" by force
  obtain v mi1 where p: "push_chunk idxs mi = (v, mi1)" by force
  obtain items1 where r: "collect_items cs mi1 = (items1, mi')" "items = (h, v) # items1"
    using Cons.prems(3) p c by (auto split: prod.splits)
  have ne: "idxs \<noteq> []" "\<forall>i \<in> set idxs. i < 2 ^ 31" using Cons.prems(1) c by auto
  then have "1 \<le> length idxs" by (cases idxs) auto
  then have bound: "length mi + length idxs + 1 < 2 ^ 31"
    using Cons.prems(2) c by (simp add: total_rows_def)
  from push_chunk_ok [OF ne bound p] obtain ys where ys: "rows_of mi1 v = Some idxs" "mi1 = mi @ ys"
    "length ys \<le> length idxs + 1" by blast
  have "length mi1 + 2 * total_rows cs < 2 ^ 31"
    using Cons.prems(2) c ys(2,3) \<open>1 \<le> length idxs\<close> by (simp add: total_rows_def)
  from Cons.IH [OF _ this r(1)] Cons.prems(1) have IH: "map fst items1 = map fst cs"
    "\<exists>zs. mi' = mi1 @ zs" "list_all2 (\<lambda>(h, is) (h', v). h = h' \<and> rows_of mi' v = Some is) cs items1"
    by auto
  then show ?case using ys(1,2) r(2) c rows_of_append [OF ys(1)] by auto
qed simp

section \<open>Chunks\<close>

definition rows_with :: "u32 \<Rightarrow> (u32 \<times> u32) list \<Rightarrow> u32 list" where
  "rows_with h L = map fst (filter (\<lambda>x. snd x = h) L)"

lemma chunk_by_hash_Nil: "chunk_by_hash L = [] \<longleftrightarrow> L = []"
  by (cases L rule: chunk_by_hash.cases) (auto split: list.splits prod.splits)

lemma chunk_by_hash_ok:
  assumes "sorted (map snd L)"
  shows "sorted (map fst (chunk_by_hash L)) \<and> distinct (map fst (chunk_by_hash L))
    \<and> set (map fst (chunk_by_hash L)) = snd ` set L
    \<and> (\<forall>(h, is) \<in> set (chunk_by_hash L). is = rows_with h L)"
  using assms
proof (induction L)
  case (Cons x L)
  obtain i h where x: "x = (i, h)" by force
  have IH: "sorted (map fst (chunk_by_hash L))" "distinct (map fst (chunk_by_hash L))"
    "set (map fst (chunk_by_hash L)) = snd ` set L" "\<forall>(h, is) \<in> set (chunk_by_hash L). is = rows_with h L"
    using Cons by auto
  have le: "\<forall>y \<in> snd ` set L. h \<le> y" using Cons.prems x by auto
  show ?case
  proof (cases "chunk_by_hash L")
    case Nil
    then show ?thesis by (simp add: x chunk_by_hash_Nil rows_with_def)
  next
    case (Cons c cs)
    obtain h' js where c: "c = (h', js)" by force
    have lt: "\<forall>y \<in> fst ` set cs. h' < y"
      using IH(1,2) Cons c by (auto simp: order_less_le)
    have "h' \<in> snd ` set L" using IH(3) Cons c by (metis fst_conv list.set_intros(1) list.simps(9))
    with le have h': "h \<le> h'" by blast
    have others: "is = rows_with k (x # L)" if "(k, is) \<in> set cs" for k "is"
    proof -
      have "k \<noteq> h" using lt h' that by force
      then show ?thesis using IH(4) that Cons by (auto simp: x rows_with_def)
    qed
    have js: "js = rows_with h' L" using IH(4) Cons c by auto
    have set: "insert h' (fst ` set cs) = snd ` set L" using IH(3) Cons c by simp
    show ?thesis
    proof (cases "h = h'")
      case True
      have "chunk_by_hash (x # L) = (h, i # js) # cs" using Cons c True x by simp
      moreover have "i # js = rows_with h (x # L)" using js True x by (simp add: rows_with_def)
      ultimately show ?thesis
        using IH(1,2) set Cons c True x others by auto
    next
      case False
      then have hn: "h \<notin> snd ` set L" using h' lt unfolding set [symmetric] by auto
      then have nil: "rows_with h L = []" by (auto simp: rows_with_def filter_empty_conv)
      have run: "chunk_by_hash (x # L) = (h, [i]) # (h', js) # cs" using Cons c False x by simp
      have "[i] = rows_with h (x # L)" "js = rows_with h' (x # L)"
        using nil js False x by (auto simp: rows_with_def)
      moreover have "sorted (map fst (chunk_by_hash (x # L)))" "distinct (map fst (chunk_by_hash (x # L)))"
        using IH(1,2) Cons c run h' False lt by auto
      moreover have "set (map fst (chunk_by_hash (x # L))) = snd ` set (x # L)"
        using run set x by auto
      ultimately show ?thesis using run others by auto
    qed
  qed
qed simp

section \<open>Building and probing\<close>

lemma build_map_ok:
  assumes "group_inv bits m" and "size (slots m) + length items \<le> 8 * 2 ^ bits" and "\<forall>(h, v) \<in> set items. h \<noteq> 0"
  shows "\<exists>m'. build_map bits items m = Some m' \<and> group_inv bits m' \<and> slots m' = slots m + mset items"
  using assms
proof (induction items arbitrary: m)
  case (Cons x items)
  obtain h v where x: "x = (h, v)" by force
  have "size (slots m) < 8 * 2 ^ bits" "h \<noteq> 0" using Cons.prems x by auto
  from insert_slot_ok [OF Cons.prems(1) this, of v] obtain m1 where m1:
    "insert_slot bits h v (entry_of bits h) m = Some m1" "group_inv bits m1" "slots m1 = add_mset (h, v) (slots m)"
    by blast
  have "size (slots m1) + length items \<le> 8 * 2 ^ bits" using Cons.prems(2) m1(3) by simp
  from Cons.IH [OF m1(2) this] Cons.prems(3) obtain m2 where
    "build_map bits items m1 = Some m2" "group_inv bits m2" "slots m2 = slots m1 + mset items" by auto
  with m1 x show ?case by auto
qed simp

lemma match_or_empty_None:
  "first_set (map2 (\<or>) (simd_eq hs h) (simd_eq hs 0)) = None \<longleftrightarrow> h \<notin> set hs \<and> 0 \<notin> set hs"
  by (induction hs) (auto simp: simd_eq_def)

lemma match_or_empty_Some:
  "first_set (map2 (\<or>) (simd_eq hs h) (simd_eq hs 0)) = Some p \<longleftrightarrow>
     p < length hs \<and> (hs ! p = h \<or> hs ! p = 0) \<and> (\<forall>j < p. hs ! j \<noteq> h \<and> hs ! j \<noteq> 0)"
  by (auto simp: first_set_Some simd_eq_def)

lemma lookup_one_skip:
  assumes "length m = 2 ^ bits" and "s < 2 ^ bits"
    and "\<forall>j < d. h \<notin> set (grp_hashes (m ! ((s + j) mod 2 ^ bits))) \<and> full_group (m ! ((s + j) mod 2 ^ bits))"
  shows "lookup_one bits m h s = lookup_one bits m h ((s + d) mod 2 ^ bits)"
  using assms(3)
proof (induction d)
  case (Suc d)
  let ?e = "(s + d) mod 2 ^ bits"
  have "h \<notin> set (grp_hashes (m ! ?e))" "0 \<notin> set (grp_hashes (m ! ?e))"
    using Suc.prems by (auto simp: full_group_def)
  then have "lookup_one bits m h ?e = lookup_one bits m h ((?e + 1) mod 2 ^ bits)"
    using assms(1) match_or_empty_None [of "grp_hashes (m ! ?e)" h]
    by (subst lookup_one.simps) simp
  also have "(?e + 1) mod 2 ^ bits = (s + Suc d) mod 2 ^ bits" by (simp add: mod_Suc_eq)
  finally show ?case using Suc by simp
qed (use assms(2) in simp)

text \<open>The probe finds the value stored for the hash, or an empty slot, whose value is 0.\<close>

lemma lookup_one_ok:
  assumes inv: "group_inv bits m" and room: "size (slots m) < 8 * 2 ^ bits" and h: "h \<noteq> 0"
  shows "\<exists>v. lookup_one bits m h (entry_of bits h) = Some v
    \<and> ((h, v) \<in># slots m \<or> (v = 0 \<and> (\<forall>w. (h, w) \<notin># slots m)))"
proof -
  let ?G = "2 ^ bits" and ?s = "entry_of bits h"
  let ?g = "\<lambda>j. m ! ((?s + j) mod ?G)"
  have len: "length m = ?G" using inv by (simp add: group_inv_def)
  from first_room [OF inv room, of h] obtain d where d: "d < ?G" "\<not> full_group (?g d)" "\<forall>j < d. full_group (?g j)"
    by blast
  have wf: "group_wf (?g j)" for j using inv len by (simp add: group_inv_def)
  let ?Q = "\<lambda>j. h \<in> set (grp_hashes (?g j)) \<or> \<not> full_group (?g j)"
  define j where "j = (LEAST j. ?Q j)"
  have Qj: "?Q j" unfolding j_def by (rule LeastI [of ?Q d]) (use d in simp)
  have "j \<le> d" unfolding j_def by (rule Least_le) (use d in simp)
  have before: "\<forall>i < j. h \<notin> set (grp_hashes (?g i)) \<and> full_group (?g i)"
    unfolding j_def using not_less_Least by blast
  have skip: "lookup_one bits m h ?s = lookup_one bits m h ((?s + j) mod ?G)"
    by (rule lookup_one_skip [OF len entry_of_less before])
  obtain p where p: "first_set (map2 (\<or>) (simd_eq (grp_hashes (?g j)) h) (simd_eq (grp_hashes (?g j)) 0)) = Some p"
    using Qj match_or_empty_None [of "grp_hashes (?g j)" h] by (auto simp: full_group_def)
  then have ps: "p < length (grp_hashes (?g j))" "grp_hashes (?g j) ! p = h \<or> grp_hashes (?g j) ! p = 0"
    "\<forall>i < p. grp_hashes (?g j) ! i \<noteq> h \<and> grp_hashes (?g j) ! i \<noteq> 0"
    by (auto simp: match_or_empty_Some)
  from wf [of j] obtain k where k: "length (grp_hashes (?g j)) = 8" "length (grp_values (?g j)) = 8"
    "\<forall>i < k. grp_hashes (?g j) ! i \<noteq> 0"
    "\<forall>i. k \<le> i \<and> i < 8 \<longrightarrow> grp_hashes (?g j) ! i = 0 \<and> grp_values (?g j) ! i = 0"
    by (auto simp: group_wf_def)
  let ?v = "grp_values (?g j) ! p"
  have run: "lookup_one bits m h ?s = Some ?v"
    unfolding skip using len p ps(1) k by (subst lookup_one.simps) simp
  show ?thesis
  proof (cases "grp_hashes (?g j) ! p = h")
    case True
    then have "(h, ?v) \<in># slots m"
      using group_slot_in [of "(?s + j) mod ?G" m p h] ps(1) k len h by simp
    with run show ?thesis by blast
  next
    case False
    then have zero: "grp_hashes (?g j) ! p = 0" using ps(2) by simp
    then have "k \<le> p" using k(3) by (meson not_le)
    then have v0: "?v = 0" using k(1,4) ps(1) by simp
    have "grp_hashes (?g j) ! i \<noteq> h" if "i < 8" for i
      using that ps(3) k(4) h \<open>k \<le> p\<close> by (cases "i < p") auto
    then have none: "h \<notin> set (grp_hashes (?g j))" using k(1) by (auto simp: in_set_conv_nth)
    have nf: "\<not> full_group (?g j)"
      using zero ps(1) by (metis full_group_def nth_mem)
    have "(h, w) \<notin># slots m" for w
    proof
      assume "(h, w) \<in># slots m"
      from slot_before_room [OF inv this nf] obtain i q where
        i: "i \<le> j" "q < 8" "grp_hashes (?g i) ! q = h" by blast
      then have "q < length (grp_hashes (?g i))" using wf [of i] by (simp add: group_wf_def)
      from nth_mem [OF this] have "h \<in> set (grp_hashes (?g i))" by (simp only: i(3))
      with before none i(1) show False by (cases "i = j") auto
    qed
    with run v0 show ?thesis by auto
  qed
qed

section \<open>The whole table\<close>

text \<open>The rows a probe with hash \<open>h\<close> should find: valid keys whose hash is \<open>h\<close>, in order.\<close>

definition matching_rows :: "array list \<Rightarrow> u32 list \<Rightarrow> u32 \<Rightarrow> u32 list" where
  "matching_rows key_columns hashes h =
     map of_nat (filter (\<lambda>i. key_is_valid key_columns i = Some True \<and> hashes ! i = h) [0..<length hashes])"

lemma enumerate_conv: "enumerate 0 xs = map (\<lambda>i. (i, xs ! i)) [0..<length xs]"
  by (rule nth_equalityI) (simp_all add: enumerate_eq_zip)

lemma valid_items_conv:
  "valid_items ks hashes = map (\<lambda>i. (of_nat i, hashes ! i))
     (filter (\<lambda>i. key_is_valid ks i = Some True) [0..<length hashes])"
  by (simp add: valid_items_def enumerate_conv filter_map comp_def)

lemma rows_with_sorted:
  assumes "length hashes \<le> 2 ^ 30"
  shows "rows_with h (sort_key (\<lambda>(idx, hash). (hash, idx)) (valid_items ks hashes)) = matching_rows ks hashes h"
proof -
  let ?k = "\<lambda>(idx :: u32, hash :: u32). (hash, idx)"
  let ?is = "filter (\<lambda>i. key_is_valid ks i = Some True \<and> hashes ! i = h) [0..<length hashes]"
  let ?F = "filter (\<lambda>x. snd x = h) (valid_items ks hashes)"
  have F: "?F = map (\<lambda>i. (of_nat i, h)) ?is"
    by (simp add: valid_items_conv filter_map comp_def conj_commute)
  have "of_nat i \<le> (of_nat j :: u32)" if "i \<le> j" "j < length hashes" for i j
    using that assms by (simp add: word_le_nat_alt unat_of_nat)
  then have "sorted (map ?k ?F)"
    unfolding F by (auto simp: sorted_map intro!: sorted_wrt_mono_rel [OF _ sorted_wrt_filter [OF sorted_upt]])
  then have "filter (\<lambda>x. snd x = h) (sort_key ?k (valid_items ks hashes)) = ?F"
    by (simp add: filter_sort sort_key_id_if_sorted)
  then show ?thesis by (simp add: rows_with_def F matching_rows_def comp_def)
qed

lemma total_rows_chunks: "total_rows (chunk_by_hash L) = length L"
  by (induction L rule: chunk_by_hash.induct) (auto simp: total_rows_def split: list.splits)

lemma create_ok:
  assumes "length hashes = n" and "n < 2 ^ 30" and "\<forall>h \<in> set hashes. h \<noteq> 0"
    and "\<forall>i < n. key_is_valid ks i \<noteq> None"
  shows "\<exists>t. create_from_key_columns_and_hashes n ks hashes = Some t
    \<and> (\<forall>h. h \<noteq> 0 \<longrightarrow> (\<exists>v. lookup_one (map_mod_bits t) (jt_map t) h (entry_of (map_mod_bits t) h) = Some v
         \<and> rows_of (mapped_indices t) v = Some (matching_rows ks hashes h)))"
proof -
  let ?L = "sort_key (\<lambda>(idx, hash). (hash, idx)) (valid_items ks hashes)"
  define cs where "cs = chunk_by_hash ?L"
  obtain items mi where items: "collect_items cs [] = (items, mi)" by force
  define bits where "bits = mod_bits_for (length items)"
  have "sorted (map (\<lambda>(idx, hash). (hash, idx)) ?L)" by simp
  then have "sorted (map snd ?L)"
    by (auto simp: sorted_map case_prod_unfold less_eq_prod_def elim!: sorted_wrt_mono_rel [rotated])
  note ch = chunk_by_hash_ok [OF this, folded cs_def]
  have rows: "js = matching_rows ks hashes h" if "(h, js) \<in> set cs" for h js
    using ch that rows_with_sorted [of hashes h ks] assms(1,2) by auto
  have setL: "snd ` set ?L = {h. matching_rows ks hashes h \<noteq> []}"
    by (force simp: valid_items_conv matching_rows_def filter_empty_conv)
  then have fsts: "fst ` set cs = {h. matching_rows ks hashes h \<noteq> []}" using ch by simp
  have small: "i < 2 ^ 31" if "i \<in> set (matching_rows ks hashes h)" for i h
  proof -
    from that obtain k where "i = of_nat k" "k < n" using assms(1) by (auto simp: matching_rows_def)
    then show ?thesis using assms(2) by (simp add: word_less_nat_alt unat_of_nat)
  qed
  have "total_rows cs \<le> n"
    using assms(1) by (simp add: cs_def total_rows_chunks valid_items_conv) (metis diff_zero length_filter_le length_upt)
  then have bound: "length [] + 2 * total_rows cs < 2 ^ 31" using assms(2) by simp
  have ne: "\<forall>(h, js) \<in> set cs. js \<noteq> [] \<and> (\<forall>i \<in> set js. i < 2 ^ 31)"
    using rows fsts small by (fastforce simp: image_iff)
  note ci = collect_items_ok [OF ne bound items]
  have fst_items: "fst ` set items = {h. matching_rows ks hashes h \<noteq> []}"
    using ci fsts by (metis list.set_map)
  moreover have "h \<noteq> 0" if "matching_rows ks hashes h \<noteq> []" for h
    using that assms(3) by (auto simp: matching_rows_def filter_empty_conv)
  ultimately have nz: "\<forall>(h, v) \<in> set items. h \<noteq> 0" by force
  have room: "length items < 8 * 2 ^ bits" unfolding bits_def by (rule mod_bits_room)
  from build_map_ok [OF empty_table(1) _ nz, of bits] room obtain m where
    m: "build_map bits items (replicate (2 ^ bits) default_group) = Some m" "group_inv bits m" "slots m = mset items"
    by (auto simp: empty_table)
  let ?t = "\<lparr>num_valid_items = length (valid_items ks hashes), map_mod_bits = bits, jt_map = m, mapped_indices = mi\<rparr>"
  have run: "create_from_key_columns_and_hashes n ks hashes = Some ?t"
    using assms(1,2,4) items m(1)
    by (auto simp: create_from_key_columns_and_hashes_def Let_def cs_def bits_def [symmetric])
  have "\<exists>v. lookup_one bits m h (entry_of bits h) = Some v \<and> rows_of mi v = Some (matching_rows ks hashes h)"
    if h: "h \<noteq> 0" for h
  proof -
    have "size (slots m) < 8 * 2 ^ bits" using m(3) room by simp
    from lookup_one_ok [OF m(2) this h] obtain v where v: "lookup_one bits m h (entry_of bits h) = Some v"
      "(h, v) \<in> set items \<or> (v = 0 \<and> (\<forall>w. (h, w) \<notin> set items))" using m(3) by auto
    show ?thesis
    proof (cases "(h, v) \<in> set items")
      case True
      then obtain js where "(h, js) \<in> set cs" "rows_of mi v = Some js"
        using ci by (force simp: list_all2_conv_all_nth in_set_conv_nth)
      with rows v(1) show ?thesis by auto
    next
      case False
      then have "v = 0" "h \<notin> fst ` set items" using v(2) by auto
      then have "v = 0" "matching_rows ks hashes h = []" unfolding fst_items by simp_all
      with v(1) show ?thesis
        by (simp add: rows_of_def is_single_def is_range_def is_empty_value_def)
    qed
  qed
  with run show ?thesis by auto
qed

lemma update_rows_length: "update_rows f hs = Some hs' \<Longrightarrow> length hs' = length hs"
  by (simp add: update_rows_Some)

lemma hash_array_length: "hash_array h a hs = Some hs' \<Longrightarrow> length hs' = length hs"
  by (cases a) (auto simp: hash_array_def hash_rows_def create_hashes_dictionary_def update_rows_length
      split: if_splits option.splits array.splits prod.splits)

lemma create_hashes_length: "create_hashes n arrays seed h = Some hs \<Longrightarrow> length hs = n"
proof -
  have "fold_opt (hash_array h) arrays hs0 = Some hs \<Longrightarrow> length hs = length hs0" for hs0
    by (induction arrays arbitrary: hs0)
      (auto simp: hash_array_length split: Option.bind_splits)
  then show "create_hashes n arrays seed h = Some hs \<Longrightarrow> length hs = n"
    by (auto simp: create_hashes_def)
qed

lemma join_hashes_ok:
  assumes "join_create_hashes hasher n ks = Some hashes"
  shows "length hashes = n" and "\<forall>h \<in> set hashes. h \<noteq> 0"
proof -
  from assms obtain hs where hs: "create_hashes n ks 0x1E39FA04 (\<lambda>v h. Some (hasher h v)) = Some hs"
    "hashes = map (\<lambda>h. h OR 0x80000000) hs" by (auto simp: join_create_hashes_def)
  then show "length hashes = n" by (simp add: create_hashes_length)
  have "h OR 0x80000000 \<noteq> (0 :: u32)" for h
    by (simp add: or_eq_0_iff)
  with hs(2) show "\<forall>h \<in> set hashes. h \<noteq> 0" by auto
qed

lemma key_is_valid_in: "\<forall>c \<in> set ks. i < array_len c \<Longrightarrow> key_is_valid ks i \<noteq> None"
  by (induction ks) (auto simp: is_valid_def)

section \<open>Serialized form\<close>

definition table_wf :: "join_table \<Rightarrow> bool" where
  "table_wf t = (map_mod_bits t < 32 \<and> length (jt_map t) = 2 ^ map_mod_bits t
     \<and> (\<forall>g \<in> set (jt_map t). length (grp_hashes g) = 8 \<and> length (grp_values g) = 8)
     \<and> num_valid_items t < 2 ^ 64 \<and> length (mapped_indices t) < 2 ^ 64)"

lemma ucast_u32_usize: "ucast (ucast x :: usize) = (x :: u32)"
  by (rule bit_word_eqI) (simp add: bit_simps)

lemma group_bytes_ok:
  assumes "length (grp_hashes g) = 8" and "length (grp_values g) = 8"
  shows "length (group_bytes g) = 64" and "group_of_bytes (group_bytes g) = g"
proof -
  have "length (concat (map (le_bytes 4) ws)) = 4 * length ws" for ws :: "u32 list"
    using length_concat_const [of "map (le_bytes 4) ws" 4] by force
  then show "length (group_bytes g) = 64" using assms by (simp add: group_bytes_def)
  have gb: "group_bytes g = concat (map (le_bytes 4) (grp_hashes g @ grp_values g))"
    by (simp add: group_bytes_def)
  have "chunks_exact 4 (group_bytes g) = map (le_bytes 4) (grp_hashes g @ grp_values g)"
    unfolding gb by (rule chunks_exact_concat) auto
  then have "map of_le_bytes (chunks_exact 4 (group_bytes g)) = grp_hashes g @ grp_values g"
    by (simp add: comp_def le_bytes_roundtrip)
  then show "group_of_bytes (group_bytes g) = g" using assms by (simp add: group_of_bytes_def Let_def)
qed

text \<open>Building and probing, used by the joins.\<close>

lemma join_table_lookup_ok:
  assumes "join_create_hashes hasher n ks = Some hashes" and "n < 2 ^ 30"
    and "\<forall>c \<in> set ks. array_len c = n" and "\<forall>h \<in> set probes. h \<noteq> 0"
  shows "\<exists>t vs. create_from_key_columns hasher n ks = Some t \<and> lookup_many t probes = Some vs
    \<and> length vs = length probes
    \<and> (\<forall>i < length probes. rows_of (mapped_indices t) (vs ! i) = Some (matching_rows ks hashes (probes ! i)))"
proof -
  note hs = join_hashes_ok [OF assms(1)]
  have "\<forall>i < n. key_is_valid ks i \<noteq> None"
    using assms(3) by (intro allI impI key_is_valid_in) simp
  from create_ok [OF hs(1) assms(2) hs(2) this] obtain t where
    t: "create_from_key_columns_and_hashes n ks hashes = Some t"
    and look: "\<And>h. h \<noteq> 0 \<Longrightarrow> \<exists>v. lookup_one (map_mod_bits t) (jt_map t) h (entry_of (map_mod_bits t) h) = Some v
      \<and> rows_of (mapped_indices t) v = Some (matching_rows ks hashes h)" by blast
  let ?f = "\<lambda>h. lookup_one (map_mod_bits t) (jt_map t) h (entry_of (map_mod_bits t) h)"
  let ?vs = "map (\<lambda>h. the (?f h)) probes"
  have "map ?f probes = map Some ?vs" using look assms(4) by fastforce
  then have "lookup_many t probes = Some ?vs" by (simp only: lookup_many_def those_Some_iff)
  moreover have "create_from_key_columns hasher n ks = Some t"
    using assms(1,2) t by (simp add: create_from_key_columns_def)
  moreover have "rows_of (mapped_indices t) (?vs ! i) = Some (matching_rows ks hashes (probes ! i))"
    if "i < length probes" for i
    using look [of "probes ! i"] assms(4) that by force
  ultimately show ?thesis by (intro exI [of _ t] exI [of _ ?vs]) simp
qed

section \<open>Properties\<close>

text \<open>
  C14: Building the join table over the key columns and probing it with a batch of hashes ends and
  gives, for every probed hash, exactly the rows with that hash whose key has no null, in row
  order and each once; a hash without such a row gives the empty value.
\<close>

theorem join_table_lookup:
  assumes "join_create_hashes hasher n ks = Some hashes" and "n < 2 ^ 30"
    and "\<forall>c \<in> set ks. array_len c = n" and "\<forall>h \<in> set probes. h \<noteq> 0"
  shows "\<exists>t vs. create_from_key_columns hasher n ks = Some t \<and> lookup_many t probes = Some vs
    \<and> length vs = length probes
    \<and> (\<forall>i < length probes. rows_of (mapped_indices t) (vs ! i) = Some (matching_rows ks hashes (probes ! i)))"
  using assms by (rule join_table_lookup_ok)

theorem join_table_lookup_witness:
  "\<exists>t vs. create_from_key_columns (\<lambda>h v. of_nat (length v)) 2 [PrimitiveArray Int32 None [7, 9]] = Some t
     \<and> lookup_many t [5] = Some vs \<and> length vs = 1"
proof -
  have "join_create_hashes (\<lambda>h v. of_nat (length v)) 2 [PrimitiveArray Int32 None [7, 9]]
      = Some [0x80000004, 0x80000004]" by code_simp
  from join_table_lookup [OF this, of "[5]"] show ?thesis by auto
qed

text \<open>
  C30: A join table written by \<open>write_to\<close>, as it travels inside a broadcast batch, is read back
  unchanged by \<open>read_from\<close>, which consumes exactly its bytes.
\<close>

theorem join_table_roundtrip:
  assumes "table_wf t"
  shows "table_read_from (table_write_to t @ rest) = Inr (t, rest)"
proof -
  have wf: "map_mod_bits t < 32" "length (jt_map t) = 2 ^ map_mod_bits t"
    "\<forall>g \<in> set (jt_map t). length (grp_hashes g) = 8 \<and> length (grp_values g) = 8"
    "num_valid_items t < 2 ^ 64" "length (mapped_indices t) < 2 ^ 64"
    using assms by (auto simp: table_wf_def)
  let ?raw = "concat (map group_bytes (jt_map t))"
  have u: "unat (of_nat (num_valid_items t) :: usize) = num_valid_items t"
    "unat (of_nat (length (mapped_indices t)) :: usize) = length (mapped_indices t)"
    using wf by (simp_all add: unat_of_nat)
  have b: "unat (of_nat (map_mod_bits t) :: usize) = map_mod_bits t" using wf(1) by (simp add: unat_of_nat)
  then have u3: "unat (ucast (of_nat (map_mod_bits t) :: usize) :: u32) = map_mod_bits t"
    using wf(1) by (simp add: unat_ucast_small)
  have len: "length ?raw = 64 * 2 ^ map_mod_bits t"
    using length_concat_const [of "map group_bytes (jt_map t)" 64] wf(2,3) group_bytes_ok(1) by force
  have "chunks_exact 64 ?raw = map group_bytes (jt_map t)"
    by (rule chunks_exact_concat) (use wf(3) group_bytes_ok(1) in auto)
  then have groups: "map group_of_bytes (chunks_exact 64 ?raw) = jt_map t"
    using wf(3) group_bytes_ok(2) by (simp add: map_idI)
  have mi: "rd_repeat (length (mapped_indices t)) (rd_bind read_len (\<lambda>v. rd_return (ucast v)))
      (concat (map (\<lambda>v. write_len (ucast v)) (mapped_indices t)) @ rest) = Inr (mapped_indices t, rest)"
    by (rule rd_repeat_roundtrip) (simp add: rd_bind_def read_len_append ucast_u32_usize)
  show ?thesis
    using u u3 len groups mi
    by (simp add: table_read_from_def table_write_to_def rd_bind_def read_len_append Let_def read_exact_append)
qed

theorem join_table_roundtrip_witness:
  "table_read_from (table_write_to \<lparr>num_valid_items = 0, map_mod_bits = 0, jt_map = [default_group], mapped_indices = [4]\<rparr> @ [7])
     = Inr (\<lparr>num_valid_items = 0, map_mod_bits = 0, jt_map = [default_group], mapped_indices = [4]\<rparr>, [7])"
  by (rule join_table_roundtrip) (simp add: table_wf_def default_group_def MAP_VALUE_GROUP_SIZE_def)

end
