(* ===== verification/Agg_Hash_Map.thy ===== *)
theory Agg_Hash_Map
  imports Group_Table
begin

text \<open>
  The hash table of the aggregation, \<open>agg/agg_hash_map.rs\<close>: it gives every distinct grouping key
  the index of its accumulators, in order of first appearance.  The hasher (\<open>foldhash\<close>) and the
  question whether an owned key lives on the heap (\<open>SmallVec::spilled\<close>) are parameters.  The
  abstract specification is \<open>index_keys\<close>: look the key up in the list of keys, append it if new.
\<close>

unbundle bit_operations_syntax

section \<open>Model\<close>

record agg_table =
  at_map :: "map_value_group list"
  at_map_mod_bits :: nat
  key_heap_mem_size :: nat
  at_keys :: "bytes list"

definition default_table :: agg_table where
  "default_table = \<lparr>at_map = [], at_map_mod_bits = 0, key_heap_mem_size = 0, at_keys = []\<rparr>"

definition agg_hash :: "(bytes \<Rightarrow> u32) \<Rightarrow> bytes \<Rightarrow> u32" where
  "agg_hash hasher key = hasher key OR 0x80000000"

definition table_len :: "agg_table \<Rightarrow> nat" where
  "table_len t = length (at_keys t)"

text \<open>The non-empty slots of a group in order, each into the new map.\<close>

fun rehash_slots :: "nat \<Rightarrow> (u32 \<times> u32) list \<Rightarrow> map_value_group list \<Rightarrow> map_value_group list option" where
  "rehash_slots bits [] m = Some m"
| "rehash_slots bits ((h, v) # xs) m =
     (if h \<noteq> 0 then do { m' \<leftarrow> insert_slot bits h v (entry_of bits h) m; rehash_slots bits xs m' }
      else rehash_slots bits xs m)"

fun rehash_groups :: "nat \<Rightarrow> map_value_group list \<Rightarrow> map_value_group list \<Rightarrow> map_value_group list option" where
  "rehash_groups bits [] m = Some m"
| "rehash_groups bits (g # gs) m =
     do { m' \<leftarrow> rehash_slots bits (zip (grp_hashes g) (grp_values g)) m; rehash_groups bits gs m' }"

definition rehash :: "nat \<Rightarrow> agg_table \<Rightarrow> agg_table option" where
  "rehash bits t =
     do { m \<leftarrow> rehash_groups bits (at_map t) (replicate (2 ^ bits) default_group);
          Some (t\<lparr>at_map_mod_bits := bits, at_map := m\<rparr>) }"

definition reserve :: "nat \<Rightarrow> agg_table \<Rightarrow> agg_table option" where
  "reserve num_new_items t =
     (let new_map_mod_bits = mod_bits_for (table_len t + num_new_items)
      in if new_map_mod_bits > at_map_mod_bits t then rehash new_map_mod_bits t else Some t)"

text \<open>
  \<open>while let Some(i) = hash_matched.first_set()\<close>: the slots of the group with the same hash, one
  after the other, until one whose record has the key.
\<close>

fun scan_matches :: "bytes list \<Rightarrow> bytes \<Rightarrow> u32 \<Rightarrow> (u32 \<times> u32) list \<Rightarrow> u32 option option" where
  "scan_matches keys key hash [] = Some None"
| "scan_matches keys key hash ((h, v) # xs) =
     (if h = hash
      then do { k \<leftarrow> vget keys (unat v); if k = key then Some (Some v) else scan_matches keys key hash xs }
      else scan_matches keys key hash xs)"

partial_function (option) upsert_one_impl ::
  "(bytes \<Rightarrow> bool) \<Rightarrow> bytes \<Rightarrow> u32 \<Rightarrow> nat \<Rightarrow> agg_table \<Rightarrow> (u32 \<times> agg_table) option" where
  "upsert_one_impl spilled key hash e t =
     do { g \<leftarrow> vget (at_map t) e;
          found \<leftarrow> scan_matches (at_keys t) key hash (zip (grp_hashes g) (grp_values g));
          (case found of
             Some record_idx \<Rightarrow> Some (record_idx, t)
           | None \<Rightarrow>
               (case first_set (simd_eq (grp_hashes g) 0) of
                  Some empty_pos \<Rightarrow>
                    (let record_idx = of_nat (table_len t)
                     in do { m \<leftarrow> vset (at_map t) e (write_slot g empty_pos hash record_idx);
                             Some (record_idx,
                               t\<lparr>at_map := m, at_keys := at_keys t @ [key],
                                 key_heap_mem_size := key_heap_mem_size t + (if spilled key then length key else 0)\<rparr>) })
                | None \<Rightarrow> upsert_one_impl spilled key hash ((e + 1) mod 2 ^ at_map_mod_bits t) t)) }"

fun upsert_loop :: "(bytes \<Rightarrow> bool) \<Rightarrow> (bytes \<times> u32) list \<Rightarrow> agg_table \<Rightarrow> (u32 list \<times> agg_table) option" where
  "upsert_loop spilled [] t = Some ([], t)"
| "upsert_loop spilled ((key, hash) # rest) t =
     do { (i, t1) \<leftarrow> upsert_one_impl spilled key hash (entry_of (at_map_mod_bits t) hash) t;
          (is, t2) \<leftarrow> upsert_loop spilled rest t1;
          Some (i # is, t2) }"

definition upsert_many :: "(bytes \<Rightarrow> u32) \<Rightarrow> (bytes \<Rightarrow> bool) \<Rightarrow> bytes list \<Rightarrow> agg_table \<Rightarrow> (u32 list \<times> agg_table) option" where
  "upsert_many hasher spilled keys t = upsert_loop spilled (map (\<lambda>k. (k, agg_hash hasher k)) keys) t"

definition upsert_records :: "(bytes \<Rightarrow> u32) \<Rightarrow> (bytes \<Rightarrow> bool) \<Rightarrow> bytes list \<Rightarrow> agg_table \<Rightarrow> (u32 list \<times> agg_table) option" where
  "upsert_records hasher spilled keys t =
     do { t1 \<leftarrow> reserve (length keys) t; upsert_many hasher spilled keys t1 }"

definition take_keys :: "agg_table \<Rightarrow> bytes list \<times> agg_table" where
  "take_keys t = (at_keys t,
     t\<lparr>at_map := map (\<lambda>_. default_group) (at_map t), key_heap_mem_size := 0, at_keys := []\<rparr>)"

definition into_keys :: "agg_table \<Rightarrow> bytes list" where
  "into_keys t = at_keys t"

section \<open>Specification\<close>

fun position_of :: "'a \<Rightarrow> 'a list \<Rightarrow> nat" where
  "position_of x [] = 0"
| "position_of x (y # ys) = (if x = y then 0 else Suc (position_of x ys))"

text \<open>The indices of the keys in the growing list of distinct keys, and that list.\<close>

fun index_keys :: "bytes list \<Rightarrow> bytes list \<Rightarrow> nat list \<times> bytes list" where
  "index_keys known [] = ([], known)"
| "index_keys known (k # ks) =
     (let known' = (if k \<in> set known then known else known @ [k]);
          (is, result) = index_keys known' ks
      in (position_of k known' # is, result))"

section \<open>Invariant\<close>

definition key_slots :: "(bytes \<Rightarrow> u32) \<Rightarrow> bytes list \<Rightarrow> (u32 \<times> u32) multiset" where
  "key_slots hasher keys = mset (map (\<lambda>i. (agg_hash hasher (keys ! i), of_nat i)) [0..<length keys])"

definition agg_inv :: "(bytes \<Rightarrow> u32) \<Rightarrow> agg_table \<Rightarrow> bool" where
  "agg_inv hasher t =
     (distinct (at_keys t) \<and> group_inv (at_map_mod_bits t) (at_map t)
      \<and> slots (at_map t) = key_slots hasher (at_keys t))"

text \<open>A fresh table has no groups at all until the first \<open>reserve\<close>.\<close>

definition agg_ok :: "(bytes \<Rightarrow> u32) \<Rightarrow> agg_table \<Rightarrow> bool" where
  "agg_ok hasher t = (agg_inv hasher t \<or> (at_map t = [] \<and> at_map_mod_bits t = 0 \<and> at_keys t = []))"


section \<open>One key\<close>

lemma position_of_less: "x \<in> set xs \<Longrightarrow> position_of x xs < length xs \<and> xs ! position_of x xs = x"
  by (induction xs) auto

lemma position_of_new: "x \<notin> set xs \<Longrightarrow> position_of x (xs @ [x]) = length xs"
  by (induction xs) auto

lemma agg_hash_nonzero: "agg_hash hasher key \<noteq> 0"
  by (simp add: agg_hash_def or_eq_0_iff)

lemma scan_matches_ok:
  assumes "\<forall>(h, v) \<in> set xs. h = hash \<longrightarrow> unat v < length keys"
  shows "(\<exists>v. scan_matches keys key hash xs = Some (Some v) \<and> (hash, v) \<in> set xs \<and> keys ! unat v = key)
    \<or> (scan_matches keys key hash xs = Some None \<and> (\<forall>(h, v) \<in> set xs. h = hash \<longrightarrow> keys ! unat v \<noteq> key))"
  using assms by (induction keys key hash xs rule: scan_matches.induct) (auto simp: vget_def)

lemma key_slots_iff:
  assumes "length keys < 2 ^ 32"
  shows "(h, v) \<in># key_slots hasher keys \<longleftrightarrow> unat v < length keys \<and> h = agg_hash hasher (keys ! unat v)"
proof
  assume "(h, v) \<in># key_slots hasher keys"
  then obtain i where "i < length keys" "h = agg_hash hasher (keys ! i)" "v = of_nat i"
    by (auto simp: key_slots_def)
  then show "unat v < length keys \<and> h = agg_hash hasher (keys ! unat v)"
    using assms by (simp add: unat_of_nat)
next
  assume "unat v < length keys \<and> h = agg_hash hasher (keys ! unat v)"
  then show "(h, v) \<in># key_slots hasher keys"
    by (auto simp: key_slots_def intro!: image_eqI [of _ _ "unat v"])
qed

lemma key_slots_snoc:
  "key_slots hasher (keys @ [k]) = add_mset (agg_hash hasher k, of_nat (length keys)) (key_slots hasher keys)"
proof -
  have "map (\<lambda>i. (agg_hash hasher ((keys @ [k]) ! i), of_nat i :: u32)) [0..<length keys]
      = map (\<lambda>i. (agg_hash hasher (keys ! i), of_nat i)) [0..<length keys]"
    by (simp add: nth_append)
  from arg_cong [OF this, of mset] show ?thesis
    by (simp only: key_slots_def length_append_singleton upt_Suc_append [OF le0] map_append mset_append) simp
qed

text \<open>The \<open>d\<close>-th group on the probe sequence that starts at \<open>s\<close>.\<close>

abbreviation probe_group :: "agg_table \<Rightarrow> nat \<Rightarrow> nat \<Rightarrow> map_value_group" where
  "probe_group t s d \<equiv> at_map t ! ((s + d) mod 2 ^ at_map_mod_bits t)"

abbreviation group_scan :: "agg_table \<Rightarrow> bytes \<Rightarrow> u32 \<Rightarrow> map_value_group \<Rightarrow> u32 option option" where
  "group_scan t key hash g \<equiv> scan_matches (at_keys t) key hash (zip (grp_hashes g) (grp_values g))"

lemma upsert_skip:
  assumes "length (at_map t) = 2 ^ at_map_mod_bits t" and "s < 2 ^ at_map_mod_bits t"
    and "\<forall>j < d. full_group (probe_group t s j) \<and> group_scan t key hash (probe_group t s j) = Some None"
  shows "upsert_one_impl spilled key hash s t
    = upsert_one_impl spilled key hash ((s + d) mod 2 ^ at_map_mod_bits t) t"
  using assms(3)
proof (induction d)
  case (Suc d)
  let ?e = "(s + d) mod 2 ^ at_map_mod_bits t"
  have "full_group (at_map t ! ?e)" "group_scan t key hash (at_map t ! ?e) = Some None" using Suc.prems by simp_all
  then have "upsert_one_impl spilled key hash ?e t
      = upsert_one_impl spilled key hash ((?e + 1) mod 2 ^ at_map_mod_bits t) t"
    using assms(1) by (subst upsert_one_impl.simps) (simp add: full_group_first_set [symmetric])
  also have "(?e + 1) mod 2 ^ at_map_mod_bits t = (s + Suc d) mod 2 ^ at_map_mod_bits t" by (simp add: mod_Suc_eq)
  finally show ?case using Suc by simp
qed (use assms(2) in simp)

lemma group_pair_in_slots:
  assumes "group_inv bits m" and "e < 2 ^ bits" and "(h, v) \<in> set (zip (grp_hashes (m ! e)) (grp_values (m ! e)))"
    and "h \<noteq> 0"
  shows "(h, v) \<in># slots m"
  using assms group_slot_in [of e m] by (auto simp: set_zip group_inv_def)

lemma group_scan_ok:
  assumes inv: "agg_inv hasher t" and small: "length (at_keys t) < 2 ^ 32" and e: "e < 2 ^ at_map_mod_bits t"
  shows "group_scan t key (agg_hash hasher key) (at_map t ! e) = Some None
      \<or> key \<in> set (at_keys t)
        \<and> group_scan t key (agg_hash hasher key) (at_map t ! e) = Some (Some (of_nat (position_of key (at_keys t))))"
    and "key \<in> set (at_keys t) \<Longrightarrow> (agg_hash hasher key, of_nat (position_of key (at_keys t)))
        \<in> set (zip (grp_hashes (at_map t ! e)) (grp_values (at_map t ! e))) \<Longrightarrow>
      group_scan t key (agg_hash hasher key) (at_map t ! e) \<noteq> Some None"
proof -
  let ?h = "agg_hash hasher key" and ?p = "position_of key (at_keys t)"
  let ?xs = "zip (grp_hashes (at_map t ! e)) (grp_values (at_map t ! e))"
  have inslots: "unat v < length (at_keys t)" if "(?h, v) \<in> set ?xs" for v
    using group_pair_in_slots [OF _ e that] inv agg_hash_nonzero key_slots_iff [OF small]
    by (auto simp: agg_inv_def)
  then have "\<forall>(h, v) \<in> set ?xs. h = ?h \<longrightarrow> unat v < length (at_keys t)" by auto
  note scan = scan_matches_ok [OF this, of key]
  have "v = of_nat ?p \<and> key \<in> set (at_keys t)" if v: "(?h, v) \<in> set ?xs" "at_keys t ! unat v = key" for v
  proof -
    from inslots [OF v(1)] v(2) have k: "key \<in> set (at_keys t)" by (auto simp: in_set_conv_nth)
    then have "unat v = ?p"
      using inv inslots [OF v(1)] position_of_less [OF k] v(2)
      by (auto simp: agg_inv_def nth_eq_iff_index_eq)
    then have "v = of_nat ?p" by (metis of_nat_unat ucast_id)
    with k show ?thesis by simp
  qed
  then show "scan_matches (at_keys t) key ?h ?xs = Some None
      \<or> key \<in> set (at_keys t) \<and> scan_matches (at_keys t) key ?h ?xs = Some (Some (of_nat ?p))"
    using scan by (elim disjE exE conjE) simp_all
  show "scan_matches (at_keys t) key ?h ?xs \<noteq> Some None"
    if k: "key \<in> set (at_keys t)" and p: "(?h, of_nat ?p) \<in> set ?xs"
  proof
    assume "scan_matches (at_keys t) key ?h ?xs = Some None"
    with scan p have "at_keys t ! unat (of_nat ?p :: u32) \<noteq> key" by auto
    then show False using position_of_less [OF k] small by (simp add: unat_of_nat)
  qed
qed

text \<open>A key of the table is found and the table stays as it is.\<close>

lemma upsert_one_known:
  assumes inv: "agg_inv hasher t" and small: "length (at_keys t) < 2 ^ 32"
    and room: "length (at_keys t) < 8 * 2 ^ at_map_mod_bits t" and k: "key \<in> set (at_keys t)"
  shows "upsert_one_impl spilled key (agg_hash hasher key) (entry_of (at_map_mod_bits t) (agg_hash hasher key)) t
    = Some (of_nat (position_of key (at_keys t)), t)"
proof -
  let ?h = "agg_hash hasher key" and ?p = "position_of key (at_keys t)" and ?G = "2 ^ at_map_mod_bits t"
  let ?s = "entry_of (at_map_mod_bits t) ?h"
  let ?hit = "\<lambda>j. group_scan t key ?h (probe_group t ?s j) \<noteq> Some None"
  have gi: "group_inv (at_map_mod_bits t) (at_map t)" and sl: "slots (at_map t) = key_slots hasher (at_keys t)"
    using inv by (simp_all add: agg_inv_def)
  then have len: "length (at_map t) = ?G" by (simp add: group_inv_def)
  have "(?h, of_nat ?p) \<in># slots (at_map t)"
    using position_of_less [OF k] small by (simp add: sl key_slots_iff unat_of_nat)
  moreover have "size (slots (at_map t)) < 8 * ?G" using room by (simp add: sl key_slots_def)
  from first_room [OF gi this, of ?h] obtain d where d: "\<not> full_group (probe_group t ?s d)"
    "\<forall>j < d. full_group (probe_group t ?s j)" by blast
  ultimately obtain j q where j: "j \<le> d" "q < 8" "grp_hashes (probe_group t ?s j) ! q = ?h"
    "grp_values (probe_group t ?s j) ! q = of_nat ?p" using slot_before_room [OF gi] by blast
  have "group_wf (probe_group t ?s j)" using gi len by (simp add: group_inv_def)
  then have "(?h, of_nat ?p) \<in> set (zip (grp_hashes (probe_group t ?s j)) (grp_values (probe_group t ?s j)))"
    using j(2-4) by (auto simp: set_zip group_wf_def intro!: exI [of _ q])
  then have "?hit j" using group_scan_ok(2) [OF inv small _ k] by simp
  then have hit: "?hit (LEAST j. ?hit j)" and le: "(LEAST j. ?hit j) \<le> j" by (rule LeastI, rule Least_le)
  define i where "i = (LEAST j. ?hit j)"
  have before: "group_scan t key ?h (probe_group t ?s i') = Some None" if "i' < i" for i'
    using not_less_Least [of i' ?hit] that by (simp add: i_def)
  have "\<forall>i' < i. full_group (probe_group t ?s i') \<and> group_scan t key ?h (probe_group t ?s i') = Some None"
    using before d(2) le j(1) by (auto simp: i_def [symmetric])
  from upsert_skip [OF len entry_of_less this, of spilled]
  have "upsert_one_impl spilled key ?h ?s t = upsert_one_impl spilled key ?h ((?s + i) mod ?G) t" .
  moreover have "group_scan t key ?h (probe_group t ?s i) = Some (Some (of_nat ?p))"
    using group_scan_ok(1) [OF inv small, of "(?s + i) mod ?G" key] hit by (simp add: i_def [symmetric])
  ultimately show ?thesis using len by (simp add: upsert_one_impl.simps [of _ _ _ "(?s + i) mod ?G"])
qed

text \<open>A new key gets the next index and a slot.\<close>

lemma upsert_one_new:
  assumes inv: "agg_inv hasher t" and small: "length (at_keys t) < 2 ^ 32"
    and room: "length (at_keys t) < 8 * 2 ^ at_map_mod_bits t" and k: "key \<notin> set (at_keys t)"
  shows "\<exists>t'. upsert_one_impl spilled key (agg_hash hasher key) (entry_of (at_map_mod_bits t) (agg_hash hasher key)) t
      = Some (of_nat (length (at_keys t)), t')
    \<and> agg_inv hasher t' \<and> at_keys t' = at_keys t @ [key] \<and> at_map_mod_bits t' = at_map_mod_bits t"
proof -
  let ?h = "agg_hash hasher key" and ?G = "2 ^ at_map_mod_bits t"
  let ?s = "entry_of (at_map_mod_bits t) ?h" and ?v = "of_nat (length (at_keys t)) :: u32"
  have gi: "group_inv (at_map_mod_bits t) (at_map t)" and sl: "slots (at_map t) = key_slots hasher (at_keys t)"
    using inv by (simp_all add: agg_inv_def)
  then have len: "length (at_map t) = ?G" by (simp add: group_inv_def)
  have sz: "size (slots (at_map t)) < 8 * ?G" using room by (simp add: sl key_slots_def)
  from first_room [OF gi sz, of ?h] obtain d where d: "\<not> full_group (probe_group t ?s d)"
    "\<forall>j < d. full_group (probe_group t ?s j)" by blast
  have none: "group_scan t key ?h (probe_group t ?s j) = Some None" for j
    using group_scan_ok(1) [OF inv small, of "(?s + j) mod ?G" key] k by simp
  define e where "e = (?s + d) mod ?G"
  have e: "e < ?G" by (simp add: e_def)
  obtain p where p: "first_set (simd_eq (grp_hashes (at_map t ! e)) 0) = Some p"
    using d(1) full_group_first_set by (auto simp: e_def)
  let ?m = "(at_map t)[e := write_slot (at_map t ! e) p ?h ?v]"
  from insert_slot_ok [OF gi sz agg_hash_nonzero [of hasher key], of ?v] obtain m' where
    m': "insert_slot (at_map_mod_bits t) ?h ?v ?s (at_map t) = Some m'" "group_inv (at_map_mod_bits t) m'"
    "slots m' = add_mset (?h, ?v) (slots (at_map t))" by blast
  moreover have "insert_slot (at_map_mod_bits t) ?h ?v ?s (at_map t) = Some ?m"
    using insert_slot_skip [OF len d(2) entry_of_less, of ?h ?v] e len p
    by (simp add: e_def [symmetric]) (subst insert_slot.simps, simp)
  ultimately have m: "group_inv (at_map_mod_bits t) ?m" "slots ?m = add_mset (?h, ?v) (slots (at_map t))" by auto
  define t' where "t' = t\<lparr>at_map := ?m, at_keys := at_keys t @ [key],
      key_heap_mem_size := key_heap_mem_size t + (if spilled key then length key else 0)\<rparr>"
  have "upsert_one_impl spilled key ?h ?s t = upsert_one_impl spilled key ?h e t"
    using upsert_skip [OF len entry_of_less, of d ?h key ?h spilled] d(2) none by (simp add: e_def)
  moreover have "upsert_one_impl spilled key ?h e t = Some (?v, t')"
    using none [of d] e len p
    by (subst upsert_one_impl.simps) (simp add: e_def [symmetric] table_len_def t'_def Let_def)
  moreover have "agg_inv hasher t'"
    using m sl inv k by (simp add: agg_inv_def t'_def key_slots_snoc)
  ultimately show ?thesis by (auto simp: t'_def)
qed

section \<open>Growing\<close>

lemma rehash_slots_ok:
  assumes "group_inv bits m" and "size (slots m) + size (filter_mset (\<lambda>(h, v). h \<noteq> 0) (mset xs)) \<le> 8 * 2 ^ bits"
  shows "\<exists>m'. rehash_slots bits xs m = Some m' \<and> group_inv bits m'
    \<and> slots m' = filter_mset (\<lambda>(h, v). h \<noteq> 0) (mset xs) + slots m"
  using assms
proof (induction bits xs m rule: rehash_slots.induct)
  case (2 bits h v xs m)
  show ?case
  proof (cases "h = 0")
    case True
    with 2 show ?thesis by simp
  next
    case False
    from insert_slot_ok [OF 2(3) _ False, of v] 2(4) False obtain m1 where m1:
      "insert_slot bits h v (entry_of bits h) m = Some m1" "group_inv bits m1"
      "slots m1 = add_mset (h, v) (slots m)" by auto
    from 2(1) [OF False m1(1,2)] m1 2(4) False show ?thesis by auto
  qed
qed simp

lemma rehash_groups_ok:
  assumes "group_inv bits m" and "size (slots m) + size (slots gs) \<le> 8 * 2 ^ bits"
  shows "\<exists>m'. rehash_groups bits gs m = Some m' \<and> group_inv bits m' \<and> slots m' = slots gs + slots m"
  using assms
proof (induction gs arbitrary: m)
  case (Cons g gs)
  let ?xs = "zip (grp_hashes g) (grp_values g)"
  have sl: "slots (g # gs) = filter_mset (\<lambda>(h, v). h \<noteq> 0) (mset ?xs) + slots gs"
    by (simp add: slots_def group_slots_def)
  from rehash_slots_ok [OF Cons.prems(1), of ?xs] Cons.prems(2) obtain m1 where m1:
    "rehash_slots bits ?xs m = Some m1" "group_inv bits m1"
    "slots m1 = filter_mset (\<lambda>(h, v). h \<noteq> 0) (mset ?xs) + slots m" by (auto simp: sl)
  from Cons.IH [OF m1(2)] Cons.prems(2) m1 show ?case by (auto simp: sl ac_simps)
qed (simp add: slots_def)

lemma reserve_ok:
  assumes ok: "agg_ok hasher t"
  shows "\<exists>t'. reserve n t = Some t' \<and> agg_inv hasher t' \<and> at_keys t' = at_keys t
    \<and> length (at_keys t) + n < 8 * 2 ^ at_map_mod_bits t'"
proof -
  define bits where "bits = mod_bits_for (table_len t + n)"
  have room: "length (at_keys t) + n < 8 * 2 ^ bits"
    using mod_bits_room [of "table_len t + n"] by (simp add: bits_def table_len_def)
  have sl: "slots (at_map t) = key_slots hasher (at_keys t)"
    using ok by (auto simp: agg_ok_def agg_inv_def slots_def key_slots_def)
  have keys: "distinct (at_keys t)" using ok by (auto simp: agg_ok_def agg_inv_def)
  show ?thesis
  proof (cases "bits > at_map_mod_bits t")
    case True
    have "size (slots (at_map t)) \<le> 8 * 2 ^ bits" using room by (simp add: sl key_slots_def)
    then obtain m where m: "rehash_groups bits (at_map t) (replicate (2 ^ bits) default_group) = Some m"
      "group_inv bits m" "slots m = slots (at_map t)"
      using rehash_groups_ok [OF empty_table(1), of bits "at_map t"] by (auto simp: empty_table(2))
    with True room sl keys show ?thesis
      by (auto simp: reserve_def rehash_def bits_def [symmetric] agg_inv_def)
  next
    case False
    have "4 < mod_bits_for k" for k
    proof (rule ccontr)
      assume "\<not> ?thesis"
      then have "(2 :: nat) ^ mod_bits_for k \<le> 2 ^ 4" by (intro power_increasing) simp_all
      moreover have "max k 128 * 2 div 8 \<le> 2 ^ mod_bits_for k"
        using next_power_of_two_ge [of "max k 128 * 2 div 8"]
        by (simp add: mod_bits_for_def MAP_VALUE_GROUP_SIZE_def power_trailing_zeros)
      ultimately show False by simp
    qed
    from this [of "table_len t + n"] have "at_map_mod_bits t \<noteq> 0" using False by (simp add: bits_def)
    then have inv: "agg_inv hasher t" using ok by (auto simp: agg_ok_def)
    have "(2 :: nat) ^ bits \<le> 2 ^ at_map_mod_bits t" using False by (intro power_increasing) simp_all
    then have "length (at_keys t) + n < 8 * 2 ^ at_map_mod_bits t" using room by linarith
    with False inv show ?thesis by (simp add: reserve_def bits_def [symmetric])
  qed
qed

section \<open>A batch\<close>

lemma upsert_loop_ok:
  assumes "agg_inv hasher t" and "length (at_keys t) + length ks < 8 * 2 ^ at_map_mod_bits t"
    and "length (at_keys t) + length ks < 2 ^ 32"
  shows "\<exists>t'. upsert_loop spilled (map (\<lambda>k. (k, agg_hash hasher k)) ks) t
      = Some (map of_nat (fst (index_keys (at_keys t) ks)), t')
    \<and> agg_inv hasher t' \<and> at_keys t' = snd (index_keys (at_keys t) ks)"
  using assms
proof (induction ks arbitrary: t)
  case (Cons k ks)
  have small: "length (at_keys t) < 2 ^ 32" and room: "length (at_keys t) < 8 * 2 ^ at_map_mod_bits t"
    using Cons.prems by simp_all
  define known where "known = (if k \<in> set (at_keys t) then at_keys t else at_keys t @ [k])"
  have "\<exists>t1. upsert_one_impl spilled k (agg_hash hasher k) (entry_of (at_map_mod_bits t) (agg_hash hasher k)) t
      = Some (of_nat (position_of k known), t1) \<and> agg_inv hasher t1 \<and> at_keys t1 = known
      \<and> at_map_mod_bits t1 = at_map_mod_bits t"
  proof (cases "k \<in> set (at_keys t)")
    case True
    with upsert_one_known [OF Cons.prems(1) small room True] Cons.prems(1) show ?thesis by (simp add: known_def)
  next
    case False
    with upsert_one_new [OF Cons.prems(1) small room False] show ?thesis
      by (simp add: known_def position_of_new)
  qed
  then obtain t1 where t1: "upsert_one_impl spilled k (agg_hash hasher k) (entry_of (at_map_mod_bits t) (agg_hash hasher k)) t
      = Some (of_nat (position_of k known), t1)" "agg_inv hasher t1" "at_keys t1 = known"
      "at_map_mod_bits t1 = at_map_mod_bits t" by blast
  have "length known \<le> length (at_keys t) + 1" by (simp add: known_def)
  with Cons.prems(2,3) t1(3,4) Cons.IH [OF t1(2)] obtain t2 where
    "upsert_loop spilled (map (\<lambda>k. (k, agg_hash hasher k)) ks) t1 = Some (map of_nat (fst (index_keys known ks)), t2)"
    "agg_inv hasher t2" "at_keys t2 = snd (index_keys known ks)" by auto
  with t1 show ?case
    by (simp add: known_def [symmetric] case_prod_unfold Let_def)
qed simp

section \<open>Properties\<close>

text \<open>
  C12: \<open>upsert_records\<close> ends and gives every key of the batch its index in the list of distinct
  keys, in order of first appearance over all batches so far: the same key always gets the same
  index, different keys different ones, and the table keeps its invariant, growing when needed.
\<close>

theorem upsert_records_index:
  assumes "agg_ok hasher t" and "length (at_keys t) + length ks < 2 ^ 32"
  shows "\<exists>t'. upsert_records hasher spilled ks t = Some (map of_nat (fst (index_keys (at_keys t) ks)), t')
    \<and> agg_ok hasher t' \<and> at_keys t' = snd (index_keys (at_keys t) ks)"
proof -
  from reserve_ok [OF assms(1), of "length ks"] obtain t1 where t1: "reserve (length ks) t = Some t1"
    "agg_inv hasher t1" "at_keys t1 = at_keys t" "length (at_keys t) + length ks < 8 * 2 ^ at_map_mod_bits t1" by blast
  with upsert_loop_ok [OF t1(2), of ks spilled] assms(2) show ?thesis
    by (auto simp: upsert_records_def upsert_many_def agg_ok_def)
qed

theorem upsert_records_index_witness:
  "\<exists>t'. upsert_records (\<lambda>k. of_nat (length k)) (\<lambda>k. 24 < length k) [[1], [2, 3], [1]] default_table
     = Some ([0, 1, 0], t') \<and> at_keys t' = [[1], [2, 3]]"
proof -
  have "agg_ok (\<lambda>k. of_nat (length k)) default_table" by (simp add: agg_ok_def default_table_def)
  from upsert_records_index [OF this, of "[[1], [2, 3], [1]]" "\<lambda>k. 24 < length k"] show ?thesis
    by (auto simp: default_table_def)
qed

lemma slots_cleared: "slots (map (\<lambda>_. default_group) m) = {#}"
  by (induction m) (simp_all add: slots_def group_slots_default)

text \<open>
  \<open>take_keys\<close>, with which a spill empties the table, hands over all keys and leaves a table
  that is valid again, holds no key and has kept its groups, so the next batch starts at index 0.
\<close>

theorem take_keys_resets:
  assumes "agg_ok hasher t"
  shows "take_keys t = (into_keys t, snd (take_keys t)) \<and> agg_ok hasher (snd (take_keys t))
    \<and> table_len (snd (take_keys t)) = 0 \<and> key_heap_mem_size (snd (take_keys t)) = 0
    \<and> length (at_map (snd (take_keys t))) = length (at_map t)"
proof -
  have "agg_inv hasher (snd (take_keys t))" if inv: "agg_inv hasher t"
  proof -
    have "length (at_map t) = 2 ^ at_map_mod_bits t" using inv by (simp add: agg_inv_def group_inv_def)
    then have "map (\<lambda>_. default_group) (at_map t) = replicate (2 ^ at_map_mod_bits t) default_group"
      by (simp add: map_replicate_const)
    with empty_table [of "at_map_mod_bits t"] show ?thesis
      by (simp add: agg_inv_def take_keys_def key_slots_def)
  qed
  with assms show ?thesis by (auto simp: agg_ok_def take_keys_def into_keys_def table_len_def)
qed

theorem take_keys_resets_witness:
  "agg_ok (\<lambda>k. 0) (snd (take_keys default_table)) \<and> table_len (snd (take_keys default_table)) = 0"
proof -
  have "agg_ok (\<lambda>k. 0) default_table" by (simp add: agg_ok_def default_table_def)
  from take_keys_resets [OF this] show ?thesis by simp
qed

end
