(* ===== verification/Row_Null_Checker.thy ===== *)
theory Row_Null_Checker
  imports Arrow_Array
begin

text \<open>
  The null test on encoded join keys, \<open>common/row_null_checker.rs\<close>: a key row is the concatenation
  of the encodings of its fields in the row format of the \<open>arrow\<close> crate, and the checker walks
  over the fields to see whether one of them is null, without decoding.  The row format is not
  part of the repository: \<open>field_layout\<close> states what its documentation promises and the checker
  relies on.  Key types for which the checker falls back to decoding go through a parameter.
\<close>

section \<open>Configuration\<close>

record sort_options =
  descending :: bool
  nulls_first :: bool

datatype data_type_info =
    NullInfo | PrimitiveInfo | BooleanInfo | VariableInfo | FixedSizeBinaryInfo | StructInfo | ListInfo
  | DictionaryInfo

record field_config =
  fc_type :: data_type_info
  fc_sort_options :: sort_options
  encoded_length :: nat

definition new_primitive :: "sort_options \<Rightarrow> nat \<Rightarrow> field_config" where
  "new_primitive so n = \<lparr>fc_type = PrimitiveInfo, fc_sort_options = so, encoded_length = n\<rparr>"

definition new_boolean :: "sort_options \<Rightarrow> field_config" where
  "new_boolean so = \<lparr>fc_type = BooleanInfo, fc_sort_options = so, encoded_length = 2\<rparr>"

definition new_variable :: "sort_options \<Rightarrow> field_config" where
  "new_variable so = \<lparr>fc_type = VariableInfo, fc_sort_options = so, encoded_length = 0\<rparr>"

definition new_fixed_size_binary :: "sort_options \<Rightarrow> nat \<Rightarrow> field_config" where
  "new_fixed_size_binary so n = \<lparr>fc_type = FixedSizeBinaryInfo, fc_sort_options = so, encoded_length = 1 + n\<rparr>"

definition new_struct :: "sort_options \<Rightarrow> nat \<Rightarrow> field_config" where
  "new_struct so n = \<lparr>fc_type = StructInfo, fc_sort_options = so, encoded_length = n\<rparr>"

definition new_list :: "sort_options \<Rightarrow> field_config" where
  "new_list so = \<lparr>fc_type = ListInfo, fc_sort_options = so, encoded_length = 0\<rparr>"

definition new_dictionary :: "sort_options \<Rightarrow> nat \<Rightarrow> field_config" where
  "new_dictionary so n = \<lparr>fc_type = DictionaryInfo, fc_sort_options = so, encoded_length = n\<rparr>"

fun type_needs_decoded_nulls :: "data_type_info \<Rightarrow> bool" where
  "type_needs_decoded_nulls StructInfo = True"
| "type_needs_decoded_nulls ListInfo = True"
| "type_needs_decoded_nulls DictionaryInfo = True"
| "type_needs_decoded_nulls _ = False"

definition needs_decoded_nulls :: "field_config list \<Rightarrow> bool" where
  "needs_decoded_nulls cs = list_ex (\<lambda>c. type_needs_decoded_nulls (fc_type c)) cs"

fun dictionary_key_length :: "data_type \<Rightarrow> nat" where
  "dictionary_key_length Int8 = 2"
| "dictionary_key_length UInt8 = 2"
| "dictionary_key_length Int16 = 3"
| "dictionary_key_length UInt16 = 3"
| "dictionary_key_length Int32 = 5"
| "dictionary_key_length UInt32 = 5"
| "dictionary_key_length Int64 = 9"
| "dictionary_key_length UInt64 = 9"
| "dictionary_key_length _ = 5"

text \<open>\<open>None\<close> is the panic on a type the checker does not know.\<close>

definition create_field_config :: "data_type \<Rightarrow> sort_options \<Rightarrow> field_config option" where
  "create_field_config dt so =
     (case dt of
        Null \<Rightarrow> Some \<lparr>fc_type = NullInfo, fc_sort_options = so, encoded_length = 0\<rparr>
      | Boolean \<Rightarrow> Some (new_boolean so)
      | _ \<Rightarrow>
          (case primitive_width dt of
             Some w \<Rightarrow> Some (new_primitive so (1 + w))
           | None \<Rightarrow>
               (case dt of
                  Utf8 \<Rightarrow> Some (new_variable so)
                | LargeUtf8 \<Rightarrow> Some (new_variable so)
                | Binary \<Rightarrow> Some (new_variable so)
                | LargeBinary \<Rightarrow> Some (new_variable so)
                | FixedSizeBinary n \<Rightarrow> Some (new_fixed_size_binary so n)
                | List _ \<Rightarrow> Some (new_list so)
                | LargeList _ \<Rightarrow> Some (new_list so)
                | Struct _ \<Rightarrow> Some (new_struct so 32)
                | Dictionary _ vt \<Rightarrow> Some (new_dictionary so (dictionary_key_length vt))
                | _ \<Rightarrow> None)))"

fun new_checker :: "(data_type \<times> sort_options) list \<Rightarrow> field_config list option" where
  "new_checker [] = Some []"
| "new_checker ((dt, so) # fs) =
     do { c \<leftarrow> create_field_config dt so; cs \<leftarrow> new_checker fs; Some (c # cs) }"

section \<open>Walking over a row\<close>

definition null_sentinel :: "sort_options \<Rightarrow> u8" where
  "null_sentinel so = (if nulls_first so then 0 else 0xFF)"

definition check_field_null :: "bytes \<Rightarrow> field_config \<Rightarrow> bool" where
  "check_field_null data c =
     (if data = [] then True
      else case fc_type c of NullInfo \<Rightarrow> True | _ \<Rightarrow> data ! 0 = null_sentinel (fc_sort_options c))"

definition MINI_BLOCK_SIZE :: nat where "MINI_BLOCK_SIZE = 8"
definition MINI_BLOCK_COUNT :: nat where "MINI_BLOCK_COUNT = 4"
definition BLOCK_SIZE :: nat where "BLOCK_SIZE = 32"

definition continuation :: "sort_options \<Rightarrow> u8" where
  "continuation so = (if descending so then not 0xFF else 0xFF)"

definition empty_sentinel :: "sort_options \<Rightarrow> u8" where
  "empty_sentinel so = (if descending so then not 1 else 1)"

definition non_empty_sentinel :: "sort_options \<Rightarrow> u8" where
  "non_empty_sentinel so = (if descending so then not 2 else 2)"

text \<open>The loop over the mini blocks: \<open>Inl\<close> the length it returns, \<open>Inr\<close> the index after all of them.\<close>

fun mini_blocks :: "nat \<Rightarrow> u8 \<Rightarrow> bytes \<Rightarrow> nat \<Rightarrow> nat + nat" where
  "mini_blocks 0 cont data idx = Inr idx"
| "mini_blocks (Suc n) cont data idx =
     (if idx + MINI_BLOCK_SIZE \<ge> length data then Inl (length data)
      else if data ! (idx + MINI_BLOCK_SIZE) \<noteq> cont then Inl (idx + MINI_BLOCK_SIZE + 1)
      else mini_blocks n cont data (idx + MINI_BLOCK_SIZE + 1))"

function full_blocks :: "u8 \<Rightarrow> bytes \<Rightarrow> nat \<Rightarrow> nat" where
  "full_blocks cont data idx =
     (if idx + BLOCK_SIZE \<ge> length data then length data
      else if data ! (idx + BLOCK_SIZE) \<noteq> cont then idx + BLOCK_SIZE + 1
      else full_blocks cont data (idx + BLOCK_SIZE + 1))"
  by pat_completeness auto
termination by (relation "measure (\<lambda>(cont, data, idx). length data - idx)") auto

declare full_blocks.simps [simp del]

definition decode_variable_blocks_length :: "bytes \<Rightarrow> sort_options \<Rightarrow> nat" where
  "decode_variable_blocks_length data so =
     (if data ! 0 \<noteq> non_empty_sentinel so then 1
      else case mini_blocks MINI_BLOCK_COUNT (continuation so) data 1 of
             Inl n \<Rightarrow> n | Inr idx \<Rightarrow> full_blocks (continuation so) data idx)"

definition calculate_variable_length :: "bytes \<Rightarrow> sort_options \<Rightarrow> nat" where
  "calculate_variable_length data so =
     (if data = [] then 0
      else if data ! 0 = null_sentinel so then 1
      else if data ! 0 = empty_sentinel so then 1
      else decode_variable_blocks_length data so)"

definition calculate_field_length :: "bytes \<Rightarrow> field_config \<Rightarrow> nat" where
  "calculate_field_length data c =
     (if data = [] then 0
      else case fc_type c of
        NullInfo \<Rightarrow> 0
      | PrimitiveInfo \<Rightarrow> encoded_length c
      | BooleanInfo \<Rightarrow> 2
      | VariableInfo \<Rightarrow> calculate_variable_length data (fc_sort_options c)
      | FixedSizeBinaryInfo \<Rightarrow> encoded_length c
      | StructInfo \<Rightarrow> encoded_length c
      | ListInfo \<Rightarrow> calculate_variable_length data (fc_sort_options c)
      | DictionaryInfo \<Rightarrow> encoded_length c)"

fun has_null_internal :: "bytes \<Rightarrow> field_config list \<Rightarrow> nat \<Rightarrow> bool" where
  "has_null_internal row [] offset = False"
| "has_null_internal row (c # cs) offset =
     (if offset \<ge> length row then True
      else if check_field_null (drop offset row) c then True
      else has_null_internal row cs (offset + calculate_field_length (drop offset row) c))"

definition has_null :: "field_config list \<Rightarrow> bytes \<Rightarrow> bool" where
  "has_null cs row = has_null_internal row cs 0"

text \<open>
  The validity bit of every row.  \<open>decoded\<close> stands for decoding the rows into columns with the
  row converter and taking the logical nulls of every column; \<open>None\<close> is its failure, a panic.
\<close>

definition has_nulls :: "(bytes list \<Rightarrow> bool list option list option) \<Rightarrow> field_config list \<Rightarrow> bytes list \<Rightarrow> bool list option" where
  "has_nulls decoded cs rows =
     (if \<not> needs_decoded_nulls cs then Some (map (\<lambda>row. \<not> has_null cs row) rows)
      else do { logical_nulls \<leftarrow> decoded rows;
                those (map (\<lambda>i. those (map (\<lambda>nulls. case nulls of Some v \<Rightarrow> vget v i | None \<Rightarrow> Some True) logical_nulls)
                              \<bind> (\<lambda>vs. Some (list_all id vs))) [0..<length rows]) })"

section \<open>The row format\<close>

text \<open>
  A non-empty variable-length value: up to four mini blocks, then full blocks, every block
  followed by a continuation byte except the last one, which is followed by a length.
\<close>

definition terminated :: "nat \<Rightarrow> u8 \<Rightarrow> bytes list \<Rightarrow> bool" where
  "terminated n cont bs =
     (bs \<noteq> [] \<and> (\<forall>b \<in> set bs. length b = n + 1) \<and> (\<forall>b \<in> set (butlast bs). b ! n = cont) \<and> last bs ! n \<noteq> cont)"

definition continued :: "nat \<Rightarrow> u8 \<Rightarrow> bytes list \<Rightarrow> bool" where
  "continued n cont bs = (\<forall>b \<in> set bs. length b = n + 1 \<and> b ! n = cont)"

definition blocks_layout :: "u8 \<Rightarrow> bytes list \<Rightarrow> bytes list \<Rightarrow> bool" where
  "blocks_layout cont minis fulls =
     (if fulls = [] then length minis \<le> 4 \<and> terminated 8 cont minis
      else length minis = 4 \<and> continued 8 cont minis \<and> terminated 32 cont fulls)"

definition field_layout :: "field_config \<Rightarrow> bool \<Rightarrow> bytes \<Rightarrow> bool" where
  "field_layout c isnull bs =
     (let so = fc_sort_options c in
      case fc_type c of
        NullInfo \<Rightarrow> isnull \<and> bs = []
      | VariableInfo \<Rightarrow>
          (if isnull then bs = [null_sentinel so]
           else bs = [empty_sentinel so]
             \<or> (\<exists>minis fulls. bs = non_empty_sentinel so # concat minis @ concat fulls
                  \<and> blocks_layout (continuation so) minis fulls))
      | _ \<Rightarrow> length bs = encoded_length c \<and> bs \<noteq> [] \<and> bs ! 0 = (if isnull then null_sentinel so else 1))"

section \<open>Lemmas\<close>

lemma sentinels: "empty_sentinel so \<noteq> null_sentinel so" "non_empty_sentinel so \<noteq> null_sentinel so"
  "non_empty_sentinel so \<noteq> empty_sentinel so" "1 \<noteq> null_sentinel so"
  by (simp_all add: empty_sentinel_def non_empty_sentinel_def null_sentinel_def)

lemma continued_Cons: "continued n cont (b # bs) \<longleftrightarrow> length b = n + 1 \<and> b ! n = cont \<and> continued n cont bs"
  by (auto simp: continued_def)

lemma terminated_Cons:
  "terminated n cont (b # bs) \<longleftrightarrow>
     length b = n + 1 \<and> (if bs = [] then b ! n \<noteq> cont else b ! n = cont \<and> terminated n cont bs)"
  by (auto simp: terminated_def)

lemma mini_blocks_continued:
  "continued 8 cont ms \<Longrightarrow> drop idx data = concat ms @ rest \<Longrightarrow> length ms \<le> n \<Longrightarrow>
   mini_blocks n cont data idx = mini_blocks (n - length ms) cont data (idx + length (concat ms))"
proof (induction ms arbitrary: n idx)
  case (Cons m ms)
  then obtain k where k: "n = Suc k" by (cases n) auto
  have m: "length m = 9" "m ! 8 = cont" "continued 8 cont ms" using Cons.prems(1) by (simp_all add: continued_Cons)
  have "idx + 8 < length data" using arg_cong [OF Cons.prems(2), of length] m(1) by simp
  moreover have "data ! (idx + 8) = cont"
    using arg_cong [OF Cons.prems(2), of "\<lambda>xs. xs ! 8"] m(1,2) \<open>idx + 8 < length data\<close> by (simp add: nth_append)
  moreover have "drop (idx + 9) data = concat ms @ rest"
    using arg_cong [OF Cons.prems(2), of "drop 9"] m(1) by (simp add: add.commute)
  ultimately show ?case
    using Cons.IH [OF m(3), of "idx + 9" k] Cons.prems(3) m(1) by (simp add: k MINI_BLOCK_SIZE_def ac_simps)
qed simp

lemma mini_blocks_terminated:
  "terminated 8 cont ms \<Longrightarrow> drop idx data = concat ms @ rest \<Longrightarrow> length ms \<le> n \<Longrightarrow>
   mini_blocks n cont data idx = Inl (idx + length (concat ms))"
proof (induction ms arbitrary: n idx)
  case Nil
  then show ?case by (simp add: terminated_def)
next
  case (Cons m ms)
  then obtain k where k: "n = Suc k" by (cases n) auto
  have m: "length m = 9" "if ms = [] then m ! 8 \<noteq> cont else m ! 8 = cont \<and> terminated 8 cont ms"
    using Cons.prems(1) by (simp_all add: terminated_Cons)
  have i: "idx + 8 < length data" using arg_cong [OF Cons.prems(2), of length] m(1) by simp
  have d: "data ! (idx + 8) = m ! 8"
    using arg_cong [OF Cons.prems(2), of "\<lambda>xs. xs ! 8"] m(1) i by (simp add: nth_append)
  have "drop (idx + 9) data = concat ms @ rest"
    using arg_cong [OF Cons.prems(2), of "drop 9"] m(1) by (simp add: add.commute)
  with Cons.IH [of "idx + 9" k] Cons.prems(3) m i d show ?case
    by (cases "ms = []") (simp_all add: k MINI_BLOCK_SIZE_def ac_simps)
qed

lemma full_blocks_terminated:
  "terminated 32 cont fs \<Longrightarrow> drop idx data = concat fs @ rest \<Longrightarrow>
   full_blocks cont data idx = idx + length (concat fs)"
proof (induction fs arbitrary: idx)
  case Nil
  then show ?case by (simp add: terminated_def)
next
  case (Cons m fs)
  have m: "length m = 33" "if fs = [] then m ! 32 \<noteq> cont else m ! 32 = cont \<and> terminated 32 cont fs"
    using Cons.prems(1) by (simp_all add: terminated_Cons)
  have i: "idx + 32 < length data" using arg_cong [OF Cons.prems(2), of length] m(1) by simp
  have d: "data ! (idx + 32) = m ! 32"
    using arg_cong [OF Cons.prems(2), of "\<lambda>xs. xs ! 32"] m(1) i by (simp add: nth_append)
  have "drop (idx + 33) data = concat fs @ rest"
    using arg_cong [OF Cons.prems(2), of "drop 33"] m(1) by (simp add: add.commute)
  with Cons.IH [of "idx + 33"] m i d show ?case
    by (cases "fs = []") (simp_all add: full_blocks.simps [of cont data idx] BLOCK_SIZE_def ac_simps)
qed

lemma variable_length_ok:
  assumes "blocks_layout (continuation so) minis fulls"
  shows "calculate_variable_length (non_empty_sentinel so # concat minis @ concat fulls @ rest) so
    = 1 + length (concat minis) + length (concat fulls)"
proof -
  let ?d = "non_empty_sentinel so # concat minis @ concat fulls @ rest"
  have mini: "drop 1 ?d = concat minis @ concat fulls @ rest" by simp
  have "decode_variable_blocks_length ?d so = 1 + length (concat minis) + length (concat fulls)"
  proof (cases "fulls = []")
    case True
    then show ?thesis
      using assms mini_blocks_terminated [OF _ mini, of "continuation so" 4]
      by (simp add: blocks_layout_def decode_variable_blocks_length_def MINI_BLOCK_COUNT_def)
  next
    case False
    have "drop (1 + length (concat minis)) ?d = concat fulls @ rest" by simp
    with False assms mini_blocks_continued [OF _ mini, of "continuation so" 4] full_blocks_terminated [OF _ this, of "continuation so"]
    show ?thesis
      by (simp add: blocks_layout_def decode_variable_blocks_length_def MINI_BLOCK_COUNT_def)
  qed
  then show ?thesis by (simp add: calculate_variable_length_def sentinels)
qed

lemma field_layout_null:
  assumes "field_layout c isnull bs" and "bs @ rest \<noteq> []" and "\<not> type_needs_decoded_nulls (fc_type c)"
  shows "check_field_null (bs @ rest) c = isnull"
  using assms
  by (cases "fc_type c")
    (auto simp: field_layout_def check_field_null_def Let_def sentinels nth_append split: if_splits)

lemma field_layout_length:
  assumes "field_layout c False bs" and "\<not> type_needs_decoded_nulls (fc_type c)"
    and "fc_type c = BooleanInfo \<Longrightarrow> encoded_length c = 2"
  shows "bs \<noteq> []" and "calculate_field_length (bs @ rest) c = length bs"
proof -
  show ne: "bs \<noteq> []" using assms(1,2) by (cases "fc_type c") (auto simp: field_layout_def Let_def)
  show "calculate_field_length (bs @ rest) c = length bs"
  proof (cases "fc_type c")
    case VariableInfo
    then consider "bs = [empty_sentinel (fc_sort_options c)]"
      | minis fulls where "bs = non_empty_sentinel (fc_sort_options c) # concat minis @ concat fulls"
        "blocks_layout (continuation (fc_sort_options c)) minis fulls"
      using assms(1) by (auto simp: field_layout_def Let_def)
    then show ?thesis
    proof cases
      case 1
      then show ?thesis
        using VariableInfo by (simp add: calculate_field_length_def calculate_variable_length_def sentinels)
    next
      case 2
      then show ?thesis
        using VariableInfo variable_length_ok [OF 2(2), of rest] by (simp add: calculate_field_length_def)
    qed
  qed (use assms ne in \<open>auto simp: field_layout_def calculate_field_length_def Let_def\<close>)
qed

definition config_ok :: "field_config \<Rightarrow> bool" where
  "config_ok c = (\<not> type_needs_decoded_nulls (fc_type c) \<and> (fc_type c = BooleanInfo \<longrightarrow> encoded_length c = 2))"

lemma has_null_internal_ok:
  assumes "list_all2 (\<lambda>c (isnull, bs). field_layout c isnull bs) cs fs" and "list_all config_ok cs"
    and "drop offset row = concat (map snd fs)" and "offset \<le> length row"
  shows "has_null_internal row cs offset = (\<exists>f \<in> set fs. fst f)"
  using assms
proof (induction cs arbitrary: fs offset)
  case (Cons c cs)
  from Cons.prems(1) obtain n bs gs where fs: "fs = (n, bs) # gs" "field_layout c n bs"
    "list_all2 (\<lambda>c (isnull, bs). field_layout c isnull bs) cs gs"
    by (auto simp: list_all2_Cons1)
  have ok: "config_ok c" "list_all config_ok cs" using Cons.prems(2) by simp_all
  have d: "drop offset row = bs @ concat (map snd gs)" using Cons.prems(3) fs(1) by simp
  show ?case
  proof (cases n)
    case True
    have "check_field_null (drop offset row) c" if "offset < length row"
    proof -
      have "bs @ concat (map snd gs) \<noteq> []" using d that by (metis drop_eq_Nil leD)
      from field_layout_null [OF fs(2) this] ok(1) True show ?thesis by (simp add: d config_ok_def)
    qed
    with True fs(1) show ?thesis by auto
  next
    case False
    have l: "field_layout c False bs" using fs(2) False by simp
    have nd: "\<not> type_needs_decoded_nulls (fc_type c)" and b2: "fc_type c = BooleanInfo \<Longrightarrow> encoded_length c = 2"
      using ok(1) by (simp_all add: config_ok_def)
    note len = field_layout_length [OF l nd b2]
    have "offset < length row" using d len(1) by (metis append_is_Nil_conv drop_all not_less)
    moreover have "drop (offset + length bs) row = concat (map snd gs)"
      using arg_cong [OF d, of "drop (length bs)"] by (simp add: add.commute)
    moreover have "offset + length bs \<le> length row" using arg_cong [OF d, of length] Cons.prems(4) by simp
    ultimately show ?thesis
      using Cons.IH [OF fs(3) ok(2), of "offset + length bs"] field_layout_null [OF l _ nd, of "concat (map snd gs)"]
        len False fs(1) d by simp
  qed
qed simp

lemma create_field_config_ok:
  "create_field_config dt so = Some c \<Longrightarrow> \<not> type_needs_decoded_nulls (fc_type c) \<Longrightarrow> config_ok c"
  by (auto simp: create_field_config_def config_ok_def new_primitive_def new_boolean_def new_variable_def
      new_fixed_size_binary_def new_struct_def new_list_def new_dictionary_def
      split: data_type.splits option.splits)

lemma new_checker_ok:
  "new_checker key_types = Some cs \<Longrightarrow> \<not> needs_decoded_nulls cs \<Longrightarrow> list_all config_ok cs"
  by (induction key_types arbitrary: cs rule: new_checker.induct)
    (auto simp: needs_decoded_nulls_def create_field_config_ok split: Option.bind_splits)

section \<open>Properties\<close>

text \<open>
  C31: For key types that are not nested, the checker marks a row valid exactly if none of its
  fields is null, whatever the sort options, the lengths of strings and the blocks they span.
\<close>

theorem row_null_check_correct:
  assumes "new_checker key_types = Some cs" and "\<not> needs_decoded_nulls cs"
    and "\<forall>fs \<in> set rows. list_all2 (\<lambda>c (isnull, bs). field_layout c isnull bs) cs fs"
  shows "has_nulls decoded cs (map (\<lambda>fs. concat (map snd fs)) rows)
    = Some (map (\<lambda>fs. \<forall>f \<in> set fs. \<not> fst f) rows)"
proof -
  have "has_null cs (concat (map snd fs)) = (\<exists>f \<in> set fs. fst f)" if "fs \<in> set rows" for fs
    unfolding has_null_def
    by (rule has_null_internal_ok) (use assms(3) that new_checker_ok [OF assms(1,2)] in auto)
  then show ?thesis using assms(2) by (simp add: has_nulls_def)
qed

theorem row_null_check_correct_witness:
  "has_nulls (\<lambda>_. None) [new_variable \<lparr>descending = False, nulls_first = True\<rparr>, new_boolean \<lparr>descending = True, nulls_first = False\<rparr>]
     [[1, 1, 0], [0, 1, 0], [2, 7, 0, 0, 0, 0, 0, 0, 0, 1, 0xFF, 0]] = Some [True, False, False]"
proof -
  let ?cs = "[new_variable \<lparr>descending = False, nulls_first = True\<rparr>, new_boolean \<lparr>descending = True, nulls_first = False\<rparr>]"
  let ?rows = "[[(False, [1]), (False, [1, 0])], [(True, [0]), (False, [1, 0])],
      [(False, [2, 7, 0, 0, 0, 0, 0, 0, 0, 1]), (True, [0xFF, 0])]] :: (bool \<times> bytes) list list"
  have lay: "field_layout (?cs ! 0) False [2, 7, 0, 0, 0, 0, 0, 0, 0, 1]"
    by (simp add: field_layout_def new_variable_def non_empty_sentinel_def)
      (rule exI [of _ "[[7, 0, 0, 0, 0, 0, 0, 0, 1]]"], rule exI [of _ "[]"],
        simp add: blocks_layout_def terminated_def continuation_def)
  have "has_nulls (\<lambda>_. None) ?cs (map (\<lambda>fs. concat (map snd fs)) ?rows)
      = Some (map (\<lambda>fs. \<forall>f \<in> set fs. \<not> fst f) ?rows)"
  proof (rule row_null_check_correct)
    show "new_checker [(Utf8, \<lparr>descending = False, nulls_first = True\<rparr>), (Boolean, \<lparr>descending = True, nulls_first = False\<rparr>)]
        = Some ?cs" by (simp add: create_field_config_def)
    show "\<not> needs_decoded_nulls ?cs" by (simp add: needs_decoded_nulls_def new_variable_def new_boolean_def)
    show "\<forall>fs \<in> set ?rows. list_all2 (\<lambda>c (isnull, bs). field_layout c isnull bs) ?cs fs"
      using lay by (simp add: field_layout_def new_variable_def new_boolean_def empty_sentinel_def null_sentinel_def)
  qed
  then show ?thesis by simp
qed

end
