(* ===== verification/Stream_Cursor.thy ===== *)
theory Stream_Cursor
  imports Row_Null_Checker "HOL-Library.List_Lexorder"
begin

text \<open>
  What the sort-merge joins share: the cursor over a stream of sorted batches
  (\<open>joins/stream_cursor.rs\<close>), the comparison of two cursors (\<open>compare_cursor!\<close> of
  \<open>sort_merge_join_exec.rs\<close>), the gathering of rows from buffered batches
  (\<open>create_batch_interleaver\<close> of \<open>arrow/selection.rs\<close>), the residual join condition and the output
  projection (\<open>joins/mod.rs\<close>).

  A row is the list of its cells, \<open>None\<close> a null; a key is the encoded key row, compared as bytes.
  The upstream of a cursor is the list of what it will deliver, \<open>None\<close> an error; the answer
  \<open>None\<close> of an operation is a panic or such an error.  \<open>remaining\<close> is the list of keyed rows from
  the cursor's position to the end of the stream, which is all that the joins depend on.
\<close>

section \<open>Model\<close>

type_synonym idx = "nat \<times> nat"
type_synonym 'v row = "'v option list"

record 'v key_batch =
  kb_rows :: "'v row list"
  kb_keys :: "bytes list"

record 'v stream_cursor =
  sc_stream :: "'v key_batch option list"
  batches :: "'v row list list"
  cur_idx :: idx
  sc_keys :: "bytes list list"
  key_has_nulls :: "bool list option list"
  finished :: bool

text \<open>The first batch is always the batch of one row of nulls.\<close>

definition try_new_cursor :: "nat \<Rightarrow> 'v key_batch option list \<Rightarrow> 'v stream_cursor" where
  "try_new_cursor ncols stream =
     \<lparr>sc_stream = stream, batches = [[replicate ncols None]], cur_idx = (0, 0), sc_keys = [[]],
      key_has_nulls = [Some [False]], finished = False\<rparr>"

text \<open>\<open>checker\<close> is the null checker of the key: a validity bit for every key row.\<close>

fun load_next_batch :: "(bytes list \<Rightarrow> bool list option) \<Rightarrow> 'v key_batch option list \<Rightarrow> 'v stream_cursor \<Rightarrow> 'v stream_cursor option" where
  "load_next_batch checker [] c = Some (c\<lparr>sc_stream := [], finished := True\<rparr>)"
| "load_next_batch checker (None # rest) c = None"
| "load_next_batch checker (Some b # rest) c =
     (if kb_rows b = [] then load_next_batch checker rest c
      else do { nb \<leftarrow> checker (kb_keys b);
                Some (c\<lparr>sc_stream := rest, batches := batches c @ [kb_rows b],
                        key_has_nulls := key_has_nulls c @ [if False \<in> set nb then Some nb else None],
                        sc_keys := sc_keys c @ [kb_keys b]\<rparr>) })"

definition cursor_next :: "(bytes list \<Rightarrow> bool list option) \<Rightarrow> 'v stream_cursor \<Rightarrow> 'v stream_cursor option" where
  "cursor_next checker c =
     (let (i, j) = cur_idx c
      in do { rows \<leftarrow> vget (batches c) i;
              let ij = (if j + 1 \<ge> length rows then (i + 1, 0) else (i, j + 1)) in
              if fst ij \<ge> length (batches c) then load_next_batch checker (sc_stream c) (c\<lparr>cur_idx := ij\<rparr>)
              else Some (c\<lparr>cur_idx := ij\<rparr>) })"

definition is_null_key :: "'v stream_cursor \<Rightarrow> idx \<Rightarrow> bool option" where
  "is_null_key c ix =
     do { nb \<leftarrow> vget (key_has_nulls c) (fst ix);
          (case nb of None \<Rightarrow> Some False | Some bits \<Rightarrow> map_option Not (vget bits (snd ix))) }"

definition key :: "'v stream_cursor \<Rightarrow> idx \<Rightarrow> bytes option" where
  "key c ix = do { ks \<leftarrow> vget (sc_keys c) (fst ix); vget ks (snd ix) }"

definition cur_key :: "'v stream_cursor \<Rightarrow> bytes option" where
  "cur_key c = key c (cur_idx c)"

definition num_buffered_batches :: "'v stream_cursor \<Rightarrow> nat" where
  "num_buffered_batches c = length (batches c) - 1"

definition splice_out :: "nat \<Rightarrow> 'a list \<Rightarrow> 'a list" where
  "splice_out n xs = take 1 xs @ drop n xs"

definition clean_out_dated_batches :: "'v stream_cursor \<Rightarrow> 'v stream_cursor" where
  "clean_out_dated_batches c =
     (let i = fst (cur_idx c)
      in if i > 1
         then c\<lparr>batches := splice_out i (batches c), sc_keys := splice_out i (sc_keys c),
                key_has_nulls := splice_out i (key_has_nulls c), cur_idx := (1, snd (cur_idx c))\<rparr>
         else c)"

datatype ordering = Less | Equal | Greater

definition compare_cursor :: "'v stream_cursor \<Rightarrow> 'v stream_cursor \<Rightarrow> ordering option" where
  "compare_cursor c1 c2 =
     do { lnull \<leftarrow> is_null_key c1 (cur_idx c1);
          if lnull then Some Less
          else do { rnull \<leftarrow> is_null_key c2 (cur_idx c2);
                    if rnull then Some Greater
                    else do { lk \<leftarrow> key c1 (cur_idx c1); rk \<leftarrow> key c2 (cur_idx c2);
                              Some (if lk < rk then Less else if lk = rk then Equal else Greater) } } }"

text \<open>The batch interleaver: the rows at the given positions.\<close>

definition row_at :: "'v row list list \<Rightarrow> idx \<Rightarrow> 'v row option" where
  "row_at bs ix = do { rows \<leftarrow> vget bs (fst ix); vget rows (snd ix) }"

definition interleave :: "'v row list list \<Rightarrow> idx list \<Rightarrow> 'v row list option" where
  "interleave bs ixs = those (map (row_at bs) ixs)"

section \<open>Join conditions and projections\<close>

datatype join_side = LeftSide | RightSide | NoSide

datatype join_type =
    Inner | LeftOuter | RightOuter | FullOuter | LeftSemi | LeftAnti | RightSemi | RightAnti | Existence

record join_projection =
  proj_left :: "nat list"
  proj_right :: "nat list"

text \<open>The boolean column an expression evaluates to: an array, or one value for all rows.\<close>

datatype columnar_bool = ScalarValue "bool option" | ArrayValue "bool option list"

record 'v join_filter =
  expression :: "'v row list \<Rightarrow> columnar_bool option"
  column_indices :: "(join_side \<times> nat) list"

text \<open>The columns the condition uses; \<open>lcols\<close> and \<open>rcols\<close> are the numbers of columns.\<close>

definition filter_cell :: "'v row \<Rightarrow> 'v row \<Rightarrow> join_side \<times> nat \<Rightarrow> 'v option" where
  "filter_cell l r ci = (case fst ci of LeftSide \<Rightarrow> l ! snd ci | _ \<Rightarrow> r ! snd ci)"

definition filter_column_ok :: "nat \<Rightarrow> nat \<Rightarrow> join_side \<times> nat \<Rightarrow> bool" where
  "filter_column_ok lcols rcols ci =
     (case fst ci of LeftSide \<Rightarrow> snd ci < lcols | RightSide \<Rightarrow> snd ci < rcols | NoSide \<Rightarrow> False)"

definition evaluate_filter :: "'v join_filter \<Rightarrow> nat \<Rightarrow> nat \<Rightarrow> 'v row list \<Rightarrow> 'v row list \<Rightarrow> bool list option" where
  "evaluate_filter jf lcols rcols ls rs =
     (if list_all (filter_column_ok lcols rcols) (column_indices jf)
      then do { v \<leftarrow> expression jf (map2 (\<lambda>l r. map (filter_cell l r) (column_indices jf)) ls rs);
                Some (case v of
                        ScalarValue b \<Rightarrow> replicate (length ls) (b = Some True)
                      | ArrayValue bs \<Rightarrow> map (\<lambda>b. b = Some True) bs) }
      else None)"

text \<open>\<open>JoinProjection::try_new\<close>; the schemas enter with their numbers of fields.\<close>

definition try_new_projection :: "join_type \<Rightarrow> nat \<Rightarrow> nat \<Rightarrow> nat \<Rightarrow> nat list \<Rightarrow> join_projection option" where
  "try_new_projection jt schema_len left_len right_len projection =
     (if list_all (\<lambda>i. i < schema_len) projection
      then Some (case jt of
             LeftAnti \<Rightarrow> \<lparr>proj_left = projection, proj_right = []\<rparr>
           | LeftSemi \<Rightarrow> \<lparr>proj_left = projection, proj_right = []\<rparr>
           | RightAnti \<Rightarrow> \<lparr>proj_left = [], proj_right = projection\<rparr>
           | RightSemi \<Rightarrow> \<lparr>proj_left = [], proj_right = projection\<rparr>
           | Existence \<Rightarrow> \<lparr>proj_left = filter (\<lambda>i. i < left_len) projection, proj_right = []\<rparr>
           | _ \<Rightarrow> \<lparr>proj_left = filter (\<lambda>i. i < left_len) projection,
                   proj_right = map (\<lambda>i. i - left_len) (filter (\<lambda>i. \<not> i < left_len \<and> i - left_len < right_len) projection)\<rparr>)
      else None)"

definition project_left :: "join_projection \<Rightarrow> 'v row \<Rightarrow> 'v row option" where
  "project_left p row = those (map (vget row) (proj_left p))"

definition project_right :: "join_projection \<Rightarrow> 'v row \<Rightarrow> 'v row option" where
  "project_right p row = those (map (vget row) (proj_right p))"

record 'v join_params =
  projection :: join_projection
  join_filter :: "'v join_filter option"
  batch_size :: nat

section \<open>The rows still to come\<close>

fun batch_items :: "'v key_batch option \<Rightarrow> (bytes \<times> 'v row) list" where
  "batch_items None = []"
| "batch_items (Some b) = zip (kb_keys b) (kb_rows b)"

definition stream_items :: "'v key_batch option list \<Rightarrow> (bytes \<times> 'v row) list" where
  "stream_items s = concat (map batch_items s)"

definition remaining :: "'v stream_cursor \<Rightarrow> (bytes \<times> 'v row) list" where
  "remaining c =
     (if finished c then []
      else drop (snd (cur_idx c)) (zip (sc_keys c ! fst (cur_idx c)) (batches c ! fst (cur_idx c))))
     @ stream_items (sc_stream c)"

text \<open>A stream that delivers batches of \<open>ncols\<close> columns with a key for every row.\<close>

fun batch_ok :: "nat \<Rightarrow> 'v key_batch option \<Rightarrow> bool" where
  "batch_ok ncols None = False"
| "batch_ok ncols (Some b) = (length (kb_keys b) = length (kb_rows b) \<and> (\<forall>r \<in> set (kb_rows b). length r = ncols))"

definition null_bits :: "(bytes \<Rightarrow> bool) \<Rightarrow> bytes list \<Rightarrow> bool list option" where
  "null_bits null ks = (if \<exists>k \<in> set ks. null k then Some (map (\<lambda>k. \<not> null k) ks) else None)"

definition buffered_ok :: "(bytes \<Rightarrow> bool) \<Rightarrow> nat \<Rightarrow> 'v stream_cursor \<Rightarrow> bool" where
  "buffered_ok null ncols c =
     (length (sc_keys c) = length (batches c) \<and> length (key_has_nulls c) = length (batches c)
      \<and> batches c \<noteq> [] \<and> batches c ! 0 = [replicate ncols None]
      \<and> (\<forall>i. 1 \<le> i \<and> i < length (batches c) \<longrightarrow>
           batches c ! i \<noteq> [] \<and> length (sc_keys c ! i) = length (batches c ! i)
           \<and> (\<forall>r \<in> set (batches c ! i). length r = ncols)
           \<and> key_has_nulls c ! i = null_bits null (sc_keys c ! i)))"

definition cursor_ok :: "(bytes \<Rightarrow> bool) \<Rightarrow> nat \<Rightarrow> 'v stream_cursor \<Rightarrow> bool" where
  "cursor_ok null ncols c =
     (buffered_ok null ncols c \<and> (\<forall>b \<in> set (sc_stream c). batch_ok ncols b) \<and> 1 \<le> fst (cur_idx c)
      \<and> (if finished c then fst (cur_idx c) = length (batches c) \<and> sc_stream c = []
         else fst (cur_idx c) = length (batches c) - 1 \<and> snd (cur_idx c) < length (batches c ! fst (cur_idx c))))"

text \<open>The cursor \<open>c'\<close> buffers what \<open>c\<close> buffers and maybe more.\<close>

definition extends :: "'v stream_cursor \<Rightarrow> 'v stream_cursor \<Rightarrow> bool" where
  "extends c c' = ((\<exists>bs. batches c' = batches c @ bs) \<and> (\<exists>ks. sc_keys c' = sc_keys c @ ks))"

abbreviation checks :: "(bytes list \<Rightarrow> bool list option) \<Rightarrow> (bytes \<Rightarrow> bool) \<Rightarrow> bool" where
  "checks checker null \<equiv> (\<forall>ks. checker ks = Some (map (\<lambda>k. \<not> null k) ks))"

section \<open>Lemmas\<close>

lemma extends_refl [simp]: "extends c c"
  by (simp add: extends_def)

lemma extends_trans: "extends a b \<Longrightarrow> extends b c \<Longrightarrow> extends a c"
  by (fastforce simp: extends_def)

lemma row_at_extends: "extends c c' \<Longrightarrow> row_at (batches c) ix = Some r \<Longrightarrow> row_at (batches c') ix = Some r"
  by (auto simp: extends_def row_at_def vget_append split: Option.bind_splits)

lemma key_extends: "extends c c' \<Longrightarrow> key c ix = Some k \<Longrightarrow> key c' ix = Some k"
  by (auto simp: extends_def key_def vget_append split: Option.bind_splits)

lemma interleave_append: "interleave bs (xs @ ys) = do { a \<leftarrow> interleave bs xs; b \<leftarrow> interleave bs ys; Some (a @ b) }"
  by (simp add: interleave_def those_append)

lemma interleave_Nil [simp]: "interleave bs [] = Some []"
  by (simp add: interleave_def)

lemma interleave_Cons: "interleave bs (x # xs) = do { r \<leftarrow> row_at bs x; rs \<leftarrow> interleave bs xs; Some (r # rs) }"
  using interleave_append [of bs "[x]" xs] by (simp add: interleave_def split: option.splits)

lemma interleave_extends:
  "extends c c' \<Longrightarrow> interleave (batches c) ixs = Some rs \<Longrightarrow> interleave (batches c') ixs = Some rs"
  by (induction ixs arbitrary: rs) (auto simp: interleave_Cons row_at_extends split: Option.bind_splits)

lemma interleave_length: "interleave bs ixs = Some rs \<Longrightarrow> length rs = length ixs"
  by (auto simp: interleave_def those_Some_iff dest: map_eq_imp_length_eq)

lemma null_row: "buffered_ok null ncols c \<Longrightarrow> row_at (batches c) (0, 0) = Some (replicate ncols None)"
  by (simp add: buffered_ok_def row_at_def)

lemma row_at_length: "buffered_ok null ncols c \<Longrightarrow> row_at (batches c) ix = Some r \<Longrightarrow> length r = ncols"
proof -
  assume ok: "buffered_ok null ncols c" and r: "row_at (batches c) ix = Some r"
  obtain i j where ix: "ix = (i, j)" by force
  with r have i: "i < length (batches c)" "j < length (batches c ! i)" "r = batches c ! i ! j"
    by (auto simp: row_at_def vget_Some_iff split: Option.bind_splits)
  show ?thesis
  proof (cases "i = 0")
    case True
    with ok i show ?thesis by (auto simp: buffered_ok_def)
  next
    case False
    then have "1 \<le> i" by simp
    with ok i(1) have "\<forall>r \<in> set (batches c ! i). length r = ncols" unfolding buffered_ok_def by blast
    with i show ?thesis by simp
  qed
qed

lemma interleave_cols:
  "buffered_ok null ncols c \<Longrightarrow> interleave (batches c) ixs = Some rs \<Longrightarrow> \<forall>r \<in> set rs. length r = ncols"
  by (induction ixs arbitrary: rs) (auto simp: interleave_Cons row_at_length split: Option.bind_splits)

text \<open>Loading the next batch that has rows.\<close>

lemma buffered_ok_snoc:
  assumes "buffered_ok null ncols c" and "batch_ok ncols (Some b)" and "kb_rows b \<noteq> []"
  shows "buffered_ok null ncols (c\<lparr>sc_stream := rest, batches := batches c @ [kb_rows b],
      key_has_nulls := key_has_nulls c @ [null_bits null (kb_keys b)], sc_keys := sc_keys c @ [kb_keys b]\<rparr>)"
  using assms by (auto simp: buffered_ok_def nth_append less_Suc_eq)

lemma load_next_ok:
  assumes "checks checker null" and "buffered_ok null ncols c" and "\<forall>b \<in> set s. batch_ok ncols b"
    and "\<not> finished c" and "cur_idx c = (length (batches c), 0)"
  shows "\<exists>c'. load_next_batch checker s c = Some c' \<and> cursor_ok null ncols c'
    \<and> remaining c' = stream_items s \<and> extends c c'"
  using assms
proof (induction checker s c rule: load_next_batch.induct)
  case (1 checker c)
  then have "batches c \<noteq> []" by (simp add: buffered_ok_def)
  then have "1 \<le> length (batches c)" by (cases "batches c") auto
  with 1 show ?case
    by (auto simp: cursor_ok_def buffered_ok_def remaining_def stream_items_def extends_def)
next
  case (2 checker rest c)
  then show ?case by simp
next
  case (3 checker b rest c)
  show ?case
  proof (cases "kb_rows b = []")
    case True
    with 3 show ?thesis by (simp add: stream_items_def)
  next
    case False
    have ne: "batches c \<noteq> []" and keys: "length (sc_keys c) = length (batches c)"
      using 3(3) by (simp_all add: buffered_ok_def)
    let ?c = "c\<lparr>sc_stream := rest, batches := batches c @ [kb_rows b],
      key_has_nulls := key_has_nulls c @ [null_bits null (kb_keys b)], sc_keys := sc_keys c @ [kb_keys b]\<rparr>"
    have nb: "(if False \<in> set (map (\<lambda>k. \<not> null k) (kb_keys b)) then Some (map (\<lambda>k. \<not> null k) (kb_keys b)) else None)
        = null_bits null (kb_keys b)" by (auto simp: null_bits_def)
    have run: "load_next_batch checker (Some b # rest) c = Some ?c"
      using False 3(2) by (simp only: load_next_batch.simps bind.bind_lunit nb if_False)
    have "1 \<le> length (batches c)" using ne by (cases "batches c") auto
    then have "cursor_ok null ncols ?c"
      using buffered_ok_snoc [OF 3(3) _ False] 3(4-6) False by (simp add: cursor_ok_def)
    moreover have "remaining ?c = stream_items (Some b # rest)"
      using 3(5,6) keys by (simp add: remaining_def stream_items_def nth_append)
    ultimately show ?thesis using run by (auto simp: extends_def)
  qed
qed

lemma cursor_buffered: "cursor_ok null ncols c \<Longrightarrow> buffered_ok null ncols c"
  by (simp add: cursor_ok_def)

lemma remaining_Nil_iff: "cursor_ok null ncols c \<Longrightarrow> finished c \<longleftrightarrow> remaining c = []"
  by (auto simp: cursor_ok_def remaining_def stream_items_def buffered_ok_def Let_def)

text \<open>The row under a cursor that is not finished.\<close>

lemma cursor_current:
  assumes "cursor_ok null ncols c" and "\<not> finished c"
  shows "\<exists>k r rest. remaining c = (k, r) # rest \<and> cur_key c = Some k \<and> key c (cur_idx c) = Some k
    \<and> is_null_key c (cur_idx c) = Some (null k) \<and> row_at (batches c) (cur_idx c) = Some r"
proof -
  obtain i j where ij: "cur_idx c = (i, j)" by force
  have i: "1 \<le> i" "i = length (batches c) - 1" "j < length (batches c ! i)"
    using assms ij by (auto simp: cursor_ok_def)
  then have il: "i < length (batches c)" by simp
  then have b: "length (sc_keys c ! i) = length (batches c ! i)" "length (sc_keys c) = length (batches c)"
    "length (key_has_nulls c) = length (batches c)" "key_has_nulls c ! i = null_bits null (sc_keys c ! i)"
    using assms(1) i(1) by (auto simp: cursor_ok_def buffered_ok_def)
  have "drop j (zip (sc_keys c ! i) (batches c ! i)) =
      (sc_keys c ! i ! j, batches c ! i ! j) # drop (Suc j) (zip (sc_keys c ! i) (batches c ! i))"
    using i(3) b(1) by (subst Cons_nth_drop_Suc [symmetric]) simp_all
  moreover have "is_null_key c (i, j) = Some (null (sc_keys c ! i ! j))"
    using il b i(3) by (auto simp: is_null_key_def null_bits_def)
  ultimately show ?thesis
    using assms(2) il b i(3) by (simp add: remaining_def ij cur_key_def key_def row_at_def)
qed

lemma cursor_next_ok:
  assumes "checks checker null" and ok: "cursor_ok null ncols c" and nf: "\<not> finished c"
  shows "\<exists>c'. cursor_next checker c = Some c' \<and> cursor_ok null ncols c' \<and> remaining c' = tl (remaining c)
    \<and> extends c c'"
proof -
  obtain i j where ij: "cur_idx c = (i, j)" by force
  have i: "1 \<le> i" "i = length (batches c) - 1" "j < length (batches c ! i)" "\<forall>b \<in> set (sc_stream c). batch_ok ncols b"
    and buf: "buffered_ok null ncols c"
    using ok nf ij by (auto simp: cursor_ok_def)
  then have il: "i < length (batches c)" "Suc i = length (batches c)" by simp_all
  have len: "length (sc_keys c ! i) = length (batches c ! i)" using buf i(1) il by (simp add: buffered_ok_def)
  have tl: "tl (remaining c) = drop (Suc j) (zip (sc_keys c ! i) (batches c ! i)) @ stream_items (sc_stream c)"
    using nf ij i(3) len by (simp add: remaining_def drop_Suc tl_append tl_drop [symmetric] split: list.split)
  show ?thesis
  proof (cases "Suc j < length (batches c ! i)")
    case True
    with ij il have "cursor_next checker c = Some (c\<lparr>cur_idx := (i, Suc j)\<rparr>)"
      by (simp add: cursor_next_def)
    moreover have "cursor_ok null ncols (c\<lparr>cur_idx := (i, Suc j)\<rparr>)"
      using ok nf True i(1,2) by (simp add: cursor_ok_def buffered_ok_def)
    moreover have "remaining (c\<lparr>cur_idx := (i, Suc j)\<rparr>) = tl (remaining c)"
      using nf by (simp add: tl) (simp add: remaining_def)
    ultimately show ?thesis by (auto simp: extends_def)
  next
    case False
    let ?c = "c\<lparr>cur_idx := (Suc i, 0)\<rparr>"
    have run: "cursor_next checker c = load_next_batch checker (sc_stream c) ?c"
      using ij il False by (simp add: cursor_next_def)
    have "buffered_ok null ncols ?c" using buf by (simp add: buffered_ok_def)
    from load_next_ok [OF assms(1) this i(4)] nf il obtain c' where
      c': "load_next_batch checker (sc_stream c) ?c = Some c'" "cursor_ok null ncols c'"
      "remaining c' = stream_items (sc_stream c)" "extends ?c c'" by auto
    moreover have "tl (remaining c) = stream_items (sc_stream c)"
      using False len by (simp add: tl)
    moreover have "extends c c'" using c'(4) by (simp add: extends_def)
    ultimately show ?thesis using run by simp
  qed
qed

text \<open>The first step of a new cursor.\<close>

lemma cursor_start_ok:
  assumes "checks checker null" and "\<forall>b \<in> set s. batch_ok ncols b"
  shows "\<exists>c. cursor_next checker (try_new_cursor ncols s) = Some c \<and> cursor_ok null ncols c
    \<and> remaining c = stream_items s"
proof -
  let ?c = "(try_new_cursor ncols s)\<lparr>cur_idx := (1, 0)\<rparr>"
  have "buffered_ok null ncols ?c"
    by (simp add: buffered_ok_def try_new_cursor_def)
  from load_next_ok [OF assms(1) this assms(2)] obtain c where
    "load_next_batch checker s ?c = Some c" "cursor_ok null ncols c" "remaining c = stream_items s"
    by (auto simp: try_new_cursor_def)
  moreover have "cursor_next checker (try_new_cursor ncols s) = load_next_batch checker s ?c"
    by (simp add: cursor_next_def try_new_cursor_def)
  ultimately show ?thesis by simp
qed

text \<open>Dropping batches the cursor has passed changes neither its position nor what is to come.\<close>

lemma splice_out_nth: "1 \<le> i \<Longrightarrow> i < length (splice_out n xs) \<Longrightarrow> xs \<noteq> [] \<Longrightarrow> splice_out n xs ! i = xs ! (n + i - 1)"
  by (cases xs) (auto simp: splice_out_def nth_append nth_Cons' not_less)

lemma clean_ok:
  assumes ok: "cursor_ok null ncols c"
  shows "cursor_ok null ncols (clean_out_dated_batches c)" and "remaining (clean_out_dated_batches c) = remaining c"
    and "finished (clean_out_dated_batches c) = finished c"
proof -
  obtain i j where ij: "cur_idx c = (i, j)" by force
  have buf: "buffered_ok null ncols c" using ok by (simp add: cursor_ok_def)
  then have ne: "batches c \<noteq> []" "sc_keys c \<noteq> []" "key_has_nulls c \<noteq> []" and lens: "length (sc_keys c) = length (batches c)"
    "length (key_has_nulls c) = length (batches c)" by (auto simp: buffered_ok_def)
  let ?c = "clean_out_dated_batches c"
  show "finished ?c = finished c" by (simp add: clean_out_dated_batches_def Let_def)
  have il: "i \<le> length (batches c)" using ok ij ne by (auto simp: cursor_ok_def split: if_splits)
  have len: "length (splice_out i xs) = 1 + (length (batches c) - i)" if "length xs = length (batches c)" for xs :: "'b list"
    using that ne by (cases xs) (auto simp: splice_out_def)
  have "cursor_ok null ncols ?c \<and> remaining ?c = remaining c" if i1: "1 < i"
  proof
    have c: "?c = c\<lparr>batches := splice_out i (batches c), sc_keys := splice_out i (sc_keys c),
        key_has_nulls := splice_out i (key_has_nulls c), cur_idx := (1, j)\<rparr>"
      using i1 ij by (simp add: clean_out_dated_batches_def Let_def)
    have "splice_out i (batches c) ! 0 = batches c ! 0" using ne by (cases "batches c") (auto simp: splice_out_def)
    moreover have "batches c ! (i + k - 1) \<noteq> [] \<and> length (sc_keys c ! (i + k - 1)) = length (batches c ! (i + k - 1))
        \<and> (\<forall>r \<in> set (batches c ! (i + k - 1)). length r = ncols)
        \<and> key_has_nulls c ! (i + k - 1) = null_bits null (sc_keys c ! (i + k - 1))"
      if "1 \<le> k" "k < 1 + (length (batches c) - i)" for k
    proof -
      have "1 \<le> i + k - 1" "i + k - 1 < length (batches c)" using that i1 by simp_all
      with buf show ?thesis unfolding buffered_ok_def by blast
    qed
    ultimately have "buffered_ok null ncols ?c"
      unfolding c buffered_ok_def
      using buf ne lens len [of "batches c"] len [of "sc_keys c"] len [of "key_has_nulls c"]
      by (auto simp: buffered_ok_def splice_out_nth)
    moreover have "splice_out i (batches c) ! 1 = batches c ! i" "splice_out i (sc_keys c) ! 1 = sc_keys c ! i"
      if "i < length (batches c)"
      using that i1 ne lens len [of "batches c"] len [of "sc_keys c"] by (simp_all add: splice_out_nth)
    moreover have "finished c \<or> i < length (batches c)" using ok ij ne by (auto simp: cursor_ok_def split: if_splits)
    ultimately show "cursor_ok null ncols ?c" and "remaining ?c = remaining c"
      using ok ij i1 il len [of "batches c"]
      by (auto simp: cursor_ok_def c remaining_def split: if_splits)
  qed
  then show "cursor_ok null ncols ?c" "remaining ?c = remaining c"
    using ok ij by (cases "1 < i"; simp add: clean_out_dated_batches_def)+
qed

lemma compare_cursor_ok:
  assumes "cursor_ok null n1 c1" "cursor_ok null n2 c2" "remaining c1 = (lk, l) # ls" "remaining c2 = (rk, r) # rs"
  shows "compare_cursor c1 c2 = Some (if null lk then Less else if null rk then Greater
    else if lk < rk then Less else if lk = rk then Equal else Greater)"
proof -
  have "\<not> finished c1" "\<not> finished c2" using assms by (simp_all add: remaining_Nil_iff)
  from cursor_current [OF assms(1) this(1)] cursor_current [OF assms(2) this(2)] assms(3,4)
  show ?thesis by (auto simp: compare_cursor_def)
qed

end
