(* ===== verification/Smj_Full_Join.thy ===== *)
theory Smj_Full_Join
  imports Stream_Cursor
begin

text \<open>
  The inner and outer sort-merge joins, \<open>joins/smj/full_join.rs\<close>.  Two sorted streams are merged;
  the positions of joined rows are collected in \<open>lindices\<close> and \<open>rindices\<close>, (0, 0) standing for the
  row of nulls, and \<open>flush\<close> turns them into an output batch.  Rows of the two sides with the same
  key are first collected on both sides at once, and the longer side is then streamed, so that
  its batches can be dropped while it is read.

  The abstract specification is \<open>join_spec\<close>, the relational join of the two lists of rows as a
  multiset.  \<open>emitted\<close> abstracts the state: the rows sent plus those the collected positions stand
  for.  Forwarding a cursor, flushing, and dropping old batches after a flush leave it unchanged.
\<close>

section \<open>Model\<close>

record 'v full_joiner =
  lindices :: "idx list"
  rindices :: "idx list"
  output_rows :: nat
  sent :: "'v row list list"

definition new_full_joiner :: "'v full_joiner" where
  "new_full_joiner = \<lparr>lindices = [], rindices = [], output_rows = 0, sent = []\<rparr>"

definition full_should_flush :: "'v join_params \<Rightarrow> 'v full_joiner \<Rightarrow> bool" where
  "full_should_flush P s = (length (lindices s) \<ge> batch_size P)"

definition has_enough_room :: "'v join_params \<Rightarrow> nat \<Rightarrow> 'v full_joiner \<Rightarrow> bool" where
  "has_enough_room P new_size s = (length (lindices s) + new_size \<le> batch_size P)"

definition num_columns :: "'v stream_cursor \<Rightarrow> nat" where
  "num_columns c = length (batches c ! 0 ! 0)"

text \<open>The filter kernel: an error unless the mask has one bit for every row.\<close>

definition filter_rows :: "bool list \<Rightarrow> 'a list \<Rightarrow> 'a list option" where
  "filter_rows selected rows =
     (if length selected = length rows then Some (map fst (filter snd (zip rows selected))) else None)"

definition full_flush :: "'v join_params \<Rightarrow> 'v stream_cursor \<Rightarrow> 'v stream_cursor \<Rightarrow> 'v full_joiner \<Rightarrow> 'v full_joiner option" where
  "full_flush P c1 c2 s =
     (if length (lindices s) \<noteq> length (rindices s) then None
      else do {
        ls \<leftarrow> interleave (batches c1) (lindices s);
        rs \<leftarrow> interleave (batches c2) (rindices s);
        out \<leftarrow> (case join_filter P of
                  Some jf \<Rightarrow>
                    do { selected \<leftarrow> evaluate_filter jf (num_columns c1) (num_columns c2) ls rs;
                         ls' \<leftarrow> filter_rows selected ls;
                         rs' \<leftarrow> filter_rows selected rs;
                         lp \<leftarrow> those (map (project_left (projection P)) ls');
                         rp \<leftarrow> those (map (project_right (projection P)) rs');
                         Some (map2 (@) lp rp) }
                | None \<Rightarrow> Some (map2 (@) ls rs));
        Some (s\<lparr>lindices := [], rindices := [],
                output_rows := output_rows s + length out,
                sent := (if length out > 0 then sent s @ [out] else sent s)\<rparr>) })"

definition push :: "idx \<Rightarrow> idx \<Rightarrow> 'v full_joiner \<Rightarrow> 'v full_joiner" where
  "push li ri s = s\<lparr>lindices := lindices s @ [li], rindices := rindices s @ [ri]\<rparr>"

fun push_all :: "(idx \<times> idx) list \<Rightarrow> 'v full_joiner \<Rightarrow> 'v full_joiner" where
  "push_all [] s = s"
| "push_all ((li, ri) # ps) s = push_all ps (push li ri s)"

text \<open>The aggressive variant that flushes as soon as a batch is full.\<close>

fun push_flush :: "'v join_params \<Rightarrow> 'v stream_cursor \<Rightarrow> 'v stream_cursor \<Rightarrow> (idx \<times> idx) list \<Rightarrow> 'v full_joiner \<Rightarrow> 'v full_joiner option" where
  "push_flush P c1 c2 [] s = Some s"
| "push_flush P c1 c2 ((li, ri) # ps) s =
     (let s = push li ri s
      in if full_should_flush P s then do { s' \<leftarrow> full_flush P c1 c2 s; push_flush P c1 c2 ps s' }
         else push_flush P c1 c2 ps s)"

text \<open>One side of the loop over rows with the key of the row at \<open>key_idx\<close>.\<close>

definition step_equal ::
  "(bytes list \<Rightarrow> bool list option) \<Rightarrow> idx \<Rightarrow> idx list \<Rightarrow> 'v stream_cursor \<Rightarrow> (bool \<times> idx list \<times> 'v stream_cursor) option" where
  "step_equal checker key_idx eqs c =
     (if finished c then Some (False, eqs, c)
      else do { k \<leftarrow> cur_key c; k' \<leftarrow> key c key_idx;
                if k = k' then do { c' \<leftarrow> cursor_next checker c; Some (True, eqs @ [cur_idx c], c') }
                else Some (False, eqs, c) })"

partial_function (option) find_equal ::
  "(bytes list \<Rightarrow> bool list option) \<Rightarrow> idx \<Rightarrow> idx \<Rightarrow> bool \<Rightarrow> bool \<Rightarrow> idx list \<Rightarrow> idx list \<Rightarrow> 'v stream_cursor \<Rightarrow> 'v stream_cursor
   \<Rightarrow> (bool \<times> bool \<times> idx list \<times> idx list \<times> 'v stream_cursor \<times> 'v stream_cursor) option" where
  "find_equal checker lk rk l_equal r_equal el er c1 c2 =
     (if l_equal \<and> r_equal
      then do { (l_equal', el', c1') \<leftarrow> step_equal checker lk el c1;
                (r_equal', er', c2') \<leftarrow> step_equal checker rk er c2;
                find_equal checker lk rk l_equal' r_equal' el' er' c1' c2' }
      else Some (l_equal, r_equal, el, er, c1, c2))"

partial_function (option) stream_right ::
  "(bytes list \<Rightarrow> bool list option) \<Rightarrow> 'v join_params \<Rightarrow> idx \<Rightarrow> idx list \<Rightarrow> 'v full_joiner \<Rightarrow> 'v stream_cursor \<Rightarrow> 'v stream_cursor
   \<Rightarrow> ('v full_joiner \<times> 'v stream_cursor) option" where
  "stream_right checker P lk el s c1 c2 =
     (if finished c2 then Some (s, c2)
      else do { k \<leftarrow> cur_key c2; k' \<leftarrow> key c1 lk;
                if k = k'
                then do { c2' \<leftarrow> cursor_next checker c2;
                          let s1 = push_all (map (\<lambda>li. (li, cur_idx c2)) el) s in
                          if full_should_flush P s1 \<or> num_buffered_batches c2' > 1
                          then do { s2 \<leftarrow> full_flush P c1 c2' s1;
                                    stream_right checker P lk el s2 c1 (clean_out_dated_batches c2') }
                          else stream_right checker P lk el s1 c1 c2' }
                else Some (s, c2) })"

partial_function (option) stream_left ::
  "(bytes list \<Rightarrow> bool list option) \<Rightarrow> 'v join_params \<Rightarrow> idx \<Rightarrow> idx list \<Rightarrow> 'v full_joiner \<Rightarrow> 'v stream_cursor \<Rightarrow> 'v stream_cursor
   \<Rightarrow> ('v full_joiner \<times> 'v stream_cursor) option" where
  "stream_left checker P rk er s c1 c2 =
     (if finished c1 then Some (s, c1)
      else do { k \<leftarrow> cur_key c1; k' \<leftarrow> key c2 rk;
                if k = k'
                then do { c1' \<leftarrow> cursor_next checker c1;
                          let s1 = push_all (map (\<lambda>ri. (cur_idx c1, ri)) er) s in
                          if full_should_flush P s1 \<or> num_buffered_batches c1' > 1
                          then do { s2 \<leftarrow> full_flush P c1' c2 s1;
                                    stream_left checker P rk er s2 (clean_out_dated_batches c1') c2 }
                          else stream_left checker P rk er s1 c1' c2 }
                else Some (s, c1) })"

text \<open>The arm \<open>Ordering::Equal\<close>.\<close>

definition full_join_equal ::
  "(bytes list \<Rightarrow> bool list option) \<Rightarrow> 'v join_params \<Rightarrow> 'v full_joiner \<Rightarrow> 'v stream_cursor \<Rightarrow> 'v stream_cursor
   \<Rightarrow> ('v full_joiner \<times> 'v stream_cursor \<times> 'v stream_cursor) option" where
  "full_join_equal checker P s c1 c2 =
     (let lk = cur_idx c1; rk = cur_idx c2
      in do {
        c1a \<leftarrow> cursor_next checker c1;
        c2a \<leftarrow> cursor_next checker c2;
        (l_equal, r_equal, el, er, c1b, c2b) \<leftarrow> find_equal checker lk rk True True [lk] [rk] c1a c2a;
        if \<not> (length el > 1 \<or> length er > 1) then Some (push lk rk s, c1b, c2b)
        else do {
          s1 \<leftarrow> (if has_enough_room P (length el * length er) s then Some (push_all (List.product el er) s)
                  else push_flush P c1b c2b (List.product el er) s);
          (s2, c2c) \<leftarrow> (if r_equal then stream_right checker P lk el s1 c1b c2b else Some (s1, c2b));
          (s3, c1c) \<leftarrow> (if l_equal then stream_left checker P rk er s2 c1b c2c else Some (s2, c1b));
          Some (s3, c1c, c2c) } })"

definition full_flush_if_needed ::
  "'v join_params \<Rightarrow> 'v full_joiner \<Rightarrow> 'v stream_cursor \<Rightarrow> 'v stream_cursor \<Rightarrow> ('v full_joiner \<times> 'v stream_cursor \<times> 'v stream_cursor) option" where
  "full_flush_if_needed P s c1 c2 =
     (if full_should_flush P s \<or> num_buffered_batches c1 > 1 \<or> num_buffered_batches c2 > 1
      then do { s' \<leftarrow> full_flush P c1 c2 s; Some (s', clean_out_dated_batches c1, clean_out_dated_batches c2) }
      else Some (s, c1, c2))"

partial_function (option) full_join_loop ::
  "(bytes list \<Rightarrow> bool list option) \<Rightarrow> 'v join_params \<Rightarrow> bool \<Rightarrow> bool \<Rightarrow> 'v full_joiner \<Rightarrow> 'v stream_cursor \<Rightarrow> 'v stream_cursor
   \<Rightarrow> ('v full_joiner \<times> 'v stream_cursor \<times> 'v stream_cursor) option" where
  "full_join_loop checker P lo ro s c1 c2 =
     (if \<not> finished c1 \<and> \<not> finished c2
      then do {
        (s, c1, c2) \<leftarrow> full_flush_if_needed P s c1 c2;
        ord \<leftarrow> compare_cursor c1 c2;
        (case ord of
           Less \<Rightarrow>
             do { c1' \<leftarrow> cursor_next checker c1;
                  full_join_loop checker P lo ro (if lo then push (cur_idx c1) (0, 0) s else s) c1' c2 }
         | Greater \<Rightarrow>
             do { c2' \<leftarrow> cursor_next checker c2;
                  full_join_loop checker P lo ro (if ro then push (0, 0) (cur_idx c2) s else s) c1 c2' }
         | Equal \<Rightarrow>
             do { (s', c1', c2') \<leftarrow> full_join_equal checker P s c1 c2;
                  full_join_loop checker P lo ro s' c1' c2' }) }
      else Some (s, c1, c2))"

partial_function (option) drain_left ::
  "(bytes list \<Rightarrow> bool list option) \<Rightarrow> 'v join_params \<Rightarrow> bool \<Rightarrow> 'v full_joiner \<Rightarrow> 'v stream_cursor \<Rightarrow> 'v stream_cursor
   \<Rightarrow> ('v full_joiner \<times> 'v stream_cursor) option" where
  "drain_left checker P lo s c1 c2 =
     (if lo \<and> \<not> finished c1
      then do { c1' \<leftarrow> cursor_next checker c1;
                let s1 = push (cur_idx c1) (0, 0) s in
                if full_should_flush P s1
                then do { s2 \<leftarrow> full_flush P c1' c2 s1; drain_left checker P lo s2 (clean_out_dated_batches c1') c2 }
                else drain_left checker P lo s1 c1' c2 }
      else Some (s, c1))"

partial_function (option) drain_right ::
  "(bytes list \<Rightarrow> bool list option) \<Rightarrow> 'v join_params \<Rightarrow> bool \<Rightarrow> 'v full_joiner \<Rightarrow> 'v stream_cursor \<Rightarrow> 'v stream_cursor
   \<Rightarrow> ('v full_joiner \<times> 'v stream_cursor) option" where
  "drain_right checker P ro s c1 c2 =
     (if ro \<and> \<not> finished c2
      then do { c2' \<leftarrow> cursor_next checker c2;
                let s1 = push (0, 0) (cur_idx c2) s in
                if full_should_flush P s1
                then do { s2 \<leftarrow> full_flush P c1 c2' s1; drain_right checker P ro s2 c1 (clean_out_dated_batches c2') }
                else drain_right checker P ro s1 c1 c2' }
      else Some (s, c2))"

definition full_join ::
  "(bytes list \<Rightarrow> bool list option) \<Rightarrow> 'v join_params \<Rightarrow> bool \<Rightarrow> bool \<Rightarrow> 'v full_joiner \<Rightarrow> 'v stream_cursor \<Rightarrow> 'v stream_cursor
   \<Rightarrow> 'v full_joiner option" where
  "full_join checker P lo ro s c1 c2 =
     do { (s, c1, c2) \<leftarrow> full_join_loop checker P lo ro s c1 c2;
          (s, c1, c2) \<leftarrow> (if lindices s \<noteq> []
                          then do { s' \<leftarrow> full_flush P c1 c2 s; Some (s', clean_out_dated_batches c1, clean_out_dated_batches c2) }
                          else Some (s, c1, c2));
          (s, c1) \<leftarrow> drain_left checker P lo s c1 c2;
          (s, c2) \<leftarrow> drain_right checker P ro s c1 c2;
          if lindices s \<noteq> [] then full_flush P c1 c2 s else Some s }"

section \<open>Specification\<close>

definition cross :: "('a \<Rightarrow> 'b \<Rightarrow> 'c multiset) \<Rightarrow> 'a list \<Rightarrow> 'b list \<Rightarrow> 'c multiset" where
  "cross f ls rs = (\<Sum>l \<leftarrow> ls. \<Sum>r \<leftarrow> rs. f l r)"

definition matched_rows :: "('k \<Rightarrow> bool) \<Rightarrow> ('v row \<Rightarrow> 'v row \<Rightarrow> 'v row multiset) \<Rightarrow> ('k \<times> 'v row) list \<Rightarrow> ('k \<times> 'v row) list \<Rightarrow> 'v row multiset" where
  "matched_rows null f xs ys = cross (\<lambda>x y. if fst x = fst y \<and> \<not> null (fst x) then f (snd x) (snd y) else {#}) xs ys"

text \<open>A row is matched if its key has no null and is a key of the other side.\<close>

definition has_match :: "('k \<Rightarrow> bool) \<Rightarrow> ('k \<times> 'v row) list \<Rightarrow> 'k \<times> 'v row \<Rightarrow> bool" where
  "has_match null ys x = (\<not> null (fst x) \<and> fst x \<in> fst ` set ys)"

definition unmatched_rows :: "('k \<Rightarrow> bool) \<Rightarrow> ('v row \<Rightarrow> 'v row multiset) \<Rightarrow> ('k \<times> 'v row) list \<Rightarrow> ('k \<times> 'v row) list \<Rightarrow> 'v row multiset" where
  "unmatched_rows null g xs ys = (\<Sum>x \<leftarrow> xs. if has_match null ys x then {#} else g (snd x))"

definition join_spec ::
  "('k \<Rightarrow> bool) \<Rightarrow> bool \<Rightarrow> bool \<Rightarrow> 'v row \<Rightarrow> 'v row \<Rightarrow> ('v row \<Rightarrow> 'v row \<Rightarrow> 'v row multiset)
   \<Rightarrow> ('k \<times> 'v row) list \<Rightarrow> ('k \<times> 'v row) list \<Rightarrow> 'v row multiset" where
  "join_spec null lo ro lnull rnull f xs ys =
     matched_rows null f xs ys
     + (if lo then unmatched_rows null (\<lambda>l. f l rnull) xs ys else {#})
     + (if ro then unmatched_rows null (\<lambda>r. f lnull r) ys xs else {#})"

text \<open>
  The row a joined pair contributes: with a residual condition only if it holds (a null is not
  enough), and then projected.  \<open>pred\<close> is the condition as a function of a row.
\<close>

definition joined :: "'v join_params \<Rightarrow> ('v row \<Rightarrow> bool option) \<Rightarrow> 'v row \<Rightarrow> 'v row \<Rightarrow> 'v row multiset" where
  "joined P pred l r =
     (case join_filter P of
        None \<Rightarrow> {#l @ r#}
      | Some jf \<Rightarrow>
          if pred (map (filter_cell l r) (column_indices jf)) = Some True
          then {#map ((!) l) (proj_left (projection P)) @ map ((!) r) (proj_right (projection P))#}
          else {#})"

text \<open>
  Evaluating an expression on a batch gives its value on every row, or one value that all rows
  share.
\<close>

definition rowwise :: "('v row list \<Rightarrow> columnar_bool option) \<Rightarrow> ('v row \<Rightarrow> bool option) \<Rightarrow> bool" where
  "rowwise e pred = (\<forall>rows. e rows = Some (ArrayValue (map pred rows))
     \<or> (\<exists>b. e rows = Some (ScalarValue b) \<and> (\<forall>r \<in> set rows. pred r = b)))"

definition params_ok :: "'v join_params \<Rightarrow> ('v row \<Rightarrow> bool option) \<Rightarrow> nat \<Rightarrow> nat \<Rightarrow> bool" where
  "params_ok P pred lcols rcols =
     (case join_filter P of
        None \<Rightarrow> True
      | Some jf \<Rightarrow>
          list_all (filter_column_ok lcols rcols) (column_indices jf) \<and> rowwise (expression jf) pred
          \<and> list_all (\<lambda>i. i < lcols) (proj_left (projection P)) \<and> list_all (\<lambda>i. i < rcols) (proj_right (projection P)))"

section \<open>Sums\<close>

lemma cross_simps [simp]: "cross f [] rs = {#}" "cross f (l # ls) rs = (\<Sum>r \<leftarrow> rs. f l r) + cross f ls rs"
  by (simp_all add: cross_def)

lemma cross_Nil2 [simp]: "cross f ls [] = {#}"
  by (induction ls) simp_all

lemma cross_append: "cross f (xs @ ys) rs = cross f xs rs + cross f ys rs"
  by (simp add: cross_def)

lemma cross_append2: "cross f ls (xs @ ys) = cross f ls xs + cross f ls ys"
  by (induction ls) (simp_all add: ac_simps)

lemma cross_Cons2: "cross f ls (r # rs) = (\<Sum>l \<leftarrow> ls. f l r) + cross f ls rs"
  by (induction ls) (simp_all add: ac_simps)

lemma cross_cong: "(\<And>l r. l \<in> set ls \<Longrightarrow> r \<in> set rs \<Longrightarrow> f l r = g l r) \<Longrightarrow> cross f ls rs = cross g ls rs"
  by (simp add: cross_def cong: map_cong)

lemma sum_empty: "(\<And>x. x \<in> set xs \<Longrightarrow> f x = {#}) \<Longrightarrow> (\<Sum>x \<leftarrow> xs. f x) = {#}"
  by (induction xs) auto

lemma cross_empty: "(\<And>l r. l \<in> set ls \<Longrightarrow> r \<in> set rs \<Longrightarrow> f l r = {#}) \<Longrightarrow> cross f ls rs = {#}"
  by (simp add: cross_def sum_empty)

lemma unmatched_append: "unmatched_rows null g (xs @ xs') ys = unmatched_rows null g xs ys + unmatched_rows null g xs' ys"
  by (simp add: unmatched_rows_def)

lemma unmatched_cong:
  "(\<And>x. x \<in> set xs \<Longrightarrow> has_match null ys x = has_match null ys' x) \<Longrightarrow>
   unmatched_rows null g xs ys = unmatched_rows null g xs ys'"
  unfolding unmatched_rows_def by (rule arg_cong [where f = sum_list]) auto

lemma unmatched_empty: "(\<And>x. x \<in> set xs \<Longrightarrow> has_match null ys x) \<Longrightarrow> unmatched_rows null g xs ys = {#}"
  unfolding unmatched_rows_def by (simp add: sum_empty)

section \<open>The specification, one step at a time\<close>

lemma join_spec_less:
  assumes "null k \<or> k \<notin> fst ` set ys"
  shows "join_spec null lo ro ln rn f ((k, l) # xs) ys = (if lo then f l rn else {#}) + join_spec null lo ro ln rn f xs ys"
proof -
  have "matched_rows null f ((k, l) # xs) ys = matched_rows null f xs ys"
    unfolding matched_rows_def using assms by (auto simp: image_iff intro!: sum_empty)
  moreover have "unmatched_rows null (\<lambda>r. f ln r) ys ((k, l) # xs) = unmatched_rows null (\<lambda>r. f ln r) ys xs"
    by (rule unmatched_cong) (use assms in \<open>auto simp: has_match_def image_iff\<close>)
  moreover have "\<not> has_match null ys (k, l)" using assms by (auto simp: has_match_def)
  ultimately show ?thesis by (simp add: join_spec_def unmatched_rows_def ac_simps)
qed

lemma join_spec_greater:
  assumes "null k \<or> k \<notin> fst ` set xs"
  shows "join_spec null lo ro ln rn f xs ((k, r) # ys) = (if ro then f ln r else {#}) + join_spec null lo ro ln rn f xs ys"
proof -
  have "(\<Sum>x \<leftarrow> xs. if fst x = fst (k, r) \<and> \<not> null (fst x) then f (snd x) (snd (k, r)) else {#}) = {#}"
    by (rule sum_empty) (use assms in \<open>auto simp: image_iff\<close>)
  then have "matched_rows null f xs ((k, r) # ys) = matched_rows null f xs ys"
    unfolding matched_rows_def cross_Cons2 by (simp only: add_0)
  moreover have "unmatched_rows null (\<lambda>l. f l rn) xs ((k, r) # ys) = unmatched_rows null (\<lambda>l. f l rn) xs ys"
    by (rule unmatched_cong) (use assms in \<open>auto simp: has_match_def image_iff\<close>)
  moreover have "\<not> has_match null xs (k, r)" using assms by (auto simp: has_match_def)
  ultimately show ?thesis by (simp add: join_spec_def unmatched_rows_def ac_simps)
qed

lemma join_spec_equal:
  assumes k: "\<not> null k" and gl: "\<forall>x \<in> set gl. fst x = k" "gl \<noteq> []" and gr: "\<forall>y \<in> set gr. fst y = k" "gr \<noteq> []"
    and rest: "k \<notin> fst ` set xs" "k \<notin> fst ` set ys"
  shows "join_spec null lo ro ln rn f (gl @ xs) (gr @ ys)
    = cross f (map snd gl) (map snd gr) + join_spec null lo ro ln rn f xs ys"
proof -
  let ?m = "\<lambda>x y. if fst x = fst y \<and> \<not> null (fst x) then f (snd x) (snd y) else {#}"
  have "cross ?m gl gr = cross (\<lambda>x y. f (snd x) (snd y)) gl gr"
    by (rule cross_cong) (use k gl gr in auto)
  also have "\<dots> = cross f (map snd gl) (map snd gr)" by (simp add: cross_def comp_def)
  finally have 1: "cross ?m gl gr = cross f (map snd gl) (map snd gr)" .
  have 2: "cross ?m gl ys = {#}" by (rule cross_empty) (use gl rest(2) in \<open>auto simp: image_iff\<close>)
  have 3: "cross ?m xs gr = {#}" by (rule cross_empty) (use gr rest(1) in \<open>auto simp: image_iff\<close>)
  have m: "matched_rows null f (gl @ xs) (gr @ ys) = cross f (map snd gl) (map snd gr) + matched_rows null f xs ys"
    unfolding matched_rows_def cross_append cross_append2 1 2 3 by simp
  have ne: "k \<in> fst ` set gl" "k \<in> fst ` set gr" using gl gr by (force simp: neq_Nil_conv)+
  have ul: "unmatched_rows null g (gl @ xs) (gr @ ys) = unmatched_rows null g xs ys" for g
  proof -
    have "unmatched_rows null g gl (gr @ ys) = {#}"
      by (rule unmatched_empty) (use gl(1) ne k in \<open>auto simp: has_match_def\<close>)
    moreover have "unmatched_rows null g xs (gr @ ys) = unmatched_rows null g xs ys"
      by (rule unmatched_cong) (use gr(1) rest(1) in \<open>fastforce simp: has_match_def image_iff\<close>)
    ultimately show ?thesis by (simp add: unmatched_append)
  qed
  have ur: "unmatched_rows null g (gr @ ys) (gl @ xs) = unmatched_rows null g ys xs" for g
  proof -
    have "unmatched_rows null g gr (gl @ xs) = {#}"
      by (rule unmatched_empty) (use gr(1) ne k in \<open>auto simp: has_match_def\<close>)
    moreover have "unmatched_rows null g ys (gl @ xs) = unmatched_rows null g ys xs"
      by (rule unmatched_cong) (use gl(1) rest(2) in \<open>fastforce simp: has_match_def image_iff\<close>)
    ultimately show ?thesis by (simp add: unmatched_append)
  qed
  show ?thesis by (simp add: join_spec_def m ul ur ac_simps)
qed

lemma join_spec_Nil2: "join_spec null lo ro ln rn f xs [] = (if lo then \<Sum>x \<leftarrow> xs. f (snd x) rn else {#})"
  by (simp add: join_spec_def matched_rows_def unmatched_rows_def has_match_def)

lemma join_spec_Nil1: "join_spec null lo ro ln rn f [] ys = (if ro then \<Sum>y \<leftarrow> ys. f ln (snd y) else {#})"
  by (simp add: join_spec_def matched_rows_def unmatched_rows_def has_match_def)


section \<open>What has been emitted\<close>

definition pending_ok :: "'v full_joiner \<Rightarrow> 'v stream_cursor \<Rightarrow> 'v stream_cursor \<Rightarrow> bool" where
  "pending_ok s c1 c2 = (interleave (batches c1) (lindices s) \<noteq> None \<and> interleave (batches c2) (rindices s) \<noteq> None
     \<and> length (lindices s) = length (rindices s))"

definition emitted :: "('v row \<Rightarrow> 'v row \<Rightarrow> 'v row multiset) \<Rightarrow> 'v full_joiner \<Rightarrow> 'v stream_cursor \<Rightarrow> 'v stream_cursor \<Rightarrow> 'v row multiset" where
  "emitted f s c1 c2 = mset (concat (sent s))
     + (\<Sum>(l, r) \<leftarrow> zip (the (interleave (batches c1) (lindices s))) (the (interleave (batches c2) (rindices s))). f l r)"

lemma emitted_extends:
  assumes "pending_ok s c1 c2" and "extends c1 c1'" and "extends c2 c2'"
  shows "pending_ok s c1' c2'" and "emitted f s c1' c2' = emitted f s c1 c2"
  using assms interleave_extends [OF assms(2)] interleave_extends [OF assms(3)]
  by (fastforce simp: pending_ok_def emitted_def)+

lemma emitted_no_pending:
  assumes "lindices s = []" and "rindices s = []"
  shows "pending_ok s c1 c2" and "emitted f s c1 c2 = mset (concat (sent s))"
  using assms by (simp_all add: pending_ok_def emitted_def)

lemma pending_rows:
  assumes "pending_ok s c1 c2"
  obtains ls rs where "interleave (batches c1) (lindices s) = Some ls" "interleave (batches c2) (rindices s) = Some rs"
    "length ls = length rs" "length (lindices s) = length (rindices s)"
  using assms interleave_length [of "batches c1" "lindices s"] interleave_length [of "batches c2" "rindices s"]
  by (fastforce simp: pending_ok_def)

lemma push_ok:
  assumes "pending_ok s c1 c2" and "row_at (batches c1) li = Some l" and "row_at (batches c2) ri = Some r"
  shows "pending_ok (push li ri s) c1 c2" and "emitted f (push li ri s) c1 c2 = f l r + emitted f s c1 c2"
proof -
  obtain ls rs where ls: "interleave (batches c1) (lindices s) = Some ls" "interleave (batches c2) (rindices s) = Some rs"
    "length ls = length rs"
    using pending_rows [OF assms(1)] by metis
  with assms show "pending_ok (push li ri s) c1 c2" "emitted f (push li ri s) c1 c2 = f l r + emitted f s c1 c2"
    by (simp_all add: pending_ok_def emitted_def push_def interleave_append interleave_Cons ac_simps)
qed

lemma push_all_ok:
  assumes "pending_ok s c1 c2" and "interleave (batches c1) (map fst ps) = Some ls"
    and "interleave (batches c2) (map snd ps) = Some rs"
  shows "pending_ok (push_all ps s) c1 c2
    \<and> emitted f (push_all ps s) c1 c2 = (\<Sum>(l, r) \<leftarrow> zip ls rs. f l r) + emitted f s c1 c2"
  using assms
proof (induction ps arbitrary: s ls rs)
  case (Cons p ps)
  obtain li ri where p: "p = (li, ri)" by (cases p)
  from Cons.prems(2,3) p obtain l r ls' rs' where
    lr: "row_at (batches c1) li = Some l" "row_at (batches c2) ri = Some r" "ls = l # ls'" "rs = r # rs'"
    "interleave (batches c1) (map fst ps) = Some ls'" "interleave (batches c2) (map snd ps) = Some rs'"
    by (auto simp: interleave_Cons split: Option.bind_splits)
  note pu = push_ok [OF Cons.prems(1) lr(1,2)]
  from Cons.IH [OF pu(1) lr(5,6)] pu(2) show ?case by (simp add: p lr(3,4) ac_simps)
qed simp

text \<open>The index pairs of a product denote the pairs of rows.\<close>

lemma interleave_replicate: "row_at bs x = Some r \<Longrightarrow> interleave bs (replicate n x) = Some (replicate n r)"
  by (induction n) (simp_all add: interleave_Cons)

lemma map_fst_Pair [simp]: "map (fst \<circ> Pair x) ys = replicate (length ys) x"
  by (induction ys) simp_all

lemma interleave_product:
  assumes "interleave bs1 el = Some ls" and "interleave bs2 er = Some rs"
  shows "interleave bs1 (map fst (List.product el er)) = Some (map fst (List.product ls rs))
    \<and> interleave bs2 (map snd (List.product el er)) = Some (map snd (List.product ls rs))"
  using assms(1)
proof (induction el arbitrary: ls)
  case (Cons x el)
  then obtain l ls' where "row_at bs1 x = Some l" "ls = l # ls'" "interleave bs1 el = Some ls'"
    by (auto simp: interleave_Cons split: Option.bind_splits)
  moreover have "length rs = length er" using assms(2) by (rule interleave_length)
  ultimately show ?case
    using Cons.IH assms(2)
    by (simp add: interleave_append interleave_replicate comp_def) (simp add: interleave_replicate map_replicate_const)
qed simp

lemma sum_product: "(\<Sum>(l, r) \<leftarrow> List.product ls rs. f l r) = cross f ls rs"
  by (induction ls) (simp_all add: comp_def)

section \<open>Flushing\<close>

lemma filter_zip_map:
  "length xs = length ys \<Longrightarrow>
   map2 g (map fst (filter snd (zip xs (map2 p xs ys)))) (map fst (filter snd (zip ys (map2 p xs ys))))
   = map (\<lambda>(x, y). g x y) (filter (\<lambda>(x, y). p x y) (zip xs ys))"
  by (induction xs ys rule: list_induct2) auto

lemma evaluate_filter_ok:
  assumes "list_all (filter_column_ok lcols rcols) (column_indices jf)" and "rowwise (expression jf) pred"
    and "length ls = length rs"
  shows "evaluate_filter jf lcols rcols ls rs
    = Some (map2 (\<lambda>l r. pred (map (filter_cell l r) (column_indices jf)) = Some True) ls rs)"
proof -
  let ?rows = "map2 (\<lambda>l r. map (filter_cell l r) (column_indices jf)) ls rs"
  consider "expression jf ?rows = Some (ArrayValue (map pred ?rows))"
    | b where "expression jf ?rows = Some (ScalarValue b)" "\<forall>r \<in> set ?rows. pred r = b"
    using assms(2) unfolding rowwise_def by blast
  then show ?thesis
  proof cases
    case 1
    then show ?thesis using assms(1) by (simp add: evaluate_filter_def comp_def case_prod_unfold)
  next
    case 2
    have "replicate (length ls) (b = Some True) = map2 (\<lambda>l r. pred (map (filter_cell l r) (column_indices jf)) = Some True) ls rs"
      using 2(2) assms(3) by (intro nth_equalityI) (force simp: set_zip)+
    with 2(1) assms(1) show ?thesis by (simp add: evaluate_filter_def)
  qed
qed

lemma those_project:
  "list_all (\<lambda>i. i < n) is \<Longrightarrow> \<forall>r \<in> set rows. length r = n \<Longrightarrow>
   those (map (\<lambda>row. those (map (vget row) is)) rows) = Some (map (\<lambda>r. map ((!) r) is) rows)"
  by (auto simp: those_Some_iff list_all_iff comp_def)

lemma sum_single: "(\<Sum>x \<leftarrow> xs. {#g x#}) = mset (map g xs)"
  by (induction xs) simp_all

lemma sum_filter: "(\<Sum>x \<leftarrow> xs. if p x then {#g x#} else {#}) = mset (map g (filter p xs))"
  by (induction xs) simp_all

lemma flush_output:
  assumes par: "params_ok P pred lcols rcols" and len: "length ls = length rs"
    and cols: "\<forall>l \<in> set ls. length l = lcols" "\<forall>r \<in> set rs. length r = rcols"
  shows "\<exists>out. (case join_filter P of
                  Some jf \<Rightarrow>
                    do { selected \<leftarrow> evaluate_filter jf lcols rcols ls rs;
                         ls' \<leftarrow> filter_rows selected ls;
                         rs' \<leftarrow> filter_rows selected rs;
                         lp \<leftarrow> those (map (project_left (projection P)) ls');
                         rp \<leftarrow> those (map (project_right (projection P)) rs');
                         Some (map2 (@) lp rp) }
                | None \<Rightarrow> Some (map2 (@) ls rs)) = Some out
    \<and> mset out = (\<Sum>(l, r) \<leftarrow> zip ls rs. joined P pred l r)"
proof (cases "join_filter P")
  case None
  then show ?thesis by (simp add: joined_def case_prod_unfold sum_single)
next
  case (Some jf)
  let ?p = "\<lambda>l r. pred (map (filter_cell l r) (column_indices jf)) = Some True"
  let ?sel = "map2 ?p ls rs"
  let ?l = "\<lambda>l. map ((!) l) (proj_left (projection P))" and ?r = "\<lambda>r. map ((!) r) (proj_right (projection P))"
  let ?fl = "map fst (filter snd (zip ls ?sel))" and ?fr = "map fst (filter snd (zip rs ?sel))"
  have ev: "evaluate_filter jf lcols rcols ls rs = Some ?sel"
    using par len Some by (intro evaluate_filter_ok) (auto simp: params_ok_def)
  have sub: "set ?fl \<subseteq> set ls" "set ?fr \<subseteq> set rs" by (auto dest: set_zip_leftD)
  have pl: "those (map (project_left (projection P)) ?fl) = Some (map ?l ?fl)"
    unfolding project_left_def
  proof (rule those_project [of lcols])
    show "\<forall>r \<in> set ?fl. length r = lcols" using cols(1) sub(1) by blast
  qed (use par Some in \<open>simp add: params_ok_def\<close>)
  have pr: "those (map (project_right (projection P)) ?fr) = Some (map ?r ?fr)"
    unfolding project_right_def
  proof (rule those_project [of rcols])
    show "\<forall>r \<in> set ?fr. length r = rcols" using cols(2) sub(2) by blast
  qed (use par Some in \<open>simp add: params_ok_def\<close>)
  have "map2 (@) (map ?l ?fl) (map ?r ?fr) = map2 (\<lambda>l r. ?l l @ ?r r) ?fl ?fr"
    by (simp add: zip_map_map map_map comp_def case_prod_unfold)
  also have "\<dots> = map (\<lambda>(l, r). ?l l @ ?r r) (filter (\<lambda>(l, r). ?p l r) (zip ls rs))"
    by (rule filter_zip_map [OF len])
  finally have "mset (map2 (@) (map ?l ?fl) (map ?r ?fr)) = (\<Sum>(l, r) \<leftarrow> zip ls rs. joined P pred l r)"
    by (simp add: joined_def Some sum_filter case_prod_unfold)
  moreover have "filter_rows ?sel ls = Some ?fl" "filter_rows ?sel rs = Some ?fr"
    using len by (simp_all add: filter_rows_def)
  ultimately show ?thesis using Some ev pl pr by simp
qed

lemma full_flush_ok:
  assumes par: "params_ok P pred n1 n2" and pend: "pending_ok s c1 c2"
    and b1: "buffered_ok null n1 c1" and b2: "buffered_ok null n2 c2"
  shows "\<exists>s'. full_flush P c1 c2 s = Some s' \<and> lindices s' = [] \<and> rindices s' = []
    \<and> mset (concat (sent s')) = emitted (joined P pred) s c1 c2"
proof -
  obtain ls rs where ls: "interleave (batches c1) (lindices s) = Some ls" "interleave (batches c2) (rindices s) = Some rs"
    "length ls = length rs" "length (lindices s) = length (rindices s)"
    by (rule pending_rows [OF pend])
  have cols: "\<forall>l \<in> set ls. length l = n1" "\<forall>r \<in> set rs. length r = n2"
    using interleave_cols [OF b1 ls(1)] interleave_cols [OF b2 ls(2)] by simp_all
  have n: "num_columns c1 = n1" "num_columns c2 = n2"
    using b1 b2 by (simp_all add: num_columns_def buffered_ok_def)
  from flush_output [OF par ls(3) cols] obtain out where
    "(case join_filter P of
                  Some jf \<Rightarrow>
                    do { selected \<leftarrow> evaluate_filter jf n1 n2 ls rs;
                         ls' \<leftarrow> filter_rows selected ls;
                         rs' \<leftarrow> filter_rows selected rs;
                         lp \<leftarrow> those (map (project_left (projection P)) ls');
                         rp \<leftarrow> those (map (project_right (projection P)) rs');
                         Some (map2 (@) lp rp) }
                | None \<Rightarrow> Some (map2 (@) ls rs)) = Some out"
    "mset out = (\<Sum>(l, r) \<leftarrow> zip ls rs. joined P pred l r)" by blast
  with ls n show ?thesis by (auto simp: full_flush_def emitted_def)
qed


section \<open>Rows with the same key\<close>

definition stops :: "bytes \<Rightarrow> (bytes \<times> 'v row) list \<Rightarrow> bool" where
  "stops k xs = (xs = [] \<or> fst (hd xs) \<noteq> k)"

text \<open>
  Going from \<open>c\<close> to \<open>c'\<close> the rows \<open>g\<close> with key \<open>k\<close> were passed and their positions collected;
  unless \<open>eq\<close> says that there may be more, the next row has another key.
\<close>

definition collected ::
  "(bytes \<Rightarrow> bool) \<Rightarrow> nat \<Rightarrow> bytes \<Rightarrow> 'v stream_cursor \<Rightarrow> 'v row list \<Rightarrow> (bytes \<times> 'v row) list \<Rightarrow> bool \<Rightarrow> idx list \<Rightarrow> 'v stream_cursor \<Rightarrow> bool" where
  "collected null n k c rs g eq eqs' c' =
     (cursor_ok null n c' \<and> extends c c' \<and> remaining c = g @ remaining c' \<and> (\<forall>x \<in> set g. fst x = k)
      \<and> interleave (batches c') eqs' = Some (rs @ map snd g) \<and> (eq \<or> stops k (remaining c')) \<and> (eq \<longrightarrow> g \<noteq> []))"

lemma collected_trans:
  assumes "collected null n k c rs g True eqs c'" and "collected null n k c' (rs @ map snd g) g' eq eqs' c''"
  shows "collected null n k c rs (g @ g') eq eqs' c''"
  using assms by (auto simp: collected_def intro: extends_trans)

lemma step_equal_ok:
  assumes "checks checker null" and ok: "cursor_ok null n c" and k: "key c ki = Some k"
    and eqs: "interleave (batches c) eqs = Some rs"
  shows "\<exists>eq eqs' c' g. step_equal checker ki eqs c = Some (eq, eqs', c') \<and> collected null n k c rs g eq eqs' c'
    \<and> key c' ki = Some k"
proof (cases "stops k (remaining c)")
  case True
  have "step_equal checker ki eqs c = Some (False, eqs, c)"
  proof (cases "finished c")
    case False
    with cursor_current [OF ok False] True k show ?thesis by (auto simp: step_equal_def stops_def)
  qed (simp add: step_equal_def)
  moreover have "collected null n k c rs [] False eqs c"
    using ok True eqs by (simp add: collected_def)
  ultimately show ?thesis using k by blast
next
  case False
  then have nf: "\<not> finished c" using remaining_Nil_iff [OF ok] by (simp add: stops_def)
  from cursor_current [OF ok nf] False obtain r rest where c: "remaining c = (k, r) # rest" "cur_key c = Some k"
    "row_at (batches c) (cur_idx c) = Some r" by (auto simp: stops_def)
  from cursor_next_ok [OF assms(1) ok nf] obtain c' where c': "cursor_next checker c = Some c'" "cursor_ok null n c'"
    "remaining c' = rest" "extends c c'" using c(1) by auto
  have "interleave (batches c') (eqs @ [cur_idx c]) = Some (rs @ [r])"
    using interleave_extends [OF c'(4) eqs] row_at_extends [OF c'(4) c(3)] by (simp add: interleave_append interleave_Cons)
  then have "collected null n k c rs [(k, r)] True (eqs @ [cur_idx c]) c'"
    using c c' by (simp add: collected_def)
  moreover have "step_equal checker ki eqs c = Some (True, eqs @ [cur_idx c], c')"
    using nf c(2) k c'(1) by (simp add: step_equal_def)
  ultimately show ?thesis using key_extends [OF c'(4) k] by blast
qed

lemma find_equal_ok:
  assumes "checks checker null" and "cursor_ok null n1 c1" and "cursor_ok null n2 c2"
    and "key c1 lk = Some k" and "key c2 rk = Some k"
    and "interleave (batches c1) el = Some ls" and "interleave (batches c2) er = Some rs"
  shows "\<exists>le re el' er' c1' c2' gl gr. find_equal checker lk rk True True el er c1 c2 = Some (le, re, el', er', c1', c2')
    \<and> collected null n1 k c1 ls gl le el' c1' \<and> collected null n2 k c2 rs gr re er' c2' \<and> \<not> (le \<and> re)"
  using assms
proof (induction "length (remaining c1)" arbitrary: c1 c2 el er ls rs rule: less_induct)
  case less
  from step_equal_ok [OF less.prems(1,2,4,6)] obtain le el' c1' gl where
    l: "step_equal checker lk el c1 = Some (le, el', c1')" "collected null n1 k c1 ls gl le el' c1'" "key c1' lk = Some k" by blast
  from step_equal_ok [OF less.prems(1,3,5,7)] obtain re er' c2' gr where
    r: "step_equal checker rk er c2 = Some (re, er', c2')" "collected null n2 k c2 rs gr re er' c2'" "key c2' rk = Some k" by blast
  have step: "find_equal checker lk rk True True el er c1 c2 = find_equal checker lk rk le re el' er' c1' c2'"
    using l(1) r(1) by (simp add: find_equal.simps [of checker lk rk True])
  show ?case
  proof (cases "le \<and> re")
    case False
    then have "find_equal checker lk rk le re el' er' c1' c2' = Some (le, re, el', er', c1', c2')"
      by (subst find_equal.simps) auto
    with step l(2) r(2) False show ?thesis by auto
  next
    case True
    then have lt: "collected null n1 k c1 ls gl True el' c1'" and rt: "collected null n2 k c2 rs gr True er' c2'"
      using l(2) r(2) by simp_all
    have "length (remaining c1') < length (remaining c1)" using lt by (auto simp: collected_def)
    moreover have "cursor_ok null n1 c1'" "interleave (batches c1') el' = Some (ls @ map snd gl)"
      "cursor_ok null n2 c2'" "interleave (batches c2') er' = Some (rs @ map snd gr)"
      using lt rt by (simp_all add: collected_def)
    ultimately obtain le2 re2 el2 er2 c12 c22 gl2 gr2 where
      IH: "find_equal checker lk rk True True el' er' c1' c2' = Some (le2, re2, el2, er2, c12, c22)"
      "collected null n1 k c1' (ls @ map snd gl) gl2 le2 el2 c12" "collected null n2 k c2' (rs @ map snd gr) gr2 re2 er2 c22"
      "\<not> (le2 \<and> re2)" using less.hyps [OF _ less.prems(1) _ _ l(3) r(3)] by blast
    with step True collected_trans [OF lt IH(2)] collected_trans [OF rt IH(3)] show ?thesis by auto
  qed
qed

text \<open>Streaming the rest of one side against the collected rows of the other.\<close>

lemma interleave_map_const:
  "row_at bs x = Some r \<Longrightarrow> interleave bs (map (\<lambda>_. x) ys) = Some (replicate (length ys) r)"
  by (simp add: map_replicate_const interleave_replicate)

lemma sum_zip_replicate2: "n = length ls \<Longrightarrow> (\<Sum>(l, r) \<leftarrow> zip ls (replicate n y). f l r) = (\<Sum>l \<leftarrow> ls. f l y)"
  by (induction ls arbitrary: n) simp_all

lemma sum_zip_replicate1: "n = length rs \<Longrightarrow> (\<Sum>(l, r) \<leftarrow> zip (replicate n x) rs. f l r) = (\<Sum>r \<leftarrow> rs. f x r)"
  by (induction rs arbitrary: n) simp_all

lemma stream_right_ok:
  assumes par: "params_ok P pred n1 n2" and ch: "checks checker null" and c1: "cursor_ok null n1 c1"
    and lk: "key c1 lk = Some k" and el: "interleave (batches c1) el = Some ls"
  shows "cursor_ok null n2 c2 \<Longrightarrow> pending_ok s c1 c2 \<Longrightarrow>
    \<exists>s' c2' g. stream_right checker P lk el s c1 c2 = Some (s', c2') \<and> cursor_ok null n2 c2' \<and> pending_ok s' c1 c2'
      \<and> remaining c2 = g @ remaining c2' \<and> (\<forall>x \<in> set g. fst x = k) \<and> stops k (remaining c2')
      \<and> emitted (joined P pred) s' c1 c2' = cross (joined P pred) ls (map snd g) + emitted (joined P pred) s c1 c2"
proof (induction "length (remaining c2)" arbitrary: c2 s rule: less_induct)
  case less
  note ok = less.prems(1) and pend = less.prems(2)
  let ?f = "joined P pred"
  show ?case
  proof (cases "stops k (remaining c2)")
    case True
    have "stream_right checker P lk el s c1 c2 = Some (s, c2)"
    proof (cases "finished c2")
      case False
      with cursor_current [OF ok False] True lk show ?thesis
        by (subst stream_right.simps) (auto simp: stops_def)
    qed (simp add: stream_right.simps)
    with True ok pend show ?thesis by auto
  next
    case False
    then have nf: "\<not> finished c2" using remaining_Nil_iff [OF ok] by (simp add: stops_def)
    from cursor_current [OF ok nf] False obtain r rest where c: "remaining c2 = (k, r) # rest" "cur_key c2 = Some k"
      "row_at (batches c2) (cur_idx c2) = Some r" by (auto simp: stops_def)
    from cursor_next_ok [OF ch ok nf] obtain c2' where c': "cursor_next checker c2 = Some c2'" "cursor_ok null n2 c2'"
      "remaining c2' = rest" "extends c2 c2'" using c(1) by auto
    define s1 where "s1 = push_all (map (\<lambda>li. (li, cur_idx c2)) el) s"
    note pe = emitted_extends [OF pend extends_refl c'(4)]
    have ll: "length ls = length el" using el by (rule interleave_length)
    have "pending_ok s1 c1 c2' \<and> emitted ?f s1 c1 c2' = (\<Sum>l \<leftarrow> ls. ?f l r) + emitted ?f s c1 c2"
      unfolding s1_def
      using push_all_ok [OF pe(1), of "map (\<lambda>li. (li, cur_idx c2)) el" ls "replicate (length ls) r" ?f] el
        interleave_map_const [OF row_at_extends [OF c'(4) c(3)], of el] pe(2) ll
      by (simp add: comp_def sum_zip_replicate2)
    then have s1: "pending_ok s1 c1 c2'" "emitted ?f s1 c1 c2' = (\<Sum>l \<leftarrow> ls. ?f l r) + emitted ?f s c1 c2" by simp_all
    have "\<exists>s2 c2''. stream_right checker P lk el s c1 c2 = stream_right checker P lk el s2 c1 c2''
        \<and> cursor_ok null n2 c2'' \<and> pending_ok s2 c1 c2'' \<and> remaining c2'' = rest
        \<and> emitted ?f s2 c1 c2'' = emitted ?f s1 c1 c2'"
    proof (cases "full_should_flush P s1 \<or> num_buffered_batches c2' > 1")
      case True
      from full_flush_ok [OF par s1(1) cursor_buffered [OF c1] cursor_buffered [OF c'(2)]] obtain s2 where
        s2: "full_flush P c1 c2' s1 = Some s2" "lindices s2 = []" "rindices s2 = []"
        "mset (concat (sent s2)) = emitted ?f s1 c1 c2'" by blast
      have "stream_right checker P lk el s c1 c2 = stream_right checker P lk el s2 c1 (clean_out_dated_batches c2')"
        using nf c(2) lk c'(1) True s2(1) by (subst stream_right.simps) (simp add: s1_def [symmetric])
      then show ?thesis
        using emitted_no_pending [OF s2(2,3)] s2(4) clean_ok(1,2) [OF c'(2)] c'(3)
        by (intro exI [of _ s2] exI [of _ "clean_out_dated_batches c2'"]) simp
    next
      case False
      have "stream_right checker P lk el s c1 c2 = stream_right checker P lk el s1 c1 c2'"
        using nf c(2) lk c'(1) False by (subst stream_right.simps) (auto simp: s1_def [symmetric])
      then show ?thesis using c'(2,3) s1(1) by blast
    qed
    then obtain s2 c2'' where s2: "stream_right checker P lk el s c1 c2 = stream_right checker P lk el s2 c1 c2''"
      "cursor_ok null n2 c2''" "pending_ok s2 c1 c2''" "remaining c2'' = rest"
      "emitted ?f s2 c1 c2'' = emitted ?f s1 c1 c2'" by blast
    have "length (remaining c2'') < length (remaining c2)" using s2(4) c(1) by simp
    from less.hyps [OF this s2(2,3)] obtain s' c3 g where
      IH: "stream_right checker P lk el s2 c1 c2'' = Some (s', c3)" "cursor_ok null n2 c3" "pending_ok s' c1 c3"
      "remaining c2'' = g @ remaining c3" "\<forall>x \<in> set g. fst x = k" "stops k (remaining c3)"
      "emitted ?f s' c1 c3 = cross ?f ls (map snd g) + emitted ?f s2 c1 c2''" by blast
    then show ?thesis
      using s2 c(1) s1(2)
      by (intro exI [of _ s'] exI [of _ c3] exI [of _ "(k, r) # g"]) (simp add: cross_Cons2 ac_simps)
  qed
qed


lemma stream_left_ok:
  assumes par: "params_ok P pred n1 n2" and ch: "checks checker null" and c2: "cursor_ok null n2 c2"
    and rk: "key c2 rk = Some k" and er: "interleave (batches c2) er = Some rs"
  shows "cursor_ok null n1 c1 \<Longrightarrow> pending_ok s c1 c2 \<Longrightarrow>
    \<exists>s' c1' g. stream_left checker P rk er s c1 c2 = Some (s', c1') \<and> cursor_ok null n1 c1' \<and> pending_ok s' c1' c2
      \<and> remaining c1 = g @ remaining c1' \<and> (\<forall>x \<in> set g. fst x = k) \<and> stops k (remaining c1')
      \<and> emitted (joined P pred) s' c1' c2 = cross (joined P pred) (map snd g) rs + emitted (joined P pred) s c1 c2"
proof (induction "length (remaining c1)" arbitrary: c1 s rule: less_induct)
  case less
  note ok = less.prems(1) and pend = less.prems(2)
  let ?f = "joined P pred"
  show ?case
  proof (cases "stops k (remaining c1)")
    case True
    have "stream_left checker P rk er s c1 c2 = Some (s, c1)"
    proof (cases "finished c1")
      case False
      with cursor_current [OF ok False] True rk show ?thesis
        by (subst stream_left.simps) (auto simp: stops_def)
    qed (simp add: stream_left.simps)
    with True ok pend show ?thesis by auto
  next
    case False
    then have nf: "\<not> finished c1" using remaining_Nil_iff [OF ok] by (simp add: stops_def)
    from cursor_current [OF ok nf] False obtain l rest where c: "remaining c1 = (k, l) # rest" "cur_key c1 = Some k"
      "row_at (batches c1) (cur_idx c1) = Some l" by (auto simp: stops_def)
    from cursor_next_ok [OF ch ok nf] obtain c1' where c': "cursor_next checker c1 = Some c1'" "cursor_ok null n1 c1'"
      "remaining c1' = rest" "extends c1 c1'" using c(1) by auto
    define s1 where "s1 = push_all (map (\<lambda>ri. (cur_idx c1, ri)) er) s"
    note pe = emitted_extends [OF pend c'(4) extends_refl]
    have ll: "length rs = length er" using er by (rule interleave_length)
    have "pending_ok s1 c1' c2 \<and> emitted ?f s1 c1' c2 = (\<Sum>r \<leftarrow> rs. ?f l r) + emitted ?f s c1 c2"
      unfolding s1_def
      using push_all_ok [OF pe(1), of "map (\<lambda>ri. (cur_idx c1, ri)) er" "replicate (length rs) l" rs ?f] er
        interleave_map_const [OF row_at_extends [OF c'(4) c(3)], of er] pe(2) ll
      by (simp add: comp_def sum_zip_replicate1)
    then have s1: "pending_ok s1 c1' c2" "emitted ?f s1 c1' c2 = (\<Sum>r \<leftarrow> rs. ?f l r) + emitted ?f s c1 c2" by simp_all
    have "\<exists>s2 c1''. stream_left checker P rk er s c1 c2 = stream_left checker P rk er s2 c1'' c2
        \<and> cursor_ok null n1 c1'' \<and> pending_ok s2 c1'' c2 \<and> remaining c1'' = rest
        \<and> emitted ?f s2 c1'' c2 = emitted ?f s1 c1' c2"
    proof (cases "full_should_flush P s1 \<or> num_buffered_batches c1' > 1")
      case True
      from full_flush_ok [OF par s1(1) cursor_buffered [OF c'(2)] cursor_buffered [OF c2]] obtain s2 where
        s2: "full_flush P c1' c2 s1 = Some s2" "lindices s2 = []" "rindices s2 = []"
        "mset (concat (sent s2)) = emitted ?f s1 c1' c2" by blast
      have "stream_left checker P rk er s c1 c2 = stream_left checker P rk er s2 (clean_out_dated_batches c1') c2"
        using nf c(2) rk c'(1) True s2(1) by (subst stream_left.simps) (simp add: s1_def [symmetric])
      then show ?thesis
        using emitted_no_pending [OF s2(2,3)] s2(4) clean_ok(1,2) [OF c'(2)] c'(3)
        by (intro exI [of _ s2] exI [of _ "clean_out_dated_batches c1'"]) simp
    next
      case False
      have "stream_left checker P rk er s c1 c2 = stream_left checker P rk er s1 c1' c2"
        using nf c(2) rk c'(1) False by (subst stream_left.simps) (auto simp: s1_def [symmetric])
      then show ?thesis using c'(2,3) s1(1) by blast
    qed
    then obtain s2 c1'' where s2: "stream_left checker P rk er s c1 c2 = stream_left checker P rk er s2 c1'' c2"
      "cursor_ok null n1 c1''" "pending_ok s2 c1'' c2" "remaining c1'' = rest"
      "emitted ?f s2 c1'' c2 = emitted ?f s1 c1' c2" by blast
    have "length (remaining c1'') < length (remaining c1)" using s2(4) c(1) by simp
    from less.hyps [OF this s2(2,3)] obtain s' c3 g where
      IH: "stream_left checker P rk er s2 c1'' c2 = Some (s', c3)" "cursor_ok null n1 c3" "pending_ok s' c3 c2"
      "remaining c1'' = g @ remaining c3" "\<forall>x \<in> set g. fst x = k" "stops k (remaining c3)"
      "emitted ?f s' c3 c2 = cross ?f (map snd g) rs + emitted ?f s2 c1'' c2" by blast
    then show ?thesis
      using s2 c(1) s1(2)
      by (intro exI [of _ s'] exI [of _ c3] exI [of _ "(k, l) # g"]) (simp add: ac_simps)
  qed
qed

section \<open>The arm for equal keys\<close>

lemma push_flush_ok:
  assumes par: "params_ok P pred n1 n2" and b: "cursor_ok null n1 c1" "cursor_ok null n2 c2"
  shows "pending_ok s c1 c2 \<Longrightarrow> interleave (batches c1) (map fst ps) = Some ls \<Longrightarrow>
    interleave (batches c2) (map snd ps) = Some rs \<Longrightarrow>
    \<exists>s'. push_flush P c1 c2 ps s = Some s' \<and> pending_ok s' c1 c2
      \<and> emitted (joined P pred) s' c1 c2 = (\<Sum>(l, r) \<leftarrow> zip ls rs. joined P pred l r) + emitted (joined P pred) s c1 c2"
proof (induction ps arbitrary: s ls rs)
  case (Cons p ps)
  let ?f = "joined P pred"
  obtain li ri where p: "p = (li, ri)" by (cases p)
  from Cons.prems(2,3) p obtain l r ls' rs' where
    lr: "row_at (batches c1) li = Some l" "row_at (batches c2) ri = Some r" "ls = l # ls'" "rs = r # rs'"
    "interleave (batches c1) (map fst ps) = Some ls'" "interleave (batches c2) (map snd ps) = Some rs'"
    by (auto simp: interleave_Cons split: Option.bind_splits)
  note pu = push_ok [OF Cons.prems(1) lr(1,2)]
  have "\<exists>s1. push_flush P c1 c2 (p # ps) s = push_flush P c1 c2 ps s1 \<and> pending_ok s1 c1 c2
      \<and> emitted ?f s1 c1 c2 = emitted ?f (push li ri s) c1 c2"
  proof (cases "full_should_flush P (push li ri s)")
    case True
    from full_flush_ok [OF par pu(1) cursor_buffered [OF b(1)] cursor_buffered [OF b(2)]] obtain s1 where
      s1: "full_flush P c1 c2 (push li ri s) = Some s1" "lindices s1 = []" "rindices s1 = []"
      "mset (concat (sent s1)) = emitted ?f (push li ri s) c1 c2" by blast
    with True p emitted_no_pending [OF s1(2,3)] show ?thesis by auto
  next
    case False
    with p pu show ?thesis by auto
  qed
  then obtain s1 where s1: "push_flush P c1 c2 (p # ps) s = push_flush P c1 c2 ps s1" "pending_ok s1 c1 c2"
    "emitted ?f s1 c1 c2 = emitted ?f (push li ri s) c1 c2" by blast
  from Cons.IH [OF s1(2) lr(5,6)] s1 pu(2) [of ?f] show ?case by (auto simp: lr(3,4) ac_simps)
qed simp

text \<open>The two ways of emitting the product of the collected rows.\<close>

lemma push_product_ok:
  assumes par: "params_ok P pred n1 n2" and b: "cursor_ok null n1 c1" "cursor_ok null n2 c2" and pend: "pending_ok s c1 c2"
    and el: "interleave (batches c1) el = Some ls" and er: "interleave (batches c2) er = Some rs"
  shows "\<exists>s'. (if has_enough_room P n s then Some (push_all (List.product el er) s)
        else push_flush P c1 c2 (List.product el er) s) = Some s'
    \<and> pending_ok s' c1 c2 \<and> emitted (joined P pred) s' c1 c2 = cross (joined P pred) ls rs + emitted (joined P pred) s c1 c2"
proof -
  have z: "(\<Sum>(l, r) \<leftarrow> zip (map fst (List.product ls rs)) (map snd (List.product ls rs)). joined P pred l r)
      = cross (joined P pred) ls rs"
    by (simp only: zip_map_fst_snd sum_product)
  note ip = interleave_product [OF el er]
  show ?thesis
    using push_all_ok [OF pend conjunct1 [OF ip] conjunct2 [OF ip], of "joined P pred"]
      push_flush_ok [OF par b pend conjunct1 [OF ip] conjunct2 [OF ip]] unfolding z by simp
qed

lemma full_join_equal_ok:
  assumes par: "params_ok P pred n1 n2" and ch: "checks checker null" and c1: "cursor_ok null n1 c1"
    and c2: "cursor_ok null n2 c2" and pend: "pending_ok s c1 c2"
    and rem: "remaining c1 = (k, l) # xs" "remaining c2 = (k, r) # ys"
  shows "\<exists>s' c1' c2' gl gr. full_join_equal checker P s c1 c2 = Some (s', c1', c2')
    \<and> cursor_ok null n1 c1' \<and> cursor_ok null n2 c2' \<and> pending_ok s' c1' c2'
    \<and> remaining c1 = gl @ remaining c1' \<and> (\<forall>x \<in> set gl. fst x = k) \<and> gl \<noteq> [] \<and> stops k (remaining c1')
    \<and> remaining c2 = gr @ remaining c2' \<and> (\<forall>x \<in> set gr. fst x = k) \<and> gr \<noteq> [] \<and> stops k (remaining c2')
    \<and> emitted (joined P pred) s' c1' c2'
      = cross (joined P pred) (map snd gl) (map snd gr) + emitted (joined P pred) s c1 c2"
proof -
  let ?f = "joined P pred" and ?lk = "cur_idx c1" and ?rk = "cur_idx c2"
  have nf: "\<not> finished c1" "\<not> finished c2" using rem c1 c2 by (simp_all add: remaining_Nil_iff)
  have cur: "key c1 ?lk = Some k" "row_at (batches c1) ?lk = Some l" "key c2 ?rk = Some k" "row_at (batches c2) ?rk = Some r"
    using cursor_current [OF c1 nf(1)] cursor_current [OF c2 nf(2)] rem by auto
  from cursor_next_ok [OF ch c1 nf(1)] cursor_next_ok [OF ch c2 nf(2)] rem obtain a1 a2 where
    a: "cursor_next checker c1 = Some a1" "cursor_ok null n1 a1" "remaining a1 = xs" "extends c1 a1"
    "cursor_next checker c2 = Some a2" "cursor_ok null n2 a2" "remaining a2 = ys" "extends c2 a2" by auto
  have i: "interleave (batches a1) [?lk] = Some [l]" "interleave (batches a2) [?rk] = Some [r]"
    using row_at_extends [OF a(4) cur(2)] row_at_extends [OF a(8) cur(4)] by (simp_all add: interleave_Cons)
  from find_equal_ok [OF ch a(2,6) key_extends [OF a(4) cur(1)] key_extends [OF a(8) cur(3)] i]
  obtain le re el er b1 b2 gl gr where
    fe: "find_equal checker ?lk ?rk True True [?lk] [?rk] a1 a2 = Some (le, re, el, er, b1, b2)"
    and co: "collected null n1 k a1 [l] gl le el b1" "collected null n2 k a2 [r] gr re er b2" and nb: "\<not> (le \<and> re)"
    by blast
  have b: "cursor_ok null n1 b1" "cursor_ok null n2 b2" "extends c1 b1" "extends c2 b2"
    "xs = gl @ remaining b1" "ys = gr @ remaining b2"
    "interleave (batches b1) el = Some (l # map snd gl)" "interleave (batches b2) er = Some (r # map snd gr)"
    using co a(3,4,7,8) by (auto simp: collected_def intro: extends_trans)
  note pb = emitted_extends [OF pend b(3,4)]
  have lens: "length el = Suc (length gl)" "length er = Suc (length gr)"
    using interleave_length [OF b(7)] interleave_length [OF b(8)] by simp_all
  show ?thesis
  proof (cases "length el > 1 \<or> length er > 1")
    case False
    then have g: "gl = []" "gr = []" using lens by simp_all
    then have "\<not> le" "\<not> re" using co by (auto simp: collected_def)
    then have st: "stops k (remaining b1)" "stops k (remaining b2)" using co by (auto simp: collected_def)
    have "full_join_equal checker P s c1 c2 = Some (push ?lk ?rk s, b1, b2)"
      using a(1,5) fe False by (simp add: full_join_equal_def)
    with push_ok [OF pb(1) row_at_extends [OF b(3) cur(2)] row_at_extends [OF b(4) cur(4)]]
      b(1,2,5,6) rem g st pb(2) have "full_join_equal checker P s c1 c2 = Some (push ?lk ?rk s, b1, b2)
        \<and> pending_ok (push ?lk ?rk s) b1 b2 \<and> remaining c1 = [(k, l)] @ remaining b1 \<and> remaining c2 = [(k, r)] @ remaining b2
        \<and> emitted ?f (push ?lk ?rk s) b1 b2 = cross ?f (map snd [(k, l)]) (map snd [(k, r)]) + emitted ?f s c1 c2" by simp
    with st b(1,2) show ?thesis by (metis fst_conv list.distinct(1) list.set_cases set_ConsD)
  next
    case True
    from push_product_ok [OF par b(1,2) pb(1) b(7,8), of "length el * length er"] obtain s1 where
      s1: "(if has_enough_room P (length el * length er) s then Some (push_all (List.product el er) s)
        else push_flush P b1 b2 (List.product el er) s) = Some s1" "pending_ok s1 b1 b2"
      "emitted ?f s1 b1 b2 = cross ?f (l # map snd gl) (r # map snd gr) + emitted ?f s c1 c2" using pb(2) by metis
    have kb: "key b1 ?lk = Some k" "key b2 ?rk = Some k"
      using key_extends [OF b(3) cur(1)] key_extends [OF b(4) cur(3)] by simp_all
    from stream_right_ok [OF par ch b(1) kb(1) b(7) b(2) s1(2)] obtain sr d2 hr where
      sr: "stream_right checker P ?lk el s1 b1 b2 = Some (sr, d2)" "cursor_ok null n2 d2" "pending_ok sr b1 d2"
      "remaining b2 = hr @ remaining d2" "\<forall>x \<in> set hr. fst x = k" "stops k (remaining d2)"
      "emitted ?f sr b1 d2 = cross ?f (l # map snd gl) (map snd hr) + emitted ?f s1 b1 b2"
      by blast
    from stream_left_ok [OF par ch b(2) kb(2) b(8) b(1) s1(2)] obtain sl d1 hl where
      sl: "stream_left checker P ?rk er s1 b1 b2 = Some (sl, d1)" "cursor_ok null n1 d1" "pending_ok sl d1 b2"
      "remaining b1 = hl @ remaining d1" "\<forall>x \<in> set hl. fst x = k" "stops k (remaining d1)"
      "emitted ?f sl d1 b2 = cross ?f (map snd hl) (r # map snd gr) + emitted ?f s1 b1 b2"
      by blast
    have keys: "\<forall>x \<in> set gl. fst x = k" "\<forall>x \<in> set gr. fst x = k" using co by (auto simp: collected_def)
    have run: "full_join_equal checker P s c1 c2 =
      do { (s2, c2c) \<leftarrow> (if re then stream_right checker P ?lk el s1 b1 b2 else Some (s1, b2));
           (s3, c1c) \<leftarrow> (if le then stream_left checker P ?rk er s2 b1 c2c else Some (s2, b1));
           Some (s3, c1c, c2c) }"
      by (simp only: full_join_equal_def Let_def a(1,5) fe bind.bind_lunit prod.case True not_True_eq_False if_False s1(1))
    consider "re" "\<not> le" "stops k (remaining b1)" | "le" "\<not> re" "stops k (remaining b2)"
      | "\<not> le" "\<not> re" "stops k (remaining b1)" "stops k (remaining b2)"
      using nb co by (auto simp: collected_def)
    then show ?thesis
    proof cases
      case 1
      show ?thesis
        by (rule exI [of _ sr], rule exI [of _ b1], rule exI [of _ d2], rule exI [of _ "(k, l) # gl"], rule exI [of _ "(k, r) # gr @ hr"])
          (use 1 run sr b(1,5,6) rem keys s1(3) in \<open>simp add: cross_append2 [of _ _ "r # map snd gr", simplified] ball_Un ac_simps\<close>)
    next
      case 2
      show ?thesis
        by (rule exI [of _ sl], rule exI [of _ d1], rule exI [of _ b2], rule exI [of _ "(k, l) # gl @ hl"], rule exI [of _ "(k, r) # gr"])
          (use 2 run sl b(2,5,6) rem keys s1(3) in \<open>simp add: cross_append ball_Un ac_simps\<close>)
    next
      case 3
      show ?thesis
        by (rule exI [of _ s1], rule exI [of _ b1], rule exI [of _ b2], rule exI [of _ "(k, l) # gl"], rule exI [of _ "(k, r) # gr"])
          (use 3 run b(1,2,5,6) rem keys s1(2,3) in \<open>simp\<close>)
    qed
  qed
qed


section \<open>The whole join\<close>

lemma full_flush_if_needed_ok:
  assumes par: "params_ok P pred n1 n2" and c1: "cursor_ok null n1 c1" and c2: "cursor_ok null n2 c2" and pend: "pending_ok s c1 c2"
  shows "\<exists>s' c1' c2'. full_flush_if_needed P s c1 c2 = Some (s', c1', c2') \<and> cursor_ok null n1 c1' \<and> cursor_ok null n2 c2'
    \<and> pending_ok s' c1' c2' \<and> remaining c1' = remaining c1 \<and> remaining c2' = remaining c2
    \<and> emitted (joined P pred) s' c1' c2' = emitted (joined P pred) s c1 c2"
proof (cases "full_should_flush P s \<or> num_buffered_batches c1 > 1 \<or> num_buffered_batches c2 > 1")
  case True
  from full_flush_ok [OF par pend cursor_buffered [OF c1] cursor_buffered [OF c2]] obtain s' where
    s': "full_flush P c1 c2 s = Some s'" "lindices s' = []" "rindices s' = []"
    "mset (concat (sent s')) = emitted (joined P pred) s c1 c2" by blast
  with True emitted_no_pending [OF s'(2,3)] clean_ok(1,2) [OF c1] clean_ok(1,2) [OF c2] show ?thesis
    by (simp add: full_flush_if_needed_def)
next
  case False
  with assms show ?thesis by (simp add: full_flush_if_needed_def)
qed

lemma stops_sorted:
  assumes "sorted (map fst (g @ xs))" and "\<forall>x \<in> set g. fst x = k" and "g \<noteq> []" and "stops k xs"
  shows "k \<notin> fst ` set xs"
proof (cases xs)
  case (Cons x ys)
  have "k \<le> fst x" using assms(1-3) Cons by (cases g) auto
  moreover have "fst x \<noteq> k" using assms(4) Cons by (simp add: stops_def)
  moreover have "\<forall>y \<in> set ys. fst x \<le> fst y" using assms(1) Cons by (simp add: sorted_append)
  ultimately show ?thesis using Cons by force
qed simp

lemma full_join_loop_ok:
  assumes par: "params_ok P pred n1 n2" and ch: "checks checker null"
  shows "cursor_ok null n1 c1 \<Longrightarrow> cursor_ok null n2 c2 \<Longrightarrow> pending_ok s c1 c2 \<Longrightarrow>
    sorted (map fst (remaining c1)) \<Longrightarrow> sorted (map fst (remaining c2)) \<Longrightarrow>
    \<exists>s' c1' c2'. full_join_loop checker P lo ro s c1 c2 = Some (s', c1', c2')
      \<and> cursor_ok null n1 c1' \<and> cursor_ok null n2 c2' \<and> pending_ok s' c1' c2'
      \<and> (remaining c1' = [] \<or> remaining c2' = [])
      \<and> emitted (joined P pred) s' c1' c2'
          + join_spec null lo ro (replicate n1 None) (replicate n2 None) (joined P pred) (remaining c1') (remaining c2')
        = emitted (joined P pred) s c1 c2
          + join_spec null lo ro (replicate n1 None) (replicate n2 None) (joined P pred) (remaining c1) (remaining c2)"
proof (induction "length (remaining c1) + length (remaining c2)" arbitrary: s c1 c2 rule: less_induct)
  case less
  let ?f = "joined P pred" and ?ln = "replicate n1 None" and ?rn = "replicate n2 None"
  let ?J = "join_spec null lo ro ?ln ?rn ?f"
  note fin = remaining_Nil_iff [OF less.prems(1)] remaining_Nil_iff [OF less.prems(2)]
  show ?case
  proof (cases "finished c1 \<or> finished c2")
    case True
    then have "full_join_loop checker P lo ro s c1 c2 = Some (s, c1, c2)" by (subst full_join_loop.simps) auto
    with True less.prems fin show ?thesis by auto
  next
    case False
    from full_flush_if_needed_ok [OF par less.prems(1-3)] obtain t a1 a2 where
      a: "full_flush_if_needed P s c1 c2 = Some (t, a1, a2)" "cursor_ok null n1 a1" "cursor_ok null n2 a2"
      "pending_ok t a1 a2" "remaining a1 = remaining c1" "remaining a2 = remaining c2"
      "emitted ?f t a1 a2 = emitted ?f s c1 c2" by blast
    obtain lk l xs rk r ys where rem: "remaining c1 = (lk, l) # xs" "remaining c2 = (rk, r) # ys"
      using False fin by (cases "remaining c1"; cases "remaining c2") auto
    have nf: "\<not> finished a1" "\<not> finished a2" using a rem by (simp_all add: remaining_Nil_iff)
    have cur: "row_at (batches a1) (cur_idx a1) = Some l" "row_at (batches a2) (cur_idx a2) = Some r"
      using cursor_current [OF a(2) nf(1)] cursor_current [OF a(3) nf(2)] a(5,6) rem by auto
    from cursor_next_ok [OF ch a(2) nf(1)] cursor_next_ok [OF ch a(3) nf(2)] a(5,6) rem obtain b1 b2 where
      b: "cursor_next checker a1 = Some b1" "cursor_ok null n1 b1" "remaining b1 = xs" "extends a1 b1"
      "cursor_next checker a2 = Some b2" "cursor_ok null n2 b2" "remaining b2 = ys" "extends a2 b2" by auto
    have srt: "sorted (map fst xs)" "\<forall>x \<in> set xs. lk \<le> fst x" "sorted (map fst ys)" "\<forall>y \<in> set ys. rk \<le> fst y"
      using less.prems(4,5) rem by auto
    have cmp: "compare_cursor a1 a2 = Some (if null lk then Less else if null rk then Greater
        else if lk < rk then Less else if lk = rk then Equal else Greater)"
      by (rule compare_cursor_ok [OF a(2,3)]) (use a(5,6) rem in auto)
    have next_state: ?thesis
      if run: "full_join_loop checker P lo ro s c1 c2 = full_join_loop checker P lo ro t' d1 d2"
        and ok: "cursor_ok null n1 d1" "cursor_ok null n2 d2" "pending_ok t' d1 d2"
          "sorted (map fst (remaining d1))" "sorted (map fst (remaining d2))"
        and smaller: "length (remaining d1) + length (remaining d2) < length (remaining c1) + length (remaining c2)"
        and inv: "emitted ?f t' d1 d2 + ?J (remaining d1) (remaining d2)
          = emitted ?f s c1 c2 + ?J (remaining c1) (remaining c2)" for t' d1 d2
      using less.hyps [OF smaller ok] run inv by simp
    consider (less) "null lk \<or> (\<not> null rk \<and> lk < rk)" "compare_cursor a1 a2 = Some Less"
      | (greater) "\<not> null lk" "null rk \<or> rk < lk" "compare_cursor a1 a2 = Some Greater"
      | (equal) "\<not> null lk" "lk = rk" "compare_cursor a1 a2 = Some Equal"
      using cmp by (cases "null lk"; cases "null rk"; cases "lk < rk"; cases "lk = rk") auto
    then show ?thesis
    proof cases
      case less
      let ?t = "if lo then push (cur_idx a1) (0, 0) t else t"
      note pe = emitted_extends [OF a(4) b(4) extends_refl]
      have "pending_ok ?t b1 a2 \<and> emitted ?f ?t b1 a2 = (if lo then ?f l ?rn else {#}) + emitted ?f s c1 c2"
        using push_ok [OF pe(1) row_at_extends [OF b(4) cur(1)] null_row [OF cursor_buffered [OF a(3)]]] pe a(7) by simp
      moreover have "lk \<notin> fst ` set ((rk, r) # ys) \<or> null lk" using less(1) srt(4) by auto
      ultimately show ?thesis
        using b(2,3) a(3,6) srt(1) less.prems(5) rem join_spec_less [of null lk "(rk, r) # ys" lo ro ?ln ?rn ?f l xs]
        by (intro next_state [of ?t b1 a2])
          (use False a(1) b(1) less(2) in \<open>subst full_join_loop.simps, simp_all add: ac_simps disj_commute\<close>)
    next
      case greater
      let ?t = "if ro then push (0, 0) (cur_idx a2) t else t"
      note pe = emitted_extends [OF a(4) extends_refl b(8)]
      have "pending_ok ?t a1 b2 \<and> emitted ?f ?t a1 b2 = (if ro then ?f ?ln r else {#}) + emitted ?f s c1 c2"
        using push_ok [OF pe(1) null_row [OF cursor_buffered [OF a(2)]] row_at_extends [OF b(8) cur(2)]] pe a(7) by simp
      moreover have "null rk \<or> rk \<notin> fst ` set ((lk, l) # xs)" using greater(2) srt(2) by auto
      ultimately show ?thesis
        using b(6,7) a(2,5) srt(3) less.prems(4) rem join_spec_greater [of null rk "(lk, l) # xs" lo ro ?ln ?rn ?f r ys]
        by (intro next_state [of ?t a1 b2])
          (use False a(1) b(5) greater(3) in \<open>subst full_join_loop.simps, simp_all add: ac_simps\<close>)
    next
      case equal
      from full_join_equal_ok [OF par ch a(2-4), of lk l xs r ys] a(5,6) rem equal(2) obtain t' d1 d2 gl gr where
        d: "full_join_equal checker P t a1 a2 = Some (t', d1, d2)" "cursor_ok null n1 d1" "cursor_ok null n2 d2" "pending_ok t' d1 d2"
        "remaining c1 = gl @ remaining d1" "\<forall>x \<in> set gl. fst x = lk" "gl \<noteq> []" "stops lk (remaining d1)"
        "remaining c2 = gr @ remaining d2" "\<forall>x \<in> set gr. fst x = lk" "gr \<noteq> []" "stops lk (remaining d2)"
        "emitted ?f t' d1 d2 = cross ?f (map snd gl) (map snd gr) + emitted ?f t a1 a2" by auto
      have "lk \<notin> fst ` set (remaining d1)" "lk \<notin> fst ` set (remaining d2)"
        using stops_sorted [OF _ d(6-8)] stops_sorted [OF _ d(10-12)] less.prems(4,5) d(5,9) by simp_all
      note je = join_spec_equal [of null lk gl gr "remaining d1" "remaining d2" lo ro ?ln ?rn ?f, OF equal(1) d(6,7,10,11) this]
      show ?thesis
      proof (rule next_state [OF _ d(2-4)])
        show "full_join_loop checker P lo ro s c1 c2 = full_join_loop checker P lo ro t' d1 d2"
          using False a(1) equal(3) d(1) by (subst full_join_loop.simps) simp
        show "sorted (map fst (remaining d1))" "sorted (map fst (remaining d2))"
          using less.prems(4,5) d(5,9) by (simp_all add: sorted_append)
        show "length (remaining d1) + length (remaining d2) < length (remaining c1) + length (remaining c2)"
          using d(5,7,9) by simp
        show "emitted ?f t' d1 d2 + ?J (remaining d1) (remaining d2) = emitted ?f s c1 c2 + ?J (remaining c1) (remaining c2)"
          unfolding d(5,9) je d(13) a(7) by (simp add: ac_simps)
      qed
    qed
  qed
qed


lemma drain_left_ok:
  assumes par: "params_ok P pred n1 n2" and ch: "checks checker null" and c2: "cursor_ok null n2 c2"
  shows "cursor_ok null n1 c1 \<Longrightarrow> pending_ok s c1 c2 \<Longrightarrow>
    \<exists>s' c1'. drain_left checker P lo s c1 c2 = Some (s', c1') \<and> cursor_ok null n1 c1' \<and> pending_ok s' c1' c2
      \<and> emitted (joined P pred) s' c1' c2 = emitted (joined P pred) s c1 c2
          + (if lo then \<Sum>x \<leftarrow> remaining c1. joined P pred (snd x) (replicate n2 None) else {#})"
proof (induction "length (remaining c1)" arbitrary: c1 s rule: less_induct)
  case less
  note ok = less.prems(1) and pend = less.prems(2)
  let ?f = "joined P pred" and ?rn = "replicate n2 None"
  show ?case
  proof (cases "lo \<and> \<not> finished c1")
    case False
    then have "drain_left checker P lo s c1 c2 = Some (s, c1)" by (subst drain_left.simps) auto
    with False ok pend remaining_Nil_iff [OF ok] show ?thesis by auto
  next
    case True
    then have nf: "\<not> finished c1" by simp
    from cursor_current [OF ok nf] obtain k l rest where c: "remaining c1 = (k, l) # rest"
      "row_at (batches c1) (cur_idx c1) = Some l" by blast
    from cursor_next_ok [OF ch ok nf] obtain c1' where c': "cursor_next checker c1 = Some c1'" "cursor_ok null n1 c1'"
      "remaining c1' = rest" "extends c1 c1'" using c(1) by auto
    define s1 where "s1 = push (cur_idx c1) (0, 0) s"
    note pe = emitted_extends [OF pend c'(4) extends_refl]
    note s1 = push_ok [OF pe(1) row_at_extends [OF c'(4) c(2)] null_row [OF cursor_buffered [OF c2]], folded s1_def]
    have "\<exists>s2 d. drain_left checker P lo s c1 c2 = drain_left checker P lo s2 d c2
        \<and> cursor_ok null n1 d \<and> pending_ok s2 d c2 \<and> remaining d = rest \<and> emitted ?f s2 d c2 = emitted ?f s1 c1' c2"
    proof (cases "full_should_flush P s1")
      case flush: True
      from full_flush_ok [OF par s1(1) cursor_buffered [OF c'(2)] cursor_buffered [OF c2]] obtain s2 where
        s2: "full_flush P c1' c2 s1 = Some s2" "lindices s2 = []" "rindices s2 = []"
        "mset (concat (sent s2)) = emitted ?f s1 c1' c2" by blast
      have "drain_left checker P lo s c1 c2 = drain_left checker P lo s2 (clean_out_dated_batches c1') c2"
        using True c'(1) flush s2(1) by (subst drain_left.simps) (simp add: s1_def [symmetric])
      then show ?thesis
        using emitted_no_pending [OF s2(2,3)] s2(4) clean_ok(1,2) [OF c'(2)] c'(3)
        by (intro exI [of _ s2] exI [of _ "clean_out_dated_batches c1'"]) simp
    next
      case False
      have "drain_left checker P lo s c1 c2 = drain_left checker P lo s1 c1' c2"
        using True c'(1) False by (subst drain_left.simps) (simp add: s1_def [symmetric])
      then show ?thesis using c'(2,3) s1(1) by blast
    qed
    then obtain s2 d where s2: "drain_left checker P lo s c1 c2 = drain_left checker P lo s2 d c2" "cursor_ok null n1 d"
      "pending_ok s2 d c2" "remaining d = rest" "emitted ?f s2 d c2 = emitted ?f s1 c1' c2" by blast
    have "length (remaining d) < length (remaining c1)" using s2(4) c(1) by simp
    from less.hyps [OF this s2(2,3)] s2 c(1) s1(2) [of ?f] pe(2) [of ?f] True show ?thesis by (auto simp: ac_simps)
  qed
qed

lemma drain_right_ok:
  assumes par: "params_ok P pred n1 n2" and ch: "checks checker null" and c1: "cursor_ok null n1 c1"
  shows "cursor_ok null n2 c2 \<Longrightarrow> pending_ok s c1 c2 \<Longrightarrow>
    \<exists>s' c2'. drain_right checker P ro s c1 c2 = Some (s', c2') \<and> cursor_ok null n2 c2' \<and> pending_ok s' c1 c2'
      \<and> emitted (joined P pred) s' c1 c2' = emitted (joined P pred) s c1 c2
          + (if ro then \<Sum>x \<leftarrow> remaining c2. joined P pred (replicate n1 None) (snd x) else {#})"
proof (induction "length (remaining c2)" arbitrary: c2 s rule: less_induct)
  case less
  note ok = less.prems(1) and pend = less.prems(2)
  let ?f = "joined P pred" and ?ln = "replicate n1 None"
  show ?case
  proof (cases "ro \<and> \<not> finished c2")
    case False
    then have "drain_right checker P ro s c1 c2 = Some (s, c2)" by (subst drain_right.simps) auto
    with False ok pend remaining_Nil_iff [OF ok] show ?thesis by auto
  next
    case True
    then have nf: "\<not> finished c2" by simp
    from cursor_current [OF ok nf] obtain k r rest where c: "remaining c2 = (k, r) # rest"
      "row_at (batches c2) (cur_idx c2) = Some r" by blast
    from cursor_next_ok [OF ch ok nf] obtain c2' where c': "cursor_next checker c2 = Some c2'" "cursor_ok null n2 c2'"
      "remaining c2' = rest" "extends c2 c2'" using c(1) by auto
    define s1 where "s1 = push (0, 0) (cur_idx c2) s"
    note pe = emitted_extends [OF pend extends_refl c'(4)]
    note s1 = push_ok [OF pe(1) null_row [OF cursor_buffered [OF c1]] row_at_extends [OF c'(4) c(2)], folded s1_def]
    have "\<exists>s2 d. drain_right checker P ro s c1 c2 = drain_right checker P ro s2 c1 d
        \<and> cursor_ok null n2 d \<and> pending_ok s2 c1 d \<and> remaining d = rest \<and> emitted ?f s2 c1 d = emitted ?f s1 c1 c2'"
    proof (cases "full_should_flush P s1")
      case flush: True
      from full_flush_ok [OF par s1(1) cursor_buffered [OF c1] cursor_buffered [OF c'(2)]] obtain s2 where
        s2: "full_flush P c1 c2' s1 = Some s2" "lindices s2 = []" "rindices s2 = []"
        "mset (concat (sent s2)) = emitted ?f s1 c1 c2'" by blast
      have "drain_right checker P ro s c1 c2 = drain_right checker P ro s2 c1 (clean_out_dated_batches c2')"
        using True c'(1) flush s2(1) by (subst drain_right.simps) (simp add: s1_def [symmetric])
      then show ?thesis
        using emitted_no_pending [OF s2(2,3)] s2(4) clean_ok(1,2) [OF c'(2)] c'(3)
        by (intro exI [of _ s2] exI [of _ "clean_out_dated_batches c2'"]) simp
    next
      case False
      have "drain_right checker P ro s c1 c2 = drain_right checker P ro s1 c1 c2'"
        using True c'(1) False by (subst drain_right.simps) (simp add: s1_def [symmetric])
      then show ?thesis using c'(2,3) s1(1) by blast
    qed
    then obtain s2 d where s2: "drain_right checker P ro s c1 c2 = drain_right checker P ro s2 c1 d" "cursor_ok null n2 d"
      "pending_ok s2 c1 d" "remaining d = rest" "emitted ?f s2 c1 d = emitted ?f s1 c1 c2'" by blast
    have "length (remaining d) < length (remaining c2)" using s2(4) c(1) by simp
    from less.hyps [OF this s2(2,3)] s2 c(1) s1(2) [of ?f] pe(2) [of ?f] True show ?thesis by (auto simp: ac_simps)
  qed
qed

lemma full_join_ok:
  assumes par: "params_ok P pred n1 n2" and ch: "checks checker null"
    and c: "cursor_ok null n1 c1" "cursor_ok null n2 c2" "pending_ok s c1 c2"
    and srt: "sorted (map fst (remaining c1))" "sorted (map fst (remaining c2))"
  shows "\<exists>s'. full_join checker P lo ro s c1 c2 = Some s' \<and> lindices s' = [] \<and> rindices s' = []
    \<and> mset (concat (sent s')) = emitted (joined P pred) s c1 c2
        + join_spec null lo ro (replicate n1 None) (replicate n2 None) (joined P pred) (remaining c1) (remaining c2)"
proof -
  let ?f = "joined P pred"
  from full_join_loop_ok [OF par ch c srt, of lo ro] obtain s1 a1 a2 where
    a: "full_join_loop checker P lo ro s c1 c2 = Some (s1, a1, a2)" "cursor_ok null n1 a1" "cursor_ok null n2 a2"
    "pending_ok s1 a1 a2" "remaining a1 = [] \<or> remaining a2 = []"
    "emitted ?f s1 a1 a2 + join_spec null lo ro (replicate n1 None) (replicate n2 None) ?f (remaining a1) (remaining a2)
      = emitted ?f s c1 c2 + join_spec null lo ro (replicate n1 None) (replicate n2 None) ?f (remaining c1) (remaining c2)" by blast
  define fl where "fl = (if lindices s1 \<noteq> []
      then do { s' \<leftarrow> full_flush P a1 a2 s1; Some (s', clean_out_dated_batches a1, clean_out_dated_batches a2) }
      else Some (s1, a1, a2))"
  have "\<exists>s2 b1 b2. fl = Some (s2, b1, b2) \<and> cursor_ok null n1 b1 \<and> cursor_ok null n2 b2 \<and> pending_ok s2 b1 b2
      \<and> remaining b1 = remaining a1 \<and> remaining b2 = remaining a2 \<and> emitted ?f s2 b1 b2 = emitted ?f s1 a1 a2"
  proof (cases "lindices s1 = []")
    case True
    with a show ?thesis by (simp add: fl_def)
  next
    case False
    from full_flush_ok [OF par a(4) cursor_buffered [OF a(2)] cursor_buffered [OF a(3)]] obtain s2 where
      s2: "full_flush P a1 a2 s1 = Some s2" "lindices s2 = []" "rindices s2 = []"
      "mset (concat (sent s2)) = emitted ?f s1 a1 a2" by blast
    with False emitted_no_pending [OF s2(2,3)] clean_ok(1,2) [OF a(2)] clean_ok(1,2) [OF a(3)] show ?thesis
      by (simp add: fl_def)
  qed
  then obtain s2 b1 b2 where b: "fl = Some (s2, b1, b2)" "cursor_ok null n1 b1" "cursor_ok null n2 b2" "pending_ok s2 b1 b2"
    "remaining b1 = remaining a1" "remaining b2 = remaining a2" "emitted ?f s2 b1 b2 = emitted ?f s1 a1 a2" by blast
  from drain_left_ok [OF par ch b(3,2,4), of lo] obtain s3 d1 where
    d1: "drain_left checker P lo s2 b1 b2 = Some (s3, d1)" "cursor_ok null n1 d1" "pending_ok s3 d1 b2"
    "emitted ?f s3 d1 b2 = emitted ?f s2 b1 b2
      + (if lo then \<Sum>x \<leftarrow> remaining b1. ?f (snd x) (replicate n2 None) else {#})" by blast
  from drain_right_ok [OF par ch d1(2) b(3) d1(3), of ro] obtain s4 d2 where
    d2: "drain_right checker P ro s3 d1 b2 = Some (s4, d2)" "cursor_ok null n2 d2" "pending_ok s4 d1 d2"
    "emitted ?f s4 d1 d2 = emitted ?f s3 d1 b2
      + (if ro then \<Sum>x \<leftarrow> remaining b2. ?f (replicate n1 None) (snd x) else {#})" by blast
  have total: "emitted ?f s4 d1 d2 = emitted ?f s c1 c2
      + join_spec null lo ro (replicate n1 None) (replicate n2 None) ?f (remaining c1) (remaining c2)"
    using a(5,6) b(5-7) d1(4) d2(4) by (auto simp: join_spec_Nil1 join_spec_Nil2)
  have run: "full_join checker P lo ro s c1 c2 = (if lindices s4 \<noteq> [] then full_flush P d1 d2 s4 else Some s4)"
    by (simp only: full_join_def a(1) bind.bind_lunit prod.case fl_def [symmetric] b(1) d1(1) d2(1))
  show ?thesis
  proof (cases "lindices s4 = []")
    case True
    then have r: "rindices s4 = []" using d2(3) by (simp add: pending_ok_def)
    with True run total emitted_no_pending(2) [OF True r, of ?f d1 d2] show ?thesis by simp
  next
    case False
    with full_flush_ok [OF par d2(3) cursor_buffered [OF d1(2)] cursor_buffered [OF d2(2)]] run total show ?thesis by auto
  qed
qed

end
