(* ===== verification/Smj_Semi_Join.thy ===== *)
theory Smj_Semi_Join
  imports Smj_Full_Join
begin

text \<open>
  The semi, anti and existence sort-merge joins, \<open>joins/smj/semi_join.rs\<close> and
  \<open>joins/smj/existence_join.rs\<close>.  The two files have the same loops and differ in which rows they
  push: a semi join the matched rows of its side, an anti join the unmatched ones, the existence
  join every left row together with whether it was matched.  \<open>emits\<close> is that choice; the rest is
  one model with the kind of join as a parameter.
\<close>

section \<open>Model\<close>

datatype semi_join_side = SideL | SideR

datatype probe_kind = SemiJoiner semi_join_side bool | ExistenceJoiner

record 'v probe_joiner =
  indices :: "idx list"
  exists_flags :: "bool list"
  p_output_rows :: nat
  p_sent :: "'v row list list"

definition new_probe_joiner :: "'v probe_joiner" where
  "new_probe_joiner = \<lparr>indices = [], exists_flags = [], p_output_rows = 0, p_sent = []\<rparr>"

text \<open>Whether a row of a side is part of the output, by whether it is matched.\<close>

fun emits :: "probe_kind \<Rightarrow> semi_join_side \<Rightarrow> bool \<Rightarrow> bool" where
  "emits (SemiJoiner join_side semi) side matched = (side = join_side \<and> matched = semi)"
| "emits ExistenceJoiner side matched = (side = SideL)"

fun out_side :: "probe_kind \<Rightarrow> semi_join_side" where
  "out_side (SemiJoiner join_side semi) = join_side"
| "out_side ExistenceJoiner = SideL"

type_synonym 'v cursors = "'v stream_cursor \<times> 'v stream_cursor"

fun side_cur :: "semi_join_side \<Rightarrow> 'v cursors \<Rightarrow> 'v stream_cursor" where
  "side_cur SideL cs = fst cs"
| "side_cur SideR cs = snd cs"

fun set_cur :: "semi_join_side \<Rightarrow> 'v stream_cursor \<Rightarrow> 'v cursors \<Rightarrow> 'v cursors" where
  "set_cur SideL c cs = (c, snd cs)"
| "set_cur SideR c cs = (fst cs, c)"

fun other :: "semi_join_side \<Rightarrow> semi_join_side" where
  "other SideL = SideR"
| "other SideR = SideL"

definition probe_should_flush :: "nat \<Rightarrow> 'v probe_joiner \<Rightarrow> bool" where
  "probe_should_flush bsize s = (length (indices s) \<ge> bsize)"

text \<open>The existence join appends the column of flags; \<open>bool_cell\<close> is a boolean as a cell.\<close>

definition probe_flush :: "(bool \<Rightarrow> 'v) \<Rightarrow> probe_kind \<Rightarrow> 'v cursors \<Rightarrow> 'v probe_joiner \<Rightarrow> 'v probe_joiner option" where
  "probe_flush bool_cell kind cs s =
     do { rows \<leftarrow> interleave (batches (side_cur (out_side kind) cs)) (indices s);
          out \<leftarrow> (case kind of
                    SemiJoiner _ _ \<Rightarrow> Some rows
                  | ExistenceJoiner \<Rightarrow>
                      if length (exists_flags s) = length rows
                      then Some (map2 (\<lambda>row e. row @ [Some (bool_cell e)]) rows (exists_flags s)) else None);
          Some (s\<lparr>indices := [], exists_flags := [], p_output_rows := p_output_rows s + length out,
                  p_sent := (if length out > 0 then p_sent s @ [out] else p_sent s)\<rparr>) }"

definition push_row :: "probe_kind \<Rightarrow> semi_join_side \<Rightarrow> bool \<Rightarrow> idx \<Rightarrow> 'v probe_joiner \<Rightarrow> 'v probe_joiner" where
  "push_row kind side matched ix s =
     (if emits kind side matched
      then s\<lparr>indices := indices s @ [ix],
             exists_flags := (case kind of ExistenceJoiner \<Rightarrow> exists_flags s @ [matched] | _ \<Rightarrow> exists_flags s)\<rparr>
      else s)"

text \<open>One side of the loop over the rows with the key of the row at \<open>ki\<close>.\<close>

definition step_probe ::
  "(bytes list \<Rightarrow> bool list option) \<Rightarrow> probe_kind \<Rightarrow> semi_join_side \<Rightarrow> idx \<Rightarrow> 'v probe_joiner \<Rightarrow> 'v cursors
   \<Rightarrow> (bool \<times> 'v probe_joiner \<times> 'v cursors) option" where
  "step_probe checker kind side ki s cs =
     (let c = side_cur side cs
      in if finished c then Some (False, s, cs)
         else do { k \<leftarrow> cur_key c; k' \<leftarrow> key c ki;
                   if k = k'
                   then do { c' \<leftarrow> cursor_next checker c;
                             Some (True, push_row kind side True (cur_idx c) s, set_cur side c' cs) }
                   else Some (False, s, cs) })"

partial_function (option) probe_equal ::
  "(bytes list \<Rightarrow> bool list option) \<Rightarrow> probe_kind \<Rightarrow> idx \<Rightarrow> idx \<Rightarrow> bool \<Rightarrow> bool \<Rightarrow> 'v probe_joiner \<Rightarrow> 'v cursors
   \<Rightarrow> (bool \<times> bool \<times> 'v probe_joiner \<times> 'v cursors) option" where
  "probe_equal checker kind lk rk l_equal r_equal s cs =
     (if l_equal \<and> r_equal
      then do { (l_equal', s1, cs1) \<leftarrow> step_probe checker kind SideL lk s cs;
                (r_equal', s2, cs2) \<leftarrow> step_probe checker kind SideR rk s1 cs1;
                probe_equal checker kind lk rk l_equal' r_equal' s2 cs2 }
      else Some (l_equal, r_equal, s, cs))"

text \<open>Streaming one side; the key to compare with is on the other side, at \<open>ki\<close>.\<close>

partial_function (option) stream_probe ::
  "(bytes list \<Rightarrow> bool list option) \<Rightarrow> (bool \<Rightarrow> 'v) \<Rightarrow> nat \<Rightarrow> probe_kind \<Rightarrow> semi_join_side \<Rightarrow> idx \<Rightarrow> 'v probe_joiner \<Rightarrow> 'v cursors
   \<Rightarrow> ('v probe_joiner \<times> 'v cursors) option" where
  "stream_probe checker bool_cell bsize kind side ki s cs =
     (if finished (side_cur side cs) then Some (s, cs)
      else do { k \<leftarrow> cur_key (side_cur side cs); k' \<leftarrow> key (side_cur (other side) cs) ki;
                if k = k'
                then do { c' \<leftarrow> cursor_next checker (side_cur side cs);
                          let s1 = push_row kind side True (cur_idx (side_cur side cs)) s in
                          if probe_should_flush bsize s1 \<or> num_buffered_batches c' > 1
                          then do { s2 \<leftarrow> probe_flush bool_cell kind (set_cur side c' cs) s1;
                                    stream_probe checker bool_cell bsize kind side ki s2
                                      (set_cur side (clean_out_dated_batches c') cs) }
                          else stream_probe checker bool_cell bsize kind side ki s1 (set_cur side c' cs) }
                else Some (s, cs) })"

definition probe_join_equal ::
  "(bytes list \<Rightarrow> bool list option) \<Rightarrow> (bool \<Rightarrow> 'v) \<Rightarrow> nat \<Rightarrow> probe_kind \<Rightarrow> 'v probe_joiner \<Rightarrow> 'v cursors
   \<Rightarrow> ('v probe_joiner \<times> 'v cursors) option" where
  "probe_join_equal checker bool_cell bsize kind s cs =
     (let lk = cur_idx (fst cs); rk = cur_idx (snd cs)
      in do {
        c1' \<leftarrow> cursor_next checker (fst cs);
        c2' \<leftarrow> cursor_next checker (snd cs);
        (l_equal, r_equal, s1, cs1) \<leftarrow>
          probe_equal checker kind lk rk True True (push_row kind SideR True rk (push_row kind SideL True lk s)) (c1', c2');
        (s2, cs2) \<leftarrow> (if l_equal then stream_probe checker bool_cell bsize kind SideL rk s1 cs1 else Some (s1, cs1));
        (if r_equal then stream_probe checker bool_cell bsize kind SideR lk s2 cs2 else Some (s2, cs2)) })"

definition probe_flush_if_needed ::
  "(bool \<Rightarrow> 'v) \<Rightarrow> nat \<Rightarrow> probe_kind \<Rightarrow> 'v probe_joiner \<Rightarrow> 'v cursors \<Rightarrow> ('v probe_joiner \<times> 'v cursors) option" where
  "probe_flush_if_needed bool_cell bsize kind s cs =
     (if probe_should_flush bsize s \<or> num_buffered_batches (fst cs) > 1 \<or> num_buffered_batches (snd cs) > 1
      then do { s' \<leftarrow> probe_flush bool_cell kind cs s;
                Some (s', clean_out_dated_batches (fst cs), clean_out_dated_batches (snd cs)) }
      else Some (s, cs))"

partial_function (option) probe_join_loop ::
  "(bytes list \<Rightarrow> bool list option) \<Rightarrow> (bool \<Rightarrow> 'v) \<Rightarrow> nat \<Rightarrow> probe_kind \<Rightarrow> 'v probe_joiner \<Rightarrow> 'v cursors
   \<Rightarrow> ('v probe_joiner \<times> 'v cursors) option" where
  "probe_join_loop checker bool_cell bsize kind s cs =
     (if \<not> finished (fst cs) \<and> \<not> finished (snd cs)
      then do {
        (s, cs) \<leftarrow> probe_flush_if_needed bool_cell bsize kind s cs;
        ord \<leftarrow> compare_cursor (fst cs) (snd cs);
        (case ord of
           Less \<Rightarrow>
             do { c' \<leftarrow> cursor_next checker (fst cs);
                  probe_join_loop checker bool_cell bsize kind (push_row kind SideL False (cur_idx (fst cs)) s) (set_cur SideL c' cs) }
         | Greater \<Rightarrow>
             do { c' \<leftarrow> cursor_next checker (snd cs);
                  probe_join_loop checker bool_cell bsize kind (push_row kind SideR False (cur_idx (snd cs)) s) (set_cur SideR c' cs) }
         | Equal \<Rightarrow>
             do { (s', cs') \<leftarrow> probe_join_equal checker bool_cell bsize kind s cs;
                  probe_join_loop checker bool_cell bsize kind s' cs' }) }
      else Some (s, cs))"

text \<open>What is left of a side once the other is finished, if its unmatched rows are wanted.\<close>

partial_function (option) drain_probe ::
  "(bytes list \<Rightarrow> bool list option) \<Rightarrow> (bool \<Rightarrow> 'v) \<Rightarrow> nat \<Rightarrow> probe_kind \<Rightarrow> semi_join_side \<Rightarrow> 'v probe_joiner \<Rightarrow> 'v cursors
   \<Rightarrow> ('v probe_joiner \<times> 'v cursors) option" where
  "drain_probe checker bool_cell bsize kind side s cs =
     (if emits kind side False \<and> \<not> finished (side_cur side cs)
      then do { c' \<leftarrow> cursor_next checker (side_cur side cs);
                let s1 = push_row kind side False (cur_idx (side_cur side cs)) s in
                if probe_should_flush bsize s1
                then do { s2 \<leftarrow> probe_flush bool_cell kind (set_cur side c' cs) s1;
                          drain_probe checker bool_cell bsize kind side s2 (set_cur side (clean_out_dated_batches c') cs) }
                else drain_probe checker bool_cell bsize kind side s1 (set_cur side c' cs) }
      else Some (s, cs))"

definition probe_join ::
  "(bytes list \<Rightarrow> bool list option) \<Rightarrow> (bool \<Rightarrow> 'v) \<Rightarrow> nat \<Rightarrow> probe_kind \<Rightarrow> 'v probe_joiner \<Rightarrow> 'v cursors \<Rightarrow> 'v probe_joiner option" where
  "probe_join checker bool_cell bsize kind s cs =
     do { (s, cs) \<leftarrow> probe_join_loop checker bool_cell bsize kind s cs;
          (s, cs) \<leftarrow> drain_probe checker bool_cell bsize kind SideL s cs;
          (s, cs) \<leftarrow> drain_probe checker bool_cell bsize kind SideR s cs;
          if indices s \<noteq> [] then probe_flush bool_cell kind cs s else Some s }"

definition semi_join ::
  "(bytes list \<Rightarrow> bool list option) \<Rightarrow> (bool \<Rightarrow> 'v) \<Rightarrow> nat \<Rightarrow> semi_join_side \<Rightarrow> bool \<Rightarrow> 'v probe_joiner \<Rightarrow> 'v cursors \<Rightarrow> 'v probe_joiner option" where
  "semi_join checker bool_cell bsize join_side semi s cs = probe_join checker bool_cell bsize (SemiJoiner join_side semi) s cs"

definition existence_join ::
  "(bytes list \<Rightarrow> bool list option) \<Rightarrow> (bool \<Rightarrow> 'v) \<Rightarrow> nat \<Rightarrow> 'v probe_joiner \<Rightarrow> 'v cursors \<Rightarrow> 'v probe_joiner option" where
  "existence_join checker bool_cell bsize s cs = probe_join checker bool_cell bsize ExistenceJoiner s cs"

section \<open>Specification\<close>

text \<open>What a row of a side contributes to the output, by whether it is matched.\<close>

definition contrib :: "(bool \<Rightarrow> 'v) \<Rightarrow> probe_kind \<Rightarrow> semi_join_side \<Rightarrow> bool \<Rightarrow> 'v row \<Rightarrow> 'v row multiset" where
  "contrib bool_cell kind side matched row =
     (if emits kind side matched
      then {#case kind of ExistenceJoiner \<Rightarrow> row @ [Some (bool_cell matched)] | _ \<Rightarrow> row#} else {#})"

definition side_spec ::
  "(bytes \<Rightarrow> bool) \<Rightarrow> (bool \<Rightarrow> 'v) \<Rightarrow> probe_kind \<Rightarrow> semi_join_side \<Rightarrow> (bytes \<times> 'v row) list \<Rightarrow> (bytes \<times> 'v row) list \<Rightarrow> 'v row multiset" where
  "side_spec null bool_cell kind side xs ys = (\<Sum>x \<leftarrow> xs. contrib bool_cell kind side (has_match null ys x) (snd x))"

definition probe_spec ::
  "(bytes \<Rightarrow> bool) \<Rightarrow> (bool \<Rightarrow> 'v) \<Rightarrow> probe_kind \<Rightarrow> (bytes \<times> 'v row) list \<Rightarrow> (bytes \<times> 'v row) list \<Rightarrow> 'v row multiset" where
  "probe_spec null bool_cell kind xs ys = side_spec null bool_cell kind SideL xs ys + side_spec null bool_cell kind SideR ys xs"

abbreviation matched_sum :: "(bool \<Rightarrow> 'v) \<Rightarrow> probe_kind \<Rightarrow> semi_join_side \<Rightarrow> (bytes \<times> 'v row) list \<Rightarrow> 'v row multiset" where
  "matched_sum bool_cell kind side g \<equiv> (\<Sum>x \<leftarrow> g. contrib bool_cell kind side True (snd x))"

lemma side_spec_cong:
  "(\<And>x. x \<in> set xs \<Longrightarrow> has_match null ys x = has_match null ys' x) \<Longrightarrow>
   side_spec null bc kind side xs ys = side_spec null bc kind side xs ys'"
  unfolding side_spec_def by (rule arg_cong [where f = sum_list]) auto

lemma side_spec_append:
  "side_spec null bc kind side (xs @ xs') ys = side_spec null bc kind side xs ys + side_spec null bc kind side xs' ys"
  by (simp add: side_spec_def)

lemma probe_spec_less:
  assumes "null k \<or> k \<notin> fst ` set ys"
  shows "probe_spec null bc kind ((k, l) # xs) ys = contrib bc kind SideL False l + probe_spec null bc kind xs ys"
proof -
  have "side_spec null bc kind SideR ys ((k, l) # xs) = side_spec null bc kind SideR ys xs"
    by (rule side_spec_cong) (use assms in \<open>auto simp: has_match_def image_iff\<close>)
  moreover have "\<not> has_match null ys (k, l)" using assms by (auto simp: has_match_def)
  ultimately show ?thesis by (simp add: probe_spec_def side_spec_def ac_simps)
qed

lemma probe_spec_greater:
  assumes "null k \<or> k \<notin> fst ` set xs"
  shows "probe_spec null bc kind xs ((k, r) # ys) = contrib bc kind SideR False r + probe_spec null bc kind xs ys"
proof -
  have "side_spec null bc kind SideL xs ((k, r) # ys) = side_spec null bc kind SideL xs ys"
    by (rule side_spec_cong) (use assms in \<open>auto simp: has_match_def image_iff\<close>)
  moreover have "\<not> has_match null xs (k, r)" using assms by (auto simp: has_match_def)
  ultimately show ?thesis by (simp add: probe_spec_def side_spec_def ac_simps)
qed

lemma side_spec_group:
  assumes k: "\<not> null k" and g: "\<forall>x \<in> set g. fst x = k" and h: "\<forall>y \<in> set h. fst y = k" "h \<noteq> []" and rest: "k \<notin> fst ` set xs"
  shows "side_spec null bc kind side (g @ xs) (h @ ys) = matched_sum bc kind side g + side_spec null bc kind side xs ys"
proof -
  have kh: "k \<in> fst ` set h" using h by (force simp: neq_Nil_conv)
  have "has_match null (h @ ys) x" if "x \<in> set g" for x
    using that g kh k by (simp add: has_match_def image_Un)
  then have "map (\<lambda>x. contrib bc kind side (has_match null (h @ ys) x) (snd x)) g = map (\<lambda>x. contrib bc kind side True (snd x)) g"
    by simp
  then have "side_spec null bc kind side g (h @ ys) = matched_sum bc kind side g" by (simp only: side_spec_def)
  moreover have "side_spec null bc kind side xs (h @ ys) = side_spec null bc kind side xs ys"
    by (rule side_spec_cong) (use h(1) rest in \<open>fastforce simp: has_match_def image_iff\<close>)
  ultimately show ?thesis by (simp add: side_spec_append)
qed

lemma probe_spec_equal:
  assumes "\<not> null k" and "\<forall>x \<in> set gl. fst x = k" "gl \<noteq> []" and "\<forall>y \<in> set gr. fst y = k" "gr \<noteq> []"
    and "k \<notin> fst ` set xs" "k \<notin> fst ` set ys"
  shows "probe_spec null bc kind (gl @ xs) (gr @ ys)
    = matched_sum bc kind SideL gl + matched_sum bc kind SideR gr + probe_spec null bc kind xs ys"
  using side_spec_group [of null k gl gr xs] side_spec_group [of null k gr gl ys] assms
  by (simp add: probe_spec_def ac_simps)

lemma probe_spec_Nil:
  "probe_spec null bc kind xs [] = (\<Sum>x \<leftarrow> xs. contrib bc kind SideL False (snd x))"
  "probe_spec null bc kind [] ys = (\<Sum>y \<leftarrow> ys. contrib bc kind SideR False (snd y))"
  by (simp_all add: probe_spec_def side_spec_def has_match_def)


section \<open>What has been emitted\<close>

definition both_ok :: "(bytes \<Rightarrow> bool) \<Rightarrow> (semi_join_side \<Rightarrow> nat) \<Rightarrow> 'v cursors \<Rightarrow> bool" where
  "both_ok null n cs = (\<forall>side. cursor_ok null (n side) (side_cur side cs))"

definition both_extend :: "'v cursors \<Rightarrow> 'v cursors \<Rightarrow> bool" where
  "both_extend cs cs' = (\<forall>side. extends (side_cur side cs) (side_cur side cs'))"

definition probe_pending_ok :: "probe_kind \<Rightarrow> 'v probe_joiner \<Rightarrow> 'v cursors \<Rightarrow> bool" where
  "probe_pending_ok kind s cs = (interleave (batches (side_cur (out_side kind) cs)) (indices s) \<noteq> None
     \<and> (kind = ExistenceJoiner \<longrightarrow> length (exists_flags s) = length (indices s)))"

definition probe_emitted :: "(bool \<Rightarrow> 'v) \<Rightarrow> probe_kind \<Rightarrow> 'v probe_joiner \<Rightarrow> 'v cursors \<Rightarrow> 'v row multiset" where
  "probe_emitted bool_cell kind s cs = mset (concat (p_sent s))
     + (let rows = the (interleave (batches (side_cur (out_side kind) cs)) (indices s))
        in case kind of
             ExistenceJoiner \<Rightarrow> mset (map2 (\<lambda>row e. row @ [Some (bool_cell e)]) rows (exists_flags s))
           | _ \<Rightarrow> mset rows)"

lemma side_cur_set [simp]: "side_cur a (set_cur b c cs) = (if a = b then c else side_cur a cs)"
  by (cases a; cases b) simp_all

lemma other_neq [simp]: "other side \<noteq> side" "side \<noteq> other side"
  by (cases side; simp)+

lemma both_ok_set: "both_ok null n cs \<Longrightarrow> cursor_ok null (n side) c \<Longrightarrow> both_ok null n (set_cur side c cs)"
  by (simp add: both_ok_def)

lemma both_extend_set: "extends (side_cur side cs) c \<Longrightarrow> both_extend cs (set_cur side c cs)"
  by (simp add: both_extend_def)

lemma both_extend_refl [simp]: "both_extend cs cs"
  by (simp add: both_extend_def)

lemma both_extend_trans: "both_extend a b \<Longrightarrow> both_extend b c \<Longrightarrow> both_extend a c"
  unfolding both_extend_def by (blast intro: extends_trans)

lemma probe_extends:
  assumes "probe_pending_ok kind s cs" and "both_extend cs cs'"
  shows "probe_pending_ok kind s cs'" and "probe_emitted bc kind s cs' = probe_emitted bc kind s cs"
proof -
  from assms(2) have "extends (side_cur (out_side kind) cs) (side_cur (out_side kind) cs')" by (simp add: both_extend_def)
  from interleave_extends [OF this] assms(1)
  show "probe_pending_ok kind s cs'" "probe_emitted bc kind s cs' = probe_emitted bc kind s cs"
    by (fastforce simp: probe_pending_ok_def probe_emitted_def)+
qed

lemma probe_no_pending:
  assumes "indices s = []" and "exists_flags s = []"
  shows "probe_pending_ok kind s cs" and "probe_emitted bc kind s cs = mset (concat (p_sent s))"
  using assms by (cases kind; simp add: probe_pending_ok_def probe_emitted_def)+

lemma emits_side: "emits kind side m \<Longrightarrow> side = out_side kind"
  by (cases kind) auto

lemma push_row_ok:
  assumes pend: "probe_pending_ok kind s cs" and row: "row_at (batches (side_cur side cs)) ix = Some r"
  shows "probe_pending_ok kind (push_row kind side m ix s) cs"
    and "probe_emitted bc kind (push_row kind side m ix s) cs = contrib bc kind side m r + probe_emitted bc kind s cs"
proof -
  obtain rows where rows: "interleave (batches (side_cur (out_side kind) cs)) (indices s) = Some rows"
    using pend by (auto simp: probe_pending_ok_def)
  then have len: "length rows = length (indices s)" by (rule interleave_length)
  have "probe_pending_ok kind (push_row kind side m ix s) cs
    \<and> probe_emitted bc kind (push_row kind side m ix s) cs = contrib bc kind side m r + probe_emitted bc kind s cs"
  proof (cases "emits kind side m")
    case True
    from emits_side [OF True] row rows have
      "interleave (batches (side_cur (out_side kind) cs)) (indices s @ [ix]) = Some (rows @ [r])"
      by (simp add: interleave_append interleave_Cons)
    with True pend rows len show ?thesis
      by (cases kind) (simp_all add: probe_pending_ok_def probe_emitted_def push_row_def contrib_def)
  next
    case False
    with pend show ?thesis by (simp add: push_row_def contrib_def)
  qed
  then show "probe_pending_ok kind (push_row kind side m ix s) cs"
    "probe_emitted bc kind (push_row kind side m ix s) cs = contrib bc kind side m r + probe_emitted bc kind s cs"
    by blast+
qed

lemma probe_flush_ok:
  assumes "probe_pending_ok kind s cs"
  shows "\<exists>s'. probe_flush bc kind cs s = Some s' \<and> indices s' = [] \<and> exists_flags s' = []
    \<and> mset (concat (p_sent s')) = probe_emitted bc kind s cs"
proof -
  obtain rows where rows: "interleave (batches (side_cur (out_side kind) cs)) (indices s) = Some rows"
    using assms by (auto simp: probe_pending_ok_def)
  then have len: "length rows = length (indices s)" by (rule interleave_length)
  show ?thesis
    using assms rows len by (cases kind) (auto simp: probe_flush_def probe_emitted_def probe_pending_ok_def)
qed

text \<open>After a push: flush and drop old batches, or go on.\<close>

lemma flush_clean_ok:
  assumes "probe_pending_ok kind s cs" and "both_ok null n cs"
  shows "\<exists>s'. probe_flush bc kind cs s = Some s'
    \<and> both_ok null n (set_cur side (clean_out_dated_batches (side_cur side cs)) cs)
    \<and> probe_pending_ok kind s' (set_cur side (clean_out_dated_batches (side_cur side cs)) cs)
    \<and> probe_emitted bc kind s' (set_cur side (clean_out_dated_batches (side_cur side cs)) cs) = probe_emitted bc kind s cs"
proof -
  from probe_flush_ok [OF assms(1), of bc] obtain s' where s': "probe_flush bc kind cs s = Some s'" "indices s' = []"
    "exists_flags s' = []" "mset (concat (p_sent s')) = probe_emitted bc kind s cs" by blast
  have "cursor_ok null (n side) (clean_out_dated_batches (side_cur side cs))"
    using assms(2) by (intro clean_ok) (simp add: both_ok_def)
  with s' probe_no_pending [OF s'(2,3)] both_ok_set [OF assms(2)] show ?thesis by auto
qed

section \<open>Rows with the same key\<close>

text \<open>
  From \<open>(s, cs)\<close> to \<open>(s', cs')\<close> the rows \<open>g\<close> of one side, all with key \<open>k\<close>, were passed as matched
  rows; the other cursor stays where it is.
\<close>

definition passed ::
  "(bytes \<Rightarrow> bool) \<Rightarrow> (semi_join_side \<Rightarrow> nat) \<Rightarrow> (bool \<Rightarrow> 'v) \<Rightarrow> probe_kind \<Rightarrow> semi_join_side \<Rightarrow> bytes \<Rightarrow> (bytes \<times> 'v row) list
   \<Rightarrow> 'v probe_joiner \<Rightarrow> 'v cursors \<Rightarrow> 'v probe_joiner \<Rightarrow> 'v cursors \<Rightarrow> bool" where
  "passed null n bc kind side k g s cs s' cs' =
     (both_ok null n cs' \<and> probe_pending_ok kind s' cs' \<and> side_cur (other side) cs' = side_cur (other side) cs
      \<and> remaining (side_cur side cs) = g @ remaining (side_cur side cs') \<and> (\<forall>x \<in> set g. fst x = k)
      \<and> probe_emitted bc kind s' cs' = matched_sum bc kind side g + probe_emitted bc kind s cs)"

lemma advance_ok:
  assumes ch: "checks checker null" and ok: "both_ok null n cs" and pend: "probe_pending_ok kind s cs"
    and nf: "\<not> finished (side_cur side cs)"
  shows "\<exists>k r rest c'. remaining (side_cur side cs) = (k, r) # rest \<and> cur_key (side_cur side cs) = Some k
    \<and> cursor_next checker (side_cur side cs) = Some c' \<and> both_ok null n (set_cur side c' cs)
    \<and> both_extend cs (set_cur side c' cs) \<and> remaining c' = rest
    \<and> (\<forall>m. probe_pending_ok kind (push_row kind side m (cur_idx (side_cur side cs)) s) (set_cur side c' cs)
         \<and> probe_emitted bc kind (push_row kind side m (cur_idx (side_cur side cs)) s) (set_cur side c' cs)
           = contrib bc kind side m r + probe_emitted bc kind s cs)"
proof -
  have c: "cursor_ok null (n side) (side_cur side cs)" using ok by (simp add: both_ok_def)
  from cursor_current [OF c nf] obtain k r rest where cur: "remaining (side_cur side cs) = (k, r) # rest"
    "cur_key (side_cur side cs) = Some k" "row_at (batches (side_cur side cs)) (cur_idx (side_cur side cs)) = Some r" by blast
  from cursor_next_ok [OF ch c nf] cur(1) obtain c' where c': "cursor_next checker (side_cur side cs) = Some c'"
    "cursor_ok null (n side) c'" "remaining c' = rest" "extends (side_cur side cs) c'" by auto
  have e: "both_extend cs (set_cur side c' cs)" by (rule both_extend_set [OF c'(4)])
  note pe = probe_extends [OF pend e]
  have "row_at (batches (side_cur side (set_cur side c' cs))) (cur_idx (side_cur side cs)) = Some r"
    using row_at_extends [OF c'(4) cur(3)] by simp
  note pr = push_row_ok [OF pe(1) this]
  show ?thesis
    using cur(1,2) c'(1,3) both_ok_set [OF ok c'(2)] e pr pe(2) [of bc] by simp
qed

lemma step_probe_ok:
  assumes ch: "checks checker null" and ok: "both_ok null n cs" and pend: "probe_pending_ok kind s cs"
    and k: "key (side_cur side cs) ki = Some k"
  shows "\<exists>eq s' cs' g. step_probe checker kind side ki s cs = Some (eq, s', cs') \<and> passed null n bc kind side k g s cs s' cs'
    \<and> both_extend cs cs' \<and> (eq \<or> stops k (remaining (side_cur side cs'))) \<and> (eq \<longrightarrow> g \<noteq> [])"
proof (cases "stops k (remaining (side_cur side cs))")
  case True
  have c: "cursor_ok null (n side) (side_cur side cs)" using ok by (simp add: both_ok_def)
  have "step_probe checker kind side ki s cs = Some (False, s, cs)"
  proof (cases "finished (side_cur side cs)")
    case False
    with cursor_current [OF c False] True k show ?thesis by (auto simp: step_probe_def stops_def)
  qed (simp add: step_probe_def)
  moreover have "passed null n bc kind side k [] s cs s cs" using ok pend by (simp add: passed_def)
  ultimately show ?thesis using True by fastforce
next
  case False
  then have nf: "\<not> finished (side_cur side cs)"
    using ok remaining_Nil_iff [of null "n side" "side_cur side cs"] by (auto simp: stops_def both_ok_def)
  from advance_ok [OF ch ok pend nf, of bc] False obtain r rest c' where
    a: "remaining (side_cur side cs) = (k, r) # rest" "cur_key (side_cur side cs) = Some k"
    "cursor_next checker (side_cur side cs) = Some c'" "both_ok null n (set_cur side c' cs)"
    "both_extend cs (set_cur side c' cs)" "remaining c' = rest"
    "\<forall>m. probe_pending_ok kind (push_row kind side m (cur_idx (side_cur side cs)) s) (set_cur side c' cs)
         \<and> probe_emitted bc kind (push_row kind side m (cur_idx (side_cur side cs)) s) (set_cur side c' cs)
           = contrib bc kind side m r + probe_emitted bc kind s cs" by (auto simp: stops_def)
  let ?s = "push_row kind side True (cur_idx (side_cur side cs)) s"
  have "step_probe checker kind side ki s cs = Some (True, ?s, set_cur side c' cs)"
    using nf a(2,3) k by (simp add: step_probe_def)
  moreover have "passed null n bc kind side k [(k, r)] s cs ?s (set_cur side c' cs)"
    using a by (simp add: passed_def)
  ultimately show ?thesis using a(5) by blast
qed

lemma stream_probe_ok:
  assumes ch: "checks checker null"
  shows "both_ok null n cs \<Longrightarrow> probe_pending_ok kind s cs \<Longrightarrow> key (side_cur (other side) cs) ki = Some k \<Longrightarrow>
    \<exists>s' cs' g. stream_probe checker bc bsize kind side ki s cs = Some (s', cs') \<and> passed null n bc kind side k g s cs s' cs'
      \<and> stops k (remaining (side_cur side cs'))"
proof (induction "length (remaining (side_cur side cs))" arbitrary: s cs rule: less_induct)
  case less
  note ok = less.prems(1) and pend = less.prems(2) and k = less.prems(3)
  show ?case
  proof (cases "stops k (remaining (side_cur side cs))")
    case True
    have c: "cursor_ok null (n side) (side_cur side cs)" using ok by (simp add: both_ok_def)
    have "stream_probe checker bc bsize kind side ki s cs = Some (s, cs)"
    proof (cases "finished (side_cur side cs)")
      case False
      with cursor_current [OF c False] True k show ?thesis
        by (subst stream_probe.simps) (auto simp: stops_def)
    qed (simp add: stream_probe.simps)
    moreover have "passed null n bc kind side k [] s cs s cs" using ok pend by (simp add: passed_def)
    ultimately show ?thesis using True by blast
  next
    case False
    then have nf: "\<not> finished (side_cur side cs)"
      using ok remaining_Nil_iff [of null "n side" "side_cur side cs"] by (auto simp: stops_def both_ok_def)
    from advance_ok [OF ch ok pend nf, of bc] False obtain r rest c' where
      a: "remaining (side_cur side cs) = (k, r) # rest" "cur_key (side_cur side cs) = Some k"
      "cursor_next checker (side_cur side cs) = Some c'" "both_ok null n (set_cur side c' cs)" "remaining c' = rest"
      "\<forall>m. probe_pending_ok kind (push_row kind side m (cur_idx (side_cur side cs)) s) (set_cur side c' cs)
         \<and> probe_emitted bc kind (push_row kind side m (cur_idx (side_cur side cs)) s) (set_cur side c' cs)
           = contrib bc kind side m r + probe_emitted bc kind s cs" by (auto simp: stops_def)
    define s1 where "s1 = push_row kind side True (cur_idx (side_cur side cs)) s"
    have p1: "probe_pending_ok kind s1 (set_cur side c' cs)"
      "probe_emitted bc kind s1 (set_cur side c' cs) = contrib bc kind side True r + probe_emitted bc kind s cs"
      using a(6) by (simp_all add: s1_def)
    have "\<exists>s2 d. stream_probe checker bc bsize kind side ki s cs = stream_probe checker bc bsize kind side ki s2 (set_cur side d cs)
        \<and> both_ok null n (set_cur side d cs) \<and> probe_pending_ok kind s2 (set_cur side d cs) \<and> remaining d = rest
        \<and> probe_emitted bc kind s2 (set_cur side d cs) = probe_emitted bc kind s1 (set_cur side c' cs)"
    proof (cases "probe_should_flush bsize s1 \<or> num_buffered_batches c' > 1")
      case True
      from flush_clean_ok [OF p1(1) a(4), of bc side] obtain s2 where
        s2: "probe_flush bc kind (set_cur side c' cs) s1 = Some s2"
        "both_ok null n (set_cur side (clean_out_dated_batches c') (set_cur side c' cs))"
        "probe_pending_ok kind s2 (set_cur side (clean_out_dated_batches c') (set_cur side c' cs))"
        "probe_emitted bc kind s2 (set_cur side (clean_out_dated_batches c') (set_cur side c' cs))
          = probe_emitted bc kind s1 (set_cur side c' cs)" by auto
      have ss: "set_cur side d (set_cur side c' cs) = set_cur side d cs" for d by (cases side) simp_all
      have "stream_probe checker bc bsize kind side ki s cs
          = stream_probe checker bc bsize kind side ki s2 (set_cur side (clean_out_dated_batches c') cs)"
        using nf a(2,3) k True s2(1) by (subst stream_probe.simps) (simp add: s1_def [symmetric])
      moreover have "cursor_ok null (n side) (side_cur side (set_cur side c' cs))"
        using a(4) unfolding both_ok_def by blast
      from clean_ok(2) [OF this] have "remaining (clean_out_dated_batches c') = rest" using a(5) by simp
      ultimately show ?thesis using s2 unfolding ss by blast
    next
      case False
      have "stream_probe checker bc bsize kind side ki s cs = stream_probe checker bc bsize kind side ki s1 (set_cur side c' cs)"
        using nf a(2,3) k False by (subst stream_probe.simps) (auto simp: s1_def [symmetric])
      then show ?thesis using a(4,5) p1(1) by blast
    qed
    then obtain s2 d where s2:
      "stream_probe checker bc bsize kind side ki s cs = stream_probe checker bc bsize kind side ki s2 (set_cur side d cs)"
      "both_ok null n (set_cur side d cs)" "probe_pending_ok kind s2 (set_cur side d cs)" "remaining d = rest"
      "probe_emitted bc kind s2 (set_cur side d cs) = probe_emitted bc kind s1 (set_cur side c' cs)" by blast
    have "length (remaining (side_cur side (set_cur side d cs))) < length (remaining (side_cur side cs))" using s2(4) a(1) by simp
    from less.hyps [OF this s2(2,3)] k obtain s' cs' g where
      IH: "stream_probe checker bc bsize kind side ki s2 (set_cur side d cs) = Some (s', cs')"
      "passed null n bc kind side k g s2 (set_cur side d cs) s' cs'" "stops k (remaining (side_cur side cs'))" by auto
    have "passed null n bc kind side k ((k, r) # g) s cs s' cs'"
      using IH(2) s2(4,5) p1(2) a(1) by (simp add: passed_def ac_simps)
    with IH(1,3) s2(1) show ?thesis by metis
  qed
qed


lemma passed_other: "passed null n bc kind side k g s cs s' cs' \<Longrightarrow> remaining (side_cur (other side) cs') = remaining (side_cur (other side) cs)"
  by (simp add: passed_def)

lemma key_both_extend: "both_extend cs cs' \<Longrightarrow> key (side_cur side cs) ki = Some k \<Longrightarrow> key (side_cur side cs') ki = Some k"
  unfolding both_extend_def by (blast intro: key_extends)

text \<open>Both sides together: \<open>gl\<close> and \<open>gr\<close> were passed.\<close>

definition both_passed ::
  "(bytes \<Rightarrow> bool) \<Rightarrow> (semi_join_side \<Rightarrow> nat) \<Rightarrow> (bool \<Rightarrow> 'v) \<Rightarrow> probe_kind \<Rightarrow> bytes \<Rightarrow> (bytes \<times> 'v row) list \<Rightarrow> (bytes \<times> 'v row) list
   \<Rightarrow> 'v probe_joiner \<Rightarrow> 'v cursors \<Rightarrow> 'v probe_joiner \<Rightarrow> 'v cursors \<Rightarrow> bool" where
  "both_passed null n bc kind k gl gr s cs s' cs' =
     (both_ok null n cs' \<and> probe_pending_ok kind s' cs'
      \<and> remaining (fst cs) = gl @ remaining (fst cs') \<and> remaining (snd cs) = gr @ remaining (snd cs')
      \<and> (\<forall>x \<in> set gl \<union> set gr. fst x = k)
      \<and> probe_emitted bc kind s' cs' = matched_sum bc kind SideL gl + matched_sum bc kind SideR gr + probe_emitted bc kind s cs)"

lemma both_passed_trans:
  "both_passed null n bc kind k gl gr s cs s1 cs1 \<Longrightarrow> both_passed null n bc kind k hl hr s1 cs1 s2 cs2 \<Longrightarrow>
   both_passed null n bc kind k (gl @ hl) (gr @ hr) s cs s2 cs2"
  by (auto simp: both_passed_def ac_simps)

lemma both_passed_left: "passed null n bc kind SideL k g s cs s' cs' \<Longrightarrow> both_passed null n bc kind k g [] s cs s' cs'"
  by (simp add: passed_def both_passed_def)

lemma both_passed_right: "passed null n bc kind SideR k g s cs s' cs' \<Longrightarrow> both_passed null n bc kind k [] g s cs s' cs'"
  by (simp add: passed_def both_passed_def)

lemma probe_equal_ok:
  assumes ch: "checks checker null"
  shows "both_ok null n cs \<Longrightarrow> probe_pending_ok kind s cs \<Longrightarrow> key (fst cs) lk = Some k \<Longrightarrow> key (snd cs) rk = Some k \<Longrightarrow>
    \<exists>le re s' cs' gl gr. probe_equal checker kind lk rk True True s cs = Some (le, re, s', cs')
      \<and> both_passed null n bc kind k gl gr s cs s' cs' \<and> both_extend cs cs' \<and> \<not> (le \<and> re)
      \<and> (le \<or> stops k (remaining (fst cs'))) \<and> (re \<or> stops k (remaining (snd cs')))"
proof (induction "length (remaining (fst cs))" arbitrary: s cs rule: less_induct)
  case less
  from step_probe_ok [OF ch less.prems(1,2), of SideL lk k bc] less.prems(3) obtain le s1 cs1 gl where
    l: "step_probe checker kind SideL lk s cs = Some (le, s1, cs1)" "passed null n bc kind SideL k gl s cs s1 cs1"
    "both_extend cs cs1" "le \<or> stops k (remaining (fst cs1))" "le \<longrightarrow> gl \<noteq> []" by auto
  have ok1: "both_ok null n cs1" "probe_pending_ok kind s1 cs1" using l(2) by (simp_all add: passed_def)
  have k1: "key (snd cs1) rk = Some k" using key_both_extend [OF l(3), of SideR rk k] less.prems(4) by simp
  from step_probe_ok [OF ch ok1, of SideR rk k bc] k1 obtain re s2 cs2 gr where
    r: "step_probe checker kind SideR rk s1 cs1 = Some (re, s2, cs2)" "passed null n bc kind SideR k gr s1 cs1 s2 cs2"
    "both_extend cs1 cs2" "re \<or> stops k (remaining (snd cs2))" "re \<longrightarrow> gr \<noteq> []" by auto
  have step: "probe_equal checker kind lk rk True True s cs = probe_equal checker kind lk rk le re s2 cs2"
    using l(1) r(1) by (subst probe_equal.simps) simp
  have e: "both_extend cs cs2" using l(3) r(3) by (rule both_extend_trans)
  have bp: "both_passed null n bc kind k gl gr s cs s2 cs2"
    using both_passed_trans [OF both_passed_left [OF l(2)] both_passed_right [OF r(2)]] by simp
  have st: "le \<or> stops k (remaining (fst cs2))" using l(4) passed_other [OF r(2)] by simp
  show ?case
  proof (cases "le \<and> re")
    case False
    then have "probe_equal checker kind lk rk le re s2 cs2 = Some (le, re, s2, cs2)" by (subst probe_equal.simps) auto
    with step bp e False st r(4) show ?thesis by auto
  next
    case True
    have "length (remaining (fst cs2)) < length (remaining (fst cs))"
      using l(2,5) passed_other [OF r(2)] True by (auto simp: passed_def)
    moreover have "both_ok null n cs2" "probe_pending_ok kind s2 cs2" using r(2) by (simp_all add: passed_def)
    moreover have "key (fst cs2) lk = Some k" "key (snd cs2) rk = Some k"
      using key_both_extend [OF e, of SideL lk k] key_both_extend [OF e, of SideR rk k] less.prems(3,4) by simp_all
    ultimately obtain le' re' s' cs' hl hr where IH: "probe_equal checker kind lk rk True True s2 cs2 = Some (le', re', s', cs')"
      "both_passed null n bc kind k hl hr s2 cs2 s' cs'" "both_extend cs2 cs'" "\<not> (le' \<and> re')"
      "le' \<or> stops k (remaining (fst cs'))" "re' \<or> stops k (remaining (snd cs'))" using less.hyps by blast
    then show ?thesis
      using step True both_passed_trans [OF bp IH(2)] both_extend_trans [OF e IH(3)] by auto
  qed
qed

lemma probe_join_equal_ok:
  assumes ch: "checks checker null" and ok: "both_ok null n cs" and pend: "probe_pending_ok kind s cs"
    and rem: "remaining (fst cs) = (k, l) # xs" "remaining (snd cs) = (k, r) # ys"
  shows "\<exists>s' cs' gl gr. probe_join_equal checker bc bsize kind s cs = Some (s', cs')
    \<and> both_passed null n bc kind k gl gr s cs s' cs' \<and> gl \<noteq> [] \<and> gr \<noteq> []
    \<and> stops k (remaining (fst cs')) \<and> stops k (remaining (snd cs'))"
proof -
  let ?lk = "cur_idx (fst cs)" and ?rk = "cur_idx (snd cs)"
  have c: "cursor_ok null (n SideL) (fst cs)" "cursor_ok null (n SideR) (snd cs)"
    using ok unfolding both_ok_def by (metis side_cur.simps)+
  then have nf: "\<not> finished (fst cs)" "\<not> finished (snd cs)" using rem by (simp_all add: remaining_Nil_iff)
  have keys: "key (fst cs) ?lk = Some k" "key (snd cs) ?rk = Some k"
    using cursor_current [OF c(1) nf(1)] cursor_current [OF c(2) nf(2)] rem by auto
  from advance_ok [OF ch ok pend, of SideL bc] nf rem obtain c1 where
    a: "cursor_next checker (fst cs) = Some c1" "both_ok null n (c1, snd cs)" "both_extend cs (c1, snd cs)" "remaining c1 = xs"
    "probe_pending_ok kind (push_row kind SideL True ?lk s) (c1, snd cs)"
    "probe_emitted bc kind (push_row kind SideL True ?lk s) (c1, snd cs) = contrib bc kind SideL True l + probe_emitted bc kind s cs"
    by auto
  from advance_ok [OF ch a(2,5), of SideR bc] nf rem obtain c2 where
    b: "cursor_next checker (snd cs) = Some c2" "both_ok null n (c1, c2)" "both_extend (c1, snd cs) (c1, c2)" "remaining c2 = ys"
    "probe_pending_ok kind (push_row kind SideR True ?rk (push_row kind SideL True ?lk s)) (c1, c2)"
    "probe_emitted bc kind (push_row kind SideR True ?rk (push_row kind SideL True ?lk s)) (c1, c2)
      = contrib bc kind SideR True r + probe_emitted bc kind (push_row kind SideL True ?lk s) (c1, snd cs)" by auto
  define s0 where "s0 = push_row kind SideR True ?rk (push_row kind SideL True ?lk s)"
  have bp0: "both_passed null n bc kind k [(k, l)] [(k, r)] s cs s0 (c1, c2)"
    using a b rem by (simp add: both_passed_def s0_def ac_simps)
  have e0: "both_extend cs (c1, c2)" using a(3) b(3) by (rule both_extend_trans)
  have k0: "key c1 ?lk = Some k" "key c2 ?rk = Some k"
    using key_both_extend [OF e0, of SideL ?lk k] key_both_extend [OF e0, of SideR ?rk k] keys by simp_all
  from probe_equal_ok [OF ch b(2), of kind s0 ?lk k ?rk bc] b(5) k0 obtain le re s1 cs1 gl gr where
    pe: "probe_equal checker kind ?lk ?rk True True s0 (c1, c2) = Some (le, re, s1, cs1)"
    "both_passed null n bc kind k gl gr s0 (c1, c2) s1 cs1" "both_extend (c1, c2) cs1" "\<not> (le \<and> re)"
    "le \<or> stops k (remaining (fst cs1))" "re \<or> stops k (remaining (snd cs1))" by (auto simp: s0_def)
  have k1: "key (fst cs1) ?lk = Some k" "key (snd cs1) ?rk = Some k"
    using key_both_extend [OF pe(3), of SideL ?lk k] key_both_extend [OF pe(3), of SideR ?rk k] k0 by simp_all
  have ok1: "both_ok null n cs1" "probe_pending_ok kind s1 cs1" using pe(2) by (simp_all add: both_passed_def)
  note bp1 = both_passed_trans [OF bp0 pe(2)]
  have run: "probe_join_equal checker bc bsize kind s cs =
      do { (s2, cs2) \<leftarrow> (if le then stream_probe checker bc bsize kind SideL ?rk s1 cs1 else Some (s1, cs1));
           (if re then stream_probe checker bc bsize kind SideR ?lk s2 cs2 else Some (s2, cs2)) }"
    by (simp only: probe_join_equal_def Let_def a(1) b(1) bind.bind_lunit s0_def [symmetric] pe(1) prod.case)
  consider "le" "\<not> re" | "re" "\<not> le" | "\<not> le" "\<not> re" using pe(4) by blast
  then show ?thesis
  proof cases
    case 1
    from stream_probe_ok [OF ch ok1, of SideL ?rk k bc bsize] k1 obtain s' cs' g where
      p: "stream_probe checker bc bsize kind SideL ?rk s1 cs1 = Some (s', cs')" "passed null n bc kind SideL k g s1 cs1 s' cs'"
      "stops k (remaining (fst cs'))" by auto
    with run 1 pe(6) both_passed_trans [OF bp1 both_passed_left [OF p(2)]] passed_other [OF p(2)] show ?thesis by auto
  next
    case 2
    from stream_probe_ok [OF ch ok1, of SideR ?lk k bc bsize] k1 obtain s' cs' g where
      p: "stream_probe checker bc bsize kind SideR ?lk s1 cs1 = Some (s', cs')" "passed null n bc kind SideR k g s1 cs1 s' cs'"
      "stops k (remaining (snd cs'))" by auto
    with run 2 pe(5) both_passed_trans [OF bp1 both_passed_right [OF p(2)]] passed_other [OF p(2)] show ?thesis by auto
  next
    case 3
    with run pe(5,6) bp1 show ?thesis by auto
  qed
qed

section \<open>The whole join\<close>

lemma probe_flush_if_needed_ok:
  assumes pend: "probe_pending_ok kind s cs" and ok: "both_ok null n cs"
  shows "\<exists>s' cs'. probe_flush_if_needed bc bsize kind s cs = Some (s', cs') \<and> both_ok null n cs' \<and> probe_pending_ok kind s' cs'
    \<and> remaining (fst cs') = remaining (fst cs) \<and> remaining (snd cs') = remaining (snd cs)
    \<and> probe_emitted bc kind s' cs' = probe_emitted bc kind s cs"
proof (cases "probe_should_flush bsize s \<or> num_buffered_batches (fst cs) > 1 \<or> num_buffered_batches (snd cs) > 1")
  case True
  from probe_flush_ok [OF pend, of bc] obtain s' where s': "probe_flush bc kind cs s = Some s'" "indices s' = []" "exists_flags s' = []"
    "mset (concat (p_sent s')) = probe_emitted bc kind s cs" by blast
  have c: "cursor_ok null (n SideL) (fst cs)" "cursor_ok null (n SideR) (snd cs)"
    using ok unfolding both_ok_def by (metis side_cur.simps)+
  have "cursor_ok null (n side) (side_cur side (clean_out_dated_batches (fst cs), clean_out_dated_batches (snd cs)))" for side
    using clean_ok(1) [OF c(1)] clean_ok(1) [OF c(2)] by (cases side) simp_all
  then have "both_ok null n (clean_out_dated_batches (fst cs), clean_out_dated_batches (snd cs))" by (simp add: both_ok_def)
  with True s' probe_no_pending [OF s'(2,3)] clean_ok(2) [OF c(1)] clean_ok(2) [OF c(2)] show ?thesis
    by (simp add: probe_flush_if_needed_def)
next
  case False
  with assms show ?thesis by (simp add: probe_flush_if_needed_def)
qed

lemma probe_join_loop_ok:
  assumes ch: "checks checker null"
  shows "both_ok null n cs \<Longrightarrow> probe_pending_ok kind s cs \<Longrightarrow>
    sorted (map fst (remaining (fst cs))) \<Longrightarrow> sorted (map fst (remaining (snd cs))) \<Longrightarrow>
    \<exists>s' cs'. probe_join_loop checker bc bsize kind s cs = Some (s', cs') \<and> both_ok null n cs' \<and> probe_pending_ok kind s' cs'
      \<and> (remaining (fst cs') = [] \<or> remaining (snd cs') = [])
      \<and> probe_emitted bc kind s' cs' + probe_spec null bc kind (remaining (fst cs')) (remaining (snd cs'))
        = probe_emitted bc kind s cs + probe_spec null bc kind (remaining (fst cs)) (remaining (snd cs))"
proof (induction "length (remaining (fst cs)) + length (remaining (snd cs))" arbitrary: s cs rule: less_induct)
  case less
  let ?J = "probe_spec null bc kind"
  have c: "cursor_ok null (n SideL) (fst cs)" "cursor_ok null (n SideR) (snd cs)"
    using less.prems(1) unfolding both_ok_def by (metis side_cur.simps)+
  note fin = remaining_Nil_iff [OF c(1)] remaining_Nil_iff [OF c(2)]
  show ?case
  proof (cases "finished (fst cs) \<or> finished (snd cs)")
    case True
    then have "probe_join_loop checker bc bsize kind s cs = Some (s, cs)" by (subst probe_join_loop.simps) auto
    with True less.prems fin show ?thesis by auto
  next
    case False
    from probe_flush_if_needed_ok [OF less.prems(2,1), of bc bsize] obtain t a1 a2 where
      a: "probe_flush_if_needed bc bsize kind s cs = Some (t, (a1, a2))" "both_ok null n (a1, a2)" "probe_pending_ok kind t (a1, a2)"
      "remaining a1 = remaining (fst cs)" "remaining a2 = remaining (snd cs)"
      "probe_emitted bc kind t (a1, a2) = probe_emitted bc kind s cs" by auto
    obtain lk l xs rk r ys where rem: "remaining (fst cs) = (lk, l) # xs" "remaining (snd cs) = (rk, r) # ys"
      using False fin by (cases "remaining (fst cs)"; cases "remaining (snd cs)") auto
    have ca: "cursor_ok null (n SideL) a1" "cursor_ok null (n SideR) a2"
      using a(2) unfolding both_ok_def by (metis side_cur.simps fst_conv snd_conv)+
    then have nf: "\<not> finished a1" "\<not> finished a2" using a rem by (simp_all add: remaining_Nil_iff)
    from advance_ok [OF ch a(2,3), of SideL bc] nf a(4) rem obtain b1 where
      b1: "cursor_next checker a1 = Some b1" "both_ok null n (b1, a2)" "remaining b1 = xs"
      "probe_pending_ok kind (push_row kind SideL False (cur_idx a1) t) (b1, a2)"
      "probe_emitted bc kind (push_row kind SideL False (cur_idx a1) t) (b1, a2)
        = contrib bc kind SideL False l + probe_emitted bc kind t (a1, a2)" by auto
    from advance_ok [OF ch a(2,3), of SideR bc] nf a(5) rem obtain b2 where
      b2: "cursor_next checker a2 = Some b2" "both_ok null n (a1, b2)" "remaining b2 = ys"
      "probe_pending_ok kind (push_row kind SideR False (cur_idx a2) t) (a1, b2)"
      "probe_emitted bc kind (push_row kind SideR False (cur_idx a2) t) (a1, b2)
        = contrib bc kind SideR False r + probe_emitted bc kind t (a1, a2)" by auto
    have srt: "sorted (map fst xs)" "\<forall>x \<in> set xs. lk \<le> fst x" "sorted (map fst ys)" "\<forall>y \<in> set ys. rk \<le> fst y"
      using less.prems(3,4) rem by auto
    have cmp: "compare_cursor a1 a2 = Some (if null lk then Less else if null rk then Greater
        else if lk < rk then Less else if lk = rk then Equal else Greater)"
      by (rule compare_cursor_ok [OF ca]) (use a(4,5) rem in auto)
    have next_state: ?thesis
      if run: "probe_join_loop checker bc bsize kind s cs = probe_join_loop checker bc bsize kind t' d"
        and ok: "both_ok null n d" "probe_pending_ok kind t' d"
          "sorted (map fst (remaining (fst d)))" "sorted (map fst (remaining (snd d)))"
        and smaller: "length (remaining (fst d)) + length (remaining (snd d)) < length (remaining (fst cs)) + length (remaining (snd cs))"
        and inv: "probe_emitted bc kind t' d + ?J (remaining (fst d)) (remaining (snd d))
          = probe_emitted bc kind s cs + ?J (remaining (fst cs)) (remaining (snd cs))" for t' d
      using less.hyps [OF smaller ok] run inv by simp
    consider (less) "null lk \<or> (\<not> null rk \<and> lk < rk)" "compare_cursor a1 a2 = Some Less"
      | (greater) "\<not> null lk" "null rk \<or> rk < lk" "compare_cursor a1 a2 = Some Greater"
      | (equal) "\<not> null lk" "lk = rk" "compare_cursor a1 a2 = Some Equal"
      using cmp by (cases "null lk"; cases "null rk"; cases "lk < rk"; cases "lk = rk") auto
    then show ?thesis
    proof cases
      case less
      have "null lk \<or> lk \<notin> fst ` set ((rk, r) # ys)" using less(1) srt(4) by auto
      from probe_spec_less [where null = null and k = lk, OF this, of bc kind l xs] b1 a(5,6) srt(1) less.prems(4) rem show ?thesis
        by (intro next_state [of "push_row kind SideL False (cur_idx a1) t" "(b1, a2)"])
          (use False a(1) b1(1) less(2) in \<open>subst probe_join_loop.simps, simp_all add: ac_simps\<close>)
    next
      case greater
      have "null rk \<or> rk \<notin> fst ` set ((lk, l) # xs)" using greater(2) srt(2) by auto
      from probe_spec_greater [where null = null and k = rk, OF this, of bc kind r ys] b2 a(4,6) srt(3) less.prems(3) rem show ?thesis
        by (intro next_state [of "push_row kind SideR False (cur_idx a2) t" "(a1, b2)"])
          (use False a(1) b2(1) greater(3) in \<open>subst probe_join_loop.simps, simp_all add: ac_simps\<close>)
    next
      case equal
      from probe_join_equal_ok [OF ch a(2,3), of lk l xs r ys bc bsize] a(4,5) rem equal(2) obtain t' d gl gr where
        d: "probe_join_equal checker bc bsize kind t (a1, a2) = Some (t', d)" "both_passed null n bc kind lk gl gr t (a1, a2) t' d"
        "gl \<noteq> []" "gr \<noteq> []" "stops lk (remaining (fst d))" "stops lk (remaining (snd d))" by auto
      have bp: "both_ok null n d" "probe_pending_ok kind t' d" "remaining (fst cs) = gl @ remaining (fst d)"
        "remaining (snd cs) = gr @ remaining (snd d)" "\<forall>x \<in> set gl. fst x = lk" "\<forall>x \<in> set gr. fst x = lk"
        "probe_emitted bc kind t' d = matched_sum bc kind SideL gl + matched_sum bc kind SideR gr + probe_emitted bc kind t (a1, a2)"
        using d(2) a(4,5) by (simp_all add: both_passed_def)
      have "lk \<notin> fst ` set (remaining (fst d))" "lk \<notin> fst ` set (remaining (snd d))"
        using stops_sorted [OF _ bp(5) d(3,5)] stops_sorted [OF _ bp(6) d(4,6)] less.prems(3,4) bp(3,4) by simp_all
      note je = probe_spec_equal [of null lk gl gr "remaining (fst d)" "remaining (snd d)" bc kind, OF equal(1) bp(5) d(3) bp(6) d(4) this]
      show ?thesis
      proof (rule next_state [OF _ bp(1,2)])
        show "probe_join_loop checker bc bsize kind s cs = probe_join_loop checker bc bsize kind t' d"
          using False a(1) equal(3) d(1) by (subst probe_join_loop.simps) simp
        show "sorted (map fst (remaining (fst d)))" "sorted (map fst (remaining (snd d)))"
          using less.prems(3,4) bp(3,4) by (simp_all add: sorted_append)
        show "length (remaining (fst d)) + length (remaining (snd d)) < length (remaining (fst cs)) + length (remaining (snd cs))"
          using d(3) bp(3,4) by simp
        show "probe_emitted bc kind t' d + ?J (remaining (fst d)) (remaining (snd d))
            = probe_emitted bc kind s cs + ?J (remaining (fst cs)) (remaining (snd cs))"
          unfolding bp(3,4) je bp(7) a(6) by (simp add: ac_simps)
      qed
    qed
  qed
qed


lemma drain_probe_ok:
  assumes ch: "checks checker null"
  shows "both_ok null n cs \<Longrightarrow> probe_pending_ok kind s cs \<Longrightarrow>
    \<exists>s' cs'. drain_probe checker bc bsize kind side s cs = Some (s', cs') \<and> both_ok null n cs' \<and> probe_pending_ok kind s' cs'
      \<and> remaining (side_cur (other side) cs') = remaining (side_cur (other side) cs)
      \<and> probe_emitted bc kind s' cs' = probe_emitted bc kind s cs
          + (\<Sum>x \<leftarrow> remaining (side_cur side cs). contrib bc kind side False (snd x))"
proof (induction "length (remaining (side_cur side cs))" arbitrary: s cs rule: less_induct)
  case less
  note ok = less.prems(1) and pend = less.prems(2)
  have c: "cursor_ok null (n side) (side_cur side cs)" using ok by (simp add: both_ok_def)
  show ?case
  proof (cases "emits kind side False \<and> \<not> finished (side_cur side cs)")
    case False
    have "drain_probe checker bc bsize kind side s cs = Some (s, cs)" using False by (subst drain_probe.simps) auto
    moreover have "(\<Sum>x \<leftarrow> remaining (side_cur side cs). contrib bc kind side False (snd x)) = {#}"
      using False remaining_Nil_iff [OF c] by (intro sum_empty) (auto simp: contrib_def)
    ultimately show ?thesis using ok pend by simp
  next
    case True
    then have nf: "\<not> finished (side_cur side cs)" by simp
    from advance_ok [OF ch ok pend nf, of bc] obtain k r rest c' where
      a: "remaining (side_cur side cs) = (k, r) # rest"
      "cursor_next checker (side_cur side cs) = Some c'" "both_ok null n (set_cur side c' cs)" "remaining c' = rest"
      "\<forall>m. probe_pending_ok kind (push_row kind side m (cur_idx (side_cur side cs)) s) (set_cur side c' cs)
         \<and> probe_emitted bc kind (push_row kind side m (cur_idx (side_cur side cs)) s) (set_cur side c' cs)
           = contrib bc kind side m r + probe_emitted bc kind s cs" by blast
    define s1 where "s1 = push_row kind side False (cur_idx (side_cur side cs)) s"
    have p1: "probe_pending_ok kind s1 (set_cur side c' cs)"
      "probe_emitted bc kind s1 (set_cur side c' cs) = contrib bc kind side False r + probe_emitted bc kind s cs"
      using a(5) by (simp_all add: s1_def)
    have "\<exists>s2 d. drain_probe checker bc bsize kind side s cs = drain_probe checker bc bsize kind side s2 (set_cur side d cs)
        \<and> both_ok null n (set_cur side d cs) \<and> probe_pending_ok kind s2 (set_cur side d cs) \<and> remaining d = rest
        \<and> probe_emitted bc kind s2 (set_cur side d cs) = probe_emitted bc kind s1 (set_cur side c' cs)"
    proof (cases "probe_should_flush bsize s1")
      case flush: True
      have ss: "set_cur side d (set_cur side c' cs) = set_cur side d cs" for d by (cases side) simp_all
      from flush_clean_ok [OF p1(1) a(3), of bc side] obtain s2 where
        s2: "probe_flush bc kind (set_cur side c' cs) s1 = Some s2"
        "both_ok null n (set_cur side (clean_out_dated_batches c') cs)"
        "probe_pending_ok kind s2 (set_cur side (clean_out_dated_batches c') cs)"
        "probe_emitted bc kind s2 (set_cur side (clean_out_dated_batches c') cs)
          = probe_emitted bc kind s1 (set_cur side c' cs)" by (auto simp: ss)
      have "drain_probe checker bc bsize kind side s cs
          = drain_probe checker bc bsize kind side s2 (set_cur side (clean_out_dated_batches c') cs)"
        using True a(2) flush s2(1) by (subst drain_probe.simps) (simp add: s1_def [symmetric])
      moreover have "cursor_ok null (n side) (side_cur side (set_cur side c' cs))"
        using a(3) unfolding both_ok_def by blast
      then have "cursor_ok null (n side) c'" by simp
      from clean_ok(2) [OF this] have "remaining (clean_out_dated_batches c') = rest" using a(4) by simp
      ultimately show ?thesis using s2 by blast
    next
      case False
      have "drain_probe checker bc bsize kind side s cs = drain_probe checker bc bsize kind side s1 (set_cur side c' cs)"
        using True a(2) False by (subst drain_probe.simps) (simp add: s1_def [symmetric])
      then show ?thesis using a(3,4) p1(1) by blast
    qed
    then obtain s2 d where s2:
      "drain_probe checker bc bsize kind side s cs = drain_probe checker bc bsize kind side s2 (set_cur side d cs)"
      "both_ok null n (set_cur side d cs)" "probe_pending_ok kind s2 (set_cur side d cs)" "remaining d = rest"
      "probe_emitted bc kind s2 (set_cur side d cs) = probe_emitted bc kind s1 (set_cur side c' cs)" by blast
    have "length (remaining (side_cur side (set_cur side d cs))) < length (remaining (side_cur side cs))" using s2(4) a(1) by simp
    from less.hyps [OF this s2(2,3)] s2(1,4,5) p1(2) a(1) show ?thesis by (auto simp: ac_simps)
  qed
qed

lemma probe_join_ok:
  assumes ch: "checks checker null" and ok: "both_ok null n cs" and pend: "probe_pending_ok kind s cs"
    and srt: "sorted (map fst (remaining (fst cs)))" "sorted (map fst (remaining (snd cs)))"
  shows "\<exists>s'. probe_join checker bc bsize kind s cs = Some s'
    \<and> mset (concat (p_sent s')) = probe_emitted bc kind s cs + probe_spec null bc kind (remaining (fst cs)) (remaining (snd cs))"
proof -
  from probe_join_loop_ok [OF ch ok pend srt, of bc bsize] obtain s1 cs1 where
    a: "probe_join_loop checker bc bsize kind s cs = Some (s1, cs1)" "both_ok null n cs1" "probe_pending_ok kind s1 cs1"
    "remaining (fst cs1) = [] \<or> remaining (snd cs1) = []"
    "probe_emitted bc kind s1 cs1 + probe_spec null bc kind (remaining (fst cs1)) (remaining (snd cs1))
      = probe_emitted bc kind s cs + probe_spec null bc kind (remaining (fst cs)) (remaining (snd cs))" by blast
  from drain_probe_ok [OF ch a(2,3), of bc bsize SideL] obtain s2 cs2 where
    b: "drain_probe checker bc bsize kind SideL s1 cs1 = Some (s2, cs2)" "both_ok null n cs2" "probe_pending_ok kind s2 cs2"
    "remaining (snd cs2) = remaining (snd cs1)"
    "probe_emitted bc kind s2 cs2 = probe_emitted bc kind s1 cs1 + (\<Sum>x \<leftarrow> remaining (fst cs1). contrib bc kind SideL False (snd x))"
    by auto
  from drain_probe_ok [OF ch b(2,3), of bc bsize SideR] obtain s3 cs3 where
    d: "drain_probe checker bc bsize kind SideR s2 cs2 = Some (s3, cs3)" "probe_pending_ok kind s3 cs3"
    "probe_emitted bc kind s3 cs3 = probe_emitted bc kind s2 cs2 + (\<Sum>x \<leftarrow> remaining (snd cs2). contrib bc kind SideR False (snd x))"
    by auto
  have total: "probe_emitted bc kind s3 cs3
      = probe_emitted bc kind s cs + probe_spec null bc kind (remaining (fst cs)) (remaining (snd cs))"
    using a(4,5) b(4,5) d(3) by (auto simp: probe_spec_Nil)
  have run: "probe_join checker bc bsize kind s cs = (if indices s3 \<noteq> [] then probe_flush bc kind cs3 s3 else Some s3)"
    by (simp only: probe_join_def a(1) bind.bind_lunit prod.case b(1) d(1))
  show ?thesis
  proof (cases "indices s3 = []")
    case True
    have "probe_emitted bc kind s3 cs3 = mset (concat (p_sent s3))"
      using True d(2) by (cases kind) (simp_all add: probe_emitted_def)
    with True run total show ?thesis by simp
  next
    case False
    with run total probe_flush_ok [OF d(2), of bc] show ?thesis by auto
  qed
qed

end
