(* ===== verification/Sort_Merge_Join.thy ===== *)
theory Sort_Merge_Join
  imports Smj_Semi_Join
begin

text \<open>
  The sort-merge join operator, \<open>sort_merge_join_exec.rs\<close>: the first batches of both sides are
  loaded and the joiner of the join type runs on the two cursors.  The properties state for all
  nine join types that the operator answers with exactly the rows of the relational join.
\<close>

section \<open>Model\<close>

text \<open>\<open>SortMergeJoinExec::try_new\<close> accepts a residual condition for inner joins only.\<close>

definition smj_try_new :: "join_type \<Rightarrow> 'v join_filter option \<Rightarrow> bool" where
  "smj_try_new jt jf = (jf = None \<or> jt = Inner)"

text \<open>The batches the operator sends for two input streams with \<open>lcols\<close> and \<open>rcols\<close> columns.\<close>

definition execute_join ::
  "(bytes list \<Rightarrow> bool list option) \<Rightarrow> (bool \<Rightarrow> 'v) \<Rightarrow> 'v join_params \<Rightarrow> join_type \<Rightarrow> nat \<Rightarrow> nat
   \<Rightarrow> 'v key_batch option list \<Rightarrow> 'v key_batch option list \<Rightarrow> 'v row list list option" where
  "execute_join checker bool_cell P jt lcols rcols left right =
     do { c1 \<leftarrow> cursor_next checker (try_new_cursor lcols left);
          c2 \<leftarrow> cursor_next checker (try_new_cursor rcols right);
          (let full = (\<lambda>lo ro. map_option sent (full_join checker P lo ro new_full_joiner c1 c2));
               semi = (\<lambda>side semi. map_option p_sent (semi_join checker bool_cell (batch_size P) side semi new_probe_joiner (c1, c2)))
           in case jt of
                Inner \<Rightarrow> full False False
              | LeftOuter \<Rightarrow> full True False
              | RightOuter \<Rightarrow> full False True
              | FullOuter \<Rightarrow> full True True
              | LeftSemi \<Rightarrow> semi SideL True
              | LeftAnti \<Rightarrow> semi SideL False
              | RightSemi \<Rightarrow> semi SideR True
              | RightAnti \<Rightarrow> semi SideR False
              | Existence \<Rightarrow> map_option p_sent (existence_join checker bool_cell (batch_size P) new_probe_joiner (c1, c2))) }"

section \<open>Specification\<close>

fun left_outer :: "join_type \<Rightarrow> bool" where
  "left_outer LeftOuter = True" | "left_outer FullOuter = True" | "left_outer _ = False"

fun right_outer :: "join_type \<Rightarrow> bool" where
  "right_outer RightOuter = True" | "right_outer FullOuter = True" | "right_outer _ = False"

text \<open>The output of the joins that keep rows of one side only.\<close>

fun semi_spec :: "('k \<Rightarrow> bool) \<Rightarrow> (bool \<Rightarrow> 'v) \<Rightarrow> join_type \<Rightarrow> ('k \<times> 'v row) list \<Rightarrow> ('k \<times> 'v row) list \<Rightarrow> 'v row list" where
  "semi_spec null bool_cell LeftSemi xs ys = map snd (filter (has_match null ys) xs)"
| "semi_spec null bool_cell LeftAnti xs ys = map snd (filter (\<lambda>x. \<not> has_match null ys x) xs)"
| "semi_spec null bool_cell RightSemi xs ys = map snd (filter (has_match null xs) ys)"
| "semi_spec null bool_cell RightAnti xs ys = map snd (filter (\<lambda>y. \<not> has_match null xs y) ys)"
| "semi_spec null bool_cell Existence xs ys = map (\<lambda>x. snd x @ [Some (bool_cell (has_match null ys x))]) xs"
| "semi_spec null bool_cell _ xs ys = []"

lemma side_spec_emit:
  "side_spec null bc kind side xs ys =
     (case kind of
        SemiJoiner join_side semi \<Rightarrow>
          if side = join_side then mset (map snd (filter (\<lambda>x. has_match null ys x = semi) xs)) else {#}
      | ExistenceJoiner \<Rightarrow>
          if side = SideL then mset (map (\<lambda>x. snd x @ [Some (bc (has_match null ys x))]) xs) else {#})"
  by (induction xs) (auto simp: side_spec_def contrib_def split: probe_kind.splits)

lemma probe_spec_semi:
  "probe_spec null bc (SemiJoiner SideL True) xs ys = mset (semi_spec null bc LeftSemi xs ys)"
  "probe_spec null bc (SemiJoiner SideL False) xs ys = mset (semi_spec null bc LeftAnti xs ys)"
  "probe_spec null bc (SemiJoiner SideR True) xs ys = mset (semi_spec null bc RightSemi xs ys)"
  "probe_spec null bc (SemiJoiner SideR False) xs ys = mset (semi_spec null bc RightAnti xs ys)"
  "probe_spec null bc ExistenceJoiner xs ys = mset (semi_spec null bc Existence xs ys)"
  by (simp_all add: probe_spec_def side_spec_emit)

section \<open>Properties\<close>

lemma cursors_start:
  assumes ch: "checks checker null" and l: "\<forall>b \<in> set left. batch_ok lcols b" and r: "\<forall>b \<in> set right. batch_ok rcols b"
  obtains c1 c2 where "cursor_next checker (try_new_cursor lcols left) = Some c1"
    "cursor_next checker (try_new_cursor rcols right) = Some c2" "cursor_ok null lcols c1" "cursor_ok null rcols c2"
    "remaining c1 = stream_items left" "remaining c2 = stream_items right"
  using cursor_start_ok [OF ch l] cursor_start_ok [OF ch r] by blast

text \<open>
  C2: On two streams sorted by key, the inner and outer sort-merge joins end without an error and
  send exactly the rows of the relational join, with their multiplicities: every pair of rows
  with the same key and no null in it for which the residual condition holds, and on an outer
  side every row without a partner, padded with nulls.  Batch size and batch boundaries, and in
  particular when output is flushed and old batches are dropped, make no difference.
\<close>

theorem smj_outer_joins_correct:
  assumes "checks (has_nulls decoded cs) null"
    and "\<forall>b \<in> set left. batch_ok lcols b" and "\<forall>b \<in> set right. batch_ok rcols b"
    and "sorted (map fst (stream_items left))" and "sorted (map fst (stream_items right))"
    and "params_ok P pred lcols rcols" and "smj_try_new jt (join_filter P)"
    and "jt \<in> {Inner, LeftOuter, RightOuter, FullOuter}"
  shows "\<exists>out. execute_join (has_nulls decoded cs) bool_cell P jt lcols rcols left right = Some out
    \<and> mset (concat out) = join_spec null (left_outer jt) (right_outer jt) (replicate lcols None) (replicate rcols None)
        (joined P pred) (stream_items left) (stream_items right)"
proof -
  from cursors_start [OF assms(1-3)] obtain c1 c2 where
    c: "cursor_next (has_nulls decoded cs) (try_new_cursor lcols left) = Some c1"
    "cursor_next (has_nulls decoded cs) (try_new_cursor rcols right) = Some c2" "cursor_ok null lcols c1" "cursor_ok null rcols c2"
    "remaining c1 = stream_items left" "remaining c2 = stream_items right" by blast
  have p: "pending_ok new_full_joiner c1 c2" "emitted (joined P pred) new_full_joiner c1 c2 = {#}"
    by (simp_all add: pending_ok_def emitted_def new_full_joiner_def)
  have "\<exists>s. full_join (has_nulls decoded cs) P lo ro new_full_joiner c1 c2 = Some s
      \<and> mset (concat (sent s)) = join_spec null lo ro (replicate lcols None) (replicate rcols None) (joined P pred)
          (stream_items left) (stream_items right)" for lo ro
    using full_join_ok [OF assms(6,1) c(3,4) p(1), of lo ro] assms(4,5) p(2) c(5,6) by auto
  then obtain s where "full_join (has_nulls decoded cs) P (left_outer jt) (right_outer jt) new_full_joiner c1 c2 = Some s"
    "mset (concat (sent s)) = join_spec null (left_outer jt) (right_outer jt) (replicate lcols None) (replicate rcols None)
      (joined P pred) (stream_items left) (stream_items right)" by blast
  moreover have "execute_join (has_nulls decoded cs) bool_cell P jt lcols rcols left right
      = map_option sent (full_join (has_nulls decoded cs) P (left_outer jt) (right_outer jt) new_full_joiner c1 c2)"
    using assms(8) c(1,2) by (auto simp: execute_join_def Let_def)
  ultimately show ?thesis by simp
qed

theorem smj_outer_joins_correct_witness:
  "\<exists>out. execute_join (has_nulls (\<lambda>_. None) [new_variable \<lparr>descending = False, nulls_first = True\<rparr>]) (\<lambda>b. 0)
     \<lparr>projection = \<lparr>proj_left = [], proj_right = []\<rparr>, join_filter = None, batch_size = 1\<rparr> LeftOuter 1 1
     [Some \<lparr>kb_rows = [[Some 3], [Some (4 :: nat)]], kb_keys = [[0], [1]]\<rparr>] [Some \<lparr>kb_rows = [[Some 5]], kb_keys = [[1]]\<rparr>] = Some out
   \<and> mset (concat out) = {#[Some 3, None], [Some 4, Some 5]#}"
proof -
  let ?cs = "[new_variable \<lparr>descending = False, nulls_first = True\<rparr>]"
  let ?P = "\<lparr>projection = \<lparr>proj_left = [], proj_right = []\<rparr>, join_filter = None, batch_size = 1\<rparr> :: nat join_params"
  let ?l = "[Some \<lparr>kb_rows = [[Some 3], [Some (4 :: nat)]], kb_keys = [[0], [1]]\<rparr>]"
  let ?r = "[Some \<lparr>kb_rows = [[Some (5 :: nat)]], kb_keys = [[1]]\<rparr>]"
  have ch: "checks (has_nulls (\<lambda>_. None) ?cs) (has_null ?cs)"
    by (simp add: has_nulls_def needs_decoded_nulls_def new_variable_def)
  have n: "has_null ?cs [0]" "\<not> has_null ?cs [1]"
    by (simp_all add: has_null_def check_field_null_def new_variable_def null_sentinel_def)
  have "join_spec (has_null ?cs) (left_outer LeftOuter) (right_outer LeftOuter) (replicate 1 None) (replicate 1 None)
      (joined ?P (\<lambda>_. None)) (stream_items ?l) (stream_items ?r) = {#[Some 3, None], [Some 4, Some 5]#}"
    using n by (simp add: join_spec_def matched_rows_def unmatched_rows_def has_match_def joined_def stream_items_def)
  with smj_outer_joins_correct [OF ch, of ?l 1 ?r 1 ?P "\<lambda>_. None" LeftOuter "\<lambda>b. 0"] show ?thesis
    by (simp add: stream_items_def params_ok_def smj_try_new_def)
qed

text \<open>
  C4: On two streams sorted by key, the semi, anti and existence sort-merge joins end without an
  error and send exactly the rows of their side that have a partner, those that have none, or all
  left rows with the flag saying which; a key with a null has no partner.
\<close>

theorem smj_semi_joins_correct:
  assumes "checks (has_nulls decoded cs) null"
    and "\<forall>b \<in> set left. batch_ok lcols b" and "\<forall>b \<in> set right. batch_ok rcols b"
    and "sorted (map fst (stream_items left))" and "sorted (map fst (stream_items right))"
    and "jt \<in> {LeftSemi, LeftAnti, RightSemi, RightAnti, Existence}"
  shows "\<exists>out. execute_join (has_nulls decoded cs) bool_cell P jt lcols rcols left right = Some out
    \<and> mset (concat out) = mset (semi_spec null bool_cell jt (stream_items left) (stream_items right))"
proof -
  from cursors_start [OF assms(1-3)] obtain c1 c2 where
    c: "cursor_next (has_nulls decoded cs) (try_new_cursor lcols left) = Some c1"
    "cursor_next (has_nulls decoded cs) (try_new_cursor rcols right) = Some c2" "cursor_ok null lcols c1" "cursor_ok null rcols c2"
    "remaining c1 = stream_items left" "remaining c2 = stream_items right" by blast
  define n where "n = (\<lambda>side. case side of SideL \<Rightarrow> lcols | SideR \<Rightarrow> rcols)"
  have "cursor_ok null (n side) (side_cur side (c1, c2))" for side using c(3,4) by (cases side) (simp_all add: n_def)
  then have ok: "both_ok null n (c1, c2)" by (simp add: both_ok_def)
  have p: "probe_pending_ok kind new_probe_joiner (c1, c2)" "probe_emitted bool_cell kind new_probe_joiner (c1, c2) = {#}" for kind
    by (simp_all add: probe_pending_ok_def probe_emitted_def new_probe_joiner_def split: probe_kind.splits)
  have "\<exists>s. probe_join (has_nulls decoded cs) bool_cell (batch_size P) kind new_probe_joiner (c1, c2) = Some s
      \<and> mset (concat (p_sent s)) = probe_spec null bool_cell kind (stream_items left) (stream_items right)" for kind
    using probe_join_ok [OF assms(1) ok p(1), of bool_cell "batch_size P" kind] assms(4,5) p(2) c(5,6) by auto
  moreover have "\<exists>kind. execute_join (has_nulls decoded cs) bool_cell P jt lcols rcols left right
      = map_option p_sent (probe_join (has_nulls decoded cs) bool_cell (batch_size P) kind new_probe_joiner (c1, c2))
    \<and> probe_spec null bool_cell kind (stream_items left) (stream_items right)
      = mset (semi_spec null bool_cell jt (stream_items left) (stream_items right))"
    using assms(6) c(1,2) probe_spec_semi [of null bool_cell "stream_items left" "stream_items right"]
    by (simp only: insert_iff empty_iff, elim disjE FalseE) (fastforce simp: execute_join_def Let_def semi_join_def existence_join_def simp del: semi_spec.simps)+
  ultimately show ?thesis by (metis option.simps(9))
qed

theorem smj_semi_joins_correct_witness:
  "\<exists>out. execute_join (has_nulls (\<lambda>_. None) [new_variable \<lparr>descending = False, nulls_first = True\<rparr>]) (\<lambda>b. 0)
     \<lparr>projection = \<lparr>proj_left = [], proj_right = []\<rparr>, join_filter = None, batch_size = 1\<rparr> LeftAnti 1 1
     [Some \<lparr>kb_rows = [[Some 3], [Some (4 :: nat)]], kb_keys = [[0], [1]]\<rparr>] [Some \<lparr>kb_rows = [[Some 5]], kb_keys = [[1]]\<rparr>] = Some out
   \<and> mset (concat out) = {#[Some 3]#}"
proof -
  let ?cs = "[new_variable \<lparr>descending = False, nulls_first = True\<rparr>]"
  let ?P = "\<lparr>projection = \<lparr>proj_left = [], proj_right = []\<rparr>, join_filter = None, batch_size = 1\<rparr> :: nat join_params"
  let ?l = "[Some \<lparr>kb_rows = [[Some 3], [Some (4 :: nat)]], kb_keys = [[0], [1]]\<rparr>]"
  let ?r = "[Some \<lparr>kb_rows = [[Some (5 :: nat)]], kb_keys = [[1]]\<rparr>]"
  have ch: "checks (has_nulls (\<lambda>_. None) ?cs) (has_null ?cs)"
    by (simp add: has_nulls_def needs_decoded_nulls_def new_variable_def)
  have n: "has_null ?cs [0]" "\<not> has_null ?cs [1]"
    by (simp_all add: has_null_def check_field_null_def new_variable_def null_sentinel_def)
  from smj_semi_joins_correct [OF ch, of ?l 1 ?r 1 LeftAnti "\<lambda>b. 0" ?P] n show ?thesis
    by (simp add: stream_items_def has_match_def)
qed

text \<open>
  An error of an input stream is the answer of the join: when the first thing the left stream
  delivers is an error, after any number of empty batches, nothing is sent and the join fails,
  whatever the join type.
\<close>

theorem smj_propagates_stream_error:
  assumes "\<forall>b \<in> set skipped. \<exists>kb. b = Some kb \<and> kb_rows kb = []"
  shows "execute_join checker bool_cell P jt lcols rcols (skipped @ None # rest) right = None"
proof -
  have "load_next_batch checker (skipped @ None # rest) c = None" for c :: "'a stream_cursor"
    using assms by (induction skipped) auto
  then have "cursor_next checker (try_new_cursor lcols (skipped @ None # rest)) = None"
    by (simp add: cursor_next_def try_new_cursor_def)
  then show ?thesis by (simp add: execute_join_def)
qed

theorem smj_propagates_stream_error_witness:
  "execute_join (\<lambda>_. None) (\<lambda>b. b) \<lparr>projection = \<lparr>proj_left = [], proj_right = []\<rparr>, join_filter = None, batch_size = 1\<rparr>
     Inner 1 1 [Some \<lparr>kb_rows = [], kb_keys = []\<rparr>, None] [] = None"
  using smj_propagates_stream_error [of "[Some \<lparr>kb_rows = [], kb_keys = []\<rparr>]" "\<lambda>_. None" "\<lambda>b. b"
      "\<lparr>projection = \<lparr>proj_left = [], proj_right = []\<rparr>, join_filter = None, batch_size = 1\<rparr>" Inner 1 1 "[]" "[]"] by simp

end
