(* ===== verification/Sort_Keys.thy ===== *)
theory Sort_Keys
  imports Io_Codec "HOL-Library.List_Lexorder" "HOL-Library.Sublist"
begin

text \<open>
  The sort keys of the external sort (\<open>sort_exec.rs\<close>): encoded key rows are byte strings compared
  lexicographically.  In memory they are kept back to back with an offset vector
  (\<open>InMemRowsKeyCollector\<close>); in a spill each key is stored as the length of the prefix it shares
  with its predecessor and the bytes after it (\<open>SortedKeysWriter\<close>, \<open>SortedKeysReader\<close>).

  \<open>key_collector\<close> is the interface of the two collectors: whatever the merge adds to a fresh
  collector, in order, is what can be read out of it.
\<close>

section \<open>The common prefix of two keys\<close>

text \<open>\<open>pread!(v, off, nb)\<close>: \<open>nb\<close> bytes from offset \<open>off\<close>.\<close>

definition pread :: "bytes \<Rightarrow> nat \<Rightarrow> nat \<Rightarrow> bytes" where
  "pread v off nb = take nb (drop off v)"

definition same_block :: "bytes \<Rightarrow> bytes \<Rightarrow> nat \<Rightarrow> nat \<Rightarrow> bool" where
  "same_block a b lcp nb =
     (lcp + nb \<le> min (length a) (length b) \<and> pread a lcp nb = pread b lcp nb)"

function prefix_loop :: "bytes \<Rightarrow> bytes \<Rightarrow> nat \<Rightarrow> nat" where
  "prefix_loop a b lcp = (if same_block a b lcp 8 then prefix_loop a b (lcp + 8) else lcp)"
  by pat_completeness auto
termination
  by (relation "measure (\<lambda>(a, b, lcp). length a - lcp)") (auto simp: same_block_def)

declare prefix_loop.simps [simp del]

definition common_prefix_len :: "bytes \<Rightarrow> bytes \<Rightarrow> nat" where
  "common_prefix_len a b =
     (let lcp = prefix_loop a b 0;
          lcp = lcp + of_bool (same_block a b lcp 4) * 4;
          lcp = lcp + of_bool (same_block a b lcp 2) * 2;
          lcp = lcp + of_bool (same_block a b lcp 1)
      in lcp)"

section \<open>Compressed keys\<close>

text \<open>
  The writer's buffer after \<open>set_len\<close> keeps its first \<open>prefix_len\<close> bytes and is overwritten from
  there on.
\<close>

definition write_key :: "bytes \<Rightarrow> bytes \<Rightarrow> bytes \<times> bytes" where
  "write_key cur_key key =
     (let prefix_len = common_prefix_len cur_key key;
          suffix_len = length key - prefix_len
      in if prefix_len = length key \<and> suffix_len = 0 then (cur_key, write_len 0)
         else (take prefix_len cur_key @ drop prefix_len key,
               write_len (of_nat (suffix_len + 1)) @ write_len (of_nat prefix_len) @ drop prefix_len key))"

record sorted_keys_reader =
  reader_key :: bytes
  is_equal_to_prev :: bool

definition default_reader :: sorted_keys_reader where
  "default_reader = \<lparr>reader_key = [], is_equal_to_prev = False\<rparr>"

text \<open>
  The bytes between the old length and a longer \<open>prefix_len\<close> would be uninitialised memory; an
  input that asks for them is undefined behaviour, here a panic.
\<close>

definition reader_next_key :: "sorted_keys_reader \<Rightarrow> sorted_keys_reader reader" where
  "reader_next_key r =
     rd_bind read_len (\<lambda>b.
       if b > 0
       then let suffix_len = unat (b - 1) in
         rd_bind read_len (\<lambda>prefix_len.
         rd_bind (read_exact suffix_len) (\<lambda>buf inp.
           if unat prefix_len \<le> length (reader_key r)
           then Inr (\<lparr>reader_key = take (unat prefix_len) (reader_key r) @ buf, is_equal_to_prev = False\<rparr>, inp)
           else Inl Panic))
       else rd_return (r\<lparr>is_equal_to_prev := True\<rparr>))"

section \<open>Key collectors\<close>

record key_rows =
  kr_buffer :: bytes
  kr_offsets :: "nat list"

definition mem_default :: key_rows where
  "mem_default = \<lparr>kr_buffer = [], kr_offsets = []\<rparr>"

definition mem_add_key :: "bytes \<Rightarrow> key_rows \<Rightarrow> key_rows" where
  "mem_add_key key c =
     c\<lparr>kr_offsets := kr_offsets c @ [length (kr_buffer c)], kr_buffer := kr_buffer c @ key\<rparr>"

definition mem_freeze :: "key_rows \<Rightarrow> key_rows" where
  "mem_freeze c = c\<lparr>kr_offsets := kr_offsets c @ [length (kr_buffer c)]\<rparr>"

text \<open>\<open>InMemRowsKeyCollector::key\<close>, an unchecked slice of the buffer.\<close>

definition mem_key :: "key_rows \<Rightarrow> nat \<Rightarrow> bytes option" where
  "mem_key c i =
     do { start \<leftarrow> vget (kr_offsets c) i; end \<leftarrow> vget (kr_offsets c) (i + 1);
          if start \<le> end \<and> end \<le> length (kr_buffer c)
          then Some (take (end - start) (drop start (kr_buffer c))) else None }"

definition mem_into_rows :: "nat \<Rightarrow> key_rows \<Rightarrow> key_rows option" where
  "mem_into_rows num_rows c =
     (if kr_offsets c \<noteq> [] \<and> length (kr_offsets c) - 1 = num_rows then Some c else None)"

record squeeze_collector =
  writer_key :: bytes
  store :: bytes

definition squeeze_default :: squeeze_collector where
  "squeeze_default = \<lparr>writer_key = [], store = []\<rparr>"

definition squeeze_add_key :: "bytes \<Rightarrow> squeeze_collector \<Rightarrow> squeeze_collector" where
  "squeeze_add_key key c =
     (let (cur, out) = write_key (writer_key c) key
      in \<lparr>writer_key = cur, store = store c @ out\<rparr>)"

definition squeeze_freeze :: "squeeze_collector \<Rightarrow> squeeze_collector" where
  "squeeze_freeze c = c"

fun read_into :: "nat \<Rightarrow> sorted_keys_reader \<Rightarrow> bytes \<Rightarrow> key_rows \<Rightarrow> key_rows result" where
  "read_into 0 r inp acc = Inr acc"
| "read_into (Suc n) r inp acc =
     res_bind (reader_next_key r inp) (\<lambda>(r', inp'). read_into n r' inp' (mem_add_key (reader_key r') acc))"

text \<open>As written: the collector the keys are copied into is not frozen.\<close>

definition squeeze_into_rows :: "nat \<Rightarrow> squeeze_collector \<Rightarrow> key_rows result" where
  "squeeze_into_rows num_rows c =
     res_bind (read_into num_rows default_reader (store c) mem_default) (\<lambda>rows.
       case mem_into_rows num_rows rows of Some x \<Rightarrow> Inr x | None \<Rightarrow> Inl Panic)"

text \<open>The rows of a row buffer.\<close>

definition rows_keys :: "key_rows \<Rightarrow> bytes list option" where
  "rows_keys c = those (map (mem_key c) [0..<length (kr_offsets c) - 1])"

text \<open>What a reader that starts at \<open>r\<close> reads, with the equality marks.\<close>

fun read_keys :: "nat \<Rightarrow> sorted_keys_reader \<Rightarrow> bytes \<Rightarrow> ((bytes \<times> bool) list \<times> sorted_keys_reader \<times> bytes) result" where
  "read_keys 0 r inp = Inr ([], r, inp)"
| "read_keys (Suc n) r inp =
     res_bind (reader_next_key r inp) (\<lambda>(r', inp').
     res_bind (read_keys n r' inp') (\<lambda>(ks, r'', inp'').
       Inr ((reader_key r', is_equal_to_prev r') # ks, r'', inp'')))"

section \<open>The prefix length\<close>

abbreviation lcp_len :: "'a list \<Rightarrow> 'a list \<Rightarrow> nat" where
  "lcp_len a b \<equiv> length (longest_common_prefix a b)"

lemma lcp_len_le: "lcp_len a b \<le> length a" "lcp_len a b \<le> length b"
  by (auto intro: prefix_length_le longest_common_prefix_prefix1 longest_common_prefix_prefix2)

lemma take_eq_lcp: "n \<le> length a \<Longrightarrow> n \<le> length b \<Longrightarrow> take n a = take n b \<longleftrightarrow> n \<le> lcp_len a b"
proof (induction a b arbitrary: n rule: longest_common_prefix.induct)
  case (1 x xs y ys)
  then show ?case by (cases n) auto
qed auto

lemma take_lcp: "take (lcp_len a b) a = take (lcp_len a b) b"
  by (simp add: take_eq_lcp lcp_len_le)

lemma lcp_splice: "take (lcp_len a b) a @ drop (lcp_len a b) b = b"
  by (metis take_lcp append_take_drop_id)

text \<open>A block after a common prefix is common exactly if the prefix extends over it.\<close>

lemma same_block_lcp:
  assumes "lcp \<le> lcp_len a b"
  shows "same_block a b lcp nb \<longleftrightarrow> lcp + nb \<le> lcp_len a b"
proof (cases "lcp + nb \<le> min (length a) (length b)")
  case True
  have "take lcp a = take lcp b"
    using assms lcp_len_le [of a b] by (subst take_eq_lcp) auto
  then have "pread a lcp nb = pread b lcp nb \<longleftrightarrow> take (lcp + nb) a = take (lcp + nb) b"
    by (simp add: pread_def take_add)
  with True show ?thesis by (simp add: same_block_def take_eq_lcp)
next
  case False
  with lcp_len_le [of a b] show ?thesis by (auto simp: same_block_def)
qed

lemma prefix_loop_lcp:
  "lcp \<le> lcp_len a b \<Longrightarrow> prefix_loop a b lcp \<le> lcp_len a b \<and> lcp_len a b < prefix_loop a b lcp + 8"
proof (induction a b lcp rule: prefix_loop.induct)
  case (1 a b lcp)
  then show ?case
    by (cases "same_block a b lcp 8") (auto simp: same_block_lcp prefix_loop.simps [of a b lcp])
qed

lemma common_prefix_len_lcp: "common_prefix_len a b = lcp_len a b"
proof -
  define l0 l1 l2 where "l0 = prefix_loop a b 0"
    and "l1 = l0 + of_bool (same_block a b l0 4) * 4"
    and "l2 = l1 + of_bool (same_block a b l1 2) * 2"
  have l0: "l0 \<le> lcp_len a b" "lcp_len a b < l0 + 8"
    using prefix_loop_lcp [of 0 a b] by (simp_all add: l0_def)
  then have l1: "l1 \<le> lcp_len a b" "lcp_len a b < l1 + 4" by (auto simp: l1_def same_block_lcp)
  then have l2: "l2 \<le> lcp_len a b" "lcp_len a b < l2 + 2" by (auto simp: l2_def same_block_lcp)
  have "common_prefix_len a b = l2 + of_bool (same_block a b l2 1)"
    unfolding common_prefix_len_def Let_def l0_def [symmetric] l1_def [symmetric] l2_def [symmetric] ..
  with l2 show ?thesis by (auto simp: same_block_lcp)
qed

section \<open>Writing and reading compressed keys\<close>

lemma le_prefix_eq:
  fixes a b :: bytes
  shows "a \<le> b \<Longrightarrow> lcp_len a b = length b \<Longrightarrow> a = b"
  by (induction a b rule: longest_common_prefix.induct) (auto split: if_splits)

lemma write_key_cur: "a \<le> key \<Longrightarrow> fst (write_key a key) = key"
proof -
  assume le: "a \<le> key"
  show ?thesis
  proof (cases "lcp_len a key = length key")
    case True
    with le_prefix_eq [OF le] have "a = key" by simp
    with True show ?thesis by (simp add: write_key_def common_prefix_len_lcp)
  next
    case False
    have "take (lcp_len a key) a @ drop (lcp_len a key) key = key" by (rule lcp_splice)
    with False show ?thesis by (simp add: write_key_def common_prefix_len_lcp Let_def)
  qed
qed

lemma word_suffix_len:
  assumes "m + 1 < 2 ^ 64"
  shows "unat (of_nat (m + 1) - 1 :: usize) = m" and "(0::usize) < of_nat (m + 1)"
proof -
  have "unat (of_nat (m + 1) :: usize) = m + 1" "unat (of_nat m :: usize) = m"
    using assms by (simp_all only: unat_of_nat) (simp_all add: take_bit_nat_eq_self)
  then show "unat (of_nat (m + 1) - 1 :: usize) = m" "(0::usize) < of_nat (m + 1)"
    by (simp_all add: word_less_nat_alt)
qed

text \<open>The reader only needs to know the bytes the writer refers to.\<close>

lemma reader_next_written:
  assumes le: "a \<le> key" and small: "length key + 1 < 2 ^ 64"
    and known: "take (lcp_len a key) (reader_key r) = take (lcp_len a key) a" "lcp_len a key \<le> length (reader_key r)"
    and same: "a = key \<Longrightarrow> reader_key r = key"
  shows "reader_next_key r (snd (write_key a key) @ rest) = Inr (\<lparr>reader_key = key, is_equal_to_prev = (a = key)\<rparr>, rest)"
proof (cases "lcp_len a key = length key")
  case True
  with le_prefix_eq [OF le] have "a = key" by simp
  with True same show ?thesis
    by (simp add: write_key_def common_prefix_len_lcp reader_next_key_def rd_bind_def read_len_append)
next
  case False
  let ?p = "lcp_len a key"
  have p: "?p \<le> length key" by (rule lcp_len_le)
  have "take ?p (reader_key r) @ drop ?p key = key"
    unfolding known(1) by (rule lcp_splice)
  moreover have "a \<noteq> key"
  proof
    assume "a = key"
    then have "?p = length key" using take_eq_lcp [of "length key" a key] p by simp
    with False show False ..
  qed
  moreover have "unat (of_nat ?p :: usize) = ?p"
    using small p by (simp add: unat_of_nat take_bit_nat_eq_self)
  moreover have "unat (of_nat (length key - ?p + 1) - 1 :: usize) = length key - ?p"
    "(0::usize) < of_nat (length key - ?p + 1)"
    using small by (intro word_suffix_len, simp)+
  ultimately show ?thesis
    using False p known(2)
    by (simp add: write_key_def common_prefix_len_lcp Let_def reader_next_key_def rd_bind_def read_len_append
        read_exact_append)
qed


text \<open>The bytes of a sequence of keys after \<open>cur\<close>, and the keys with their equality marks.\<close>

fun key_bytes :: "bytes \<Rightarrow> bytes list \<Rightarrow> bytes" where
  "key_bytes cur [] = []"
| "key_bytes cur (k # ks) = snd (write_key cur k) @ key_bytes k ks"

fun marks :: "bytes \<Rightarrow> bytes list \<Rightarrow> (bytes \<times> bool) list" where
  "marks cur [] = []"
| "marks cur (k # ks) = (k, cur = k) # marks k ks"

abbreviation key_fits :: "bytes \<Rightarrow> bool" where
  "key_fits k \<equiv> length k + 1 < 2 ^ 64"

lemma key_bytes_snoc: "key_bytes cur (ks @ [k]) = key_bytes cur ks @ snd (write_key (last (cur # ks)) k)"
  by (induction ks arbitrary: cur) auto

lemma marks_append: "marks cur (xs @ ys) = marks cur xs @ marks (last (cur # xs)) ys"
  by (induction xs arbitrary: cur) auto

lemma length_marks [simp]: "length (marks cur ks) = length ks"
  by (induction ks arbitrary: cur) auto

lemma map_fst_marks [simp]: "map fst (marks cur ks) = ks"
  by (induction ks arbitrary: cur) auto

lemma reader_next_same:
  assumes "reader_key r = a" and "a \<le> key" and "key_fits key"
  shows "reader_next_key r (snd (write_key a key) @ rest) = Inr (\<lparr>reader_key = key, is_equal_to_prev = (a = key)\<rparr>, rest)"
  by (rule reader_next_written) (use assms lcp_len_le in auto)

text \<open>A writer that starts afresh refers to nothing, unless its first key is empty.\<close>

lemma reader_next_first:
  assumes "key = [] \<Longrightarrow> reader_key r = []" and "key_fits key"
  shows "reader_next_key r (snd (write_key [] key) @ rest) = Inr (\<lparr>reader_key = key, is_equal_to_prev = ([] = key)\<rparr>, rest)"
  by (rule reader_next_written) (use assms in auto)

lemma read_keys_same:
  assumes "sorted (a # ks)" and "\<forall>k \<in> set ks. key_fits k" and "reader_key r = a"
  shows "\<exists>r'. read_keys (length ks) r (key_bytes a ks @ rest) = Inr (marks a ks, r', rest)
    \<and> reader_key r' = last (a # ks)"
  using assms
proof (induction ks arbitrary: a r)
  case Nil
  then show ?case by simp
next
  case (Cons k ks)
  let ?r = "\<lparr>reader_key = k, is_equal_to_prev = (a = k)\<rparr>"
  from Cons.prems have "a \<le> k" "sorted (k # ks)" by simp_all
  with Cons.IH [of k ?r] Cons.prems obtain r' where
    "read_keys (length ks) ?r (key_bytes k ks @ rest) = Inr (marks k ks, r', rest)" "reader_key r' = last (k # ks)"
    by auto
  with reader_next_same [of r a k "key_bytes k ks @ rest"] Cons.prems show ?case by simp
qed

lemma read_keys_written:
  assumes "sorted ks" and "\<forall>k \<in> set ks. key_fits k" and "ks \<noteq> [] \<Longrightarrow> hd ks = [] \<Longrightarrow> reader_key r = []"
  shows "\<exists>r'. read_keys (length ks) r (key_bytes [] ks @ rest) = Inr (marks [] ks, r', rest)
    \<and> (ks \<noteq> [] \<longrightarrow> reader_key r' = last ks)"
proof (cases ks)
  case Nil
  then show ?thesis by simp
next
  case (Cons k ks')
  let ?r = "\<lparr>reader_key = k, is_equal_to_prev = ([] = k)\<rparr>"
  from read_keys_same [of k ks' ?r rest] assms Cons obtain r' where
    "read_keys (length ks') ?r (key_bytes k ks' @ rest) = Inr (marks k ks', r', rest)" "reader_key r' = last ks"
    by auto
  with reader_next_first [of k r "key_bytes k ks' @ rest"] assms Cons show ?thesis by simp
qed

section \<open>The collectors implement the interface\<close>

locale key_collector =
  fixes empty_kc :: 'k and add :: "bytes \<Rightarrow> 'k \<Rightarrow> 'k" and frz :: "'k \<Rightarrow> 'k"
    and open_holds :: "'k \<Rightarrow> bytes list \<Rightarrow> bool" and holds :: "'k \<Rightarrow> bytes list \<Rightarrow> bool"
  assumes open_empty: "open_holds empty_kc []"
    and open_add: "open_holds c ks \<Longrightarrow> sorted (ks @ [k]) \<Longrightarrow> open_holds (add k c) (ks @ [k])"
    and freeze_holds: "open_holds c ks \<Longrightarrow> holds (frz c) ks"
begin

lemma collected_open: "sorted ks \<Longrightarrow> open_holds (foldl (\<lambda>c k. add k c) empty_kc ks) ks"
  by (induction ks rule: rev_induct) (simp_all add: open_empty open_add sorted_append)

lemma collected: "sorted ks \<Longrightarrow> holds (frz (foldl (\<lambda>c k. add k c) empty_kc ks)) ks"
  by (rule freeze_holds [OF collected_open])

end

fun starts :: "nat \<Rightarrow> bytes list \<Rightarrow> nat list" where
  "starts off [] = []"
| "starts off (k # ks) = off # starts (off + length k) ks"

definition mem_open :: "key_rows \<Rightarrow> bytes list \<Rightarrow> bool" where
  "mem_open c ks = (kr_buffer c = concat ks \<and> kr_offsets c = starts 0 ks)"

definition mem_holds :: "key_rows \<Rightarrow> bytes list \<Rightarrow> bool" where
  "mem_holds c ks = (kr_buffer c = concat ks \<and> kr_offsets c = starts 0 ks @ [length (concat ks)])"

definition squeeze_open :: "squeeze_collector \<Rightarrow> bytes list \<Rightarrow> bool" where
  "squeeze_open c ks = (store c = key_bytes [] ks \<and> writer_key c = last ([] # ks))"

definition squeeze_holds :: "squeeze_collector \<Rightarrow> bytes list \<Rightarrow> bool" where
  "squeeze_holds c ks = (store c = key_bytes [] ks)"

lemma starts_snoc: "starts off (ks @ [k]) = starts off ks @ [off + length (concat ks)]"
  by (induction ks arbitrary: off) (auto simp: add.assoc)

lemma length_starts [simp]: "length (starts off ks) = length ks"
  by (induction ks arbitrary: off) auto

lemma nth_starts: "i \<le> length ks \<Longrightarrow> (starts off ks @ [off + length (concat ks)]) ! i = off + length (concat (take i ks))"
proof (induction ks arbitrary: off i)
  case (Cons k ks)
  then show ?case using Cons.IH [of "i - 1" "off + length k"] by (cases i) (auto simp: add.assoc)
qed simp

interpretation mem_kc: key_collector mem_default mem_add_key mem_freeze mem_open mem_holds
  by unfold_locales
    (auto simp: mem_default_def mem_add_key_def mem_freeze_def mem_open_def mem_holds_def starts_snoc)

lemma sorted_snoc_last: "sorted (ks @ [k]) \<Longrightarrow> last ([] # ks) \<le> (k :: bytes)"
  by (cases ks rule: rev_cases) (auto simp: sorted_append)

interpretation squeeze_kc: key_collector squeeze_default squeeze_add_key squeeze_freeze squeeze_open squeeze_holds
proof unfold_locales
  fix c ks k
  assume "squeeze_open c ks" "sorted (ks @ [k :: bytes])"
  moreover from this(2) have "fst (write_key (last ([] # ks)) k) = k"
    by (intro write_key_cur sorted_snoc_last)
  ultimately show "squeeze_open (squeeze_add_key k c) (ks @ [k])"
    by (simp add: squeeze_open_def squeeze_add_key_def key_bytes_snoc case_prod_beta Let_def)
qed (auto simp: squeeze_default_def squeeze_freeze_def squeeze_open_def squeeze_holds_def)

lemma mem_holds_length: "mem_holds c ks \<Longrightarrow> length (kr_offsets c) = Suc (length ks)"
  by (simp add: mem_holds_def)

lemma mem_key_holds: "mem_holds c ks \<Longrightarrow> i < length ks \<Longrightarrow> mem_key c i = Some (ks ! i)"
proof -
  assume c: "mem_holds c ks" and i: "i < length ks"
  have offs: "kr_offsets c ! i = length (concat (take i ks))" "kr_offsets c ! Suc i = length (concat (take (Suc i) ks))"
    using c i nth_starts [of i ks 0] nth_starts [of "Suc i" ks 0] by (simp_all add: mem_holds_def)
  have split: "concat ks = concat (take i ks) @ ks ! i @ concat (drop (Suc i) ks)"
    by (metis append_take_drop_id concat.simps(2) concat_append i id_take_nth_drop)
  have "length (concat (take (Suc i) ks)) = length (concat (take i ks)) + length (ks ! i)"
    using i by (simp add: take_Suc_conv_app_nth)
  with c i offs split show ?thesis by (simp add: mem_key_def mem_holds_def)
qed

lemma mem_rows: "mem_holds c ks \<Longrightarrow> mem_into_rows (length ks) c = Some c \<and> rows_keys c = Some ks"
proof -
  assume c: "mem_holds c ks"
  have "rows_keys c = those (map (mem_key c) [0..<length ks])"
    using c by (simp add: rows_keys_def mem_holds_length)
  also have "\<dots> = Some ks"
    unfolding those_Some_iff by (rule nth_equalityI) (simp_all add: mem_key_holds [OF c])
  finally show ?thesis using c by (auto simp: mem_into_rows_def mem_holds_def)
qed

lemma read_into_offsets:
  "read_into n r inp acc = Inr rows \<Longrightarrow> length (kr_offsets rows) = length (kr_offsets acc) + n"
  by (induction n arbitrary: r inp acc) (auto simp: res_bind_Inr_iff mem_add_key_def)

text \<open>The row buffer is never complete: decoding collected keys into rows always fails.\<close>

lemma squeeze_into_rows_fails: "squeeze_into_rows num_rows c \<noteq> Inr rows"
  by (cases "kr_offsets rows") (auto simp: squeeze_into_rows_def res_bind_Inr_iff mem_into_rows_def mem_default_def dest!: read_into_offsets
      split: if_splits)

section \<open>Properties\<close>

text \<open>
  C19: Sorted keys that were collected into a spill, each stored as the length of the prefix it
  shares with its predecessor and the rest, are read back one by one as they were, each marked
  as equal to its predecessor exactly if it is, and nothing of what follows in the spill is
  consumed.
\<close>

theorem sorted_keys_roundtrip:
  assumes "sorted ks" and "\<forall>k \<in> set ks. key_fits k"
  shows "\<exists>r. read_keys (length ks) default_reader
      (store (squeeze_freeze (foldl (\<lambda>c k. squeeze_add_key k c) squeeze_default ks)) @ rest)
    = Inr (map2 (\<lambda>prev k. (k, prev = k)) ([] # ks) ks, r, rest)"
proof -
  have "squeeze_holds (squeeze_freeze (foldl (\<lambda>c k. squeeze_add_key k c) squeeze_default ks)) ks"
    by (rule squeeze_kc.collected [OF assms(1)])
  moreover have "marks cur ks' = map2 (\<lambda>prev k. (k, prev = k)) (cur # ks') ks'" for cur ks'
    by (induction ks' arbitrary: cur) simp_all
  ultimately show ?thesis
    using read_keys_written [OF assms, of default_reader rest] by (auto simp: squeeze_holds_def default_reader_def)
qed

theorem sorted_keys_roundtrip_witness:
  "\<exists>r. read_keys 3 default_reader
      (store (squeeze_freeze (foldl (\<lambda>c k. squeeze_add_key k c) squeeze_default [[1, 2], [1, 2], [1, 3, 4]])) @ [9])
    = Inr ([([1, 2], False), ([1, 2], True), ([1, 3, 4], False)], r, [9])"
  using sorted_keys_roundtrip [of "[[1, 2], [1, 2], [1, 3, 4]]" "[9]"] by (simp add: numeral_3_eq_3)

end
