(* ===== verification/Sort_Merger.thy ===== *)
theory Sort_Merger
  imports Sort_Keys Loser_Tree
begin

text \<open>
  The merge of sorted blocks (\<open>sort_exec.rs\<close>): sorted blocks in memory and in spills, their
  builders, the cursor over a block, and the \<open>Merger\<close> that draws the smallest keys from a loser
  tree of cursors and gathers the rows that belong to them.

  The batches are a parameter of the model: \<open>batch_ops\<close> are the operations the code calls on
  them (row count, selection, gathering, serialization), and the locale \<open>batch_store\<close> is what it
  relies on.  A spill is the byte string written to it; compression and the spill storage hand
  back what was written.  The answer \<open>None\<close> is an error or a panic.
\<close>

section \<open>Model\<close>

record 'b batch_ops =
  num_rows_of :: "'b \<Rightarrow> nat"
  take_batch :: "'b \<Rightarrow> nat list \<Rightarrow> 'b option"
  interleave_batches :: "'b list \<Rightarrow> (nat \<times> nat) list \<Rightarrow> 'b option"
  zero_column_batch :: "nat \<Rightarrow> 'b"
  empty_batch :: 'b
  write_one_batch :: "'b \<Rightarrow> bytes option"
  read_one_batch :: "bytes \<Rightarrow> ('b option \<times> bytes) option"

subsection \<open>Sorted blocks\<close>

record 'b in_mem_sorted_block =
  sorted_keys :: "key_rows list"
  sorted_batches :: "'b list"
  mem_row_idx :: usize

record spill_sorted_block =
  spill_reader :: bytes
  cur_key_reader :: sorted_keys_reader

datatype 'b sorted_block = InMemBlock "'b in_mem_sorted_block" | SpillBlock spill_sorted_block

fun is_single_batch :: "'b sorted_block \<Rightarrow> bool" where
  "is_single_batch (InMemBlock m) = (length (sorted_batches m) = 1)"
| "is_single_batch (SpillBlock s) = False"

text \<open>\<open>cur_row_idx\<close> is set to \<open>usize::MAX\<close>, from which the next increment wraps to 0.\<close>

fun block_next_batch :: "'b batch_ops \<Rightarrow> 'b sorted_block \<Rightarrow> ('b option \<times> 'b sorted_block) option" where
  "block_next_batch ops (InMemBlock m) =
     (case sorted_batches m of
        [] \<Rightarrow> Some (None, InMemBlock m)
      | b # bs \<Rightarrow>
         (case sorted_keys m of
            [] \<Rightarrow> None
          | _ # ks \<Rightarrow> Some (Some b, InMemBlock \<lparr>sorted_keys = ks, sorted_batches = bs, mem_row_idx = - 1\<rparr>)))"
| "block_next_batch ops (SpillBlock s) =
     do { (batch, rest) \<leftarrow> read_one_batch ops (spill_reader s);
          Some (batch, SpillBlock (s\<lparr>spill_reader := rest\<rparr>)) }"

fun block_next_key :: "'b sorted_block \<Rightarrow> 'b sorted_block option" where
  "block_next_key (InMemBlock m) = Some (InMemBlock (m\<lparr>mem_row_idx := mem_row_idx m + 1\<rparr>))"
| "block_next_key (SpillBlock s) =
     (case reader_next_key (cur_key_reader s) (spill_reader s) of
        Inl e \<Rightarrow> None
      | Inr (r, rest) \<Rightarrow> Some (SpillBlock \<lparr>spill_reader = rest, cur_key_reader = r\<rparr>))"

fun block_cur_key :: "'b sorted_block \<Rightarrow> bytes option" where
  "block_cur_key (InMemBlock m) =
     do { c \<leftarrow> vget (sorted_keys m) 0; mem_key c (unat (mem_row_idx m)) }"
| "block_cur_key (SpillBlock s) = Some (reader_key (cur_key_reader s))"

fun block_is_equal_to_prev_key :: "'b sorted_block \<Rightarrow> bool option" where
  "block_is_equal_to_prev_key (InMemBlock m) =
     (if mem_row_idx m > 0
      then do { c \<leftarrow> vget (sorted_keys m) 0;
                key0 \<leftarrow> mem_key c (unat (mem_row_idx m - 1));
                key1 \<leftarrow> mem_key c (unat (mem_row_idx m));
                Some (key0 = key1) }
      else Some False)"
| "block_is_equal_to_prev_key (SpillBlock s) = Some (is_equal_to_prev (cur_key_reader s))"

record 'b in_mem_builder =
  builder_keys :: "key_rows list"
  builder_batches :: "'b list"

definition default_builder :: "'b in_mem_builder" where
  "default_builder = \<lparr>builder_keys = [], builder_batches = []\<rparr>"

definition mem_add_batch_and_keys :: "'b \<Rightarrow> key_rows \<Rightarrow> 'b in_mem_builder \<Rightarrow> 'b in_mem_builder option" where
  "mem_add_batch_and_keys batch keys bd =
     Some (bd\<lparr>builder_keys := builder_keys bd @ [keys], builder_batches := builder_batches bd @ [batch]\<rparr>)"

definition mem_finish :: "'b in_mem_builder \<Rightarrow> 'b sorted_block" where
  "mem_finish bd = InMemBlock \<lparr>sorted_keys = mem_default # builder_keys bd,
     sorted_batches = builder_batches bd, mem_row_idx = 0\<rparr>"

text \<open>The builder of a spill is what it has written so far.\<close>

definition spill_add_batch_and_keys :: "'b batch_ops \<Rightarrow> 'b \<Rightarrow> squeeze_collector \<Rightarrow> bytes \<Rightarrow> bytes option" where
  "spill_add_batch_and_keys ops batch keys out =
     do { b \<leftarrow> write_one_batch ops batch; Some (out @ b @ store keys) }"

definition spill_finish :: "bytes \<Rightarrow> 'b sorted_block" where
  "spill_finish out = SpillBlock \<lparr>spill_reader = out, cur_key_reader = default_reader\<rparr>"

subsection \<open>Cursors\<close>

record 'b block_cursor =
  cursor_id :: nat
  cursor_input :: "'b sorted_block"
  cur_batches :: "'b list"
  cur_batches_changed :: bool
  cur_key_row_idx :: nat
  cur_batch_idx :: nat
  cur_row_idx :: nat
  cursor_finished :: bool

definition current_key :: "'b block_cursor \<Rightarrow> bytes" where
  "current_key c = (case block_cur_key (cursor_input c) of Some k \<Rightarrow> k | None \<Rightarrow> [])"

definition cursor_lt :: "'b block_cursor \<Rightarrow> 'b block_cursor \<Rightarrow> bool" where
  "cursor_lt c other =
     (if cursor_finished other \<or> cursor_finished c then cursor_finished other
      else current_key c < current_key other)"

definition cursor_load_next_batch :: "'b batch_ops \<Rightarrow> 'b block_cursor \<Rightarrow> ('b block_cursor \<times> bool) option" where
  "cursor_load_next_batch ops c =
     do { (batch, blk) \<leftarrow> block_next_batch ops (cursor_input c);
          Some (case batch of
                  Some b \<Rightarrow> (c\<lparr>cursor_input := blk, cur_batches := cur_batches c @ [b], cur_key_row_idx := 0,
                               cur_batches_changed := True\<rparr>, True)
                | None \<Rightarrow> (c\<lparr>cursor_input := blk, cursor_finished := True\<rparr>, False)) }"

definition last_batch_rows :: "'b batch_ops \<Rightarrow> 'b block_cursor \<Rightarrow> nat" where
  "last_batch_rows ops c = (if cur_batches c = [] then 0 else num_rows_of ops (last (cur_batches c)))"

definition cursor_read_key :: "'b block_cursor \<Rightarrow> 'b block_cursor option" where
  "cursor_read_key c =
     do { blk \<leftarrow> block_next_key (cursor_input c);
          Some (c\<lparr>cursor_input := blk, cur_key_row_idx := cur_key_row_idx c + 1\<rparr>) }"

definition cursor_next_key :: "'b batch_ops \<Rightarrow> 'b block_cursor \<Rightarrow> 'b block_cursor option" where
  "cursor_next_key ops c =
     (if cursor_finished c then None
      else if cur_key_row_idx c \<ge> last_batch_rows ops c
      then do { (c', loaded) \<leftarrow> cursor_load_next_batch ops c;
                if loaded then cursor_read_key c' else Some (c'\<lparr>cursor_finished := True\<rparr>) }
      else cursor_read_key c)"

definition try_from_block :: "'b batch_ops \<Rightarrow> nat \<Rightarrow> 'b sorted_block \<Rightarrow> 'b block_cursor option" where
  "try_from_block ops cid blk =
     cursor_next_key ops \<lparr>cursor_id = cid, cursor_input = blk, cur_batches = [], cur_batches_changed = False,
       cur_key_row_idx = 0, cur_batch_idx = 0, cur_row_idx = 0, cursor_finished = False\<rparr>"

definition next_row :: "'b batch_ops \<Rightarrow> 'b block_cursor \<Rightarrow> ((nat \<times> nat) \<times> 'b block_cursor) option" where
  "next_row ops c =
     do { b \<leftarrow> vget (cur_batches c) (cur_batch_idx c);
          let row = cur_row_idx c + 1;
          Some ((cur_batch_idx c, cur_row_idx c),
                if row \<ge> num_rows_of ops b then c\<lparr>cur_batch_idx := cur_batch_idx c + 1, cur_row_idx := 0\<rparr>
                else c\<lparr>cur_row_idx := row\<rparr>) }"

definition clear_finished_batches :: "'b block_cursor \<Rightarrow> 'b block_cursor" where
  "clear_finished_batches c =
     (if cur_batch_idx c > 0
      then c\<lparr>cur_batches := drop (cur_batch_idx c) (cur_batches c),
             cur_batches_changed := (cur_batches_changed c \<or> cur_batches c \<noteq> []), cur_batch_idx := 0\<rparr>
      else c)"

subsection \<open>The merger\<close>

record 'b merger =
  cursors :: "'b block_cursor loser_tree"
  batch_interleaver :: "'b list"
  single_batch_mode :: bool
  batches_base_indices :: "nat list"
  num_total_output_rows :: nat

text \<open>
  The comparisons read the current keys without a bounds check; they are defined when every
  cursor that is not finished stands on a key.
\<close>

definition comparable :: "'b block_cursor list \<Rightarrow> bool" where
  "comparable cs =
     (length cs \<le> 1 \<or> list_all (\<lambda>c. cursor_finished c \<or> block_cur_key (cursor_input c) \<noteq> None) cs)"

fun first_batches :: "'b block_cursor list \<Rightarrow> 'b list option" where
  "first_batches [] = Some []"
| "first_batches (c # cs) = do { b \<leftarrow> vget (cur_batches c) 0; bs \<leftarrow> first_batches cs; Some (b # bs) }"

definition merger_try_new :: "'b batch_ops \<Rightarrow> 'b sorted_block list \<Rightarrow> 'b merger option" where
  "merger_try_new ops blocks =
     do { let single = list_all is_single_batch blocks;
          cs \<leftarrow> those (map2 (try_from_block ops) [0..<length blocks] blocks);
          tree \<leftarrow> (if comparable cs then new_tree cursor_lt cs else None);
          ilv \<leftarrow> (if single then first_batches cs else Some [empty_batch ops]);
          Some \<lparr>cursors = tree, batch_interleaver = ilv, single_batch_mode = single,
                batches_base_indices = [], num_total_output_rows = 0\<rparr> }"

text \<open>The trait \<open>KeyCollector\<close>, as its operations.\<close>

record 'k collector_ops =
  kc_default :: 'k
  kc_add_key :: "bytes \<Rightarrow> 'k \<Rightarrow> 'k"
  kc_freeze :: "'k \<Rightarrow> 'k"

definition mem_collector :: "key_rows collector_ops" where
  "mem_collector = \<lparr>kc_default = mem_default, kc_add_key = mem_add_key, kc_freeze = mem_freeze\<rparr>"

definition squeeze_collector_ops :: "squeeze_collector collector_ops" where
  "squeeze_collector_ops =
     \<lparr>kc_default = squeeze_default, kc_add_key = squeeze_add_key, kc_freeze = squeeze_freeze\<rparr>"

text \<open>
  The \<open>while\<close> loop of \<open>Merger::next\<close>; its first argument is the number of rows still wanted, the
  last one the number of rows taken.
\<close>

fun merge_loop ::
  "'b batch_ops \<Rightarrow> 'k collector_ops \<Rightarrow> bool \<Rightarrow> nat \<Rightarrow> 'b block_cursor peek_guard \<Rightarrow> 'k \<Rightarrow> nat list \<Rightarrow> nat
   \<Rightarrow> ('b block_cursor peek_guard \<times> 'k \<times> nat list \<times> nat) option" where
  "merge_loop ops kco all_pruned 0 g kc ids num_rows = Some (g, kc, ids, num_rows)"
| "merge_loop ops kco all_pruned (Suc n) g kc ids num_rows =
     do { c \<leftarrow> guard_deref g;
          if cursor_finished c then Some (g, kc, ids, num_rows)
          else do {
            k \<leftarrow> block_cur_key (cursor_input c);
            c' \<leftarrow> cursor_next_key ops c;
            g1 \<leftarrow> guard_deref_mut (\<lambda>_. c') g;
            same \<leftarrow> (if cursor_finished c' then Some False else block_is_equal_to_prev_key (cursor_input c'));
            g2 \<leftarrow> (if same then Some g1
                   else if comparable (lt_values (guard_tree g1)) then guard_adjust cursor_lt g1 else None);
            merge_loop ops kco all_pruned n g2 (kc_add_key kco k kc)
              (if all_pruned then ids else ids @ [cursor_id c]) (num_rows + 1) } }"

text \<open>The indices of the rows to gather: every cursor hands out its next row.\<close>

fun stage_rows ::
  "'b batch_ops \<Rightarrow> bool \<Rightarrow> nat list \<Rightarrow> nat list \<Rightarrow> 'b block_cursor list
   \<Rightarrow> ((nat \<times> nat) list \<times> 'b block_cursor list) option" where
  "stage_rows ops single base [] vs = Some ([], vs)"
| "stage_rows ops single base (cid # ids) vs =
     do { c \<leftarrow> vget vs cid;
          ((batch_idx, row_idx), c') \<leftarrow> next_row ops c;
          vs' \<leftarrow> vset vs cid c';
          ix \<leftarrow> (if single then Some (cursor_id c', row_idx)
                 else do { b0 \<leftarrow> vget base (cursor_id c'); Some (b0 + batch_idx, row_idx) });
          (ixs, vs'') \<leftarrow> stage_rows ops single base ids vs';
          Some (ix # ixs, vs'') }"

fun base_indices :: "nat \<Rightarrow> 'b block_cursor list \<Rightarrow> nat list" where
  "base_indices n [] = []"
| "base_indices n (c # cs) = n # base_indices (n + length (cur_batches c)) cs"

definition refresh_interleaver :: "'b merger \<Rightarrow> 'b merger" where
  "refresh_interleaver m =
     (if \<not> single_batch_mode m \<and> list_ex cur_batches_changed (lt_values (cursors m))
      then m\<lparr>batches_base_indices := base_indices 0 (lt_values (cursors m)),
             batch_interleaver := concat (map cur_batches (lt_values (cursors m))),
             cursors := (cursors m)\<lparr>lt_values :=
               map (\<lambda>c. c\<lparr>cur_batches_changed := False\<rparr>) (lt_values (cursors m))\<rparr>\<rparr>
      else m)"

definition gather_rows :: "'b batch_ops \<Rightarrow> nat list \<Rightarrow> 'b merger \<Rightarrow> ('b \<times> 'b merger) option" where
  "gather_rows ops ids m =
     (let m = refresh_interleaver m in
      do { (ixs, vs) \<leftarrow> stage_rows ops (single_batch_mode m) (batches_base_indices m) ids (lt_values (cursors m));
           b \<leftarrow> interleave_batches ops (batch_interleaver m) ixs;
           Some (b, m\<lparr>cursors := (cursors m)\<lparr>lt_values := vs\<rparr>\<rparr>) })"

definition merger_next ::
  "'b batch_ops \<Rightarrow> 'k collector_ops \<Rightarrow> bool \<Rightarrow> nat \<Rightarrow> nat \<Rightarrow> 'b merger \<Rightarrow> (('k \<times> 'b) option \<times> 'b merger) option" where
  "merger_next ops kco all_pruned limit batch_size m =
     do { let max_num_rows = min batch_size (limit - num_total_output_rows m);
          (g, kc, ids, num_rows) \<leftarrow>
            merge_loop ops kco all_pruned max_num_rows (peek_mut (cursors m)) (kc_default kco) [] 0;
          tree \<leftarrow> (if dirty g \<longrightarrow> comparable (lt_values (guard_tree g)) then guard_drop cursor_lt g else None);
          let m = m\<lparr>cursors := tree\<rparr>;
          if num_rows = 0 then Some (None, m)
          else do {
            (b, m) \<leftarrow> (if \<not> all_pruned then gather_rows ops ids m else Some (zero_column_batch ops num_rows, m));
            let m = m\<lparr>num_total_output_rows := num_total_output_rows m + num_rows,
                      cursors := (cursors m)\<lparr>lt_values := map clear_finished_batches (lt_values (cursors m))\<rparr>\<rparr>;
            Some (Some (kc_freeze kco kc, b), m) } }"

text \<open>
  \<open>Merger::skip_rows\<close>, over the step \<open>next\<close> it repeats.  The caller discards an error of the
  skipped steps; here it is the answer \<open>None\<close>.
\<close>

partial_function (option) skip_rows ::
  "(nat \<Rightarrow> 'm \<Rightarrow> ('a option \<times> 'm) option) \<Rightarrow> nat \<Rightarrow> nat \<Rightarrow> 'm \<Rightarrow> 'm option" where
  "skip_rows step suggested_batch_size remaining m =
     (if remaining > 0
      then do { let batch_size = min remaining suggested_batch_size;
                (r, m') \<leftarrow> step batch_size m;
                (case r of None \<Rightarrow> Some m'
                 | Some _ \<Rightarrow> skip_rows step suggested_batch_size (remaining - batch_size) m') }
      else Some m)"

text \<open>Repeating \<open>next\<close> until it answers nothing, handing every answer to \<open>add\<close>.\<close>

partial_function (option) drain_merger ::
  "('m \<Rightarrow> (('k \<times> 'b) option \<times> 'm) option) \<Rightarrow> ('b \<Rightarrow> 'k \<Rightarrow> 's \<Rightarrow> 's option) \<Rightarrow> 's \<Rightarrow> 'm \<Rightarrow> 's option" where
  "drain_merger step add s m =
     do { (r, m') \<leftarrow> step m;
          (case r of None \<Rightarrow> Some s
           | Some (kc, b) \<Rightarrow> do { s' \<leftarrow> add b kc s; drain_merger step add s' m' }) }"

text \<open>\<open>merge_blocks\<close> into a spill, the only way it is called.\<close>

definition merge_blocks :: "'b batch_ops \<Rightarrow> bool \<Rightarrow> nat \<Rightarrow> nat \<Rightarrow> 'b sorted_block list \<Rightarrow> 'b sorted_block option" where
  "merge_blocks ops all_pruned limit sub_batch_size blocks =
     (if length blocks \<ge> 1
      then do { m \<leftarrow> merger_try_new ops blocks;
                out \<leftarrow> drain_merger (merger_next ops squeeze_collector_ops all_pruned limit sub_batch_size)
                         (spill_add_batch_and_keys ops) [] m;
                Some (spill_finish out) }
      else None)"

section \<open>The order of the cursors\<close>

definition cursor_le :: "'b block_cursor \<Rightarrow> 'b block_cursor \<Rightarrow> bool" where
  "cursor_le c c' = (cursor_finished c' \<or> (\<not> cursor_finished c \<and> current_key c \<le> current_key c'))"

interpretation sort_order: tournament_order cursor_lt cursor_le
  by unfold_locales (auto simp: cursor_lt_def cursor_le_def split: if_splits)

section \<open>Drawing from several lists\<close>

text \<open>The heads of the lists with the given numbers, one after the other, and what is left.\<close>

fun pick :: "nat list \<Rightarrow> 'a list list \<Rightarrow> 'a list \<times> 'a list list" where
  "pick [] xss = ([], xss)"
| "pick (i # ids) xss =
     (let (out, xss') = pick ids (xss[i := tl (xss ! i)]) in (hd (xss ! i) # out, xss'))"

fun picks_ok :: "nat list \<Rightarrow> 'a list list \<Rightarrow> bool" where
  "picks_ok [] xss = True"
| "picks_ok (i # ids) xss = (i < length xss \<and> xss ! i \<noteq> [] \<and> picks_ok ids (xss[i := tl (xss ! i)]))"

lemma pick_Cons: "pick (i # ids) xss =
    (hd (xss ! i) # fst (pick ids (xss[i := tl (xss ! i)])), snd (pick ids (xss[i := tl (xss ! i)])))"
  by (simp add: case_prod_beta Let_def)

declare pick.simps(2) [simp del]

lemma pick_length [simp]: "length (fst (pick ids xss)) = length ids" "length (snd (pick ids xss)) = length xss"
  by (induction ids xss rule: pick.induct) (auto simp: pick_Cons)

lemma picks_ok_bound: "picks_ok ids xss \<Longrightarrow> \<forall>i \<in> set ids. i < length xss"
  by (induction ids xss rule: pick.induct) auto

lemma mset_list_update_tl:
  assumes "i < length xss" "xss ! i \<noteq> []"
  shows "sum_list (map mset xss) = add_mset (hd (xss ! i)) (sum_list (map mset (xss[i := tl (xss ! i)])))"
proof -
  have "mset (xss ! i) = add_mset (hd (xss ! i)) (mset (tl (xss ! i)))" using assms(2) by (cases "xss ! i") auto
  with sum_map_update [OF assms(1), of mset "tl (xss ! i)"] show ?thesis by simp
qed

lemma pick_mset:
  "picks_ok ids xss \<Longrightarrow> sum_list (map mset xss) = mset (fst (pick ids xss)) + sum_list (map mset (snd (pick ids xss)))"
proof (induction ids xss rule: pick.induct)
  case (2 i ids xss)
  then have "sum_list (map mset xss) = add_mset (hd (xss ! i)) (sum_list (map mset (xss[i := tl (xss ! i)])))"
    by (intro mset_list_update_tl) auto
  with 2 show ?case by (simp add: pick_Cons)
qed simp

lemma in_mset_sum_list_iff: "y \<in># sum_list (map mset xss) \<longleftrightarrow> (\<exists>xs \<in> set xss. y \<in> set xs)"
  by (induction xss) auto

lemma pick_count:
  "picks_ok ids xss \<Longrightarrow> j < length xss \<Longrightarrow> length (snd (pick ids xss) ! j) + count_list ids j = length (xss ! j)"
proof (induction ids xss rule: pick.induct)
  case (2 i ids xss)
  then have "length (snd (pick ids (xss[i := tl (xss ! i)])) ! j) + count_list ids j = length (xss[i := tl (xss ! i)] ! j)"
    by simp
  with 2(2) show ?case by (cases "j = i") (auto simp: pick_Cons nth_list_update length_greater_0_conv [symmetric]
      simp del: length_greater_0_conv)
qed simp

lemma pick_zip:
  assumes "length kss = length rss" "\<forall>i < length kss. length (kss ! i) = length (rss ! i)" "picks_ok ids kss"
  shows "picks_ok ids (map2 zip kss rss) \<and> picks_ok ids rss
    \<and> pick ids (map2 zip kss rss) = (zip (fst (pick ids kss)) (fst (pick ids rss)), map2 zip (snd (pick ids kss)) (snd (pick ids rss)))"
  using assms
proof (induction ids arbitrary: kss rss)
  case (Cons i ids)
  let ?k = "kss[i := tl (kss ! i)]" and ?r = "rss[i := tl (rss ! i)]"
  have i: "i < length kss" "i < length rss" "kss ! i \<noteq> []" "length (kss ! i) = length (rss ! i)" using Cons.prems by auto
  then have ri: "rss ! i \<noteq> []" by (metis length_0_conv)
  have z: "(map2 zip kss rss)[i := tl (map2 zip kss rss ! i)] = map2 zip ?k ?r"
  proof (rule nth_equalityI)
    fix j assume "j < length ((map2 zip kss rss)[i := tl (map2 zip kss rss ! i)])"
    then have "j < length kss" "j < length rss" using Cons.prems by auto
    then show "(map2 zip kss rss)[i := tl (map2 zip kss rss ! i)] ! j = map2 zip ?k ?r ! j"
      using i ri by (cases "j = i") (cases "kss ! i"; cases "rss ! i"; auto)+
  qed (use Cons.prems in simp)
  have "picks_ok ids ?k" using Cons.prems(3) by simp
  moreover have "\<forall>j < length ?k. length (?k ! j) = length (?r ! j)"
    using Cons.prems(1,2) i by (auto simp: nth_list_update)
  ultimately have "picks_ok ids (map2 zip ?k ?r) \<and> picks_ok ids ?r
      \<and> pick ids (map2 zip ?k ?r) = (zip (fst (pick ids ?k)) (fst (pick ids ?r)), map2 zip (snd (pick ids ?k)) (snd (pick ids ?r)))"
    using Cons.IH [of ?k ?r] Cons.prems(1) by simp
  moreover have "map2 zip kss rss ! i \<noteq> [] \<and> hd (map2 zip kss rss ! i) = (hd (kss ! i), hd (rss ! i))"
    using i ri by (cases "kss ! i"; cases "rss ! i") auto
  ultimately show ?case using i ri z by (simp add: pick_Cons)
qed simp

section \<open>How the cursors evolve\<close>

definition exhausted :: "'b block_cursor \<Rightarrow> bool" where
  "exhausted c = (case cursor_input c of InMemBlock m \<Rightarrow> sorted_batches m = [] | SpillBlock _ \<Rightarrow> False)"

text \<open>Moving to the next key never drops a batch, and says so when it adds one.\<close>

definition evolves :: "'b block_cursor \<Rightarrow> 'b block_cursor \<Rightarrow> bool" where
  "evolves c c' = ((cur_batches_changed c \<longrightarrow> cur_batches_changed c')
     \<and> (cur_batches_changed c' \<or> cur_batches c' = cur_batches c)
     \<and> (exhausted c \<longrightarrow> exhausted c' \<and> cur_batches c' = cur_batches c))"

lemma evolves_refl [simp]: "evolves c c"
  by (simp add: evolves_def)

lemma evolves_trans: "evolves a b \<Longrightarrow> evolves b c \<Longrightarrow> evolves a c"
  by (auto simp: evolves_def)

lemma read_key_evolves: "cursor_read_key c = Some c' \<Longrightarrow> evolves c c'"
  by (cases "cursor_input c")
    (auto simp: cursor_read_key_def evolves_def exhausted_def split: Option.bind_splits sum.splits)

lemma load_evolves: "cursor_load_next_batch ops c = Some (c', l) \<Longrightarrow> evolves c c'"
  by (cases "cursor_input c")
    (auto simp: cursor_load_next_batch_def evolves_def exhausted_def split: Option.bind_splits list.splits option.splits)

lemma next_key_evolves: "cursor_next_key ops c = Some c' \<Longrightarrow> evolves c c'"
proof -
  assume run: "cursor_next_key ops c = Some c'"
  show ?thesis
  proof (cases "cur_key_row_idx c \<ge> last_batch_rows ops c")
    case True
    with run obtain c1 l where l: "cursor_load_next_batch ops c = Some (c1, l)"
      and c': "if l then cursor_read_key c1 = Some c' else c' = c1\<lparr>cursor_finished := True\<rparr>"
      by (auto simp: cursor_next_key_def split: Option.bind_splits if_splits)
    have "evolves c1 c'"
      using c' read_key_evolves by (cases l) (auto simp: evolves_def exhausted_def)
    with load_evolves [OF l] show ?thesis by (rule evolves_trans)
  next
    case False
    with run show ?thesis by (auto simp: cursor_next_key_def read_key_evolves split: if_splits)
  qed
qed

lemma adjust_values: "guard_adjust lt g = Some g' \<Longrightarrow> lt_values (guard_tree g') = lt_values (guard_tree g)"
  by (auto simp: guard_adjust_def adjust_tree_def split: Option.bind_splits if_splits)

lemma drop_values: "guard_drop lt g = Some t \<Longrightarrow> lt_values t = lt_values (guard_tree g)"
  by (auto simp: guard_drop_def adjust_tree_def split: Option.bind_splits if_splits)

lemma merge_loop_evolves:
  "merge_loop ops kco ap n g kc ids num = Some (g', r) \<Longrightarrow>
   list_all2 evolves (lt_values (guard_tree g)) (lt_values (guard_tree g'))"
proof (induction n arbitrary: g kc ids num)
  case 0
  then show ?case by (simp add: list.rel_refl)
next
  case (Suc n)
  let ?vs = "lt_values (guard_tree g)"
  from Suc.prems obtain c where c: "guard_deref g = Some c" by (auto split: Option.bind_splits)
  show ?case
  proof (cases "cursor_finished c")
    case True
    with Suc.prems c show ?thesis by (simp add: list.rel_refl)
  next
    case False
    with Suc.prems c obtain c' g1 g2 kc' ids' same where st: "cursor_next_key ops c = Some c'"
      "guard_deref_mut (\<lambda>_. c') g = Some g1"
      "(if same then Some g1 else if comparable (lt_values (guard_tree g1)) then guard_adjust cursor_lt g1 else None) = Some g2"
      "merge_loop ops kco ap n g2 kc' ids' (num + 1) = Some (g', r)"
      by (auto split: Option.bind_splits)
    have vs: "lt_values (guard_tree g2) = lt_values (guard_tree g1)"
      using st(3) adjust_values [of cursor_lt g1 g2] by (auto split: if_splits)
    obtain i where i: "i < length ?vs" "?vs ! i = c" "lt_values (guard_tree g1) = ?vs[i := c']"
      using c st(2) by (auto simp: guard_deref_def guard_deref_mut_def vget_Some_iff vset_Some_iff split: Option.bind_splits)
    have "list_all2 evolves ?vs (?vs[i := c'])"
      using next_key_evolves [OF st(1)] i by (auto simp: list_all2_conv_all_nth nth_list_update)
    moreover have "list_all2 evolves (?vs[i := c']) (lt_values (guard_tree g'))"
      using Suc.IH [OF st(4)] vs i(3) by simp
    ultimately show ?thesis
      by (auto simp: list_all2_conv_all_nth intro: evolves_trans)
  qed
qed

lemma stage_rows_same:
  "stage_rows ops single base ids vs = Some (ixs, vs') \<Longrightarrow>
   map cursor_finished vs' = map cursor_finished vs \<and> map cursor_input vs' = map cursor_input vs"
proof (induction ids arbitrary: vs ixs)
  case (Cons i ids)
  then obtain c' ixs' where st: "i < length vs" "\<exists>p. next_row ops (vs ! i) = Some (p, c')"
    "stage_rows ops single base ids (vs[i := c']) = Some (ixs', vs')"
    by (auto simp: vget_Some_iff vset_Some_iff split: Option.bind_splits)
  then have "cursor_finished c' = cursor_finished (vs ! i)" "cursor_input c' = cursor_input (vs ! i)"
    by (auto simp: next_row_def Let_def split: Option.bind_splits if_splits)
  with Cons.IH [OF st(3)] show ?case by (simp add: map_update_same)
qed simp

lemma exhausted_cong: "map cursor_input vs' = map cursor_input vs \<Longrightarrow> list_all exhausted vs' = list_all exhausted vs"
proof -
  have "list_all exhausted ws
      = list_all (\<lambda>b. case b of InMemBlock m \<Rightarrow> sorted_batches m = [] | SpillBlock _ \<Rightarrow> False) (map cursor_input ws)" for ws :: "'a block_cursor list"
    by (simp add: list_all_iff exhausted_def)
  then show "map cursor_input vs' = map cursor_input vs \<Longrightarrow> list_all exhausted vs' = list_all exhausted vs" by metis
qed

section \<open>What the merge relies on\<close>

locale batch_store =
  fixes ops :: "'b batch_ops" and rows :: "'b \<Rightarrow> 'r list" and ok :: "'b \<Rightarrow> bool" and fits :: "'r list \<Rightarrow> bool"
  assumes num_rows: "ok b \<Longrightarrow> num_rows_of ops b = length (rows b)"
    and take_rows: "ok b \<Longrightarrow> \<forall>i \<in> set is. i < length (rows b) \<Longrightarrow> fits (map ((!) (rows b)) is) \<Longrightarrow>
      \<exists>b'. take_batch ops b is = Some b' \<and> ok b' \<and> rows b' = map ((!) (rows b)) is"
    and interleave_rows: "bs \<noteq> [] \<Longrightarrow> \<forall>b \<in> set bs. ok b \<Longrightarrow>
      \<forall>(i, j) \<in> set ixs. i < length bs \<and> j < length (rows (bs ! i)) \<Longrightarrow>
      fits (map (\<lambda>(i, j). rows (bs ! i) ! j) ixs) \<Longrightarrow>
      \<exists>b'. interleave_batches ops bs ixs = Some b' \<and> ok b' \<and> rows b' = map (\<lambda>(i, j). rows (bs ! i) ! j) ixs"
    and serde: "ok b \<Longrightarrow> \<exists>bytes b'. write_one_batch ops b = Some bytes \<and> ok b' \<and> rows b' = rows b
      \<and> (\<forall>rest. read_one_batch ops (bytes @ rest) = Some (Some b', rest))"
    and serde_end: "read_one_batch ops [] = Some (None, [])"
begin

text \<open>The keyed batches still in a spill.\<close>

fun spill_stream :: "bytes \<Rightarrow> (bytes list \<times> 'r list) list \<Rightarrow> bool" where
  "spill_stream inp [] = (inp = [])"
| "spill_stream inp ((ks, rs) # later) =
     (\<exists>b bytes rest. inp = bytes @ key_bytes [] ks @ rest \<and> write_one_batch ops b = Some bytes \<and> ok b
        \<and> rows b = rs \<and> spill_stream rest later)"

text \<open>
  The state of a block: \<open>done\<close> and \<open>pend\<close> are the keys of the current batch up to the current one
  and after it, \<open>later\<close> the keyed batches not loaded yet.
\<close>

definition keyed :: "(bytes list \<times> 'r list) list \<Rightarrow> bool" where
  "keyed later = (\<forall>(ks, rs) \<in> set later. ks \<noteq> [] \<and> length ks = length rs \<and> length ks < 2 ^ 64
     \<and> (\<forall>k \<in> set ks. key_fits k))"

fun block_repr :: "'b sorted_block \<Rightarrow> bytes list \<Rightarrow> bytes list \<Rightarrow> (bytes list \<times> 'r list) list \<Rightarrow> bool" where
  "block_repr (InMemBlock m) done pend later =
     (keyed later \<and> length (done @ pend) < 2 ^ 64
      \<and> sorted (done @ pend @ concat (map fst later))
      \<and> (\<exists>c cs. sorted_keys m = c # cs \<and> list_all2 mem_holds cs (map fst later)
           \<and> (done @ pend \<noteq> [] \<longrightarrow> mem_holds c (done @ pend) \<and> mem_row_idx m = of_nat (length done) - 1))
      \<and> (\<forall>b \<in> set (sorted_batches m). ok b) \<and> map rows (sorted_batches m) = map snd later)"
| "block_repr (SpillBlock s) done pend later =
     (keyed later \<and> (\<forall>k \<in> set pend. key_fits k)
      \<and> (done \<noteq> [] \<longrightarrow> reader_key (cur_key_reader s) = last done)
      \<and> sorted (done @ pend @ concat (map fst later))
      \<and> sorted (reader_key (cur_key_reader s) # pend @ concat (map fst later))
      \<and> (\<exists>rest. spill_reader s = key_bytes (last ([] # done)) pend @ rest \<and> spill_stream rest later))"

lemma keyed_Cons: "keyed ((ks, rs) # later) \<longleftrightarrow>
    ks \<noteq> [] \<and> length ks = length rs \<and> length ks < 2 ^ 64 \<and> (\<forall>k \<in> set ks. key_fits k) \<and> keyed later"
  by (auto simp: keyed_def)

lemma keyed_Nil [simp]: "keyed []"
  by (simp add: keyed_def)

lemma next_batch_ok:
  assumes "block_repr blk done [] ((ks, rs) # later)"
  shows "\<exists>b blk'. block_next_batch ops blk = Some (Some b, blk') \<and> ok b \<and> rows b = rs \<and> block_repr blk' [] ks later"
proof (cases blk)
  case (InMemBlock m)
  with assms obtain b bs where "sorted_batches m = b # bs" by (cases "sorted_batches m") auto
  with assms InMemBlock show ?thesis
    by (auto simp: keyed_Cons list_all2_Cons2 sorted_append)
next
  case (SpillBlock s)
  with assms obtain b bytes rest where b: "spill_reader s = bytes @ key_bytes [] ks @ rest"
    "write_one_batch ops b = Some bytes" "ok b" "rows b = rs" "spill_stream rest later" by auto
  from serde [OF b(3)] b(2) obtain b' where b': "ok b'" "rows b' = rows b"
    "\<And>r. read_one_batch ops (bytes @ r) = Some (Some b', r)" by auto
  with b SpillBlock assms show ?thesis
    by (auto simp: keyed_Cons sorted_append)
qed

lemma next_batch_end:
  assumes "block_repr blk done [] []"
  shows "\<exists>blk'. block_next_batch ops blk = Some (None, blk') \<and> block_repr blk' done [] []"
  using assms by (cases blk) (auto simp: serde_end)

lemma next_key_ok:
  assumes r: "block_repr blk done (k # pend) later"
  shows "\<exists>blk' e. block_next_key blk = Some blk' \<and> block_repr blk' (done @ [k]) pend later \<and> block_cur_key blk' = Some k
    \<and> block_is_equal_to_prev_key blk' = Some e \<and> (e \<longrightarrow> (if done = [] then k = [] else last done = k))"
proof (cases blk)
  case (InMemBlock m)
  from r InMemBlock obtain c cs where c: "sorted_keys m = c # cs" "mem_holds c (done @ k # pend)"
    "mem_row_idx m = of_nat (length done) - 1" and len: "length (done @ k # pend) < 2 ^ 64" by auto
  have idx: "mem_row_idx m + 1 = of_nat (length done)" by (simp add: c(3))
  have u: "unat (of_nat (length done) :: usize) = length done"
    using len by (simp add: unat_of_nat take_bit_nat_eq_self)
  have key: "mem_key c (length done) = Some k" using mem_key_holds [OF c(2), of "length done"] by simp
  have gt: "(0::usize) < of_nat (length done) \<longleftrightarrow> done \<noteq> []" using u by (simp add: word_less_nat_alt)
  have prev: "mem_key c (unat (of_nat (length done) - 1 :: usize)) = Some (last done)" if "done \<noteq> []"
  proof -
    obtain d0 d where d: "done = d0 @ [d]" using \<open>done \<noteq> []\<close> by (cases "done" rule: rev_cases) auto
    then have "unat (of_nat (length done) - 1 :: usize) = length d0"
      using word_suffix_len(1) [of "length d0"] len by simp
    then show ?thesis using mem_key_holds [OF c(2), of "length d0"] d by simp
  qed
  let ?blk = "InMemBlock (m\<lparr>mem_row_idx := of_nat (length done)\<rparr>)"
  have "block_repr ?blk (done @ [k]) pend later" using r InMemBlock c by auto
  moreover have "block_cur_key ?blk = Some k" using c(1) key u by simp
  moreover have "block_is_equal_to_prev_key ?blk = Some (done \<noteq> [] \<and> last done = k)"
    using c(1) key u prev gt by simp
  ultimately show ?thesis using InMemBlock idx by auto
next
  case (SpillBlock s)
  let ?rd = "cur_key_reader s"
  from r SpillBlock obtain rest where
    inp: "spill_reader s = snd (write_key (last ([] # done)) k) @ key_bytes k pend @ rest"
    and str: "spill_stream rest later" and fit: "key_fits k" by auto
  have step: "reader_next_key ?rd (spill_reader s)
      = Inr (\<lparr>reader_key = k, is_equal_to_prev = (last ([] # done) = k)\<rparr>, key_bytes k pend @ rest)"
  proof (cases "done = []")
    case True
    have "k = [] \<Longrightarrow> reader_key ?rd = []" using r SpillBlock by auto
    from reader_next_first [OF this fit] True inp show ?thesis by simp
  next
    case False
    with reader_next_same [of ?rd "last done" k "key_bytes k pend @ rest"] r SpillBlock fit inp
    show ?thesis by auto
  qed
  with r SpillBlock str show ?thesis by (auto simp: sorted_append)
qed

section \<open>Cursors\<close>

definition unread :: "'b block_cursor \<Rightarrow> 'r list" where
  "unread c = drop (cur_row_idx c) (concat (map rows (drop (cur_batch_idx c) (cur_batches c))))"

definition positioned :: "'b block_cursor \<Rightarrow> bool" where
  "positioned c = ((\<forall>b \<in> set (cur_batches c). ok b \<and> rows b \<noteq> []) \<and> cur_batch_idx c \<le> length (cur_batches c)
     \<and> (if cur_batch_idx c < length (cur_batches c)
        then cur_row_idx c < length (rows (cur_batches c ! cur_batch_idx c)) else cur_row_idx c = 0))"

text \<open>The keys from the current one on, and the rows not handed out yet.\<close>

definition cursor_repr :: "'b block_cursor \<Rightarrow> bytes list \<Rightarrow> 'r list \<Rightarrow> bool" where
  "cursor_repr c ks rs \<longleftrightarrow> positioned c \<and> (\<exists>done pend later. block_repr (cursor_input c) done pend later
     \<and> rs = unread c @ concat (map snd later)
     \<and> (if cursor_finished c then ks = [] \<and> pend = [] \<and> later = []
        else ks = last done # pend @ concat (map fst later) \<and> done \<noteq> [] \<and> cur_batches c \<noteq> []
          \<and> block_cur_key (cursor_input c) = Some (last done)
          \<and> length (rows (last (cur_batches c))) = length (done @ pend) \<and> cur_key_row_idx c = length done))"

lemma block_repr_sorted: "block_repr blk done pend later \<Longrightarrow> sorted (done @ pend @ concat (map fst later))"
  by (cases blk) auto

lemma block_repr_keyed: "block_repr blk done pend later \<Longrightarrow> keyed later"
  by (cases blk) auto

lemma keyed_lengths: "keyed later \<Longrightarrow> length (concat (map snd later)) = length (concat (map fst later))"
  by (induction later) (auto simp: keyed_Cons split: prod.splits)

lemma positioned_load:
  assumes "positioned c" and "ok b" and "rows b \<noteq> []" and "cur_batches c' = cur_batches c @ [b]"
    "cur_batch_idx c' = cur_batch_idx c" "cur_row_idx c' = cur_row_idx c"
  shows "positioned c' \<and> unread c' = unread c @ rows b"
proof (cases "cur_batch_idx c < length (cur_batches c)")
  case True
  then obtain b0 bs where d: "drop (cur_batch_idx c) (cur_batches c) = b0 # bs" "b0 = cur_batches c ! cur_batch_idx c"
    by (metis Cons_nth_drop_Suc)
  with assms True show ?thesis by (auto simp: positioned_def unread_def nth_append)
next
  case False
  with assms show ?thesis by (auto simp: positioned_def unread_def nth_append)
qed

lemma cursor_read_ok:
  assumes "positioned c" and "block_repr (cursor_input c) done (k # pend) later" and "cur_batches c \<noteq> []"
    "length (rows (last (cur_batches c))) = length (done @ k # pend)" "cur_key_row_idx c = length done"
    "\<not> cursor_finished c"
  shows "\<exists>c' e. cursor_read_key c = Some c' \<and> cursor_repr c' (k # pend @ concat (map fst later)) (unread c @ concat (map snd later))
    \<and> cursor_id c' = cursor_id c \<and> \<not> cursor_finished c' \<and> block_is_equal_to_prev_key (cursor_input c') = Some e
    \<and> (e \<longrightarrow> (if done = [] then k = [] else last done = k))"
proof -
  from next_key_ok [OF assms(2)] obtain blk e where
    blk: "block_next_key (cursor_input c) = Some blk" "block_repr blk (done @ [k]) pend later" "block_cur_key blk = Some k"
      "block_is_equal_to_prev_key blk = Some e" "e \<longrightarrow> (if done = [] then k = [] else last done = k)" by blast
  let ?c = "c\<lparr>cursor_input := blk, cur_key_row_idx := cur_key_row_idx c + 1\<rparr>"
  have "cursor_repr ?c (k # pend @ concat (map fst later)) (unread c @ concat (map snd later))"
    unfolding cursor_repr_def
    by (intro conjI exI [of _ "done @ [k]"] exI [of _ pend] exI [of _ later])
      (use assms blk in \<open>auto simp: positioned_def unread_def\<close>)
  with blk assms(6) show ?thesis by (auto simp: cursor_read_key_def)
qed

lemma cursor_step:
  assumes "positioned c" and "block_repr (cursor_input c) done pend later" and "\<not> cursor_finished c"
    and key: "cur_key_row_idx c = length done" and at: "last_batch_rows ops c = length (done @ pend)"
  defines "ks \<equiv> pend @ concat (map fst later)"
  shows "\<exists>c'. cursor_next_key ops c = Some c' \<and> cursor_repr c' ks (unread c @ concat (map snd later))
    \<and> cursor_id c' = cursor_id c \<and> cursor_finished c' = (ks = [])
    \<and> (ks \<noteq> [] \<longrightarrow> (\<exists>e. block_is_equal_to_prev_key (cursor_input c') = Some e \<and> (e \<longrightarrow> done \<noteq> [] \<longrightarrow> last done = hd ks)))"
proof (cases pend)
  case (Cons k pend')
  have ne: "cur_batches c \<noteq> []" using at Cons by (auto simp: last_batch_rows_def)
  then have "length (rows (last (cur_batches c))) = length (done @ k # pend')"
    using at Cons assms(1) by (simp add: last_batch_rows_def num_rows positioned_def)
  from cursor_read_ok [OF assms(1) _ ne this key assms(3)] assms(2) Cons obtain c' e where
    "cursor_read_key c = Some c'" "cursor_repr c' (k # pend' @ concat (map fst later)) (unread c @ concat (map snd later))"
    "cursor_id c' = cursor_id c" "\<not> cursor_finished c'" "block_is_equal_to_prev_key (cursor_input c') = Some e"
    "e \<longrightarrow> (if done = [] then k = [] else last done = k)" by blast
  with Cons key at assms(3) show ?thesis by (auto simp: cursor_next_key_def ks_def)
next
  case Nil
  show ?thesis
  proof (cases later)
    case Nil
    with \<open>pend = []\<close> next_batch_end assms(2) obtain blk where
      blk: "block_next_batch ops (cursor_input c) = Some (None, blk)" "block_repr blk done [] []" by blast
    let ?c = "c\<lparr>cursor_input := blk, cursor_finished := True\<rparr>"
    have "cursor_repr ?c [] (unread c)"
      unfolding cursor_repr_def using assms(1) blk(2)
      by (intro conjI exI [of _ "done"] exI [of _ "[]"]) (auto simp: positioned_def unread_def)
    with blk key at assms(3) Nil \<open>pend = []\<close> show ?thesis
      by (simp add: cursor_next_key_def cursor_load_next_batch_def ks_def)
  next
    case (Cons l later')
    obtain ks1 rs1 where l: "l = (ks1, rs1)" by (cases l)
    with \<open>pend = []\<close> Cons assms(2) have rep: "block_repr (cursor_input c) done [] ((ks1, rs1) # later')" by simp
    from next_batch_ok [OF this] obtain b blk where
      b: "block_next_batch ops (cursor_input c) = Some (Some b, blk)" "ok b" "rows b = rs1" "block_repr blk [] ks1 later'"
      by blast
    have kd: "ks1 \<noteq> []" "length ks1 = length rs1" using block_repr_keyed [OF rep] by (auto simp: keyed_Cons)
    then obtain k ks2 where k: "ks1 = k # ks2" by (cases ks1) auto
    let ?c = "c\<lparr>cursor_input := blk, cur_batches := cur_batches c @ [b], cur_key_row_idx := 0, cur_batches_changed := True\<rparr>"
    have "rows b \<noteq> []" using b(3) kd by (cases rs1) auto
    then have pos: "positioned ?c \<and> unread ?c = unread c @ rs1"
      using positioned_load [OF assms(1) b(2), of ?c] b(3) by simp
    from cursor_read_ok [of ?c "[]" k ks2 later'] pos b k kd assms(3) obtain c' e where
      c': "cursor_read_key ?c = Some c'" "cursor_repr c' (ks1 @ concat (map fst later')) (unread c @ rs1 @ concat (map snd later'))"
        "cursor_id c' = cursor_id c" "\<not> cursor_finished c'" "block_is_equal_to_prev_key (cursor_input c') = Some e"
        "e \<longrightarrow> k = []" by auto
    have "done \<noteq> [] \<Longrightarrow> last done \<le> k"
      using block_repr_sorted [OF rep] k by (auto simp: sorted_append)
    with c' b key at assms(3) \<open>pend = []\<close> Cons l k show ?thesis
      by (auto simp: cursor_next_key_def cursor_load_next_batch_def ks_def)
  qed
qed

lemma cursor_advance_ok:
  assumes "cursor_repr c (k # ks) rs"
  shows "\<exists>c'. cursor_next_key ops c = Some c' \<and> cursor_repr c' ks rs \<and> cursor_id c' = cursor_id c
    \<and> cursor_finished c' = (ks = [])
    \<and> (ks \<noteq> [] \<longrightarrow> (\<exists>e. block_is_equal_to_prev_key (cursor_input c') = Some e \<and> (e \<longrightarrow> hd ks = k)))"
proof -
  from assms obtain "done" pend later where d: "positioned c" "block_repr (cursor_input c) done pend later"
    "rs = unread c @ concat (map snd later)" "\<not> cursor_finished c" "k = last done" "ks = pend @ concat (map fst later)"
    "done \<noteq> []" "cur_batches c \<noteq> []" "length (rows (last (cur_batches c))) = length (done @ pend)"
    "cur_key_row_idx c = length done"
    by (auto simp: cursor_repr_def split: if_splits)
  moreover have "last_batch_rows ops c = length (done @ pend)"
    using d(1,8,9) by (simp add: last_batch_rows_def num_rows positioned_def)
  ultimately show ?thesis using cursor_step [OF d(1,2,4,10)] by auto
qed

lemma try_from_block_ok:
  assumes "block_repr blk [] [] later"
  shows "\<exists>c. try_from_block ops i blk = Some c \<and> cursor_repr c (concat (map fst later)) (concat (map snd later))
    \<and> cursor_id c = i"
  using cursor_step [of "\<lparr>cursor_id = i, cursor_input = blk, cur_batches = [], cur_batches_changed = False,
       cur_key_row_idx = 0, cur_batch_idx = 0, cur_row_idx = 0, cursor_finished = False\<rparr>" "[]" "[]" later] assms
  by (auto simp: try_from_block_def positioned_def unread_def last_batch_rows_def)

lemma cursor_repr_finished: "cursor_repr c ks rs \<Longrightarrow> cursor_finished c \<longleftrightarrow> ks = []"
  by (auto simp: cursor_repr_def split: if_splits)

lemma cursor_repr_key: "cursor_repr c (k # ks) rs \<Longrightarrow> block_cur_key (cursor_input c) = Some k \<and> current_key c = k"
  by (auto simp: cursor_repr_def current_key_def split: if_splits)

lemma cursor_repr_sorted: "cursor_repr c ks rs \<Longrightarrow> sorted ks"
proof -
  assume c: "cursor_repr c ks rs"
  then obtain "done" pend later where d: "block_repr (cursor_input c) done pend later"
    "ks = [] \<or> (done \<noteq> [] \<and> ks = last done # pend @ concat (map fst later))"
    by (auto simp: cursor_repr_def split: if_splits)
  then show ?thesis using block_repr_sorted [OF d(1)]
    by (cases "done" rule: rev_cases) (auto simp: sorted_append)
qed

lemma cursor_repr_unread:
  assumes "cursor_repr c ks rs"
  shows "length ks < length rs \<Longrightarrow> cur_batch_idx c < length (cur_batches c)"
    and "ks \<noteq> [] \<Longrightarrow> length ks \<le> length rs \<Longrightarrow> cur_batch_idx c < length (cur_batches c)"
proof -
  from assms obtain "done" pend later where d: "positioned c" "block_repr (cursor_input c) done pend later"
    "rs = unread c @ concat (map snd later)" "if ks = [] then later = [] else ks = last done # pend @ concat (map fst later)"
    by (auto simp: cursor_repr_def split: if_splits)
  have len: "length (concat (map snd later)) = length (concat (map fst later))"
    by (rule keyed_lengths [OF block_repr_keyed [OF d(2)]])
  have "unread c = [] \<or> cur_batch_idx c < length (cur_batches c)"
    by (cases "cur_batch_idx c < length (cur_batches c)") (simp_all add: unread_def)
  moreover have "unread c \<noteq> []" if "length ks < length rs \<or> (ks \<noteq> [] \<and> length ks \<le> length rs)"
    using that d(3,4) len by (auto split: if_splits)
  ultimately show "length ks < length rs \<Longrightarrow> cur_batch_idx c < length (cur_batches c)"
    "ks \<noteq> [] \<Longrightarrow> length ks \<le> length rs \<Longrightarrow> cur_batch_idx c < length (cur_batches c)" by blast+
qed

lemma cursor_repr_cong:
  assumes "cursor_repr c ks rs" and "positioned c'" and "unread c' = unread c"
    and "cursor_input c' = cursor_input c" "cursor_finished c' = cursor_finished c" "cur_key_row_idx c' = cur_key_row_idx c"
    and "\<not> cursor_finished c \<Longrightarrow> cur_batches c' \<noteq> [] \<and> last (cur_batches c') = last (cur_batches c)"
  shows "cursor_repr c' ks rs"
  using assms unfolding cursor_repr_def by (auto split: if_splits)

lemma next_row_ok:
  assumes c: "cursor_repr c ks rs" and len: "length ks < length rs"
  shows "\<exists>c'. next_row ops c = Some ((cur_batch_idx c, cur_row_idx c), c') \<and> cursor_repr c' ks (tl rs)
    \<and> cursor_id c' = cursor_id c \<and> cur_batches c' = cur_batches c \<and> cur_batches_changed c' = cur_batches_changed c
    \<and> cur_batch_idx c < length (cur_batches c) \<and> cur_row_idx c < length (rows (cur_batches c ! cur_batch_idx c))
    \<and> hd rs = rows (cur_batches c ! cur_batch_idx c) ! cur_row_idx c"
proof -
  let ?b = "cur_batches c ! cur_batch_idx c"
  have idx: "cur_batch_idx c < length (cur_batches c)" using cursor_repr_unread(1) [OF c len] .
  have pos: "positioned c" using c by (simp add: cursor_repr_def)
  with idx have b: "ok ?b" "cur_row_idx c < length (rows ?b)" by (auto simp: positioned_def)
  have un: "unread c = rows ?b ! cur_row_idx c # drop (cur_row_idx c + 1) (rows ?b)
      @ concat (map rows (drop (cur_batch_idx c + 1) (cur_batches c)))"
    using idx b(2) by (simp add: unread_def Cons_nth_drop_Suc [symmetric])
  let ?c = "if cur_row_idx c + 1 \<ge> num_rows_of ops ?b then c\<lparr>cur_batch_idx := cur_batch_idx c + 1, cur_row_idx := 0\<rparr>
    else c\<lparr>cur_row_idx := cur_row_idx c + 1\<rparr>"
  have un': "unread ?c = tl (unread c)"
  proof (cases "cur_row_idx c + 1 \<ge> num_rows_of ops ?b")
    case True
    then have "drop (cur_row_idx c + 1) (rows ?b) = []" by (simp add: num_rows [OF b(1)])
    with True show ?thesis unfolding un by (simp add: unread_def)
  next
    case False
    then have "drop (cur_row_idx c + 1) (rows ?b @ xs) = drop (cur_row_idx c + 1) (rows ?b) @ xs" for xs
      by (simp add: num_rows [OF b(1)])
    with False show ?thesis unfolding un using idx by (simp add: unread_def Cons_nth_drop_Suc [symmetric])
  qed
  have pos': "positioned ?c"
    using pos idx b by (auto simp: positioned_def num_rows)
  from c obtain "done" pend later where d: "block_repr (cursor_input c) done pend later"
    "rs = unread c @ concat (map snd later)"
    "if cursor_finished c then ks = [] \<and> pend = [] \<and> later = []
        else ks = last done # pend @ concat (map fst later) \<and> done \<noteq> [] \<and> cur_batches c \<noteq> []
          \<and> block_cur_key (cursor_input c) = Some (last done)
          \<and> length (rows (last (cur_batches c))) = length (done @ pend) \<and> cur_key_row_idx c = length done"
    unfolding cursor_repr_def by blast
  have "cursor_repr ?c ks (tl rs)"
    unfolding cursor_repr_def
    by (rule conjI [OF pos'], rule exI [of _ "done"], rule exI [of _ pend], rule exI [of _ later])
      (use d un un' in \<open>auto\<close>)
  moreover have "hd rs = rows ?b ! cur_row_idx c" using d(2) un by simp
  ultimately show ?thesis using idx b by (auto simp: next_row_def Let_def split: if_splits)
qed

lemma clear_ok:
  assumes c: "cursor_repr c ks rs" and len: "length ks \<le> length rs"
  shows "cursor_repr (clear_finished_batches c) ks rs"
proof (cases "cur_batch_idx c > 0")
  case True
  have pos: "positioned c" using c by (simp add: cursor_repr_def)
  let ?c = "clear_finished_batches c"
  have sel: "cur_batches ?c = drop (cur_batch_idx c) (cur_batches c)" "cur_batch_idx ?c = 0"
    "cur_row_idx ?c = cur_row_idx c" "cursor_input ?c = cursor_input c" "cursor_finished ?c = cursor_finished c"
    "cur_key_row_idx ?c = cur_key_row_idx c"
    using True by (simp_all add: clear_finished_batches_def)
  have "positioned ?c"
    using pos by (auto simp: positioned_def sel dest: in_set_dropD split: if_splits)
  moreover have "cur_batch_idx c < length (cur_batches c)" if "\<not> cursor_finished c"
    using that cursor_repr_finished [OF c] cursor_repr_unread(2) [OF c _ len] by blast
  ultimately show ?thesis
    by (intro cursor_repr_cong [OF c]) (auto simp: sel unread_def)
next
  case False
  with c show ?thesis by (simp add: clear_finished_batches_def)
qed

section \<open>The merge loop\<close>

definition cursors_repr :: "'b block_cursor list \<Rightarrow> bytes list list \<Rightarrow> 'r list list \<Rightarrow> bool" where
  "cursors_repr vs kss rss = (length kss = length vs \<and> length rss = length vs
     \<and> (\<forall>i < length vs. cursor_repr (vs ! i) (kss ! i) (rss ! i) \<and> cursor_id (vs ! i) = i))"

definition winner_min :: "'b block_cursor peek_guard \<Rightarrow> bool" where
  "winner_min g = (\<forall>i < length (lt_values (guard_tree g)).
     cursor_le (lt_values (guard_tree g) ! (losers (guard_tree g) ! 0)) (lt_values (guard_tree g) ! i))"

lemma cursors_comparable: "cursors_repr vs kss rss \<Longrightarrow> comparable vs"
proof -
  assume r: "cursors_repr vs kss rss"
  have "cursor_finished c \<or> block_cur_key (cursor_input c) \<noteq> None" if "c \<in> set vs" for c
  proof -
    from that r obtain ks rs where "cursor_repr c ks rs" by (auto simp: cursors_repr_def in_set_conv_nth)
    then show ?thesis by (cases ks) (auto simp: cursor_repr_finished dest: cursor_repr_key)
  qed
  then show ?thesis by (simp add: comparable_def list_all_iff)
qed

lemma cursors_repr_update:
  assumes "cursors_repr vs kss rss" and "cursor_repr c ks rs" and "cursor_id c = i" and "i < length vs"
  shows "cursors_repr (vs[i := c]) (kss[i := ks]) (rss[i := rs])"
  using assms by (auto simp: cursors_repr_def nth_list_update)

lemma winner_key_min:
  assumes r: "cursors_repr vs kss rss" and w: "w < length vs" "kss ! w = k # ks"
    and le: "\<forall>i < length vs. cursor_le (vs ! w) (vs ! i)" and i: "i < length vs" "y \<in> set (kss ! i)"
  shows "k \<le> y"
proof -
  from i(2) obtain y0 ys where ys: "kss ! i = y0 # ys" by (cases "kss ! i") auto
  have ri: "cursor_repr (vs ! i) (y0 # ys) (rss ! i)" and rw: "cursor_repr (vs ! w) (k # ks) (rss ! w)"
    using r i w ys by (auto simp: cursors_repr_def)
  have "k \<le> y0"
    using le i(1) cursor_repr_key [OF ri] cursor_repr_key [OF rw] cursor_repr_finished [OF ri]
    by (auto simp: cursor_le_def)
  moreover have "y0 \<le> y" using cursor_repr_sorted [OF ri] i(2) ys by auto
  ultimately show ?thesis by simp
qed

lemma finished_min_empty:
  assumes r: "cursors_repr vs kss rss" and w: "w < length vs" "cursor_finished (vs ! w)"
    and le: "\<forall>i < length vs. cursor_le (vs ! w) (vs ! i)"
  shows "\<forall>ks \<in> set kss. ks = []"
proof -
  have "kss ! i = []" if "i < length vs" for i
  proof -
    from r that have "cursor_repr (vs ! i) (kss ! i) (rss ! i)" by (simp add: cursors_repr_def)
    moreover have "cursor_finished (vs ! i)" using le w(2) that by (auto simp: cursor_le_def)
    ultimately show ?thesis by (simp add: cursor_repr_finished)
  qed
  then show ?thesis using r by (auto simp: cursors_repr_def in_set_conv_nth)
qed

text \<open>One round of the loop.\<close>

lemma merge_step:
  assumes r: "cursors_repr (lt_values (guard_tree g)) kss rss" and gi: "guard_inv cursor_le g" and wm: "winner_min g"
  defines "w \<equiv> losers (guard_tree g) ! 0"
  assumes k: "kss ! w = k # ks"
  shows "\<exists>c c' g1 same g2. guard_deref g = Some c \<and> \<not> cursor_finished c \<and> cursor_id c = w
    \<and> block_cur_key (cursor_input c) = Some k \<and> cursor_next_key ops c = Some c' \<and> guard_deref_mut (\<lambda>_. c') g = Some g1
    \<and> (if cursor_finished c' then Some False else block_is_equal_to_prev_key (cursor_input c')) = Some same
    \<and> (if same then Some g1 else if comparable (lt_values (guard_tree g1)) then guard_adjust cursor_lt g1 else None) = Some g2
    \<and> lt_values (guard_tree g2) = (lt_values (guard_tree g))[w := c']
    \<and> cursors_repr (lt_values (guard_tree g2)) (kss[w := ks]) rss \<and> guard_inv cursor_le g2 \<and> winner_min g2"
proof -
  let ?vs = "lt_values (guard_tree g)"
  have w: "losers (guard_tree g) \<noteq> []" "w < length ?vs"
    using sort_order.guard_inv_winner [OF gi] by (simp_all add: w_def)
  have rw: "cursor_repr (?vs ! w) (k # ks) (rss ! w)" "cursor_id (?vs ! w) = w" and lens: "length kss = length ?vs" "length rss = length ?vs"
    using r w(2) k by (auto simp: cursors_repr_def)
  from cursor_advance_ok [OF rw(1)] obtain c' where
    c': "cursor_next_key ops (?vs ! w) = Some c'" "cursor_repr c' ks (rss ! w)" "cursor_id c' = w" "cursor_finished c' = (ks = [])"
      "ks \<noteq> [] \<longrightarrow> (\<exists>e. block_is_equal_to_prev_key (cursor_input c') = Some e \<and> (e \<longrightarrow> hd ks = k))"
    using rw(2) by auto
  from sort_order.guard_inv_deref_mut [OF gi, of "\<lambda>_. c'"] obtain g1 where
    g1: "guard_deref_mut (\<lambda>_. c') g = Some g1" "guard_inv cursor_le g1" "dirty g1"
      "losers (guard_tree g1) = losers (guard_tree g)" "lt_values (guard_tree g1) = ?vs[w := c']"
    by (auto simp: w_def)
  have r1: "cursors_repr (lt_values (guard_tree g1)) (kss[w := ks]) rss"
    using cursors_repr_update [OF r c'(2,3) w(2)] by (simp add: g1(5))
  obtain same where same: "(if cursor_finished c' then Some False else block_is_equal_to_prev_key (cursor_input c')) = Some same"
    "same \<longrightarrow> ks \<noteq> [] \<and> hd ks = k" using c'(4,5) by (cases "ks = []") auto
  have "\<exists>g2. (if same then Some g1 else if comparable (lt_values (guard_tree g1)) then guard_adjust cursor_lt g1 else None) = Some g2
      \<and> lt_values (guard_tree g2) = ?vs[w := c'] \<and> guard_inv cursor_le g2 \<and> winner_min g2"
  proof (cases same)
    case True
    with same(2) obtain ks' where ks: "ks = k # ks'" by (cases ks) auto
    have "current_key c' = current_key (?vs ! w)" "\<not> cursor_finished c'" "\<not> cursor_finished (?vs ! w)"
      using cursor_repr_key [OF rw(1)] cursor_repr_key [of c' k ks'] c'(2,4) ks cursor_repr_finished [OF rw(1)] by auto
    then have "winner_min g1"
      using wm w(2) unfolding winner_min_def g1(4,5) w_def [symmetric]
      by (auto simp: nth_list_update cursor_le_def)
    with True g1 show ?thesis by auto
  next
    case False
    from sort_order.guard_adjust_ok [OF g1(2)] obtain g2 where
      g2: "guard_adjust cursor_lt g1 = Some g2" "guard_inv cursor_le g2" "tree_inv cursor_le (guard_tree g2)"
        "lt_values (guard_tree g2) = lt_values (guard_tree g1)" by blast
    moreover have "winner_min g2" using sort_order.tree_inv_winner(4) [OF g2(3)] by (simp add: winner_min_def)
    ultimately show ?thesis using False cursors_comparable [OF r1] g1(5) by auto
  qed
  then obtain g2 where g2: "(if same then Some g1 else if comparable (lt_values (guard_tree g1)) then guard_adjust cursor_lt g1 else None) = Some g2"
    "lt_values (guard_tree g2) = ?vs[w := c']" "guard_inv cursor_le g2" "winner_min g2" by blast
  have "guard_deref g = Some (?vs ! w)" using w by (simp add: guard_deref_def w_def)
  moreover have "\<not> cursor_finished (?vs ! w)" "block_cur_key (cursor_input (?vs ! w)) = Some k"
    using cursor_repr_finished [OF rw(1)] cursor_repr_key [OF rw(1)] by auto
  ultimately show ?thesis using c'(1) g1(1) same(1) g2 r1 g1(5) rw(2) by auto
qed

lemma merge_loop_ok:
  assumes "cursors_repr (lt_values (guard_tree g)) kss rss" and "guard_inv cursor_le g" and "winner_min g"
  shows "\<exists>g' out ids' kss'. merge_loop ops kco ap n g kc ids num
      = Some (g', foldl (\<lambda>c k. kc_add_key kco k c) kc out, (if ap then ids else ids @ ids'), num + length out)
    \<and> picks_ok ids' kss \<and> pick ids' kss = (out, kss')
    \<and> cursors_repr (lt_values (guard_tree g')) kss' rss \<and> guard_inv cursor_le g'
    \<and> length out = min n (sum_list (map length kss)) \<and> sorted out
    \<and> (\<forall>x \<in> set out. \<forall>ys \<in> set kss'. \<forall>y \<in> set ys. x \<le> y)"
  using assms
proof (induction n arbitrary: g kss kc ids num)
  case 0
  then show ?case by (intro exI [of _ g] exI [of _ "[]"] exI [of _ kss]) simp
next
  case (Suc n)
  let ?vs = "lt_values (guard_tree g)" and ?w = "losers (guard_tree g) ! 0"
  have w: "losers (guard_tree g) \<noteq> []" "?w < length ?vs"
    using sort_order.guard_inv_winner [OF Suc.prems(2)] by simp_all
  have lens: "length kss = length ?vs" using Suc.prems(1) by (simp add: cursors_repr_def)
  have le: "\<forall>i < length ?vs. cursor_le (?vs ! ?w) (?vs ! i)" using Suc.prems(3) by (simp add: winner_min_def)
  have deref: "guard_deref g = Some (?vs ! ?w)" using w by (simp add: guard_deref_def)
  show ?case
  proof (cases "kss ! ?w")
    case Nil
    then have fin: "cursor_finished (?vs ! ?w)"
      using Suc.prems(1) w(2) cursor_repr_finished by (auto simp: cursors_repr_def)
    from finished_min_empty [OF Suc.prems(1) w(2) this le] have "sum_list (map length kss) = 0" by simp
    then have "min (Suc n) (sum_list (map length kss)) = 0" by (simp only: min_0R)
    with deref fin Suc.prems show ?thesis
      by (intro exI [of _ g] exI [of _ "[] :: bytes list"] exI [of _ "[] :: nat list"] exI [of _ kss]) simp
  next
    case (Cons k ks)
    from merge_step [OF Suc.prems Cons] obtain c c' g1 same g2 where
      st: "guard_deref g = Some c" "\<not> cursor_finished c" "cursor_id c = ?w"
      "block_cur_key (cursor_input c) = Some k" "cursor_next_key ops c = Some c'" "guard_deref_mut (\<lambda>_. c') g = Some g1"
      "(if cursor_finished c' then Some False else block_is_equal_to_prev_key (cursor_input c')) = Some same"
      "(if same then Some g1 else if comparable (lt_values (guard_tree g1)) then guard_adjust cursor_lt g1 else None) = Some g2"
      and r2: "cursors_repr (lt_values (guard_tree g2)) (kss[?w := ks]) rss" "guard_inv cursor_le g2" "winner_min g2"
      by blast
    let ?kc = "kc_add_key kco k kc" and ?ids = "if ap then ids else ids @ [?w]"
    from Suc.IH [OF r2, of ?kc ?ids "num + 1"] obtain g' out ids' kss' where
      run: "merge_loop ops kco ap n g2 ?kc ?ids (num + 1)
        = Some (g', foldl (\<lambda>c k. kc_add_key kco k c) ?kc out, (if ap then ?ids else ?ids @ ids'), num + 1 + length out)"
      and rest: "picks_ok ids' (kss[?w := ks])" "pick ids' (kss[?w := ks]) = (out, kss')"
      "cursors_repr (lt_values (guard_tree g')) kss' rss" "guard_inv cursor_le g'"
      "length out = min n (sum_list (map length (kss[?w := ks])))" "sorted out"
      "\<forall>x \<in> set out. \<forall>ys \<in> set kss'. \<forall>y \<in> set ys. x \<le> y" by blast
    have "merge_loop ops kco ap (Suc n) g kc ids num = merge_loop ops kco ap n g2 ?kc ?ids (num + 1)"
      using st by (simp only: merge_loop.simps bind.bind_lunit if_False)
    with run have run': "merge_loop ops kco ap (Suc n) g kc ids num
      = Some (g', foldl (\<lambda>c k. kc_add_key kco k c) kc (k # out), (if ap then ids else ids @ ?w # ids'), num + length (k # out))"
      by simp
    have p: "picks_ok (?w # ids') kss" "pick (?w # ids') kss = (k # out, kss')"
      using rest(1,2) Cons w(2) lens by (simp_all add: pick_Cons)
    have total: "sum_list (map length kss) = Suc (sum_list (map length (kss[?w := ks])))"
      using sum_map_update [of ?w kss length ks] Cons w(2) lens by simp
    have min_all: "k \<le> y" if "y \<in># sum_list (map mset kss)" for y
    proof -
      from that obtain ks where "ks \<in> set kss" "y \<in> set ks" by (auto simp: in_mset_sum_list_iff)
      then obtain i where "i < length kss" "y \<in> set (kss ! i)" by (metis in_set_conv_nth)
      then show ?thesis using winner_key_min [OF Suc.prems(1) w(2) Cons le] lens by auto
    qed
    have all: "sum_list (map mset kss) = mset (k # out) + sum_list (map mset kss')"
      using pick_mset [OF p(1)] p(2) by simp
    have "\<forall>y \<in> set out. k \<le> y" "\<forall>ys \<in> set kss'. \<forall>y \<in> set ys. k \<le> y"
      using min_all unfolding all by (auto simp: in_mset_sum_list_iff)
    then show ?thesis using run' p rest(3-7) total
      by (intro exI [of _ g'] exI [of _ "k # out"] exI [of _ "?w # ids'"] exI [of _ kss']) auto
  qed
qed

section \<open>Gathering the rows\<close>

text \<open>The interleaver knows every batch the cursors hold.\<close>

definition located :: "bool \<Rightarrow> nat list \<Rightarrow> 'b list \<Rightarrow> 'b block_cursor list \<Rightarrow> bool" where
  "located single base ilv vs = ((\<forall>b \<in> set ilv. ok b)
     \<and> (\<forall>i < length vs. \<forall>j < length (cur_batches (vs ! i)).
         (if single then j = 0 \<and> i < length ilv \<and> ilv ! i = cur_batches (vs ! i) ! j
          else i < length base \<and> base ! i + j < length ilv \<and> ilv ! (base ! i + j) = cur_batches (vs ! i) ! j)))"

lemma located_cong: "map cur_batches vs' = map cur_batches vs \<Longrightarrow> located single base ilv vs' = located single base ilv vs"
proof -
  assume eq: "map cur_batches vs' = map cur_batches vs"
  then have "length vs' = length vs" by (rule map_eq_imp_length_eq)
  moreover have "cur_batches (vs' ! i) = cur_batches (vs ! i)" if "i < length vs" for i
    using arg_cong [OF eq, of "\<lambda>xs. xs ! i"] that calculation by simp
  ultimately show ?thesis by (simp add: located_def)
qed

lemma stage_rows_ok:
  assumes "cursors_repr vs kss rss" and "located single base ilv vs"
    and "\<forall>i < length vs. length (kss ! i) + count_list ids i \<le> length (rss ! i)" and "\<forall>i \<in> set ids. i < length vs"
  shows "\<exists>ixs vs'. stage_rows ops single base ids vs = Some (ixs, vs') \<and> cursors_repr vs' kss (snd (pick ids rss))
    \<and> map (\<lambda>(i, j). rows (ilv ! i) ! j) ixs = fst (pick ids rss)
    \<and> (\<forall>(i, j) \<in> set ixs. i < length ilv \<and> j < length (rows (ilv ! i)))
    \<and> map cur_batches vs' = map cur_batches vs \<and> map cur_batches_changed vs' = map cur_batches_changed vs"
  using assms
proof (induction ids arbitrary: vs rss)
  case Nil
  then show ?case by simp
next
  case (Cons i ids)
  have i: "i < length vs" using Cons.prems(4) by simp
  have lens: "length rss = length vs" using Cons.prems(1) by (simp add: cursors_repr_def)
  have ri: "cursor_repr (vs ! i) (kss ! i) (rss ! i)" "cursor_id (vs ! i) = i"
    using Cons.prems(1) i by (simp_all add: cursors_repr_def)
  have lt: "length (kss ! i) < length (rss ! i)" using Cons.prems(3) i by fastforce
  from next_row_ok [OF ri(1) lt] obtain c' where
    c': "next_row ops (vs ! i) = Some ((cur_batch_idx (vs ! i), cur_row_idx (vs ! i)), c')" "cursor_repr c' (kss ! i) (tl (rss ! i))"
      "cursor_id c' = i" "cur_batches c' = cur_batches (vs ! i)" "cur_batches_changed c' = cur_batches_changed (vs ! i)"
      "cur_batch_idx (vs ! i) < length (cur_batches (vs ! i))"
      "cur_row_idx (vs ! i) < length (rows (cur_batches (vs ! i) ! cur_batch_idx (vs ! i)))"
      "hd (rss ! i) = rows (cur_batches (vs ! i) ! cur_batch_idx (vs ! i)) ! cur_row_idx (vs ! i)"
    using ri(2) by auto
  let ?vs = "vs[i := c']" and ?rss = "rss[i := tl (rss ! i)]"
  let ?p = "if single then i else base ! i + cur_batch_idx (vs ! i)"
  have loc: "?p < length ilv" "ilv ! ?p = cur_batches (vs ! i) ! cur_batch_idx (vs ! i)" "\<not> single \<Longrightarrow> i < length base"
    using Cons.prems(2) i c'(6) by (auto simp: located_def split: if_splits)
  have same: "map cur_batches ?vs = map cur_batches vs" "map cur_batches_changed ?vs = map cur_batches_changed vs"
    using c'(4,5) by (simp_all add: map_update_same)
  have rep: "cursors_repr ?vs kss ?rss"
    using cursors_repr_update [OF Cons.prems(1) c'(2,3) i] by simp
  have cnt: "\<forall>j < length ?vs. length (kss ! j) + count_list ids j \<le> length (?rss ! j)"
  proof (intro allI impI)
    fix j assume "j < length ?vs"
    then have "length (kss ! j) + count_list (i # ids) j \<le> length (rss ! j)" using Cons.prems(3) by simp
    then show "length (kss ! j) + count_list ids j \<le> length (?rss ! j)"
      using lens i by (cases "j = i") auto
  qed
  from Cons.IH [OF rep _ cnt] same(1) Cons.prems(2,4) located_cong [OF same(1)] obtain ixs vs' where
    rec: "stage_rows ops single base ids ?vs = Some (ixs, vs')" "cursors_repr vs' kss (snd (pick ids ?rss))"
      "map (\<lambda>(i, j). rows (ilv ! i) ! j) ixs = fst (pick ids ?rss)"
      "\<forall>(i, j) \<in> set ixs. i < length ilv \<and> j < length (rows (ilv ! i))"
      "map cur_batches vs' = map cur_batches ?vs" "map cur_batches_changed vs' = map cur_batches_changed ?vs"
    by auto
  have "stage_rows ops single base (i # ids) vs = Some ((?p, cur_row_idx (vs ! i)) # ixs, vs')"
    using c'(1,3) i loc(3) rec(1) by simp
  then show ?case
    using rec(2-6) same loc(1,2) c'(7,8)
    by (intro exI [of _ "(?p, cur_row_idx (vs ! i)) # ixs"] exI [of _ vs']) (simp add: pick_Cons)
qed

lemma base_indices_nth:
  "i < length vs \<Longrightarrow> j < length (cur_batches (vs ! i)) \<Longrightarrow>
    i < length (base_indices n vs) \<and> n \<le> base_indices n vs ! i
    \<and> base_indices n vs ! i - n + j < length (concat (map cur_batches vs))
    \<and> concat (map cur_batches vs) ! (base_indices n vs ! i - n + j) = cur_batches (vs ! i) ! j"
proof (induction vs arbitrary: n i)
  case (Cons v vs)
  show ?case
  proof (cases i)
    case 0
    with Cons.prems show ?thesis by (simp add: nth_append)
  next
    case (Suc i')
    with Cons.IH [of i' "n + length (cur_batches v)"] Cons.prems show ?thesis
      by (auto simp: nth_append)
  qed
qed simp

lemma located_concat:
  assumes "\<forall>v \<in> set vs. positioned v"
  shows "located False (base_indices 0 vs) (concat (map cur_batches vs)) vs"
  using assms base_indices_nth [of _ vs _ 0] by (auto simp: located_def positioned_def)

section \<open>The merger\<close>

definition interleaver_ok :: "'b merger \<Rightarrow> bool" where
  "interleaver_ok m =
     (if single_batch_mode m
      then located True (batches_base_indices m) (batch_interleaver m) (lt_values (cursors m))
        \<and> list_all exhausted (lt_values (cursors m))
      else list_ex cur_batches_changed (lt_values (cursors m))
        \<or> located False (batches_base_indices m) (batch_interleaver m) (lt_values (cursors m)))"

definition merger_repr :: "bool \<Rightarrow> 'b merger \<Rightarrow> bytes list list \<Rightarrow> 'r list list \<Rightarrow> bool" where
  "merger_repr ap m kss rss = (cursors_repr (lt_values (cursors m)) kss rss \<and> tree_inv cursor_le (cursors m)
     \<and> (\<not> ap \<longrightarrow> interleaver_ok m)
     \<and> (\<forall>i < length kss. if ap then length (kss ! i) \<le> length (rss ! i) else length (kss ! i) = length (rss ! i)))"

lemma cursors_positioned: "cursors_repr vs kss rss \<Longrightarrow> \<forall>v \<in> set vs. positioned v"
  by (auto simp: cursors_repr_def cursor_repr_def in_set_conv_nth)

lemma interleaver_evolves:
  assumes m: "interleaver_ok m" and ev: "list_all2 evolves (lt_values (cursors m)) (lt_values t)"
  shows "interleaver_ok (m\<lparr>cursors := t\<rparr>)"
proof (cases "single_batch_mode m")
  case True
  have ex: "exhausted (lt_values t ! i) \<and> cur_batches (lt_values t ! i) = cur_batches (lt_values (cursors m) ! i)"
    if "i < length (lt_values t)" for i
    using m True ev that by (auto simp: interleaver_ok_def list_all2_conv_all_nth evolves_def list_all_length)
  then have "map cur_batches (lt_values t) = map cur_batches (lt_values (cursors m))"
    using ev by (auto simp: list_all2_conv_all_nth intro!: nth_equalityI)
  from located_cong [OF this] True m ex show ?thesis by (simp add: interleaver_ok_def list_all_length)
next
  case False
  show ?thesis
  proof (cases "list_ex cur_batches_changed (lt_values t)")
    case True
    with False show ?thesis by (simp add: interleaver_ok_def)
  next
    case nochange: False
    then have "\<not> list_ex cur_batches_changed (lt_values (cursors m))"
      using ev by (fastforce simp: list_ex_length list_all2_conv_all_nth evolves_def)
    moreover have "map cur_batches (lt_values t) = map cur_batches (lt_values (cursors m))"
      using ev nochange by (auto simp: list_all2_conv_all_nth evolves_def list_ex_length intro!: nth_equalityI)
    from located_cong [OF this] calculation show ?thesis using m False by (simp add: interleaver_ok_def)
  qed
qed

lemma refresh_ok:
  assumes m: "interleaver_ok m" and r: "cursors_repr (lt_values (cursors m)) kss rss"
  defines "m' \<equiv> refresh_interleaver m"
  shows "located (single_batch_mode m') (batches_base_indices m') (batch_interleaver m') (lt_values (cursors m'))
    \<and> cursors_repr (lt_values (cursors m')) kss rss \<and> losers (cursors m') = losers (cursors m)
    \<and> map cursor_finished (lt_values (cursors m')) = map cursor_finished (lt_values (cursors m))
    \<and> map cursor_input (lt_values (cursors m')) = map cursor_input (lt_values (cursors m))
    \<and> single_batch_mode m' = single_batch_mode m \<and> num_total_output_rows m' = num_total_output_rows m"
proof (cases "\<not> single_batch_mode m \<and> list_ex cur_batches_changed (lt_values (cursors m))")
  case True
  let ?vs = "lt_values (cursors m)" and ?f = "\<lambda>c. c\<lparr>cur_batches_changed := False\<rparr>"
  have "cursor_repr (?f c) ks rs = cursor_repr c ks rs" for c ks rs
    by (simp add: cursor_repr_def positioned_def unread_def)
  then have "cursors_repr (map ?f ?vs) kss rss" using r by (simp add: cursors_repr_def)
  moreover have "map cur_batches (map ?f ?vs) = map cur_batches ?vs" by simp
  ultimately show ?thesis
    using True located_concat [OF cursors_positioned [OF r]] located_cong [of "map ?f ?vs" ?vs]
    by (simp add: m'_def refresh_interleaver_def comp_def)
next
  case False
  with m r show ?thesis by (auto simp: m'_def refresh_interleaver_def interleaver_ok_def Let_def split: if_splits)
qed

lemma clear_simps [simp]:
  "cursor_id (clear_finished_batches c) = cursor_id c" "cursor_finished (clear_finished_batches c) = cursor_finished c"
  "cursor_input (clear_finished_batches c) = cursor_input c"
  by (simp_all add: clear_finished_batches_def)

text \<open>After clearing, either nothing was dropped, or a cursor says that its batches changed.\<close>

lemma clear_located:
  assumes pos: "\<forall>v \<in> set vs. positioned v" and loc: "located single base ilv vs"
  shows "if single then located True base ilv (map clear_finished_batches vs)
    else list_ex cur_batches_changed (map clear_finished_batches vs) \<or> located False base ilv (map clear_finished_batches vs)"
proof (cases "\<exists>v \<in> set vs. cur_batch_idx v > 0")
  case True
  then obtain v where v: "v \<in> set vs" "cur_batch_idx v > 0" by blast
  with pos have "cur_batches v \<noteq> []" by (fastforce simp: positioned_def)
  with v have "cur_batches_changed (clear_finished_batches v)" by (simp add: clear_finished_batches_def)
  moreover have "located True base ilv (map clear_finished_batches vs)" if single
  proof -
    have "length (cur_batches (vs ! i)) \<le> 1" if "i < length vs" for i
    proof -
      have "\<forall>j < length (cur_batches (vs ! i)). j = 0" using loc \<open>single\<close> that by (simp add: located_def)
      then show ?thesis by (metis not_le zero_neq_one)
    qed
    then show ?thesis
      using loc \<open>single\<close> by (fastforce simp: located_def clear_finished_batches_def split: if_splits)
  qed
  ultimately show ?thesis using v by (auto simp: list_ex_iff)
next
  case False
  then have "map clear_finished_batches vs = vs" by (auto simp: clear_finished_batches_def intro: map_idI)
  with loc show ?thesis by auto
qed

lemma cursors_clear:
  assumes "cursors_repr vs kss rss" and "\<forall>i < length kss. length (kss ! i) \<le> length (rss ! i)"
  shows "cursors_repr (map clear_finished_batches vs) kss rss"
  using assms clear_ok by (simp add: cursors_repr_def)

text \<open>The tournament only looks at the current keys.\<close>

lemma tree_inv_cong:
  assumes "tree_inv cursor_le t" and "losers t' = losers t"
    and "map cursor_finished (lt_values t') = map cursor_finished (lt_values t)"
    and "map cursor_input (lt_values t') = map cursor_input (lt_values t)"
  shows "tree_inv cursor_le t'"
proof -
  have len: "length (lt_values t') = length (lt_values t)" using assms(3) by (rule map_eq_imp_length_eq)
  have "cursor_finished (lt_values t' ! i) = cursor_finished (lt_values t ! i)"
    "cursor_input (lt_values t' ! i) = cursor_input (lt_values t ! i)" if "i < length (lt_values t)" for i
    using arg_cong [OF assms(3), of "\<lambda>xs. xs ! i"] arg_cong [OF assms(4), of "\<lambda>xs. xs ! i"] that len by simp_all
  then have le: "cursor_le (lt_values t' ! i) (lt_values t' ! j) = cursor_le (lt_values t ! i) (lt_values t ! j)"
    if "i < length (lt_values t)" "j < length (lt_values t)" for i j
    using that by (simp add: cursor_le_def current_key_def)
  from assms(1) obtain W where W: "tournament cursor_le (lt_values t) (losers t) W" by (auto simp: tree_inv_def)
  have "tournament cursor_le (lt_values t') (losers t) W"
    using W tournament_range [OF W] unfolding tournament_def played_def len
    by (auto simp: le)
  moreover have "lt_values t' \<noteq> []" using len assms(1) by (auto simp: tree_inv_def)
  ultimately show ?thesis using assms(2) by (auto simp: tree_inv_def)
qed

lemma gather_ok:
  assumes m: "interleaver_ok m" and r: "cursors_repr (lt_values (cursors m)) kss rss" and t: "tree_inv cursor_le (cursors m)"
    and cnt: "\<forall>i < length kss. length (kss ! i) + count_list ids i \<le> length (rss ! i)"
    and ids: "\<forall>i \<in> set ids. i < length kss" "ids \<noteq> []" and fit: "fits (fst (pick ids rss))"
  shows "\<exists>b m'. gather_rows ops ids m = Some (b, m') \<and> ok b \<and> rows b = fst (pick ids rss)
    \<and> cursors_repr (lt_values (cursors m')) kss (snd (pick ids rss)) \<and> tree_inv cursor_le (cursors m')
    \<and> single_batch_mode m' = single_batch_mode m
    \<and> (single_batch_mode m \<longrightarrow> list_all exhausted (lt_values (cursors m')))
    \<and> located (single_batch_mode m) (batches_base_indices m') (batch_interleaver m') (lt_values (cursors m'))
    \<and> num_total_output_rows m' = num_total_output_rows m"
proof -
  let ?m = "refresh_interleaver m"
  from refresh_ok [OF m r] have
    rf: "located (single_batch_mode ?m) (batches_base_indices ?m) (batch_interleaver ?m) (lt_values (cursors ?m))"
    "cursors_repr (lt_values (cursors ?m)) kss rss" "losers (cursors ?m) = losers (cursors m)"
    "map cursor_finished (lt_values (cursors ?m)) = map cursor_finished (lt_values (cursors m))"
    "map cursor_input (lt_values (cursors ?m)) = map cursor_input (lt_values (cursors m))"
    "single_batch_mode ?m = single_batch_mode m" "num_total_output_rows ?m = num_total_output_rows m" by blast+
  have len: "length (lt_values (cursors ?m)) = length kss" using rf(2) by (simp add: cursors_repr_def)
  from stage_rows_ok [OF rf(2,1), of ids] cnt ids(1) len obtain ixs vs where
    st: "stage_rows ops (single_batch_mode ?m) (batches_base_indices ?m) ids (lt_values (cursors ?m)) = Some (ixs, vs)"
      "cursors_repr vs kss (snd (pick ids rss))" "map (\<lambda>(i, j). rows (batch_interleaver ?m ! i) ! j) ixs = fst (pick ids rss)"
      "\<forall>(i, j) \<in> set ixs. i < length (batch_interleaver ?m) \<and> j < length (rows (batch_interleaver ?m ! i))"
      "map cur_batches vs = map cur_batches (lt_values (cursors ?m))" by auto
  have "ixs \<noteq> []" using arg_cong [OF st(3), of length] ids(2) by auto
  then have "batch_interleaver ?m \<noteq> []" using st(4) by (cases ixs) auto
  moreover have "\<forall>b \<in> set (batch_interleaver ?m). ok b" using rf(1) by (simp add: located_def)
  ultimately obtain b where b: "interleave_batches ops (batch_interleaver ?m) ixs = Some b" "ok b" "rows b = fst (pick ids rss)"
    using interleave_rows [of "batch_interleaver ?m" ixs] st(3,4) fit by auto
  have evs: "map cursor_finished vs = map cursor_finished (lt_values (cursors ?m)) \<and> map cursor_input vs = map cursor_input (lt_values (cursors ?m))"
    using stage_rows_same [OF st(1)] .
  let ?m' = "?m\<lparr>cursors := (cursors ?m)\<lparr>lt_values := vs\<rparr>\<rparr>"
  have "tree_inv cursor_le (cursors ?m')"
    by (rule tree_inv_cong [OF t]) (use evs rf in simp_all)
  moreover have "list_all exhausted vs" if "single_batch_mode m"
  proof -
    have "map cursor_input vs = map cursor_input (lt_values (cursors m))" using evs rf(5) by simp
    from exhausted_cong [OF this] m that show ?thesis by (simp add: interleaver_ok_def)
  qed
  moreover have "located (single_batch_mode m) (batches_base_indices ?m) (batch_interleaver ?m) vs"
    using rf(1,6) located_cong [OF st(5)] by simp
  ultimately show ?thesis using st(1,2) b rf(6,7) by (simp add: gather_rows_def Let_def)
qed

lemma interleaver_located:
  assumes "located (single_batch_mode m) (batches_base_indices m) (batch_interleaver m) (lt_values (cursors m))"
    and "single_batch_mode m \<longrightarrow> list_all exhausted (lt_values (cursors m))" and "\<forall>v \<in> set (lt_values (cursors m)). positioned v"
  shows "interleaver_ok (m\<lparr>num_total_output_rows := n,
    cursors := (cursors m)\<lparr>lt_values := map clear_finished_batches (lt_values (cursors m))\<rparr>\<rparr>)"
  using clear_located [OF assms(3,1)] assms(2)
  by (auto simp: interleaver_ok_def list_all_iff exhausted_def split: if_splits)

lemma tree_inv_clear:
  "tree_inv cursor_le t \<Longrightarrow> tree_inv cursor_le (t\<lparr>lt_values := map clear_finished_batches (lt_values t)\<rparr>)"
  by (erule tree_inv_cong) (simp_all add: comp_def)

text \<open>
  One call of \<open>next\<close>: it draws the smallest keys, as many as it may, and answers them with their
  rows; every key left is at least as large.
\<close>

lemma merger_next_ok:
  assumes m: "merger_repr ap m kss rss"
    and fit: "\<And>xs. \<not> ap \<Longrightarrow> mset xs \<subseteq># sum_list (map mset rss) \<Longrightarrow> length xs \<le> batch_size \<Longrightarrow> fits xs"
  shows "\<exists>r m' ids out kss'. merger_next ops kco ap limit batch_size m = Some (r, m')
    \<and> picks_ok ids kss \<and> pick ids kss = (out, kss')
    \<and> length out = min (min batch_size (limit - num_total_output_rows m)) (sum_list (map length kss))
    \<and> sorted out \<and> (\<forall>x \<in> set out. \<forall>ys \<in> set kss'. \<forall>y \<in> set ys. x \<le> y)
    \<and> merger_repr ap m' kss' (if ap then rss else snd (pick ids rss))
    \<and> num_total_output_rows m' = num_total_output_rows m + length out
    \<and> (if out = [] then r = None
       else \<exists>b. r = Some (kc_freeze kco (foldl (\<lambda>c k. kc_add_key kco k c) (kc_default kco) out), b)
         \<and> (if ap then b = zero_column_batch ops (length out) else ok b \<and> rows b = fst (pick ids rss)))"
proof -
  let ?n = "min batch_size (limit - num_total_output_rows m)" and ?g = "peek_mut (cursors m)"
  have r: "cursors_repr (lt_values (guard_tree ?g)) kss rss" and t: "tree_inv cursor_le (cursors m)" and il: "\<not> ap \<Longrightarrow> interleaver_ok m"
    and al: "\<forall>i < length kss. if ap then length (kss ! i) \<le> length (rss ! i) else length (kss ! i) = length (rss ! i)"
    using m by (simp_all add: merger_repr_def peek_mut_def)
  have gi: "guard_inv cursor_le ?g" by (rule sort_order.guard_inv_peek_mut [OF t])
  have wm: "winner_min ?g" using sort_order.tree_inv_winner(4) [OF t] by (simp add: winner_min_def peek_mut_def)
  from merge_loop_ok [OF r gi wm, of kco ap ?n "kc_default kco" "[]" 0] obtain g out ids kss' where
    run0: "merge_loop ops kco ap ?n ?g (kc_default kco) [] 0
      = Some (g, foldl (\<lambda>c k. kc_add_key kco k c) (kc_default kco) out, (if ap then [] else [] @ ids), 0 + length out)"
    and p: "picks_ok ids kss" "pick ids kss = (out, kss')"
    and r': "cursors_repr (lt_values (guard_tree g)) kss' rss" and g: "guard_inv cursor_le g"
    and out: "length out = min ?n (sum_list (map length kss))" "sorted out" "\<forall>x \<in> set out. \<forall>ys \<in> set kss'. \<forall>y \<in> set ys. x \<le> y"
    by blast
  have run: "merge_loop ops kco ap ?n ?g (kc_default kco) [] 0
      = Some (g, foldl (\<lambda>c k. kc_add_key kco k c) (kc_default kco) out, (if ap then [] else ids), length out)"
    using run0 by simp
  from sort_order.guard_drop_ok [OF g] obtain t' where
    t': "guard_drop cursor_lt g = Some t'" "tree_inv cursor_le t'" "lt_values t' = lt_values (guard_tree g)" by blast
  have ev: "list_all2 evolves (lt_values (cursors m)) (lt_values t')"
    using merge_loop_evolves [OF run] t'(3) by (simp add: peek_mut_def)
  let ?m = "m\<lparr>cursors := t'\<rparr>"
  have il': "\<not> ap \<Longrightarrow> interleaver_ok ?m" by (rule interleaver_evolves [OF il ev])
  have r1: "cursors_repr (lt_values (cursors ?m)) kss' rss" using r' t'(3) by simp
  have lk: "length kss' = length kss" using pick_length(2) [of ids kss] p(2) by simp
  have cnt: "length (kss' ! i) + count_list ids i = length (kss ! i)" if "i < length kss" for i
    using pick_count [OF p(1) that] p(2) by simp
  have lids: "length ids = length out" using pick_length(1) [of ids kss] p(2) by simp
  have run1: "merger_next ops kco ap limit batch_size m = (if out = [] then Some (None, ?m)
     else do { (b, m') \<leftarrow> (if \<not> ap then gather_rows ops ids ?m else Some (zero_column_batch ops (length out), ?m));
               Some (Some (kc_freeze kco (foldl (\<lambda>c k. kc_add_key kco k c) (kc_default kco) out), b),
                 m'\<lparr>num_total_output_rows := num_total_output_rows m' + length out,
                    cursors := (cursors m')\<lparr>lt_values := map clear_finished_batches (lt_values (cursors m'))\<rparr>\<rparr>) })"
    using run t'(1) cursors_comparable [OF r'] by (simp add: merger_next_def Let_def)
  show ?thesis
  proof (cases "out = []")
    case True
    then have "ids = []" using lids by simp
    then have e: "kss' = kss" "(if ap then rss else snd (pick ids rss)) = rss" using p(2) by simp_all
    have "merger_repr ap ?m kss' rss" using r1 t'(2) il' al e(1) by (simp add: merger_repr_def)
    moreover have "num_total_output_rows ?m = num_total_output_rows m + length out" using True by simp
    moreover have "merger_next ops kco ap limit batch_size m = Some (None, ?m)" unfolding run1 by (rule if_P [OF True])
    ultimately show ?thesis
      by (intro exI [of _ None] exI [of _ ?m] exI [of _ ids] exI [of _ out] exI [of _ kss'] conjI)
        (use p out True e(2) in \<open>simp_all only: if_True simp_thms\<close>)
  next
    case False
    have al': "length (kss ! i) \<le> length (rss ! i)" if "i < length kss" for i
      using al that by (cases ap) simp_all
    have le: "\<forall>i < length kss'. length (kss' ! i) \<le> length (rss ! i)"
    proof (intro allI impI)
      fix i assume "i < length kss'"
      with cnt [of i] al' [of i] lk show "length (kss' ! i) \<le> length (rss ! i)" by simp
    qed
    show ?thesis
    proof (cases ap)
      case True
      let ?m' = "?m\<lparr>num_total_output_rows := num_total_output_rows m + length out,
        cursors := t'\<lparr>lt_values := map clear_finished_batches (lt_values t')\<rparr>\<rparr>"
      have "merger_repr ap ?m' kss' rss"
        using cursors_clear [OF r1 le] tree_inv_clear [OF t'(2)] le True by (simp add: merger_repr_def)
      then show ?thesis unfolding run1
        by (intro exI [of _ "Some (kc_freeze kco (foldl (\<lambda>c k. kc_add_key kco k c) (kc_default kco) out), zero_column_batch ops (length out))"]
            exI [of _ ?m'] exI [of _ ids] exI [of _ out] exI [of _ kss']) (use \<open>out \<noteq> []\<close> True p out in simp)
    next
      case False
      have z: "picks_ok ids rss" "length rss = length kss"
        using pick_zip [of kss rss ids] r al False p(1) by (auto simp: cursors_repr_def)
      have cnt': "\<forall>i < length kss'. length (kss' ! i) + count_list ids i \<le> length (rss ! i)"
        using cnt al' lk by simp
      have ids: "\<forall>i \<in> set ids. i < length kss'" using picks_ok_bound [OF p(1)] lk by simp
      have "mset (fst (pick ids rss)) \<subseteq># sum_list (map mset rss)" using pick_mset [OF z(1)] by simp
      moreover have "length (fst (pick ids rss)) \<le> batch_size" using lids out(1) by simp
      ultimately have "fits (fst (pick ids rss))" using fit False by blast
      moreover have "ids \<noteq> []" using lids \<open>out \<noteq> []\<close> by auto
      moreover have "tree_inv cursor_le (cursors ?m)" using t'(2) by simp
      ultimately obtain b m1 where
        b: "gather_rows ops ids ?m = Some (b, m1)" "ok b" "rows b = fst (pick ids rss)"
          "cursors_repr (lt_values (cursors m1)) kss' (snd (pick ids rss))" "tree_inv cursor_le (cursors m1)"
          "single_batch_mode m1 = single_batch_mode ?m" "single_batch_mode ?m \<longrightarrow> list_all exhausted (lt_values (cursors m1))"
          "located (single_batch_mode ?m) (batches_base_indices m1) (batch_interleaver m1) (lt_values (cursors m1))"
          "num_total_output_rows m1 = num_total_output_rows ?m"
        using gather_ok [OF il' [OF False] r1 _ cnt' ids] by blast
      have eq: "\<forall>i < length kss'. length (kss' ! i) = length (snd (pick ids rss) ! i)"
      proof (intro allI impI)
        fix i assume i: "i < length kss'"
        with pick_count [OF z(1), of i] cnt [of i] al False lk z(2)
        show "length (kss' ! i) = length (snd (pick ids rss) ! i)" by simp
      qed
      let ?m' = "m1\<lparr>num_total_output_rows := num_total_output_rows m1 + length out,
        cursors := (cursors m1)\<lparr>lt_values := map clear_finished_batches (lt_values (cursors m1))\<rparr>\<rparr>"
      have "interleaver_ok ?m'"
        by (rule interleaver_located) (use b cursors_positioned in auto)
      then have "merger_repr ap ?m' kss' (snd (pick ids rss))"
        using cursors_clear [OF b(4)] tree_inv_clear [OF b(5)] eq False by (simp add: merger_repr_def)
      then show ?thesis unfolding run1
        by (intro exI [of _ "Some (kc_freeze kco (foldl (\<lambda>c k. kc_add_key kco k c) (kc_default kco) out), b)"]
            exI [of _ ?m'] exI [of _ ids] exI [of _ out] exI [of _ kss']) (use \<open>out \<noteq> []\<close> False p out b in simp)
    qed
  qed
qed

section \<open>Starting a merge\<close>

lemma try_from_changed:
  assumes "try_from_block ops i blk = Some c" and "\<not> cursor_finished c"
  shows "cur_batches_changed c"
proof -
  let ?c0 = "\<lparr>cursor_id = i, cursor_input = blk, cur_batches = [], cur_batches_changed = False,
       cur_key_row_idx = 0, cur_batch_idx = 0, cur_row_idx = 0, cursor_finished = False\<rparr>"
  from assms obtain c1 where "cursor_load_next_batch ops ?c0 = Some (c1, True)" "cursor_read_key c1 = Some c"
    by (auto simp: try_from_block_def cursor_next_key_def last_batch_rows_def split: Option.bind_splits if_splits)
  moreover from this(1) have "cur_batches_changed c1"
    by (auto simp: cursor_load_next_batch_def split: Option.bind_splits option.splits)
  ultimately show ?thesis using read_key_evolves by (auto simp: evolves_def)
qed

lemma try_from_single:
  assumes "try_from_block ops i blk = Some c" and "is_single_batch blk"
  shows "exhausted c \<and> length (cur_batches c) = 1"
proof -
  from assms(2) obtain m where m: "blk = InMemBlock m" "length (sorted_batches m) = 1" by (cases blk) auto
  then obtain b where "sorted_batches m = [b]" by (cases "sorted_batches m") auto
  with m assms(1) show ?thesis
    by (auto simp: try_from_block_def cursor_next_key_def last_batch_rows_def cursor_load_next_batch_def
        cursor_read_key_def exhausted_def split: list.splits Option.bind_splits if_splits)
qed

lemma first_batches_single:
  "\<forall>c \<in> set cs. length (cur_batches c) = 1 \<Longrightarrow> first_batches cs = Some (map (\<lambda>c. cur_batches c ! 0) cs)"
  by (induction cs) auto

definition fresh_blocks :: "'b sorted_block list \<Rightarrow> (bytes list \<times> 'r list) list list \<Rightarrow> bool" where
  "fresh_blocks blocks laters = list_all2 (\<lambda>blk later. block_repr blk [] [] later \<and> later \<noteq> []) blocks laters"

lemma fresh_cursors:
  assumes "fresh_blocks blocks laters"
  shows "\<exists>cs. those (map2 (try_from_block ops) [0..<length blocks] blocks) = Some cs
    \<and> cursors_repr cs (map (\<lambda>l. concat (map fst l)) laters) (map (\<lambda>l. concat (map snd l)) laters)
    \<and> length cs = length blocks \<and> (\<forall>i < length cs. try_from_block ops i (blocks ! i) = Some (cs ! i))"
proof -
  have "\<exists>c. try_from_block ops i (blocks ! i) = Some c
      \<and> cursor_repr c (concat (map fst (laters ! i))) (concat (map snd (laters ! i))) \<and> cursor_id c = i"
    if "i < length blocks" for i
    using assms that by (intro try_from_block_ok) (simp add: fresh_blocks_def list_all2_conv_all_nth)
  then obtain f where f: "\<And>i. i < length blocks \<Longrightarrow> try_from_block ops i (blocks ! i) = Some (f i)
      \<and> cursor_repr (f i) (concat (map fst (laters ! i))) (concat (map snd (laters ! i))) \<and> cursor_id (f i) = i"
    by metis
  have len: "length laters = length blocks" using assms by (simp add: fresh_blocks_def list_all2_lengthD)
  have "map2 (try_from_block ops) [0..<length blocks] blocks = map Some (map f [0..<length blocks])"
    by (rule nth_equalityI) (simp_all add: f)
  then have "those (map2 (try_from_block ops) [0..<length blocks] blocks) = Some (map f [0..<length blocks])"
    by (simp only: those_Some_iff)
  then show ?thesis
    by (intro exI [of _ "map f [0..<length blocks]"]) (simp add: cursors_repr_def f len)
qed

lemma keyed_nonempty: "keyed later \<Longrightarrow> later \<noteq> [] \<Longrightarrow> concat (map fst later) \<noteq> []"
  by (cases later) (auto simp: keyed_def)

lemma merger_try_new_ok:
  assumes fresh: "fresh_blocks blocks laters" and ne: "blocks \<noteq> []" and big: "length blocks < usize_max"
  shows "\<exists>m. merger_try_new ops blocks = Some m \<and> num_total_output_rows m = 0
    \<and> merger_repr ap m (map (\<lambda>l. concat (map fst l)) laters) (map (\<lambda>l. concat (map snd l)) laters)"
proof -
  let ?kss = "map (\<lambda>l. concat (map fst l)) laters" and ?rss = "map (\<lambda>l. concat (map snd l)) laters"
  from fresh_cursors [OF fresh] obtain cs where
    cs: "those (map2 (try_from_block ops) [0..<length blocks] blocks) = Some cs" "cursors_repr cs ?kss ?rss"
      "length cs = length blocks" "\<And>i. i < length cs \<Longrightarrow> try_from_block ops i (blocks ! i) = Some (cs ! i)" by auto
  have len: "length laters = length blocks" using fresh by (simp add: fresh_blocks_def list_all2_lengthD)
  have kd: "keyed (laters ! i)" "laters ! i \<noteq> []" if "i < length blocks" for i
    using fresh that block_repr_keyed by (auto simp: fresh_blocks_def list_all2_conv_all_nth)
  have "cs \<noteq> []" using cs(3) ne by auto
  with sort_order.new_tree_ok [of cs] cs(3) big obtain t where
    t: "new_tree cursor_lt cs = Some t" "lt_values t = cs" "tree_inv cursor_le t" by auto
  let ?single = "list_all is_single_batch blocks"
  let ?ilv = "if ?single then map (\<lambda>c. cur_batches c ! 0) cs else [empty_batch ops]"
  let ?m = "\<lparr>cursors = t, batch_interleaver = ?ilv, single_batch_mode = ?single, batches_base_indices = [],
    num_total_output_rows = 0\<rparr>"
  have one: "exhausted c \<and> length (cur_batches c) = 1" if "?single" "c \<in> set cs" for c
    using that cs(3,4) try_from_single by (metis in_set_conv_nth list_all_length)
  have "(if ?single then first_batches cs else Some [empty_batch ops]) = Some ?ilv"
    using first_batches_single one by auto
  then have run: "merger_try_new ops blocks = Some ?m"
    using cs(1) cursors_comparable [OF cs(2)] t(1) by (simp add: merger_try_new_def Let_def)
  have "interleaver_ok ?m"
  proof (cases ?single)
    case True
    have "located True [] (map (\<lambda>c. cur_batches c ! 0) cs) cs"
      using one [OF True] cursors_positioned [OF cs(2)] by (auto simp: located_def positioned_def)
    with True one show ?thesis by (simp add: interleaver_ok_def t(2) list_all_iff)
  next
    case False
    have "0 < length cs" using ne cs(3) by simp
    then have "cursor_repr (cs ! 0) (?kss ! 0) (?rss ! 0)" using cs(2) unfolding cursors_repr_def by blast
    moreover have "?kss ! 0 \<noteq> []" using kd [of 0] keyed_nonempty [of "laters ! 0"] ne len by simp
    ultimately have "cur_batches_changed (cs ! 0)"
      using try_from_changed [OF cs(4) [OF \<open>0 < length cs\<close>]] cursor_repr_finished by blast
    with False \<open>0 < length cs\<close> show ?thesis by (auto simp: interleaver_ok_def t(2) list_ex_length)
  qed
  moreover have "\<forall>i < length ?kss. length (?kss ! i) = length (?rss ! i)"
    using keyed_lengths kd len by simp
  ultimately have "merger_repr ap ?m ?kss ?rss" using cs(2) t by (simp add: merger_repr_def)
  with run show ?thesis by auto
qed

end

end
