(* ===== verification/External_Sort.thy ===== *)
theory External_Sort
  imports Sort_Merger
begin

text \<open>
  The external sorter (\<open>ExternalSorter\<close> of \<open>sort_exec.rs\<close>): batches are sorted by key when they
  arrive, kept as in-memory blocks, merged into spills when memory runs short, spills are merged
  level by level, and the output merges what is there.

  What is not part of the repository or depends on the running system is a parameter
  (\<open>sort_env\<close>): the unstable sorts of the standard library, the sizes of batches and keys, the
  configuration, and, for every batch, whether the memory manager asks for a spill after it.

  \<open>top_rows\<close> is the specification: the first rows of a sorted permutation of the input.
\<close>

section \<open>Model\<close>

text \<open>\<open>lib.rs\<close>: the batch size for a target memory size.\<close>

definition compute_batch_size_with_target_mem_size :: "nat \<Rightarrow> nat \<Rightarrow> nat \<Rightarrow> nat \<Rightarrow> nat" where
  "compute_batch_size_with_target_mem_size conf_batch_size mem_size num_rows target_mem_size =
     (if num_rows = 0 then conf_batch_size
      else let est_mem_size_per_row = max mem_size 16 div max num_rows 1;
               est_sub_batch_size = target_mem_size div max est_mem_size_per_row 16
           in max (min est_sub_batch_size conf_batch_size) 20)"

record 'b level_spill =
  ls_block :: "'b sorted_block"
  ls_level :: nat

record 'b external_sorter =
  in_mem_blocks :: "'b sorted_block list"
  spills :: "'b level_spill list"
  num_total_rows :: nat
  mem_total_size :: nat

record ('i, 'b) sort_env =
  batch_ops :: "'b batch_ops"
  is_all_pruned :: bool
  sort_limit :: nat
  sort_skip :: nat
  input_rows :: "'i \<Rightarrow> nat"
  input_mem_size :: "'i \<Rightarrow> nat"
  prune :: "'i \<Rightarrow> (bytes list \<times> 'b) option"
  restore :: "'b \<Rightarrow> key_rows \<Rightarrow> 'i option"
  rows_size :: "bytes list \<Rightarrow> nat"
  sort_unstable_rows :: "bytes list \<Rightarrow> nat list"
  sort_unstable_levels :: "nat list \<Rightarrow> nat list"
  conf_batch_size :: nat
  conf_output_mem :: nat
  conf_kway_mem :: nat

definition new_sorter :: "'b external_sorter" where
  "new_sorter = \<lparr>in_mem_blocks = [], spills = [], num_total_rows = 0, mem_total_size = 0\<rparr>"

definition sub_batch_size :: "('i, 'b) sort_env \<Rightarrow> 'b external_sorter \<Rightarrow> nat" where
  "sub_batch_size env s = compute_batch_size_with_target_mem_size (conf_batch_size env)
     (mem_total_size s) (num_total_rows s) (conf_kway_mem env)"

definition output_batch_size :: "('i, 'b) sort_env \<Rightarrow> 'b external_sorter \<Rightarrow> nat" where
  "output_batch_size env s = compute_batch_size_with_target_mem_size (conf_batch_size env)
     (mem_total_size s) (num_total_rows s) (conf_output_mem env)"

definition NUM_MAX_MERGING_BATCHES :: nat where
  "NUM_MAX_MERGING_BATCHES = 32"

subsection \<open>Spilling\<close>

fun chunk_by_level :: "'b level_spill list \<Rightarrow> 'b sorted_block list list" where
  "chunk_by_level [] = []"
| "chunk_by_level [s] = [[ls_block s]]"
| "chunk_by_level (s # s' # ss) =
     (if ls_level s = ls_level s'
      then (case chunk_by_level (s' # ss) of
              [] \<Rightarrow> [[ls_block s]]
            | c # cs \<Rightarrow> (ls_block s # c) # cs)
      else [ls_block s] # chunk_by_level (s' # ss))"

text \<open>The loop over the levels: a full level is merged into one block of the next.\<close>

fun merge_levels ::
  "('b sorted_block list \<Rightarrow> 'b sorted_block option) \<Rightarrow> nat \<Rightarrow> 'b sorted_block list list \<Rightarrow> 'b level_spill list
   \<Rightarrow> 'b level_spill list option" where
  "merge_levels mrg level [] out = Some out"
| "merge_levels mrg level [l] out =
     (if length l \<ge> NUM_MAX_MERGING_BATCHES then None
      else Some (out @ map (\<lambda>b. \<lparr>ls_block = b, ls_level = level\<rparr>) l))"
| "merge_levels mrg level (l # l' # ls) out =
     (if length l \<ge> NUM_MAX_MERGING_BATCHES
      then do { merged \<leftarrow> mrg l; merge_levels mrg (level + 1) ((l' @ [merged]) # ls) out }
      else merge_levels mrg (level + 1) (l' # ls) (out @ map (\<lambda>b. \<lparr>ls_block = b, ls_level = level\<rparr>) l))"

definition merge_spilled :: "('i, 'b) sort_env \<Rightarrow> 'b external_sorter \<Rightarrow> 'b sorted_block list \<Rightarrow> 'b sorted_block option" where
  "merge_spilled env s blocks =
     merge_blocks (batch_ops env) (is_all_pruned env) (sort_limit env) (sub_batch_size env s) blocks"

definition spill :: "('i, 'b) sort_env \<Rightarrow> 'b external_sorter \<Rightarrow> 'b external_sorter option" where
  "spill env s =
     do { merged_block \<leftarrow> merge_spilled env s (in_mem_blocks s);
          let all_spills = spills s @ [\<lparr>ls_block = merged_block, ls_level = 0\<rparr>];
          sorted_spills \<leftarrow> those (map (vget all_spills) (sort_unstable_levels env (map ls_level all_spills)));
          let levels = chunk_by_level sorted_spills @ [[]];
          spills' \<leftarrow> merge_levels (merge_spilled env s) 0 levels [];
          Some (s\<lparr>in_mem_blocks := [], spills := spills'\<rparr>) }"

subsection \<open>Input\<close>

text \<open>\<open>(0..keys.num_rows() as u32)\<close> sorted by key: unstable for short keys, stable for long ones.\<close>

definition sorted_indices :: "('i, 'b) sort_env \<Rightarrow> bytes list \<Rightarrow> nat list" where
  "sorted_indices env keys =
     take (sort_limit env)
       (if rows_size env keys div length keys \<le> 8 then sort_unstable_rows env (take (length keys mod 2 ^ 32) keys)
        else sort_key (\<lambda>i. keys ! i) [0..<length keys mod 2 ^ 32])"

definition sort_batch :: "('i, 'b) sort_env \<Rightarrow> 'i \<Rightarrow> 'b sorted_block option" where
  "sort_batch env batch =
     do { (keys, pruned) \<leftarrow> prune env batch;
          let idx = sorted_indices env keys;
          ks \<leftarrow> those (map (vget keys) idx);
          let kc = mem_freeze (foldl (\<lambda>c k. mem_add_key k c) mem_default ks);
          sorted_batch \<leftarrow> (if \<not> is_all_pruned env then take_batch (batch_ops env) pruned idx
                           else Some (zero_column_batch (batch_ops env) (length idx)));
          bd \<leftarrow> mem_add_batch_and_keys sorted_batch kc default_builder;
          Some (mem_finish bd) }"

definition insert_batch :: "('i, 'b) sort_env \<Rightarrow> 'i \<Rightarrow> bool \<Rightarrow> 'b external_sorter \<Rightarrow> 'b external_sorter option" where
  "insert_batch env batch spill_now s =
     (if input_rows env batch = 0 then Some s
      else do { let s = s\<lparr>num_total_rows := num_total_rows s + input_rows env batch,
                          mem_total_size := mem_total_size s + input_mem_size env batch\<rparr>;
                block \<leftarrow> sort_batch env batch;
                let s = s\<lparr>in_mem_blocks := in_mem_blocks s @ [block]\<rparr>;
                if spill_now then spill env s else Some s })"

fun insert_batches :: "('i, 'b) sort_env \<Rightarrow> ('i \<times> bool) list \<Rightarrow> 'b external_sorter \<Rightarrow> 'b external_sorter option" where
  "insert_batches env [] s = Some s"
| "insert_batches env ((b, spill_now) # rest) s =
     do { s' \<leftarrow> insert_batch env b spill_now s; insert_batches env rest s' }"

subsection \<open>Output\<close>

text \<open>The batch that is sent, with its key rows.\<close>

definition send_output_batch ::
  "('i, 'b) sort_env \<Rightarrow> 'b \<Rightarrow> key_rows \<Rightarrow> ('i \<times> key_rows) list \<Rightarrow> ('i \<times> key_rows) list option" where
  "send_output_batch env pruned_batch kc sent =
     do { rows \<leftarrow> mem_into_rows (num_rows_of (batch_ops env) pruned_batch) kc;
          batch \<leftarrow> restore env pruned_batch rows;
          Some (sent @ [(batch, rows)]) }"

text \<open>
  The code drops the result of \<open>skip_rows\<close>, so that after an error (not after a panic) the merge
  goes on from where it failed; the model gives up in both cases.
\<close>

definition output_blocks :: "('i, 'b) sort_env \<Rightarrow> nat \<Rightarrow> 'b sorted_block list \<Rightarrow> ('i \<times> key_rows) list option" where
  "output_blocks env batch_size blocks =
     (let step = merger_next (batch_ops env) mem_collector (is_all_pruned env) (sort_limit env)
      in do { m \<leftarrow> merger_try_new (batch_ops env) blocks;
              m \<leftarrow> (if sort_skip env > 0 then skip_rows step batch_size (sort_skip env) m else Some m);
              drain_merger (step batch_size) (send_output_batch env) [] m })"

definition sorter_output :: "('i, 'b) sort_env \<Rightarrow> 'b external_sorter \<Rightarrow> ('i \<times> key_rows) list option" where
  "sorter_output env s =
     do { s \<leftarrow> (if spills s \<noteq> [] \<and> in_mem_blocks s \<noteq> [] then spill env s else Some s);
          let batch_size = output_batch_size env s;
          if spills s = []
          then (if in_mem_blocks s \<noteq> [] then output_blocks env batch_size (in_mem_blocks s) else Some [])
          else output_blocks env batch_size (map ls_block (spills s)) }"

text \<open>\<open>execute\<close>: all input, then the output.\<close>

definition execute_sort :: "('i, 'b) sort_env \<Rightarrow> ('i \<times> bool) list \<Rightarrow> ('i \<times> key_rows) list option" where
  "execute_sort env input = do { s \<leftarrow> insert_batches env input new_sorter; sorter_output env s }"

section \<open>The specification\<close>

definition top_rows :: "nat \<Rightarrow> (bytes \<times> 'r) list \<Rightarrow> (bytes \<times> 'r) list \<Rightarrow> bool" where
  "top_rows n xs out = (\<exists>rest. mset xs = mset out + mset rest \<and> sorted (map fst out)
     \<and> (\<forall>x \<in> set out. \<forall>y \<in> set rest. fst x \<le> fst y) \<and> length out = min n (length xs))"

lemma top_rows_take:
  assumes "top_rows n xs out"
  shows "\<exists>full. mset full = mset xs \<and> sorted (map fst full) \<and> out = take n full"
proof -
  from assms obtain rest where r: "mset xs = mset out + mset rest" "sorted (map fst out)"
    "\<forall>x \<in> set out. \<forall>y \<in> set rest. fst x \<le> fst y" "length out = min n (length xs)" by (auto simp: top_rows_def)
  let ?rest = "sort_key fst rest"
  have len: "length xs = length out + length rest" using arg_cong [OF r(1), of size] by simp
  have "out = take n (out @ ?rest)"
  proof (cases "n \<le> length xs")
    case True
    then show ?thesis using r(4) by simp
  next
    case False
    with r(4) len have "rest = []" by simp
    with False r(4) show ?thesis by simp
  qed
  moreover have "sorted (map fst (out @ ?rest))" using r(2,3) by (auto simp: sorted_append)
  moreover have "mset (out @ ?rest) = mset xs" using r(1) by simp
  ultimately show ?thesis by blast
qed

lemma top_rows_combine:
  assumes parts: "list_all2 (top_rows n) srcs outs" and top: "top_rows n (concat outs) out"
  shows "top_rows n (concat srcs) out"
proof -
  have "\<exists>rests. mset (concat srcs) = mset (concat outs) + mset (concat rests)
      \<and> (\<forall>r \<in> set rests. r = [] \<or> (\<exists>o1. mset o1 \<subseteq># mset (concat outs) \<and> length o1 = n
            \<and> (\<forall>x \<in> set o1. \<forall>y \<in> set r. fst x \<le> fst y)))"
    using parts
  proof (induction srcs outs rule: list_all2_induct)
    case Nil
    then show ?case by (intro exI [of _ "[]"]) simp
  next
    case (Cons s srcs o1 outs)
    from Cons.hyps(1) obtain r where r: "mset s = mset o1 + mset r" "\<forall>x \<in> set o1. \<forall>y \<in> set r. fst x \<le> fst y"
      "length o1 = min n (length s)" by (auto simp: top_rows_def)
    have "r = [] \<or> length o1 = n" using r(3) arg_cong [OF r(1), of size] by (cases r) auto
    moreover from Cons.IH obtain rests where rs: "mset (concat srcs) = mset (concat outs) + mset (concat rests)"
      "\<forall>r \<in> set rests. r = [] \<or> (\<exists>o1. mset o1 \<subseteq># mset (concat outs) \<and> length o1 = n
            \<and> (\<forall>x \<in> set o1. \<forall>y \<in> set r. fst x \<le> fst y))" by blast
    moreover have "mset o2 \<subseteq># mset (concat (o1 # outs))" if "mset o2 \<subseteq># mset (concat outs)" for o2
      using that by (simp add: subset_mset.add_increasing)
    moreover have "mset o1 \<subseteq># mset (concat (o1 # outs))" by simp
    ultimately have "\<forall>r' \<in> set (r # rests). r' = [] \<or> (\<exists>o2. mset o2 \<subseteq># mset (concat (o1 # outs)) \<and> length o2 = n
            \<and> (\<forall>x \<in> set o2. \<forall>y \<in> set r'. fst x \<le> fst y))"
      using r(2) by (metis set_ConsD)
    moreover have "mset (concat (s # srcs)) = mset (concat (o1 # outs)) + mset (concat (r # rests))"
      using r(1) rs(1) by simp
    ultimately show ?case by blast
  qed
  then obtain rests where rs: "mset (concat srcs) = mset (concat outs) + mset (concat rests)"
    "\<And>r. r \<in> set rests \<Longrightarrow> r \<noteq> [] \<Longrightarrow> \<exists>o1. mset o1 \<subseteq># mset (concat outs) \<and> length o1 = n \<and> (\<forall>x \<in> set o1. \<forall>y \<in> set r. fst x \<le> fst y)"
    by blast
  from top obtain rest where t: "mset (concat outs) = mset out + mset rest" "sorted (map fst out)"
    "\<forall>x \<in> set out. \<forall>y \<in> set rest. fst x \<le> fst y" "length out = min n (length (concat outs))" by (auto simp: top_rows_def)
  have le: "fst x \<le> fst y" if x: "x \<in> set out" and r: "r \<in> set rests" "y \<in> set r" for x y r
  proof (rule ccontr)
    assume "\<not> fst x \<le> fst y"
    then have yx: "fst y < fst x" by simp
    from rs(2) [OF r(1)] r(2) obtain o1 where o1: "mset o1 \<subseteq># mset (concat outs)" "length o1 = n"
      "\<forall>z \<in> set o1. fst z \<le> fst y" by fastforce
    let ?P = "\<lambda>z. fst z < fst x"
    have "filter_mset ?P (mset o1) = mset o1" using o1(3) yx by (auto simp: filter_mset_eq_conv)
    then have "mset o1 \<subseteq># filter_mset ?P (mset (concat outs))" using o1(1) by (metis multiset_filter_mono)
    also have "\<dots> = filter_mset ?P (mset out)"
    proof -
      have "filter ?P rest = []" using t(3) x by (fastforce simp: filter_empty_conv not_less)
      then have "filter_mset ?P (mset rest) = {#}" by (metis mset_filter mset.simps(1))
      then show ?thesis by (simp add: t(1))
    qed
    finally have "n \<le> size (filter_mset ?P (mset out))" using o1(2) size_mset_mono by fastforce
    moreover have "size (filter_mset ?P (mset out)) < length out"
      using length_filter_less [OF x, of ?P] by (metis less_irrefl mset_filter size_mset)
    ultimately show False using t(4) by simp
  qed
  have "length out = min n (length (concat srcs))"
  proof (cases "concat rests = []")
    case True
    then have "length (concat srcs) = length (concat outs)" using arg_cong [OF rs(1), of size] by simp
    with t(4) show ?thesis by simp
  next
    case False
    then obtain r where "r \<in> set rests" "r \<noteq> []" by auto
    from rs(2) [OF this] have "n \<le> length (concat outs)" using size_mset_mono by fastforce
    moreover have "length (concat outs) \<le> length (concat srcs)" using arg_cong [OF rs(1), of size] by simp
    ultimately show ?thesis using t(4) by simp
  qed
  moreover have "mset (concat srcs) = mset out + mset (rest @ concat rests)" using rs(1) t(1) by simp
  moreover have "\<forall>x \<in> set out. \<forall>y \<in> set (rest @ concat rests). fst x \<le> fst y" using t(3) le by auto
  ultimately show ?thesis using t(2) unfolding top_rows_def by blast
qed

lemma top_rows_Nil: "min n (length xs) = 0 \<Longrightarrow> top_rows n xs []"
  by (auto simp: top_rows_def intro: exI [of _ xs])

lemma top_rows_step:
  assumes "mset xs = mset out + mset ys" and "sorted (map fst out)" and "\<forall>x \<in> set out. \<forall>y \<in> set ys. fst x \<le> fst y"
    and "length out \<le> n" and "top_rows (n - length out) ys out'"
  shows "top_rows n xs (out @ out')"
proof -
  from assms(5) obtain rest where r: "mset ys = mset out' + mset rest" "sorted (map fst out')"
    "\<forall>x \<in> set out'. \<forall>y \<in> set rest. fst x \<le> fst y" "length out' = min (n - length out) (length ys)"
    by (auto simp: top_rows_def)
  have ys: "set ys = set out' \<union> set rest" using arg_cong [OF r(1), of set_mset] by simp
  have "length xs = length out + length ys" using arg_cong [OF assms(1), of size] by simp
  then have "length (out @ out') = min n (length xs)" using r(4) assms(4) by simp
  moreover have "mset xs = mset (out @ out') + mset rest" using assms(1) r(1) by simp
  moreover have "sorted (map fst (out @ out'))" using assms(2,3) r(2) ys by (auto simp: sorted_append)
  moreover have "\<forall>x \<in> set (out @ out'). \<forall>y \<in> set rest. fst x \<le> fst y" using assms(3) r(3) ys by auto
  ultimately show ?thesis unfolding top_rows_def by blast
qed

lemma top_rows_nonempty: "top_rows n xs out \<Longrightarrow> 0 < n \<Longrightarrow> xs \<noteq> [] \<Longrightarrow> out \<noteq> []"
  by (auto simp: top_rows_def min_def split: if_splits)

lemma top_rows_subset: "top_rows n xs out \<Longrightarrow> mset out \<subseteq># mset xs"
  by (auto simp: top_rows_def)

lemma top_rows_sorted: "top_rows n xs out \<Longrightarrow> sorted (map fst out)"
  by (auto simp: top_rows_def)

lemma top_rows_cong: "mset xs = mset ys \<Longrightarrow> top_rows n xs out = top_rows n ys out"
proof -
  assume eq: "mset xs = mset ys"
  then have "length xs = length ys" by (rule mset_eq_length)
  with eq show ?thesis by (simp add: top_rows_def)
qed

text \<open>What a sink receives: chunk after chunk, with the keys in a fresh collector.\<close>

definition collect_keys :: "'k collector_ops \<Rightarrow> bytes list \<Rightarrow> 'k" where
  "collect_keys kco ks = kc_freeze kco (foldl (\<lambda>c k. kc_add_key kco k c) (kc_default kco) ks)"

fun feed :: "('b \<Rightarrow> 'k \<Rightarrow> 's \<Rightarrow> 's option) \<Rightarrow> 'k collector_ops \<Rightarrow> ((bytes \<times> 'r) list \<times> 'b) list \<Rightarrow> 's \<Rightarrow> 's option" where
  "feed add kco [] s = Some s"
| "feed add kco ((out, b) # cs) s = do { s' \<leftarrow> add b (collect_keys kco (map fst out)) s; feed add kco cs s' }"

lemma level_counts:
  assumes "\<forall>s \<in> set out. ls_level s < level" and "\<forall>lv. length (filter (\<lambda>s. ls_level s = lv) out) < k" and "length l < k"
  shows "length (filter (\<lambda>s. ls_level s = lv) (out @ map (\<lambda>b. \<lparr>ls_block = b, ls_level = level\<rparr>) l)) < k"
proof (cases "lv = level")
  case True
  then have "filter (\<lambda>s. ls_level s = lv) out = []" using assms(1) by (auto simp: filter_empty_conv)
  with True assms(3) show ?thesis by (simp add: filter_map comp_def)
next
  case False
  then show ?thesis using assms(2) by (simp add: filter_map comp_def)
qed

section \<open>Merging to the end\<close>

lemma image_sum_mset: "image_mset f (sum_list (map mset xss)) = sum_list (map (image_mset f \<circ> mset) xss)"
  by (induction xss) simp_all

text \<open>When all columns are pruned, every row is the row without columns.\<close>

locale sorted_store = batch_store ops rows ok fits
  for ops :: "'b batch_ops" and rows :: "'b \<Rightarrow> 'r list" and ok :: "'b \<Rightarrow> bool" and fits :: "'r list \<Rightarrow> bool" +
  fixes ap :: bool and unit_row :: 'r
  assumes zero_rows: "ap \<Longrightarrow> n < 2 ^ 64 \<Longrightarrow> ok (zero_column_batch ops n) \<and> rows (zero_column_batch ops n) = replicate n unit_row"
    and pruned_rows: "ap \<Longrightarrow> ok b \<Longrightarrow> set (rows b) \<subseteq> {unit_row}"
begin

definition row_view :: "bytes list list \<Rightarrow> 'r list list \<Rightarrow> 'r list list" where
  "row_view kss rss = (if ap then map (\<lambda>ks. replicate (length ks) unit_row) kss else rss)"

definition merger_items :: "'b merger \<Rightarrow> (bytes \<times> 'r) list list \<Rightarrow> bool" where
  "merger_items m its = (\<exists>kss rss. merger_repr ap m kss rss \<and> its = map2 zip kss (row_view kss rss))"

lemma row_view_aligned:
  "merger_repr ap m kss rss \<Longrightarrow> length kss = length (row_view kss rss)
    \<and> (\<forall>i < length kss. length (kss ! i) = length (row_view kss rss ! i))"
  by (auto simp: row_view_def merger_repr_def cursors_repr_def)

lemma pick_unit:
  "picks_ok ids kss \<Longrightarrow> pick ids (map (\<lambda>ks. replicate (length ks) unit_row) kss)
    = (replicate (length ids) unit_row, map (\<lambda>ks. replicate (length ks) unit_row) (snd (pick ids kss)))"
proof (induction ids arbitrary: kss)
  case (Cons i ids)
  let ?u = "map (\<lambda>ks. replicate (length ks) unit_row)"
  have i: "i < length kss" "kss ! i \<noteq> []" using Cons.prems by auto
  then have "(?u kss)[i := tl (?u kss ! i)] = ?u (kss[i := tl (kss ! i)])"
    by (cases "kss ! i") (auto simp: map_update)
  moreover have "hd (?u kss ! i) = unit_row" using i by (cases "kss ! i") auto
  ultimately show ?case using Cons.IH [of "kss[i := tl (kss ! i)]"] Cons.prems by (simp add: pick_Cons)
qed simp

definition chunk_ok :: "(bytes \<times> 'r) list \<times> 'b \<Rightarrow> bool" where
  "chunk_ok c = (fst c \<noteq> [] \<and> ok (snd c) \<and> rows (snd c) = map snd (fst c))"

lemma sum_length_zip:
  "length kss = length rss \<Longrightarrow> \<forall>i < length kss. length (kss ! i) = length (rss ! i) \<Longrightarrow>
   sum_list (map length (map2 zip kss rss)) = sum_list (map length kss)"
proof -
  assume a: "length kss = length rss" "\<forall>i < length kss. length (kss ! i) = length (rss ! i)"
  then have "map length (map2 zip kss rss) = map length kss" by (auto intro!: nth_equalityI)
  then show ?thesis by simp
qed

lemma merger_next_items:
  assumes m: "merger_items m its"
    and fit: "\<And>xs. \<not> ap \<Longrightarrow> mset xs \<subseteq># image_mset snd (sum_list (map mset its)) \<Longrightarrow> length xs \<le> batch_size \<Longrightarrow> fits xs"
    and small: "batch_size < 2 ^ 64"
  shows "\<exists>r m' ids out its'. merger_next ops kco ap limit batch_size m = Some (r, m')
    \<and> picks_ok ids its \<and> pick ids its = (out, its')
    \<and> length out = min (min batch_size (limit - num_total_output_rows m)) (sum_list (map length its))
    \<and> sorted (map fst out) \<and> (\<forall>x \<in> set out. \<forall>ys \<in> set its'. \<forall>y \<in> set ys. fst x \<le> fst y)
    \<and> merger_items m' its' \<and> num_total_output_rows m' = num_total_output_rows m + length out
    \<and> (if out = [] then r = None
       else \<exists>b. r = Some (kc_freeze kco (foldl (\<lambda>c k. kc_add_key kco k c) (kc_default kco) (map fst out)), b)
         \<and> chunk_ok (out, b))"
proof -
  from m obtain kss rss where rep: "merger_repr ap m kss rss" and its: "its = map2 zip kss (row_view kss rss)"
    by (auto simp: merger_items_def)
  note al = row_view_aligned [OF rep]
  have "image_mset snd (sum_list (map mset its)) = sum_list (map mset rss)" if "\<not> ap"
  proof -
    have rv: "row_view kss rss = rss" unfolding row_view_def using that by (rule if_not_P)
    have "map (image_mset snd \<circ> mset) its = map mset rss"
      using al unfolding its rv by (auto intro!: nth_equalityI simp: mset_map [symmetric] simp del: mset_map)
    then show ?thesis by (simp add: image_sum_mset)
  qed
  then have fit': "\<not> ap \<Longrightarrow> mset xs \<subseteq># sum_list (map mset rss) \<Longrightarrow> length xs \<le> batch_size \<Longrightarrow> fits xs" for xs
    using fit by simp
  from merger_next_ok [OF rep fit', of batch_size kco limit] obtain r m' ids ks kss' where
    nx: "merger_next ops kco ap limit batch_size m = Some (r, m')" "picks_ok ids kss" "pick ids kss = (ks, kss')"
      "length ks = min (min batch_size (limit - num_total_output_rows m)) (sum_list (map length kss))"
      "sorted ks" "\<forall>x \<in> set ks. \<forall>ys \<in> set kss'. \<forall>y \<in> set ys. x \<le> y"
      "merger_repr ap m' kss' (if ap then rss else snd (pick ids rss))"
      "num_total_output_rows m' = num_total_output_rows m + length ks"
      "if ks = [] then r = None
       else \<exists>b. r = Some (kc_freeze kco (foldl (\<lambda>c k. kc_add_key kco k c) (kc_default kco) ks), b)
         \<and> (if ap then b = zero_column_batch ops (length ks) else ok b \<and> rows b = fst (pick ids rss))"
    by blast
  let ?rv = "row_view kss rss"
  from pick_zip [of kss ?rv ids] al nx(2,3) have
    z: "picks_ok ids its" "pick ids its = (zip ks (fst (pick ids ?rv)), map2 zip kss' (snd (pick ids ?rv)))"
    by (simp_all add: its)
  have lids: "length ids = length ks" using pick_length(1) [of ids kss] nx(3) by simp
  have view: "snd (pick ids ?rv) = row_view kss' (if ap then rss else snd (pick ids rss))"
    using pick_unit [OF nx(2)] nx(3) by (simp add: row_view_def)
  let ?out = "zip ks (fst (pick ids ?rv))" and ?its = "map2 zip kss' (snd (pick ids ?rv))"
  have out: "map fst ?out = ks" "map snd ?out = fst (pick ids ?rv)" "length ?out = length ks" using lids by simp_all
  have items: "merger_items m' ?its" unfolding merger_items_def view using nx(7) by blast
  have ord: "\<forall>x \<in> set ?out. \<forall>ys \<in> set ?its. \<forall>y \<in> set ys. fst x \<le> fst y"
    using nx(6) by (fastforce dest: set_zip_leftD in_set_zipE elim: in_set_zipE)
  have chunk: "chunk_ok (?out, b)" if "ks \<noteq> []" "if ap then b = zero_column_batch ops (length ks) else ok b \<and> rows b = fst (pick ids rss)" for b
  proof -
    have "?out \<noteq> []" using out(3) that(1) by (metis length_0_conv)
    moreover have "ok b \<and> rows b = fst (pick ids ?rv)"
    proof (cases ap)
      case True
      then have "?rv = map (\<lambda>ks. replicate (length ks) unit_row) kss" unfolding row_view_def by (rule if_P)
      with pick_unit [OF nx(2)] lids have "fst (pick ids ?rv) = replicate (length ks) unit_row" by simp
      moreover have "length ks < 2 ^ 64" using nx(4) small by simp
      ultimately show ?thesis using zero_rows [OF True] that(2) True by simp
    next
      case False
      then have "?rv = rss" unfolding row_view_def by (rule if_not_P)
      with that(2) False show ?thesis by simp
    qed
    ultimately show ?thesis using out(2) by (simp add: chunk_ok_def)
  qed
  have "length ?out = min (min batch_size (limit - num_total_output_rows m)) (sum_list (map length its))"
  proof -
    have "sum_list (map length its) = sum_list (map length kss)"
      unfolding its by (rule sum_length_zip) (use al in blast)+
    with nx(4) out(3) show ?thesis by simp
  qed
  moreover have "if ?out = [] then r = None
       else \<exists>b. r = Some (kc_freeze kco (foldl (\<lambda>c k. kc_add_key kco k c) (kc_default kco) (map fst ?out)), b) \<and> chunk_ok (?out, b)"
    using nx(9) chunk out(1,3) by (metis length_0_conv)
  ultimately show ?thesis using nx(1,5,8) z items ord out(1,3) by metis
qed

text \<open>The contents of a merger as one list, and the rows any output batch may take from it.\<close>

definition batches_fit :: "nat \<Rightarrow> (bytes \<times> 'r) list \<Rightarrow> bool" where
  "batches_fit n xs = (n < 2 ^ 64 \<and> (\<forall>rs. \<not> ap \<longrightarrow> mset rs \<subseteq># mset (map snd xs) \<longrightarrow> length rs \<le> n \<longrightarrow> fits rs))"

lemma batches_fit_mono: "batches_fit n xs \<Longrightarrow> mset ys \<subseteq># mset xs \<Longrightarrow> k \<le> n \<Longrightarrow> batches_fit k ys"
proof -
  assume fit: "batches_fit n xs" and sub: "mset ys \<subseteq># mset xs" and k: "k \<le> n"
  have "mset (map snd ys) \<subseteq># mset (map snd xs)" using image_mset_subseteq_mono [OF sub] by simp
  then have "mset rs \<subseteq># mset (map snd xs)" if "mset rs \<subseteq># mset (map snd ys)" for rs
    by (rule subset_mset.order_trans [OF that])
  with fit k show ?thesis unfolding batches_fit_def by (meson le_trans order_le_less_trans)
qed

lemma sum_mset_concat: "sum_list (map mset xss) = mset (concat xss)"
  by (induction xss) simp_all

lemma next_chunk:
  assumes m: "merger_items m its" and fit: "batches_fit batch_size (concat its)"
  shows "\<exists>r m' out its'. merger_next ops kco ap limit batch_size m = Some (r, m')
    \<and> mset (concat its) = mset out + mset (concat its')
    \<and> length out = min (min batch_size (limit - num_total_output_rows m)) (length (concat its))
    \<and> sorted (map fst out) \<and> (\<forall>x \<in> set out. \<forall>y \<in> set (concat its'). fst x \<le> fst y)
    \<and> merger_items m' its' \<and> num_total_output_rows m' = num_total_output_rows m + length out
    \<and> (if out = [] then r = None else \<exists>b. r = Some (collect_keys kco (map fst out), b) \<and> chunk_ok (out, b))"
proof -
  have "\<not> ap \<Longrightarrow> mset xs \<subseteq># image_mset snd (sum_list (map mset its)) \<Longrightarrow> length xs \<le> batch_size \<Longrightarrow> fits xs" for xs
    using fit unfolding batches_fit_def sum_mset_concat mset_map by blast
  moreover have "batch_size < 2 ^ 64" using fit by (simp add: batches_fit_def)
  ultimately obtain r m' ids out its' where
    nx: "merger_next ops kco ap limit batch_size m = Some (r, m')" "picks_ok ids its" "pick ids its = (out, its')"
      "length out = min (min batch_size (limit - num_total_output_rows m)) (sum_list (map length its))"
      "sorted (map fst out)" "\<forall>x \<in> set out. \<forall>ys \<in> set its'. \<forall>y \<in> set ys. fst x \<le> fst y"
      "merger_items m' its'" "num_total_output_rows m' = num_total_output_rows m + length out"
      "if out = [] then r = None
       else \<exists>b. r = Some (kc_freeze kco (foldl (\<lambda>c k. kc_add_key kco k c) (kc_default kco) (map fst out)), b)
         \<and> chunk_ok (out, b)" using merger_next_items [OF m, of batch_size kco limit] by blast
  have "mset (concat its) = mset out + mset (concat its')" using pick_mset [OF nx(2)] nx(3) by (simp add: sum_mset_concat)
  moreover have "length (concat its) = sum_list (map length its)" by (simp add: length_concat)
  moreover have "\<forall>x \<in> set out. \<forall>y \<in> set (concat its'). fst x \<le> fst y" using nx(6) by simp
  ultimately show ?thesis using nx(1,4,5,7-9) unfolding collect_keys_def by metis
qed

lemma min_min_0: "0 < b \<Longrightarrow> min (min b l) k = (0::nat) \<Longrightarrow> min l k = 0"
  by (auto simp: min_def split: if_splits)

lemma min_split:
  "a = min (min (min n b) l) k \<Longrightarrow> s = min (n - min n b) (min (l - a) r) \<Longrightarrow> k = a + r \<Longrightarrow> a + s = min n (min l (k::nat))"
  by (auto simp: min_def split: if_splits)

lemma drain_ok:
  fixes kco :: "'k collector_ops"
  assumes "merger_items m its" and "batches_fit batch_size (concat its)" and "0 < batch_size"
  shows "\<exists>chunks. (\<forall>(s::'s) add. drain_merger (merger_next ops kco ap limit batch_size) add s m = feed add kco chunks s)
    \<and> (\<forall>c \<in> set chunks. chunk_ok c \<and> length (fst c) \<le> batch_size)
    \<and> top_rows (limit - num_total_output_rows m) (concat its) (concat (map fst chunks))"
  using assms
proof (induction "length (concat its)" arbitrary: m its rule: less_induct)
  case less
  from next_chunk [OF less.prems(1,2), of kco limit] obtain r m' out its' where
    nx: "merger_next ops kco ap limit batch_size m = Some (r, m')" "mset (concat its) = mset out + mset (concat its')"
      "length out = min (min batch_size (limit - num_total_output_rows m)) (length (concat its))"
      "sorted (map fst out)" "\<forall>x \<in> set out. \<forall>y \<in> set (concat its'). fst x \<le> fst y"
      "merger_items m' its'" "num_total_output_rows m' = num_total_output_rows m + length out"
      "if out = [] then r = None else \<exists>b. r = Some (collect_keys kco (map fst out), b) \<and> chunk_ok (out, b)" by blast
  show ?case
  proof (cases "out = []")
    case True
    then have "drain_merger (merger_next ops kco ap limit batch_size) add s m = Some s" for s :: 's and add
      using nx(1,8) by (subst drain_merger.simps) simp
    moreover have "min (limit - num_total_output_rows m) (length (concat its)) = 0"
      by (rule min_min_0) (use nx(3) True less.prems(3) in simp_all)
    from top_rows_Nil [OF this] calculation show ?thesis by (intro exI [of _ "[]"]) simp
  next
    case False
    with nx(8) obtain b where b: "r = Some (collect_keys kco (map fst out), b)" "chunk_ok (out, b)" by auto
    have len: "length (concat its) = length out + length (concat its')" using arg_cong [OF nx(2), of size] by simp
    have fit: "batches_fit batch_size (concat its')" by (rule batches_fit_mono [OF less.prems(2)]) (simp_all add: nx(2))
    have "length (concat its') < length (concat its)" using len False by simp
    from less.hyps [OF this nx(6) fit less.prems(3)] obtain chunks where
      ch: "\<And>(s::'s) add. drain_merger (merger_next ops kco ap limit batch_size) add s m' = feed add kco chunks s"
        "\<forall>c \<in> set chunks. chunk_ok c \<and> length (fst c) \<le> batch_size"
        "top_rows (limit - num_total_output_rows m') (concat its') (concat (map fst chunks))" by blast
    have "drain_merger (merger_next ops kco ap limit batch_size) add s m = feed add kco ((out, b) # chunks) s" for s :: 's and add
      using nx(1) b(1) ch(1) by (subst drain_merger.simps) simp
    moreover have "length out \<le> batch_size" "length out \<le> limit - num_total_output_rows m" using nx(3) by simp_all
    moreover have "top_rows (limit - num_total_output_rows m) (concat its) (concat (map fst ((out, b) # chunks)))"
      using top_rows_step [OF nx(2,4,5) \<open>length out \<le> limit - num_total_output_rows m\<close>] ch(3) nx(7) by simp
    ultimately show ?thesis using ch(2) b(2) by (intro exI [of _ "(out, b) # chunks"]) auto
  qed
qed

lemma skip_rows_ok:
  assumes "merger_items m its" and "batches_fit batch_size (concat its)" and "0 < batch_size"
  shows "\<exists>m' its' skipped. skip_rows (merger_next ops kco ap limit) batch_size n m = Some m' \<and> merger_items m' its'
    \<and> mset (concat its) = mset skipped + mset (concat its') \<and> sorted (map fst skipped)
    \<and> (\<forall>x \<in> set skipped. \<forall>y \<in> set (concat its'). fst x \<le> fst y)
    \<and> length skipped = min n (min (limit - num_total_output_rows m) (length (concat its)))
    \<and> num_total_output_rows m' = num_total_output_rows m + length skipped"
  using assms
proof (induction n arbitrary: m its rule: less_induct)
  case (less n)
  show ?case
  proof (cases "n = 0")
    case True
    with less.prems show ?thesis
      by (intro exI [of _ m] exI [of _ its] exI [of _ "[]"]) (simp add: skip_rows.simps)
  next
    case False
    let ?bs = "min n batch_size"
    have "batches_fit ?bs (concat its)" by (rule batches_fit_mono [OF less.prems(2)]) simp_all
    from next_chunk [OF less.prems(1) this, of kco limit] obtain r m' out its' where
      nx: "merger_next ops kco ap limit ?bs m = Some (r, m')" "mset (concat its) = mset out + mset (concat its')"
        "length out = min (min ?bs (limit - num_total_output_rows m)) (length (concat its))"
        "sorted (map fst out)" "\<forall>x \<in> set out. \<forall>y \<in> set (concat its'). fst x \<le> fst y"
        "merger_items m' its'" "num_total_output_rows m' = num_total_output_rows m + length out"
        "if out = [] then r = None else \<exists>b. r = Some (collect_keys kco (map fst out), b) \<and> chunk_ok (out, b)" by blast
    show ?thesis
    proof (cases "out = []")
      case True
      then have "skip_rows (merger_next ops kco ap limit) batch_size n m = Some m'"
        using nx(1,8) False by (subst skip_rows.simps) (simp add: Let_def)
      moreover have "min (limit - num_total_output_rows m) (length (concat its)) = 0"
        by (rule min_min_0 [of ?bs]) (use nx(3) True less.prems(3) False in simp_all)
      then have "min n (min (limit - num_total_output_rows m) (length (concat its))) = length out"
        using True by (simp only: list.size min_0R)
      ultimately show ?thesis using nx by metis
    next
      case out: False
      with nx(8) obtain b where b: "r = Some (collect_keys kco (map fst out), b)" by auto
      have run: "skip_rows (merger_next ops kco ap limit) batch_size n m
          = skip_rows (merger_next ops kco ap limit) batch_size (n - ?bs) m'"
        using nx(1) b False by (subst skip_rows.simps) (simp add: Let_def)
      have fit: "batches_fit batch_size (concat its')" by (rule batches_fit_mono [OF less.prems(2)]) (simp_all add: nx(2))
      have "n - ?bs < n" using False less.prems(3) by simp
      from less.IH [OF this nx(6) fit less.prems(3)] obtain m2 its2 sk where
        sk: "skip_rows (merger_next ops kco ap limit) batch_size (n - ?bs) m' = Some m2" "merger_items m2 its2"
          "mset (concat its') = mset sk + mset (concat its2)" "sorted (map fst sk)"
          "\<forall>x \<in> set sk. \<forall>y \<in> set (concat its2). fst x \<le> fst y"
          "length sk = min (n - ?bs) (min (limit - num_total_output_rows m') (length (concat its')))"
          "num_total_output_rows m2 = num_total_output_rows m' + length sk" by blast
      have in_its': "set (concat its') = set sk \<union> set (concat its2)"
        using arg_cong [OF sk(3), of set_mset] by simp
      have len: "length (concat its) = length out + length (concat its')" using arg_cong [OF nx(2), of size] by simp
      have "length (out @ sk) = min n (min (limit - num_total_output_rows m) (length (concat its)))"
        unfolding length_append by (rule min_split [OF nx(3)]) (use sk(6) nx(7) len in simp_all)
      moreover have "sorted (map fst (out @ sk))"
        using nx(4) nx(5) [unfolded in_its'] sk(4) by (auto simp: sorted_append)
      moreover have "\<forall>x \<in> set (out @ sk). \<forall>y \<in> set (concat its2). fst x \<le> fst y"
        using nx(5) [unfolded in_its'] sk(5) by auto
      moreover have "mset (concat its) = mset (out @ sk) + mset (concat its2)" using nx(2) sk(3) by simp
      moreover have "num_total_output_rows m2 = num_total_output_rows m + length (out @ sk)" using nx(7) sk(7) by simp
      ultimately show ?thesis using run sk(1,2) by metis
    qed
  qed
qed

section \<open>Blocks that hold sorted rows\<close>

text \<open>A block not touched yet, with its keyed rows.\<close>

definition block_holds :: "'b sorted_block \<Rightarrow> (bytes \<times> 'r) list \<Rightarrow> bool" where
  "block_holds blk its = (\<exists>later. block_repr blk [] [] later \<and> later \<noteq> [] \<and> its = concat (map (\<lambda>(ks, rs). zip ks rs) later))"

lemma map_zip_concat:
  "keyed later \<Longrightarrow> concat (map (\<lambda>(ks, rs). zip ks rs) later) = zip (concat (map fst later)) (concat (map snd later))"
  by (induction later) (auto simp: keyed_Cons zip_append)

lemma replicate_rows: "ap \<Longrightarrow> set rs \<subseteq> {unit_row} \<Longrightarrow> rs = replicate (length rs) unit_row"
  by (metis replicate_length_same singletonD subsetD)

text \<open>Without columns, the rows of a fresh block are the rows without columns.\<close>

definition rows_plain :: "(bytes \<times> 'r) list \<Rightarrow> bool" where
  "rows_plain xs = (ap \<longrightarrow> (\<forall>x \<in> set xs. snd x = unit_row))"

lemma spill_stream_plain: "spill_stream inp later \<Longrightarrow> ap \<Longrightarrow> \<forall>(ks, rs) \<in> set later. set rs \<subseteq> {unit_row}"
proof (induction later arbitrary: inp)
  case (Cons l later)
  obtain ks rs where l: "l = (ks, rs)" by (cases l)
  with Cons.prems(1) obtain b rest where b: "ok b" "rows b = rs" "spill_stream rest later" by auto
  with pruned_rows [OF Cons.prems(2) b(1)] Cons.IH [OF b(3) Cons.prems(2)] l show ?case by auto
qed simp

lemma block_plain:
  assumes "block_repr blk [] [] later" and ap
  shows "\<forall>(ks, rs) \<in> set later. set rs \<subseteq> {unit_row}"
proof (cases blk)
  case (InMemBlock m)
  with assms have "map rows (sorted_batches m) = map snd later" "\<forall>b \<in> set (sorted_batches m). ok b" by auto
  moreover have "set rs \<subseteq> {unit_row}" if "(ks, rs) \<in> set later" for ks rs
  proof -
    from that have "rs \<in> set (map snd later)" by force
    then have "rs \<in> rows ` set (sorted_batches m)" using calculation(1) by (metis set_map)
    then show ?thesis using calculation(2) pruned_rows [OF assms(2)] by blast
  qed
  ultimately show ?thesis by blast
next
  case (SpillBlock s)
  with assms obtain rest where "spill_stream rest later" by auto
  from spill_stream_plain [OF this assms(2)] show ?thesis .
qed

lemma blocks_merger:
  assumes holds: "list_all2 block_holds blocks its" and ne: "blocks \<noteq> []" and big: "length blocks < usize_max"
  shows "\<exists>m. merger_try_new ops blocks = Some m \<and> num_total_output_rows m = 0 \<and> merger_items m its"
proof -
  have "\<forall>i < length blocks. \<exists>later. block_repr (blocks ! i) [] [] later \<and> later \<noteq> []
      \<and> its ! i = concat (map (\<lambda>(ks, rs). zip ks rs) later)"
    using holds by (simp add: list_all2_conv_all_nth block_holds_def)
  then obtain f where f: "\<And>i. i < length blocks \<Longrightarrow> block_repr (blocks ! i) [] [] (f i) \<and> f i \<noteq> []
      \<and> its ! i = concat (map (\<lambda>(ks, rs). zip ks rs) (f i))" by metis
  let ?laters = "map f [0..<length blocks]"
  have "fresh_blocks blocks ?laters" using f by (simp add: fresh_blocks_def list_all2_conv_all_nth)
  from merger_try_new_ok [OF this ne big, of ap] obtain m where
    m: "merger_try_new ops blocks = Some m" "num_total_output_rows m = 0"
      "merger_repr ap m (map (\<lambda>l. concat (map fst l)) ?laters) (map (\<lambda>l. concat (map snd l)) ?laters)" by blast
  let ?kss = "map (\<lambda>l. concat (map fst l)) ?laters" and ?rss = "map (\<lambda>l. concat (map snd l)) ?laters"
  have len: "length its = length blocks" using holds by (simp add: list_all2_lengthD)
  have kd: "keyed (f i)" if "i < length blocks" for i using f [OF that] block_repr_keyed by blast
  have view: "row_view ?kss ?rss ! i = concat (map snd (f i))" if i: "i < length blocks" for i
  proof (cases ap)
    case True
    then have "row_view ?kss ?rss = map (\<lambda>ks. replicate (length ks) unit_row) ?kss" unfolding row_view_def by (rule if_P)
    moreover have "set (concat (map snd (f i))) \<subseteq> {unit_row}" using block_plain [OF _ True] f [OF i] by fastforce
    from replicate_rows [OF True this] have "replicate (length (concat (map fst (f i)))) unit_row = concat (map snd (f i))"
      using keyed_lengths [OF kd [OF i]] by metis
    ultimately show ?thesis using i by simp
  next
    case False
    then have "row_view ?kss ?rss = ?rss" unfolding row_view_def by (rule if_not_P)
    with i show ?thesis by simp
  qed
  have "its = map2 zip ?kss (row_view ?kss ?rss)"
  proof (rule nth_equalityI)
    show "length its = length (map2 zip ?kss (row_view ?kss ?rss))" using len row_view_aligned [OF m(3)] by simp
    fix i assume "i < length its"
    then have i: "i < length blocks" using len by simp
    then show "its ! i = map2 zip ?kss (row_view ?kss ?rss) ! i"
      using f [OF i] map_zip_concat [OF kd [OF i]] view [OF i] row_view_aligned [OF m(3)] by simp
  qed
  then have "merger_items m its" unfolding merger_items_def using m(3) by blast
  with m(1,2) show ?thesis by blast
qed

lemma feed_spill:
  assumes "\<forall>c \<in> set chunks. chunk_ok c \<and> sorted (map fst (fst c))"
  shows "\<exists>bytes. feed (spill_add_batch_and_keys ops) squeeze_collector_ops chunks acc = Some (acc @ bytes)
    \<and> spill_stream bytes (map (\<lambda>c. (map fst (fst c), map snd (fst c))) chunks)"
  using assms
proof (induction chunks arbitrary: acc)
  case (Cons c chunks)
  obtain out b where c: "c = (out, b)" by (cases c)
  with Cons.prems have b: "ok b" "rows b = map snd out" "sorted (map fst out)" by (auto simp: chunk_ok_def)
  from serde [OF b(1)] obtain wb where w: "write_one_batch ops b = Some wb" by blast
  have st: "store (collect_keys squeeze_collector_ops (map fst out)) = key_bytes [] (map fst out)"
    using squeeze_kc.collected [OF b(3)] by (simp add: collect_keys_def squeeze_collector_ops_def squeeze_holds_def)
  from Cons.IH [of "acc @ wb @ key_bytes [] (map fst out)"] Cons.prems obtain bytes where
    r: "feed (spill_add_batch_and_keys ops) squeeze_collector_ops chunks (acc @ wb @ key_bytes [] (map fst out))
        = Some ((acc @ wb @ key_bytes [] (map fst out)) @ bytes)"
      "spill_stream bytes (map (\<lambda>c. (map fst (fst c), map snd (fst c))) chunks)" by auto
  have "spill_stream (wb @ key_bytes [] (map fst out) @ bytes) (map (\<lambda>c. (map fst (fst c), map snd (fst c))) (c # chunks))"
    using r(2) w b(1,2) c by auto
  moreover have "spill_add_batch_and_keys ops b (collect_keys squeeze_collector_ops (map fst out)) acc
      = Some (acc @ wb @ key_bytes [] (map fst out))" by (simp add: spill_add_batch_and_keys_def w st)
  ultimately show ?case using r(1) c
    by (intro exI [of _ "wb @ key_bytes [] (map fst out) @ bytes"]) simp
qed simp

lemma block_holds_nonempty: "block_holds blk its \<Longrightarrow> its \<noteq> []"
proof -
  assume "block_holds blk its"
  then obtain later where l: "block_repr blk [] [] later" "later \<noteq> []" "its = concat (map (\<lambda>(ks, rs). zip ks rs) later)"
    by (auto simp: block_holds_def)
  have "keyed later" by (rule block_repr_keyed [OF l(1)])
  with l(2,3) show ?thesis by (cases later) (auto simp: keyed_Cons)
qed

lemma merge_blocks_ok:
  assumes holds: "list_all2 block_holds blocks its" and ne: "blocks \<noteq> []" and big: "length blocks < usize_max"
    and fit: "batches_fit n (concat its)" and n: "0 < n" "n < 2 ^ 64" and lim: "0 < limit"
    and keys: "\<forall>x \<in> set (concat its). key_fits (fst x)"
  shows "\<exists>blk out. merge_blocks ops ap limit n blocks = Some blk \<and> block_holds blk out \<and> top_rows limit (concat its) out"
proof -
  from blocks_merger [OF holds ne big] obtain m where
    m: "merger_try_new ops blocks = Some m" "num_total_output_rows m = 0" "merger_items m its" by blast
  from drain_ok [OF m(3) fit n(1), of squeeze_collector_ops limit] obtain chunks where
    ch: "\<And>(s::bytes) add. drain_merger (merger_next ops squeeze_collector_ops ap limit n) add s m = feed add squeeze_collector_ops chunks s"
      "\<forall>c \<in> set chunks. chunk_ok c \<and> length (fst c) \<le> n" "top_rows limit (concat its) (concat (map fst chunks))"
    using m(2) by (metis diff_zero)
  let ?out = "concat (map fst chunks)" and ?later = "map (\<lambda>c. (map fst (fst c), map snd (fst c))) chunks"
  have srt: "sorted (map fst ?out)" by (rule top_rows_sorted [OF ch(3)])
  have "sorted (map fst (fst c))" if "c \<in> set chunks" for c
  proof -
    from that obtain cs cs' where "chunks = cs @ c # cs'" by (auto simp: in_set_conv_decomp)
    with srt show ?thesis by (simp add: sorted_append)
  qed
  with feed_spill [of chunks "[]"] ch(2) obtain bytes where
    b: "feed (spill_add_batch_and_keys ops) squeeze_collector_ops chunks [] = Some bytes" "spill_stream bytes ?later" by auto
  have run: "merge_blocks ops ap limit n blocks = Some (spill_finish bytes)"
    using m(1) ch(1) b(1) ne by (cases blocks) (simp_all add: merge_blocks_def)
  have sub: "set ?out \<subseteq> set (concat its)"
  proof -
    from ch(3) obtain rest where "mset (concat its) = mset ?out + mset rest" by (auto simp: top_rows_def)
    then have "set (concat its) = set ?out \<union> set rest" by (metis set_mset_mset set_mset_union)
    then show ?thesis by blast
  qed
  have "keyed ?later"
    using ch(2) keys sub n(2) unfolding keyed_def
    by (fastforce simp: chunk_ok_def)
  moreover have "map fst ?out = concat (map fst ?later)" by (induction chunks) auto
  ultimately have rep: "block_repr (spill_finish bytes) [] [] ?later"
    using b(2) srt by (simp add: spill_finish_def default_reader_def)
  have "its \<noteq> []" using holds ne by (cases its) auto
  then have "concat its \<noteq> []" using holds block_holds_nonempty by (cases its) (auto simp: list_all2_Cons2)
  then have "?out \<noteq> []" by (rule top_rows_nonempty [OF ch(3) lim])
  then have "?later \<noteq> []" by auto
  moreover have "?out = concat (map (\<lambda>(ks, rs). zip ks rs) ?later)" by (simp add: comp_def zip_map_fst_snd)
  ultimately have "block_holds (spill_finish bytes) ?out" using rep unfolding block_holds_def by blast
  with run ch(3) show ?thesis by blast
qed

section \<open>The sorter\<close>

text \<open>
  \<open>blocks_top n blocks xs\<close>: the blocks hold the first \<open>n\<close> rows of the parts of a partition of the
  rows \<open>xs\<close>.
\<close>

definition holds_top :: "nat \<Rightarrow> 'b sorted_block \<Rightarrow> (bytes \<times> 'r) list \<Rightarrow> bool" where
  "holds_top n blk src = (\<exists>its. block_holds blk its \<and> top_rows n src its)"

definition blocks_top :: "nat \<Rightarrow> 'b sorted_block list \<Rightarrow> (bytes \<times> 'r) multiset \<Rightarrow> bool" where
  "blocks_top n blocks M = (\<exists>srcs. list_all2 (holds_top n) blocks srcs \<and> M = mset (concat srcs))"

lemma blocks_top_Nil [simp]: "blocks_top n [] M \<longleftrightarrow> M = {#}"
  by (auto simp: blocks_top_def)

lemma blocks_top_append: "blocks_top n (bs @ bs') M \<longleftrightarrow> (\<exists>A B. blocks_top n bs A \<and> blocks_top n bs' B \<and> M = A + B)"
  by (auto simp: blocks_top_def list_all2_append1) (metis concat_append list_all2_appendI mset_append list_all2_lengthD)+

lemma blocks_top_single: "holds_top n b src \<Longrightarrow> blocks_top n [b] (mset src)"
  by (auto simp: blocks_top_def intro: exI [of _ "[src]"])

lemma blocks_top_mset: "blocks_top n bs M \<Longrightarrow> mset bs' = mset bs \<Longrightarrow> blocks_top n bs' M"
proof -
  assume b: "blocks_top n bs M" and eq: "mset bs' = mset bs"
  from b obtain srcs where s: "list_all2 (holds_top n) bs srcs" "M = mset (concat srcs)" by (auto simp: blocks_top_def)
  from list_all2_reorder_left_invariance [OF s(1) eq] obtain srcs' where
    s': "list_all2 (holds_top n) bs' srcs'" "mset srcs' = mset srcs" by blast
  have "mset (concat ys) = \<Sum>\<^sub># (image_mset mset (mset ys))" for ys :: "(bytes \<times> 'r) list list"
    by (induction ys) simp_all
  with s s' show ?thesis by (auto simp: blocks_top_def)
qed

text \<open>What the rows must satisfy for a merge of \<open>n\<close> rows at a time.\<close>

definition rows_fit :: "nat \<Rightarrow> (bytes \<times> 'r) list \<Rightarrow> bool" where
  "rows_fit n xs = (batches_fit n xs \<and> (\<forall>x \<in> set xs. key_fits (fst x)) \<and> length xs < usize_max \<and> n < 2 ^ 64)"

lemma top_rows_subsets: "list_all2 (top_rows n) srcs its \<Longrightarrow> mset (concat its) \<subseteq># mset (concat srcs)"
  by (induction rule: list_all2_induct) (auto dest: top_rows_subset intro: subset_mset.add_mono)

lemma blocks_nonempty: "list_all2 block_holds bs its \<Longrightarrow> length bs \<le> length (concat its)"
proof (induction rule: list_all2_induct)
  case (Cons b bs it its)
  have "it \<noteq> []" using block_holds_nonempty [OF Cons.hyps(1)] .
  with Cons.IH show ?case by (cases it) auto
qed simp

lemma blocks_top_unpack:
  assumes b: "blocks_top n blocks M" and sub: "M \<subseteq># mset xs" and fit: "rows_fit k xs" and lim: "0 < n"
  shows "\<exists>its srcs. list_all2 block_holds blocks its \<and> list_all2 (top_rows n) srcs its \<and> M = mset (concat srcs)
    \<and> mset (concat its) \<subseteq># mset xs \<and> length blocks < usize_max"
proof -
  from b obtain srcs where s: "list_all2 (holds_top n) blocks srcs" "M = mset (concat srcs)" by (auto simp: blocks_top_def)
  then have "\<forall>i < length blocks. \<exists>its. block_holds (blocks ! i) its \<and> top_rows n (srcs ! i) its"
    by (simp add: list_all2_conv_all_nth holds_top_def)
  then obtain f where f: "\<And>i. i < length blocks \<Longrightarrow> block_holds (blocks ! i) (f i) \<and> top_rows n (srcs ! i) (f i)" by metis
  have len: "length srcs = length blocks" using s(1) by (simp add: list_all2_lengthD)
  let ?its = "map f [0..<length blocks]"
  have h: "list_all2 block_holds blocks ?its" "list_all2 (top_rows n) srcs ?its"
    using f len by (simp_all add: list_all2_conv_all_nth)
  have "mset (concat ?its) \<subseteq># mset (concat srcs)" "length blocks \<le> length (concat ?its)"
    using top_rows_subsets [OF h(2)] blocks_nonempty [OF h(1)] by simp_all
  moreover from this(1) sub s(2) have "mset (concat ?its) \<subseteq># mset xs" by (auto intro: subset_mset.order_trans)
  moreover from size_mset_mono [OF this] have "length (concat ?its) \<le> length xs" by simp
  ultimately have "mset (concat ?its) \<subseteq># mset xs" "length blocks < usize_max"
    using fit by (simp_all add: rows_fit_def)
  with h s(2) show ?thesis by blast
qed

lemma merge_top:
  assumes b: "blocks_top limit blocks M" and ne: "blocks \<noteq> []" and sub: "M \<subseteq># mset xs" and fit: "rows_fit k xs"
    and n: "0 < n" "n \<le> k" and lim: "0 < limit"
  shows "\<exists>blk src. merge_blocks ops ap limit n blocks = Some blk \<and> holds_top limit blk src \<and> mset src = M"
proof -
  from blocks_top_unpack [OF b sub fit lim] obtain its srcs where
    u: "list_all2 block_holds blocks its" "list_all2 (top_rows limit) srcs its" "M = mset (concat srcs)"
      "mset (concat its) \<subseteq># mset xs" "length blocks < usize_max" by blast
  have "batches_fit n (concat its)"
    by (rule batches_fit_mono [of k xs]) (use fit u(4) n(2) in \<open>simp_all add: rows_fit_def\<close>)
  moreover have "\<forall>x \<in> set (concat its). key_fits (fst x)"
  proof -
    have "set (concat its) \<subseteq> set xs" using set_mset_mono [OF u(4)] by (simp only: set_mset_mset)
    then show ?thesis using fit unfolding rows_fit_def by blast
  qed
  moreover have "n < 2 ^ 64" using fit n(2) unfolding rows_fit_def by linarith
  ultimately obtain blk out where m: "merge_blocks ops ap limit n blocks = Some blk" "block_holds blk out"
    "top_rows limit (concat its) out"
    using merge_blocks_ok [OF u(1) ne u(5) _ n(1) _ lim] by blast
  from top_rows_combine [OF u(2) m(3)] m(2) have "holds_top limit blk (concat srcs)" by (auto simp: holds_top_def)
  with m(1) u(3) show ?thesis by blast
qed

text \<open>The loop over the levels keeps the rows; no level is left full.\<close>

definition levels_ready :: "'a list list \<Rightarrow> bool" where
  "levels_ready ls = (ls \<noteq> [] \<and> (if length ls = 1 then length (hd ls) < NUM_MAX_MERGING_BATCHES else last ls = []))"

lemma merge_levels_ok:
  assumes "blocks_top limit (concat levels @ map ls_block out) M" and "levels_ready levels"
    and mrg: "\<And>bs A. bs \<noteq> [] \<Longrightarrow> blocks_top limit bs A \<Longrightarrow> A \<subseteq># M \<Longrightarrow> \<exists>blk src. mrg bs = Some blk \<and> holds_top limit blk src \<and> mset src = A"
    and "\<forall>s \<in> set out. ls_level s < level" and "\<forall>lv. length (filter (\<lambda>s. ls_level s = lv) out) < NUM_MAX_MERGING_BATCHES"
  shows "\<exists>out'. merge_levels mrg level levels out = Some out' \<and> blocks_top limit (map ls_block out') M
    \<and> (\<forall>lv. length (filter (\<lambda>s. ls_level s = lv) out') < NUM_MAX_MERGING_BATCHES)"
  using assms
proof (induction mrg level levels out rule: merge_levels.induct)
  case (1 mrg level out)
  then show ?case by (simp add: levels_ready_def)
next
  case (2 mrg level l out)
  then have l: "length l < NUM_MAX_MERGING_BATCHES" by (simp add: levels_ready_def)
  let ?new = "map (\<lambda>b. \<lparr>ls_block = b, ls_level = level\<rparr>) l"
  have run: "merge_levels mrg level [l] out = Some (out @ ?new)" using l by simp
  have "blocks_top limit (map ls_block (out @ ?new)) M"
    by (rule blocks_top_mset [OF 2(1)]) (simp add: comp_def)
  moreover have "\<forall>lv. length (filter (\<lambda>s. ls_level s = lv) (out @ ?new)) < NUM_MAX_MERGING_BATCHES"
    using level_counts [OF 2(4,5) l] by blast
  ultimately show ?case using run by blast
next
  case (3 mrg level l l' ls out)
  show ?case
  proof (cases "length l \<ge> NUM_MAX_MERGING_BATCHES")
    case True
    then have "l \<noteq> []" by (auto simp: NUM_MAX_MERGING_BATCHES_def)
    from 3(3) have "blocks_top limit (l @ l' @ concat ls @ map ls_block out) M" by simp
    then obtain A B where ab: "blocks_top limit l A" "blocks_top limit (l' @ concat ls @ map ls_block out) B" "M = A + B"
      unfolding blocks_top_append [of _ l] by blast
    from 3(5) [OF \<open>l \<noteq> []\<close> ab(1)] ab(3) obtain blk src where m: "mrg l = Some blk" "holds_top limit blk src" "mset src = A" by auto
    have "blocks_top limit ([blk] @ l' @ concat ls @ map ls_block out) (A + B)"
      unfolding blocks_top_append [of _ "[blk]"] using blocks_top_single [OF m(2)] m(3) ab(2) by blast
    then have "blocks_top limit (concat ((l' @ [blk]) # ls) @ map ls_block out) M"
      unfolding ab(3) by (rule blocks_top_mset) simp
    moreover have "levels_ready ((l' @ [blk]) # ls)"
      using 3(4) by (cases ls) (auto simp: levels_ready_def NUM_MAX_MERGING_BATCHES_def)
    moreover have "\<forall>s \<in> set out. ls_level s < level + 1" using 3(6) by auto
    ultimately show ?thesis using 3(1) [OF True m(1)] 3(5,7) True m(1) by simp
  next
    case False
    let ?new = "map (\<lambda>b. \<lparr>ls_block = b, ls_level = level\<rparr>) l"
    have l: "length l < NUM_MAX_MERGING_BATCHES" using False by simp
    have "blocks_top limit (concat (l' # ls) @ map ls_block (out @ ?new)) M"
      by (rule blocks_top_mset [OF 3(3)]) (simp add: comp_def)
    moreover have "levels_ready (l' # ls)"
      using 3(4) by (cases ls) (auto simp: levels_ready_def NUM_MAX_MERGING_BATCHES_def)
    moreover have "\<forall>s \<in> set (out @ ?new). ls_level s < level + 1" using 3(6) by auto
    moreover have "\<forall>lv. length (filter (\<lambda>s. ls_level s = lv) (out @ ?new)) < NUM_MAX_MERGING_BATCHES"
      using level_counts [OF 3(6,7) l] by blast
    ultimately show ?thesis using 3(2) [OF False] 3(5) False by simp
  qed
qed

lemma concat_chunk_by_level: "concat (chunk_by_level ss) = map ls_block ss"
  by (induction ss rule: chunk_by_level.induct) (auto split: list.splits)

lemma chunk_levels_ready: "levels_ready (chunk_by_level ss @ [[]])"
  by (cases "chunk_by_level ss") (auto simp: levels_ready_def NUM_MAX_MERGING_BATCHES_def)

end

section \<open>The sorter in its environment\<close>

text \<open>
  What the sorter relies on: the sorts of the standard library, the pruning of the key columns
  and their restoration.  \<open>items\<close> are the keyed pruned rows of a batch, \<open>full_rows\<close> its rows, which
  \<open>join\<close> puts together again; no batch of the input has more than \<open>bound\<close> rows, and every batch
  of the output is \<open>sendable\<close>.
\<close>

locale sort_contract = sorted_store ops rows ok fits ap unit_row
  for ops :: "'b batch_ops" and rows :: "'b \<Rightarrow> 'r list" and ok :: "'b \<Rightarrow> bool" and fits :: "'r list \<Rightarrow> bool"
    and ap :: bool and unit_row :: 'r +
  fixes env :: "('i, 'b) sort_env" and valid :: "'i \<Rightarrow> bool" and items :: "'i \<Rightarrow> (bytes \<times> 'r) list"
    and full_rows :: "'i \<Rightarrow> 'x list" and join :: "bytes \<times> 'r \<Rightarrow> 'x" and good :: "bytes \<times> 'r \<Rightarrow> bool" and bound :: nat
    and sendable :: "'i \<Rightarrow> bool"
  assumes env_ops: "batch_ops env = ops" "is_all_pruned env = ap"
    and limit_pos: "0 < sort_limit env"
    and unstable_rows: "mset (sort_unstable_rows env ks) = mset [0..<length ks]" "sorted (map ((!) ks) (sort_unstable_rows env ks))"
    and unstable_levels: "mset (sort_unstable_levels env ls) = mset [0..<length ls]"
    and prune_ok: "valid b \<Longrightarrow> \<exists>keys pruned. prune env b = Some (keys, pruned) \<and> ok pruned
      \<and> length keys = length (rows pruned) \<and> items b = zip keys (rows pruned) \<and> input_rows env b = length keys"
    and good_items: "valid b \<Longrightarrow> x \<in> set (items b) \<Longrightarrow> good x"
    and restore_ok: "ok pruned \<Longrightarrow> rows_keys kr = Some ks \<Longrightarrow> length ks = length (rows pruned) \<Longrightarrow> length ks \<le> bound \<Longrightarrow>
      \<forall>x \<in> set (zip ks (rows pruned)). good x \<Longrightarrow>
      \<exists>b. restore env pruned kr = Some b \<and> full_rows b = map join (zip ks (rows pruned)) \<and> sendable b"
    and conf_bound: "max (conf_batch_size env) 20 \<le> bound" "bound < 2 ^ 32"
begin

abbreviation limit :: nat where
  "limit \<equiv> sort_limit env"

lemma batch_size_bounds:
  "0 < num_rows \<Longrightarrow> 20 \<le> compute_batch_size_with_target_mem_size (conf_batch_size env) mem num_rows target
     \<and> compute_batch_size_with_target_mem_size (conf_batch_size env) mem num_rows target \<le> bound"
  using conf_bound(1) by (auto simp: compute_batch_size_with_target_mem_size_def Let_def)

lemma merge_spilled_ok:
  assumes "rows_fit bound xs" and "A \<subseteq># mset xs" and "0 < num_total_rows s" and "bs \<noteq> []" and "blocks_top limit bs A"
  shows "\<exists>blk src. merge_spilled env s bs = Some blk \<and> holds_top limit blk src \<and> mset src = A"
proof -
  have "0 < sub_batch_size env s" "sub_batch_size env s \<le> bound"
    using batch_size_bounds [OF assms(3), of "mem_total_size s" "conf_kway_mem env"]
    by (simp_all add: sub_batch_size_def)
  from merge_top [OF assms(5,4,2,1) this limit_pos] show ?thesis by (simp add: merge_spilled_def env_ops)
qed

lemma reorder_spills:
  assumes "mset p = mset [0..<length ss]"
  shows "\<exists>ss'. those (map (vget ss) p) = Some ss' \<and> mset ss' = mset ss"
proof -
  have "set p = {0..<length ss}" using mset_eq_setD [OF assms] by simp
  then have "map (vget ss) p = map Some (map ((!) ss) p)" by simp
  then have "those (map (vget ss) p) = Some (map ((!) ss) p)" by (simp only: those_Some_iff)
  moreover have "mset (map ((!) ss) p) = mset (map ((!) ss) [0..<length ss])" using assms by (simp only: mset_map)
  ultimately show ?thesis by (auto simp: map_nth)
qed

definition sorter_inv :: "'b external_sorter \<Rightarrow> (bytes \<times> 'r) multiset \<Rightarrow> bool" where
  "sorter_inv s M = (blocks_top limit (in_mem_blocks s @ map ls_block (spills s)) M
     \<and> (M \<noteq> {#} \<longrightarrow> 0 < num_total_rows s)
     \<and> (\<forall>lv. length (filter (\<lambda>s. ls_level s = lv) (spills s)) < NUM_MAX_MERGING_BATCHES))"

lemma spill_ok:
  assumes inv: "sorter_inv s M" and fit: "rows_fit bound xs" and sub: "M \<subseteq># mset xs" and pos: "0 < num_total_rows s"
    and ne: "in_mem_blocks s \<noteq> []"
  shows "\<exists>s'. spill env s = Some s' \<and> sorter_inv s' M \<and> in_mem_blocks s' = [] \<and> num_total_rows s' = num_total_rows s"
proof -
  from inv obtain A B where ab: "blocks_top limit (in_mem_blocks s) A" "blocks_top limit (map ls_block (spills s)) B" "M = A + B"
    unfolding sorter_inv_def blocks_top_append by blast
  have "A \<subseteq># mset xs" using sub ab(3) by (metis mset_subset_eq_add_left subset_mset.order_trans)
  from merge_spilled_ok [OF fit this pos ne ab(1)] obtain blk src where
    blk: "merge_spilled env s (in_mem_blocks s) = Some blk" "holds_top limit blk src" "mset src = A" by blast
  let ?all = "spills s @ [\<lparr>ls_block = blk, ls_level = 0\<rparr>]"
  have all: "blocks_top limit (map ls_block ?all) M"
    using blocks_top_single [OF blk(2)] ab(2,3) blk(3) by (auto simp: blocks_top_append)
  from reorder_spills [of "sort_unstable_levels env (map ls_level ?all)" ?all] unstable_levels obtain ss where
    ss: "those (map (vget ?all) (sort_unstable_levels env (map ls_level ?all))) = Some ss" "mset ss = mset ?all"
    by (metis length_map)
  let ?levels = "chunk_by_level ss @ [[]]"
  have "blocks_top limit (concat ?levels @ map ls_block []) M"
    by (rule blocks_top_mset [OF all]) (use arg_cong [OF ss(2), of "image_mset ls_block"] in \<open>simp add: concat_chunk_by_level\<close>)
  moreover have "\<exists>blk src. merge_spilled env s bs = Some blk \<and> holds_top limit blk src \<and> mset src = A"
    if "bs \<noteq> []" "blocks_top limit bs A" "A \<subseteq># M" for bs A
    using merge_spilled_ok [OF fit _ pos that(1,2)] that(3) sub by (blast intro: subset_mset.order_trans)
  ultimately obtain out where
    out: "merge_levels (merge_spilled env s) 0 ?levels [] = Some out" "blocks_top limit (map ls_block out) M"
      "\<forall>lv. length (filter (\<lambda>s. ls_level s = lv) out) < NUM_MAX_MERGING_BATCHES"
    using merge_levels_ok [of limit ?levels "[]" M "merge_spilled env s" 0] chunk_levels_ready [of ss]
    by (auto simp: NUM_MAX_MERGING_BATCHES_def)
  then have "spill env s = Some (s\<lparr>in_mem_blocks := [], spills := out\<rparr>)"
    using blk(1) ss(1) by (simp add: spill_def Let_def)
  with out(2,3) pos show ?thesis by (simp add: sorter_inv_def)
qed

lemma sorted_indices_ok:
  assumes "length keys < 2 ^ 32"
  shows "\<exists>p. mset p = mset [0..<length keys] \<and> sorted (map ((!) keys) p) \<and> sorted_indices env keys = take limit p"
proof -
  have len: "length keys mod 2 ^ 32 = length keys" using assms by simp
  show ?thesis
  proof (cases "rows_size env keys div length keys \<le> 8")
    case True
    with len unstable_rows [of keys] show ?thesis
      by (intro exI [of _ "sort_unstable_rows env keys"]) (simp add: sorted_indices_def)
  next
    case False
    with len show ?thesis
      by (intro exI [of _ "sort_key ((!) keys) [0..<length keys]"]) (simp add: sorted_indices_def)
  qed
qed

lemma top_rows_of_sorted:
  assumes "mset full = mset xs" and "sorted (map fst full)"
  shows "top_rows n xs (take n full)"
proof -
  have "mset xs = mset (take n full) + mset (drop n full)" by (metis append_take_drop_id assms(1) mset_append)
  moreover have "length xs = length full" using assms(1) by (metis mset_eq_length)
  moreover have "sorted (map fst (take n full) @ map fst (drop n full))"
    using assms(2) by (metis append_take_drop_id map_append)
  ultimately show ?thesis by (auto simp: top_rows_def sorted_append)
qed

lemma mem_block_holds:
  assumes "mem_holds kc ks" and "ok b" and "length ks = length (rows b)" and "ks \<noteq> []" and "sorted ks"
    and "length ks < 2 ^ 64" and "\<forall>k \<in> set ks. key_fits k"
  shows "block_holds (InMemBlock \<lparr>sorted_keys = [mem_default, kc], sorted_batches = [b], mem_row_idx = 0\<rparr>) (zip ks (rows b))"
  unfolding block_holds_def
  by (intro exI [of _ "[(ks, rows b)]"]) (use assms in \<open>simp add: keyed_Cons\<close>)

lemma sort_batch_ok:
  assumes v: "valid b" and len: "0 < input_rows env b" "input_rows env b \<le> bound" and fit: "rows_fit bound xs"
    and sub: "mset (items b) \<subseteq># mset xs"
  shows "\<exists>blk. sort_batch env b = Some blk \<and> holds_top limit blk (items b)"
proof -
  from prune_ok [OF v] obtain keys pruned where p: "prune env b = Some (keys, pruned)" "ok pruned"
    "length keys = length (rows pruned)" "items b = zip keys (rows pruned)" "input_rows env b = length keys" by blast
  have n: "length keys < 2 ^ 32" using len(2) p(5) conf_bound(2) by simp
  from sorted_indices_ok [OF n] obtain q where q: "mset q = mset [0..<length keys]" "sorted (map ((!) keys) q)"
    "sorted_indices env keys = take limit q" by blast
  let ?idx = "take limit q" and ?ks = "map ((!) keys) (take limit q)"
  have set_q: "set q = {0..<length keys}" using mset_eq_setD [OF q(1)] by simp
  then have idx: "\<forall>i \<in> set ?idx. i < length keys" by (auto dest: in_set_takeD)
  then have "map (vget keys) ?idx = map Some ?ks" by simp
  then have ks: "those (map (vget keys) ?idx) = Some ?ks" by (simp only: those_Some_iff)
  have srt: "sorted ?ks" using q(2) by (simp add: take_map [symmetric] sorted_wrt_take)
  have item: "items b ! i = (keys ! i, rows pruned ! i)" if "i < length keys" for i
    using that p(3,4) by simp
  have full: "mset (map ((!) (items b)) q) = mset (items b)"
  proof -
    have "mset (map ((!) (items b)) q) = mset (map ((!) (items b)) [0..<length keys])" using q(1) by (simp only: mset_map)
    also have "map ((!) (items b)) [0..<length keys] = items b" using p(3,4) by (intro nth_equalityI) simp_all
    finally show ?thesis .
  qed
  have keys_eq: "map fst (map ((!) (items b)) q) = map ((!) keys) q"
    using set_q item by simp
  have out: "take limit (map ((!) (items b)) q) = zip ?ks (map ((!) (rows pruned)) ?idx)"
    using idx item by (simp add: take_map zip_map_map zip_same_conv_map)
  have rws: "map ((!) (rows pruned)) ?idx = map snd (take limit (map ((!) (items b)) q))"
    using idx item by (simp add: take_map)
  have "mset (take limit (map ((!) (items b)) q)) \<subseteq># mset (items b)"
    by (metis append_take_drop_id full mset_append mset_subset_eq_add_left)
  then have "mset (map ((!) (rows pruned)) ?idx) \<subseteq># mset (map snd xs)"
    unfolding rws mset_map [of snd] using sub by (intro image_mset_subseteq_mono) (rule subset_mset.order_trans)
  moreover have "length q = length keys" using mset_eq_length [OF q(1)] by simp
  then have "length (map ((!) (rows pruned)) ?idx) \<le> bound" using len(2) p(5) by simp
  ultimately have "\<not> ap \<Longrightarrow> fits (map ((!) (rows pruned)) ?idx)" using fit unfolding rows_fit_def batches_fit_def by blast
  then obtain sb where sb: "(if \<not> ap then take_batch ops pruned ?idx else Some (zero_column_batch ops (length ?idx))) = Some sb"
    "ok sb" "rows sb = map ((!) (rows pruned)) ?idx"
  proof (cases ap)
    case True
    have "rows pruned = replicate (length (rows pruned)) unit_row" by (rule replicate_rows [OF True pruned_rows [OF True p(2)]])
    then have "rows pruned ! i = unit_row" if "i < length keys" for i using that p(3) by (metis nth_replicate)
    then have "map ((!) (rows pruned)) ?idx = replicate (length ?idx) unit_row" using idx by (intro replicate_eqI) auto
    moreover have "length ?idx < 2 ^ 64" using n \<open>length q = length keys\<close> by simp
    ultimately show ?thesis using True zero_rows [OF True] that by simp
  next
    case False
    with take_rows [OF p(2), of ?idx] idx p(3) \<open>\<not> ap \<Longrightarrow> fits (map ((!) (rows pruned)) ?idx)\<close> that show ?thesis by auto
  qed
  let ?kc = "mem_freeze (foldl (\<lambda>c k. mem_add_key k c) mem_default ?ks)"
  let ?blk = "InMemBlock \<lparr>sorted_keys = [mem_default, ?kc], sorted_batches = [sb], mem_row_idx = 0\<rparr>"
  have run: "sort_batch env b = Some ?blk"
    using p(1) q(3) ks sb(1)
    by (cases ap) (simp_all add: sort_batch_def Let_def env_ops mem_add_batch_and_keys_def default_builder_def mem_finish_def)
  have "?ks \<noteq> []" using len(1) p(5) limit_pos \<open>length q = length keys\<close> by auto
  moreover have "length ?ks < 2 ^ 64" using n \<open>length q = length keys\<close> by simp
  moreover have "\<forall>k \<in> set ?ks. key_fits k"
  proof -
    have "set (items b) \<subseteq> set xs" using set_mset_mono [OF sub] by simp
    then have "key_fits (keys ! i)" if "i < length keys" for i
      using fit item [OF that] that p(3,4) unfolding rows_fit_def by (metis fst_conv length_zip min.idem nth_mem subsetD)
    with idx show ?thesis by auto
  qed
  ultimately have "block_holds ?blk (zip ?ks (rows sb))"
    using mem_kc.collected [OF srt] sb(2,3) srt by (intro mem_block_holds) simp_all
  moreover have "top_rows limit (items b) (zip ?ks (rows sb))"
    unfolding sb(3) out [symmetric] by (rule top_rows_of_sorted [OF full]) (simp only: keys_eq q(2))
  ultimately show ?thesis using run by (auto simp: holds_top_def)
qed

lemma insert_batch_ok:
  assumes inv: "sorter_inv s M" and fit: "rows_fit bound xs" and v: "valid b" "input_rows env b \<le> bound"
    and sub: "M + mset (items b) \<subseteq># mset xs"
  shows "\<exists>s'. insert_batch env b spill_now s = Some s' \<and> sorter_inv s' (M + mset (items b))"
proof (cases "input_rows env b = 0")
  case True
  from prune_ok [OF v(1)] True have "items b = []" by auto
  with True inv show ?thesis by (simp add: insert_batch_def)
next
  case False
  have "mset (items b) \<subseteq># mset xs" using sub by (metis mset_subset_eq_add_right subset_mset.order_trans)
  from sort_batch_ok [OF v(1) _ v(2) fit this] False obtain blk where
    blk: "sort_batch env b = Some blk" "holds_top limit blk (items b)" by auto
  let ?s = "s\<lparr>num_total_rows := num_total_rows s + input_rows env b, mem_total_size := mem_total_size s + input_mem_size env b,
    in_mem_blocks := in_mem_blocks s @ [blk]\<rparr>"
  have "blocks_top limit ((in_mem_blocks s @ map ls_block (spills s)) @ [blk]) (M + mset (items b))"
    unfolding blocks_top_append [of _ "in_mem_blocks s @ map ls_block (spills s)"]
    using inv blocks_top_single [OF blk(2)] by (auto simp: sorter_inv_def)
  then have "blocks_top limit (in_mem_blocks ?s @ map ls_block (spills ?s)) (M + mset (items b))"
    by (rule blocks_top_mset) simp
  then have inv': "sorter_inv ?s (M + mset (items b))" using inv False by (simp add: sorter_inv_def)
  show ?thesis
  proof (cases spill_now)
    case True
    with spill_ok [OF inv' fit sub] False blk(1) show ?thesis by (auto simp: insert_batch_def Let_def)
  next
    case no: False
    with inv' False blk(1) show ?thesis by (simp add: insert_batch_def Let_def)
  qed
qed

lemma insert_batches_ok:
  assumes "sorter_inv s M" and "rows_fit bound xs" and "\<forall>(b, sp) \<in> set input. valid b \<and> input_rows env b \<le> bound"
    and "M + mset (concat (map (items \<circ> fst) input)) \<subseteq># mset xs"
  shows "\<exists>s'. insert_batches env input s = Some s' \<and> sorter_inv s' (M + mset (concat (map (items \<circ> fst) input)))"
  using assms
proof (induction input arbitrary: s M)
  case Nil
  then show ?case by simp
next
  case (Cons i input)
  obtain b sp where i: "i = (b, sp)" by (cases i)
  have "M + mset (items b) \<subseteq># M + mset (concat (map (items \<circ> fst) (i # input)))" using i by simp
  with Cons.prems(4) have "M + mset (items b) \<subseteq># mset xs" by (rule subset_mset.order_trans [rotated])
  from insert_batch_ok [OF Cons.prems(1,2) _ _ this, of sp] Cons.prems(3) i obtain s' where
    s': "insert_batch env b sp s = Some s'" "sorter_inv s' (M + mset (items b))" by auto
  from Cons.IH [OF s'(2) Cons.prems(2)] Cons.prems(3,4) s'(1) i show ?case by (auto simp: add.assoc)
qed

text \<open>No batch of the output is empty or larger than the bound.\<close>

definition batch_sendable :: "'i \<Rightarrow> bool" where
  "batch_sendable b = (sendable b \<and> full_rows b \<noteq> [] \<and> length (full_rows b) \<le> bound)"

lemma feed_output:
  assumes "\<forall>c \<in> set chunks. chunk_ok c \<and> length (fst c) \<le> bound \<and> sorted (map fst (fst c)) \<and> (\<forall>x \<in> set (fst c). good x)"
  shows "\<exists>sent. feed (send_output_batch env) mem_collector chunks acc = Some (acc @ sent)
    \<and> map (full_rows \<circ> fst) sent = map (map join \<circ> fst) chunks
    \<and> map (rows_keys \<circ> snd) sent = map (Some \<circ> map fst \<circ> fst) chunks
    \<and> (\<forall>s \<in> set sent. batch_sendable (fst s))"
  using assms
proof (induction chunks arbitrary: acc)
  case (Cons c chunks)
  obtain out b where c: "c = (out, b)" by (cases c)
  with Cons.prems have b: "ok b" "rows b = map snd out" "sorted (map fst out)" "\<forall>x \<in> set out. good x" "length out \<le> bound" "out \<noteq> []"
    by (auto simp: chunk_ok_def)
  let ?kc = "collect_keys mem_collector (map fst out)"
  have "mem_holds ?kc (map fst out)"
    using mem_kc.collected [OF b(3)] by (simp add: collect_keys_def mem_collector_def)
  from mem_rows [OF this] have kc: "mem_into_rows (length out) ?kc = Some ?kc" "rows_keys ?kc = Some (map fst out)" by simp_all
  have z: "zip (map fst out) (rows b) = out" by (simp add: b(2) zip_map_fst_snd)
  from restore_ok [OF b(1) kc(2)] z b(2,4,5) obtain fb where
    fb: "restore env b ?kc = Some fb" "full_rows fb = map join out" "sendable fb" by auto
  then have "batch_sendable fb" using b(5,6) by (simp add: batch_sendable_def)
  have step: "send_output_batch env b ?kc acc = Some (acc @ [(fb, ?kc)])"
    using kc(1) fb(1) num_rows [OF b(1)] b(2) by (simp add: send_output_batch_def env_ops)
  have pre: "\<forall>c \<in> set chunks. chunk_ok c \<and> length (fst c) \<le> bound \<and> sorted (map fst (fst c)) \<and> (\<forall>x \<in> set (fst c). good x)"
    using Cons.prems by simp
  from Cons.IH [OF pre, of "acc @ [(fb, ?kc)]"] obtain sent where
    "feed (send_output_batch env) mem_collector chunks (acc @ [(fb, ?kc)]) = Some ((acc @ [(fb, ?kc)]) @ sent)"
    "map (full_rows \<circ> fst) sent = map (map join \<circ> fst) chunks"
    "map (rows_keys \<circ> snd) sent = map (Some \<circ> map fst \<circ> fst) chunks" "\<forall>s \<in> set sent. batch_sendable (fst s)" by blast
  with step fb kc(2) c \<open>batch_sendable fb\<close> show ?case by (intro exI [of _ "(fb, ?kc) # sent"]) (simp add: comp_def)
qed simp

lemma sorted_chunks:
  assumes "sorted (map fst (concat (map fst chunks)))" and "c \<in> set chunks"
  shows "sorted (map fst (fst c))"
proof -
  from assms(2) obtain cs cs' where "chunks = cs @ c # cs'" by (auto simp: in_set_conv_decomp)
  with assms(1) show ?thesis by (simp add: sorted_append)
qed

definition sort_result :: "(bytes \<times> 'r) list \<Rightarrow> ('i \<times> key_rows) list \<Rightarrow> bool" where
  "sort_result xs sent = (\<exists>full. mset full = mset xs \<and> sorted (map fst full)
     \<and> concat (map (full_rows \<circ> fst) sent) = map join (drop (sort_skip env) (take limit full))
     \<and> those (map (rows_keys \<circ> snd) sent) \<noteq> None
     \<and> concat (map (the \<circ> rows_keys \<circ> snd) sent) = map fst (drop (sort_skip env) (take limit full))
     \<and> (\<forall>s \<in> set sent. batch_sendable (fst s)))"

lemma blocks_top_nonempty: "blocks \<noteq> [] \<Longrightarrow> blocks_top limit blocks M \<Longrightarrow> M \<noteq> {#}"
proof -
  assume "blocks \<noteq> []" "blocks_top limit blocks M"
  then obtain b src srcs where "holds_top limit b src" "M = mset (src @ concat srcs)"
    by (cases blocks) (auto simp: blocks_top_def list_all2_Cons1)
  moreover from this(1) have "src \<noteq> []" using block_holds_nonempty by (fastforce simp: holds_top_def top_rows_def)
  ultimately show ?thesis by simp
qed

lemma skip_short:
  assumes "length sk = min k (min l N)" and "length (sk @ out) = min l N"
  shows "out = drop k (sk @ out)"
  using assms by (cases "k \<le> min l N") (auto simp: min_def split: if_splits)

lemma output_blocks_ok:
  assumes b: "blocks_top limit blocks (mset xs)" and ne: "blocks \<noteq> []" and fit: "rows_fit bound xs"
    and n: "0 < n" "n \<le> bound" and gd: "\<forall>x \<in> set xs. good x"
  shows "\<exists>sent. output_blocks env n blocks = Some sent \<and> sort_result xs sent"
proof -
  from blocks_top_unpack [OF b _ fit limit_pos] obtain its srcs where
    u: "list_all2 block_holds blocks its" "list_all2 (top_rows limit) srcs its" "mset xs = mset (concat srcs)"
      "mset (concat its) \<subseteq># mset xs" "length blocks < usize_max" by auto
  from blocks_merger [OF u(1) ne u(5)] obtain m where
    m: "merger_try_new ops blocks = Some m" "num_total_output_rows m = 0" "merger_items m its" by blast
  have fit_its: "batches_fit n (concat its)"
    by (rule batches_fit_mono [of bound xs]) (use fit u(4) n(2) in \<open>simp_all add: rows_fit_def\<close>)
  let ?step = "merger_next ops mem_collector ap limit"
  from skip_rows_ok [OF m(3) fit_its n(1), of mem_collector limit "sort_skip env"] obtain m' its' sk where
    sk: "skip_rows ?step n (sort_skip env) m = Some m'" "merger_items m' its'"
      "mset (concat its) = mset sk + mset (concat its')" "sorted (map fst sk)"
      "\<forall>x \<in> set sk. \<forall>y \<in> set (concat its'). fst x \<le> fst y"
      "length sk = min (sort_skip env) (min (limit - num_total_output_rows m) (length (concat its)))"
      "num_total_output_rows m' = num_total_output_rows m + length sk" by blast
  have skip: "(if sort_skip env > 0 then skip_rows ?step n (sort_skip env) m else Some m) = Some m'"
  proof (cases "sort_skip env = 0")
    case True
    have "skip_rows ?step n 0 m = Some m" by (subst skip_rows.simps) simp
    with sk(1) True show ?thesis by simp
  next
    case False
    with sk(1) show ?thesis by simp
  qed
  have fit_its': "batches_fit n (concat its')" by (rule batches_fit_mono [OF fit_its]) (simp_all add: sk(3))
  from drain_ok [OF sk(2) fit_its' n(1), of mem_collector limit] obtain chunks where
    "(\<forall>(s::('i \<times> key_rows) list) add. drain_merger (?step n) add s m' = feed add mem_collector chunks s)
      \<and> (\<forall>c \<in> set chunks. chunk_ok c \<and> length (fst c) \<le> n)
      \<and> top_rows (limit - num_total_output_rows m') (concat its') (concat (map fst chunks))" by (rule exE)
  then have ch: "drain_merger (?step n) add s m' = feed add mem_collector chunks s"
      "\<forall>c \<in> set chunks. chunk_ok c \<and> length (fst c) \<le> n"
      "top_rows (limit - num_total_output_rows m') (concat its') (concat (map fst chunks))"
    for s :: "('i \<times> key_rows) list" and add by simp_all
  let ?out = "concat (map fst chunks)"
  have "length sk \<le> limit" using sk(6) m(2) by simp
  from top_rows_step [OF sk(3-5) this, of ?out] ch(3) sk(7) m(2) have top: "top_rows limit (concat its) (sk @ ?out)" by simp
  from top_rows_combine [OF u(2) this] have "top_rows limit xs (sk @ ?out)" using top_rows_cong [OF u(3)] by simp
  from top_rows_take [OF this] obtain full where
    full: "mset full = mset xs" "sorted (map fst full)" "sk @ ?out = take limit full" by blast
  have len: "length (sk @ ?out) = min limit (length (concat its))" using top by (auto simp: top_rows_def)
  have "?out = drop (sort_skip env) (sk @ ?out)"
    by (rule skip_short [where l = limit and N = "length (concat its)"]) (use sk(6) m(2) len in \<open>simp_all del: length_concat\<close>)
  then have out: "?out = drop (sort_skip env) (take limit full)" using full(3) by simp
  have "set (drop (sort_skip env) (take limit full)) \<subseteq> set full"
    by (rule subset_trans [OF set_drop_subset set_take_subset])
  then have "set ?out \<subseteq> set xs" unfolding out mset_eq_setD [OF full(1)] .
  then have "\<forall>c \<in> set chunks. chunk_ok c \<and> length (fst c) \<le> bound \<and> sorted (map fst (fst c)) \<and> (\<forall>x \<in> set (fst c). good x)"
    using ch(2) gd n(2) sorted_chunks [OF top_rows_sorted [OF ch(3)]] by fastforce
  from feed_output [OF this, of "[]"] obtain sent where
    sent: "feed (send_output_batch env) mem_collector chunks [] = Some sent"
      "map (full_rows \<circ> fst) sent = map (map join \<circ> fst) chunks"
      "map (rows_keys \<circ> snd) sent = map (Some \<circ> map fst \<circ> fst) chunks" "\<forall>s \<in> set sent. batch_sendable (fst s)" by auto
  have run: "output_blocks env n blocks = Some sent"
    using m(1) skip ch(1) sent(1) by (simp add: output_blocks_def Let_def env_ops)
  have "concat (map (full_rows \<circ> fst) sent) = map join ?out" unfolding sent(2) by (simp add: map_concat)
  moreover have "those (map (rows_keys \<circ> snd) sent) \<noteq> None" unfolding sent(3) those_None_iff by auto
  moreover have "map (the \<circ> rows_keys \<circ> snd) sent = map (map fst \<circ> fst) chunks"
    using arg_cong [OF sent(3), of "map the"] by (simp add: comp_def)
  then have "concat (map (the \<circ> rows_keys \<circ> snd) sent) = map fst ?out" by (simp add: map_concat)
  ultimately have "sort_result xs sent"
    unfolding sort_result_def by (intro exI [of _ full] conjI full(1,2) sent(4)) (simp_all only: out [symmetric] simp_thms)
  with run show ?thesis by blast
qed

theorem execute_sort_ok:
  assumes inp: "\<forall>(b, sp) \<in> set input. valid b \<and> input_rows env b \<le> bound"
    and fit: "rows_fit bound (concat (map (items \<circ> fst) input))"
  shows "\<exists>sent. execute_sort env input = Some sent \<and> sort_result (concat (map (items \<circ> fst) input)) sent"
proof -
  let ?xs = "concat (map (items \<circ> fst) input)"
  have "sorter_inv new_sorter {#}" by (simp add: sorter_inv_def new_sorter_def NUM_MAX_MERGING_BATCHES_def)
  from insert_batches_ok [OF this fit inp] obtain s where
    s: "insert_batches env input new_sorter = Some s" "sorter_inv s (mset ?xs)" by auto
  show ?thesis
  proof (cases "in_mem_blocks s = [] \<and> spills s = []")
    case True
    then have "?xs = []" using s(2) by (simp add: sorter_inv_def)
    moreover have "execute_sort env input = Some []" using s(1) True by (simp add: execute_sort_def sorter_output_def Let_def)
    moreover have "sort_result [] []" unfolding sort_result_def by (intro exI [of _ "[]"]) simp
    ultimately show ?thesis by (intro exI [of _ "[]"]) (simp only: simp_thms)
  next
    case False
    then have "mset ?xs \<noteq> {#}"
      using s(2) blocks_top_nonempty [of "in_mem_blocks s @ map ls_block (spills s)" "mset ?xs"] by (auto simp: sorter_inv_def)
    then have pos: "0 < num_total_rows s" using s(2) by (simp add: sorter_inv_def)
    have "\<exists>s'. (if spills s \<noteq> [] \<and> in_mem_blocks s \<noteq> [] then spill env s else Some s) = Some s'
        \<and> sorter_inv s' (mset ?xs) \<and> (spills s' = [] \<or> in_mem_blocks s' = []) \<and> num_total_rows s' = num_total_rows s"
      using spill_ok [OF s(2) fit _ pos] s(2) by (cases "spills s \<noteq> [] \<and> in_mem_blocks s \<noteq> []") auto
    then obtain s' where s': "(if spills s \<noteq> [] \<and> in_mem_blocks s \<noteq> [] then spill env s else Some s) = Some s'"
      "sorter_inv s' (mset ?xs)" "spills s' = [] \<or> in_mem_blocks s' = []" "num_total_rows s' = num_total_rows s" by blast
    let ?n = "output_batch_size env s'" and ?blocks = "in_mem_blocks s' @ map ls_block (spills s')"
    have n: "0 < ?n" "?n \<le> bound"
      using batch_size_bounds [of "num_total_rows s'" "mem_total_size s'" "conf_output_mem env"] pos s'(4)
      by (simp_all add: output_batch_size_def)
    have ne: "?blocks \<noteq> []" using s'(2) \<open>mset ?xs \<noteq> {#}\<close> by (metis blocks_top_Nil sorter_inv_def)
    have gd: "\<forall>x \<in> set ?xs. good x" using inp good_items by auto
    have "blocks_top limit ?blocks (mset ?xs)" using s'(2) by (simp add: sorter_inv_def)
    from output_blocks_ok [OF this ne fit n gd] obtain sent where
      sent: "output_blocks env ?n ?blocks = Some sent" "sort_result ?xs sent" by blast
    have "execute_sort env input = output_blocks env ?n ?blocks"
      using s(1) s'(1,3) ne by (auto simp: execute_sort_def sorter_output_def Let_def)
    with sent show ?thesis by auto
  qed
qed

end

end
