(* ===== verification/Arrow_Selection.thy ===== *)
theory Arrow_Selection
  imports Arrow_Array
begin

text \<open>
  Selecting and gathering rows (\<open>datafusion-ext-commons/src/arrow/selection.rs\<close>): \<open>take_batch\<close>
  picks rows of one batch, the interleavers gather rows of several batches.  The interleaver of
  primitive arrays copies values; the one of byte arrays collects the addresses of the values
  first and copies adjacent values with one copy.  Every other array class goes to the
  \<open>interleave\<close> kernel of the \<open>arrow\<close> crate.

  The kernels of that crate are parameters (\<open>kernels\<close>): \<open>take\<close>, \<open>interleave\<close>,
  \<open>RecordBatch::try_new_with_options\<close>, and where the value buffers lie in memory;
  \<open>kernels_ok\<close> is what their documentation promises for the column types in use.  The prefetch
  hints have no effect on the result and are left out.  \<open>None\<close> is an error or a panic.
\<close>

section \<open>Model\<close>

record record_batch =
  rb_schema :: "data_type list"
  rb_columns :: "array list"
  rb_num_rows :: nat

text \<open>A flat memory and the address of every value buffer in it.\<close>

record memory =
  heap :: "nat \<Rightarrow> u8"
  buffer_ptr :: "nat \<Rightarrow> nat"

record kernels =
  arrow_take :: "array \<Rightarrow> nat list \<Rightarrow> array option"
  arrow_interleave :: "array list \<Rightarrow> (nat \<times> nat) list \<Rightarrow> array option"
  try_new_with_options :: "data_type list \<Rightarrow> array list \<Rightarrow> nat \<Rightarrow> record_batch option"
  place_buffers :: "bytes list \<Rightarrow> memory"

subsection \<open>Taking rows\<close>

definition take_cols_internal :: "kernels \<Rightarrow> array list \<Rightarrow> nat list \<Rightarrow> array list option" where
  "take_cols_internal ker cols indices = those (map (\<lambda>c. arrow_take ker c indices) cols)"

definition take_cols :: "kernels \<Rightarrow> array list \<Rightarrow> nat list \<Rightarrow> array list option" where
  "take_cols ker cols indices = take_cols_internal ker cols indices"

definition take_record_batch :: "kernels \<Rightarrow> record_batch \<Rightarrow> nat list \<Rightarrow> record_batch option" where
  "take_record_batch ker batch indices =
     do { cols \<leftarrow> take_cols_internal ker (rb_columns batch) indices;
          try_new_with_options ker (rb_schema batch) cols (length indices) }"

subsection \<open>Interleaving arrays\<close>

text \<open>The packed bits of a \<open>BooleanBufferBuilder\<close>.\<close>

definition bit_buffer_of :: "bool list \<Rightarrow> bit_buffer" where
  "bit_buffer_of vs =
     (foldl (\<lambda>bs i. if vs ! i then set_bit_raw bs i else bs) (replicate ((length vs + 7) div 8) 0) [0..<length vs],
      0, length vs)"

definition has_nulls :: "array list \<Rightarrow> bool" where
  "has_nulls arrays = list_ex (\<lambda>a. null_count a > 0) arrays"

definition interleave_nulls :: "array list \<Rightarrow> (nat \<times> nat) list \<Rightarrow> bit_buffer option option" where
  "interleave_nulls arrays indices =
     (if has_nulls arrays
      then do { vs \<leftarrow> those (map (\<lambda>(a, b). do { arr \<leftarrow> vget arrays a; is_valid arr b }) indices);
                Some (Some (bit_buffer_of vs)) }
      else Some None)"

text \<open>\<open>downcast_any!\<close> to the primitive array class of a data type.\<close>

fun native_class :: "data_type \<Rightarrow> data_type" where
  "native_class (Timestamp u _) = Timestamp u None"
| "native_class (Decimal128 _ _) = Decimal128 38 10"
| "native_class (Decimal256 _ _) = Decimal256 76 10"
| "native_class dt = dt"

fun as_primitive :: "data_type \<Rightarrow> array \<Rightarrow> int list option" where
  "as_primitive dt (PrimitiveArray dt' nb vs) = (if native_class dt' = native_class dt then Some vs else None)"
| "as_primitive dt _ = None"

definition interleave_primitive :: "data_type \<Rightarrow> array list \<Rightarrow> int list list \<Rightarrow> (nat \<times> nat) list \<Rightarrow> array option" where
  "interleave_primitive dt arrays valss indices =
     do { nulls \<leftarrow> interleave_nulls arrays indices;
          vals \<leftarrow> those (map (\<lambda>(array_idx, value_idx).
            do { arr \<leftarrow> vget arrays array_idx;
                 v \<leftarrow> is_valid arr value_idx;
                 if v then do { vs \<leftarrow> vget valss array_idx; vget vs value_idx } else Some 0 }) indices);
          Some (PrimitiveArray dt nulls vals) }"

fun as_bytes :: "data_type \<Rightarrow> array \<Rightarrow> (int list \<times> bytes) option" where
  "as_bytes dt (ByteArray dt' nb offs data) = (if dt' = dt then Some (offs, data) else None)"
| "as_bytes dt _ = None"

text \<open>
  The first loop of \<open>interleave_bytes\<close>: the offsets of the result, the addresses of the values
  that are not empty, and the number of bytes.
\<close>

fun value_pointers ::
  "memory \<Rightarrow> array list \<Rightarrow> (int list \<times> bytes) list \<Rightarrow> (nat \<times> nat) list \<Rightarrow> nat \<Rightarrow> (int list \<times> nat list \<times> nat) option" where
  "value_pointers mem arrays bufs [] capacity = Some ([], [], capacity)"
| "value_pointers mem arrays bufs ((array_idx, value_idx) # indices) capacity =
     do { arr \<leftarrow> vget arrays array_idx;
          v \<leftarrow> is_valid arr value_idx;
          (ptrs, value_len) \<leftarrow>
            (if v
             then do { (offs, data) \<leftarrow> vget bufs array_idx;
                       value_start \<leftarrow> vget offs value_idx;
                       value_end \<leftarrow> vget offs (value_idx + 1);
                       let value_len = nat (value_end - value_start);
                       Some (if value_end - value_start > 0 then [buffer_ptr mem array_idx + nat value_start] else [], value_len) }
             else Some ([], 0));
          let capacity = capacity + value_len;
          if capacity < 2 ^ 31
          then do { (offsets, ptrs', total) \<leftarrow> value_pointers mem arrays bufs indices capacity;
                    Some (int capacity # offsets, ptrs @ ptrs', total) }
          else None }"

definition copy_area :: "memory \<Rightarrow> nat \<Rightarrow> nat \<Rightarrow> bytes" where
  "copy_area mem src_start src_end = map (heap mem) [src_start..<src_end]"

text \<open>
  The second loop: the area to copy is extended as long as the next value starts where the last
  one ended; \<open>dest\<close> is what has been copied.
\<close>

fun copy_values :: "memory \<Rightarrow> nat list \<Rightarrow> nat list \<Rightarrow> bytes \<Rightarrow> nat \<Rightarrow> nat \<Rightarrow> bytes option" where
  "copy_values mem [] ptrs dest src_start src_end = Some (dest @ copy_area mem src_start src_end)"
| "copy_values mem (value_len # lens) ptrs dest src_start src_end =
     (if value_len = 0 then copy_values mem lens ptrs dest src_start src_end
      else case ptrs of
        [] \<Rightarrow> None
      | value_ptr # ptrs' \<Rightarrow>
          if src_end \<noteq> value_ptr
          then copy_values mem lens ptrs' (dest @ copy_area mem src_start src_end) value_ptr (value_ptr + value_len)
          else copy_values mem lens ptrs' dest src_start (value_ptr + value_len))"

text \<open>\<open>NonNull::dangling()\<close> is the smallest aligned address.\<close>

definition interleave_bytes ::
  "memory \<Rightarrow> data_type \<Rightarrow> array list \<Rightarrow> (int list \<times> bytes) list \<Rightarrow> (nat \<times> nat) list \<Rightarrow> array option" where
  "interleave_bytes mem dt arrays bufs indices =
     do { nulls \<leftarrow> interleave_nulls arrays indices;
          (offsets, ptrs, capacity) \<leftarrow> value_pointers mem arrays bufs indices 0;
          let lens = map2 (\<lambda>a b. nat (b - a)) (0 # offsets) offsets;
          vals \<leftarrow> copy_values mem lens ptrs [] 1 1;
          if length vals = capacity then Some (ByteArray dt nulls (0 # offsets) vals) else None }"

definition create_array_interleaver :: "kernels \<Rightarrow> array list \<Rightarrow> (nat \<times> nat) list \<Rightarrow> array option" where
  "create_array_interleaver ker vals indices =
     (if vals \<noteq> []
      then let dt = data_type_of (hd vals)
           in if primitive_width dt \<noteq> None
              then do { valss \<leftarrow> those (map (as_primitive dt) vals);
                        interleave_primitive dt vals valss indices }
              else if dt = Utf8 \<or> dt = Binary
              then do { bufs \<leftarrow> those (map (as_bytes dt) vals);
                        interleave_bytes (place_buffers ker (map snd bufs)) dt vals bufs indices }
              else arrow_interleave ker vals indices
      else arrow_interleave ker vals indices)"

subsection \<open>Interleaving batches\<close>

definition column_arrays :: "nat \<Rightarrow> record_batch list \<Rightarrow> array list list option" where
  "column_arrays num_columns batches =
     (if list_all (\<lambda>b. length (rb_columns b) \<le> num_columns) batches
      then Some (map (\<lambda>j. map (\<lambda>b. rb_columns b ! j) (filter (\<lambda>b. j < length (rb_columns b)) batches)) [0..<num_columns])
      else None)"

definition create_batch_interleaver :: "kernels \<Rightarrow> record_batch list \<Rightarrow> (nat \<times> nat) list \<Rightarrow> record_batch option" where
  "create_batch_interleaver ker batches indices =
     do { b0 \<leftarrow> vget batches 0;
          col_arrays \<leftarrow> column_arrays (length (rb_columns b0)) batches;
          cols \<leftarrow> those (map (\<lambda>arrays. create_array_interleaver ker arrays indices) col_arrays);
          try_new_with_options ker (rb_schema b0) cols (length indices) }"

section \<open>What the kernels promise\<close>

definition cells_of :: "array \<Rightarrow> cell_value list" where
  "cells_of a = map (cell a) [0..<array_len a]"

text \<open>The bytes and elements a column of cells needs; offsets are 32 bits wide.\<close>

fun cell_weight :: "cell_value \<Rightarrow> nat" where
  "cell_weight (CBytes bs) = length bs"
| "cell_weight (CList xs) = length xs + sum_list (map cell_weight xs)"
| "cell_weight (CMap kvs) = length kvs + sum_list (map (\<lambda>(k, v). cell_weight k + cell_weight v) kvs)"
| "cell_weight (CStruct xs) = sum_list (map cell_weight xs)"
| "cell_weight _ = 0"

definition cells_fit :: "cell_value list \<Rightarrow> bool" where
  "cells_fit cs = (sum_list (map cell_weight cs) < 2 ^ 31)"

text \<open>An array of the data type with the given logical values.\<close>

definition array_with :: "data_type \<Rightarrow> cell_value list \<Rightarrow> array \<Rightarrow> bool" where
  "array_with dt cs a = (array_wf a \<and> data_type_of a = dt \<and> cells_of a = cs)"

definition gathered :: "array list \<Rightarrow> (nat \<times> nat) list \<Rightarrow> cell_value list" where
  "gathered arrays indices = map (\<lambda>(i, j). cell (arrays ! i) j) indices"

definition indices_ok :: "array list \<Rightarrow> (nat \<times> nat) list \<Rightarrow> bool" where
  "indices_ok arrays indices = (\<forall>(i, j) \<in> set indices. i < length arrays \<and> j < array_len (arrays ! i))"

definition holds_buffers :: "memory \<Rightarrow> bytes list \<Rightarrow> bool" where
  "holds_buffers mem datas =
     (\<forall>i < length datas. \<forall>k < length (datas ! i). heap mem (buffer_ptr mem i + k) = datas ! i ! k)"

definition gather_type :: "data_type \<Rightarrow> bool" where
  "gather_type dt = (primitive_width dt \<noteq> None \<or> dt = Utf8 \<or> dt = Binary)"

definition interleave_kernel_ok :: "kernels \<Rightarrow> data_type set \<Rightarrow> bool" where
  "interleave_kernel_ok ker types =
     ((\<forall>dt arrays ixs. dt \<in> types \<and> \<not> gather_type dt \<and> arrays \<noteq> [] \<and> (\<forall>a \<in> set arrays. array_wf a \<and> data_type_of a = dt)
         \<and> indices_ok arrays ixs \<and> cells_fit (gathered arrays ixs) \<longrightarrow>
         (\<exists>a'. arrow_interleave ker arrays ixs = Some a' \<and> array_with dt (gathered arrays ixs) a'))
      \<and> (\<forall>datas. holds_buffers (place_buffers ker datas) datas))"

definition kernels_ok :: "kernels \<Rightarrow> data_type set \<Rightarrow> bool" where
  "kernels_ok ker types =
     (interleave_kernel_ok ker types
      \<and> (\<forall>a idx. array_wf a \<and> data_type_of a \<in> types \<and> (\<forall>i \<in> set idx. i < array_len a) \<and> cells_fit (map (cell a) idx) \<longrightarrow>
         (\<exists>a'. arrow_take ker a idx = Some a' \<and> array_with (data_type_of a) (map (cell a) idx) a'))
      \<and> (\<forall>schema cols n. map data_type_of cols = schema \<and> (\<forall>c \<in> set cols. array_wf c \<and> array_len c = n) \<longrightarrow>
         try_new_with_options ker schema cols n = Some \<lparr>rb_schema = schema, rb_columns = cols, rb_num_rows = n\<rparr>))"

section \<open>Lemmas\<close>

lemma length_cells_of [simp]: "length (cells_of a) = array_len a"
  by (simp add: cells_of_def)

lemma nth_cells_of [simp]: "i < array_len a \<Longrightarrow> cells_of a ! i = cell a i"
  by (simp add: cells_of_def)

lemma array_withD:
  assumes "array_with dt cs a"
  shows "array_wf a" and "data_type_of a = dt" and "array_len a = length cs" and "\<And>i. i < length cs \<Longrightarrow> cell a i = cs ! i"
proof -
  from assms show wf: "array_wf a" "data_type_of a = dt" by (simp_all add: array_with_def)
  from assms have cs: "cells_of a = cs" by (simp add: array_with_def)
  then show len: "array_len a = length cs" using length_cells_of [of a] by simp
  show "cell a i = cs ! i" if "i < length cs" for i using that cs nth_cells_of [of i a] len by simp
qed

lemma array_withI:
  "array_wf a \<Longrightarrow> data_type_of a = dt \<Longrightarrow> array_len a = length cs \<Longrightarrow> (\<And>i. i < length cs \<Longrightarrow> cell a i = cs ! i) \<Longrightarrow>
   array_with dt cs a"
  by (auto simp: array_with_def intro: nth_equalityI)

subsection \<open>Packed bits\<close>

lemma pack_bits:
  assumes "\<forall>i \<in> set is. i < 8 * length bs"
  shows "length (foldl (\<lambda>bs i. if vs i then set_bit_raw bs i else bs) bs is) = length bs
    \<and> (\<forall>k < 8 * length bs. get_bit_raw (foldl (\<lambda>bs i. if vs i then set_bit_raw bs i else bs) bs is) k
         = (get_bit_raw bs k \<or> (k \<in> set is \<and> vs k)))"
  using assms
proof (induction "is" arbitrary: bs)
  case (Cons i "is")
  let ?bs = "if vs i then set_bit_raw bs i else bs"
  have len: "length ?bs = length bs" by (simp add: set_bit_raw_def)
  have "get_bit_raw ?bs k = (get_bit_raw bs k \<or> (k = i \<and> vs k))" if "k < 8 * length bs" for k
    using get_set_bit_raw [of i bs k] that Cons.prems less_mult_imp_div_less [of _ "length bs" 8] by (auto simp: mult.commute)
  with Cons.IH [of ?bs] Cons.prems len show ?case by auto
qed simp

lemma bit_buffer_of_ok:
  shows "bits_wf (bit_buffer_of vs)" and "bits_len (bit_buffer_of vs) = length vs"
    and "i < length vs \<Longrightarrow> bit_valid (Some (bit_buffer_of vs)) i = vs ! i"
proof -
  let ?z = "replicate ((length vs + 7) div 8) 0 :: bytes"
  have room: "length vs \<le> 8 * length ?z" by simp
  then have "\<forall>i \<in> set [0..<length vs]. i < 8 * length ?z" by simp
  from pack_bits [OF this, of "(!) vs"] room
  show "bits_wf (bit_buffer_of vs)" "bits_len (bit_buffer_of vs) = length vs"
    "i < length vs \<Longrightarrow> bit_valid (Some (bit_buffer_of vs)) i = vs ! i"
    by (auto simp: bit_buffer_of_def bit_valid_def get_bit_raw_def)
qed

subsection \<open>Interleaving one column\<close>

lemma those_map_Some: "(\<And>x. x \<in> set xs \<Longrightarrow> f x = Some (g x)) \<Longrightarrow> those (map f xs) = Some (map g xs)"
  by (simp add: those_Some_iff comp_def)

lemma no_nulls_valid: "\<not> has_nulls arrays \<Longrightarrow> a \<in> set arrays \<Longrightarrow> i < array_len a \<Longrightarrow> bit_valid (nulls_of a) i"
  by (rule null_count_0) (auto simp: has_nulls_def list_ex_iff)

lemma interleave_nulls_ok:
  assumes "indices_ok arrays ixs"
  shows "\<exists>nb. interleave_nulls arrays ixs = Some nb \<and> nulls_wf nb (length ixs)
    \<and> (\<forall>k < length ixs. bit_valid nb k = bit_valid (nulls_of (arrays ! fst (ixs ! k))) (snd (ixs ! k)))"
proof (cases "has_nulls arrays")
  case True
  let ?v = "\<lambda>(a, b). bit_valid (nulls_of (arrays ! a)) b"
  have "those (map (\<lambda>(a, b). do { arr \<leftarrow> vget arrays a; is_valid arr b }) ixs) = Some (map ?v ixs)"
    using assms by (intro those_map_Some) (auto simp: indices_ok_def is_valid_in)
  with True bit_buffer_of_ok [where vs = "map ?v ixs"] show ?thesis
    by (intro exI [of _ "Some (bit_buffer_of (map ?v ixs))"]) (simp add: interleave_nulls_def nulls_wf_def case_prod_beta)
next
  case False
  have "bit_valid (nulls_of (arrays ! fst (ixs ! k))) (snd (ixs ! k))" if "k < length ixs" for k
  proof -
    have "fst (ixs ! k) < length arrays \<and> snd (ixs ! k) < array_len (arrays ! fst (ixs ! k))"
      using assms nth_mem [OF that] by (auto simp: indices_ok_def)
    then show ?thesis using no_nulls_valid [OF False] by simp
  qed
  with False show ?thesis
    by (intro exI [of _ None]) (simp add: interleave_nulls_def nulls_wf_def bit_valid_def [of None])
qed

lemma primitive_shape:
  assumes "array_wf a" and "data_type_of a = dt" and "primitive_width dt \<noteq> None"
  shows "\<exists>nb vs. a = PrimitiveArray dt nb vs"
  using assms by (cases a) auto

lemma zero_in_range: "primitive_width dt \<noteq> None \<Longrightarrow> prim_in_range dt 0"
  by (cases dt) (auto simp: prim_in_range_def)

definition prim_values :: "array \<Rightarrow> int list" where
  "prim_values a = (case a of PrimitiveArray _ _ vs \<Rightarrow> vs | _ \<Rightarrow> [])"

lemma interleave_primitive_ok:
  assumes dt: "primitive_width dt \<noteq> None" and wf: "\<forall>a \<in> set arrays. array_wf a \<and> data_type_of a = dt"
    and ixs: "indices_ok arrays ixs"
  shows "those (map (as_primitive dt) arrays) = Some (map prim_values arrays)"
    and "\<exists>a'. interleave_primitive dt arrays (map prim_values arrays) ixs = Some a' \<and> array_with dt (gathered arrays ixs) a'"
proof -
  have shape: "\<exists>nb vs. a = PrimitiveArray dt nb vs" if "a \<in> set arrays" for a
    using primitive_shape [OF _ _ dt] wf that by blast
  show "those (map (as_primitive dt) arrays) = Some (map prim_values arrays)"
    by (rule those_map_Some) (use shape in \<open>fastforce simp: prim_values_def\<close>)
  from interleave_nulls_ok [OF ixs] obtain nb where
    nb: "interleave_nulls arrays ixs = Some nb" "nulls_wf nb (length ixs)"
      "\<And>k. k < length ixs \<Longrightarrow> bit_valid nb k = bit_valid (nulls_of (arrays ! fst (ixs ! k))) (snd (ixs ! k))" by blast
  let ?v = "\<lambda>(i, j). if bit_valid (nulls_of (arrays ! i)) j then prim_values (arrays ! i) ! j else 0"
  have at: "arrays ! i \<in> set arrays" "j < length (prim_values (arrays ! i))" if "(i, j) \<in> set ixs" for i j
  proof -
    show a: "arrays ! i \<in> set arrays" using that ixs by (auto simp: indices_ok_def)
    from shape [OF a] that ixs show "j < length (prim_values (arrays ! i))" by (auto simp: indices_ok_def prim_values_def)
  qed
  have vals: "those (map (\<lambda>(array_idx, value_idx).
            do { arr \<leftarrow> vget arrays array_idx;
                 v \<leftarrow> is_valid arr value_idx;
                 if v then do { vs \<leftarrow> vget (map prim_values arrays) array_idx; vget vs value_idx } else Some 0 }) ixs)
      = Some (map ?v ixs)"
    by (rule those_map_Some) (use ixs at in \<open>auto simp: indices_ok_def is_valid_in split: if_splits\<close>)
  have range: "prim_in_range dt (?v p)" if "p \<in> set ixs" for p
  proof -
    obtain i j where p: "p = (i, j)" by (cases p)
    from shape [OF at(1)] that p obtain nb' vs where a: "arrays ! i = PrimitiveArray dt nb' vs" by blast
    with wf at that p have "prim_in_range dt (vs ! j)" by (fastforce simp: prim_values_def)
    with a p zero_in_range [OF dt] show ?thesis by (simp add: prim_values_def)
  qed
  have "array_with dt (gathered arrays ixs) (PrimitiveArray dt nb (map ?v ixs))"
  proof (rule array_withI)
    show "array_wf (PrimitiveArray dt nb (map ?v ixs))" using nb(2) dt range by auto
    fix k assume k: "k < length (gathered arrays ixs)"
    obtain i j where ij: "ixs ! k = (i, j)" by (cases "ixs ! k")
    with k have mem: "(i, j) \<in> set ixs" by (metis gathered_def length_map nth_mem)
    from shape [OF at(1) [OF mem]] obtain nb' vs where "arrays ! i = PrimitiveArray dt nb' vs" by blast
    with nb(3) [of k] k ij show "cell (PrimitiveArray dt nb (map ?v ixs)) k = gathered arrays ixs ! k"
      by (simp add: gathered_def prim_values_def)
  qed (simp_all add: gathered_def)
  moreover have "interleave_primitive dt arrays (map prim_values arrays) ixs = Some (PrimitiveArray dt nb (map ?v ixs))"
    unfolding interleave_primitive_def nb(1) vals by simp
  ultimately show "\<exists>a'. interleave_primitive dt arrays (map prim_values arrays) ixs = Some a' \<and> array_with dt (gathered arrays ixs) a'"
    by blast
qed

lemma bytes_shape:
  assumes "array_wf a" and "data_type_of a = dt" and "dt = Utf8 \<or> dt = Binary"
  shows "\<exists>nb offs data. a = ByteArray dt nb offs data"
  using assms by (cases a) auto

definition byte_buffers :: "array \<Rightarrow> int list \<times> bytes" where
  "byte_buffers a = (case a of ByteArray _ _ offs data \<Rightarrow> (offs, data) | _ \<Rightarrow> ([], []))"

text \<open>The bytes the row contributes and where they start.\<close>

definition byte_value :: "array list \<Rightarrow> nat \<times> nat \<Rightarrow> bytes" where
  "byte_value arrays p = (case cell (arrays ! fst p) (snd p) of CBytes bs \<Rightarrow> bs | _ \<Rightarrow> [])"

definition byte_ptr :: "memory \<Rightarrow> array list \<Rightarrow> nat \<times> nat \<Rightarrow> nat" where
  "byte_ptr mem arrays p = buffer_ptr mem (fst p) + offset_at (fst (byte_buffers (arrays ! fst p))) (snd p)"

lemma copy_area_extend:
  "s \<le> e \<Longrightarrow> copy_area mem s (e + n) = copy_area mem s e @ copy_area mem e (e + n)"
  using upt_add_eq_append [of s e n] by (simp add: copy_area_def)

lemma copy_values_coalesced:
  assumes "\<forall>p \<in> set ps. val p \<noteq> [] \<longrightarrow> copy_area mem (ptr p) (ptr p + length (val p)) = val p" and "s \<le> e"
  shows "copy_values mem (map (length \<circ> val) ps) (map ptr (filter (\<lambda>p. val p \<noteq> []) ps)) dest s e
    = Some (dest @ copy_area mem s e @ concat (map val ps))"
  using assms
proof (induction ps arbitrary: dest s e)
  case (Cons p ps)
  show ?case
  proof (cases "val p = []")
    case True
    with Cons show ?thesis by simp
  next
    case False
    with Cons.prems have v: "copy_area mem (ptr p) (ptr p + length (val p)) = val p" by simp
    have "copy_area mem s (e + length (val p)) = copy_area mem s e @ val p" if "e = ptr p"
      using copy_area_extend [OF Cons.prems(2)] v that by simp
    with False v Cons.IH [of s "e + length (val p)" dest]
      Cons.IH [of "ptr p" "ptr p + length (val p)" "dest @ copy_area mem s e"] Cons.prems show ?thesis by auto
  qed
qed simp

lemma value_pointers_ok:
  assumes row: "\<And>i j. (i, j) \<in> set ixs \<Longrightarrow> i < length arrays \<and> j < array_len (arrays ! i) \<and> bufs ! i = byte_buffers (arrays ! i)
      \<and> array_wf (arrays ! i) \<and> (\<exists>nb offs data. arrays ! i = ByteArray dt nb offs data)"
    and bufs: "length bufs = length arrays"
    and room: "capacity + sum_list (map (\<lambda>p. length (byte_value arrays p)) ixs) < 2 ^ 31"
  shows "\<exists>offsets. value_pointers mem arrays bufs ixs capacity
      = Some (offsets, map (byte_ptr mem arrays) (filter (\<lambda>p. byte_value arrays p \<noteq> []) ixs),
          capacity + sum_list (map (\<lambda>p. length (byte_value arrays p)) ixs))
    \<and> length offsets = length ixs
    \<and> (\<forall>k \<le> length ixs. (int capacity # offsets) ! k = int (capacity + sum_list (map (\<lambda>p. length (byte_value arrays p)) (take k ixs))))"
  using row room
proof (induction ixs arbitrary: capacity)
  case (Cons p ixs)
  obtain i j where p: "p = (i, j)" by (cases p)
  from Cons.prems(1) [of i j] p obtain nb offs data where
    a: "i < length arrays" "j < array_len (arrays ! i)" "bufs ! i = (offs, data)" "arrays ! i = ByteArray dt nb offs data"
      "offsets_wf offs (length data)" by (auto simp: byte_buffers_def)
  have j: "j + 1 < length offs" using a(2,4) by simp
  have mono: "offset_at offs j \<le> offset_at offs (j + 1)" by (rule offset_at_mono [OF a(5)]) (use j in simp_all)
  have fits: "offset_at offs (j + 1) \<le> length data" by (rule offset_at_le [OF a(5) j])
  have nn: "0 \<le> offs ! j" "0 \<le> offs ! (j + 1)"
    using a(5) j by (auto simp: offsets_wf_def hd_conv_nth intro: order_trans [OF _ sorted_nth_mono])
  let ?len = "length (byte_value arrays p)"
  have val: "byte_value arrays p = (if bit_valid nb j then bytes_value offs data j else [])"
    using a(4) p by (simp add: byte_value_def)
  have len: "?len = (if bit_valid nb j then nat (offs ! (j + 1) - offs ! j) else 0)"
    using fits mono nn val by (simp add: bytes_value_def offset_at_def nat_diff_distrib)
  have ptr: "byte_ptr mem arrays p = buffer_ptr mem i + nat (offs ! j)"
    using a(4) p by (simp add: byte_ptr_def byte_buffers_def offset_at_def)
  have room': "capacity + ?len + sum_list (map (\<lambda>p. length (byte_value arrays p)) ixs) < 2 ^ 31" using Cons.prems(2) by simp
  have "\<And>i j. (i, j) \<in> set ixs \<Longrightarrow> i < length arrays \<and> j < array_len (arrays ! i) \<and> bufs ! i = byte_buffers (arrays ! i)
      \<and> array_wf (arrays ! i) \<and> (\<exists>nb offs data. arrays ! i = ByteArray dt nb offs data)"
    by (rule Cons.prems(1)) simp
  from Cons.IH [OF this room'] obtain offsets where
    ih: "value_pointers mem arrays bufs ixs (capacity + ?len)
        = Some (offsets, map (byte_ptr mem arrays) (filter (\<lambda>p. byte_value arrays p \<noteq> []) ixs),
            capacity + ?len + sum_list (map (\<lambda>p. length (byte_value arrays p)) ixs))"
      "length offsets = length ixs"
      "\<forall>k \<le> length ixs. (int (capacity + ?len) # offsets) ! k
         = int (capacity + ?len + sum_list (map (\<lambda>p. length (byte_value arrays p)) (take k ixs)))" by blast
  have step: "value_pointers mem arrays bufs (p # ixs) capacity
      = Some (int (capacity + ?len) # offsets,
          (if byte_value arrays p \<noteq> [] then [byte_ptr mem arrays p] else [])
             @ map (byte_ptr mem arrays) (filter (\<lambda>p. byte_value arrays p \<noteq> []) ixs),
          capacity + ?len + sum_list (map (\<lambda>p. length (byte_value arrays p)) ixs))"
  proof (cases "bit_valid nb j")
    case True
    have ne: "(byte_value arrays p \<noteq> []) = (0 < offs ! (j + 1) - offs ! j)"
      using len True by (cases "byte_value arrays p") auto
    have l: "nat (offs ! (j + 1) - offs ! j) = ?len" using len True by simp
    have "(if 0 < offs ! (j + 1) - offs ! j then [buffer_ptr mem i + nat (offs ! j)] else [])
        = (if byte_value arrays p \<noteq> [] then [byte_ptr mem arrays p] else [])" using ne ptr by simp
    with a j p bufs True ih(1) l room' show ?thesis
      by (simp add: is_valid_in vget_def Let_def)
  next
    case False
    with a j p ih(1) room' len val show ?thesis by (simp add: is_valid_in Let_def)
  qed
  have "(int capacity # int (capacity + ?len) # offsets) ! k
      = int (capacity + sum_list (map (\<lambda>p. length (byte_value arrays p)) (take k (p # ixs))))" if "k \<le> length (p # ixs)" for k
    using that ih(3) by (cases k) (auto simp: add.assoc)
  with step ih(2) show ?case by (intro exI [of _ "int (capacity + ?len) # offsets"]) auto
qed simp

lemma byte_value_at:
  assumes "holds_buffers mem (map (snd \<circ> byte_buffers) arrays)" and "i < length arrays" and "j < array_len (arrays ! i)"
    and "array_wf (arrays ! i)" and a: "arrays ! i = ByteArray dt nb offs data" and "byte_value arrays (i, j) \<noteq> []"
  shows "copy_area mem (byte_ptr mem arrays (i, j)) (byte_ptr mem arrays (i, j) + length (byte_value arrays (i, j)))
    = byte_value arrays (i, j)"
proof -
  have wf: "offsets_wf offs (length data)" "j + 1 < length offs" using assms(3,4) a by auto
  have val: "byte_value arrays (i, j) = bytes_value offs data j"
    using assms(6) a by (auto simp: byte_value_def split: if_splits)
  have le: "offset_at offs (j + 1) \<le> length data" by (rule offset_at_le [OF wf])
  have "heap mem (buffer_ptr mem i + k) = data ! k" if "k < length data" for k
    using assms(1,2) that a by (simp add: holds_buffers_def byte_buffers_def)
  with le show ?thesis
    by (intro nth_equalityI) (simp_all add: copy_area_def val bytes_value_def byte_ptr_def a byte_buffers_def add.assoc)
qed

lemma map2_differences:
  assumes "length offs = length ls" and "\<forall>k \<le> length ls. (int c # offs) ! k = int (c + sum_list (take k ls))"
  shows "map2 (\<lambda>a b. nat (b - a)) (int c # offs) offs = ls"
proof (rule nth_equalityI)
  fix k assume k: "k < length (map2 (\<lambda>a b. nat (b - a)) (int c # offs) offs)"
  then have k': "k < length ls" using assms(1) by simp
  have "(int c # offs) ! k = int (c + sum_list (take k ls))" "(int c # offs) ! Suc k = int (c + sum_list (take (Suc k) ls))"
    by (rule assms(2) [rule_format], use k' in simp)+
  then show "map2 (\<lambda>a b. nat (b - a)) (int c # offs) offs ! k = ls ! k"
    using k k' by (simp add: take_Suc_conv_app_nth)
qed (simp add: assms(1))

lemma sum_take_mono: "i \<le> j \<Longrightarrow> sum_list (take i xs) \<le> sum_list (take j (xs :: nat list))"
proof -
  assume "i \<le> j"
  then have "take j xs = take i xs @ take (j - i) (drop i xs)" by (metis le_add_diff_inverse take_add)
  then show ?thesis by simp
qed

lemma running_offsets:
  assumes len: "length offs = length vals"
    and at: "\<forall>k \<le> length vals. (0 # offs) ! k = int (sum_list (take k (map length vals)))"
    and small: "sum_list (map length vals) < 2 ^ 31"
  shows "offsets_wf (0 # offs) (length (concat vals))" and "\<And>k. k < length vals \<Longrightarrow> bytes_value (0 # offs) (concat vals) k = vals ! k"
proof -
  have srt: "sorted (0 # offs)"
  proof (subst sorted_iff_nth_mono, intro allI impI)
    fix i j assume ij: "i \<le> j" "j < length (0 # offs)"
    with at len show "(0 # offs) ! i \<le> (0 # offs) ! j" using sum_take_mono [OF ij(1), of "map length vals"] by simp
  qed
  have "last (0 # offs) = (0 # offs) ! length vals" by (metis len last_conv_nth list.distinct(1) length_Cons diff_Suc_1)
  also have "\<dots> = int (length (concat vals))" using at by (simp add: length_concat)
  finally have l: "last (0 # offs) = int (length (concat vals))" .
  show "offsets_wf (0 # offs) (length (concat vals))"
    unfolding offsets_wf_def l using srt small by (simp add: length_concat)
  fix k assume k: "k < length vals"
  have o: "offset_at (0 # offs) k = sum_list (take k (map length vals))"
    "offset_at (0 # offs) (Suc k) = sum_list (take k (map length vals)) + length (vals ! k)"
    using at [rule_format, of k] at [rule_format, of "Suc k"] k by (simp_all add: offset_at_def take_Suc_conv_app_nth)
  have "concat vals = concat (take k vals) @ vals ! k @ concat (drop (Suc k) vals)"
    using id_take_nth_drop [OF k] by (metis concat.simps(2) concat_append)
  moreover have "length (concat (take k vals)) = sum_list (take k (map length vals))" by (simp add: length_concat take_map)
  ultimately show "bytes_value (0 # offs) (concat vals) k = vals ! k" by (simp add: bytes_value_def o)
qed

lemma interleave_bytes_ok:
  assumes dt: "dt = Utf8 \<or> dt = Binary" and wf: "\<forall>a \<in> set arrays. array_wf a \<and> data_type_of a = dt"
    and ixs: "indices_ok arrays ixs" and fit: "cells_fit (gathered arrays ixs)"
    and mem: "holds_buffers mem (map (snd \<circ> byte_buffers) arrays)"
  shows "those (map (as_bytes dt) arrays) = Some (map byte_buffers arrays)"
    and "\<exists>nb offs. interleave_bytes mem dt arrays (map byte_buffers arrays) ixs
        = Some (ByteArray dt nb offs (concat (map (byte_value arrays) ixs)))
      \<and> array_with dt (gathered arrays ixs) (ByteArray dt nb offs (concat (map (byte_value arrays) ixs)))"
proof -
  have shape: "\<exists>nb offs data. a = ByteArray dt nb offs data" if "a \<in> set arrays" for a
    using bytes_shape [OF _ _ dt] wf that by blast
  show "those (map (as_bytes dt) arrays) = Some (map byte_buffers arrays)"
    by (rule those_map_Some) (use shape in \<open>fastforce simp: byte_buffers_def\<close>)
  have row: "i < length arrays" "j < array_len (arrays ! i)" "map byte_buffers arrays ! i = byte_buffers (arrays ! i)"
    "array_wf (arrays ! i)" "\<exists>nb offs data. arrays ! i = ByteArray dt nb offs data" if "(i, j) \<in> set ixs" for i j
    using that ixs wf shape by (auto simp: indices_ok_def)
  let ?val = "byte_value arrays" and ?ptr = "byte_ptr mem arrays"
  have weight: "length (?val p) \<le> cell_weight (cell (arrays ! fst p) (snd p))" for p
    by (simp add: byte_value_def split: cell_value.splits)
  have room: "0 + sum_list (map (\<lambda>p. length (?val p)) ixs) < 2 ^ 31"
    using fit sum_list_mono [of ixs "\<lambda>p. length (?val p)" "\<lambda>p. cell_weight (cell (arrays ! fst p) (snd p))"] weight
    by (simp add: cells_fit_def gathered_def comp_def case_prod_beta)
  have "\<exists>offsets. value_pointers mem arrays (map byte_buffers arrays) ixs 0
      = Some (offsets, map ?ptr (filter (\<lambda>p. ?val p \<noteq> []) ixs), 0 + sum_list (map (\<lambda>p. length (?val p)) ixs))
    \<and> length offsets = length ixs
    \<and> (\<forall>k \<le> length ixs. (int 0 # offsets) ! k = int (0 + sum_list (map (\<lambda>p. length (?val p)) (take k ixs))))"
    by (rule value_pointers_ok [OF _ _ room, where dt = dt]) (use row in auto)
  then obtain offsets where off: "value_pointers mem arrays (map byte_buffers arrays) ixs 0
      = Some (offsets, map ?ptr (filter (\<lambda>p. ?val p \<noteq> []) ixs), sum_list (map (\<lambda>p. length (?val p)) ixs))"
    "length offsets = length ixs"
    "\<forall>k \<le> length ixs. (0 # offsets) ! k = int (sum_list (map (\<lambda>p. length (?val p)) (take k ixs)))" by auto
  have lens: "map2 (\<lambda>a b. nat (b - a)) (0 # offsets) offsets = map (length \<circ> ?val) ixs"
    using map2_differences [of offsets "map (length \<circ> ?val) ixs" 0] off(2,3) by (simp add: take_map comp_def)
  have "\<forall>p \<in> set ixs. ?val p \<noteq> [] \<longrightarrow> copy_area mem (?ptr p) (?ptr p + length (?val p)) = ?val p"
    using byte_value_at [OF mem] row by (metis prod.collapse)
  from copy_values_coalesced [OF this, of 1 1 "[]"] have
    cp: "copy_values mem (map (length \<circ> ?val) ixs) (map ?ptr (filter (\<lambda>p. ?val p \<noteq> []) ixs)) [] 1 1
      = Some (concat (map ?val ixs))" by (simp add: copy_area_def)
  from interleave_nulls_ok [OF ixs] obtain nb where
    nb: "interleave_nulls arrays ixs = Some nb" "nulls_wf nb (length ixs)"
      "\<And>k. k < length ixs \<Longrightarrow> bit_valid nb k = bit_valid (nulls_of (arrays ! fst (ixs ! k))) (snd (ixs ! k))" by blast
  let ?a = "ByteArray dt nb (0 # offsets) (concat (map ?val ixs))"
  have run: "interleave_bytes mem dt arrays (map byte_buffers arrays) ixs = Some ?a"
    unfolding interleave_bytes_def nb(1) off(1) by (simp only: bind.simps prod.case Let_def lens cp) (simp add: length_concat comp_def)
  have offs: "offsets_wf (0 # offsets) (length (concat (map ?val ixs)))"
    "\<And>k. k < length ixs \<Longrightarrow> bytes_value (0 # offsets) (concat (map ?val ixs)) k = ?val (ixs ! k)"
    using running_offsets [of offsets "map ?val ixs"] off(2,3) room by (simp_all add: take_map comp_def)
  have src: "\<exists>nb' offs' data. arrays ! i = ByteArray dt nb' offs' data \<and> ?val (i, j) = (if bit_valid nb' j then bytes_value offs' data j else [])
      \<and> (dt = Utf8 \<longrightarrow> utf8_ok (?val (i, j)))" if "(i, j) \<in> set ixs" for i j
  proof -
    from row [OF that] obtain nb' offs' data where a: "arrays ! i = ByteArray dt nb' offs' data" by blast
    with row(2,4) [OF that] show ?thesis by (auto simp: byte_value_def)
  qed
  have "array_with dt (gathered arrays ixs) ?a"
  proof (rule array_withI)
    have "dt = Utf8 \<longrightarrow> (\<forall>k < length ixs. utf8_ok (?val (ixs ! k)))" using src by (metis nth_mem prod.collapse)
    then show "array_wf ?a" using dt nb(2) offs off(2) by (auto simp del: concat_map_singleton)
    fix k assume "k < length (gathered arrays ixs)"
    then have k: "k < length ixs" by (simp add: gathered_def)
    obtain i j where ij: "ixs ! k = (i, j)" by (cases "ixs ! k")
    with src [of i j] nth_mem [OF k] nb(3) [OF k] offs(2) [OF k] k
    show "cell ?a k = gathered arrays ixs ! k" by (auto simp: gathered_def)
  qed (simp_all add: gathered_def off(2))
  with run show "\<exists>nb offs. interleave_bytes mem dt arrays (map byte_buffers arrays) ixs
        = Some (ByteArray dt nb offs (concat (map (byte_value arrays) ixs)))
      \<and> array_with dt (gathered arrays ixs) (ByteArray dt nb offs (concat (map (byte_value arrays) ixs)))" by blast
qed

lemma interleave_kernelD:
  assumes "interleave_kernel_ok ker types"
  shows "dt \<in> types \<Longrightarrow> \<not> gather_type dt \<Longrightarrow> arrays \<noteq> [] \<Longrightarrow> \<forall>a \<in> set arrays. array_wf a \<and> data_type_of a = dt \<Longrightarrow>
      indices_ok arrays ixs \<Longrightarrow> cells_fit (gathered arrays ixs) \<Longrightarrow>
      \<exists>a'. arrow_interleave ker arrays ixs = Some a' \<and> array_with dt (gathered arrays ixs) a'"
    and "holds_buffers (place_buffers ker datas) datas"
  using assms unfolding interleave_kernel_ok_def by blast+

lemma kernelsD:
  assumes "kernels_ok ker types"
  shows "interleave_kernel_ok ker types"
    and "array_wf a \<Longrightarrow> data_type_of a \<in> types \<Longrightarrow> \<forall>i \<in> set idx. i < array_len a \<Longrightarrow> cells_fit (map (cell a) idx) \<Longrightarrow>
      \<exists>a'. arrow_take ker a idx = Some a' \<and> array_with (data_type_of a) (map (cell a) idx) a'"
    and "map data_type_of cols = schema \<Longrightarrow> \<forall>c \<in> set cols. array_wf c \<and> array_len c = n \<Longrightarrow>
      try_new_with_options ker schema cols n = Some \<lparr>rb_schema = schema, rb_columns = cols, rb_num_rows = n\<rparr>"
  using assms unfolding kernels_ok_def by blast+

lemma kernels_ok_mono: "kernels_ok ker types \<Longrightarrow> types' \<subseteq> types \<Longrightarrow> kernels_ok ker types'"
  unfolding kernels_ok_def interleave_kernel_ok_def by blast

text \<open>Every column is gathered, whichever of the three ways is taken.\<close>

lemma array_interleaver_ok:
  assumes ker: "interleave_kernel_ok ker types" and dt: "dt \<in> types" and ne: "arrays \<noteq> []"
    and wf: "\<forall>a \<in> set arrays. array_wf a \<and> data_type_of a = dt"
    and ixs: "indices_ok arrays ixs" and fit: "cells_fit (gathered arrays ixs)"
  shows "\<exists>a'. create_array_interleaver ker arrays ixs = Some a' \<and> array_with dt (gathered arrays ixs) a'"
proof -
  have hd: "data_type_of (hd arrays) = dt" using wf ne by simp
  consider "primitive_width dt \<noteq> None" | "primitive_width dt = None" "dt = Utf8 \<or> dt = Binary" | "\<not> gather_type dt"
    unfolding gather_type_def by blast
  then show ?thesis
  proof cases
    case 1
    from interleave_primitive_ok [OF 1 wf ixs] show ?thesis using ne hd 1 by (simp add: create_array_interleaver_def)
  next
    case 2
    have mem: "holds_buffers (place_buffers ker (map (snd \<circ> byte_buffers) arrays)) (map (snd \<circ> byte_buffers) arrays)"
      by (rule interleave_kernelD(2) [OF ker])
    from interleave_bytes_ok [OF 2(2) wf ixs fit mem] show ?thesis
      using ne hd 2 by (auto simp: create_array_interleaver_def comp_def)
  next
    case 3
    from interleave_kernelD(1) [OF ker dt 3 ne wf ixs fit] show ?thesis
      using ne hd 3 by (simp add: create_array_interleaver_def gather_type_def Let_def)
  qed
qed

section \<open>Batches\<close>

definition batch_rows :: "record_batch \<Rightarrow> cell_value list list" where
  "batch_rows b = map (\<lambda>i. map (\<lambda>c. cell c i) (rb_columns b)) [0..<rb_num_rows b]"

definition batch_of :: "data_type list \<Rightarrow> record_batch \<Rightarrow> bool" where
  "batch_of schema b = (rb_schema b = schema \<and> map data_type_of (rb_columns b) = schema
     \<and> (\<forall>c \<in> set (rb_columns b). array_wf c \<and> array_len c = rb_num_rows b))"

text \<open>Every column of the rows fits into an array.\<close>

definition rows_weight_ok :: "nat \<Rightarrow> cell_value list list \<Rightarrow> bool" where
  "rows_weight_ok ncols rs = (\<forall>j < ncols. cells_fit (map (\<lambda>r. r ! j) rs))"

lemma length_batch_rows [simp]: "length (batch_rows b) = rb_num_rows b"
  by (simp add: batch_rows_def)

lemma nth_batch_rows:
  "i < rb_num_rows b \<Longrightarrow> batch_rows b ! i = map (\<lambda>c. cell c i) (rb_columns b)"
  by (simp add: batch_rows_def)

lemma batch_of_columns:
  assumes "length cols = length schema" and "\<forall>j < length schema. array_with (schema ! j) (map (\<lambda>r. r ! j) rs) (cols ! j)"
    and "\<forall>r \<in> set rs. length r = length schema"
  shows "batch_of schema \<lparr>rb_schema = schema, rb_columns = cols, rb_num_rows = length rs\<rparr>"
    and "batch_rows \<lparr>rb_schema = schema, rb_columns = cols, rb_num_rows = length rs\<rparr> = rs"
proof -
  have col: "array_wf (cols ! j)" "data_type_of (cols ! j) = schema ! j" "array_len (cols ! j) = length rs"
    "\<And>i. i < length rs \<Longrightarrow> cell (cols ! j) i = rs ! i ! j" if "j < length schema" for j
    using array_withD [OF assms(2) [rule_format, OF that]] by simp_all
  have "map data_type_of cols = schema" by (rule nth_equalityI) (simp_all add: assms(1) col)
  moreover have "array_wf c \<and> array_len c = length rs" if "c \<in> set cols" for c
    using that col(1,3) assms(1) by (metis in_set_conv_nth)
  ultimately show "batch_of schema \<lparr>rb_schema = schema, rb_columns = cols, rb_num_rows = length rs\<rparr>"
    unfolding batch_of_def by simp
  show "batch_rows \<lparr>rb_schema = schema, rb_columns = cols, rb_num_rows = length rs\<rparr> = rs"
  proof (rule nth_equalityI)
    fix i assume i: "i < length (batch_rows \<lparr>rb_schema = schema, rb_columns = cols, rb_num_rows = length rs\<rparr>)"
    then have "length (rs ! i) = length schema" using assms(3) by simp
    with i col(4) assms(1) show "batch_rows \<lparr>rb_schema = schema, rb_columns = cols, rb_num_rows = length rs\<rparr> ! i = rs ! i"
      by (auto simp: nth_batch_rows intro: nth_equalityI)
  qed simp
qed

lemma batch_ofD:
  assumes "batch_of schema b"
  shows "rb_schema b = schema" and "length (rb_columns b) = length schema"
    and "j < length schema \<Longrightarrow> array_wf (rb_columns b ! j) \<and> data_type_of (rb_columns b ! j) = schema ! j
      \<and> array_len (rb_columns b ! j) = rb_num_rows b"
    and "i < rb_num_rows b \<Longrightarrow> length (batch_rows b ! i) = length schema"
    and "i < rb_num_rows b \<Longrightarrow> j < length schema \<Longrightarrow> batch_rows b ! i ! j = cell (rb_columns b ! j) i"
proof -
  from assms have m: "map data_type_of (rb_columns b) = schema" by (simp add: batch_of_def)
  then show len: "length (rb_columns b) = length schema" by auto
  show "rb_schema b = schema" using assms by (simp add: batch_of_def)
  show "j < length schema \<Longrightarrow> array_wf (rb_columns b ! j) \<and> data_type_of (rb_columns b ! j) = schema ! j
      \<and> array_len (rb_columns b ! j) = rb_num_rows b"
    using assms nth_map [of j "rb_columns b" data_type_of] nth_mem [of j "rb_columns b"] unfolding batch_of_def m len by simp
  show "i < rb_num_rows b \<Longrightarrow> length (batch_rows b ! i) = length schema" by (simp add: nth_batch_rows len)
  show "i < rb_num_rows b \<Longrightarrow> j < length schema \<Longrightarrow> batch_rows b ! i ! j = cell (rb_columns b ! j) i"
    by (simp add: nth_batch_rows len)
qed

lemma take_record_batch_ok:
  assumes ker: "kernels_ok ker (set schema)" and b: "batch_of schema b" and idx: "\<forall>i \<in> set idx. i < rb_num_rows b"
    and fit: "rows_weight_ok (length schema) (map ((!) (batch_rows b)) idx)"
  shows "\<exists>b'. take_record_batch ker b idx = Some b' \<and> batch_of schema b' \<and> batch_rows b' = map ((!) (batch_rows b)) idx"
proof -
  let ?rs = "map ((!) (batch_rows b)) idx"
  have col: "\<exists>a'. arrow_take ker (rb_columns b ! j) idx = Some a' \<and> array_with (schema ! j) (map (\<lambda>r. r ! j) ?rs) a'"
    if j: "j < length schema" for j
  proof -
    have cs: "map (\<lambda>r. r ! j) ?rs = map (cell (rb_columns b ! j)) idx"
      using idx batch_ofD(5) [OF b] j by simp
    have "cells_fit (map (cell (rb_columns b ! j)) idx)" using fit j unfolding rows_weight_ok_def cs [symmetric] by blast
    with kernelsD(2) [OF ker, of "rb_columns b ! j" idx] batch_ofD(3) [OF b j] j idx show ?thesis unfolding cs by simp
  qed
  then obtain f where f: "\<And>j. j < length schema \<Longrightarrow> arrow_take ker (rb_columns b ! j) idx = Some (f j)
      \<and> array_with (schema ! j) (map (\<lambda>r. r ! j) ?rs) (f j)" by metis
  let ?cols = "map f [0..<length schema]"
  have "map (\<lambda>c. arrow_take ker c idx) (rb_columns b) = map Some ?cols"
    by (rule nth_equalityI) (simp_all add: batch_ofD(2) [OF b] f)
  then have cols: "take_cols_internal ker (rb_columns b) idx = Some ?cols"
    by (simp add: take_cols_internal_def those_Some_iff)
  have rows: "\<forall>r \<in> set ?rs. length r = length schema" using idx batch_ofD(4) [OF b] by auto
  have "\<forall>j < length schema. array_with (schema ! j) (map (\<lambda>r. r ! j) ?rs) (?cols ! j)" using f by simp
  from batch_of_columns [OF _ this rows] have
    new: "batch_of schema \<lparr>rb_schema = schema, rb_columns = ?cols, rb_num_rows = length ?rs\<rparr>"
      "batch_rows \<lparr>rb_schema = schema, rb_columns = ?cols, rb_num_rows = length ?rs\<rparr> = ?rs" by simp_all
  have "try_new_with_options ker schema ?cols (length idx) = Some \<lparr>rb_schema = schema, rb_columns = ?cols, rb_num_rows = length ?rs\<rparr>"
    using kernelsD(3) [OF ker, of ?cols schema "length ?rs"] new(1) by (simp add: batch_of_def)
  with cols new batch_ofD(1) [OF b] show ?thesis by (auto simp: take_record_batch_def)
qed

lemma batch_interleaver_ok:
  assumes ker: "kernels_ok ker (set schema)" and ne: "bs \<noteq> []" and bs: "\<forall>b \<in> set bs. batch_of schema b"
    and ixs: "\<forall>(i, j) \<in> set ixs. i < length bs \<and> j < rb_num_rows (bs ! i)"
    and fit: "rows_weight_ok (length schema) (map (\<lambda>(i, j). batch_rows (bs ! i) ! j) ixs)"
  shows "\<exists>b'. create_batch_interleaver ker bs ixs = Some b' \<and> batch_of schema b'
    \<and> batch_rows b' = map (\<lambda>(i, j). batch_rows (bs ! i) ! j) ixs"
proof -
  let ?rs = "map (\<lambda>(i, j). batch_rows (bs ! i) ! j) ixs" and ?arrs = "\<lambda>j. map (\<lambda>b. rb_columns b ! j) bs"
  have b0: "vget bs 0 = Some (bs ! 0)" "bs ! 0 \<in> set bs" using ne by (auto simp: vget_def)
  then have ncols: "length (rb_columns (bs ! 0)) = length schema" "rb_schema (bs ! 0) = schema"
    using bs batch_ofD(1,2) by blast+
  have "filter (\<lambda>b. j < length (rb_columns b)) bs = bs" if "j < length schema" for j
    using bs that batch_ofD(2) by (auto simp: filter_id_conv)
  moreover have "list_all (\<lambda>b. length (rb_columns b) \<le> length schema) bs" using bs batch_ofD(2) by (auto simp: list_all_iff)
  ultimately have cols: "column_arrays (length schema) bs = Some (map ?arrs [0..<length schema])"
    by (simp add: column_arrays_def)
  have col: "\<exists>a'. create_array_interleaver ker (?arrs j) ixs = Some a' \<and> array_with (schema ! j) (map (\<lambda>r. r ! j) ?rs) a'"
    if j: "j < length schema" for j
  proof -
    have g: "gathered (?arrs j) ixs = map (\<lambda>r. r ! j) ?rs"
      using ixs bs j batch_ofD(5) by (fastforce simp: gathered_def)
    have wf: "\<forall>a \<in> set (?arrs j). array_wf a \<and> data_type_of a = schema ! j" using bs j batch_ofD(3) by auto
    have len: "array_len (?arrs j ! i) = rb_num_rows (bs ! i)" if "i < length bs" for i
      using batch_ofD(3) [OF bs [rule_format, OF nth_mem [OF that]] j] that by simp
    have "indices_ok (?arrs j) ixs" unfolding indices_ok_def using ixs len by auto
    moreover have "cells_fit (gathered (?arrs j) ixs)" using fit j unfolding g rows_weight_ok_def by blast
    ultimately show ?thesis
      using array_interleaver_ok [OF kernelsD(1) [OF ker] _ _ wf, of ixs] j ne unfolding g by simp
  qed
  then obtain f where f: "\<And>j. j < length schema \<Longrightarrow> create_array_interleaver ker (?arrs j) ixs = Some (f j)
      \<and> array_with (schema ! j) (map (\<lambda>r. r ! j) ?rs) (f j)" by metis
  let ?cols = "map f [0..<length schema]"
  have ilv: "those (map (\<lambda>arrays. create_array_interleaver ker arrays ixs) (map ?arrs [0..<length schema])) = Some ?cols"
    by (simp add: those_Some_iff f)
  have rows: "\<forall>r \<in> set ?rs. length r = length schema" using ixs bs batch_ofD(4) by (fastforce simp: split_beta)
  have "\<forall>j < length schema. array_with (schema ! j) (map (\<lambda>r. r ! j) ?rs) (?cols ! j)" using f by simp
  from batch_of_columns [OF _ this rows] have
    new: "batch_of schema \<lparr>rb_schema = schema, rb_columns = ?cols, rb_num_rows = length ?rs\<rparr>"
      "batch_rows \<lparr>rb_schema = schema, rb_columns = ?cols, rb_num_rows = length ?rs\<rparr> = ?rs" by simp_all
  have "try_new_with_options ker schema ?cols (length ixs) = Some \<lparr>rb_schema = schema, rb_columns = ?cols, rb_num_rows = length ?rs\<rparr>"
    using kernelsD(3) [OF ker, of ?cols schema "length ?rs"] new(1) by (simp add: batch_of_def)
  with b0(1) ncols cols ilv new show ?thesis by (simp add: create_batch_interleaver_def)
qed

section \<open>Kernels for concrete runs\<close>

text \<open>Value buffers one after the other.\<close>

definition place_in_order :: "bytes list \<Rightarrow> memory" where
  "place_in_order datas = \<lparr>heap = (\<lambda>p. concat datas ! p), buffer_ptr = (\<lambda>i. length (concat (take i datas)))\<rparr>"

lemma place_in_order_holds: "holds_buffers (place_in_order datas) datas"
proof -
  have "concat datas ! (length (concat (take i datas)) + k) = datas ! i ! k" if "i < length datas" "k < length (datas ! i)" for i k
  proof -
    have "concat datas = concat (take i datas) @ datas ! i @ concat (drop (Suc i) datas)"
      using id_take_nth_drop [OF that(1)] by (metis concat.simps(2) concat_append)
    with that(2) show ?thesis by (metis nth_append nth_append_length_plus)
  qed
  then show ?thesis by (simp add: holds_buffers_def place_in_order_def)
qed

definition null_kernels :: kernels where
  "null_kernels = \<lparr>arrow_take = (\<lambda>a idx. None), arrow_interleave = (\<lambda>arrays ixs. Some (NullArray (length ixs))),
     try_new_with_options = (\<lambda>schema cols n. if map data_type_of cols = schema \<and> list_all (\<lambda>c. array_len c = n) cols
       then Some \<lparr>rb_schema = schema, rb_columns = cols, rb_num_rows = n\<rparr> else None),
     place_buffers = place_in_order\<rparr>"

definition kernels_ref :: kernels where
  "kernels_ref = null_kernels\<lparr>arrow_take := (\<lambda>a idx. create_array_interleaver null_kernels [a] (map (Pair 0) idx))\<rparr>"

lemma gathered_null:
  assumes "\<forall>a \<in> set arrays. data_type_of a = Null \<and> array_wf a" and "indices_ok arrays ixs"
  shows "array_with Null (gathered arrays ixs) (NullArray (length ixs))"
proof (rule array_withI)
  have null: "cell a i = CNull" if "data_type_of a = Null" "array_wf a" for a i using that by (cases a) auto
  fix k assume "k < length (gathered arrays ixs)"
  then have k: "k < length ixs" by (simp add: gathered_def)
  with assms(2) nth_mem [OF k] have "fst (ixs ! k) < length arrays" by (cases "ixs ! k") (auto simp: indices_ok_def)
  then have "arrays ! fst (ixs ! k) \<in> set arrays" by simp
  with assms(1) null k show "cell (NullArray (length ixs)) k = gathered arrays ixs ! k"
    by (simp add: gathered_def case_prod_beta)
qed (simp_all add: gathered_def)

lemma kernels_ref_ok: "kernels_ok kernels_ref {dt. gather_type dt \<or> dt = Null}"
proof -
  let ?types = "{dt. gather_type dt \<or> dt = Null}"
  have null: "\<exists>a'. arrow_interleave ker arrays ixs = Some a' \<and> array_with dt (gathered arrays ixs) a'"
    if "ker = null_kernels \<or> ker = kernels_ref" "dt \<in> ?types" "\<not> gather_type dt" "\<forall>a \<in> set arrays. array_wf a \<and> data_type_of a = dt"
      "indices_ok arrays ixs" for ker dt arrays ixs
    using that gathered_null [of arrays ixs] by (auto simp: null_kernels_def kernels_ref_def)
  have place: "place_buffers null_kernels = place_in_order" "place_buffers kernels_ref = place_in_order"
    by (simp_all add: null_kernels_def kernels_ref_def)
  have ilv: "interleave_kernel_ok null_kernels ?types" "interleave_kernel_ok kernels_ref ?types"
    unfolding interleave_kernel_ok_def place using null place_in_order_holds by blast+
  have "\<exists>a'. arrow_take kernels_ref a idx = Some a' \<and> array_with (data_type_of a) (map (cell a) idx) a'"
    if a: "array_wf a" "data_type_of a \<in> ?types" "\<forall>i \<in> set idx. i < array_len a" "cells_fit (map (cell a) idx)" for a idx
  proof -
    have g: "gathered [a] (map (Pair 0) idx) = map (cell a) idx" by (simp add: gathered_def)
    have "indices_ok [a] (map (Pair 0) idx)" using a(3) by (auto simp: indices_ok_def)
    then show ?thesis
      using array_interleaver_ok [OF ilv(1) a(2), of "[a]" "map (Pair 0) idx"] a(1,4) unfolding g by (simp add: kernels_ref_def)
  qed
  moreover have "try_new_with_options kernels_ref schema cols n = Some \<lparr>rb_schema = schema, rb_columns = cols, rb_num_rows = n\<rparr>"
    if "map data_type_of cols = schema" "\<forall>c \<in> set cols. array_wf c \<and> array_len c = n" for schema cols n
    using that by (auto simp: kernels_ref_def null_kernels_def list_all_iff)
  ultimately show ?thesis using ilv(2) unfolding kernels_ok_def by blast
qed

section \<open>Properties\<close>

text \<open>
  C17: Gathering rows of string or binary arrays reads only inside the value buffers, and the
  copies of whole runs of adjacent values (adjacent in memory, also across the end of a buffer)
  give the same bytes as copying every value on its own: the result is a valid array whose rows
  are the chosen rows, nulls included.
\<close>

theorem interleave_bytes_gathers:
  assumes "dt = Utf8 \<or> dt = Binary" and "\<forall>a \<in> set arrays. array_wf a \<and> data_type_of a = dt"
    and "indices_ok arrays ixs" and "cells_fit (gathered arrays ixs)"
    and "holds_buffers mem (map (snd \<circ> byte_buffers) arrays)"
  shows "\<exists>nb offs. interleave_bytes mem dt arrays (map byte_buffers arrays) ixs
        = Some (ByteArray dt nb offs (concat (map (byte_value arrays) ixs)))
      \<and> array_with dt (gathered arrays ixs) (ByteArray dt nb offs (concat (map (byte_value arrays) ixs)))"
  using interleave_bytes_ok(2) [OF assms] .

theorem interleave_bytes_gathers_witness:
  "\<exists>nb offs. interleave_bytes (place_in_order [[1, 2, 3], [4, 5]]) Binary
        [ByteArray Binary None [0, 1, 3] [1, 2, 3], ByteArray Binary (Some ([1], 0, 2)) [0, 2, 2] [4, 5]]
        [([0, 1, 3], [1, 2, 3]), ([0, 2, 2], [4, 5])] [(0, 1), (1, 0), (1, 1), (0, 0)]
      = Some (ByteArray Binary nb offs [2, 3, 4, 5, 1])"
proof -
  let ?arrays = "[ByteArray Binary None [0, 1, 3] [1, 2, 3], ByteArray Binary (Some ([1], 0, 2)) [0, 2, 2] [4, 5]]"
    and ?ixs = "[(0, 1), (1, 0), (1, 1), (0, 0 :: nat)] :: (nat \<times> nat) list"
  have vals: "map (cell (?arrays ! 0)) [0, 1] = [CBytes [1], CBytes [2, 3]]"
    "map (cell (?arrays ! 1)) [0, 1] = [CBytes [4, 5], CNull]"
    by (simp_all add: bytes_value_def offset_at_def bit_valid_def get_bit_raw_def)
  have "\<forall>a \<in> set ?arrays. array_wf a \<and> data_type_of a = Binary" by (simp add: nulls_wf_def offsets_wf_def)
  moreover have "indices_ok ?arrays ?ixs" by (simp add: indices_ok_def)
  moreover have "cells_fit (gathered ?arrays ?ixs)" using vals by (simp add: cells_fit_def gathered_def)
  moreover have bufs: "map byte_buffers ?arrays = [([0, 1, 3], [1, 2, 3]), ([0, 2, 2], [4, 5])]" by (simp add: byte_buffers_def)
  then have "holds_buffers (place_in_order [[1, 2, 3], [4, 5]]) (map (snd \<circ> byte_buffers) ?arrays)"
    using place_in_order_holds [of "[[1, 2, 3], [4, 5]]"] by (simp add: byte_buffers_def)
  moreover have "concat (map (byte_value ?arrays) ?ixs) = [2, 3, 4, 5, 1]" using vals by (simp add: byte_value_def)
  ultimately show ?thesis
    using interleave_bytes_gathers [of Binary ?arrays ?ixs "place_in_order [[1, 2, 3], [4, 5]]"] unfolding bufs by auto
qed

end
