(* ===== verification/Sort_Exec.thy ===== *)
theory Sort_Exec
  imports External_Sort Arrow_Selection Batch_Serde
begin

text \<open>
  The sort operator (\<open>sort_exec.rs\<close>): \<open>PruneSortKeysFromBatch\<close> takes the columns that are sort
  keys out of a batch, since the encoded keys carry them, and puts them back into the output;
  \<open>SortExec\<close> runs the external sorter on the pruned batches.

  The batches are arrays (\<open>Arrow_Array\<close>), gathered by \<open>Arrow_Selection\<close> and written to spills by
  \<open>Batch_Serde\<close>; with them the contracts \<open>batch_store\<close>, \<open>sorted_store\<close> and \<open>sort_contract\<close> of
  the merge and of the sorter are discharged (\<open>sort_exec_setup\<close>).  The row format of the
  \<open>arrow\<close> crate is a parameter: its converter, and for the statements the encoding of one row.
\<close>

section \<open>Model\<close>

subsection \<open>Sort expressions\<close>

datatype phys_expr = Column nat | OtherExpr data_type "record_batch \<Rightarrow> array option"

record sort_expr =
  se_expr :: phys_expr
  se_descending :: bool
  se_nulls_first :: bool

fun expr_data_type :: "data_type list \<Rightarrow> phys_expr \<Rightarrow> data_type option" where
  "expr_data_type schema (Column i) = vget schema i"
| "expr_data_type schema (OtherExpr dt f) = Some dt"

fun evaluate :: "phys_expr \<Rightarrow> record_batch \<Rightarrow> array option" where
  "evaluate (Column i) batch = vget (rb_columns batch) i"
| "evaluate (OtherExpr dt f) batch = f batch"

text \<open>\<open>RowConverter\<close>, made from the types and options of the sort fields.\<close>

record row_converter =
  convert_columns :: "array list \<Rightarrow> bytes list option"
  convert_rows :: "bytes list \<Rightarrow> array list option"

type_synonym converter_maker = "(data_type \<times> bool \<times> bool) list \<Rightarrow> row_converter option"

subsection \<open>Pruning the sort keys\<close>

datatype col_mapper = FromPrunedBatch nat | FromKey nat

record prune_sort_keys =
  input_projection :: "nat list"
  sort_row_converter :: row_converter
  key_exprs :: "sort_expr list"
  key_cols :: "nat set"
  restored_col_mappers :: "col_mapper list"
  restored_schema :: "data_type list"
  pruned_schema :: "data_type list"

text \<open>The sort expressions that are plain columns, with their numbers.\<close>

definition key_relation :: "sort_expr list \<Rightarrow> (nat \<times> nat) list" where
  "key_relation exprs =
     concat (map (\<lambda>(expr_idx, e). case se_expr e of Column c \<Rightarrow> [(expr_idx, c)] | _ \<Rightarrow> []) (enumerate 0 exprs))"

fun col_mappers :: "(nat \<times> nat) list \<Rightarrow> nat list \<Rightarrow> nat \<Rightarrow> col_mapper list" where
  "col_mappers relation [] num_pruned_cols = []"
| "col_mappers relation (col_idx # cols) num_pruned_cols =
     (case find (\<lambda>kv. snd kv = col_idx) relation of
        Some kv \<Rightarrow> FromKey (fst kv) # col_mappers relation cols (num_pruned_cols + 1)
      | None \<Rightarrow> FromPrunedBatch (col_idx - num_pruned_cols) # col_mappers relation cols num_pruned_cols)"

definition prune_try_new ::
  "converter_maker \<Rightarrow> data_type list \<Rightarrow> nat list \<Rightarrow> sort_expr list \<Rightarrow> prune_sort_keys option" where
  "prune_try_new new_converter input_schema projection exprs =
     do { types \<leftarrow> those (map (\<lambda>e. expr_data_type input_schema (se_expr e)) exprs);
          conv \<leftarrow> new_converter (map2 (\<lambda>t e. (t, se_descending e, se_nulls_first e)) types exprs);
          input_projected_schema \<leftarrow> those (map (vget input_schema) projection);
          let relation = key_relation exprs;
          let pruned_cols = set (map snd relation);
          let num_fields = length input_projected_schema;
          Some \<lparr>input_projection = projection, sort_row_converter = conv, key_exprs = exprs, key_cols = pruned_cols,
                restored_col_mappers = col_mappers relation [0..<num_fields] 0,
                restored_schema = input_projected_schema,
                pruned_schema = map ((!) input_projected_schema) (filter (\<lambda>i. i \<notin> pruned_cols) [0..<num_fields])\<rparr> }"

definition prune_is_all_pruned :: "prune_sort_keys \<Rightarrow> bool" where
  "prune_is_all_pruned p = (pruned_schema p = [])"

definition prune_batch :: "kernels \<Rightarrow> prune_sort_keys \<Rightarrow> record_batch \<Rightarrow> (bytes list \<times> record_batch) option" where
  "prune_batch ker p batch =
     do { cols \<leftarrow> those (map (\<lambda>e. evaluate (se_expr e) batch) (key_exprs p));
          key_rows \<leftarrow> convert_columns (sort_row_converter p) cols;
          projected \<leftarrow> those (map (vget (rb_columns batch)) (input_projection p));
          let retained_cols = map snd (filter (\<lambda>(col_idx, _). col_idx \<notin> key_cols p) (enumerate 0 projected));
          pruned_batch \<leftarrow> try_new_with_options ker (pruned_schema p) retained_cols (rb_num_rows batch);
          Some (key_rows, pruned_batch) }"

text \<open>The key columns are decoded when the first of them is needed.\<close>

definition restore_from_existed_key_rows :: "kernels \<Rightarrow> prune_sort_keys \<Rightarrow> record_batch \<Rightarrow> key_rows \<Rightarrow> record_batch option" where
  "restore_from_existed_key_rows ker p pruned_batch rows =
     do { restored_fields \<leftarrow> those (map (\<lambda>m. case m of
            FromPrunedBatch idx \<Rightarrow> vget (rb_columns pruned_batch) idx
          | FromKey idx \<Rightarrow> do { keys \<leftarrow> rows_keys rows;
                                 cols \<leftarrow> convert_rows (sort_row_converter p) keys;
                                 vget cols idx }) (restored_col_mappers p));
          try_new_with_options ker (restored_schema p) restored_fields (rb_num_rows pruned_batch) }"

subsection \<open>The operator\<close>

definition create_zero_column_batch :: "nat \<Rightarrow> record_batch" where
  "create_zero_column_batch num_rows = \<lparr>rb_schema = [], rb_columns = [], rb_num_rows = num_rows\<rparr>"

text \<open>\<open>next_batch\<close> of a spill: the serialized columns become a batch of the pruned schema.\<close>

definition read_spilled_batch :: "kernels \<Rightarrow> externals \<Rightarrow> data_type list \<Rightarrow> bytes \<Rightarrow> (record_batch option \<times> bytes) option" where
  "read_spilled_batch ker ext schema inp =
     (case read_batch ext schema inp of
        Inl e \<Rightarrow> None
      | Inr (None, rest) \<Rightarrow> Some (None, rest)
      | Inr (Some (num_rows, cols), rest) \<Rightarrow>
          do { batch \<leftarrow> try_new_with_options ker schema cols num_rows; Some (Some batch, rest) })"

definition write_spilled_batch :: "externals \<Rightarrow> record_batch \<Rightarrow> bytes option" where
  "write_spilled_batch ext batch =
     (case write_batch ext (rb_num_rows batch) (rb_columns batch) of Inl e \<Rightarrow> None | Inr bs \<Rightarrow> Some bs)"

text \<open>What depends on the running system.\<close>

record sort_runtime =
  rt_new_empty :: "data_type list \<Rightarrow> record_batch"
  rt_mem_size :: "record_batch \<Rightarrow> nat"
  rt_rows_size :: "bytes list \<Rightarrow> nat"
  rt_sort_unstable_rows :: "bytes list \<Rightarrow> nat list"
  rt_sort_unstable_levels :: "nat list \<Rightarrow> nat list"
  rt_batch_size :: nat
  rt_output_mem :: nat
  rt_kway_mem :: nat

definition sort_batch_ops :: "kernels \<Rightarrow> externals \<Rightarrow> sort_runtime \<Rightarrow> data_type list \<Rightarrow> record_batch batch_ops" where
  "sort_batch_ops ker ext rt schema =
     \<lparr>num_rows_of = rb_num_rows, take_batch = take_record_batch ker, interleave_batches = create_batch_interleaver ker,
      zero_column_batch = create_zero_column_batch, empty_batch = rt_new_empty rt schema,
      write_one_batch = write_spilled_batch ext, read_one_batch = read_spilled_batch ker ext schema\<rparr>"

text \<open>\<open>init_sorter\<close>: without a limit the limit is \<open>usize::MAX\<close>.\<close>

definition init_sorter ::
  "kernels \<Rightarrow> externals \<Rightarrow> sort_runtime \<Rightarrow> nat option \<Rightarrow> nat \<Rightarrow> prune_sort_keys \<Rightarrow> (record_batch, record_batch) sort_env" where
  "init_sorter ker ext rt limit offset p =
     \<lparr>batch_ops = sort_batch_ops ker ext rt (pruned_schema p), is_all_pruned = prune_is_all_pruned p,
      sort_limit = (case limit of Some l \<Rightarrow> l | None \<Rightarrow> usize_max), sort_skip = offset,
      input_rows = rb_num_rows, input_mem_size = rt_mem_size rt, prune = prune_batch ker p,
      restore = restore_from_existed_key_rows ker p, rows_size = rt_rows_size rt,
      sort_unstable_rows = rt_sort_unstable_rows rt, sort_unstable_levels = rt_sort_unstable_levels rt,
      conf_batch_size = rt_batch_size rt, conf_output_mem = rt_output_mem rt, conf_kway_mem = rt_kway_mem rt\<rparr>"

definition execute_projected_with_key_rows ::
  "kernels \<Rightarrow> externals \<Rightarrow> sort_runtime \<Rightarrow> converter_maker \<Rightarrow> data_type list \<Rightarrow> sort_expr list \<Rightarrow> nat option \<Rightarrow> nat \<Rightarrow> nat list
   \<Rightarrow> (record_batch \<times> bool) list \<Rightarrow> (record_batch \<times> key_rows) list option" where
  "execute_projected_with_key_rows ker ext rt new_converter schema exprs limit offset projection input =
     do { p \<leftarrow> prune_try_new new_converter schema projection exprs;
          execute_sort (init_sorter ker ext rt limit offset p) input }"

definition sort_exec_execute ::
  "kernels \<Rightarrow> externals \<Rightarrow> sort_runtime \<Rightarrow> converter_maker \<Rightarrow> data_type list \<Rightarrow> sort_expr list \<Rightarrow> nat option \<Rightarrow> nat
   \<Rightarrow> (record_batch \<times> bool) list \<Rightarrow> record_batch list option" where
  "sort_exec_execute ker ext rt new_converter schema exprs limit offset input =
     map_option (map fst)
       (execute_projected_with_key_rows ker ext rt new_converter schema exprs limit offset [0..<length schema] input)"

section \<open>Which columns are pruned\<close>

definition retained :: "(nat \<times> nat) list \<Rightarrow> nat \<Rightarrow> bool" where
  "retained relation j = (j \<notin> set (map snd relation))"

lemma filter_nth_position:
  assumes "j < n" and "P j"
  shows "filter P [0..<n] ! length (filter P [0..<j]) = j"
proof -
  have "[0..<n] = [0..<j] @ j # [Suc j..<n]" 
    using assms(1) upt_add_eq_append [of 0 j "n - j"] by (simp add: upt_conv_Cons)
  with assms(2) show ?thesis by simp
qed

definition mapper_of :: "(nat \<times> nat) list \<Rightarrow> nat \<Rightarrow> col_mapper" where
  "mapper_of relation j = (case find (\<lambda>kv. snd kv = j) relation of
     Some kv \<Rightarrow> FromKey (fst kv) | None \<Rightarrow> FromPrunedBatch (length (filter (retained relation) [0..<j])))"

lemma col_mappers_closed:
  assumes "a \<le> n" and "np + length (filter (retained relation) [0..<a]) = a"
  shows "col_mappers relation [a..<n] np = map (mapper_of relation) [a..<n]"
  using assms
proof (induction "n - a" arbitrary: a np)
  case (Suc d)
  then have an: "a < n" by simp
  have ret: "retained relation a = (find (\<lambda>kv. snd kv = a) relation = None)"
    by (force simp: retained_def find_None_iff)
  have snoc: "filter (retained relation) [0..<Suc a] = filter (retained relation) [0..<a] @ (if retained relation a then [a] else [])"
    by simp
  show ?case
  proof (cases "find (\<lambda>kv. snd kv = a) relation")
    case None
    with ret snoc Suc.prems Suc.hyps(1) [of "Suc a" np] an Suc.hyps(2) show ?thesis
      by (simp add: upt_conv_Cons [OF an] mapper_of_def)
  next
    case (Some kv)
    with ret snoc Suc.prems Suc.hyps(1) [of "Suc a" "np + 1"] an Suc.hyps(2) show ?thesis
      by (simp add: upt_conv_Cons [OF an] mapper_of_def)
  qed
qed simp

lemma key_relation_iff: "(i, c) \<in> set (key_relation exprs) \<longleftrightarrow> i < length exprs \<and> se_expr (exprs ! i) = Column c"
proof
  show "(i, c) \<in> set (key_relation exprs) \<Longrightarrow> i < length exprs \<and> se_expr (exprs ! i) = Column c"
    by (auto simp: key_relation_def in_set_enumerate_eq split: phys_expr.splits)
  assume e: "i < length exprs \<and> se_expr (exprs ! i) = Column c"
  then have "(i, exprs ! i) \<in> set (enumerate 0 exprs)" by (simp add: in_set_enumerate_eq)
  with e show "(i, c) \<in> set (key_relation exprs)" unfolding key_relation_def by force
qed

lemma mapper_of_key:
  assumes "find (\<lambda>kv. snd kv = j) (key_relation exprs) = Some kv"
  shows "fst kv < length exprs" and "se_expr (exprs ! fst kv) = Column j"
proof -
  from assms have "kv \<in> set (key_relation exprs)" "snd kv = j" by (auto simp: find_Some_iff)
  then show "fst kv < length exprs" "se_expr (exprs ! fst kv) = Column j"
    using key_relation_iff [of "fst kv" "snd kv" exprs] unfolding prod.collapse by simp_all
qed

section \<open>What the sort relies on\<close>

definition rows_of :: "nat \<Rightarrow> array list \<Rightarrow> cell_value list list" where
  "rows_of n cols = map (\<lambda>i. map (\<lambda>c. cell c i) cols) [0..<n]"

text \<open>The rows of a batch with the values of the sort expressions.\<close>

definition keyed_rows :: "sort_expr list \<Rightarrow> record_batch \<Rightarrow> (cell_value list \<times> cell_value list) list" where
  "keyed_rows exprs b = (case those (map (\<lambda>e. evaluate (se_expr e) b) exprs) of
     None \<Rightarrow> [] | Some cols \<Rightarrow> zip (rows_of (rb_num_rows b) cols) (batch_rows b))"

definition typed_row :: "data_type list \<Rightarrow> cell_value list \<Rightarrow> bool" where
  "typed_row ts r = (length r = length ts \<and>
     (\<forall>j < length ts. \<exists>a i. array_wf a \<and> data_type_of a = ts ! j \<and> i < array_len a \<and> cell a i = r ! j))"

text \<open>A row of which a batch of \<open>bound\<close> rows can be made.\<close>

definition light_row :: "nat \<Rightarrow> cell_value list \<Rightarrow> bool" where
  "light_row bound r = (\<forall>c \<in> set r. cell_weight c * bound < 2 ^ 31)"

text \<open>
  The row format: \<open>enc\<close> is the encoding of one row; it is decoded without loss, and the encoded
  rows compare as the rows do under the sort options (\<open>row_le\<close>).
\<close>

definition row_format_ok ::
  "row_converter \<Rightarrow> data_type list \<Rightarrow> (cell_value list \<Rightarrow> bytes) \<Rightarrow> (cell_value list \<Rightarrow> cell_value list \<Rightarrow> bool) \<Rightarrow> bool" where
  "row_format_ok conv types enc row_le =
     ((\<forall>cols n. map data_type_of cols = types \<and> (\<forall>c \<in> set cols. array_wf c \<and> array_len c = n) \<longrightarrow>
         convert_columns conv cols = Some (map enc (rows_of n cols)))
      \<and> (\<forall>rs. (\<forall>r \<in> set rs. typed_row types r) \<and> rows_weight_ok (length types) rs \<longrightarrow>
         (\<exists>cols. convert_rows conv (map enc rs) = Some cols \<and> length cols = length types
           \<and> (\<forall>j < length types. array_with (types ! j) (map (\<lambda>r. r ! j) rs) (cols ! j))))
      \<and> (\<forall>r r'. typed_row types r \<and> typed_row types r' \<longrightarrow> (enc r \<le> enc r') = row_le r r'))"

definition sort_input_ok :: "data_type list \<Rightarrow> sort_expr list \<Rightarrow> (cell_value list \<Rightarrow> bytes) \<Rightarrow> nat \<Rightarrow> record_batch \<Rightarrow> bool" where
  "sort_input_ok schema exprs enc bound b =
     (batch_of schema b \<and> rb_num_rows b \<le> bound
      \<and> (\<forall>e \<in> set exprs. \<exists>a. evaluate (se_expr e) b = Some a \<and> array_wf a
           \<and> expr_data_type schema (se_expr e) = Some (data_type_of a) \<and> array_len a = rb_num_rows b)
      \<and> (\<forall>(k, r) \<in> set (keyed_rows exprs b). light_row bound k \<and> light_row bound r \<and> key_fits (enc k)))"

lemma sum_weight_bound:
  assumes "\<forall>x \<in> set xs. (f x :: nat) * b < m" and "length xs \<le> b" and "0 < b" and "0 < m"
  shows "sum_list (map f xs) < m"
proof -
  have le: "sum_list (map f xs) * b \<le> length xs * (m - 1)"
    using assms(1)
  proof (induction xs)
    case (Cons x xs)
    then have "f x * b \<le> m - 1" by auto
    with Cons show ?case by (simp add: add_mult_distrib)
  qed simp
  also have "\<dots> \<le> b * (m - 1)" using assms(2) by simp
  finally have "sum_list (map f xs) \<le> m - 1" using assms(3) by (simp add: mult.commute)
  then show ?thesis using assms(4) by simp
qed

lemma light_rows_fit:
  assumes "\<forall>r \<in> set rs. length r = n \<and> light_row bound r" and "length rs \<le> bound" and "0 < bound"
  shows "rows_weight_ok n rs"
proof -
  have "sum_list (map (\<lambda>r. cell_weight (r ! j)) rs) < 2 ^ 31" if "j < n" for j
    by (rule sum_weight_bound [OF _ assms(2,3)]) (use assms(1) that in \<open>auto simp: light_row_def\<close>)
  then show ?thesis by (simp add: rows_weight_ok_def cells_fit_def comp_def)
qed

lemma batch_rows_of: "batch_rows b = rows_of (rb_num_rows b) (rb_columns b)"
  by (simp add: batch_rows_def rows_of_def)

lemma length_rows_of [simp]: "length (rows_of n cols) = n"
  by (simp add: rows_of_def)

lemma typed_rows:
  assumes "map data_type_of cols = ts" and "\<forall>c \<in> set cols. array_wf c \<and> array_len c = n" and "r \<in> set (rows_of n cols)"
  shows "typed_row ts r"
proof -
  from assms(3) obtain i where i: "i < n" "r = map (\<lambda>c. cell c i) cols" by (auto simp: rows_of_def)
  have len: "length cols = length ts" using assms(1) by auto
  have "\<exists>a i. array_wf a \<and> data_type_of a = ts ! j \<and> i < array_len a \<and> cell a i = r ! j" if "j < length ts" for j
    using assms(2) i that unfolding assms(1) [symmetric] by (intro exI [of _ "cols ! j"] exI [of _ i]) simp
  with i len show ?thesis by (simp add: typed_row_def)
qed

lemma keyed_rows_snd: "x \<in> set (keyed_rows exprs b) \<Longrightarrow> snd x \<in> set (batch_rows b)"
  by (cases x) (auto simp: keyed_rows_def split: option.splits dest: set_zip_rightD)

lemma mset_map_preimage: "mset ys = mset (map f xs) \<Longrightarrow> \<exists>zs. mset zs = mset xs \<and> ys = map f zs"
proof (induction ys arbitrary: xs)
  case (Cons y ys)
  then have "y \<in> f ` set xs" by (metis list.set_intros(1) list.set_map mset_eq_setD)
  then obtain x as bs where x: "xs = as @ x # bs" "y = f x" by (auto simp: in_set_conv_decomp)
  with Cons.prems have "mset ys = mset (map f (as @ bs))" by simp
  from Cons.IH [OF this] obtain zs where "mset zs = mset (as @ bs)" "ys = map f zs" by blast
  with x show ?case by (intro exI [of _ "x # zs"]) simp
qed simp

text \<open>The unstable sorts of the standard library, and the configuration.\<close>

definition runtime_ok :: "sort_runtime \<Rightarrow> nat \<Rightarrow> bool" where
  "runtime_ok rt bound =
     ((\<forall>ks. mset (rt_sort_unstable_rows rt ks) = mset [0..<length ks] \<and> sorted (map ((!) ks) (rt_sort_unstable_rows rt ks)))
      \<and> (\<forall>ls. mset (rt_sort_unstable_levels rt ls) = mset [0..<length ls])
      \<and> max (rt_batch_size rt) 20 \<le> bound \<and> bound < 2 ^ 32)"

text \<open>The key columns of a batch are as the row converter decodes them.\<close>

definition keys_decoded :: "prune_sort_keys \<Rightarrow> record_batch \<Rightarrow> bool" where
  "keys_decoded p b = (\<exists>ks cols. convert_rows (sort_row_converter p) ks = Some cols
     \<and> (\<forall>j < length (restored_col_mappers p). \<forall>i. restored_col_mappers p ! j = FromKey i \<longrightarrow> i < length cols \<and> rb_columns b ! j = cols ! i))"

section \<open>The contract of the sorter\<close>

locale sort_exec_setup =
  fixes ker :: kernels and ext :: externals and rt :: sort_runtime and new_converter :: converter_maker
    and schema :: "data_type list" and exprs :: "sort_expr list" and lim :: "nat option" and offset :: nat
    and projection :: "nat list" and p :: prune_sort_keys and types :: "data_type list"
    and enc :: "cell_value list \<Rightarrow> bytes" and row_le :: "cell_value list \<Rightarrow> cell_value list \<Rightarrow> bool" and bound :: nat
  assumes kernels: "kernels_ok ker (set schema)" and externals: "externals_ok ext" and runtime: "runtime_ok rt bound"
    and serde_types: "\<forall>t \<in> set schema. serde_type t"
    and new: "prune_try_new new_converter schema projection exprs = Some p"
    and types: "map (\<lambda>e. expr_data_type schema (se_expr e)) exprs = map Some types"
    and row_format: "row_format_ok (sort_row_converter p) types enc row_le"
    and projected_keys: "\<forall>(i, c) \<in> set (key_relation exprs). c < length projection \<longrightarrow> projection ! c = c"
    and positive_limit: "lim \<noteq> Some 0"
begin

abbreviation rel :: "(nat \<times> nat) list" where
  "rel \<equiv> key_relation exprs"

abbreviation kept :: "nat list" where
  "kept \<equiv> filter (retained rel) [0..<length projection]"

lemma p_fields:
  "input_projection p = projection" "key_exprs p = exprs" "key_cols p = set (map snd rel)"
  "restored_col_mappers p = map (mapper_of rel) [0..<length projection]"
  "restored_schema p = map ((!) schema) projection"
  "pruned_schema p = map (\<lambda>j. schema ! (projection ! j)) kept"
  "\<forall>i \<in> set projection. i < length schema"
proof -
  from new obtain sch where sch: "those (map (vget schema) projection) = Some sch"
    and p: "input_projection p = projection" "key_exprs p = exprs" "key_cols p = set (map snd rel)"
      "restored_col_mappers p = col_mappers rel [0..<length sch] 0" "restored_schema p = sch"
      "pruned_schema p = map ((!) sch) (filter (\<lambda>i. i \<notin> set (map snd rel)) [0..<length sch])"
    by (auto simp: prune_try_new_def Let_def split: Option.bind_splits)
  from sch have m: "map (vget schema) projection = map Some sch" by (simp add: those_Some_iff)
  then have len: "length sch = length projection" using map_eq_imp_length_eq by metis
  have at: "projection ! j < length schema \<and> sch ! j = schema ! (projection ! j)" if "j < length projection" for j
    using arg_cong [OF m, of "\<lambda>l. l ! j"] that len by (simp add: vget_def split: if_splits)
  show "\<forall>i \<in> set projection. i < length schema" using at by (metis in_set_conv_nth)
  have s: "sch = map ((!) schema) projection" by (rule nth_equalityI) (simp_all add: len at)
  then show "restored_schema p = map ((!) schema) projection" using p(5) by simp
  show "input_projection p = projection" "key_exprs p = exprs" "key_cols p = set (map snd rel)" by (fact p)+
  show "restored_col_mappers p = map (mapper_of rel) [0..<length projection]"
    using p(4) col_mappers_closed [of 0 "length projection" 0 rel] len by simp
  show "pruned_schema p = map (\<lambda>j. schema ! (projection ! j)) kept"
    unfolding p(6) len s by (rule nth_equalityI) (auto simp: retained_def [abs_def] dest!: nth_mem)
qed

lemma types_at: "i < length exprs \<Longrightarrow> expr_data_type schema (se_expr (exprs ! i)) = Some (types ! i)" "length types = length exprs"
proof -
  show len: "length types = length exprs" using types map_eq_imp_length_eq by metis
  show "i < length exprs \<Longrightarrow> expr_data_type schema (se_expr (exprs ! i)) = Some (types ! i)"
    using arg_cong [OF types, of "\<lambda>l. l ! i"] len by simp
qed

definition prune_row :: "cell_value list \<Rightarrow> cell_value list" where
  "prune_row r = map (\<lambda>j. r ! (projection ! j)) kept"

definition dec :: "bytes \<Rightarrow> cell_value list" where
  "dec k = (SOME r. typed_row types r \<and> light_row bound r \<and> enc r = k)"

definition join_row :: "bytes \<times> cell_value list \<Rightarrow> cell_value list" where
  "join_row x = map (\<lambda>m. case m of FromPrunedBatch i \<Rightarrow> snd x ! i | FromKey i \<Rightarrow> dec (fst x) ! i)
     (map (mapper_of rel) [0..<length projection])"

definition key_ok :: "bytes \<times> cell_value list \<Rightarrow> bool" where
  "key_ok x = (\<exists>r. typed_row types r \<and> light_row bound r \<and> enc r = fst x)"

definition item :: "cell_value list \<times> cell_value list \<Rightarrow> bytes \<times> cell_value list" where
  "item x = (enc (fst x), prune_row (snd x))"

abbreviation ops :: "record_batch batch_ops" where
  "ops \<equiv> sort_batch_ops ker ext rt (pruned_schema p)"

abbreviation env :: "(record_batch, record_batch) sort_env" where
  "env \<equiv> init_sorter ker ext rt lim offset p"

definition batch_valid :: "record_batch \<Rightarrow> bool" where
  "batch_valid b = (batch_of (pruned_schema p) b \<and> rb_num_rows b < 2 ^ 64)"

definition rows_fit_batch :: "cell_value list list \<Rightarrow> bool" where
  "rows_fit_batch rs = (rows_weight_ok (length (pruned_schema p)) rs \<and> length rs < 2 ^ 64)"

lemma bound_pos: "0 < bound"
  using runtime by (simp add: runtime_ok_def)

lemma formatD:
  "map data_type_of cols = types \<Longrightarrow> \<forall>c \<in> set cols. array_wf c \<and> array_len c = n \<Longrightarrow>
     convert_columns (sort_row_converter p) cols = Some (map enc (rows_of n cols))"
  "\<forall>r \<in> set rs. typed_row types r \<Longrightarrow> rows_weight_ok (length types) rs \<Longrightarrow>
     \<exists>cols. convert_rows (sort_row_converter p) (map enc rs) = Some cols \<and> length cols = length types
       \<and> (\<forall>j < length types. array_with (types ! j) (map (\<lambda>r. r ! j) rs) (cols ! j))"
  "typed_row types r \<Longrightarrow> typed_row types r' \<Longrightarrow> (enc r \<le> enc r') = row_le r r'"
  using row_format unfolding row_format_ok_def by blast+

lemma light_typed_fit: "\<forall>r \<in> set rs. typed_row types r \<and> light_row bound r \<Longrightarrow> length rs \<le> bound \<Longrightarrow> rows_weight_ok (length types) rs"
  by (rule light_rows_fit [OF _ _ bound_pos]) (auto simp: typed_row_def)

text \<open>The encoding of a row determines the row.\<close>

lemma dec_enc:
  assumes "typed_row types r" and "light_row bound r"
  shows "dec (enc r) = r"
proof -
  let ?r = "dec (enc r)"
  have r': "typed_row types ?r" "light_row bound ?r" "enc ?r = enc r"
    using someI [of "\<lambda>r'. typed_row types r' \<and> light_row bound r' \<and> enc r' = enc r" r] assms unfolding dec_def by blast+
  have one: "Suc 0 \<le> bound" using bound_pos by simp
  from formatD(2) [of "[r]"] light_typed_fit [of "[r]"] assms one obtain cols where
    c: "convert_rows (sort_row_converter p) [enc r] = Some cols" "\<forall>j < length types. array_with (types ! j) [r ! j] (cols ! j)" by auto
  from formatD(2) [of "[?r]"] light_typed_fit [of "[?r]"] r' one obtain cols' where
    c': "convert_rows (sort_row_converter p) [enc r] = Some cols'" "\<forall>j < length types. array_with (types ! j) [?r ! j] (cols' ! j)" by auto
  have "r ! j = ?r ! j" if "j < length types" for j
    using c c' that by (auto simp: array_with_def)
  then show ?thesis using assms(1) r'(1) by (auto simp: typed_row_def intro: nth_equalityI)
qed

lemma kept_at:
  "j < length projection \<Longrightarrow> retained rel j \<Longrightarrow> length (filter (retained rel) [0..<j]) < length kept"
  "j < length projection \<Longrightarrow> retained rel j \<Longrightarrow> kept ! length (filter (retained rel) [0..<j]) = j"
proof -
  assume j: "j < length projection" "retained rel j"
  then show "kept ! length (filter (retained rel) [0..<j]) = j" by (rule filter_nth_position)
  have "[0..<length projection] = [0..<j] @ j # [Suc j..<length projection]"
    using j(1) upt_add_eq_append [of 0 j "length projection - j"] by (simp add: upt_conv_Cons)
  with j(2) show "length (filter (retained rel) [0..<j]) < length kept" by simp
qed

lemma mapper_cases:
  assumes "j < length projection"
  obtains (key) i where "mapper_of rel j = FromKey i" "i < length exprs" "se_expr (exprs ! i) = Column j" "projection ! j = j"
  | (pruned) k where "mapper_of rel j = FromPrunedBatch k" "k < length kept" "kept ! k = j"
proof (cases "find (\<lambda>kv. snd kv = j) rel")
  case None
  then have "retained rel j" by (force simp: retained_def find_None_iff)
  with assms kept_at None pruned show ?thesis by (simp add: mapper_of_def)
next
  case (Some kv)
  from mapper_of_key [OF Some] have m: "fst kv < length exprs" "se_expr (exprs ! fst kv) = Column j" .
  then have "(fst kv, j) \<in> set rel" by (simp add: key_relation_iff)
  with projected_keys assms have "projection ! j = j" by auto
  with m Some key show ?thesis by (simp add: mapper_of_def)
qed

lemma key_columns:
  assumes "sort_input_ok schema exprs enc bound b"
  obtains cols where "those (map (\<lambda>e. evaluate (se_expr e) b) exprs) = Some cols" "map data_type_of cols = types"
    "\<forall>c \<in> set cols. array_wf c \<and> array_len c = rb_num_rows b"
    "\<And>i. i < length exprs \<Longrightarrow> evaluate (se_expr (exprs ! i)) b = Some (cols ! i)"
proof -
  let ?f = "\<lambda>e. the (evaluate (se_expr e) b)"
  have e: "evaluate (se_expr e) b = Some (?f e) \<and> array_wf (?f e) \<and> expr_data_type schema (se_expr e) = Some (data_type_of (?f e))
      \<and> array_len (?f e) = rb_num_rows b" if "e \<in> set exprs" for e
    using assms that by (fastforce simp: sort_input_ok_def)
  then have "those (map (\<lambda>e. evaluate (se_expr e) b) exprs) = Some (map ?f exprs)" by (intro those_map_Some) blast
  moreover have "data_type_of (?f (exprs ! i)) = types ! i" if "i < length exprs" for i
    using e [OF nth_mem [OF that]] types_at(1) [OF that] by simp
  then have "map data_type_of (map ?f exprs) = types" by (intro nth_equalityI) (simp_all add: types_at(2))
  moreover have "\<forall>c \<in> set (map ?f exprs). array_wf c \<and> array_len c = rb_num_rows b" using e by auto
  moreover have "evaluate (se_expr (exprs ! i)) b = Some (map ?f exprs ! i)" if "i < length exprs" for i
    using e [OF nth_mem [OF that]] that by simp
  ultimately show ?thesis by (rule that)
qed

lemma keyed_row_nth:
  assumes "those (map (\<lambda>e. evaluate (se_expr e) b) exprs) = Some cols" and "i < rb_num_rows b"
  shows "keyed_rows exprs b ! i = (map (\<lambda>c. cell c i) cols, map (\<lambda>c. cell c i) (rb_columns b))"
  using assms by (simp add: keyed_rows_def rows_of_def batch_rows_def)

lemma enumerate_filter:
  "map snd (filter (\<lambda>(i, _). P i) (enumerate 0 xs)) = map ((!) xs) (filter P [0..<length xs])"
proof -
  have "enumerate 0 xs = map (\<lambda>i. (i, xs ! i)) [0..<length xs]"
    by (rule nth_equalityI) (simp_all add: nth_enumerate_eq)
  then show ?thesis by (simp add: filter_map comp_def)
qed

lemma prune_batch_ok:
  assumes b: "sort_input_ok schema exprs enc bound b"
  shows "\<exists>pruned. prune_batch ker p b = Some (map (enc \<circ> fst) (keyed_rows exprs b), pruned)
    \<and> batch_of (pruned_schema p) pruned \<and> batch_rows pruned = map (prune_row \<circ> snd) (keyed_rows exprs b)
    \<and> rb_num_rows pruned = rb_num_rows b"
proof -
  from b have bo: "batch_of schema b" by (simp add: sort_input_ok_def)
  obtain cols where cols: "those (map (\<lambda>e. evaluate (se_expr e) b) exprs) = Some cols" "map data_type_of cols = types"
    "\<forall>c \<in> set cols. array_wf c \<and> array_len c = rb_num_rows b"
    using key_columns [OF b] by metis
  let ?n = "rb_num_rows b"
  have keyed: "keyed_rows exprs b = zip (rows_of ?n cols) (batch_rows b)" using cols(1) by (simp add: keyed_rows_def)
  have keys: "convert_columns (sort_row_converter p) cols = Some (map (enc \<circ> fst) (keyed_rows exprs b))"
    using formatD(1) [OF cols(2,3)] unfolding keyed map_map [symmetric] by simp
  have in_schema: "projection ! j < length schema" if "j < length projection" for j
    using p_fields(7) that by (metis nth_mem)
  have "map (vget (rb_columns b)) projection = map Some (map ((!) (rb_columns b)) projection)"
    using p_fields(7) batch_ofD(2) [OF bo] by simp
  then have proj: "those (map (vget (rb_columns b)) projection) = Some (map ((!) (rb_columns b)) projection)"
    by (simp only: those_Some_iff)
  let ?kept = "map (\<lambda>j. rb_columns b ! (projection ! j)) kept"
  have "(\<lambda>i. i \<notin> key_cols p) = retained rel" by (simp add: p_fields(3) retained_def fun_eq_iff)
  with enumerate_filter [of "\<lambda>i. i \<notin> key_cols p" "map ((!) (rb_columns b)) projection"]
  have "map snd (filter (\<lambda>(i, _). i \<notin> key_cols p) (enumerate 0 (map ((!) (rb_columns b)) projection))) = ?kept"
    by (simp cong: map_cong)
  moreover let ?rs = "map (prune_row \<circ> snd) (keyed_rows exprs b)" and ?s = "pruned_schema p"
  have lk: "length ?kept = length ?s" by (simp add: p_fields(6))
  have rs: "?rs = map prune_row (batch_rows b)" unfolding keyed map_map [symmetric] by simp
  have row: "?rs ! i ! j = cell (?kept ! j) i" if "i < ?n" "j < length ?s" for i j
  proof -
    have "kept ! j < length projection" using that(2) nth_mem [of j kept] by (auto simp: p_fields(6))
    from batch_ofD(5) [OF bo that(1) in_schema [OF this]] show ?thesis
      using that by (simp add: rs prune_row_def p_fields(6))
  qed
  have "\<forall>j < length ?s. array_with (?s ! j) (map (\<lambda>r. r ! j) ?rs) (?kept ! j)"
  proof (intro allI impI array_withI)
    fix j assume j: "j < length ?s"
    then have "kept ! j < length projection" using nth_mem [of j kept] by (auto simp: p_fields(6))
    from batch_ofD(3) [OF bo in_schema [OF this]] j
    show "array_wf (?kept ! j)" "data_type_of (?kept ! j) = ?s ! j" "array_len (?kept ! j) = length (map (\<lambda>r. r ! j) ?rs)"
      by (simp_all add: rs p_fields(6))
    show "cell (?kept ! j) i = map (\<lambda>r. r ! j) ?rs ! i" if "i < length (map (\<lambda>r. r ! j) ?rs)" for i
      using row [OF _ j] that by (simp add: rs)
  qed
  from batch_of_columns [OF lk this] have
    new: "batch_of ?s \<lparr>rb_schema = ?s, rb_columns = ?kept, rb_num_rows = length ?rs\<rparr>"
      "batch_rows \<lparr>rb_schema = ?s, rb_columns = ?kept, rb_num_rows = length ?rs\<rparr> = ?rs"
    by (auto simp: rs prune_row_def p_fields(6))
  have ln: "length ?rs = ?n" by (simp add: rs)
  have "try_new_with_options ker ?s ?kept ?n = Some \<lparr>rb_schema = ?s, rb_columns = ?kept, rb_num_rows = length ?rs\<rparr>"
    using kernelsD(3) [OF kernels, of ?kept ?s "length ?rs"] new(1) ln by (simp add: batch_of_def)
  ultimately show ?thesis
    using cols(1) keys proj new ln by (simp add: prune_batch_def p_fields(1,2) Let_def)
qed

lemma restore_batch_ok:
  assumes pb: "batch_of (pruned_schema p) pruned" and kr: "rows_keys kr = Some ks"
    and len: "length ks = length (batch_rows pruned)" "length ks \<le> bound" and good: "\<forall>x \<in> set (zip ks (batch_rows pruned)). key_ok x"
  shows "\<exists>b. restore_from_existed_key_rows ker p pruned kr = Some b \<and> batch_rows b = map join_row (zip ks (batch_rows pruned))
    \<and> batch_of (restored_schema p) b \<and> keys_decoded p b"
proof -
  let ?n = "rb_num_rows pruned" and ?rs = "map join_row (zip ks (batch_rows pruned))" and ?s = "restored_schema p"
  have lr: "length ?rs = ?n" using len(1) by simp
  let ?ds = "map dec ks"
  have "typed_row types (dec k) \<and> light_row bound (dec k) \<and> enc (dec k) = k" if "k \<in> set ks" for k
  proof -
    from that obtain i where "i < length ks" "k = ks ! i" by (metis in_set_conv_nth)
    then have "(k, batch_rows pruned ! i) \<in> set (zip ks (batch_rows pruned))" using len(1) by (auto simp: set_zip)
    with good obtain r where "typed_row types r" "light_row bound r" "enc r = k" by (auto simp: key_ok_def)
    then show ?thesis using dec_enc by auto
  qed
  then have ds: "\<forall>r \<in> set ?ds. typed_row types r \<and> light_row bound r" "map enc ?ds = ks" by (auto simp: map_idI)
  from formatD(2) [of ?ds] light_typed_fit [OF ds(1)] ds len(2) obtain cols where
    cols: "convert_rows (sort_row_converter p) ks = Some cols" "length cols = length types"
      "\<And>j. j < length types \<Longrightarrow> array_with (types ! j) (map (\<lambda>r. r ! j) ?ds) (cols ! j)" by auto
  let ?field = "\<lambda>m. case m of FromPrunedBatch i \<Rightarrow> rb_columns pruned ! i | FromKey i \<Rightarrow> cols ! i"
  let ?fields = "map ?field (restored_col_mappers p)"
  have lf: "length ?fields = length ?s" by (simp add: p_fields(4,5))
  have key_len: "i < length types" if "i < length exprs" for i using that types_at(2) by simp
  have plen: "length (rb_columns pruned) = length kept" using batch_ofD(2) [OF pb] by (simp add: p_fields(6))
  have "(case m of FromPrunedBatch idx \<Rightarrow> vget (rb_columns pruned) idx
          | FromKey idx \<Rightarrow> do { keys \<leftarrow> rows_keys kr; cols \<leftarrow> convert_rows (sort_row_converter p) keys; vget cols idx }) = Some (?field m)"
    if "m \<in> set (restored_col_mappers p)" for m
  proof -
    from that obtain j where j: "j < length projection" "m = mapper_of rel j" by (auto simp: p_fields(4))
    from j(1) show ?thesis by (cases rule: mapper_cases) (use j(2) plen cols(1,2) kr key_len in auto)
  qed
  then have fields: "those (map (\<lambda>m. case m of FromPrunedBatch idx \<Rightarrow> vget (rb_columns pruned) idx
          | FromKey idx \<Rightarrow> do { keys \<leftarrow> rows_keys kr; cols \<leftarrow> convert_rows (sort_row_converter p) keys; vget cols idx })
        (restored_col_mappers p)) = Some ?fields"
    by (rule those_map_Some)
  have at: "join_row (zip ks (batch_rows pruned) ! i) ! j
      = (case mapper_of rel j of FromPrunedBatch k \<Rightarrow> batch_rows pruned ! i ! k | FromKey k \<Rightarrow> dec (ks ! i) ! k)"
    if "i < ?n" "j < length projection" for i j
    using that len(1) by (simp add: join_row_def split: col_mapper.splits)
  have "array_with (?s ! j) (map (\<lambda>r. r ! j) ?rs) (?fields ! j)" if "j < length ?s" for j
  proof -
    have j: "j < length projection" using that by (simp add: p_fields(5))
    then show ?thesis
    proof (cases rule: mapper_cases)
      case (key i)
      have "types ! i = ?s ! j" using types_at(1) [OF key(2)] key(3,4) j by (auto simp: p_fields(5) vget_def split: if_splits)
      moreover have "map (\<lambda>r. r ! j) ?rs = map (\<lambda>r. r ! i) ?ds"
        by (rule nth_equalityI) (use len(1) at [OF _ j] key(1) in simp_all)
      ultimately show ?thesis using cols(3) [OF key_len [OF key(2)]] j key(1) by (simp add: p_fields(4))
    next
      case (pruned k)
      have kl: "k < length (pruned_schema p)" using pruned(2) by (simp add: p_fields(6))
      have "pruned_schema p ! k = ?s ! j" using pruned(2,3) j by (simp add: p_fields(5,6))
      moreover have "map (\<lambda>r. r ! j) ?rs = map (\<lambda>r. r ! k) (batch_rows pruned)"
        by (rule nth_equalityI) (use len(1) at [OF _ j] pruned(1) in simp_all)
      ultimately show ?thesis
        using batch_ofD(3,5) [OF pb] kl j pruned(1) by (auto simp: p_fields(4) intro!: array_withI)
    qed
  qed
  then have cols_ok: "\<forall>j < length ?s. array_with (?s ! j) (map (\<lambda>r. r ! j) ?rs) (?fields ! j)" by blast
  have lens: "\<forall>r \<in> set ?rs. length r = length ?s" by (auto simp: join_row_def p_fields(5))
  have new: "batch_of ?s \<lparr>rb_schema = ?s, rb_columns = ?fields, rb_num_rows = length ?rs\<rparr>"
      "batch_rows \<lparr>rb_schema = ?s, rb_columns = ?fields, rb_num_rows = length ?rs\<rparr> = ?rs"
    using batch_of_columns [OF lf cols_ok lens] by blast+
  have "try_new_with_options ker ?s ?fields ?n = Some \<lparr>rb_schema = ?s, rb_columns = ?fields, rb_num_rows = length ?rs\<rparr>"
    using kernelsD(3) [OF kernels, of ?fields ?s "length ?rs"] new(1) lr by (simp add: batch_of_def)
  moreover have "keys_decoded p \<lparr>rb_schema = ?s, rb_columns = ?fields, rb_num_rows = length ?rs\<rparr>"
    unfolding keys_decoded_def
  proof (intro exI [of _ ks] exI [of _ cols] conjI allI impI)
    fix j i assume j: "j < length (restored_col_mappers p)" "restored_col_mappers p ! j = FromKey i"
    then have "j < length projection" "mapper_of rel j = FromKey i" by (simp_all add: p_fields(4))
    then have "i < length exprs" by (cases rule: mapper_cases) simp_all
    with j cols(2) key_len show "i < length cols"
      "rb_columns \<lparr>rb_schema = ?s, rb_columns = ?fields, rb_num_rows = length ?rs\<rparr> ! j = cols ! i" by simp_all
  qed (rule cols(1))
  ultimately show ?thesis using fields new unfolding restore_from_existed_key_rows_def by (metis bind.bind_lunit)
qed

lemma serde_ok:
  assumes "batch_valid b"
  shows "\<exists>bytes b'. write_one_batch ops b = Some bytes \<and> batch_valid b' \<and> batch_rows b' = batch_rows b
    \<and> (\<forall>rest. read_one_batch ops (bytes @ rest) = Some (Some b', rest))"
proof -
  let ?s = "pruned_schema p" and ?n = "rb_num_rows b"
  from assms have b: "batch_of ?s b" "?n < 2 ^ 64" by (simp_all add: batch_valid_def)
  have sub: "set ?s \<subseteq> set schema" using p_fields(7) by (auto simp: p_fields(6))
  have "serde_type (data_type_of c)" if "c \<in> set (rb_columns b)" for c
  proof -
    from that have "data_type_of c \<in> set ?s" using b(1) by (auto simp: batch_of_def simp del: set_map) (metis image_eqI set_map)
    with sub serde_types show ?thesis by blast
  qed
  then have "batch_ok ?n (rb_columns b)" using b by (simp add: batch_ok_def batch_of_def)
  from batch_columns [OF externals this] obtain bs cols' where
    rt: "write_batch ext ?n (rb_columns b) = Inr bs" "list_all2 same_rows (rb_columns b) cols'"
      "\<And>rest. read_batch ext ?s (bs @ rest) = Inr (Some (?n, cols'), rest)"
    using b(1) by (auto simp: batch_of_def)
  have l: "length cols' = length (rb_columns b)" "length (rb_columns b) = length ?s"
    using rt(2) batch_ofD(2) [OF b(1)] by (simp_all add: list_all2_lengthD)
  have "array_with (?s ! j) (map (\<lambda>r. r ! j) (batch_rows b)) (cols' ! j)" if j: "j < length ?s" for j
  proof -
    have "same_rows (rb_columns b ! j) (cols' ! j)" using rt(2) j l by (simp add: list_all2_nthD)
    with batch_ofD(3,5) [OF b(1)] j show ?thesis by (auto simp: same_rows_def intro!: array_withI)
  qed
  moreover have "\<forall>r \<in> set (batch_rows b). length r = length ?s" using batch_ofD(4) [OF b(1)] by (metis in_set_conv_nth length_batch_rows)
  ultimately have new: "batch_of ?s \<lparr>rb_schema = ?s, rb_columns = cols', rb_num_rows = ?n\<rparr>"
    "batch_rows \<lparr>rb_schema = ?s, rb_columns = cols', rb_num_rows = ?n\<rparr> = batch_rows b"
    using batch_of_columns [of cols' ?s "batch_rows b"] l by simp_all
  have "try_new_with_options ker ?s cols' ?n = Some \<lparr>rb_schema = ?s, rb_columns = cols', rb_num_rows = ?n\<rparr>"
    using kernelsD(3) [OF kernels, of cols' ?s ?n] new(1) by (simp add: batch_of_def)
  with rt(1,3) new b(2) show ?thesis
    by (intro exI [of _ bs] exI [of _ "\<lparr>rb_schema = ?s, rb_columns = cols', rb_num_rows = ?n\<rparr>"])
      (simp add: sort_batch_ops_def write_spilled_batch_def read_spilled_batch_def batch_valid_def)
qed

lemma keyed_row_ok:
  assumes b: "sort_input_ok schema exprs enc bound b" and x: "x \<in> set (keyed_rows exprs b)"
  shows "typed_row types (fst x)" and "light_row bound (fst x)" and "light_row bound (snd x)" and "key_fits (enc (fst x))"
    and "snd x \<in> set (batch_rows b)"
    and "\<And>i c. i < length exprs \<Longrightarrow> se_expr (exprs ! i) = Column c \<Longrightarrow> c < length schema \<Longrightarrow> fst x ! i = snd x ! c"
proof -
  show "light_row bound (fst x)" "light_row bound (snd x)" "key_fits (enc (fst x))"
    using b x by (auto simp: sort_input_ok_def)
  obtain cols where cols: "those (map (\<lambda>e. evaluate (se_expr e) b) exprs) = Some cols" "map data_type_of cols = types"
    "\<forall>c \<in> set cols. array_wf c \<and> array_len c = rb_num_rows b"
    "\<And>i. i < length exprs \<Longrightarrow> evaluate (se_expr (exprs ! i)) b = Some (cols ! i)"
    using key_columns [OF b] by metis
  from x obtain n where n: "n < rb_num_rows b" "x = keyed_rows exprs b ! n"
    using cols(1) by (auto simp: in_set_conv_nth keyed_rows_def)
  then have xn: "x = (map (\<lambda>c. cell c n) cols, map (\<lambda>c. cell c n) (rb_columns b))" using keyed_row_nth [OF cols(1)] by simp
  show "typed_row types (fst x)" by (rule typed_rows [OF cols(2,3)]) (use xn n in \<open>auto simp: rows_of_def\<close>)
  show "snd x \<in> set (batch_rows b)" using xn n by (auto simp: batch_rows_def)
  fix i c assume i: "i < length exprs" "se_expr (exprs ! i) = Column c" "c < length schema"
  have "length (rb_columns b) = length schema" using b batch_ofD(2) by (auto simp: sort_input_ok_def)
  moreover have "length cols = length exprs" using cols(2) types_at(2) by (metis length_map)
  ultimately show "fst x ! i = snd x ! c" using cols(4) [OF i(1)] i xn by simp
qed

lemma length_keyed_rows: "sort_input_ok schema exprs enc bound b \<Longrightarrow> length (keyed_rows exprs b) = rb_num_rows b"
proof -
  assume "sort_input_ok schema exprs enc bound b"
  then obtain cols where "those (map (\<lambda>e. evaluate (se_expr e) b) exprs) = Some cols" using key_columns by metis
  then show ?thesis by (simp add: keyed_rows_def)
qed

text \<open>What was pruned is restored.\<close>

lemma join_item:
  assumes b: "sort_input_ok schema exprs enc bound b" and x: "x \<in> set (keyed_rows exprs b)"
  shows "join_row (item x) = map ((!) (snd x)) projection"
proof (rule nth_equalityI)
  fix j assume "j < length (join_row (item x))"
  then have j: "j < length projection" by (simp add: join_row_def)
  have "projection ! j < length schema" using p_fields(7) j by (metis nth_mem)
  from j show "join_row (item x) ! j = map ((!) (snd x)) projection ! j"
  proof (cases rule: mapper_cases)
    case (key i)
    with keyed_row_ok(6) [OF b x key(2,3)] dec_enc [OF keyed_row_ok(1,2) [OF b x]] j \<open>projection ! j < length schema\<close> show ?thesis by (simp add: join_row_def item_def)
  next
    case (pruned k)
    with j show ?thesis by (simp add: join_row_def item_def prune_row_def)
  qed
qed (simp add: join_row_def)

lemma pruned_kernels: "kernels_ok ker (set (pruned_schema p))"
  by (rule kernels_ok_mono [OF kernels]) (use p_fields(7) in \<open>auto simp: p_fields(6)\<close>)

end

sublocale sort_exec_setup \<subseteq> sort_contract
  "sort_batch_ops ker ext rt (pruned_schema p)" batch_rows batch_valid rows_fit_batch "prune_is_all_pruned p" "[]"
  "init_sorter ker ext rt lim offset p" "sort_input_ok schema exprs enc bound"
  "\<lambda>b. map item (keyed_rows exprs b)" batch_rows join_row key_ok bound
  "\<lambda>b. batch_of (map ((!) schema) projection) b \<and> keys_decoded p b"
proof unfold_locales
  fix b assume "batch_valid b"
  then show "num_rows_of ops b = length (batch_rows b)" by (simp add: sort_batch_ops_def)
next
  fix b "is" assume "batch_valid b" "\<forall>i \<in> set is. i < length (batch_rows b)" "rows_fit_batch (map ((!) (batch_rows b)) is)"
  with take_record_batch_ok [OF pruned_kernels, of b "is"]
  show "\<exists>b'. take_batch ops b is = Some b' \<and> batch_valid b' \<and> batch_rows b' = map ((!) (batch_rows b)) is"
    unfolding batch_valid_def rows_fit_batch_def sort_batch_ops_def
    by (metis (no_types, lifting) batch_ops.select_convs(2) length_batch_rows)
next
  fix bs ixs
  assume "bs \<noteq> []" "Ball (set bs) batch_valid" "\<forall>(i, j) \<in> set ixs. i < length bs \<and> j < length (batch_rows (bs ! i))"
    "rows_fit_batch (map (\<lambda>(i, j). batch_rows (bs ! i) ! j) ixs)"
  with batch_interleaver_ok [OF pruned_kernels, of bs ixs]
  obtain b' where b': "create_batch_interleaver ker bs ixs = Some b'" "batch_of (pruned_schema p) b'"
    "batch_rows b' = map (\<lambda>(i, j). batch_rows (bs ! i) ! j) ixs" by (auto simp: batch_valid_def rows_fit_batch_def)
  then have "rb_num_rows b' = length ixs" by (metis length_batch_rows length_map)
  with b' \<open>rows_fit_batch _\<close> show "\<exists>b'. interleave_batches ops bs ixs = Some b' \<and> batch_valid b'
      \<and> batch_rows b' = map (\<lambda>(i, j). batch_rows (bs ! i) ! j) ixs"
    by (simp add: batch_valid_def rows_fit_batch_def sort_batch_ops_def)
next
  fix b assume "batch_valid b"
  then show "\<exists>bytes b'. write_one_batch ops b = Some bytes \<and> batch_valid b' \<and> batch_rows b' = batch_rows b
      \<and> (\<forall>rest. read_one_batch ops (bytes @ rest) = Some (Some b', rest))" by (rule serde_ok)
next
  show "read_one_batch ops [] = Some (None, [])"
    by (simp add: sort_batch_ops_def read_spilled_batch_def read_batch_def read_len_def)
next
  fix n :: nat assume "prune_is_all_pruned p" "n < 2 ^ 64"
  then show "batch_valid (zero_column_batch ops n) \<and> batch_rows (zero_column_batch ops n) = replicate n []"
    by (simp add: sort_batch_ops_def create_zero_column_batch_def batch_valid_def batch_of_def prune_is_all_pruned_def
        batch_rows_def map_replicate_const)
next
  fix b assume "prune_is_all_pruned p" "batch_valid b"
  then show "set (batch_rows b) \<subseteq> {[]}" by (auto simp: prune_is_all_pruned_def batch_valid_def batch_of_def batch_rows_def)
next
  show "0 < sort_limit env" using positive_limit by (cases lim) (auto simp: init_sorter_def usize_max_def)
next
  show "mset (sort_unstable_rows env ks) = mset [0..<length ks]" "sorted (map ((!) ks) (sort_unstable_rows env ks))" for ks
    using runtime by (simp_all add: init_sorter_def runtime_ok_def)
  show "mset (sort_unstable_levels env ls) = mset [0..<length ls]" for ls
    using runtime by (simp add: init_sorter_def runtime_ok_def)
  show "max (conf_batch_size env) 20 \<le> bound" "bound < 2 ^ 32" using runtime by (simp_all add: init_sorter_def runtime_ok_def)
next
  fix b assume "sort_input_ok schema exprs enc bound b"
  with prune_batch_ok length_keyed_rows runtime show "\<exists>keys pruned. prune env b = Some (keys, pruned) \<and> batch_valid pruned
      \<and> length keys = length (batch_rows pruned) \<and> map item (keyed_rows exprs b) = zip keys (batch_rows pruned)
      \<and> input_rows env b = length keys"
    by (fastforce simp: init_sorter_def batch_valid_def sort_input_ok_def runtime_ok_def item_def zip_map_map zip_same_conv_map)
next
  fix b x assume b: "sort_input_ok schema exprs enc bound b" and x: "x \<in> set (map item (keyed_rows exprs b))"
  from x obtain y where y: "y \<in> set (keyed_rows exprs b)" "x = item y" by auto
  show "key_ok x" using keyed_row_ok(1,2) [OF b y(1)] y(2) by (auto simp: key_ok_def item_def)
next
  fix pruned kr ks
  assume "batch_valid pruned" "rows_keys kr = Some ks" "length ks = length (batch_rows pruned)" "length ks \<le> bound"
    "Ball (set (zip ks (batch_rows pruned))) key_ok"
  with restore_batch_ok show "\<exists>b. restore env pruned kr = Some b \<and> batch_rows b = map join_row (zip ks (batch_rows pruned))
      \<and> batch_of (map ((!) schema) projection) b \<and> keys_decoded p b"
    by (fastforce simp: init_sorter_def batch_valid_def p_fields(5))
qed (simp_all add: init_sorter_def)

context sort_exec_setup
begin

lemma sort_input_fits:
  assumes inp: "\<forall>(b, sp) \<in> set input. sort_input_ok schema exprs enc bound b"
    and total: "sum_list (map (\<lambda>(b, sp). rb_num_rows b) input) < usize_max"
  shows "rows_fit bound (concat (map ((\<lambda>b. map item (keyed_rows exprs b)) \<circ> fst) input))"
proof -
  let ?xs = "concat (map ((\<lambda>b. map item (keyed_rows exprs b)) \<circ> fst) input)"
  have src: "\<exists>b y. sort_input_ok schema exprs enc bound b \<and> y \<in> set (keyed_rows exprs b) \<and> x = item y" if "x \<in> set ?xs" for x
  proof -
    from that obtain i y where i: "i \<in> set input" "y \<in> set (keyed_rows exprs (fst i))" "x = item y" by auto
    with inp have "sort_input_ok schema exprs enc bound (fst i)" by (cases i) auto
    with i show ?thesis by blast
  qed
  have keys: "\<forall>x \<in> set ?xs. key_fits (fst x)"
  proof
    fix x assume "x \<in> set ?xs"
    from src [OF this] keyed_row_ok(4) show "key_fits (fst x)" by (auto simp: item_def)
  qed
  have "length ?xs = sum_list (map (\<lambda>(b, sp). rb_num_rows b) input)"
    using inp by (induction input) (auto simp: length_keyed_rows)
  then have len: "length ?xs < usize_max" using total by simp
  have bnd: "bound < 2 ^ 64" using runtime by (simp add: runtime_ok_def)
  have "rows_fit_batch rs" if rs: "mset rs \<subseteq># mset (map snd ?xs)" "length rs \<le> bound" for rs
  proof -
    have "length r = length (pruned_schema p) \<and> light_row bound r" if "r \<in> set rs" for r
    proof -
      have "r \<in> set (map snd ?xs)" using set_mset_mono [OF rs(1)] that by auto
      then obtain x where x: "x \<in> set ?xs" "r = snd x" by auto
      from src [OF x(1)] x(2) obtain b y where y: "sort_input_ok schema exprs enc bound b" "y \<in> set (keyed_rows exprs b)" "r = prune_row (snd y)"
        by (auto simp: item_def)
      from y(1) have "batch_of schema b" by (simp add: sort_input_ok_def)
      with keyed_row_ok(5) [OF y(1,2)] have l: "length (snd y) = length schema"
        by (metis batch_ofD(4) in_set_conv_nth length_batch_rows)
      have "snd y ! (projection ! j) \<in> set (snd y)" if "j < length projection" for j
        using p_fields(7) that l by (metis nth_mem)
      with keyed_row_ok(3) [OF y(1,2)] y(3) show ?thesis by (auto simp: prune_row_def light_row_def p_fields(6))
    qed
    with light_rows_fit [OF _ rs(2) bound_pos] rs(2) bnd show ?thesis by (simp add: rows_fit_batch_def)
  qed
  with keys len bnd show ?thesis by (simp add: rows_fit_def batches_fit_def)
qed

lemma sort_exec_sorted_batches:
  assumes inp: "\<forall>(b, sp) \<in> set input. sort_input_ok schema exprs enc bound b"
    and total: "sum_list (map (\<lambda>(b, sp). rb_num_rows b) input) < usize_max"
  shows "\<exists>sent full. execute_projected_with_key_rows ker ext rt new_converter schema exprs lim offset projection input = Some sent
    \<and> mset full = mset (concat (map (keyed_rows exprs \<circ> fst) input))
    \<and> sorted_wrt (\<lambda>x y. row_le (fst x) (fst y)) full
    \<and> concat (map (batch_rows \<circ> fst) sent)
        = map (\<lambda>x. map ((!) (snd x)) projection) (drop offset (take (case lim of Some l \<Rightarrow> l | None \<Rightarrow> usize_max) full))
    \<and> concat (map (the \<circ> rows_keys \<circ> snd) sent)
        = map (enc \<circ> fst) (drop offset (take (case lim of Some l \<Rightarrow> l | None \<Rightarrow> usize_max) full))
    \<and> (\<forall>s \<in> set sent. batch_of (map ((!) schema) projection) (fst s) \<and> 0 < rb_num_rows (fst s) \<and> rb_num_rows (fst s) \<le> bound
         \<and> keys_decoded p (fst s))"
proof -
  let ?items = "\<lambda>b. map item (keyed_rows exprs b)" and ?xs = "concat (map (keyed_rows exprs \<circ> fst) input)"
  let ?n = "case lim of Some l \<Rightarrow> l | None \<Rightarrow> usize_max"
  have "\<forall>(b, sp) \<in> set input. sort_input_ok schema exprs enc bound b \<and> input_rows env b \<le> bound"
    using inp by (auto simp: init_sorter_def sort_input_ok_def)
  from execute_sort_ok [OF this sort_input_fits [OF inp total]] obtain sent where
    run: "execute_sort env input = Some sent" and res: "sort_result (concat (map (?items \<circ> fst) input)) sent" by blast
  from res obtain out where out: "mset out = mset (concat (map (?items \<circ> fst) input))" "sorted (map fst out)"
      "concat (map (batch_rows \<circ> fst) sent) = map join_row (drop (sort_skip env) (take (sort_limit env) out))"
      "concat (map (the \<circ> rows_keys \<circ> snd) sent) = map fst (drop (sort_skip env) (take (sort_limit env) out))"
      "\<forall>s \<in> set sent. batch_sendable (fst s)"
    unfolding sort_result_def by blast
  have sent: "\<forall>s \<in> set sent. batch_of (map ((!) schema) projection) (fst s) \<and> 0 < rb_num_rows (fst s) \<and> rb_num_rows (fst s) \<le> bound
      \<and> keys_decoded p (fst s)"
    using out(5) by (simp add: batch_sendable_def flip: length_greater_0_conv)
  have "concat (map (?items \<circ> fst) input) = map item ?xs" by (induction input) simp_all
  with out(1) mset_map_preimage [of out item ?xs] obtain full where
    full: "mset full = mset ?xs" "out = map item full" by auto
  have mem: "\<exists>b. sort_input_ok schema exprs enc bound b \<and> x \<in> set (keyed_rows exprs b)" if "x \<in> set full" for x
    using mset_eq_setD [OF full(1)] that inp by fastforce
  have env: "sort_skip env = offset" "sort_limit env = ?n" by (simp_all add: init_sorter_def)
  have sub: "set (drop offset (take ?n full)) \<subseteq> set full" by (rule subset_trans [OF set_drop_subset set_take_subset])
  have "sorted_wrt (\<lambda>x y. enc (fst x) \<le> enc (fst y)) full"
    using out(2) unfolding full(2) by (simp add: sorted_wrt_map item_def comp_def)
  then have "sorted_wrt (\<lambda>x y. row_le (fst x) (fst y)) full"
    by (rule sorted_wrt_mono_rel [rotated]) (use mem keyed_row_ok(1) formatD(3) in blast)
  moreover have "map join_row (drop offset (take ?n out)) = map (\<lambda>x. map ((!) (snd x)) projection) (drop offset (take ?n full))"
    unfolding full(2) take_map drop_map map_map 
  proof (rule map_cong [OF refl])
    fix x assume "x \<in> set (drop offset (take ?n full))"
    then have "x \<in> set full" using sub by blast
    from mem [OF this] join_item show "(join_row \<circ> item) x = map ((!) (snd x)) projection" unfolding comp_def by blast
  qed
  moreover have "map fst (drop offset (take ?n out)) = map (enc \<circ> fst) (drop offset (take ?n full))"
    unfolding full(2) take_map drop_map map_map by (simp add: item_def)
  ultimately show ?thesis
    using run new full(1) out(3,4) sent unfolding env execute_projected_with_key_rows_def
    by (intro exI [of _ sent] exI [of _ full]) simp
qed

theorem sort_exec_sorted:
  assumes "\<forall>(b, sp) \<in> set input. sort_input_ok schema exprs enc bound b"
    and "sum_list (map (\<lambda>(b, sp). rb_num_rows b) input) < usize_max"
  shows "\<exists>sent full. execute_projected_with_key_rows ker ext rt new_converter schema exprs lim offset projection input = Some sent
    \<and> mset full = mset (concat (map (keyed_rows exprs \<circ> fst) input))
    \<and> sorted_wrt (\<lambda>x y. row_le (fst x) (fst y)) full
    \<and> concat (map (batch_rows \<circ> fst) sent)
        = map (\<lambda>x. map ((!) (snd x)) projection) (drop offset (take (case lim of Some l \<Rightarrow> l | None \<Rightarrow> usize_max) full))
    \<and> concat (map (the \<circ> rows_keys \<circ> snd) sent)
        = map (enc \<circ> fst) (drop offset (take (case lim of Some l \<Rightarrow> l | None \<Rightarrow> usize_max) full))"
  using sort_exec_sorted_batches [OF assms] by metis

end

section \<open>Parameters for concrete runs\<close>

text \<open>The row format of one nullable column of bytes, ascending with nulls first.\<close>

fun u8_encode :: "cell_value list \<Rightarrow> bytes" where
  "u8_encode [CPrim _ v] = [1, word_of_int v]"
| "u8_encode _ = [0]"

fun u8_row_le :: "cell_value list \<Rightarrow> cell_value list \<Rightarrow> bool" where
  "u8_row_le [CPrim _ v] [CPrim _ v'] = (v \<le> v')"
| "u8_row_le [CPrim _ v] _ = False"
| "u8_row_le _ _ = True"

definition u8_converter :: row_converter where
  "u8_converter = \<lparr>convert_columns = (\<lambda>cols. Some (map u8_encode (rows_of (case cols of [] \<Rightarrow> 0 | c # _ \<Rightarrow> array_len c) cols))),
     convert_rows = (\<lambda>ks. Some [PrimitiveArray UInt8 (Some (bit_buffer_of (map (\<lambda>k. k \<noteq> [0]) ks)))
       (map (\<lambda>k. case k of [_, v] \<Rightarrow> uint v | _ \<Rightarrow> 0) ks)])\<rparr>"

lemma u8_typed: "typed_row [UInt8] r \<Longrightarrow> r = [CNull] \<or> (\<exists>v. r = [CPrim UInt8 v] \<and> 0 \<le> v \<and> v < 256)"
proof -
  assume r: "typed_row [UInt8] r"
  then obtain c where c: "r = [c]" by (cases r) (auto simp: typed_row_def)
  with r obtain a i where a: "array_wf a" "data_type_of a = UInt8" "i < array_len a" "cell a i = c" by (auto simp: typed_row_def)
  then show ?thesis using c by (cases a) (auto simp: prim_in_range_def split: if_splits)
qed

lemma u8_format: "row_format_ok u8_converter [UInt8] u8_encode u8_row_le"
  unfolding row_format_ok_def
proof (intro conjI allI impI)
  fix cols n assume c: "map data_type_of cols = [UInt8] \<and> (\<forall>c \<in> set cols. array_wf c \<and> array_len c = n)"
  then show "convert_columns u8_converter cols = Some (map u8_encode (rows_of n cols))"
    by (cases cols) (auto simp: u8_converter_def)
next
  fix rs assume rs: "(\<forall>r \<in> set rs. typed_row [UInt8] r) \<and> rows_weight_ok (length [UInt8]) rs"
  let ?ks = "map u8_encode rs"
  let ?a = "PrimitiveArray UInt8 (Some (bit_buffer_of (map (\<lambda>k. k \<noteq> [0]) ?ks))) (map (\<lambda>k. case k of [_, v] \<Rightarrow> uint v | _ \<Rightarrow> 0) ?ks)"
  have "array_with UInt8 (map (\<lambda>r. r ! 0) rs) ?a"
  proof (rule array_withI)
    have "prim_in_range UInt8 (case k of [_, v] \<Rightarrow> uint v | _ \<Rightarrow> 0)" for k :: bytes
      using uint_lt2p [where 'a = 8] by (auto simp: prim_in_range_def split: list.splits)
    then show "array_wf ?a" using bit_buffer_of_ok(1,2) by (auto simp: nulls_wf_def)
    fix i assume i: "i < length (map (\<lambda>r. r ! 0) rs)"
    then have "rs ! i \<in> set rs" by simp
    with rs u8_typed consider "rs ! i = [CNull]" | v where "rs ! i = [CPrim UInt8 v]" "0 \<le> v" "v < 256" by blast
    then show "cell ?a i = map (\<lambda>r. r ! 0) rs ! i"
      using bit_buffer_of_ok(3) [of i "map (\<lambda>k. k \<noteq> [0]) ?ks"] i by cases (simp_all add: uint_word_of_int)
  qed simp_all
  then show "\<exists>cols. convert_rows u8_converter (map u8_encode rs) = Some cols \<and> length cols = length [UInt8]
      \<and> (\<forall>j < length [UInt8]. array_with ([UInt8] ! j) (map (\<lambda>r. r ! j) rs) (cols ! j))"
    by (simp add: u8_converter_def)
next
  fix r r' assume "typed_row [UInt8] r \<and> typed_row [UInt8] r'"
  moreover have "v = v'" if "word_of_int v = (word_of_int v' :: u8)" "0 \<le> v" "v < 256" "0 \<le> v'" "v' < 256" for v v'
    using arg_cong [OF that(1), of uint] that(2-5) by (simp add: uint_word_of_int)
  then have "(word_of_int v < (word_of_int v' :: u8) \<or> word_of_int v = (word_of_int v' :: u8)) = (v \<le> v')"
    if "0 \<le> v" "v < 256" "0 \<le> v'" "v' < 256" for v v'
    using that by (cases "v = v'") (auto simp: word_less_def uint_word_of_int)
  ultimately show "(u8_encode r \<le> u8_encode r') = u8_row_le r r'"
    using u8_typed [of r] u8_typed [of r'] by auto
qed

definition runtime_ref :: sort_runtime where
  "runtime_ref = \<lparr>rt_new_empty = (\<lambda>schema. \<lparr>rb_schema = schema, rb_columns = [], rb_num_rows = 0\<rparr>),
     rt_mem_size = (\<lambda>b. 100), rt_rows_size = (\<lambda>ks. length (concat ks)),
     rt_sort_unstable_rows = (\<lambda>ks. sort_key ((!) ks) [0..<length ks]),
     rt_sort_unstable_levels = (\<lambda>ls. sort_key ((!) ls) [0..<length ls]),
     rt_batch_size = 10, rt_output_mem = 1000, rt_kway_mem = 1000\<rparr>"

lemma runtime_ref_ok: "runtime_ok runtime_ref 20"
  by (simp add: runtime_ok_def runtime_ref_def)

section \<open>Properties\<close>

text \<open>
  C1: The sort operator with a limit other than 0 or without a limit, run to the end on a sequence
  of input batches whose values are light enough (\<open>light_row\<close>) for a batch of \<open>bound\<close> rows, with
  spills and merges of spills whenever memory asks for them, answers without an error.  Its
  output is the rows from the offset up to the limit of a permutation of the input rows that is
  sorted by the sort expressions: no row is lost, duplicated or changed by pruning the key
  columns, by gathering, by serialization to spills or by restoring the key columns from the
  encoded keys.
\<close>

theorem sort_exec_execute_sorted:
  assumes "kernels_ok ker (set schema)" and "externals_ok ext" and "runtime_ok rt bound"
    and "\<forall>t \<in> set schema. serde_type t"
    and "prune_try_new new_converter schema [0..<length schema] exprs = Some p"
    and "map (\<lambda>e. expr_data_type schema (se_expr e)) exprs = map Some types"
    and "row_format_ok (sort_row_converter p) types enc row_le" and "lim \<noteq> Some 0"
    and inp: "\<forall>(b, sp) \<in> set input. sort_input_ok schema exprs enc bound b"
    and "sum_list (map (\<lambda>(b, sp). rb_num_rows b) input) < usize_max"
  shows "\<exists>out full. sort_exec_execute ker ext rt new_converter schema exprs lim offset input = Some out
    \<and> mset full = mset (concat (map (keyed_rows exprs \<circ> fst) input))
    \<and> sorted_wrt (\<lambda>x y. row_le (fst x) (fst y)) full
    \<and> concat (map batch_rows out) = map snd (drop offset (take (case lim of Some l \<Rightarrow> l | None \<Rightarrow> usize_max) full))"
proof -
  have "sort_exec_setup ker ext rt new_converter schema exprs lim [0..<length schema] p types enc row_le bound"
    by unfold_locales (use assms in auto)
  from sort_exec_setup.sort_exec_sorted [OF this assms(9,10)] obtain sent full where
    s: "execute_projected_with_key_rows ker ext rt new_converter schema exprs lim offset [0..<length schema] input = Some sent"
      "mset full = mset (concat (map (keyed_rows exprs \<circ> fst) input))" "sorted_wrt (\<lambda>x y. row_le (fst x) (fst y)) full"
      "concat (map (batch_rows \<circ> fst) sent)
        = map (\<lambda>x. map ((!) (snd x)) [0..<length schema]) (drop offset (take (case lim of Some l \<Rightarrow> l | None \<Rightarrow> usize_max) full))"
    by blast
  let ?d = "drop offset (take (case lim of Some l \<Rightarrow> l | None \<Rightarrow> usize_max) full)"
  have "map ((!) (snd x)) [0..<length schema] = snd x" if "x \<in> set ?d" for x
  proof -
    have "x \<in> set full" using that by (meson in_set_dropD in_set_takeD)
    then obtain i where i: "i \<in> set input" "x \<in> set (keyed_rows exprs (fst i))" using mset_eq_setD [OF s(2)] by auto
    from i(1) inp have "batch_of schema (fst i)" by (auto simp: sort_input_ok_def)
    moreover have "snd x \<in> set (batch_rows (fst i))" by (rule keyed_rows_snd [OF i(2)])
    ultimately have "length (snd x) = length schema" by (metis batch_ofD(4) in_set_conv_nth length_batch_rows)
    then show ?thesis by (metis map_nth)
  qed
  then have "map (\<lambda>x. map ((!) (snd x)) [0..<length schema]) ?d = map snd ?d" by simp
  with s show ?thesis
    by (intro exI [of _ "map fst sent"] exI [of _ full]) (simp add: sort_exec_execute_def comp_def)
qed

definition sample_batch :: "int \<Rightarrow> u8 \<Rightarrow> record_batch" where
  "sample_batch v c = \<lparr>rb_schema = [UInt8, Utf8],
     rb_columns = [PrimitiveArray UInt8 None [v], ByteArray Utf8 None [0, 1] [c]], rb_num_rows = 1\<rparr>"

definition first_column :: sort_expr where
  "first_column = \<lparr>se_expr = Column 0, se_descending = False, se_nulls_first = True\<rparr>"

lemma sample_keyed: "keyed_rows [first_column] (sample_batch v c) = [([CPrim UInt8 v], [CPrim UInt8 v, CBytes [c]])]"
  by (simp add: keyed_rows_def first_column_def sample_batch_def rows_of_def batch_rows_def bit_valid_def bytes_value_def offset_at_def)

lemma sample_input: "0 \<le> v \<Longrightarrow> v < 256 \<Longrightarrow> c \<le> 0x7F \<Longrightarrow> sort_input_ok [UInt8, Utf8] [first_column] u8_encode 20 (sample_batch v c)"
  unfolding sort_input_ok_def sample_keyed
  by (simp add: sample_batch_def first_column_def batch_of_def nulls_wf_def prim_in_range_def offsets_wf_def bytes_value_def
      offset_at_def light_row_def)

theorem sort_exec_execute_sorted_witness:
  "\<exists>out. sort_exec_execute kernels_ref externals_ref runtime_ref (\<lambda>_. Some u8_converter) [UInt8, Utf8] [first_column] None 0
       [(sample_batch 5 97, True), (sample_batch 2 98, False)] = Some out
     \<and> concat (map batch_rows out) = [[CPrim UInt8 2, CBytes [98]], [CPrim UInt8 5, CBytes [97]]]"
proof -
  let ?schema = "[UInt8, Utf8]" and ?conv = "\<lambda>_. Some u8_converter" and ?input = "[(sample_batch 5 97, True), (sample_batch 2 98, False)]"
  let ?p = "\<lparr>input_projection = [0, 1], sort_row_converter = u8_converter, key_exprs = [first_column], key_cols = {0},
    restored_col_mappers = [FromKey 0, FromPrunedBatch 0], restored_schema = ?schema, pruned_schema = [Utf8]\<rparr>"
  have p: "prune_try_new ?conv ?schema [0..<length ?schema] [first_column] = Some ?p"
    by (simp add: prune_try_new_def first_column_def key_relation_def Let_def)
  have ker: "kernels_ok kernels_ref (set ?schema)"
    by (rule kernels_ok_mono [OF kernels_ref_ok]) (simp add: gather_type_def)
  have "map (\<lambda>e. expr_data_type ?schema (se_expr e)) [first_column] = map Some [UInt8]" by (simp add: first_column_def)
  from sort_exec_execute_sorted [OF ker externals_ref_ok runtime_ref_ok _ p this, of u8_encode u8_row_le None ?input 0]
  obtain out full where run: "sort_exec_execute kernels_ref externals_ref runtime_ref ?conv ?schema [first_column] None 0 ?input = Some out"
    and full: "mset full = mset (concat (map (keyed_rows [first_column] \<circ> fst) ?input))" "sorted_wrt (\<lambda>x y. u8_row_le (fst x) (fst y)) full"
      "concat (map batch_rows out) = map snd (take usize_max full)"
    using u8_format sample_input by (auto simp: serde_prim_def sample_batch_def usize_max_def)
  let ?x = "([CPrim UInt8 5], [CPrim UInt8 5, CBytes [97]])" and ?y = "([CPrim UInt8 2], [CPrim UInt8 2, CBytes [98]])"
  have "mset full = {#?x, ?y#}" using full(1) by (simp add: sample_keyed)
  then have "full = [?x, ?y] \<or> full = [?y, ?x]"
    by (cases full; cases "tl full") (auto simp: add_eq_conv_ex add_mset_eq_single)
  with full(2) have "full = [?y, ?x]" by auto
  with run full(3) show ?thesis by (simp add: usize_max_def)
qed

text \<open>
  C15: The variant with a projection and the encoded keys, which the sort-merge join calls: when
  every sort key column that lies inside the projection is projected to its own position and the
  limit is not 0, the output is the projected rows in key order, and the key rows sent with every
  batch are the encodings of exactly those rows.
\<close>

theorem sort_exec_projected_sorted:
  assumes "kernels_ok ker (set schema)" and "externals_ok ext" and "runtime_ok rt bound"
    and "\<forall>t \<in> set schema. serde_type t"
    and "prune_try_new new_converter schema projection exprs = Some p"
    and "map (\<lambda>e. expr_data_type schema (se_expr e)) exprs = map Some types"
    and "row_format_ok (sort_row_converter p) types enc row_le" and "lim \<noteq> Some 0"
    and "\<forall>(i, c) \<in> set (key_relation exprs). c < length projection \<longrightarrow> projection ! c = c"
    and inp: "\<forall>(b, sp) \<in> set input. sort_input_ok schema exprs enc bound b"
    and "sum_list (map (\<lambda>(b, sp). rb_num_rows b) input) < usize_max"
  shows "\<exists>sent full. execute_projected_with_key_rows ker ext rt new_converter schema exprs lim offset projection input = Some sent
    \<and> mset full = mset (concat (map (keyed_rows exprs \<circ> fst) input))
    \<and> sorted_wrt (\<lambda>x y. row_le (fst x) (fst y)) full
    \<and> concat (map (batch_rows \<circ> fst) sent)
        = map (\<lambda>x. map ((!) (snd x)) projection) (drop offset (take (case lim of Some l \<Rightarrow> l | None \<Rightarrow> usize_max) full))
    \<and> concat (map (the \<circ> rows_keys \<circ> snd) sent)
        = map (enc \<circ> fst) (drop offset (take (case lim of Some l \<Rightarrow> l | None \<Rightarrow> usize_max) full))"
proof -
  have "sort_exec_setup ker ext rt new_converter schema exprs lim projection p types enc row_le bound"
    by unfold_locales (fact assms)+
  then show ?thesis using assms(10,11) by (rule sort_exec_setup.sort_exec_sorted)
qed

text \<open>All columns that are left are sort keys: the sorter keeps no batch columns at all.\<close>

definition keys_only :: prune_sort_keys where
  "keys_only = \<lparr>input_projection = [0], sort_row_converter = u8_converter, key_exprs = [first_column], key_cols = {0},
     restored_col_mappers = [FromKey 0], restored_schema = [UInt8], pruned_schema = []\<rparr>"

lemma keys_only_new: "prune_try_new (\<lambda>_. Some u8_converter) [UInt8, Utf8] [0] [first_column] = Some keys_only"
  by (simp add: prune_try_new_def first_column_def key_relation_def Let_def keys_only_def)

interpretation keys_only: sort_exec_setup kernels_ref externals_ref runtime_ref "\<lambda>_. Some u8_converter" "[UInt8, Utf8]"
  "[first_column]" "Some 1" 1 "[0]" keys_only "[UInt8]" u8_encode u8_row_le 20
proof unfold_locales
  show "kernels_ok kernels_ref (set [UInt8, Utf8])"
    by (rule kernels_ok_mono [OF kernels_ref_ok]) (simp add: gather_type_def)
  show "row_format_ok (sort_row_converter keys_only) [UInt8] u8_encode u8_row_le" using u8_format by (simp add: keys_only_def)
  show "prune_try_new (\<lambda>_. Some u8_converter) [UInt8, Utf8] [0] [first_column] = Some keys_only" by (rule keys_only_new)
qed (simp_all add: externals_ref_ok runtime_ref_ok serde_prim_def first_column_def key_relation_def)

theorem sort_exec_projected_sorted_witness:
  "\<exists>sent. execute_projected_with_key_rows kernels_ref externals_ref runtime_ref (\<lambda>_. Some u8_converter) [UInt8, Utf8] [first_column]
       (Some 2) 1 [0] [(sample_batch 5 97, True), (sample_batch 2 98, False)] = Some sent
     \<and> concat (map (batch_rows \<circ> fst) sent) = [[CPrim UInt8 5]] \<and> concat (map (the \<circ> rows_keys \<circ> snd) sent) = [[1, 5]]"
proof -
  let ?input = "[(sample_batch 5 97, True), (sample_batch 2 98, False)]"
  from sort_exec_projected_sorted [OF keys_only.kernels keys_only.externals keys_only.runtime keys_only.serde_types keys_only_new
      keys_only.types keys_only.row_format _ keys_only.projected_keys, of "Some 2" ?input 1]
  obtain sent full where run: "execute_projected_with_key_rows kernels_ref externals_ref runtime_ref (\<lambda>_. Some u8_converter)
      [UInt8, Utf8] [first_column] (Some 2) 1 [0] ?input = Some sent"
    and full: "mset full = mset (concat (map (keyed_rows [first_column] \<circ> fst) ?input))" "sorted_wrt (\<lambda>x y. u8_row_le (fst x) (fst y)) full"
      "concat (map (batch_rows \<circ> fst) sent) = map (\<lambda>x. map ((!) (snd x)) [0]) (drop 1 (take 2 full))"
      "concat (map (the \<circ> rows_keys \<circ> snd) sent) = map (u8_encode \<circ> fst) (drop 1 (take 2 full))"
    using sample_input by (auto simp: sample_batch_def usize_max_def)
  let ?x = "([CPrim UInt8 5], [CPrim UInt8 5, CBytes [97]])" and ?y = "([CPrim UInt8 2], [CPrim UInt8 2, CBytes [98]])"
  have "mset full = {#?x, ?y#}" using full(1) by (simp add: sample_keyed)
  then have "full = [?x, ?y] \<or> full = [?y, ?x]"
    by (cases full; cases "tl full") (auto simp: add_eq_conv_ex add_mset_eq_single)
  with full(2) have "full = [?y, ?x]" by auto
  with run full(3,4) show ?thesis by simp
qed

text \<open>
  C36: The columns to prune are numbered as in the input, but compared with positions in the
  projection.  Whatever the projection is, if column \<open>c\<close> of the input is a sort key and the projection
  has more than \<open>c\<close> columns, then column \<open>c\<close> of every output batch is the sort key, decoded from the
  keys, and not the projected column \<open>projection ! c\<close>; a column that is no sort key is lost.
\<close>

theorem projected_sort_shows_wrong_column:
  assumes "prune_try_new new_converter schema projection exprs = Some p" and "i < length exprs" and "se_expr (exprs ! i) = Column c"
    and "c < length projection" and "restore_from_existed_key_rows ker p pruned kr = Some b"
    and "\<And>s cols n b'. try_new_with_options ker s cols n = Some b' \<Longrightarrow> rb_columns b' = cols"
  shows "\<exists>keys cols j. rows_keys kr = Some keys \<and> convert_rows (sort_row_converter p) keys = Some cols
    \<and> j < length exprs \<and> se_expr (exprs ! j) = Column c \<and> j < length cols \<and> rb_columns b ! c = cols ! j"
proof -
  from assms(1) obtain sch where "those (map (vget schema) projection) = Some sch"
    and mappers: "restored_col_mappers p = col_mappers (key_relation exprs) [0..<length sch] 0"
    by (auto simp: prune_try_new_def Let_def split: Option.bind_splits)
  then have "map (vget schema) projection = map Some sch" by (simp add: those_Some_iff)
  then have "length sch = length projection" by (metis length_map)
  with mappers have m: "restored_col_mappers p = map (mapper_of (key_relation exprs)) [0..<length projection]"
    using col_mappers_closed [of 0 "length projection" 0 "key_relation exprs"] by simp
  have "(i, c) \<in> set (key_relation exprs)" using assms(2,3) by (simp add: key_relation_iff)
  then have "find (\<lambda>kv. snd kv = c) (key_relation exprs) \<noteq> None" by (simp add: find_None_iff) (metis snd_conv)
  then obtain kv where kv: "find (\<lambda>kv. snd kv = c) (key_relation exprs) = Some kv" by blast
  then have at: "restored_col_mappers p ! c = FromKey (fst kv)" using m assms(4) by (simp add: mapper_of_def)
  let ?f = "\<lambda>m. case m of FromPrunedBatch idx \<Rightarrow> vget (rb_columns pruned) idx
    | FromKey idx \<Rightarrow> do { keys \<leftarrow> rows_keys kr; cols \<leftarrow> convert_rows (sort_row_converter p) keys; vget cols idx }"
  from assms(5) obtain fields where
    f: "those (map ?f (restored_col_mappers p)) = Some fields" "try_new_with_options ker (restored_schema p) fields (rb_num_rows pruned) = Some b"
    unfolding restore_from_existed_key_rows_def by (auto split: Option.bind_splits)
  from f(1) have "map ?f (restored_col_mappers p) = map Some fields" by (simp only: those_Some_iff)
  moreover from this have "length fields = length projection" using m by (metis length_map length_upt minus_nat.diff_0)
  moreover have "c < length (restored_col_mappers p)" using m assms(4) by simp
  ultimately have "?f (FromKey (fst kv)) = Some (fields ! c)" using at assms(4) by (metis nth_map)
  then obtain keys cols where
    k: "rows_keys kr = Some keys" "convert_rows (sort_row_converter p) keys = Some cols" "vget cols (fst kv) = Some (fields ! c)"
    by (auto split: Option.bind_splits)
  then have "fst kv < length cols" "rb_columns b ! c = cols ! fst kv" using assms(6) [OF f(2)] by (auto simp: vget_Some_iff)
  with k mapper_of_key [OF kv] show ?thesis by blast
qed

text \<open>The projection of two columns to the second, sorted by the first: the output shows the first.\<close>

theorem projected_sort_shows_wrong_column_witness:
  "\<exists>p keys pruned b. prune_try_new (\<lambda>_. Some u8_converter) [UInt8, UInt8] [1] [first_column] = Some p
     \<and> prune_batch kernels_ref p \<lparr>rb_schema = [UInt8, UInt8],
         rb_columns = [PrimitiveArray UInt8 None [5], PrimitiveArray UInt8 None [7]], rb_num_rows = 1\<rparr> = Some (keys, pruned)
     \<and> restore_from_existed_key_rows kernels_ref p pruned (collect_keys mem_collector keys) = Some b
     \<and> (\<exists>cols. convert_rows u8_converter [[1, 5]] = Some cols \<and> rb_columns b ! 0 = cols ! 0)"
proof -
  let ?b = "\<lparr>rb_schema = [UInt8, UInt8], rb_columns = [PrimitiveArray UInt8 None [5], PrimitiveArray UInt8 None [7]], rb_num_rows = 1\<rparr>"
  let ?pruned = "\<lparr>rb_schema = [], rb_columns = [], rb_num_rows = 1\<rparr>" and ?kr = "collect_keys mem_collector [[1, 5]]"
  have new: "prune_try_new (\<lambda>_. Some u8_converter) [UInt8, UInt8] [1] [first_column] = Some (keys_only\<lparr>input_projection := [1]\<rparr>)"
    by (simp add: prune_try_new_def first_column_def key_relation_def Let_def keys_only_def)
  have prune: "prune_batch kernels_ref (keys_only\<lparr>input_projection := [1]\<rparr>) ?b = Some ([[1, 5]], ?pruned)"
    by (simp add: prune_batch_def keys_only_def first_column_def u8_converter_def rows_of_def bit_valid_def
        kernels_ref_def null_kernels_def)
  have conv: "sort_row_converter (keys_only\<lparr>input_projection := [1]\<rparr>) = u8_converter" by (simp add: keys_only_def)
  have keys: "rows_keys ?kr = Some [[1, 5]]" by code_simp
  have "array_len (PrimitiveArray UInt8 nb [v]) = 1" "data_type_of (PrimitiveArray UInt8 nb vs) = UInt8" for nb v vs by simp_all
  then obtain b where restore: "restore_from_existed_key_rows kernels_ref (keys_only\<lparr>input_projection := [1]\<rparr>) ?pruned ?kr = Some b"
    using keys by (simp add: restore_from_existed_key_rows_def keys_only_def u8_converter_def kernels_ref_def null_kernels_def)
  have try_new: "rb_columns b' = cols" if "try_new_with_options kernels_ref s cols n = Some b'" for s cols n b'
    using that by (auto simp: kernels_ref_def null_kernels_def split: if_splits)
  have first: "0 < length [first_column]" "se_expr ([first_column] ! 0) = Column 0" "0 < length [1::nat]" by (simp_all add: first_column_def)
  have "\<exists>ks cols j. rows_keys ?kr = Some ks \<and> convert_rows u8_converter ks = Some cols \<and> j < length [first_column]
    \<and> se_expr ([first_column] ! j) = Column 0 \<and> j < length cols \<and> rb_columns b ! 0 = cols ! j"
    using projected_sort_shows_wrong_column [OF new first restore] try_new unfolding conv by blast
  then obtain cols where "convert_rows u8_converter [[1, 5]] = Some cols" "rb_columns b ! 0 = cols ! 0" using keys by auto
  with keys new prune restore show ?thesis by blast
qed

lemma sort_batch_limit_zero:
  assumes "sort_limit env = 0" and "sort_batch env b = Some blk"
  shows "\<exists>sb. blk = InMemBlock \<lparr>sorted_keys = [mem_default, mem_freeze mem_default], sorted_batches = [sb], mem_row_idx = 0\<rparr>"
  using assms
  by (auto simp: sort_batch_def sorted_indices_def mem_add_batch_and_keys_def default_builder_def mem_finish_def
      split: Option.bind_splits if_splits)

lemma empty_block_cursor:
  "try_from_block bops i (InMemBlock \<lparr>sorted_keys = [mem_default, mem_freeze mem_default], sorted_batches = [sb], mem_row_idx = 0\<rparr>)
   = Some \<lparr>cursor_id = i, cursor_input = InMemBlock \<lparr>sorted_keys = [mem_freeze mem_default], sorted_batches = [], mem_row_idx = 0\<rparr>,
       cur_batches = [sb], cur_batches_changed = True, cur_key_row_idx = 1, cur_batch_idx = 0, cur_row_idx = 0, cursor_finished = False\<rparr>"
  by (simp add: try_from_block_def cursor_next_key_def last_batch_rows_def cursor_load_next_batch_def cursor_read_key_def)

text \<open>The comparison of a cursor reads the offset after that of its current key; here there is none.\<close>

definition reads_past_offsets :: "'b block_cursor \<Rightarrow> bool" where
  "reads_past_offsets c = (\<exists>blk kr. cursor_input c = InMemBlock blk \<and> vget (sorted_keys blk) 0 = Some kr
     \<and> length (kr_offsets kr) \<le> unat (mem_row_idx blk) + 1)"

definition empty_block :: "'b \<Rightarrow> 'b sorted_block" where
  "empty_block sb = InMemBlock \<lparr>sorted_keys = [mem_default, mem_freeze mem_default], sorted_batches = [sb], mem_row_idx = 0\<rparr>"

lemma insert_limit_zero:
  assumes "sort_limit env = 0" and "\<forall>b \<in> set bs. input_rows env b \<noteq> 0 \<and> sort_batch env b \<noteq> None"
  shows "\<exists>s' sbs. insert_batches env (map (\<lambda>b. (b, False)) bs) s = Some s' \<and> spills s' = spills s \<and> length sbs = length bs
    \<and> in_mem_blocks s' = in_mem_blocks s @ map empty_block sbs"
  using assms(2)
proof (induction bs arbitrary: s)
  case (Cons b bs)
  then obtain blk where "sort_batch env b = Some blk" by auto
  moreover from sort_batch_limit_zero [OF assms(1) this] obtain sb where "blk = empty_block sb" by (auto simp: empty_block_def)
  moreover let ?s = "s\<lparr>num_total_rows := num_total_rows s + input_rows env b, mem_total_size := mem_total_size s + input_mem_size env b,
    in_mem_blocks := in_mem_blocks s @ [empty_block sb]\<rparr>"
  obtain s' sbs where "insert_batches env (map (\<lambda>b. (b, False)) bs) ?s = Some s'" "spills s' = spills s" "length sbs = length bs"
    "in_mem_blocks s' = in_mem_blocks ?s @ map empty_block sbs" using Cons.IH [of ?s] Cons.prems by auto
  ultimately show ?case using Cons.prems by (intro exI [of _ s'] exI [of _ "sb # sbs"]) (simp add: insert_batch_def Let_def)
qed simp

lemma empty_blocks_cursors:
  "those (map2 (try_from_block ops) [k..<k + length sbs] (map empty_block sbs))
     = Some (map2 (\<lambda>i sb. \<lparr>cursor_id = i, cursor_input = InMemBlock \<lparr>sorted_keys = [mem_freeze mem_default], sorted_batches = [], mem_row_idx = 0\<rparr>,
         cur_batches = [sb], cur_batches_changed = True, cur_key_row_idx = 1, cur_batch_idx = 0, cur_row_idx = 0, cursor_finished = False\<rparr>)
         [k..<k + length sbs] sbs)"
proof -
  have "map2 (try_from_block ops) xs (map empty_block sbs) = map Some (map2 (\<lambda>i sb. \<lparr>cursor_id = i,
      cursor_input = InMemBlock \<lparr>sorted_keys = [mem_freeze mem_default], sorted_batches = [], mem_row_idx = 0\<rparr>,
      cur_batches = [sb], cur_batches_changed = True, cur_key_row_idx = 1, cur_batch_idx = 0, cur_row_idx = 0, cursor_finished = False\<rparr>) xs sbs)" for xs
    by (rule nth_equalityI) (simp_all add: empty_block_def empty_block_cursor)
  then show ?thesis by (simp only: those_Some_iff)
qed

text \<open>
  C38: A limit of 0 is not safe.  With two or more batches in memory, whatever their rows are, every
  block is inserted without a key; the merger makes a cursor over every block that is not finished
  and stands on a key that does not exist, so that the comparisons of the loser tree read an offset
  past the end of the offsets, unchecked, before the first row of the output.
\<close>

theorem sort_limit_zero_out_of_bounds:
  assumes "sort_limit env = 0" and "2 \<le> length bs" and "\<forall>b \<in> set bs. input_rows env b \<noteq> 0 \<and> sort_batch env b \<noteq> None"
  shows "\<exists>s cs. insert_batches env (map (\<lambda>b. (b, False)) bs) new_sorter = Some s \<and> spills s = []
    \<and> those (map2 (try_from_block (batch_ops env)) [0..<length bs] (in_mem_blocks s)) = Some cs
    \<and> length cs = length bs \<and> (\<forall>c \<in> set cs. \<not> cursor_finished c \<and> reads_past_offsets c)
    \<and> execute_sort env (map (\<lambda>b. (b, False)) bs) = None"
proof -
  from insert_limit_zero [OF assms(1,3), of new_sorter] obtain s sbs where
    s: "insert_batches env (map (\<lambda>b. (b, False)) bs) new_sorter = Some s" "spills s = []" "length sbs = length bs"
      "in_mem_blocks s = map empty_block sbs" by (auto simp: new_sorter_def)
  define cs where "cs = map2 (\<lambda>i sb. \<lparr>cursor_id = i, cursor_input = InMemBlock \<lparr>sorted_keys = [mem_freeze mem_default], sorted_batches = [], mem_row_idx = 0\<rparr>,
    cur_batches = [sb], cur_batches_changed = True, cur_key_row_idx = 1, cur_batch_idx = 0, cur_row_idx = 0, cursor_finished = False\<rparr>) [0..<length sbs] sbs"
  have cursors: "those (map2 (try_from_block (batch_ops env)) [0..<length bs] (in_mem_blocks s)) = Some cs"
    using empty_blocks_cursors [of "batch_ops env" 0 sbs] by (simp add: cs_def s(3,4))
  have len: "length cs = length bs" using s(3) by (simp add: cs_def)
  have past: "\<not> cursor_finished c \<and> reads_past_offsets c \<and> block_cur_key (cursor_input c) = None" if "c \<in> set cs" for c
    using that by (auto simp: cs_def reads_past_offsets_def mem_freeze_def mem_default_def mem_key_def vget_def)
  moreover have "cs \<noteq> []" using len assms(2) by auto
  ultimately have "\<not> comparable cs" using len assms(2) by (cases cs) (auto simp: comparable_def)
  then have "merger_try_new (batch_ops env) (in_mem_blocks s) = None"
    using cursors s(3,4) by (simp add: merger_try_new_def Let_def)
  moreover have "in_mem_blocks s \<noteq> []" using s(3,4) assms(2) by auto
  ultimately have "execute_sort env (map (\<lambda>b. (b, False)) bs) = None"
    using s(1,2) by (simp add: execute_sort_def sorter_output_def output_blocks_def Let_def)
  with s(1,2) cursors len past show ?thesis by blast
qed

theorem sort_limit_zero_out_of_bounds_witness:
  "\<exists>s cs. insert_batches (init_sorter kernels_ref externals_ref runtime_ref (Some 0) 0 keys_only)
        [(sample_batch 5 97, False), (sample_batch 2 98, False)] new_sorter = Some s
     \<and> those (map2 (try_from_block (batch_ops (init_sorter kernels_ref externals_ref runtime_ref (Some 0) 0 keys_only))) [0, 1] (in_mem_blocks s)) = Some cs
     \<and> length cs = 2 \<and> (\<forall>c \<in> set cs. \<not> cursor_finished c \<and> reads_past_offsets c)"
proof -
  let ?env = "init_sorter kernels_ref externals_ref runtime_ref (Some 0) 0 keys_only" and ?bs = "[sample_batch 5 97, sample_batch 2 98]"
  have "prune_batch kernels_ref keys_only (sample_batch v c) = Some ([[1, word_of_int v]], \<lparr>rb_schema = [], rb_columns = [], rb_num_rows = 1\<rparr>)" for v c
    by (simp add: prune_batch_def keys_only_def first_column_def sample_batch_def u8_converter_def rows_of_def bit_valid_def
        kernels_ref_def null_kernels_def)
  then have "sort_batch ?env (sample_batch v c) \<noteq> None" for v c
    by (simp add: sort_batch_def init_sorter_def sorted_indices_def prune_is_all_pruned_def mem_add_batch_and_keys_def)
      (simp add: keys_only_def)
  moreover have limit: "sort_limit ?env = 0" and "input_rows ?env (sample_batch v c) \<noteq> 0" for v c
    by (simp_all add: init_sorter_def sample_batch_def)
  ultimately have bs: "\<forall>b \<in> set ?bs. input_rows ?env b \<noteq> 0 \<and> sort_batch ?env b \<noteq> None" by simp
  have two: "2 \<le> length ?bs" "map (\<lambda>b. (b, False)) ?bs = [(sample_batch 5 97, False), (sample_batch 2 98, False)]"
    "length ?bs = 2" "[0..<2] = [0, 1]" by (simp_all add: upt_rec)
  from sort_limit_zero_out_of_bounds [OF limit two(1) bs] show ?thesis unfolding two(2,3) unfolding two(4) by blast
qed

text \<open>The number of spills on a level.\<close>

abbreviation level_size :: "'b level_spill list \<Rightarrow> nat \<Rightarrow> nat" where
  "level_size ss lv \<equiv> length (filter (\<lambda>x. ls_level x = lv) ss)"

lemma merge_levels_bounded:
  assumes "merge_levels mrg level levels out = Some out'" and "\<forall>x \<in> set out. ls_level x < level"
    and "\<forall>lv. level_size out lv < NUM_MAX_MERGING_BATCHES"
  shows "level_size out' lv < NUM_MAX_MERGING_BATCHES"
  using assms
proof (induction mrg level levels out rule: merge_levels.induct)
  case (1 mrg level out)
  then show ?case by simp
next
  case (2 mrg level l out)
  then show ?case using level_counts [OF 2(2,3), of l] by (auto split: if_splits)
next
  case (3 mrg level l l' ls out)
  show ?case
  proof (cases "length l \<ge> NUM_MAX_MERGING_BATCHES")
    case True
    with 3(3) obtain merged where m: "mrg l = Some merged" "merge_levels mrg (level + 1) ((l' @ [merged]) # ls) out = Some out'"
      by (auto split: Option.bind_splits)
    show ?thesis by (rule 3(1) [OF True m]) (use 3(4,5) in auto)
  next
    case False
    then have l: "length l < NUM_MAX_MERGING_BATCHES" by simp
    show ?thesis
      by (rule 3(2) [OF False]) (use 3(3,4) False level_counts [OF 3(4,5) l] in auto)
  qed
qed

lemma insert_batches_bounded:
  assumes "insert_batches env input s = Some s'" and "\<forall>lv. level_size (spills s) lv < NUM_MAX_MERGING_BATCHES"
  shows "level_size (spills s') lv < NUM_MAX_MERGING_BATCHES"
  using assms
proof (induction input arbitrary: s)
  case (Cons i input)
  obtain b sp where i: "i = (b, sp)" by (cases i)
  with Cons.prems(1) obtain s1 where s1: "insert_batch env b sp s = Some s1" "insert_batches env input s1 = Some s'"
    by (auto split: Option.bind_splits)
  have "spills s1 = spills s \<or> (\<exists>mrg levels. merge_levels mrg 0 levels [] = Some (spills s1))"
    using s1(1) by (auto simp: insert_batch_def spill_def Let_def split: Option.bind_splits if_splits)
  then have "\<forall>lv. level_size (spills s1) lv < NUM_MAX_MERGING_BATCHES"
    using Cons.prems(2) merge_levels_bounded [where out = "[]"] by (auto simp: NUM_MAX_MERGING_BATCHES_def)
  from Cons.IH [OF s1(2) this] show ?case .
qed simp

text \<open>
  C20: However many batches are inserted and spilled, no level ever keeps 32 spills: a full level
  is merged into one spill of the next level.
\<close>

theorem spill_levels_bounded:
  assumes "insert_batches env input new_sorter = Some s"
  shows "level_size (spills s) lv < 32"
  using insert_batches_bounded [OF assms] by (simp add: new_sorter_def NUM_MAX_MERGING_BATCHES_def)

theorem spill_levels_bounded_witness:
  "\<exists>s. insert_batches (init_sorter kernels_ref externals_ref runtime_ref (Some 1) 1 keys_only) [(sample_batch 5 97, True)] new_sorter = Some s
     \<and> level_size (spills s) 0 < 32"
proof -
  let ?env = "init_sorter kernels_ref externals_ref runtime_ref (Some 1) 1 keys_only" and ?input = "[(sample_batch 5 97, True)]"
  have "\<forall>(b, sp) \<in> set ?input. sort_input_ok [UInt8, Utf8] [first_column] u8_encode 20 b"
    using sample_input by simp
  moreover have "sum_list (map (\<lambda>(b, sp). rb_num_rows b) ?input) < usize_max" by (simp add: sample_batch_def usize_max_def)
  ultimately obtain sent where "execute_sort ?env ?input = Some sent"
    using keys_only.sort_exec_sorted [of ?input] keys_only_new by (auto simp: execute_projected_with_key_rows_def)
  then obtain s where "insert_batches ?env ?input new_sorter = Some s" by (auto simp: execute_sort_def split: Option.bind_splits)
  with spill_levels_bounded [OF this, of 0] show ?thesis by blast
qed

end
