(* ===== verification/Eq_Comparator.thy ===== *)
theory Eq_Comparator
  imports Spark_Hash
begin

text \<open>
  Equality of key rows (\<open>datafusion-ext-commons/src/arrow/eq_comparator.rs\<close>): a comparator is
  made once for two lists of key columns and then asked for pairs of rows.  A single column of a
  common type has a comparator of its own; otherwise one is made for every column.

  Making a comparator fails (\<open>None\<close>) when the columns cannot be compared; asking it answers
  \<open>None\<close> outside the columns.  Floating point values are bit patterns, compared as the language
  compares them: a NaN is not equal to itself and the zeros are equal.
\<close>

section \<open>Model\<close>

type_synonym eq_fn = "nat \<Rightarrow> nat \<Rightarrow> bool option"

subsection \<open>Values\<close>

text \<open>A NaN has all exponent bits and some bit of the mantissa (of \<open>m\<close> bits) set.\<close>

definition float_nan :: "nat \<Rightarrow> nat \<Rightarrow> int \<Rightarrow> bool" where
  "float_nan w m v = (v mod 2 ^ (w - 1) > 2 ^ (w - 1) - 2 ^ m)"

definition float_eq :: "nat \<Rightarrow> nat \<Rightarrow> int \<Rightarrow> int \<Rightarrow> bool" where
  "float_eq w m a b =
     (\<not> float_nan w m a \<and> \<not> float_nan w m b \<and> (a = b \<or> (a mod 2 ^ (w - 1) = 0 \<and> b mod 2 ^ (w - 1) = 0)))"

fun native_eq :: "data_type \<Rightarrow> int \<Rightarrow> int \<Rightarrow> bool" where
  "native_eq Float16 a b = float_eq 16 10 a b"
| "native_eq Float32 a b = float_eq 32 23 a b"
| "native_eq Float64 a b = float_eq 64 52 a b"
| "native_eq _ a b = (a = b)"

fun bit_value :: "bit_buffer \<Rightarrow> nat \<Rightarrow> bool option" where
  "bit_value (bs, off, len) i = (if i < len then Some (get_bit_raw bs (off + i)) else None)"

definition byte_slice :: "int list \<Rightarrow> bytes \<Rightarrow> nat \<Rightarrow> bytes option" where
  "byte_slice offs data i = (if i + 1 < length offs then Some (bytes_value offs data i) else None)"

subsection \<open>Comparators\<close>

text \<open>\<open>logical_nulls\<close>: a dictionary row is null also if its value is.\<close>

fun logical_valid :: "array \<Rightarrow> nat \<Rightarrow> bool" where
  "logical_valid (NullArray n) i = False"
| "logical_valid (DictionaryArray kt keys vals) i =
     (bit_valid (nulls_of keys) i \<and>
      (case keys of PrimitiveArray _ _ ks \<Rightarrow> logical_valid vals (nat (ks ! i)) | _ \<Rightarrow> True))"
| "logical_valid a i = bit_valid (nulls_of a) i"

definition eq_impl :: "array \<Rightarrow> array \<Rightarrow> bool \<Rightarrow> eq_fn \<Rightarrow> eq_fn" where
  "eq_impl l r ignores_null eq =
     (if ignores_null then eq
      else (\<lambda>i j. if \<not> logical_valid l i \<or> \<not> logical_valid r j then Some False else eq i j))"

definition eq_values :: "('a \<Rightarrow> 'a \<Rightarrow> bool) \<Rightarrow> (nat \<Rightarrow> 'a option) \<Rightarrow> (nat \<Rightarrow> 'a option) \<Rightarrow> eq_fn" where
  "eq_values eq lval rval = (\<lambda>i j. do { a \<leftarrow> lval i; b \<leftarrow> rval j; Some (eq a b) })"

fun all_eq :: "(nat \<times> nat) list \<Rightarrow> eq_fn \<Rightarrow> bool option" where
  "all_eq [] eq = Some True"
| "all_eq ((i, j) # ps) eq = do { b \<leftarrow> eq i j; if b then all_eq ps eq else Some False }"

definition eq_list :: "int list \<Rightarrow> int list \<Rightarrow> eq_fn \<Rightarrow> eq_fn" where
  "eq_list l_o r_o eq = (\<lambda>i j.
     do { l_end \<leftarrow> vget l_o (i + 1); l_start \<leftarrow> vget l_o i;
          r_end \<leftarrow> vget r_o (j + 1); r_start \<leftarrow> vget r_o j;
          b \<leftarrow> all_eq (zip [nat l_start..<nat l_end] [nat r_start..<nat r_end]) eq;
          Some (b \<and> nat l_end - nat l_start = nat r_end - nat r_start) })"

fun eq_columns :: "eq_fn list \<Rightarrow> eq_fn" where
  "eq_columns [] i j = Some True"
| "eq_columns (eq # eqs) i j = do { b \<leftarrow> eq i j; if b then eq_columns eqs i j else Some False }"

text \<open>The types of one native class, e.g. timestamps of one unit whatever their zones.\<close>

fun same_class :: "data_type \<Rightarrow> data_type \<Rightarrow> bool" where
  "same_class (Timestamp u z) dt = (case dt of Timestamp u' _ \<Rightarrow> u = u' | _ \<Rightarrow> False)"
| "same_class (Decimal128 p s) dt = (case dt of Decimal128 _ _ \<Rightarrow> True | _ \<Rightarrow> False)"
| "same_class (Decimal256 p s) dt = (case dt of Decimal256 _ _ \<Rightarrow> True | _ \<Rightarrow> False)"
| "same_class a dt = (a = dt)"

fun make_eq_comparator :: "array \<Rightarrow> array \<Rightarrow> bool \<Rightarrow> eq_fn option" where
  "make_eq_comparator (PrimitiveArray dt nb vs) r ign =
     (case r of
        PrimitiveArray dt' nb' vs' \<Rightarrow>
          if same_class dt dt'
          then Some (eq_impl (PrimitiveArray dt nb vs) r ign (eq_values (native_eq dt) (vget vs) (vget vs')))
          else None
      | _ \<Rightarrow> None)"
| "make_eq_comparator (BooleanArray nb vals) r ign =
     (case r of
        BooleanArray nb' vals' \<Rightarrow>
          Some (eq_impl (BooleanArray nb vals) r ign (eq_values (=) (bit_value vals) (bit_value vals')))
      | _ \<Rightarrow> None)"
| "make_eq_comparator (ByteArray dt nb offs data) r ign =
     (case r of
        ByteArray dt' nb' offs' data' \<Rightarrow>
          if dt = dt'
          then Some (eq_impl (ByteArray dt nb offs data) r ign
                       (eq_values (=) (byte_slice offs data) (byte_slice offs' data')))
          else None
      | _ \<Rightarrow> None)"
| "make_eq_comparator (ListArray f nb offs child) r ign =
     (case r of
        ListArray f' nb' offs' child' \<Rightarrow>
          do { eq \<leftarrow> make_eq_comparator child child' ign;
               Some (eq_impl (ListArray f nb offs child) r ign (eq_list offs offs' eq)) }
      | _ \<Rightarrow> None)"
| "make_eq_comparator (StructArray fs nb n cols) r ign =
     (case r of
        StructArray fs' nb' n' cols' \<Rightarrow>
          if length cols \<noteq> length cols' then None
          else do { eqs \<leftarrow> those (map2 (\<lambda>eq c. eq c ign) (map make_eq_comparator cols) cols');
                    Some (eq_impl (StructArray fs nb n cols) r ign (eq_columns eqs)) }
      | _ \<Rightarrow> None)"
| "make_eq_comparator (DictionaryArray kt keys vals) r ign =
     (case r of
        DictionaryArray kt' keys' vals' \<Rightarrow>
          if kt \<noteq> kt' then None
          else do { eq \<leftarrow> make_eq_comparator vals vals' ign;
                    Some (eq_impl (DictionaryArray kt keys vals) r ign
                      (\<lambda>i j. case (keys, keys') of
                         (PrimitiveArray _ _ ks, PrimitiveArray _ _ ks') \<Rightarrow>
                           do { k \<leftarrow> vget ks i; k' \<leftarrow> vget ks' j; eq (nat k) (nat k') }
                       | _ \<Rightarrow> None)) }
      | _ \<Rightarrow> None)"
| "make_eq_comparator _ r ign = None"

text \<open>The types with a comparator of their own.\<close>

definition inlined_type :: "data_type \<Rightarrow> bool" where
  "inlined_type dt = (dt \<in> {Int8, Int16, Int32, Int64, Date32, Date64, Utf8, Binary})"

definition make_eq_comparator_multiple_arrays :: "array list \<Rightarrow> array list \<Rightarrow> eq_fn option" where
  "make_eq_comparator_multiple_arrays cols1 cols2 =
     (if length cols1 \<noteq> length cols2 then None
      else do { eqs \<leftarrow> those (map2 (\<lambda>l r. make_eq_comparator l r True) cols1 cols2); Some (eq_columns eqs) })"

fun inlined_eq :: "array \<Rightarrow> array \<Rightarrow> eq_fn option" where
  "inlined_eq (PrimitiveArray dt nb vs) (PrimitiveArray dt' nb' vs') = Some (eq_values (=) (vget vs) (vget vs'))"
| "inlined_eq (ByteArray dt nb offs data) (ByteArray dt' nb' offs' data') =
     Some (eq_values (=) (byte_slice offs data) (byte_slice offs' data'))"
| "inlined_eq _ _ = None"

text \<open>The match of \<open>EqComparator::try_new\<close> on the first two pairs of types.\<close>

definition eq_try_new :: "array list \<Rightarrow> array list \<Rightarrow> eq_fn option" where
  "eq_try_new cols1 cols2 =
     (case zip cols1 cols2 of
        [(c1, c2)] \<Rightarrow>
          if inlined_type (data_type_of c1) \<and> data_type_of c1 = data_type_of c2 then inlined_eq c1 c2
          else make_eq_comparator_multiple_arrays cols1 cols2
      | _ \<Rightarrow> make_eq_comparator_multiple_arrays cols1 cols2)"

section \<open>Keys that are compared exactly\<close>

text \<open>Flat types other than floating point numbers.\<close>

fun exact_type :: "data_type \<Rightarrow> bool" where
  "exact_type Boolean = True"
| "exact_type Utf8 = True" | "exact_type LargeUtf8 = True"
| "exact_type Binary = True" | "exact_type LargeBinary = True"
| "exact_type Float16 = False" | "exact_type Float32 = False" | "exact_type Float64 = False"
| "exact_type dt = (primitive_width dt \<noteq> None)"

lemma native_eq_exact: "exact_type dt \<Longrightarrow> native_eq dt a b = (a = b)"
  by (cases dt) auto

lemma same_class_refl [simp]: "same_class dt dt"
  by (cases dt) auto

lemma exact_shape:
  assumes "array_wf a" and "exact_type (data_type_of a)"
  obtains (prim) dt nb vs where "a = PrimitiveArray dt nb vs" "exact_type dt" "primitive_width dt \<noteq> None"
  | (bool) nb vals where "a = BooleanArray nb vals"
  | (bytes) dt nb offs data where "a = ByteArray dt nb offs data" "dt \<in> {Utf8, Binary, LargeUtf8, LargeBinary}"
  using assms by (cases a) auto

text \<open>On rows that are not null the comparator compares the logical values.\<close>

lemma make_eq_exact:
  assumes l: "array_wf l" "exact_type (data_type_of l)" and r: "array_wf r" "data_type_of r = data_type_of l"
  shows "\<exists>eq. make_eq_comparator l r True = Some eq
    \<and> (\<forall>i < array_len l. \<forall>j < array_len r. cell l i \<noteq> CNull \<longrightarrow> cell r j \<noteq> CNull \<longrightarrow> eq i j = Some (cell l i = cell r j))"
  using l
proof (cases rule: exact_shape)
  case (prim dt nb vs)
  with r obtain nb' vs' where "r = PrimitiveArray dt nb' vs'" by (cases r) auto
  with prim show ?thesis by (auto simp: eq_impl_def eq_values_def native_eq_exact split: if_splits)
next
  case (bool nb vals)
  with r obtain nb' vals' where "r = BooleanArray nb' vals'" by (cases r) auto
  moreover obtain bs off len bs' off' len' where "vals = (bs, off, len)" "vals' = (bs', off', len')" by (cases vals; cases vals')
  ultimately show ?thesis using bool by (auto simp: eq_impl_def eq_values_def split: if_splits)
next
  case (bytes dt nb offs data)
  with r obtain nb' offs' data' where "r = ByteArray dt nb' offs' data'" using l by (cases r) auto
  with bytes show ?thesis by (auto simp: eq_impl_def eq_values_def byte_slice_def split: if_splits)
qed

lemma inlined_exact:
  assumes "array_wf l" and "inlined_type (data_type_of l)" and "array_wf r" and "data_type_of r = data_type_of l"
  shows "\<exists>eq. inlined_eq l r = Some eq
    \<and> (\<forall>i < array_len l. \<forall>j < array_len r. cell l i \<noteq> CNull \<longrightarrow> cell r j \<noteq> CNull \<longrightarrow> eq i j = Some (cell l i = cell r j))"
proof (cases l)
  case (PrimitiveArray dt nb vs)
  with assms obtain nb' vs' where "r = PrimitiveArray dt nb' vs'" by (cases r) (auto simp: inlined_type_def)
  with PrimitiveArray show ?thesis by (auto simp: eq_values_def split: if_splits)
next
  case (ByteArray dt nb offs data)
  with assms obtain nb' offs' data' where "r = ByteArray dt nb' offs' data'" by (cases r) (auto simp: inlined_type_def)
  with ByteArray show ?thesis by (auto simp: eq_values_def byte_slice_def split: if_splits)
qed (use assms in \<open>auto simp: inlined_type_def\<close>)

definition key_of :: "array list \<Rightarrow> nat \<Rightarrow> cell_value list" where
  "key_of cols i = map (\<lambda>c. cell c i) cols"

abbreviation null_key :: "cell_value list \<Rightarrow> bool" where
  "null_key k \<equiv> CNull \<in> set k"

definition key_columns_ok :: "data_type list \<Rightarrow> nat \<Rightarrow> array list \<Rightarrow> bool" where
  "key_columns_ok types n cols =
     (map data_type_of cols = types \<and> (\<forall>t \<in> set types. exact_type t \<and> hashable t) \<and> (\<forall>c \<in> set cols. array_wf c \<and> array_len c = n))"

lemma eq_columns_exact:
  assumes "list_all2 (\<lambda>eq (l, r). cell l i \<noteq> CNull \<longrightarrow> cell r j \<noteq> CNull \<longrightarrow> eq i j = Some (cell l i = cell r j)) eqs (zip ls rs)"
    and "length ls = length rs" and "\<not> null_key (key_of ls i)" and "\<not> null_key (key_of rs j)"
  shows "eq_columns eqs i j = Some (key_of ls i = key_of rs j)"
  using assms
proof (induction ls arbitrary: rs eqs)
  case (Cons l ls)
  then obtain r rs' eq eqs' where "rs = r # rs'" "eqs = eq # eqs'" by (cases rs; cases eqs) auto
  with Cons.IH [of eqs' rs'] Cons.prems show ?case by (auto simp: key_of_def)
qed (auto simp: key_of_def)

lemma eq_try_new_exact:
  assumes l: "key_columns_ok types n ls" and r: "key_columns_ok types m rs"
  shows "\<exists>eq. eq_try_new ls rs = Some eq
    \<and> (\<forall>i < n. \<forall>j < m. \<not> null_key (key_of ls i) \<longrightarrow> \<not> null_key (key_of rs j) \<longrightarrow> eq i j = Some (key_of ls i = key_of rs j))"
proof -
  have len: "length ls = length types" "length rs = length types"
    using l r unfolding key_columns_ok_def by (metis length_map)+
  have col: "array_wf (ls ! k)" "array_wf (rs ! k)" "data_type_of (ls ! k) = types ! k" "data_type_of (rs ! k) = types ! k"
    "array_len (ls ! k) = n" "array_len (rs ! k) = m" "exact_type (types ! k)" if "k < length types" for k
    using that l r len unfolding key_columns_ok_def by (metis nth_map nth_mem)+
  have multi: "\<exists>eq. make_eq_comparator_multiple_arrays ls rs = Some eq
      \<and> (\<forall>i < n. \<forall>j < m. \<not> null_key (key_of ls i) \<longrightarrow> \<not> null_key (key_of rs j) \<longrightarrow> eq i j = Some (key_of ls i = key_of rs j))"
  proof -
    have "\<exists>eq. make_eq_comparator (ls ! k) (rs ! k) True = Some eq
        \<and> (\<forall>i < n. \<forall>j < m. cell (ls ! k) i \<noteq> CNull \<longrightarrow> cell (rs ! k) j \<noteq> CNull \<longrightarrow> eq i j = Some (cell (ls ! k) i = cell (rs ! k) j))"
      if k: "k < length types" for k
      using make_eq_exact [of "ls ! k" "rs ! k"] col [OF k] by simp
    then obtain f where f: "\<And>k. k < length types \<Longrightarrow> make_eq_comparator (ls ! k) (rs ! k) True = Some (f k)
        \<and> (\<forall>i < n. \<forall>j < m. cell (ls ! k) i \<noteq> CNull \<longrightarrow> cell (rs ! k) j \<noteq> CNull \<longrightarrow> f k i j = Some (cell (ls ! k) i = cell (rs ! k) j))"
      by metis
    let ?eqs = "map f [0..<length types]"
    have "map2 (\<lambda>l r. make_eq_comparator l r True) ls rs = map Some ?eqs"
      by (rule nth_equalityI) (simp_all add: len f)
    then have "those (map2 (\<lambda>l r. make_eq_comparator l r True) ls rs) = Some ?eqs" unfolding those_Some_iff .
    then have new: "make_eq_comparator_multiple_arrays ls rs = Some (eq_columns ?eqs)"
      unfolding make_eq_comparator_multiple_arrays_def
      by (simp add: len)
    have "eq_columns ?eqs i j = Some (key_of ls i = key_of rs j)"
      if "i < n" "j < m" "\<not> null_key (key_of ls i)" "\<not> null_key (key_of rs j)" for i j
      by (rule eq_columns_exact) (use that f len in \<open>auto simp: list_all2_conv_all_nth\<close>)
    with new show ?thesis by blast
  qed
  show ?thesis
  proof (cases "length types = 1 \<and> inlined_type (types ! 0)")
    case True
    then obtain c1 c2 where c: "ls = [c1]" "rs = [c2]" using len by (metis One_nat_def length_0_conv length_Suc_conv)
    with inlined_exact [of c1 c2] col [of 0] True show ?thesis by (auto simp: eq_try_new_def key_of_def)
  next
    case False
    have "eq_try_new ls rs = make_eq_comparator_multiple_arrays ls rs"
    proof (cases "length types = 1")
      case True
      then obtain c1 c2 where c: "ls = [c1]" "rs = [c2]" using len by (metis One_nat_def length_0_conv length_Suc_conv)
      with False True col(3) [of 0] show ?thesis by (simp add: eq_try_new_def)
    next
      case False
      then have "length (zip ls rs) \<noteq> 1" by (simp add: len)
      then show ?thesis unfolding eq_try_new_def by (auto simp del: length_zip split: list.splits)
    qed
    with multi show ?thesis by simp
  qed
qed

section \<open>Properties\<close>

text \<open>The elements of a list row as they lie in the value buffer, null slots included.\<close>

definition raw_elements :: "int list \<Rightarrow> int list \<Rightarrow> nat \<Rightarrow> int list" where
  "raw_elements vs offs i = map ((!) vs) [offset_at offs i..<offset_at offs (i + 1)]"

lemma all_eq_values:
  assumes "\<forall>(i, j) \<in> set ps. i < length vs \<and> j < length vs'"
  shows "all_eq ps (eq_values (=) (vget vs) (vget vs')) = Some (\<forall>(i, j) \<in> set ps. vs ! i = vs' ! j)"
  using assms by (induction ps) (auto simp: eq_values_def)

lemma zip_all_eq: "(\<forall>(x, y) \<in> set (zip xs ys). f x = g y) \<and> length xs = length ys \<longleftrightarrow> map f xs = map g ys"
proof (induction xs arbitrary: ys)
  case (Cons x xs)
  then show ?case by (cases ys) auto
qed auto

text \<open>
  C39: The comparator of list keys whose elements are of an exact primitive type ignores the nulls
  among the elements and compares what lies in the null slots: whatever the validity bitmaps of
  the elements are, two rows are equal if and only if their elements agree as they lie in the value
  buffers.  Two lists of one null are therefore unequal when their hidden values differ, and equal
  to a list of that hidden value.
\<close>

theorem nested_nulls_compared_by_hidden_value:
  assumes "exact_type dt" and "array_wf (ListArray dt nb offs (PrimitiveArray dt cnb vs))" and "i < length offs - 1"
    and "array_wf (ListArray dt nb' offs' (PrimitiveArray dt cnb' vs'))" and "j < length offs' - 1"
  shows "\<exists>eq. eq_try_new [ListArray dt nb offs (PrimitiveArray dt cnb vs)] [ListArray dt nb' offs' (PrimitiveArray dt cnb' vs')] = Some eq
    \<and> eq i j = Some (raw_elements vs offs i = raw_elements vs' offs' j)"
proof -
  have wf: "offsets_wf offs (length vs)" "offsets_wf offs' (length vs')" using assms(2,4) by simp_all
  let ?is = "[offset_at offs i..<offset_at offs (i + 1)]" and ?js = "[offset_at offs' j..<offset_at offs' (j + 1)]"
  have left: "k < length vs" if "k \<in> set ?is" for k using inside_child [OF wf(1) assms(3), of k] that by simp
  have right: "k < length vs'" if "k \<in> set ?js" for k using inside_child [OF wf(2) assms(5), of k] that by simp
  have inside: "\<forall>(k, l) \<in> set (zip ?is ?js). k < length vs \<and> l < length vs'"
  proof (rule ballI, rule case_prodI2)
    fix x k l assume "x \<in> set (zip ?is ?js)" "x = (k, l)"
    then have kl: "(k, l) \<in> set (zip ?is ?js)" by simp
    show "k < length vs \<and> l < length vs'" by (rule conjI [OF left [OF set_zip_leftD [OF kl]] right [OF set_zip_rightD [OF kl]]])
  qed
  have "native_eq dt = (=)" using native_eq_exact [OF assms(1)] by (intro ext) simp
  then have "eq_try_new [ListArray dt nb offs (PrimitiveArray dt cnb vs)] [ListArray dt nb' offs' (PrimitiveArray dt cnb' vs')]
      = Some (eq_columns [eq_list offs offs' (eq_values (=) (vget vs) (vget vs'))])"
    by (simp add: eq_try_new_def inlined_type_def make_eq_comparator_multiple_arrays_def eq_impl_def)
  moreover have "eq_list offs offs' (eq_values (=) (vget vs) (vget vs')) i j
      = Some ((\<forall>(k, l) \<in> set (zip ?is ?js). vs ! k = vs' ! l) \<and> length ?is = length ?js)"
    using all_eq_values [OF inside] assms(3,5) by (simp add: eq_list_def offset_at_def)
  then have "eq_columns [eq_list offs offs' (eq_values (=) (vget vs) (vget vs'))] i j
      = Some (raw_elements vs offs i = raw_elements vs' offs' j)"
    unfolding zip_all_eq by (auto simp: raw_elements_def)
  ultimately show ?thesis by blast
qed

text \<open>The lists \<open>[null]\<close> and \<open>[null]\<close> are unequal, \<open>[null]\<close> and \<open>[1]\<close> are equal.\<close>

theorem nested_nulls_compared_by_hidden_value_witness:
  "(\<exists>eq. eq_try_new [ListArray Int32 None [0, 1, 2] (PrimitiveArray Int32 (Some ([0], 0, 2)) [1, 2])]
       [ListArray Int32 None [0, 1, 2] (PrimitiveArray Int32 (Some ([1], 0, 2)) [1, 1])] = Some eq \<and> eq 1 1 = Some False)
   \<and> cell (ListArray Int32 None [0, 1, 2] (PrimitiveArray Int32 (Some ([0], 0, 2)) [1, 2])) 1
       = cell (ListArray Int32 None [0, 1, 2] (PrimitiveArray Int32 (Some ([1], 0, 2)) [1, 1])) 1
   \<and> (\<exists>eq. eq_try_new [ListArray Int32 None [0, 1, 2] (PrimitiveArray Int32 (Some ([0], 0, 2)) [1, 2])]
       [ListArray Int32 None [0, 1, 2] (PrimitiveArray Int32 (Some ([1], 0, 2)) [1, 1])] = Some eq \<and> eq 0 0 = Some True)
   \<and> cell (ListArray Int32 None [0, 1, 2] (PrimitiveArray Int32 (Some ([0], 0, 2)) [1, 2])) 0
       \<noteq> cell (ListArray Int32 None [0, 1, 2] (PrimitiveArray Int32 (Some ([1], 0, 2)) [1, 1])) 0"
proof -
  have wf: "array_wf (ListArray Int32 None [0, 1, 2] (PrimitiveArray Int32 (Some ([0], 0, 2)) [1, 2]))"
    "array_wf (ListArray Int32 None [0, 1, 2] (PrimitiveArray Int32 (Some ([1], 0, 2)) [1, 1]))"
    by (simp_all add: nulls_wf_def offsets_wf_def prim_in_range_def)
  have raw: "raw_elements [1, 2] [0, 1, 2] 1 = [2]" "raw_elements [1, 1] [0, 1, 2] 1 = [1]"
    "raw_elements [1, 2] [0, 1, 2] 0 = [1]" "raw_elements [1, 1] [0, 1, 2] 0 = [1]"
    by (simp_all add: raw_elements_def offset_at_def numeral_2_eq_2)
  show ?thesis
    using nested_nulls_compared_by_hidden_value [OF _ wf(1) _ wf(2), of 1 1] nested_nulls_compared_by_hidden_value [OF _ wf(1) _ wf(2), of 0 0]
    unfolding raw by (simp add: bit_valid_def get_bit_raw_def offset_at_def numeral_2_eq_2)
qed

end
