(* ===== verification/Hash_Join.thy ===== *)
theory Hash_Join
  imports Join_Hash_Map Sort_Merge_Join Eq_Comparator
begin

text \<open>
  The hash joins (\<open>broadcast_join_exec.rs\<close>, \<open>joins/bhj/full_join.rs\<close>, \<open>joins/bhj/semi_join.rs\<close>
  and \<open>JoinHashMap\<close> of \<open>joins/join_hash_map.rs\<close>): the rows of the built side are kept with their
  key columns and the table of their hashes, and the batches of the probed side are joined with
  them one after the other.

  A row is the list of its cells as in the sort-merge joins; a batch comes with its number of
  columns and with the key columns its key expressions evaluate to (\<open>None\<close> an error).  The answer
  \<open>None\<close> of an operation is an error or a panic.
\<close>

section \<open>Model\<close>

record 'v probe_batch =
  pb_rows :: "'v row list"
  pb_keys :: "array list option"

record 'v join_hash_map =
  data_cols :: nat
  data_rows :: "'v row list"
  key_columns :: "array list"
  jh_table :: join_table

definition create_from_data_batch ::
  "(u32 \<Rightarrow> bytes \<Rightarrow> u32) \<Rightarrow> nat \<Rightarrow> 'v row list \<Rightarrow> array list option \<Rightarrow> 'v join_hash_map option" where
  "create_from_data_batch hasher ncols rows keys =
     do { key_columns \<leftarrow> keys;
          table \<leftarrow> create_from_key_columns hasher (length rows) key_columns;
          Some \<lparr>data_cols = ncols, data_rows = rows, key_columns = key_columns, jh_table = table\<rparr> }"

datatype probe_side = ProbeL | ProbeR

record 'v hash_join_params =
  hj_params :: "'v join_params"
  left_cols :: nat
  right_cols :: nat
  output_cols :: nat
  is_null_aware_anti_join :: bool

record 'v hash_joiner =
  map_joined :: "bool list"
  hj_output_rows :: nat
  hj_sent :: "'v row list list"

definition new_hash_joiner :: "'v join_hash_map \<Rightarrow> 'v hash_joiner" where
  "new_hash_joiner m = \<lparr>map_joined = replicate (length (data_rows m)) False, hj_output_rows = 0, hj_sent = []\<rparr>"

text \<open>Columns with their number; \<open>project_cols\<close> panics on a column that is not there.\<close>

type_synonym 'v cols = "nat \<times> 'v row list"

definition project_cols :: "nat list \<Rightarrow> 'v cols \<Rightarrow> 'v cols option" where
  "project_cols is cols =
     (if list_all (\<lambda>i. i < fst cols) is then Some (length is, map (\<lambda>r. map ((!) r) is) (snd cols)) else None)"

definition project_probed :: "'v hash_join_params \<Rightarrow> probe_side \<Rightarrow> 'v cols \<Rightarrow> 'v cols option" where
  "project_probed P side cols =
     (case side of ProbeL \<Rightarrow> project_cols (proj_left (projection (hj_params P))) cols
      | ProbeR \<Rightarrow> project_cols (proj_right (projection (hj_params P))) cols)"

definition project_built :: "'v hash_join_params \<Rightarrow> probe_side \<Rightarrow> 'v cols \<Rightarrow> 'v cols option" where
  "project_built P side cols =
     (case side of ProbeL \<Rightarrow> project_cols (proj_right (projection (hj_params P))) cols
      | ProbeR \<Rightarrow> project_cols (proj_left (projection (hj_params P))) cols)"

definition probed_cols :: "'v hash_join_params \<Rightarrow> probe_side \<Rightarrow> nat" where
  "probed_cols P side = (case side of ProbeL \<Rightarrow> left_cols P | ProbeR \<Rightarrow> right_cols P)"

text \<open>\<open>take_cols\<close>: the rows at the given indices, a null index giving a row of nulls.\<close>

definition take_cols :: "'v cols \<Rightarrow> u32 option list \<Rightarrow> 'v cols option" where
  "take_cols cols ixs =
     map_option (Pair (fst cols))
       (those (map (\<lambda>i. case i of None \<Rightarrow> Some (replicate (fst cols) None) | Some i \<Rightarrow> vget (snd cols) (unat i)) ixs))"

text \<open>\<open>iter().zip(0..n as u32).all(|(&idx, i)| idx == i)\<close> behind the comparison of the lengths.\<close>

definition is_identity :: "u32 list \<Rightarrow> nat \<Rightarrow> bool" where
  "is_identity ixs n =
     (length ixs = n \<and> list_all (\<lambda>(idx, i). idx = of_nat i) (zip ixs [0..<unat (of_nat n :: u32)]))"

definition take_probed :: "'v cols \<Rightarrow> u32 list \<Rightarrow> 'v cols option" where
  "take_probed cols ixs =
     (if is_identity ixs (length (snd cols)) then Some cols else take_cols cols (map Some ixs))"

subsection \<open>Probing\<close>

text \<open>The union of the logical nulls of the key columns.\<close>

definition probed_valid :: "array list \<Rightarrow> nat \<Rightarrow> bool" where
  "probed_valid keys i = list_all (\<lambda>c. logical_valid c i) keys"

text \<open>The comparator and the map values of the rows with a valid key.\<close>

definition probe_map ::
  "(u32 \<Rightarrow> bytes \<Rightarrow> u32) \<Rightarrow> 'v join_hash_map \<Rightarrow> nat \<Rightarrow> array list \<Rightarrow> (eq_fn \<times> map_value list) option" where
  "probe_map hasher m n keys =
     do { hashes \<leftarrow> join_create_hashes hasher n keys;
          eq \<leftarrow> eq_try_new keys (key_columns m);
          map_values \<leftarrow> lookup_many (jh_table m) (map ((!) hashes) (filter (probed_valid keys) [0..<n]));
          Some (eq, map_values) }"

subsection \<open>Inner and outer joins\<close>

record full_joiner_params =
  fj_side :: probe_side
  probe_side_outer :: bool
  build_side_outer :: bool

definition hj_flush ::
  "'v hash_join_params \<Rightarrow> probe_side \<Rightarrow> 'v cols \<Rightarrow> 'v cols \<Rightarrow> nat \<Rightarrow> 'v hash_joiner \<Rightarrow> 'v hash_joiner option" where
  "hj_flush P side pcols bcols num_rows s =
     (if fst pcols + fst bcols \<noteq> output_cols P \<or> length (snd pcols) \<noteq> num_rows \<or> length (snd bcols) \<noteq> num_rows then None
      else let out = (case side of ProbeL \<Rightarrow> map2 (@) (snd pcols) (snd bcols) | ProbeR \<Rightarrow> map2 (@) (snd bcols) (snd pcols))
           in Some (s\<lparr>hj_output_rows := hj_output_rows s + num_rows,
                      hj_sent := (if num_rows = 0 then hj_sent s else hj_sent s @ [out])\<rparr>))"

record hash_joined =
  probe_indices :: "u32 list"
  build_inner_indices :: "u32 list"
  build_outer_indices :: "u32 option list"

definition no_indices :: hash_joined where
  "no_indices = \<lparr>probe_indices = [], build_inner_indices = [], build_outer_indices = []\<rparr>"

fun set_joined :: "u32 list \<Rightarrow> bool list \<Rightarrow> bool list option" where
  "set_joined [] bits = Some bits"
| "set_joined (i # is) bits = do { bits' \<leftarrow> vset bits (unat i) True; set_joined is bits' }"

definition flush_hash_joined ::
  "'v hash_join_params \<Rightarrow> full_joiner_params \<Rightarrow> 'v join_hash_map \<Rightarrow> 'v row list \<Rightarrow> hash_joined \<Rightarrow> 'v hash_joiner
   \<Rightarrow> 'v hash_joiner option" where
  "flush_hash_joined P J m rows ix s =
     (let build_indices = (if probe_side_outer J then build_outer_indices ix else map Some (build_inner_indices ix));
          num_rows = length (probe_indices ix);
          side = fj_side J; probed = (probed_cols P side, rows); built = (data_cols m, data_rows m)
      in if length (probe_indices ix) \<noteq> length build_indices then None
         else case join_filter (hj_params P) of
           Some jf \<Rightarrow>
             if probe_side_outer J \<or> build_side_outer J then None
             else do {
               pcols \<leftarrow> take_probed probed (probe_indices ix);
               bcols \<leftarrow> take_cols built build_indices;
               let (lcols, rcols) = (case side of ProbeL \<Rightarrow> (pcols, bcols) | ProbeR \<Rightarrow> (bcols, pcols));
               selected \<leftarrow> evaluate_filter jf (fst lcols) (fst rcols) (snd lcols) (snd rcols);
               let num_rows = length (filter id selected);
               prows \<leftarrow> filter_rows selected (snd pcols);
               brows \<leftarrow> filter_rows selected (snd bcols);
               pcols \<leftarrow> project_probed P side (fst pcols, prows);
               bcols \<leftarrow> project_built P side (fst bcols, brows);
               hj_flush P side pcols bcols num_rows s }
         | None \<Rightarrow>
             do { pprojected \<leftarrow> project_probed P side probed;
                  mprojected \<leftarrow> project_built P side built;
                  pcols \<leftarrow> take_probed pprojected (probe_indices ix);
                  bits \<leftarrow> (if build_side_outer J then set_joined (List.map_filter id build_indices) (map_joined s) else Some (map_joined s));
                  bcols \<leftarrow> take_cols mprojected build_indices;
                  hj_flush P side pcols bcols num_rows (s\<lparr>map_joined := bits\<rparr>) })"

text \<open>The closure \<open>join\<close> on the candidates of a row.\<close>

fun join_candidates :: "full_joiner_params \<Rightarrow> eq_fn \<Rightarrow> nat \<Rightarrow> u32 list \<Rightarrow> bool \<Rightarrow> hash_joined \<Rightarrow> (bool \<times> hash_joined) option" where
  "join_candidates J eq row_idx [] is_joined ix = Some (is_joined, ix)"
| "join_candidates J eq row_idx (map_idx # rest) is_joined ix =
     do { b \<leftarrow> eq row_idx (unat map_idx);
          if b then
            join_candidates J eq row_idx rest True
              (if probe_side_outer J
               then ix\<lparr>probe_indices := probe_indices ix @ [of_nat row_idx],
                       build_outer_indices := build_outer_indices ix @ [Some map_idx]\<rparr>
               else ix\<lparr>probe_indices := probe_indices ix @ [of_nat row_idx],
                       build_inner_indices := build_inner_indices ix @ [map_idx]\<rparr>)
          else join_candidates J eq row_idx rest is_joined ix }"

text \<open>The loop over the rows; \<open>rows_of\<close> is the match on the map value.\<close>

fun full_probe_rows ::
  "'v hash_join_params \<Rightarrow> full_joiner_params \<Rightarrow> 'v join_hash_map \<Rightarrow> 'v row list \<Rightarrow> array list \<Rightarrow> eq_fn \<Rightarrow> map_value list
   \<Rightarrow> nat list \<Rightarrow> nat \<Rightarrow> hash_joined \<Rightarrow> 'v hash_joiner \<Rightarrow> (hash_joined \<times> 'v hash_joiner) option" where
  "full_probe_rows P J m rows keys eq map_values [] hashes_idx ix s = Some (ix, s)"
| "full_probe_rows P J m rows keys eq map_values (row_idx # rest) hashes_idx ix s =
     do { (is_joined, hashes_idx, ix) \<leftarrow>
            (if probed_valid keys row_idx
             then do { map_value \<leftarrow> vget map_values hashes_idx;
                       candidates \<leftarrow> rows_of (mapped_indices (jh_table m)) map_value;
                       (is_joined, ix) \<leftarrow> join_candidates J eq row_idx candidates False ix;
                       Some (is_joined, hashes_idx + 1, ix) }
             else Some (False, hashes_idx, ix));
          let ix = (if probe_side_outer J \<and> \<not> is_joined
                    then ix\<lparr>probe_indices := probe_indices ix @ [of_nat row_idx],
                            build_outer_indices := build_outer_indices ix @ [None]\<rparr>
                    else ix);
          if length (probe_indices ix) > max (batch_size (hj_params P)) (length rows)
          then do { s' \<leftarrow> flush_hash_joined P J m rows ix s;
                    full_probe_rows P J m rows keys eq map_values rest hashes_idx no_indices s' }
          else full_probe_rows P J m rows keys eq map_values rest hashes_idx ix s }"

definition hj_full_join ::
  "(u32 \<Rightarrow> bytes \<Rightarrow> u32) \<Rightarrow> 'v hash_join_params \<Rightarrow> full_joiner_params \<Rightarrow> 'v join_hash_map \<Rightarrow> 'v probe_batch \<Rightarrow> 'v hash_joiner
   \<Rightarrow> 'v hash_joiner option" where
  "hj_full_join hasher P J m batch s =
     do { keys \<leftarrow> pb_keys batch;
          (eq, map_values) \<leftarrow> probe_map hasher m (length (pb_rows batch)) keys;
          (ix, s) \<leftarrow> full_probe_rows P J m (pb_rows batch) keys eq map_values [0..<length (pb_rows batch)] 0 no_indices s;
          if probe_indices ix \<noteq> [] then flush_hash_joined P J m (pb_rows batch) ix s else Some s }"

text \<open>The indices of the bits that are \<open>b\<close>.\<close>

definition bit_indices :: "bool \<Rightarrow> bool list \<Rightarrow> u32 list" where
  "bit_indices b bits = map (of_nat \<circ> fst) (filter (\<lambda>(_, joined). joined = b) (enumerate 0 bits))"

definition hj_full_finish :: "'v hash_join_params \<Rightarrow> full_joiner_params \<Rightarrow> 'v join_hash_map \<Rightarrow> 'v hash_joiner \<Rightarrow> 'v hash_joiner option" where
  "hj_full_finish P J m s =
     (if build_side_outer J
      then let map_unjoined_indices = bit_indices False (map_joined s);
               n = length map_unjoined_indices; pn = probed_cols P (fj_side J)
           in do { mprojected \<leftarrow> project_built P (fj_side J) (data_cols m, data_rows m);
                   bcols \<leftarrow> take_cols mprojected (map Some map_unjoined_indices);
                   hj_flush P (fj_side J) (pn, replicate n (replicate pn None)) bcols n (s\<lparr>map_joined := []\<rparr>) }
      else Some (s\<lparr>map_joined := []\<rparr>))"

definition hj_full_can_early_stop :: "full_joiner_params \<Rightarrow> 'v join_hash_map \<Rightarrow> bool" where
  "hj_full_can_early_stop J m = (\<not> probe_side_outer J \<and> is_all_nulls (jh_table m))"

subsection \<open>Semi, anti and existence joins\<close>

datatype semi_mode = Semi | Anti | ExistenceMode

record semi_joiner_params =
  sj_side :: probe_side
  probe_is_join_side :: bool
  sj_mode :: semi_mode

text \<open>\<open>RecordBatch::try_new\<close> finds the number of rows in its first column.\<close>

definition sj_flush :: "'v hash_join_params \<Rightarrow> 'v cols \<Rightarrow> 'v hash_joiner \<Rightarrow> 'v hash_joiner option" where
  "sj_flush P cols s =
     (if fst cols \<noteq> output_cols P \<or> fst cols = 0 then None
      else Some (s\<lparr>hj_output_rows := hj_output_rows s + length (snd cols),
                   hj_sent := (if snd cols = [] then hj_sent s else hj_sent s @ [snd cols])\<rparr>))"

text \<open>The rows of a range whose key is equal (\<open>eqs\<close> is a lazy iterator in the source).\<close>

fun equal_rows :: "eq_fn \<Rightarrow> nat \<Rightarrow> u32 list \<Rightarrow> u32 list option" where
  "equal_rows eq row_idx [] = Some []"
| "equal_rows eq row_idx (map_idx # rest) =
     do { b \<leftarrow> eq row_idx (unat map_idx); eqs \<leftarrow> equal_rows eq row_idx rest; Some (if b then map_idx # eqs else eqs) }"

text \<open>The match on the map value of a row with a valid key.\<close>

definition semi_probe_value ::
  "bool \<Rightarrow> 'v join_hash_map \<Rightarrow> eq_fn \<Rightarrow> nat \<Rightarrow> map_value \<Rightarrow> bool list \<Rightarrow> bool list \<Rightarrow> (bool list \<times> bool list) option" where
  "semi_probe_value probe_is_join m eq row_idx v probed_joined map_bits =
     (if is_single v then
        do { b \<leftarrow> eq row_idx (unat (get_single v));
             if b then
               if probe_is_join then do { pj \<leftarrow> vset probed_joined row_idx True; Some (pj, map_bits) }
               else do { mb \<leftarrow> vset map_bits (unat (get_single v)) True; Some (probed_joined, mb) }
             else Some (probed_joined, map_bits) }
      else if is_range v then
        do { range \<leftarrow> get_range v (jh_table m);
             eqs \<leftarrow> equal_rows eq row_idx range;
             (case eqs of
                [] \<Rightarrow> Some (probed_joined, map_bits)
              | map_idx # others \<Rightarrow>
                  if probe_is_join then do { pj \<leftarrow> vset probed_joined row_idx True; Some (pj, map_bits) }
                  else do { first \<leftarrow> vget map_bits (unat map_idx);
                            if \<not> first then do { mb \<leftarrow> set_joined (map_idx # others) map_bits; Some (probed_joined, mb) }
                            else Some (probed_joined, map_bits) }) }
      else Some (probed_joined, map_bits))"

fun semi_probe_rows ::
  "'v hash_join_params \<Rightarrow> semi_joiner_params \<Rightarrow> 'v join_hash_map \<Rightarrow> array list \<Rightarrow> bool \<Rightarrow> eq_fn \<Rightarrow> map_value list
   \<Rightarrow> nat list \<Rightarrow> nat \<Rightarrow> bool list \<Rightarrow> bool list \<Rightarrow> (bool list \<times> bool list) option" where
  "semi_probe_rows P J m keys build_has_null_keys eq map_values [] hashes_idx probed_joined map_bits =
     Some (probed_joined, map_bits)"
| "semi_probe_rows P J m keys build_has_null_keys eq map_values (row_idx # rest) hashes_idx probed_joined map_bits =
     (if sj_mode J = Anti \<and> probe_is_join_side J \<and> (\<not> probed_valid keys row_idx \<or> build_has_null_keys)
         \<and> is_null_aware_anti_join P
      then do { pj \<leftarrow> vset probed_joined row_idx True;
                semi_probe_rows P J m keys build_has_null_keys eq map_values rest hashes_idx pj map_bits }
      else if probed_valid keys row_idx
      then do { map_value \<leftarrow> vget map_values hashes_idx;
                (pj, mb) \<leftarrow> semi_probe_value (probe_is_join_side J) m eq row_idx map_value probed_joined map_bits;
                semi_probe_rows P J m keys build_has_null_keys eq map_values rest (hashes_idx + 1) pj mb }
      else semi_probe_rows P J m keys build_has_null_keys eq map_values rest hashes_idx probed_joined map_bits)"

text \<open>The rows a side gives for its bits; \<open>bool_cell\<close> is a cell of the column \<open>exists\<close>.\<close>

definition semi_cols :: "(bool \<Rightarrow> 'v) \<Rightarrow> semi_mode \<Rightarrow> 'v cols \<Rightarrow> bool list \<Rightarrow> 'v cols option" where
  "semi_cols bool_cell mode cols bits =
     (case mode of
        Semi \<Rightarrow> take_cols cols (map Some (bit_indices True bits))
      | Anti \<Rightarrow> take_cols cols (map Some (bit_indices False bits))
      | ExistenceMode \<Rightarrow>
          if length bits = length (snd cols)
          then Some (fst cols + 1, map2 (\<lambda>r b. r @ [Some (bool_cell b)]) (snd cols) bits) else None)"

definition hj_semi_join ::
  "(u32 \<Rightarrow> bytes \<Rightarrow> u32) \<Rightarrow> (bool \<Rightarrow> 'v) \<Rightarrow> 'v hash_join_params \<Rightarrow> semi_joiner_params \<Rightarrow> 'v join_hash_map \<Rightarrow> 'v probe_batch
   \<Rightarrow> 'v hash_joiner \<Rightarrow> 'v hash_joiner option" where
  "hj_semi_join hasher bool_cell P J m batch s =
     do { keys \<leftarrow> pb_keys batch;
          let n = length (pb_rows batch);
          (eq, map_values) \<leftarrow> probe_map hasher m n keys;
          let build_has_null_keys = (data_rows m \<noteq> [] \<and> (\<exists>c \<in> set (key_columns m). null_count c > 0));
          (probed_joined, bits) \<leftarrow>
            semi_probe_rows P J m keys build_has_null_keys eq map_values [0..<n] 0 (replicate n False) (map_joined s);
          let s = s\<lparr>map_joined := bits\<rparr>;
          if probe_is_join_side J
          then do { pprojected \<leftarrow> project_probed P (sj_side J) (probed_cols P (sj_side J), pb_rows batch);
                    pcols \<leftarrow> semi_cols bool_cell (sj_mode J) pprojected probed_joined;
                    sj_flush P pcols s }
          else Some s }"

definition hj_semi_finish ::
  "(bool \<Rightarrow> 'v) \<Rightarrow> 'v hash_join_params \<Rightarrow> semi_joiner_params \<Rightarrow> 'v join_hash_map \<Rightarrow> 'v hash_joiner \<Rightarrow> 'v hash_joiner option" where
  "hj_semi_finish bool_cell P J m s =
     (if \<not> probe_is_join_side J
      then do { mprojected \<leftarrow> project_built P (sj_side J) (data_cols m, data_rows m);
                pcols \<leftarrow> semi_cols bool_cell (sj_mode J) mprojected (map_joined s);
                sj_flush P pcols (s\<lparr>map_joined := []\<rparr>) }
      else Some s)"

definition hj_semi_can_early_stop :: "semi_joiner_params \<Rightarrow> 'v hash_joiner \<Rightarrow> bool" where
  "hj_semi_can_early_stop J s = (\<not> probe_is_join_side J \<and> list_all id (map_joined s))"

subsection \<open>The operator\<close>

datatype hash_join_kind = FullKind full_joiner_params | SemiKind semi_joiner_params

text \<open>The joiner of the join type for the side that is built.\<close>

fun joiner_of :: "join_side \<Rightarrow> join_type \<Rightarrow> hash_join_kind option" where
  "joiner_of LeftSide Inner = Some (FullKind \<lparr>fj_side = ProbeR, probe_side_outer = False, build_side_outer = False\<rparr>)"
| "joiner_of LeftSide LeftOuter = Some (FullKind \<lparr>fj_side = ProbeR, probe_side_outer = False, build_side_outer = True\<rparr>)"
| "joiner_of LeftSide RightOuter = Some (FullKind \<lparr>fj_side = ProbeR, probe_side_outer = True, build_side_outer = False\<rparr>)"
| "joiner_of LeftSide FullOuter = Some (FullKind \<lparr>fj_side = ProbeR, probe_side_outer = True, build_side_outer = True\<rparr>)"
| "joiner_of LeftSide LeftSemi = Some (SemiKind \<lparr>sj_side = ProbeR, probe_is_join_side = False, sj_mode = Semi\<rparr>)"
| "joiner_of LeftSide LeftAnti = Some (SemiKind \<lparr>sj_side = ProbeR, probe_is_join_side = False, sj_mode = Anti\<rparr>)"
| "joiner_of LeftSide RightSemi = Some (SemiKind \<lparr>sj_side = ProbeR, probe_is_join_side = True, sj_mode = Semi\<rparr>)"
| "joiner_of LeftSide RightAnti = Some (SemiKind \<lparr>sj_side = ProbeR, probe_is_join_side = True, sj_mode = Anti\<rparr>)"
| "joiner_of LeftSide Existence = Some (SemiKind \<lparr>sj_side = ProbeR, probe_is_join_side = False, sj_mode = ExistenceMode\<rparr>)"
| "joiner_of RightSide Inner = Some (FullKind \<lparr>fj_side = ProbeL, probe_side_outer = False, build_side_outer = False\<rparr>)"
| "joiner_of RightSide LeftOuter = Some (FullKind \<lparr>fj_side = ProbeL, probe_side_outer = True, build_side_outer = False\<rparr>)"
| "joiner_of RightSide RightOuter = Some (FullKind \<lparr>fj_side = ProbeL, probe_side_outer = False, build_side_outer = True\<rparr>)"
| "joiner_of RightSide FullOuter = Some (FullKind \<lparr>fj_side = ProbeL, probe_side_outer = True, build_side_outer = True\<rparr>)"
| "joiner_of RightSide LeftSemi = Some (SemiKind \<lparr>sj_side = ProbeL, probe_is_join_side = True, sj_mode = Semi\<rparr>)"
| "joiner_of RightSide LeftAnti = Some (SemiKind \<lparr>sj_side = ProbeL, probe_is_join_side = True, sj_mode = Anti\<rparr>)"
| "joiner_of RightSide RightSemi = Some (SemiKind \<lparr>sj_side = ProbeL, probe_is_join_side = False, sj_mode = Semi\<rparr>)"
| "joiner_of RightSide RightAnti = Some (SemiKind \<lparr>sj_side = ProbeL, probe_is_join_side = False, sj_mode = Anti\<rparr>)"
| "joiner_of RightSide Existence = Some (SemiKind \<lparr>sj_side = ProbeL, probe_is_join_side = True, sj_mode = ExistenceMode\<rparr>)"
| "joiner_of NoSide _ = None"

definition hj_can_early_stop :: "hash_join_kind \<Rightarrow> 'v join_hash_map \<Rightarrow> 'v hash_joiner \<Rightarrow> bool" where
  "hj_can_early_stop kind m s =
     (case kind of FullKind J \<Rightarrow> hj_full_can_early_stop J m | SemiKind J \<Rightarrow> hj_semi_can_early_stop J s)"

definition hj_join ::
  "(u32 \<Rightarrow> bytes \<Rightarrow> u32) \<Rightarrow> (bool \<Rightarrow> 'v) \<Rightarrow> 'v hash_join_params \<Rightarrow> hash_join_kind \<Rightarrow> 'v join_hash_map \<Rightarrow> 'v probe_batch
   \<Rightarrow> 'v hash_joiner \<Rightarrow> 'v hash_joiner option" where
  "hj_join hasher bool_cell P kind m batch s =
     (case kind of FullKind J \<Rightarrow> hj_full_join hasher P J m batch s
      | SemiKind J \<Rightarrow> hj_semi_join hasher bool_cell P J m batch s)"

definition hj_finish ::
  "(bool \<Rightarrow> 'v) \<Rightarrow> 'v hash_join_params \<Rightarrow> hash_join_kind \<Rightarrow> 'v join_hash_map \<Rightarrow> 'v hash_joiner \<Rightarrow> 'v hash_joiner option" where
  "hj_finish bool_cell P kind m s =
     (case kind of FullKind J \<Rightarrow> hj_full_finish P J m s | SemiKind J \<Rightarrow> hj_semi_finish bool_cell P J m s)"

text \<open>The loop over the probed stream, whose elements are batches or errors.\<close>

fun joiner_loop :: "('s \<Rightarrow> bool) \<Rightarrow> ('b \<Rightarrow> 's \<Rightarrow> 's option) \<Rightarrow> 'b option list \<Rightarrow> 's \<Rightarrow> 's option" where
  "joiner_loop can_early_stop join [] s = Some s"
| "joiner_loop can_early_stop join (b # rest) s =
     (if can_early_stop s then Some s
      else do { batch \<leftarrow> b; s' \<leftarrow> join batch s; joiner_loop can_early_stop join rest s' })"

definition execute_join_with_map ::
  "(u32 \<Rightarrow> bytes \<Rightarrow> u32) \<Rightarrow> (bool \<Rightarrow> 'v) \<Rightarrow> 'v hash_join_params \<Rightarrow> join_type \<Rightarrow> join_side \<Rightarrow> 'v join_hash_map
   \<Rightarrow> 'v probe_batch option list \<Rightarrow> 'v hash_joiner option" where
  "execute_join_with_map hasher bool_cell P jt broadcast_side m probed =
     do { kind \<leftarrow> joiner_of broadcast_side jt;
          s \<leftarrow> joiner_loop (hj_can_early_stop kind m) (hj_join hasher bool_cell P kind m) probed (new_hash_joiner m);
          hj_finish bool_cell P kind m s }"

text \<open>\<open>BroadcastJoinExec::try_new\<close> and the parameters \<open>create_join_params\<close> makes of a plan.\<close>

definition hj_try_new :: "join_type \<Rightarrow> 'v join_filter option \<Rightarrow> bool" where
  "hj_try_new jt jf = (jf = None \<or> jt = Inner)"

definition create_join_params ::
  "join_type \<Rightarrow> nat \<Rightarrow> nat \<Rightarrow> nat \<Rightarrow> nat \<Rightarrow> nat \<Rightarrow> (data_type \<times> data_type) list \<Rightarrow> 'v join_filter option \<Rightarrow> nat \<Rightarrow> bool \<Rightarrow> nat list
   \<Rightarrow> 'v hash_join_params option" where
  "create_join_params jt schema_len left_len right_len left_data_len right_data_len key_types jf batch null_aware proj =
     (if \<exists>(l, r) \<in> set key_types. l \<noteq> r then None
      else do { p \<leftarrow> try_new_projection jt schema_len left_data_len right_data_len proj;
                Some \<lparr>hj_params = \<lparr>projection = p, join_filter = jf, batch_size = batch\<rparr>,
                      left_cols = left_len, right_cols = right_len, output_cols = schema_len,
                      is_null_aware_anti_join = null_aware\<rparr> })"

section \<open>The contract of a joiner\<close>

text \<open>
  The trait \<open>Joiner\<close> as the operator uses it: \<open>inv s xs\<close> says that the state \<open>s\<close> has seen the probed
  rows \<open>xs\<close>.  A batch adds its rows, and a joiner that can stop has in effect seen any further rows.
\<close>

locale joiner =
  fixes join :: "'b \<Rightarrow> 's \<Rightarrow> 's option" and can_early_stop :: "'s \<Rightarrow> bool"
    and inv :: "'s \<Rightarrow> 'x list \<Rightarrow> bool" and items :: "'b \<Rightarrow> 'x list" and batch_ok :: "'b \<Rightarrow> bool"
  assumes join_inv: "inv s xs \<Longrightarrow> batch_ok b \<Longrightarrow> \<exists>s'. join b s = Some s' \<and> inv s' (xs @ items b)"
    and stop_inv: "inv s xs \<Longrightarrow> can_early_stop s \<Longrightarrow> inv s (xs @ xs')"
begin

lemma loop_inv:
  "inv s xs \<Longrightarrow> \<forall>b \<in> set bs. batch_ok b \<Longrightarrow>
   \<exists>s'. joiner_loop can_early_stop join (map Some bs) s = Some s' \<and> inv s' (xs @ concat (map items bs))"
proof (induction bs arbitrary: s xs)
  case (Cons b bs)
  show ?case
  proof (cases "can_early_stop s")
    case True
    with stop_inv [OF Cons.prems(1)] show ?thesis by simp
  next
    case False
    from join_inv [OF Cons.prems(1)] Cons.prems(2) obtain s1 where "join b s = Some s1" "inv s1 (xs @ items b)" by auto
    with Cons.IH [OF this(2)] Cons.prems(2) False show ?thesis by simp
  qed
qed simp

end

section \<open>Keys\<close>

text \<open>A key row is null for the joins if one of its cells is.\<close>

lemma exact_valid:
  assumes "array_wf c" and "exact_type (data_type_of c)" and "i < array_len c"
  shows "is_valid c i = Some (cell c i \<noteq> CNull)" and "logical_valid c i = (cell c i \<noteq> CNull)"
  using assms by (cases rule: exact_shape, auto simp: is_valid_def split: if_splits)+

lemma key_valid:
  assumes "key_columns_ok types n ks" and "i < n"
  shows "key_is_valid ks i = Some (\<not> null_key (key_of ks i))" and "probed_valid ks i = (\<not> null_key (key_of ks i))"
proof -
  have c: "is_valid c i = Some (cell c i \<noteq> CNull)" "logical_valid c i = (cell c i \<noteq> CNull)" if "c \<in> set ks" for c
    using exact_valid [of c i] that assms by (auto simp: key_columns_ok_def)
  from c(1) show "key_is_valid ks i = Some (\<not> null_key (key_of ks i))"
    by (induction ks) (auto simp: key_of_def)
  from c(2) show "probed_valid ks i = (\<not> null_key (key_of ks i))"
    by (auto simp: probed_valid_def key_of_def list_all_iff image_iff)
qed

definition key_hash :: "(u32 \<Rightarrow> bytes \<Rightarrow> u32) \<Rightarrow> cell_value list \<Rightarrow> u32" where
  "key_hash hasher k = the (fold_opt (\<lambda>c. hash_cell (\<lambda>v h. Some (hasher h v)) c) k 0x1E39FA04) OR 0x80000000"

lemma hash_exact_cell:
  assumes "array_wf c" and "exact_type (data_type_of c)" and "hashable (data_type_of c)"
  shows "hash_cell (\<lambda>v h. Some (hasher h v)) (cell c i) s \<noteq> None"
  using assms(1,2)
proof (cases rule: exact_shape)
  case (prim dt nb vs)
  have "array_prim_width dt \<noteq> None"
  proof (cases "nested_hashable dt")
    case True
    then show ?thesis using one_prim_bytes_width [of dt 0] prim(3) by auto
  next
    case False
    then show ?thesis using assms(3) prim by (cases dt) auto
  qed
  then show ?thesis using prim by auto
next
  case (bool nb vals)
  then show ?thesis by (cases vals) simp
next
  case (bytes dt nb offs data)
  then show ?thesis by simp
qed

lemma join_hashes_exact:
  assumes "key_columns_ok types n ks"
  shows "join_create_hashes hasher n ks = Some (map (\<lambda>i. key_hash hasher (key_of ks i)) [0..<n])"
proof -
  let ?h = "\<lambda>v h. Some (hasher h v)"
  have "fold_opt (\<lambda>c. hash_cell ?h c) (map (\<lambda>a. cell a i) as) s \<noteq> None" if "set as \<subseteq> set ks" for "as" s i
    using that assms hash_exact_cell [of _ hasher i]
    by (induction "as" arbitrary: s) (fastforce simp: key_columns_ok_def split: Option.bind_splits)+
  then have "fold_opt (\<lambda>c. hash_cell ?h c) (map (\<lambda>a. cell a i) ks) s
      = Some (the (fold_opt (\<lambda>c. hash_cell ?h c) (map (\<lambda>a. cell a i) ks) s))" for s i by auto
  then have "those (map (\<lambda>i. fold_opt (\<lambda>c. hash_cell ?h c) (map (\<lambda>a. cell a i) ks) 0x1E39FA04) [0..<n])
      = Some (map (\<lambda>i. the (fold_opt (\<lambda>c. hash_cell ?h c) (map (\<lambda>a. cell a i) ks) 0x1E39FA04)) [0..<n])"
    by (simp add: those_Some_iff comp_def)
  moreover have "create_hashes n ks 0x1E39FA04 ?h
      = those (map (\<lambda>i. fold_opt (\<lambda>c. hash_cell ?h c) (map (\<lambda>a. cell a i) ks) 0x1E39FA04) [0..<n])"
    by (rule create_hashes_cells) (use assms in \<open>auto simp: key_columns_ok_def\<close>)
  ultimately show ?thesis by (simp add: join_create_hashes_def key_hash_def key_of_def comp_def)
qed

text \<open>The built side: rows with key columns of the key types, and the table made of them.\<close>

definition map_ok :: "(u32 \<Rightarrow> bytes \<Rightarrow> u32) \<Rightarrow> data_type list \<Rightarrow> 'v join_hash_map \<Rightarrow> bool" where
  "map_ok hasher types m =
     (length (data_rows m) < 2 ^ 30 \<and> key_columns_ok types (length (data_rows m)) (key_columns m)
      \<and> create_from_key_columns hasher (length (data_rows m)) (key_columns m) = Some (jh_table m))"

definition build_keys :: "'v join_hash_map \<Rightarrow> cell_value list list" where
  "build_keys m = map (key_of (key_columns m)) [0..<length (data_rows m)]"

definition matches :: "'v join_hash_map \<Rightarrow> cell_value list \<Rightarrow> nat list" where
  "matches m k = filter (\<lambda>j. build_keys m ! j = k) [0..<length (data_rows m)]"

text \<open>Looking up the hash of a key and comparing the rows found gives the rows with that key.\<close>

lemma equal_rows_filter:
  assumes "\<forall>j \<in> set js. j < 2 ^ 32 \<and> eq i j = Some (p j)"
  shows "equal_rows eq i (map of_nat js) = Some (map of_nat (filter p js))"
  using assms by (induction js) (simp_all add: unat_of_nat)

lemma probe_map_ok:
  assumes m: "map_ok hasher types m" and k: "key_columns_ok types n keys"
  shows "\<exists>eq vs. probe_map hasher m n keys = Some (eq, vs)
    \<and> length vs = length (filter (probed_valid keys) [0..<n])
    \<and> (\<forall>x < length vs. \<exists>cands. rows_of (mapped_indices (jh_table m)) (vs ! x) = Some cands
         \<and> equal_rows eq (filter (probed_valid keys) [0..<n] ! x) cands
           = Some (map of_nat (matches m (key_of keys (filter (probed_valid keys) [0..<n] ! x)))))"
proof -
  let ?N = "length (data_rows m)" and ?kc = "key_columns m" and ?v = "filter (probed_valid keys) [0..<n]"
  let ?H = "\<lambda>ks i. key_hash hasher (key_of ks i)"
  let ?hb = "map (?H ?kc) [0..<?N]" and ?hp = "map (?H keys) [0..<n]"
  have mk: "key_columns_ok types ?N ?kc" and N: "?N < 2 ^ 30"
    and t: "create_from_key_columns hasher ?N ?kc = Some (jh_table m)" using m by (auto simp: map_ok_def)
  from eq_try_new_exact [OF k mk] obtain eq where eq: "eq_try_new keys ?kc = Some eq"
    "\<forall>i < n. \<forall>j < ?N. \<not> null_key (key_of keys i) \<longrightarrow> \<not> null_key (key_of ?kc j) \<longrightarrow> eq i j = Some (key_of keys i = key_of ?kc j)"
    by blast
  let ?probes = "map ((!) ?hp) ?v"
  have nz: "\<forall>h \<in> set ?probes. h \<noteq> 0" by (auto simp: key_hash_def or_eq_0_iff)
  have len: "\<forall>c \<in> set ?kc. array_len c = ?N" using mk by (auto simp: key_columns_ok_def)
  from join_table_lookup_ok [OF join_hashes_exact [OF mk, of hasher] N len nz] t obtain vs where
    vs: "lookup_many (jh_table m) ?probes = Some vs" "length vs = length ?probes"
    "\<forall>x < length ?probes. rows_of (mapped_indices (jh_table m)) (vs ! x) = Some (matching_rows ?kc ?hb (?probes ! x))"
    by auto
  have run: "probe_map hasher m n keys = Some (eq, vs)"
    using eq(1) vs(1) join_hashes_exact [OF k] by (simp add: probe_map_def)
  have "equal_rows eq (?v ! x) (matching_rows ?kc ?hb (?probes ! x)) = Some (map of_nat (matches m (key_of keys (?v ! x))))"
    if x: "x < length vs" for x
  proof -
    let ?i = "?v ! x" and ?k = "key_of keys (?v ! x)"
    have "?i \<in> set ?v" by (rule nth_mem) (use x vs(2) in simp)
    then have i: "?i < n" "\<not> null_key ?k" using key_valid(2) [OF k] by auto
    have h: "?probes ! x = key_hash hasher ?k" using x vs(2) i(1) by simp
    let ?js = "filter (\<lambda>j. key_is_valid ?kc j = Some True \<and> ?hb ! j = ?probes ! x) [0..<length ?hb]"
    have js: "\<not> null_key (key_of ?kc j)" "j < ?N" if "j \<in> set ?js" for j
      using that key_valid(1) [OF mk, of j] by auto
    have "equal_rows eq ?i (map of_nat ?js) = Some (map of_nat (filter (\<lambda>j. ?k = key_of ?kc j) ?js))"
    proof (intro equal_rows_filter ballI conjI)
      fix j assume "j \<in> set ?js"
      from js [OF this] N i eq(2) show "j < 2 ^ 32" "eq ?i j = Some (?k = key_of ?kc j)" by auto
    qed
    moreover have "filter (\<lambda>j. ?k = key_of ?kc j) ?js = matches m ?k"
      unfolding matches_def filter_filter length_map length_upt minus_nat.diff_0
    proof (rule filter_cong [OF refl])
      fix j assume "j \<in> set [0..<?N]"
      then have j: "j < ?N" by simp
      show "((key_is_valid ?kc j = Some True \<and> ?hb ! j = ?probes ! x) \<and> ?k = key_of ?kc j) = (build_keys m ! j = ?k)"
      proof -
        have hb: "?hb ! j = key_hash hasher (key_of ?kc j)" "build_keys m ! j = key_of ?kc j"
          using j by (simp_all add: build_keys_def)
        show ?thesis
          unfolding hb h key_valid(1) [OF mk j] option.inject by (metis (full_types) i(2))
      qed
    qed
    ultimately show ?thesis by (simp add: matching_rows_def)
  qed
  with run vs(2,3) show ?thesis by auto
qed

section \<open>Inner and outer joins\<close>

subsection \<open>Flushing\<close>

text \<open>The pairs of a probed row and a built row (or none) that collected indices stand for.\<close>

type_synonym pairs = "(nat \<times> nat option) list"

definition ix_build :: "full_joiner_params \<Rightarrow> hash_joined \<Rightarrow> u32 option list" where
  "ix_build J ix = (if probe_side_outer J then build_outer_indices ix else map Some (build_inner_indices ix))"

definition ix_rep :: "full_joiner_params \<Rightarrow> hash_joined \<Rightarrow> pairs \<Rightarrow> bool" where
  "ix_rep J ix ps =
     (probe_indices ix = map (\<lambda>p. of_nat (fst p)) ps \<and> ix_build J ix = map (\<lambda>p. map_option of_nat (snd p)) ps)"

definition pair_ok :: "full_joiner_params \<Rightarrow> nat \<Rightarrow> nat \<Rightarrow> nat \<times> nat option \<Rightarrow> bool" where
  "pair_ok J n N p = (fst p < n \<and> (case snd p of None \<Rightarrow> probe_side_outer J | Some j \<Rightarrow> j < N))"

definition build_row :: "nat \<Rightarrow> 'v row list \<Rightarrow> nat option \<Rightarrow> 'v row" where
  "build_row bc rows jo = (case jo of None \<Rightarrow> replicate bc None | Some j \<Rightarrow> rows ! j)"

text \<open>The output of a pair: probed and built row in the order of the sides.\<close>

definition by_side :: "probe_side \<Rightarrow> ('a \<Rightarrow> 'a \<Rightarrow> 'b) \<Rightarrow> 'a \<Rightarrow> 'a \<Rightarrow> 'b" where
  "by_side side f p b = (case side of ProbeL \<Rightarrow> f p b | ProbeR \<Rightarrow> f b p)"

definition pairs_out :: "('v row \<Rightarrow> 'v row \<Rightarrow> 'v row multiset) \<Rightarrow> probe_side \<Rightarrow> nat \<Rightarrow> 'v row list \<Rightarrow> 'v row list \<Rightarrow> pairs \<Rightarrow> 'v row multiset" where
  "pairs_out f side bc rows built ps = (\<Sum>p \<leftarrow> ps. by_side side f (rows ! fst p) (build_row bc built (snd p)))"

definition hj_params_ok :: "'v hash_join_params \<Rightarrow> ('v row \<Rightarrow> bool option) \<Rightarrow> probe_side \<Rightarrow> nat \<Rightarrow> nat \<Rightarrow> bool" where
  "hj_params_ok P pred side pc bc =
     (project_probed P side = project_cols [0..<pc] \<and> project_built P side = project_cols [0..<bc]
      \<and> output_cols P = pc + bc \<and> probed_cols P side = pc
      \<and> by_side side (params_ok (hj_params P) pred) pc bc
      \<and> proj_left (projection (hj_params P)) = by_side side (\<lambda>l r. [0..<l]) pc bc
      \<and> proj_right (projection (hj_params P)) = by_side side (\<lambda>l r. [0..<r]) pc bc)"

definition built_ok :: "nat \<Rightarrow> 'v join_hash_map \<Rightarrow> bool" where
  "built_ok bc m = (bc \<le> data_cols m \<and> (data_rows m \<noteq> [] \<longrightarrow> data_cols m = bc) \<and> (\<forall>r \<in> set (data_rows m). length r = bc))"

lemma project_full:
  assumes "c \<le> n" and "\<forall>r \<in> set rows. length r = c"
  shows "project_cols [0..<c] (n, rows) = Some (c, rows)"
proof -
  have "map (\<lambda>r. map ((!) r) [0..<c]) rows = rows"
    by (rule map_idI) (use assms(2) map_nth in metis)
  with assms(1) show ?thesis by (simp add: project_cols_def list_all_iff)
qed

lemma take_cols_ok:
  assumes "\<forall>jo \<in> set js. case jo of None \<Rightarrow> True | Some j \<Rightarrow> j < length rows" and "length rows < 2 ^ 32"
  shows "take_cols (n, rows) (map (map_option of_nat) js) = Some (n, map (build_row n rows) js)"
proof -
  have u: "vget rows (unat (of_nat j :: u32)) = Some (rows ! j)" if "j < length rows" for j
    using that assms(2) by (simp add: unat_of_nat)
  have "those (map (\<lambda>i. case i of None \<Rightarrow> Some (replicate n None) | Some i \<Rightarrow> vget rows (unat (i :: u32))) (map (map_option of_nat) js))
      = Some (map (build_row n rows) js)"
    unfolding those_Some_iff using assms
    by (auto simp: build_row_def u split: option.splits)
  then show ?thesis by (simp add: take_cols_def)
qed

lemma take_probed_ok:
  assumes "\<forall>i \<in> set is. i < length rows" and "length rows < 2 ^ 32"
  shows "take_probed (n, rows) (map of_nat is) = Some (n, map ((!) rows) is)"
proof (cases "is_identity (map of_nat is) (length rows)")
  case True
  then have len: "length is = length rows" by (simp add: is_identity_def)
  have "is ! k = k" if "k < length rows" for k
  proof -
    have "(map of_nat is :: u32 list) ! k = of_nat k"
      using True that assms(2) by (auto simp: is_identity_def list_all_length unat_of_nat)
    then have "unat (of_nat (is ! k) :: u32) = unat (of_nat k :: u32)" using that len by simp
    moreover have "is ! k < length rows" using that len assms(1) by simp
    ultimately show ?thesis using that assms(2) by (simp add: unat_of_nat)
  qed
  then have "map ((!) rows) is = rows" by (intro nth_equalityI) (simp_all add: len)
  with True show ?thesis by (simp add: take_probed_def)
next
  case False
  have "take_cols (n, rows) (map (map_option of_nat) (map Some is)) = Some (n, map (build_row n rows) (map Some is))"
    by (rule take_cols_ok) (use assms in auto)
  with False show ?thesis by (simp add: take_probed_def comp_def build_row_def)
qed

lemma set_joined_ok:
  assumes "\<forall>j \<in> set js. j < length bits" and "length bits < 2 ^ 32"
  shows "set_joined (map of_nat js) bits = Some (map (\<lambda>j. bits ! j \<or> j \<in> set js) [0..<length bits])"
  using assms
proof (induction js arbitrary: bits)
  case Nil
  then show ?case by (simp add: map_nth)
next
  case (Cons j js)
  then have "unat (of_nat j :: u32) = j" by (simp add: unat_of_nat)
  with Cons show ?case by (auto simp: nth_list_update)
qed

lemma hj_flush_ok:
  assumes "length prows = length brows" and "pn + bn = output_cols P"
  shows "\<exists>s'. hj_flush P side (pn, prows) (bn, brows) (length brows) s = Some s'
    \<and> concat (hj_sent s') = concat (hj_sent s) @ map2 (by_side side (@)) prows brows \<and> map_joined s' = map_joined s
    \<and> hj_output_rows s' = hj_output_rows s + length brows"
proof -
  have "map2 (@) brows prows = map2 (\<lambda>p b. b @ p) prows brows"
    by (subst zip_commute) (simp add: case_prod_unfold)
  with assms show ?thesis
    by (auto simp: hj_flush_def by_side_def Let_def split: probe_side.splits)
qed

lemma sum_joined_plain:
  assumes "join_filter P = None"
  shows "(\<Sum>p \<leftarrow> ps. by_side side (joined P pred) (g p) (h p)) = mset (map2 (by_side side (@)) (map g ps) (map h ps))"
  using assms by (induction ps) (auto simp: joined_def by_side_def split: probe_side.splits)

lemma sum_joined_filtered:
  fixes g h :: "'p \<Rightarrow> 'v row"
  assumes "join_filter P = Some jf" and "\<forall>p \<in> set ps. by_side side (\<lambda>l r. map ((!) l) (proj_left (projection P)) = l
      \<and> map ((!) r) (proj_right (projection P)) = r) (g p) (h p)"
    and "sel = map (\<lambda>p. by_side side (\<lambda>l r. pred (map (filter_cell l r) (column_indices jf)) = Some True) (g p) (h p)) ps"
  shows "filter_rows sel (map g ps) = Some (map g (map fst (filter snd (zip ps sel))))"
    and "filter_rows sel (map h ps) = Some (map h (map fst (filter snd (zip ps sel))))"
    and "length (filter id sel) = length (filter snd (zip ps sel))"
    and "(\<Sum>p \<leftarrow> ps. by_side side (joined P pred) (g p) (h p))
      = mset (map2 (by_side side (@)) (map g (map fst (filter snd (zip ps sel)))) (map h (map fst (filter snd (zip ps sel)))))"
proof -
  have fr: "filter_rows (map q ps) (map k ps) = Some (map k (map fst (filter snd (zip ps (map q ps)))))"
    for q and k :: "'p \<Rightarrow> 'v row"
    by (simp add: filter_rows_def) (induction ps, auto)
  show "filter_rows sel (map g ps) = Some (map g (map fst (filter snd (zip ps sel))))"
    "filter_rows sel (map h ps) = Some (map h (map fst (filter snd (zip ps sel))))"
    unfolding assms(3) by (rule fr)+
  show "length (filter id sel) = length (filter snd (zip ps sel))"
    unfolding assms(3) by (induction ps) auto
  show "(\<Sum>p \<leftarrow> ps. by_side side (joined P pred) (g p) (h p))
      = mset (map2 (by_side side (@)) (map g (map fst (filter snd (zip ps sel)))) (map h (map fst (filter snd (zip ps sel)))))"
    using assms(2) unfolding assms(3)
    by (induction ps) (auto simp: joined_def by_side_def assms(1) split: probe_side.splits)
qed

text \<open>What a flush needs: parameters that project nothing away, rows of the right width, pairs in range.\<close>

definition flush_ok ::
  "'v hash_join_params \<Rightarrow> ('v row \<Rightarrow> bool option) \<Rightarrow> full_joiner_params \<Rightarrow> nat \<Rightarrow> nat \<Rightarrow> 'v join_hash_map \<Rightarrow> 'v row list \<Rightarrow> bool" where
  "flush_ok P pred J pc bc m rows =
     (hj_params_ok P pred (fj_side J) pc bc \<and> built_ok bc m \<and> length (data_rows m) < 2 ^ 30
      \<and> (\<forall>r \<in> set rows. length r = pc) \<and> length rows < 2 ^ 32
      \<and> (join_filter (hj_params P) \<noteq> None \<longrightarrow> \<not> probe_side_outer J \<and> \<not> build_side_outer J))"

lemma flush_takes:
  assumes ok: "flush_ok P pred J pc bc m rows" and ix: "ix_rep J ix ps"
    and ps: "\<forall>p \<in> set ps. pair_ok J (length rows) (length (data_rows m)) p"
  shows "take_probed (pc, rows) (probe_indices ix) = Some (pc, map (\<lambda>p. rows ! fst p) ps)"
    and "take_cols (bc, data_rows m) (ix_build J ix) = Some (bc, map (\<lambda>p. build_row bc (data_rows m) (snd p)) ps)"
    and "length (probe_indices ix) = length ps" and "length (ix_build J ix) = length ps"
proof -
  have "take_probed (pc, rows) (map of_nat (map fst ps)) = Some (pc, map ((!) rows) (map fst ps))"
    by (rule take_probed_ok) (use ps ok in \<open>auto simp: pair_ok_def flush_ok_def\<close>)
  then show "take_probed (pc, rows) (probe_indices ix) = Some (pc, map (\<lambda>p. rows ! fst p) ps)"
    using ix by (simp add: ix_rep_def comp_def)
  have "take_cols (bc, data_rows m) (map (map_option of_nat) (map snd ps)) = Some (bc, map (build_row bc (data_rows m)) (map snd ps))"
    by (rule take_cols_ok) (use ps ok in \<open>auto simp: pair_ok_def flush_ok_def split: option.splits\<close>)
  then show "take_cols (bc, data_rows m) (ix_build J ix) = Some (bc, map (\<lambda>p. build_row bc (data_rows m) (snd p)) ps)"
    using ix by (simp add: ix_rep_def comp_def)
qed (use ix in \<open>simp_all add: ix_rep_def\<close>)

text \<open>The effect of a flush: the rows of the pairs, and the bits of the built rows in them.\<close>

definition flushed ::
  "'v hash_join_params \<Rightarrow> ('v row \<Rightarrow> bool option) \<Rightarrow> full_joiner_params \<Rightarrow> nat \<Rightarrow> 'v join_hash_map \<Rightarrow> 'v row list \<Rightarrow> pairs
   \<Rightarrow> 'v hash_joiner \<Rightarrow> 'v hash_joiner \<Rightarrow> bool" where
  "flushed P pred J bc m rows ps s s' =
     (mset (concat (hj_sent s'))
        = mset (concat (hj_sent s)) + pairs_out (joined (hj_params P) pred) (fj_side J) bc rows (data_rows m) ps
      \<and> map_joined s' = (if build_side_outer J
          then map (\<lambda>j. map_joined s ! j \<or> Some j \<in> snd ` set ps) [0..<length (data_rows m)] else map_joined s))"

lemma built_indices:
  "List.map_filter id (map (\<lambda>p. map_option of_nat (snd p)) ps) = map of_nat (List.map_filter id (map snd ps))"
  "set (List.map_filter id (map snd ps)) = {j. Some j \<in> snd ` set ps}"
  by (induction ps) (force simp: List.map_filter_simps split: option.splits)+

lemma flush_plain:
  assumes ok: "flush_ok P pred J pc bc m rows" and ix: "ix_rep J ix ps"
    and ps: "\<forall>p \<in> set ps. pair_ok J (length rows) (length (data_rows m)) p"
    and mj: "length (map_joined s) = length (data_rows m)" and None: "join_filter (hj_params P) = None"
  shows "\<exists>s'. flush_hash_joined P J m rows ix s = Some s' \<and> flushed P pred J bc m rows ps s s'"
proof -
  let ?N = "length (data_rows m)" and ?side = "fj_side J"
  let ?g = "\<lambda>p. rows ! fst p" and ?h = "\<lambda>p. build_row bc (data_rows m) (snd p)"
  have proj: "project_probed P ?side = project_cols [0..<pc]" "project_built P ?side = project_cols [0..<bc]"
    "output_cols P = pc + bc" "probed_cols P ?side = pc"
    using ok by (auto simp: flush_ok_def hj_params_ok_def)
  note t = flush_takes [OF ok ix ps]
  have js: "List.map_filter id (ix_build J ix) = map of_nat (List.map_filter id (map snd ps))"
    using ix built_indices(1) [of ps] by (simp add: ix_rep_def)
  have "j < ?N" if "Some j \<in> snd ` set ps" for j
    using that ps by (force simp: pair_ok_def)
  then have js_less: "\<forall>j \<in> set (List.map_filter id (map snd ps)). j < length (map_joined s)"
    by (simp add: built_indices(2) mj)
  let ?bits = "if build_side_outer J then map (\<lambda>j. map_joined s ! j \<or> Some j \<in> snd ` set ps) [0..<?N] else map_joined s"
  have bits: "(if build_side_outer J then set_joined (List.map_filter id (ix_build J ix)) (map_joined s) else Some (map_joined s)) = Some ?bits"
    using set_joined_ok [OF js_less] mj ok by (simp add: js built_indices(2) flush_ok_def)
  from hj_flush_ok [of "map ?g ps" "map ?h ps" pc bc P ?side "s\<lparr>map_joined := ?bits\<rparr>"] proj(3) obtain s' where
    s': "hj_flush P ?side (pc, map ?g ps) (bc, map ?h ps) (length ps) (s\<lparr>map_joined := ?bits\<rparr>) = Some s'"
    "concat (hj_sent s') = concat (hj_sent s) @ map2 (by_side ?side (@)) (map ?g ps) (map ?h ps)" "map_joined s' = ?bits"
    by auto
  have "project_cols [0..<pc] (pc, rows) = Some (pc, rows)" "project_cols [0..<bc] (data_cols m, data_rows m) = Some (bc, data_rows m)"
    using ok by (auto simp: flush_ok_def built_ok_def intro!: project_full)
  then have "flush_hash_joined P J m rows ix s = Some s'"
    using None proj t bits s'(1) by (simp add: flush_hash_joined_def Let_def ix_build_def [symmetric])
  moreover have "flushed P pred J bc m rows ps s s'"
    using s'(3) sum_joined_plain [OF None, where g = ?g and h = ?h and side = ?side and pred = pred and ps = ps]
    unfolding flushed_def pairs_out_def s'(2) by simp
  ultimately show ?thesis by blast
qed

lemma evaluate_filter_map:
  assumes "params_ok P pred lc rc" and "join_filter P = Some jf"
  shows "evaluate_filter jf lc rc (map a ps) (map b ps)
    = Some (map (\<lambda>p. pred (map (filter_cell (a p) (b p)) (column_indices jf)) = Some True) ps)"
  using evaluate_filter_ok [of lc rc jf pred "map a ps" "map b ps"] assms by (simp add: params_ok_def map2_map_map)

lemma flush_filtered:
  assumes ok: "flush_ok P pred J pc bc m rows" and ix: "ix_rep J ix ps"
    and ps: "\<forall>p \<in> set ps. pair_ok J (length rows) (length (data_rows m)) p" "ps \<noteq> []"
    and jf: "join_filter (hj_params P) = Some jf"
  shows "\<exists>s'. flush_hash_joined P J m rows ix s = Some s' \<and> flushed P pred J bc m rows ps s s'"
proof -
  let ?side = "fj_side J" and ?g = "\<lambda>p. rows ! fst p" and ?h = "\<lambda>p. build_row bc (data_rows m) (snd p)"
  have proj: "project_probed P ?side = project_cols [0..<pc]" "project_built P ?side = project_cols [0..<bc]"
    "output_cols P = pc + bc" "probed_cols P ?side = pc" "by_side ?side (params_ok (hj_params P) pred) pc bc"
    "proj_left (projection (hj_params P)) = by_side ?side (\<lambda>l r. [0..<l]) pc bc"
    "proj_right (projection (hj_params P)) = by_side ?side (\<lambda>l r. [0..<r]) pc bc"
    using ok by (auto simp: flush_ok_def hj_params_ok_def)
  note t = flush_takes [OF ok ix ps(1)]
  have inner: "\<not> probe_side_outer J" "\<not> build_side_outer J" using ok jf by (auto simp: flush_ok_def)
  then have "data_rows m \<noteq> []" using ps by (cases ps) (auto simp: pair_ok_def split: option.splits)
  then have dc: "data_cols m = bc" using ok by (simp add: flush_ok_def built_ok_def)
  let ?sel = "map (\<lambda>p. by_side ?side (\<lambda>l r. pred (map (filter_cell l r) (column_indices jf)) = Some True) (?g p) (?h p)) ps"
  define qs where "qs = map fst (filter snd (zip ps ?sel))"
  have cols: "length (?g p) = pc" "length (?h p) = bc" if "p \<in> set ps" for p
    using that ps(1) ok by (auto simp: pair_ok_def flush_ok_def built_ok_def build_row_def split: option.splits)
  have full: "\<forall>p \<in> set ps. by_side ?side (\<lambda>l r. map ((!) l) (proj_left (projection (hj_params P))) = l
      \<and> map ((!) r) (proj_right (projection (hj_params P))) = r) (?g p) (?h p)"
  proof
    fix p assume p: "p \<in> set ps"
    have "map ((!) (?g p)) [0..<pc] = ?g p" "map ((!) (?h p)) [0..<bc] = ?h p"
      using cols [OF p] map_nth by metis+
    then show "by_side ?side (\<lambda>l r. map ((!) l) (proj_left (projection (hj_params P))) = l
      \<and> map ((!) r) (proj_right (projection (hj_params P))) = r) (?g p) (?h p)"
      unfolding proj(6,7) by (cases ?side) (simp_all add: by_side_def)
  qed
  have f: "filter_rows ?sel (map ?g ps) = Some (map ?g qs)" "filter_rows ?sel (map ?h ps) = Some (map ?h qs)"
    "length (filter id ?sel) = length (filter snd (zip ps ?sel))"
    "(\<Sum>p \<leftarrow> ps. by_side ?side (joined (hj_params P) pred) (?g p) (?h p)) = mset (map2 (by_side ?side (@)) (map ?g qs) (map ?h qs))"
    unfolding qs_def by (rule sum_joined_filtered [OF jf full refl])+
  have ev: "evaluate_filter jf (by_side ?side (\<lambda>l r. l) pc bc) (by_side ?side (\<lambda>l r. r) pc bc)
      (by_side ?side (\<lambda>l r. l) (map ?g ps) (map ?h ps)) (by_side ?side (\<lambda>l r. r) (map ?g ps) (map ?h ps)) = Some ?sel"
    using proj(5) evaluate_filter_map [OF _ jf, of pred] by (cases ?side) (simp_all add: by_side_def)
  have sub: "set qs \<subseteq> set ps" by (auto simp: qs_def dest: set_zip_leftD)
  have "length (filter snd (zip ps ?sel)) = length qs" by (simp add: qs_def)
  with f(3) have n: "length (filter id ?sel) = length qs" by simp
  have cq: "length (?g p) = pc" "length (?h p) = bc" if "p \<in> set qs" for p
    using cols [OF subsetD [OF sub that]] by simp_all
  have pj: "project_cols [0..<pc] (pc, map ?g qs) = Some (pc, map ?g qs)" "project_cols [0..<bc] (bc, map ?h qs) = Some (bc, map ?h qs)"
    by (rule project_full; simp add: cq)+
  from hj_flush_ok [of "map ?g qs" "map ?h qs" pc bc P ?side s] proj(3) obtain s' where
    s': "hj_flush P ?side (pc, map ?g qs) (bc, map ?h qs) (length qs) s = Some s'"
    "concat (hj_sent s') = concat (hj_sent s) @ map2 (by_side ?side (@)) (map ?g qs) (map ?h qs)" "map_joined s' = map_joined s"
    by auto
  have lens: "length (probe_indices ix) = length (ix_build J ix)" by (simp only: t)
  have "flush_hash_joined P J m rows ix s = Some s'"
    using jf inner proj(1-4) t(1,2) ev f(1,2) n pj s'(1) lens dc
    by (cases ?side) (simp_all add: flush_hash_joined_def Let_def ix_build_def by_side_def del: map_map)
  moreover have "flushed P pred J bc m rows ps s s'"
    using f(4) s'(3) inner unfolding flushed_def pairs_out_def s'(2) by simp
  ultimately show ?thesis by blast
qed

lemma flush_hash_joined_ok:
  assumes "flush_ok P pred J pc bc m rows" and "ix_rep J ix ps"
    and "\<forall>p \<in> set ps. pair_ok J (length rows) (length (data_rows m)) p" "ps \<noteq> []"
    and "length (map_joined s) = length (data_rows m)"
  shows "\<exists>s'. flush_hash_joined P J m rows ix s = Some s' \<and> flushed P pred J bc m rows ps s s'"
  using flush_plain [OF assms(1-3,5)] flush_filtered [OF assms(1-4)] by (cases "join_filter (hj_params P)") auto

subsection \<open>The loop over the rows\<close>

lemma join_candidates_ok:
  assumes "equal_rows eq i cands = Some js" and "ix_rep J ix ps" and "\<exists>ks. js = map of_nat ks \<and> ms = ks"
  shows "\<exists>ix'. join_candidates J eq i cands b ix = Some (b \<or> js \<noteq> [], ix') \<and> ix_rep J ix' (ps @ map (\<lambda>j. (i, Some j)) ms)"
  using assms
proof (induction cands arbitrary: b ix ps js ms)
  case (Cons c cands)
  then obtain e js' where e: "eq i (unat c) = Some e" "equal_rows eq i cands = Some js'" "js = (if e then c # js' else js')"
    by (auto split: Option.bind_splits if_splits)
  show ?case
  proof (cases e)
    case False
    with Cons.IH [of js' ix ps ms b] Cons.prems e show ?thesis by auto
  next
    case True
    with Cons.prems e obtain k ks where k: "c = of_nat k" "js' = map of_nat ks" "ms = k # ks" by auto
    let ?ix = "if probe_side_outer J
       then ix\<lparr>probe_indices := probe_indices ix @ [of_nat i], build_outer_indices := build_outer_indices ix @ [Some c]\<rparr>
       else ix\<lparr>probe_indices := probe_indices ix @ [of_nat i], build_inner_indices := build_inner_indices ix @ [c]\<rparr>"
    have "ix_rep J ?ix (ps @ [(i, Some k)])" using Cons.prems(2) k(1) by (auto simp: ix_rep_def ix_build_def)
    from Cons.IH [OF e(2) this, of ks True] k e True show ?thesis by auto
  qed
qed auto

text \<open>What probing gives for the rows of a batch with a valid key.\<close>

definition probes_ok :: "'v join_hash_map \<Rightarrow> array list \<Rightarrow> nat \<Rightarrow> eq_fn \<Rightarrow> map_value list \<Rightarrow> bool" where
  "probes_ok m keys n eq vs =
     (\<forall>i < n. probed_valid keys i \<longrightarrow>
        (\<exists>v cands. vget vs (length (filter (probed_valid keys) [0..<i])) = Some v
           \<and> rows_of (mapped_indices (jh_table m)) v = Some cands
           \<and> equal_rows eq i cands = Some (map of_nat (matches m (key_of keys i)))))"

lemma filter_upt_nth:
  assumes "i < n" and "p i"
  shows "length (filter p [0..<i]) < length (filter p [0..<n])" and "filter p [0..<n] ! length (filter p [0..<i]) = i"
proof -
  have "[0..<n] = [0..<i] @ i # [Suc i..<n]"
    using assms(1) by (metis less_imp_add_positive upt_add_eq_append upt_conv_Cons zero_le)
  then have "filter p [0..<n] = filter p [0..<i] @ i # filter p [Suc i..<n]" using assms(2) by simp
  then show "length (filter p [0..<i]) < length (filter p [0..<n])" "filter p [0..<n] ! length (filter p [0..<i]) = i"
    by (simp_all add: nth_append)
qed

lemma probes_okI:
  assumes "map_ok hasher types m" and "key_columns_ok types n keys"
  shows "\<exists>eq vs. probe_map hasher m n keys = Some (eq, vs) \<and> probes_ok m keys n eq vs"
proof -
  from probe_map_ok [OF assms] obtain eq vs where e: "probe_map hasher m n keys = Some (eq, vs)"
    "length vs = length (filter (probed_valid keys) [0..<n])"
    "\<forall>x < length vs. \<exists>cands. rows_of (mapped_indices (jh_table m)) (vs ! x) = Some cands
       \<and> equal_rows eq (filter (probed_valid keys) [0..<n] ! x) cands
         = Some (map of_nat (matches m (key_of keys (filter (probed_valid keys) [0..<n] ! x))))" by blast
  have "probes_ok m keys n eq vs"
    unfolding probes_ok_def
  proof (intro allI impI)
    fix i assume i: "i < n" "probed_valid keys i"
    note x = filter_upt_nth [of i n "probed_valid keys", OF i]
    from e(3) [rule_format, of "length (filter (probed_valid keys) [0..<i])", unfolded x(2)] x(1) e(2)
    show "\<exists>v cands. vget vs (length (filter (probed_valid keys) [0..<i])) = Some v
        \<and> rows_of (mapped_indices (jh_table m)) v = Some cands
        \<and> equal_rows eq i cands = Some (map of_nat (matches m (key_of keys i)))" by auto
  qed
  with e(1) show ?thesis by blast
qed

definition row_matches :: "'v join_hash_map \<Rightarrow> array list \<Rightarrow> nat \<Rightarrow> nat list" where
  "row_matches m keys i = (if null_key (key_of keys i) then [] else matches m (key_of keys i))"

definition row_pairs :: "full_joiner_params \<Rightarrow> 'v join_hash_map \<Rightarrow> array list \<Rightarrow> nat \<Rightarrow> pairs" where
  "row_pairs J m keys i =
     (if probe_side_outer J \<and> row_matches m keys i = [] then [(i, None)] else map (\<lambda>j. (i, Some j)) (row_matches m keys i))"

lemma row_pairs_ok: "i < n \<Longrightarrow> \<forall>p \<in> set (row_pairs J m keys i). pair_ok J n (length (data_rows m)) p"
  by (auto simp: row_pairs_def row_matches_def matches_def pair_ok_def)

text \<open>The output and the bits a state stands for with the pairs still to be flushed.\<close>

definition account ::
  "'v hash_join_params \<Rightarrow> ('v row \<Rightarrow> bool option) \<Rightarrow> full_joiner_params \<Rightarrow> nat \<Rightarrow> 'v join_hash_map \<Rightarrow> 'v row list
   \<Rightarrow> 'v hash_joiner \<Rightarrow> pairs \<Rightarrow> 'v row multiset \<times> bool list" where
  "account P pred J bc m rows s ps =
     (mset (concat (hj_sent s)) + pairs_out (joined (hj_params P) pred) (fj_side J) bc rows (data_rows m) ps,
      if build_side_outer J then map (\<lambda>j. map_joined s ! j \<or> Some j \<in> snd ` set ps) [0..<length (data_rows m)] else map_joined s)"

lemma account_flushed:
  assumes "flushed P pred J bc m rows ps s s'"
  shows "account P pred J bc m rows s' qs = account P pred J bc m rows s (ps @ qs)"
  using assms by (auto simp: flushed_def account_def pairs_out_def image_Un ac_simps)

lemma account_append:
  assumes "account P pred J bc m rows s ps = account P pred J bc m rows s' ps'"
  shows "account P pred J bc m rows s (ps @ qs) = account P pred J bc m rows s' (ps' @ qs)"
  using assms by (auto simp: account_def pairs_out_def split: if_splits)

text \<open>One row: its pairs are appended, and possibly all pairs flushed.\<close>

lemma probe_row_ok:
  assumes k: "key_columns_ok types (length rows) keys" and pr: "probes_ok m keys (length rows) eq vs"
    and i: "i < length rows" and ix: "ix_rep J ix ps"
  shows "\<exists>is_joined ix'. (if probed_valid keys i
      then do { v \<leftarrow> vget vs (length (filter (probed_valid keys) [0..<i]));
                candidates \<leftarrow> rows_of (mapped_indices (jh_table m)) v;
                (is_joined, ix) \<leftarrow> join_candidates J eq i candidates False ix;
                Some (is_joined, length (filter (probed_valid keys) [0..<i]) + 1, ix) }
      else Some (False, length (filter (probed_valid keys) [0..<i]), ix))
      = Some (is_joined, length (filter (probed_valid keys) [0..<Suc i]), ix')
    \<and> ix_rep J (if probe_side_outer J \<and> \<not> is_joined
        then ix'\<lparr>probe_indices := probe_indices ix' @ [of_nat i], build_outer_indices := build_outer_indices ix' @ [None]\<rparr>
        else ix') (ps @ row_pairs J m keys i)"
proof (cases "probed_valid keys i")
  case True
  then have nn: "\<not> null_key (key_of keys i)" using key_valid(2) [OF k i] by simp
  from pr True i obtain v cands where v: "vget vs (length (filter (probed_valid keys) [0..<i])) = Some v"
    "rows_of (mapped_indices (jh_table m)) v = Some cands"
    "equal_rows eq i cands = Some (map of_nat (matches m (key_of keys i)))" unfolding probes_ok_def by blast
  from join_candidates_ok [OF v(3) ix, of "matches m (key_of keys i)" False] obtain ix' where
    "join_candidates J eq i cands False ix = Some (matches m (key_of keys i) \<noteq> [], ix')"
    "ix_rep J ix' (ps @ map (\<lambda>j. (i, Some j)) (matches m (key_of keys i)))" by auto
  with v True nn show ?thesis by (auto simp: row_pairs_def row_matches_def ix_rep_def ix_build_def)
next
  case False
  then have "null_key (key_of keys i)" using key_valid(2) [OF k i] by simp
  then have "row_matches m keys i = []" by (simp add: row_matches_def)
  with False ix show ?thesis
    by (intro exI [of _ False] exI [of _ ix]) (cases "probe_side_outer J"; simp add: row_pairs_def ix_rep_def ix_build_def)
qed

lemma maybe_flush_ok:
  assumes ok: "flush_ok P pred J pc bc m rows"
    and ix: "ix_rep J ix ps" "\<forall>p \<in> set ps. pair_ok J (length rows) (length (data_rows m)) p"
    and mj: "length (map_joined s) = length (data_rows m)"
  shows "\<exists>s' ix' ps'. (if length (probe_indices ix) > b then flush_hash_joined P J m rows ix s else Some s) = Some s'
    \<and> ix' = (if length (probe_indices ix) > b then no_indices else ix) \<and> ix_rep J ix' ps'
    \<and> (\<forall>p \<in> set ps'. pair_ok J (length rows) (length (data_rows m)) p)
    \<and> length (map_joined s') = length (data_rows m) \<and> account P pred J bc m rows s' ps' = account P pred J bc m rows s ps"
proof (cases "length (probe_indices ix) > b")
  case True
  then have "ps \<noteq> []" using ix by (auto simp: ix_rep_def)
  from flush_hash_joined_ok [OF ok ix this mj] obtain s1 where
    s1: "flush_hash_joined P J m rows ix s = Some s1" "flushed P pred J bc m rows ps s s1" by blast
  have "ix_rep J no_indices []" "length (map_joined s1) = length (data_rows m)"
    using s1(2) mj by (simp_all add: ix_rep_def ix_build_def no_indices_def flushed_def)
  with account_flushed [OF s1(2), of "[]"] True s1(1) show ?thesis by (intro exI [of _ s1] exI [of _ no_indices] exI [of _ "[]"]) simp
next
  case False
  with ix mj show ?thesis by auto
qed

lemma full_probe_rows_ok:
  assumes ok: "flush_ok P pred J pc bc m rows" and k: "key_columns_ok types (length rows) keys"
    and pr: "probes_ok m keys (length rows) eq vs" and i: "i \<le> length rows"
    and ix: "ix_rep J ix ps" "\<forall>p \<in> set ps. pair_ok J (length rows) (length (data_rows m)) p"
    and mj: "length (map_joined s) = length (data_rows m)"
  shows "\<exists>ix' ps' s'. full_probe_rows P J m rows keys eq vs [i..<length rows] (length (filter (probed_valid keys) [0..<i])) ix s = Some (ix', s')
    \<and> ix_rep J ix' ps' \<and> (\<forall>p \<in> set ps'. pair_ok J (length rows) (length (data_rows m)) p)
    \<and> length (map_joined s') = length (data_rows m)
    \<and> account P pred J bc m rows s' ps' = account P pred J bc m rows s (ps @ concat (map (row_pairs J m keys) [i..<length rows]))"
  using i ix mj
proof (induction "length rows - i" arbitrary: i ix ps s)
  case 0
  then show ?case by auto
next
  case (Suc d)
  then have i: "i < length rows" by simp
  let ?ps = "ps @ row_pairs J m keys i" and ?rest = "concat (map (row_pairs J m keys) [Suc i..<length rows])"
  have upt: "[i..<length rows] = i # [Suc i..<length rows]" using i by (rule upt_conv_Cons)
  from probe_row_ok [OF k pr i Suc.prems(2)] obtain j ix1 where step:
    "(if probed_valid keys i
      then do { v \<leftarrow> vget vs (length (filter (probed_valid keys) [0..<i]));
                candidates \<leftarrow> rows_of (mapped_indices (jh_table m)) v;
                (is_joined, ix) \<leftarrow> join_candidates J eq i candidates False ix;
                Some (is_joined, length (filter (probed_valid keys) [0..<i]) + 1, ix) }
      else Some (False, length (filter (probed_valid keys) [0..<i]), ix))
      = Some (j, length (filter (probed_valid keys) [0..<Suc i]), ix1)"
    "ix_rep J (if probe_side_outer J \<and> \<not> j
        then ix1\<lparr>probe_indices := probe_indices ix1 @ [of_nat i], build_outer_indices := build_outer_indices ix1 @ [None]\<rparr>
        else ix1) ?ps" (is "ix_rep J ?ix2 ?ps") by blast
  have pairs: "\<forall>p \<in> set ?ps. pair_ok J (length rows) (length (data_rows m)) p"
    using Suc.prems(3) row_pairs_ok [OF i, of J m keys] by auto
  from maybe_flush_ok [OF ok step(2) pairs Suc.prems(4), of "max (batch_size (hj_params P)) (length rows)"] obtain s1 ix3 ps3 where s1:
    "(if length (probe_indices ?ix2) > max (batch_size (hj_params P)) (length rows) then flush_hash_joined P J m rows ?ix2 s else Some s) = Some s1"
    "ix3 = (if length (probe_indices ?ix2) > max (batch_size (hj_params P)) (length rows) then no_indices else ?ix2)"
    "ix_rep J ix3 ps3" "\<forall>p \<in> set ps3. pair_ok J (length rows) (length (data_rows m)) p"
    "length (map_joined s1) = length (data_rows m)" "account P pred J bc m rows s1 ps3 = account P pred J bc m rows s ?ps"
    by blast
  have "d = length rows - Suc i" "Suc i \<le> length rows" using Suc.hyps(2) i by auto
  from Suc.hyps(1) [OF this s1(3,4,5)] obtain ix' ps' s' where fin:
    "full_probe_rows P J m rows keys eq vs [Suc i..<length rows] (length (filter (probed_valid keys) [0..<Suc i])) ix3 s1 = Some (ix', s')"
    "ix_rep J ix' ps'" "\<forall>p \<in> set ps'. pair_ok J (length rows) (length (data_rows m)) p" "length (map_joined s') = length (data_rows m)"
    "account P pred J bc m rows s' ps' = account P pred J bc m rows s1 (ps3 @ ?rest)" by blast
  have "full_probe_rows P J m rows keys eq vs [i..<length rows] (length (filter (probed_valid keys) [0..<i])) ix s = Some (ix', s')"
    unfolding upt full_probe_rows.simps step(1) using s1(1,2) fin(1) by (auto simp: Let_def split: if_splits)
  moreover have "account P pred J bc m rows s' ps' = account P pred J bc m rows s (ps @ concat (map (row_pairs J m keys) [i..<length rows]))"
    unfolding fin(5) account_append [OF s1(6)] by (simp only: upt list.map concat.simps append.assoc)
  ultimately show ?case using fin(2-4) by blast
qed

lemma hj_full_join_ok:
  assumes "flush_ok P pred J pc bc m (pb_rows b)" and "map_ok hasher types m"
    and "pb_keys b = Some keys" and k: "key_columns_ok types (length (pb_rows b)) keys"
    and mj: "length (map_joined s) = length (data_rows m)"
  shows "\<exists>s'. hj_full_join hasher P J m b s = Some s' \<and> length (map_joined s') = length (data_rows m)
    \<and> account P pred J bc m (pb_rows b) s' []
      = account P pred J bc m (pb_rows b) s (concat (map (row_pairs J m keys) [0..<length (pb_rows b)]))"
proof -
  let ?rows = "pb_rows b"
  from probes_okI [OF assms(2) k] obtain eq vs where e: "probe_map hasher m (length ?rows) keys = Some (eq, vs)"
    "probes_ok m keys (length ?rows) eq vs" by blast
  have ix0: "ix_rep J no_indices []" by (simp add: ix_rep_def ix_build_def no_indices_def)
  from full_probe_rows_ok [OF assms(1) k e(2) _ ix0 _ mj, of 0] obtain ix ps s1 where r:
    "full_probe_rows P J m ?rows keys eq vs [0..<length ?rows] 0 no_indices s = Some (ix, s1)" "ix_rep J ix ps"
    "\<forall>p \<in> set ps. pair_ok J (length ?rows) (length (data_rows m)) p" "length (map_joined s1) = length (data_rows m)"
    "account P pred J bc m ?rows s1 ps = account P pred J bc m ?rows s (concat (map (row_pairs J m keys) [0..<length ?rows]))"
    by auto
  show ?thesis
  proof (cases "ps = []")
    case True
    then have "probe_indices ix = []" using r(2) by (simp add: ix_rep_def)
    with r e assms(3) True show ?thesis by (auto simp: hj_full_join_def)
  next
    case False
    then have "probe_indices ix \<noteq> []" using r(2) by (simp add: ix_rep_def)
    moreover from flush_hash_joined_ok [OF assms(1) r(2,3) False r(4)] obtain s' where
      s': "flush_hash_joined P J m ?rows ix s1 = Some s'" "flushed P pred J bc m ?rows ps s1 s'" by blast
    ultimately have "hj_full_join hasher P J m b s = Some s'" using r(1) e assms(3) by (simp add: hj_full_join_def)
    moreover have "length (map_joined s') = length (data_rows m)" using s'(2) r(4) by (simp add: flushed_def)
    ultimately show ?thesis using account_flushed [OF s'(2), of "[]"] r(5) by auto
  qed
qed

subsection \<open>The joined rows are those of the relational join\<close>

definition built_items :: "'v join_hash_map \<Rightarrow> (cell_value list \<times> 'v row) list" where
  "built_items m = map (\<lambda>j. (build_keys m ! j, data_rows m ! j)) [0..<length (data_rows m)]"

definition probe_items :: "'v probe_batch \<Rightarrow> (cell_value list \<times> 'v row) list" where
  "probe_items b = map (\<lambda>i. (key_of (the (pb_keys b)) i, pb_rows b ! i)) [0..<length (pb_rows b)]"

text \<open>A batch the joins accept: key columns of the key types, rows of \<open>pc\<close> cells.\<close>

definition probe_ok :: "data_type list \<Rightarrow> nat \<Rightarrow> 'v probe_batch \<Rightarrow> bool" where
  "probe_ok types pc b =
     ((\<exists>keys. pb_keys b = Some keys \<and> key_columns_ok types (length (pb_rows b)) keys)
      \<and> (\<forall>r \<in> set (pb_rows b). length r = pc) \<and> length (pb_rows b) < 2 ^ 32)"

lemma sum_filter_list: "(\<Sum>x \<leftarrow> filter p xs. g x) = (\<Sum>x \<leftarrow> xs. if p x then g x else {#})"
  by (induction xs) auto

lemma sum_matches:
  "(\<Sum>j \<leftarrow> matches m k. g (data_rows m ! j)) = (\<Sum>y \<leftarrow> built_items m. if k = fst y then g (snd y) else {#})"
  by (simp add: matches_def built_items_def sum_filter_list comp_def eq_commute [of k] cong: if_cong)

lemma matches_empty: "matches m k = [] \<longleftrightarrow> k \<notin> fst ` set (built_items m)"
  by (auto simp: matches_def built_items_def filter_empty_conv image_iff)

lemma row_pairs_out:
  "pairs_out f side bc rows (data_rows m) (row_pairs J m keys i) =
     (\<Sum>y \<leftarrow> built_items m. if key_of keys i = fst y \<and> \<not> null_key (key_of keys i) then by_side side f (rows ! i) (snd y) else {#})
     + (if probe_side_outer J \<and> \<not> has_match null_key (built_items m) (key_of keys i, rows ! i)
        then by_side side f (rows ! i) (replicate bc None) else {#})"
proof (cases "null_key (key_of keys i)")
  case True
  then show ?thesis
    by (auto simp: row_pairs_def row_matches_def pairs_out_def build_row_def has_match_def)
next
  case False
  have "(\<Sum>y \<leftarrow> built_items m. if key_of keys i = fst y \<and> \<not> null_key (key_of keys i) then by_side side f (rows ! i) (snd y) else {#})
      = (\<Sum>j \<leftarrow> matches m (key_of keys i). by_side side f (rows ! i) (data_rows m ! j))"
    using False by (simp add: sum_matches)
  with False show ?thesis
    by (auto simp: row_pairs_def row_matches_def pairs_out_def build_row_def has_match_def matches_empty [symmetric] comp_def)
qed

lemma batch_pairs_out:
  assumes "pb_keys b = Some keys"
  shows "pairs_out f side bc (pb_rows b) (data_rows m) (concat (map (row_pairs J m keys) [0..<length (pb_rows b)])) =
    matched_rows null_key (by_side side f) (probe_items b) (built_items m)
    + (if probe_side_outer J then unmatched_rows null_key (\<lambda>p. by_side side f p (replicate bc None)) (probe_items b) (built_items m) else {#})"
proof -
  let ?po = "\<lambda>x. if probe_side_outer J \<and> \<not> has_match null_key (built_items m) x then by_side side f (snd x) (replicate bc None) else {#}"
  have "pairs_out f side bc (pb_rows b) (data_rows m) (concat (map (row_pairs J m keys) is))
      = (\<Sum>i \<leftarrow> is. pairs_out f side bc (pb_rows b) (data_rows m) (row_pairs J m keys i))" for "is"
    by (induction "is") (simp_all add: pairs_out_def)
  then have "pairs_out f side bc (pb_rows b) (data_rows m) (concat (map (row_pairs J m keys) [0..<length (pb_rows b)]))
      = (\<Sum>x \<leftarrow> probe_items b. (\<Sum>y \<leftarrow> built_items m. if fst x = fst y \<and> \<not> null_key (fst x) then by_side side f (snd x) (snd y) else {#}) + ?po x)"
    by (simp add: row_pairs_out probe_items_def assms comp_def cong: if_cong)
  also have "\<dots> = matched_rows null_key (by_side side f) (probe_items b) (built_items m) + (\<Sum>x \<leftarrow> probe_items b. ?po x)"
    by (simp add: matched_rows_def cross_def sum_list_addf)
  also have "(\<Sum>x \<leftarrow> probe_items b. ?po x)
      = (if probe_side_outer J then unmatched_rows null_key (\<lambda>p. by_side side f p (replicate bc None)) (probe_items b) (built_items m) else {#})"
    by (auto simp: unmatched_rows_def sum_empty intro!: arg_cong [where f = sum_list])
  finally show ?thesis .
qed

lemma batch_pairs_bits:
  assumes "pb_keys b = Some keys" and "j < length (data_rows m)"
  shows "Some j \<in> snd ` set (concat (map (row_pairs J m keys) [0..<length (pb_rows b)]))
    \<longleftrightarrow> has_match null_key (probe_items b) (build_keys m ! j, data_rows m ! j)"
proof -
  have "Some j \<in> snd ` set (row_pairs J m keys i) \<longleftrightarrow> \<not> null_key (key_of keys i) \<and> build_keys m ! j = key_of keys i" for i
    using assms(2) by (auto simp: row_pairs_def row_matches_def matches_def image_iff filter_empty_conv)
  then have "Some j \<in> snd ` set (concat (map (row_pairs J m keys) [0..<length (pb_rows b)]))
      \<longleftrightarrow> (\<exists>i < length (pb_rows b). \<not> null_key (key_of keys i) \<and> build_keys m ! j = key_of keys i)"
    by (simp add: image_UN) auto
  then show ?thesis using assms(1) by (auto simp: has_match_def probe_items_def image_iff)
qed

subsection \<open>All batches\<close>

text \<open>The state after the probed rows \<open>xs\<close>.\<close>

definition full_inv ::
  "'v hash_join_params \<Rightarrow> ('v row \<Rightarrow> bool option) \<Rightarrow> full_joiner_params \<Rightarrow> nat \<Rightarrow> 'v join_hash_map \<Rightarrow> 'v hash_joiner
   \<Rightarrow> (cell_value list \<times> 'v row) list \<Rightarrow> bool" where
  "full_inv P pred J bc m s xs =
     (let f = by_side (fj_side J) (joined (hj_params P) pred); ys = built_items m
      in mset (concat (hj_sent s)) = matched_rows null_key f xs ys
           + (if probe_side_outer J then unmatched_rows null_key (\<lambda>p. f p (replicate bc None)) xs ys else {#})
         \<and> length (map_joined s) = length (data_rows m)
         \<and> (build_side_outer J \<longrightarrow> map_joined s = map (has_match null_key xs) ys))"

lemma has_match_append: "has_match null (xs @ ys) x = (has_match null xs x \<or> has_match null ys x)"
  by (auto simp: has_match_def)

lemma length_built_items [simp]: "length (built_items m) = length (data_rows m)"
  by (simp add: built_items_def)

lemma matched_append: "matched_rows null f (xs @ xs') ys = matched_rows null f xs ys + matched_rows null f xs' ys"
  by (simp add: matched_rows_def cross_append)

lemma full_inv_batch:
  assumes ok: "hj_params_ok P pred (fj_side J) pc bc" "built_ok bc m"
      "join_filter (hj_params P) \<noteq> None \<longrightarrow> \<not> probe_side_outer J \<and> \<not> build_side_outer J"
    and m: "map_ok hasher types m" and b: "probe_ok types pc b" and inv: "full_inv P pred J bc m s xs"
  shows "\<exists>s'. hj_full_join hasher P J m b s = Some s' \<and> full_inv P pred J bc m s' (xs @ probe_items b)"
proof -
  from b obtain keys where k: "pb_keys b = Some keys" "key_columns_ok types (length (pb_rows b)) keys" by (auto simp: probe_ok_def)
  have fo: "flush_ok P pred J pc bc m (pb_rows b)" using ok b m by (simp add: flush_ok_def probe_ok_def map_ok_def)
  have mj: "length (map_joined s) = length (data_rows m)" using inv by (simp add: full_inv_def Let_def)
  from hj_full_join_ok [OF fo m k mj] obtain s' where s': "hj_full_join hasher P J m b s = Some s'"
    "length (map_joined s') = length (data_rows m)"
    and acc: "account P pred J bc m (pb_rows b) s' []
      = account P pred J bc m (pb_rows b) s (concat (map (row_pairs J m keys) [0..<length (pb_rows b)]))" by blast
  from acc have out: "mset (concat (hj_sent s')) = mset (concat (hj_sent s))
      + pairs_out (joined (hj_params P) pred) (fj_side J) bc (pb_rows b) (data_rows m) (concat (map (row_pairs J m keys) [0..<length (pb_rows b)]))"
    by (simp add: account_def pairs_out_def)
  have "map_joined s' = map (has_match null_key (xs @ probe_items b)) (built_items m)" if bo: "build_side_outer J"
  proof (rule nth_equalityI)
    fix j assume "j < length (map_joined s')"
    then have j: "j < length (data_rows m)" by (simp add: s'(2))
    have "map (\<lambda>j. map_joined s' ! j) [0..<length (data_rows m)] = map (\<lambda>j. map_joined s ! j
        \<or> Some j \<in> snd ` set (concat (map (row_pairs J m keys) [0..<length (pb_rows b)]))) [0..<length (data_rows m)]"
      using acc bo by (simp add: account_def)
    then have "map_joined s' ! j = (map_joined s ! j \<or> Some j \<in> snd ` set (concat (map (row_pairs J m keys) [0..<length (pb_rows b)])))"
      using j by (simp add: map_eq_conv)
    moreover have "map_joined s ! j = has_match null_key xs (build_keys m ! j, data_rows m ! j)"
      using inv bo j by (simp add: full_inv_def Let_def built_items_def)
    ultimately show "map_joined s' ! j = map (has_match null_key (xs @ probe_items b)) (built_items m) ! j"
      using batch_pairs_bits [OF k(1) j] j by (simp add: has_match_append built_items_def)
  qed (simp add: s'(2))
  then have "full_inv P pred J bc m s' (xs @ probe_items b)"
    using inv s'(2) unfolding full_inv_def Let_def out batch_pairs_out [OF k(1)]
    by (auto simp: matched_append unmatched_append ac_simps)
  with s'(1) show ?thesis by blast
qed

text \<open>A table without a valid key has no partner for any row.\<close>

lemma all_nulls_no_match:
  assumes m: "map_ok hasher types m" and "is_all_nulls (jh_table m)" and "y \<in> set (built_items m)"
  shows "null_key (fst y)"
proof -
  let ?N = "length (data_rows m)" and ?kc = "key_columns m"
  from m obtain hashes where h: "create_from_key_columns_and_hashes ?N ?kc hashes = Some (jh_table m)"
    "join_create_hashes hasher ?N ?kc = Some hashes" and k: "key_columns_ok types ?N ?kc"
    by (auto simp: map_ok_def create_from_key_columns_def split: if_splits Option.bind_splits)
  from h(1) have "num_valid_items (jh_table m) = length (valid_items ?kc hashes)"
    by (auto simp: create_from_key_columns_and_hashes_def Let_def split: if_splits prod.splits Option.bind_splits
        dest!: arg_cong [where f = num_valid_items])
  then have none: "\<forall>i < ?N. key_is_valid ?kc i \<noteq> Some True"
    using assms(2) join_hashes_ok(1) [OF h(2)] by (auto simp: is_all_nulls_def valid_items_conv filter_empty_conv)
  from assms(3) obtain j where "j < ?N" "fst y = key_of ?kc j" by (auto simp: built_items_def build_keys_def)
  with none key_valid(1) [OF k] show ?thesis by auto
qed

lemma full_inv_stopped:
  assumes "map_ok hasher types m" and "hj_full_can_early_stop J m" and inv: "full_inv P pred J bc m s xs"
  shows "full_inv P pred J bc m s (xs @ xs')"
proof -
  have null: "null_key (fst y)" if "y \<in> set (built_items m)" for y
    using all_nulls_no_match [OF assms(1) _ that] assms(2) by (simp add: hj_full_can_early_stop_def)
  have "matched_rows null_key f xs' (built_items m) = {#}" for f
    unfolding matched_rows_def by (rule cross_empty) (use null in auto)
  moreover have "map (has_match null_key (xs @ xs')) (built_items m) = map (has_match null_key xs) (built_items m)"
    using null by (auto simp: has_match_def)
  ultimately show ?thesis
    using inv assms(2) by (auto simp: full_inv_def Let_def matched_append hj_full_can_early_stop_def)
qed

text \<open>What the inner and outer joins are given, with the state after the probed rows \<open>xs\<close>.\<close>

definition full_run ::
  "(u32 \<Rightarrow> bytes \<Rightarrow> u32) \<Rightarrow> data_type list \<Rightarrow> 'v hash_join_params \<Rightarrow> ('v row \<Rightarrow> bool option) \<Rightarrow> full_joiner_params \<Rightarrow> nat \<Rightarrow> nat
   \<Rightarrow> 'v join_hash_map \<Rightarrow> 'v hash_joiner \<Rightarrow> (cell_value list \<times> 'v row) list \<Rightarrow> bool" where
  "full_run hasher types P pred J pc bc m s xs =
     (hj_params_ok P pred (fj_side J) pc bc \<and> built_ok bc m \<and> map_ok hasher types m
      \<and> (join_filter (hj_params P) \<noteq> None \<longrightarrow> \<not> probe_side_outer J \<and> \<not> build_side_outer J)
      \<and> full_inv P pred J bc m s xs)"

interpretation hj_full: joiner "hj_join hasher bool_cell P (FullKind J) m" "hj_can_early_stop (FullKind J) m"
  "full_run hasher types P pred J pc bc m" probe_items "probe_ok types pc"
  for hasher bool_cell and P :: "'v hash_join_params" and J m types pred pc bc
proof
  fix s xs and b :: "'v probe_batch"
  assume "full_run hasher types P pred J pc bc m s xs" "probe_ok types pc b"
  with full_inv_batch [of P pred J pc bc m hasher types b s xs]
  show "\<exists>s'. hj_join hasher bool_cell P (FullKind J) m b s = Some s' \<and> full_run hasher types P pred J pc bc m s' (xs @ probe_items b)"
    by (simp add: full_run_def hj_join_def)
next
  fix s xs xs'
  assume "full_run hasher types P pred J pc bc m s xs" "hj_can_early_stop (FullKind J) m s"
  with full_inv_stopped [of hasher types m J P pred bc s xs xs']
  show "full_run hasher types P pred J pc bc m s (xs @ xs')" by (simp add: full_run_def hj_can_early_stop_def)
qed

lemma bit_indices_conv: "bit_indices b bits = map of_nat (filter (\<lambda>j. bits ! j = b) [0..<length bits])"
  by (simp add: bit_indices_def enumerate_conv filter_map comp_def)

lemma unmatched_built:
  "unmatched_rows null g (built_items m) xs
     = (\<Sum>j \<leftarrow> filter (\<lambda>j. \<not> has_match null xs (built_items m ! j)) [0..<length (data_rows m)]. g (data_rows m ! j))"
proof -
  have "(\<Sum>y \<leftarrow> built_items m. if has_match null xs y then {#} else g (snd y))
      = (\<Sum>j \<leftarrow> [0..<length (data_rows m)]. if \<not> has_match null xs (built_items m ! j) then g (data_rows m ! j) else {#})"
    unfolding built_items_def map_map comp_def
    by (intro arg_cong [where f = sum_list] map_cong) auto
  then show ?thesis by (simp add: unmatched_rows_def sum_filter_list)
qed

lemma full_finish_ok:
  assumes P: "hj_params_ok P pred (fj_side J) pc bc" and b: "built_ok bc m"
    and jf: "join_filter (hj_params P) \<noteq> None \<longrightarrow> \<not> probe_side_outer J \<and> \<not> build_side_outer J"
    and m: "map_ok hasher types m" and inv: "full_inv P pred J bc m s xs"
  shows "\<exists>s'. hj_full_finish P J m s = Some s' \<and> mset (concat (hj_sent s')) = mset (concat (hj_sent s))
    + (if build_side_outer J
       then unmatched_rows null_key (\<lambda>r. by_side (fj_side J) (joined (hj_params P) pred) (replicate pc None) r) (built_items m) xs else {#})"
proof (cases "build_side_outer J")
  case True
  let ?js = "filter (\<lambda>j. \<not> has_match null_key xs (built_items m ! j)) [0..<length (data_rows m)]" and ?side = "fj_side J"
  have ix: "bit_indices False (map_joined s) = map of_nat ?js"
    using inv True unfolding full_inv_def Let_def bit_indices_conv
    by (auto intro!: arg_cong [where f = "map of_nat"] filter_cong)
  have "take_cols (bc, data_rows m) (map (map_option of_nat) (map Some ?js)) = Some (bc, map (build_row bc (data_rows m)) (map Some ?js))"
    by (rule take_cols_ok) (use m in \<open>auto simp: map_ok_def\<close>)
  then have t: "take_cols (bc, data_rows m) (map Some (bit_indices False (map_joined s))) = Some (bc, map ((!) (data_rows m)) ?js)"
    by (simp add: ix comp_def build_row_def)
  have pj: "project_built P ?side (data_cols m, data_rows m) = Some (bc, data_rows m)" "output_cols P = pc + bc" "probed_cols P ?side = pc"
    using P b by (auto simp: hj_params_ok_def built_ok_def intro!: project_full)
  let ?nulls = "replicate (length ?js) (replicate pc None)"
  from hj_flush_ok [of ?nulls "map ((!) (data_rows m)) ?js" pc bc P ?side "s\<lparr>map_joined := []\<rparr>"] pj(2) obtain s' where s':
    "hj_flush P ?side (pc, ?nulls) (bc, map ((!) (data_rows m)) ?js) (length ?js) (s\<lparr>map_joined := []\<rparr>) = Some s'"
    "concat (hj_sent s') = concat (hj_sent s) @ map2 (by_side ?side (@)) ?nulls (map ((!) (data_rows m)) ?js)" by auto
  have none: "join_filter (hj_params P) = None" using jf True by auto
  have "map2 (by_side ?side (@)) (replicate (length js) r) (map g js) = map (\<lambda>j. by_side ?side (@) r (g j)) js" for js r and g :: "nat \<Rightarrow> 'a row"
    by (induction js) simp_all
  moreover have "unmatched_rows null_key (\<lambda>r. by_side ?side (joined (hj_params P) pred) (replicate pc None) r) (built_items m) xs
      = mset (map (\<lambda>j. by_side ?side (@) (replicate pc None) (data_rows m ! j)) ?js)"
    unfolding unmatched_built using none by (cases ?side) (simp_all only: by_side_def joined_def probe_side.simps option.simps sum_single)
  ultimately have "mset (concat (hj_sent s')) = mset (concat (hj_sent s))
      + unmatched_rows null_key (\<lambda>r. by_side ?side (joined (hj_params P) pred) (replicate pc None) r) (built_items m) xs"
    by (simp only: s'(2) mset_append)
  moreover have "hj_full_finish P J m s = Some s'"
    using True pj t s'(1) by (simp add: hj_full_finish_def Let_def ix)
  ultimately show ?thesis using True by auto
qed (simp add: hj_full_finish_def)

section \<open>Properties\<close>

text \<open>The inputs of a join: the built rows, and the probed batches, with the columns of their sides.\<close>

definition hash_inputs_ok ::
  "(u32 \<Rightarrow> bytes \<Rightarrow> u32) \<Rightarrow> data_type list \<Rightarrow> join_side \<Rightarrow> nat \<Rightarrow> nat \<Rightarrow> 'v hash_join_params \<Rightarrow> 'v join_hash_map \<Rightarrow> 'v probe_batch list \<Rightarrow> bool" where
  "hash_inputs_ok hasher types side lcols rcols P m bs =
     (map_ok hasher types m \<and>
      (case side of
         LeftSide \<Rightarrow> built_ok lcols m \<and> (\<forall>b \<in> set bs. probe_ok types rcols b) \<and> right_cols P = rcols
       | RightSide \<Rightarrow> built_ok rcols m \<and> (\<forall>b \<in> set bs. probe_ok types lcols b) \<and> left_cols P = lcols
       | NoSide \<Rightarrow> False))"

definition left_items :: "join_side \<Rightarrow> 'v join_hash_map \<Rightarrow> 'v probe_batch list \<Rightarrow> (cell_value list \<times> 'v row) list" where
  "left_items side m bs = (if side = LeftSide then built_items m else concat (map probe_items bs))"

definition right_items :: "join_side \<Rightarrow> 'v join_hash_map \<Rightarrow> 'v probe_batch list \<Rightarrow> (cell_value list \<times> 'v row) list" where
  "right_items side m bs = (if side = LeftSide then concat (map probe_items bs) else built_items m)"

lemma by_side_simps: "by_side ProbeL f = f" "by_side ProbeR f = (\<lambda>x y. f y x)"
  by (simp_all add: by_side_def fun_eq_iff)

lemma no_match_Nil: "map (has_match null []) ys = replicate (length ys) False"
  by (rule nth_equalityI) (auto simp: has_match_def)

lemma sum_swap: "(\<Sum>x \<leftarrow> xs. \<Sum>y \<leftarrow> ys. g x y) = (\<Sum>y \<leftarrow> ys. \<Sum>x \<leftarrow> xs. (g x y :: 'c multiset))"
  by (induction xs) (simp_all add: sum_list_addf)

lemma matched_swap: "matched_rows null f ys xs = matched_rows null (\<lambda>x y. f y x) xs ys"
proof -
  have "(\<Sum>y \<leftarrow> ys. \<Sum>x \<leftarrow> xs. if fst y = fst x \<and> \<not> null (fst y) then f (snd y) (snd x) else {#})
      = (\<Sum>x \<leftarrow> xs. \<Sum>y \<leftarrow> ys. if fst x = fst y \<and> \<not> null (fst x) then f (snd y) (snd x) else {#})"
    unfolding sum_swap [of _ xs ys] by (intro arg_cong [where f = sum_list] map_cong) auto
  then show ?thesis by (simp add: matched_rows_def cross_def)
qed

lemma full_projection:
  assumes "jt \<in> {Inner, LeftOuter, RightOuter, FullOuter}"
  shows "try_new_projection jt (l + r) l r [0..<l + r] = Some \<lparr>proj_left = [0..<l], proj_right = [0..<r]\<rparr>"
proof -
  have "filter (\<lambda>i. i < l) [0..<l + r] = [0..<l]" "filter (\<lambda>i. \<not> i < l \<and> i - l < r) [0..<l + r] = [l..<l + r]"
    unfolding upt_add_eq_append [OF zero_le, of l r] by (auto simp: filter_empty_conv intro!: filter_True)
  moreover have "map (\<lambda>i. i - l) [l..<l + r] = [0..<r]"
    by (rule nth_equalityI) simp_all
  ultimately show ?thesis using assms by (auto simp: try_new_projection_def list_all_iff)
qed

lemma execute_full:
  assumes kind: "joiner_of side jt = Some (FullKind J)" and P: "hj_params_ok P pred (fj_side J) pc bc" "built_ok bc m"
    and jf: "join_filter (hj_params P) \<noteq> None \<longrightarrow> \<not> probe_side_outer J \<and> \<not> build_side_outer J"
    and m: "map_ok hasher types m" and bs: "\<forall>b \<in> set bs. probe_ok types pc b"
  shows "\<exists>s. execute_join_with_map hasher bool_cell P jt side m (map Some bs) = Some s
    \<and> mset (concat (hj_sent s)) =
      (let f = by_side (fj_side J) (joined (hj_params P) pred); xs = concat (map probe_items bs); ys = built_items m
       in matched_rows null_key f xs ys
          + (if probe_side_outer J then unmatched_rows null_key (\<lambda>p. f p (replicate bc None)) xs ys else {#})
          + (if build_side_outer J then unmatched_rows null_key (\<lambda>b. f (replicate pc None) b) ys xs else {#}))"
proof -
  have "full_inv P pred J bc m (new_hash_joiner m) []"
    by (simp add: full_inv_def new_hash_joiner_def Let_def matched_rows_def unmatched_rows_def no_match_Nil)
  then have "full_run hasher types P pred J pc bc m (new_hash_joiner m) []" using P jf m by (simp add: full_run_def)
  from hj_full.loop_inv [OF this bs, of bool_cell] obtain s1 where s1:
    "joiner_loop (hj_can_early_stop (FullKind J) m) (hj_join hasher bool_cell P (FullKind J) m) (map Some bs) (new_hash_joiner m) = Some s1"
    "full_inv P pred J bc m s1 (concat (map probe_items bs))" by (auto simp: full_run_def)
  from full_finish_ok [OF P jf m s1(2)] obtain s where s: "hj_full_finish P J m s1 = Some s"
    "mset (concat (hj_sent s)) = mset (concat (hj_sent s1)) + (if build_side_outer J
       then unmatched_rows null_key (\<lambda>r. by_side (fj_side J) (joined (hj_params P) pred) (replicate pc None) r)
         (built_items m) (concat (map probe_items bs)) else {#})" by blast
  have "execute_join_with_map hasher bool_cell P jt side m (map Some bs) = Some s"
    using kind s1(1) s(1) by (simp add: execute_join_with_map_def hj_finish_def)
  moreover have "mset (concat (hj_sent s1)) = matched_rows null_key (by_side (fj_side J) (joined (hj_params P) pred)) (concat (map probe_items bs)) (built_items m)
      + (if probe_side_outer J then unmatched_rows null_key (\<lambda>p. by_side (fj_side J) (joined (hj_params P) pred) p (replicate bc None))
          (concat (map probe_items bs)) (built_items m) else {#})"
    using s1(2) unfolding full_inv_def Let_def by blast
  ultimately show ?thesis using s(2) by (intro exI [of _ s]) (simp only: Let_def)
qed

text \<open>The table of any built rows with key columns of hashable exact types.\<close>

lemma create_from_data_batch_ok:
  assumes "key_columns_ok types (length rows) keys" and "length rows < 2 ^ 30"
  obtains m where "create_from_data_batch hasher n rows (Some keys) = Some m" "map_ok hasher types m"
    "data_rows m = rows" "data_cols m = n" "key_columns m = keys"
proof -
  have "\<forall>c \<in> set keys. array_len c = length rows" using assms(1) by (simp add: key_columns_ok_def)
  from join_table_lookup_ok [OF join_hashes_exact [OF assms(1), of hasher] assms(2) this, of "[]"] obtain t where
    "create_from_key_columns hasher (length rows) keys = Some t" by auto
  with assms show ?thesis
    by (intro that [of "\<lparr>data_cols = n, data_rows = rows, key_columns = keys, jh_table = t\<rparr>"])
      (simp_all add: create_from_data_batch_def map_ok_def)
qed

text \<open>
  C5: The inner and outer hash joins without a projection of their output, on key columns of
  types whose values compare exactly (\<open>exact_type\<close>: no floating point, nested or dictionary keys),
  with either side built, end without an error and send exactly the rows of the relational join of
  the two sides, with their multiplicities: every pair of rows with equal keys and no null in them
  for which the residual condition holds, and on an outer side every row without a partner, padded
  with nulls.  Hash collisions, the batches of the probed side, the batch size and stopping early
  on a table without a valid key make no difference.
\<close>

theorem hash_outer_joins_correct:
  assumes "create_join_params jt (lcols + rcols) llen rlen lcols rcols (map (\<lambda>t. (t, t)) types) jf batch na [0..<lcols + rcols] = Some P"
    and "hash_inputs_ok hasher types side lcols rcols P m bs" and "params_ok (hj_params P) pred lcols rcols"
    and "hj_try_new jt jf" and "jt \<in> {Inner, LeftOuter, RightOuter, FullOuter}"
  shows "\<exists>s. execute_join_with_map hasher bool_cell P jt side m (map Some bs) = Some s
    \<and> mset (concat (hj_sent s)) = join_spec null_key (left_outer jt) (right_outer jt) (replicate lcols None) (replicate rcols None)
        (joined (hj_params P) pred) (left_items side m bs) (right_items side m bs)"
proof -
  have P: "P = \<lparr>hj_params = \<lparr>projection = \<lparr>proj_left = [0..<lcols], proj_right = [0..<rcols]\<rparr>, join_filter = jf, batch_size = batch\<rparr>,
      left_cols = llen, right_cols = rlen, output_cols = lcols + rcols, is_null_aware_anti_join = na\<rparr>"
    using assms(1) full_projection [OF assms(5), of lcols rcols]
    by (simp add: create_join_params_def split: if_splits)
  have jf: "join_filter (hj_params P) \<noteq> None \<longrightarrow> jt = Inner" using assms(4) by (auto simp: hj_try_new_def P)
  show ?thesis
  proof (cases side)
    case LeftSide
    define J where "J = \<lparr>fj_side = ProbeR, probe_side_outer = right_outer jt, build_side_outer = left_outer jt\<rparr>"
    have "joiner_of side jt = Some (FullKind J)" using assms(5) LeftSide by (auto simp: J_def)
    moreover have "hj_params_ok P pred (fj_side J) rcols lcols"
      using assms(2,3) LeftSide
      by (auto simp: hj_params_ok_def J_def project_probed_def project_built_def probed_cols_def by_side_def hash_inputs_ok_def P)
    ultimately show ?thesis
      using execute_full [of side jt J P pred rcols lcols m hasher types bs bool_cell] assms(2,5) LeftSide jf
        matched_swap [of null_key "joined (hj_params P) pred"]
      by (auto simp: hash_inputs_ok_def J_def join_spec_def left_items_def right_items_def by_side_simps Let_def ac_simps)
  next
    case RightSide
    define J where "J = \<lparr>fj_side = ProbeL, probe_side_outer = left_outer jt, build_side_outer = right_outer jt\<rparr>"
    have "joiner_of side jt = Some (FullKind J)" using assms(5) RightSide by (auto simp: J_def)
    moreover have "hj_params_ok P pred (fj_side J) lcols rcols"
      using assms(2,3) RightSide
      by (auto simp: hj_params_ok_def J_def project_probed_def project_built_def probed_cols_def by_side_def hash_inputs_ok_def P)
    ultimately show ?thesis
      using execute_full [of side jt J P pred lcols rcols m hasher types bs bool_cell] assms(2,5) RightSide jf
      by (auto simp: hash_inputs_ok_def J_def join_spec_def left_items_def right_items_def by_side_simps Let_def ac_simps)
  qed (use assms(2) in \<open>simp add: hash_inputs_ok_def\<close>)
qed

theorem hash_outer_joins_correct_witness:
  "\<exists>m s. create_from_data_batch (\<lambda>h v. of_nat (length v)) 1 [[Some (5 :: nat)]] (Some [PrimitiveArray Int32 None [7]]) = Some m
     \<and> execute_join_with_map (\<lambda>h v. of_nat (length v)) (\<lambda>b. 0)
         \<lparr>hj_params = \<lparr>projection = \<lparr>proj_left = [0], proj_right = [0]\<rparr>, join_filter = None, batch_size = 1\<rparr>,
          left_cols = 1, right_cols = 2, output_cols = 2, is_null_aware_anti_join = False\<rparr>
         LeftOuter RightSide m [Some \<lparr>pb_rows = [[Some 3], [Some 4]], pb_keys = Some [PrimitiveArray Int32 None [7, 8]]\<rparr>] = Some s
     \<and> mset (concat (hj_sent s)) = {#[Some 3, Some 5], [Some 4, None]#}"
proof -
  let ?h = "\<lambda>h v. of_nat (length v)"
  have k: "key_columns_ok [Int32] (length [[Some (5 :: nat)]]) [PrimitiveArray Int32 None [7]]"
    "key_columns_ok [Int32] (length [[Some 3], [Some (4 :: nat)]]) [PrimitiveArray Int32 None [7, 8]]"
    by (simp_all add: key_columns_ok_def nulls_wf_def prim_in_range_def)
  obtain m where m: "create_from_data_batch ?h 1 [[Some (5 :: nat)]] (Some [PrimitiveArray Int32 None [7]]) = Some m"
    "map_ok ?h [Int32] m" "data_rows m = [[Some 5]]" "data_cols m = 1" "key_columns m = [PrimitiveArray Int32 None [7]]"
    by (rule create_from_data_batch_ok [OF k(1), of ?h 1]) simp_all
  let ?b = "\<lparr>pb_rows = [[Some 3], [Some (4 :: nat)]], pb_keys = Some [PrimitiveArray Int32 None [7, 8]]\<rparr>"
  have items: "left_items RightSide m [?b] = [([CPrim Int32 7], [Some 3]), ([CPrim Int32 8], [Some 4])]"
    "right_items RightSide m [?b] = [([CPrim Int32 7], [Some 5])]"
    using m(3,5) by (simp_all add: left_items_def right_items_def probe_items_def built_items_def build_keys_def key_of_def bit_valid_def)
  let ?P = "\<lparr>hj_params = \<lparr>projection = \<lparr>proj_left = [0], proj_right = [0]\<rparr>, join_filter = None, batch_size = 1\<rparr>,
      left_cols = 1, right_cols = 2, output_cols = 2, is_null_aware_anti_join = False\<rparr> :: nat hash_join_params"
  have P: "create_join_params LeftOuter (1 + 1) 1 2 1 1 (map (\<lambda>t. (t, t)) [Int32]) None 1 False [0..<1 + 1] = Some ?P"
    by (simp add: create_join_params_def try_new_projection_def numeral_2_eq_2)
  have ok: "hash_inputs_ok ?h [Int32] RightSide 1 1 ?P m [?b]"
    using m k(2) by (simp add: hash_inputs_ok_def built_ok_def probe_ok_def)
  have "join_spec null_key (left_outer LeftOuter) (right_outer LeftOuter) (replicate 1 None) (replicate 1 None)
      (joined (hj_params ?P) (\<lambda>_. None)) (left_items RightSide m [?b]) (right_items RightSide m [?b])
      = {#[Some 3, Some 5], [Some 4, None]#}"
    unfolding items by (simp add: join_spec_def matched_rows_def unmatched_rows_def has_match_def joined_def add_mset_commute)
  with hash_outer_joins_correct [OF P ok, of "\<lambda>_. None" "\<lambda>b. 0"] m(1) show ?thesis
    by (simp add: params_ok_def hj_try_new_def)
qed

end
