(* ===== verification/Hash_Join_Semi.thy ===== *)
theory Hash_Join_Semi
  imports Hash_Join
begin

text \<open>
  The semi, anti and existence hash joins (\<open>joins/bhj/semi_join.rs\<close>, modelled in \<open>Hash_Join\<close>): the
  bits a batch sets, and that the rows sent are those with a partner, those without, or all rows
  with the flag saying which.
\<close>

section \<open>Semi, anti and existence joins\<close>

subsection \<open>The rows of a batch\<close>

text \<open>
  The bits of the built rows after the probed rows \<open>xs\<close>.  They depend on the keys only, so when
  the first row of a key is joined all are.
\<close>

definition joined_bits :: "'v join_hash_map \<Rightarrow> (cell_value list \<times> 'v row) list \<Rightarrow> bool list" where
  "joined_bits m xs = map (has_match null_key xs) (built_items m)"

lemma length_joined_bits [simp]: "length (joined_bits m xs) = length (data_rows m)"
  by (simp add: joined_bits_def)

lemma joined_bits_nth:
  "j < length (data_rows m) \<Longrightarrow> joined_bits m xs ! j = (\<not> null_key (build_keys m ! j) \<and> build_keys m ! j \<in> fst ` set xs)"
  by (simp add: joined_bits_def built_items_def has_match_def)

lemma matches_in: "j \<in> set (matches m k) \<longleftrightarrow> j < length (data_rows m) \<and> build_keys m ! j = k"
  by (auto simp: matches_def)

lemma joined_bits_snoc:
  assumes "\<not> null_key k"
  shows "joined_bits m (xs @ [(k, r)]) = map (\<lambda>j. joined_bits m xs ! j \<or> j \<in> set (matches m k)) [0..<length (data_rows m)]"
  by (rule nth_equalityI) (use assms in \<open>auto simp: joined_bits_nth matches_in\<close>)

lemma joined_bits_null: "null_key k \<Longrightarrow> joined_bits m (xs @ [(k, r)]) = joined_bits m xs"
  by (rule nth_equalityI) (auto simp: joined_bits_nth)

lemma joined_bits_known:
  assumes "\<not> null_key k" and "j \<in> set (matches m k)" and "joined_bits m xs ! j"
  shows "joined_bits m (xs @ [(k, r)]) = joined_bits m xs"
  unfolding joined_bits_snoc [OF assms(1)]
  by (rule nth_equalityI) (use assms(2,3) in \<open>auto simp: joined_bits_nth matches_in intro: rev_image_eqI\<close>)

lemma set_joined_bits:
  assumes "\<not> null_key k" and "length (data_rows m) < 2 ^ 30"
  shows "set_joined (map of_nat (matches m k)) (joined_bits m xs) = Some (joined_bits m (xs @ [(k, r)]))"
  using set_joined_ok [of "matches m k" "joined_bits m xs"] assms by (simp add: joined_bits_snoc matches_in)

lemma semi_probe_value_ok:
  assumes v: "rows_of (mapped_indices (jh_table m)) v = Some cands" "equal_rows eq i cands = Some (map of_nat (matches m k))"
    and k: "\<not> null_key k" and N: "length (data_rows m) < 2 ^ 30" and i: "i < length pj"
  shows "semi_probe_value pij m eq i v pj (joined_bits m xs) =
    (if pij then Some (if matches m k = [] then pj else pj[i := True], joined_bits m xs)
     else Some (pj, joined_bits m (xs @ [(k, r)])))"
proof -
  have none: "joined_bits m (xs @ [(k, r)]) = joined_bits m xs" if "matches m k = []"
    using that k by (simp add: joined_bits_snoc) (rule nth_equalityI, auto)
  note bits = set_joined_bits [OF k N, of xs r]
  show ?thesis
  proof (cases "is_single v")
    case True
    then have c: "cands = [get_single v]" using v(1) by (simp add: rows_of_def)
    with v(2) obtain b where b: "eq i (unat (get_single v)) = Some b" "map of_nat (matches m k) = (if b then [get_single v] else [])"
      by (auto split: Option.bind_splits)
    with True i bits none show ?thesis
      by (cases b) (auto simp: semi_probe_value_def split: Option.bind_splits)
  next
    case False
    note ns = this
    show ?thesis
    proof (cases "is_range v")
      case True
      then have r: "get_range v (jh_table m) = Some cands" using v(1) ns by (simp add: rows_of_def get_range_def)
      show ?thesis
      proof (cases "matches m k")
        case Nil
        with r v(2) ns True none show ?thesis by (simp add: semi_probe_value_def)
      next
        case (Cons j js)
        then have "j \<in> set (matches m k)" by simp
        then have j: "j < length (data_rows m)" "unat (of_nat j :: u32) = j" using N by (simp_all add: matches_in unat_of_nat)
        note known = joined_bits_known [OF k \<open>j \<in> set (matches m k)\<close>, of xs r]
        from r v(2) ns True i j bits known Cons show ?thesis
          by (cases "joined_bits m xs ! j") (simp_all add: semi_probe_value_def)
      qed
    next
      case False
      then have "cands = []" using v(1) ns by (simp add: rows_of_def)
      with v(2) False ns none show ?thesis by (simp add: semi_probe_value_def)
    qed
  qed
qed

text \<open>Which probed rows are marked: those with a partner, and for a null-aware anti join also others.\<close>

definition semi_flag ::
  "'v hash_join_params \<Rightarrow> semi_joiner_params \<Rightarrow> bool \<Rightarrow> (cell_value list \<times> 'v row) list \<Rightarrow> cell_value list \<times> 'v row \<Rightarrow> bool" where
  "semi_flag P J bhn ys x =
     ((sj_mode J = Anti \<and> probe_is_join_side J \<and> is_null_aware_anti_join P \<and> (null_key (fst x) \<or> bhn)) \<or> has_match null_key ys x)"

definition probe_item :: "array list \<Rightarrow> 'v row list \<Rightarrow> nat \<Rightarrow> cell_value list \<times> 'v row" where
  "probe_item keys rows i = (key_of keys i, rows ! i)"

definition marked :: "'v hash_join_params \<Rightarrow> semi_joiner_params \<Rightarrow> bool \<Rightarrow> 'v join_hash_map \<Rightarrow> array list \<Rightarrow> 'v row list \<Rightarrow> nat \<Rightarrow> bool list \<Rightarrow> bool list" where
  "marked P J bhn m keys rows i pj =
     map (\<lambda>x. pj ! x \<or> (i \<le> x \<and> probe_is_join_side J \<and> semi_flag P J bhn (built_items m) (probe_item keys rows x))) [0..<length rows]"

lemma marked_step:
  assumes "length pj = length rows" and "i < length rows" and "length pj' = length rows"
    and "\<And>x. x < length rows \<Longrightarrow> pj' ! x = (pj ! x \<or> (x = i \<and> probe_is_join_side J \<and> semi_flag P J bhn (built_items m) (probe_item keys rows i)))"
  shows "marked P J bhn m keys rows (Suc i) pj' = marked P J bhn m keys rows i pj"
  unfolding marked_def by (rule map_cong) (use assms in \<open>auto simp: Suc_le_eq le_less\<close>)

text \<open>With a null among the built keys every row of a null-aware anti join is marked.\<close>

lemma semi_rows_all:
  assumes "sj_mode J = Anti" "probe_is_join_side J" "is_null_aware_anti_join P" "length pj = length rows" "i \<le> length rows"
  shows "semi_probe_rows P J m keys True eq vs [i..<length rows] h pj mb = Some (marked P J True m keys rows i pj, mb)"
  using assms(4,5)
proof (induction "length rows - i" arbitrary: i pj)
  case 0
  then show ?case by (auto simp: marked_def map_nth intro!: nth_equalityI)
next
  case (Suc d)
  then have i: "i < length rows" by simp
  have "d = length rows - Suc i" "length (pj[i := True]) = length rows" "Suc i \<le> length rows" using Suc i by simp_all
  note IH = Suc.hyps(1) [OF this]
  moreover have "marked P J True m keys rows (Suc i) (pj[i := True]) = marked P J True m keys rows i pj"
    by (rule marked_step) (use Suc.prems i assms(1-3) in \<open>auto simp: nth_list_update semi_flag_def\<close>)
  ultimately show ?case using assms(1-3) Suc.prems i by (simp add: upt_conv_Cons)
qed

lemma semi_row_step:
  assumes k: "key_columns_ok types (length rows) keys" and pr: "probes_ok m keys (length rows) eq vs"
    and N: "length (data_rows m) < 2 ^ 30" and i: "i < length rows" and pj: "length pj = length rows"
    and bhn: "\<not> (sj_mode J = Anti \<and> probe_is_join_side J \<and> is_null_aware_anti_join P \<and> bhn)"
  shows "\<exists>pj'. semi_probe_rows P J m keys bhn eq vs (i # rest) (length (filter (probed_valid keys) [0..<i])) pj (joined_bits m xs)
      = semi_probe_rows P J m keys bhn eq vs rest (length (filter (probed_valid keys) [0..<Suc i])) pj'
          (if probe_is_join_side J then joined_bits m xs else joined_bits m (xs @ [probe_item keys rows i]))
    \<and> length pj' = length rows \<and> marked P J bhn m keys rows (Suc i) pj' = marked P J bhn m keys rows i pj"
proof (cases "probed_valid keys i")
  case True
  then have nn: "\<not> null_key (key_of keys i)" using key_valid(2) [OF k i] by simp
  from pr True i obtain v cands where v: "vget vs (length (filter (probed_valid keys) [0..<i])) = Some v"
    "rows_of (mapped_indices (jh_table m)) v = Some cands"
    "equal_rows eq i cands = Some (map of_nat (matches m (key_of keys i)))" unfolding probes_ok_def by blast
  have sv: "semi_probe_value (probe_is_join_side J) m eq i v pj (joined_bits m xs) =
    (if probe_is_join_side J then Some (if matches m (key_of keys i) = [] then pj else pj[i := True], joined_bits m xs)
     else Some (pj, joined_bits m (xs @ [probe_item keys rows i])))"
    unfolding probe_item_def by (rule semi_probe_value_ok [OF v(2,3) nn N]) (simp add: i pj)
  let ?pj = "if probe_is_join_side J \<and> matches m (key_of keys i) \<noteq> [] then pj[i := True] else pj"
  have "marked P J bhn m keys rows (Suc i) ?pj = marked P J bhn m keys rows i pj"
    by (rule marked_step)
      (use pj i bhn nn in \<open>auto simp: nth_list_update semi_flag_def probe_item_def has_match_def matches_empty\<close>)
  with True sv v(1) bhn pj show ?thesis by (intro exI [of _ ?pj]) auto
next
  case False
  then have null: "null_key (key_of keys i)" using key_valid(2) [OF k i] by simp
  let ?pj = "if sj_mode J = Anti \<and> probe_is_join_side J \<and> is_null_aware_anti_join P then pj[i := True] else pj"
  have "marked P J bhn m keys rows (Suc i) ?pj = marked P J bhn m keys rows i pj"
    by (rule marked_step)
      (use pj i bhn null in \<open>auto simp: nth_list_update semi_flag_def probe_item_def has_match_def\<close>)
  with False null bhn pj i show ?thesis by (intro exI [of _ ?pj]) (auto simp: joined_bits_null probe_item_def)
qed

lemma semi_probe_rows_ok:
  assumes k: "key_columns_ok types (length rows) keys" and pr: "probes_ok m keys (length rows) eq vs"
    and N: "length (data_rows m) < 2 ^ 30" and i: "i \<le> length rows" and pj: "length pj = length rows"
    and bhn: "\<not> (sj_mode J = Anti \<and> probe_is_join_side J \<and> is_null_aware_anti_join P \<and> bhn)"
  shows "semi_probe_rows P J m keys bhn eq vs [i..<length rows] (length (filter (probed_valid keys) [0..<i])) pj (joined_bits m xs)
    = Some (marked P J bhn m keys rows i pj,
        if probe_is_join_side J then joined_bits m xs else joined_bits m (xs @ map (probe_item keys rows) [i..<length rows]))"
  using i pj
proof (induction "length rows - i" arbitrary: i pj xs)
  case 0
  then show ?case by (auto simp: marked_def map_nth intro!: nth_equalityI)
next
  case (Suc d)
  then have i: "i < length rows" by simp
  from semi_row_step [OF k pr N i Suc.prems(2) bhn, of "[Suc i..<length rows]" xs] obtain pj' where step:
    "semi_probe_rows P J m keys bhn eq vs (i # [Suc i..<length rows]) (length (filter (probed_valid keys) [0..<i])) pj (joined_bits m xs)
      = semi_probe_rows P J m keys bhn eq vs [Suc i..<length rows] (length (filter (probed_valid keys) [0..<Suc i])) pj'
          (if probe_is_join_side J then joined_bits m xs else joined_bits m (xs @ [probe_item keys rows i]))"
    "length pj' = length rows" "marked P J bhn m keys rows (Suc i) pj' = marked P J bhn m keys rows i pj" by blast
  have "d = length rows - Suc i" "Suc i \<le> length rows" using Suc.hyps(2) i by auto
  note IH = Suc.hyps(1) [OF this step(2)]
  show ?case
    unfolding upt_conv_Cons [OF i] step(1) using IH [of xs] IH [of "xs @ [probe_item keys rows i]"] step(3) by simp
qed

subsection \<open>The rows of a side\<close>

text \<open>What a side sends when \<open>p\<close> tells the rows that are joined.\<close>

fun kept_rows :: "(bool \<Rightarrow> 'v) \<Rightarrow> semi_mode \<Rightarrow> ('k \<times> 'v row \<Rightarrow> bool) \<Rightarrow> ('k \<times> 'v row) list \<Rightarrow> 'v row list" where
  "kept_rows bool_cell Semi p xs = map snd (filter p xs)"
| "kept_rows bool_cell Anti p xs = map snd (filter (\<lambda>x. \<not> p x) xs)"
| "kept_rows bool_cell ExistenceMode p xs = map (\<lambda>x. snd x @ [Some (bool_cell (p x))]) xs"

lemma kept_rows_append: "kept_rows bc mode p (xs @ ys) = kept_rows bc mode p xs @ kept_rows bc mode p ys"
  by (cases mode) simp_all

definition kept_cols :: "semi_mode \<Rightarrow> nat \<Rightarrow> nat" where
  "kept_cols mode c = (case mode of ExistenceMode \<Rightarrow> c + 1 | _ \<Rightarrow> c)"

lemma take_bits:
  assumes "length xs < 2 ^ 32"
  shows "take_cols (c, map snd xs) (map Some (bit_indices b (map p xs))) = Some (c, map snd (filter (\<lambda>x. p x = b) xs))"
proof -
  let ?js = "filter (\<lambda>j. p (xs ! j) = b) [0..<length xs]"
  have "bit_indices b (map p xs) = map of_nat ?js"
    unfolding bit_indices_conv by (auto intro!: arg_cong [where f = "map of_nat"] filter_cong)
  then have "map Some (bit_indices b (map p xs)) = map (map_option of_nat) (map Some ?js)" by simp
  moreover have "take_cols (c, map snd xs) (map (map_option of_nat) (map Some ?js)) = Some (c, map (build_row c (map snd xs)) (map Some ?js))"
    by (rule take_cols_ok) (use assms in auto)
  moreover have "filter (\<lambda>x. p x = b) xs = map ((!) xs) ?js"
    by (subst (1) map_nth [symmetric]) (simp add: filter_map comp_def)
  moreover have "map (build_row c (map snd xs)) (map Some ?js) = map snd (map ((!) xs) ?js)"
    by (auto simp: build_row_def)
  ultimately show ?thesis by (simp only:)
qed

lemma semi_cols_ok:
  assumes "length xs < 2 ^ 32"
  shows "semi_cols bool_cell mode (c, map snd xs) (map p xs) = Some (kept_cols mode c, kept_rows bool_cell mode p xs)"
  using take_bits [OF assms, of c _ p]
  by (cases mode) (simp_all add: semi_cols_def kept_cols_def zip_map_map zip_same_conv_map comp_def)

lemma sj_flush_ok:
  assumes "kept_cols mode c = output_cols P" and "0 < output_cols P"
  shows "\<exists>s'. sj_flush P (kept_cols mode c, out) s = Some s' \<and> concat (hj_sent s') = concat (hj_sent s) @ out \<and> map_joined s' = map_joined s"
  using assms by (simp add: sj_flush_def)

subsection \<open>Batches\<close>

text \<open>The parameters keep all columns of the side whose rows are sent.\<close>

definition semi_params_ok :: "'v hash_join_params \<Rightarrow> semi_joiner_params \<Rightarrow> nat \<Rightarrow> bool" where
  "semi_params_ok P J c =
     (kept_cols (sj_mode J) c = output_cols P \<and> 0 < output_cols P
      \<and> (if probe_is_join_side J then project_probed P (sj_side J) = project_cols [0..<c] \<and> probed_cols P (sj_side J) = c
         else project_built P (sj_side J) = project_cols [0..<c]))"

definition built_has_null :: "'v join_hash_map \<Rightarrow> bool" where
  "built_has_null m = (\<exists>y \<in> set (built_items m). null_key (fst y))"

lemma built_has_null_conv:
  assumes "map_ok hasher types m"
  shows "(data_rows m \<noteq> [] \<and> (\<exists>c \<in> set (key_columns m). null_count c > 0)) = built_has_null m"
proof -
  let ?N = "length (data_rows m)" and ?kc = "key_columns m"
  have k: "key_columns_ok types ?N ?kc" using assms by (simp add: map_ok_def)
  have "null_count c > 0 \<longleftrightarrow> (\<exists>j < ?N. cell c j = CNull)" if "c \<in> set ?kc" for c
    using that k exact_valid(1) [of c] by (auto simp: key_columns_ok_def null_count_def filter_empty_conv is_valid_def Bex_def)
  then have "(\<exists>c \<in> set ?kc. null_count c > 0) = (\<exists>j < ?N. null_key (key_of ?kc j))"
    by (auto simp: key_of_def image_iff) metis+
  then show ?thesis by (auto simp: built_has_null_def built_items_def build_keys_def)
qed

lemma probe_items_conv: "pb_keys b = Some keys \<Longrightarrow> probe_items b = map (probe_item keys (pb_rows b)) [0..<length (pb_rows b)]"
  by (simp add: probe_items_def probe_item_def)

lemma probe_rows_conv: "map snd (probe_items b) = pb_rows b"
  by (simp add: probe_items_def comp_def map_nth)

lemma built_rows_conv: "map snd (built_items m) = data_rows m"
  by (simp add: built_items_def comp_def map_nth)

lemma semi_batch_rows:
  assumes m: "map_ok hasher types m" and b: "probe_ok types pc b" "pb_keys b = Some keys"
    and e: "probe_map hasher m (length (pb_rows b)) keys = Some (eq, vs)" "probes_ok m keys (length (pb_rows b)) eq vs"
  shows "\<exists>pj. semi_probe_rows P J m keys (built_has_null m) eq vs [0..<length (pb_rows b)] 0 (replicate (length (pb_rows b)) False) (joined_bits m xs)
      = Some (pj, if probe_is_join_side J then joined_bits m xs else joined_bits m (xs @ probe_items b))
    \<and> (probe_is_join_side J \<longrightarrow> pj = map (semi_flag P J (built_has_null m) (built_items m)) (probe_items b))"
proof -
  let ?rows = "pb_rows b" and ?bhn = "built_has_null m"
  let ?pj = "marked P J ?bhn m keys ?rows 0 (replicate (length ?rows) False)"
  have k: "key_columns_ok types (length ?rows) keys" using b by (auto simp: probe_ok_def)
  have N: "length (data_rows m) < 2 ^ 30" using m by (simp add: map_ok_def)
  have "semi_probe_rows P J m keys ?bhn eq vs [0..<length ?rows] 0 (replicate (length ?rows) False) (joined_bits m xs)
      = Some (?pj, if probe_is_join_side J then joined_bits m xs else joined_bits m (xs @ probe_items b))"
  proof (cases "sj_mode J = Anti \<and> probe_is_join_side J \<and> is_null_aware_anti_join P \<and> ?bhn")
    case True
    with semi_rows_all [of J P "replicate (length ?rows) False" ?rows 0 m keys eq vs 0 "joined_bits m xs"] show ?thesis by simp
  next
    case False
    with semi_probe_rows_ok [OF k e(2) N, of 0 "replicate (length ?rows) False" J P ?bhn xs] show ?thesis
      by (simp add: probe_items_conv [OF b(2)])
  qed
  moreover have "?pj = map (semi_flag P J ?bhn (built_items m)) (probe_items b)" if "probe_is_join_side J"
    using that by (simp add: marked_def probe_items_conv [OF b(2)])
  ultimately show ?thesis by blast
qed

text \<open>The state after the probed rows \<open>xs\<close>.\<close>

definition semi_inv ::
  "(bool \<Rightarrow> 'v) \<Rightarrow> 'v hash_join_params \<Rightarrow> semi_joiner_params \<Rightarrow> 'v join_hash_map \<Rightarrow> 'v hash_joiner \<Rightarrow> (cell_value list \<times> 'v row) list \<Rightarrow> bool" where
  "semi_inv bool_cell P J m s xs =
     (if probe_is_join_side J
      then map_joined s = joined_bits m []
           \<and> concat (hj_sent s) = kept_rows bool_cell (sj_mode J) (semi_flag P J (built_has_null m) (built_items m)) xs
      else map_joined s = joined_bits m xs \<and> hj_sent s = [])"

lemma semi_inv_batch:
  assumes P: "semi_params_ok P J c" and m: "map_ok hasher types m" and b: "probe_ok types pc b" "probe_is_join_side J \<longrightarrow> pc = c"
    and inv: "semi_inv bool_cell P J m s xs"
  shows "\<exists>s'. hj_semi_join hasher bool_cell P J m b s = Some s' \<and> semi_inv bool_cell P J m s' (xs @ probe_items b)"
proof -
  let ?n = "length (pb_rows b)"
  from b(1) obtain keys where k: "pb_keys b = Some keys" "key_columns_ok types ?n keys" by (auto simp: probe_ok_def)
  from probes_okI [OF m k(2)] obtain eq vs where e: "probe_map hasher m ?n keys = Some (eq, vs)" "probes_ok m keys ?n eq vs" by blast
  note bhn = built_has_null_conv [OF m]
  note rows = semi_batch_rows [OF m b(1) k(1) e, of P J]
  show ?thesis
  proof (cases "probe_is_join_side J")
    case False
    from rows [of xs] False inv obtain pj where
      "semi_probe_rows P J m keys (built_has_null m) eq vs [0..<?n] 0 (replicate ?n False) (map_joined s)
        = Some (pj, joined_bits m (xs @ probe_items b))" by (auto simp: semi_inv_def)
    with False k(1) e(1) inv show ?thesis by (simp add: hj_semi_join_def semi_inv_def Let_def bhn)
  next
    case True
    let ?f = "semi_flag P J (built_has_null m) (built_items m)"
    from rows [of "[]"] True inv have r:
      "semi_probe_rows P J m keys (built_has_null m) eq vs [0..<?n] 0 (replicate ?n False) (map_joined s)
        = Some (map ?f (probe_items b), joined_bits m [])" by (auto simp: semi_inv_def)
    have pp: "project_probed P (sj_side J) (probed_cols P (sj_side J), pb_rows b) = Some (c, map snd (probe_items b))"
      using P True b unfolding probe_rows_conv by (auto simp: semi_params_ok_def probe_ok_def intro!: project_full)
    have sc: "semi_cols bool_cell (sj_mode J) (c, map snd (probe_items b)) (map ?f (probe_items b))
        = Some (kept_cols (sj_mode J) c, kept_rows bool_cell (sj_mode J) ?f (probe_items b))"
      by (rule semi_cols_ok) (use b in \<open>simp add: probe_items_def probe_ok_def\<close>)
    from sj_flush_ok [of "sj_mode J" c P "kept_rows bool_cell (sj_mode J) ?f (probe_items b)" "s\<lparr>map_joined := joined_bits m []\<rparr>"] P
    obtain s' where s': "sj_flush P (kept_cols (sj_mode J) c, kept_rows bool_cell (sj_mode J) ?f (probe_items b)) (s\<lparr>map_joined := joined_bits m []\<rparr>) = Some s'"
      "concat (hj_sent s') = concat (hj_sent s) @ kept_rows bool_cell (sj_mode J) ?f (probe_items b)" "map_joined s' = joined_bits m []"
      by (auto simp: semi_params_ok_def)
    have "hj_semi_join hasher bool_cell P J m b s = Some s'"
      using True k(1) e(1) r pp sc s'(1) by (simp add: hj_semi_join_def Let_def bhn)
    moreover have "semi_inv bool_cell P J m s' (xs @ probe_items b)"
      using True inv s' by (simp add: semi_inv_def kept_rows_append)
    ultimately show ?thesis by blast
  qed
qed

lemma semi_inv_stopped:
  assumes "hj_semi_can_early_stop J s" and "semi_inv bool_cell P J m s xs"
  shows "semi_inv bool_cell P J m s (xs @ xs')"
  using assms by (auto simp: hj_semi_can_early_stop_def semi_inv_def joined_bits_def has_match_append list_all_iff)

text \<open>What the semi, anti and existence joins are given, with the state after the probed rows \<open>xs\<close>.\<close>

definition semi_run ::
  "(u32 \<Rightarrow> bytes \<Rightarrow> u32) \<Rightarrow> data_type list \<Rightarrow> (bool \<Rightarrow> 'v) \<Rightarrow> 'v hash_join_params \<Rightarrow> semi_joiner_params \<Rightarrow> nat \<Rightarrow> nat
   \<Rightarrow> 'v join_hash_map \<Rightarrow> 'v hash_joiner \<Rightarrow> (cell_value list \<times> 'v row) list \<Rightarrow> bool" where
  "semi_run hasher types bool_cell P J pc c m s xs =
     (semi_params_ok P J c \<and> map_ok hasher types m \<and> (probe_is_join_side J \<longrightarrow> pc = c) \<and> semi_inv bool_cell P J m s xs)"

interpretation hj_semi: joiner "hj_join hasher bool_cell P (SemiKind J) m" "hj_can_early_stop (SemiKind J) m"
  "semi_run hasher types bool_cell P J pc c m" probe_items "probe_ok types pc"
  for hasher bool_cell and P :: "'v hash_join_params" and J m types pc c
proof
  fix s xs and b :: "'v probe_batch"
  assume "semi_run hasher types bool_cell P J pc c m s xs" "probe_ok types pc b"
  with semi_inv_batch [of P J c hasher types m pc b bool_cell s xs]
  show "\<exists>s'. hj_join hasher bool_cell P (SemiKind J) m b s = Some s' \<and> semi_run hasher types bool_cell P J pc c m s' (xs @ probe_items b)"
    by (simp add: semi_run_def hj_join_def)
next
  fix s xs xs'
  assume "semi_run hasher types bool_cell P J pc c m s xs" "hj_can_early_stop (SemiKind J) m s"
  with semi_inv_stopped [of J s bool_cell P m xs xs']
  show "semi_run hasher types bool_cell P J pc c m s (xs @ xs')" by (simp add: semi_run_def hj_can_early_stop_def)
qed

lemma execute_semi:
  assumes kind: "joiner_of side jt = Some (SemiKind J)" and P: "semi_params_ok P J c" and m: "map_ok hasher types m"
    and pc: "probe_is_join_side J \<longrightarrow> pc = c" and bs: "\<forall>b \<in> set bs. probe_ok types pc b"
    and built: "\<not> probe_is_join_side J \<longrightarrow> built_ok c m"
  shows "\<exists>s. execute_join_with_map hasher bool_cell P jt side m (map Some bs) = Some s
    \<and> concat (hj_sent s) =
      (if probe_is_join_side J
       then kept_rows bool_cell (sj_mode J) (semi_flag P J (built_has_null m) (built_items m)) (concat (map probe_items bs))
       else kept_rows bool_cell (sj_mode J) (has_match null_key (concat (map probe_items bs))) (built_items m))"
proof -
  have "semi_inv bool_cell P J m (new_hash_joiner m) []"
    by (cases "sj_mode J") (simp_all add: semi_inv_def new_hash_joiner_def joined_bits_def no_match_Nil)
  then have "semi_run hasher types bool_cell P J pc c m (new_hash_joiner m) []" using P m pc by (simp add: semi_run_def)
  from hj_semi.loop_inv [OF this bs] obtain s1 where s1:
    "joiner_loop (hj_can_early_stop (SemiKind J) m) (hj_join hasher bool_cell P (SemiKind J) m) (map Some bs) (new_hash_joiner m) = Some s1"
    "semi_inv bool_cell P J m s1 (concat (map probe_items bs))" by (auto simp: semi_run_def)
  show ?thesis
  proof (cases "probe_is_join_side J")
    case True
    with kind s1 show ?thesis
      by (auto simp: execute_join_with_map_def hj_finish_def hj_semi_finish_def semi_inv_def)
  next
    case False
    let ?f = "has_match null_key (concat (map probe_items bs))"
    have inv: "map_joined s1 = map ?f (built_items m)" "hj_sent s1 = []" using s1(2) False by (simp_all add: semi_inv_def joined_bits_def)
    have pb: "project_built P (sj_side J) (data_cols m, data_rows m) = Some (c, map snd (built_items m))"
      using P built False unfolding built_rows_conv by (auto simp: semi_params_ok_def built_ok_def intro!: project_full)
    have sc: "semi_cols bool_cell (sj_mode J) (c, map snd (built_items m)) (map ?f (built_items m))
        = Some (kept_cols (sj_mode J) c, kept_rows bool_cell (sj_mode J) ?f (built_items m))"
      by (rule semi_cols_ok) (use m in \<open>simp add: map_ok_def\<close>)
    from sj_flush_ok [of "sj_mode J" c P "kept_rows bool_cell (sj_mode J) ?f (built_items m)" "s1\<lparr>map_joined := []\<rparr>"] P obtain s where
      "sj_flush P (kept_cols (sj_mode J) c, kept_rows bool_cell (sj_mode J) ?f (built_items m)) (s1\<lparr>map_joined := []\<rparr>) = Some s"
      "concat (hj_sent s) = concat (hj_sent s1) @ kept_rows bool_cell (sj_mode J) ?f (built_items m)" by (auto simp: semi_params_ok_def)
    with kind s1(1) pb sc False inv show ?thesis
      by (simp add: execute_join_with_map_def hj_finish_def hj_semi_finish_def)
  qed
qed

section \<open>Properties\<close>

definition semi_schema_len :: "join_type \<Rightarrow> nat \<Rightarrow> nat \<Rightarrow> nat" where
  "semi_schema_len jt lcols rcols =
     (if jt \<in> {LeftSemi, LeftAnti} then lcols else if jt \<in> {RightSemi, RightAnti} then rcols else lcols + 1)"

lemma semi_projection:
  assumes "jt \<in> {LeftSemi, LeftAnti, RightSemi, RightAnti, Existence}"
  shows "try_new_projection jt (semi_schema_len jt l r) l r [0..<semi_schema_len jt l r]
    = Some (if jt \<in> {RightSemi, RightAnti} then \<lparr>proj_left = [], proj_right = [0..<r]\<rparr> else \<lparr>proj_left = [0..<l], proj_right = []\<rparr>)"
  using assms by (auto simp: try_new_projection_def semi_schema_len_def list_all_iff)

text \<open>The joiner of a join type and the columns of the side it sends.\<close>

lemma semi_joiner:
  assumes P: "create_join_params jt (semi_schema_len jt lcols rcols) llen rlen lcols rcols (map (\<lambda>t. (t, t)) types) jf batch na
      [0..<semi_schema_len jt lcols rcols] = Some P"
    and ok: "hash_inputs_ok hasher types side lcols rcols P m bs" and jt: "jt \<in> {LeftSemi, LeftAnti, RightSemi, RightAnti, Existence}"
    and pos: "0 < semi_schema_len jt lcols rcols"
  obtains J c pc where "joiner_of side jt = Some (SemiKind J)" "semi_params_ok P J c" "probe_is_join_side J \<longrightarrow> pc = c"
    "\<forall>b \<in> set bs. probe_ok types pc b" "\<not> probe_is_join_side J \<longrightarrow> built_ok c m"
    "probe_is_join_side J = (side = (if jt \<in> {RightSemi, RightAnti} then LeftSide else RightSide))"
    "sj_mode J = (if jt \<in> {LeftSemi, RightSemi} then Semi else if jt = Existence then ExistenceMode else Anti)"
proof -
  define p where "p = (side = (if jt \<in> {RightSemi, RightAnti} then LeftSide else RightSide))"
  define J where "J = \<lparr>sj_side = (if side = LeftSide then ProbeR else ProbeL), probe_is_join_side = p,
    sj_mode = (if jt \<in> {LeftSemi, RightSemi} then Semi else if jt = Existence then ExistenceMode else Anti)\<rparr>"
  define c where "c = (if jt \<in> {RightSemi, RightAnti} then rcols else lcols)"
  define pc where "pc = (if side = LeftSide then rcols else lcols)"
  have side: "side = LeftSide \<or> side = RightSide" using ok by (cases side) (simp_all add: hash_inputs_ok_def)
  have "joiner_of side jt = Some (SemiKind J)" using side jt by (auto simp: J_def p_def)
  moreover have "projection (hj_params P) = (if jt \<in> {RightSemi, RightAnti} then \<lparr>proj_left = [], proj_right = [0..<rcols]\<rparr>
      else \<lparr>proj_left = [0..<lcols], proj_right = []\<rparr>)" "output_cols P = semi_schema_len jt lcols rcols"
    using P semi_projection [OF jt, of lcols rcols] by (auto simp: create_join_params_def split: if_splits)
  then have "semi_params_ok P J c"
    using side jt pos ok
    by (auto simp: semi_params_ok_def J_def p_def c_def kept_cols_def semi_schema_len_def project_probed_def project_built_def
        probed_cols_def hash_inputs_ok_def)
  moreover have "probe_is_join_side J \<longrightarrow> pc = c" "\<forall>b \<in> set bs. probe_ok types pc b" "\<not> probe_is_join_side J \<longrightarrow> built_ok c m"
    using side jt ok by (auto simp: J_def p_def c_def pc_def hash_inputs_ok_def)
  ultimately show ?thesis by (intro that [of J c pc]) (simp_all add: J_def p_def)
qed

text \<open>
  C7: The semi, anti and existence hash joins that are not null-aware, without a projection of
  their output and on key columns of types whose values compare exactly (\<open>exact_type\<close>: no floating
  point, nested or dictionary keys), with either side built, end without an error and send exactly
  the rows of their side that have a partner, those that have none, or all left rows with the flag
  saying which, in the order of that side; a key with a null has no partner.
\<close>

theorem hash_semi_joins_correct:
  assumes "create_join_params jt (semi_schema_len jt lcols rcols) llen rlen lcols rcols (map (\<lambda>t. (t, t)) types) jf batch False
      [0..<semi_schema_len jt lcols rcols] = Some P"
    and "hash_inputs_ok hasher types side lcols rcols P m bs" and "jt \<in> {LeftSemi, LeftAnti, RightSemi, RightAnti, Existence}"
    and "0 < semi_schema_len jt lcols rcols"
  shows "\<exists>s. execute_join_with_map hasher bool_cell P jt side m (map Some bs) = Some s
    \<and> concat (hj_sent s) = semi_spec null_key bool_cell jt (left_items side m bs) (right_items side m bs)"
proof -
  obtain J c pc where J: "joiner_of side jt = Some (SemiKind J)" "semi_params_ok P J c" "probe_is_join_side J \<longrightarrow> pc = c"
    "\<forall>b \<in> set bs. probe_ok types pc b" "\<not> probe_is_join_side J \<longrightarrow> built_ok c m"
    "probe_is_join_side J = (side = (if jt \<in> {RightSemi, RightAnti} then LeftSide else RightSide))"
    "sj_mode J = (if jt \<in> {LeftSemi, RightSemi} then Semi else if jt = Existence then ExistenceMode else Anti)"
    by (rule semi_joiner [OF assms])
  have m: "map_ok hasher types m" using assms(2) by (simp add: hash_inputs_ok_def)
  have na: "\<not> is_null_aware_anti_join P" using assms(1) by (auto simp: create_join_params_def split: if_splits Option.bind_splits)
  then have flag: "semi_flag P J bhn ys = has_match null_key ys" for bhn and ys :: "(cell_value list \<times> 'a row) list"
    by (simp add: semi_flag_def fun_eq_iff)
  have side: "side = LeftSide \<or> side = RightSide" using assms(2) by (cases side) (simp_all add: hash_inputs_ok_def)
  from execute_semi [OF J(1,2) m J(3-5), of bool_cell] show ?thesis
    using assms(3) side J(6,7) by (auto simp: flag left_items_def right_items_def)
qed

theorem hash_semi_joins_correct_witness:
  "\<exists>m s. create_from_data_batch (\<lambda>h v. of_nat (length v)) 1 [[Some (5 :: nat)]] (Some [PrimitiveArray Int32 None [7]]) = Some m
     \<and> execute_join_with_map (\<lambda>h v. of_nat (length v)) (\<lambda>b. if b then 1 else 0)
         \<lparr>hj_params = \<lparr>projection = \<lparr>proj_left = [0], proj_right = []\<rparr>, join_filter = None, batch_size = 1\<rparr>,
          left_cols = 1, right_cols = 2, output_cols = 2, is_null_aware_anti_join = False\<rparr>
         Existence RightSide m [Some \<lparr>pb_rows = [[Some 3], [Some 4]], pb_keys = Some [PrimitiveArray Int32 None [7, 8]]\<rparr>] = Some s
     \<and> concat (hj_sent s) = [[Some 3, Some 1], [Some 4, Some 0]]"
proof -
  let ?h = "\<lambda>h v. of_nat (length v)"
  have k: "key_columns_ok [Int32] (length [[Some (5 :: nat)]]) [PrimitiveArray Int32 None [7]]"
    "key_columns_ok [Int32] (length [[Some 3], [Some (4 :: nat)]]) [PrimitiveArray Int32 None [7, 8]]"
    by (simp_all add: key_columns_ok_def nulls_wf_def prim_in_range_def)
  obtain m where m: "create_from_data_batch ?h 1 [[Some (5 :: nat)]] (Some [PrimitiveArray Int32 None [7]]) = Some m"
    "map_ok ?h [Int32] m" "data_rows m = [[Some 5]]" "data_cols m = 1" "key_columns m = [PrimitiveArray Int32 None [7]]"
    by (rule create_from_data_batch_ok [OF k(1), of ?h 1]) simp_all
  let ?b = "\<lparr>pb_rows = [[Some 3], [Some (4 :: nat)]], pb_keys = Some [PrimitiveArray Int32 None [7, 8]]\<rparr>"
  let ?P = "\<lparr>hj_params = \<lparr>projection = \<lparr>proj_left = [0], proj_right = []\<rparr>, join_filter = None, batch_size = 1\<rparr>,
      left_cols = 1, right_cols = 2, output_cols = 2, is_null_aware_anti_join = False\<rparr> :: nat hash_join_params"
  have items: "left_items RightSide m [?b] = [([CPrim Int32 7], [Some 3]), ([CPrim Int32 8], [Some 4])]"
    "right_items RightSide m [?b] = [([CPrim Int32 7], [Some 5])]"
    using m(3,5) by (simp_all add: left_items_def right_items_def probe_items_def built_items_def build_keys_def key_of_def bit_valid_def)
  have P: "create_join_params Existence (semi_schema_len Existence 1 1) 1 2 1 1 (map (\<lambda>t. (t, t)) [Int32]) None 1 False
      [0..<semi_schema_len Existence 1 1] = Some ?P"
    by (simp add: create_join_params_def try_new_projection_def semi_schema_len_def numeral_2_eq_2)
  have ok: "hash_inputs_ok ?h [Int32] RightSide 1 1 ?P m [?b]"
    using m k(2) by (simp add: hash_inputs_ok_def built_ok_def probe_ok_def)
  from hash_semi_joins_correct [OF P ok, of "\<lambda>b. if b then 1 else 0"] m(1) show ?thesis
    unfolding items by (simp add: semi_schema_len_def has_match_def)
qed

text \<open>
  C34: A null-aware anti join (of \<open>NOT IN\<close>) sends the probed rows whose key has no null and no
  partner, and none at all if a built key has a null.  So a row with a null key is dropped even when
  the built side is empty, where \<open>NOT IN\<close> over no values holds for every row.
\<close>

theorem null_aware_anti_join_rows:
  assumes "create_join_params LeftAnti lcols llen rlen lcols rcols (map (\<lambda>t. (t, t)) types) jf batch True [0..<lcols] = Some P"
    and "hash_inputs_ok hasher types RightSide lcols rcols P m bs" and "0 < lcols"
  shows "\<exists>s. execute_join_with_map hasher bool_cell P LeftAnti RightSide m (map Some bs) = Some s
    \<and> concat (hj_sent s) = map snd (filter (\<lambda>x. \<not> null_key (fst x) \<and> \<not> built_has_null m \<and> fst x \<notin> fst ` set (built_items m))
        (concat (map probe_items bs)))"
proof -
  have P: "create_join_params LeftAnti (semi_schema_len LeftAnti lcols rcols) llen rlen lcols rcols (map (\<lambda>t. (t, t)) types) jf batch True
      [0..<semi_schema_len LeftAnti lcols rcols] = Some P" "0 < semi_schema_len LeftAnti lcols rcols"
    using assms(1,3) by (simp_all add: semi_schema_len_def)
  obtain J c pc where J: "joiner_of RightSide LeftAnti = Some (SemiKind J)" "semi_params_ok P J c" "probe_is_join_side J \<longrightarrow> pc = c"
    "\<forall>b \<in> set bs. probe_ok types pc b" "\<not> probe_is_join_side J \<longrightarrow> built_ok c m" "probe_is_join_side J" "sj_mode J = Anti"
    by (rule semi_joiner [OF P(1) assms(2) _ P(2)]) (simp_all split: if_splits)
  have m: "map_ok hasher types m" using assms(2) by (simp add: hash_inputs_ok_def)
  have na: "is_null_aware_anti_join P" using assms(1) by (auto simp: create_join_params_def split: if_splits Option.bind_splits)
  then have flag: "(\<lambda>x. \<not> semi_flag P J (built_has_null m) (built_items m) x)
      = (\<lambda>x. \<not> null_key (fst x) \<and> \<not> built_has_null m \<and> fst x \<notin> fst ` set (built_items m))"
    using J(6,7) by (auto simp: semi_flag_def has_match_def fun_eq_iff)
  from execute_semi [OF J(1,2) m J(3-5), of bool_cell] show ?thesis using J(6,7) by (auto simp: flag)
qed

theorem null_aware_anti_join_rows_witness:
  "\<exists>m s. create_from_data_batch (\<lambda>h v. of_nat (length v)) 1 [] (Some [PrimitiveArray Int32 None []]) = Some m
     \<and> execute_join_with_map (\<lambda>h v. of_nat (length v)) (\<lambda>b. 0)
         \<lparr>hj_params = \<lparr>projection = \<lparr>proj_left = [0], proj_right = []\<rparr>, join_filter = None, batch_size = 1\<rparr>,
          left_cols = 1, right_cols = 2, output_cols = 1, is_null_aware_anti_join = True\<rparr>
         LeftAnti RightSide m [Some \<lparr>pb_rows = [[Some (3 :: nat)], [Some 4]], pb_keys = Some [PrimitiveArray Int32 (Some ([1], 0, 2)) [7, 8]]\<rparr>] = Some s
     \<and> concat (hj_sent s) = [[Some 3]]"
proof -
  let ?h = "\<lambda>h v. of_nat (length v)"
  have k: "key_columns_ok [Int32] (length ([] :: nat row list)) [PrimitiveArray Int32 None []]"
    "key_columns_ok [Int32] (length [[Some 3], [Some (4 :: nat)]]) [PrimitiveArray Int32 (Some ([1], 0, 2)) [7, 8]]"
    by (simp_all add: key_columns_ok_def nulls_wf_def prim_in_range_def)
  obtain m :: "nat join_hash_map" where m: "create_from_data_batch ?h 1 [] (Some [PrimitiveArray Int32 None []]) = Some m"
    "map_ok ?h [Int32] m" "data_rows m = []" "data_cols m = 1"
    by (rule create_from_data_batch_ok [OF k(1), of ?h 1]) simp_all
  let ?b = "\<lparr>pb_rows = [[Some (3 :: nat)], [Some 4]], pb_keys = Some [PrimitiveArray Int32 (Some ([1], 0, 2)) [7, 8]]\<rparr>"
  let ?P = "\<lparr>hj_params = \<lparr>projection = \<lparr>proj_left = [0], proj_right = []\<rparr>, join_filter = None, batch_size = 1\<rparr>,
      left_cols = 1, right_cols = 2, output_cols = 1, is_null_aware_anti_join = True\<rparr> :: nat hash_join_params"
  have items: "concat (map probe_items [?b]) = [([CPrim Int32 7], [Some 3]), ([CNull], [Some 4])]" "built_items m = []"
    using m(3) by (simp_all add: probe_items_def built_items_def key_of_def bit_valid_def get_bit_raw_def)
  have P: "create_join_params LeftAnti 1 1 2 1 1 (map (\<lambda>t. (t, t)) [Int32]) None 1 True [0..<1] = Some ?P"
    by (simp add: create_join_params_def try_new_projection_def)
  have ok: "hash_inputs_ok ?h [Int32] RightSide 1 1 ?P m [?b]"
    using m k(2) by (simp add: hash_inputs_ok_def built_ok_def probe_ok_def)
  from null_aware_anti_join_rows [OF P ok, of "\<lambda>b. 0"] m(1) show ?thesis
    unfolding items built_has_null_def by simp
qed

end
