(* ===== verification/Partitioning.thy ===== *)
theory Partitioning
  imports Sort_Exec Spark_Hash
begin

text \<open>
  Which output partition a row belongs to (\<open>datafusion-ext-plans/src/shuffle/mod.rs\<close>): by the
  hash of its key, by its position (round robin), or by where its key lies between the bounds of
  a range partitioning.  An answer \<open>None\<close> is an error or a panic.

  The specification of a hash partition id is Spark's \<open>pmod(murmur3(key, 42), n)\<close>; that of a
  range partition id is the number of bounds below the key, which both searches of the code
  compute.
\<close>

section \<open>Model\<close>

datatype partitioning =
    RoundRobinPartitioning nat
  | HashPartitioning "phys_expr list" nat
  | SinglePartitioning
  | RangePartitioning "sort_expr list" nat "bytes list"

fun partition_count :: "partitioning \<Rightarrow> nat" where
  "partition_count (RoundRobinPartitioning n) = n"
| "partition_count (HashPartitioning exprs n) = n"
| "partition_count (RangePartitioning exprs n bounds) = n"
| "partition_count SinglePartitioning = 1"

fun evaluate_hashes :: "partitioning \<Rightarrow> record_batch \<Rightarrow> u32 list option" where
  "evaluate_hashes (HashPartitioning exprs n) batch =
     do { arrays \<leftarrow> those (map (\<lambda>e. evaluate e batch) exprs);
          first \<leftarrow> vget arrays 0;
          create_murmur3_hashes (array_len first) arrays 42 }"
| "evaluate_hashes P batch = None"

text \<open>\<open>i32::rem_euclid\<close>, which panics on a zero divisor and on the one overflow.\<close>

definition rem_euclid :: "u32 \<Rightarrow> u32 \<Rightarrow> u32 option" where
  "rem_euclid a b =
     (if b = 0 \<or> (a = 2 ^ 31 \<and> b = - 1) then None
      else Some (word_of_int (sint a mod \<bar>sint b\<bar>)))"

definition evaluate_partition_ids :: "u32 list \<Rightarrow> nat \<Rightarrow> nat list option" where
  "evaluate_partition_ids hashes num_partitions =
     those (map (\<lambda>h. map_option unat (rem_euclid h (of_nat num_partitions))) hashes)"

definition evaluate_robin_partition_ids :: "partitioning \<Rightarrow> record_batch \<Rightarrow> nat \<Rightarrow> nat list option" where
  "evaluate_robin_partition_ids P batch start_rows =
     those (map (\<lambda>i. if partition_count P = 0 then None else Some ((i + start_rows) mod partition_count P mod 2 ^ 32))
       [0..<rb_num_rows batch])"

subsection \<open>Range partitions\<close>

function naive_search :: "bytes \<Rightarrow> bytes list \<Rightarrow> nat \<Rightarrow> nat" where
  "naive_search key bounds pos =
     (if pos < length bounds \<and> bounds ! pos < key then naive_search key bounds (pos + 1)
      else pos)"
  by pat_completeness auto
termination
  by (relation "measure (\<lambda>(key, bounds, pos). length bounds - pos)") auto

declare naive_search.simps [simp del]

text \<open>The loop of \<open>binary_search\<close>, on the signed indices of the code.\<close>

function binary_search_loop :: "bytes list \<Rightarrow> bytes \<Rightarrow> int \<Rightarrow> int \<Rightarrow> nat option" where
  "binary_search_loop rows target low high =
     (if low \<le> high
      then let mid = (low + high) div 2 in
           (case (if mid < 0 then None else vget rows (nat mid)) of
              None \<Rightarrow> None
            | Some mid_val \<Rightarrow>
                if mid_val < target then binary_search_loop rows target (mid + 1) high
                else if target < mid_val then binary_search_loop rows target low (mid - 1)
                else Some (nat mid))
      else Some (nat low))"
  by pat_completeness auto
termination
  by (relation "measure (\<lambda>(rows, target, low, high). nat (high + 1 - low))") auto

declare binary_search_loop.simps [simp del]

definition binary_search :: "bytes list \<Rightarrow> bytes \<Rightarrow> int \<Rightarrow> int \<Rightarrow> nat option" where
  "binary_search rows target from_index to_index = binary_search_loop rows target from_index (to_index - 1)"

definition get_partition :: "bytes \<Rightarrow> bytes list \<Rightarrow> bool \<Rightarrow> nat option" where
  "get_partition key bounds ascending =
     do { pos \<leftarrow> (if length bounds \<le> 128 then Some (naive_search key bounds 0)
                        else map_option (\<lambda>p. if p > length bounds then length bounds else p)
                               (binary_search bounds key 0 (int (length bounds))));
          let pos = (if \<not> ascending then length bounds - pos else pos);
          Some (pos mod 2 ^ 32) }"

definition evaluate_range_partition_ids ::
  "converter_maker \<Rightarrow> data_type list \<Rightarrow> record_batch \<Rightarrow> sort_expr list \<Rightarrow> bytes list \<Rightarrow> nat list option" where
  "evaluate_range_partition_ids new_converter schema batch exprs bounds =
     do { types \<leftarrow> those (map (\<lambda>e. expr_data_type schema (se_expr e)) exprs);
          conv \<leftarrow> new_converter (map2 (\<lambda>t e. (t, se_descending e, se_nulls_first e)) types exprs);
          key_cols \<leftarrow> those (map (\<lambda>e. evaluate (se_expr e) batch) exprs);
          key_rows \<leftarrow> convert_columns conv key_cols;
          those (map (\<lambda>key. get_partition key bounds True) key_rows) }"

subsection \<open>The ids of a batch\<close>

text \<open>
  The \<open>match\<close> of \<open>sort_batches_by_partition_id\<close>: the ids of a batch and the round-robin start of
  the next.
\<close>

fun batch_part_ids ::
  "converter_maker \<Rightarrow> data_type list \<Rightarrow> partitioning \<Rightarrow> nat \<Rightarrow> record_batch \<Rightarrow> (nat list \<times> nat) option" where
  "batch_part_ids new_converter schema (HashPartitioning exprs n) start batch =
     do { hashes \<leftarrow> evaluate_hashes (HashPartitioning exprs n) batch;
          ids \<leftarrow> evaluate_partition_ids hashes n;
          Some (ids, start) }"
| "batch_part_ids new_converter schema (RoundRobinPartitioning n) start batch =
     do { ids \<leftarrow> evaluate_robin_partition_ids (RoundRobinPartitioning n) batch start;
          Some (ids, (start + rb_num_rows batch) mod n) }"
| "batch_part_ids new_converter schema (RangePartitioning exprs n bounds) start batch =
     do { ids \<leftarrow> evaluate_range_partition_ids new_converter schema batch exprs bounds;
          Some (ids, start) }"
| "batch_part_ids new_converter schema SinglePartitioning start batch = None"

section \<open>Specification\<close>

text \<open>The hash partition of a row with the given key.\<close>

definition hash_partition :: "nat \<Rightarrow> cell_value list \<Rightarrow> nat option" where
  "hash_partition n key =
     map_option (\<lambda>h. nat (sint h mod int n)) (fold_opt (hash_cell spark_compatible_murmur3_hash) key 42)"

definition range_partition :: "bytes list \<Rightarrow> bytes \<Rightarrow> nat" where
  "range_partition bounds key = length (filter (\<lambda>b. b < key) bounds)"

definition key_cells :: "phys_expr list \<Rightarrow> record_batch \<Rightarrow> cell_value list list option" where
  "key_cells exprs b = map_option (rows_of (rb_num_rows b)) (those (map (\<lambda>e. evaluate e b) exprs))"

text \<open>Legal ids for the rows of a batch.\<close>

fun ids_ok :: "converter_maker \<Rightarrow> data_type list \<Rightarrow> partitioning \<Rightarrow> record_batch \<Rightarrow> nat list \<Rightarrow> bool" where
  "ids_ok new_converter schema (HashPartitioning exprs n) b ids =
     (\<exists>keys. key_cells exprs b = Some keys \<and> map Some ids = map (hash_partition n) keys)"
| "ids_ok new_converter schema (RoundRobinPartitioning n) b ids =
     (\<exists>start. ids = map (\<lambda>i. (start + i) mod n) [0..<rb_num_rows b])"
| "ids_ok new_converter schema (RangePartitioning exprs n bounds) b ids =
     (\<exists>types conv cols keys. map (\<lambda>e. expr_data_type schema (se_expr e)) exprs = map Some types
        \<and> new_converter (map2 (\<lambda>t e. (t, se_descending e, se_nulls_first e)) types exprs) = Some conv
        \<and> map (\<lambda>e. evaluate (se_expr e) b) exprs = map Some cols \<and> convert_columns conv cols = Some keys
        \<and> ids = map (range_partition bounds) keys)"
| "ids_ok new_converter schema SinglePartitioning b ids = False"

text \<open>
  When the ids of a batch can be computed: the key expressions evaluate to well-formed, hashable
  columns of the length of the batch (the hash is total on them); the keys of a range partitioning
  can be encoded, and its bounds are ascending.
\<close>

fun partitionable :: "converter_maker \<Rightarrow> data_type list \<Rightarrow> partitioning \<Rightarrow> record_batch \<Rightarrow> bool" where
  "partitionable new_converter schema (HashPartitioning exprs n) b =
     (exprs \<noteq> [] \<and> (\<exists>cols. map (\<lambda>e. evaluate e b) exprs = map Some cols
        \<and> (\<forall>a \<in> set cols. array_wf a \<and> hashable (data_type_of a) \<and> array_len a = rb_num_rows b)
        \<and> (\<forall>key \<in> set (rows_of (rb_num_rows b) cols). hash_partition n key \<noteq> None)))"
| "partitionable new_converter schema (RoundRobinPartitioning n) b = True"
| "partitionable new_converter schema (RangePartitioning exprs n bounds) b =
     (sorted_wrt (<) bounds \<and> length bounds < n \<and>
      (\<exists>types conv cols keys. map (\<lambda>e. expr_data_type schema (se_expr e)) exprs = map Some types
        \<and> new_converter (map2 (\<lambda>t e. (t, se_descending e, se_nulls_first e)) types exprs) = Some conv
        \<and> map (\<lambda>e. evaluate (se_expr e) b) exprs = map Some cols
        \<and> convert_columns conv cols = Some keys \<and> length keys = rb_num_rows b))"
| "partitionable new_converter schema SinglePartitioning b = False"

section \<open>Range search\<close>

text \<open>On ascending bounds the number of bounds below the key is the position both searches look for.\<close>

lemma range_partition_le: "range_partition bounds key \<le> length bounds"
  by (simp add: range_partition_def)

lemma range_partition_pos:
  assumes "sorted_wrt (<) bounds" and "i < length bounds"
  shows "bounds ! i < key \<longleftrightarrow> i < range_partition bounds key"
  using assms
proof (induction bounds arbitrary: i)
  case (Cons b bounds)
  show ?case
  proof (cases "b < key")
    case True
    with Cons show ?thesis by (cases i) (simp_all add: range_partition_def)
  next
    case False
    then have "\<forall>x \<in> set bounds. \<not> x < key" using Cons.prems(1) by fastforce
    then have "filter (\<lambda>x. x < key) (b # bounds) = []" using False by simp
    moreover have "\<not> (b # bounds) ! i < key" using False \<open>\<forall>x \<in> set bounds. \<not> x < key\<close> Cons.prems(2)
      by (metis nth_mem set_ConsD)
    ultimately show ?thesis by (simp only: range_partition_def list.size not_less0)
  qed
qed simp

lemma range_partition_unique:
  assumes "sorted_wrt (<) bounds" and "k \<le> length bounds"
    and "\<And>i. i < k \<Longrightarrow> bounds ! i < key" and "k < length bounds \<Longrightarrow> \<not> bounds ! k < key"
  shows "range_partition bounds key = k"
proof (rule antisym)
  show "k \<le> range_partition bounds key"
  proof (cases k)
    case (Suc j)
    then show ?thesis using range_partition_pos [OF assms(1), of j key] assms(2,3) by simp
  qed simp
  show "range_partition bounds key \<le> k"
    using range_partition_pos [OF assms(1), of k key] assms(2,4) range_partition_le [of bounds key]
    by (cases "k < length bounds") auto
qed

lemma naive_search_ok:
  assumes "sorted_wrt (<) bounds" and "pos \<le> range_partition bounds key"
  shows "naive_search key bounds pos = range_partition bounds key"
  using assms
proof (induction key bounds pos rule: naive_search.induct)
  case (1 key bounds p)
  show ?case
  proof (cases "p < length bounds \<and> bounds ! p < key")
    case True
    with 1 range_partition_pos [OF 1(2), of p key] show ?thesis by (simp add: naive_search.simps [of key bounds p])
  next
    case False
    then have "naive_search key bounds p = p" by (subst naive_search.simps) (simp only: if_False)
    moreover have "\<not> p < range_partition bounds key"
      using False range_partition_pos [OF 1(2), of p key] range_partition_le [of bounds key] by auto
    ultimately show ?thesis using 1(3) by simp
  qed
qed

lemma binary_search_loop_ok:
  assumes "sorted_wrt (<) bounds" and "0 \<le> low" and "low \<le> int (range_partition bounds key)"
    and "int (range_partition bounds key) \<le> high + 1" and "high < int (length bounds)"
  shows "binary_search_loop bounds key low high = Some (range_partition bounds key)"
  using assms
proof (induction bounds key low high rule: binary_search_loop.induct)
  case (1 bounds key low high)
  let ?r = "range_partition bounds key" and ?mid = "(low + high) div 2"
  show ?case
  proof (cases "low \<le> high")
    case True
    then have mid: "low \<le> ?mid" "?mid \<le> high" "0 \<le> ?mid" "nat ?mid < length bounds" using 1 by auto
    then have v: "(if ?mid < 0 then None else vget bounds (nat ?mid)) = Some (bounds ! nat ?mid)" by (simp add: vget_def)
    have below: "bounds ! nat ?mid < key \<longleftrightarrow> ?mid < int ?r"
      using range_partition_pos [OF 1(3) mid(4), of key] mid(3) by linarith
    consider (less) "bounds ! nat ?mid < key" | (greater) "key < bounds ! nat ?mid" | (eq) "bounds ! nat ?mid = key"
      by fastforce
    then show ?thesis
    proof cases
      case less
      with 1(1) [OF True refl v] below 1(3-) mid v True show ?thesis
        by (simp add: binary_search_loop.simps [of bounds key low] Let_def)
    next
      case greater
      then have "\<not> bounds ! nat ?mid < key" by simp
      with 1(2) [OF True refl v _ greater] below 1(3-) mid v True greater show ?thesis
        by (simp add: binary_search_loop.simps [of bounds key low] Let_def)
    next
      case eq
      have "range_partition bounds key = nat ?mid"
        by (rule range_partition_unique [OF 1(3)])
          (use mid(4) eq 1(3) in \<open>auto simp: sorted_wrt_iff_nth_less\<close>)
      with eq v True show ?thesis by (simp add: binary_search_loop.simps [of bounds key low] Let_def)
    qed
  next
    case False
    with 1 show ?thesis by (simp add: binary_search_loop.simps [of bounds key low])
  qed
qed

lemma get_partition_ok:
  assumes "sorted_wrt (<) bounds" and "length bounds < 2 ^ 32"
  shows "get_partition key bounds True = Some (range_partition bounds key)"
proof -
  have le: "range_partition bounds key \<le> length bounds" by (rule range_partition_le)
  then have "binary_search bounds key 0 (int (length bounds)) = Some (range_partition bounds key)"
    unfolding binary_search_def by (intro binary_search_loop_ok assms(1)) auto
  moreover have "naive_search key bounds 0 = range_partition bounds key" by (rule naive_search_ok [OF assms(1)]) simp
  ultimately show ?thesis using le assms(2) by (simp add: get_partition_def)
qed

section \<open>The ids of a batch\<close>

lemma sint_of_nat_small: "n < 2 ^ 31 \<Longrightarrow> sint (of_nat n :: u32) = int n"
  by (simp add: signed_of_nat signed_take_bit_int_eq_self)

lemma rem_euclid_count:
  assumes "0 < n" and "n < 2 ^ 31"
  shows "map_option unat (rem_euclid h (of_nat n)) = Some (nat (sint h mod int n))"
proof -
  have n: "sint (of_nat n :: u32) = int n" using assms(2) by (rule sint_of_nat_small)
  have "sint (of_nat n :: u32) \<noteq> sint (0 :: u32)" "sint (of_nat n :: u32) \<noteq> sint (- 1 :: u32)" using assms(1) by (simp_all add: n)
  then have "(of_nat n :: u32) \<noteq> 0" "(of_nat n :: u32) \<noteq> - 1" by metis+
  moreover have "0 \<le> sint h mod int n" "sint h mod int n < int n" using assms(1) by simp_all
  moreover from this have "sint h mod int n < 2 ^ 32" using assms(2) by simp
  ultimately show ?thesis using n by (simp add: rem_euclid_def unat_eq_nat_uint uint_word_of_int)
qed

text \<open>The ids the code computes are legal, one for every row, and below the number of partitions.\<close>

lemma hash_part_ids_ok:
  assumes p: "partitionable cv schema (HashPartitioning exprs n) b" and n: "0 < n" "n < 2 ^ 31"
  shows "\<exists>ids. batch_part_ids cv schema (HashPartitioning exprs n) start b = Some (ids, start)
    \<and> ids_ok cv schema (HashPartitioning exprs n) b ids \<and> length ids = rb_num_rows b \<and> (\<forall>i \<in> set ids. i < n)"
proof -
  from p obtain cols where cols: "map (\<lambda>e. evaluate e b) exprs = map Some cols" "exprs \<noteq> []"
    "\<forall>a \<in> set cols. array_wf a \<and> hashable (data_type_of a) \<and> array_len a = rb_num_rows b"
    "\<forall>key \<in> set (rows_of (rb_num_rows b) cols). hash_partition n key \<noteq> None" by auto
  let ?keys = "rows_of (rb_num_rows b) cols"
  let ?h = "\<lambda>key. fold_opt (hash_cell spark_compatible_murmur3_hash) key 42"
  have those: "those (map (\<lambda>e. evaluate e b) exprs) = Some cols" using cols(1) by (simp add: those_Some_iff)
  have ne: "cols \<noteq> []" using cols(1,2) by auto
  then have first: "vget cols 0 = Some (cols ! 0)" "array_len (cols ! 0) = rb_num_rows b" using cols(3) by (auto simp: vget_def)
  define hs where "hs = map (\<lambda>key. the (?h key)) ?keys"
  have h: "?h key = Some (the (?h key))" if "key \<in> set ?keys" for key
    using cols(4) that by (auto simp: hash_partition_def)
  have "create_murmur3_hashes (rb_num_rows b) cols 42 = those (map ?h ?keys)"
    unfolding create_murmur3_hashes_def create_hashes_cells [OF cols(3)] rows_of_def by (simp add: comp_def)
  also have "\<dots> = Some hs" unfolding hs_def using h by (intro those_map_Some) simp
  finally have hashes: "evaluate_hashes (HashPartitioning exprs n) b = Some hs" using those first by simp
  let ?ids = "map (\<lambda>h. nat (sint h mod int n)) hs"
  have ids: "evaluate_partition_ids hs n = Some ?ids"
    unfolding evaluate_partition_ids_def using rem_euclid_count [OF n] by (intro those_map_Some) simp
  have "map Some ?ids = map (hash_partition n) ?keys"
  proof -
    have "hash_partition n key = Some (nat (sint (the (?h key)) mod int n))" if "key \<in> set ?keys" for key
      unfolding hash_partition_def by (subst h [OF that]) simp
    then show ?thesis by (simp add: hs_def)
  qed
  moreover have "key_cells exprs b = Some ?keys" using those by (simp add: key_cells_def)
  moreover have "length ?ids = rb_num_rows b" by (simp add: hs_def)
  moreover have "\<forall>i \<in> set ?ids. i < n" using n(1) by (auto simp: nat_less_iff)
  ultimately show ?thesis using hashes ids by auto
qed

lemma robin_part_ids:
  assumes "0 < n" and "n < 2 ^ 31"
  shows "batch_part_ids cv schema (RoundRobinPartitioning n) start b
    = Some (map (\<lambda>i. (start + i) mod n) [0..<rb_num_rows b], (start + rb_num_rows b) mod n)"
proof -
  have m: "(start + i) mod n mod 4294967296 = (start + i) mod n" for i
    by (rule mod_less, rule less_trans [OF mod_less_divisor [OF assms(1)]]) (use assms(2) in simp)
  have "evaluate_robin_partition_ids (RoundRobinPartitioning n) b start = Some (map (\<lambda>i. (start + i) mod n) [0..<rb_num_rows b])"
    unfolding evaluate_robin_partition_ids_def using assms(1) m by (intro those_map_Some) (simp add: add.commute)
  then show ?thesis by simp
qed

lemma robin_part_ids_ok:
  assumes n: "0 < n" "n < 2 ^ 31"
  shows "\<exists>ids start'. batch_part_ids cv schema (RoundRobinPartitioning n) start b = Some (ids, start')
    \<and> ids_ok cv schema (RoundRobinPartitioning n) b ids \<and> length ids = rb_num_rows b \<and> (\<forall>i \<in> set ids. i < n)"
  using robin_part_ids [OF assms, of cv schema start b] n(1) by auto

lemma range_part_ids_ok:
  assumes p: "partitionable cv schema (RangePartitioning exprs n bounds) b" and n: "n < 2 ^ 31"
  shows "\<exists>ids. batch_part_ids cv schema (RangePartitioning exprs n bounds) start b = Some (ids, start)
    \<and> ids_ok cv schema (RangePartitioning exprs n bounds) b ids \<and> length ids = rb_num_rows b \<and> (\<forall>i \<in> set ids. i < n)"
proof -
  from p obtain types conv cols keys where e: "map (\<lambda>e. expr_data_type schema (se_expr e)) exprs = map Some types"
    "cv (map2 (\<lambda>t e. (t, se_descending e, se_nulls_first e)) types exprs) = Some conv"
    "map (\<lambda>e. evaluate (se_expr e) b) exprs = map Some cols" "convert_columns conv cols = Some keys"
    "length keys = rb_num_rows b" and b: "sorted_wrt (<) bounds" "length bounds < n" by auto
  let ?ids = "map (range_partition bounds) keys"
  have "those (map (\<lambda>key. get_partition key bounds True) keys) = Some ?ids"
    using get_partition_ok [OF b(1)] b(2) n by (intro those_map_Some) simp
  then have "batch_part_ids cv schema (RangePartitioning exprs n bounds) start b = Some (?ids, start)"
    using e(2,4) those_Some_iff [THEN iffD2, OF e(1)] those_Some_iff [THEN iffD2, OF e(3)]
    by (simp add: evaluate_range_partition_ids_def)
  moreover have "\<forall>i \<in> set ?ids. i < n" using range_partition_le b(2) by (auto intro: le_less_trans)
  ultimately show ?thesis using e by auto
qed

lemma batch_part_ids_ok:
  assumes "partitionable cv schema P b" and "0 < partition_count P" and "partition_count P < 2 ^ 31"
  shows "\<exists>ids start'. batch_part_ids cv schema P start b = Some (ids, start') \<and> ids_ok cv schema P b ids
    \<and> length ids = rb_num_rows b \<and> (\<forall>i \<in> set ids. i < partition_count P)"
proof (cases P)
  case (RoundRobinPartitioning n)
  with robin_part_ids_ok [of n cv schema start b] assms show ?thesis by auto
next
  case (HashPartitioning exprs n)
  with hash_part_ids_ok [of cv schema exprs n b start] assms show ?thesis by auto
next
  case (RangePartitioning exprs n bounds)
  with range_part_ids_ok [of cv schema exprs n bounds b start] assms show ?thesis by auto
next
  case SinglePartitioning
  with assms show ?thesis by simp
qed

section \<open>Properties\<close>

text \<open>
  C21: The partition ids of a batch on which they can be computed (keys that can be hashed, or
  range keys that can be encoded and range bounds that are strictly ascending and fewer than the
  partitions): the computation ends, gives one id below the number of partitions for every row,
  and the id is \<open>pmod\<close> of the Spark hash of the key for a hash partitioning, the number of bounds
  below the key for a range partitioning, whichever of the two searches is used, and for a
  round-robin partitioning the rows go to consecutive partitions, from where the batch before ended.
\<close>

theorem partition_ids_correct:
  assumes "partitionable cv schema P b" and "0 < partition_count P" and "partition_count P < 2 ^ 31"
  shows "\<exists>ids start'. batch_part_ids cv schema P start b = Some (ids, start') \<and> ids_ok cv schema P b ids
    \<and> length ids = rb_num_rows b \<and> (\<forall>i \<in> set ids. i < partition_count P)
    \<and> (case P of RoundRobinPartitioning n \<Rightarrow>
         ids = map (\<lambda>i. (start + i) mod n) [0..<rb_num_rows b] \<and> start' = (start + rb_num_rows b) mod n
       | _ \<Rightarrow> start' = start)"
proof -
  from batch_part_ids_ok [OF assms] obtain ids start' where
    r: "batch_part_ids cv schema P start b = Some (ids, start')" "ids_ok cv schema P b ids" "length ids = rb_num_rows b"
      "\<forall>i \<in> set ids. i < partition_count P" by blast
  moreover have "case P of RoundRobinPartitioning n \<Rightarrow>
         ids = map (\<lambda>i. (start + i) mod n) [0..<rb_num_rows b] \<and> start' = (start + rb_num_rows b) mod n
       | _ \<Rightarrow> start' = start"
    using r(1) robin_part_ids [of _ cv schema start b] assms(2,3)
    by (auto split: partitioning.splits Option.bind_splits)
  ultimately show ?thesis by blast
qed

text \<open>A range partitioning of two rows by one bound.\<close>

theorem partition_ids_correct_witness:
  "\<exists>ids. batch_part_ids (\<lambda>_. Some u8_converter) [UInt8] (RangePartitioning [first_column] 2 [[1, 3]]) 0
       \<lparr>rb_schema = [UInt8], rb_columns = [PrimitiveArray UInt8 None [5, 2]], rb_num_rows = 2\<rparr> = Some (ids, 0)
     \<and> ids = [1, 0]"
proof -
  let ?b = "\<lparr>rb_schema = [UInt8], rb_columns = [PrimitiveArray UInt8 None [5, 2]], rb_num_rows = 2\<rparr>"
  let ?P = "RangePartitioning [first_column] 2 [[1, 3]]"
  have keys: "convert_columns u8_converter [PrimitiveArray UInt8 None [5, 2]] = Some [[1, 5], [1, 2]]"
    by (simp add: u8_converter_def rows_of_def bit_valid_def numeral_2_eq_2)
  then have "partitionable (\<lambda>_. Some u8_converter) [UInt8] ?P ?b"
    by (auto simp: first_column_def intro!: exI [of _ "[UInt8]"] exI [of _ "[PrimitiveArray UInt8 None [5, 2]]"])
  from partition_ids_correct [OF this, of 0] keys show ?thesis
    by (auto simp: first_column_def Cons_eq_map_conv range_partition_def)
qed

lemma range_searches_agree:
  assumes "sorted_wrt (<) bounds" and "length bounds < 2 ^ 32"
  shows "get_partition key bounds True = Some (length (filter (\<lambda>b. b < key) bounds))
    \<and> binary_search bounds key 0 (int (length bounds)) = Some (naive_search key bounds 0)"
proof -
  have "binary_search bounds key 0 (int (length bounds)) = Some (range_partition bounds key)"
    unfolding binary_search_def using range_partition_le [of bounds key] by (intro binary_search_loop_ok assms(1)) auto
  moreover have "naive_search key bounds 0 = range_partition bounds key" by (rule naive_search_ok [OF assms(1)]) simp
  ultimately show ?thesis using get_partition_ok [OF assms, of key] by (simp add: range_partition_def)
qed

end
