(* ===== verification/Ipc_Compression.thy ===== *)
theory Ipc_Compression
  imports Arrow_Selection Batch_Serde
begin

text \<open>
  The compressed batch streams of shuffles, broadcasts and spills
  (\<open>datafusion-ext-commons/src/io/ipc_compression.rs\<close>): a stream is a sequence of blocks, each a
  32-bit little-endian length and a compressed run of serialized batches.

  The compressors are code of other crates.  A codec is given by what its encoder has written
  after a sequence of writes, what it has written once it is finished, and its decoder, on whole
  blocks; \<open>codec_ok\<close> is what their documentation promises.
\<close>

section \<open>Model\<close>

record codec =
  enc_output :: "bytes list \<Rightarrow> bytes"
  enc_finish :: "bytes list \<Rightarrow> bytes option"
  dec_block :: "bytes \<Rightarrow> bytes option"

record codecs =
  lz4 :: codec
  zstd :: codec

text \<open>\<open>IoCompressionWriter::try_new\<close>, \<open>IoCompressionReader::try_new\<close>: the codec of a name.\<close>

definition codec_try_new :: "codecs \<Rightarrow> string \<Rightarrow> codec result" where
  "codec_try_new cs name =
     (if name = ''lz4'' then Inr (lz4 cs)
      else if name = ''zstd'' then Inr (zstd cs)
      else Inl ExecutionErr)"

text \<open>\<open>io_compression_codec\<close>: the configured name, or \<open>lz4\<close> where there is no bridge to the JVM.\<close>

definition io_compression_codec :: "string option \<Rightarrow> string" where
  "io_compression_codec conf = (case conf of Some name \<Rightarrow> name | None \<Rightarrow> ''lz4'')"

definition configured_codec :: "codecs \<Rightarrow> string option \<Rightarrow> codec result" where
  "configured_codec cs conf =
     (case codec_try_new cs (io_compression_codec conf) of Inl e \<Rightarrow> Inl Panic | Inr c \<Rightarrow> Inr c)"

subsection \<open>Writer\<close>

text \<open>The writes into the encoder of the current block stand for the encoder.\<close>

record ipc_writer =
  ipc_output :: bytes
  block_writer :: "bytes list"
  block_empty :: bool

definition ipc_new :: "bytes \<Rightarrow> ipc_writer" where
  "ipc_new out = \<lparr>ipc_output = out, block_writer = [], block_empty = True\<rparr>"

definition set_output :: "bytes \<Rightarrow> ipc_writer \<Rightarrow> ipc_writer result" where
  "set_output out w = (if \<not> block_empty w then Inl Panic else Inr (w\<lparr>ipc_output := out\<rparr>))"

definition shared_buf :: "codec \<Rightarrow> ipc_writer \<Rightarrow> bytes" where
  "shared_buf c w = [0, 0, 0, 0] @ enc_output c (block_writer w)"

definition finish_current_buf :: "codec \<Rightarrow> ipc_writer \<Rightarrow> ipc_writer result" where
  "finish_current_buf c w =
     (if \<not> block_empty w
      then (case enc_finish c (block_writer w) of
              None \<Rightarrow> Inl ExecutionErr
            | Some payload \<Rightarrow>
                let shared = [0, 0, 0, 0] @ payload;
                    block_len = length shared - 4
                in Inr \<lparr>ipc_output = ipc_output w @ le_bytes 4 (of_nat block_len :: u32) @ drop 4 shared,
                        block_writer = [], block_empty = True\<rparr>)
      else Inr w)"

text \<open>
  The block is finished when the buffer has nine tenths of the configured size; the code
  multiplies in floating point, which on sizes below \<open>2\<^sup>5\<^sup>3\<close> gives the same answer.
\<close>

definition ipc_write_batch :: "externals \<Rightarrow> codec \<Rightarrow> nat \<Rightarrow> nat \<Rightarrow> array list \<Rightarrow> ipc_writer \<Rightarrow> ipc_writer result" where
  "ipc_write_batch ext c target_buf_size num_rows cols w =
     (if num_rows = 0 then Inr w
      else res_bind (write_batch ext num_rows cols) (\<lambda>bs.
        let w' = w\<lparr>block_writer := block_writer w @ [bs], block_empty := False\<rparr> in
        if 9 * target_buf_size \<le> 10 * length (shared_buf c w') then finish_current_buf c w' else Inr w'))"

subsection \<open>Reader\<close>

text \<open>
  The content of a block is decoded when the block is opened; the decoders of the code do it
  piece by piece, so that on a damaged block they may hand out a prefix before the error.
\<close>

datatype input_state = Unreachable | BlockStart bytes | BlockContent bytes bytes

fun unread :: "input_state \<Rightarrow> nat" where
  "unread Unreachable = 0"
| "unread (BlockStart inp) = 2 * length inp"
| "unread (BlockContent content inp) = 2 * length inp + 1"

text \<open>\<open>read\<close> of the adapter, into a buffer of \<open>n\<close> bytes.\<close>

function reader_read :: "codec \<Rightarrow> nat \<Rightarrow> input_state \<Rightarrow> (bytes \<times> input_state) result" where
  "reader_read c n Unreachable = Inl Panic"
| "reader_read c n (BlockStart inp) =
     (if length inp < 4 then Inr ([], Unreachable)
      else let block_len = unat (of_le_bytes (take 4 inp) :: u32);
               rest = drop 4 inp
           in (case dec_block c (take block_len rest) of
                 None \<Rightarrow> Inl ExecutionErr
               | Some content \<Rightarrow> reader_read c n (BlockContent content (drop block_len rest))))"
| "reader_read c n (BlockContent content inp) =
     (if take n content \<noteq> [] then Inr (take n content, BlockContent (drop n content) inp)
      else reader_read c n (BlockStart inp))"
  by pat_completeness auto
termination
  by (relation "measure (\<lambda>(c, n, st). unread st)") auto

text \<open>\<open>Read::read_exact\<close>: \<open>read\<close> until the buffer is full.\<close>

function reader_read_exact :: "codec \<Rightarrow> nat \<Rightarrow> input_state \<Rightarrow> (bytes \<times> input_state) result" where
  "reader_read_exact c n st =
     (if n = 0 then Inr ([], st)
      else (case reader_read c n st of
              Inl e \<Rightarrow> Inl e
            | Inr (chunk, st') \<Rightarrow>
                if chunk = [] then Inl UnexpectedEof
                else res_map (\<lambda>(more, st''). (chunk @ more, st''))
                       (reader_read_exact c (n - length chunk) st')))"
  by pat_completeness auto
termination
  by (relation "measure (\<lambda>(c, n, st). n)") auto

declare reader_read_exact.simps [simp del]

text \<open>The bytes the adapter hands out from a state on.\<close>

function block_stream :: "codec \<Rightarrow> bytes \<Rightarrow> bytes result" where
  "block_stream c inp =
     (if length inp < 4 then Inr []
      else let block_len = unat (of_le_bytes (take 4 inp) :: u32);
               rest = drop 4 inp
           in (case dec_block c (take block_len rest) of
                 None \<Rightarrow> Inl ExecutionErr
               | Some content \<Rightarrow> res_map ((@) content) (block_stream c (drop block_len rest))))"
  by pat_completeness auto
termination
  by (relation "measure (\<lambda>(c, inp). length inp)") auto

declare block_stream.simps [simp del]

text \<open>\<open>read_batch\<close>, until it answers that there is no further batch, on the bytes handed out.\<close>

partial_function (option) read_batches ::
  "externals \<Rightarrow> data_type list \<Rightarrow> bytes \<Rightarrow> (nat \<times> array list) list option" where
  "read_batches ext schema inp =
     (case read_batch ext schema inp of
        Inl e \<Rightarrow> None
      | Inr (r, rest) \<Rightarrow>
          (case r of None \<Rightarrow> Some []
           | Some batch \<Rightarrow> do { batches \<leftarrow> read_batches ext schema rest; Some (batch # batches) }))"

definition ipc_read_all :: "externals \<Rightarrow> codec \<Rightarrow> data_type list \<Rightarrow> bytes \<Rightarrow> (nat \<times> array list) list option" where
  "ipc_read_all ext c schema inp =
     (case block_stream c inp of Inl e \<Rightarrow> None | Inr content \<Rightarrow> read_batches ext schema content)"

section \<open>What the codecs promise\<close>

text \<open>Finishing succeeds, and the decoder gives back everything that was written.\<close>

definition codec_ok :: "codec \<Rightarrow> bool" where
  "codec_ok c = (\<forall>ws. ws \<noteq> [] \<longrightarrow> (\<exists>payload. enc_finish c ws = Some payload \<and> dec_block c payload = Some (concat ws)))"

section \<open>The adapter\<close>

fun delivered :: "codec \<Rightarrow> input_state \<Rightarrow> bytes result" where
  "delivered c Unreachable = Inr []"
| "delivered c (BlockStart inp) = block_stream c inp"
| "delivered c (BlockContent content inp) = res_map ((@) content) (block_stream c inp)"

text \<open>A read hands out a front part of what is left, and nothing only at the end.\<close>

lemma reader_read_delivers:
  assumes "st \<noteq> Unreachable" and "delivered c st = Inr s" and "0 < n"
  shows "\<exists>chunk st'. reader_read c n st = Inr (chunk, st') \<and> length chunk \<le> n \<and> (chunk = [] \<longleftrightarrow> s = [])
    \<and> (s \<noteq> [] \<longrightarrow> st' \<noteq> Unreachable \<and> (\<exists>s'. delivered c st' = Inr s' \<and> s = chunk @ s'))"
  using assms
proof (induction c n st rule: reader_read.induct)
  case (2 c n inp)
  show ?case
  proof (cases "length inp < 4")
    case True
    with 2 show ?thesis by (simp add: block_stream.simps [of c inp])
  next
    case False
    let ?len = "unat (of_le_bytes (take 4 inp) :: u32)" and ?rest = "drop 4 inp"
    from 2(3) False obtain content where content: "dec_block c (take ?len ?rest) = Some content"
      "res_map ((@) content) (block_stream c (drop ?len ?rest)) = Inr s"
      by (auto simp: block_stream.simps [of c inp] Let_def split: option.splits)
    from 2(1) [OF False refl refl content(1)] content 2(4) False show ?thesis by (simp add: Let_def)
  qed
next
  case (3 c n content inp)
  from 3(3) obtain s' where s': "block_stream c inp = Inr s'" "s = content @ s'"
    by (cases "block_stream c inp") auto
  show ?case
  proof (cases "take n content = []")
    case True
    with 3(4) have "content = []" by simp
    with 3(1) 3(4) True s' show ?thesis by simp
  next
    case False
    have "s = take n content @ drop n content @ s'" using s'(2) by simp
    with False s'(1) show ?thesis by (cases content) auto
  qed
qed simp

lemma reader_read_exact_ok:
  assumes "st \<noteq> Unreachable" and "delivered c st = Inr s" and "n \<le> length s"
  shows "\<exists>st'. reader_read_exact c n st = Inr (take n s, st') \<and> st' \<noteq> Unreachable \<and> delivered c st' = Inr (drop n s)"
  using assms
proof (induction n arbitrary: st s rule: less_induct)
  case (less n)
  show ?case
  proof (cases "n = 0")
    case True
    with less.prems show ?thesis by (simp add: reader_read_exact.simps)
  next
    case False
    then have "s \<noteq> []" using less.prems(3) by auto
    with reader_read_delivers [OF less.prems(1,2), of n] False obtain chunk st' s' where
      r: "reader_read c n st = Inr (chunk, st')" "length chunk \<le> n" "chunk \<noteq> []" "st' \<noteq> Unreachable"
        "delivered c st' = Inr s'" "s = chunk @ s'" by auto
    then have "n - length chunk < n" using False by (cases chunk) auto
    moreover have "n - length chunk \<le> length s'" using r(6) less.prems(3) by simp
    ultimately obtain st'' where
      "reader_read_exact c (n - length chunk) st' = Inr (take (n - length chunk) s', st'')" "st'' \<noteq> Unreachable"
      "delivered c st'' = Inr (drop (n - length chunk) s')" using less.IH [OF _ r(4,5)] by blast
    with r False show ?thesis by (simp add: reader_read_exact.simps [of c n st])
  qed
qed

lemma reader_read_exact_eof:
  assumes "st \<noteq> Unreachable" and "delivered c st = Inr s" and "length s < n"
  shows "reader_read_exact c n st = Inl UnexpectedEof"
  using assms
proof (induction n arbitrary: st s rule: less_induct)
  case (less n)
  from reader_read_delivers [OF less.prems(1,2), of n] less.prems(3) obtain chunk st' where
    r: "reader_read c n st = Inr (chunk, st')" "(chunk = []) = (s = [])"
      "s \<noteq> [] \<longrightarrow> st' \<noteq> Unreachable \<and> (\<exists>s'. delivered c st' = Inr s' \<and> s = chunk @ s')" by auto
  show ?case
  proof (cases "s = []")
    case True
    with r less.prems show ?thesis by (simp add: reader_read_exact.simps [of c n st])
  next
    case False
    with r obtain s' where s': "st' \<noteq> Unreachable" "delivered c st' = Inr s'" "s = chunk @ s'" by blast
    have "0 < length chunk" using False r(2) by simp
    then have "n - length chunk < n" "length s' < n - length chunk" using arg_cong [OF s'(3), of length] less.prems(3) by auto
    from less.IH [OF this(1) s'(1,2) this(2)]
    have "reader_read_exact c (n - length chunk) st' = Inl UnexpectedEof" .
    with r(1,2) False less.prems show ?thesis by (simp add: reader_read_exact.simps [of c n st])
  qed
qed

section \<open>Streams of blocks\<close>

definition serialized :: "externals \<Rightarrow> record_batch \<Rightarrow> bytes \<Rightarrow> bool" where
  "serialized ext b w = (write_batch ext (rb_num_rows b) (rb_columns b) = Inr w)"

text \<open>A stream of finished blocks, with the batches in it.\<close>

inductive ipc_blocks :: "externals \<Rightarrow> codec \<Rightarrow> bytes \<Rightarrow> record_batch list \<Rightarrow> bool" for ext c where
  no_block: "ipc_blocks ext c [] []"
| block: "ipc_blocks ext c (le_bytes 4 (of_nat (length payload) :: u32) @ payload @ sec) (bs @ bs')"
    if "ws \<noteq> []" and "list_all2 (serialized ext) bs ws" and "enc_finish c ws = Some payload"
      and "ipc_blocks ext c sec bs'"

lemma ipc_blocks_append:
  "ipc_blocks ext c sec1 bs1 \<Longrightarrow> ipc_blocks ext c sec2 bs2 \<Longrightarrow> ipc_blocks ext c (sec1 @ sec2) (bs1 @ bs2)"
proof (induction rule: ipc_blocks.induct)
  case (block ws bs payload sec bs')
  then show ?case using ipc_blocks.block [of ws ext bs c payload "sec @ sec2" "bs' @ bs2"] by simp
qed simp

lemma ipc_blocks_Nil: "ipc_blocks ext c [] bs \<Longrightarrow> bs = []"
proof (erule ipc_blocks.cases)
  fix payload sec bs bs'
  assume "[] = le_bytes 4 (of_nat (length payload) :: u32) @ payload @ sec"
  from arg_cong [OF this, of length] show "bs = []" by simp
qed simp

text \<open>What a writer has written since its output was \<open>out\<close>: finished blocks, and an open one.\<close>

definition writer_holds :: "externals \<Rightarrow> codec \<Rightarrow> bytes \<Rightarrow> ipc_writer \<Rightarrow> record_batch list \<Rightarrow> bool" where
  "writer_holds ext c out w bs =
     (\<exists>sec bs1 bs2. ipc_output w = out @ sec \<and> ipc_blocks ext c sec bs1 \<and> list_all2 (serialized ext) bs2 (block_writer w)
        \<and> bs = bs1 @ bs2 \<and> block_empty w = (bs2 = []))"

lemma writer_holds_new: "writer_holds ext c out \<lparr>ipc_output = out, block_writer = [], block_empty = True\<rparr> []"
  unfolding writer_holds_def
  by (rule exI [of _ "[]"], rule exI [of _ "[]"], rule exI [of _ "[]"]) (simp add: no_block)

lemma writer_holds_clean:
  assumes "writer_holds ext c out w bs" and "block_empty w"
  shows "\<exists>sec. w = \<lparr>ipc_output = out @ sec, block_writer = [], block_empty = True\<rparr> \<and> ipc_blocks ext c sec bs"
  using assms by (cases w) (auto simp: writer_holds_def)

lemma finish_current_buf_ok:
  assumes c: "codec_ok c" and w: "writer_holds ext c out w bs"
  shows "\<exists>sec. finish_current_buf c w = Inr \<lparr>ipc_output = out @ sec, block_writer = [], block_empty = True\<rparr>
    \<and> ipc_blocks ext c sec bs"
proof (cases "block_empty w")
  case True
  with writer_holds_clean [OF w] show ?thesis by (auto simp: finish_current_buf_def)
next
  case False
  from w False obtain sec bs1 bs2 where o: "ipc_output w = out @ sec" "ipc_blocks ext c sec bs1"
    "list_all2 (serialized ext) bs2 (block_writer w)" "bs = bs1 @ bs2" "bs2 \<noteq> []"
    by (auto simp: writer_holds_def)
  then have ne: "block_writer w \<noteq> []" by auto
  with c obtain payload where p: "enc_finish c (block_writer w) = Some payload" by (auto simp: codec_ok_def)
  let ?sec = "sec @ le_bytes 4 (of_nat (length payload) :: u32) @ payload"
  have "ipc_blocks ext c (le_bytes 4 (of_nat (length payload) :: u32) @ payload @ []) (bs2 @ [])"
    by (rule ipc_blocks.block [OF ne o(3) p no_block])
  with ipc_blocks_append [OF o(2)] o(4) have "ipc_blocks ext c ?sec bs" by fastforce
  moreover have "finish_current_buf c w = Inr \<lparr>ipc_output = out @ ?sec, block_writer = [], block_empty = True\<rparr>"
    using False p o(1) by (simp add: finish_current_buf_def Let_def)
  ultimately show ?thesis by blast
qed

lemma ipc_write_batch_ok:
  assumes c: "codec_ok c" and w: "writer_holds ext c out w bs" and b: "serialized ext b bytes" and n: "0 < rb_num_rows b"
  shows "\<exists>w'. ipc_write_batch ext c target (rb_num_rows b) (rb_columns b) w = Inr w' \<and> writer_holds ext c out w' (bs @ [b])"
proof -
  let ?w = "w\<lparr>block_writer := block_writer w @ [bytes], block_empty := False\<rparr>"
  from w obtain sec bs1 bs2 where o: "ipc_output w = out @ sec" "ipc_blocks ext c sec bs1"
    "list_all2 (serialized ext) bs2 (block_writer w)" "bs = bs1 @ bs2" by (auto simp: writer_holds_def)
  have w': "writer_holds ext c out ?w (bs @ [b])"
    unfolding writer_holds_def using o b
    by (intro exI [of _ sec] exI [of _ bs1] exI [of _ "bs2 @ [b]"]) (simp add: list_all2_appendI)
  have run: "ipc_write_batch ext c target (rb_num_rows b) (rb_columns b) w
      = (if 9 * target \<le> 10 * length (shared_buf c ?w) then finish_current_buf c ?w else Inr ?w)"
    using b n by (simp add: ipc_write_batch_def serialized_def Let_def)
  from finish_current_buf_ok [OF c w'] obtain sec' where
    f: "finish_current_buf c ?w = Inr \<lparr>ipc_output = out @ sec', block_writer = [], block_empty = True\<rparr>"
      "ipc_blocks ext c sec' (bs @ [b])" by blast
  then have "writer_holds ext c out \<lparr>ipc_output = out @ sec', block_writer = [], block_empty = True\<rparr> (bs @ [b])"
    by (auto simp: writer_holds_def)
  with f(1) w' show ?thesis unfolding run by simp
qed

section \<open>Reading back\<close>

definition decoded_rows :: "nat \<times> array list \<Rightarrow> cell_value list list" where
  "decoded_rows x = map (\<lambda>i. map (\<lambda>col. cell col i) (snd x)) [0..<fst x]"

lemma decoded_rows_same:
  assumes "\<forall>col \<in> set (rb_columns b). array_len col = rb_num_rows b" and "list_all2 same_rows (rb_columns b) cols"
  shows "decoded_rows (rb_num_rows b, cols) = batch_rows b"
proof -
  have "map (\<lambda>col. cell col i) cols = map (\<lambda>col. cell col i) (rb_columns b)" if "i < rb_num_rows b" for i
    using assms(2,1) that by (induction rule: list_all2_induct) (auto simp: same_rows_def)
  then show ?thesis by (simp add: decoded_rows_def batch_rows_def)
qed

definition writable :: "data_type list \<Rightarrow> record_batch \<Rightarrow> bool" where
  "writable schema b = (batch_of schema b \<and> 0 < rb_num_rows b \<and> rb_num_rows b < 2 ^ 64)"

lemma writable_serialized:
  assumes "externals_ok ext" and "\<forall>t \<in> set schema. serde_type t" and "writable schema b"
  shows "\<exists>w cols. serialized ext b w \<and> decoded_rows (rb_num_rows b, cols) = batch_rows b
    \<and> (\<forall>rest. read_batch ext schema (w @ rest) = Inr (Some (rb_num_rows b, cols), rest))"
proof -
  from assms(3) have b: "map data_type_of (rb_columns b) = schema" "rb_num_rows b < 2 ^ 64"
    "\<forall>col \<in> set (rb_columns b). array_wf col \<and> array_len col = rb_num_rows b"
    by (simp_all add: writable_def batch_of_def)
  then have "batch_ok (rb_num_rows b) (rb_columns b)" using assms(2) by (auto simp: batch_ok_def)
  from batch_columns [OF assms(1) this] obtain w cols where
    "write_batch ext (rb_num_rows b) (rb_columns b) = Inr w" "list_all2 same_rows (rb_columns b) cols"
    "\<forall>rest. read_batch ext schema (w @ rest) = Inr (Some (rb_num_rows b, cols), rest)"
    unfolding b(1) by blast
  with decoded_rows_same [of b cols] b(3) show ?thesis by (auto simp: serialized_def)
qed

lemma read_batches_ok:
  assumes ext: "externals_ok ext" "\<forall>t \<in> set schema. serde_type t"
    and "list_all2 (serialized ext) bs ws" and "\<forall>b \<in> set bs. writable schema b"
    and tail: "read_batches ext schema rest = Some xs"
  shows "\<exists>ys. read_batches ext schema (concat ws @ rest) = Some (ys @ xs) \<and> map decoded_rows ys = map batch_rows bs"
  using assms(3,4)
proof (induction rule: list_all2_induct)
  case Nil
  then show ?case using tail by simp
next
  case (Cons b bs w ws)
  from writable_serialized [OF ext, of b] Cons.prems Cons.hyps(1) obtain cols where
    b: "decoded_rows (rb_num_rows b, cols) = batch_rows b"
      "\<And>rest. read_batch ext schema (w @ rest) = Inr (Some (rb_num_rows b, cols), rest)"
    by (auto simp: serialized_def)
  from Cons.IH Cons.prems obtain ys where
    ys: "read_batches ext schema (concat ws @ rest) = Some (ys @ xs)" "map decoded_rows ys = map batch_rows bs" by auto
  have "read_batches ext schema (concat (w # ws) @ rest) = Some (((rb_num_rows b, cols) # ys) @ xs)"
    using b(2) ys(1) by (subst read_batches.simps) simp
  with b(1) ys(2) show ?case by (intro exI [of _ "(rb_num_rows b, cols) # ys"]) simp
qed

lemma read_batches_end: "read_batches ext schema [] = Some []"
  by (subst read_batches.simps) (simp add: read_batch_def read_len_def)

lemma block_stream_block:
  assumes "length payload < 2 ^ 32" and "dec_block c payload = Some content"
  shows "block_stream c (le_bytes 4 (of_nat (length payload) :: u32) @ payload @ sec) = res_map ((@) content) (block_stream c sec)"
proof -
  have "of_le_bytes (le_bytes 4 (of_nat (length payload) :: u32)) = (of_nat (length payload) :: u32)"
    by (rule le_bytes_roundtrip) simp
  moreover have "unat (of_nat (length payload) :: u32) = length payload" using assms(1) by (simp add: unat_of_nat)
  ultimately show ?thesis using assms(2) by (subst block_stream.simps) (simp add: Let_def)
qed

lemma ipc_blocks_readable:
  assumes c: "codec_ok c" and ext: "externals_ok ext" "\<forall>t \<in> set schema. serde_type t"
    and "ipc_blocks ext c sec bs" and "length sec < 2 ^ 32" and "\<forall>b \<in> set bs. writable schema b"
  shows "\<exists>content ys. block_stream c sec = Inr content \<and> read_batches ext schema content = Some ys
    \<and> map decoded_rows ys = map batch_rows bs"
  using assms(4-)
proof (induction rule: ipc_blocks.induct)
  case no_block
  then show ?case by (simp add: block_stream.simps [of c "[]"] read_batches_end)
next
  case (block ws bs payload sec bs')
  then obtain content ys where ih: "block_stream c sec = Inr content" "read_batches ext schema content = Some ys"
    "map decoded_rows ys = map batch_rows bs'" by auto
  from c block.hyps(1,3) have "dec_block c payload = Some (concat ws)" by (auto simp: codec_ok_def)
  with block_stream_block [of payload c] block.prems(1) ih(1)
  have "block_stream c (le_bytes 4 (of_nat (length payload) :: u32) @ payload @ sec) = Inr (concat ws @ content)" by simp
  moreover from read_batches_ok [OF ext block.hyps(2) _ ih(2)] block.prems(2) obtain zs where
    "read_batches ext schema (concat ws @ content) = Some (zs @ ys)" "map decoded_rows zs = map batch_rows bs" by auto
  ultimately show ?case using ih(3) by fastforce
qed

lemma ipc_read_all_blocks:
  assumes "codec_ok c" and "externals_ok ext" and "\<forall>t \<in> set schema. serde_type t"
    and "ipc_blocks ext c sec bs" and "length sec < 2 ^ 32" and "\<forall>b \<in> set bs. writable schema b"
  shows "\<exists>ys. ipc_read_all ext c schema sec = Some ys \<and> map decoded_rows ys = map batch_rows bs"
  using ipc_blocks_readable [OF assms] by (auto simp: ipc_read_all_def)

end
