(* ===== verification/Buffered_Data.thy ===== *)
theory Buffered_Data
  imports Partitioning Ipc_Compression Radix_Sort Offsetted_Merge
begin

text \<open>
  The buffer of a shuffle writer (\<open>datafusion-ext-plans/src/shuffle/buffered_data.rs\<close>).  Batches
  are staged, then gathered into one batch whose rows are sorted by partition id; writing the
  buffer merges the sorted batches partition by partition into compressed blocks and records
  where every partition begins.

  What depends on the running system is a parameter (\<open>shuffle_env\<close>).  An answer \<open>None\<close> is an error
  or a panic.
\<close>

section \<open>Model\<close>

record shuffle_env =
  sh_kernels :: kernels
  sh_externals :: externals
  sh_schema :: "data_type list"
  sh_converter :: converter_maker
  sh_codec :: codec
  sh_target_buf_size :: nat
  sh_mem_size :: "record_batch \<Rightarrow> nat"
  sh_batch_size :: nat
  sh_output_mem :: nat
  sh_task_running :: "nat \<Rightarrow> bool"

text \<open>The \<open>?\<close> operator on a result.\<close>

definition ok_of :: "'a result \<Rightarrow> 'a option" where
  "ok_of r = (case r of Inl e \<Rightarrow> None | Inr x \<Rightarrow> Some x)"

definition suggested_batch_size :: "shuffle_env \<Rightarrow> nat \<Rightarrow> nat \<Rightarrow> nat" where
  "suggested_batch_size env mem_size num_rows =
     compute_batch_size_with_target_mem_size (sh_batch_size env) mem_size num_rows (sh_output_mem env)"

subsection \<open>Sorting by partition\<close>

text \<open>Partition id, batch index and row index of every row; the indices are 32-bit numbers.\<close>

fun partition_indices ::
  "shuffle_env \<Rightarrow> partitioning \<Rightarrow> nat \<Rightarrow> nat \<Rightarrow> record_batch list \<Rightarrow> (nat \<times> nat \<times> nat) list option" where
  "partition_indices env P round_robin_start_rows batch_idx [] = Some []"
| "partition_indices env P round_robin_start_rows batch_idx (batch # batches) =
     do { (part_ids, start') \<leftarrow> batch_part_ids (sh_converter env) (sh_schema env) P round_robin_start_rows batch;
          rest \<leftarrow> partition_indices env P start' (batch_idx + 1) batches;
          Some (map (\<lambda>(row_idx, part_id). (part_id, batch_idx mod 2 ^ 32, row_idx mod 2 ^ 32)) (enumerate 0 part_ids) @ rest) }"

fun partition_offsets :: "nat \<Rightarrow> nat list \<Rightarrow> nat list" where
  "partition_offsets offset [] = [offset]"
| "partition_offsets offset (part_count # part_counts) =
     offset # partition_offsets ((offset + part_count) mod 2 ^ 32) part_counts"

definition sort_batches_by_partition_id ::
  "shuffle_env \<Rightarrow> record_batch list \<Rightarrow> partitioning \<Rightarrow> nat \<Rightarrow> nat \<Rightarrow> (nat list \<times> record_batch) option" where
  "sort_batches_by_partition_id env batches P current_num_rows partition_id =
     (if partition_count P = 0 then None
      else do { let start = (partition_id * 1000193 + current_num_rows) mod 2 ^ 64 mod partition_count P;
                indices \<leftarrow> partition_indices env P start 0 batches;
                (indices, part_counts) \<leftarrow> radix_sort_by_key fst indices (replicate (partition_count P) 0);
                sorted_batch \<leftarrow> create_batch_interleaver (sh_kernels env) batches (map snd indices);
                Some (partition_offsets 0 part_counts, sorted_batch) })"

subsection \<open>The buffer\<close>

record buffered_data =
  bd_partition_id :: nat
  bd_partitioning :: partitioning
  staging_batches :: "record_batch list"
  staging_num_rows :: nat
  staging_mem_used :: nat
  bd_sorted_batches :: "record_batch list"
  sorted_offsets :: "nat list list"
  bd_num_rows :: nat
  sorted_mem_used :: nat

definition new_buffered_data :: "partitioning \<Rightarrow> nat \<Rightarrow> buffered_data" where
  "new_buffered_data P partition_id =
     \<lparr>bd_partition_id = partition_id, bd_partitioning = P, staging_batches = [], staging_num_rows = 0,
      staging_mem_used = 0, bd_sorted_batches = [], sorted_offsets = [], bd_num_rows = 0, sorted_mem_used = 0\<rparr>"

text \<open>The drained buffer and the one left behind.\<close>

definition drain :: "buffered_data \<Rightarrow> buffered_data \<times> buffered_data" where
  "drain bd = (bd, new_buffered_data (bd_partitioning bd) (bd_partition_id bd))"

definition bd_mem_used :: "buffered_data \<Rightarrow> nat" where
  "bd_mem_used bd = sorted_mem_used bd + staging_mem_used bd"

definition bd_is_empty :: "buffered_data \<Rightarrow> bool" where
  "bd_is_empty bd = (bd_sorted_batches bd = [] \<and> staging_batches bd = [])"

definition flush_staging :: "shuffle_env \<Rightarrow> buffered_data \<Rightarrow> buffered_data option" where
  "flush_staging env bd =
     do { let sorted_num_rows = bd_num_rows bd - staging_num_rows bd;
          (offs, sorted_batch) \<leftarrow> sort_batches_by_partition_id env (staging_batches bd) (bd_partitioning bd)
                                     sorted_num_rows (bd_partition_id bd);
          Some (bd\<lparr>staging_batches := [], staging_num_rows := 0, staging_mem_used := 0,
                   sorted_mem_used := sorted_mem_used bd + sh_mem_size env sorted_batch + length offs * 4,
                   bd_sorted_batches := bd_sorted_batches bd @ [sorted_batch],
                   sorted_offsets := sorted_offsets bd @ [offs]\<rparr>) }"

definition add_batch :: "shuffle_env \<Rightarrow> record_batch \<Rightarrow> buffered_data \<Rightarrow> buffered_data option" where
  "add_batch env batch bd =
     (let bd = bd\<lparr>bd_num_rows := bd_num_rows bd + rb_num_rows batch,
                  staging_num_rows := staging_num_rows bd + rb_num_rows batch,
                  staging_mem_used := staging_mem_used bd + sh_mem_size env batch * 2,
                  staging_batches := staging_batches bd @ [batch]\<rparr>
      in if staging_num_rows bd \<ge> suggested_batch_size env (staging_mem_used bd) (staging_num_rows bd)
         then flush_staging env bd else Some bd)"

subsection \<open>Iterating over the partitions\<close>

record partitioned_batches =
  pb_batches :: "record_batch list"
  pb_merge_iter :: "nat merge_iter"
  pb_batch_size :: nat
  last_chunk_partition_id :: "nat option"

definition pb_try_new :: "record_batch list \<Rightarrow> nat list list \<Rightarrow> nat \<Rightarrow> nat \<Rightarrow> partitioned_batches option" where
  "pb_try_new batches batch_offsets sub_size np =
     do { it \<leftarrow> new_merge_iter np (map (\<lambda>(idx, offs). \<lparr>offsets = offs, odata = idx\<rparr>) (enumerate 0 batch_offsets));
          Some \<lparr>pb_batches = batches, pb_merge_iter = it, pb_batch_size = sub_size, last_chunk_partition_id = None\<rparr> }"

definition into_sorted_batches :: "shuffle_env \<Rightarrow> buffered_data \<Rightarrow> partitioned_batches option" where
  "into_sorted_batches env bd =
     pb_try_new (bd_sorted_batches bd) (sorted_offsets bd) (suggested_batch_size env (bd_mem_used bd) (bd_num_rows bd))
       (partition_count (bd_partitioning bd))"

text \<open>\<open>next_partition_chunk\<close>: the next partition; the chunk of the last one must have been consumed.\<close>

definition next_partition_chunk :: "partitioned_batches \<Rightarrow> (nat option \<times> partitioned_batches) option" where
  "next_partition_chunk pb =
     do { pid \<leftarrow> peek_next_partition_id (pb_merge_iter pb);
          if pid < num_partitions (pb_merge_iter pb)
          then if last_chunk_partition_id pb = Some pid then None
               else Some (Some pid, pb\<lparr>last_chunk_partition_id := Some pid\<rparr>)
          else Some (None, pb) }"

text \<open>The rows of the next batch of a chunk: whole ranges, until there are enough rows.\<close>

partial_function (option) gather_indices ::
  "nat \<Rightarrow> nat \<Rightarrow> nat merge_iter \<Rightarrow> (nat \<times> nat) list \<Rightarrow> ((nat \<times> nat) list \<times> nat merge_iter) option" where
  "gather_indices sub_size pid it indices =
     do { (r, it') \<leftarrow> chunk_next pid it;
          (case r of
             None \<Rightarrow> Some (indices, it')
           | Some (batch_idx, rng) \<Rightarrow>
               let indices' = indices @ map (Pair batch_idx) [fst rng..<snd rng] in
               if length indices' \<ge> sub_size then Some (indices', it') else gather_indices sub_size pid it' indices') }"

definition next_chunk_batch :: "shuffle_env \<Rightarrow> nat \<Rightarrow> partitioned_batches \<Rightarrow> (record_batch option \<times> partitioned_batches) option" where
  "next_chunk_batch env pid pb =
     do { (indices, it') \<leftarrow> gather_indices (pb_batch_size pb) pid (pb_merge_iter pb) [];
          let pb' = pb\<lparr>pb_merge_iter := it'\<rparr>;
          if indices = [] then Some (None, pb')
          else do { output_batch \<leftarrow> create_batch_interleaver (sh_kernels env) (pb_batches pb) indices;
                    Some (Some output_batch, pb') } }"

subsection \<open>Writing\<close>

definition bd_write_batch :: "shuffle_env \<Rightarrow> record_batch \<Rightarrow> ipc_writer \<Rightarrow> ipc_writer option" where
  "bd_write_batch env batch w =
     ok_of (ipc_write_batch (sh_externals env) (sh_codec env) (sh_target_buf_size env) (rb_num_rows batch) (rb_columns batch) w)"

text \<open>\<open>for batch in batch_iter\<close>.\<close>

partial_function (option) write_chunk ::
  "shuffle_env \<Rightarrow> nat \<Rightarrow> partitioned_batches \<Rightarrow> ipc_writer \<Rightarrow> (partitioned_batches \<times> ipc_writer) option" where
  "write_chunk env pid pb w =
     do { (r, pb') \<leftarrow> next_chunk_batch env pid pb;
          (case r of
             None \<Rightarrow> Some (pb', w)
           | Some batch \<Rightarrow> do { w' \<leftarrow> bd_write_batch env batch w; write_chunk env pid pb' w' }) }"

text \<open>\<open>while let Some((partition_id, batch_iter)) = iter.next_partition_chunk()\<close> of \<open>write\<close>.\<close>

partial_function (option) write_chunks ::
  "shuffle_env \<Rightarrow> partitioned_batches \<Rightarrow> ipc_writer \<Rightarrow> nat list \<Rightarrow> (ipc_writer \<times> nat list) option" where
  "write_chunks env pb w offs =
     do { (r, pb') \<leftarrow> next_partition_chunk pb;
          (case r of
             None \<Rightarrow> Some (w, offs)
           | Some pid \<Rightarrow>
               if \<not> sh_task_running env pid then None
               else do { let offs' = vec_resize offs (pid + 1) (length (ipc_output w));
                         (pb'', w') \<leftarrow> write_chunk env pid pb' w;
                         w'' \<leftarrow> ok_of (finish_current_buf (sh_codec env) w');
                         write_chunks env pb'' w'' offs' }) }"

text \<open>\<open>write\<close>: the bytes that are written, and the offsets of the partitions.\<close>

definition bd_write :: "shuffle_env \<Rightarrow> buffered_data \<Rightarrow> (bytes \<times> nat list) option" where
  "bd_write env bd =
     (if bd_num_rows bd = 0 then Some ([], replicate (partition_count (bd_partitioning bd) + 1) 0)
      else do { bd \<leftarrow> (if staging_batches bd \<noteq> [] then flush_staging env bd else Some bd);
                pb \<leftarrow> into_sorted_batches env bd;
                (w, offs) \<leftarrow> write_chunks env pb (ipc_new []) [];
                Some (ipc_output w, vec_resize offs (partition_count (bd_partitioning bd) + 1) (length (ipc_output w))) })"

text \<open>
  \<open>write_rss\<close>: for every partition the bytes pushed to the remote service, in order.  The writer
  gets a fresh output for every partition.
\<close>

partial_function (option) push_chunks ::
  "shuffle_env \<Rightarrow> partitioned_batches \<Rightarrow> ipc_writer \<Rightarrow> (nat \<times> bytes) list \<Rightarrow> (nat \<times> bytes) list option" where
  "push_chunks env pb w pushed =
     do { (r, pb') \<leftarrow> next_partition_chunk pb;
          (case r of
             None \<Rightarrow> Some pushed
           | Some pid \<Rightarrow>
               if \<not> sh_task_running env pid then None
               else do { w0 \<leftarrow> ok_of (set_output [] w);
                         (pb'', w') \<leftarrow> write_chunk env pid pb' w0;
                         w'' \<leftarrow> ok_of (finish_current_buf (sh_codec env) w');
                         push_chunks env pb'' w'' (pushed @ [(pid, ipc_output w'')]) }) }"

definition bd_write_rss :: "shuffle_env \<Rightarrow> buffered_data \<Rightarrow> (nat \<times> bytes) list option" where
  "bd_write_rss env bd =
     (if bd_num_rows bd = 0 then Some []
      else do { bd \<leftarrow> (if staging_batches bd \<noteq> [] then flush_staging env bd else Some bd);
                pb \<leftarrow> into_sorted_batches env bd;
                push_chunks env pb (ipc_new []) [] })"

section \<open>Rows sorted by partition\<close>

type_synonym row = "cell_value list"

lemma sorted_split:
  "sorted (map f ts) \<Longrightarrow> ts = filter (\<lambda>t. f t < (p :: nat)) ts @ filter (\<lambda>t. \<not> f t < p) ts"
proof (induction ts)
  case (Cons t ts)
  show ?case
  proof (cases "f t < p")
    case False
    then have "\<forall>u \<in> set ts. \<not> f u < p" using Cons.prems by (auto dest: order_trans)
    then have "filter (\<lambda>t. f t < p) ts = []" "filter (\<lambda>t. \<not> f t < p) ts = ts" by (simp_all add: filter_empty_conv filter_id_conv)
    with False show ?thesis by simp
  qed (use Cons in simp)
qed simp

lemma sorted_filter_Suc:
  assumes "sorted (map f ts)"
  shows "filter (\<lambda>t. f t < Suc p) ts = filter (\<lambda>t. f t < p) ts @ filter (\<lambda>t. f t = p) ts"
proof -
  have "sorted (map f (filter (\<lambda>t. f t < Suc p) ts))" using assms by (rule sorted_filter)
  from sorted_split [OF this, of p] show ?thesis
    by (simp add: conj_commute less_Suc_eq conj_disj_distribL cong: conj_cong)
qed

lemma sorted_range:
  assumes "sorted (map f ts)"
  shows "map ((!) ts) [length (filter (\<lambda>t. f t < (p :: nat)) ts)..<length (filter (\<lambda>t. f t < Suc p) ts)] = filter (\<lambda>t. f t = p) ts"
proof -
  let ?lt = "\<lambda>q ts. filter (\<lambda>t. f t < q) ts"
  have ts: "ts = ?lt (Suc p) ts @ filter (\<lambda>t. \<not> f t < Suc p) ts" by (rule sorted_split [OF assms])
  have l: "?lt (Suc p) ts = ?lt p ts @ filter (\<lambda>t. f t = p) ts" by (rule sorted_filter_Suc [OF assms])
  have "ts ! i = filter (\<lambda>t. f t = p) ts ! (i - length (?lt p ts))"
    if "length (?lt p ts) \<le> i" "i < length (?lt (Suc p) ts)" for i
  proof -
    have "ts ! i = ?lt (Suc p) ts ! i" using ts that(2) by (metis nth_append)
    then show ?thesis using that l by (simp add: nth_append)
  qed
  then show ?thesis using l by (intro nth_equalityI) simp_all
qed

text \<open>
  A batch sorted by partition: \<open>ts\<close> are its rows with their partition ids, and the offsets are
  where the partitions begin.
\<close>

definition part_batch :: "data_type list \<Rightarrow> nat \<Rightarrow> nat list \<Rightarrow> record_batch \<Rightarrow> (nat \<times> row) list \<Rightarrow> bool" where
  "part_batch schema n offs b ts =
     (batch_of schema b \<and> map snd ts = batch_rows b \<and> sorted (map fst ts) \<and> (\<forall>t \<in> set ts. fst t < n)
      \<and> offs = map (\<lambda>p. length (filter (\<lambda>t. fst t < p) ts)) [0..<n + 1])"

lemma part_batch_range:
  assumes "part_batch schema n offs b ts" and "p < n"
  shows "map ((!) (batch_rows b)) [offs ! p..<offs ! (p + 1)] = map snd (filter (\<lambda>t. fst t = p) ts)"
proof -
  have r: "batch_rows b = map snd ts" and s: "sorted (map fst ts)" and o: "offs ! p = length (filter (\<lambda>t. fst t < p) ts)"
    "offs ! (p + 1) = length (filter (\<lambda>t. fst t < Suc p) ts)"
    using assms by (simp_all add: part_batch_def del: upt_Suc)
  have "offs ! (p + 1) \<le> length ts" using o(2) by simp
  then have "map ((!) (batch_rows b)) [offs ! p..<offs ! (p + 1)] = map snd (map ((!) ts) [offs ! p..<offs ! (p + 1)])"
    unfolding r by simp
  then show ?thesis unfolding o sorted_range [OF s] .
qed

lemma part_batch_offsets:
  assumes "part_batch schema n offs b ts"
  shows "offsets_ok n \<lparr>offsets = offs, odata = k\<rparr>" and "offs ! 0 = 0" and "p \<le> n \<Longrightarrow> offs ! p \<le> rb_num_rows b"
proof -
  have o: "offs = map (\<lambda>p. length (filter (\<lambda>t. fst t < p) ts)) [0..<n + 1]" "length ts = rb_num_rows b"
    using assms unfolding part_batch_def by (blast, metis length_batch_rows length_map)
  have "length (filter (\<lambda>t. fst t < p) ts) \<le> length (filter (\<lambda>t. fst t < q) ts)" if "p \<le> q" for p q
    using that by (induction ts) auto
  then have "sorted offs" unfolding o(1) by (simp add: sorted_iff_nth_mono del: upt_Suc)
  then show "offsets_ok n \<lparr>offsets = offs, odata = k\<rparr>" using o(1) by (simp add: offsets_ok_def)
  show "offs ! 0 = 0" using o(1) by (simp del: upt_Suc)
  show "p \<le> n \<Longrightarrow> offs ! p \<le> rb_num_rows b" using o length_filter_le [of "\<lambda>t. fst t < p" ts] by (simp del: upt_Suc)
qed

lemma partition_offsets_ok:
  assumes "\<forall>i < length cs. cs ! i = length (filter (\<lambda>t. f t = k + i) xs)" and "length xs < 2 ^ 32"
  shows "partition_offsets (length (filter (\<lambda>t. f t < k) xs)) cs
    = map (\<lambda>p. length (filter (\<lambda>t. f t < p) xs)) [k..<k + length cs + 1]"
  using assms(1)
proof (induction cs arbitrary: k)
  case (Cons c cs)
  have c: "c = length (filter (\<lambda>t. f t = k) xs)" using Cons.prems by auto
  have rest: "\<forall>i < length cs. cs ! i = length (filter (\<lambda>t. f t = Suc k + i) xs)" using Cons.prems by auto
  have sum: "length (filter (\<lambda>t. f t < k) xs) + c = length (filter (\<lambda>t. f t < Suc k) xs)"
    unfolding c by (induction xs) auto
  have "length (filter (\<lambda>t. f t < Suc k) xs) < 2 ^ 32" by (rule le_less_trans [OF length_filter_le assms(2)])
  with Cons.IH [OF rest] sum show ?case by (simp add: upt_conv_Cons del: upt_Suc)
qed simp

text \<open>The rows of batches with their partition ids.\<close>

definition tagged :: "nat list list \<Rightarrow> record_batch list \<Rightarrow> (nat \<times> row) list" where
  "tagged idss bs = concat (map2 (\<lambda>ids b. zip ids (batch_rows b)) idss bs)"

lemma tagged_append: "length idss = length bs \<Longrightarrow> tagged (idss @ idss') (bs @ bs') = tagged idss bs @ tagged idss' bs'"
  by (simp add: tagged_def)

text \<open>The rows of a partition among batches with their partition ids.\<close>

definition rows_to :: "nat \<Rightarrow> nat list list \<Rightarrow> record_batch list \<Rightarrow> row multiset" where
  "rows_to p idss bs = mset (map snd (filter (\<lambda>t. fst t = p) (tagged idss bs)))"

lemma rows_to_append: "length idss = length bs \<Longrightarrow> rows_to p (idss @ idss') (bs @ bs') = rows_to p idss bs + rows_to p idss' bs'"
  by (simp add: rows_to_def tagged_append)

lemma rows_to_Nil [simp]: "rows_to p [] [] = {#}"
  by (simp add: rows_to_def tagged_def)

section \<open>Assumptions\<close>

text \<open>
  Batches of at most \<open>m\<close> rows, each of which may be repeated \<open>3 * m\<close> times in an array, whose
  partition ids can be computed.
\<close>

definition shuffle_input_ok :: "shuffle_env \<Rightarrow> partitioning \<Rightarrow> nat \<Rightarrow> record_batch \<Rightarrow> bool" where
  "shuffle_input_ok env P m b =
     (batch_of (sh_schema env) b \<and> rb_num_rows b \<le> m \<and> (\<forall>r \<in> set (batch_rows b). light_row (3 * m) r)
      \<and> partitionable (sh_converter env) (sh_schema env) P b)"

definition shuffle_env_ok :: "shuffle_env \<Rightarrow> nat \<Rightarrow> bool" where
  "shuffle_env_ok env m =
     (kernels_ok (sh_kernels env) (set (sh_schema env)) \<and> externals_ok (sh_externals env)
      \<and> (\<forall>t \<in> set (sh_schema env). serde_type t) \<and> codec_ok (sh_codec env)
      \<and> max (sh_batch_size env) 20 \<le> m \<and> 3 * m < 2 ^ 32 \<and> (\<forall>p. sh_task_running env p))"

locale shuffle_setup =
  fixes env :: shuffle_env and P :: partitioning and m :: nat
  assumes env_ok: "shuffle_env_ok env m"
    and parts: "0 < partition_count P" "partition_count P < 2 ^ 31"
begin

abbreviation np :: nat where
  "np \<equiv> partition_count P"

abbreviation schema :: "data_type list" where
  "schema \<equiv> sh_schema env"

lemma envD:
  "kernels_ok (sh_kernels env) (set schema)" "externals_ok (sh_externals env)" "\<forall>t \<in> set schema. serde_type t"
  "codec_ok (sh_codec env)" "sh_batch_size env \<le> m" "20 \<le> m" "3 * m < 2 ^ 32" "sh_task_running env p"
  using env_ok by (simp_all add: shuffle_env_ok_def)

definition legal_ids :: "record_batch \<Rightarrow> nat list \<Rightarrow> bool" where
  "legal_ids b ids = (ids_ok (sh_converter env) schema P b ids \<and> length ids = rb_num_rows b)"

lemma partition_indices_ok:
  assumes "\<forall>b \<in> set bs. shuffle_input_ok env P m b" and "k + length bs \<le> 2 ^ 32"
  shows "\<exists>idss xs. partition_indices env P start k bs = Some xs \<and> list_all2 legal_ids bs idss
    \<and> (\<forall>(pid, i, j) \<in> set xs. pid < np \<and> k \<le> i \<and> i < k + length bs \<and> j < rb_num_rows (bs ! (i - k)))
    \<and> map (\<lambda>(pid, i, j). (pid, batch_rows (bs ! (i - k)) ! j)) xs = tagged idss bs"
  using assms
proof (induction bs arbitrary: k start)
  case Nil
  then show ?case by (simp add: tagged_def)
next
  case (Cons b bs)
  have b: "rb_num_rows b \<le> m" "partitionable (sh_converter env) schema P b"
    using Cons.prems(1) by (simp_all add: shuffle_input_ok_def)
  from batch_part_ids_ok [OF b(2) parts, of start] obtain ids start' where
    ids: "batch_part_ids (sh_converter env) schema P start b = Some (ids, start')" "legal_ids b ids" "\<forall>i \<in> set ids. i < np"
    by (auto simp: legal_ids_def)
  from Cons.IH [of "k + 1" start'] Cons.prems obtain idss xs where
    ih: "partition_indices env P start' (k + 1) bs = Some xs" "list_all2 legal_ids bs idss"
      "\<forall>(pid, i, j) \<in> set xs. pid < np \<and> k + 1 \<le> i \<and> i < k + 1 + length bs \<and> j < rb_num_rows (bs ! (i - (k + 1)))"
      "map (\<lambda>(pid, i, j). (pid, batch_rows (bs ! (i - (k + 1))) ! j)) xs = tagged idss bs" by auto
  have len: "length ids = rb_num_rows b" using ids(2) by (simp add: legal_ids_def)
  let ?ys = "map (\<lambda>(j, pid). (pid, k, j)) (enumerate 0 ids)"
  have "j mod 2 ^ 32 = j" if "j < length ids" for j using that b(1) envD(7) len by simp
  then have ys: "map (\<lambda>(j, pid). (pid, k mod 2 ^ 32, j mod 2 ^ 32)) (enumerate 0 ids) = ?ys"
    using Cons.prems(2) by (intro nth_equalityI) (simp_all add: nth_enumerate_eq)
  have "partition_indices env P start k (b # bs) = Some (?ys @ xs)"
    using ids(1) ih(1) ys by simp
  moreover have "\<forall>(pid, i, j) \<in> set (?ys @ xs). pid < np \<and> k \<le> i \<and> i < k + length (b # bs) \<and> j < rb_num_rows ((b # bs) ! (i - k))"
  proof -
    have "pid < np \<and> j < rb_num_rows b" if "(j, pid) \<in> set (enumerate 0 ids)" for j pid
      using that ids(3) len by (auto simp: in_set_enumerate_eq)
    moreover have "(b # bs) ! (i - k) = bs ! (i - (k + 1))" if "k + 1 \<le> i" for i
      using that by (simp add: nth_Cons' )
    ultimately show ?thesis using ih(3) by fastforce
  qed
  moreover have "map (\<lambda>(pid, i, j). (pid, batch_rows ((b # bs) ! (i - k)) ! j)) (?ys @ xs) = tagged (ids # idss) (b # bs)"
  proof -
    have "map (\<lambda>(pid, i, j). (pid, batch_rows ((b # bs) ! (i - k)) ! j)) ?ys = zip ids (batch_rows b)"
      using len by (intro nth_equalityI) (simp_all add: nth_enumerate_eq)
    moreover have "map (\<lambda>(pid, i, j). (pid, batch_rows ((b # bs) ! (i - k)) ! j)) xs
        = map (\<lambda>(pid, i, j). (pid, batch_rows (bs ! (i - (k + 1))) ! j)) xs"
      by (rule map_cong) (use ih(3) in \<open>auto simp: nth_Cons'\<close>)
    ultimately show ?thesis unfolding map_append ih(4) by (simp add: tagged_def)
  qed
  ultimately show ?case using ids(2) ih(2) by (intro exI [of _ "ids # idss"] exI [of _ "?ys @ xs"]) simp
qed

lemma rows_fit_interleave:
  assumes "\<forall>r \<in> set rs. length r = length schema \<and> light_row (3 * m) r" and "length rs \<le> 3 * m"
  shows "rows_weight_ok (length schema) rs"
  by (rule light_rows_fit [OF assms]) (use envD(6) in simp)

lemma sort_batches_ok:
  assumes ne: "bs \<noteq> []" and bs: "\<forall>b \<in> set bs. shuffle_input_ok env P m b" and len: "length bs \<le> 2 ^ 32"
    and total: "sum_list (map rb_num_rows bs) \<le> 2 * m"
  shows "\<exists>idss offs b ts. sort_batches_by_partition_id env bs P nrows pid0 = Some (offs, b) \<and> list_all2 legal_ids bs idss
    \<and> part_batch schema np offs b ts \<and> mset ts = mset (tagged idss bs)"
proof -
  let ?start = "(pid0 * 1000193 + nrows) mod 2 ^ 64 mod np"
  from partition_indices_ok [OF bs, of 0 ?start] len obtain idss xs where
    xs: "partition_indices env P ?start 0 bs = Some xs" "list_all2 legal_ids bs idss"
      "\<forall>(pid, i, j) \<in> set xs. pid < np \<and> i < length bs \<and> j < rb_num_rows (bs ! i)"
      "map (\<lambda>(pid, i, j). (pid, batch_rows (bs ! i) ! j)) xs = tagged idss bs" by auto
  have "\<forall>x \<in> set xs. fst x < np" using xs(3) by auto
  from radix_sort_by_key_ok [OF this] obtain ys counts where
    ys: "radix_sort_by_key fst xs (replicate np 0) = Some (ys, counts)" "mset ys = mset xs" "sorted (map fst ys)"
      "length counts = np" "\<forall>k < np. counts ! k = length (filter (\<lambda>x. fst x = k) xs)" by blast
  let ?row = "\<lambda>(i, j). batch_rows (bs ! i) ! j" and ?ts = "map (\<lambda>(pid, i, j). (pid, batch_rows (bs ! i) ! j)) ys"
  have ysx: "\<forall>(pid, i, j) \<in> set ys. pid < np \<and> i < length bs \<and> j < rb_num_rows (bs ! i)"
    using xs(3) unfolding mset_eq_setD [OF ys(2)] .
  have ts: "mset ?ts = mset (tagged idss bs)" using ys(2) by (simp flip: xs(4))
  have "length (tagged idss bs) = sum_list (map rb_num_rows bs)"
    using xs(2) unfolding tagged_def by (induction rule: list_all2_induct) (simp_all add: legal_ids_def)
  then have tlen: "length ys \<le> 2 * m" using arg_cong [OF ts, of size] total by simp
  have rows: "\<forall>r \<in> set (map ?row (map snd ys)). length r = length schema \<and> light_row (3 * m) r"
  proof
    fix r assume "r \<in> set (map ?row (map snd ys))"
    then obtain pid i j where r: "r = batch_rows (bs ! i) ! j" "(pid, i, j) \<in> set ys" by auto
    with ysx have ij: "i < length bs" "j < rb_num_rows (bs ! i)" by auto
    with bs have "shuffle_input_ok env P m (bs ! i)" by simp
    with ij r(1) show "length r = length schema \<and> light_row (3 * m) r"
      using batch_ofD(4) [of schema "bs ! i" j] by (simp add: shuffle_input_ok_def)
  qed
  have "rows_weight_ok (length schema) (map ?row (map snd ys))" by (rule rows_fit_interleave [OF rows]) (use tlen in simp)
  moreover have "\<forall>b \<in> set bs. batch_of schema b" using bs by (simp add: shuffle_input_ok_def)
  moreover have "\<forall>(i, j) \<in> set (map snd ys). i < length bs \<and> j < rb_num_rows (bs ! i)" using ysx by auto
  ultimately obtain b where b: "create_batch_interleaver (sh_kernels env) bs (map snd ys) = Some b" "batch_of schema b"
    "batch_rows b = map ?row (map snd ys)" using batch_interleaver_ok [OF envD(1) ne] by blast
  have "counts ! k = length (filter (\<lambda>t. fst t = 0 + k) ?ts)" if "k < length counts" for k
  proof -
    have "counts ! k = length (filter (\<lambda>x. fst x = k) ys)" using ys(4,5) that arg_cong [OF ys(2), of "\<lambda>M. size (filter_mset (\<lambda>x. fst x = k) M)"] by (simp flip: mset_filter)
    then show ?thesis by (simp add: filter_map comp_def split_beta)
  qed
  moreover have "length ?ts < 2 ^ 32" using tlen envD(6,7) by simp
  ultimately have "partition_offsets 0 counts = map (\<lambda>p. length (filter (\<lambda>t. fst t < p) ?ts)) [0..<np + 1]"
    using partition_offsets_ok [of counts fst 0 ?ts] ys(4) by simp
  moreover have "sorted (map fst ?ts)" using ys(3) by (simp add: comp_def split_beta)
  moreover have "\<forall>t \<in> set ?ts. fst t < np" using ysx by auto
  moreover have "map snd ?ts = batch_rows b" using b(3) by (simp add: split_beta)
  ultimately have "part_batch schema np (partition_offsets 0 counts) b ?ts" using b(2) by (simp only: part_batch_def simp_thms)
  moreover have "sort_batches_by_partition_id env bs P nrows pid0 = Some (partition_offsets 0 counts, b)"
    using parts(1) xs(1) ys(1) b(1) by (simp add: sort_batches_by_partition_id_def Let_def)
  ultimately show ?thesis using xs(2) ts by blast
qed

text \<open>
  The state of a buffer after the batches \<open>bs\<close>: all but the staged ones are sorted into \<open>tss\<close>,
  one list of rows with partition ids for every sorted batch; at most \<open>lim\<close> rows are staged.
\<close>

definition buffer_inv :: "nat \<Rightarrow> buffered_data \<Rightarrow> record_batch list \<Rightarrow> nat list list \<Rightarrow> (nat \<times> row) list list \<Rightarrow> bool" where
  "buffer_inv lim bd flushed idss tss =
     (bd_partitioning bd = P \<and> list_all2 legal_ids flushed idss \<and> mset (concat tss) = mset (tagged idss flushed)
      \<and> length (sorted_offsets bd) = length (bd_sorted_batches bd)
      \<and> list_all2 (\<lambda>(offs, b) ts. part_batch schema np offs b ts \<and> rb_num_rows b \<le> 2 * m)
           (zip (sorted_offsets bd) (bd_sorted_batches bd)) tss
      \<and> bd_num_rows bd = sum_list (map rb_num_rows (flushed @ staging_batches bd))
      \<and> staging_num_rows bd = sum_list (map rb_num_rows (staging_batches bd)) \<and> staging_num_rows bd \<le> lim
      \<and> (\<forall>b \<in> set (flushed @ staging_batches bd). shuffle_input_ok env P m b)
      \<and> length tss \<le> length flushed \<and> (tss = [] \<longrightarrow> flushed = []))"

definition buffer_holds :: "nat \<Rightarrow> buffered_data \<Rightarrow> record_batch list \<Rightarrow> bool" where
  "buffer_holds lim bd bs = (\<exists>flushed idss tss. bs = flushed @ staging_batches bd \<and> buffer_inv lim bd flushed idss tss)"

lemma new_buffered_data_ok: "buffer_holds m (new_buffered_data P pid) []"
  unfolding buffer_holds_def buffer_inv_def
  by (rule exI [of _ "[]"], rule exI [of _ "[]"], rule exI [of _ "[]"]) (simp add: new_buffered_data_def tagged_def)

lemma flush_staging_ok:
  assumes h: "buffer_holds (2 * m) bd bs" and st: "staging_batches bd \<noteq> []" and len: "length bs \<le> 2 ^ 32"
  shows "\<exists>bd'. flush_staging env bd = Some bd' \<and> buffer_holds m bd' bs \<and> staging_batches bd' = []"
proof -
  from h obtain flushed idss tss where bs: "bs = flushed @ staging_batches bd" and i: "buffer_inv (2 * m) bd flushed idss tss"
    by (auto simp: buffer_holds_def)
  let ?st = "staging_batches bd"
  have "\<forall>b \<in> set ?st. shuffle_input_ok env P m b" "length ?st \<le> 2 ^ 32" "sum_list (map rb_num_rows ?st) \<le> 2 * m"
    using i bs len by (simp_all add: buffer_inv_def)
  from sort_batches_ok [OF st this, of "bd_num_rows bd - staging_num_rows bd" "bd_partition_id bd"]
  obtain idss' offs b ts where r: "sort_batches_by_partition_id env ?st P (bd_num_rows bd - staging_num_rows bd)
      (bd_partition_id bd) = Some (offs, b)" "list_all2 legal_ids ?st idss'" "part_batch schema np offs b ts"
    "mset ts = mset (tagged idss' ?st)" by blast
  define bd' where "bd' = bd\<lparr>staging_batches := [], staging_num_rows := 0, staging_mem_used := 0,
      sorted_mem_used := sorted_mem_used bd + sh_mem_size env b + length offs * 4,
      bd_sorted_batches := bd_sorted_batches bd @ [b], sorted_offsets := sorted_offsets bd @ [offs]\<rparr>"
  have "flush_staging env bd = Some bd'"
    using r(1) i by (simp add: flush_staging_def bd'_def buffer_inv_def)
  moreover have "rb_num_rows b \<le> 2 * m"
  proof -
    have "rb_num_rows b = length ts" using r(3) unfolding part_batch_def by (metis length_batch_rows length_map)
    also have "\<dots> = length (tagged idss' ?st)" using arg_cong [OF r(4), of size] by simp
    also have "\<dots> = sum_list (map rb_num_rows ?st)"
      using r(2) unfolding tagged_def by (induction rule: list_all2_induct) (simp_all add: legal_ids_def)
    finally show ?thesis using i by (simp add: buffer_inv_def)
  qed
  moreover have "length flushed = length idss" using i by (auto simp: buffer_inv_def dest: list_all2_lengthD)
  ultimately have "buffer_inv m bd' (flushed @ ?st) (idss @ idss') (tss @ [ts])"
    using i r st unfolding buffer_inv_def by (cases ?st) (auto simp: bd'_def tagged_append intro!: list_all2_appendI)
  then have "buffer_holds m bd' bs" unfolding buffer_holds_def bs by (auto simp: bd'_def)
  with \<open>flush_staging env bd = Some bd'\<close> show ?thesis by (auto simp: bd'_def)
qed

lemma suggested_le: "suggested_batch_size env mem n \<le> m"
  using envD(5,6) by (auto simp: suggested_batch_size_def compute_batch_size_with_target_mem_size_def Let_def)

lemma add_batch_ok:
  assumes h: "buffer_holds m bd bs" and b: "shuffle_input_ok env P m b" and len: "length bs < 2 ^ 32"
  shows "\<exists>bd'. add_batch env b bd = Some bd' \<and> buffer_holds m bd' (bs @ [b])"
proof -
  define bd1 where "bd1 = bd\<lparr>bd_num_rows := bd_num_rows bd + rb_num_rows b, staging_num_rows := staging_num_rows bd + rb_num_rows b,
      staging_mem_used := staging_mem_used bd + sh_mem_size env b * 2, staging_batches := staging_batches bd @ [b]\<rparr>"
  from h obtain flushed idss tss where bs: "bs = flushed @ staging_batches bd" and i: "buffer_inv m bd flushed idss tss"
    by (auto simp: buffer_holds_def)
  have "rb_num_rows b \<le> m" using b by (simp add: shuffle_input_ok_def)
  then have i1: "buffer_inv (2 * m) bd1 flushed idss tss" using i b by (simp add: buffer_inv_def bd1_def)
  then have h1: "buffer_holds (2 * m) bd1 (bs @ [b])" unfolding buffer_holds_def bs
    by (intro exI [of _ flushed] exI [of _ idss] exI [of _ tss]) (simp add: bd1_def)
  show ?thesis
  proof (cases "staging_num_rows bd1 \<ge> suggested_batch_size env (staging_mem_used bd1) (staging_num_rows bd1)")
    case True
    then have "add_batch env b bd = flush_staging env bd1" by (simp add: add_batch_def bd1_def Let_def)
    with flush_staging_ok [OF h1] len show ?thesis by (auto simp: bd1_def)
  next
    case False
    then have "add_batch env b bd = Some bd1" by (simp add: add_batch_def bd1_def Let_def)
    moreover have "staging_num_rows bd1 \<le> m" using False suggested_le [of "staging_mem_used bd1" "staging_num_rows bd1"] by linarith
    then have "buffer_inv m bd1 flushed idss tss" using i1 by (simp add: buffer_inv_def)
    then have "buffer_holds m bd1 (bs @ [b])" unfolding buffer_holds_def bs
      by (intro exI [of _ flushed] exI [of _ idss] exI [of _ tss]) (simp add: bd1_def)
    ultimately show ?thesis by blast
  qed
qed

text \<open>What is ready to be written: sorted batches only.\<close>

lemma ready_to_write:
  assumes h: "buffer_holds m bd bs" and len: "length bs \<le> 2 ^ 32" and rows: "bd_num_rows bd \<noteq> 0"
  shows "\<exists>bd' idss tss. (if staging_batches bd \<noteq> [] then flush_staging env bd else Some bd) = Some bd'
    \<and> buffer_inv m bd' bs idss tss \<and> staging_batches bd' = [] \<and> bd_sorted_batches bd' \<noteq> []"
proof -
  have "buffer_holds (2 * m) bd bs" using h unfolding buffer_holds_def buffer_inv_def by fastforce
  with flush_staging_ok [OF _ _ len] h obtain bd' where
    bd': "(if staging_batches bd \<noteq> [] then flush_staging env bd else Some bd) = Some bd'" "buffer_holds m bd' bs"
      "staging_batches bd' = []" by (cases "staging_batches bd = []") auto
  then obtain idss tss where i: "buffer_inv m bd' bs idss tss" by (auto simp: buffer_holds_def)
  have "sum_list (map rb_num_rows bs) \<noteq> 0"
    using h rows unfolding buffer_holds_def buffer_inv_def by metis
  moreover have "length (tagged idss bs) = sum_list (map rb_num_rows bs)"
  proof -
    have "list_all2 legal_ids bs idss" using i by (simp add: buffer_inv_def)
    then show ?thesis unfolding tagged_def by (induction rule: list_all2_induct) (simp_all add: legal_ids_def)
  qed
  moreover have "mset (concat tss) = mset (tagged idss bs)" using i by (simp only: buffer_inv_def)
  then have "length (concat tss) = length (tagged idss bs)" by (metis size_mset)
  ultimately have "concat tss \<noteq> []" by (metis list.size(3))
  then have "bd_sorted_batches bd' \<noteq> []" using i by (auto simp: buffer_inv_def)
  with bd' i show ?thesis by blast
qed

lemma sorted_batch_rows:
  assumes i: "buffer_inv lim bd flushed idss tss" and k: "k < length (bd_sorted_batches bd)" and r: "r \<in> set (batch_rows (bd_sorted_batches bd ! k))"
  shows "length r = length schema \<and> light_row (3 * m) r"
proof -
  have la: "list_all2 (\<lambda>(offs, b) ts. part_batch schema np offs b ts \<and> rb_num_rows b \<le> 2 * m)
      (zip (sorted_offsets bd) (bd_sorted_batches bd)) tss" "length (sorted_offsets bd) = length (bd_sorted_batches bd)"
    using i by (simp_all add: buffer_inv_def)
  have klen: "k < length tss" using la k by (auto dest: list_all2_lengthD)
  from list_all2_nthD [OF la(1), of k] la(2) k have "part_batch schema np (sorted_offsets bd ! k) (bd_sorted_batches bd ! k) (tss ! k)" by simp
  then have "r \<in> snd ` set (tss ! k)" using r unfolding part_batch_def by (metis list.set_map)
  then have "r \<in> snd ` set (tagged idss flushed)"
    using klen i nth_mem [OF klen] mset_eq_setD [of "concat tss" "tagged idss flushed"] by (auto simp: buffer_inv_def)
  then obtain b where b: "b \<in> set flushed" "r \<in> set (batch_rows b)"
    by (auto simp: tagged_def elim!: in_set_zipE)
  then have "shuffle_input_ok env P m b" using i by (simp add: buffer_inv_def)
  with b(2) show ?thesis using batch_ofD(4) [of schema b] by (auto simp: shuffle_input_ok_def in_set_conv_nth)
qed

end

end
