(* ===== verification/Buffered_Write.thy ===== *)
theory Buffered_Write
  imports Buffered_Data
begin

text \<open>
  Writing a buffer (\<open>BufferedData::write\<close> and \<open>write_rss\<close>): the loops over the partitions end, every
  partition's section holds, in compressed blocks, exactly the rows of the partition, and the
  offsets are where the sections begin.
\<close>

section \<open>Ranges of rows\<close>

type_synonym item = "nat \<times> nat \<times> (nat \<times> nat)"

definition item_indices :: "item \<Rightarrow> (nat \<times> nat) list" where
  "item_indices x = map (Pair (fst (snd x))) [fst (snd (snd x))..<snd (snd (snd x))]"

definition item_rows :: "record_batch list \<Rightarrow> item \<Rightarrow> row list" where
  "item_rows bs x = map (\<lambda>(i, j). batch_rows (bs ! i) ! j) (item_indices x)"

text \<open>The rows a collection of ranges has in a partition.\<close>

definition rows_in :: "record_batch list \<Rightarrow> nat \<Rightarrow> item multiset \<Rightarrow> row multiset" where
  "rows_in bs p M = (\<Sum>x \<in># filter_mset (\<lambda>x. fst x = p) M. mset (item_rows bs x))"

lemma rows_in_union [simp]: "rows_in bs p (M + N) = rows_in bs p M + rows_in bs p N"
  by (simp add: rows_in_def)

lemma rows_in_empty [simp]: "rows_in bs p {#} = {#}"
  by (simp add: rows_in_def)

lemma rows_in_none: "\<forall>x \<in># M. fst x \<noteq> p \<Longrightarrow> rows_in bs p M = {#}"
proof -
  assume "\<forall>x \<in># M. fst x \<noteq> p"
  then have "filter_mset (\<lambda>x. fst x = p) M = {#}" by (intro multiset_eqI) (auto simp: not_in_iff)
  then show ?thesis by (simp only: rows_in_def image_mset_empty sum_mset.empty)
qed

lemma rows_in_items:
  "\<forall>x \<in> set items. fst x = p \<Longrightarrow> rows_in bs p (mset items) = mset (concat (map (item_rows bs) items))"
  by (induction items) (simp_all add: rows_in_def)

definition items_ok :: "nat \<Rightarrow> record_batch list \<Rightarrow> item multiset \<Rightarrow> bool" where
  "items_ok lim bs M = (\<forall>(p, k, (s, e)) \<in># M. k < length bs \<and> s < e \<and> e \<le> rb_num_rows (bs ! k) \<and> e - s \<le> lim)"

lemma items_ok_indices:
  assumes "items_ok lim bs M" and "x \<in># M"
  shows "item_indices x \<noteq> []" and "length (item_indices x) \<le> lim"
    and "\<forall>(i, j) \<in> set (item_indices x). i < length bs \<and> j < rb_num_rows (bs ! i)"
  using assms by (fastforce simp: items_ok_def item_indices_def)+

text \<open>Where the sections begin, and a section, of an output made of sections.\<close>

definition begins :: "'a list list \<Rightarrow> nat \<Rightarrow> nat list" where
  "begins secs n = map (\<lambda>i. length (concat (take i secs))) [0..<n]"

definition section_at :: "bytes list \<Rightarrow> nat \<Rightarrow> bytes" where
  "section_at secs p = (if p < length secs then secs ! p else [])"

lemma concat_replicate_Nil [simp]: "concat (replicate n []) = []"
  by (induction n) simp_all

lemma begins_resize:
  assumes "length secs \<le> n"
  shows "vec_resize (begins secs (length secs)) (Suc n) (length (concat secs))
    = begins (secs @ replicate (n - length secs) [] @ tail) (Suc n)"
  using assms by (intro nth_equalityI) (auto simp: begins_def vec_resize_def nth_append simp del: upt_Suc)

lemma begins_append: "n \<le> length secs \<Longrightarrow> begins (secs @ tail) n = begins secs n"
  by (simp add: begins_def)

text \<open>What was pushed to a partition of the remote service.\<close>

definition pushed_to :: "nat \<Rightarrow> (nat \<times> bytes) list \<Rightarrow> bytes" where
  "pushed_to p pushed = concat (map snd (filter (\<lambda>x. fst x = p) pushed))"

lemma pushed_to_simps [simp]:
  "pushed_to p [] = []" "pushed_to p (xs @ ys) = pushed_to p xs @ pushed_to p ys"
  "pushed_to p ((q, sec) # xs) = (if q = p then sec else []) @ pushed_to p xs"
  by (simp_all add: pushed_to_def)

lemma pushed_to_none: "\<forall>x \<in> set xs. fst x \<noteq> p \<Longrightarrow> pushed_to p xs = []"
  by (simp add: pushed_to_def filter_empty_conv)

section \<open>Sorted batches as ranges\<close>

lemma rows_in_sum_list: "rows_in bs p (\<Sum>x \<leftarrow> xs. f x) = (\<Sum>x \<leftarrow> xs. rows_in bs p (f x))"
  by (induction xs) simp_all

lemma filter_ranges:
  assumes p: "p < n"
  shows "filter (\<lambda>x. fst x = p) (ranges_from n off 0)
    = (if offsets off ! p \<noteq> offsets off ! (p + 1) then [(p, odata off, (offsets off ! p, offsets off ! (p + 1)))] else [])"
proof -
  let ?Q = "\<lambda>p. offsets off ! p \<noteq> offsets off ! (p + 1)"
  have one: "filter (\<lambda>q. ?Q q \<and> q = p) [0..<n] = (if ?Q p then [p] else [])"
    using p by (induction n) (auto simp: less_Suc_eq filter_empty_conv)
  have "filter (\<lambda>x. fst x = p) (ranges_from n off 0)
      = map (\<lambda>p. (p, odata off, (offsets off ! p, offsets off ! (p + 1)))) (filter (\<lambda>q. ?Q q \<and> q = p) [0..<n])"
    by (simp add: ranges_from_def filter_map comp_def conj_commute)
  then show ?thesis unfolding one by simp
qed

lemma rows_in_ranges:
  assumes b: "part_batch schema n offs (bs ! k) ts" and p: "p < n"
  shows "rows_in bs p (mset (ranges_from n \<lparr>offsets = offs, odata = k\<rparr> 0)) = mset (map snd (filter (\<lambda>t. fst t = p) ts))"
proof -
  let ?x = "(p, k, (offs ! p, offs ! (p + 1)))" and ?Q = "offs ! p \<noteq> offs ! (p + 1)"
  have "rows_in bs p (mset (ranges_from n \<lparr>offsets = offs, odata = k\<rparr> 0)) = (if ?Q then mset (item_rows bs ?x) else {#})"
    using filter_ranges [OF p, of "\<lparr>offsets = offs, odata = k\<rparr>"] by (simp add: rows_in_def flip: mset_filter)
  moreover have "item_rows bs ?x = map snd (filter (\<lambda>t. fst t = p) ts)"
    unfolding part_batch_range [OF b p, symmetric] by (simp add: item_rows_def item_indices_def)
  moreover have "item_rows bs ?x = []" if "\<not> ?Q" using that by (simp add: item_rows_def item_indices_def)
  ultimately show ?thesis by (cases ?Q) simp_all
qed

lemma ranges_ok:
  assumes b: "part_batch schema n offs (bs ! k) ts" and k: "k < length bs" and lim: "rb_num_rows (bs ! k) \<le> lim"
  shows "items_ok lim bs (mset (ranges_from n \<lparr>offsets = offs, odata = k\<rparr> 0))"
proof -
  have s: "sorted offs" "length offs = n + 1" using part_batch_offsets(1) [OF b, of k] by (simp_all add: offsets_ok_def)
  have "offs ! p < offs ! (p + 1) \<and> offs ! (p + 1) \<le> rb_num_rows (bs ! k)" if "p < n" "offs ! p \<noteq> offs ! (p + 1)" for p
    using that part_batch_offsets(3) [OF b, of "p + 1"] sorted_nth_mono [OF s(1), of p "p + 1"] s(2) by simp
  with k lim show ?thesis by (fastforce simp: items_ok_def ranges_from_def)
qed

section \<open>The merge iterator\<close>

lemma merge_peek:
  assumes "merge_inv it"
  shows "\<exists>c. c \<in> set (rq_values (cursors it)) \<and> peek_next_partition_id it = Some (ocur c)
    \<and> (\<forall>d \<in> set (rq_values (cursors it)). ocur c \<le> ocur d)
    \<and> c = rq_values (cursors it) ! top_index (cursors it) \<and> ocur c \<le> num_partitions it"
  using merge_inv_top [OF assms] merge_invD(1) [OF assms]
  by (auto simp: peek_next_partition_id_def cursor_ok_def)

lemma chunk_next_cases:
  assumes inv: "merge_inv it" and p: "p < num_partitions it" and ge: "\<forall>d \<in> set (rq_values (cursors it)). p \<le> ocur d"
  obtains (more) k r it' where "chunk_next p it = Some (Some (k, r), it')" "merge_inv it'" "num_partitions it' = num_partitions it"
      "all_rest it = add_mset (p, k, r) (all_rest it')" "\<forall>d \<in> set (rq_values (cursors it')). p \<le> ocur d"
  | (last) "chunk_next p it = Some (None, it)" "\<forall>d \<in> set (rq_values (cursors it)). p < ocur d"
proof -
  from merge_peek [OF inv] obtain c where c: "c \<in> set (rq_values (cursors it))" "peek_next_partition_id it = Some (ocur c)"
    "\<forall>d \<in> set (rq_values (cursors it)). ocur c \<le> ocur d" "c = rq_values (cursors it) ! top_index (cursors it)" by blast
  show thesis
  proof (cases "ocur c = p")
    case True
    have "ocur c < num_partitions it" using True p by simp
    from merge_next_step [OF inv this [unfolded c(4)]] obtain r it' where
      s: "merge_next it = Some (Some (ocur c, odata (ocursor_src c), r), it')" "merge_inv it'"
        "num_partitions it' = num_partitions it" "all_rest it = add_mset (ocur c, odata (ocursor_src c), r) (all_rest it')"
        "\<forall>d \<in> set (rq_values (cursors it')). ocur c \<le> ocur d"
      unfolding c(4) by blast
    then have "chunk_next p it = Some (Some (odata (ocursor_src c), r), it')" using c(2) True by (simp add: chunk_next_def)
    with s True show thesis by (intro more) simp_all
  next
    case False
    then have "chunk_next p it = Some (None, it)" using c(2) by (simp add: chunk_next_def)
    moreover have "\<forall>d \<in> set (rq_values (cursors it)). p < ocur d"
      using False c(1,3) ge by (metis order_le_less order_less_le_trans)
    ultimately show thesis by (rule last)
  qed
qed

lemma gather_indices_ok:
  assumes "merge_inv it" and "p < num_partitions it" and "\<forall>d \<in> set (rq_values (cursors it)). p \<le> ocur d"
    and "items_ok lim bs (all_rest it)" and "length acc \<le> sub_size"
  shows "\<exists>items it'. gather_indices sub_size p it acc = Some (acc @ concat (map item_indices items), it')
    \<and> merge_inv it' \<and> num_partitions it' = num_partitions it \<and> all_rest it = mset items + all_rest it'
    \<and> (\<forall>x \<in> set items. fst x = p) \<and> (\<forall>d \<in> set (rq_values (cursors it')). p \<le> ocur d)
    \<and> (items = [] \<longrightarrow> (\<forall>d \<in> set (rq_values (cursors it')). p < ocur d))
    \<and> length (acc @ concat (map item_indices items)) \<le> sub_size + lim"
  using assms
proof (induction "size (all_rest it)" arbitrary: it acc rule: less_induct)
  case less
  from less.prems(1,2,3) show ?case
  proof (cases rule: chunk_next_cases)
    case (more k r it')
    let ?x = "(p, k, r)" and ?acc = "acc @ item_indices (p, k, r)"
    have x: "?x \<in># all_rest it" using more(4) by simp
    have ok: "items_ok lim bs (all_rest it')" using less.prems(4) more(4) by (simp add: items_ok_def)
    have len: "length ?acc \<le> sub_size + lim" using items_ok_indices(2) [OF less.prems(4) x] less.prems(5) by simp
    show ?thesis
    proof (cases "sub_size \<le> length ?acc")
      case True
      then have "gather_indices sub_size p it acc = Some (?acc, it')"
        using more(1) by (subst gather_indices.simps) (simp only: Let_def, simp add: item_indices_def)
      with more(2-) len show ?thesis by (intro exI [of _ "[?x]"] exI [of _ it']) simp
    next
      case False
      have "size (all_rest it') < size (all_rest it)" using more(4) by simp
      from less.hyps [OF this more(2) _ more(5) ok, of ?acc] less.prems(2) more(3) False obtain items it'' where
        ih: "gather_indices sub_size p it' ?acc = Some (?acc @ concat (map item_indices items), it'')"
          "merge_inv it''" "num_partitions it'' = num_partitions it'" "all_rest it' = mset items + all_rest it''"
          "\<forall>x \<in> set items. fst x = p" "\<forall>d \<in> set (rq_values (cursors it'')). p \<le> ocur d"
          "length (?acc @ concat (map item_indices items)) \<le> sub_size + lim" by auto
      have "gather_indices sub_size p it acc = Some (?acc @ concat (map item_indices items), it'')"
        using more(1) False ih(1) by (subst gather_indices.simps) (simp only: Let_def, simp add: item_indices_def)
      with ih more(3,4) show ?thesis by (intro exI [of _ "?x # items"] exI [of _ it'']) simp
    qed
  next
    case last
    then have "gather_indices sub_size p it acc = Some (acc, it)" by (subst gather_indices.simps) simp
    with last(2) less.prems show ?thesis by (intro exI [of _ "[]"] exI [of _ it]) simp
  qed
qed

section \<open>Chunks\<close>

context shuffle_setup
begin

text \<open>Sorted batches that can be gathered from.\<close>

definition gatherable :: "record_batch list \<Rightarrow> bool" where
  "gatherable bs = (bs \<noteq> [] \<and> (\<forall>b \<in> set bs. batch_of schema b
     \<and> (\<forall>r \<in> set (batch_rows b). length r = length schema \<and> light_row (3 * m) r)))"

text \<open>The iterator over the chunks, with no partition before \<open>p\<close> left.\<close>

definition pb_inv :: "nat \<Rightarrow> partitioned_batches \<Rightarrow> bool" where
  "pb_inv p pb = (merge_inv (pb_merge_iter pb) \<and> num_partitions (pb_merge_iter pb) = np
     \<and> (\<forall>d \<in> set (rq_values (cursors (pb_merge_iter pb))). p \<le> ocur d)
     \<and> items_ok (2 * m) (pb_batches pb) (all_rest (pb_merge_iter pb)) \<and> gatherable (pb_batches pb) \<and> pb_batch_size pb \<le> m)"

abbreviation rest :: "partitioned_batches \<Rightarrow> item multiset" where
  "rest pb \<equiv> all_rest (pb_merge_iter pb)"

lemma gathered_writable:
  assumes bs: "gatherable bs" and ok: "items_ok (2 * m) bs (mset items)" and ne: "items \<noteq> []"
    and len: "length (concat (map item_indices items)) \<le> 3 * m"
  shows "\<exists>b. create_batch_interleaver (sh_kernels env) bs (concat (map item_indices items)) = Some b
    \<and> writable schema b \<and> batch_rows b = concat (map (item_rows bs) items)"
proof -
  let ?ixs = "concat (map item_indices items)" and ?row = "\<lambda>(i, j). batch_rows (bs ! i) ! j"
  have ix: "\<forall>(i, j) \<in> set ?ixs. i < length bs \<and> j < rb_num_rows (bs ! i)"
    using items_ok_indices(3) [OF ok] by fastforce
  have "length r = length schema \<and> light_row (3 * m) r" if "r \<in> set (map ?row ?ixs)" for r
  proof -
    from that obtain i j where ij: "(i, j) \<in> set ?ixs" "r = batch_rows (bs ! i) ! j" by auto
    with ix have "i < length bs" "j < rb_num_rows (bs ! i)" by auto
    then have "bs ! i \<in> set bs" "r \<in> set (batch_rows (bs ! i))" using ij(2) by simp_all
    with bs show ?thesis by (auto simp: gatherable_def)
  qed
  then have "rows_weight_ok (length schema) (map ?row ?ixs)" using len by (intro rows_fit_interleave) simp_all
  with batch_interleaver_ok [OF envD(1) _ _ ix] bs obtain b where
    b: "create_batch_interleaver (sh_kernels env) bs ?ixs = Some b" "batch_of schema b" "batch_rows b = map ?row ?ixs"
    by (auto simp: gatherable_def)
  have "rb_num_rows b = length ?ixs" using b(3) by (metis length_batch_rows length_map)
  moreover have "?ixs \<noteq> []" using ne items_ok_indices(1) [OF ok] by (cases items) auto
  ultimately have "writable schema b" using b(2) len envD(7) by (auto simp: writable_def)
  moreover have "batch_rows b = concat (map (item_rows bs) items)"
    unfolding b(3) by (simp add: item_rows_def [abs_def] map_concat comp_def)
  ultimately show ?thesis using b(1) by blast
qed

lemma next_chunk_batch_cases:
  assumes inv: "pb_inv p pb" and p: "p < np"
  obtains (more) b pb' items where "next_chunk_batch env p pb = Some (Some b, pb')" "pb_inv p pb'"
      "pb_batches pb' = pb_batches pb" "last_chunk_partition_id pb' = last_chunk_partition_id pb" "writable schema b"
      "rest pb = mset items + rest pb'" "items \<noteq> []" "\<forall>x \<in> set items. fst x = p"
      "mset (batch_rows b) = rows_in (pb_batches pb) p (mset items)"
  | (last) pb' where "next_chunk_batch env p pb = Some (None, pb')" "pb_inv (Suc p) pb'" "pb_batches pb' = pb_batches pb"
      "last_chunk_partition_id pb' = last_chunk_partition_id pb" "rest pb' = rest pb"
proof -
  let ?it = "pb_merge_iter pb" and ?bs = "pb_batches pb"
  have i: "merge_inv ?it" "num_partitions ?it = np" "\<forall>d \<in> set (rq_values (cursors ?it)). p \<le> ocur d"
    "items_ok (2 * m) ?bs (all_rest ?it)" "gatherable ?bs" "pb_batch_size pb \<le> m"
    using inv by (simp_all add: pb_inv_def)
  from gather_indices_ok [OF i(1) _ i(3,4), of "[]" "pb_batch_size pb"] p i(2) obtain items it' where
    g: "gather_indices (pb_batch_size pb) p ?it [] = Some (concat (map item_indices items), it')" "merge_inv it'"
      "num_partitions it' = np" "all_rest ?it = mset items + all_rest it'" "\<forall>x \<in> set items. fst x = p"
      "\<forall>d \<in> set (rq_values (cursors it')). p \<le> ocur d" "items = [] \<longrightarrow> (\<forall>d \<in> set (rq_values (cursors it')). p < ocur d)"
      "length (concat (map item_indices items)) \<le> pb_batch_size pb + 2 * m" by auto
  have ok: "items_ok (2 * m) ?bs (mset items)" "items_ok (2 * m) ?bs (all_rest it')"
    using i(4) g(4) by (auto simp: items_ok_def)
  show thesis
  proof (cases "items = []")
    case True
    have "pb_inv (Suc p) (pb\<lparr>pb_merge_iter := it'\<rparr>)" using g True i(5,6) ok(2) by (simp add: pb_inv_def Suc_le_eq)
    with True g show thesis by (intro last [of "pb\<lparr>pb_merge_iter := it'\<rparr>"]) (simp_all add: next_chunk_batch_def)
  next
    case False
    from gathered_writable [OF i(5) ok(1) False] g(8) i(6) obtain b where
      b: "create_batch_interleaver (sh_kernels env) ?bs (concat (map item_indices items)) = Some b" "writable schema b"
        "batch_rows b = concat (map (item_rows ?bs) items)" by auto
    have "concat (map item_indices items) \<noteq> []" using False items_ok_indices(1) [OF ok(1)] by (cases items) auto
    with g b have "next_chunk_batch env p pb = Some (Some b, pb\<lparr>pb_merge_iter := it'\<rparr>)" by (simp add: next_chunk_batch_def Let_def)
    moreover have "pb_inv p (pb\<lparr>pb_merge_iter := it'\<rparr>)" using g i(5,6) ok(2) by (simp add: pb_inv_def)
    ultimately show thesis using b(2,3) g(4,5) False rows_in_items [OF g(5), of ?bs]
      by (intro more [of b "pb\<lparr>pb_merge_iter := it'\<rparr>" items]) simp_all
  qed
qed

text \<open>A section of the output: compressed blocks of batches with the given rows.\<close>

definition section_holds :: "bytes \<Rightarrow> row multiset \<Rightarrow> bool" where
  "section_holds sec M = (\<exists>bs. ipc_blocks (sh_externals env) (sh_codec env) sec bs \<and> (\<forall>b \<in> set bs. writable schema b)
     \<and> mset (concat (map batch_rows bs)) = M)"

lemma section_holds_empty: "section_holds [] {#}"
  unfolding section_holds_def by (rule exI [of _ "[]"]) (simp add: no_block)

lemma section_holds_append: "section_holds s1 M1 \<Longrightarrow> section_holds s2 M2 \<Longrightarrow> section_holds (s1 @ s2) (M1 + M2)"
  unfolding section_holds_def
proof (elim exE conjE)
  fix bs1 bs2
  assume "ipc_blocks (sh_externals env) (sh_codec env) s1 bs1" "ipc_blocks (sh_externals env) (sh_codec env) s2 bs2"
    "\<forall>b \<in> set bs1. writable schema b" "\<forall>b \<in> set bs2. writable schema b"
    "mset (concat (map batch_rows bs1)) = M1" "mset (concat (map batch_rows bs2)) = M2"
  then show "\<exists>bs. ipc_blocks (sh_externals env) (sh_codec env) (s1 @ s2) bs \<and> (\<forall>b \<in> set bs. writable schema b)
      \<and> mset (concat (map batch_rows bs)) = M1 + M2"
    by (intro exI [of _ "bs1 @ bs2"]) (auto intro: ipc_blocks_append)
qed

abbreviation clean_writer :: "bytes \<Rightarrow> ipc_writer" where
  "clean_writer out \<equiv> \<lparr>ipc_output = out, block_writer = [], block_empty = True\<rparr>"

text \<open>One partition: its chunk is written to the end.\<close>

lemma write_chunk_ok:
  assumes "pb_inv p pb" and "p < np" and "writer_holds (sh_externals env) (sh_codec env) out w bs"
    and "\<forall>b \<in> set bs. writable schema b"
  shows "\<exists>pb' w' bs'. write_chunk env p pb w = Some (pb', w') \<and> pb_inv (Suc p) pb' \<and> pb_batches pb' = pb_batches pb
    \<and> last_chunk_partition_id pb' = last_chunk_partition_id pb
    \<and> writer_holds (sh_externals env) (sh_codec env) out w' (bs @ bs') \<and> (\<forall>b \<in> set (bs @ bs'). writable schema b)
    \<and> mset (concat (map batch_rows bs')) = rows_in (pb_batches pb) p (rest pb)
    \<and> (\<exists>items. rest pb = mset items + rest pb' \<and> (\<forall>x \<in> set items. fst x = p))"
  using assms
proof (induction "size (rest pb)" arbitrary: pb w bs rule: less_induct)
  case less
  from less.prems(1,2) show ?case
  proof (cases rule: next_chunk_batch_cases)
    case (more b pb' items)
    from writable_serialized [OF envD(2,3) more(5)] obtain bytes where ser: "serialized (sh_externals env) b bytes" by blast
    from ipc_write_batch_ok [OF envD(4) less.prems(3) ser, of "sh_target_buf_size env"] more(5) obtain w' where
      w': "bd_write_batch env b w = Some w'" "writer_holds (sh_externals env) (sh_codec env) out w' (bs @ [b])"
      by (auto simp: bd_write_batch_def ok_of_def writable_def)
    have "size (rest pb') < size (rest pb)" using more(6,7) by (cases items) simp_all
    from less.hyps [OF this more(2) less.prems(2) w'(2)] less.prems(4) more(5) obtain pb'' w'' bs' items' where
      ih: "write_chunk env p pb' w' = Some (pb'', w'')" "pb_inv (Suc p) pb''" "pb_batches pb'' = pb_batches pb'"
        "last_chunk_partition_id pb'' = last_chunk_partition_id pb'"
        "writer_holds (sh_externals env) (sh_codec env) out w'' ((bs @ [b]) @ bs')"
        "\<forall>b \<in> set ((bs @ [b]) @ bs'). writable schema b"
        "mset (concat (map batch_rows bs')) = rows_in (pb_batches pb') p (rest pb')"
        "rest pb' = mset items' + rest pb''" "\<forall>x \<in> set items'. fst x = p" by auto
    have "write_chunk env p pb w = Some (pb'', w'')"
      using more(1) w'(1) ih(1) by (subst write_chunk.simps) simp
    moreover have "mset (concat (map batch_rows (b # bs'))) = rows_in (pb_batches pb) p (rest pb)"
      unfolding more(6) rows_in_union using more(3,9) ih(7) by simp
    moreover have "rest pb = mset (items @ items') + rest pb''" using more(6) ih(8) by simp
    moreover have "\<forall>x \<in> set (items @ items'). fst x = p" using more(8) ih(9) by auto
    moreover have "bs @ b # bs' = (bs @ [b]) @ bs'" by simp
    ultimately show ?thesis using ih(2-6) more(3,4)
      by (intro exI [of _ pb''] exI [of _ w''] exI [of _ "b # bs'"]) (metis (no_types, lifting))
  next
    case (last pb')
    have "p < fst x" if "x \<in># rest pb'" for x
      using all_rest_pids [OF that, of "Suc p"] last(2) by (simp add: pb_inv_def Suc_le_eq)
    then have "rows_in (pb_batches pb) p (rest pb) = {#}" using last(5) by (intro rows_in_none) auto
    moreover have "write_chunk env p pb w = Some (pb', w)" using last(1) by (subst write_chunk.simps) simp
    moreover have "\<exists>items. rest pb = mset items + rest pb' \<and> (\<forall>x \<in> set items. fst x = p)"
      using last(5) by (intro exI [of _ "[]"]) simp
    ultimately show ?thesis using last(2-4) less.prems
      by (intro exI [of _ pb'] exI [of _ w] exI [of _ "[]"]) simp
  qed
qed

text \<open>The chunk of one partition, with its block finished.\<close>

lemma write_section_ok:
  assumes inv: "pb_inv p pb" and p: "p < np"
  shows "\<exists>pb' w' sec items. write_chunk env p pb (clean_writer out) = Some (pb', w')
    \<and> ok_of (finish_current_buf (sh_codec env) w') = Some (clean_writer (out @ sec))
    \<and> pb_inv (Suc p) pb' \<and> pb_batches pb' = pb_batches pb \<and> last_chunk_partition_id pb' = last_chunk_partition_id pb
    \<and> section_holds sec (rows_in (pb_batches pb) p (rest pb)) \<and> rest pb = mset items + rest pb' \<and> (\<forall>x \<in> set items. fst x = p)"
proof -
  have "\<forall>b \<in> set []. writable schema b" by simp
  from write_chunk_ok [OF inv p writer_holds_new [of _ _ out] this, unfolded append_Nil] obtain pb' w' bs' items where
    c: "write_chunk env p pb (clean_writer out) = Some (pb', w')" "pb_inv (Suc p) pb'" "pb_batches pb' = pb_batches pb"
      "last_chunk_partition_id pb' = last_chunk_partition_id pb"
      "writer_holds (sh_externals env) (sh_codec env) out w' bs'" "\<forall>b \<in> set bs'. writable schema b"
      "mset (concat (map batch_rows bs')) = rows_in (pb_batches pb) p (rest pb)"
      "rest pb = mset items + rest pb'" "\<forall>x \<in> set items. fst x = p" by blast
  from finish_current_buf_ok [OF envD(4) c(5)] obtain sec where
    f: "finish_current_buf (sh_codec env) w' = Inr (clean_writer (out @ sec))"
      "ipc_blocks (sh_externals env) (sh_codec env) sec bs'" by blast
  have "section_holds sec (rows_in (pb_batches pb) p (rest pb))" using f(2) c(6,7) by (auto simp: section_holds_def)
  with c f(1) show ?thesis by (auto simp: ok_of_def)
qed

section \<open>All partitions\<close>

text \<open>What the loops over the partitions do first: they end, or there is a next partition.\<close>

lemma next_partition_cases:
  assumes inv: "pb_inv q pb" and last: "\<forall>l. last_chunk_partition_id pb = Some l \<longrightarrow> l < q"
  obtains (chunk) p pb' where "next_partition_chunk pb = Some (Some p, pb')" "q \<le> p" "p < np" "pb_inv p pb'"
      "pb_batches pb' = pb_batches pb" "rest pb' = rest pb" "last_chunk_partition_id pb' = Some p" "\<forall>x \<in># rest pb. p \<le> fst x"
  | (finished) "next_partition_chunk pb = Some (None, pb)" "\<forall>x \<in># rest pb. np \<le> fst x"
proof -
  let ?it = "pb_merge_iter pb"
  have i: "merge_inv ?it" "num_partitions ?it = np" "\<forall>d \<in> set (rq_values (cursors ?it)). q \<le> ocur d"
    using inv by (simp_all add: pb_inv_def)
  from merge_peek [OF i(1)] obtain c where c: "c \<in> set (rq_values (cursors ?it))" "peek_next_partition_id ?it = Some (ocur c)"
    "\<forall>d \<in> set (rq_values (cursors ?it)). ocur c \<le> ocur d" by blast
  have ge: "\<forall>x \<in># rest pb. ocur c \<le> fst x" using all_rest_pids c(3) by blast
  show thesis
  proof (cases "ocur c < np")
    case True
    have "q \<le> ocur c" using i(3) c(1) by blast
    with True c(2) i(2) last have "next_partition_chunk pb = Some (Some (ocur c), pb\<lparr>last_chunk_partition_id := Some (ocur c)\<rparr>)"
      by (auto simp: next_partition_chunk_def)
    moreover have "pb_inv (ocur c) (pb\<lparr>last_chunk_partition_id := Some (ocur c)\<rparr>)" using inv c(3) by (simp add: pb_inv_def)
    ultimately show thesis using True \<open>q \<le> ocur c\<close> ge
      by (intro chunk [of "ocur c" "pb\<lparr>last_chunk_partition_id := Some (ocur c)\<rparr>"]) simp_all
  next
    case False
    with c(2) i(2) have "next_partition_chunk pb = Some (None, pb)" by (simp add: next_partition_chunk_def)
    with False ge show thesis by (intro finished) auto
  qed
qed

lemma write_chunks_ok:
  assumes "pb_inv (length secs) pb" and "\<forall>l. last_chunk_partition_id pb = Some l \<longrightarrow> l < length secs" and "length secs \<le> np"
  shows "\<exists>secs'. write_chunks env pb (clean_writer (concat secs)) (begins secs (length secs))
      = Some (clean_writer (concat (secs @ secs')), begins (secs @ secs') (length (secs @ secs')))
    \<and> length (secs @ secs') \<le> np
    \<and> (\<forall>p. length secs \<le> p \<longrightarrow> p < np \<longrightarrow> section_holds (section_at (secs @ secs') p) (rows_in (pb_batches pb) p (rest pb)))"
  using assms
proof (induction "np - length secs" arbitrary: secs pb rule: less_induct)
  case less
  from less.prems(1,2) show ?case
  proof (cases rule: next_partition_cases)
    case (chunk p pb1)
    from write_section_ok [OF chunk(4,3), of "concat secs"] obtain pb' w' sec items where
      w: "write_chunk env p pb1 (clean_writer (concat secs)) = Some (pb', w')"
        "ok_of (finish_current_buf (sh_codec env) w') = Some (clean_writer (concat secs @ sec))"
        "pb_inv (Suc p) pb'" "pb_batches pb' = pb_batches pb1" "last_chunk_partition_id pb' = last_chunk_partition_id pb1"
        "section_holds sec (rows_in (pb_batches pb1) p (rest pb1))" "rest pb1 = mset items + rest pb'" "\<forall>x \<in> set items. fst x = p"
      by blast
    define secs1 where "secs1 = secs @ replicate (p - length secs) [] @ [sec]"
    have s1: "length secs1 = Suc p" "concat secs1 = concat secs @ sec" using chunk(2) by (simp_all add: secs1_def)
    have offs: "vec_resize (begins secs (length secs)) (p + 1) (length (concat secs)) = begins secs1 (length secs1)"
      unfolding s1(1) unfolding secs1_def using begins_resize [OF chunk(2), of "[sec]"] by simp
    have "\<exists>secs'. write_chunks env pb' (clean_writer (concat secs1)) (begins secs1 (length secs1))
        = Some (clean_writer (concat (secs1 @ secs')), begins (secs1 @ secs') (length (secs1 @ secs')))
      \<and> length (secs1 @ secs') \<le> np
      \<and> (\<forall>p. length secs1 \<le> p \<longrightarrow> p < np \<longrightarrow> section_holds (section_at (secs1 @ secs') p) (rows_in (pb_batches pb') p (rest pb')))"
      by (rule less.hyps) (use chunk(2,3,7) s1(1) w(3,5) in auto)
    then obtain secs' where ih: "write_chunks env pb' (clean_writer (concat secs1)) (begins secs1 (length secs1))
        = Some (clean_writer (concat (secs1 @ secs')), begins (secs1 @ secs') (length (secs1 @ secs')))"
      "length (secs1 @ secs') \<le> np"
      "\<And>p. length secs1 \<le> p \<Longrightarrow> p < np \<Longrightarrow> section_holds (section_at (secs1 @ secs') p) (rows_in (pb_batches pb') p (rest pb'))"
      by blast
    have run: "write_chunks env pb (clean_writer (concat secs)) (begins secs (length secs))
        = Some (clean_writer (concat (secs1 @ secs')), begins (secs1 @ secs') (length (secs1 @ secs')))"
      using chunk(1) w(1,2) ih(1) offs s1(2) envD(8) by (subst write_chunks.simps) (simp add: Let_def)
    have bs: "pb_batches pb' = pb_batches pb" using w(4) chunk(5) by simp
    have "section_holds (section_at (secs1 @ secs') q) (rows_in (pb_batches pb) q (rest pb))"
      if q: "length secs \<le> q" "q < np" for q
    proof (cases q p rule: linorder_cases)
      case less
      then have "section_at (secs1 @ secs') q = []" using q(1) by (simp add: section_at_def secs1_def nth_append)
      moreover have "rows_in (pb_batches pb) q (rest pb) = {#}" using chunk(8) less by (intro rows_in_none) auto
      ultimately show ?thesis by (simp add: section_holds_empty)
    next
      case equal
      then have "section_at (secs1 @ secs') q = sec" using chunk(2) by (simp add: section_at_def secs1_def nth_append)
      then show ?thesis using w(6) chunk(5,6) equal by simp
    next
      case greater
      then have "rows_in (pb_batches pb) q (mset items) = {#}" using w(8) by (intro rows_in_none) auto
      then have "rows_in (pb_batches pb) q (rest pb) = rows_in (pb_batches pb') q (rest pb')"
        using w(7) chunk(6) bs by (metis add_0 rows_in_union)
      then show ?thesis using ih(3) [of q] greater s1(1) q(2) by simp
    qed
    moreover have "secs1 @ secs' = secs @ (replicate (p - length secs) [] @ [sec] @ secs')" by (simp add: secs1_def)
    ultimately show ?thesis using run ih(2) by metis
  next
    case finished
    then have "write_chunks env pb (clean_writer (concat secs)) (begins secs (length secs))
        = Some (clean_writer (concat secs), begins secs (length secs))"
      by (subst write_chunks.simps) simp
    moreover have "section_holds (section_at secs p) (rows_in (pb_batches pb) p (rest pb))" if "length secs \<le> p" "p < np" for p
    proof -
      have "rows_in (pb_batches pb) p (rest pb) = {#}" using that(2) finished(2) by (intro rows_in_none) auto
      with that(1) show ?thesis by (simp add: section_at_def section_holds_empty)
    qed
    ultimately show ?thesis using less.prems(3) by (intro exI [of _ "[]"]) simp
  qed
qed

lemma push_chunks_ok:
  assumes "pb_inv q pb" and "\<forall>l. last_chunk_partition_id pb = Some l \<longrightarrow> l < q"
  shows "\<exists>xs. push_chunks env pb (clean_writer out) pushed = Some (pushed @ xs) \<and> (\<forall>x \<in> set xs. q \<le> fst x)
    \<and> (\<forall>p. q \<le> p \<longrightarrow> p < np \<longrightarrow> section_holds (pushed_to p xs) (rows_in (pb_batches pb) p (rest pb)))"
  using assms
proof (induction "np - q" arbitrary: q pb out pushed rule: less_induct)
  case less
  from less.prems show ?case
  proof (cases rule: next_partition_cases)
    case (chunk p pb1)
    from write_section_ok [OF chunk(4,3), of "[]"] obtain pb' w' sec items where
      w: "write_chunk env p pb1 (clean_writer []) = Some (pb', w')"
        "ok_of (finish_current_buf (sh_codec env) w') = Some (clean_writer ([] @ sec))"
        "pb_inv (Suc p) pb'" "pb_batches pb' = pb_batches pb1" "last_chunk_partition_id pb' = last_chunk_partition_id pb1"
        "section_holds sec (rows_in (pb_batches pb1) p (rest pb1))" "rest pb1 = mset items + rest pb'" "\<forall>x \<in> set items. fst x = p"
      by blast
    have "np - Suc p < np - q" "\<forall>l. last_chunk_partition_id pb' = Some l \<longrightarrow> l < Suc p" using chunk(2,3,7) w(5) by auto
    from less.hyps [OF this(1) w(3) this(2), of sec "pushed @ [(p, sec)]"] obtain xs where
      ih: "push_chunks env pb' (clean_writer sec) (pushed @ [(p, sec)]) = Some ((pushed @ [(p, sec)]) @ xs)" "\<forall>x \<in> set xs. Suc p \<le> fst x"
        "\<And>r. Suc p \<le> r \<Longrightarrow> r < np \<Longrightarrow> section_holds (pushed_to r xs) (rows_in (pb_batches pb') r (rest pb'))" by blast
    have run: "push_chunks env pb (clean_writer out) pushed = Some (pushed @ (p, sec) # xs)"
      using chunk(1) w(1,2) ih(1) envD(8) by (subst push_chunks.simps) (simp add: Let_def set_output_def ok_of_def)
    have bs: "pb_batches pb' = pb_batches pb" using w(4) chunk(5) by simp
    have "section_holds (pushed_to r ((p, sec) # xs)) (rows_in (pb_batches pb) r (rest pb))" if r: "q \<le> r" "r < np" for r
    proof (cases r p rule: linorder_cases)
      case less
      then have "pushed_to r ((p, sec) # xs) = []" using ih(2) by (intro pushed_to_none) auto
      moreover have "rows_in (pb_batches pb) r (rest pb) = {#}" using chunk(8) less by (intro rows_in_none) auto
      ultimately show ?thesis by (simp only: section_holds_empty)
    next
      case equal
      then have "pushed_to r xs = []" using ih(2) by (intro pushed_to_none) auto
      then show ?thesis using w(6) chunk(5,6) equal by simp
    next
      case greater
      then have "rows_in (pb_batches pb) r (mset items) = {#}" using w(8) by (intro rows_in_none) auto
      then have "rows_in (pb_batches pb) r (rest pb) = rows_in (pb_batches pb') r (rest pb')"
        using w(7) chunk(6) bs by (metis add_0 rows_in_union)
      then show ?thesis using ih(3) [of r] greater r(2) by simp
    qed
    moreover have "\<forall>x \<in> set ((p, sec) # xs). q \<le> fst x" using chunk(2) ih(2) by auto
    ultimately show ?thesis using run by blast
  next
    case finished
    then have "push_chunks env pb (clean_writer out) pushed = Some (pushed @ [])" by (subst push_chunks.simps) simp
    moreover have "section_holds (pushed_to p []) (rows_in (pb_batches pb) p (rest pb))" if "p < np" for p
      using that finished(2) rows_in_none [of "rest pb" p "pb_batches pb"] section_holds_empty by fastforce
    ultimately show ?thesis by (intro exI [of _ "[]"]) simp
  qed
qed

section \<open>Writing a buffer\<close>

lemma tagged_filter_sum:
  "mset (concat tss) = M \<Longrightarrow> (\<Sum>ts \<leftarrow> tss. mset (map snd (filter (\<lambda>t. fst t = p) ts))) = image_mset snd (filter_mset (\<lambda>t. fst t = p) M)"
  by (induction tss arbitrary: M) auto

lemma into_sorted_batches_ok:
  assumes i: "buffer_inv m bd bs idss tss" and st: "bd_sorted_batches bd \<noteq> []" and len: "length bs \<le> 2 ^ 32"
  shows "\<exists>pb. into_sorted_batches env bd = Some pb \<and> pb_inv 0 pb \<and> last_chunk_partition_id pb = None
    \<and> (\<forall>p < np. rows_in (pb_batches pb) p (rest pb) = mset (map snd (filter (\<lambda>t. fst t = p) (tagged idss bs))))"
proof -
  let ?bs = "bd_sorted_batches bd" and ?os = "sorted_offsets bd"
  let ?off = "\<lambda>k. \<lparr>offsets = ?os ! k, odata = k\<rparr>"
  have P: "bd_partitioning bd = P" and tot: "mset (concat tss) = mset (tagged idss bs)" and lo: "length ?os = length ?bs"
    and la: "list_all2 (\<lambda>(offs, b) ts. part_batch schema np offs b ts \<and> rb_num_rows b \<le> 2 * m) (zip ?os ?bs) tss"
    and lt: "length tss \<le> length bs"
    using i by (simp_all add: buffer_inv_def)
  have lts: "length tss = length ?bs" using la lo by (auto dest: list_all2_lengthD)
  have pb: "part_batch schema np (?os ! k) (?bs ! k) (tss ! k) \<and> rb_num_rows (?bs ! k) \<le> 2 * m" if "k < length ?bs" for k
    using list_all2_nthD [OF la, of k] that lo by simp
  have srcs: "map (\<lambda>(idx, offs). \<lparr>offsets = offs, odata = idx\<rparr>) (enumerate 0 ?os) = map ?off [0..<length ?bs]"
    by (rule nth_equalityI) (simp_all add: nth_enumerate_eq lo)
  have "\<forall>off \<in> set (map ?off [0..<length ?bs]). offsets_ok np off"
    by (auto intro!: part_batch_offsets(1) [OF conjunct1 [OF pb]])
  moreover have "length (map ?off [0..<length ?bs]) < usize_max" "np \<le> usize_max" "map ?off [0..<length ?bs] \<noteq> []"
    using lts lt len parts(2) st by (simp_all add: usize_max_def)
  ultimately obtain it where it: "new_merge_iter np (map ?off [0..<length ?bs]) = Some it" "merge_inv it" "num_partitions it = np"
    "all_rest it = (\<Sum>off \<leftarrow> map ?off [0..<length ?bs]. mset (ranges_from np off 0))"
    using new_merge_iter_ok [of "map ?off [0..<length ?bs]" np] by blast
  define pb where "pb = \<lparr>pb_batches = ?bs, pb_merge_iter = it,
    pb_batch_size = suggested_batch_size env (bd_mem_used bd) (bd_num_rows bd), last_chunk_partition_id = None\<rparr>"
  have run: "into_sorted_batches env bd = Some pb"
    using it(1) srcs by (simp add: into_sorted_batches_def pb_try_new_def P pb_def)
  have items: "items_ok (2 * m) ?bs (all_rest it)"
  proof -
    have "items_ok (2 * m) ?bs (\<Sum>off \<leftarrow> map ?off ks. mset (ranges_from np off 0))" if "set ks \<subseteq> {..<length ?bs}" for ks
      using that
    proof (induction ks)
      case (Cons k ks)
      then have "items_ok (2 * m) ?bs (mset (ranges_from np (?off k) 0))" using pb by (intro ranges_ok) auto
      with Cons show ?case by (fastforce simp: items_ok_def)
    qed (simp add: items_ok_def)
    then show ?thesis unfolding it(4) by (simp add: atLeast0LessThan)
  qed
  have "gatherable ?bs"
    using st pb sorted_batch_rows [OF i] by (fastforce simp: gatherable_def part_batch_def in_set_conv_nth)
  then have inv: "pb_inv 0 pb" using it items suggested_le by (simp add: pb_inv_def pb_def)
  have "rows_in ?bs p (all_rest it) = mset (map snd (filter (\<lambda>t. fst t = p) (tagged idss bs)))" if p: "p < np" for p
  proof -
    have "rows_in ?bs p (all_rest it) = (\<Sum>k \<leftarrow> [0..<length ?bs]. mset (map snd (filter (\<lambda>t. fst t = p) (tss ! k))))"
      unfolding it(4) rows_in_sum_list map_map comp_def
      by (intro arg_cong [where f = sum_list] map_cong refl rows_in_ranges [OF conjunct1 [OF pb] p]) simp
    also have "\<dots> = (\<Sum>ts \<leftarrow> map ((!) tss) [0..<length tss]. mset (map snd (filter (\<lambda>t. fst t = p) ts)))"
      unfolding lts by (simp add: comp_def)
    also have "\<dots> = mset (map snd (filter (\<lambda>t. fst t = p) (tagged idss bs)))"
      unfolding map_nth using tagged_filter_sum [OF tot, of p] by simp
    finally show ?thesis .
  qed
  with run inv show ?thesis by (auto simp: pb_def)
qed

lemma empty_batches_ids:
  assumes "\<forall>b \<in> set bs. shuffle_input_ok env P m b" and "sum_list (map rb_num_rows bs) = 0"
  shows "\<exists>idss. list_all2 legal_ids bs idss \<and> (\<forall>p. rows_to p idss bs = {#})"
  using assms
proof (induction bs)
  case (Cons b bs)
  then obtain idss where ih: "list_all2 legal_ids bs idss" "\<forall>p. rows_to p idss bs = {#}" by auto
  have b: "partitionable (sh_converter env) schema P b" "rb_num_rows b = 0" using Cons.prems by (simp_all add: shuffle_input_ok_def)
  from batch_part_ids_ok [OF b(1) parts] obtain ids where ids: "legal_ids b ids" by (auto simp: legal_ids_def)
  have "rows_to p (ids # idss) (b # bs) = rows_to p [ids] [b] + rows_to p idss bs" for p
    using rows_to_append [of "[ids]" "[b]" p idss bs] by simp
  moreover have "rows_to p [ids] [b] = {#}" for p using ids b(2) by (simp add: rows_to_def tagged_def legal_ids_def)
  ultimately show ?case using ih ids by (intro exI [of _ "ids # idss"]) simp
qed simp

lemma bd_write_ok:
  assumes h: "buffer_holds m bd bs" and len: "length bs \<le> 2 ^ 32"
  shows "\<exists>secs idss. bd_write env bd = Some (concat secs, begins secs (np + 1)) \<and> length secs = np
    \<and> list_all2 legal_ids bs idss \<and> (\<forall>p < np. section_holds (secs ! p) (rows_to p idss bs))"
proof (cases "bd_num_rows bd = 0")
  case True
  have P: "bd_partitioning bd = P" "\<forall>b \<in> set bs. shuffle_input_ok env P m b" "sum_list (map rb_num_rows bs) = 0"
    using h True unfolding buffer_holds_def buffer_inv_def by auto
  from empty_batches_ids [OF P(2,3)] obtain idss where "list_all2 legal_ids bs idss" "\<forall>p. rows_to p idss bs = {#}" by blast
  moreover have "begins (replicate np ([] :: bytes)) (np + 1) = replicate (np + 1) 0"
    by (rule nth_equalityI) (auto simp: begins_def simp del: upt_Suc replicate_Suc)
  moreover have "bd_write env bd = Some (concat (replicate np []), replicate (np + 1) 0)" using True P(1) by (simp add: bd_write_def)
  ultimately show ?thesis using section_holds_empty
    by (intro exI [of _ "replicate np []"] exI [of _ idss] conjI) simp_all
next
  case False
  from ready_to_write [OF h len False] obtain bd' idss tss where
    r: "(if staging_batches bd \<noteq> [] then flush_staging env bd else Some bd) = Some bd'" "buffer_inv m bd' bs idss tss"
      "bd_sorted_batches bd' \<noteq> []" by blast
  from into_sorted_batches_ok [OF r(2,3) len] obtain pb where
    pb: "into_sorted_batches env bd' = Some pb" "pb_inv 0 pb" "last_chunk_partition_id pb = None"
      "\<And>p. p < np \<Longrightarrow> rows_in (pb_batches pb) p (rest pb) = rows_to p idss bs" by (auto simp: rows_to_def)
  from write_chunks_ok [of "[]" pb] pb(2,3) obtain secs where
    w: "write_chunks env pb (clean_writer []) [] = Some (clean_writer (concat secs), begins secs (length secs))" "length secs \<le> np"
      "\<And>p. p < np \<Longrightarrow> section_holds (section_at secs p) (rows_in (pb_batches pb) p (rest pb))" by (auto simp: begins_def)
  let ?secs = "secs @ replicate (np - length secs) []"
  have P: "bd_partitioning bd' = P" "list_all2 legal_ids bs idss" using r(2) by (simp_all add: buffer_inv_def)
  have "bd_write env bd = Some (concat ?secs, begins ?secs (np + 1))"
    using False r(1) pb(1) w(1) P(1) begins_resize [OF w(2), of "[]"] by (simp add: bd_write_def ipc_new_def)
  moreover have "section_holds (?secs ! p) (rows_to p idss bs)" if "p < np" for p
    using w(3) [OF that] pb(4) [OF that] that by (auto simp: section_at_def nth_append split: if_splits)
  ultimately show ?thesis using w(2) P(2) by (intro exI [of _ ?secs] exI [of _ idss]) simp
qed

lemma bd_write_rss_ok:
  assumes h: "buffer_holds m bd bs" and len: "length bs \<le> 2 ^ 32"
  shows "\<exists>xs idss. bd_write_rss env bd = Some xs \<and> list_all2 legal_ids bs idss
    \<and> (\<forall>p < np. section_holds (pushed_to p xs) (rows_to p idss bs))"
proof (cases "bd_num_rows bd = 0")
  case True
  have P: "\<forall>b \<in> set bs. shuffle_input_ok env P m b" "sum_list (map rb_num_rows bs) = 0"
    using h True unfolding buffer_holds_def buffer_inv_def by auto
  from empty_batches_ids [OF P] obtain idss where "list_all2 legal_ids bs idss" "\<forall>p. rows_to p idss bs = {#}" by blast
  with True section_holds_empty show ?thesis by (intro exI [of _ "[]"] exI [of _ idss]) (simp add: bd_write_rss_def)
next
  case False
  from ready_to_write [OF h len False] obtain bd' idss tss where
    r: "(if staging_batches bd \<noteq> [] then flush_staging env bd else Some bd) = Some bd'" "buffer_inv m bd' bs idss tss"
      "bd_sorted_batches bd' \<noteq> []" by blast
  from into_sorted_batches_ok [OF r(2,3) len] obtain pb where
    pb: "into_sorted_batches env bd' = Some pb" "pb_inv 0 pb" "last_chunk_partition_id pb = None"
      "\<And>p. p < np \<Longrightarrow> rows_in (pb_batches pb) p (rest pb) = rows_to p idss bs" by (auto simp: rows_to_def)
  from push_chunks_ok [OF pb(2), of "[]" "[]"] pb(3) obtain xs where
    w: "push_chunks env pb (clean_writer []) [] = Some xs"
      "\<And>p. p < np \<Longrightarrow> section_holds (pushed_to p xs) (rows_in (pb_batches pb) p (rest pb))" by auto
  have "list_all2 legal_ids bs idss" using r(2) by (simp add: buffer_inv_def)
  moreover have "bd_write_rss env bd = Some xs" using False r(1) pb(1) w(1) by (simp add: bd_write_rss_def ipc_new_def)
  ultimately show ?thesis using w(2) pb(4) by metis
qed

end

end
