(* ===== verification/Coalesce.thy ===== *)
theory Coalesce
  imports Arrow_Selection
begin

text \<open>
  Putting small batches together: \<open>datafusion-ext-commons/src/arrow/coalesce.rs\<close> appends the arrays
  of a column, and the stream made by \<open>coalesce_with_default_batch_size\<close>
  (\<open>datafusion-ext-plans/src/common/execution_context.rs\<close>), which stands before and after most
  operators, decides which batches are put together.

  Arrays that are neither primitive nor byte arrays are appended by \<open>MutableArrayData\<close> of the
  \<open>arrow\<close> crate, a parameter (\<open>mutable_extend\<close>) with the promise \<open>extend_ok\<close>.  Offsets have the width
  of the array class; their additions wrap around, as the build profiles set no overflow checks.
  \<open>None\<close> is a panic.
\<close>

section \<open>Model\<close>

record coalesce_env =
  ce_kernels :: kernels
  mutable_extend :: "array list \<Rightarrow> array option"
  ce_new_empty_array :: "data_type \<Rightarrow> array"
  ce_new_empty :: "data_type list \<Rightarrow> record_batch"
  ce_mem_size :: "record_batch \<Rightarrow> nat"
  ce_batch_size :: nat
  ce_suggested_mem_size :: nat

subsection \<open>Appending arrays\<close>

definition valid_bits :: "bit_buffer option \<Rightarrow> nat \<Rightarrow> bool list" where
  "valid_bits nb n = (case nb of Some b \<Rightarrow> bits_of b | None \<Rightarrow> replicate n True)"

definition coalesce_null_buffer :: "array list \<Rightarrow> bit_buffer option" where
  "coalesce_null_buffer arrays =
     (if list_ex (\<lambda>a. nulls_of a \<noteq> None) arrays
      then Some (bit_buffer_of (concat (map (\<lambda>a. valid_bits (nulls_of a) (array_len a)) arrays)))
      else None)"

definition coalesce_primitive_arrays_unchecked :: "array list \<Rightarrow> data_type \<Rightarrow> array option" where
  "coalesce_primitive_arrays_unchecked arrays dt =
     do { valss \<leftarrow> those (map (as_primitive dt) arrays);
          Some (PrimitiveArray dt (coalesce_null_buffer arrays) (concat valss)) }"

text \<open>The width of the offsets in bits, and the value of a signed integer of that width.\<close>

definition offset_bits :: "data_type \<Rightarrow> nat" where
  "offset_bits dt = (if dt = Utf8 \<or> dt = Binary then 32 else 64)"

definition wrap_offset :: "data_type \<Rightarrow> int \<Rightarrow> int" where
  "wrap_offset dt x = signed_take_bit (offset_bits dt - 1) x"

fun coalesce_bytes_loop :: "data_type \<Rightarrow> (int list \<times> bytes) list \<Rightarrow> nat \<Rightarrow> int list \<Rightarrow> bytes \<Rightarrow> (int list \<times> bytes) option" where
  "coalesce_bytes_loop dt [] cur_offset offsets buffer = Some (offsets, buffer)"
| "coalesce_bytes_loop dt ((value_offsets, value_data) # bufs) cur_offset offsets buffer =
     do { first_offset \<leftarrow> vget value_offsets 0;
          last_offset \<leftarrow> vget value_offsets (length value_offsets - 1);
          let array_begin_offset = nat first_offset;
          let array_end_offset = nat last_offset;
          if array_begin_offset \<le> array_end_offset \<and> array_end_offset \<le> length value_data
          then do { let array_bytes = take (array_end_offset - array_begin_offset) (drop array_begin_offset value_data);
                    let relative_offset = wrap_offset dt (int cur_offset - int array_begin_offset);
                    coalesce_bytes_loop dt bufs (cur_offset + length array_bytes)
                      (offsets @ map (\<lambda>offset. wrap_offset dt (offset + relative_offset)) (tl value_offsets))
                      (buffer @ array_bytes) }
          else None }"

text \<open>\<open>OffsetBuffer::new\<close> and \<open>GenericByteArray::new\<close> check what they are given.\<close>

definition new_byte_array :: "data_type \<Rightarrow> int list \<Rightarrow> bytes \<Rightarrow> bit_buffer option \<Rightarrow> array option" where
  "new_byte_array dt offsets data nulls =
     (if offsets \<noteq> [] \<and> 0 \<le> hd offsets \<and> sorted offsets \<and> last offsets \<le> int (length data)
         \<and> (case nulls of None \<Rightarrow> True | Some b \<Rightarrow> bits_len b = length offsets - 1)
         \<and> (dt \<in> {Utf8, LargeUtf8} \<longrightarrow> list_all (\<lambda>i. utf8_ok (bytes_value offsets data i)) [0..<length offsets - 1])
      then Some (ByteArray dt nulls offsets data) else None)"

definition coalesce_bytes_arrays_unchecked :: "array list \<Rightarrow> data_type \<Rightarrow> array option" where
  "coalesce_bytes_arrays_unchecked arrays dt =
     do { bufs \<leftarrow> those (map (as_bytes dt) arrays);
          (offsets, buffer) \<leftarrow> coalesce_bytes_loop dt bufs 0 [0] [];
          new_byte_array dt offsets buffer (coalesce_null_buffer arrays) }"

definition coalesce_arrays_unchecked :: "coalesce_env \<Rightarrow> data_type \<Rightarrow> array list \<Rightarrow> array option" where
  "coalesce_arrays_unchecked ce dt arrays =
     (case arrays of
        [] \<Rightarrow> Some (ce_new_empty_array ce dt)
      | [a] \<Rightarrow> Some a
      | _ \<Rightarrow> if primitive_width dt \<noteq> None then coalesce_primitive_arrays_unchecked arrays dt
             else if dt \<in> {Utf8, LargeUtf8, Binary, LargeBinary} then coalesce_bytes_arrays_unchecked arrays dt
             else mutable_extend ce arrays)"

definition coalesce_batches_unchecked :: "coalesce_env \<Rightarrow> data_type list \<Rightarrow> record_batch list \<Rightarrow> record_batch option" where
  "coalesce_batches_unchecked ce schema batches =
     (case batches of
        [] \<Rightarrow> Some (ce_new_empty ce schema)
      | [b] \<Rightarrow> Some b
      | _ \<Rightarrow> do { let num_rows = sum_list (map rb_num_rows batches);
                  coalesced_cols \<leftarrow> those (map (\<lambda>i.
                    do { cols \<leftarrow> those (map (\<lambda>b. vget (rb_columns b) i) batches);
                         coalesce_arrays_unchecked ce (schema ! i) cols }) [0..<length schema]);
                  try_new_with_options (ce_kernels ce) schema coalesced_cols num_rows })"

subsection \<open>The stream\<close>

record coalesce_stream =
  staging_batches :: "record_batch list"
  staging_rows :: nat
  staging_batches_mem_size :: nat

definition new_coalesce_stream :: coalesce_stream where
  "new_coalesce_stream = \<lparr>staging_batches = [], staging_rows = 0, staging_batches_mem_size = 0\<rparr>"

definition should_flush :: "coalesce_env \<Rightarrow> coalesce_stream \<Rightarrow> bool" where
  "should_flush ce s = (staging_rows s \<ge> ce_batch_size ce \<or> staging_batches_mem_size s > ce_suggested_mem_size ce)"

text \<open>\<open>poll_next\<close> until the input ends; \<open>coalesce\<close> empties the staging area.\<close>

fun coalesce_run :: "coalesce_env \<Rightarrow> data_type list \<Rightarrow> coalesce_stream \<Rightarrow> record_batch list \<Rightarrow> record_batch list option" where
  "coalesce_run ce schema s [] =
     (if staging_batches s \<noteq> []
      then do { coalesced \<leftarrow> coalesce_batches_unchecked ce schema (staging_batches s); Some [coalesced] }
      else Some [])"
| "coalesce_run ce schema s (batch # input) =
     (if rb_num_rows batch = 0 then coalesce_run ce schema s input
      else if staging_batches s = [] \<and> rb_num_rows batch > ce_batch_size ce div 4
      then map_option (Cons batch) (coalesce_run ce schema s input)
      else if staging_batches s = [] \<and> ce_mem_size ce batch \<ge> ce_suggested_mem_size ce div 4
      then map_option (Cons batch) (coalesce_run ce schema s input)
      else let s' = \<lparr>staging_batches = staging_batches s @ [batch], staging_rows = staging_rows s + rb_num_rows batch,
                     staging_batches_mem_size = staging_batches_mem_size s + ce_mem_size ce batch\<rparr>
           in if should_flush ce s'
              then do { coalesced \<leftarrow> coalesce_batches_unchecked ce schema (staging_batches s');
                        map_option (Cons coalesced) (coalesce_run ce schema new_coalesce_stream input) }
              else coalesce_run ce schema s' input)"

definition coalesce_with_default_batch_size :: "coalesce_env \<Rightarrow> data_type list \<Rightarrow> record_batch list \<Rightarrow> record_batch list option" where
  "coalesce_with_default_batch_size ce schema input = coalesce_run ce schema new_coalesce_stream input"

section \<open>What it relies on\<close>

text \<open>The elements and bytes that appending an array copies, hidden ones included.\<close>

fun array_span :: "array \<Rightarrow> nat" where
  "array_span (ByteArray _ _ offs _) = nat (last offs - hd offs)"
| "array_span (ListArray _ _ _ child) = array_len child + array_span child"
| "array_span (MapArray _ _ _ _ entries) = array_len entries + array_span entries"
| "array_span (StructArray _ _ _ cols) = sum_list (map array_span cols)"
| "array_span (DictionaryArray _ _ vals) = array_len vals + array_span vals"
| "array_span _ = 0"

definition copied_type :: "data_type \<Rightarrow> bool" where
  "copied_type dt = (primitive_width dt \<noteq> None \<or> dt \<in> {Utf8, LargeUtf8, Binary, LargeBinary})"

definition extend_ok :: "(array list \<Rightarrow> array option) \<Rightarrow> data_type set \<Rightarrow> bool" where
  "extend_ok ext types =
     (\<forall>dt arrays. dt \<in> types \<and> \<not> copied_type dt \<and> (\<forall>a \<in> set arrays. array_wf a \<and> data_type_of a = dt)
        \<and> sum_list (map array_span arrays) < 2 ^ 31 \<longrightarrow>
        (\<exists>a. ext arrays = Some a \<and> array_with dt (concat (map cells_of arrays)) a
           \<and> array_span a \<le> sum_list (map array_span arrays)))"

definition coalesce_env_ok :: "coalesce_env \<Rightarrow> data_type set \<Rightarrow> bool" where
  "coalesce_env_ok ce types = (kernels_ok (ce_kernels ce) types \<and> extend_ok (mutable_extend ce) types)"

section \<open>Appending arrays\<close>

lemma length_valid_bits: "nulls_wf nb n \<Longrightarrow> length (valid_bits nb n) = n"
  by (auto simp: valid_bits_def nulls_wf_def split: option.splits)

lemma nth_valid_bits: "nulls_wf nb n \<Longrightarrow> i < n \<Longrightarrow> valid_bits nb n ! i = bit_valid nb i"
  by (auto simp: valid_bits_def nulls_wf_def bit_valid_def split: option.splits)

lemma bits_of_packed: "bits_of (bit_buffer_of vs) = vs"
proof (rule nth_equalityI)
  show "length (bits_of (bit_buffer_of vs)) = length vs" by (simp add: bit_buffer_of_ok(2))
  fix i assume i: "i < length (bits_of (bit_buffer_of vs))"
  obtain bs off len where b: "bit_buffer_of vs = (bs, off, len)" by (cases "bit_buffer_of vs")
  with i bit_buffer_of_ok(2) [of vs] bit_buffer_of_ok(3) [of i vs] show "bits_of (bit_buffer_of vs) ! i = vs ! i"
    by (auto simp: bit_valid_def bit_buffer_of_ok(2))
qed

lemma concat_replicate_sum: "concat (map (\<lambda>x. replicate (f x) v) xs) = replicate (sum_list (map f xs)) v"
  by (induction xs) (simp_all add: replicate_add)

lemma coalesced_nulls:
  assumes "\<forall>a \<in> set arrays. nulls_wf (nulls_of a) (array_len a)"
  defines "n \<equiv> sum_list (map array_len arrays)"
  shows "nulls_wf (coalesce_null_buffer arrays) n"
    and "valid_bits (coalesce_null_buffer arrays) n = concat (map (\<lambda>a. valid_bits (nulls_of a) (array_len a)) arrays)"
proof -
  let ?vs = "concat (map (\<lambda>a. valid_bits (nulls_of a) (array_len a)) arrays)"
  have len: "length ?vs = n"
    using assms(1) unfolding n_def by (induction arrays) (simp_all add: length_valid_bits)
  show "nulls_wf (coalesce_null_buffer arrays) n"
    using bit_buffer_of_ok(1,2) len by (simp add: coalesce_null_buffer_def nulls_wf_def)
  show "valid_bits (coalesce_null_buffer arrays) n = ?vs"
  proof (cases "list_ex (\<lambda>a. nulls_of a \<noteq> None) arrays")
    case True
    then show ?thesis by (simp add: coalesce_null_buffer_def valid_bits_def [of "Some _"] bits_of_packed)
  next
    case False
    then have "map (\<lambda>a. valid_bits (nulls_of a) (array_len a)) arrays = map (\<lambda>a. replicate (array_len a) True) arrays"
      by (auto simp: list_ex_iff valid_bits_def split: option.split)
    with False show ?thesis
      by (simp only: coalesce_null_buffer_def if_False valid_bits_def option.case n_def concat_replicate_sum)
  qed
qed

lemma concat_map2:
  "\<forall>x \<in> set xs. length (f x) = length (g x) \<Longrightarrow>
   concat (map (\<lambda>x. map2 h (f x) (g x)) xs) = map2 h (concat (map f xs)) (concat (map g xs))"
  by (induction xs) simp_all

text \<open>The cells of primitive and of byte arrays, from their validity bits and values.\<close>

definition byte_values :: "array \<Rightarrow> bytes list" where
  "byte_values a = map (bytes_value (fst (byte_buffers a)) (snd (byte_buffers a))) [0..<array_len a]"

lemma length_byte_values [simp]: "length (byte_values a) = array_len a"
  by (simp add: byte_values_def)

lemma cells_of_primitive:
  "nulls_wf nb (length vs) \<Longrightarrow>
   cells_of (PrimitiveArray dt nb vs) = map2 (\<lambda>v x. if v then CPrim dt x else CNull) (valid_bits nb (length vs)) vs"
  by (rule nth_equalityI) (simp_all add: length_valid_bits nth_valid_bits)

lemma cells_of_bytes:
  assumes "nulls_wf nb (length offs - 1)"
  shows "cells_of (ByteArray dt nb offs data) = map2 (\<lambda>v x. if v then CBytes x else CNull)
    (valid_bits nb (length offs - 1)) (byte_values (ByteArray dt nb offs data))"
  by (rule nth_equalityI) (use assms in \<open>simp_all add: length_valid_bits nth_valid_bits byte_values_def byte_buffers_def\<close>)

lemma coalesce_primitive_ok:
  assumes dt: "primitive_width dt \<noteq> None" and wf: "\<forall>a \<in> set arrays. array_wf a \<and> data_type_of a = dt"
  shows "\<exists>a. coalesce_primitive_arrays_unchecked arrays dt = Some a \<and> array_with dt (concat (map cells_of arrays)) a \<and> array_span a = 0"
proof -
  have shape: "\<exists>nb vs. a = PrimitiveArray dt nb vs" if "a \<in> set arrays" for a
    using primitive_shape [OF _ _ dt] wf that by blast
  let ?valid = "\<lambda>a. valid_bits (nulls_of a) (array_len a)" and ?vs = "concat (map prim_values arrays)"
  have each: "as_primitive dt a = Some (prim_values a)" "nulls_wf (nulls_of a) (array_len a)" "length (prim_values a) = array_len a"
      "\<forall>v \<in> set (prim_values a). prim_in_range dt v"
      "cells_of a = map2 (\<lambda>v x. if v then CPrim dt x else CNull) (?valid a) (prim_values a)" if "a \<in> set arrays" for a
    using shape [OF that] wf that by (auto simp: prim_values_def cells_of_primitive)
  let ?a = "PrimitiveArray dt (coalesce_null_buffer arrays) ?vs"
  have len: "length ?vs = sum_list (map array_len arrays)"
    using each(3) by (simp add: length_concat comp_def cong: map_cong)
  note nb = coalesced_nulls [of arrays, folded len]
  have "coalesce_primitive_arrays_unchecked arrays dt = Some ?a"
    using those_map_Some [of arrays "as_primitive dt" prim_values] each(1) by (simp add: coalesce_primitive_arrays_unchecked_def)
  moreover have "array_wf ?a" using nb(1) each(2,4) dt by auto
  moreover have "cells_of ?a = concat (map cells_of arrays)"
  proof -
    have "cells_of ?a = map2 (\<lambda>v x. if v then CPrim dt x else CNull) (concat (map ?valid arrays)) ?vs"
      using cells_of_primitive [OF nb(1)] nb(2) each(2) by simp
    also have "\<dots> = concat (map (\<lambda>a. map2 (\<lambda>v x. if v then CPrim dt x else CNull) (?valid a) (prim_values a)) arrays)"
      by (rule concat_map2 [symmetric]) (simp add: each(2,3) length_valid_bits)
    also have "\<dots> = concat (map cells_of arrays)" using each(5) by (metis (mono_tags, lifting) map_cong)
    finally show ?thesis .
  qed
  ultimately show ?thesis by (simp add: array_with_def)
qed


text \<open>Byte arrays: the buffers built so far are those of the values appended so far.\<close>

definition offsets_of :: "bytes list \<Rightarrow> int list" where
  "offsets_of vs = map (\<lambda>i. int (length (concat (take i vs)))) [0..<length vs + 1]"

lemma length_offsets_of [simp]: "length (offsets_of vs) = length vs + 1"
  by (simp add: offsets_of_def)

lemma nth_offsets_of: "i \<le> length vs \<Longrightarrow> offsets_of vs ! i = int (length (concat (take i vs)))"
  by (simp add: offsets_of_def del: upt_Suc)

lemma offsets_of_append:
  "offsets_of (vs @ ws) = offsets_of vs @ map (\<lambda>i. int (length (concat vs) + length (concat (take (Suc i) ws)))) [0..<length ws]"
  proof (rule nth_equalityI)
  fix i assume i: "i < length (offsets_of (vs @ ws))"
  show "offsets_of (vs @ ws) ! i
    = (offsets_of vs @ map (\<lambda>i. int (length (concat vs) + length (concat (take (Suc i) ws)))) [0..<length ws]) ! i"
  proof (cases "i \<le> length vs")
    case False
    then have "Suc (i - Suc (length vs)) = i - length vs" "i - Suc (length vs) < length ws" using i by simp_all
    with False i show ?thesis by (simp add: nth_append nth_offsets_of)
  qed (use i in \<open>simp add: nth_append nth_offsets_of\<close>)
qed simp

lemma offsets_of_ok:
  assumes "length (concat vs) < 2 ^ 31"
  shows "offsets_wf (offsets_of vs) (length (concat vs))" and "hd (offsets_of vs) = 0"
    and "\<And>i. i < length vs \<Longrightarrow> bytes_value (offsets_of vs) (concat vs) i = vs ! i"
proof -
  have o: "offsets_of vs = 0 # tl (offsets_of vs)" by (simp add: offsets_of_def upt_conv_Cons del: upt_Suc)
  then show "hd (offsets_of vs) = 0" by (metis list.sel(1))
  have at: "\<forall>k \<le> length vs. (0 # tl (offsets_of vs)) ! k = int (sum_list (take k (map length vs)))"
    unfolding o [symmetric] by (simp add: nth_offsets_of length_concat take_map)
  have len: "length (tl (offsets_of vs)) = length vs" by simp
  have small: "sum_list (map length vs) < 2 ^ 31" using assms by (simp add: length_concat)
  from running_offsets [OF len at small, folded o] show "offsets_wf (offsets_of vs) (length (concat vs))"
    "\<And>i. i < length vs \<Longrightarrow> bytes_value (offsets_of vs) (concat vs) i = vs ! i" by blast+
qed

lemma bytes_prefix:
  assumes "offsets_wf offs (length data)" and "i < length offs"
  shows "concat (map (bytes_value offs data) [0..<i]) = take (offset_at offs i - offset_at offs 0) (drop (offset_at offs 0) data)"
  using assms(2)
proof (induction i)
  case (Suc i)
  have o: "offset_at offs 0 \<le> offset_at offs i" "offset_at offs i \<le> offset_at offs (Suc i)"
    using offset_at_mono [OF assms(1)] Suc.prems by simp_all
  then have "offset_at offs (Suc i) - offset_at offs 0 = (offset_at offs i - offset_at offs 0) + (offset_at offs (Suc i) - offset_at offs i)"
    by simp
  then have "take (offset_at offs (Suc i) - offset_at offs 0) (drop (offset_at offs 0) data)
      = take (offset_at offs i - offset_at offs 0) (drop (offset_at offs 0) data)
        @ take (offset_at offs (Suc i) - offset_at offs i) (drop (offset_at offs i) data)"
    using o by (simp only: take_add drop_drop le_add_diff_inverse2)
  with Suc show ?case by (simp add: bytes_value_def)
qed simp

lemma bytes_prefix_length:
  assumes "offsets_wf offs (length data)" and "i < length offs"
  shows "length (concat (map (bytes_value offs data) [0..<i])) = offset_at offs i - offset_at offs 0"
  using offset_at_le [OF assms] unfolding bytes_prefix [OF assms] by simp

lemma wrap_offset_id: "- (2 ^ 31) \<le> x \<Longrightarrow> x < 2 ^ 31 \<Longrightarrow> wrap_offset dt x = x"
  by (simp add: wrap_offset_def offset_bits_def signed_take_bit_int_eq_self)

definition bytes_wf :: "int list \<times> bytes \<Rightarrow> bool" where
  "bytes_wf buf = offsets_wf (fst buf) (length (snd buf))"

definition buffer_values :: "int list \<times> bytes \<Rightarrow> bytes list" where
  "buffer_values buf = map (bytes_value (fst buf) (snd buf)) [0..<length (fst buf) - 1]"

lemma buffer_values_span:
  assumes "bytes_wf (offs, data)"
  shows "length (concat (buffer_values (offs, data))) = nat (last offs - hd offs)"
proof -
  have ne: "offs \<noteq> []" and wf: "offsets_wf offs (length data)" using assms by (simp_all add: bytes_wf_def offsets_wf_def)
  have "length (concat (buffer_values (offs, data))) = offset_at offs (length offs - 1) - offset_at offs 0"
    using bytes_prefix_length [OF wf, of "length offs - 1"] ne by (simp add: buffer_values_def)
  also have "\<dots> = nat (last offs - hd offs)"
    using ne wf by (simp add: offset_at_def last_conv_nth hd_conv_nth offsets_wf_def) linarith
  finally show ?thesis .
qed

lemma bytes_loop_step:
  assumes wf: "bytes_wf (offs, data)" and small: "length (concat (vs @ buffer_values (offs, data))) < 2 ^ 31"
  shows "coalesce_bytes_loop dt ((offs, data) # bufs) (length (concat vs)) (offsets_of vs) (concat vs)
    = coalesce_bytes_loop dt bufs (length (concat (vs @ buffer_values (offs, data)))) (offsets_of (vs @ buffer_values (offs, data)))
        (concat (vs @ buffer_values (offs, data)))"
proof -
  let ?ws = "buffer_values (offs, data)" and ?n = "length offs - 1"
  have ow: "offsets_wf offs (length data)" "offs \<noteq> []" "0 \<le> hd offs" "last offs < 2 ^ 31"
    using wf by (simp_all add: bytes_wf_def offsets_wf_def)
  have ends: "vget offs 0 = Some (offs ! 0)" "vget offs ?n = Some (offs ! ?n)" using ow(2) by simp_all
  have n0: "nat (offs ! 0) = offset_at offs 0" "nat (offs ! ?n) = offset_at offs ?n" by (simp_all add: offset_at_def)
  have le: "offset_at offs 0 \<le> offset_at offs ?n" "offset_at offs ?n \<le> length data"
    using offset_at_mono [OF ow(1)] offset_at_le [OF ow(1)] ow(2) by simp_all
  have bytes: "take (offset_at offs ?n - offset_at offs 0) (drop (offset_at offs 0) data) = concat ?ws"
    using bytes_prefix [OF ow(1), of ?n] ow(2) by (simp add: buffer_values_def)
  have pos: "0 \<le> offs ! i" "offs ! i < 2 ^ 31" if "i < length offs" for i
  proof -
    have "sorted offs" using ow(1) by (simp add: offsets_wf_def)
    then have "hd offs \<le> offs ! i" "offs ! i \<le> last offs"
      using that ow(2) by (simp_all add: hd_conv_nth last_conv_nth sorted_nth_mono)
    then show "0 \<le> offs ! i" "offs ! i < 2 ^ 31" using ow(3,4) by simp_all
  qed
  have vs: "length (concat vs) < 2 ^ 31" using small by simp
  let ?rel = "int (length (concat vs)) - int (offset_at offs 0)"
  have rel: "wrap_offset dt ?rel = ?rel"
    by (rule wrap_offset_id) (use pos [of 0] vs ow(2) in \<open>simp_all add: offset_at_def\<close>)
  have "map (\<lambda>offset. wrap_offset dt (offset + ?rel)) (tl offs)
      = map (\<lambda>i. int (length (concat vs) + length (concat (take (Suc i) ?ws)))) [0..<length ?ws]"
  proof (rule nth_equalityI)
    show len: "length (map (\<lambda>offset. wrap_offset dt (offset + ?rel)) (tl offs))
        = length (map (\<lambda>i. int (length (concat vs) + length (concat (take (Suc i) ?ws)))) [0..<length ?ws])"
      by (simp add: buffer_values_def)
    fix i assume "i < length (map (\<lambda>offset. wrap_offset dt (offset + ?rel)) (tl offs))"
    then have i: "i < ?n" "Suc i < length offs" by simp_all
    have "take (Suc i) ?ws = map (bytes_value offs data) [0..<Suc i]" using i by (simp add: buffer_values_def take_map take_upt del: upt_Suc)
    then have l: "length (concat (take (Suc i) ?ws)) = offset_at offs (Suc i) - offset_at offs 0"
      using bytes_prefix_length [OF ow(1) i(2)] by simp
    have "length (concat (take (Suc i) ?ws)) \<le> length (concat ?ws)"
      by (metis append_take_drop_id concat_append le_add1 length_append)
    then have "int (length (concat vs) + length (concat (take (Suc i) ?ws))) < 2 ^ 31" using small by simp
    moreover have "offset_at offs 0 \<le> offset_at offs (Suc i)" using offset_at_mono [OF ow(1) _ i(2)] by simp
    then have eq: "offs ! Suc i + ?rel = int (length (concat vs) + length (concat (take (Suc i) ?ws)))"
      unfolding l using pos(1) [OF i(2)] pos(1) [of 0] ow(2) by (simp add: offset_at_def)
    ultimately show "map (\<lambda>offset. wrap_offset dt (offset + ?rel)) (tl offs) ! i
        = map (\<lambda>i. int (length (concat vs) + length (concat (take (Suc i) ?ws)))) [0..<length ?ws] ! i"
      using i by (simp add: nth_tl eq wrap_offset_id buffer_values_def)
  qed
  then show ?thesis
    using ends le rel by (simp add: Let_def n0 bytes offsets_of_append del: One_nat_def)
qed

lemma bytes_loop_ok:
  assumes "\<forall>buf \<in> set bufs. bytes_wf buf" and "length (concat (vs @ concat (map buffer_values bufs))) < 2 ^ 31"
  shows "coalesce_bytes_loop dt bufs (length (concat vs)) (offsets_of vs) (concat vs)
    = Some (offsets_of (vs @ concat (map buffer_values bufs)), concat (vs @ concat (map buffer_values bufs)))"
  using assms
proof (induction bufs arbitrary: vs)
  case (Cons buf bufs)
  obtain offs data where buf: "buf = (offs, data)" by (cases buf)
  have wf: "bytes_wf (offs, data)" "\<forall>buf \<in> set bufs. bytes_wf buf" using Cons.prems(1) buf by simp_all
  have small: "length (concat ((vs @ buffer_values (offs, data)) @ concat (map buffer_values bufs))) < 2 ^ 31"
    using Cons.prems(2) buf by simp
  then have "length (concat (vs @ buffer_values (offs, data))) < 2 ^ 31" by simp
  from bytes_loop_step [OF wf(1) this] Cons.IH [OF wf(2) small] show ?case unfolding buf by simp
qed simp

lemma byte_array_shape:
  assumes "array_wf a" and "data_type_of a = dt" and "dt \<in> {Utf8, LargeUtf8, Binary, LargeBinary}"
  shows "\<exists>nb offs data. a = ByteArray dt nb offs data"
  using assms by (cases a) auto

lemma coalesce_bytes_ok:
  assumes dt: "dt \<in> {Utf8, LargeUtf8, Binary, LargeBinary}" and wf: "\<forall>a \<in> set arrays. array_wf a \<and> data_type_of a = dt"
    and small: "sum_list (map array_span arrays) < 2 ^ 31"
  shows "\<exists>a. coalesce_bytes_arrays_unchecked arrays dt = Some a \<and> array_with dt (concat (map cells_of arrays)) a
    \<and> array_span a = sum_list (map array_span arrays)"
proof -
  let ?valid = "\<lambda>a. valid_bits (nulls_of a) (array_len a)" and ?vs = "concat (map byte_values arrays)"
  have each: "as_bytes dt a = Some (byte_buffers a)" "bytes_wf (byte_buffers a)" "buffer_values (byte_buffers a) = byte_values a"
      "nulls_wf (nulls_of a) (array_len a)" "length (concat (byte_values a)) = array_span a"
      "cells_of a = map2 (\<lambda>v x. if v then CBytes x else CNull) (?valid a) (byte_values a)"
      "dt \<in> {Utf8, LargeUtf8} \<Longrightarrow> \<forall>x \<in> set (byte_values a). utf8_ok x" if a: "a \<in> set arrays" for a
  proof -
    obtain nb offs data where s: "a = ByteArray dt nb offs data" using byte_array_shape [OF _ _ dt] wf a by blast
    then have bw: "bytes_wf (offs, data)" "nulls_wf nb (length offs - 1)" using wf a by (auto simp: bytes_wf_def)
    show "as_bytes dt a = Some (byte_buffers a)" "bytes_wf (byte_buffers a)" "nulls_wf (nulls_of a) (array_len a)"
      "buffer_values (byte_buffers a) = byte_values a"
      using s bw by (simp_all add: byte_buffers_def buffer_values_def byte_values_def)
    show "length (concat (byte_values a)) = array_span a"
      using buffer_values_span [OF bw(1)] s by (simp add: buffer_values_def byte_values_def byte_buffers_def)
    show "cells_of a = map2 (\<lambda>v x. if v then CBytes x else CNull) (?valid a) (byte_values a)"
      using cells_of_bytes [OF bw(2)] s by simp
    show "\<forall>x \<in> set (byte_values a). utf8_ok x" if "dt \<in> {Utf8, LargeUtf8}"
      using wf a that s by (auto simp: byte_values_def byte_buffers_def)
  qed
  have vals: "concat (map (buffer_values \<circ> byte_buffers) arrays) = ?vs" using each(3) by (simp cong: map_cong)
  have span: "length (concat ?vs) = sum_list (map array_span arrays)"
    using each(5) by (induction arrays) simp_all
  have len: "length ?vs = sum_list (map array_len arrays)" by (simp add: length_concat comp_def)
  let ?a = "ByteArray dt (coalesce_null_buffer arrays) (offsets_of ?vs) (concat ?vs)"
  note off = offsets_of_ok [of ?vs, unfolded span, OF small]
  have nb: "nulls_wf (coalesce_null_buffer arrays) (length ?vs)"
    "valid_bits (coalesce_null_buffer arrays) (length ?vs) = concat (map ?valid arrays)"
    using coalesced_nulls [of arrays] each(4) unfolding len by simp_all
  have bv: "byte_values ?a = ?vs" by (rule nth_equalityI) (simp_all add: byte_values_def byte_buffers_def off(3))
  have utf8: "utf8_ok (bytes_value (offsets_of ?vs) (concat ?vs) i)" if "dt \<in> {Utf8, LargeUtf8}" "i < length ?vs" for i
    using each(7) [OF _ that(1)] off(3) [OF that(2)] nth_mem [OF that(2)] by auto
  have "those (map (as_bytes dt) arrays) = Some (map byte_buffers arrays)" by (rule those_map_Some) (rule each(1))
  moreover have "coalesce_bytes_loop dt (map byte_buffers arrays) 0 [0] [] = Some (offsets_of ?vs, concat ?vs)"
  proof -
    have "offsets_of [] = [0]" by (simp add: offsets_of_def)
    then show ?thesis
      using bytes_loop_ok [of "map byte_buffers arrays" "[]" dt] each(2) small span vals by (simp add: comp_def)
  qed
  moreover have "new_byte_array dt (offsets_of ?vs) (concat ?vs) (coalesce_null_buffer arrays) = Some ?a"
    using off(1) nb(1) utf8 by (auto simp: new_byte_array_def offsets_wf_def nulls_wf_def span list_all_iff split: option.splits)
  moreover have "array_wf ?a" using dt off(1) nb(1) utf8 by (auto simp: span)
  moreover have "cells_of ?a = concat (map cells_of arrays)"
  proof -
    have "cells_of ?a = map2 (\<lambda>v x. if v then CBytes x else CNull) (concat (map ?valid arrays)) ?vs"
      using cells_of_bytes [of "coalesce_null_buffer arrays" "offsets_of ?vs" dt "concat ?vs"] nb bv by simp
    also have "\<dots> = concat (map (\<lambda>a. map2 (\<lambda>v x. if v then CBytes x else CNull) (?valid a) (byte_values a)) arrays)"
      by (rule concat_map2 [symmetric]) (simp add: each(4) length_valid_bits)
    also have "\<dots> = concat (map cells_of arrays)" using each(6) by (metis (mono_tags, lifting) map_cong)
    finally show ?thesis .
  qed
  moreover have "last (offsets_of ?vs) = int (sum_list (map array_span arrays))"
    by (simp add: last_conv_nth nth_offsets_of span flip: length_0_conv)
  then have "array_span ?a = sum_list (map array_span arrays)" using off(2) by simp
  ultimately show ?thesis by (simp add: coalesce_bytes_arrays_unchecked_def array_with_def)
qed

lemma coalesce_arrays_ok:
  assumes ext: "extend_ok (mutable_extend ce) types" and dt: "dt \<in> types" and ne: "arrays \<noteq> []"
    and wf: "\<forall>a \<in> set arrays. array_wf a \<and> data_type_of a = dt" and small: "sum_list (map array_span arrays) < 2 ^ 31"
  shows "\<exists>a. coalesce_arrays_unchecked ce dt arrays = Some a \<and> array_with dt (concat (map cells_of arrays)) a
    \<and> array_span a \<le> sum_list (map array_span arrays)"
proof -
  consider a where "arrays = [a]" | a b rest where "arrays = a # b # rest" using ne by (metis list.exhaust)
  then show ?thesis
  proof cases
    case 1
    with wf show ?thesis by (simp add: coalesce_arrays_unchecked_def array_with_def)
  next
    case 2
    consider "primitive_width dt \<noteq> None" | "primitive_width dt = None" "dt \<in> {Utf8, LargeUtf8, Binary, LargeBinary}" | "\<not> copied_type dt"
      unfolding copied_type_def by blast
    then show ?thesis
    proof cases
      case 1
      with coalesce_primitive_ok [OF 1 wf] 2 show ?thesis by (auto simp: coalesce_arrays_unchecked_def)
    next
      case bytes: 2
      with coalesce_bytes_ok [OF bytes(2) wf small] 2 show ?thesis by (auto simp: coalesce_arrays_unchecked_def)
    next
      case 3
      from ext dt 3 wf small have "\<exists>a. mutable_extend ce arrays = Some a \<and> array_with dt (concat (map cells_of arrays)) a
          \<and> array_span a \<le> sum_list (map array_span arrays)" unfolding extend_ok_def by blast
      with 2 3 show ?thesis by (auto simp: coalesce_arrays_unchecked_def copied_type_def)
    qed
  qed
qed

section \<open>Appending batches\<close>

text \<open>On average the rows of every column are at most \<open>w\<close> elements or bytes wide.\<close>

definition dense :: "nat \<Rightarrow> record_batch \<Rightarrow> bool" where
  "dense w b = (\<forall>c \<in> set (rb_columns b). array_span c \<le> w * rb_num_rows b)"

lemma concat_batch_column:
  assumes "\<forall>b \<in> set bs. batch_of schema b" and "j < length schema"
  shows "concat (map (\<lambda>b. cells_of (rb_columns b ! j)) bs) = map (\<lambda>r. r ! j) (concat (map batch_rows bs))"
proof -
  have "cells_of (rb_columns b ! j) = map (\<lambda>r. r ! j) (batch_rows b)" if "b \<in> set bs" for b
    using assms that batch_ofD(3,5) by (intro nth_equalityI) fastforce+
  then have "map (\<lambda>b. cells_of (rb_columns b ! j)) bs = map (map (\<lambda>r. r ! j)) (map batch_rows bs)" by simp
  then show ?thesis by (simp only: map_concat)
qed

lemma coalesce_batches_ok:
  assumes ce: "coalesce_env_ok ce (set schema)" and ne: "bs \<noteq> []" and bs: "\<forall>b \<in> set bs. batch_of schema b \<and> dense w b"
    and small: "w * sum_list (map rb_num_rows bs) < 2 ^ 31"
  shows "\<exists>b. coalesce_batches_unchecked ce schema bs = Some b \<and> batch_of schema b \<and> dense w b
    \<and> batch_rows b = concat (map batch_rows bs)"
proof -
  consider b where "bs = [b]" | b b' rest where "bs = b # b' # rest" using ne by (metis list.exhaust)
  then show ?thesis
  proof cases
    case 1
    with bs show ?thesis by (simp add: coalesce_batches_unchecked_def)
  next
    case 2
    let ?rs = "concat (map batch_rows bs)" and ?col = "\<lambda>j. map (\<lambda>b. rb_columns b ! j) bs"
    have len: "length ?rs = sum_list (map rb_num_rows bs)" by (simp add: length_concat comp_def)
    have span: "sum_list (map array_span (?col j)) \<le> w * length ?rs" if "j < length schema" for j
      unfolding len using bs that
    proof (induction bs)
      case (Cons b bs)
      then have "rb_columns b ! j \<in> set (rb_columns b)" using batch_ofD(2) [of schema b] by simp
      with Cons have "array_span (rb_columns b ! j) \<le> w * rb_num_rows b" by (simp add: dense_def)
      with Cons show ?case by (simp add: distrib_left)
    qed simp
    have "\<exists>a. coalesce_arrays_unchecked ce (schema ! j) (?col j) = Some a \<and> array_with (schema ! j) (map (\<lambda>r. r ! j) ?rs) a
        \<and> array_span a \<le> w * length ?rs" if j: "j < length schema" for j
    proof -
      have "sum_list (map array_span (?col j)) < 2 ^ 31" using span [OF j] small len by simp
      moreover have "\<forall>a \<in> set (?col j). array_wf a \<and> data_type_of a = schema ! j" using bs j batch_ofD(3) by auto
      moreover have "extend_ok (mutable_extend ce) (set schema)" using ce by (simp add: coalesce_env_ok_def)
      moreover have "concat (map cells_of (?col j)) = map (\<lambda>r. r ! j) ?rs" using concat_batch_column [of bs schema j] bs j by (simp add: comp_def)
      ultimately obtain a where "coalesce_arrays_unchecked ce (schema ! j) (?col j) = Some a"
        "array_with (schema ! j) (map (\<lambda>r. r ! j) ?rs) a" "array_span a \<le> sum_list (map array_span (?col j))"
        using coalesce_arrays_ok [of ce "set schema" "schema ! j" "?col j"] j ne by auto
      with span [OF j] show ?thesis using le_trans by blast
    qed
    then obtain f where f: "\<And>j. j < length schema \<Longrightarrow> coalesce_arrays_unchecked ce (schema ! j) (?col j) = Some (f j)
        \<and> array_with (schema ! j) (map (\<lambda>r. r ! j) ?rs) (f j) \<and> array_span (f j) \<le> w * length ?rs" by metis
    let ?cols = "map f [0..<length schema]" and ?b = "\<lparr>rb_schema = schema, rb_columns = map f [0..<length schema], rb_num_rows = length ?rs\<rparr>"
    have "those (map (\<lambda>b. vget (rb_columns b) j) bs) = Some (?col j)" if "j < length schema" for j
      using bs that batch_ofD(2) by (intro those_map_Some) auto
    then have cols: "those (map (\<lambda>i. do { cols \<leftarrow> those (map (\<lambda>b. vget (rb_columns b) i) bs);
        coalesce_arrays_unchecked ce (schema ! i) cols }) [0..<length schema]) = Some ?cols"
      using f by (intro those_map_Some) auto
    have rows: "\<forall>r \<in> set ?rs. length r = length schema"
    proof
      fix r assume "r \<in> set ?rs"
      then obtain b where b: "b \<in> set bs" "r \<in> set (batch_rows b)" by auto
      with bs show "length r = length schema" using batch_ofD(4) [of schema b] by (metis in_set_conv_nth length_batch_rows)
    qed
    from batch_of_columns [OF _ _ rows, of ?cols] f have new: "batch_of schema ?b" "batch_rows ?b = ?rs" by simp_all
    have "try_new_with_options (ce_kernels ce) schema ?cols (length ?rs) = Some ?b"
      using kernelsD(3) [of "ce_kernels ce" "set schema" ?cols schema "length ?rs"] ce new(1)
      by (simp add: batch_of_def coalesce_env_ok_def)
    with cols have "coalesce_batches_unchecked ce schema bs = Some ?b"
      unfolding coalesce_batches_unchecked_def len [symmetric] using 2 by simp
    moreover have "dense w ?b" using f by (simp add: dense_def)
    ultimately show ?thesis using new by blast
  qed
qed

section \<open>The stream\<close>

definition stream_input_ok :: "data_type list \<Rightarrow> nat \<Rightarrow> nat \<Rightarrow> record_batch \<Rightarrow> bool" where
  "stream_input_ok schema w n b = (batch_of schema b \<and> dense w b \<and> rb_num_rows b \<le> n)"

definition staging_ok :: "coalesce_env \<Rightarrow> data_type list \<Rightarrow> nat \<Rightarrow> coalesce_stream \<Rightarrow> bool" where
  "staging_ok ce schema w s =
     ((\<forall>b \<in> set (staging_batches s). batch_of schema b \<and> dense w b \<and> 0 < rb_num_rows b)
      \<and> staging_rows s = sum_list (map rb_num_rows (staging_batches s))
      \<and> (staging_batches s \<noteq> [] \<longrightarrow> staging_rows s < ce_batch_size ce))"

lemma staging_new: "staging_ok ce schema w new_coalesce_stream"
  by (simp add: staging_ok_def new_coalesce_stream_def)

lemma sum_rows_pos: "\<forall>b \<in> set bs. 0 < rb_num_rows b \<Longrightarrow> bs \<noteq> [] \<Longrightarrow> 0 < sum_list (map rb_num_rows bs)"
  by (cases bs) auto

text \<open>What is left of the input and what is staged come out in order, in batches that are not empty and not too large.\<close>

definition coalesced :: "coalesce_env \<Rightarrow> data_type list \<Rightarrow> nat \<Rightarrow> nat \<Rightarrow> record_batch list \<Rightarrow> record_batch list \<Rightarrow> bool" where
  "coalesced ce schema w n input out =
     (concat (map batch_rows out) = concat (map batch_rows input)
      \<and> (\<forall>b \<in> set out. batch_of schema b \<and> dense w b \<and> 0 < rb_num_rows b \<and> rb_num_rows b \<le> ce_batch_size ce + n)
      \<and> length out \<le> length input)"

lemma coalesced_Cons:
  assumes "coalesced ce schema w n input out" and "batch_rows b = concat (map batch_rows bs)" and "bs \<noteq> []"
    and "batch_of schema b" and "dense w b" and "0 < rb_num_rows b" and "rb_num_rows b \<le> ce_batch_size ce + n"
  shows "coalesced ce schema w n (bs @ input) (b # out)"
proof -
  have "length (b # out) \<le> length (bs @ input)" using assms(1,3) by (cases bs) (simp_all add: coalesced_def)
  with assms show ?thesis unfolding coalesced_def by simp
qed

lemma coalesce_staged:
  assumes ce: "coalesce_env_ok ce (set schema)" and s: "\<forall>b \<in> set bs. batch_of schema b \<and> dense w b \<and> 0 < rb_num_rows b" "bs \<noteq> []"
    and small: "sum_list (map rb_num_rows bs) \<le> ce_batch_size ce + n" "w * (ce_batch_size ce + n) < 2 ^ 31"
  shows "\<exists>b. coalesce_batches_unchecked ce schema bs = Some b
    \<and> (\<forall>input out. coalesced ce schema w n input out \<longrightarrow> coalesced ce schema w n (bs @ input) (b # out))"
proof -
  have "w * sum_list (map rb_num_rows bs) < 2 ^ 31" by (rule le_less_trans [OF mult_le_mono2 [OF small(1)] small(2)])
  from coalesce_batches_ok [OF ce s(2) _ this] s(1) obtain b where
    b: "coalesce_batches_unchecked ce schema bs = Some b" "batch_of schema b" "dense w b" "batch_rows b = concat (map batch_rows bs)" by auto
  have "rb_num_rows b = sum_list (map rb_num_rows bs)"
    using arg_cong [OF b(4), of length] by (simp add: length_concat comp_def)
  with sum_rows_pos [of bs] s small(1) have "0 < rb_num_rows b" "rb_num_rows b \<le> ce_batch_size ce + n" by simp_all
  with b s(2) coalesced_Cons show ?thesis by blast
qed

lemma coalesce_run_ok:
  assumes ce: "coalesce_env_ok ce (set schema)" and w: "w * (ce_batch_size ce + n) < 2 ^ 31"
    and "staging_ok ce schema w s" and "\<forall>b \<in> set input. stream_input_ok schema w n b"
  shows "\<exists>out. coalesce_run ce schema s input = Some out \<and> coalesced ce schema w n (staging_batches s @ input) out"
  using assms(3,4)
proof (induction input arbitrary: s)
  case Nil
  have none: "coalesced ce schema w n [] []" by (simp add: coalesced_def)
  show ?case
  proof (cases "staging_batches s = []")
    case False
    with Nil(1) have "\<forall>b \<in> set (staging_batches s). batch_of schema b \<and> dense w b \<and> 0 < rb_num_rows b"
      "sum_list (map rb_num_rows (staging_batches s)) \<le> ce_batch_size ce + n" by (simp_all add: staging_ok_def)
    from coalesce_staged [OF ce this(1) False this(2) w] none False show ?thesis by fastforce
  qed (simp add: none)
next
  case (Cons batch input)
  note inp = Cons.prems(2) [simplified]
  have b: "batch_of schema batch" "dense w batch" "rb_num_rows batch \<le> n" using inp by (simp_all add: stream_input_ok_def)
  consider (empty) "rb_num_rows batch = 0"
    | (alone) "0 < rb_num_rows batch" "staging_batches s = []"
        "rb_num_rows batch > ce_batch_size ce div 4 \<or> ce_mem_size ce batch \<ge> ce_suggested_mem_size ce div 4"
    | (staged) "0 < rb_num_rows batch" "\<not> (staging_batches s = [] \<and> rb_num_rows batch > ce_batch_size ce div 4)"
        "\<not> (staging_batches s = [] \<and> ce_mem_size ce batch \<ge> ce_suggested_mem_size ce div 4)"
    by fastforce
  then show ?case
  proof cases
    case empty
    from Cons.IH [OF Cons.prems(1)] inp obtain out where
      "coalesce_run ce schema s input = Some out" "coalesced ce schema w n (staging_batches s @ input) out" by blast
    with empty show ?thesis by (auto simp: coalesced_def batch_rows_def)
  next
    case alone
    from Cons.IH [OF Cons.prems(1)] inp alone(2) obtain out where
      "coalesce_run ce schema s input = Some out" "coalesced ce schema w n input out" by auto
    with coalesced_Cons [of ce schema w n input out batch "[batch]"] b alone show ?thesis by auto
  next
    case staged
    let ?s = "\<lparr>staging_batches = staging_batches s @ [batch], staging_rows = staging_rows s + rb_num_rows batch,
      staging_batches_mem_size = staging_batches_mem_size s + ce_mem_size ce batch\<rparr>"
    have all: "\<forall>b \<in> set (staging_batches ?s). batch_of schema b \<and> dense w b \<and> 0 < rb_num_rows b"
      "sum_list (map rb_num_rows (staging_batches ?s)) = staging_rows ?s" "staging_rows ?s \<le> ce_batch_size ce + n"
      using Cons.prems(1) b staged(1) by (cases "staging_batches s = []"; auto simp: staging_ok_def)+
    show ?thesis
    proof (cases "should_flush ce ?s")
      case True
      from coalesce_staged [OF ce all(1) _ _ w] all(2,3) obtain c where
        c: "coalesce_batches_unchecked ce schema (staging_batches ?s) = Some c"
          "\<And>input out. coalesced ce schema w n input out \<Longrightarrow> coalesced ce schema w n (staging_batches ?s @ input) (c # out)" by auto
      from Cons.IH [OF staging_new] inp obtain out where
        out: "coalesce_run ce schema new_coalesce_stream input = Some out" "coalesced ce schema w n input out"
        by (auto simp: new_coalesce_stream_def)
      have "coalesce_run ce schema s (batch # input) = Some (c # out)"
        using staged True c(1) out(1) by (auto simp: Let_def)
      with c(2) [OF out(2)] show ?thesis by simp
    next
      case False
      then have "staging_ok ce schema w ?s" using all(1,2) by (simp add: staging_ok_def should_flush_def)
      from Cons.IH [OF this] inp obtain out where
        out: "coalesce_run ce schema ?s input = Some out" "coalesced ce schema w n (staging_batches ?s @ input) out" by blast
      have "coalesce_run ce schema s (batch # input) = Some out" using staged False out(1) by (auto simp: Let_def)
      with out(2) show ?thesis by simp
    qed
  qed
qed

lemma coalesce_stream_ok:
  assumes "coalesce_env_ok ce (set schema)" and "w * (ce_batch_size ce + n) < 2 ^ 31" and "\<forall>b \<in> set input. stream_input_ok schema w n b"
  shows "\<exists>out. coalesce_with_default_batch_size ce schema input = Some out \<and> coalesced ce schema w n input out"
  using coalesce_run_ok [OF assms(1,2) staging_new assms(3)]
  by (simp add: coalesce_with_default_batch_size_def new_coalesce_stream_def)

section \<open>A coalescer for concrete runs\<close>

definition coalesce_ref :: coalesce_env where
  "coalesce_ref = \<lparr>ce_kernels = kernels_ref, mutable_extend = (\<lambda>arrays. Some (NullArray (sum_list (map array_len arrays)))),
     ce_new_empty_array = (\<lambda>dt. NullArray 0), ce_new_empty = (\<lambda>schema. \<lparr>rb_schema = schema, rb_columns = [], rb_num_rows = 0\<rparr>),
     ce_mem_size = (\<lambda>b. 100), ce_batch_size = 10, ce_suggested_mem_size = 1000\<rparr>"

lemma null_cells: "array_wf a \<Longrightarrow> data_type_of a = Null \<Longrightarrow> cells_of a = replicate (array_len a) CNull"
  by (rule nth_equalityI; cases a) auto

lemma coalesce_ref_ok: "coalesce_env_ok coalesce_ref {dt. gather_type dt \<or> dt = Null}"
proof -
  have "array_with Null (concat (map cells_of arrays)) (NullArray (sum_list (map array_len arrays)))"
    if "\<forall>a \<in> set arrays. array_wf a \<and> data_type_of a = Null" for arrays
  proof -
    have "map cells_of arrays = map (\<lambda>a. replicate (array_len a) CNull) arrays" using that null_cells by simp
    then have "concat (map cells_of arrays) = replicate (sum_list (map array_len arrays)) CNull" by (simp only: concat_replicate_sum)
    then show ?thesis by (simp add: array_with_def null_cells)
  qed
  moreover have "dt = Null" if "gather_type dt \<or> dt = Null" "\<not> copied_type dt" for dt
    using that by (auto simp: gather_type_def copied_type_def)
  ultimately have "extend_ok (mutable_extend coalesce_ref) {dt. gather_type dt \<or> dt = Null}"
    unfolding extend_ok_def coalesce_ref_def by auto
  then show ?thesis using kernels_ref_ok by (simp add: coalesce_env_ok_def coalesce_ref_def)
qed

lemma coalesce_env_ok_mono: "coalesce_env_ok ce types \<Longrightarrow> types' \<subseteq> types \<Longrightarrow> coalesce_env_ok ce types'"
  unfolding coalesce_env_ok_def extend_ok_def using kernels_ok_mono by blast

section \<open>Properties\<close>



end
