(* ===== verification/Ascending_Sort.thy ===== *)
theory Ascending_Sort
  imports Sort_Exec Coalesce
begin

text \<open>
  The sort operator as a stream of batches (\<open>execute_projected_without_key_rows\<close> of
  \<open>datafusion-ext-plans/src/sort_exec.rs\<close>), with the coalescing of its input and of its output, and
  \<open>create_default_ascending_sort_exec\<close>, which the shuffle writers put before a round-robin
  partitioning: a sort by all columns.
\<close>

section \<open>Model\<close>

text \<open>\<open>spill_now\<close> says after which insertions the memory manager asks for a spill.\<close>

definition execute_projected_without_key_rows ::
  "coalesce_env \<Rightarrow> externals \<Rightarrow> sort_runtime \<Rightarrow> converter_maker \<Rightarrow> data_type list \<Rightarrow> sort_expr list \<Rightarrow> nat option \<Rightarrow> nat
   \<Rightarrow> nat list \<Rightarrow> (nat \<Rightarrow> bool) \<Rightarrow> record_batch list \<Rightarrow> record_batch list option" where
  "execute_projected_without_key_rows ce ext rt new_converter schema exprs limit offset projection spill_now input =
     do { p \<leftarrow> prune_try_new new_converter schema projection exprs;
          coalesced \<leftarrow> coalesce_with_default_batch_size ce schema input;
          output \<leftarrow> execute_sort (init_sorter (ce_kernels ce) ext rt limit offset p)
            (map (\<lambda>(i, batch). (batch, spill_now i)) (enumerate 0 coalesced));
          coalesce_with_default_batch_size ce schema (map fst output) }"

definition default_ascending_exprs :: "nat list \<Rightarrow> sort_expr list" where
  "default_ascending_exprs columns = map (\<lambda>c. \<lparr>se_expr = Column c, se_descending = False, se_nulls_first = True\<rparr>) columns"

text \<open>The operator made by \<open>create_default_ascending_sort_exec\<close> on the given columns, executed.\<close>

definition default_ascending_sort ::
  "coalesce_env \<Rightarrow> externals \<Rightarrow> sort_runtime \<Rightarrow> converter_maker \<Rightarrow> data_type list \<Rightarrow> nat list
   \<Rightarrow> (nat \<Rightarrow> bool) \<Rightarrow> record_batch list \<Rightarrow> record_batch list option" where
  "default_ascending_sort ce ext rt new_converter schema columns spill_now input =
     execute_projected_without_key_rows ce ext rt new_converter schema (default_ascending_exprs columns) None 0
       [0..<length schema] spill_now input"

section \<open>A sort by all columns\<close>

abbreviation all_columns :: "data_type list \<Rightarrow> sort_expr list" where
  "all_columns schema \<equiv> default_ascending_exprs [0..<length schema]"

lemma length_all_columns [simp]: "length (all_columns schema) = length schema"
  by (simp add: default_ascending_exprs_def)

lemma all_columns_types: "map (\<lambda>e. expr_data_type schema (se_expr e)) (all_columns schema) = map Some schema"
  by (rule nth_equalityI) (simp_all add: default_ascending_exprs_def)

lemma all_columns_evaluate:
  assumes "batch_of schema b"
  shows "those (map (\<lambda>e. evaluate (se_expr e) b) (all_columns schema)) = Some (rb_columns b)"
proof -
  have "map (\<lambda>e. evaluate (se_expr e) b) (all_columns schema) = map Some (rb_columns b)"
    by (rule nth_equalityI) (use batch_ofD(2) [OF assms] in \<open>simp_all add: default_ascending_exprs_def\<close>)
  then show ?thesis by (simp add: those_Some_iff)
qed

lemma keyed_all_columns:
  assumes "batch_of schema b"
  shows "keyed_rows (all_columns schema) b = map (\<lambda>r. (r, r)) (batch_rows b)"
  using all_columns_evaluate [OF assms] by (simp add: keyed_rows_def batch_rows_of [symmetric] zip_same_conv_map)

definition ascending_input_ok :: "data_type list \<Rightarrow> (cell_value list \<Rightarrow> bytes) \<Rightarrow> nat \<Rightarrow> record_batch \<Rightarrow> bool" where
  "ascending_input_ok schema enc bound b =
     (batch_of schema b \<and> rb_num_rows b \<le> bound \<and> (\<forall>r \<in> set (batch_rows b). light_row bound r \<and> key_fits (enc r)))"

lemma ascending_sort_input:
  assumes "ascending_input_ok schema enc bound b"
  shows "sort_input_ok schema (all_columns schema) enc bound b"
proof -
  have b: "batch_of schema b" using assms by (simp add: ascending_input_ok_def)
  have "\<exists>a. evaluate (se_expr e) b = Some a \<and> array_wf a \<and> expr_data_type schema (se_expr e) = Some (data_type_of a)
      \<and> array_len a = rb_num_rows b" if "e \<in> set (all_columns schema)" for e
  proof -
    from that obtain j where "j < length schema" "se_expr e = Column j" by (auto simp: default_ascending_exprs_def)
    then show ?thesis using batch_ofD(2) [OF b] batch_ofD(3) [OF b, of j] by simp
  qed
  with assms b show ?thesis by (auto simp: sort_input_ok_def ascending_input_ok_def keyed_all_columns)
qed

text \<open>Every column of the output is decoded from the keys.\<close>

definition compact_converter :: "row_converter \<Rightarrow> bool" where
  "compact_converter conv = (\<forall>ks cols. convert_rows conv ks = Some cols \<longrightarrow>
     (\<forall>c \<in> set cols. array_span c \<le> sum_list (map cell_weight (cells_of c))))"

lemma all_columns_relation: "set (key_relation (all_columns schema)) = {(i, i) |i. i < length schema}"
proof -
  have "(i, c) \<in> set (key_relation (all_columns schema)) \<longleftrightarrow> i < length schema \<and> c = i" for i c
    by (auto simp: key_relation_iff default_ascending_exprs_def)
  then show ?thesis by auto
qed

lemma all_columns_mapper:
  assumes "j < length schema"
  shows "mapper_of (key_relation (all_columns schema)) j = FromKey j"
proof -
  let ?rel = "key_relation (all_columns schema)"
  have "(j, j) \<in> set ?rel" using assms by (simp add: all_columns_relation)
  then have "find (\<lambda>kv. snd kv = j) ?rel \<noteq> None" by (simp add: find_None_iff) (metis snd_conv)
  then obtain kv where kv: "find (\<lambda>kv. snd kv = j) ?rel = Some kv" by blast
  then have "kv \<in> set ?rel" "snd kv = j" by (auto simp: find_Some_iff)
  then have "kv = (j, j)" by (auto simp: all_columns_relation)
  with kv show ?thesis by (simp add: mapper_of_def)
qed

lemma light_cells_weight:
  assumes "\<forall>c \<in> set cs. cell_weight c \<le> w"
  shows "sum_list (map cell_weight cs) \<le> w * length cs"
  using assms by (induction cs) auto

text \<open>The values of a row are at most \<open>w\<close> elements or bytes long.\<close>

definition slim_row :: "nat \<Rightarrow> cell_value list \<Rightarrow> bool" where
  "slim_row w r = (\<forall>c \<in> set r. cell_weight c \<le> w)"

lemma slim_light: "slim_row w r \<Longrightarrow> w * bound < 2 ^ 31 \<Longrightarrow> light_row bound r"
  unfolding slim_row_def light_row_def by (meson le_less_trans mult_le_mono1)

lemma decoded_dense:
  assumes new: "prune_try_new new_converter schema [0..<length schema] (all_columns schema) = Some p"
    and compact: "compact_converter (sort_row_converter p)"
    and b: "keys_decoded p b" "batch_of schema b" and slim: "\<forall>r \<in> set (batch_rows b). slim_row w r"
  shows "dense w b"
proof -
  have "map (vget schema) [0..<length schema] = map Some schema" by (rule nth_equalityI) simp_all
  then have sch: "those (map (vget schema) [0..<length schema]) = Some schema" by (simp only: those_Some_iff)
  from new sch have "restored_col_mappers p = col_mappers (key_relation (all_columns schema)) [0..<length schema] 0"
    by (auto simp: prune_try_new_def Let_def split: Option.bind_splits)
  then have mappers: "restored_col_mappers p = map FromKey [0..<length schema]"
    using col_mappers_closed [of 0 "length schema" 0 "key_relation (all_columns schema)"] all_columns_mapper by (simp cong: map_cong)
  from b(1) obtain ks cols where
    cols: "convert_rows (sort_row_converter p) ks = Some cols" "\<And>j. j < length schema \<Longrightarrow> j < length cols \<and> rb_columns b ! j = cols ! j"
    unfolding keys_decoded_def mappers by auto
  have "array_span (rb_columns b ! j) \<le> w * rb_num_rows b" if j: "j < length schema" for j
  proof -
    let ?c = "rb_columns b ! j"
    have "?c \<in> set cols" using cols(2) [OF j] nth_mem [of j cols] by metis
    then have "array_span ?c \<le> sum_list (map cell_weight (cells_of ?c))"
      using compact cols(1) unfolding compact_converter_def by blast
    also have "\<dots> \<le> w * length (cells_of ?c)"
    proof (rule light_cells_weight, rule ballI)
      fix x assume "x \<in> set (cells_of ?c)"
      then obtain i where i: "i < rb_num_rows b" "x = cell ?c i"
        using batch_ofD(3) [OF b(2) j] by (auto simp: cells_of_def)
      then have "x = batch_rows b ! i ! j" using batch_ofD(5) [OF b(2) i(1) j] by simp
      moreover have "batch_rows b ! i \<in> set (batch_rows b)" using i(1) by simp
      moreover have "j < length (batch_rows b ! i)" using batch_ofD(4) [OF b(2) i(1)] j by simp
      ultimately show "cell_weight x \<le> w" using slim by (auto simp: slim_row_def)
    qed
    finally show ?thesis using batch_ofD(3) [OF b(2) j] by simp
  qed
  then show ?thesis using batch_ofD(2) [OF b(2)] by (auto simp: dense_def in_set_conv_nth)
qed

locale ascending_sort =
  fixes ce :: coalesce_env and ext :: externals and rt :: sort_runtime and new_converter :: converter_maker
    and schema :: "data_type list" and p :: prune_sort_keys
    and enc :: "cell_value list \<Rightarrow> bytes" and row_le :: "cell_value list \<Rightarrow> cell_value list \<Rightarrow> bool" and w :: nat and n :: nat
  assumes coalescing: "coalesce_env_ok ce (set schema)" and externals: "externals_ok ext"
    and runtime: "runtime_ok rt (ce_batch_size ce + n)"
    and serde_types: "\<forall>t \<in> set schema. serde_type t"
    and new: "prune_try_new new_converter schema [0..<length schema] (all_columns schema) = Some p"
    and row_format: "row_format_ok (sort_row_converter p) schema enc row_le"
    and compact: "compact_converter (sort_row_converter p)"
    and width: "w * (2 * ce_batch_size ce + n) < 2 ^ 31"
begin

definition input_batch_ok :: "record_batch \<Rightarrow> bool" where
  "input_batch_ok b = (stream_input_ok schema w n b \<and> (\<forall>r \<in> set (batch_rows b). slim_row w r \<and> key_fits (enc r)))"

lemma widths: "w * (ce_batch_size ce + n) < 2 ^ 31" "w * (ce_batch_size ce + (ce_batch_size ce + n)) < 2 ^ 31"
proof -
  show "w * (ce_batch_size ce + (ce_batch_size ce + n)) < 2 ^ 31" using width by (simp add: mult_2 add.assoc)
  have "w * (ce_batch_size ce + n) \<le> w * (2 * ce_batch_size ce + n)" by (rule mult_le_mono2) simp
  then show "w * (ce_batch_size ce + n) < 2 ^ 31" using width by linarith
qed

end

sublocale ascending_sort \<subseteq> sorter: sort_exec_setup "ce_kernels ce" ext rt new_converter schema "all_columns schema" None 0
  "[0..<length schema]" p schema enc row_le "ce_batch_size ce + n"
proof unfold_locales
  show "kernels_ok (ce_kernels ce) (set schema)" using coalescing by (simp add: coalesce_env_ok_def)
  show "\<forall>(i, c) \<in> set (key_relation (all_columns schema)). c < length [0..<length schema] \<longrightarrow> [0..<length schema] ! c = c" by auto
qed (use externals runtime serde_types new row_format in \<open>simp_all add: all_columns_types\<close>)

context ascending_sort
begin

lemma sort_batches:
  assumes inp: "\<forall>b \<in> set input. ascending_input_ok schema enc (ce_batch_size ce + n) b"
    and total: "sum_list (map rb_num_rows input) < usize_max"
  shows "\<exists>sent. execute_sort (init_sorter (ce_kernels ce) ext rt None 0 p) (map (\<lambda>(i, b). (b, spill_now i)) (enumerate 0 input)) = Some sent
    \<and> mset (concat (map (batch_rows \<circ> fst) sent)) = mset (concat (map batch_rows input))
    \<and> sorted_wrt row_le (concat (map (batch_rows \<circ> fst) sent))
    \<and> (\<forall>s \<in> set sent. batch_of schema (fst s) \<and> 0 < rb_num_rows (fst s) \<and> rb_num_rows (fst s) \<le> ce_batch_size ce + n
         \<and> keys_decoded p (fst s))"
proof -
  let ?input = "map (\<lambda>(i, b). (b, spill_now i)) (enumerate 0 input)" and ?ps = "[0..<length schema]"
  have fst_input: "map fst ?input = input" by (simp add: comp_def case_prod_beta)
  have "\<forall>(b, sp) \<in> set ?input. sort_input_ok schema (all_columns schema) enc (ce_batch_size ce + n) b"
    using inp ascending_sort_input by (auto simp: in_set_enumerate_eq)
  moreover have "(\<lambda>(b, sp :: bool). rb_num_rows b) = rb_num_rows \<circ> fst" by (auto simp: fun_eq_iff)
  then have "sum_list (map (\<lambda>(b, sp). rb_num_rows b) ?input) < usize_max" using total fst_input by (metis map_map)
  ultimately obtain sent full where
    s: "execute_projected_with_key_rows (ce_kernels ce) ext rt new_converter schema (all_columns schema) None 0 ?ps ?input = Some sent"
      "mset full = mset (concat (map (keyed_rows (all_columns schema) \<circ> fst) ?input))" "sorted_wrt (\<lambda>x y. row_le (fst x) (fst y)) full"
      "concat (map (batch_rows \<circ> fst) sent) = map (\<lambda>x. map ((!) (snd x)) ?ps) (drop 0 (take usize_max full))"
      "\<forall>s \<in> set sent. batch_of (map ((!) schema) ?ps) (fst s) \<and> 0 < rb_num_rows (fst s) \<and> rb_num_rows (fst s) \<le> ce_batch_size ce + n
         \<and> keys_decoded p (fst s)"
    using sorter.sort_exec_sorted_batches [of ?input] by auto
  have "map (keyed_rows (all_columns schema) \<circ> fst) ?input = map (keyed_rows (all_columns schema)) input"
    using fst_input by (metis map_map)
  also have "\<dots> = map (map (\<lambda>r. (r, r))) (map batch_rows input)"
    using inp keyed_all_columns by (auto simp: ascending_input_ok_def)
  finally have rows: "mset full = mset (map (\<lambda>r. (r, r)) (concat (map batch_rows input)))" using s(2) by (simp add: map_concat)
  from mset_map_preimage [OF this] obtain rs where rs: "mset rs = mset (concat (map batch_rows input))" "full = map (\<lambda>r. (r, r)) rs" by blast
  have len: "length rs < usize_max"
    using arg_cong [OF rs(1), of size] total by (simp add: length_concat comp_def)
  have "length r = length schema" if "r \<in> set rs" for r
  proof -
    have "r \<in> set (concat (map batch_rows input))" using that mset_eq_setD [OF rs(1)] by blast
    then obtain b where "b \<in> set input" "r \<in> set (batch_rows b)" by auto
    with inp show ?thesis using batch_ofD(4) [of schema b] unfolding ascending_input_ok_def by (metis in_set_conv_nth length_batch_rows)
  qed
  then have "map ((!) r) ?ps = r" if "r \<in> set rs" for r using that by (metis map_nth)
  then have out: "concat (map (batch_rows \<circ> fst) sent) = rs" using s(4) rs(2) len by (simp add: comp_def map_idI)
  have "sorted_wrt row_le rs" using s(3) rs(2) by (simp add: sorted_wrt_map)
  then show ?thesis
    using s(1,5) rs(1) out new unfolding execute_projected_with_key_rows_def by (simp add: map_nth)
qed

lemma ascending_sort_ok:
  assumes inp: "\<forall>b \<in> set input. input_batch_ok b" and total: "sum_list (map rb_num_rows input) < usize_max"
  shows "\<exists>out. default_ascending_sort ce ext rt new_converter schema [0..<length schema] spill_now input = Some out
    \<and> mset (concat (map batch_rows out)) = mset (concat (map batch_rows input)) \<and> sorted_wrt row_le (concat (map batch_rows out))
    \<and> (\<forall>b \<in> set out. stream_input_ok schema w (2 * ce_batch_size ce + n) b \<and> 0 < rb_num_rows b)"
proof -
  have "\<forall>b \<in> set input. stream_input_ok schema w n b" using inp by (simp add: input_batch_ok_def)
  from coalesce_stream_ok [OF coalescing widths(1) this] obtain bs where
    bs: "coalesce_with_default_batch_size ce schema input = Some bs" "coalesced ce schema w n input bs" by blast
  have rows: "concat (map batch_rows bs) = concat (map batch_rows input)" using bs(2) by (simp add: coalesced_def)
  have row: "slim_row w r \<and> key_fits (enc r)" if "r \<in> set (concat (map batch_rows input))" for r
    using that inp by (auto simp: input_batch_ok_def)
  have "ascending_input_ok schema enc (ce_batch_size ce + n) b" if b: "b \<in> set bs" for b
  proof -
    have "r \<in> set (concat (map batch_rows bs))" if "r \<in> set (batch_rows b)" for r using b that by auto
    then have "\<forall>r \<in> set (batch_rows b). slim_row w r \<and> key_fits (enc r)" using row rows by simp
    moreover have "batch_of schema b \<and> rb_num_rows b \<le> ce_batch_size ce + n" using b bs(2) by (simp add: coalesced_def)
    ultimately show ?thesis using slim_light [OF _ widths(1)] by (simp add: ascending_input_ok_def)
  qed
  moreover have "sum_list (map rb_num_rows bs) < usize_max"
    using arg_cong [OF rows, of length] total by (simp add: length_concat comp_def)
  ultimately obtain sent where
    s: "execute_sort (init_sorter (ce_kernels ce) ext rt None 0 p) (map (\<lambda>(i, b). (b, spill_now i)) (enumerate 0 bs)) = Some sent"
      "mset (concat (map (batch_rows \<circ> fst) sent)) = mset (concat (map batch_rows input))"
      "sorted_wrt row_le (concat (map (batch_rows \<circ> fst) sent))"
      "\<forall>s \<in> set sent. batch_of schema (fst s) \<and> 0 < rb_num_rows (fst s) \<and> rb_num_rows (fst s) \<le> ce_batch_size ce + n
         \<and> keys_decoded p (fst s)"
    using sort_batches [of bs spill_now] unfolding rows by blast
  have "stream_input_ok schema w (ce_batch_size ce + n) b" if b: "b \<in> set (map fst sent)" for b
  proof -
    have ok: "batch_of schema b" "rb_num_rows b \<le> ce_batch_size ce + n" "keys_decoded p b" using b s(4) by auto
    have "slim_row w r" if "r \<in> set (batch_rows b)" for r
    proof -
      have "r \<in> set (concat (map (batch_rows \<circ> fst) sent))" using b that by auto
      then show ?thesis using row mset_eq_setD [OF s(2)] by blast
    qed
    with decoded_dense [OF new compact ok(3,1)] ok show ?thesis by (simp add: stream_input_ok_def)
  qed
  then have "\<forall>b \<in> set (map fst sent). stream_input_ok schema w (ce_batch_size ce + n) b" by blast
  from coalesce_stream_ok [OF coalescing widths(2) this] obtain out where
    out: "coalesce_with_default_batch_size ce schema (map fst sent) = Some out" "coalesced ce schema w (ce_batch_size ce + n) (map fst sent) out"
    by blast
  have "default_ascending_sort ce ext rt new_converter schema [0..<length schema] spill_now input = Some out"
    using bs(1) s(1) out(1) new by (simp add: default_ascending_sort_def execute_projected_without_key_rows_def)
  moreover have "concat (map batch_rows out) = concat (map (batch_rows \<circ> fst) sent)" using out(2) by (simp add: coalesced_def)
  ultimately show ?thesis using s(2,3) out(2) by (auto simp: coalesced_def stream_input_ok_def)
qed

end

section \<open>The sort of one column of bytes\<close>

lemma u8_compact: "compact_converter u8_converter"
  by (simp add: compact_converter_def u8_converter_def)

lemma all_columns_u8: "all_columns [UInt8] = [first_column]"
  by (simp add: default_ascending_exprs_def first_column_def)

lemma u8_all_columns: "prune_try_new (\<lambda>_. Some u8_converter) [UInt8] [0] (all_columns [UInt8]) = Some keys_only"
  unfolding all_columns_u8 by (simp add: prune_try_new_def first_column_def key_relation_def Let_def keys_only_def)

interpretation bytes_sort: ascending_sort coalesce_ref externals_ref runtime_ref "\<lambda>_. Some u8_converter" "[UInt8]" keys_only
  u8_encode u8_row_le 1 20
proof unfold_locales
  show "coalesce_env_ok coalesce_ref (set [UInt8])"
    by (rule coalesce_env_ok_mono [OF coalesce_ref_ok]) (simp add: gather_type_def)
  show "prune_try_new (\<lambda>_. Some u8_converter) [UInt8] [0..<length [UInt8]] (all_columns [UInt8]) = Some keys_only"
    using u8_all_columns by simp
  show "runtime_ok runtime_ref (ce_batch_size coalesce_ref + 20)" by (simp add: runtime_ok_def runtime_ref_def coalesce_ref_def)
  show "row_format_ok (sort_row_converter keys_only) [UInt8] u8_encode u8_row_le" using u8_format by (simp add: keys_only_def)
  show "compact_converter (sort_row_converter keys_only)" using u8_compact by (simp add: keys_only_def)
qed (simp_all add: externals_ref_ok serde_prim_def coalesce_ref_def)

end
