(* ===== verification/Shuffle_Writer.thy ===== *)
theory Shuffle_Writer
  imports Buffered_Write Ascending_Sort
begin

text \<open>
  The shuffle writers (\<open>datafusion-ext-plans/src/shuffle/\<close>): \<open>SortShuffleRepartitioner\<close> buffers and
  spills, and finally merges the spills partition by partition into the data file;
  \<open>SingleShuffleRepartitioner\<close> writes the only partition directly; the two remote variants push
  to a remote shuffle service.  The locale \<open>repartitioner\<close> is the trait \<open>ShuffleRepartitioner\<close>.

  A spill is the byte string written to it.  When the memory manager asks for a spill is a
  parameter of every insertion (\<open>spill_choice\<close>).  The input is coalesced before it is inserted, and
  sorted by all columns before a round-robin partitioning.
\<close>

section \<open>Model\<close>

record spill_choice =
  spill_before :: bool
  spill_after :: bool
  spill_forced :: bool

subsection \<open>\<open>SortShuffleRepartitioner\<close>\<close>

record sort_repartitioner =
  rp_data :: buffered_data
  rp_spills :: "bytes offsetted list"
  num_output_partitions :: nat

definition new_sort_repartitioner :: "partitioning \<Rightarrow> nat \<Rightarrow> sort_repartitioner" where
  "new_sort_repartitioner P partition_id =
     \<lparr>rp_data = new_buffered_data P partition_id, rp_spills = [], num_output_partitions = partition_count P\<rparr>"

definition rp_spill :: "shuffle_env \<Rightarrow> sort_repartitioner \<Rightarrow> sort_repartitioner option" where
  "rp_spill env s =
     do { let (data, left) = drain (rp_data s);
          (written, offs) \<leftarrow> bd_write env data;
          Some (s\<lparr>rp_data := left, rp_spills := rp_spills s @ [\<lparr>offsets = offs, odata = written\<rparr>]\<rparr>) }"

definition spill_if :: "bool \<Rightarrow> ('s \<Rightarrow> 's option) \<Rightarrow> 's \<Rightarrow> 's option" where
  "spill_if cond do_spill s = (if cond then do_spill s else Some s)"

definition sort_insert_batch :: "shuffle_env \<Rightarrow> spill_choice \<Rightarrow> record_batch \<Rightarrow> sort_repartitioner \<Rightarrow> sort_repartitioner option" where
  "sort_insert_batch env choice input s =
     do { s \<leftarrow> spill_if (spill_before choice) (rp_spill env) s;
          data \<leftarrow> add_batch env input (rp_data s);
          s \<leftarrow> spill_if (spill_after choice) (rp_spill env) (s\<lparr>rp_data := data\<rparr>);
          spill_if (spill_forced choice) (rp_spill env) s }"

text \<open>
  The loop that appends the partitions of the spills to the data file.  The readers of the spills
  are read from front to back; there is no seek to the offset of a partition.
\<close>

partial_function (option) append_spills ::
  "nat merge_iter \<Rightarrow> bytes list \<Rightarrow> bytes \<Rightarrow> (bytes \<times> nat merge_iter) option" where
  "append_spills it readers output_data =
     do { (r, it') \<leftarrow> merge_next it;
          (case r of
             None \<Rightarrow> Some (output_data, it')
           | Some (pid, k, (s, e)) \<Rightarrow>
               do { reader \<leftarrow> vget readers k;
                    append_spills it' (readers[k := drop (e - s) reader]) (output_data @ take (e - s) reader) }) }"

definition index_bytes :: "nat list \<Rightarrow> bytes" where
  "index_bytes offs = concat (map (\<lambda>offset. le_bytes 8 (of_nat offset :: u64)) offs)"

text \<open>\<open>shuffle_write\<close>: the data file and the index file.\<close>

definition sort_shuffle_write :: "shuffle_env \<Rightarrow> sort_repartitioner \<Rightarrow> (bytes \<times> bytes) option" where
  "sort_shuffle_write env s =
     do { let (data, left) = drain (rp_data s);
          if rp_spills s = []
          then do { (output_data, offs) \<leftarrow> bd_write env data;
                    Some (output_data, index_bytes offs) }
          else do { spills \<leftarrow> (if \<not> bd_is_empty data
                               then do { (written, offs) \<leftarrow> bd_write env data;
                                         Some (rp_spills s @ [\<lparr>offsets = offs, odata = written\<rparr>]) }
                               else Some (rp_spills s));
                    merge_iter \<leftarrow> new_merge_iter (num_output_partitions s)
                      (map (\<lambda>(k, spill). \<lparr>offsets = offsets spill, odata = k\<rparr>) (enumerate 0 spills));
                    (output_data, merge_iter) \<leftarrow> append_spills merge_iter (map odata spills) [];
                    Some (output_data, index_bytes (merged_offsets merge_iter)) } }"

subsection \<open>\<open>SingleShuffleRepartitioner\<close>\<close>

definition single_insert_batch :: "shuffle_env \<Rightarrow> record_batch \<Rightarrow> ipc_writer option \<Rightarrow> ipc_writer option option" where
  "single_insert_batch env input output_data =
     do { let output_writer = (case output_data of None \<Rightarrow> ipc_new [] | Some w \<Rightarrow> w);
          w' \<leftarrow> bd_write_batch env input output_writer;
          Some (Some w') }"

definition single_shuffle_write :: "shuffle_env \<Rightarrow> ipc_writer option \<Rightarrow> (bytes \<times> bytes) option" where
  "single_shuffle_write env output_data =
     (case output_data of
        Some w \<Rightarrow> do { w' \<leftarrow> ok_of (finish_current_buf (sh_codec env) w);
                       Some (ipc_output w', replicate 8 0 @ le_bytes 8 (of_nat (length (ipc_output w')) :: u64)) }
      | None \<Rightarrow> Some ([], replicate 16 0))"

subsection \<open>\<open>RssSortShuffleRepartitioner\<close> and \<open>RssSingleShuffleRepartitioner\<close>\<close>

record rss_repartitioner =
  rss_data :: buffered_data
  rss_pushed :: "(nat \<times> bytes) list"

definition new_rss_repartitioner :: "partitioning \<Rightarrow> nat \<Rightarrow> rss_repartitioner" where
  "new_rss_repartitioner P partition_id = \<lparr>rss_data = new_buffered_data P partition_id, rss_pushed = []\<rparr>"

definition rss_spill :: "shuffle_env \<Rightarrow> rss_repartitioner \<Rightarrow> rss_repartitioner option" where
  "rss_spill env s =
     do { let (data, left) = drain (rss_data s);
          pushed \<leftarrow> bd_write_rss env data;
          Some (s\<lparr>rss_data := left, rss_pushed := rss_pushed s @ pushed\<rparr>) }"

definition rss_insert_batch :: "shuffle_env \<Rightarrow> spill_choice \<Rightarrow> record_batch \<Rightarrow> rss_repartitioner \<Rightarrow> rss_repartitioner option" where
  "rss_insert_batch env choice input s =
     do { s \<leftarrow> spill_if (spill_before choice) (rss_spill env) s;
          data \<leftarrow> add_batch env input (rss_data s);
          s \<leftarrow> spill_if (spill_after choice) (rss_spill env) (s\<lparr>rss_data := data\<rparr>);
          spill_if (spill_forced choice) (rss_spill env) s }"

definition rss_shuffle_write :: "shuffle_env \<Rightarrow> rss_repartitioner \<Rightarrow> (nat \<times> bytes) list option" where
  "rss_shuffle_write env s = map_option rss_pushed (rss_spill env s)"

definition rss_single_insert_batch :: "shuffle_env \<Rightarrow> record_batch \<Rightarrow> ipc_writer \<Rightarrow> ipc_writer option" where
  "rss_single_insert_batch env input w = bd_write_batch env input w"

definition rss_single_shuffle_write :: "shuffle_env \<Rightarrow> ipc_writer \<Rightarrow> bytes option" where
  "rss_single_shuffle_write env w = map_option ipc_output (ok_of (finish_current_buf (sh_codec env) w))"

subsection \<open>\<open>ShuffleRepartitioner::execute\<close>\<close>

fun insert_all :: "('c \<Rightarrow> record_batch \<Rightarrow> 's \<Rightarrow> 's option) \<Rightarrow> ('c \<times> record_batch) list \<Rightarrow> 's \<Rightarrow> 's option" where
  "insert_all ins [] s = Some s"
| "insert_all ins ((c, batch) # input) s = do { s' \<leftarrow> ins c batch s; insert_all ins input s' }"

definition with_choices :: "(nat \<Rightarrow> 'c) \<Rightarrow> record_batch list \<Rightarrow> ('c \<times> record_batch) list" where
  "with_choices choices batches = map (\<lambda>(i, batch). (choices i, batch)) (enumerate 0 batches)"

definition shuffle_execute ::
  "coalesce_env \<Rightarrow> data_type list \<Rightarrow> ('c \<Rightarrow> record_batch \<Rightarrow> 's \<Rightarrow> 's option) \<Rightarrow> ('s \<Rightarrow> 'o option) \<Rightarrow> 's
   \<Rightarrow> (nat \<Rightarrow> 'c) \<Rightarrow> record_batch list \<Rightarrow> 'o option" where
  "shuffle_execute ce schema ins wr s choices input =
     do { coalesced \<leftarrow> coalesce_with_default_batch_size ce schema input;
          s' \<leftarrow> insert_all ins (with_choices choices coalesced) s;
          wr s' }"

text \<open>
  \<open>ShuffleWriterExec::execute\<close> and \<open>RssShuffleWriterExec::execute\<close>, on the batches of their input.  What
  both do with the input: with several round-robin partitions it is sorted by all columns.  The
  decisions of the memory manager about the sorter and about the repartitioner are parameters.
\<close>

record shuffle_spills =
  sorter_spills :: "nat \<Rightarrow> bool"
  writer_spills :: "nat \<Rightarrow> spill_choice"

definition repartitioner_input ::
  "coalesce_env \<Rightarrow> sort_runtime \<Rightarrow> shuffle_env \<Rightarrow> partitioning \<Rightarrow> shuffle_spills \<Rightarrow> record_batch list \<Rightarrow> record_batch list option" where
  "repartitioner_input ce rt env P sp input =
     (if partition_count P = 1 then Some input
      else (case P of
              RoundRobinPartitioning n \<Rightarrow>
                default_ascending_sort ce (sh_externals env) rt (sh_converter env) (sh_schema env) [0..<length (sh_schema env)]
                  (sorter_spills sp) input
            | _ \<Rightarrow> Some input))"

definition shuffle_writer_execute ::
  "coalesce_env \<Rightarrow> sort_runtime \<Rightarrow> shuffle_env \<Rightarrow> partitioning \<Rightarrow> nat \<Rightarrow> shuffle_spills \<Rightarrow> record_batch list \<Rightarrow> (bytes \<times> bytes) option" where
  "shuffle_writer_execute ce rt env P partition_id sp input =
     do { input \<leftarrow> repartitioner_input ce rt env P sp input;
          if partition_count P = 1
          then shuffle_execute ce (sh_schema env) (\<lambda>_. single_insert_batch env) (single_shuffle_write env) None
                 (writer_spills sp) input
          else (case P of
                  SinglePartitioning \<Rightarrow> None
                | _ \<Rightarrow> shuffle_execute ce (sh_schema env) (sort_insert_batch env) (sort_shuffle_write env)
                         (new_sort_repartitioner P partition_id) (writer_spills sp) input) }"

definition rss_shuffle_writer_execute ::
  "coalesce_env \<Rightarrow> sort_runtime \<Rightarrow> shuffle_env \<Rightarrow> partitioning \<Rightarrow> nat \<Rightarrow> shuffle_spills \<Rightarrow> record_batch list
   \<Rightarrow> (nat \<times> bytes) list option" where
  "rss_shuffle_writer_execute ce rt env P partition_id sp input =
     do { input \<leftarrow> repartitioner_input ce rt env P sp input;
          if partition_count P = 1
          then map_option (\<lambda>pushed. [(0, pushed)])
                 (shuffle_execute ce (sh_schema env) (\<lambda>_. rss_single_insert_batch env) (rss_single_shuffle_write env) (ipc_new [])
                    (writer_spills sp) input)
          else (case P of
                  SinglePartitioning \<Rightarrow> None
                | _ \<Rightarrow> shuffle_execute ce (sh_schema env) (rss_insert_batch env) (rss_shuffle_write env)
                         (new_rss_repartitioner P partition_id) (writer_spills sp) input) }"

section \<open>The contract of a repartitioner\<close>

locale repartitioner =
  fixes ins :: "'c \<Rightarrow> record_batch \<Rightarrow> 's \<Rightarrow> 's option" and wr :: "'s \<Rightarrow> 'o option"
    and holds :: "'s \<Rightarrow> record_batch list \<Rightarrow> bool" and input_ok :: "record_batch \<Rightarrow> bool"
    and output_ok :: "'o \<Rightarrow> record_batch list \<Rightarrow> bool"
  assumes insert_batch: "holds s bs \<Longrightarrow> input_ok b \<Longrightarrow> length bs < 2 ^ 32 \<Longrightarrow> \<exists>s'. ins c b s = Some s' \<and> holds s' (bs @ [b])"
    and shuffle_write: "holds s bs \<Longrightarrow> length bs \<le> 2 ^ 32 \<Longrightarrow> \<exists>out. wr s = Some out \<and> output_ok out bs"
begin

lemma insert_all_ok:
  assumes "holds s bs" and "\<forall>(c, b) \<in> set input. input_ok b" and "length bs + length input \<le> 2 ^ 32"
  shows "\<exists>s'. insert_all ins input s = Some s' \<and> holds s' (bs @ map snd input)"
  using assms
proof (induction input arbitrary: s bs)
  case (Cons x input)
  obtain c b where x: "x = (c, b)" by (cases x)
  with Cons.prems have "input_ok b" "length bs < 2 ^ 32" by auto
  from insert_batch [OF Cons.prems(1) this, of c] obtain s1 where s1: "ins c b s = Some s1" "holds s1 (bs @ [b])" by blast
  have "\<forall>(c, b) \<in> set input. input_ok b" "length (bs @ [b]) + length input \<le> 2 ^ 32" using Cons.prems(2,3) by auto
  from Cons.IH [OF s1(2) this] s1(1) x show ?case by auto
qed simp

lemma execute_ok:
  assumes "holds s []" and "coalesce_with_default_batch_size ce schema input = Some bs" and "\<forall>b \<in> set bs. input_ok b"
    and "length bs \<le> 2 ^ 32"
  shows "\<exists>out. shuffle_execute ce schema ins wr s choices input = Some out \<and> output_ok out bs"
proof -
  let ?bs = "with_choices choices bs"
  have bs: "map snd ?bs = bs" by (simp add: with_choices_def comp_def case_prod_beta)
  have "\<forall>(c, b) \<in> set ?bs. input_ok b" using assms(3) by (auto simp: with_choices_def in_set_enumerate_eq)
  moreover have "length ([] :: record_batch list) + length ?bs \<le> 2 ^ 32" using assms(4) by (simp add: with_choices_def)
  ultimately obtain s' where s': "insert_all ins ?bs s = Some s'" "holds s' bs" using insert_all_ok [OF assms(1)] bs by fastforce
  from shuffle_write [OF s'(2)] assms(2,4) s'(1) show ?thesis by (auto simp: shuffle_execute_def)
qed

end

section \<open>Appending the spills\<close>

lemma begins_nth: "p < n \<Longrightarrow> begins secs n ! p = length (concat (take p secs))"
  by (simp add: begins_def)

lemma begins_mono: "p \<le> q \<Longrightarrow> length (concat (take p secs)) \<le> length (concat (take q secs))"
proof -
  assume "p \<le> q"
  then have "take q secs = take p secs @ take (q - p) (drop p secs)" by (metis le_add_diff_inverse take_add)
  then show ?thesis by simp
qed

lemma begins_ok: "length secs = n \<Longrightarrow> offsets_ok n \<lparr>offsets = begins secs (Suc n), odata = k\<rparr>"
  by (simp add: offsets_ok_def begins_def sorted_iff_nth_mono begins_mono del: upt_Suc)

text \<open>The section between two offsets.\<close>

lemma begins_section:
  assumes "p < length secs"
  shows "take (begins secs (length secs + 1) ! (p + 1) - begins secs (length secs + 1) ! p)
     (drop (begins secs (length secs + 1) ! p) (concat secs)) = secs ! p"
proof -
  have "concat secs = concat (take p secs) @ secs ! p @ concat (drop (Suc p) secs)"
    by (metis assms concat.simps(2) concat_append id_take_nth_drop)
  moreover have "length (concat (take (Suc p) secs)) = length (concat (take p secs)) + length (secs ! p)"
    using assms by (simp add: take_Suc_conv_app_nth)
  ultimately show ?thesis using assms by (simp add: begins_nth del: upt_Suc)
qed

text \<open>The iterator over spills with the given sections: what is left of every spill starts at its cursor.\<close>

definition spills_inv :: "nat \<Rightarrow> bytes list list \<Rightarrow> nat merge_iter \<Rightarrow> bytes list \<Rightarrow> bool" where
  "spills_inv np secss it readers =
     (merge_inv it \<and> num_partitions it = np \<and> (\<forall>secs \<in> set secss. length secs = np)
      \<and> length (rq_values (cursors it)) = length secss \<and> length readers = length secss
      \<and> (\<forall>k < length secss. ocursor_src (rq_values (cursors it) ! k) = \<lparr>offsets = begins (secss ! k) (np + 1), odata = k\<rparr>
           \<and> readers ! k = drop (begins (secss ! k) (np + 1) ! ocur (rq_values (cursors it) ! k)) (concat (secss ! k))))"

lemma append_spills_step:
  assumes inv: "spills_inv np secss it readers"
  defines "c \<equiv> rq_values (cursors it) ! top_index (cursors it)"
  assumes active: "ocur c < np"
  shows "\<exists>k r it' reader. merge_next it = Some (Some (ocur c, k, r), it') \<and> k < length secss \<and> vget readers k = Some reader
     \<and> take (snd r - fst r) reader = secss ! k ! ocur c
     \<and> spills_inv np secss it' (readers[k := drop (snd r - fst r) reader])
     \<and> size (all_rest it') < size (all_rest it)"
proof -
  have m: "merge_inv it" "num_partitions it = np" using inv by (simp_all add: spills_inv_def)
  note top = merge_inv_top [OF m(1), folded c_def]
  from merge_next_step [OF m(1), folded c_def] active m(2) obtain r it' where
    s: "merge_next it = Some (Some (ocur c, odata (ocursor_src c), r), it')" "merge_inv it'" "num_partitions it' = np"
      "all_rest it = add_mset (ocur c, odata (ocursor_src c), r) (all_rest it')"
      "r = (offsets (ocursor_src c) ! ocur c, offsets (ocursor_src c) ! (ocur c + 1))"
      "rq_values (cursors it') = (rq_values (cursors it))[top_index (cursors it) := forward_cursor c]" by auto
  let ?k = "top_index (cursors it)" and ?f = "forward_cursor c"
  have k: "?k < length secss" using top(2) inv by (simp add: spills_inv_def)
  let ?secs = "secss ! ?k" and ?b = "begins (secss ! ?k) (np + 1)"
  have src: "ocursor_src c = \<lparr>offsets = ?b, odata = ?k\<rparr>" and rd: "readers ! ?k = drop (?b ! ocur c) (concat ?secs)"
    and len: "length ?secs = np" "length readers = length secss"
    using inv k by (simp_all add: spills_inv_def c_def)
  have ck: "cursor_ok np c" using merge_invD(1) [OF m(1) top(3)] m(2) by simp
  note fwd = forward_cursor_ok [OF ck active]
  have r: "r = (?b ! ocur c, ?b ! (ocur c + 1))" using s(5) src by simp
  have mono: "?b ! ocur c \<le> ?b ! (ocur c + 1)" using active by (simp add: begins_nth begins_mono del: upt_Suc)
  have "take (snd r - fst r) (readers ! ?k) = ?secs ! ocur c"
    unfolding r rd using begins_section [of "ocur c" ?secs] active len(1) by simp
  moreover have "drop (snd r - fst r) (readers ! ?k) = drop (?b ! ocur ?f) (concat ?secs)"
  proof -
    have "?b ! (ocur c + 1) = ?b ! ocur ?f" using flatD [OF fwd(5), of "ocur c + 1"] fwd(2) src by simp
    then show ?thesis unfolding r rd using mono by simp
  qed
  then have "spills_inv np secss it' (readers[?k := drop (snd r - fst r) (readers ! ?k)])"
    using inv s(2,3,6) fwd(3) src k by (simp add: spills_inv_def nth_list_update)
  ultimately show ?thesis using s(1,4) src k len(2)
    by (intro exI [of _ ?k] exI [of _ r] exI [of _ it'] exI [of _ "readers ! ?k"]) (simp add: vget_def)
qed

lemma append_spills_ok:
  assumes "spills_inv np secss it readers"
  shows "\<exists>items it'. append_spills it readers out = Some (out @ concat (map (\<lambda>x. secss ! fst (snd x) ! fst x) items), it')
     \<and> merge_drain it = Some (items, it')"
  using assms
proof (induction "size (all_rest it)" arbitrary: it readers out rule: less_induct)
  case less
  let ?c = "rq_values (cursors it) ! top_index (cursors it)"
  have m: "merge_inv it" "num_partitions it = np" using less.prems by (simp_all add: spills_inv_def)
  show ?case
  proof (cases "ocur ?c < np")
    case True
    from append_spills_step [OF less.prems True] obtain k r it1 reader where
      s: "merge_next it = Some (Some (ocur ?c, k, r), it1)" "vget readers k = Some reader"
        "take (snd r - fst r) reader = secss ! k ! ocur ?c" "spills_inv np secss it1 (readers[k := drop (snd r - fst r) reader])"
        "size (all_rest it1) < size (all_rest it)" by blast
    from less.hyps [OF s(5,4), of "out @ secss ! k ! ocur ?c"] obtain items it' where
      ih: "append_spills it1 (readers[k := drop (snd r - fst r) reader]) (out @ secss ! k ! ocur ?c)
          = Some ((out @ secss ! k ! ocur ?c) @ concat (map (\<lambda>x. secss ! fst (snd x) ! fst x) items), it')"
        "merge_drain it1 = Some (items, it')" by blast
    have "append_spills it readers out
        = Some (out @ concat (map (\<lambda>x. secss ! fst (snd x) ! fst x) ((ocur ?c, k, r) # items)), it')"
      using s(1-3) ih(1) by (subst append_spills.simps) (simp add: split_beta)
    moreover have "merge_drain it = Some ((ocur ?c, k, r) # items, it')"
      using s(1) ih(2) by (subst merge_drain.simps) simp
    ultimately show ?thesis by blast
  next
    case False
    with merge_next_end(1) [OF m(1)] m(2) have "merge_next it = Some (None, with_offsets it (ocur ?c))" by simp
    then have "append_spills it readers out = Some (out @ [], with_offsets it (ocur ?c))"
      "merge_drain it = Some ([], with_offsets it (ocur ?c))"
      by (subst append_spills.simps, simp, subst merge_drain.simps, simp)
    then show ?thesis by (intro exI [of _ "[]"] exI [of _ "with_offsets it (ocur ?c)"]) simp
  qed
qed

section \<open>The sections of the data file\<close>

lemma sorted_sections:
  assumes "sorted (map fst items)"
  shows "concat (map (\<lambda>p. filter (\<lambda>x. fst x = p) items) [0..<n]) = filter (\<lambda>x. fst x < (n :: nat)) items"
  by (induction n) (simp_all add: sorted_filter_Suc [OF assms])

lemma begins_eq_iff: "p < length secs \<Longrightarrow> begins secs (length secs + 1) ! p = begins secs (length secs + 1) ! (p + 1) \<longleftrightarrow> secs ! p = []"
  by (simp add: begins_nth take_Suc_conv_app_nth del: upt_Suc)

text \<open>Adding up over the ranges of a partition is adding up over the spills.\<close>

lemma sum_at_partition:
  fixes G :: "nat \<Rightarrow> 'a :: comm_monoid_add"
  assumes secss: "\<forall>secs \<in> set secss. length secs = np" and p: "p < np" and zero: "\<And>k. k < length secss \<Longrightarrow> secss ! k ! p = [] \<Longrightarrow> G k = 0"
  shows "(\<Sum>x \<in># filter_mset (\<lambda>x. fst x = p)
      (\<Sum>off \<leftarrow> map (\<lambda>k. \<lparr>offsets = begins (secss ! k) (np + 1), odata = k\<rparr>) [0..<length secss]. mset (ranges_from np off 0)).
      G (fst (snd x))) = (\<Sum>k \<leftarrow> [0..<length secss]. G k)"
proof -
  have one: "(\<Sum>x \<in># filter_mset (\<lambda>x. fst x = p) (mset (ranges_from np \<lparr>offsets = begins (secss ! k) (np + 1), odata = k\<rparr> 0)).
      G (fst (snd x))) = G k" if k: "k < length secss" for k
  proof -
    have "length (secss ! k) = np" using secss k by simp
    with p begins_eq_iff [of p "secss ! k"] zero [OF k] show ?thesis
      unfolding mset_filter [symmetric] filter_ranges [OF p] by auto
  qed
  have "(\<Sum>x \<in># filter_mset (\<lambda>x. fst x = p)
      (\<Sum>off \<leftarrow> map (\<lambda>k. \<lparr>offsets = begins (secss ! k) (np + 1), odata = k\<rparr>) ks. mset (ranges_from np off 0)).
      G (fst (snd x))) = (\<Sum>k \<leftarrow> ks. G k)" if "set ks \<subseteq> {..<length secss}" for ks
    using that by (induction ks) (simp_all add: one [folded Suc_eq_plus1])
  then show ?thesis by (simp add: atLeast0LessThan)
qed

text \<open>The length of the partitions before \<open>p\<close> is what the spills have before \<open>p\<close>.\<close>

lemma length_before_partition:
  assumes secss: "\<forall>secs \<in> set secss. length secs = np" and p: "p \<le> np" and sorted: "sorted (map fst items)"
    and items: "mset items
      = (\<Sum>off \<leftarrow> map (\<lambda>k. \<lparr>offsets = begins (secss ! k) (np + 1), odata = k\<rparr>) [0..<length secss]. mset (ranges_from np off 0))"
  shows "length (concat (map (\<lambda>x. secss ! fst (snd x) ! fst x) (filter (\<lambda>x. fst x < p) items)))
    = (\<Sum>k \<leftarrow> [0..<length secss]. length (concat (take p (secss ! k))))"
  using p
proof (induction p)
  case (Suc p)
  let ?f = "\<lambda>x. secss ! fst (snd x) ! fst x"
  have "length (concat (map ?f (filter (\<lambda>x. fst x = p) items))) = (\<Sum>x \<leftarrow> filter (\<lambda>x. fst x = p) items. length (?f x))"
    by (simp add: length_concat comp_def)
  also have "\<dots> = (\<Sum>x \<leftarrow> filter (\<lambda>x. fst x = p) items. length (secss ! fst (snd x) ! p))"
    by (intro arg_cong [where f = sum_list] map_cong) auto
  also have "\<dots> = (\<Sum>x \<in># filter_mset (\<lambda>x. fst x = p) (mset items). length (secss ! fst (snd x) ! p))"
    by (simp flip: mset_filter sum_mset_sum_list)
  also have "\<dots> = (\<Sum>k \<leftarrow> [0..<length secss]. length (secss ! k ! p))"
    unfolding items using Suc.prems by (intro sum_at_partition [OF secss]) auto
  finally have at: "length (concat (map ?f (filter (\<lambda>x. fst x = p) items))) = (\<Sum>k \<leftarrow> [0..<length secss]. length (secss ! k ! p))" .
  have "(\<Sum>k \<leftarrow> ks. length (concat (take (Suc p) (secss ! k))))
      = (\<Sum>k \<leftarrow> ks. length (concat (take p (secss ! k)))) + (\<Sum>k \<leftarrow> ks. length (secss ! k ! p))" if "set ks \<subseteq> {..<length secss}" for ks
    using that secss Suc.prems by (induction ks) (simp_all add: take_Suc_conv_app_nth)
  from this [of "[0..<length secss]"] Suc show ?case
    unfolding sorted_filter_Suc [OF sorted] by (simp add: at atLeast0LessThan)
qed simp

context shuffle_setup
begin

definition sections_hold :: "bytes list \<Rightarrow> nat list list \<Rightarrow> record_batch list \<Rightarrow> bool" where
  "sections_hold secs idss bs = (length secs = np \<and> list_all2 legal_ids bs idss
     \<and> (\<forall>p < np. section_holds (secs ! p) (rows_to p idss bs)))"

definition spill_holds :: "bytes offsetted \<Rightarrow> record_batch list \<Rightarrow> bool" where
  "spill_holds off bs = (\<exists>secs idss. off = \<lparr>offsets = begins secs (np + 1), odata = concat secs\<rparr> \<and> sections_hold secs idss bs)"

lemma spill_holdsI: "sections_hold secs idss bs \<Longrightarrow> spill_holds \<lparr>offsets = begins secs (np + 1), odata = concat secs\<rparr> bs"
  unfolding spill_holds_def by blast

lemma section_holds_Nil: "section_holds [] M \<Longrightarrow> M = {#}"
  unfolding section_holds_def by (auto dest!: ipc_blocks_Nil)

lemma section_holds_concat:
  "\<forall>x \<in> set xs. section_holds (f x) (R x) \<Longrightarrow> section_holds (concat (map f xs)) (\<Sum>x \<in># mset xs. R x)"
  by (induction xs) (simp_all add: section_holds_empty section_holds_append)

lemma rows_to_concat:
  assumes "list_all2 (\<lambda>bs idss. length bs = length idss) bss idsss"
  shows "rows_to p (concat idsss) (concat bss) = (\<Sum>k \<leftarrow> [0..<length bss]. rows_to p (idsss ! k) (bss ! k))"
proof -
  have "rows_to p (concat idsss) (concat bss) = sum_list (map2 (rows_to p) idsss bss)"
    using assms by (induction rule: list_all2_induct) (simp_all add: rows_to_append)
  also have "map2 (rows_to p) idsss bss = map (\<lambda>k. rows_to p (idsss ! k) (bss ! k)) [0..<length bss]"
    using list_all2_lengthD [OF assms] by (intro nth_equalityI) simp_all
  finally show ?thesis .
qed

text \<open>Merging the spills puts every partition's sections together.\<close>

lemma merge_spills_ok:
  assumes os: "list_all2 spill_holds os bss" and ne: "os \<noteq> []" and few: "length os < usize_max"
  shows "\<exists>it it' secs idss. new_merge_iter np (map (\<lambda>(k, spill). \<lparr>offsets = offsets spill, odata = k\<rparr>) (enumerate 0 os)) = Some it
    \<and> append_spills it (map odata os) [] = Some (concat secs, it') \<and> merged_offsets it' = begins secs (np + 1)
    \<and> sections_hold secs idss (concat bss)"
proof -
  let ?n = "length os"
  have "\<forall>k < ?n. \<exists>secs idss. os ! k = \<lparr>offsets = begins secs (np + 1), odata = concat secs\<rparr> \<and> sections_hold secs idss (bss ! k)"
    using os by (simp add: list_all2_conv_all_nth spill_holds_def)
  then obtain sec ids where k: "\<And>k. k < ?n \<Longrightarrow> os ! k = \<lparr>offsets = begins (sec k) (np + 1), odata = concat (sec k)\<rparr>"
    "\<And>k. k < ?n \<Longrightarrow> sections_hold (sec k) (ids k) (bss ! k)" by metis
  define secss where "secss = map sec [0..<?n]"
  define idsss where "idsss = map ids [0..<?n]"
  let ?off = "\<lambda>k. \<lparr>offsets = begins (secss ! k) (np + 1), odata = k\<rparr>"
  have len: "length secss = ?n" "length idsss = ?n" "length bss = ?n" using os by (simp_all add: secss_def idsss_def list_all2_lengthD)
  have secss: "\<forall>secs \<in> set secss. length secs = np" using k(2) by (auto simp: secss_def sections_hold_def)
  have srcs: "map (\<lambda>(k, spill). \<lparr>offsets = offsets spill, odata = k\<rparr>) (enumerate 0 os) = map ?off [0..<length secss]"
    by (rule nth_equalityI) (simp_all add: nth_enumerate_eq len k(1), simp add: secss_def)
  have readers: "map odata os = map concat secss" by (rule nth_equalityI) (simp_all add: len k(1), simp add: secss_def)
  have ok: "\<forall>off \<in> set (map ?off [0..<length secss]). offsets_ok np off"
    using secss by (auto intro!: begins_ok)
  have bounds: "map ?off [0..<length secss] \<noteq> []" "length (map ?off [0..<length secss]) < usize_max" "np \<le> usize_max"
    using ne few parts(2) len by (simp_all add: usize_max_def)
  from merge_complete [OF bounds(1) ok bounds(2,3)] obtain it items it' where
    mc: "new_merge_iter np (map ?off [0..<length secss]) = Some it" "merge_drain it = Some (items, it')"
      "sorted (map fst items)" "mset items = (\<Sum>off \<leftarrow> map ?off [0..<length secss]. mset (ranges_from np off 0))"
      "length (merged_offsets it') = np + 1"
      "\<And>p. p \<le> np \<Longrightarrow> merged_offsets it' ! p = (\<Sum>off \<leftarrow> map ?off [0..<length secss]. offsets off ! p - offsets off ! 0)" by blast
  from new_merge_iter_ok [OF bounds(1) ok bounds(2,3)] mc(1) have
    it: "merge_inv it" "num_partitions it = np" "map ocursor_src (rq_values (cursors it)) = map ?off [0..<length secss]" by auto
  have inv: "spills_inv np secss it (map odata os)"
  proof -
    let ?vs = "rq_values (cursors it)"
    have lv: "length ?vs = length secss" using arg_cong [OF it(3), of length] by simp
    have src: "ocursor_src (?vs ! k) = ?off k" if "k < length secss" for k
      using arg_cong [OF it(3), of "\<lambda>l. l ! k"] that lv by simp
    have "cur_offset it = 0" using mc(1) by (auto simp: new_merge_iter_def split: Option.bind_splits if_splits)
    then have "\<forall>d \<in> set ?vs. rows_before (ocursor_src d) (ocur d) = 0"
      using it(1) by (simp add: merge_inv_def sum_list_eq_0_iff)
    then have "rows_before (?off k) (ocur (?vs ! k)) = 0" if "k < length secss" for k
      using that lv src [OF that] nth_mem [of k ?vs] by (metis (no_types, lifting))
    moreover have "begins (secss ! k) (np + 1) ! 0 = 0" for k by (simp add: begins_nth del: upt_Suc)
    ultimately have "begins (secss ! k) (np + 1) ! ocur (?vs ! k) = 0" if "k < length secss" for k
      using that by (simp add: rows_before_def)
    with it(1,2) secss lv src readers show ?thesis by (simp add: spills_inv_def)
  qed
  from append_spills_ok [OF inv, of "[]"] mc(2) have
    run: "append_spills it (map odata os) [] = Some (concat (map (\<lambda>x. secss ! fst (snd x) ! fst x) items), it')" by simp
  define secs where "secs = map (\<lambda>p. concat (map (\<lambda>x. secss ! fst (snd x) ! fst x) (filter (\<lambda>x. fst x = p) items))) [0..<np]"
  have before: "concat (take p secs) = concat (map (\<lambda>x. secss ! fst (snd x) ! fst x) (filter (\<lambda>x. fst x < p) items))" if "p \<le> np" for p
  proof -
    have "concat (map (\<lambda>p. concat (map f (F p))) xs) = concat (map f (concat (map F xs)))" for f :: "item \<Rightarrow> bytes" and F and xs :: "nat list"
      by (induction xs) simp_all
    then show ?thesis using that by (simp add: secs_def take_map sorted_sections [OF mc(3)])
  qed
  have "fst x < np" if "x \<in> set items" for x
  proof -
    from that have "x \<in># mset items" by simp
    then show ?thesis unfolding mc(4) by (auto simp: ranges_from_def)
  qed
  then have all: "filter (\<lambda>x. fst x < np) items = items" by (simp add: filter_id_conv)
  have out: "concat (map (\<lambda>x. secss ! fst (snd x) ! fst x) items) = concat secs"
    using before [of np] all by (simp add: secs_def)
  have merged: "merged_offsets it' = begins secs (np + 1)"
  proof (rule nth_equalityI)
    show "length (merged_offsets it') = length (begins secs (np + 1))" using mc(5) by (simp add: begins_def)
    fix p assume "p < length (merged_offsets it')"
    then have p: "p \<le> np" using mc(5) by simp
    have "merged_offsets it' ! p = (\<Sum>k \<leftarrow> [0..<length secss]. length (concat (take p (secss ! k))))"
      unfolding mc(6) [OF p] map_map comp_def using p by (simp add: begins_nth del: upt_Suc)
    also have "\<dots> = length (concat (take p secs))"
      using length_before_partition [OF secss p mc(3,4)] before [OF p] by simp
    finally show "merged_offsets it' ! p = begins secs (np + 1) ! p" using p by (simp add: begins_nth)
  qed
  have lens: "list_all2 (\<lambda>bs idss. length bs = length idss) bss idsss"
    using k(2) len by (auto simp: list_all2_conv_all_nth idsss_def sections_hold_def)
  have "section_holds (secs ! p) (rows_to p (concat idsss) (concat bss))" if p: "p < np" for p
  proof -
    let ?R = "\<lambda>k. rows_to p (idsss ! k) (bss ! k)"
    have sec: "section_holds (secss ! k ! p) (?R k)" if "k < length secss" for k
      using k(2) [of k] that p len by (simp add: sections_hold_def secss_def idsss_def)
    have "section_holds (secs ! p) (\<Sum>x \<in># mset (filter (\<lambda>x. fst x = p) items). ?R (fst (snd x)))"
    proof -
      have "section_holds (secss ! fst (snd x) ! fst x) (?R (fst (snd x)))" if "x \<in> set (filter (\<lambda>x. fst x = p) items)" for x
      proof -
        from that have "x \<in># mset items" "fst x = p" by simp_all
        then have "fst (snd x) < length secss" unfolding mc(4) by (auto simp: ranges_from_def)
        with sec \<open>fst x = p\<close> show ?thesis by simp
      qed
      then have "section_holds (concat (map (\<lambda>x. secss ! fst (snd x) ! fst x) (filter (\<lambda>x. fst x = p) items)))
          (\<Sum>x \<in># mset (filter (\<lambda>x. fst x = p) items). ?R (fst (snd x)))" by (intro section_holds_concat) blast
      then show ?thesis using p by (simp only: secs_def nth_map_upt minus_nat.diff_0 add_0)
    qed
    also have "(\<Sum>x \<in># mset (filter (\<lambda>x. fst x = p) items). ?R (fst (snd x))) = (\<Sum>k \<leftarrow> [0..<length secss]. ?R k)"
      unfolding mset_filter mc(4) using sec section_holds_Nil by (intro sum_at_partition [OF secss p]) metis
    also have "\<dots> = rows_to p (concat idsss) (concat bss)" using rows_to_concat [OF lens] len by simp
    finally show ?thesis .
  qed
  moreover have "list_all2 legal_ids (concat bss) (concat idsss)"
    using k(2) len by (intro concat_transfer [THEN rel_funD]) (auto simp: list_all2_conv_all_nth idsss_def sections_hold_def)
  ultimately have "sections_hold secs (concat idsss) (concat bss)" by (simp add: sections_hold_def secs_def)
  with mc(1) srcs run out merged show ?thesis by auto
qed

section \<open>The repartitioners\<close>

definition sort_rp_holds :: "sort_repartitioner \<Rightarrow> record_batch list \<Rightarrow> bool" where
  "sort_rp_holds s bs = (\<exists>bss cur. bs = concat bss @ cur \<and> list_all2 spill_holds (rp_spills s) bss
     \<and> buffer_holds m (rp_data s) cur \<and> num_output_partitions s = np)"

definition files_hold :: "bytes \<times> bytes \<Rightarrow> record_batch list \<Rightarrow> bool" where
  "files_hold out bs = (\<exists>secs idss. out = (concat secs, index_bytes (begins secs (np + 1))) \<and> sections_hold secs idss bs)"

lemma bd_write_sections:
  assumes "buffer_holds m bd bs" and "length bs \<le> 2 ^ 32"
  shows "\<exists>secs idss. bd_write env bd = Some (concat secs, begins secs (np + 1)) \<and> sections_hold secs idss bs"
  using bd_write_ok [OF assms] by (auto simp: sections_hold_def)

lemma rp_spill_ok:
  assumes "sort_rp_holds s bs" and "length bs \<le> 2 ^ 32"
  shows "\<exists>s'. rp_spill env s = Some s' \<and> sort_rp_holds s' bs \<and> length (rp_spills s') = length (rp_spills s) + 1"
proof -
  from assms(1) obtain bss cur where b: "bs = concat bss @ cur" "list_all2 spill_holds (rp_spills s) bss"
    "buffer_holds m (rp_data s) cur" "num_output_partitions s = np" by (auto simp: sort_rp_holds_def)
  from bd_write_sections [OF b(3)] assms(2) b(1) obtain secs idss where
    w: "bd_write env (rp_data s) = Some (concat secs, begins secs (np + 1))" "sections_hold secs idss cur" by auto
  let ?off = "\<lparr>offsets = begins secs (np + 1), odata = concat secs\<rparr>"
  let ?s = "s\<lparr>rp_data := new_buffered_data P (bd_partition_id (rp_data s)), rp_spills := rp_spills s @ [?off]\<rparr>"
  have "bd_partitioning (rp_data s) = P" using b(3) by (auto simp: buffer_holds_def buffer_inv_def)
  then have "rp_spill env s = Some ?s" using w(1) by (simp add: rp_spill_def drain_def)
  moreover have "list_all2 spill_holds (rp_spills s @ [?off]) (bss @ [cur])"
    using b(2) spill_holdsI [OF w(2)] by (intro list_all2_appendI) simp_all
  then have "sort_rp_holds ?s bs" unfolding sort_rp_holds_def using b(1,4) new_buffered_data_ok
    by (intro exI [of _ "bss @ [cur]"] exI [of _ "[]"]) simp
  ultimately show ?thesis by simp
qed

lemma spill_if_ok:
  assumes "sort_rp_holds s bs" and "length bs \<le> 2 ^ 32"
  shows "\<exists>s'. spill_if cond (rp_spill env) s = Some s' \<and> sort_rp_holds s' bs \<and> length (rp_spills s') \<le> length (rp_spills s) + 1"
  using rp_spill_ok [OF assms] assms(1) by (auto simp: spill_if_def)

text \<open>An insertion spills at most three times, so there are not too many spills to merge.\<close>

definition few_spills :: "sort_repartitioner \<Rightarrow> record_batch list \<Rightarrow> bool" where
  "few_spills s bs = (length (rp_spills s) \<le> 3 * length bs)"

lemma sort_insert_batch_ok:
  assumes s: "sort_rp_holds s bs" "few_spills s bs" and b: "shuffle_input_ok env P m b" and len: "length bs < 2 ^ 32"
  shows "\<exists>s'. sort_insert_batch env c b s = Some s' \<and> sort_rp_holds s' (bs @ [b]) \<and> few_spills s' (bs @ [b])"
proof -
  from spill_if_ok [OF s(1), of "spill_before c"] len obtain s1 where
    s1: "spill_if (spill_before c) (rp_spill env) s = Some s1" "sort_rp_holds s1 bs" "length (rp_spills s1) \<le> length (rp_spills s) + 1"
    by auto
  from s1(2) obtain bss cur where cur: "bs = concat bss @ cur" "list_all2 spill_holds (rp_spills s1) bss"
    "buffer_holds m (rp_data s1) cur" "num_output_partitions s1 = np" by (auto simp: sort_rp_holds_def)
  from add_batch_ok [OF cur(3) b] len cur(1) obtain data where
    data: "add_batch env b (rp_data s1) = Some data" "buffer_holds m data (cur @ [b])" by auto
  have "sort_rp_holds (s1\<lparr>rp_data := data\<rparr>) (bs @ [b])"
    unfolding sort_rp_holds_def using cur data(2) by (intro exI [of _ bss] exI [of _ "cur @ [b]"]) simp
  from spill_if_ok [OF this, of "spill_after c"] len obtain s2 where
    s2: "spill_if (spill_after c) (rp_spill env) (s1\<lparr>rp_data := data\<rparr>) = Some s2" "sort_rp_holds s2 (bs @ [b])"
      "length (rp_spills s2) \<le> length (rp_spills s1) + 1" by auto
  from spill_if_ok [OF s2(2), of "spill_forced c"] len obtain s3 where
    s3: "spill_if (spill_forced c) (rp_spill env) s2 = Some s3" "sort_rp_holds s3 (bs @ [b])"
      "length (rp_spills s3) \<le> length (rp_spills s2) + 1" by auto
  have "sort_insert_batch env c b s = Some s3" using s1(1) data(1) s2(1) s3(1) by (simp add: sort_insert_batch_def)
  moreover have "few_spills s3 (bs @ [b])" using s(2) s1(3) s2(3) s3(3) by (simp add: few_spills_def)
  ultimately show ?thesis using s3(2) by blast
qed

lemma sort_shuffle_write_ok:
  assumes s: "sort_rp_holds s bs" "few_spills s bs" and len: "length bs \<le> 2 ^ 32"
  shows "\<exists>out. sort_shuffle_write env s = Some out \<and> files_hold out bs"
proof -
  from s(1) obtain bss cur where cur: "bs = concat bss @ cur" "list_all2 spill_holds (rp_spills s) bss"
    "buffer_holds m (rp_data s) cur" "num_output_partitions s = np" by (auto simp: sort_rp_holds_def)
  from bd_write_sections [OF cur(3)] len cur(1) obtain secs idss where
    w: "bd_write env (rp_data s) = Some (concat secs, begins secs (np + 1))" "sections_hold secs idss cur" by auto
  show ?thesis
  proof (cases "rp_spills s = []")
    case True
    with cur(1,2) w(2) have "files_hold (concat secs, index_bytes (begins secs (np + 1))) bs" by (auto simp: files_hold_def)
    with True w(1) show ?thesis by (simp add: sort_shuffle_write_def drain_def)
  next
    case False
    let ?off = "\<lparr>offsets = begins secs (np + 1), odata = concat secs\<rparr>"
    define spills where "spills = (if \<not> bd_is_empty (rp_data s) then rp_spills s @ [?off] else rp_spills s)"
    define bss' where "bss' = (if \<not> bd_is_empty (rp_data s) then bss @ [cur] else bss)"
    have "cur = []" if "bd_is_empty (rp_data s)"
      using that cur(3) by (auto simp: buffer_holds_def buffer_inv_def bd_is_empty_def)
    then have bs: "concat bss' = bs" using cur(1) by (simp add: bss'_def)
    have "list_all2 spill_holds spills bss'"
      using cur(2) spill_holdsI [OF w(2)] by (simp add: spills_def bss'_def list_all2_appendI)
    moreover have "spills \<noteq> []" "length spills < usize_max"
      using False s(2) len by (simp_all add: spills_def few_spills_def usize_max_def)
    ultimately obtain it it' secs' idss' where
      mg: "new_merge_iter np (map (\<lambda>(k, spill). \<lparr>offsets = offsets spill, odata = k\<rparr>) (enumerate 0 spills)) = Some it"
        "append_spills it (map odata spills) [] = Some (concat secs', it')" "merged_offsets it' = begins secs' (np + 1)"
        "sections_hold secs' idss' bs" using merge_spills_ok [of spills bss'] unfolding bs by blast
    have "(if \<not> bd_is_empty (rp_data s) then do { (written, offs) \<leftarrow> bd_write env (rp_data s);
        Some (rp_spills s @ [\<lparr>offsets = offs, odata = written\<rparr>]) } else Some (rp_spills s)) = Some spills"
      using w(1) by (simp add: spills_def)
    with False mg(1-3) cur(4) have "sort_shuffle_write env s = Some (concat secs', index_bytes (begins secs' (np + 1)))"
      by (simp add: sort_shuffle_write_def drain_def)
    moreover have "files_hold (concat secs', index_bytes (begins secs' (np + 1))) bs" using mg(4) by (auto simp: files_hold_def)
    ultimately show ?thesis by blast
  qed
qed

text \<open>The same for the remote service.\<close>

definition pushes_hold :: "(nat \<times> bytes) list \<Rightarrow> record_batch list \<Rightarrow> bool" where
  "pushes_hold pushed bs = (\<exists>idss. list_all2 legal_ids bs idss \<and> (\<forall>p < np. section_holds (pushed_to p pushed) (rows_to p idss bs)))"

lemma pushes_hold_append:
  assumes "pushes_hold xs bs" and "pushes_hold ys cs"
  shows "pushes_hold (xs @ ys) (bs @ cs)"
proof -
  from assms obtain idss jdss where i: "list_all2 legal_ids bs idss" "\<forall>p < np. section_holds (pushed_to p xs) (rows_to p idss bs)"
    and j: "list_all2 legal_ids cs jdss" "\<forall>p < np. section_holds (pushed_to p ys) (rows_to p jdss cs)" by (auto simp: pushes_hold_def)
  moreover have "length idss = length bs" using i(1) by (simp add: list_all2_lengthD)
  ultimately show ?thesis unfolding pushes_hold_def
    by (intro exI [of _ "idss @ jdss"]) (simp add: list_all2_appendI rows_to_append section_holds_append)
qed

definition rss_rp_holds :: "rss_repartitioner \<Rightarrow> record_batch list \<Rightarrow> bool" where
  "rss_rp_holds s bs = (\<exists>done cur. bs = done @ cur \<and> pushes_hold (rss_pushed s) done \<and> buffer_holds m (rss_data s) cur)"

lemma rss_spill_ok:
  assumes "rss_rp_holds s bs" and "length bs \<le> 2 ^ 32"
  shows "\<exists>s'. rss_spill env s = Some s' \<and> rss_rp_holds s' bs \<and> pushes_hold (rss_pushed s') bs"
proof -
  from assms(1) obtain prev cur where b: "bs = prev @ cur" "pushes_hold (rss_pushed s) prev" "buffer_holds m (rss_data s) cur"
    by (auto simp: rss_rp_holds_def)
  from bd_write_rss_ok [OF b(3)] assms(2) b(1) obtain xs where
    w: "bd_write_rss env (rss_data s) = Some xs" "pushes_hold xs cur" by (auto simp: pushes_hold_def)
  let ?s = "s\<lparr>rss_data := new_buffered_data P (bd_partition_id (rss_data s)), rss_pushed := rss_pushed s @ xs\<rparr>"
  have "bd_partitioning (rss_data s) = P" using b(3) by (auto simp: buffer_holds_def buffer_inv_def)
  then have "rss_spill env s = Some ?s" using w(1) by (simp add: rss_spill_def drain_def)
  moreover have "pushes_hold (rss_pushed ?s) bs" using pushes_hold_append [OF b(2) w(2)] b(1) by simp
  moreover from this have "rss_rp_holds ?s bs" unfolding rss_rp_holds_def using new_buffered_data_ok
    by (intro exI [of _ bs] exI [of _ "[]"]) simp
  ultimately show ?thesis by blast
qed

lemma rss_spill_if_ok:
  assumes "rss_rp_holds s bs" and "length bs \<le> 2 ^ 32"
  shows "\<exists>s'. spill_if cond (rss_spill env) s = Some s' \<and> rss_rp_holds s' bs"
  using rss_spill_ok [OF assms] assms(1) by (auto simp: spill_if_def)

lemma rss_insert_batch_ok:
  assumes s: "rss_rp_holds s bs" and b: "shuffle_input_ok env P m b" and len: "length bs < 2 ^ 32"
  shows "\<exists>s'. rss_insert_batch env c b s = Some s' \<and> rss_rp_holds s' (bs @ [b])"
proof -
  from rss_spill_if_ok [OF s, of "spill_before c"] len obtain s1 where
    s1: "spill_if (spill_before c) (rss_spill env) s = Some s1" "rss_rp_holds s1 bs" by auto
  from s1(2) obtain prev cur where cur: "bs = prev @ cur" "pushes_hold (rss_pushed s1) prev" "buffer_holds m (rss_data s1) cur"
    by (auto simp: rss_rp_holds_def)
  from add_batch_ok [OF cur(3) b] len cur(1) obtain data where
    data: "add_batch env b (rss_data s1) = Some data" "buffer_holds m data (cur @ [b])" by auto
  have "rss_rp_holds (s1\<lparr>rss_data := data\<rparr>) (bs @ [b])"
    unfolding rss_rp_holds_def using cur data(2) by (intro exI [of _ prev] exI [of _ "cur @ [b]"]) simp
  from rss_spill_if_ok [OF this, of "spill_after c"] len obtain s2 where
    s2: "spill_if (spill_after c) (rss_spill env) (s1\<lparr>rss_data := data\<rparr>) = Some s2" "rss_rp_holds s2 (bs @ [b])" by auto
  from rss_spill_if_ok [OF s2(2), of "spill_forced c"] len s1(1) data(1) s2(1) show ?thesis
    by (auto simp: rss_insert_batch_def)
qed

text \<open>One partition, written without a buffer.\<close>

definition single_input_ok :: "record_batch \<Rightarrow> bool" where
  "single_input_ok b = (batch_of schema b \<and> rb_num_rows b < 2 ^ 64)"

definition single_holds :: "ipc_writer \<Rightarrow> record_batch list \<Rightarrow> bool" where
  "single_holds w bs = (\<exists>ws. writer_holds (sh_externals env) (sh_codec env) [] w ws \<and> (\<forall>b \<in> set ws. writable schema b)
     \<and> concat (map batch_rows ws) = concat (map batch_rows bs))"

lemma single_insert_ok:
  assumes w: "single_holds w bs" and b: "single_input_ok b"
  shows "\<exists>w'. bd_write_batch env b w = Some w' \<and> single_holds w' (bs @ [b])"
proof (cases "rb_num_rows b = 0")
  case True
  then have "bd_write_batch env b w = Some w" by (simp add: bd_write_batch_def ipc_write_batch_def ok_of_def)
  moreover have "single_holds w (bs @ [b])" using w True by (auto simp: single_holds_def batch_rows_def)
  ultimately show ?thesis by blast
next
  case False
  from w obtain ws where ws: "writer_holds (sh_externals env) (sh_codec env) [] w ws" "\<forall>b \<in> set ws. writable schema b"
    "concat (map batch_rows ws) = concat (map batch_rows bs)" by (auto simp: single_holds_def)
  have wr: "writable schema b" using False b by (simp add: writable_def single_input_ok_def)
  from writable_serialized [OF envD(2,3) wr] obtain bytes where "serialized (sh_externals env) b bytes" by blast
  from ipc_write_batch_ok [OF envD(4) ws(1) this, of "sh_target_buf_size env"] False obtain w' where
    "bd_write_batch env b w = Some w'" "writer_holds (sh_externals env) (sh_codec env) [] w' (ws @ [b])"
    by (auto simp: bd_write_batch_def ok_of_def)
  with ws(2,3) wr show ?thesis by (auto simp: single_holds_def intro!: exI [of _ "ws @ [b]"])
qed

lemma single_finish_ok:
  assumes "single_holds w bs"
  shows "\<exists>sec. ok_of (finish_current_buf (sh_codec env) w) = Some (clean_writer sec) \<and> section_holds sec (mset (concat (map batch_rows bs)))"
proof -
  from assms obtain ws where ws: "writer_holds (sh_externals env) (sh_codec env) [] w ws" "\<forall>b \<in> set ws. writable schema b"
    "concat (map batch_rows ws) = concat (map batch_rows bs)" by (auto simp: single_holds_def)
  from finish_current_buf_ok [OF envD(4) ws(1)] obtain sec where
    "finish_current_buf (sh_codec env) w = Inr (clean_writer ([] @ sec))" "ipc_blocks (sh_externals env) (sh_codec env) sec ws" by blast
  with ws(2,3) show ?thesis by (auto simp: ok_of_def section_holds_def)
qed

lemma single_holds_new: "single_holds (ipc_new []) []"
  unfolding single_holds_def ipc_new_def using writer_holds_new by (intro exI [of _ "[]"]) simp

definition single_rp_holds :: "ipc_writer option \<Rightarrow> record_batch list \<Rightarrow> bool" where
  "single_rp_holds s bs = (case s of None \<Rightarrow> bs = [] | Some w \<Rightarrow> single_holds w bs)"

definition single_files_hold :: "bytes \<times> bytes \<Rightarrow> record_batch list \<Rightarrow> bool" where
  "single_files_hold out bs = (\<exists>sec. out = (sec, index_bytes [0, length sec]) \<and> section_holds sec (mset (concat (map batch_rows bs))))"

lemma le_bytes_zero: "le_bytes n 0 = replicate n 0"
  by (induction n) simp_all

lemma single_shuffle_write_ok:
  assumes "single_rp_holds s bs"
  shows "\<exists>out. single_shuffle_write env s = Some out \<and> single_files_hold out bs"
proof (cases s)
  case None
  have "replicate 16 (0 :: u8) = replicate 8 0 @ replicate 8 0" by (simp flip: replicate_add)
  with None assms section_holds_empty show ?thesis
    by (simp add: single_shuffle_write_def single_files_hold_def single_rp_holds_def index_bytes_def le_bytes_zero)
next
  case (Some w)
  with single_finish_ok [of w bs] assms show ?thesis
    by (auto simp: single_shuffle_write_def single_files_hold_def single_rp_holds_def index_bytes_def le_bytes_zero)
qed

end

sublocale shuffle_setup \<subseteq> sort_rp: repartitioner "sort_insert_batch env" "sort_shuffle_write env"
  "\<lambda>s bs. sort_rp_holds s bs \<and> few_spills s bs" "shuffle_input_ok env P m" files_hold
  by unfold_locales (use sort_insert_batch_ok sort_shuffle_write_ok in blast)+

sublocale shuffle_setup \<subseteq> rss_rp: repartitioner "rss_insert_batch env" "rss_shuffle_write env" rss_rp_holds
  "shuffle_input_ok env P m" pushes_hold
proof unfold_locales
  show "\<exists>s'. rss_insert_batch env c b s = Some s' \<and> rss_rp_holds s' (bs @ [b])"
    if "rss_rp_holds s bs" "shuffle_input_ok env P m b" "length bs < 2 ^ 32" for s bs b c
    using that by (rule rss_insert_batch_ok)
  show "\<exists>out. rss_shuffle_write env s = Some out \<and> pushes_hold out bs" if "rss_rp_holds s bs" "length bs \<le> 2 ^ 32" for s bs
    using rss_spill_ok [OF that] by (auto simp: rss_shuffle_write_def)
qed

sublocale shuffle_setup \<subseteq> single_rp: repartitioner "\<lambda>_. single_insert_batch env" "single_shuffle_write env" single_rp_holds
  single_input_ok single_files_hold
proof unfold_locales
  show "\<exists>s'. single_insert_batch env b s = Some s' \<and> single_rp_holds s' (bs @ [b])"
    if "single_rp_holds s bs" "single_input_ok b" for s bs b
  proof -
    let ?w = "case s of None \<Rightarrow> ipc_new [] | Some w \<Rightarrow> w"
    have "single_holds ?w bs" using that(1) single_holds_new by (cases s) (simp_all add: single_rp_holds_def)
    from single_insert_ok [OF this that(2)] show ?thesis by (auto simp: single_insert_batch_def single_rp_holds_def)
  qed
qed (rule single_shuffle_write_ok)

sublocale shuffle_setup \<subseteq> rss_single_rp: repartitioner "\<lambda>_. rss_single_insert_batch env" "rss_single_shuffle_write env" single_holds
  single_input_ok "\<lambda>sec bs. section_holds sec (mset (concat (map batch_rows bs)))"
proof unfold_locales
  show "\<exists>s'. rss_single_insert_batch env b s = Some s' \<and> single_holds s' (bs @ [b])"
    if "single_holds s bs" "single_input_ok b" for s bs b
    using single_insert_ok [OF that] by (simp add: rss_single_insert_batch_def)
  show "\<exists>out. rss_single_shuffle_write env s = Some out \<and> section_holds out (mset (concat (map batch_rows bs)))"
    if "single_holds s bs" for s bs
    using single_finish_ok [OF that] by (auto simp: rss_single_shuffle_write_def)
qed

section \<open>Reading the output\<close>

text \<open>The part of the data file between two offsets.\<close>

definition file_section :: "bytes \<Rightarrow> nat list \<Rightarrow> nat \<Rightarrow> bytes" where
  "file_section output_data offs p = take (offs ! (p + 1) - offs ! p) (drop (offs ! p) output_data)"

context shuffle_setup
begin

lemma section_readable:
  assumes "section_holds sec M" and "length sec < 2 ^ 32"
  shows "\<exists>ys. ipc_read_all (sh_externals env) (sh_codec env) schema sec = Some ys \<and> mset (concat (map decoded_rows ys)) = M"
proof -
  from assms(1) obtain bs where "ipc_blocks (sh_externals env) (sh_codec env) sec bs" "\<forall>b \<in> set bs. writable schema b"
    "mset (concat (map batch_rows bs)) = M" by (auto simp: section_holds_def)
  with ipc_read_all_blocks [OF envD(4,2,3) _ assms(2)] show ?thesis by metis
qed

lemma new_sort_repartitioner_ok:
  "sort_rp_holds (new_sort_repartitioner P pid) [] \<and> few_spills (new_sort_repartitioner P pid) []"
  unfolding sort_rp_holds_def few_spills_def using new_buffered_data_ok
  by (auto simp: new_sort_repartitioner_def intro!: exI [of _ "[]"])

lemma new_rss_repartitioner_ok: "rss_rp_holds (new_rss_repartitioner P pid) []"
proof -
  have "pushes_hold [] []" unfolding pushes_hold_def using section_holds_empty by (intro exI [of _ "[]"]) simp
  then show ?thesis unfolding rss_rp_holds_def using new_buffered_data_ok
    by (intro exI [of _ "[]"]) (simp add: new_rss_repartitioner_def)
qed

lemma files_hold_readable:
  assumes "files_hold out bs"
  shows "\<exists>output_data offs idss. out = (output_data, index_bytes offs) \<and> length offs = np + 1 \<and> sorted offs
    \<and> offs ! 0 = 0 \<and> offs ! np = length output_data \<and> list_all2 (ids_ok (sh_converter env) schema P) bs idss
    \<and> (\<forall>p < np. length (file_section output_data offs p) < 2 ^ 32 \<longrightarrow>
         (\<exists>ys. ipc_read_all (sh_externals env) (sh_codec env) schema (file_section output_data offs p) = Some ys
            \<and> mset (concat (map decoded_rows ys)) = rows_to p idss bs))"
proof -
  from assms obtain secs idss where s: "out = (concat secs, index_bytes (begins secs (np + 1)))" "sections_hold secs idss bs"
    by (auto simp: files_hold_def)
  let ?offs = "begins secs (np + 1)"
  have len: "length secs = np" "list_all2 legal_ids bs idss" "\<forall>p < np. section_holds (secs ! p) (rows_to p idss bs)"
    using s(2) by (simp_all add: sections_hold_def)
  have "offsets_ok np \<lparr>offsets = begins secs (Suc np), odata = ()\<rparr>" by (rule begins_ok [OF len(1)])
  then have o: "length ?offs = np + 1" "sorted ?offs" by (simp_all add: offsets_ok_def)
  have "?offs ! 0 = 0" "?offs ! np = length (concat secs)" using len(1) by (simp_all add: begins_nth del: upt_Suc)
  moreover have "list_all2 (ids_ok (sh_converter env) schema P) bs idss"
    using len(2) by (rule list_all2_mono) (simp add: legal_ids_def)
  moreover have "file_section (concat secs) ?offs p = secs ! p" if "p < np" for p
    using begins_section [of p secs] that len(1) by (simp add: file_section_def)
  ultimately show ?thesis using s(1) o len(3) section_readable
    by (intro exI [of _ "concat secs"] exI [of _ ?offs] exI [of _ idss]) simp
qed

lemma sort_writer_readable:
  assumes "coalesce_with_default_batch_size ce schema input = Some bs" and "\<forall>b \<in> set bs. shuffle_input_ok env P m b" and "length bs \<le> 2 ^ 32"
  shows "\<exists>output_data offs idss. shuffle_execute ce schema (sort_insert_batch env) (sort_shuffle_write env)
        (new_sort_repartitioner P partition_id) choices input = Some (output_data, index_bytes offs)
    \<and> length offs = np + 1 \<and> sorted offs
    \<and> offs ! 0 = 0 \<and> offs ! np = length output_data \<and> list_all2 (ids_ok (sh_converter env) schema P) bs idss
    \<and> (\<forall>p < np. length (file_section output_data offs p) < 2 ^ 32 \<longrightarrow>
         (\<exists>ys. ipc_read_all (sh_externals env) (sh_codec env) schema (file_section output_data offs p) = Some ys
            \<and> mset (concat (map decoded_rows ys)) = rows_to p idss bs))"
proof -
  from sort_rp.execute_ok [OF new_sort_repartitioner_ok assms, of partition_id choices] obtain out where
    out: "shuffle_execute ce schema (sort_insert_batch env) (sort_shuffle_write env) (new_sort_repartitioner P partition_id) choices input
        = Some out" "files_hold out bs" by blast
  with files_hold_readable [OF out(2)] show ?thesis by metis
qed

lemma rss_writer_readable:
  assumes "coalesce_with_default_batch_size ce schema input = Some bs" and "\<forall>b \<in> set bs. shuffle_input_ok env P m b" and "length bs \<le> 2 ^ 32"
  shows "\<exists>pushed idss. shuffle_execute ce schema (rss_insert_batch env) (rss_shuffle_write env)
        (new_rss_repartitioner P partition_id) choices input = Some pushed
    \<and> list_all2 (ids_ok (sh_converter env) schema P) bs idss
    \<and> (\<forall>p < np. length (pushed_to p pushed) < 2 ^ 32 \<longrightarrow>
         (\<exists>ys. ipc_read_all (sh_externals env) (sh_codec env) schema (pushed_to p pushed) = Some ys
            \<and> mset (concat (map decoded_rows ys)) = rows_to p idss bs))"
proof -
  from rss_rp.execute_ok [OF new_rss_repartitioner_ok assms, of partition_id choices] obtain pushed idss where
    out: "shuffle_execute ce schema (rss_insert_batch env) (rss_shuffle_write env) (new_rss_repartitioner P partition_id) choices input
        = Some pushed"
      "list_all2 legal_ids bs idss" "\<forall>p < np. section_holds (pushed_to p pushed) (rows_to p idss bs)"
    by (auto simp: pushes_hold_def)
  moreover have "list_all2 (ids_ok (sh_converter env) schema P) bs idss"
    using out(2) by (rule list_all2_mono) (simp add: legal_ids_def)
  ultimately show ?thesis using section_readable by (intro exI [of _ pushed] exI [of _ idss]) simp
qed

lemma single_writer_readable:
  assumes "coalesce_with_default_batch_size ce schema input = Some bs" and "\<forall>b \<in> set bs. batch_of schema b \<and> rb_num_rows b < 2 ^ 64"
    and "length bs \<le> 2 ^ 32" and "np = 1"
  shows "\<exists>output_data pushed.
      shuffle_writer_execute ce rt env P partition_id sp input = Some (output_data, index_bytes [0, length output_data])
    \<and> rss_shuffle_writer_execute ce rt env P partition_id sp input = Some [(0, pushed)]
    \<and> (\<forall>sec \<in> {output_data, pushed}. length sec < 2 ^ 32 \<longrightarrow>
         (\<exists>ys. ipc_read_all (sh_externals env) (sh_codec env) schema sec = Some ys
            \<and> mset (concat (map decoded_rows ys)) = mset (concat (map batch_rows bs))))"
proof -
  have inp: "\<forall>b \<in> set bs. single_input_ok b" using assms(2) by (simp add: single_input_ok_def)
  have "single_rp_holds None []" by (simp add: single_rp_holds_def)
  from single_rp.execute_ok [OF this assms(1) inp assms(3), of "writer_spills sp"] obtain sec where
    f: "shuffle_execute ce schema (\<lambda>_. single_insert_batch env) (single_shuffle_write env) None (writer_spills sp) input
        = Some (sec, index_bytes [0, length sec])"
      "section_holds sec (mset (concat (map batch_rows bs)))" by (auto simp: single_files_hold_def)
  from rss_single_rp.execute_ok [OF single_holds_new assms(1) inp assms(3), of "writer_spills sp"] obtain pushed where
    r: "shuffle_execute ce schema (\<lambda>_. rss_single_insert_batch env) (rss_single_shuffle_write env) (ipc_new []) (writer_spills sp) input
        = Some pushed"
      "section_holds pushed (mset (concat (map batch_rows bs)))" by blast
  show ?thesis using f(1) r(1) assms(4) section_readable [OF f(2)] section_readable [OF r(2)]
    by (intro exI [of _ sec] exI [of _ pushed])
      (simp add: shuffle_writer_execute_def rss_shuffle_writer_execute_def repartitioner_input_def)
qed

end

section \<open>The input of the repartitioner\<close>

text \<open>
  What the writers need of the runtime and of the input: batches of at most \<open>n\<close> rows whose values
  are at most \<open>w\<close> bytes or elements long, on which the partition ids can be computed.  For a
  round-robin partitioning the row format can encode and decode the rows.
\<close>

definition round_robin_ok ::
  "coalesce_env \<Rightarrow> sort_runtime \<Rightarrow> shuffle_env \<Rightarrow> (cell_value list \<Rightarrow> bytes) \<Rightarrow> (cell_value list \<Rightarrow> cell_value list \<Rightarrow> bool)
   \<Rightarrow> nat \<Rightarrow> record_batch list \<Rightarrow> bool" where
  "round_robin_ok ce rt env enc row_le n input =
     ((\<exists>p. prune_try_new (sh_converter env) (sh_schema env) [0..<length (sh_schema env)] (all_columns (sh_schema env)) = Some p
         \<and> row_format_ok (sort_row_converter p) (sh_schema env) enc row_le \<and> compact_converter (sort_row_converter p))
      \<and> runtime_ok rt (ce_batch_size ce + n) \<and> (\<forall>b \<in> set input. \<forall>r \<in> set (batch_rows b). key_fits (enc r))
      \<and> sum_list (map rb_num_rows input) \<le> 2 ^ 32)"

definition shuffle_run_ok ::
  "coalesce_env \<Rightarrow> sort_runtime \<Rightarrow> shuffle_env \<Rightarrow> partitioning \<Rightarrow> (cell_value list \<Rightarrow> bytes) \<Rightarrow> (cell_value list \<Rightarrow> cell_value list \<Rightarrow> bool)
   \<Rightarrow> nat \<Rightarrow> nat \<Rightarrow> nat \<Rightarrow> record_batch list \<Rightarrow> bool" where
  "shuffle_run_ok ce rt env P enc row_le w n m input =
     (shuffle_env_ok env m \<and> coalesce_env_ok ce (set (sh_schema env)) \<and> 3 * ce_batch_size ce + n \<le> m \<and> w * (3 * m) < 2 ^ 31
      \<and> (\<forall>b \<in> set input. stream_input_ok (sh_schema env) w n b \<and> (\<forall>r \<in> set (batch_rows b). slim_row w r))
      \<and> (\<forall>b. batch_of (sh_schema env) b \<and> set (batch_rows b) \<subseteq> set (concat (map batch_rows input)) \<longrightarrow>
           partitionable (sh_converter env) (sh_schema env) P b)
      \<and> (case P of RoundRobinPartitioning k \<Rightarrow> round_robin_ok ce rt env enc row_le n input | _ \<Rightarrow> length input \<le> 2 ^ 32))"

text \<open>The rows that reach the repartitioner: the input rows in order, sorted for a round-robin partitioning.\<close>

definition rows_arrive :: "(row \<Rightarrow> row \<Rightarrow> bool) \<Rightarrow> partitioning \<Rightarrow> row list \<Rightarrow> row list \<Rightarrow> bool" where
  "rows_arrive row_le P rows arrived = (case P of
     RoundRobinPartitioning k \<Rightarrow> mset arrived = mset rows \<and> sorted_wrt row_le arrived
   | _ \<Rightarrow> arrived = rows)"

lemma rows_arrive_set: "rows_arrive row_le P rows arrived \<Longrightarrow> set arrived = set rows"
  by (auto simp: rows_arrive_def dest: mset_eq_setD split: partitioning.splits)

lemma slim_arrived:
  assumes ok: "shuffle_run_ok ce rt env P enc row_le w n m input" and arr: "rows_arrive row_le P (concat (map batch_rows input)) (concat (map batch_rows bs))"
    and b: "\<forall>b \<in> set bs. batch_of (sh_schema env) b \<and> rb_num_rows b \<le> m"
  shows "\<forall>b \<in> set bs. shuffle_input_ok env P m b"
proof
  fix b assume "b \<in> set bs"
  then have sub: "set (batch_rows b) \<subseteq> set (concat (map batch_rows input))" using rows_arrive_set [OF arr] by auto
  have "w * (3 * m) < 2 ^ 31" "\<forall>r \<in> set (concat (map batch_rows input)). slim_row w r"
    using ok unfolding shuffle_run_ok_def by auto
  with sub slim_light [of w _ "3 * m"] have "\<forall>r \<in> set (batch_rows b). light_row (3 * m) r" by blast
  moreover have "batch_of (sh_schema env) b" "rb_num_rows b \<le> m" using b \<open>b \<in> set bs\<close> by auto
  moreover from this(1) sub ok have "partitionable (sh_converter env) (sh_schema env) P b" unfolding shuffle_run_ok_def by blast
  ultimately show "shuffle_input_ok env P m b" by (simp add: shuffle_input_ok_def)
qed

lemma length_le_rows: "\<forall>b \<in> set bs. 0 < rb_num_rows b \<Longrightarrow> length bs \<le> length (concat (map batch_rows bs))"
  by (induction bs) auto

lemma stream_input_mono: "stream_input_ok schema w n b \<Longrightarrow> n \<le> n' \<Longrightarrow> stream_input_ok schema w n' b"
  by (simp add: stream_input_ok_def)

text \<open>Whatever the partitioning, good batches reach the repartitioner.\<close>

lemma arriving_batches:
  assumes ok: "shuffle_run_ok ce rt env P enc row_le w n m input" and np: "1 < partition_count P"
  shows "\<exists>stream bs. repartitioner_input ce rt env P sp input = Some stream
    \<and> coalesce_with_default_batch_size ce (sh_schema env) stream = Some bs
    \<and> rows_arrive row_le P (concat (map batch_rows input)) (concat (map batch_rows bs))
    \<and> (\<forall>b \<in> set bs. shuffle_input_ok env P m b) \<and> length bs \<le> 2 ^ 32"
proof -
  let ?s = "sh_schema env" and ?bs = "ce_batch_size ce"
  have env: "shuffle_env_ok env m" "coalesce_env_ok ce (set ?s)" "3 * ?bs + n \<le> m" "w * (3 * m) < 2 ^ 31"
    and inp: "\<forall>b \<in> set input. stream_input_ok ?s w n b \<and> (\<forall>r \<in> set (batch_rows b). slim_row w r)"
    using ok by (auto simp: shuffle_run_ok_def)
  have width: "w * (?bs + k) < 2 ^ 31" if "?bs + k \<le> m" for k
  proof -
    have "w * (?bs + k) \<le> w * (3 * m)" by (rule mult_le_mono2) (use that in simp)
    then show ?thesis using env(4) by linarith
  qed
  show ?thesis
  proof (cases "\<exists>k. P = RoundRobinPartitioning k")
    case False
    then have plain: "repartitioner_input ce rt env P sp input = Some input" "rows_arrive row_le P xs xs" for xs
      by (auto simp: repartitioner_input_def rows_arrive_def split: partitioning.splits)
    have "?bs + n \<le> m" using env(3) by simp
    from coalesce_stream_ok [OF env(2) width [OF this], of input] inp obtain bs where
      bs: "coalesce_with_default_batch_size ce ?s input = Some bs" "coalesced ce ?s w n input bs" by auto
    then have arr: "rows_arrive row_le P (concat (map batch_rows input)) (concat (map batch_rows bs))"
      using plain(2) by (simp add: coalesced_def)
    moreover have "\<forall>b \<in> set bs. batch_of ?s b \<and> rb_num_rows b \<le> m" using bs(2) env(3) by (fastforce simp: coalesced_def)
    moreover have "length input \<le> 2 ^ 32" using ok False by (auto simp: shuffle_run_ok_def split: partitioning.splits)
    then have "length bs \<le> 2 ^ 32" using bs(2) by (simp add: coalesced_def)
    ultimately show ?thesis using plain(1) bs(1) slim_arrived [OF ok arr] by blast
  next
    case True
    then obtain k where P: "P = RoundRobinPartitioning k" by blast
    with ok have rr: "round_robin_ok ce rt env enc row_le n input" by (simp add: shuffle_run_ok_def)
    then obtain p where p: "prune_try_new (sh_converter env) ?s [0..<length ?s] (all_columns ?s) = Some p"
      "row_format_ok (sort_row_converter p) ?s enc row_le" "compact_converter (sort_row_converter p)"
      by (auto simp: round_robin_ok_def)
    have run: "runtime_ok rt (?bs + n)" "\<forall>b \<in> set input. \<forall>r \<in> set (batch_rows b). key_fits (enc r)"
      "sum_list (map rb_num_rows input) \<le> 2 ^ 32" using rr by (simp_all add: round_robin_ok_def)
    have "w * (2 * ?bs + n) < 2 ^ 31" using width [of "?bs + n"] env(3) by (simp add: mult_2 add.assoc)
    with env run p have srt: "ascending_sort ce (sh_externals env) rt (sh_converter env) ?s p enc row_le w n"
      by unfold_locales (auto simp: shuffle_env_ok_def)
    have "\<forall>b \<in> set input. ascending_sort.input_batch_ok ?s enc w n b"
      using inp run(2) by (simp add: ascending_sort.input_batch_ok_def [OF srt])
    moreover have total: "sum_list (map rb_num_rows input) < usize_max" using run(3) by (simp add: usize_max_def)
    ultimately obtain out where
      out: "default_ascending_sort ce (sh_externals env) rt (sh_converter env) ?s [0..<length ?s] (sorter_spills sp) input = Some out"
        "mset (concat (map batch_rows out)) = mset (concat (map batch_rows input))" "sorted_wrt row_le (concat (map batch_rows out))"
        "\<forall>b \<in> set out. stream_input_ok ?s w (2 * ?bs + n) b \<and> 0 < rb_num_rows b"
      using ascending_sort.ascending_sort_ok [OF srt] by blast
    have "?bs + (2 * ?bs + n) \<le> m" using env(3) by simp
    from coalesce_stream_ok [OF env(2) width [OF this], of out] out(4) obtain bs where
      bs: "coalesce_with_default_batch_size ce ?s out = Some bs" "coalesced ce ?s w (2 * ?bs + n) out bs" by auto
    have rows: "concat (map batch_rows bs) = concat (map batch_rows out)" using bs(2) by (simp add: coalesced_def)
    then have arr: "rows_arrive row_le P (concat (map batch_rows input)) (concat (map batch_rows bs))"
      using out(2,3) P by (simp add: rows_arrive_def)
    have sizes: "\<forall>b \<in> set bs. batch_of ?s b \<and> rb_num_rows b \<le> m" "\<forall>b \<in> set bs. 0 < rb_num_rows b"
      using bs(2) env(3) by (fastforce simp: coalesced_def)+
    have "length bs \<le> length (concat (map batch_rows input))"
      using length_le_rows [OF sizes(2)] arg_cong [OF out(2), of size] rows by simp
    then have "length bs \<le> 2 ^ 32" using run(3) by (simp add: length_concat comp_def)
    moreover have "repartitioner_input ce rt env P sp input = Some out" using out(1) P np by (simp add: repartitioner_input_def)
    ultimately show ?thesis using bs(1) arr slim_arrived [OF ok arr sizes(1)] by blast
  qed
qed

section \<open>Properties\<close>


text \<open>A codec that stores its input, and a run with two range partitions and a spill.\<close>

definition codec_ref :: codec where
  "codec_ref = \<lparr>enc_output = concat, enc_finish = (\<lambda>ws. Some (concat ws)), dec_block = Some\<rparr>"

definition shuffle_env_ref :: shuffle_env where
  "shuffle_env_ref = \<lparr>sh_kernels = kernels_ref, sh_externals = externals_ref, sh_schema = [UInt8],
     sh_converter = (\<lambda>_. Some u8_converter), sh_codec = codec_ref, sh_target_buf_size = 64, sh_mem_size = (\<lambda>_. 32),
     sh_batch_size = 10, sh_output_mem = 1000, sh_task_running = (\<lambda>_. True)\<rparr>"

abbreviation range_ref :: partitioning where
  "range_ref \<equiv> RangePartitioning [first_column] 2 [[1, 3]]"

lemma shuffle_env_ref_ok: "shuffle_env_ok shuffle_env_ref 50"
proof -
  have "kernels_ok kernels_ref (set [UInt8])"
    by (rule kernels_ok_mono [OF kernels_ref_ok]) (simp add: gather_type_def)
  moreover have "codec_ok codec_ref" by (simp add: codec_ok_def codec_ref_def)
  ultimately show ?thesis using externals_ref_ok by (simp add: shuffle_env_ok_def shuffle_env_ref_def serde_prim_def)
qed

interpretation ref_shuffle: shuffle_setup shuffle_env_ref range_ref 50
  by unfold_locales (simp_all add: shuffle_env_ref_ok)

definition u8_batch :: "int list \<Rightarrow> record_batch" where
  "u8_batch vs = \<lparr>rb_schema = [UInt8], rb_columns = [PrimitiveArray UInt8 None vs], rb_num_rows = length vs\<rparr>"

lemma u8_batch_rows: "batch_rows (u8_batch vs) = map (\<lambda>v. [CPrim UInt8 v]) vs"
  by (rule nth_equalityI) (simp_all add: u8_batch_def nth_batch_rows bit_valid_def)

lemma u8_columns:
  assumes "batch_of [UInt8] b"
  shows "\<exists>c. rb_columns b = [c] \<and> array_len c = rb_num_rows b \<and> rows_of (rb_num_rows b) [c] = batch_rows b"
  using assms by (auto simp: batch_of_def batch_rows_of map_eq_Cons_conv)

lemma u8_partitionable:
  assumes "batch_of [UInt8] b"
  shows "partitionable (\<lambda>_. Some u8_converter) [UInt8] range_ref b"
    and "ids_ok (\<lambda>_. Some u8_converter) [UInt8] range_ref b ids \<longleftrightarrow> ids = map (range_partition [[1, 3]] \<circ> u8_encode) (batch_rows b)"
proof -
  obtain c where "rb_columns b = [c]" "array_len c = rb_num_rows b" "rows_of (rb_num_rows b) [c] = batch_rows b"
    using u8_columns [OF assms] by blast
  then show "partitionable (\<lambda>_. Some u8_converter) [UInt8] range_ref b"
    "ids_ok (\<lambda>_. Some u8_converter) [UInt8] range_ref b ids \<longleftrightarrow> ids = map (range_partition [[1, 3]] \<circ> u8_encode) (batch_rows b)"
    by (auto simp: first_column_def u8_converter_def Cons_eq_map_conv comp_def)
qed

lemma u8_rows_to:
  assumes "list_all2 (ids_ok (\<lambda>_. Some u8_converter) [UInt8] range_ref) bs idss" and "\<forall>b \<in> set bs. batch_of [UInt8] b"
  shows "rows_to p idss bs = mset (filter (\<lambda>r. range_partition [[1, 3]] (u8_encode r) = p) (concat (map batch_rows bs)))"
  using assms
proof (induction rule: list_all2_induct)
  case (Cons b bs ids idss)
  then have "batch_of [UInt8] b" "ids_ok (\<lambda>_. Some u8_converter) [UInt8] range_ref b ids" by simp_all
  then have "ids = map (range_partition [[1, 3]] \<circ> u8_encode) (batch_rows b)" using u8_partitionable(2) by blast
  then have "map snd (filter (\<lambda>t. fst t = p) (zip ids (batch_rows b)))
      = filter (\<lambda>r. range_partition [[1, 3]] (u8_encode r) = p) (batch_rows b)"
    by (simp add: zip_map1 zip_same_conv_map filter_map comp_def)
  then have "rows_to p [ids] [b] = mset (filter (\<lambda>r. range_partition [[1, 3]] (u8_encode r) = p) (batch_rows b))"
    by (simp add: rows_to_def tagged_def)
  with Cons rows_to_append [of "[ids]" "[b]" p idss bs] show ?case by simp
qed simp

lemma u8_batch_of: "\<forall>v \<in> set vs. 0 \<le> v \<and> v < 256 \<Longrightarrow> batch_of [UInt8] (u8_batch vs)"
  by (simp add: u8_batch_def batch_of_def nulls_wf_def prim_in_range_def)

lemma u8_run_ok:
  assumes "\<forall>vs \<in> set vss. (\<forall>v \<in> set vs. 0 \<le> v \<and> v < 256) \<and> length vs \<le> 20" and "length vss \<le> 100"
  shows "shuffle_run_ok coalesce_ref runtime_ref shuffle_env_ref range_ref u8_encode u8_row_le 1 20 50 (map u8_batch vss)"
    and "shuffle_run_ok coalesce_ref runtime_ref shuffle_env_ref (RoundRobinPartitioning 2) u8_encode u8_row_le 1 20 50 (map u8_batch vss)"
proof -
  have in_ok: "stream_input_ok [UInt8] 1 20 (u8_batch vs) \<and> (\<forall>r \<in> set (batch_rows (u8_batch vs)). slim_row 1 r)" if "vs \<in> set vss" for vs
    using assms(1) that u8_batch_of [of vs] unfolding u8_batch_rows
    by (auto simp: stream_input_ok_def dense_def slim_row_def u8_batch_def)
  have env: "shuffle_env_ok shuffle_env_ref 50" "sh_schema shuffle_env_ref = [UInt8]" "sh_converter shuffle_env_ref = (\<lambda>_. Some u8_converter)"
    "ce_batch_size coalesce_ref = 10" by (rule shuffle_env_ref_ok) (simp_all add: shuffle_env_ref_def coalesce_ref_def)
  show "shuffle_run_ok coalesce_ref runtime_ref shuffle_env_ref range_ref u8_encode u8_row_le 1 20 50 (map u8_batch vss)"
    unfolding shuffle_run_ok_def env(2-4) using env(1) bytes_sort.coalescing in_ok u8_partitionable(1) assms(2) by auto
  have "sum_list (map (rb_num_rows \<circ> u8_batch) vss) \<le> sum_list (map (\<lambda>_. 20) vss)"
    by (rule sum_list_mono) (use assms(1) in \<open>simp add: u8_batch_def\<close>)
  then have "sum_list (map rb_num_rows (map u8_batch vss)) \<le> 2 ^ 32" using assms(2) by (simp add: sum_list_triv)
  moreover have "key_fits (u8_encode r)" if "vs \<in> set vss" "r \<in> set (batch_rows (u8_batch vs))" for vs r
    using that(2) unfolding u8_batch_rows by auto
  ultimately have "round_robin_ok coalesce_ref runtime_ref shuffle_env_ref u8_encode u8_row_le 20 (map u8_batch vss)"
    unfolding round_robin_ok_def env(2,3) using bytes_sort.new bytes_sort.row_format bytes_sort.compact bytes_sort.runtime by auto
  then show "shuffle_run_ok coalesce_ref runtime_ref shuffle_env_ref (RoundRobinPartitioning 2) u8_encode u8_row_le 1 20 50 (map u8_batch vss)"
    unfolding shuffle_run_ok_def env(2-4) using env(1) bytes_sort.coalescing in_ok by auto
qed

text \<open>The sections of small batches of one byte column are small.\<close>

lemma write_bits_loop_length: "write_bits_loop buf off js out = Inr out' \<Longrightarrow> length out' = length out"
  by (induction js arbitrary: out) (auto simp: set_bit_raw_def split: if_splits)

lemma u8_serialized_length:
  assumes "writable [UInt8] b" and "rb_num_rows b < 128" and "serialized externals_ref b w"
  shows "length w \<le> 4 * rb_num_rows b"
proof -
  from assms(1) have "map data_type_of (rb_columns b) = [UInt8]" and n: "0 < rb_num_rows b"
    and wf: "\<forall>a \<in> set (rb_columns b). array_wf a \<and> array_len a = rb_num_rows b"
    by (simp_all add: writable_def batch_of_def)
  then obtain a where "rb_columns b = [a]" "data_type_of a = UInt8" by (auto simp: map_eq_Cons_conv)
  with primitive_shape [of a UInt8] wf obtain nb vs where
    a: "rb_columns b = [PrimitiveArray UInt8 nb vs]" "nulls_wf nb (rb_num_rows b)" "length vs = rb_num_rows b" by auto
  have small: "128 \<le> (of_nat (rb_num_rows b) :: usize) \<longleftrightarrow> False"
    using assms(2) by (simp add: word_le_nat_alt unat_of_nat)
  have nulls: "length ws \<le> 1 + rb_num_rows b" if "write_nulls nb = Inr ws" for ws
  proof (cases nb)
    case None
    with that n show ?thesis by (auto simp: write_nulls_def write_len.simps [of 0] write_u8_def)
  next
    case (Some bits)
    obtain buf off len where bits: "bits = (buf, off, len)" by (cases bits)
    with Some that a(2) obtain body where "ws = write_len 1 @ body" "length body = (rb_num_rows b + 7) div 8"
      by (auto simp: write_nulls_def out_seq_def res_bind_Inr_iff nulls_wf_def dest!: write_bits_loop_length)
    with n show ?thesis by (simp add: write_len.simps [of 1] write_u8_def word_le_nat_alt)
  qed
  have "length (concat (map (prim_bytes 1) vs)) = rb_num_rows b" using a(3) by (simp add: length_concat comp_def sum_list_triv prim_bytes_def)
  with assms(3) a(1) nulls n small show ?thesis
    by (auto simp: serialized_def write_batch_def out_seq_def res_bind_Inr_iff write_primitive_array_def write_transposed_def
        with_transpose_def serde_prim_def write_len.simps [of "of_nat (rb_num_rows b)"] write_u8_def split: if_splits)
qed

lemma u8_section_length:
  assumes "ref_shuffle.section_holds sec M" and "size M < 128"
  shows "length sec \<le> 8 * size M"
proof -
  from assms(1) obtain bs where bs: "ipc_blocks externals_ref codec_ref sec bs" "\<forall>b \<in> set bs. writable [UInt8] b"
    "mset (concat (map batch_rows bs)) = M" unfolding ref_shuffle.section_holds_def by (auto simp: shuffle_env_ref_def)
  have M: "size M = sum_list (map rb_num_rows bs)" using arg_cong [OF bs(3), of size] by (simp add: length_concat comp_def)
  have pieces: "length (concat ws) \<le> 4 * sum_list (map rb_num_rows bs) \<and> (bs \<noteq> [] \<longrightarrow> 0 < sum_list (map rb_num_rows bs))"
    if "list_all2 (serialized externals_ref) bs ws" "\<forall>b \<in> set bs. writable [UInt8] b" "sum_list (map rb_num_rows bs) < 128" for bs ws
    using that
  proof (induction rule: list_all2_induct)
    case (Cons b bs w ws)
    then have "length w \<le> 4 * rb_num_rows b" by (intro u8_serialized_length) simp_all
    with Cons show ?case by (simp add: writable_def)
  qed simp
  have "length sec \<le> 8 * sum_list (map rb_num_rows bs)" if "sum_list (map rb_num_rows bs) < 128"
    using bs(1,2) that
  proof (induction rule: ipc_blocks.induct)
    case (block ws bs payload sec bs')
    have "payload = concat ws" using block.hyps(3) by (simp add: codec_ref_def)
    with pieces [OF block.hyps(2)] block show ?case by (cases bs) auto
  qed simp
  with M assms(2) show ?thesis by simp
qed

lemma ref_run_small:
  assumes ok: "shuffle_run_ok coalesce_ref runtime_ref shuffle_env_ref range_ref u8_encode u8_row_le 1 20 50 input"
    and run: "shuffle_writer_execute coalesce_ref runtime_ref shuffle_env_ref range_ref 0 sp input = Some (output_data, idx)"
    and rows: "length (concat (map batch_rows input)) < 128"
  shows "length output_data < 2 ^ 32"
proof -
  from arriving_batches [OF ok, of sp] obtain stream bs where
    b: "repartitioner_input coalesce_ref runtime_ref shuffle_env_ref range_ref sp input = Some stream"
      "coalesce_with_default_batch_size coalesce_ref (sh_schema shuffle_env_ref) stream = Some bs"
      "rows_arrive u8_row_le range_ref (concat (map batch_rows input)) (concat (map batch_rows bs))"
      "\<forall>b \<in> set bs. shuffle_input_ok shuffle_env_ref range_ref 50 b" "length bs \<le> 2 ^ 32" by auto
  from ref_shuffle.sort_rp.execute_ok [OF ref_shuffle.new_sort_repartitioner_ok b(2,4,5), of 0 "writer_spills sp"] run b(1) obtain secs idss where
    s: "output_data = concat secs" "length secs = 2" "list_all2 ref_shuffle.legal_ids bs idss"
      "\<forall>p < 2. ref_shuffle.section_holds (secs ! p) (rows_to p idss bs)"
    by (auto simp: shuffle_writer_execute_def ref_shuffle.files_hold_def ref_shuffle.sections_hold_def)
  have "length (tagged idss bs) \<le> length (concat (map batch_rows bs))" if "list_all2 ref_shuffle.legal_ids bs idss" for bs idss
    using that unfolding tagged_def by (induction rule: list_all2_induct) (simp_all add: ref_shuffle.legal_ids_def)
  from this [OF s(3)] rows b(3) have "length (tagged idss bs) < 128" by (simp add: rows_arrive_def)
  then have small: "size (rows_to p idss bs) < 128" for p
    unfolding rows_to_def using length_filter_le [of "\<lambda>t. fst t = p" "tagged idss bs"]
    by (simp only: size_mset length_map)
  have "length (secs ! p) \<le> 1024" if "p < 2" for p
    using u8_section_length [OF _ small [of p]] s(4) small [of p] that by fastforce
  then have "length (secs ! 0) \<le> 1024" "length (secs ! 1) \<le> 1024" by simp_all
  moreover have "secs = [secs ! 0, secs ! 1]" using s(2) by (intro nth_equalityI) (auto simp: less_Suc_eq numeral_2_eq_2)
  then have "length output_data = length (secs ! 0) + length (secs ! 1)" unfolding s(1) by (metis append_Nil2 concat.simps length_append)
  ultimately show ?thesis by simp
qed

definition spills_ref :: shuffle_spills where
  "spills_ref = \<lparr>sorter_spills = (\<lambda>i. i = 0), writer_spills = (\<lambda>i. \<lparr>spill_before = False, spill_after = i = 0, spill_forced = False\<rparr>)\<rparr>"


text \<open>
  The same for a remote shuffle service: everything pushed to a partition, in order, is read
  back as exactly the rows of the partition.
\<close>

theorem rss_shuffle_writer_partitions_rows:
  assumes "shuffle_run_ok ce rt env P enc row_le w n m input" and "1 < partition_count P" and "partition_count P < 2 ^ 31"
  shows "\<exists>pushed batches idss. rss_shuffle_writer_execute ce rt env P partition_id sp input = Some pushed
    \<and> rows_arrive row_le P (concat (map batch_rows input)) (concat (map batch_rows batches))
    \<and> list_all2 (ids_ok (sh_converter env) (sh_schema env) P) batches idss
    \<and> (\<forall>p < partition_count P. length (pushed_to p pushed) < 2 ^ 32 \<longrightarrow>
         (\<exists>ys. ipc_read_all (sh_externals env) (sh_codec env) (sh_schema env) (pushed_to p pushed) = Some ys
            \<and> mset (concat (map decoded_rows ys)) = rows_to p idss batches))"
proof -
  have su: "shuffle_setup env P m" by unfold_locales (use assms in \<open>simp_all add: shuffle_run_ok_def\<close>)
  from arriving_batches [OF assms(1,2), of sp] obtain stream bs where
    b: "repartitioner_input ce rt env P sp input = Some stream" "coalesce_with_default_batch_size ce (sh_schema env) stream = Some bs"
      "rows_arrive row_le P (concat (map batch_rows input)) (concat (map batch_rows bs))"
      "\<forall>b \<in> set bs. shuffle_input_ok env P m b" "length bs \<le> 2 ^ 32" by blast
  have "rss_shuffle_writer_execute ce rt env P partition_id sp input
      = shuffle_execute ce (sh_schema env) (rss_insert_batch env) (rss_shuffle_write env) (new_rss_repartitioner P partition_id)
          (writer_spills sp) stream"
    using b(1) assms(2) by (cases P) (simp_all add: rss_shuffle_writer_execute_def)
  then show ?thesis
    using shuffle_setup.rss_writer_readable [OF su b(2,4,5), of partition_id "writer_spills sp"] b(3) by metis
qed

end
