(* ===== verification/Spec2Isabelle.thy ===== *)
theory Spec2Isabelle
  imports Io_Codec Loser_Tree Radix_Sort Radix_Queue Offsetted_Merge Spark_Hash Batch_Serde Scalar_Serde
    Mem_Manager Bloom_Filter Join_Hash_Map Agg_Hash_Map Sort_Merge_Join Sort_Exec Hash_Join_Semi Shuffle_Writer
begin

text \<open>
  Verification of the native engine of Auron, which executes Spark and Flink query plans on
  columnar batches (\<open>src/native-engine\<close>).  Plans arrive through a JNI bridge as protobuf messages;
  operators exchange record batches of the \<open>arrow\<close> library; the operators modelled here are the
  sort, the sort-merge and the hash joins and the shuffle writers, with the hash tables, algorithms,
  encodings and the memory accounting below them.

  Conventions.  A fallible operation answers in \<open>result\<close> (an error or a value) or \<open>option\<close>
  (\<open>None\<close>: an error, a panic, or an unchecked access outside a vector), so that a lemma that
  it answers a value is a safety lemma.  Machine integers are words where wrap-around matters.
  A loop that the code bounds only by its data is a \<open>partial_function (option)\<close>, for which
  termination is proved as part of its correctness lemma; no fuel is used.  Code outside the
  repository (the \<open>arrow\<close> kernels, the row encoding, hash and transposition libraries, the
  unstable sorts of the standard library) is a parameter with named hypotheses, and every property
  with such a hypothesis has a witness on a concrete function.

  Theories and sources (paths below \<open>src/native-engine\<close>):

  \<^item> \<open>Prelude\<close>: results, readers, byte encodings of words, lists updated in place.
  \<^item> \<open>Io_Codec\<close>: \<open>datafusion-ext-commons/src/io/mod.rs\<close>, the variable-length integers.
  \<^item> \<open>Loser_Tree\<close>, \<open>Radix_Sort\<close>, \<open>Radix_Queue\<close>: \<open>datafusion-ext-commons/src/algorithm\<close>.  The locale
    \<open>tournament_order\<close> is the order a loser tree needs; the sort interprets it.
  \<^item> \<open>Offsetted_Merge\<close>: \<open>datafusion-ext-plans/src/common/offsetted.rs\<close>.
  \<^item> \<open>Hash\<close>, \<open>Spark_Hash\<close>: \<open>hash/mur.rs\<close>, \<open>hash/xxhash.rs\<close>, \<open>spark_hash.rs\<close>; the byte hashes against
    reference definitions, the row hashes against the logical values of the rows.
  \<^item> \<open>Arrow_Array\<close>: the array layout and the logical value \<open>cell\<close> of a row.
  \<^item> \<open>Batch_Serde\<close>, \<open>Scalar_Serde\<close>: \<open>io/batch_serde.rs\<close>, \<open>io/scalar_serde.rs\<close>, with round trips.
  \<^item> \<open>Mem_Manager\<close>: \<open>auron-memmgr/src/lib.rs\<close>, the accounting invariant over sequences of operations.
  \<^item> \<open>Bloom_Filter\<close>: \<open>spark_bit_array.rs\<close>, \<open>spark_bloom_filter.rs\<close>.
  \<^item> \<open>Group_Table\<close>, \<open>Join_Hash_Map\<close>, \<open>Agg_Hash_Map\<close>: the probing tables of \<open>joins/join_hash_map.rs\<close> and
    \<open>agg/agg_hash_map.rs\<close>, refined to lists of rows and to a key index.
  \<^item> \<open>Row_Null_Checker\<close>, \<open>Stream_Cursor\<close>, \<open>Smj_Full_Join\<close>, \<open>Smj_Semi_Join\<close>, \<open>Sort_Merge_Join\<close>: the
    sort-merge join (\<open>common/row_null_checker.rs\<close>, \<open>joins/stream_cursor.rs\<close>, \<open>joins/smj\<close>,
    \<open>sort_merge_join_exec.rs\<close>), whose output is the relational join.
  \<^item> \<open>Eq_Comparator\<close>, \<open>Hash_Join\<close>, \<open>Hash_Join_Semi\<close>: the hash joins (\<open>arrow/eq_comparator.rs\<close>,
    \<open>joins/bhj\<close>, \<open>broadcast_join_exec.rs\<close>), whose output is the relational join too, on keys whose values
    compare exactly and without a projection of the output.
  \<^item> \<open>Arrow_Selection\<close>, \<open>Coalesce\<close>: \<open>arrow/selection.rs\<close> and \<open>arrow/coalesce.rs\<close> with the coalescing stream of
    \<open>common/execution_context.rs\<close>: gathering and appending of arrays and batches.
  \<^item> \<open>Sort_Keys\<close>, \<open>Sort_Merger\<close>, \<open>External_Sort\<close>, \<open>Sort_Exec\<close>, \<open>Ascending_Sort\<close>: the external sort
    (\<open>sort_exec.rs\<close>): compressed keys, sorted blocks in memory and in spills, the merge over the loser
    tree, the sorter, the pruning of key columns and the operator.  The locales \<open>batch_store\<close>,
    \<open>sorted_store\<close> and \<open>sort_contract\<close> say what each layer needs of the one below; \<open>sort_exec_setup\<close> is a
    sublocale of them over the real batches.
  \<^item> \<open>Partitioning\<close>, \<open>Ipc_Compression\<close>, \<open>Buffered_Data\<close>, \<open>Buffered_Write\<close>, \<open>Shuffle_Writer\<close>: the shuffle
    (\<open>shuffle/mod.rs\<close>, \<open>io/ipc_compression.rs\<close>, \<open>shuffle/buffered_data.rs\<close>, the four repartitioners,
    \<open>shuffle_writer_exec.rs\<close>, \<open>rss_shuffle_writer_exec.rs\<close>): partition ids, framed and compressed streams
    of batches, the buffer, and the files or pushes from which every partition is read back.

  Side conditions the properties share: rows are so light, or so slim, that the arrays of a batch
  stay within 32-bit offsets; a limit is not 0 (what happens then is a property of its own);
  keys of hash joins have exact types.  Each claim states its own.

  Not modelled, and why: the JNI bridge, the runtime and the plan decoder (glue over the virtual
  machine and generated messages); file formats and connectors, the compression codecs (libraries
  the sources drive; the framing around the codecs is modelled); the spill and shuffle files
  themselves (I/O; a spill hands back what was written); metrics, timers and plan properties;
  asynchronous scheduling (a stream is the list of what it delivers, and the memory manager's
  decision to spill is an arbitrary input); the scalar functions and expressions, the accumulators
  and the aggregation operator around the group hash map, the window operator and the remaining
  operators.
\<close>

end
